(* ===== verification/Fifo.thy ===== *)
theory Fifo
  imports Main
begin

text \<open>
  The contract of a bounded first-in first-out queue, which the ring buffers of the program
  implement, and the array ring with a head index and a length that realises it.
\<close>

locale bounded_fifo =
  fixes ok :: "'q \<Rightarrow> bool" and items :: "'q \<Rightarrow> 'a list" and cap :: nat
    and put :: "'a \<Rightarrow> 'q \<Rightarrow> 'q" and get :: "'q \<Rightarrow> 'a \<times> 'q"
  assumes put_ok: "ok q \<Longrightarrow> length (items q) < cap \<Longrightarrow> ok (put x q)"
    and items_put: "ok q \<Longrightarrow> length (items q) < cap \<Longrightarrow> items (put x q) = items q @ [x]"
    and get_ok: "ok q \<Longrightarrow> items q \<noteq> [] \<Longrightarrow> ok (snd (get q))"
    and items_get: "ok q \<Longrightarrow> items q \<noteq> [] \<Longrightarrow> items q = fst (get q) # items (snd (get q))"
begin

lemma items_puts:
  "ok q \<Longrightarrow> length (items q) + length xs \<le> cap \<Longrightarrow>
    ok (fold put xs q) \<and> items (fold put xs q) = items q @ xs"
proof (induction xs arbitrary: q)
  case (Cons x xs)
  then show ?case using put_ok [of q x] items_put [of q x] by simp
qed simp

primrec gets :: "nat \<Rightarrow> 'q \<Rightarrow> 'a list \<times> 'q" where
  "gets 0 q = ([], q)"
| "gets (Suc n) q = (let (x, q) = get q; (xs, q) = gets n q in (x # xs, q))"

lemma items_gets:
  "ok q \<Longrightarrow> n \<le> length (items q) \<Longrightarrow> ok (snd (gets n q)) \<and>
    fst (gets n q) = take n (items q) \<and> items (snd (gets n q)) = drop n (items q)"
proof (induction n arbitrary: q)
  case (Suc n)
  then have ne: "items q \<noteq> []" by auto
  obtain x q' where g: "get q = (x, q')" by fastforce
  have q': "ok q'" "items q = x # items q'" using get_ok [OF Suc.prems(1) ne] items_get [OF Suc.prems(1) ne] g by simp_all
  show ?case using Suc.IH [of q'] q' Suc.prems(2) by (simp add: g case_prod_beta)
qed simp

text \<open>What goes in comes out in the same order.\<close>

lemma puts_gets:
  assumes "ok q" "items q = []" "length xs \<le> cap"
  shows "fst (gets (length xs) (fold put xs q)) = xs"
  using items_puts [OF assms(1), of xs] items_gets [of "fold put xs q" "length xs"] assms(2,3) by simp

end

section \<open>An array used as a ring\<close>

definition ring_items :: "'a list \<Rightarrow> nat \<Rightarrow> nat \<Rightarrow> 'a list" where
  "ring_items a h n = map (\<lambda>k. a ! ((h + k) mod length a)) [0..<n]"

lemma length_ring_items [simp]: "length (ring_items a h n) = n"
  by (simp add: ring_items_def)

lemma ring_mod_inj:
  fixes h k m N :: nat
  assumes "k < N" "m < N" "(h + k) mod N = (h + m) mod N"
  shows "k = m"
proof -
  have "k mod N = m mod N" using assms(3) by (simp add: nat_mod_eq_iff)
  then show ?thesis using assms(1,2) by simp
qed

lemma ring_put:
  assumes "n < length a" "h < length a"
  shows "ring_items (a[(h + n) mod length a := x]) h (Suc n) = ring_items a h n @ [x]"
proof -
  have "(h + k) mod length a \<noteq> (h + n) mod length a" if "k < n" for k
    using ring_mod_inj [of k "length a" n h] that assms by auto
  moreover have "(h + n) mod length a < length a" using assms by (intro mod_less_divisor) linarith
  ultimately show ?thesis by (auto simp: ring_items_def nth_list_update dest: sym)
qed

lemma ring_get:
  assumes "h < length a"
  shows "ring_items a h (Suc n) = a ! h # ring_items a (Suc h mod length a) n"
proof -
  have "(h + Suc k) mod length a = (Suc h mod length a + k) mod length a" for k
    by (simp add: mod_simps)
  then show ?thesis using assms by (simp add: ring_items_def upt_conv_Cons map_Suc_upt [symmetric] del: upt_Suc)
qed

text \<open>Writing one element more than the ring holds replaces the oldest one.\<close>

lemma ring_overflow:
  assumes "h < length a" "length a = n"
  shows "ring_items (a[(h + n) mod length a := x]) h n = x # tl (ring_items a h n)"
proof -
  obtain m where m: "n = Suc m" using assms by (cases n) auto
  have h: "(h + n) mod length a = h" using assms by simp
  have "(Suc h + k) mod length a \<noteq> h" if "k < m" for k
  proof
    assume "(Suc h + k) mod length a = h"
    then have "(h + Suc k) mod length a = (h + 0) mod length a" using assms(1) by simp
    then show False using ring_mod_inj [of "Suc k" "length a" 0 h] that m assms by simp
  qed
  then have "ring_items (a[h := x]) (Suc h mod length a) m = ring_items a (Suc h mod length a) m"
    using assms by (auto simp: ring_items_def nth_list_update mod_simps dest: sym)
  then show ?thesis
    unfolding h unfolding m using ring_get [of h "a[h := x]" m] ring_get [of h a m] assms(1) by simp
qed

end
