(* ===== verification/Net_Prelude.thy ===== *)
theory Net_Prelude
  imports Main "HOL-Library.Word"
begin

text \<open>
  Shared types, memory model and automation of the development.

  \<^item> The integer types of \<^verbatim>\<open>include/kernel.h\<close> are words of their width.
  \<^item> Memory that the code reads through pointers (packet buffers, pseudo headers built in
    heap blocks) is a total map from addresses to bytes. \<open>bytes\<close> reads a block, \<open>wr_bytes\<close>
    writes one, \<open>rd16\<close> and \<open>rd32\<close> read a little-endian integer as the x86 target does.
  \<^item> An operation that does not come back with a value (a write outside a table, a NULL
    pointer that is followed, a loop that never ends, a process that kills itself, a process
    that waits for a buffer nobody returns) has a value of type \<open>fault\<close> as its result.
\<close>

unbundle bit_operations_syntax

type_synonym byte = "8 word"
type_synonym u16 = "16 word"
type_synonym u32 = "32 word"
type_synonym mem = "nat \<Rightarrow> byte"

named_theorems mem_simps "reading memory back after writing it"
named_theorems res_simps "computing with results that may be faults"

section \<open>Results\<close>

datatype fault = Null_deref | Out_of_bounds | Diverges | Killed | Blocked | Panic

type_synonym 'a res = "fault + 'a"

definition bind_res :: "'a res \<Rightarrow> ('a \<Rightarrow> 'b res) \<Rightarrow> 'b res" where
  "bind_res r f = (case r of Inl e \<Rightarrow> Inl e | Inr x \<Rightarrow> f x)"

definition opt_res :: "fault \<Rightarrow> 'a option \<Rightarrow> 'a res" where
  "opt_res e o' = (case o' of None \<Rightarrow> Inl e | Some x \<Rightarrow> Inr x)"

lemma bind_res_simps [simp, res_simps]:
  "bind_res (Inl e) f = Inl e"
  "bind_res (Inr x) f = f x"
  by (simp_all add: bind_res_def)

lemma opt_res_simps [simp, res_simps]:
  "opt_res e None = Inl e"
  "opt_res e (Some x) = Inr x"
  by (simp_all add: opt_res_def)

lemma bind_res_Inr_iff:
  "bind_res r f = Inr y \<longleftrightarrow> (\<exists>x. r = Inr x \<and> f x = Inr y)"
  by (cases r) auto

lemma opt_res_Inr_iff: "opt_res e o' = Inr x \<longleftrightarrow> o' = Some x"
  by (cases o') auto

section \<open>Blocks of memory\<close>

definition bytes :: "mem \<Rightarrow> nat \<Rightarrow> nat \<Rightarrow> byte list" where
  "bytes m a n = map (\<lambda>i. m (a + i)) [0..<n]"

definition wr_bytes :: "mem \<Rightarrow> nat \<Rightarrow> byte list \<Rightarrow> mem" where
  "wr_bytes m a bs = (\<lambda>x. if a \<le> x \<and> x < a + length bs then bs ! (x - a) else m x)"

lemma length_bytes [simp]: "length (bytes m a n) = n"
  by (simp add: bytes_def)

lemma nth_bytes [simp]: "i < n \<Longrightarrow> bytes m a n ! i = m (a + i)"
  by (simp add: bytes_def)

lemma bytes_eq_iff: "bytes m a n = bytes m' b n \<longleftrightarrow> (\<forall>i < n. m (a + i) = m' (b + i))"
  by (auto simp: list_eq_iff_nth_eq)

lemma bytes_0 [simp]: "bytes m a 0 = []"
  by (simp add: bytes_def)

lemma bytes_Suc: "bytes m a (Suc n) = m a # bytes m (Suc a) n"
  by (simp add: bytes_def upt_conv_Cons map_Suc_upt [symmetric] del: upt_Suc)

lemma bytes_append: "bytes m a (n + k) = bytes m a n @ bytes m (a + n) k"
  by (auto simp: list_eq_iff_nth_eq nth_append)

lemma take_bytes: "take k (bytes m a n) = bytes m a (min k n)"
  by (auto simp: list_eq_iff_nth_eq)

lemma drop_bytes: "drop k (bytes m a n) = bytes m (a + k) (n - k)"
  by (auto simp: list_eq_iff_nth_eq add.assoc)

lemma wr_bytes_in [mem_simps]:
  "a \<le> x \<Longrightarrow> x < a + length bs \<Longrightarrow> wr_bytes m a bs x = bs ! (x - a)"
  by (simp add: wr_bytes_def)

lemma wr_bytes_out [mem_simps]:
  "x < a \<or> a + length bs \<le> x \<Longrightarrow> wr_bytes m a bs x = m x"
  by (auto simp: wr_bytes_def)

lemma bytes_wr_same [mem_simps]:
  "length bs = n \<Longrightarrow> bytes (wr_bytes m a bs) a n = bs"
  by (auto simp: list_eq_iff_nth_eq wr_bytes_def)

lemma bytes_wr_disjoint [mem_simps]:
  "a + n \<le> b \<or> b + length bs \<le> a \<Longrightarrow> bytes (wr_bytes m b bs) a n = bytes m a n"
  by (auto simp: list_eq_iff_nth_eq wr_bytes_def)

lemma bytes_wr_inside [mem_simps]:
  "b \<le> a \<Longrightarrow> a + n \<le> b + length bs \<Longrightarrow>
   bytes (wr_bytes m b bs) a n = take n (drop (a - b) bs)"
  by (auto simp: list_eq_iff_nth_eq wr_bytes_def)

lemma wr_bytes_id [simp]: "wr_bytes m a (bytes m a n) = m"
  by (auto simp: wr_bytes_def fun_eq_iff)

lemma wr_bytes_Nil [simp]: "wr_bytes m a [] = m"
  by (auto simp: wr_bytes_def fun_eq_iff)

lemma bytes_fun_upd_out [mem_simps]:
  "x < a \<or> a + n \<le> x \<Longrightarrow> bytes (m(x := v)) a n = bytes m a n"
  by (auto simp: list_eq_iff_nth_eq)

text \<open>Adjacent writes are one write.\<close>

lemma wr_bytes_append: "wr_bytes (wr_bytes m a xs) (a + length xs) ys = wr_bytes m a (xs @ ys)"
  by (auto simp: wr_bytes_def fun_eq_iff nth_append)

lemma wr_bytes_join: "b = a + length xs \<Longrightarrow> wr_bytes (wr_bytes m a xs) b ys = wr_bytes m a (xs @ ys)"
  by (simp add: wr_bytes_append)

lemma fun_upd_wr_bytes: "m(a := v) = wr_bytes m a [v]"
  by (auto simp: wr_bytes_def fun_eq_iff)

lemma wr_bytes_over:
  "length ys = length xs \<Longrightarrow> wr_bytes (wr_bytes m a xs) a ys = wr_bytes m a ys"
  by (auto simp: wr_bytes_def fun_eq_iff)

lemma wr_bytes_within:
  "a \<le> b \<Longrightarrow> b + length ys \<le> a + length xs \<Longrightarrow> wr_bytes (wr_bytes m a xs) b ys =
   wr_bytes m a (take (b - a) xs @ ys @ drop (b - a + length ys) xs)"
  by (auto simp: wr_bytes_def fun_eq_iff nth_append min_def)

lemma wr_bytes_commute:
  "a + length xs \<le> b \<or> b + length ys \<le> a \<Longrightarrow>
   wr_bytes (wr_bytes m a xs) b ys = wr_bytes (wr_bytes m b ys) a xs"
  by (auto simp: wr_bytes_def fun_eq_iff)

section \<open>Integers in memory and byte order\<close>

definition rd16 :: "mem \<Rightarrow> nat \<Rightarrow> u16" where
  "rd16 m a = ucast (m a) OR push_bit 8 (ucast (m (a + 1)))"

definition rd32 :: "mem \<Rightarrow> nat \<Rightarrow> u32" where
  "rd32 m a = ucast (rd16 m a) OR push_bit 16 (ucast (rd16 m (a + 2)))"

definition le16 :: "u16 \<Rightarrow> byte list" where
  "le16 w = [ucast w, ucast (drop_bit 8 w)]"

definition le32 :: "u32 \<Rightarrow> byte list" where
  "le32 w = le16 (ucast w) @ le16 (ucast (drop_bit 16 w))"

definition wr16 :: "mem \<Rightarrow> nat \<Rightarrow> u16 \<Rightarrow> mem" where
  "wr16 m a w = wr_bytes m a (le16 w)"

definition wr32 :: "mem \<Rightarrow> nat \<Rightarrow> u32 \<Rightarrow> mem" where
  "wr32 m a w = wr_bytes m a (le32 w)"

text \<open>The macros \<^verbatim>\<open>htons\<close>, \<^verbatim>\<open>ntohs\<close>, \<^verbatim>\<open>htonl\<close>, \<^verbatim>\<open>ntohl\<close> of \<^verbatim>\<open>include/prototypes.h\<close>.\<close>

definition htons :: "u16 \<Rightarrow> u16" where
  "htons x = (0xff AND drop_bit 8 x) OR push_bit 8 (0xff AND x)"

definition ntohs :: "u16 \<Rightarrow> u16" where
  "ntohs x = (0xff AND drop_bit 8 x) OR push_bit 8 (0xff AND x)"

definition htonl :: "u32 \<Rightarrow> u32" where
  "htonl x = (drop_bit 24 x AND 0x000000ff) OR (drop_bit 8 x AND 0x0000ff00)
     OR (push_bit 8 x AND 0x00ff0000) OR (push_bit 24 x AND 0xff000000)"

definition ntohl :: "u32 \<Rightarrow> u32" where
  "ntohl x = (drop_bit 24 x AND 0x000000ff) OR (drop_bit 8 x AND 0x0000ff00)
     OR (push_bit 8 x AND 0x00ff0000) OR (push_bit 24 x AND 0xff000000)"

text \<open>Big-endian (network order) views of the same integers.\<close>

definition be16 :: "u16 \<Rightarrow> byte list" where
  "be16 w = [ucast (drop_bit 8 w), ucast w]"

definition be32 :: "u32 \<Rightarrow> byte list" where
  "be32 w = [ucast (drop_bit 24 w), ucast (drop_bit 16 w), ucast (drop_bit 8 w), ucast w]"

lemma length_ints [simp]:
  "length (le16 w) = 2" "length (be16 w) = 2" "length (le32 v) = 4" "length (be32 v) = 4"
  by (simp_all add: le16_def be16_def le32_def be32_def)

lemma ntohs_mask: "ntohs x = (mask 8 AND drop_bit 8 x) OR push_bit 8 (mask 8 AND x)"
proof -
  have "(0xff :: u16) = mask 8" by (simp add: mask_eq_exp_minus_1)
  then show ?thesis by (simp only: ntohs_def)
qed

lemma htons_ntohs_eq: "htons = ntohs"
  by (simp add: fun_eq_iff htons_def ntohs_def)

lemma ntohs_htons [simp]: "ntohs (htons x) = x" "htons (ntohs x) = x"
  by (rule bit_eqI; auto simp: htons_ntohs_eq ntohs_mask bit_simps)+

lemma le16_htons [simp]: "le16 (htons w) = be16 w"
  by (auto simp: le16_def be16_def htons_ntohs_eq ntohs_mask intro!: bit_eqI simp: bit_simps)

lemma rd16_wr16 [mem_simps]: "rd16 (wr16 m a w) a = w"
  by (rule bit_eqI) (auto simp: rd16_def wr16_def wr_bytes_def le16_def bit_simps nth_Cons split: nat.split)

lemma rd16_wr16_htons [mem_simps]: "ntohs (rd16 (wr16 m a (htons w)) a) = w"
  by (simp add: rd16_wr16)

lemma rd32_le32:
  assumes "bytes m a 4 = le32 w"
  shows "rd32 m a = w"
proof -
  have "m a = ucast w" "m (a + 1) = ucast (drop_bit 8 w)" "m (a + 2) = ucast (drop_bit 16 w)" "m (a + 3) = ucast (drop_bit 24 w)"
    using assms by (auto simp: bytes_def le32_def le16_def numeral_eq_Suc bit_simps intro!: bit_eqI)
  moreover have "a + 2 + 1 = a + 3" by simp
  ultimately have "rd16 m a = ucast w" "rd16 m (a + 2) = ucast (drop_bit 16 w)"
    unfolding rd16_def by (auto simp only:) (auto simp: bit_simps intro!: bit_eqI)
  then show ?thesis by (intro bit_eqI) (auto simp: rd32_def bit_simps)
qed

lemma rd32_wr32: "rd32 (wr32 m a w) a = w"
  by (rule rd32_le32) (simp add: wr32_def bytes_wr_same)

lemma rd16_wr_bytes_out [mem_simps]:
  "a + 2 \<le> b \<or> b + length bs \<le> a \<Longrightarrow> rd16 (wr_bytes m b bs) a = rd16 m a"
  by (auto simp: rd16_def wr_bytes_def)

lemma rd16_wr16_out [mem_simps]:
  "a + 2 \<le> b \<or> b + 2 \<le> a \<Longrightarrow> rd16 (wr16 m b w) a = rd16 m a"
  by (simp add: wr16_def rd16_wr_bytes_out)

lemma rd16_fun_upd_out [mem_simps]: "x < a \<or> a + 2 \<le> x \<Longrightarrow> rd16 (m(x := v)) a = rd16 m a"
  by (auto simp: rd16_def)

lemma bytes_wr16_out [mem_simps]:
  "a + n \<le> b \<or> b + 2 \<le> a \<Longrightarrow> bytes (wr16 m b w) a n = bytes m a n"
  by (simp add: wr16_def mem_simps)

lemma wr16_out [mem_simps]: "x < b \<or> b + 2 \<le> x \<Longrightarrow> wr16 m b w x = m x"
  by (auto simp: wr16_def wr_bytes_def)

lemma bytes_wr16_same [mem_simps]: "bytes (wr16 m a w) a 2 = le16 w"
  by (simp add: wr16_def mem_simps)

lemma unat_byte_less: "unat (b :: byte) < 256"
proof -
  have "unat b < 2 ^ LENGTH(8)" by (rule unsigned_less)
  then show ?thesis by simp
qed

lemma unat_u16_less: "unat (w :: u16) < 65536"
proof -
  have "unat w < 2 ^ LENGTH(16)" by (rule unsigned_less)
  then show ?thesis by simp
qed

lemma unat_u32_less: "unat (w :: u32) < 4294967296"
proof -
  have "unat w < 2 ^ LENGTH(32)" by (rule unsigned_less)
  then show ?thesis by simp
qed

lemma unat_NOT16: "unat (NOT (w :: u16)) = 65535 - unat w"
proof -
  have le: "unat w \<le> 65535" using unat_u16_less [of w] by simp
  have "NOT w = word_of_nat (65535 - unat w)"
    using le by (simp add: not_eq_complement of_nat_diff)
  then show ?thesis using le by (simp only: unat_of_nat) simp
qed

lemma unat_ucast_widen [simp]:
  "unat (ucast (b :: byte) :: u16) = unat b"
  "unat (ucast (b :: byte) :: u32) = unat b"
  "unat (ucast (w :: u16) :: u32) = unat w"
  using unat_byte_less [of b] unat_u16_less [of w]
  by (simp_all add: unsigned_ucast_eq take_bit_nat_eq_self)

text \<open>The value of a network-order word in memory, as a number.\<close>

lemma ntohs_rd16_eq: "ntohs (rd16 m a) = push_bit 8 (ucast (m a)) OR ucast (m (a + 1))"
  by (rule bit_eqI) (auto simp: ntohs_mask rd16_def bit_simps dest: bit_imp_le_length)

lemma unat_ntohs_rd16: "unat (ntohs (rd16 m a)) = 256 * unat (m a) + unat (m (a + 1))"
proof -
  have "push_bit 8 (ucast (m a)) AND ucast (m (a + 1)) = (0 :: u16)"
    by (rule bit_eqI) (auto simp: bit_simps dest: bit_imp_le_length)
  then have "ntohs (rd16 m a) = push_bit 8 (ucast (m a)) + ucast (m (a + 1))"
    by (simp add: ntohs_rd16_eq disjunctive_add_eq_or)
  also have "\<dots> = word_of_nat (256 * unat (m a) + unat (m (a + 1)))"
    by (simp add: push_bit_eq_mult unsigned_ucast_eq)
  finally have "unat (ntohs (rd16 m a)) = (256 * unat (m a) + unat (m (a + 1))) mod 65536"
    by (simp only: unat_of_nat) simp
  moreover have "256 * unat (m a) + unat (m (a + 1)) < 65536"
    using unat_byte_less [of "m a"] unat_byte_less [of "m (a + 1)"] by simp
  ultimately show ?thesis by simp
qed

text \<open>The bits of a network-order 32-bit integer in memory.\<close>

lemma bit_rd16: "bit (rd16 m a) n \<longleftrightarrow> (if n < 8 then bit (m a) n else bit (m (a + 1)) (n - 8))"
  using bit_imp_le_length [of "m a" n] bit_imp_le_length [of "m (a + 1)" "n - 8"]
  by (auto simp: rd16_def bit_simps)
lemma bit_rd32:
  "bit (rd32 m a) n \<longleftrightarrow> (if n < 16 then bit (rd16 m a) n else bit (rd16 m (a + 2)) (n - 16))"
  using bit_imp_le_length [of "rd16 m a" n] bit_imp_le_length [of "rd16 m (a + 2)" "n - 16"]
  by (auto simp: rd32_def bit_simps)

lemma bit_rd32_byte:
  assumes "j < 8"
  shows "bit (rd32 m a) j = bit (m a) j" "bit (rd32 m a) (j + 8) = bit (m (a + 1)) j"
    "bit (rd32 m a) (j + 16) = bit (m (a + 2)) j" "bit (rd32 m a) (j + 24) = bit (m (a + 3)) j"
proof -
  have "\<not> j + 16 < 16" "\<not> j + 24 < 16" "j + 16 - 16 = j" "j + 24 - 16 = j + 8" "j + 8 - 8 = j"
    "j < 16" "j + 8 < 16" "\<not> j + 8 < 8" "a + 2 + 1 = a + 3" using assms by simp_all
  note * = this
  show "bit (rd32 m a) j = bit (m a) j" "bit (rd32 m a) (j + 8) = bit (m (a + 1)) j"
    "bit (rd32 m a) (j + 16) = bit (m (a + 2)) j" "bit (rd32 m a) (j + 24) = bit (m (a + 3)) j"
    unfolding bit_rd32 bit_rd16 by (simp_all only: * assms if_True if_False)
qed

lemma bit_ntohl:
  "bit (ntohl w) n \<longleftrightarrow> (if n < 8 then bit w (24 + n) else if n < 16 then bit w (8 + n)
   else if n < 24 then bit w (n - 8) else n < 32 \<and> bit w (n - 24))"
proof -
  have "(0xff :: u32) = mask 8" "(0xff00 :: u32) = push_bit 8 (mask 8)"
    "(0xff0000 :: u32) = push_bit 16 (mask 8)" "(0xff000000 :: u32) = push_bit 24 (mask 8)"
    by (simp_all add: mask_eq_exp_minus_1 push_bit_eq_mult)
  then have "ntohl w = (drop_bit 24 w AND mask 8) OR (drop_bit 8 w AND push_bit 8 (mask 8))
     OR (push_bit 8 w AND push_bit 16 (mask 8)) OR (push_bit 24 w AND push_bit 24 (mask 8))"
    by (simp only: ntohl_def)
  then show ?thesis by (simp add: bit_simps) linarith
qed

lemma bit_ntohl_rd32:
  assumes "j < 8"
  shows "bit (ntohl (rd32 m a)) j = bit (m (a + 3)) j"
    "bit (ntohl (rd32 m a)) (j + 8) = bit (m (a + 2)) j"
    "bit (ntohl (rd32 m a)) (j + 16) = bit (m (a + 1)) j"
    "bit (ntohl (rd32 m a)) (j + 24) = bit (m a) j"
proof -
  have e: "24 + j = j + 24" "8 + j = j + 8" "8 + (j + 8) = j + 16" "(j + 16) - 8 = j + 8" "(j + 24) - 24 = j" by simp_all
  have l: "\<not> j + 8 < 8" "j + 8 < 16" "\<not> j + 16 < 8" "\<not> j + 16 < 16" "j + 16 < 24"
    "\<not> j + 24 < 8" "\<not> j + 24 < 16" "\<not> j + 24 < 24" "j + 24 < 32" using assms by simp_all
  show "bit (ntohl (rd32 m a)) j = bit (m (a + 3)) j"
    unfolding bit_ntohl e by (simp only: assms if_True bit_rd32_byte(4) [OF assms])
  show "bit (ntohl (rd32 m a)) (j + 8) = bit (m (a + 2)) j"
    unfolding bit_ntohl e by (simp only: l if_False if_True bit_rd32_byte(3) [OF assms])
  show "bit (ntohl (rd32 m a)) (j + 16) = bit (m (a + 1)) j"
    unfolding bit_ntohl e by (simp only: l if_False if_True bit_rd32_byte(2) [OF assms])
  show "bit (ntohl (rd32 m a)) (j + 24) = bit (m a) j"
    unfolding bit_ntohl e by (simp only: l if_False simp_thms bit_rd32_byte(1) [OF assms])
qed

text \<open>The index of a bit of a 32-bit word, by the byte it lies in.\<close>

lemma bit32_cases:
  fixes n :: nat
  assumes "n < 32"
  obtains j where "j < 8" "n = j" | j where "j < 8" "n = j + 8" | j where "j < 8" "n = j + 16"
    | j where "j < 8" "n = j + 24"
proof -
  show thesis
    using assms that(1) [of n] that(2) [of "n - 8"] that(3) [of "n - 16"] that(4) [of "n - 24"] by linarith
qed

section \<open>First-match searches\<close>

text \<open>
  The tables of the program are arrays that are searched from index 0 for the first entry that
  fits a key. Neighbour cache, NAT table and reassembly table share this contract.
\<close>

locale first_match =
  fixes size_of :: "'t \<Rightarrow> nat"
    and hit :: "'t \<Rightarrow> 'k \<Rightarrow> nat \<Rightarrow> bool"
    and search :: "'t \<Rightarrow> 'k \<Rightarrow> nat option"
  assumes search_Some: "search t k = Some i \<Longrightarrow> i < size_of t \<and> hit t k i \<and> (\<forall>j < i. \<not> hit t k j)"
    and search_None: "search t k = None \<Longrightarrow> i < size_of t \<Longrightarrow> \<not> hit t k i"
begin

lemma search_first:
  assumes "i < size_of t" "hit t k i" "\<And>j. j < i \<Longrightarrow> \<not> hit t k j"
  shows "search t k = Some i"
proof (cases "search t k")
  case None
  then show ?thesis using search_None assms(1,2) by blast
next
  case (Some j)
  then have "j < size_of t" "hit t k j" "\<forall>n < j. \<not> hit t k n" using search_Some by blast+
  then have "j = i" using assms by (metis nat_neq_iff)
  with Some show ?thesis by simp
qed

lemma search_None_iff: "search t k = None \<longleftrightarrow> (\<forall>i < size_of t. \<not> hit t k i)"
  using search_None search_Some by (metis option.exhaust)

lemma search_Some_iff:
  "search t k = Some i \<longleftrightarrow> i < size_of t \<and> hit t k i \<and> (\<forall>j < i. \<not> hit t k j)"
  using search_Some search_first by blast

end

lemma find_upt_Some_iff:
  "find P [0..<n] = Some i \<longleftrightarrow> i < n \<and> P i \<and> (\<forall>j < i. \<not> P j)"
  by (auto simp: find_Some_iff)

lemma find_upt_None_iff: "find P [0..<n] = None \<longleftrightarrow> (\<forall>i < n. \<not> P i)"
  by (auto simp: find_None_iff)

end
