(* ===== verification/Fwd_Table.thy ===== *)
theory Fwd_Table
  imports Net_Prelude "HOL-Library.Multiset"
begin

text \<open>
  The forwarding table of \<^verbatim>\<open>net/fwdipv6.c\<close> (struct in \<^verbatim>\<open>include/fwdipv6.h\<close>): the entries
  \<^verbatim>\<open>fwdTab\<close>, the array \<^verbatim>\<open>fwdTabPTR\<close> of pointers to them (here: of indexes into \<^verbatim>\<open>fwdTab\<close>),
  which is the table the code searches and sorts, and the default router's entry.
\<close>

section \<open>Data and operations\<close>

record fwdTabEntry =
  f_ttl :: u16
  f_iface :: byte
  f_prefixLen :: byte
  f_ipAddr :: "byte list"
  f_nextHop :: "byte list"

record fwd =
  fwdTab :: "fwdTabEntry list"
  fwdTabPTR :: "nat list"
  defaultRouterEntry :: fwdTabEntry

definition MAXFWDTABENTRIES :: nat where "MAXFWDTABENTRIES = 30"
definition FWDMAXTTL :: u16 where "FWDMAXTTL = 900"
definition FWDPERMANENT :: u16 where "FWDPERMANENT = - 1"
definition IPV6_ASIZE :: nat where "IPV6_ASIZE = 16"
definition ETH_ADDR_LEN :: nat where "ETH_ADDR_LEN = 6"

function match_loop :: "byte list \<Rightarrow> byte list \<Rightarrow> nat \<Rightarrow> nat \<Rightarrow> byte" where
  "match_loop a b i len =
     (if i < len then (if a ! i \<noteq> b ! i then 0 else match_loop a b (Suc i) len) else 1)"
  by pat_completeness auto
termination
  by (relation "measure (\<lambda>(a, b, i, len). len - i)") auto

declare match_loop.simps [simp del]

definition match :: "byte list \<Rightarrow> byte list \<Rightarrow> nat \<Rightarrow> byte" where
  "match a b len = match_loop a b 0 len"

abbreviation fwd_entry :: "fwd \<Rightarrow> nat \<Rightarrow> fwdTabEntry" where
  "fwd_entry f i \<equiv> fwdTab f ! (fwdTabPTR f ! i)"

fun getNextHop_loop :: "fwdTabEntry list \<Rightarrow> byte list \<Rightarrow> int \<Rightarrow> nat list \<Rightarrow> int" where
  "getNextHop_loop tab ipdest i [] = -1"
| "getNextHop_loop tab ipdest i (p # ps) =
     (if f_prefixLen (tab ! p) = 0 then -1
      else if match ipdest (f_ipAddr (tab ! p)) (unat (f_prefixLen (tab ! p)) div 8) \<noteq> 0 then i
      else getNextHop_loop tab ipdest (i + 1) ps)"

definition getNextHop :: "fwd \<Rightarrow> byte list \<Rightarrow> int" where
  "getNextHop f ipdest = getNextHop_loop (fwdTab f) ipdest 0 (fwdTabPTR f)"

definition getNextAvailFwdIndex :: "fwd \<Rightarrow> int" where
  "getNextAvailFwdIndex f =
     (case find (\<lambda>i. f_ttl (fwd_entry f i) = 0) [0..<MAXFWDTABENTRIES] of
        Some i \<Rightarrow> int i
      | None \<Rightarrow> -1)"

text \<open>The bubble sort, on the prefix lengths \<open>k\<close> of the entries the pointers refer to.\<close>

function bubble_inner :: "(nat \<Rightarrow> byte) \<Rightarrow> nat list \<Rightarrow> nat \<Rightarrow> nat \<Rightarrow> nat list" where
  "bubble_inner k ps j lim =
     (if j < lim
      then bubble_inner k
             (if k (ps ! j) < k (ps ! (j + 1)) then ps[j := ps ! (j + 1), j + 1 := ps ! j] else ps)
             (Suc j) lim
      else ps)"
  by pat_completeness auto
termination
  by (relation "measure (\<lambda>(k, ps, j, lim). lim - j)") auto

function bubble_outer :: "(nat \<Rightarrow> byte) \<Rightarrow> nat \<Rightarrow> nat list \<Rightarrow> nat \<Rightarrow> nat list" where
  "bubble_outer k n ps i =
     (if i < n - 1 then bubble_outer k n (bubble_inner k ps 0 (n - i - 1)) (Suc i) else ps)"
  by pat_completeness auto
termination
  by (relation "measure (\<lambda>(k, n, ps, i). n - 1 - i)") auto

declare bubble_inner.simps [simp del] bubble_outer.simps [simp del]

definition sortFwdTab :: "fwd \<Rightarrow> fwd" where
  "sortFwdTab f = f\<lparr>fwdTabPTR :=
     bubble_outer (\<lambda>p. f_prefixLen (fwdTab f ! p)) MAXFWDTABENTRIES (fwdTabPTR f) 0\<rparr>"

definition insertNewFwdTabEntry ::
    "byte list \<Rightarrow> byte \<Rightarrow> byte list \<Rightarrow> byte \<Rightarrow> fwd \<Rightarrow> int \<times> fwd" where
  "insertNewFwdTabEntry ipAddr prefixLen nextHop interface f =
     (let index = getNextAvailFwdIndex f in
      if index = -1 then (-1, f)
      else
        let p = fwdTabPTR f ! nat index;
            e = (fwdTab f ! p)\<lparr>f_ttl := FWDMAXTTL, f_iface := interface, f_prefixLen := prefixLen,
                  f_ipAddr := ipAddr, f_nextHop := nextHop\<rparr>
        in (1, sortFwdTab (f\<lparr>fwdTab := (fwdTab f)[p := e]\<rparr>)))"

text \<open>
  \<^verbatim>\<open>fwdipv6_init\<close> clears every field of an entry but the prefix length, which keeps the
  value it had (zero at boot, the table being a global).
\<close>

definition fwdipv6_init :: "byte \<Rightarrow> byte list \<Rightarrow> fwd \<Rightarrow> fwd" where
  "fwdipv6_init ifprime router_ip_addr f =
     f\<lparr>fwdTab := map (\<lambda>e. e\<lparr>f_ttl := 0, f_iface := 0,
           f_ipAddr := replicate IPV6_ASIZE 0, f_nextHop := replicate IPV6_ASIZE 0\<rparr>) (fwdTab f),
       fwdTabPTR := [0..<MAXFWDTABENTRIES],
       defaultRouterEntry := \<lparr>f_ttl = FWDPERMANENT, f_iface = ifprime, f_prefixLen = 0,
           f_ipAddr = router_ip_addr, f_nextHop = router_ip_addr\<rparr>\<rparr>"

section \<open>\<open>match\<close> compares a prefix\<close>

lemma match_loop_eq: "match_loop a b i len = (if \<forall>j. i \<le> j \<and> j < len \<longrightarrow> a ! j = b ! j then 1 else 0)"
proof (induction a b i len rule: match_loop.induct)
  case (1 a b i len)
  show ?case
  proof (cases "i < len \<and> a ! i = b ! i")
    case True
    moreover have "(\<forall>j. i \<le> j \<and> j < len \<longrightarrow> a ! j = b ! j) \<longleftrightarrow>
        (\<forall>j. Suc i \<le> j \<and> j < len \<longrightarrow> a ! j = b ! j)"
      using True by (metis Suc_leD le_eq_less_or_eq Suc_le_eq)
    ultimately show ?thesis using "1.IH" by (simp add: match_loop.simps [of a b i])
  next
    case False
    then show ?thesis by (auto simp: match_loop.simps [of a b i])
  qed
qed

lemma match_eq: "match a b len = (if \<forall>j < len. a ! j = b ! j then 1 else 0)"
  by (simp add: match_def match_loop_eq)

lemma match_take:
  "len \<le> length a \<Longrightarrow> len \<le> length b \<Longrightarrow> match a b len \<noteq> 0 \<longleftrightarrow> take len a = take len b"
  by (auto simp: match_eq list_eq_iff_nth_eq)

lemma match_full:
  "length a = n \<Longrightarrow> length b = n \<Longrightarrow> match a b n \<noteq> 0 \<longleftrightarrow> a = b"
  by (auto simp: match_take)

lemma match_01: "match a b n \<noteq> 0 \<longleftrightarrow> match a b n = 1"
  by (simp add: match_eq)

section \<open>The sort\<close>

text \<open>Every step of the sort permutes the first \<open>lim + 1\<close> pointers and leaves the others.\<close>

abbreviation swap_at :: "(nat \<Rightarrow> byte) \<Rightarrow> nat list \<Rightarrow> nat \<Rightarrow> nat list" where
  "swap_at k ps j \<equiv>
     (if k (ps ! j) < k (ps ! (j + 1)) then ps[j := ps ! (j + 1), j + 1 := ps ! j] else ps)"

lemma swap_at_length [simp]: "length (swap_at k ps j) = length ps"
  by simp

lemma swap_at_mset: "Suc j < n \<Longrightarrow> n \<le> length ps \<Longrightarrow>
    mset (take n (swap_at k ps j)) = mset (take n ps) \<and> drop n (swap_at k ps j) = drop n ps"
  using mset_swap [of "Suc j" "take n ps" j] by (auto simp: take_update_swap)

lemma bubble_inner_length [simp]: "length (bubble_inner k ps j lim) = length ps"
proof (induction k ps j lim rule: bubble_inner.induct)
  case (1 k ps j lim)
  show ?case
  proof (cases "j < lim")
    case True
    have "length (bubble_inner k ps j lim) = length (bubble_inner k (swap_at k ps j) (Suc j) lim)"
      using True by (subst bubble_inner.simps) simp
    also have "\<dots> = length ps" using "1.IH" [OF True] by simp
    finally show ?thesis .
  next
    case False
    then show ?thesis by (subst bubble_inner.simps) simp
  qed
qed

lemma bubble_inner_mset: "lim < length ps \<Longrightarrow>
    mset (take (Suc lim) (bubble_inner k ps j lim)) = mset (take (Suc lim) ps) \<and>
    drop (Suc lim) (bubble_inner k ps j lim) = drop (Suc lim) ps"
proof (induction k ps j lim rule: bubble_inner.induct)
  case (1 k ps j lim)
  show ?case
  proof (cases "j < lim")
    case True
    have "bubble_inner k ps j lim = bubble_inner k (swap_at k ps j) (Suc j) lim"
      using True by (subst bubble_inner.simps) simp
    then show ?thesis
      using "1.IH" [OF True] "1.prems" swap_at_mset [of j "Suc lim" ps k] True by simp
  next
    case False
    then show ?thesis by (subst (1 2) bubble_inner.simps) simp
  qed
qed

text \<open>One pass moves a smallest key to position \<open>lim\<close>.\<close>

lemma bubble_inner_min: "lim < length ps \<Longrightarrow> j \<le> x \<Longrightarrow> x \<le> lim \<Longrightarrow>
    k (bubble_inner k ps j lim ! lim) \<le> k (ps ! x)"
proof (induction k ps j lim arbitrary: x rule: bubble_inner.induct)
  case (1 k ps j lim)
  show ?case
  proof (cases "j < lim")
    case True
    let ?ps = "swap_at k ps j"
    have step: "bubble_inner k ps j lim = bubble_inner k ?ps (Suc j) lim"
      using True by (subst bubble_inner.simps) simp
    have IH: "k (bubble_inner k ?ps (Suc j) lim ! lim) \<le> k (?ps ! y)" if "Suc j \<le> y" "y \<le> lim" for y
      using "1.IH" [OF True] "1.prems" that by simp
    have next_le: "k (?ps ! Suc j) \<le> k (ps ! j)" "k (?ps ! Suc j) \<le> k (ps ! Suc j)"
      using True "1.prems" by (auto simp: nth_list_update)
    show ?thesis
    proof (cases "x \<le> Suc j")
      case True
      then have "x = j \<or> x = Suc j" using "1.prems" by linarith
      then have "k (?ps ! Suc j) \<le> k (ps ! x)" using next_le by blast
      then show ?thesis using IH [of "Suc j"] step \<open>j < lim\<close> by (metis Suc_leI order.trans le_refl)
    next
      case False
      then have "?ps ! x = ps ! x" by (auto simp: nth_list_update)
      then show ?thesis using IH [of x] step False "1.prems" by simp
    qed
  next
    case False
    then have "x = lim" using "1.prems" by linarith
    then show ?thesis using False by (subst bubble_inner.simps) simp
  qed
qed

definition sorted_desc :: "(nat \<Rightarrow> byte) \<Rightarrow> nat list \<Rightarrow> bool" where
  "sorted_desc k ps \<longleftrightarrow> sorted_wrt (\<lambda>x y. k y \<le> k x) ps"

text \<open>Loop invariant of the outer loop: the last \<open>i\<close> positions are done.\<close>

definition tail_done :: "(nat \<Rightarrow> byte) \<Rightarrow> nat list \<Rightarrow> nat \<Rightarrow> bool" where
  "tail_done k ps m \<longleftrightarrow> sorted_desc k (drop m ps) \<and>
     (\<forall>a \<in> set (take m ps). \<forall>b \<in> set (drop m ps). k b \<le> k a)"

lemma tail_done_step:
  assumes "tail_done k ps (Suc lim)" "lim < length ps"
  shows "tail_done k (bubble_inner k ps 0 lim) lim"
proof -
  let ?qs = "bubble_inner k ps 0 lim"
  have lenq: "lim < length ?qs" using assms by simp
  have m: "set (take (Suc lim) ?qs) = set (take (Suc lim) ps)"
    and d: "drop (Suc lim) ?qs = drop (Suc lim) ps"
    using bubble_inner_mset [OF assms(2)] by (auto dest: mset_eq_setD)
  have cons: "drop lim ?qs = ?qs ! lim # drop (Suc lim) ps"
    using Cons_nth_drop_Suc [OF lenq] d by simp
  have mem: "set (take lim ?qs) \<subseteq> set (take (Suc lim) ps)" "?qs ! lim \<in> set (take (Suc lim) ps)"
    using m lenq by (auto simp: take_Suc_conv_app_nth)
  have min: "k (?qs ! lim) \<le> k a" if a: "a \<in> set (take (Suc lim) ps)" for a
  proof -
    obtain x where "x \<le> lim" "a = ps ! x"
      using a assms(2) by (auto simp: in_set_conv_nth less_Suc_eq_le)
    then show ?thesis using bubble_inner_min [OF assms(2), of 0 x] by simp
  qed
  show ?thesis
    using assms(1) mem min unfolding tail_done_def sorted_desc_def cons by auto
qed

lemma bubble_outer_mset: "n \<le> length ps \<Longrightarrow>
    mset (bubble_outer k n ps i) = mset ps"
proof (induction k n ps i rule: bubble_outer.induct)
  case (1 k n ps i)
  show ?case
  proof (cases "i < n - 1")
    case True
    then have lim: "n - i - 1 < length ps" using "1.prems" by simp
    have "mset (bubble_inner k ps 0 (n - i - 1)) = mset ps"
      using bubble_inner_mset [OF lim, of k 0]
      by (metis append_take_drop_id mset_append)
    moreover have "bubble_outer k n ps i = bubble_outer k n (bubble_inner k ps 0 (n - i - 1)) (Suc i)"
      using True by (subst bubble_outer.simps) simp
    ultimately show ?thesis using "1.IH" [OF True] "1.prems" by simp
  next
    case False
    then show ?thesis by (subst bubble_outer.simps) simp
  qed
qed

lemma bubble_outer_sorted: "length ps = n \<Longrightarrow> i < n \<Longrightarrow> tail_done k ps (n - i) \<Longrightarrow>
    sorted_desc k (bubble_outer k n ps i)"
proof (induction k n ps i rule: bubble_outer.induct)
  case (1 k n ps i)
  show ?case
  proof (cases "i < n - 1")
    case True
    let ?lim = "n - i - 1"
    have "n - i = Suc ?lim" "?lim < length ps" using True "1.prems" by simp_all
    then have "tail_done k (bubble_inner k ps 0 ?lim) ?lim"
      using "1.prems" tail_done_step by metis
    then have "sorted_desc k (bubble_outer k n (bubble_inner k ps 0 ?lim) (Suc i))"
      using "1.IH" [OF True] "1.prems" True by simp
    then show ?thesis using True by (subst bubble_outer.simps) simp
  next
    case False
    then have i: "n - i = 1" using "1.prems" by simp
    obtain p ps' where "ps = p # ps'" using "1.prems" by (cases ps) auto
    then have "sorted_desc k ps" using "1.prems"(3) i by (simp add: tail_done_def sorted_desc_def)
    then show ?thesis using False by (subst bubble_outer.simps) simp
  qed
qed

lemma bubble_sort:
  assumes "length ps = n" "0 < n"
  shows "sorted_desc k (bubble_outer k n ps 0)" "mset (bubble_outer k n ps 0) = mset ps"
proof -
  have "tail_done k ps (n - 0)" using assms by (simp add: tail_done_def sorted_desc_def)
  then show "sorted_desc k (bubble_outer k n ps 0)" using assms by (intro bubble_outer_sorted)
  show "mset (bubble_outer k n ps 0) = mset ps" using assms by (intro bubble_outer_mset) simp
qed

section \<open>Invariant\<close>

text \<open>
  The pointers are a permutation of the entries, sorted by descending prefix length; a free
  entry (\<open>f_ttl = 0\<close>) has prefix length 0; addresses are 16 bytes and prefixes 128 bits at most.
\<close>

definition entry_ok :: "fwdTabEntry \<Rightarrow> bool" where
  "entry_ok e \<longleftrightarrow> (f_ttl e = 0 \<longleftrightarrow> f_prefixLen e = 0) \<and> f_prefixLen e \<le> 128 \<and>
     length (f_ipAddr e) = IPV6_ASIZE \<and> length (f_nextHop e) = IPV6_ASIZE"

definition fwd_inv :: "fwd \<Rightarrow> bool" where
  "fwd_inv f \<longleftrightarrow> length (fwdTab f) = MAXFWDTABENTRIES \<and>
     mset (fwdTabPTR f) = mset [0..<MAXFWDTABENTRIES] \<and>
     sorted_desc (\<lambda>p. f_prefixLen (fwdTab f ! p)) (fwdTabPTR f) \<and>
     (\<forall>e \<in> set (fwdTab f). entry_ok e)"

lemma fwd_inv_ptr:
  assumes "mset (fwdTabPTR f) = mset [0..<MAXFWDTABENTRIES]"
  shows "length (fwdTabPTR f) = MAXFWDTABENTRIES" "set (fwdTabPTR f) = {0..<MAXFWDTABENTRIES}"
proof -
  show "length (fwdTabPTR f) = MAXFWDTABENTRIES"
    using arg_cong [OF assms, of size] by simp
  show "set (fwdTabPTR f) = {0..<MAXFWDTABENTRIES}"
    using arg_cong [OF assms, of set_mset] by (simp only: set_mset_mset set_upt)
qed

lemma set_via_ptr:
  assumes "length (fwdTab f) = MAXFWDTABENTRIES" "mset (fwdTabPTR f) = mset [0..<MAXFWDTABENTRIES]"
  shows "set (fwdTab f) = (\<lambda>p. fwdTab f ! p) ` set (fwdTabPTR f)"
  using fwd_inv_ptr [OF assms(2)] assms(1) by (auto simp: set_conv_nth)

lemma ptr_less:
  assumes "fwd_inv f" "i < MAXFWDTABENTRIES"
  shows "fwdTabPTR f ! i < MAXFWDTABENTRIES" "fwd_entry f i \<in> set (fwdTab f)"
proof -
  have "fwdTabPTR f ! i \<in> set (fwdTabPTR f)"
    using assms fwd_inv_ptr(1) [of f] by (auto simp: fwd_inv_def)
  then show "fwdTabPTR f ! i < MAXFWDTABENTRIES"
    using assms fwd_inv_ptr(2) [of f] by (auto simp: fwd_inv_def)
  then show "fwd_entry f i \<in> set (fwdTab f)"
    using assms by (auto simp: fwd_inv_def)
qed

section \<open>The search finds a longest matching prefix\<close>

definition route_matches :: "fwdTabEntry \<Rightarrow> byte list \<Rightarrow> bool" where
  "route_matches e ip \<longleftrightarrow> f_prefixLen e \<noteq> 0 \<and>
     take (unat (f_prefixLen e) div 8) ip = take (unat (f_prefixLen e) div 8) (f_ipAddr e)"

lemma prefix_len_bytes: "(n :: byte) \<le> 128 \<Longrightarrow> unat n div 8 \<le> 16"
  by (simp add: word_le_nat_alt)

lemma match_route:
  assumes "entry_ok e" "length ip = IPV6_ASIZE"
  shows "f_prefixLen e \<noteq> 0 \<and> match ip (f_ipAddr e) (unat (f_prefixLen e) div 8) \<noteq> 0 \<longleftrightarrow>
     route_matches e ip"
  using assms prefix_len_bytes [of "f_prefixLen e"]
  by (auto simp: entry_ok_def IPV6_ASIZE_def route_matches_def match_take)

text \<open>On a table sorted by prefix length the search stops at the first match.\<close>

lemma getNextHop_loop_spec:
  assumes "sorted_desc (\<lambda>p. f_prefixLen (tab ! p)) ps"
    and "\<And>p. p \<in> set ps \<Longrightarrow> entry_ok (tab ! p)" and "length ip = IPV6_ASIZE"
  shows "(getNextHop_loop tab ip i ps = -1 \<and> (\<forall>p \<in> set ps. \<not> route_matches (tab ! p) ip)) \<or>
     (\<exists>n < length ps. getNextHop_loop tab ip i ps = i + int n \<and> route_matches (tab ! (ps ! n)) ip \<and>
        (\<forall>p \<in> set ps. route_matches (tab ! p) ip \<longrightarrow> f_prefixLen (tab ! p) \<le> f_prefixLen (tab ! (ps ! n))))"
  using assms
proof (induction ps arbitrary: i)
  case Nil
  then show ?case by simp
next
  case (Cons p ps)
  have le: "f_prefixLen (tab ! q) \<le> f_prefixLen (tab ! p)" if "q \<in> set ps" for q
    using Cons.prems(1) that by (simp add: sorted_desc_def)
  have m: "f_prefixLen (tab ! p) \<noteq> 0 \<and> match ip (f_ipAddr (tab ! p)) (unat (f_prefixLen (tab ! p)) div 8) \<noteq> 0
      \<longleftrightarrow> route_matches (tab ! p) ip"
    using Cons.prems by (intro match_route) auto
  consider "f_prefixLen (tab ! p) = 0" | "route_matches (tab ! p) ip"
    | "f_prefixLen (tab ! p) \<noteq> 0" "\<not> route_matches (tab ! p) ip"
    by blast
  then show ?case
  proof cases
    case 1
    then have "f_prefixLen (tab ! q) = 0" if "q \<in> set ps" for q using le [OF that] by simp
    with 1 show ?thesis by (auto simp: route_matches_def)
  next
    case 2
    then show ?thesis using m le by (intro disjI2 exI [of _ 0]) auto
  next
    case 3
    have "getNextHop_loop tab ip i (p # ps) = getNextHop_loop tab ip (i + 1) ps" using 3 m by auto
    moreover have "sorted_desc (\<lambda>p. f_prefixLen (tab ! p)) ps"
      using Cons.prems(1) by (simp add: sorted_desc_def)
    ultimately show ?thesis using Cons.IH [of "i + 1"] Cons.prems 3 by fastforce
  qed
qed

lemma getNextHop_cases:
  assumes "fwd_inv f" "length ip = IPV6_ASIZE"
  obtains (none) "getNextHop f ip = -1" "\<forall>e \<in> set (fwdTab f). \<not> route_matches e ip"
  | (found) i where "i < MAXFWDTABENTRIES" "getNextHop f ip = int i" "route_matches (fwd_entry f i) ip"
      "\<forall>e \<in> set (fwdTab f). route_matches e ip \<longrightarrow> f_prefixLen e \<le> f_prefixLen (fwd_entry f i)"
proof -
  note ptr = fwd_inv_ptr [of f] and img = set_via_ptr [of f]
  have ok: "entry_ok (fwdTab f ! p)" if "p \<in> set (fwdTabPTR f)" for p
    using that ptr assms(1) by (auto simp: fwd_inv_def)
  have srt: "sorted_desc (\<lambda>p. f_prefixLen (fwdTab f ! p)) (fwdTabPTR f)"
    and len: "length (fwdTabPTR f) = MAXFWDTABENTRIES"
    and tab: "set (fwdTab f) = (\<lambda>p. fwdTab f ! p) ` set (fwdTabPTR f)"
    using assms(1) ptr(1) img by (simp_all add: fwd_inv_def)
  have "(getNextHop_loop (fwdTab f) ip 0 (fwdTabPTR f) = -1 \<and>
        (\<forall>p \<in> set (fwdTabPTR f). \<not> route_matches (fwdTab f ! p) ip)) \<or>
      (\<exists>n < length (fwdTabPTR f). getNextHop_loop (fwdTab f) ip 0 (fwdTabPTR f) = 0 + int n \<and>
        route_matches (fwd_entry f n) ip \<and>
        (\<forall>p \<in> set (fwdTabPTR f). route_matches (fwdTab f ! p) ip \<longrightarrow>
          f_prefixLen (fwdTab f ! p) \<le> f_prefixLen (fwd_entry f n)))"
    by (rule getNextHop_loop_spec [OF srt _ assms(2)]) (rule ok)
  then show ?thesis
  proof (elim disjE exE conjE)
    assume "getNextHop_loop (fwdTab f) ip 0 (fwdTabPTR f) = -1"
      and "\<forall>p \<in> set (fwdTabPTR f). \<not> route_matches (fwdTab f ! p) ip"
    then show ?thesis using none tab by (simp add: getNextHop_def)
  next
    fix n
    assume "n < length (fwdTabPTR f)" "getNextHop_loop (fwdTab f) ip 0 (fwdTabPTR f) = 0 + int n"
      and "route_matches (fwd_entry f n) ip"
      and "\<forall>p \<in> set (fwdTabPTR f). route_matches (fwdTab f ! p) ip \<longrightarrow>
          f_prefixLen (fwdTab f ! p) \<le> f_prefixLen (fwd_entry f n)"
    then show ?thesis using found [of n] tab len by (simp add: getNextHop_def)
  qed
qed

section \<open>Insertion\<close>

lemma getNextAvail_cases:
  obtains (full) "getNextAvailFwdIndex f = -1" "\<forall>i < MAXFWDTABENTRIES. f_ttl (fwd_entry f i) \<noteq> 0"
  | (free) i where "i < MAXFWDTABENTRIES" "getNextAvailFwdIndex f = int i" "f_ttl (fwd_entry f i) = 0"
proof (cases "find (\<lambda>i. f_ttl (fwd_entry f i) = 0) [0..<MAXFWDTABENTRIES]")
  case None
  then have "getNextAvailFwdIndex f = -1" by (simp add: getNextAvailFwdIndex_def)
  moreover have "\<forall>i < MAXFWDTABENTRIES. f_ttl (fwd_entry f i) \<noteq> 0"
    using None by (auto simp: find_None_iff)
  ultimately show ?thesis by (rule full)
next
  case (Some i)
  then have "i < MAXFWDTABENTRIES" "f_ttl (fwd_entry f i) = 0"
    by (auto simp: find_Some_iff)
  then show ?thesis using free [of i] Some by (simp add: getNextAvailFwdIndex_def)
qed

lemma sortFwdTab_inv:
  assumes "length (fwdTab f) = MAXFWDTABENTRIES" "mset (fwdTabPTR f) = mset [0..<MAXFWDTABENTRIES]"
    and "\<forall>e \<in> set (fwdTab f). entry_ok e"
  shows "fwd_inv (sortFwdTab f)"
  using assms bubble_sort [OF fwd_inv_ptr(1) [OF assms(2)]]
  by (simp add: fwd_inv_def sortFwdTab_def MAXFWDTABENTRIES_def)

definition new_entry :: "byte list \<Rightarrow> byte \<Rightarrow> byte list \<Rightarrow> byte \<Rightarrow> fwdTabEntry" where
  "new_entry ip n nh iface =
     \<lparr>f_ttl = FWDMAXTTL, f_iface = iface, f_prefixLen = n, f_ipAddr = ip, f_nextHop = nh\<rparr>"

lemma upd_is_new_entry:
  "e\<lparr>f_ttl := FWDMAXTTL, f_iface := iface, f_prefixLen := n, f_ipAddr := ip, f_nextHop := nh\<rparr>
     = new_entry ip n nh iface"
  by (cases e) (simp add: new_entry_def)

text \<open>
  An insertion either finds the table full and changes nothing, or replaces one free entry.
\<close>

lemma insert_cases:
  assumes "fwd_inv f" "length ip = IPV6_ASIZE" "length nh = IPV6_ASIZE" "n \<noteq> 0" "n \<le> 128"
  obtains (full) "insertNewFwdTabEntry ip n nh iface f = (-1, f)" "\<forall>e \<in> set (fwdTab f). f_ttl e \<noteq> 0"
  | (stored) f' p where "insertNewFwdTabEntry ip n nh iface f = (1, f')" "fwd_inv f'"
      "p < MAXFWDTABENTRIES" "f_ttl (fwdTab f ! p) = 0"
      "fwdTab f' = (fwdTab f)[p := new_entry ip n nh iface]"
proof (cases rule: getNextAvail_cases [of f])
  case full
  have "\<forall>e \<in> set (fwdTab f). f_ttl e \<noteq> 0"
  proof
    fix e assume "e \<in> set (fwdTab f)"
    then obtain p where "p \<in> set (fwdTabPTR f)" "e = fwdTab f ! p"
      using assms(1) set_via_ptr [of f] by (auto simp: fwd_inv_def)
    moreover obtain i where "i < MAXFWDTABENTRIES" "p = fwdTabPTR f ! i"
      using calculation(1) fwd_inv_ptr(1) [of f] assms(1) by (auto simp: fwd_inv_def in_set_conv_nth)
    ultimately show "f_ttl e \<noteq> 0" using full(2) by simp
  qed
  then show ?thesis using that(1) full(1) by (simp add: insertNewFwdTabEntry_def)
next
  case (free i)
  let ?p = "fwdTabPTR f ! i" and ?e = "new_entry ip n nh iface"
  let ?f = "sortFwdTab (f\<lparr>fwdTab := (fwdTab f)[?p := ?e]\<rparr>)"
  have p: "?p < MAXFWDTABENTRIES" using assms(1) free(1) by (rule ptr_less)
  have "insertNewFwdTabEntry ip n nh iface f = (1, ?f)"
    using free(2) by (simp add: insertNewFwdTabEntry_def Let_def upd_is_new_entry)
  moreover have "entry_ok ?e"
    using assms by (simp add: entry_ok_def new_entry_def FWDMAXTTL_def)
  then have "\<forall>e \<in> set ((fwdTab f)[?p := ?e]). entry_ok e"
    using assms(1) set_update_subset_insert [of "fwdTab f" ?p ?e] by (auto simp: fwd_inv_def)
  then have "fwd_inv ?f"
    using assms(1) by (intro sortFwdTab_inv) (simp_all add: fwd_inv_def)
  ultimately show ?thesis
    using that(2) [of ?f ?p] p free(3) by (simp add: sortFwdTab_def)
qed

section \<open>The table as a route table\<close>

text \<open>
  What the rest of the network code relies on: a look-up finds a route that matches the
  destination with the longest prefix of all matching routes, or nothing when none matches.
\<close>

locale route_table =
  fixes inv :: "'t \<Rightarrow> bool"
    and valid :: "'d \<Rightarrow> bool"
    and routes :: "'t \<Rightarrow> 'e set"
    and matches :: "'e \<Rightarrow> 'd \<Rightarrow> bool"
    and plen :: "'e \<Rightarrow> nat"
    and look :: "'t \<Rightarrow> 'd \<Rightarrow> 'e option"
  assumes look_Some: "inv t \<Longrightarrow> valid d \<Longrightarrow> look t d = Some e \<Longrightarrow> e \<in> routes t \<and> matches e d"
    and look_longest: "inv t \<Longrightarrow> valid d \<Longrightarrow> look t d = Some e \<Longrightarrow> e' \<in> routes t \<Longrightarrow>
      matches e' d \<Longrightarrow> plen e' \<le> plen e"
    and look_None: "inv t \<Longrightarrow> valid d \<Longrightarrow> look t d = None \<Longrightarrow> e \<in> routes t \<Longrightarrow> \<not> matches e d"
begin

lemma look_total:
  "inv t \<Longrightarrow> valid d \<Longrightarrow> e \<in> routes t \<Longrightarrow> matches e d \<Longrightarrow> \<exists>e'. look t d = Some e'"
  using look_None by (metis not_None_eq)

lemma look_unique:
  assumes "inv t" "valid d" "e \<in> routes t" "matches e d"
    and "\<And>e'. e' \<in> routes t \<Longrightarrow> matches e' d \<Longrightarrow> plen e \<le> plen e' \<Longrightarrow> e' = e"
  shows "look t d = Some e"
proof -
  obtain e' where e': "look t d = Some e'" using look_total assms(1-4) by blast
  then have "plen e \<le> plen e'" using look_longest assms(1-4) by blast
  moreover have "e' \<in> routes t" "matches e' d" using look_Some assms(1,2) e' by blast+
  ultimately have "e' = e" by (intro assms(5))
  with e' show ?thesis by simp
qed

end

definition fwd_look :: "fwd \<Rightarrow> byte list \<Rightarrow> fwdTabEntry option" where
  "fwd_look f ip = (if getNextHop f ip = -1 then None else Some (fwd_entry f (nat (getNextHop f ip))))"

interpretation rt: route_table fwd_inv "\<lambda>ip. length ip = IPV6_ASIZE" "\<lambda>f. set (fwdTab f)"
  route_matches "\<lambda>e. unat (f_prefixLen e)" fwd_look
proof
  fix f :: fwd and ip :: "byte list" and e :: fwdTabEntry
  assume inv: "fwd_inv f" and ip: "length ip = IPV6_ASIZE"
  show "fwd_look f ip = Some e \<Longrightarrow> e \<in> set (fwdTab f) \<and> route_matches e ip"
    using inv ptr_less(2) by (cases rule: getNextHop_cases [OF inv ip]) (auto simp: fwd_look_def)
  show "fwd_look f ip = Some e \<Longrightarrow> e' \<in> set (fwdTab f) \<Longrightarrow> route_matches e' ip \<Longrightarrow>
      unat (f_prefixLen e') \<le> unat (f_prefixLen e)" for e'
    by (cases rule: getNextHop_cases [OF inv ip]) (auto simp: fwd_look_def word_le_nat_alt)
  show "fwd_look f ip = None \<Longrightarrow> e \<in> set (fwdTab f) \<Longrightarrow> \<not> route_matches e ip"
    by (cases rule: getNextHop_cases [OF inv ip]) (auto simp: fwd_look_def)
qed

section \<open>Properties\<close>

definition fwd_free :: "fwd \<Rightarrow> nat" where
  "fwd_free f = length (filter (\<lambda>e. f_ttl e = 0) (fwdTab f))"

lemma fwd_free_update:
  assumes "p < length (fwdTab f)" "f_ttl (fwdTab f ! p) = 0" "f_ttl e \<noteq> 0"
  shows "fwd_free (f\<lparr>fwdTab := (fwdTab f)[p := e]\<rparr>) + 1 = fwd_free f"
proof -
  have "fwdTab f = take p (fwdTab f) @ fwdTab f ! p # drop (Suc p) (fwdTab f)"
    using assms(1) by (rule id_take_nth_drop)
  then have "fwd_free f = length (filter (\<lambda>e. f_ttl e = 0)
      (take p (fwdTab f) @ fwdTab f ! p # drop (Suc p) (fwdTab f)))"
    unfolding fwd_free_def by (rule arg_cong)
  then show ?thesis using assms by (simp add: fwd_free_def upd_conv_take_nth_drop)
qed

lemma fwd_free_0_iff: "fwd_free f = 0 \<longleftrightarrow> (\<forall>e \<in> set (fwdTab f). f_ttl e \<noteq> 0)"
  by (simp add: fwd_free_def filter_empty_conv)

text \<open>A freshly initialised table: all entries free, the pointers in order.\<close>

definition fwd_boot :: fwd where
  "fwd_boot = \<lparr>fwdTab = replicate MAXFWDTABENTRIES
       \<lparr>f_ttl = 0, f_iface = 0, f_prefixLen = 0, f_ipAddr = replicate 16 0, f_nextHop = replicate 16 0\<rparr>,
     fwdTabPTR = replicate MAXFWDTABENTRIES 0,
     defaultRouterEntry = \<lparr>f_ttl = 0, f_iface = 0, f_prefixLen = 0,
       f_ipAddr = replicate 16 0, f_nextHop = replicate 16 0\<rparr>\<rparr>"

lemma fwd_inv_init: "fwd_inv (fwdipv6_init iface r fwd_boot)"
  by (simp add: fwd_inv_def fwdipv6_init_def fwd_boot_def entry_ok_def sorted_desc_def
      sorted_wrt_iff_nth_less MAXFWDTABENTRIES_def IPV6_ASIZE_def)

lemma fwd_free_init [simp]: "fwd_free (fwdipv6_init iface r fwd_boot) = MAXFWDTABENTRIES"
  by (simp add: fwd_free_def fwdipv6_init_def fwd_boot_def)

text \<open>C3: longest prefix match. On a table that satisfies the invariant, \<^verbatim>\<open>getNextHop\<close> returns
  -1 exactly when no installed route matches the destination, and otherwise the index of a
  matching route whose prefix is at least as long as that of every other matching route.\<close>

theorem getNextHop_longest_prefix:
  assumes "fwd_inv f" and "length ip = IPV6_ASIZE"
  shows "if \<exists>e \<in> set (fwdTab f). route_matches e ip
    then \<exists>i < MAXFWDTABENTRIES. getNextHop f ip = int i \<and> route_matches (fwd_entry f i) ip \<and>
      (\<forall>e \<in> set (fwdTab f). route_matches e ip \<longrightarrow> f_prefixLen e \<le> f_prefixLen (fwd_entry f i))
    else getNextHop f ip = -1"
  using assms ptr_less(2) [OF assms(1)] by (cases rule: getNextHop_cases [OF assms]) auto

theorem getNextHop_longest_prefix_witness:
  "getNextHop (fwdipv6_init 0 (replicate 16 1) fwd_boot) (replicate 16 7) = -1"
proof -
  have "\<not> (\<exists>e \<in> set (fwdTab (fwdipv6_init 0 (replicate 16 1) fwd_boot)). route_matches e (replicate 16 7))"
    by (simp add: fwdipv6_init_def fwd_boot_def route_matches_def)
  then show ?thesis
    using getNextHop_longest_prefix [OF fwd_inv_init [of 0 "replicate 16 1"], of "replicate 16 7"]
    by (simp add: IPV6_ASIZE_def)
qed

text \<open>C9: insertion. With no free entry \<^verbatim>\<open>insertNewFwdTabEntry\<close> returns -1 and changes nothing;
  otherwise it returns 1, keeps the invariant (so the table stays sorted), overwrites exactly
  one free entry with the new route, and leaves one free entry fewer.\<close>

theorem insertNewFwdTabEntry_correct:
  assumes "fwd_inv f" and "length ip = IPV6_ASIZE" and "length nh = IPV6_ASIZE"
    and "n \<noteq> 0" and "n \<le> 128"
  shows "if fwd_free f = 0 then insertNewFwdTabEntry ip n nh iface f = (-1, f)
    else \<exists>f' p. insertNewFwdTabEntry ip n nh iface f = (1, f') \<and> fwd_inv f' \<and>
      fwd_free f' + 1 = fwd_free f \<and> p < MAXFWDTABENTRIES \<and> f_ttl (fwdTab f ! p) = 0 \<and>
      fwdTab f' = (fwdTab f)[p := new_entry ip n nh iface]"
proof (rule insert_cases [OF assms, of iface])
  assume "insertNewFwdTabEntry ip n nh iface f = (-1, f)" "\<forall>e \<in> set (fwdTab f). f_ttl e \<noteq> 0"
  then show ?thesis by (simp add: fwd_free_0_iff)
next
  fix f' p
  assume stored: "insertNewFwdTabEntry ip n nh iface f = (1, f')" "fwd_inv f'"
    "p < MAXFWDTABENTRIES" "f_ttl (fwdTab f ! p) = 0" "fwdTab f' = (fwdTab f)[p := new_entry ip n nh iface]"
  have len: "p < length (fwdTab f)" using stored(3) assms(1) by (simp add: fwd_inv_def)
  have "f_ttl (new_entry ip n nh iface) \<noteq> 0" by (simp add: new_entry_def FWDMAXTTL_def)
  from fwd_free_update [OF len stored(4) this] have "fwd_free f' + 1 = fwd_free f"
    using stored(5) by (simp add: fwd_free_def)
  then show ?thesis using stored by auto
qed

theorem insertNewFwdTabEntry_correct_witness:
  "\<exists>f'. insertNewFwdTabEntry (replicate 16 3) 64 (replicate 16 4) 1
      (fwdipv6_init 0 (replicate 16 1) fwd_boot) = (1, f') \<and> fwd_inv f' \<and> fwd_free f' = 29"
  using insertNewFwdTabEntry_correct [OF fwd_inv_init [of 0 "replicate 16 1"],
      of "replicate 16 3" "replicate 16 4" 64 1]
  by (auto simp: IPV6_ASIZE_def MAXFWDTABENTRIES_def)

text \<open>A host route is used. When no other route covers an address, a host route
  (128 bits) inserted for it is the route the next search for that address returns.\<close>

theorem host_route_found:
  assumes "fwd_inv f" and "length ip = IPV6_ASIZE" and "length nh = IPV6_ASIZE"
    and "insertNewFwdTabEntry ip 128 nh iface f = (1, f')"
    and "\<not> (\<exists>e \<in> set (fwdTab f). route_matches e ip \<and> f_prefixLen e = 128)"
  shows "\<exists>i < MAXFWDTABENTRIES. getNextHop f' ip = int i \<and>
    f_nextHop (fwd_entry f' i) = nh \<and> f_iface (fwd_entry f' i) = iface"
proof -
  let ?e = "new_entry ip 128 nh iface"
  obtain p where p: "p < MAXFWDTABENTRIES" "fwdTab f' = (fwdTab f)[p := ?e]" "fwd_inv f'"
  proof (rule insert_cases [OF assms(1-3), of 128 iface])
    assume "insertNewFwdTabEntry ip 128 nh iface f = (-1, f)"
    with assms(4) show thesis by simp
  next
    fix g p
    assume "insertNewFwdTabEntry ip 128 nh iface f = (1, g)" "fwd_inv g" "p < MAXFWDTABENTRIES"
      "fwdTab g = (fwdTab f)[p := ?e]"
    with assms(4) show thesis by (intro that [of p]) simp_all
  qed simp_all
  have mem: "?e \<in> set (fwdTab f')" using p assms(1) by (simp add: fwd_inv_def set_update_memI)
  have m: "route_matches ?e ip" by (simp add: route_matches_def new_entry_def)
  have uniq: "e' = ?e" if "e' \<in> set (fwdTab f')" "route_matches e' ip"
    "unat (f_prefixLen ?e) \<le> unat (f_prefixLen e')" for e'
  proof (rule ccontr)
    assume "e' \<noteq> ?e"
    then have "e' \<in> set (fwdTab f)"
      using that(1) set_update_subset_insert [of "fwdTab f" p ?e] by (auto simp: p(2))
    moreover have "entry_ok e'" using that(1) p(3) by (simp add: fwd_inv_def)
    then have "f_prefixLen e' = 128"
      using that(3) by (simp add: entry_ok_def new_entry_def word_le_nat_alt word_unat_eq_iff)
    ultimately show False using that(2) assms(5) by blast
  qed
  have "fwd_look f' ip = Some ?e"
    using rt.look_unique [OF p(3) assms(2) mem m] uniq by blast
  then show ?thesis
    using rt.look_Some [OF p(3) assms(2)]
    by (cases rule: getNextHop_cases [OF p(3) assms(2)]) (auto simp: fwd_look_def new_entry_def)
qed

theorem host_route_found_witness:
  "\<exists>f' i. insertNewFwdTabEntry (replicate 16 3) 128 (replicate 16 4) 1
      (fwdipv6_init 0 (replicate 16 1) fwd_boot) = (1, f') \<and>
    getNextHop f' (replicate 16 3) = int i \<and> f_iface (fwd_entry f' i) = 1"
proof -
  let ?f = "fwdipv6_init 0 (replicate 16 1) fwd_boot"
  have inv: "fwd_inv ?f" by (rule fwd_inv_init)
  obtain f' where f': "insertNewFwdTabEntry (replicate 16 3) 128 (replicate 16 4) 1 ?f = (1, f')"
    by (rule insert_cases [OF inv, of "replicate 16 3" "replicate 16 4" 128 1])
      (simp_all add: IPV6_ASIZE_def fwdipv6_init_def fwd_boot_def MAXFWDTABENTRIES_def)
  have "\<not> (\<exists>e \<in> set (fwdTab ?f). route_matches e (replicate 16 3) \<and> f_prefixLen e = 128)"
    by (simp add: fwdipv6_init_def fwd_boot_def)
  from host_route_found [OF inv _ _ f' this] f' show ?thesis
    by (auto simp: IPV6_ASIZE_def)
qed

text \<open>The search compares whole bytes, so a route whose prefix is shorter than 8 bits
  covers every destination: with such a route installed \<^verbatim>\<open>getNextHop\<close> never falls back to the
  default router.\<close>

theorem short_prefix_covers_everything:
  assumes "fwd_inv f" and "e \<in> set (fwdTab f)" and "0 < f_prefixLen e" and "f_prefixLen e < 8"
    and "length ip = IPV6_ASIZE"
  shows "getNextHop f ip \<noteq> -1"
proof -
  have "unat (f_prefixLen e) div 8 = 0" using assms(4) by (simp add: word_less_nat_alt)
  then have "route_matches e ip" using assms(3) by (simp add: route_matches_def)
  then show ?thesis using assms(2) by (cases rule: getNextHop_cases [OF assms(1,5)]) auto
qed

theorem short_prefix_covers_everything_witness:
  "\<exists>f. getNextHop f (replicate 16 200) \<noteq> -1 \<and>
    insertNewFwdTabEntry (replicate 16 3) 5 (replicate 16 4) 1
      (fwdipv6_init 0 (replicate 16 1) fwd_boot) = (1, f)"
proof -
  let ?f = "fwdipv6_init 0 (replicate 16 1) fwd_boot"
  have inv: "fwd_inv ?f" by (rule fwd_inv_init)
  obtain f' p where f': "insertNewFwdTabEntry (replicate 16 3) 5 (replicate 16 4) 1 ?f = (1, f')"
    and i': "fwd_inv f'" and p: "p < MAXFWDTABENTRIES"
    and tab: "fwdTab f' = (fwdTab ?f)[p := new_entry (replicate 16 3) 5 (replicate 16 4) 1]"
    by (rule insert_cases [OF inv, of "replicate 16 3" "replicate 16 4" 5 1])
      (simp_all add: IPV6_ASIZE_def fwdipv6_init_def fwd_boot_def MAXFWDTABENTRIES_def)
  have "new_entry (replicate 16 3) 5 (replicate 16 4) 1 \<in> set (fwdTab f')"
    using p inv unfolding tab by (intro set_update_memI) (simp add: fwd_inv_def)
  from short_prefix_covers_everything [OF i' this, of "replicate 16 200"] f' show ?thesis
    by (auto simp: new_entry_def IPV6_ASIZE_def)
qed

end
