(* ===== verification/ND_Cache.thy ===== *)
theory ND_Cache
  imports Fwd_Table
begin

text \<open>
  The neighbour-discovery cache of \<^verbatim>\<open>net/ndcache.c\<close> (struct in \<^verbatim>\<open>include/ndcache.h\<close>).
  \<^verbatim>\<open>NDCache\<close> is an array of pointers to entries that \<^verbatim>\<open>NDCache_init\<close> allocates once; a
  pointer is modelled by its index in the array, \<open>None\<close> is NULL.
\<close>

section \<open>Data and operations\<close>

record NDCacheEntry =
  n_ttl :: u32
  n_ipAddr :: "byte list"
  n_macAddr :: "byte list"
  n_state :: byte

type_synonym ndcache = "NDCacheEntry list"

definition MAXNDENTRY :: nat where "MAXNDENTRY = 30"
definition MAXNDTTL :: u32 where "MAXNDTTL = 900"
definition NDNOENTRY :: byte where "NDNOENTRY = 0"
definition NDINCOMPLETE :: byte where "NDINCOMPLETE = 1"
definition NDREACHABLE :: byte where "NDREACHABLE = 2"
definition NDPROCESSING :: byte where "NDPROCESSING = 10"

lemmas nd_states = NDNOENTRY_def NDINCOMPLETE_def NDREACHABLE_def NDPROCESSING_def

definition lookupMACNDEntry :: "ndcache \<Rightarrow> byte list \<Rightarrow> nat option" where
  "lookupMACNDEntry nd macAddr =
     find (\<lambda>i. match macAddr (n_macAddr (nd ! i)) ETH_ADDR_LEN \<noteq> 0) [0..<MAXNDENTRY]"

definition lookupNDEntry :: "ndcache \<Rightarrow> byte list \<Rightarrow> nat option" where
  "lookupNDEntry nd ipAddr =
     find (\<lambda>i. match ipAddr (n_ipAddr (nd ! i)) IPV6_ASIZE = 1) [0..<MAXNDENTRY]"

definition getAvailNDEntry :: "ndcache \<Rightarrow> nat option \<times> ndcache" where
  "getAvailNDEntry nd =
     (case find (\<lambda>i. n_state (nd ! i) = NDNOENTRY) [0..<MAXNDENTRY] of
        None \<Rightarrow> (None, nd)
      | Some i \<Rightarrow> (Some i, nd[i := (nd ! i)\<lparr>n_state := NDPROCESSING\<rparr>]))"

definition NDCache_init :: ndcache where
  "NDCache_init = replicate MAXNDENTRY
     \<lparr>n_ttl = 0, n_ipAddr = replicate IPV6_ASIZE 0, n_macAddr = replicate ETH_ADDR_LEN 0,
      n_state = NDNOENTRY\<rparr>"

text \<open>
  \<^verbatim>\<open>createEntry\<close> casts the array of pointers itself to an entry, so it works on the memory of
  the array (at address \<open>a\<close>): \<^verbatim>\<open>ttl\<close> at offset 0, the address at 4, the MAC address at 20, the
  state at 26. The test \<^verbatim>\<open>nd->ipAddr != NULL\<close> compares the address of a member with NULL and
  holds in the first iteration, which ends with \<^verbatim>\<open>break\<close>; the second loop is never reached.
\<close>

definition createEntry :: "u32 \<Rightarrow> byte list \<Rightarrow> byte list \<Rightarrow> byte \<Rightarrow> mem \<Rightarrow> nat \<Rightarrow> mem" where
  "createEntry ttl ip maddr state m a =
     (let nd = a; nd_ipAddr = nd + 4 in
      if nd_ipAddr \<noteq> 0
      then (let m = wr32 m nd ttl;
                m = wr_bytes m nd_ipAddr (take IPV6_ASIZE ip);
                m = wr_bytes m (nd + 20) (take ETH_ADDR_LEN maddr)
            in m(nd + 26 := state))
      else m)"

section \<open>Searching\<close>

definition nd_inv :: "ndcache \<Rightarrow> bool" where
  "nd_inv nd \<longleftrightarrow> length nd = MAXNDENTRY \<and>
     (\<forall>e \<in> set nd. length (n_ipAddr e) = IPV6_ASIZE \<and> length (n_macAddr e) = ETH_ADDR_LEN)"

interpretation nd_ip: first_match "\<lambda>nd. MAXNDENTRY"
  "\<lambda>nd ip i. match ip (n_ipAddr (nd ! i)) IPV6_ASIZE = 1" lookupNDEntry
  by unfold_locales (auto simp: lookupNDEntry_def find_upt_Some_iff find_upt_None_iff)

interpretation nd_mac: first_match "\<lambda>nd. MAXNDENTRY"
  "\<lambda>nd mac i. match mac (n_macAddr (nd ! i)) ETH_ADDR_LEN \<noteq> 0" lookupMACNDEntry
  by unfold_locales (auto simp: lookupMACNDEntry_def find_upt_Some_iff find_upt_None_iff)

interpretation nd_free: first_match "\<lambda>nd. MAXNDENTRY"
  "\<lambda>nd (_::unit) i. n_state (nd ! i) = NDNOENTRY" "\<lambda>nd _. fst (getAvailNDEntry nd)"
  by unfold_locales (auto simp: getAvailNDEntry_def find_upt_Some_iff find_upt_None_iff split: option.splits)

lemma nd_inv_nth:
  "nd_inv nd \<Longrightarrow> i < MAXNDENTRY \<Longrightarrow>
   length (n_ipAddr (nd ! i)) = IPV6_ASIZE \<and> length (n_macAddr (nd ! i)) = ETH_ADDR_LEN"
  by (simp add: nd_inv_def)

lemma nd_ip_hit:
  "nd_inv nd \<Longrightarrow> i < MAXNDENTRY \<Longrightarrow> length ip = IPV6_ASIZE \<Longrightarrow>
   match ip (n_ipAddr (nd ! i)) IPV6_ASIZE = 1 \<longleftrightarrow> n_ipAddr (nd ! i) = ip"
  using nd_inv_nth [of nd i] match_full [of ip IPV6_ASIZE "n_ipAddr (nd ! i)"]
  by (auto simp: match_01)

lemma nd_inv_init: "nd_inv NDCache_init"
  by (simp add: nd_inv_def NDCache_init_def)

lemma nd_inv_update:
  "nd_inv nd \<Longrightarrow> length (n_ipAddr e) = IPV6_ASIZE \<Longrightarrow> length (n_macAddr e) = ETH_ADDR_LEN \<Longrightarrow>
   nd_inv (nd[i := e])"
  using set_update_subset_insert [of nd i e] by (auto simp: nd_inv_def)

lemma getAvailNDEntry_inv: "nd_inv nd \<Longrightarrow> nd_inv (snd (getAvailNDEntry nd))"
  by (auto simp: getAvailNDEntry_def find_upt_Some_iff nd_inv_nth split: option.splits
      intro!: nd_inv_update)

text \<open>Taking a free entry leaves every search by address or by MAC address unchanged.\<close>

lemma getAvail_other_fields:
  assumes "nd_inv nd"
  shows "n_ipAddr (snd (getAvailNDEntry nd) ! j) = n_ipAddr (nd ! j)"
    and "n_macAddr (snd (getAvailNDEntry nd) ! j) = n_macAddr (nd ! j)"
  using assms by (auto simp: getAvailNDEntry_def nth_list_update nd_inv_def find_upt_Some_iff
      split: option.splits)

lemma lookup_after_getAvail:
  assumes "nd_inv nd"
  shows "lookupNDEntry (snd (getAvailNDEntry nd)) ip = lookupNDEntry nd ip"
  using getAvail_other_fields(1) [OF assms] by (simp add: lookupNDEntry_def)

text \<open>Filling an entry makes the cache answer for the address, and changes no other answer
  unless the entry held that address.\<close>

lemma lookup_after_store:
  assumes "nd_inv nd" "i < MAXNDENTRY" "length ip = IPV6_ASIZE"
    and "lookupNDEntry nd ip = None \<or> lookupNDEntry nd ip = Some i" "n_ipAddr e = ip"
  shows "lookupNDEntry (nd[i := e]) ip = Some i"
proof (rule nd_ip.search_first [OF assms(2)])
  have len: "i < length nd" using assms(1,2) by (simp add: nd_inv_def)
  show "match ip (n_ipAddr (nd[i := e] ! i)) IPV6_ASIZE = 1"
    using len assms(3,5) by (simp add: match_eq)
  show "\<not> match ip (n_ipAddr (nd[i := e] ! j)) IPV6_ASIZE = 1" if "j < i" for j
    using assms(2,4) that nd_ip.search_None_iff [of nd ip] nd_ip.search_Some_iff [of nd ip i] by auto
qed

lemma lookup_frame:
  assumes "nd_inv nd" "i < MAXNDENTRY" "length ip = IPV6_ASIZE"
    and "n_ipAddr (nd ! i) \<noteq> ip" "n_ipAddr e \<noteq> ip" "length (n_ipAddr e) = IPV6_ASIZE"
  shows "lookupNDEntry (nd[i := e]) ip = lookupNDEntry nd ip"
proof -
  have len: "length nd = MAXNDENTRY" using assms(1) by (simp add: nd_inv_def)
  have "match ip (n_ipAddr (nd[i := e] ! j)) IPV6_ASIZE = match ip (n_ipAddr (nd ! j)) IPV6_ASIZE"
    if "j < MAXNDENTRY" for j
  proof (cases "j = i")
    case True
    have "match ip (n_ipAddr e) IPV6_ASIZE \<noteq> 1" "match ip (n_ipAddr (nd ! i)) IPV6_ASIZE \<noteq> 1"
      using assms nd_ip_hit [OF assms(1,2,3)] match_full [OF assms(3,6)] by (auto simp: match_01)
    then show ?thesis using True assms(2) len by (auto simp: match_eq split: if_splits)
  qed simp
  then show ?thesis unfolding lookupNDEntry_def by (intro find_cong) auto
qed

section \<open>Properties\<close>

text \<open>The cache answers with the entry whose address is the one asked for: with the
  invariant, \<^verbatim>\<open>lookupNDEntry\<close> returns NULL exactly when no entry has the address, and
  otherwise the first entry that has it.\<close>

theorem lookupNDEntry_correct:
  assumes "nd_inv nd" and "length ip = IPV6_ASIZE"
  shows "case lookupNDEntry nd ip of
      None \<Rightarrow> \<forall>i < MAXNDENTRY. n_ipAddr (nd ! i) \<noteq> ip
    | Some i \<Rightarrow> i < MAXNDENTRY \<and> n_ipAddr (nd ! i) = ip \<and> (\<forall>j < i. n_ipAddr (nd ! j) \<noteq> ip)"
proof (cases "lookupNDEntry nd ip")
  case None
  then show ?thesis
    using nd_ip.search_None_iff [of nd ip] nd_ip_hit [OF assms(1) _ assms(2)] by simp
next
  case (Some i)
  then have "i < MAXNDENTRY" "match ip (n_ipAddr (nd ! i)) IPV6_ASIZE = 1"
    "\<forall>j < i. match ip (n_ipAddr (nd ! j)) IPV6_ASIZE \<noteq> 1"
    using nd_ip.search_Some_iff [of nd ip i] by auto
  moreover have "n_ipAddr (nd ! j) \<noteq> ip" if "j < i" for j
    using calculation nd_ip_hit [OF assms(1) _ assms(2), of j] that by auto
  ultimately show ?thesis using Some nd_ip_hit [OF assms(1) _ assms(2), of i] by simp
qed

theorem lookupNDEntry_correct_witness:
  "lookupNDEntry NDCache_init (replicate 16 0) = Some 0 \<and>
   \<not> (\<exists>i < MAXNDENTRY. n_ipAddr (NDCache_init ! i) = replicate 16 5)"
proof -
  have l5: "lookupNDEntry NDCache_init (replicate 16 5) = None"
  proof -
    have "match (replicate 16 5) (replicate 16 0) 16 \<noteq> 1" by (auto simp: match_full match_01 [symmetric])
    then show ?thesis by (simp add: nd_ip.search_None_iff NDCache_init_def IPV6_ASIZE_def)
  qed
  have l0: "lookupNDEntry NDCache_init (replicate 16 0) = Some 0"
    by (rule nd_ip.search_first) (simp_all add: NDCache_init_def match_eq IPV6_ASIZE_def MAXNDENTRY_def)
  show ?thesis
    using lookupNDEntry_correct [OF nd_inv_init, of "replicate 16 5"] l5 l0 by (simp add: IPV6_ASIZE_def)
qed

text \<open>Allocation. With no free entry \<^verbatim>\<open>getAvailNDEntry\<close> returns NULL and changes nothing;
  otherwise it returns the first free entry, which it marks as being processed, so that two
  calls never return the same entry; no address or MAC look-up changes.\<close>

theorem getAvailNDEntry_correct:
  assumes "nd_inv nd"
  shows "case getAvailNDEntry nd of
      (None, nd') \<Rightarrow> nd' = nd \<and> (\<forall>i < MAXNDENTRY. n_state (nd ! i) \<noteq> NDNOENTRY)
    | (Some i, nd') \<Rightarrow> i < MAXNDENTRY \<and> n_state (nd ! i) = NDNOENTRY \<and>
        n_state (nd' ! i) = NDPROCESSING \<and> (\<forall>j. j \<noteq> i \<longrightarrow> nd' ! j = nd ! j) \<and>
        fst (getAvailNDEntry nd') \<noteq> Some i \<and> nd_inv nd' \<and>
        (\<forall>ip. lookupNDEntry nd' ip = lookupNDEntry nd ip)"
proof (cases "fst (getAvailNDEntry nd)")
  case None
  then have "getAvailNDEntry nd = (None, nd)" by (auto simp: getAvailNDEntry_def split: option.splits)
  then show ?thesis using None nd_free.search_None_iff [of nd] by simp
next
  case (Some i)
  let ?nd = "nd[i := (nd ! i)\<lparr>n_state := NDPROCESSING\<rparr>]"
  from Some have eq: "getAvailNDEntry nd = (Some i, ?nd)"
    by (auto simp: getAvailNDEntry_def split: option.splits)
  have i: "i < MAXNDENTRY" "n_state (nd ! i) = NDNOENTRY"
    using Some nd_free.search_Some_iff [of nd i] by auto
  then have len: "i < length nd" using assms by (simp add: nd_inv_def)
  have "fst (getAvailNDEntry ?nd) \<noteq> Some i"
    using len nd_free.search_Some_iff [of ?nd i] by (auto simp: nd_states)
  then show ?thesis
    using eq i len getAvailNDEntry_inv [OF assms] lookup_after_getAvail [OF assms] by simp
qed

theorem getAvailNDEntry_correct_witness:
  "\<exists>nd'. getAvailNDEntry NDCache_init = (Some 0, nd') \<and> fst (getAvailNDEntry nd') \<noteq> Some 0"
proof -
  have "fst (getAvailNDEntry NDCache_init) = Some 0"
    by (rule nd_free.search_first) (simp_all add: NDCache_init_def MAXNDENTRY_def)
  then show ?thesis
    using getAvailNDEntry_correct [OF nd_inv_init] by (cases "getAvailNDEntry NDCache_init") auto
qed

text \<open>\<^verbatim>\<open>createEntry\<close> writes the fields of an entry over the array of pointers itself:
  whatever the array held, its first pointer becomes the TTL and the next four the IPv6 address.\<close>

theorem createEntry_overwrites_pointers:
  assumes "length ip = IPV6_ASIZE" and "length maddr = ETH_ADDR_LEN"
  shows "bytes (createEntry ttl ip maddr state m a) a 27 = le32 ttl @ ip @ maddr @ [state] \<and>
    (\<forall>x. x < a \<or> a + 27 \<le> x \<longrightarrow> createEntry ttl ip maddr state m a x = m x)"
proof -
  let ?m1 = "wr32 m a ttl" let ?m2 = "wr_bytes ?m1 (a + 4) ip" let ?m3 = "wr_bytes ?m2 (a + 20) maddr"
  have def: "createEntry ttl ip maddr state m a = ?m3(a + 26 := state)"
    using assms by (simp add: createEntry_def Let_def)
  have "bytes (?m3(a + 26 := state)) a (4 + (16 + (6 + 1))) =
      bytes ?m1 a 4 @ ip @ maddr @ [state]"
    unfolding bytes_append using assms
    by (simp add: mem_simps add.assoc IPV6_ASIZE_def ETH_ADDR_LEN_def)
      (simp add: bytes_def mem_simps)
  moreover have "bytes ?m1 a 4 = le32 ttl" by (simp add: wr32_def mem_simps)
  moreover have "createEntry ttl ip maddr state m a x = m x" if "x < a \<or> a + 27 \<le> x" for x
    using that assms unfolding def
    by (auto simp: wr32_def mem_simps IPV6_ASIZE_def ETH_ADDR_LEN_def)
  ultimately show ?thesis using def by simp
qed

theorem createEntry_overwrites_pointers_witness:
  "bytes (createEntry 900 (replicate 16 1) (replicate 6 2) 2 (\<lambda>_. 0) 64) 64 27 =
     le32 900 @ replicate 16 1 @ replicate 6 2 @ [2]"
  using createEntry_overwrites_pointers [of "replicate 16 1" "replicate 6 2" 900 2 "\<lambda>_. 0" 64]
  by (simp only: IPV6_ASIZE_def ETH_ADDR_LEN_def length_replicate simp_thms)

lemma nd_init_lookup:
  "lookupNDEntry NDCache_init (replicate 16 0) = Some 0"
  by (simp add: lookupNDEntry_def MAXNDENTRY_def upt_conv_Cons NDCache_init_def match_eq IPV6_ASIZE_def)

end
