(* ===== verification/Nat_Table.thy ===== *)
theory Nat_Table
  imports ND_Cache
begin

text \<open>
  The NAT table of \<^verbatim>\<open>net/nat.c\<close> (struct in \<^verbatim>\<open>include/nat.h\<close>): the entries, the counter that
  hands out translated identifiers, and the search for the entry of a reply.
\<close>

section \<open>Data and operations\<close>

record natEntry =
  t_src :: "byte list"
  t_dest :: "byte list"
  t_iface :: byte
  t_srcID :: u16
  t_transID :: u16

record nat_table =
  natTab :: "natEntry list"
  NATIDCOUNTER :: u16

definition MAXNATENTRIES :: nat where "MAXNATENTRIES = 30"

text \<open>\<^verbatim>\<open>getNewID\<close> returns an \<^verbatim>\<open>int16\<close>: the counter is read back as a signed integer.\<close>

definition getNewID :: "nat_table \<Rightarrow> int \<times> nat_table" where
  "getNewID t =
     (let c = NATIDCOUNTER t + 1; t = t\<lparr>NATIDCOUNTER := c\<rparr> in
      if unat c = MAXNATENTRIES then (-1, t) else (sint (c - 1), t))"

definition natTab_init :: "nat_table \<Rightarrow> nat_table" where
  "natTab_init t = t\<lparr>natTab := map (\<lambda>e. e\<lparr>t_srcID := 0, t_transID := 0, t_iface := 0,
        t_src := replicate IPV6_ASIZE 0, t_dest := replicate IPV6_ASIZE 0\<rparr>) (natTab t),
      NATIDCOUNTER := 0\<rparr>"

text \<open>The search loop of \<^verbatim>\<open>incPktRW\<close>: first entry with the identifier and the peer's address.\<close>

definition nat_lookup :: "nat_table \<Rightarrow> u16 \<times> byte list \<Rightarrow> nat option" where
  "nat_lookup t k = find (\<lambda>i. t_transID (natTab t ! i) = fst k \<and>
      match (t_dest (natTab t ! i)) (snd k) IPV6_ASIZE \<noteq> 0) [0..<MAXNATENTRIES]"

text \<open>The table update of \<^verbatim>\<open>outPktRW\<close> for a slot inside the table.\<close>

definition nat_store :: "nat \<Rightarrow> natEntry \<Rightarrow> nat_table \<Rightarrow> nat_table" where
  "nat_store i e t = t\<lparr>natTab := (natTab t)[i := e]\<rparr>"

section \<open>Invariant\<close>

text \<open>
  Slot \<open>i\<close> holds identifier \<open>i\<close> once it has been handed out, and is all zero before. The
  counter is at most 30: the next call after that leaves the table.
\<close>

definition nat_inv :: "nat_table \<Rightarrow> bool" where
  "nat_inv t \<longleftrightarrow> length (natTab t) = MAXNATENTRIES \<and> unat (NATIDCOUNTER t) \<le> MAXNATENTRIES \<and>
     (\<forall>i < MAXNATENTRIES. length (t_src (natTab t ! i)) = IPV6_ASIZE \<and>
        length (t_dest (natTab t ! i)) = IPV6_ASIZE \<and>
        t_transID (natTab t ! i) =
          (if i < unat (NATIDCOUNTER t) \<and> i < 29 then word_of_nat i else 0))"

interpretation nat_id: first_match "\<lambda>t. MAXNATENTRIES"
  "\<lambda>t k i. t_transID (natTab t ! i) = fst k \<and> match (t_dest (natTab t ! i)) (snd k) IPV6_ASIZE \<noteq> 0"
  nat_lookup
  by unfold_locales (auto simp: nat_lookup_def find_upt_Some_iff find_upt_None_iff)

definition nat_boot :: nat_table where
  "nat_boot = \<lparr>natTab = replicate MAXNATENTRIES \<lparr>t_src = replicate 16 0, t_dest = replicate 16 0,
      t_iface = 0, t_srcID = 0, t_transID = 0\<rparr>, NATIDCOUNTER = 0\<rparr>"

lemma nat_inv_init: "nat_inv (natTab_init nat_boot)"
  by (simp add: nat_inv_def natTab_init_def nat_boot_def IPV6_ASIZE_def)

text \<open>What \<^verbatim>\<open>getNewID\<close> returns, for every value of the counter the invariant allows.\<close>

lemma getNewID_inside:
  assumes "unat (NATIDCOUNTER t) = k" "k < 29"
  shows "getNewID t = (int k, t\<lparr>NATIDCOUNTER := word_of_nat (k + 1)\<rparr>)"
proof -
  have c: "NATIDCOUNTER t = word_of_nat k" by (simp add: assms(1) [symmetric])
  then have "unat (NATIDCOUNTER t + 1) = k + 1"
    using assms by (simp add: unat_word_ariths)
  moreover have "sint (word_of_nat k :: u16) = int k"
    using assms(2) by (simp add: sint_uint uint_nat unat_of_nat signed_take_bit_int_eq_self)
  ultimately show ?thesis using assms c by (simp add: getNewID_def MAXNATENTRIES_def)
qed

lemma getNewID_29:
  assumes "unat (NATIDCOUNTER t) = 29"
  shows "getNewID t = (-1, t\<lparr>NATIDCOUNTER := 30\<rparr>)"
proof -
  have c: "NATIDCOUNTER t = 29" using assms by (simp add: word_unat_eq_iff)
  then show ?thesis by (simp add: getNewID_def MAXNATENTRIES_def)
qed

lemma getNewID_30:
  assumes "unat (NATIDCOUNTER t) = 30"
  shows "getNewID t = (30, t\<lparr>NATIDCOUNTER := 31\<rparr>)"
proof -
  have c: "NATIDCOUNTER t = 30" using assms by (simp add: word_unat_eq_iff)
  then show ?thesis by (simp add: getNewID_def MAXNATENTRIES_def)
qed

lemma nat_inv_store:
  assumes "nat_inv t" "unat (NATIDCOUNTER t) = k" "k < 29"
    and "length (t_src e) = IPV6_ASIZE" "length (t_dest e) = IPV6_ASIZE" "t_transID e = word_of_nat k"
  shows "nat_inv (nat_store k e (t\<lparr>NATIDCOUNTER := word_of_nat (k + 1)\<rparr>))"
proof -
  have "unat (word_of_nat (Suc k) :: u16) = Suc k" using assms(3) by (simp only: unat_of_nat) simp
  then show ?thesis
    using assms by (auto simp: nat_inv_def nat_store_def nth_list_update MAXNATENTRIES_def)
qed

text \<open>The entry stored for identifier \<open>k\<close> is the one the search finds.\<close>

lemma nat_lookup_store:
  assumes "nat_inv t" "k < 29" "k \<le> unat (NATIDCOUNTER t)" "t_transID e = word_of_nat k"
    and "t_dest e = peer" "length peer = IPV6_ASIZE"
  shows "nat_lookup (nat_store k e t) (word_of_nat k, peer) = Some k"
proof (rule nat_id.search_first)
  have len: "k < length (natTab t)" using assms(1,2) by (simp add: nat_inv_def MAXNATENTRIES_def)
  show "k < MAXNATENTRIES" using assms(2) by (simp add: MAXNATENTRIES_def)
  show "t_transID (natTab (nat_store k e t) ! k) = fst (word_of_nat k, peer) \<and>
      match (t_dest (natTab (nat_store k e t) ! k)) (snd (word_of_nat k, peer)) IPV6_ASIZE \<noteq> 0"
    using assms len by (simp add: nat_store_def match_eq)
  show "\<not> (t_transID (natTab (nat_store k e t) ! j) = fst (word_of_nat k, peer) \<and>
      match (t_dest (natTab (nat_store k e t) ! j)) (snd (word_of_nat k, peer)) IPV6_ASIZE \<noteq> 0)"
    if "j < k" for j
  proof -
    have "t_transID (natTab t ! j) = word_of_nat j"
      using assms(1-3) that by (simp add: nat_inv_def MAXNATENTRIES_def)
    moreover have "(word_of_nat j :: u16) \<noteq> word_of_nat k"
      using that assms(2) by (simp add: word_unat_eq_iff unat_of_nat)
    ultimately show ?thesis using that by (simp add: nat_store_def)
  qed
qed

end
