(* ===== verification/Checksum6.thy ===== *)
theory Checksum6
  imports Net_Prelude
begin

text \<open>
  The Internet checksum of \<^verbatim>\<open>net/checksum6.c\<close>. The loop counter of the C function is a
  16-bit integer compared with a 32-bit length, so the loop is a partial function: \<open>None\<close>
  is a call that never returns. The section on correctness compares the function with the
  one's complement sum of RFC 1071.
\<close>

section \<open>The code\<close>

partial_function (option) cksum_loop :: "mem \<Rightarrow> nat \<Rightarrow> u16 \<Rightarrow> u32 \<Rightarrow> u32 \<Rightarrow> u32 option" where
  "cksum_loop m ptr i cksum messagelength =
     (if ucast i < messagelength
      then cksum_loop m (ptr + 2) (i + 2) (cksum + ucast (ntohs (rd16 m ptr))) messagelength
      else Some cksum)"

definition cksum_fold :: "u32 \<Rightarrow> u16" where
  "cksum_fold cksum = ucast (0xffff AND NOT (cksum + drop_bit 16 cksum))"

definition checksumv6 :: "mem \<Rightarrow> nat \<Rightarrow> u32 \<Rightarrow> u16 option" where
  "checksumv6 m pkt messagelength =
     map_option cksum_fold (cksum_loop m pkt 0 0 messagelength)"

text \<open>
  \<^verbatim>\<open>cksum_valid\<close> adds the two 16-bit sums as C integers, so without wrap-around, and tests
  the low 16 bits of the complement.
\<close>

definition cksum_valid :: "mem \<Rightarrow> nat \<Rightarrow> nat \<Rightarrow> u32 \<Rightarrow> u32 \<Rightarrow> bool option" where
  "cksum_valid m phead pkt len pheadlen =
     (case checksumv6 m pkt len of
        None \<Rightarrow> None
      | Some a \<Rightarrow>
         (case checksumv6 m phead pheadlen of
            None \<Rightarrow> None
          | Some b \<Rightarrow> Some ((0xffff AND NOT (ucast a + ucast b :: u32)) = 0)))"

definition cksum_valid_1buf :: "mem \<Rightarrow> nat \<Rightarrow> u32 \<Rightarrow> bool option" where
  "cksum_valid_1buf m pkt len =
     (case checksumv6 m pkt len of
        None \<Rightarrow> None
      | Some a \<Rightarrow> Some ((0xffff AND NOT (ucast a :: u32)) = 0))"

section \<open>The loop returns for every length below 65535, and for no other\<close>

text \<open>The exact sum of the first \<open>k\<close> network-order words of a block.\<close>

definition word_sum :: "mem \<Rightarrow> nat \<Rightarrow> nat \<Rightarrow> nat" where
  "word_sum m p k = (\<Sum>j<k. 256 * unat (m (p + 2 * j)) + unat (m (p + 2 * j + 1)))"

lemma word_sum_0 [simp]: "word_sum m p 0 = 0"
  by (simp add: word_sum_def)

lemma word_sum_Suc: "word_sum m p (Suc k) =
    256 * unat (m p) + unat (m (p + 1)) + word_sum m (p + 2) k"
  unfolding word_sum_def by (subst sum.lessThan_Suc_shift) (simp add: add.assoc)

lemma word_sum_bound: "word_sum m p k \<le> 65535 * k"
proof -
  have "word_sum m p k \<le> (\<Sum>j<k. 65535)"
    unfolding word_sum_def
  proof (rule sum_mono)
    fix j
    show "256 * unat (m (p + 2 * j)) + unat (m (p + 2 * j + 1)) \<le> 65535"
      using unat_byte_less [of "m (p + 2 * j)"] unat_byte_less [of "m (p + 2 * j + 1)"] by simp
  qed
  then show ?thesis by (simp add: mult.commute)
qed

lemma word_sum_cong:
  "bytes m p (2 * k) = bytes m' q (2 * k) \<Longrightarrow> word_sum m p k = word_sum m' q k"
  unfolding word_sum_def bytes_eq_iff by (intro sum.cong) (auto simp del: add_Suc_right simp: add.assoc)

text \<open>Number of words the loop adds from counter \<open>i\<close> to a length \<open>len\<close>.\<close>

abbreviation words_of :: "nat \<Rightarrow> nat" where
  "words_of len \<equiv> (len + 1) div 2"

lemma ucast_less_iff: "(ucast (i :: u16) :: u32) < len \<longleftrightarrow> unat i < unat len"
  by (simp add: word_less_nat_alt)

lemma unat_add2: "unat (i :: u16) + 2 < 65536 \<Longrightarrow> unat (i + 2) = unat i + 2"
  by (simp add: unat_word_ariths)

lemma cksum_loop_Some:
  assumes "unat i + 2 * k = 2 * words_of (unat len)" "unat len \<le> 65534"
    and "unat ck + 65535 * k < 4294967296"
  shows "cksum_loop m p i ck len = Some (word_of_nat (unat ck + word_sum m p k))"
  using assms
proof (induction k arbitrary: p i ck)
  case 0
  then have "\<not> unat i < unat len" by simp
  then show ?case by (simp add: cksum_loop.simps ucast_less_iff)
next
  case (Suc k)
  let ?w = "ucast (ntohs (rd16 m p)) :: u32"
  have i: "unat i < unat len" and i2: "unat (i + 2) = unat i + 2"
    using Suc.prems by (simp, subst unat_add2) simp_all
  have w: "unat ?w = 256 * unat (m p) + unat (m (p + 1))"
    by (simp add: unat_ntohs_rd16)
  moreover have "unat ?w \<le> 65535"
    using unat_u16_less [of "ntohs (rd16 m p)"] by simp
  ultimately have ck: "unat (ck + ?w) = unat ck + (256 * unat (m p) + unat (m (p + 1)))"
    and bnd: "unat (ck + ?w) + 65535 * k < 4294967296"
    using Suc.prems(3) by (simp_all add: unat_word_ariths)
  have "cksum_loop m (p + 2) (i + 2) (ck + ?w) len =
      Some (word_of_nat (unat (ck + ?w) + word_sum m (p + 2) k))"
    by (rule Suc.IH) (use Suc.prems i2 bnd in simp_all)
  then show ?case
    using i ck by (simp add: cksum_loop.simps [of m p i] ucast_less_iff word_sum_Suc add.assoc)
qed

lemma cksum_loop_None:
  assumes "65535 \<le> unat len" "even (unat i)"
  shows "cksum_loop m p i ck len = None"
proof (rule ccontr)
  assume "cksum_loop m p i ck len \<noteq> None"
  then obtain r where r: "cksum_loop m p i ck len = Some r" by blast
  have "\<not> (65535 \<le> unat len \<and> even (unat i))"
  proof (rule cksum_loop.raw_induct [where
        P = "\<lambda>m p i ck len r. \<not> (65535 \<le> unat len \<and> even (unat i))", OF _ r])
    fix f m p and i :: u16 and ck len r :: u32
    assume IH: "\<And>m p i ck len r. f m p i ck len = Some r \<Longrightarrow>
        \<not> (65535 \<le> unat (len :: u32) \<and> even (unat (i :: u16)))"
      and eq: "(if ucast i < len
         then f m (p + 2) (i + 2) (ck + ucast (ntohs (rd16 m p))) len else Some ck) = Some r"
    show "\<not> (65535 \<le> unat len \<and> even (unat i))"
    proof
      assume A: "65535 \<le> unat len \<and> even (unat i)"
      have "unat i \<noteq> 65535" using A by (metis odd_numeral)
      then have "unat i < unat len" using A unat_u16_less [of i] by simp
      then have lt: "ucast i < len" by (simp only: ucast_less_iff)
      from eq have "f m (p + 2) (i + 2) (ck + ucast (ntohs (rd16 m p))) len = Some r"
        by (simp only: if_P [OF lt])
      then have "\<not> (65535 \<le> unat len \<and> even (unat (i + 2)))" by (rule IH)
      with A have "\<not> even (unat (i + 2))" by blast
      moreover have "even (unat (i + 2))"
        using A by (simp add: unat_word_ariths dvd_mod)
      ultimately show False by simp
    qed
  qed
  with assms show False by simp
qed

lemma checksumv6_Some:
  assumes "unat len \<le> 65534"
  shows "checksumv6 m p len = Some (cksum_fold (word_of_nat (word_sum m p (words_of (unat len)))))"
proof -
  have "words_of (unat len) \<le> 32767" using assms by simp
  then have "cksum_loop m p 0 0 len = Some (word_of_nat (word_sum m p (words_of (unat len))))"
    using assms cksum_loop_Some [of 0 "words_of (unat len)" len 0 m p] by simp
  then show ?thesis by (simp add: checksumv6_def)
qed

section \<open>Comparison with the one's complement sum of RFC 1071\<close>

text \<open>
  \<open>rfc_sum\<close> is the one's complement sum of 16-bit words: the exact sum with every carry out
  of bit 16 added back in until none is left.
\<close>

function rfc_sum :: "nat \<Rightarrow> nat" where
  "rfc_sum s = (if s < 65536 then s else rfc_sum (s mod 65536 + s div 65536))"
  by pat_completeness auto
termination
proof (relation "measure id", simp)
  fix s :: nat
  assume "\<not> s < 65536"
  then have "0 < s div 65536" by simp
  moreover have "s = 65536 * (s div 65536) + s mod 65536" by simp
  ultimately have "s mod 65536 + s div 65536 < s" by linarith
  then show "(s mod 65536 + s div 65536, s) \<in> measure id" by simp
qed

declare rfc_sum.simps [simp del]

lemma unat_drop16: "unat (drop_bit 16 (w :: u32)) = unat w div 65536"
  by (simp add: drop_bit_eq_div unat_div)

lemma cksum_fold_eq:
  assumes "s < 4294967296"
  shows "cksum_fold (word_of_nat s) = NOT (word_of_nat (s mod 65536 + s div 65536))"
proof -
  have "cksum_fold w = NOT (ucast (w + drop_bit 16 w))" for w :: u32
  proof -
    have "(0xffff :: u32) = mask 16" by (simp add: mask_eq_exp_minus_1)
    then have "cksum_fold w = ucast (mask 16 AND NOT (w + drop_bit 16 w))"
      by (simp only: cksum_fold_def)
    also have "\<dots> = NOT (ucast (w + drop_bit 16 w))"
      by (rule bit_eqI) (auto simp: bit_simps)
    finally show ?thesis .
  qed
  moreover have "ucast (word_of_nat s + drop_bit 16 (word_of_nat s) :: u32)
      = (word_of_nat (s mod 65536 + s div 65536) :: u16)"
  proof (rule word_unat_eq_iff [THEN iffD2])
    have d: "unat (drop_bit 16 (word_of_nat s :: u32)) = s div 65536"
      using assms unat_drop16 [of "word_of_nat s"] by (simp add: unat_of_nat)
    have "unat (ucast (word_of_nat s + drop_bit 16 (word_of_nat s) :: u32) :: u16)
        = (s + s div 65536) mod 65536"
      using assms d
      by (simp add: unsigned_ucast_eq unat_word_ariths unat_of_nat take_bit_eq_mod mod_mod_cancel)
    then show "unat (ucast (word_of_nat s + drop_bit 16 (word_of_nat s) :: u32) :: u16)
        = unat (word_of_nat (s mod 65536 + s div 65536) :: u16)"
      by (simp only: unat_of_nat) (simp add: mod_simps)
  qed
  ultimately show ?thesis by simp
qed

lemma one_carry:
  fixes t :: nat
  assumes "t < 131072" "\<not> t < 65536"
  shows "t mod 65536 = t - 65536" "t div 65536 = 1"
proof -
  obtain r where r: "t = 65536 + r" "r < 65536"
    using assms le_Suc_ex [of 65536 t] by fastforce
  then show "t mod 65536 = t - 65536" "t div 65536 = 1"
    by (simp_all only: mod_add_self1 div_add_self1) simp_all
qed

lemma carry_bound:
  fixes s :: nat
  assumes "s < 4294967296"
  shows "s mod 65536 + s div 65536 < 131071"
proof -
  have "s mod 65536 < 65536" "s div 65536 < 65536" using assms by simp_all
  then show ?thesis by linarith
qed

lemma rfc_sum_small: "s < 65536 \<Longrightarrow> rfc_sum s = s"
  by (subst rfc_sum.simps) simp

lemma carry_back:
  fixes t :: nat
  assumes "t < 131071"
  shows "t - 65535 < 65536" "(t - 65535) mod 65536 = t - 65535"
    "\<not> t < 65536 \<Longrightarrow> t - 65536 \<noteq> t - 65535"
  using assms by simp_all

lemma rfc_sum_two_steps:
  assumes "s < 4294967296"
  shows "rfc_sum s = (let t = s mod 65536 + s div 65536 in if t < 65536 then t else t - 65535)"
proof -
  let ?t = "s mod 65536 + s div 65536"
  have t: "?t < 131072" using assms by simp
  have t2: "?t mod 65536 + ?t div 65536 = ?t - 65535" if "\<not> ?t < 65536"
    using one_carry [OF t that] that by arith
  have "rfc_sum s = rfc_sum ?t"
  proof (cases "s < 65536")
    case True
    then have "?t = s" by simp
    then show ?thesis by (simp only:)
  next
    case False
    then show ?thesis by (subst rfc_sum.simps) (rule if_not_P)
  qed
  moreover have "rfc_sum ?t = (if ?t < 65536 then ?t else ?t - 65535)"
  proof (cases "?t < 65536")
    case True
    then show ?thesis by (subst rfc_sum.simps) simp
  next
    case False
    then have "rfc_sum ?t = rfc_sum (?t - 65535)"
      using t2 by (subst rfc_sum.simps) simp
    also have "\<dots> = ?t - 65535"
      by (rule rfc_sum_small [OF carry_back(1) [OF carry_bound [OF assms]]])
    finally show ?thesis using False by simp
  qed
  ultimately show ?thesis by (simp only: Let_def)
qed

text \<open>
  The code adds the carry back once. That is the RFC sum exactly when adding it back gives no
  second carry.
\<close>

lemma cksum_fold_rfc:
  assumes "s < 4294967296"
  shows "cksum_fold (word_of_nat s) = NOT (word_of_nat (rfc_sum s)) \<longleftrightarrow>
     s mod 65536 + s div 65536 < 65536"
proof -
  let ?t = "s mod 65536 + s div 65536"
  have t: "?t < 131072" using assms by simp
  have t': "?t < 131071" using carry_bound [OF assms] .
  have "cksum_fold (word_of_nat s) = NOT (word_of_nat (rfc_sum s)) \<longleftrightarrow>
      (word_of_nat ?t :: u16) = word_of_nat (rfc_sum s)"
    using cksum_fold_eq [OF assms] by (metis bit.double_compl)
  also have "\<dots> \<longleftrightarrow> ?t mod 65536 = rfc_sum s mod 65536"
    by (simp only: word_unat_eq_iff unat_of_nat) simp
  also have "\<dots> \<longleftrightarrow> ?t < 65536"
  proof (cases "?t < 65536")
    case True
    then show ?thesis by (simp add: rfc_sum_two_steps [OF assms] Let_def)
  next
    case False
    then have "rfc_sum s = ?t - 65535" by (simp add: rfc_sum_two_steps [OF assms] Let_def)
    then have "?t mod 65536 \<noteq> rfc_sum s mod 65536"
      using one_carry(1) [OF t False] carry_back(2,3) [OF t'] False by simp
    with False show ?thesis by simp
  qed
  finally show ?thesis .
qed

section \<open>Sums over byte lists\<close>

fun be_sum :: "byte list \<Rightarrow> nat" where
  "be_sum [] = 0"
| "be_sum [a] = 256 * unat a"
| "be_sum (a # b # bs) = 256 * unat a + unat b + be_sum bs"

lemma be_sum_append: "even (length xs) \<Longrightarrow> be_sum (xs @ ys) = be_sum xs + be_sum ys"
  by (induction xs rule: be_sum.induct) auto

lemma word_sum_bytes: "word_sum m p k = be_sum (bytes m p (2 * k))"
proof (induction k arbitrary: p)
  case (Suc k)
  have "bytes m p (2 * Suc k) = m p # m (p + 1) # bytes m (p + 2) (2 * k)"
    by (simp add: bytes_Suc)
  then show ?case using Suc.IH [of "p + 2"] by (simp add: word_sum_Suc)
qed simp

lemma be_sum_bound: "be_sum bs \<le> 65535 * words_of (length bs)"
proof (induction bs rule: be_sum.induct)
  case (2 a)
  show ?case using unat_byte_less [of a] by simp
next
  case (3 a b bs)
  then show ?case using unat_byte_less [of a] unat_byte_less [of b] by simp
qed simp

lemma checksumv6_be_sum:
  assumes "unat len \<le> 65534" "even (unat len)"
  shows "checksumv6 m p len = Some (cksum_fold (word_of_nat (be_sum (bytes m p (unat len)))))"
  using checksumv6_Some [OF assms(1)] assms(2) by (simp add: word_sum_bytes)

lemma be_sum_be16: "be_sum (be16 w) = unat w"
proof -
  have "unat (ucast (drop_bit 8 w) :: byte) = unat w div 256"
    using unat_u16_less [of w]
    by (simp add: unsigned_ucast_eq drop_bit_eq_div take_bit_eq_mod unat_div)
  moreover have "unat (ucast w :: byte) = unat w mod 256"
    by (simp add: unsigned_ucast_eq take_bit_eq_mod)
  ultimately show ?thesis by (simp add: be16_def)
qed

text \<open>The one's complement sum is the residue modulo 65535, with 65535 for a positive multiple.\<close>

lemma rfc_sum_props: "rfc_sum s < 65536 \<and> (rfc_sum s = 0 \<longleftrightarrow> s = 0) \<and> rfc_sum s mod 65535 = s mod 65535"
proof (induction s rule: rfc_sum.induct)
  case (1 s)
  show ?case
  proof (cases "s < 65536")
    case True
    then show ?thesis by (simp add: rfc_sum_small)
  next
    case False
    let ?t = "s mod 65536 + s div 65536"
    have eq: "rfc_sum s = rfc_sum ?t" using False by (subst rfc_sum.simps) (rule if_not_P)
    have "0 < s div 65536" using False by simp
    then have pos: "?t \<noteq> 0" "s \<noteq> 0" by (linarith, auto)
    have "s = ?t + 65535 * (s div 65536)" by simp
    then have "s mod 65535 = ?t mod 65535" by (metis mod_mult_self2)
    moreover note conjunct1 [OF "1.IH" [OF False]] conjunct1 [OF conjunct2 [OF "1.IH" [OF False]]]
      conjunct2 [OF conjunct2 [OF "1.IH" [OF False]]]
    ultimately show ?thesis unfolding eq using pos by metis
  qed
qed

lemmas rfc_sum_less = rfc_sum_props [THEN conjunct1]
lemmas rfc_sum_0_iff = rfc_sum_props [THEN conjunct2, THEN conjunct1]
lemmas rfc_sum_mod = rfc_sum_props [THEN conjunct2, THEN conjunct2]

text \<open>Adding the complement of the sum to the data makes the sum all ones.\<close>

lemma rfc_sum_complement: "rfc_sum (s + (65535 - rfc_sum s)) = 65535"
proof -
  let ?n = "s + (65535 - rfc_sum s)"
  note r = rfc_sum_less [of s] rfc_sum_0_iff [of s] rfc_sum_mod [of s]
  have le: "rfc_sum s \<le> s"
    using r(1) rfc_sum_small [of s] by (cases "s < 65536") simp_all
  then have "65535 dvd s - rfc_sum s" using r(3) by (metis mod_eq_dvd_iff_nat)
  moreover have "?n = (s - rfc_sum s) + 65535" using le r(1) by simp
  ultimately have "?n mod 65535 = 0" by (metis dvd_add_right_iff dvd_imp_mod_0 dvd_refl add.commute)
  moreover have "?n \<noteq> 0" using r(1,2) by (cases "s = 0") auto
  ultimately have "rfc_sum ?n mod 65535 = 0" "rfc_sum ?n \<noteq> 0" "rfc_sum ?n < 65536"
    using rfc_sum_props [of ?n] by simp_all
  then show ?thesis by (cases "rfc_sum ?n = 65535") auto
qed

lemma be_sum_zeros [simp]: "be_sum (replicate n 0) = 0"
  by (induction n rule: induct_nat_012) simp_all

end
