(* ===== verification/Net_State.thy ===== *)
theory Net_State
  imports Nat_Table Checksum6
begin

text \<open>
  The global state of the network code (\<^verbatim>\<open>include/net.h\<close>, \<^verbatim>\<open>include/ipv6.h\<close>, the globals of
  \<^verbatim>\<open>net/ipv6.c\<close> and \<^verbatim>\<open>net/radvert.c\<close>), the packet layout, and the two services of the rest
  of the system the network code uses: transmission and packet buffers.

  \<^item> \<open>mem\<close> is the memory that holds the received packets. A packet being built for
    transmission is a separate zeroed block, because the code clears the buffer it gets.
  \<^item> \<open>if_tab\<close> is total: an index past the table reads whatever follows the array, which the
    model leaves unspecified. In the same way \<open>stack_junk\<close> is the content of the stack after a
    local array and \<open>heap_junk\<close> the content of a freshly allocated heap block.
  \<^item> \<open>overrun\<close> records the bytes a \<^verbatim>\<open>memcpy\<close> writes past the end of a global array.
  \<^item> \<open>sent\<close> is the sequence of frames handed to the device, \<open>freed\<close> the sequence of received
    packets returned to their pool, \<open>ipv6_free\<close> the number of buffers left in \<^verbatim>\<open>ipv6bufpool\<close>.
\<close>

section \<open>Interfaces and globals\<close>

record ifentry =
  if_name :: string
  if_state :: byte
  if_macucast :: "byte list"
  if_macbcast :: "byte list"
  if_semcount :: int
  if_queue :: "nat list"
  if_head :: nat
  if_tail :: nat

definition NIFACES :: nat where "NIFACES = 3"
definition IF_UP :: byte where "IF_UP = 1"
definition IF_DOWN :: byte where "IF_DOWN = 0"
definition IF_QUEUESIZE :: nat where "IF_QUEUESIZE = 20"

record prefix_ipv6 =
  pfx_ipv6 :: "byte list"
  pfx_length :: byte

record net =
  mem :: mem
  if_tab :: "nat \<Rightarrow> ifentry"
  stack_junk :: "nat \<Rightarrow> byte"
  heap_junk :: mem
  host :: bool
  ifprime :: int
  hasIPv6Addr :: byte
  ipv6_addr :: "byte list"
  link_local :: "byte list"
  link_local_mac :: "byte list"
  snm_addr :: "byte list"
  mac_snm :: "byte list"
  allrMACmulti :: "byte list"
  allnMACmulti :: "byte list"
  allrIPmulti :: "byte list"
  allnIPmulti :: "byte list"
  router_link_local :: "byte list"
  router_link_local_mac :: "byte list"
  router_ip_addr :: "byte list"
  router_mac_addr :: "byte list"
  router_snm_addr :: "byte list"
  router_mac_snm :: "byte list"
  MTU :: u32
  prefix_ipv6_default :: prefix_ipv6
  option_prefix_default :: "byte list"
  radvert_from_router :: "byte list"
  nat_tab :: nat_table
  fwd_tab :: fwd
  NDCache :: ndcache
  clktime :: u32
  ipv6_free :: nat
  sent :: "byte list list"
  freed :: "nat list"
  overrun :: "(string \<times> byte list) list"

definition ETH_HDR_LEN :: nat where "ETH_HDR_LEN = 14"
definition IPV6_HDR_LEN :: nat where "IPV6_HDR_LEN = 40"
definition PACKLEN :: nat where "PACKLEN = 1520"
definition ETH_IPv6 :: u16 where "ETH_IPv6 = 0x86DD"
definition IPV6_ICMP :: byte where "IPV6_ICMP = 0x3A"
definition IPV6_UDP :: byte where "IPV6_UDP = 0x11"
definition NEXT_HEADER_FRAGMENT :: byte where "NEXT_HEADER_FRAGMENT = 0x2C"
definition OK :: int where "OK = 1"
definition SYSERR :: int where "SYSERR = -1"

lemmas len_defs = ETH_HDR_LEN_def IPV6_HDR_LEN_def PACKLEN_def IPV6_ASIZE_def ETH_ADDR_LEN_def

abbreviation ifprime8 :: "net \<Rightarrow> byte" where
  "ifprime8 s \<equiv> word_of_int (ifprime s)"

section \<open>Packet layout\<close>

text \<open>
  A \<^verbatim>\<open>netpacket\<close> at address \<open>p\<close>: destination MAC at 0, source MAC at 6, type at 12, payload
  at 14 (the IPv6 header, 40 bytes, then the message at 54), interface at 1518.
\<close>

definition ip_of :: "nat \<Rightarrow> nat" where "ip_of p = p + ETH_HDR_LEN"
definition msg_of :: "nat \<Rightarrow> nat" where "msg_of p = p + ETH_HDR_LEN + IPV6_HDR_LEN"

definition net_dst :: "mem \<Rightarrow> nat \<Rightarrow> byte list" where "net_dst m p = bytes m p ETH_ADDR_LEN"
definition net_src :: "mem \<Rightarrow> nat \<Rightarrow> byte list" where "net_src m p = bytes m (p + 6) ETH_ADDR_LEN"
definition net_type :: "mem \<Rightarrow> nat \<Rightarrow> u16" where "net_type m p = rd16 m (p + 12)"
definition net_iface :: "mem \<Rightarrow> nat \<Rightarrow> u16" where "net_iface m p = rd16 m (p + 1518)"

definition ip_payload_len :: "mem \<Rightarrow> nat \<Rightarrow> u16" where "ip_payload_len m ip = rd16 m (ip + 4)"
definition ip_next_header :: "mem \<Rightarrow> nat \<Rightarrow> byte" where "ip_next_header m ip = m (ip + 6)"
definition ip_hop_limit :: "mem \<Rightarrow> nat \<Rightarrow> byte" where "ip_hop_limit m ip = m (ip + 7)"
definition ip_src :: "mem \<Rightarrow> nat \<Rightarrow> byte list" where "ip_src m ip = bytes m (ip + 8) IPV6_ASIZE"
definition ip_dest :: "mem \<Rightarrow> nat \<Rightarrow> byte list" where "ip_dest m ip = bytes m (ip + 24) IPV6_ASIZE"

lemmas layout_defs = ip_of_def msg_of_def net_dst_def net_src_def net_type_def net_iface_def
  ip_payload_len_def ip_next_header_def ip_hop_limit_def ip_src_def ip_dest_def len_defs

text \<open>Addresses inside a packet, from its start.\<close>

lemma pkt_addrs:
  "ip_of p + 4 = p + 18" "ip_of p + 6 = p + 20" "ip_of p + 7 = p + 21" "ip_of p + 8 = p + 22"
  "ip_of p + 24 = p + 38" "ip_of p + 40 = p + 54" "ip_of p + IPV6_HDR_LEN = p + 54"
  "msg_of p = p + 54" "p + 54 + 1 = p + 55" "p + 54 + 2 = p + 56" "p + 54 + 4 = p + 58"
  "p + 54 + 6 = p + 60" "p + 54 + 8 = p + 62" "p + 54 + 24 = p + 78"
  by (simp_all add: ip_of_def msg_of_def len_defs)

lemma length_addr_fields [simp]:
  "length (ip_src m ip) = IPV6_ASIZE" "length (ip_dest m ip) = IPV6_ASIZE"
  "length (net_src m p) = ETH_ADDR_LEN" "length (net_dst m p) = ETH_ADDR_LEN"
  by (simp_all add: layout_defs)

section \<open>Transmission\<close>

text \<open>
  \<^verbatim>\<open>ethwrite\<close> of \<^verbatim>\<open>device/eth/ethwrite.c\<close>: the frame that leaves is the buffer, with the
  multicast bit of an Othernet source address cleared for the transmission.
\<close>

definition eth_frame :: "mem \<Rightarrow> nat \<Rightarrow> nat \<Rightarrow> byte list" where
  "eth_frame m buf len =
     (if m (buf + 7) = 0x80 \<and> m (buf + 8) = 0x0a
      then bytes (m(buf + 6 := m (buf + 6) AND NOT 1)) buf len
      else bytes m buf len)"

definition ethwrite :: "mem \<Rightarrow> nat \<Rightarrow> nat \<Rightarrow> net \<Rightarrow> int \<times> net" where
  "ethwrite m buf len s = (OK, s\<lparr>sent := sent s @ [eth_frame m buf len]\<rparr>)"

text \<open>The call sites: a failed write makes the process kill itself.\<close>

definition fire_off :: "mem \<Rightarrow> nat \<Rightarrow> nat \<Rightarrow> net \<Rightarrow> net res" where
  "fire_off m buf len s =
     (case ethwrite m buf len s of (st, s') \<Rightarrow> if st = SYSERR then Inl Killed else Inr s')"

lemma fire_off_eq: "fire_off m buf len s = Inr (s\<lparr>sent := sent s @ [eth_frame m buf len]\<rparr>)"
  by (simp add: fire_off_def ethwrite_def OK_def SYSERR_def)

section \<open>Buffers\<close>

definition getbuf_ipv6 :: "net \<Rightarrow> net res" where
  "getbuf_ipv6 s = (if ipv6_free s = 0 then Inl Blocked else Inr (s\<lparr>ipv6_free := ipv6_free s - 1\<rparr>))"

definition freebuf_ipv6 :: "net \<Rightarrow> net" where
  "freebuf_ipv6 s = s\<lparr>ipv6_free := ipv6_free s + 1\<rparr>"

definition freebuf_pkt :: "nat \<Rightarrow> net \<Rightarrow> net" where
  "freebuf_pkt p s = s\<lparr>freed := freed s @ [p]\<rparr>"

definition zero_block :: mem where
  "zero_block = (\<lambda>_. 0)"

lemma zero_block_bytes: "bytes zero_block a n = replicate n 0"
  by (auto simp: zero_block_def list_eq_iff_nth_eq)

section \<open>The state at start-up\<close>

text \<open>
  The globals before \<^verbatim>\<open>ipv6_init\<close> has learnt anything: all zero but the parameters, with the
  initialised tables and the 40 buffers of \<^verbatim>\<open>ipv6bufpool\<close>.
\<close>

definition IPV6OUTNBUFS :: nat where "IPV6OUTNBUFS = 40"

definition net_boot :: "bool \<Rightarrow> (nat \<Rightarrow> ifentry) \<Rightarrow> mem \<Rightarrow> net" where
  "net_boot h ifs m =
     \<lparr>mem = m, if_tab = ifs, stack_junk = (\<lambda>_. 0), heap_junk = zero_block, host = h, ifprime = 0, hasIPv6Addr = 0,
      ipv6_addr = replicate 16 0, link_local = replicate 16 0, link_local_mac = replicate 6 0,
      snm_addr = replicate 16 0, mac_snm = replicate 6 0, allrMACmulti = replicate 6 0,
      allnMACmulti = replicate 6 0, allrIPmulti = replicate 16 0, allnIPmulti = replicate 16 0,
      router_link_local = replicate 16 0, router_link_local_mac = replicate 6 0,
      router_ip_addr = replicate 16 0, router_mac_addr = replicate 6 0, router_snm_addr = replicate 16 0,
      router_mac_snm = replicate 6 0, MTU = 0,
      prefix_ipv6_default = \<lparr>pfx_ipv6 = replicate 16 0, pfx_length = 0\<rparr>,
      option_prefix_default = replicate 32 0, radvert_from_router = replicate 16 0,
      nat_tab = natTab_init nat_boot, fwd_tab = fwdipv6_init 0 (replicate 16 0) fwd_boot,
      NDCache = NDCache_init, clktime = 0, ipv6_free = IPV6OUTNBUFS, sent = [], freed = [], overrun = []\<rparr>"

definition if_boot :: "nat \<Rightarrow> ifentry" where
  "if_boot i = \<lparr>if_name = [], if_state = 1, if_macucast = replicate 6 (word_of_nat i), if_macbcast = replicate 6 255,
     if_semcount = 0, if_queue = replicate IF_QUEUESIZE 0, if_head = 0, if_tail = 0\<rparr>"

lemma net_boot_sel [simp]:
  "mem (net_boot h ifs m) = m" "if_tab (net_boot h ifs m) = ifs" "host (net_boot h ifs m) = h"
  "ifprime (net_boot h ifs m) = 0" "hasIPv6Addr (net_boot h ifs m) = 0"
  "ipv6_addr (net_boot h ifs m) = replicate 16 0" "router_ip_addr (net_boot h ifs m) = replicate 16 0"
  "nat_tab (net_boot h ifs m) = natTab_init nat_boot" "NDCache (net_boot h ifs m) = NDCache_init"
  "fwd_tab (net_boot h ifs m) = fwdipv6_init 0 (replicate 16 0) fwd_boot"
  "snm_addr (net_boot h ifs m) = replicate 16 0" "link_local (net_boot h ifs m) = replicate 16 0"
  "option_prefix_default (net_boot h ifs m) = replicate 32 0" "router_mac_addr (net_boot h ifs m) = replicate 6 0"
  "MTU (net_boot h ifs m) = 0" "overrun (net_boot h ifs m) = []" "clktime (net_boot h ifs m) = 0"
  "heap_junk (net_boot h ifs m) = zero_block" "stack_junk (net_boot h ifs m) = (\<lambda>_. 0)"
  "ipv6_free (net_boot h ifs m) = 40" "sent (net_boot h ifs m) = []" "freed (net_boot h ifs m) = []"
  by (simp_all add: net_boot_def IPV6OUTNBUFS_def)

lemma if_boot_sel [simp]:
  "if_macucast (if_boot i) = replicate 6 (word_of_nat i)" "if_macbcast (if_boot i) = replicate 6 255"
  "if_state (if_boot i) = 1" "if_semcount (if_boot i) = 0" "if_queue (if_boot i) = replicate IF_QUEUESIZE 0"
  "if_head (if_boot i) = 0" "if_tail (if_boot i) = 0"
  by (simp_all add: if_boot_def)

end
