(* ===== verification/Eth_Mcast.thy ===== *)
theory Eth_Mcast
  imports Net_State
begin

text \<open>
  The multicast filter of the Ethernet driver (\<^verbatim>\<open>device/eth/ethmcast.c\<close>): an array of 32 MAC
  addresses with a count, \<^verbatim>\<open>ethmcast_add\<close>, \<^verbatim>\<open>ethmcast_remove\<close>, and the acceptance test of
  \<^verbatim>\<open>ethread\<close> that reads it. The specification is the list of registered addresses.
\<close>

section \<open>The code\<close>

record ethcblk =
  csr_macff :: u32
  devAddress :: "byte list"
  ed_mcc :: nat
  ed_mca :: "byte list list"

definition ETH_NUM_MCAST :: nat where "ETH_NUM_MCAST = 32"

definition ethmcast_add :: "byte list \<Rightarrow> ethcblk \<Rightarrow> int \<times> ethcblk" where
  "ethmcast_add addr e =
     (let e = e\<lparr>csr_macff := csr_macff e OR 0x10\<rparr> in
      if ed_mcc e < ETH_NUM_MCAST
      then (OK, e\<lparr>ed_mca := (ed_mca e)[ed_mcc e := take ETH_ADDR_LEN addr], ed_mcc := ed_mcc e + 1\<rparr>)
      else (SYSERR, e))"

text \<open>
  The inner loop of \<^verbatim>\<open>ethmcast_remove\<close> moves slot \<open>j + 1\<close> to slot \<open>j\<close> and fills slot \<open>j + 1\<close> with
  the character 0, up to and including the slot behind the last used one, which does not exist
  when the array is full.
\<close>

function mcast_shift :: "nat \<Rightarrow> nat \<Rightarrow> byte list list \<Rightarrow> byte list list res" where
  "mcast_shift mcast_count j mca =
     (if j < mcast_count
      then if Suc j < length mca
           then mcast_shift mcast_count (Suc j) (mca[j := mca ! Suc j, Suc j := replicate ETH_ADDR_LEN 48])
           else Inl Out_of_bounds
      else Inr mca)"
  by pat_completeness auto
termination by (relation "measure (\<lambda>(n, j, _). n - j)") auto
declare mcast_shift.simps [simp del]

definition ethmcast_remove :: "byte list \<Rightarrow> ethcblk \<Rightarrow> (int \<times> ethcblk) res" where
  "ethmcast_remove addr e =
     (case find (\<lambda>i. take ETH_ADDR_LEN addr = ed_mca e ! i) [0..<ed_mcc e] of
        None \<Rightarrow> Inr (SYSERR, e)
      | Some i \<Rightarrow> bind_res (mcast_shift (ed_mcc e) i (ed_mca e))
          (\<lambda>mca. Inr (OK, e\<lparr>ed_mca := mca, ed_mcc := ed_mcc e - 1\<rparr>)))"

definition valid_addr :: "ethcblk \<Rightarrow> byte list \<Rightarrow> bool" where
  "valid_addr e dst =
     (if dst = devAddress e then True
      else if dst = replicate 6 0xFF then True
      else find (\<lambda>i. dst = ed_mca e ! i) [0..<ed_mcc e] \<noteq> None)"

section \<open>The registered addresses\<close>

definition mcast_inv :: "ethcblk \<Rightarrow> bool" where
  "mcast_inv e \<longleftrightarrow> length (ed_mca e) = ETH_NUM_MCAST \<and> ed_mcc e \<le> ETH_NUM_MCAST"

definition mcasts :: "ethcblk \<Rightarrow> byte list list" where
  "mcasts e = take (ed_mcc e) (ed_mca e)"

lemma mcast_add_spec:
  assumes "mcast_inv e" "length addr = ETH_ADDR_LEN"
  shows "fst (ethmcast_add addr e) = (if length (mcasts e) < ETH_NUM_MCAST then OK else SYSERR)"
    and "mcast_inv (snd (ethmcast_add addr e))"
    and "mcasts (snd (ethmcast_add addr e)) =
      (if length (mcasts e) < ETH_NUM_MCAST then mcasts e @ [addr] else mcasts e)"
    and "devAddress (snd (ethmcast_add addr e)) = devAddress e"
  using assms by (auto simp: ethmcast_add_def mcast_inv_def mcasts_def Let_def take_Suc_conv_app_nth ETH_NUM_MCAST_def)

lemma mcast_shift_spec:
  assumes "j \<le> n" "length mca = ETH_NUM_MCAST" "n < ETH_NUM_MCAST"
  shows "\<exists>mca'. mcast_shift n j mca = Inr mca' \<and> length mca' = ETH_NUM_MCAST \<and>
    (\<forall>i < j. mca' ! i = mca ! i) \<and> (\<forall>i. j \<le> i \<and> i + 1 < n \<longrightarrow> mca' ! i = mca ! (i + 1))"
  using assms
proof (induction n j mca rule: mcast_shift.induct)
  case (1 n j mca)
  show ?case
  proof (cases "j < n")
    case False
    then have "mcast_shift n j mca = Inr mca" by (simp add: mcast_shift.simps [of n j mca])
    then show ?thesis using 1 False by auto
  next
    case True
    let ?m = "mca[j := mca ! Suc j, Suc j := replicate ETH_ADDR_LEN 48]"
    have sj: "Suc j < length mca" using True 1 by simp
    from "1.IH" [OF True sj] True 1 obtain m' where m': "mcast_shift n (Suc j) ?m = Inr m'"
      "length m' = ETH_NUM_MCAST" "\<forall>i < Suc j. m' ! i = ?m ! i" "\<forall>i. Suc j \<le> i \<and> i + 1 < n \<longrightarrow> m' ! i = ?m ! (i + 1)"
      by auto
    have "m' ! i = mca ! (i + 1)" if "j \<le> i" "i + 1 < n" for i
    proof (cases "i = j")
      case True
      then show ?thesis using m'(3) sj by simp
    next
      case False
      then show ?thesis using m'(4) that by simp
    qed
    moreover have "m' ! i = mca ! i" if "i < j" for i using m'(3) that by simp
    ultimately show ?thesis using m'(1,2) True sj by (simp add: mcast_shift.simps [of n j mca])
  qed
qed

lemma mcast_shift_full:
  assumes "j < n" "length mca = n"
  shows "mcast_shift n j mca = Inl Out_of_bounds"
  using assms
proof (induction n j mca rule: mcast_shift.induct)
  case (1 n j mca)
  then show ?case
    by (cases "Suc j < n") (simp_all add: mcast_shift.simps [of n j mca])
qed

lemma remove1_nth:
  assumes "i < length xs" "xs ! i = x" "\<forall>k < i. xs ! k \<noteq> x"
  shows "remove1 x xs = take i xs @ drop (Suc i) xs"
  using assms
proof (induction xs arbitrary: i)
  case (Cons y ys)
  show ?case
  proof (cases i)
    case (Suc k)
    have "\<forall>l < k. ys ! l \<noteq> x" using Cons.prems(3) Suc by (metis Suc_less_eq nth_Cons_Suc)
    moreover have "y \<noteq> x" using Cons.prems(3) Suc by force
    ultimately show ?thesis using Cons.IH [of k] Cons.prems Suc by simp
  qed (use Cons.prems in simp)
qed simp

lemma mcast_find:
  assumes "mcast_inv e"
  shows "find (\<lambda>i. a = ed_mca e ! i) [0..<ed_mcc e] = None \<longleftrightarrow> a \<notin> set (mcasts e)"
    and "find (\<lambda>i. a = ed_mca e ! i) [0..<ed_mcc e] = Some i \<Longrightarrow>
      i < ed_mcc e \<and> mcasts e ! i = a \<and> (\<forall>k < i. mcasts e ! k \<noteq> a)"
  using assms by (auto simp: find_upt_None_iff find_upt_Some_iff mcasts_def mcast_inv_def in_set_conv_nth)

text \<open>The multicast filter is a list. With room in the array \<^verbatim>\<open>ethmcast_remove\<close> deletes the
  first occurrence of a registered address and reports an unregistered one; when all 32 slots are
  in use the removal of a registered address writes behind the array. \<^verbatim>\<open>ethread\<close> accepts exactly
  the station's address, the broadcast address and the registered ones.\<close>

theorem ethmcast_remove_correct:
  assumes "mcast_inv e" and "length addr = ETH_ADDR_LEN"
  shows "(if addr \<notin> set (mcasts e) then ethmcast_remove addr e = Inr (SYSERR, e)
     else if ed_mcc e = ETH_NUM_MCAST then ethmcast_remove addr e = Inl Out_of_bounds
     else \<exists>e'. ethmcast_remove addr e = Inr (OK, e') \<and> mcast_inv e' \<and> mcasts e' = remove1 addr (mcasts e)) \<and>
    (valid_addr e addr \<longleftrightarrow> addr \<in> {devAddress e, replicate 6 0xFF} \<union> set (mcasts e))"
proof
  show "valid_addr e addr \<longleftrightarrow> addr \<in> {devAddress e, replicate 6 0xFF} \<union> set (mcasts e)"
    using mcast_find(1) [OF assms(1)] by (auto simp: valid_addr_def)
next
  have a: "take ETH_ADDR_LEN addr = addr" using assms(2) by simp
  show "if addr \<notin> set (mcasts e) then ethmcast_remove addr e = Inr (SYSERR, e)
     else if ed_mcc e = ETH_NUM_MCAST then ethmcast_remove addr e = Inl Out_of_bounds
     else \<exists>e'. ethmcast_remove addr e = Inr (OK, e') \<and> mcast_inv e' \<and> mcasts e' = remove1 addr (mcasts e)"
  proof (cases "find (\<lambda>i. addr = ed_mca e ! i) [0..<ed_mcc e]")
    case None
    then show ?thesis using mcast_find(1) [OF assms(1), of addr] by (simp add: ethmcast_remove_def a)
  next
    case (Some i)
    note i = mcast_find(2) [OF assms(1) Some]
    have len: "length (mcasts e) = ed_mcc e" using assms(1) by (simp add: mcasts_def mcast_inv_def)
    have mem: "addr \<in> set (mcasts e)" using i len by (metis nth_mem)
    show ?thesis
    proof (cases "ed_mcc e = ETH_NUM_MCAST")
      case True
      then show ?thesis
        using i assms(1) mem Some mcast_shift_full [of i "ed_mcc e" "ed_mca e"]
        by (simp add: ethmcast_remove_def a mcast_inv_def)
    next
      case False
      with assms(1) i obtain m where m: "mcast_shift (ed_mcc e) i (ed_mca e) = Inr m" "length m = ETH_NUM_MCAST"
        "\<forall>k < i. m ! k = ed_mca e ! k" "\<forall>k. i \<le> k \<and> k + 1 < ed_mcc e \<longrightarrow> m ! k = ed_mca e ! (k + 1)"
        using mcast_shift_spec [of i "ed_mcc e" "ed_mca e"] by (auto simp: mcast_inv_def)
      have "take (ed_mcc e - 1) m = remove1 addr (mcasts e)"
      proof (rule nth_equalityI)
        have r: "remove1 addr (mcasts e) = take i (mcasts e) @ drop (Suc i) (mcasts e)"
          using remove1_nth i len by metis
        show "length (take (ed_mcc e - 1) m) = length (remove1 addr (mcasts e))"
          using m(2) assms(1) len mem by (auto simp: length_remove1 mcast_inv_def)
        fix k assume "k < length (take (ed_mcc e - 1) m)"
        then have k: "k < ed_mcc e - 1" by simp
        show "take (ed_mcc e - 1) m ! k = remove1 addr (mcasts e) ! k"
          using k m(3,4) i len assms(1) unfolding r
          by (cases "k < i") (simp_all add: nth_append mcasts_def mcast_inv_def)
      qed
      then show ?thesis
        using m(1,2) mem False Some assms(1) by (auto simp: ethmcast_remove_def a mcast_inv_def mcasts_def)
    qed
  qed
qed

definition eth_boot :: ethcblk where
  "eth_boot = \<lparr>csr_macff = 0, devAddress = replicate 6 0, ed_mcc = 0,
     ed_mca = replicate ETH_NUM_MCAST (replicate 6 0)\<rparr>"

lemma eth_boot_sel [simp]: "ed_mcc eth_boot = 0" "mcasts eth_boot = []"
  by (simp_all add: eth_boot_def mcasts_def)

lemma mcast_inv_boot: "mcast_inv eth_boot"
  by (simp add: mcast_inv_def eth_boot_def)

theorem ethmcast_remove_correct_witness:
  "ethmcast_remove [1, 2, 3, 4, 5, 6] eth_boot = Inr (SYSERR, eth_boot)"
  using ethmcast_remove_correct [OF mcast_inv_boot, of "[1, 2, 3, 4, 5, 6]"]
  by (simp add: mcasts_def eth_boot_def ETH_ADDR_LEN_def split: if_splits)

end
