(* ===== verification/Pkt_Build.thy ===== *)
theory Pkt_Build
  imports Net_State
begin

text \<open>
  Packet construction of \<^verbatim>\<open>net/sendipv6pkt.c\<close>: Ethernet and IPv6 headers, ICMPv6 options,
  pseudo header and checksum, and \<^verbatim>\<open>fillICMP\<close>. Every function returns the memory it wrote.
\<close>

section \<open>Message sizes and types (\<^verbatim>\<open>include/icmpv6.h\<close>)\<close>

definition PSEUDOLEN :: nat where "PSEUDOLEN = 40"
definition ECHOREQSIZE :: nat where "ECHOREQSIZE = 8"
definition RSOLSIZE :: nat where "RSOLSIZE = 8"
definition RADVERTSIZE :: nat where "RADVERTSIZE = 16"
definition NADSIZE :: nat where "NADSIZE = 24"
definition NSOLSIZE :: nat where "NSOLSIZE = 24"

definition ECHOREQ :: byte where "ECHOREQ = 0x80"
definition ECHORESP :: byte where "ECHORESP = 0x81"
definition ROUTERS :: byte where "ROUTERS = 0x85"
definition ROUTERA :: byte where "ROUTERA = 0x86"
definition NEIGHBS :: byte where "NEIGHBS = 0x87"
definition NEIGHBA :: byte where "NEIGHBA = 0x88"

lemmas size_defs = PSEUDOLEN_def ECHOREQSIZE_def RSOLSIZE_def RADVERTSIZE_def NADSIZE_def NSOLSIZE_def
lemmas type_defs = ECHOREQ_def ECHORESP_def ROUTERS_def ROUTERA_def NEIGHBS_def NEIGHBA_def

section \<open>Headers\<close>

definition fillEthernet :: "net \<Rightarrow> mem \<Rightarrow> nat \<Rightarrow> byte list \<Rightarrow> byte \<Rightarrow> mem" where
  "fillEthernet s m pkt dest iface =
     (let m = wr_bytes m pkt (take ETH_ADDR_LEN dest);
          m = wr_bytes m (pkt + 6) (take ETH_ADDR_LEN (if_macucast (if_tab s (unat iface))))
      in wr16 m (pkt + 12) (htons ETH_IPv6))"

definition fillIPdatagram :: "mem \<Rightarrow> nat \<Rightarrow> byte list \<Rightarrow> byte list \<Rightarrow> u16 \<Rightarrow> byte \<Rightarrow> mem" where
  "fillIPdatagram m packet src_ip dest_ip len next_header =
     (let pkt = packet + ETH_HDR_LEN;
          m = wr_bytes m pkt [0x60, 0x00, 0x00, 0x00];
          m = wr16 m (pkt + 4) (htons len);
          m = m(pkt + 6 := next_header);
          m = m(pkt + 7 := 255);
          m = wr_bytes m (pkt + 8) (take IPV6_ASIZE src_ip)
      in wr_bytes m (pkt + 24) (take IPV6_ASIZE dest_ip))"

section \<open>Pseudo header and checksum\<close>

text \<open>
  The pseudo header is built in a heap block of its own, at address 0 of a separate memory.
  \<open>payload\<close> is what the code copies behind it: \<open>pktLen\<close> bytes of the message.
\<close>

definition makePseudoHdr :: "mem \<Rightarrow> byte list \<Rightarrow> byte list \<Rightarrow> byte list \<Rightarrow> u32 \<Rightarrow> mem" where
  "makePseudoHdr m src dest payload pktLen =
     (let m = wr_bytes m 0 (replicate (PSEUDOLEN + unat pktLen) 0);
          m = wr_bytes m 0 (take IPV6_ASIZE src);
          m = wr_bytes m 16 (take IPV6_ASIZE dest);
          m = wr32 m 32 (htonl pktLen);
          m = m(39 := IPV6_ICMP)
      in wr_bytes m 40 (take (unat pktLen) payload))"

text \<open>
  The checksum sequence shared by every sender: allocate the block, build the pseudo header
  from the addresses and \<open>len\<close> bytes of the message at \<open>msg\<close>, sum it, free it.
\<close>

definition icmp_checksum :: "net \<Rightarrow> byte list \<Rightarrow> byte list \<Rightarrow> mem \<Rightarrow> nat \<Rightarrow> u32 \<Rightarrow> u16 res" where
  "icmp_checksum s src dest m msg len =
     opt_res Diverges
       (checksumv6 (makePseudoHdr (heap_junk s) src dest (bytes m msg (unat len)) len) 0
          (word_of_nat PSEUDOLEN + len))"

definition store_checksum :: "net \<Rightarrow> byte list \<Rightarrow> byte list \<Rightarrow> mem \<Rightarrow> nat \<Rightarrow> u32 \<Rightarrow> mem res" where
  "store_checksum s src dest m msg len =
     bind_res (icmp_checksum s src dest m msg len) (\<lambda>sum. Inr (wr16 m (msg + 2) (htons sum)))"

section \<open>Options\<close>

definition fill_option_one :: "net \<Rightarrow> mem \<Rightarrow> nat \<Rightarrow> byte \<Rightarrow> mem \<times> byte" where
  "fill_option_one s m pkt iface =
     (let m = m(pkt := 0x01); m = m(pkt + 1 := 0x01)
      in (wr_bytes m (pkt + 2) (take ETH_ADDR_LEN (if_macucast (if_tab s (unat iface)))), 8))"

definition fill_option_MTU :: "net \<Rightarrow> mem \<Rightarrow> nat \<Rightarrow> mem \<times> byte" where
  "fill_option_MTU s m pkt =
     (let m = wr_bytes m pkt (replicate 8 0); m = m(pkt := 0x05); m = m(pkt + 1 := 0x01)
      in (wr16 m (pkt + 6) (htons (ucast (MTU s))), 8))"

definition fill_option_prefix :: "net \<Rightarrow> mem \<Rightarrow> nat \<Rightarrow> mem \<times> byte" where
  "fill_option_prefix s m pkt = (wr_bytes m pkt (take 32 (option_prefix_default s)), 32)"

text \<open>
  \<open>option_types\<close> is the array the caller passes, a total map because the loop may read past
  its end. The length of the last option written is kept for an unknown option type.
\<close>

function fillOptions_loop :: "net \<Rightarrow> mem \<Rightarrow> nat \<Rightarrow> (nat \<Rightarrow> byte) \<Rightarrow> nat \<Rightarrow> byte \<Rightarrow> nat \<Rightarrow> byte \<Rightarrow> mem" where
  "fillOptions_loop s m pkt option_types n iface i len =
     (if i < n
      then (case (if option_types i = 1 then fill_option_one s m pkt iface
                  else if option_types i = 5 then fill_option_MTU s m pkt
                  else if option_types i = 3 then fill_option_prefix s m pkt
                  else (m, len)) of
              (m', len') \<Rightarrow>
                fillOptions_loop s m' (pkt + unat len') option_types n iface (Suc i) len')
      else m)"
  by pat_completeness auto
termination
  by (relation "measure (\<lambda>(s, m, pkt, option_types, n, iface, i, len). n - i)") auto

declare fillOptions_loop.simps [simp del]

definition fillOptions :: "net \<Rightarrow> mem \<Rightarrow> nat \<Rightarrow> (nat \<Rightarrow> byte) \<Rightarrow> byte \<Rightarrow> byte \<Rightarrow> mem" where
  "fillOptions s m pkt option_types option_types_length iface =
     fillOptions_loop s m pkt option_types (unat option_types_length) iface 0 0"

section \<open>\<open>fillICMP\<close>\<close>

text \<open>
  One equation per message type. For a router advertisement the code passes the byte count of
  the options (48) where \<^verbatim>\<open>fillOptions\<close> expects their number.
\<close>

definition fillICMP :: "net \<Rightarrow> mem \<Rightarrow> nat \<Rightarrow> byte \<Rightarrow> (nat \<Rightarrow> byte) \<Rightarrow> byte \<Rightarrow> byte \<Rightarrow> mem res" where
  "fillICMP s m packet type option_types option_types_length iface =
     (let ip = ip_of packet; icmp = msg_of packet;
          m = m(icmp := type);
          src = ip_src m ip; dest = ip_dest m ip
      in if type = ROUTERS then store_checksum s src dest m icmp (word_of_nat RSOLSIZE)
         else if type = ROUTERA then
           (let m = wr_bytes m icmp (take RADVERTSIZE (radvert_from_router s));
                m = wr16 m (icmp + 2) 0;
                m = fillOptions s m (icmp + RADVERTSIZE) option_types 48 iface
            in store_checksum s src dest m icmp (word_of_nat (RADVERTSIZE + 48)))
         else if type = NEIGHBS then
           (let m = m(icmp := NEIGHBS); m = m(icmp + 1 := 0); m = wr16 m (icmp + 2) 0;
                m = wr_bytes m (icmp + 8) (take IPV6_ASIZE (router_link_local s));
                m = fillOptions s m (icmp + 24) option_types option_types_length (ifprime8 s)
            in store_checksum s src dest m icmp (word_of_nat (NSOLSIZE + 8)))
         else if type = NEIGHBA then
           (let m = m(icmp := NEIGHBA); m = m(icmp + 1 := 0); m = wr16 m (icmp + 2) 0;
                m = m(icmp + 4 := 96);
                m = wr_bytes m (icmp + 8) (take IPV6_ASIZE (ipv6_addr s))
            in store_checksum s src dest m icmp (word_of_nat NADSIZE))
         else if type = ECHOREQ then
           (let m = wr16 m (icmp + 4) (htons 15); m = wr16 m (icmp + 6) (htons 15)
            in store_checksum s src dest m icmp (word_of_nat ECHOREQSIZE))
         else Inr m)"

section \<open>What the builders write\<close>

lemma fillEthernet_spec:
  assumes "length dest = ETH_ADDR_LEN" "length (if_macucast (if_tab s (unat iface))) = ETH_ADDR_LEN"
  shows "fillEthernet s m pkt dest iface =
    wr_bytes m pkt (dest @ if_macucast (if_tab s (unat iface)) @ be16 ETH_IPv6)"
  using assms by (simp add: fillEthernet_def Let_def wr16_def wr_bytes_join len_defs)

definition ip_header :: "byte list \<Rightarrow> byte list \<Rightarrow> u16 \<Rightarrow> byte \<Rightarrow> byte list" where
  "ip_header src dest len nh = [0x60, 0, 0, 0] @ be16 len @ [nh, 255] @ src @ dest"

lemma length_ip_header [simp]:
  "length src = IPV6_ASIZE \<Longrightarrow> length dest = IPV6_ASIZE \<Longrightarrow>
   length (ip_header src dest len nh) = IPV6_HDR_LEN"
  by (simp add: ip_header_def len_defs)

lemma fillIPdatagram_spec:
  assumes "length src = IPV6_ASIZE" "length dest = IPV6_ASIZE"
  shows "fillIPdatagram m packet src dest len nh = wr_bytes m (ip_of packet) (ip_header src dest len nh)"
  using assms by (simp add: fillIPdatagram_def Let_def wr16_def fun_upd_wr_bytes wr_bytes_join
      layout_defs ip_header_def)

definition pseudo_header :: "byte list \<Rightarrow> byte list \<Rightarrow> u32 \<Rightarrow> byte list" where
  "pseudo_header src dest len = src @ dest @ be32 len @ [0, 0, 0, IPV6_ICMP]"

lemma htonl_be32: "le32 (htonl w) = be32 w"
proof -
  have "(0xff :: u32) = mask 8" "(0xff00 :: u32) = push_bit 8 (mask 8)"
    "(0xff0000 :: u32) = push_bit 16 (mask 8)" "(0xff000000 :: u32) = push_bit 24 (mask 8)"
    by (simp_all add: mask_eq_exp_minus_1 push_bit_eq_mult)
  then have "htonl w = (drop_bit 24 w AND mask 8) OR (drop_bit 8 w AND push_bit 8 (mask 8))
     OR (push_bit 8 w AND push_bit 16 (mask 8)) OR (push_bit 24 w AND push_bit 24 (mask 8))"
    by (simp only: htonl_def)
  then show ?thesis
    by (auto simp: le32_def le16_def be32_def bit_simps intro!: bit_eqI)
qed

lemma makePseudoHdr_spec:
  assumes "length src = IPV6_ASIZE" "length dest = IPV6_ASIZE" "length payload = unat len"
  shows "makePseudoHdr m src dest payload len = wr_bytes m 0 (pseudo_header src dest len @ payload)"
  using assms by (simp add: makePseudoHdr_def Let_def wr32_def fun_upd_wr_bytes wr_bytes_within
      htonl_be32 pseudo_header_def len_defs PSEUDOLEN_def numeral_3_eq_3)

section \<open>The stored checksum\<close>

text \<open>What a receiver has to sum: the pseudo header and the message.\<close>

definition icmp_sum :: "byte list \<Rightarrow> byte list \<Rightarrow> byte list \<Rightarrow> nat" where
  "icmp_sum src dest msg = be_sum (pseudo_header src dest (word_of_nat (length msg)) @ msg)"

lemma length_pseudo_header [simp]:
  "length src = IPV6_ASIZE \<Longrightarrow> length dest = IPV6_ASIZE \<Longrightarrow> length (pseudo_header src dest n) = PSEUDOLEN"
  by (simp add: pseudo_header_def len_defs PSEUDOLEN_def)

lemma icmp_checksum_eq:
  assumes "length src = IPV6_ASIZE" "length dest = IPV6_ASIZE" "unat len \<le> 65494" "even (unat len)"
  shows "icmp_checksum s src dest m msg len =
    Inr (cksum_fold (word_of_nat (icmp_sum src dest (bytes m msg (unat len)))))"
proof -
  let ?bs = "pseudo_header src dest len @ bytes m msg (unat len)"
  have n: "unat (word_of_nat PSEUDOLEN + len) = 40 + unat len"
    using assms(3) by (simp add: unat_word_ariths PSEUDOLEN_def)
  have "length ?bs = 40 + unat len"
    using assms(1,2) by (simp add: PSEUDOLEN_def)
  then have "bytes (wr_bytes (heap_junk s) 0 ?bs) 0 (40 + unat len) = ?bs"
    by (rule bytes_wr_same)
  then show ?thesis
    using assms n checksumv6_be_sum [of "word_of_nat PSEUDOLEN + len" "wr_bytes (heap_junk s) 0 ?bs" 0]
    by (simp add: icmp_checksum_def makePseudoHdr_spec icmp_sum_def)
qed

lemma icmp_sum_bound:
  assumes "length src = IPV6_ASIZE" "length dest = IPV6_ASIZE" "length msg \<le> 65494"
  shows "icmp_sum src dest msg < 4294967296"
proof -
  let ?bs = "pseudo_header src dest (word_of_nat (length msg)) @ msg"
  have "length ?bs \<le> 65534" using assms by (simp add: PSEUDOLEN_def)
  then have "(length ?bs + 1) div 2 \<le> 32767" by simp
  with be_sum_bound [of ?bs] have "be_sum ?bs \<le> 65535 * 32767"
    by (meson mult_le_mono2 order.trans)
  then show ?thesis by (simp add: icmp_sum_def)
qed

text \<open>Splitting a message at its checksum field.\<close>

lemma icmp_sum_split:
  assumes "length src = IPV6_ASIZE" "length dest = IPV6_ASIZE" "4 \<le> n"
  shows "icmp_sum src dest (bytes m a n) =
    be_sum (pseudo_header src dest (word_of_nat n)) + be_sum (bytes m a 2) +
    be_sum (bytes m (a + 2) 2) + be_sum (bytes m (a + 4) (n - 4))"
proof -
  have "n = 2 + (2 + (n - 4))" using assms(3) by simp
  then obtain k where n: "n = 2 + (2 + k)" by blast
  show ?thesis using assms(1,2) unfolding icmp_sum_def n bytes_append
    by (simp add: be_sum_append PSEUDOLEN_def add.assoc del: add_2_eq_Suc add_2_eq_Suc')
qed

text \<open>C26: the checksum a sender stores is the one a receiver expects. For an ICMPv6 message of
  even length with a zero checksum field, \<^verbatim>\<open>fillICMP\<close>'s checksum sequence changes nothing but
  the two checksum bytes, and the one's complement sum of pseudo header and message becomes all
  ones -- provided that adding the carries back once gives no second carry, which the code
  does not handle.\<close>

theorem store_checksum_verifies:
  assumes "length src = IPV6_ASIZE" and "length dest = IPV6_ASIZE"
    and "4 \<le> unat len" and "unat len \<le> 65494" and "even (unat len)"
    and "bytes m (msg + 2) 2 = [0, 0]"
    and "icmp_sum src dest (bytes m msg (unat len)) mod 65536 +
         icmp_sum src dest (bytes m msg (unat len)) div 65536 < 65536"
  shows "\<exists>m'. store_checksum s src dest m msg len = Inr m' \<and>
    rfc_sum (icmp_sum src dest (bytes m' msg (unat len))) = 65535 \<and>
    (\<forall>x. x \<noteq> msg + 2 \<and> x \<noteq> msg + 3 \<longrightarrow> m' x = m x)"
proof -
  let ?S = "icmp_sum src dest (bytes m msg (unat len))"
  let ?c = "cksum_fold (word_of_nat ?S)" let ?m = "wr16 m (msg + 2) (htons ?c)"
  have bnd: "?S < 4294967296" using icmp_sum_bound assms by simp
  then have c: "?c = NOT (word_of_nat (rfc_sum ?S))" using cksum_fold_rfc assms(7) by blast
  have "unat ?c = 65535 - rfc_sum ?S"
    unfolding c using rfc_sum_less [of ?S] by (simp add: unat_NOT16 unat_of_nat)
  moreover have "icmp_sum src dest (bytes ?m msg (unat len)) = ?S + unat ?c"
    unfolding icmp_sum_split [OF assms(1,2,3)]
    using assms(6) by (simp add: mem_simps be_sum_be16)
  ultimately have "rfc_sum (icmp_sum src dest (bytes ?m msg (unat len))) = 65535"
    by (simp add: rfc_sum_complement)
  moreover have "store_checksum s src dest m msg len = Inr ?m"
    using icmp_checksum_eq [OF assms(1,2,4,5)] by (simp add: store_checksum_def)
  moreover have "?m x = m x" if "x \<noteq> msg + 2 \<and> x \<noteq> msg + 3" for x
    using that by (intro wr16_out) auto
  ultimately show ?thesis by blast
qed

section \<open>The options of a router advertisement\<close>

definition option_one :: "byte list \<Rightarrow> byte list" where "option_one mac = [1, 1] @ mac"
definition option_MTU :: "u32 \<Rightarrow> byte list" where "option_MTU mtu = [5, 1, 0, 0, 0, 0] @ be16 (ucast mtu)"

lemma fill_option_one_spec:
  assumes "length (if_macucast (if_tab s (unat iface))) = ETH_ADDR_LEN"
  shows "fill_option_one s m p iface = (wr_bytes m p (option_one (if_macucast (if_tab s (unat iface)))), 8)"
  using assms by (simp add: fill_option_one_def fun_upd_wr_bytes wr_bytes_join option_one_def Let_def)

lemma fill_option_MTU_spec: "fill_option_MTU s m p = (wr_bytes m p (option_MTU (MTU s)), 8)"
  by (simp add: fill_option_MTU_def fun_upd_wr_bytes wr16_def wr_bytes_within option_MTU_def Let_def
      numeral_eq_Suc)

text \<open>The array that \<^verbatim>\<open>sendipv6pkt\<close> passes for an advertisement, with what follows it on the stack.\<close>

definition ra_option_types :: "(nat \<Rightarrow> byte) \<Rightarrow> nat \<Rightarrow> byte" where
  "ra_option_types junk = (\<lambda>i. if i = 0 then 1 else if i = 1 then 5 else if i = 2 then 3 else junk (i - 3))"

definition ra_options :: "net \<Rightarrow> byte \<Rightarrow> byte list" where
  "ra_options s iface = option_one (if_macucast (if_tab s (unat iface))) @ option_MTU (MTU s) @
     option_prefix_default s"

lemma fillOptions_junk:
  assumes "\<And>j. i \<le> j \<Longrightarrow> j < n \<Longrightarrow> types j \<notin> {1, 3, 5}"
  shows "fillOptions_loop s m p types n iface i len = m"
  using assms
proof (induction s m p types n iface i len rule: fillOptions_loop.induct)
  case (1 s m p types n iface i len)
  show ?case
  proof (cases "i < n")
    case True
    then have "types i \<notin> {1, 3, 5}" using "1.prems" by simp
    then show ?thesis
      using True "1.IH" [OF True] "1.prems" by (subst fillOptions_loop.simps) simp
  next
    case False
    then show ?thesis by (subst fillOptions_loop.simps) simp
  qed
qed

lemma ra_option_types_simps [simp]:
  "ra_option_types junk 0 = 1" "ra_option_types junk (Suc 0) = 5" "ra_option_types junk 2 = 3"
  by (simp_all add: ra_option_types_def)

lemma fillOptions_step:
  assumes "i < n" "j = Suc i" "q = p + unat len'"
    and "(if types i = 1 then fill_option_one s m p iface else if types i = 5 then fill_option_MTU s m p
      else if types i = 3 then fill_option_prefix s m p else (m, len)) = (m', len')"
  shows "fillOptions_loop s m p types n iface i len = fillOptions_loop s m' q types n iface j len'"
  using assms by (subst fillOptions_loop.simps) simp

lemma fillOptions_ra_prefix:
  assumes "length (if_macucast (if_tab s (unat iface))) = ETH_ADDR_LEN"
    and "length (option_prefix_default s) = 32"
  shows "fillOptions s m p (ra_option_types junk) 48 iface =
    fillOptions_loop s (wr_bytes m p (ra_options s iface)) (p + 48) (ra_option_types junk) 48 iface 3 32"
proof -
  let ?o = "option_one (if_macucast (if_tab s (unat iface)))" and ?t = "ra_option_types junk"
  have len: "length ?o = 8" "length (option_MTU (MTU s)) = 8"
    using assms(1) by (simp_all add: option_one_def option_MTU_def len_defs)
  have "fillOptions s m p ?t 48 iface = fillOptions_loop s m p ?t 48 iface 0 0"
    by (simp add: fillOptions_def)
  also have "\<dots> = fillOptions_loop s (wr_bytes m p ?o) (p + 8) ?t 48 iface 1 8"
    using assms by (intro fillOptions_step) (simp_all add: fill_option_one_spec)
  also have "\<dots> = fillOptions_loop s (wr_bytes m p (?o @ option_MTU (MTU s))) (p + 16) ?t 48 iface 2 8"
    using len by (intro fillOptions_step) (simp_all add: fill_option_MTU_spec wr_bytes_join)
  also have "\<dots> = fillOptions_loop s (wr_bytes m p (ra_options s iface)) (p + 48) ?t 48 iface 3 32"
    using assms len by (intro fillOptions_step)
      (simp_all add: fill_option_prefix_def wr_bytes_join ra_options_def)
  finally show ?thesis .
qed

text \<open>What follows the three options cannot change them: the loop never writes below its position.\<close>

lemma fillOptions_below: "x < p \<Longrightarrow> fillOptions_loop s m p types n iface i len x = m x"
proof (induction s m p types n iface i len rule: fillOptions_loop.induct)
  case (1 s m p types n iface i len)
  obtain m' len' where o: "(if types i = 1 then fill_option_one s m p iface else if types i = 5 then fill_option_MTU s m p
      else if types i = 3 then fill_option_prefix s m p else (m, len)) = (m', len')" by fastforce
  show ?case
  proof (cases "i < n")
    case True
    have "m' x = m x"
      using o "1.prems" by (auto simp: fill_option_one_def fill_option_MTU_def fill_option_prefix_def wr16_def wr_bytes_def Let_def split: if_splits)
    then show ?thesis
      using "1.IH" [OF True o [symmetric]] "1.prems" fillOptions_step [OF True refl refl, of types s m p iface len m' len'] o by simp
  next
    case False
    then show ?thesis by (subst fillOptions_loop.simps) simp
  qed
qed

lemma fillOptions_ra_bytes:
  assumes "length (if_macucast (if_tab s (unat iface))) = ETH_ADDR_LEN" "length (option_prefix_default s) = 32"
  shows "bytes (fillOptions s m p (ra_option_types junk) 48 iface) p 48 = ra_options s iface"
proof -
  have "length (ra_options s iface) = 48" using assms by (simp add: ra_options_def option_one_def option_MTU_def len_defs)
  then have "bytes (wr_bytes m p (ra_options s iface)) p 48 = ra_options s iface" by (simp add: bytes_wr_same)
  moreover have "bytes (fillOptions s m p (ra_option_types junk) 48 iface) p 48 = bytes (wr_bytes m p (ra_options s iface)) p 48"
    unfolding fillOptions_ra_prefix [OF assms] by (simp add: bytes_def fillOptions_below)
  ultimately show ?thesis by simp
qed

text \<open>The options of a router advertisement. \<^verbatim>\<open>fillOptions\<close> is called with the byte count 48
  as the number of options, so it reads 45 bytes of the stack after the three-element array. If none
  of them happens to be an option type, the 48 option bytes are the interface's MAC address, the
  MTU and the router's prefix, and nothing else is written.\<close>

theorem radvert_options_written:
  assumes "length (if_macucast (if_tab s (unat iface))) = ETH_ADDR_LEN"
    and "length (option_prefix_default s) = 32" and "\<forall>i < 45. junk i \<notin> {1, 3, 5}"
  shows "fillOptions s m p (ra_option_types junk) 48 iface = wr_bytes m p (ra_options s iface) \<and>
    length (ra_options s iface) = 48"
proof -
  have "ra_option_types junk j \<notin> {1, 3, 5}" if "3 \<le> j" "j < 48" for j
    using assms(3) that by (auto simp: ra_option_types_def)
  then have "fillOptions_loop s (wr_bytes m p (ra_options s iface)) (p + 48) (ra_option_types junk) 48 iface 3 32
      = wr_bytes m p (ra_options s iface)"
    by (rule fillOptions_junk)
  then show ?thesis
    using assms fillOptions_ra_prefix [OF assms(1,2)]
    by (simp add: ra_options_def option_one_def option_MTU_def len_defs)
qed

theorem store_checksum_verifies_witness:
  "\<exists>m'. store_checksum (net_boot True if_boot zero_block) (replicate 16 0) (replicate 16 0) zero_block 54 8 = Inr m' \<and>
    rfc_sum (icmp_sum (replicate 16 0) (replicate 16 0) (bytes m' 54 8)) = 65535"
proof -
  have "icmp_sum (replicate 16 0) (replicate 16 0) (bytes zero_block 54 (unat (8 :: u16))) < 65536"
    by (simp add: icmp_sum_def pseudo_header_def zero_block_bytes be_sum_append be_sum_zeros IPV6_ICMP_def be32_def)
  moreover have "bytes zero_block (54 + 2) 2 = [0, 0]" by (simp add: zero_block_bytes numeral_2_eq_2)
  ultimately show ?thesis
    using store_checksum_verifies [of "replicate 16 0" "replicate 16 0" 8 zero_block 54 "net_boot True if_boot zero_block"]
    by (simp add: IPV6_ASIZE_def) blast
qed

theorem radvert_options_written_witness:
  "fillOptions (net_boot True if_boot zero_block) zero_block 70 (ra_option_types (\<lambda>_. 0)) 48 0 =
     wr_bytes zero_block 70 (ra_options (net_boot True if_boot zero_block) 0)"
  using radvert_options_written [of "net_boot True if_boot zero_block" 0 "\<lambda>_. 0" zero_block 70]
  by (simp add: ETH_ADDR_LEN_def)

end
