(* ===== verification/Icmp_Valid.thy ===== *)
theory Icmp_Valid
  imports Pkt_Build
begin

text \<open>
  The validation of received neighbour-discovery messages: \<^verbatim>\<open>rsolicit_valid\<close>
  (\<^verbatim>\<open>net/rsolicit.c\<close>), \<^verbatim>\<open>radvert_valid\<close> (\<^verbatim>\<open>net/radvert.c\<close>), \<^verbatim>\<open>nsolicit_valid\<close> and
  \<^verbatim>\<open>getmac_sol\<close> (\<^verbatim>\<open>net/nsolicit.c\<close>), \<^verbatim>\<open>nadvert_valid\<close> and \<^verbatim>\<open>getmac_ad\<close> (\<^verbatim>\<open>net/nadvert.c\<close>).
  The first two build their pseudo header inside the packet memory, so they return the memory
  they leave; the others build it in a heap block.
\<close>

section \<open>The code\<close>

text \<open>
  The option loop of the solicitations. The code computes the option's address from the message
  in every round, so it looks at the first option again and again. \<open>None\<close> is the early
  \<^verbatim>\<open>return FALSE\<close>, \<open>Some f\<close> the final value of \<^verbatim>\<open>src_link_layer_opt\<close>.
\<close>

function scan_opts :: "byte \<Rightarrow> byte \<Rightarrow> int \<Rightarrow> bool \<Rightarrow> bool option" where
  "scan_opts opt_type opt_length opt_len src_link_layer_opt =
     (if opt_len > 0
      then (let src_link_layer_opt = (src_link_layer_opt \<or> opt_type = 1)
            in if opt_length = 0 then None
               else scan_opts opt_type opt_length (opt_len - 8 * uint opt_length) src_link_layer_opt)
      else Some src_link_layer_opt)"
  by pat_completeness auto
termination
proof (relation "measure (\<lambda>(t, l, n, f). nat n)", simp)
  fix l :: byte and n :: int and t f x
  assume "0 < n" "l \<noteq> 0"
  moreover have "0 < uint l" using \<open>l \<noteq> 0\<close> by (metis uint_0_eq uint_ge_0 order_le_less word_uint_eqI)
  ultimately show "((t, l, n - 8 * uint l, x), t, l, n, f) \<in> measure (\<lambda>(t, l, n, f). nat n)"
    by simp
qed

declare scan_opts.simps [simp del]

text \<open>The difference \<^verbatim>\<open>ntohs(payload_len) - sizeof\<close> stored in an \<^verbatim>\<open>int16\<close>.\<close>

definition opt_len16 :: "u16 \<Rightarrow> nat \<Rightarrow> int" where
  "opt_len16 payload_len size' = sint (ntohs payload_len - word_of_nat size' :: u16)"

definition unspecified :: "byte list" where
  "unspecified = replicate IPV6_ASIZE 0"

text \<open>The pseudo header that \<^verbatim>\<open>rsolicit_valid\<close> and \<^verbatim>\<open>radvert_valid\<close> write at \<open>start\<close>.\<close>

definition scratch_pseudo :: "mem \<Rightarrow> nat \<Rightarrow> nat \<Rightarrow> mem" where
  "scratch_pseudo m ip start =
     (let m = wr_bytes m start (replicate 40 0);
          m = wr_bytes m start (bytes m (ip + 8) 32);
          m = wr_bytes m (start + 34) (bytes m (ip + 4) 2)
      in wr_bytes m (start + 39) (bytes m (ip + 6) 1))"

text \<open>\<^verbatim>\<open>sizeof(msg)\<close> is the size of the pointer.\<close>

definition POINTER_SIZE :: nat where "POINTER_SIZE = 4"

definition rsolicit_valid :: "mem \<Rightarrow> nat \<Rightarrow> (bool \<times> mem) res" where
  "rsolicit_valid m ip =
     (let msg = ip + IPV6_HDR_LEN in
      if ip_hop_limit m ip \<noteq> 255 then Inr (False, m)
      else if m (msg + 1) \<noteq> 0 then Inr (False, m)
      else if ip_payload_len m ip < 8 then Inr (False, m)
      else
        (case scan_opts (m (msg + 8)) (m (msg + 9)) (opt_len16 (ip_payload_len m ip) RSOLSIZE) False of
           None \<Rightarrow> Inr (False, m)
         | Some src_link_layer_opt \<Rightarrow>
             if match (ip_src m ip) unspecified IPV6_ASIZE \<noteq> 0 \<and> src_link_layer_opt then Inr (False, m)
             else
               (let pload = ucast (ntohs (ip_payload_len m ip));
                    start = msg + POINTER_SIZE;
                    m = scratch_pseudo m ip start
                in opt_res Diverges
                     (map_option (\<lambda>v. (v, m)) (cksum_valid m start msg pload 40)))))"

definition radvert_valid :: "mem \<Rightarrow> nat \<Rightarrow> (bool \<times> mem) res" where
  "radvert_valid m ip =
     (let msg = ip + IPV6_HDR_LEN;
          pload = ucast (ntohs (ip_payload_len m ip));
          start = msg + unat (ip_payload_len m ip);
          m = scratch_pseudo m ip start
      in opt_res Diverges (map_option (\<lambda>v. (v, m)) (cksum_valid m start msg pload 40)))"

text \<open>The part that \<^verbatim>\<open>nsolicit_valid\<close> and \<^verbatim>\<open>nadvert_valid\<close> share: the packet is rejected when
  \<^verbatim>\<open>cksum_valid_1buf\<close> returns true.\<close>

definition nd_checksum_accepts :: "net \<Rightarrow> mem \<Rightarrow> nat \<Rightarrow> bool res" where
  "nd_checksum_accepts s m ip =
     (let icmpSize = ntohs (ip_payload_len m ip);
          pseudoSize = word_of_nat PSEUDOLEN + ucast icmpSize;
          pseudo = makePseudoHdr (heap_junk s) (ip_src m ip) (ip_dest m ip)
                     (bytes m (ip + IPV6_HDR_LEN) (unat icmpSize)) (ucast icmpSize)
      in opt_res Diverges (map_option Not (cksum_valid_1buf pseudo 0 pseudoSize)))"

definition nsolicit_valid :: "net \<Rightarrow> mem \<Rightarrow> nat \<Rightarrow> bool res" where
  "nsolicit_valid s m ip =
     (let msg = ip + IPV6_HDR_LEN in
      if ip_hop_limit m ip \<noteq> 255 then Inr False
      else if m (msg + 1) \<noteq> 0 then Inr False
      else if ip_payload_len m ip < 24 then Inr False
      else
        (case scan_opts (m (msg + 24)) (m (msg + 25)) (opt_len16 (ip_payload_len m ip) NSOLSIZE) False of
           None \<Rightarrow> Inr False
         | Some src_link_layer_opt \<Rightarrow>
             if match (ip_src m ip) unspecified IPV6_ASIZE \<noteq> 0
                \<and> (src_link_layer_opt \<or> match (ip_dest m ip) (snm_addr s) IPV6_ASIZE = 0)
             then Inr False
             else nd_checksum_accepts s m ip))"

definition nadvert_valid :: "net \<Rightarrow> mem \<Rightarrow> nat \<Rightarrow> bool res" where
  "nadvert_valid s m ip =
     (let msg = ip + IPV6_HDR_LEN in
      if ip_hop_limit m ip \<noteq> 255 then Inr False
      else if m (msg + 1) \<noteq> 0 then Inr False
      else if ip_payload_len m ip < 24 then Inr False
      else if match (ip_src m ip) unspecified IPV6_ASIZE \<noteq> 0
              \<and> match (ip_dest m ip) (snm_addr s) IPV6_ASIZE = 0 then Inr False
      else nd_checksum_accepts s m ip)"

text \<open>The address of the link-layer address in the option that follows the 24-byte message.\<close>

definition getmac_sol :: "mem \<Rightarrow> nat \<Rightarrow> nat option" where
  "getmac_sol m solicit = (let opt = solicit + 24 in if m opt \<noteq> 1 then None else Some (opt + 2))"

definition getmac_ad :: "mem \<Rightarrow> nat \<Rightarrow> nat option" where
  "getmac_ad m advert = (let opt = advert + 24 in if m opt \<noteq> 1 then None else Some (opt + 2))"

section \<open>The option loop\<close>

lemma scan_opts_eq:
  "scan_opts t l n f = (if n \<le> 0 then Some f else if l = 0 then None else Some (f \<or> t = 1))"
proof (induction t l n f rule: scan_opts.induct)
  case (1 t l n f)
  show ?case
  proof (cases "0 < n \<and> l \<noteq> 0")
    case True
    then show ?thesis
      using "1.IH" by (subst scan_opts.simps) (auto simp: Let_def)
  next
    case False
    then show ?thesis by (subst scan_opts.simps) auto
  qed
qed

section \<open>What the checksum test of neighbour messages accepts\<close>

text \<open>The value the receiver tests: \<^verbatim>\<open>cksum_valid_1buf\<close> is true for a checksum of 0xffff, that is
  for a sum that folds to zero -- not for the sum of an intact message, which folds to 0xffff.\<close>

definition folds_to_zero :: "nat \<Rightarrow> bool" where
  "folds_to_zero t \<longleftrightarrow> (t + t div 65536) mod 65536 = 0"

lemma cksum_valid_1buf_eq:
  "cksum_valid_1buf m p len = map_option (\<lambda>a. a = 0xffff) (checksumv6 m p len)"
proof -
  have "((0xffff AND NOT (ucast a :: u32)) = 0) \<longleftrightarrow> a = 0xffff" for a :: u16
  proof -
    have m: "(0xffff :: u32) = mask 16" "(0xffff :: u16) = mask 16" by (simp_all add: mask_eq_exp_minus_1)
    have "(mask 16 AND NOT (ucast a :: u32)) = 0 \<longleftrightarrow> a = mask 16"
      by (auto simp: bit_eq_iff bit_simps)
    then show ?thesis by (simp only: m)
  qed
  then show ?thesis by (simp add: cksum_valid_1buf_def split: option.splits)
qed

lemma fold_is_ffff:
  assumes "t < 4294967296"
  shows "cksum_fold (word_of_nat t) = 0xffff \<longleftrightarrow> folds_to_zero t"
proof -
  have "cksum_fold (word_of_nat t) = 0xffff \<longleftrightarrow> (word_of_nat (t mod 65536 + t div 65536) :: u16) = 0"
  proof -
    have "(0xffff :: u16) = NOT 0" by simp
    then show ?thesis unfolding cksum_fold_eq [OF assms] by (metis bit.double_compl)
  qed
  also have "\<dots> \<longleftrightarrow> (t mod 65536 + t div 65536) mod 65536 = 0"
    unfolding word_of_nat_eq_0_iff by (simp add: dvd_eq_mod_eq_0)
  also have "\<dots> \<longleftrightarrow> folds_to_zero t"
    by (simp add: folds_to_zero_def mod_simps)
  finally show ?thesis .
qed

text \<open>The sum of the message in a received packet.\<close>

definition pkt_sum :: "mem \<Rightarrow> nat \<Rightarrow> nat" where
  "pkt_sum m ip = icmp_sum (ip_src m ip) (ip_dest m ip)
     (bytes m (ip + IPV6_HDR_LEN) (unat (ntohs (ip_payload_len m ip))))"

lemma nd_checksum_accepts_eq:
  assumes "even (unat (ntohs (ip_payload_len m ip)))"
  shows "nd_checksum_accepts s m ip =
    (if 65495 \<le> unat (ntohs (ip_payload_len m ip)) then Inl Diverges
     else Inr (\<not> folds_to_zero (pkt_sum m ip)))"
proof -
  let ?n = "ntohs (ip_payload_len m ip)"
  let ?msg = "bytes m (ip + IPV6_HDR_LEN) (unat ?n)"
  let ?len = "word_of_nat PSEUDOLEN + ucast ?n :: u32"
  have len: "unat ?len = 40 + unat ?n"
    using unat_u16_less [of ?n] by (simp add: unat_word_ariths PSEUDOLEN_def)
  have acc: "nd_checksum_accepts s m ip = bind_res (icmp_checksum s (ip_src m ip) (ip_dest m ip)
      m (ip + IPV6_HDR_LEN) (ucast ?n)) (\<lambda>a. Inr (a \<noteq> 0xffff))"
    by (simp add: nd_checksum_accepts_def Let_def cksum_valid_1buf_eq icmp_checksum_def
        opt_res_def bind_res_def split: option.splits)
  show ?thesis
  proof (cases "65495 \<le> unat ?n")
    case True
    then have "checksumv6 q p ?len = None" for q p
      using len cksum_loop_None [of ?len] by (simp add: checksumv6_def)
    then show ?thesis using True acc by (simp add: icmp_checksum_def)
  next
    case False
    then have le: "unat ?n \<le> 65494" by simp
    have "pkt_sum m ip < 4294967296"
      unfolding pkt_sum_def using le by (intro icmp_sum_bound) simp_all
    then show ?thesis
      using False acc le assms icmp_checksum_eq [of "ip_src m ip" "ip_dest m ip" "ucast ?n" s m "ip + IPV6_HDR_LEN"]
      by (simp add: fold_is_ffff pkt_sum_def)
  qed
qed

definition nsol_fields_ok :: "net \<Rightarrow> mem \<Rightarrow> nat \<Rightarrow> bool" where
  "nsol_fields_ok s m ip \<longleftrightarrow>
     ip_hop_limit m ip = 255 \<and> m (ip + 41) = 0 \<and> \<not> ip_payload_len m ip < 24 \<and>
     (0 < opt_len16 (ip_payload_len m ip) 24 \<longrightarrow> m (ip + 65) \<noteq> 0) \<and>
     (ip_src m ip = unspecified \<longrightarrow> ip_dest m ip = snm_addr s \<and>
        \<not> (0 < opt_len16 (ip_payload_len m ip) 24 \<and> m (ip + 64) = 1))"

lemma length_unspecified [simp]: "length unspecified = IPV6_ASIZE"
  by (simp add: unspecified_def)

lemma match_addr: "length a = IPV6_ASIZE \<Longrightarrow> length b = IPV6_ASIZE \<Longrightarrow> match a b IPV6_ASIZE \<noteq> 0 \<longleftrightarrow> a = b"
  by (rule match_full)

lemma match_addr0: "length a = IPV6_ASIZE \<Longrightarrow> length b = IPV6_ASIZE \<Longrightarrow> match a b IPV6_ASIZE = 0 \<longleftrightarrow> a \<noteq> b"
  using match_addr by blast

lemma nsolicit_valid_fields:
  assumes "length (snm_addr s) = IPV6_ASIZE"
  shows "nsolicit_valid s m ip = (if nsol_fields_ok s m ip then nd_checksum_accepts s m ip else Inr False)"
  using assms
  by (auto simp: nsolicit_valid_def nsol_fields_ok_def scan_opts_eq NSOLSIZE_def IPV6_HDR_LEN_def Let_def
      match_addr match_addr0 add.commute [of ip])

text \<open>C25: what \<^verbatim>\<open>nsolicit_valid\<close> accepts. A solicitation of even length whose fields pass is
  accepted unless its sum folds to zero: the checksum test is the wrong way round, so a message
  with a damaged checksum passes like an intact one. For a payload length of 65495 or more the
  checksum loop, whose counter has 16 bits, never ends. (The lower bound 24 on the payload length
  compares the two bytes in the wrong order.)\<close>

theorem nsolicit_valid_exact:
  assumes "length (snm_addr s) = IPV6_ASIZE" and "even (unat (ntohs (ip_payload_len m ip)))"
  shows "nsolicit_valid s m ip =
    (if \<not> nsol_fields_ok s m ip then Inr False
     else if 65495 \<le> unat (ntohs (ip_payload_len m ip)) then Inl Diverges
     else Inr (\<not> folds_to_zero (pkt_sum m ip)))"
  using nsolicit_valid_fields [OF assms(1)] nd_checksum_accepts_eq [OF assms(2)] by simp

lemma nadvert_valid_fields:
  assumes "length (snm_addr s) = IPV6_ASIZE"
  shows "nadvert_valid s m ip =
    (if ip_hop_limit m ip = 255 \<and> m (ip + 41) = 0 \<and> \<not> ip_payload_len m ip < 24 \<and>
        (ip_src m ip = unspecified \<longrightarrow> ip_dest m ip = snm_addr s)
     then nd_checksum_accepts s m ip else Inr False)"
  using assms by (auto simp: nadvert_valid_def IPV6_HDR_LEN_def Let_def match_addr match_addr0 add.commute [of ip])

theorem nsolicit_valid_exact_witness:
  "nsolicit_valid (net_boot True if_boot zero_block) zero_block 14 = Inr False"
  using nsolicit_valid_exact [of "net_boot True if_boot zero_block" zero_block 14]
  by (simp add: nsol_fields_ok_def layout_defs zero_block_def rd16_def ntohs_def)

end
