(* ===== verification/Nat_Rewrite.thy ===== *)
theory Nat_Rewrite
  imports Icmp_Valid
begin

text \<open>
  Packet rewriting and forwarding: \<^verbatim>\<open>incPktRW\<close> and \<^verbatim>\<open>outPktRW\<close> of \<^verbatim>\<open>net/nat.c\<close>,
  \<^verbatim>\<open>fwdIPDatagram\<close> of \<^verbatim>\<open>net/fwdipv6.c\<close>. They change the packet in place.
\<close>

section \<open>The code\<close>

definition incPktRW :: "nat \<Rightarrow> net \<Rightarrow> (int \<times> net) res" where
  "incPktRW pkt s =
     (let ip = ip_of pkt; msg = msg_of pkt; m = mem s;
          msgID = ntohs (rd16 m (msg + 4))
      in case nat_lookup (nat_tab s) (msgID, ip_src m ip) of
           None \<Rightarrow> Inr (-1, s)
         | Some i \<Rightarrow>
             (let ptr = natTab (nat_tab s) ! i;
                  m = wr16 m (msg + 4) (htons (t_srcID ptr));
                  m = wr_bytes m (ip + 24) (take IPV6_ASIZE (t_src ptr));
                  m = wr16 m (msg + 2) 0
              in bind_res (store_checksum s (ip_src m ip) (ip_dest m ip) m msg (word_of_nat ECHOREQSIZE))
                   (\<lambda>m. Inr (uint (t_iface ptr), s\<lparr>mem := m\<rparr>))))"

text \<open>
  \<^verbatim>\<open>natTab\<close> has 30 entries; \<^verbatim>\<open>getNewID\<close> hands out any other index too once its counter has
  passed 30, and the entry is then written outside the table.
\<close>

definition outPktRW :: "byte \<Rightarrow> nat \<Rightarrow> net \<Rightarrow> (int \<times> net) res" where
  "outPktRW interface pkt s =
     (let ip = ip_of pkt; msg = msg_of pkt; m = mem s in
      case getNewID (nat_tab s) of (newID, t) \<Rightarrow>
        if newID = -1 then Inr (1, s\<lparr>nat_tab := t\<rparr>)
        else if newID < 0 \<or> int MAXNATENTRIES \<le> newID then Inl Out_of_bounds
        else
          (let e = \<lparr>t_src = ip_src m ip, t_dest = ip_dest m ip, t_iface = interface,
                    t_srcID = ntohs (rd16 m (msg + 4)), t_transID = word_of_int newID\<rparr>;
               t = nat_store (nat newID) e t;
               m = wr_bytes m (ip + 8) (take IPV6_ASIZE (ipv6_addr s));
               m = wr16 m (msg + 4) (htons (word_of_int newID));
               m = wr16 m (msg + 2) 0
           in bind_res (store_checksum s (ip_src m ip) (ip_dest m ip) m msg (word_of_nat ECHOREQSIZE))
                (\<lambda>m. let f = snd (insertNewFwdTabEntry (t_src e) 128 (t_src e) (t_iface e) (fwd_tab s))
                     in Inr (0, s\<lparr>mem := m, nat_tab := t, fwd_tab := f\<rparr>))))"

text \<open>
  \<^verbatim>\<open>fwdIPDatagram\<close> prints the MAC address of the neighbour entry before it tests the entry
  for NULL.
\<close>

definition fwdIPDatagram :: "nat \<Rightarrow> nat \<Rightarrow> net \<Rightarrow> net res" where
  "fwdIPDatagram pkt len s =
     (let ip = ip_of pkt; m = mem s;
          index = getNextHop (fwd_tab s) (ip_dest m ip);
          nextHopIP = (if index = -1 then router_ip_addr s else f_nextHop (fwd_entry (fwd_tab s) (nat index)));
          iface = (if index = -1 then ifprime8 s else f_iface (fwd_entry (fwd_tab s) (nat index)))
      in case lookupNDEntry (NDCache s) nextHopIP of
           None \<Rightarrow> Inl Null_deref
         | Some n \<Rightarrow>
             (let m = wr_bytes m pkt (take ETH_ADDR_LEN (n_macAddr (NDCache s ! n)));
                  m = wr_bytes m (pkt + 6) (take ETH_ADDR_LEN (if_macucast (if_tab s (unat iface))));
                  m = wr16 m (pkt + 12) (htons ETH_IPv6)
              in fire_off m pkt len (s\<lparr>mem := m\<rparr>)))"

section \<open>The echo checksum is always computed\<close>

definition echo_cksum :: "mem \<Rightarrow> nat \<Rightarrow> u16" where
  "echo_cksum m ip = cksum_fold (word_of_nat (icmp_sum (ip_src m ip) (ip_dest m ip)
     (bytes m (ip + IPV6_HDR_LEN) ECHOREQSIZE)))"

lemma store_checksum_Inr:
  assumes "length src = IPV6_ASIZE" "length dest = IPV6_ASIZE" "unat len \<le> 65494" "even (unat len)"
  shows "store_checksum s src dest m msg len =
    Inr (wr16 m (msg + 2) (htons (cksum_fold (word_of_nat (icmp_sum src dest (bytes m msg (unat len)))))))"
  using assms by (simp add: store_checksum_def icmp_checksum_eq)

lemma store_echo_checksum:
  "store_checksum s (ip_src m ip) (ip_dest m ip) m (ip + IPV6_HDR_LEN) (word_of_nat ECHOREQSIZE) =
   Inr (wr16 m (ip + IPV6_HDR_LEN + 2) (htons (echo_cksum m ip)))"
  by (simp add: store_checksum_Inr ECHOREQSIZE_def echo_cksum_def)

lemma msg_of_ip: "msg_of p = ip_of p + IPV6_HDR_LEN"
  by (simp add: layout_defs)

section \<open>Outgoing packets\<close>

text \<open>The packet after the rewriting, as the sequence of the code's writes.\<close>

definition out_mem :: "mem \<Rightarrow> nat \<Rightarrow> byte list \<Rightarrow> u16 \<Rightarrow> mem" where
  "out_mem m pkt own i =
     (let m = wr16 (wr16 (wr_bytes m (pkt + 22) own) (pkt + 58) (htons i)) (pkt + 56) 0
      in wr16 m (pkt + 56) (htons (echo_cksum m (ip_of pkt))))"

definition in_mem :: "mem \<Rightarrow> nat \<Rightarrow> byte list \<Rightarrow> u16 \<Rightarrow> mem" where
  "in_mem m pkt dst i =
     (let m = wr16 (wr_bytes (wr16 m (pkt + 58) (htons i)) (pkt + 38) dst) (pkt + 56) 0
      in wr16 m (pkt + 56) (htons (echo_cksum m (ip_of pkt))))"

lemma out_mem_fields:
  assumes "length own = IPV6_ASIZE"
  shows "ip_src (out_mem m pkt own i) (ip_of pkt) = own"
    and "ip_dest (out_mem m pkt own i) (ip_of pkt) = ip_dest m (ip_of pkt)"
    and "ntohs (rd16 (out_mem m pkt own i) (pkt + 58)) = i"
    and "x < pkt + 22 \<or> pkt + 38 \<le> x \<and> x < pkt + 56 \<or> pkt + 60 \<le> x \<Longrightarrow> out_mem m pkt own i x = m x"
  using assms by (auto simp: out_mem_def Let_def layout_defs mem_simps)

lemma in_mem_fields:
  assumes "length dst = IPV6_ASIZE"
  shows "ip_src (in_mem m pkt dst i) (ip_of pkt) = ip_src m (ip_of pkt)"
    and "ip_dest (in_mem m pkt dst i) (ip_of pkt) = dst"
    and "ntohs (rd16 (in_mem m pkt dst i) (pkt + 58)) = i"
    and "x < pkt + 38 \<or> pkt + 54 \<le> x \<and> x < pkt + 56 \<or> pkt + 60 \<le> x \<Longrightarrow> in_mem m pkt dst i x = m x"
  using assms by (auto simp: in_mem_def Let_def layout_defs mem_simps)

definition out_entry :: "net \<Rightarrow> byte \<Rightarrow> nat \<Rightarrow> u16 \<Rightarrow> natEntry" where
  "out_entry s iface pkt i =
     \<lparr>t_src = ip_src (mem s) (ip_of pkt), t_dest = ip_dest (mem s) (ip_of pkt), t_iface = iface,
      t_srcID = ntohs (rd16 (mem s) (pkt + 58)), t_transID = i\<rparr>"

lemma outPktRW_inside:
  assumes "length (ipv6_addr s) = IPV6_ASIZE" "unat (NATIDCOUNTER (nat_tab s)) = k" "k < 29"
  shows "outPktRW iface pkt s =
    Inr (0, s\<lparr>mem := out_mem (mem s) pkt (ipv6_addr s) (word_of_nat k),
      nat_tab := nat_store k (out_entry s iface pkt (word_of_nat k))
        ((nat_tab s)\<lparr>NATIDCOUNTER := word_of_nat (k + 1)\<rparr>),
      fwd_tab := snd (insertNewFwdTabEntry (ip_src (mem s) (ip_of pkt)) 128 (ip_src (mem s) (ip_of pkt))
        iface (fwd_tab s))\<rparr>)"
proof -
  let ?m = "wr16 (wr16 (wr_bytes (mem s) (pkt + 22) (ipv6_addr s)) (pkt + 58) (htons (word_of_nat k))) (pkt + 56) 0"
  have id: "getNewID (nat_tab s) = (int k, (nat_tab s)\<lparr>NATIDCOUNTER := word_of_nat (k + 1)\<rparr>)"
    using assms(2,3) by (rule getNewID_inside)
  have "store_checksum s (ip_src ?m (ip_of pkt)) (ip_dest ?m (ip_of pkt)) ?m (msg_of pkt)
      (word_of_nat ECHOREQSIZE) = Inr (out_mem (mem s) pkt (ipv6_addr s) (word_of_nat k))"
    unfolding msg_of_ip store_echo_checksum by (simp only: out_mem_def Let_def pkt_addrs)
  then show ?thesis
    using assms id
    unfolding outPktRW_def Let_def out_entry_def MAXNATENTRIES_def pkt_addrs by simp
qed

section \<open>Incoming packets\<close>

lemma incPktRW_hit:
  assumes "nat_lookup (nat_tab s) (ntohs (rd16 (mem s) (pkt + 58)), ip_src (mem s) (ip_of pkt)) = Some i"
    and "length (t_src (natTab (nat_tab s) ! i)) = IPV6_ASIZE"
  shows "incPktRW pkt s = Inr (uint (t_iface (natTab (nat_tab s) ! i)),
    s\<lparr>mem := in_mem (mem s) pkt (t_src (natTab (nat_tab s) ! i)) (t_srcID (natTab (nat_tab s) ! i))\<rparr>)"
proof -
  let ?e = "natTab (nat_tab s) ! i"
  let ?m = "wr16 (wr_bytes (wr16 (mem s) (pkt + 58) (htons (t_srcID ?e))) (pkt + 38) (t_src ?e)) (pkt + 56) 0"
  have "store_checksum s (ip_src ?m (ip_of pkt)) (ip_dest ?m (ip_of pkt)) ?m (msg_of pkt)
      (word_of_nat ECHOREQSIZE) = Inr (in_mem (mem s) pkt (t_src ?e) (t_srcID ?e))"
    unfolding msg_of_ip store_echo_checksum by (simp only: in_mem_def Let_def pkt_addrs)
  then show ?thesis
    using assms unfolding incPktRW_def Let_def pkt_addrs by simp
qed

lemma incPktRW_miss:
  assumes "nat_lookup (nat_tab s) (ntohs (rd16 (mem s) (pkt + 58)), ip_src (mem s) (ip_of pkt)) = None"
  shows "incPktRW pkt s = Inr (-1, s)"
  using assms unfolding incPktRW_def Let_def pkt_addrs by simp

section \<open>Properties\<close>

lemma nat_lookup_fresh:
  assumes "nat_inv t" "unat (NATIDCOUNTER t) = k" "k < 29" "length (t_src e) = IPV6_ASIZE"
    "length (t_dest e) = IPV6_ASIZE" "t_transID e = word_of_nat k"
    "t' = nat_store k e (t\<lparr>NATIDCOUNTER := word_of_nat (k + 1)\<rparr>)"
  shows "nat_inv t'" "nat_lookup t' (word_of_nat k, t_dest e) = Some k" "natTab t' ! k = e"
proof -
  show inv: "nat_inv t'" using nat_inv_store [OF assms(1-6)] assms(7) by simp
  have len: "k < length (natTab t)" using assms(1,3) by (simp add: nat_inv_def MAXNATENTRIES_def)
  have t': "nat_store k e t' = t'" by (simp add: assms(7) nat_store_def)
  have "unat (NATIDCOUNTER t') = k + 1"
  proof -
    have "unat (word_of_nat (k + 1) :: u16) = (k + 1) mod 65536" by (simp only: unat_of_nat) simp
    then show ?thesis using assms(3) by (simp add: assms(7) nat_store_def del: of_nat_add of_nat_Suc)
  qed
  then have "k \<le> unat (NATIDCOUNTER t')" by simp
  from nat_lookup_store [OF inv assms(3) this assms(6) refl assms(5)]
  show "nat_lookup t' (word_of_nat k, t_dest e) = Some k" unfolding t' .
  show "natTab t' ! k = e" using len by (simp add: assms(7) nat_store_def)
qed

text \<open>C1: the NAT round trip. While identifiers are left, \<^verbatim>\<open>outPktRW\<close> rewrites an outgoing echo
  packet to the box's own address and a fresh identifier and keeps the table's invariant; and when
  a packet with that identifier comes back from the peer (at any buffer, the table being as
  \<^verbatim>\<open>outPktRW\<close> left it), \<^verbatim>\<open>incPktRW\<close> restores the internal host's address and identifier and
  returns the interface the packet had come from.\<close>

theorem nat_round_trip:
  assumes "nat_inv (nat_tab s)" and "length (ipv6_addr s) = IPV6_ASIZE"
    and "unat (NATIDCOUNTER (nat_tab s)) = k" and "k < 29"
  shows "\<exists>s1. outPktRW iface pkt s = Inr (0, s1) \<and> nat_inv (nat_tab s1) \<and>
    ip_src (mem s1) (ip_of pkt) = ipv6_addr s \<and>
    ip_dest (mem s1) (ip_of pkt) = ip_dest (mem s) (ip_of pkt) \<and>
    ntohs (rd16 (mem s1) (pkt + 58)) = word_of_nat k \<and>
    (\<forall>p s2. nat_tab s2 = nat_tab s1 \<and> ip_src (mem s2) (ip_of p) = ip_dest (mem s) (ip_of pkt) \<and>
       ntohs (rd16 (mem s2) (p + 58)) = word_of_nat k \<longrightarrow>
       (\<exists>s3. incPktRW p s2 = Inr (uint iface, s3) \<and>
          ip_dest (mem s3) (ip_of p) = ip_src (mem s) (ip_of pkt) \<and>
          ip_src (mem s3) (ip_of p) = ip_src (mem s2) (ip_of p) \<and>
          rd16 (mem s3) (p + 58) = rd16 (mem s) (pkt + 58)))"
proof -
  let ?e = "out_entry s iface pkt (word_of_nat k)"
  obtain s1 where s1: "outPktRW iface pkt s = Inr (0, s1)"
    "mem s1 = out_mem (mem s) pkt (ipv6_addr s) (word_of_nat k)"
    and t1: "nat_tab s1 = nat_store k ?e ((nat_tab s)\<lparr>NATIDCOUNTER := word_of_nat (k + 1)\<rparr>)"
    using outPktRW_inside [OF assms(2-4), of iface pkt] by simp
  note fresh = nat_lookup_fresh [OF assms(1,3,4) _ _ _ t1]
  have e: "length (t_src ?e) = IPV6_ASIZE" "length (t_dest ?e) = IPV6_ASIZE" "t_transID ?e = word_of_nat k"
    by (simp_all add: out_entry_def)
  have ret: "\<exists>s3. incPktRW p s2 = Inr (uint iface, s3) \<and>
      ip_dest (mem s3) (ip_of p) = ip_src (mem s) (ip_of pkt) \<and>
      ip_src (mem s3) (ip_of p) = ip_src (mem s2) (ip_of p) \<and>
      rd16 (mem s3) (p + 58) = rd16 (mem s) (pkt + 58)"
    if "nat_tab s2 = nat_tab s1" "ip_src (mem s2) (ip_of p) = ip_dest (mem s) (ip_of pkt)"
      "ntohs (rd16 (mem s2) (p + 58)) = word_of_nat k" for p s2
  proof -
    let ?m = "in_mem (mem s2) p (t_src ?e) (t_srcID ?e)"
    have "t_dest ?e = ip_src (mem s2) (ip_of p)" using that(2) by (simp add: out_entry_def)
    with fresh(2) [OF e] that
    have "nat_lookup (nat_tab s2) (ntohs (rd16 (mem s2) (p + 58)), ip_src (mem s2) (ip_of p)) = Some k"
      by simp
    from incPktRW_hit [OF this] fresh(3) [OF e] that(1) e(1)
    have "incPktRW p s2 = Inr (uint iface, s2\<lparr>mem := ?m\<rparr>)"
      by (simp add: out_entry_def)
    moreover have "rd16 ?m (p + 58) = rd16 (mem s) (pkt + 58)"
      using in_mem_fields(3) [OF e(1), of "mem s2" p "t_srcID ?e"]
      by (metis ntohs_htons(2) natEntry.select_convs(4) out_entry_def)
    ultimately show ?thesis
      using in_mem_fields(1,2) [OF e(1), of "mem s2" p "t_srcID ?e"] by (simp add: out_entry_def)
  qed
  show ?thesis
    using s1 fresh(1) [OF e] ret out_mem_fields(1-3) [OF assms(2), of "mem s" pkt "word_of_nat k"]
    by (intro exI [of _ s1]) simp
qed

text \<open>The next hop: the most specific route, or the default router on the primary interface.\<close>

definition next_hop :: "net \<Rightarrow> byte list \<Rightarrow> byte list \<times> byte" where
  "next_hop s ip = (case fwd_look (fwd_tab s) ip of
     None \<Rightarrow> (router_ip_addr s, ifprime8 s)
   | Some e \<Rightarrow> (f_nextHop e, f_iface e))"

lemma fwdIPDatagram_eq:
  "fwdIPDatagram pkt len s =
    (case next_hop s (ip_dest (mem s) (ip_of pkt)) of (hop, iface) \<Rightarrow>
       case lookupNDEntry (NDCache s) hop of
         None \<Rightarrow> Inl Null_deref
       | Some n \<Rightarrow>
          (let m = wr16 (wr_bytes (wr_bytes (mem s) pkt (take ETH_ADDR_LEN (n_macAddr (NDCache s ! n))))
                 (pkt + 6) (take ETH_ADDR_LEN (if_macucast (if_tab s (unat iface))))) (pkt + 12) (htons ETH_IPv6)
           in Inr (s\<lparr>mem := m, sent := sent s @ [eth_frame m pkt len]\<rparr>)))"
  by (simp add: fwdIPDatagram_def next_hop_def fwd_look_def fire_off_eq Let_def split: option.splits)

text \<open>Where a datagram for \<open>ip\<close> has to go: to the next hop of a matching route with the longest prefix, or to the
  default router on the primary interface when no route matches.\<close>

definition best_hop :: "net \<Rightarrow> byte list \<Rightarrow> byte list \<Rightarrow> byte \<Rightarrow> bool" where
  "best_hop s ip hop iface \<longleftrightarrow>
     (if \<exists>e \<in> set (fwdTab (fwd_tab s)). route_matches e ip
      then \<exists>e \<in> set (fwdTab (fwd_tab s)). route_matches e ip \<and> hop = f_nextHop e \<and> iface = f_iface e \<and>
        (\<forall>e' \<in> set (fwdTab (fwd_tab s)). route_matches e' ip \<longrightarrow> f_prefixLen e' \<le> f_prefixLen e)
      else hop = router_ip_addr s \<and> iface = ifprime8 s)"

lemma next_hop_best:
  assumes "fwd_inv (fwd_tab s)" "length ip = IPV6_ASIZE" "next_hop s ip = (hop, iface)"
  shows "best_hop s ip hop iface"
proof -
  let ?t = "fwd_tab s"
  show ?thesis
  proof (cases rule: getNextHop_cases [OF assms(1,2)])
    case 1
    then show ?thesis using assms(3) by (auto simp: best_hop_def next_hop_def fwd_look_def)
  next
    case found: (2 i)
    have "fwd_entry ?t i \<in> set (fwdTab ?t)" using ptr_less(2) [OF assms(1) found(1)] by simp
    moreover have "hop = f_nextHop (fwd_entry ?t i)" "iface = f_iface (fwd_entry ?t i)"
      using assms(3) found(2) by (simp_all add: next_hop_def fwd_look_def)
    ultimately show ?thesis using found(3,4) unfolding best_hop_def by auto
  qed
qed

lemma best_hop_length:
  assumes "fwd_inv (fwd_tab s)" "length (router_ip_addr s) = IPV6_ASIZE" "best_hop s ip hop iface"
  shows "length hop = IPV6_ASIZE"
  using assms by (auto simp: best_hop_def fwd_inv_def entry_ok_def split: if_splits)

text \<open>C20: forwarding. \<^verbatim>\<open>fwdIPDatagram\<close> sends a datagram to the next hop of a matching route with the longest prefix, over
  that route's interface; to the default router over the primary interface when no installed route matches. When that next
  hop is in the neighbour cache, exactly one frame is sent, addressed from the outgoing interface to the neighbour's
  MAC address, with the datagram as it was; when it is not, the code follows a NULL pointer.\<close>

theorem fwdIPDatagram_correct:
  assumes "nd_inv (NDCache s)" and "fwd_inv (fwd_tab s)" and "\<forall>i. length (if_macucast (if_tab s i)) = ETH_ADDR_LEN" and "length (router_ip_addr s) = IPV6_ASIZE"
  shows "\<exists>hop iface. best_hop s (ip_dest (mem s) (ip_of pkt)) hop iface \<and>
    (if \<exists>i < MAXNDENTRY. n_ipAddr (NDCache s ! i) = hop
     then \<exists>s' i. fwdIPDatagram pkt len s = Inr s' \<and> i < MAXNDENTRY \<and> n_ipAddr (NDCache s ! i) = hop \<and>
       net_dst (mem s') pkt = n_macAddr (NDCache s ! i) \<and>
       net_src (mem s') pkt = if_macucast (if_tab s (unat iface)) \<and>
       net_type (mem s') pkt = htons ETH_IPv6 \<and>
       (\<forall>x. x < pkt \<or> pkt + 14 \<le> x \<longrightarrow> mem s' x = mem s x) \<and>
       sent s' = sent s @ [eth_frame (mem s') pkt len]
     else fwdIPDatagram pkt len s = Inl Null_deref)"
proof -
  obtain hop iface where hop: "next_hop s (ip_dest (mem s) (ip_of pkt)) = (hop, iface)" by fastforce
  have best: "best_hop s (ip_dest (mem s) (ip_of pkt)) hop iface" by (rule next_hop_best [OF assms(2) _ hop]) simp
  note len = best_hop_length [OF assms(2,4) best]
  have own: "length (if_macucast (if_tab s (unat iface))) = ETH_ADDR_LEN" using assms(3) by blast
  have "if \<exists>i < MAXNDENTRY. n_ipAddr (NDCache s ! i) = hop
     then \<exists>s' i. fwdIPDatagram pkt len s = Inr s' \<and> i < MAXNDENTRY \<and> n_ipAddr (NDCache s ! i) = hop \<and>
       net_dst (mem s') pkt = n_macAddr (NDCache s ! i) \<and>
       net_src (mem s') pkt = if_macucast (if_tab s (unat iface)) \<and>
       net_type (mem s') pkt = htons ETH_IPv6 \<and>
       (\<forall>x. x < pkt \<or> pkt + 14 \<le> x \<longrightarrow> mem s' x = mem s x) \<and>
       sent s' = sent s @ [eth_frame (mem s') pkt len]
     else fwdIPDatagram pkt len s = Inl Null_deref"
  proof (cases "lookupNDEntry (NDCache s) hop")
    case None
    then have "\<not> (\<exists>i < MAXNDENTRY. n_ipAddr (NDCache s ! i) = hop)"
      using nd_ip.search_None_iff [of "NDCache s" hop] nd_ip_hit [OF assms(1) _ len] by blast
    then show ?thesis using None hop by (simp add: fwdIPDatagram_eq)
  next
    case (Some n)
    then have n: "n < MAXNDENTRY" "n_ipAddr (NDCache s ! n) = hop"
      using nd_ip.search_Some_iff [of "NDCache s" hop n] nd_ip_hit [OF assms(1) _ len] by blast+
    let ?m = "wr16 (wr_bytes (wr_bytes (mem s) pkt (n_macAddr (NDCache s ! n)))
       (pkt + 6) (if_macucast (if_tab s (unat iface)))) (pkt + 12) (htons ETH_IPv6)"
    have mac: "length (n_macAddr (NDCache s ! n)) = ETH_ADDR_LEN" using assms(1) n(1) nd_inv_nth by blast
    have "fwdIPDatagram pkt len s = Inr (s\<lparr>mem := ?m, sent := sent s @ [eth_frame ?m pkt len]\<rparr>)" for len
      using Some hop own mac by (simp add: fwdIPDatagram_eq Let_def)
    moreover have "net_dst ?m pkt = n_macAddr (NDCache s ! n)"
      "net_src ?m pkt = if_macucast (if_tab s (unat iface))" "net_type ?m pkt = htons ETH_IPv6"
      using mac own by (simp_all add: net_dst_def net_src_def net_type_def len_defs mem_simps)
    moreover have "?m x = mem s x" if "x < pkt \<or> pkt + 14 \<le> x" for x
      using that mac own by (auto simp: len_defs mem_simps)
    ultimately show ?thesis using n by (auto intro!: exI [of _ n])
  qed
  then show ?thesis using best by blast
qed

theorem nat_round_trip_witness:
  "\<exists>s1. outPktRW 1 1520 (net_boot False if_boot zero_block) = Inr (0, s1) \<and> nat_inv (nat_tab s1) \<and>
     ntohs (rd16 (mem s1) 1578) = 0"
  using nat_round_trip [of "net_boot False if_boot zero_block" 0 1 1520] nat_inv_init
  by (auto simp: IPV6_ASIZE_def natTab_init_def)

theorem fwdIPDatagram_correct_witness:
  "\<exists>s'. fwdIPDatagram 1520 86 (net_boot True if_boot zero_block) = Inr s' \<and> length (sent s') = 1"
proof -
  let ?s = "net_boot True if_boot zero_block"
  let ?ip = "ip_dest (mem ?s) (ip_of 1520)"
  have "\<not> (\<exists>e \<in> set (fwdTab (fwd_tab ?s)). route_matches e ?ip)"
    by (simp add: fwdipv6_init_def fwd_boot_def route_matches_def)
  then have hop: "best_hop ?s ?ip hop iface \<longleftrightarrow> hop = replicate 16 0 \<and> iface = 0" for hop iface
    unfolding best_hop_def by simp
  have nd: "NDCache ?s ! 0 = NDCache_init ! 0" "nd_inv (NDCache ?s)" using nd_inv_init by simp_all
  have fw: "fwd_inv (fwd_tab ?s)" using fwd_inv_init by simp
  have mo: "\<forall>i. length (if_macucast (if_tab ?s i)) = ETH_ADDR_LEN" "length (router_ip_addr ?s) = IPV6_ASIZE"
    by (simp_all add: ETH_ADDR_LEN_def IPV6_ASIZE_def)
  have "\<exists>i < MAXNDENTRY. n_ipAddr (NDCache ?s ! i) = replicate 16 0"
    by (rule exI [of _ 0]) (simp add: NDCache_init_def MAXNDENTRY_def IPV6_ASIZE_def)
  then show ?thesis
    using fwdIPDatagram_correct [OF nd(2) fw mo, of 1520 86] unfolding hop by auto
qed

end
