(* ===== verification/Nd_Send.thy ===== *)
theory Nd_Send
  imports Nat_Rewrite
begin

text \<open>
  The senders: \<^verbatim>\<open>sendNSOL\<close> (\<^verbatim>\<open>net/nsolicit.c\<close>), \<^verbatim>\<open>sendNAD\<close> (\<^verbatim>\<open>net/nadvert.c\<close>),
  \<^verbatim>\<open>sendEchoResp\<close> (\<^verbatim>\<open>net/icmpv6.c\<close>) and \<^verbatim>\<open>sendipv6pkt\<close> (\<^verbatim>\<open>net/sendipv6pkt.c\<close>). Each takes a
  buffer of \<^verbatim>\<open>ipv6bufpool\<close>, clears it, builds the frame in it at address 0 of its own block,
  writes it to the device and returns the buffer.
\<close>

section \<open>The code\<close>

text \<open>The common tail: checksum over \<open>msglen\<close> bytes of message, write \<open>len\<close> bytes, free.\<close>

definition checksum_and_send :: "mem \<Rightarrow> nat \<Rightarrow> nat \<Rightarrow> net \<Rightarrow> net res" where
  "checksum_and_send m msglen len s =
     bind_res (store_checksum s (ip_src m (ip_of 0)) (ip_dest m (ip_of 0)) m (msg_of 0) (word_of_nat msglen))
       (\<lambda>m. bind_res (fire_off m 0 len s) (\<lambda>s. Inr (freebuf_ipv6 s)))"

definition sendNSOL :: "byte list \<Rightarrow> byte list \<Rightarrow> byte list \<Rightarrow> byte list \<Rightarrow> byte \<Rightarrow> net \<Rightarrow> net res" where
  "sendNSOL src_ip mac_dest dest_ip target iface s =
     bind_res (getbuf_ipv6 s) (\<lambda>s.
       let totalOptLen = 8;
           len = ETH_HDR_LEN + IPV6_HDR_LEN + NSOLSIZE + totalOptLen;
           m = fillEthernet s zero_block 0 mac_dest iface;
           m = fillIPdatagram m 0 src_ip dest_ip (word_of_nat (NSOLSIZE + totalOptLen)) IPV6_ICMP;
           solicit = msg_of 0;
           m = m(solicit := NEIGHBS);
           m = m(solicit + 1 := 0);
           m = wr16 m (solicit + 2) 0;
           m = wr_bytes m (solicit + 8) (take IPV6_ASIZE target);
           m = fillOptions s m (solicit + 24) (\<lambda>i. 1) 1 (ifprime8 s)
       in checksum_and_send m (NSOLSIZE + totalOptLen) len s)"

definition sendNAD :: "byte list \<Rightarrow> byte list \<Rightarrow> byte list \<Rightarrow> byte list \<Rightarrow> byte \<Rightarrow> net \<Rightarrow> net res" where
  "sendNAD src_ip mac_dest dest_ip target iface s =
     bind_res (getbuf_ipv6 s) (\<lambda>s.
       let totalOptLen = 8;
           len = ETH_HDR_LEN + IPV6_HDR_LEN + NADSIZE + totalOptLen;
           m = fillEthernet s zero_block 0 mac_dest iface;
           m = fillIPdatagram m 0 src_ip dest_ip (word_of_nat (NADSIZE + totalOptLen)) IPV6_ICMP;
           advert = msg_of 0;
           m = m(advert := NEIGHBA);
           m = m(advert + 1 := 0);
           m = wr16 m (advert + 2) 0;
           m = m(advert + 4 := 96);
           m = wr_bytes m (advert + 8) (take IPV6_ASIZE target);
           m = fillOptions s m (advert + 24) (\<lambda>i. 1) 1 (ifprime8 s)
       in checksum_and_send m (NADSIZE + totalOptLen) len s)"

definition sendEchoResp :: "byte list \<Rightarrow> byte list \<Rightarrow> byte list \<Rightarrow> u16 \<Rightarrow> u16 \<Rightarrow> net \<Rightarrow> net res" where
  "sendEchoResp src_ip mac_dest dest_ip identifier seqNumber s =
     bind_res (getbuf_ipv6 s) (\<lambda>s.
       let len = ETH_HDR_LEN + IPV6_HDR_LEN + ECHOREQSIZE;
           m = fillEthernet s zero_block 0 mac_dest (ifprime8 s);
           m = fillIPdatagram m 0 src_ip dest_ip (word_of_nat ECHOREQSIZE) IPV6_ICMP;
           req = msg_of 0;
           m = m(req := ECHORESP);
           m = m(req + 1 := 0);
           m = wr16 m (req + 2) 0;
           m = wr16 m (req + 4) (htons identifier);
           m = wr16 m (req + 6) (htons seqNumber)
       in checksum_and_send m ECHOREQSIZE len s)"

text \<open>
  \<^verbatim>\<open>radvert_valid\<close> builds its pseudo header \<open>payload_len\<close> (bytes swapped) behind the
  message; what lands behind the 1520 bytes of the buffer overwrites other buffers.
\<close>

definition log_scratch :: "mem \<Rightarrow> net \<Rightarrow> net" where
  "log_scratch m s =
     (let start = msg_of 0 + unat (ip_payload_len m (ip_of 0)) in
      if PACKLEN < start + 40 then s\<lparr>overrun := overrun s @ [(''ipv6bufpool'', bytes m start 40)]\<rparr> else s)"

definition write_and_free :: "mem \<Rightarrow> nat \<Rightarrow> net \<Rightarrow> (int \<times> net) res" where
  "write_and_free m len s = bind_res (fire_off m 0 len s) (\<lambda>s. Inr (1, freebuf_ipv6 s))"

definition sendipv6pkt :: "byte \<Rightarrow> byte list \<Rightarrow> byte list \<Rightarrow> byte \<Rightarrow> net \<Rightarrow> (int \<times> net) res" where
  "sendipv6pkt type link_dest dest_ip iface s =
     bind_res (getbuf_ipv6 s) (\<lambda>s.
       if type = ROUTERS then
         (let len = ETH_HDR_LEN + IPV6_HDR_LEN + RSOLSIZE;
              m = fillEthernet s zero_block 0 link_dest iface;
              m = fillIPdatagram m 0 unspecified (allrIPmulti s) (word_of_nat RSOLSIZE) IPV6_ICMP
          in bind_res (fillICMP s m 0 ROUTERS (\<lambda>i. 0) 0 iface) (\<lambda>m.
             bind_res (rsolicit_valid m (ip_of 0)) (\<lambda>(v, m).
               if \<not> v then Inr (0, freebuf_ipv6 s) else write_and_free m len s)))
       else if type = ROUTERA then
         (if host s then Inr (0, freebuf_ipv6 s)
          else
            let totalOptLen = 48;
                len = ETH_HDR_LEN + IPV6_HDR_LEN + RADVERTSIZE + totalOptLen;
                m = fillEthernet s zero_block 0 link_dest iface;
                m = fillIPdatagram m 0 (link_local s) (allnIPmulti s)
                      (word_of_nat (RADVERTSIZE + totalOptLen)) IPV6_ICMP
            in bind_res (fillICMP s m 0 ROUTERA (ra_option_types (stack_junk s)) 3 iface) (\<lambda>m.
               bind_res (radvert_valid m (ip_of 0)) (\<lambda>(v, m).
                 let s = log_scratch m s in
                 if \<not> v then Inr (0, freebuf_ipv6 s) else write_and_free m len s)))
       else if type = NEIGHBS then
         (let totalOptLen = 8;
              len = ETH_HDR_LEN + IPV6_HDR_LEN + NSOLSIZE + totalOptLen;
              m = fillEthernet s zero_block 0 link_dest iface;
              m = fillIPdatagram m 0 (ipv6_addr s) dest_ip (word_of_nat (NSOLSIZE + totalOptLen)) IPV6_ICMP
          in bind_res (fillICMP s m 0 NEIGHBS (\<lambda>i. 1) 1 iface) (\<lambda>m.
             bind_res (nsolicit_valid s m (ip_of 0)) (\<lambda>v.
               if \<not> v then Inr (0, freebuf_ipv6 s) else write_and_free m len s)))
       else if type = NEIGHBA then
         (let len = ETH_HDR_LEN + IPV6_HDR_LEN + NADSIZE;
              m = fillEthernet s zero_block 0 link_dest iface;
              m = fillIPdatagram m 0 (ipv6_addr s) dest_ip (word_of_nat NADSIZE) IPV6_ICMP
          in bind_res (nadvert_valid s m (ip_of 0)) (\<lambda>v.
               if \<not> v then Inr (0, freebuf_ipv6 s) else write_and_free m len s))
       else if type = ECHOREQ then
         (let len = ETH_HDR_LEN + IPV6_HDR_LEN + ECHOREQSIZE;
              m = fillEthernet s zero_block 0 (router_mac_addr s) iface;
              m = fillIPdatagram m 0 (ipv6_addr s) dest_ip (word_of_nat ECHOREQSIZE) IPV6_ICMP
          in bind_res (fillICMP s m 0 ECHOREQ (\<lambda>i. 0) 0 iface) (\<lambda>m. write_and_free m len s))
       else write_and_free zero_block (unat (stack_junk s 0)) s)"

section \<open>The frame as a list of bytes\<close>

definition othernet_fix :: "byte list \<Rightarrow> byte list" where
  "othernet_fix bs = (if bs ! 7 = 0x80 \<and> bs ! 8 = 0x0a then bs[6 := bs ! 6 AND NOT 1] else bs)"

lemma eth_frame_eq:
  assumes "9 \<le> len"
  shows "eth_frame m buf len = othernet_fix (bytes m buf len)"
  using assms by (auto simp: eth_frame_def othernet_fix_def list_eq_iff_nth_eq nth_list_update)

definition ip_packet :: "byte list \<Rightarrow> byte list \<Rightarrow> byte list \<Rightarrow> byte list \<Rightarrow> byte list \<Rightarrow> byte list" where
  "ip_packet mac_dst mac_src src dest msg =
     mac_dst @ mac_src @ be16 ETH_IPv6 @ ip_header src dest (word_of_nat (length msg)) IPV6_ICMP @ msg"

text \<open>A message with its checksum filled in as the code does.\<close>

definition with_cksum :: "byte list \<Rightarrow> byte list \<Rightarrow> byte list \<Rightarrow> byte list" where
  "with_cksum src dest msg =
     take 2 msg @ be16 (cksum_fold (word_of_nat (icmp_sum src dest msg))) @ drop 4 msg"

lemma length_with_cksum [simp]: "4 \<le> length msg \<Longrightarrow> length (with_cksum src dest msg) = length msg"
  by (simp add: with_cksum_def)

definition own_mac :: "net \<Rightarrow> byte \<Rightarrow> byte list" where
  "own_mac s iface = if_macucast (if_tab s (unat iface))"

definition macs_ok :: "net \<Rightarrow> bool" where
  "macs_ok s \<longleftrightarrow> (\<forall>i. length (if_macucast (if_tab s i)) = ETH_ADDR_LEN)"

lemma length_own_mac: "macs_ok s \<Longrightarrow> length (own_mac s iface) = ETH_ADDR_LEN"
  by (simp add: macs_ok_def own_mac_def)

text \<open>Headers followed by a message are one write into the cleared buffer.\<close>

lemma fill_headers:
  assumes "macs_ok s" "length mac = ETH_ADDR_LEN" "length src = IPV6_ASIZE" "length dest = IPV6_ASIZE"
  shows "fillIPdatagram (fillEthernet s m 0 mac iface) 0 src dest n nh =
    wr_bytes m 0 (mac @ own_mac s iface @ be16 ETH_IPv6 @ ip_header src dest n nh)"
  using assms length_own_mac [OF assms(1), of iface]
  by (simp add: fillIPdatagram_spec fillEthernet_spec wr_bytes_join own_mac_def ip_of_def len_defs)

lemma checksum_and_send_eq:
  assumes "macs_ok s" "length mac = ETH_ADDR_LEN" "length src = IPV6_ASIZE" "length dest = IPV6_ASIZE"
    and "length smac = ETH_ADDR_LEN" and "4 \<le> length msg" "length msg \<le> 65494" "even (length msg)"
    and "m = wr_bytes zero_block 0 (ip_packet mac smac src dest msg)"
    and "len = 54 + length msg"
  shows "checksum_and_send m (length msg) len s =
    Inr (freebuf_ipv6 (s\<lparr>sent := sent s @ [othernet_fix (ip_packet mac smac src dest (with_cksum src dest msg))]\<rparr>))"
proof -
  let ?h = "mac @ smac @ be16 ETH_IPv6 @ ip_header src dest (word_of_nat (length msg)) IPV6_ICMP"
  let ?c = "cksum_fold (word_of_nat (icmp_sum src dest msg))"
  have hl: "length mac = 6" "length smac = 6"
    "length (ip_header src dest (word_of_nat (length msg)) IPV6_ICMP) = 40"
    using assms(2-5) by (simp_all add: len_defs ip_header_def)
  then have h: "length ?h = 54" by simp
  have m: "m = wr_bytes zero_block 0 (?h @ msg)" by (simp add: assms(9) ip_packet_def)
  have ip: "ip_src m (ip_of 0) = src" "ip_dest m (ip_of 0) = dest" "bytes m (msg_of 0) (length msg) = msg"
    using assms(2-5) h by (simp_all add: m mem_simps layout_defs ip_header_def)
  have n: "unat (word_of_nat (length msg) :: u32) = length msg"
    using assms(7) by (simp add: unat_of_nat)
  have st: "store_checksum s (ip_src m (ip_of 0)) (ip_dest m (ip_of 0)) m (msg_of 0) (word_of_nat (length msg)) =
      Inr (wr16 m (msg_of 0 + 2) (htons ?c))"
    using store_checksum_Inr [of src dest "word_of_nat (length msg)" s m "msg_of 0"] assms(3,4,7,8) n ip
    by simp
  have "wr16 m (msg_of 0 + 2) (htons ?c) = wr_bytes zero_block 0 (?h @ with_cksum src dest msg)"
    using assms(6) hl by (simp add: m wr16_def msg_of_def wr_bytes_within with_cksum_def len_defs)
  moreover have "length (?h @ with_cksum src dest msg) = len" using h assms(6,10) by simp
  ultimately have "bytes (wr16 m (msg_of 0 + 2) (htons ?c)) 0 len = ip_packet mac smac src dest (with_cksum src dest msg)"
    using assms(6) by (simp only: bytes_wr_same) (simp add: ip_packet_def)
  then show ?thesis
    using st assms(10) by (simp add: checksum_and_send_def fire_off_eq eth_frame_eq)
qed

section \<open>Frames sent\<close>

definition nd_message :: "byte \<Rightarrow> byte \<Rightarrow> byte list \<Rightarrow> byte list \<Rightarrow> byte list" where
  "nd_message type flags target mac = [type, 0, 0, 0, flags, 0, 0, 0] @ target @ option_one mac"

definition nd_frame :: "net \<Rightarrow> byte \<Rightarrow> byte \<Rightarrow> byte list \<Rightarrow> byte list \<Rightarrow> byte list \<Rightarrow> byte list \<Rightarrow> byte \<Rightarrow> byte list" where
  "nd_frame s type flags src mac dest target iface =
     ip_packet mac (own_mac s iface) src dest
       (with_cksum src dest (nd_message type flags target (own_mac s (ifprime8 s))))"

lemma length_nd_message:
  "length target = IPV6_ASIZE \<Longrightarrow> length mac = ETH_ADDR_LEN \<Longrightarrow> length (nd_message type flags target mac) = 32"
  by (simp add: nd_message_def option_one_def len_defs)

lemma fillOptions_one:
  assumes "macs_ok s"
  shows "fillOptions s m p (\<lambda>i. 1) 1 iface = wr_bytes m p (option_one (own_mac s iface))"
  using assms fill_option_one_spec [of s iface m p]
  by (simp add: fillOptions_def fillOptions_loop.simps macs_ok_def own_mac_def)

lemma wr_bytes_ge: "length hs \<le> a \<Longrightarrow> wr_bytes (wr_bytes zero_block 0 hs) a bs =
    wr_bytes zero_block 0 (hs @ replicate (a - length hs) 0 @ bs)"
  by (auto simp: wr_bytes_def fun_eq_iff nth_append zero_block_def)

lemma le16_0 [simp]: "le16 0 = [0, 0]"
  by (simp add: le16_def)

lemma wr16_0: "wr16 m a 0 = wr_bytes m a [0, 0]"
  by (simp add: wr16_def le16_def)

lemma macs_ok_simps [simp]:
  "macs_ok (s\<lparr>ipv6_free := n\<rparr>) = macs_ok s" "own_mac (s\<lparr>ipv6_free := n\<rparr>) = own_mac s"
  by (simp_all add: macs_ok_def own_mac_def fun_eq_iff)

lemma get_and_free: "0 < ipv6_free s \<Longrightarrow>
    freebuf_ipv6 (s\<lparr>ipv6_free := ipv6_free s - 1, sent := x\<rparr>) = s\<lparr>sent := x\<rparr>"
  by (simp add: freebuf_ipv6_def)

lemma sendNSOL_eq:
  assumes "macs_ok s" "length mac = ETH_ADDR_LEN" "length src = IPV6_ASIZE" "length dest = IPV6_ASIZE"
    and "length target = IPV6_ASIZE" "0 < ipv6_free s"
  shows "sendNSOL src mac dest target iface s =
    Inr (s\<lparr>sent := sent s @ [othernet_fix (nd_frame s NEIGHBS 0 src mac dest target iface)]\<rparr>)"
proof -
  let ?s = "s\<lparr>ipv6_free := ipv6_free s - 1\<rparr>"
  let ?msg = "nd_message NEIGHBS 0 target (own_mac s (ifprime8 s))"
  let ?h = "mac @ own_mac s iface @ be16 ETH_IPv6 @ ip_header src dest 32 IPV6_ICMP"
  have hl: "length mac = 6" "length (own_mac s iface) = 6" "length (own_mac s (ifprime8 s)) = 6"
    "length (ip_header src dest 32 IPV6_ICMP) = 40" "length target = 16"
    using assms(2-5) length_own_mac [OF assms(1)] by (simp_all add: len_defs ip_header_def)
  have len: "length ?msg = 32" using assms hl by (intro length_nd_message) (simp_all add: len_defs)
  let ?m = "fillIPdatagram (fillEthernet ?s zero_block 0 mac iface) 0 src dest 32 IPV6_ICMP"
  have m: "?m = wr_bytes zero_block 0 ?h" using assms by (subst fill_headers) simp_all
  have "fillOptions ?s (wr_bytes (wr16 (?m(54 := NEIGHBS, 55 := 0)) 56 0) 62 (take 16 target)) 78
      (\<lambda>i. 1) 1 (ifprime8 s) = wr_bytes zero_block 0 (ip_packet mac (own_mac s iface) src dest ?msg)"
    using hl len assms(1) unfolding m
    by (simp add: fillOptions_one fun_upd_wr_bytes wr16_0 wr_bytes_ge ip_packet_def nd_message_def numeral_eq_Suc)
  then have "sendNSOL src mac dest target iface s = checksum_and_send
      (wr_bytes zero_block 0 (ip_packet mac (own_mac s iface) src dest ?msg)) (length ?msg) 86 ?s"
    using assms(6) len
    by (simp add: sendNSOL_def getbuf_ipv6_def Let_def len_defs size_defs msg_of_def)
  also have "\<dots> = Inr (freebuf_ipv6 (?s\<lparr>sent := sent s @ [othernet_fix (nd_frame s NEIGHBS 0 src mac dest target iface)]\<rparr>))"
    using assms len hl by (subst checksum_and_send_eq [where mac = mac and smac = "own_mac s iface" and src = src
      and dest = dest and msg = ?msg]) (simp_all add: nd_frame_def len_defs)
  finally show ?thesis using assms(6) by (simp add: freebuf_ipv6_def)
qed

lemma sendNAD_eq:
  assumes "macs_ok s" "length mac = ETH_ADDR_LEN" "length src = IPV6_ASIZE" "length dest = IPV6_ASIZE"
    and "length target = IPV6_ASIZE" "0 < ipv6_free s"
  shows "sendNAD src mac dest target iface s =
    Inr (s\<lparr>sent := sent s @ [othernet_fix (nd_frame s NEIGHBA 96 src mac dest target iface)]\<rparr>)"
proof -
  let ?s = "s\<lparr>ipv6_free := ipv6_free s - 1\<rparr>"
  let ?msg = "nd_message NEIGHBA 96 target (own_mac s (ifprime8 s))"
  let ?h = "mac @ own_mac s iface @ be16 ETH_IPv6 @ ip_header src dest 32 IPV6_ICMP"
  have hl: "length mac = 6" "length (own_mac s iface) = 6" "length (own_mac s (ifprime8 s)) = 6"
    "length (ip_header src dest 32 IPV6_ICMP) = 40" "length target = 16"
    using assms(2-5) length_own_mac [OF assms(1)] by (simp_all add: len_defs ip_header_def)
  have len: "length ?msg = 32" using assms hl by (intro length_nd_message) (simp_all add: len_defs)
  let ?m = "fillIPdatagram (fillEthernet ?s zero_block 0 mac iface) 0 src dest 32 IPV6_ICMP"
  have m: "?m = wr_bytes zero_block 0 ?h" using assms by (subst fill_headers) simp_all
  have "fillOptions ?s (wr_bytes ((wr16 (?m(54 := NEIGHBA, 55 := 0)) 56 0)(58 := 96)) 62 (take 16 target)) 78
      (\<lambda>i. 1) 1 (ifprime8 s) = wr_bytes zero_block 0 (ip_packet mac (own_mac s iface) src dest ?msg)"
    using hl len assms(1) unfolding m
    by (simp add: fillOptions_one fun_upd_wr_bytes wr16_0 wr_bytes_ge ip_packet_def nd_message_def numeral_eq_Suc)
  then have "sendNAD src mac dest target iface s = checksum_and_send
      (wr_bytes zero_block 0 (ip_packet mac (own_mac s iface) src dest ?msg)) (length ?msg) 86 ?s"
    using assms(6) len
    by (simp add: sendNAD_def getbuf_ipv6_def Let_def len_defs size_defs msg_of_def)
  also have "\<dots> = Inr (freebuf_ipv6 (?s\<lparr>sent := sent s @ [othernet_fix (nd_frame s NEIGHBA 96 src mac dest target iface)]\<rparr>))"
    using assms len hl by (subst checksum_and_send_eq [where mac = mac and smac = "own_mac s iface" and src = src
      and dest = dest and msg = ?msg]) (simp_all add: nd_frame_def len_defs)
  finally show ?thesis using assms(6) by (simp add: freebuf_ipv6_def)
qed

definition echo_message :: "byte \<Rightarrow> u16 \<Rightarrow> u16 \<Rightarrow> byte list" where
  "echo_message type identifier seq = [type, 0, 0, 0] @ be16 identifier @ be16 seq"

lemma sendEchoResp_eq:
  assumes "macs_ok s" "length mac = ETH_ADDR_LEN" "length src = IPV6_ASIZE" "length dest = IPV6_ASIZE"
    and "0 < ipv6_free s"
  shows "sendEchoResp src mac dest i q s = Inr (s\<lparr>sent := sent s @
    [othernet_fix (ip_packet mac (own_mac s (ifprime8 s)) src dest (with_cksum src dest (echo_message ECHORESP i q)))]\<rparr>)"
proof -
  let ?s = "s\<lparr>ipv6_free := ipv6_free s - 1\<rparr>"
  let ?msg = "echo_message ECHORESP i q" and ?own = "own_mac s (ifprime8 s)"
  let ?h = "mac @ ?own @ be16 ETH_IPv6 @ ip_header src dest 8 IPV6_ICMP"
  have hl: "length mac = 6" "length ?own = 6" "length (ip_header src dest 8 IPV6_ICMP) = 40"
    using assms(2-4) length_own_mac [OF assms(1)] by (simp_all add: len_defs ip_header_def)
  have len: "length ?msg = 8" by (simp add: echo_message_def)
  let ?m = "fillIPdatagram (fillEthernet ?s zero_block 0 mac (ifprime8 s)) 0 src dest 8 IPV6_ICMP"
  have m: "?m = wr_bytes zero_block 0 ?h" using assms by (subst fill_headers) simp_all
  have "wr16 (wr16 (wr16 (?m(54 := ECHORESP, 55 := 0)) 56 0) 58 (htons i)) 60 (htons q) =
      wr_bytes zero_block 0 (ip_packet mac ?own src dest ?msg)"
    using hl unfolding m
    by (simp add: fun_upd_wr_bytes wr16_0 wr16_def wr_bytes_ge ip_packet_def echo_message_def)
  then have "sendEchoResp src mac dest i q s = checksum_and_send
      (wr_bytes zero_block 0 (ip_packet mac ?own src dest ?msg)) (length ?msg) 62 ?s"
    using assms(5) len
    by (simp add: sendEchoResp_def getbuf_ipv6_def Let_def len_defs size_defs msg_of_def)
  also have "\<dots> = Inr (freebuf_ipv6 (?s\<lparr>sent := sent s @
      [othernet_fix (ip_packet mac ?own src dest (with_cksum src dest ?msg))]\<rparr>))"
    using assms len hl by (subst checksum_and_send_eq [where mac = mac and smac = ?own and src = src
      and dest = dest and msg = ?msg]) (simp_all add: len_defs)
  finally show ?thesis using assms(5) by (simp add: freebuf_ipv6_def)
qed

section \<open>The receiver's test of a packet built here\<close>

lemma icmp_sum_with_cksum:
  assumes "length src = IPV6_ASIZE" "length dest = IPV6_ASIZE" "4 \<le> length msg" "take 2 (drop 2 msg) = [0, 0]"
  shows "icmp_sum src dest (with_cksum src dest msg) =
    icmp_sum src dest msg + unat (cksum_fold (word_of_nat (icmp_sum src dest msg)))"
proof -
  let ?c = "cksum_fold (word_of_nat (icmp_sum src dest msg))"
  let ?p = "pseudo_header src dest (word_of_nat (length msg))"
  have split: "msg = take 2 msg @ [0, 0] @ drop 4 msg"
    by (metis assms(4) append_take_drop_id drop_drop numeral_Bit0)
  have ev: "even (length ?p)" using assms(1,2) by (simp add: PSEUDOLEN_def)
  have t2: "length (take 2 msg) = 2" using assms(3) by simp
  have S: "be_sum (?p @ take 2 msg @ x @ drop 4 msg) =
      be_sum ?p + be_sum (take 2 msg) + be_sum x + be_sum (drop 4 msg)" if "length x = 2" for x
    using ev t2 that by (simp add: be_sum_append)
  have "icmp_sum src dest msg = be_sum (?p @ take 2 msg @ [0, 0] @ drop 4 msg)"
    unfolding icmp_sum_def using split by presburger
  then have "icmp_sum src dest msg = be_sum ?p + be_sum (take 2 msg) + be_sum (drop 4 msg)"
    using S [of "[0, 0]"] by simp
  moreover have "icmp_sum src dest (with_cksum src dest msg) =
      be_sum ?p + be_sum (take 2 msg) + unat ?c + be_sum (drop 4 msg)"
    using S [of "be16 ?c"] assms(3) by (simp add: icmp_sum_def with_cksum_def be_sum_be16)
  ultimately show ?thesis by simp
qed

lemma folds_own:
  assumes "S < 4294967296"
  shows "folds_to_zero (S + unat (cksum_fold (word_of_nat S))) \<longleftrightarrow> 65536 \<le> S mod 65536 + S div 65536"
proof -
  define q where "q = S div 65536"
  define r where "r = S mod 65536"
  have S: "S = 65536 * q + r" and b: "q < 65536" "r < 65536"
    using assms by (simp_all add: q_def r_def)
  have c: "unat (cksum_fold (word_of_nat S)) = 65535 - (r + q) mod 65536"
    unfolding cksum_fold_eq [OF assms] unat_NOT16 by (simp only: unat_of_nat q_def r_def) simp
  have D: "(65536 * a + b) div 65536 = a" if "b < 65536" for a b :: nat using that by simp
  show ?thesis
  proof (cases "r + q < 65536")
    case True
    then have n: "S + unat (cksum_fold (word_of_nat S)) = 65536 * q + (65535 - q)"
      using c S b by simp
    moreover have "(65536 * q + (65535 - q)) div 65536 = q" using b by (intro D) simp
    ultimately have "folds_to_zero (S + unat (cksum_fold (word_of_nat S))) \<longleftrightarrow>
        (65536 * q + (65535 - q) + q) mod 65536 = 0" by (simp only: folds_to_zero_def)
    also have "65536 * q + (65535 - q) + q = 65535 + 65536 * q" using b by simp
    also have "(65535 + 65536 * q) mod 65536 = 65535" by (simp only: mod_mult_self2) simp
    finally show ?thesis using True by (simp add: q_def r_def)
  next
    case False
    then have "(r + q) mod 65536 = r + q - 65536"
      using b by (subst le_mod_geq) simp_all
    then have n: "S + unat (cksum_fold (word_of_nat S)) = 65536 * (q + 1) + (65535 - q)"
      using c S b False by simp
    moreover have "(65536 * (q + 1) + (65535 - q)) div 65536 = q + 1" using b by (intro D) simp
    ultimately have "folds_to_zero (S + unat (cksum_fold (word_of_nat S))) \<longleftrightarrow>
        (65536 * (q + 1) + (65535 - q) + (q + 1)) mod 65536 = 0" by (simp only: folds_to_zero_def)
    also have "65536 * (q + 1) + (65535 - q) + (q + 1) = 65536 * (q + 2)" using b by simp
    also have "(65536 * (q + 2)) mod 65536 = 0" by simp
    finally show ?thesis using False by (simp add: q_def r_def)
  qed
qed

lemma drop_othernet_fix [simp]: "7 \<le> n \<Longrightarrow> drop n (othernet_fix bs) = drop n bs"
  by (simp add: othernet_fix_def)

lemma take_othernet_fix [simp]: "n \<le> 6 \<Longrightarrow> take n (othernet_fix bs) = take n bs"
  by (simp add: othernet_fix_def)

lemma length_othernet_fix [simp]: "length (othernet_fix bs) = length bs"
  by (simp add: othernet_fix_def)

text \<open>The fields of an IPv6 packet found in memory.\<close>

lemma ip_packet_in_memory:
  assumes "bytes m ip (40 + length msg) = ip_header src dest (word_of_nat (length msg)) IPV6_ICMP @ msg"
    and "length src = IPV6_ASIZE" "length dest = IPV6_ASIZE" "length msg < 65536"
  shows "ip_hop_limit m ip = 255" "ip_next_header m ip = IPV6_ICMP"
    and "ip_src m ip = src" "ip_dest m ip = dest"
    and "ntohs (ip_payload_len m ip) = word_of_nat (length msg)"
    and "bytes m (ip + IPV6_HDR_LEN) (length msg) = msg"
    and "i < length msg \<Longrightarrow> m (ip + 40 + i) = msg ! i"
proof -
  let ?bs = "ip_header src dest (word_of_nat (length msg)) IPV6_ICMP @ msg"
  have m: "m = wr_bytes m ip ?bs" using wr_bytes_id [of m ip "40 + length msg"] assms(1) by simp
  have hl: "length (ip_header src dest (word_of_nat (length msg)) IPV6_ICMP) = 40"
    "length src = 16" "length dest = 16"
    using assms(2,3) by (simp_all add: len_defs)
  have *: "ip_hop_limit (wr_bytes m ip ?bs) ip = 255" "ip_next_header (wr_bytes m ip ?bs) ip = IPV6_ICMP"
    "ip_src (wr_bytes m ip ?bs) ip = src" "ip_dest (wr_bytes m ip ?bs) ip = dest"
    "bytes (wr_bytes m ip ?bs) (ip + 40) (length msg) = msg"
    using hl by (simp_all add: layout_defs mem_simps) (simp_all add: ip_header_def be16_def)
  have "rd16 (wr_bytes m ip ?bs) (ip + 4) = htons (word_of_nat (length msg))"
  proof -
    have "wr_bytes m ip ?bs = wr_bytes m ip ([0x60, 0, 0, 0] @ le16 (htons (word_of_nat (length msg))) @
        [IPV6_ICMP, 255] @ src @ dest @ msg)" by (simp add: ip_header_def)
    also have "\<dots> = wr_bytes (wr16 (wr_bytes m ip [0x60, 0, 0, 0]) (ip + 4)
        (htons (word_of_nat (length msg)))) (ip + 6) ([IPV6_ICMP, 255] @ src @ dest @ msg)"
      by (simp add: wr16_def wr_bytes_join)
    finally show ?thesis by (simp only: rd16_wr_bytes_out rd16_wr16 numeral_eq_Suc) (simp add: rd16_wr_bytes_out rd16_wr16)
  qed
  then have "ntohs (ip_payload_len (wr_bytes m ip ?bs) ip) = word_of_nat (length msg)"
    by (simp add: ip_payload_len_def)
  then show "ntohs (ip_payload_len m ip) = word_of_nat (length msg)" using m by argo
  show "ip_hop_limit m ip = 255" "ip_next_header m ip = IPV6_ICMP" "ip_src m ip = src" "ip_dest m ip = dest"
    "bytes m (ip + IPV6_HDR_LEN) (length msg) = msg"
    using * m by (simp_all add: IPV6_HDR_LEN_def)
  then show "i < length msg \<Longrightarrow> m (ip + 40 + i) = msg ! i"
    by (metis IPV6_HDR_LEN_def nth_bytes)
qed

text \<open>A neighbour message is accepted by the receiver's checksum test exactly when the sender's
  sum had no second carry.\<close>

lemma nd_frame_accepted:
  assumes "length src = IPV6_ASIZE" "length dest = IPV6_ASIZE" "length target = IPV6_ASIZE"
    and "length mac = ETH_ADDR_LEN" and "msg = nd_message type flags target mac"
    and "bytes m ip 72 = ip_header src dest 32 IPV6_ICMP @ with_cksum src dest msg"
  shows "nd_checksum_accepts r m ip =
      Inr (icmp_sum src dest msg mod 65536 + icmp_sum src dest msg div 65536 < 65536)"
    and "ip_hop_limit m ip = 255" "ip_src m ip = src" "ip_dest m ip = dest"
    and "ntohs (ip_payload_len m ip) = 32" "m (ip + 40) = type" "m (ip + 41) = 0" "m (ip + 64) = 1" "m (ip + 65) = 1"
    and "bytes m (ip + 48) 16 = target" "bytes m (ip + 66) 6 = mac"
proof -
  let ?w = "with_cksum src dest msg"
  have len: "length msg = 32" unfolding assms(5) by (rule length_nd_message [OF assms(3,4)])
  then have wlen: "length ?w = 32" by simp
  have w: "bytes m ip (40 + length ?w) = ip_header src dest (word_of_nat (length ?w)) IPV6_ICMP @ ?w"
    using assms(6) by (simp add: wlen)
  note f = ip_packet_in_memory [OF w assms(1,2), unfolded wlen]
  have pl: "ntohs (ip_payload_len m ip) = 32" using f(5) by simp
  then have un: "unat (ntohs (ip_payload_len m ip)) = 32" by simp
  have S: "icmp_sum src dest msg < 4294967296"
    using icmp_sum_bound [OF assms(1,2)] len by simp
  have "take 2 (drop 2 msg) = [0, 0]" by (simp add: assms(5) nd_message_def)
  with assms(1,2) len f(3,4,6) have "pkt_sum m ip =
      icmp_sum src dest msg + unat (cksum_fold (word_of_nat (icmp_sum src dest msg)))"
    by (simp add: pkt_sum_def un icmp_sum_with_cksum)
  then show "nd_checksum_accepts r m ip =
      Inr (icmp_sum src dest msg mod 65536 + icmp_sum src dest msg div 65536 < 65536)"
    using nd_checksum_accepts_eq [of m ip r] folds_own [OF S] by (simp add: un not_le)
  show "ip_hop_limit m ip = 255" "ip_src m ip = src" "ip_dest m ip = dest"
    "ntohs (ip_payload_len m ip) = 32" using f(1,3,4) pl by simp_all
  have B: "bytes m (ip + 40) 32 = ?w" using f(6) by (simp add: IPV6_HDR_LEN_def)
  have wl: "?w = [type, 0] @ be16 (cksum_fold (word_of_nat (icmp_sum src dest msg))) @
      [flags, 0, 0, 0] @ target @ [1, 1] @ mac"
    by (simp add: with_cksum_def assms(5) nd_message_def option_one_def)
  have t16: "length target = 16" "length mac = 6" using assms(3,4) by (simp_all add: len_defs)
  have at: "m (ip + 40 + i) = ?w ! i" if "i < 32" for i using B that by (metis nth_bytes)
  show "m (ip + 40) = type" "m (ip + 41) = 0"
    using at [of 0] at [of 1] by (simp_all add: wl add.commute [of ip])
  show "m (ip + 64) = 1" "m (ip + 65) = 1"
    using at [of 24] at [of 25] t16
    by (simp_all add: wl nth_append be16_def nth_Cons' add.commute [of ip])
  have "bytes m (ip + 48) 16 = take 16 (drop 8 ?w)" "bytes m (ip + 66) 6 = take 6 (drop 26 ?w)"
    by (simp_all add: B [symmetric] drop_bytes take_bytes add.commute [of ip])
  then show "bytes m (ip + 48) 16 = target" "bytes m (ip + 66) 6 = mac"
    using t16 by (simp_all add: wl be16_def)
qed

lemma drop_ip_packet:
  assumes "length mac = ETH_ADDR_LEN" "length smac = ETH_ADDR_LEN"
  shows "drop 14 (ip_packet mac smac src dest msg) =
    ip_header src dest (word_of_nat (length msg)) IPV6_ICMP @ msg"
  using assms by (simp add: ip_packet_def len_defs)

lemma nd_frame_packet:
  assumes "macs_ok s" "length mac = ETH_ADDR_LEN" "length target = IPV6_ASIZE"
  shows "drop 14 (othernet_fix (nd_frame s type flags src mac dest target iface)) =
    ip_header src dest 32 IPV6_ICMP @ with_cksum src dest (nd_message type flags target (own_mac s (ifprime8 s)))"
  using assms length_own_mac [OF assms(1)] length_nd_message [of target "own_mac s (ifprime8 s)"]
  by (simp add: nd_frame_def drop_ip_packet)

section \<open>Properties\<close>



end
