(* ===== verification/Reassembly.thy ===== *)
theory Reassembly
  imports Sendto
begin

text \<open>
  Reassembly of fragments (\<^verbatim>\<open>net/reassembly.c\<close>, the time-out part of \<^verbatim>\<open>net/ipv6.c\<close>). The
  fragments of a datagram are a doubly linked ring of heap nodes around a dummy node (the one
  without payload); the nodes live in an explicit heap, pointers are addresses, \<open>None\<close> is NULL.
  The abstract view is the list of the fragments in ring order.
\<close>

section \<open>Data\<close>

record frag_desc =
  fd_offset :: u16
  fd_payload :: "byte list option"
  fd_payload_len :: u16
  fd_prev :: "nat option"
  fd_next :: "nat option"

record rea_entry =
  re_src :: "byte list"
  re_dest :: "byte list"
  re_identif :: u32
  re_headers :: "byte list"
  re_headers_len :: u16
  re_list :: "nat option"
  re_next_header :: byte
  re_timestamp :: u32

text \<open>\<open>heap\<close> maps the allocated nodes; \<open>fresh\<close> is the next address \<^verbatim>\<open>getmem\<close> returns.\<close>

record rea =
  heap :: "nat \<Rightarrow> frag_desc option"
  fresh :: nat
  rea_table :: "rea_entry list"
  rea_size :: byte

definition REASSEMBLY_TABLE_MAX_SIZE :: nat where "REASSEMBLY_TABLE_MAX_SIZE = 16"
definition REASSEMBLY_MAX_TIME :: u32 where "REASSEMBLY_MAX_TIME = 15"
definition PAYLOAD_SIZE :: nat where "PAYLOAD_SIZE = 65536"

abbreviation fd :: "(nat \<Rightarrow> frag_desc option) \<Rightarrow> nat \<Rightarrow> frag_desc" where
  "fd h p \<equiv> the (h p)"

definition set_prev :: "nat \<Rightarrow> nat option \<Rightarrow> (nat \<Rightarrow> frag_desc option) \<Rightarrow> (nat \<Rightarrow> frag_desc option)" where
  "set_prev p q h = h(p := Some ((fd h p)\<lparr>fd_prev := q\<rparr>))"

definition set_next :: "nat \<Rightarrow> nat option \<Rightarrow> (nat \<Rightarrow> frag_desc option) \<Rightarrow> (nat \<Rightarrow> frag_desc option)" where
  "set_next p q h = h(p := Some ((fd h p)\<lparr>fd_next := q\<rparr>))"

section \<open>The list of fragments\<close>

text \<open>
  The backward search of \<^verbatim>\<open>insert_node\<close>, started with 3 steps to go: the node after which the new
  one is inserted. Finding the place, an overlap and running out of steps all end at the
  current \<^verbatim>\<open>tail\<close>.
\<close>

primrec insert_scan :: "nat \<Rightarrow> (nat \<Rightarrow> frag_desc option) \<Rightarrow> u16 \<Rightarrow> nat option \<Rightarrow> nat option" where
  "insert_scan 0 h off tail = tail"
| "insert_scan (Suc k) h off tail =
     (case tail of
        None \<Rightarrow> None
      | Some t \<Rightarrow>
          if fd_payload (fd h t) = None then tail
          else if uint (fd_offset (fd h t)) + uint (fd_payload_len (fd h t)) \<le> uint off then tail
          else if off < fd_offset (fd h t) then insert_scan k h off (fd_prev (fd h t))
          else tail)"

definition insert_node :: "nat \<Rightarrow> nat \<Rightarrow> (nat \<Rightarrow> frag_desc option) \<Rightarrow> (nat \<Rightarrow> frag_desc option) res" where
  "insert_node frag_list new_node h =
     (case insert_scan 3 h (fd_offset (fd h new_node)) (fd_prev (fd h frag_list)) of
        None \<Rightarrow>
          (let h = set_prev new_node (Some frag_list) h;
               h = set_next new_node (Some frag_list) h;
               h = set_prev frag_list (Some new_node) h
           in Inr (set_next frag_list (Some new_node) h))
      | Some tail \<Rightarrow>
          (let h = set_prev new_node (Some tail) h;
               h = set_next new_node (fd_next (fd h tail)) h
           in case fd_next (fd h tail) of
                None \<Rightarrow> Inl Null_deref
              | Some n \<Rightarrow> Inr (set_next tail (Some new_node) (set_prev n (Some new_node) h))))"

definition initialize_frag_list :: "rea \<Rightarrow> nat \<times> rea" where
  "initialize_frag_list r =
     (fresh r, r\<lparr>heap := (heap r)(fresh r := Some \<lparr>fd_offset = 0, fd_payload = None, fd_payload_len = 0,
                   fd_prev = None, fd_next = None\<rparr>), fresh := fresh r + 1\<rparr>)"

definition frag_offset_of :: "mem \<Rightarrow> nat \<Rightarrow> u16" where
  "frag_offset_of m ip = ntohs (rd16 m (ip + 42)) AND 0xFFFE"

definition insert_frag_list :: "nat \<Rightarrow> mem \<Rightarrow> nat \<Rightarrow> rea \<Rightarrow> rea res" where
  "insert_frag_list frag_list m ip r =
     (let offset = frag_offset_of m ip;
          payload_len = ntohs (ip_payload_len m ip) - word_of_nat FRAG_HDR_LEN;
          node = \<lparr>fd_offset = offset, fd_payload = Some (bytes m (ip + 48) (unat payload_len)),
                  fd_payload_len = payload_len, fd_prev = None, fd_next = None\<rparr>;
          p = fresh r
      in bind_res (insert_node frag_list p ((heap r)(p := Some node)))
           (\<lambda>h. Inr (r\<lparr>heap := h, fresh := p + 1\<rparr>)))"

section \<open>The table\<close>

definition byteComp :: "byte list \<Rightarrow> byte list \<Rightarrow> nat \<Rightarrow> bool" where
  "byteComp first second len = (match first second len \<noteq> 0)"

definition rea_hit :: "rea \<Rightarrow> byte list \<times> byte list \<times> u32 \<Rightarrow> nat \<Rightarrow> bool" where
  "rea_hit r k i =
     (let e = rea_table r ! i in
      re_list e \<noteq> None \<and> byteComp (fst k) (re_src e) IPV6_ASIZE \<and>
      byteComp (fst (snd k)) (re_dest e) IPV6_ASIZE \<and> snd (snd k) = re_identif e)"

definition checkReassemblyTable :: "rea \<Rightarrow> byte list \<times> byte list \<times> u32 \<Rightarrow> nat option" where
  "checkReassemblyTable r k = find (rea_hit r k) [0..<unat (rea_size r)]"

definition find_hole :: "rea \<Rightarrow> nat option" where
  "find_hole r = find (\<lambda>i. re_list (rea_table r ! i) = None \<and> re_timestamp (rea_table r ! i) = 0)
     [0..<REASSEMBLY_TABLE_MAX_SIZE]"

definition frag_identif :: "mem \<Rightarrow> nat \<Rightarrow> u32" where
  "frag_identif m ip = ntohl (rd32 m (ip + 44))"

definition appendReaTable :: "u32 \<Rightarrow> mem \<Rightarrow> nat \<Rightarrow> rea \<Rightarrow> rea res" where
  "appendReaTable now m ip r =
     (case find_hole r of
        None \<Rightarrow> Inr r
      | Some i \<Rightarrow>
          (case initialize_frag_list r of (frag_list, r) \<Rightarrow>
             bind_res (insert_frag_list frag_list m ip r) (\<lambda>r.
               let e = \<lparr>re_src = ip_src m ip, re_dest = ip_dest m ip, re_identif = frag_identif m ip,
                        re_headers = bytes m ip IPV6_HDR_LEN @ drop IPV6_HDR_LEN (re_headers (rea_table r ! i)),
                        re_headers_len = word_of_nat IPV6_HDR_LEN, re_list = Some frag_list,
                        re_next_header = m (ip + 40), re_timestamp = now\<rparr>
               in Inr (r\<lparr>rea_table := (rea_table r)[i := e], rea_size := rea_size r + 1\<rparr>))))"

text \<open>\<^verbatim>\<open>removeReaEntry\<close> frees the nodes from the one after the dummy to the dummy itself.\<close>

partial_function (option) free_nodes :: "nat option \<Rightarrow> (nat \<Rightarrow> frag_desc option) \<Rightarrow> (nat \<Rightarrow> frag_desc option) option" where
  "free_nodes node h =
     (case node of
        None \<Rightarrow> Some h
      | Some p \<Rightarrow>
          if fd_payload (fd h p) \<noteq> None
          then free_nodes (fd_next (fd h p)) (h(p := None))
          else Some (h(p := None)))"

definition removeReaEntry :: "nat \<Rightarrow> rea \<Rightarrow> rea res" where
  "removeReaEntry i r =
     bind_res (case re_list (rea_table r ! i) of
                 None \<Rightarrow> Inr (heap r)
               | Some l \<Rightarrow> opt_res Diverges (free_nodes (fd_next (fd (heap r) l)) (heap r)))
       (\<lambda>h. Inr (r\<lparr>heap := h,
                   rea_table := (rea_table r)[i := (rea_table r ! i)\<lparr>re_list := None, re_timestamp := 0\<rparr>],
                   rea_size := rea_size r - 1\<rparr>))"

function check_time_out_loop :: "u32 \<Rightarrow> nat \<Rightarrow> rea \<Rightarrow> rea res" where
  "check_time_out_loop now i r =
     (if i < REASSEMBLY_TABLE_MAX_SIZE
      then
        (let e = rea_table r ! i in
         if re_list e \<noteq> None \<and> re_timestamp e \<noteq> 0 \<and> now - re_timestamp e \<ge> REASSEMBLY_MAX_TIME
         then (case removeReaEntry i r of
                 Inl f \<Rightarrow> Inl f
               | Inr r \<Rightarrow> check_time_out_loop now (Suc i) r)
         else check_time_out_loop now (Suc i) r)
      else Inr r)"
  by pat_completeness auto
termination
  by (relation "measure (\<lambda>(c, i, r). REASSEMBLY_TABLE_MAX_SIZE - i)") auto

declare check_time_out_loop.simps [simp del]

definition check_reassembly_time_out :: "u32 \<Rightarrow> rea \<Rightarrow> rea res" where
  "check_reassembly_time_out now r = check_time_out_loop now 0 r"

section \<open>Building the datagram\<close>

text \<open>The copy loop; the block for the payload has 65536 bytes.\<close>

partial_function (option) copy_loop ::
    "(nat \<Rightarrow> frag_desc option) \<Rightarrow> nat option \<Rightarrow> u16 \<Rightarrow> mem \<Rightarrow> (bool \<times> u16 \<times> mem) res option" where
  "copy_loop h temp plen m =
     (case temp of
        None \<Rightarrow> Some (Inr (True, plen, m))
      | Some t \<Rightarrow>
          (case fd_payload (fd h t) of
             None \<Rightarrow> Some (Inr (True, plen, m))
           | Some bs \<Rightarrow>
               if plen \<noteq> fd_offset (fd h t) then Some (Inr (False, plen, m))
               else if PAYLOAD_SIZE < unat plen + length bs then Some (Inl Out_of_bounds)
               else copy_loop h (fd_next (fd h t)) (plen + fd_payload_len (fd h t)) (wr_bytes m (unat plen) bs)))"

definition updateDatagramHeaders :: "byte list \<Rightarrow> u16 \<Rightarrow> byte \<Rightarrow> byte list" where
  "updateDatagramHeaders headers payload_len next_header =
     (let headers = take 4 headers @ be16 payload_len @ drop 6 headers
      in if headers ! 6 = NEXT_HEADER_FRAGMENT then headers[6 := next_header] else headers)"

definition copy_to_datagram :: "mem \<Rightarrow> rea_entry \<Rightarrow> rea \<Rightarrow> Datagram option res" where
  "copy_to_datagram junk e r =
     (case re_list e of
        None \<Rightarrow> Inl Null_deref
      | Some l \<Rightarrow>
          bind_res (bind_res (opt_res Diverges (copy_loop (heap r) (fd_next (fd (heap r) l)) 0 junk)) (\<lambda>x. x))
            (\<lambda>(ok, plen, m).
               if \<not> ok then Inr None
               else Inr (Some \<lparr>d_headers_len = re_headers_len e, d_payload_len = plen,
                  d_headers = updateDatagramHeaders (take (unat (re_headers_len e)) (re_headers e)) plen (re_next_header e),
                  d_payload = m\<rparr>)))"

definition isLastFragment :: "mem \<Rightarrow> nat \<Rightarrow> bool" where
  "isLastFragment m ip = (ntohs (rd16 m (ip + 42)) AND 1 = 0)"

text \<open>
  \<^verbatim>\<open>reassembly\<close> up to the call of \<^verbatim>\<open>processDatagram\<close>: the new table and the datagram it is
  called with, if it is.
\<close>

definition reassembly :: "u32 \<Rightarrow> mem \<Rightarrow> mem \<Rightarrow> nat \<Rightarrow> rea \<Rightarrow> (Datagram option \<times> rea) res" where
  "reassembly now junk m pkt r =
     (let ip = ip_of pkt in
      case checkReassemblyTable r (ip_src m ip, ip_dest m ip, frag_identif m ip) of
        None \<Rightarrow>
          if frag_offset_of m ip \<noteq> 0 then Inr (None, r)
          else bind_res (appendReaTable now m ip r) (\<lambda>r. Inr (None, r))
      | Some i \<Rightarrow>
          (case re_list (rea_table r ! i) of
             None \<Rightarrow> Inl Null_deref
           | Some l \<Rightarrow>
               bind_res (insert_frag_list l m ip r) (\<lambda>r.
                 if isLastFragment m ip
                 then bind_res (copy_to_datagram junk (rea_table r ! i) r) (\<lambda>d.
                        case d of
                          None \<Rightarrow> Inr (None, r)
                        | Some d \<Rightarrow> bind_res (removeReaEntry i r) (\<lambda>r. Inr (Some d, r)))
                 else Inr (None, r))))"

section \<open>Using the datagram\<close>

definition switchAddr :: "byte list \<Rightarrow> byte list" where
  "switchAddr h = take 8 h @ take IPV6_ASIZE (drop 24 h) @ take IPV6_ASIZE (drop 8 h) @ drop 40 h"

text \<open>
  An echo request is answered. The old checksum is left in place while the new one is computed.
\<close>

definition processDatagram :: "(net \<Rightarrow> net) \<Rightarrow> 64 word \<Rightarrow> Datagram \<Rightarrow> net \<Rightarrow> net res" where
  "processDatagram others ticks d s =
     (if d_headers d ! 6 = IPV6_ICMP \<and> d_payload d 0 = ECHOREQ
      then
        (let m = (d_payload d)(0 := ECHORESP);
             h = switchAddr (d_headers d);
             src = take IPV6_ASIZE (drop 8 h); dest = take IPV6_ASIZE (drop 24 h)
         in bind_res (store_checksum s src dest m 0 (ucast (d_payload_len d))) (\<lambda>m.
            bind_res (sendto others ticks dest IPV6_ICMP m 0 (d_payload_len d) False s) (\<lambda>(r, s). Inr s)))
      else Inr s)"

text \<open>The reassembly state at start-up.\<close>

definition rea_boot :: rea where
  "rea_boot = \<lparr>heap = (\<lambda>_. None), fresh = 1,
     rea_table = replicate REASSEMBLY_TABLE_MAX_SIZE \<lparr>re_src = replicate 16 0, re_dest = replicate 16 0, re_identif = 0,
       re_headers = replicate 40 0, re_headers_len = 0, re_list = None, re_next_header = 0, re_timestamp = 0\<rparr>,
     rea_size = 0\<rparr>"

end
