(* ===== verification/Frag_Ring.thy ===== *)
theory Frag_Ring
  imports Reassembly
begin

text \<open>
  The fragment ring of \<^verbatim>\<open>net/reassembly.c\<close> refines a list. \<open>ring\<close> says that a dummy node and the
  nodes \<open>ps\<close> form a doubly linked ring in the heap; \<open>frag_list\<close> relates the ring to the list of
  fragments it stores. \<open>insert_node\<close>, the copy loop and the freeing loop are shown to be operations
  on that list.
\<close>

section \<open>Rings\<close>

type_synonym fheap = "nat \<Rightarrow> frag_desc option"
type_synonym frag = "u16 \<times> byte list"

fun links :: "fheap \<Rightarrow> nat list \<Rightarrow> bool" where
  "links h (a # b # xs) \<longleftrightarrow> fd_next (fd h a) = Some b \<and> fd_prev (fd h b) = Some a \<and> links h (b # xs)"
| "links h xs \<longleftrightarrow> True"

lemma links_append: "links h (xs @ a # ys) \<longleftrightarrow> links h (xs @ [a]) \<and> links h (a # ys)"
  by (induction h xs rule: links.induct) auto

lemma links_cong:
  assumes "\<forall>a \<in> set (butlast xs). fd_next (fd h' a) = fd_next (fd h a)"
    and "\<forall>b \<in> set (tl xs). fd_prev (fd h' b) = fd_prev (fd h b)"
  shows "links h' xs = links h xs"
  using assms by (induction h xs rule: links.induct) auto

definition ring :: "fheap \<Rightarrow> nat \<Rightarrow> nat list \<Rightarrow> bool" where
  "ring h d ps \<longleftrightarrow> distinct (d # ps) \<and> (\<forall>p \<in> set (d # ps). h p \<noteq> None) \<and>
     fd_payload (fd h d) = None \<and> (\<forall>p \<in> set ps. fd_payload (fd h p) \<noteq> None) \<and>
     (if ps = [] then fd_prev (fd h d) = None \<and> fd_next (fd h d) = None else links h (d # ps @ [d]))"

lemma set_prev_sel [simp]:
  "fd_prev (fd (set_prev p q h) x) = (if x = p then q else fd_prev (fd h x))"
  "fd_next (fd (set_prev p q h) x) = fd_next (fd h x)"
  "fd_payload (fd (set_prev p q h) x) = fd_payload (fd h x)"
  "fd_offset (fd (set_prev p q h) x) = fd_offset (fd h x)"
  "fd_payload_len (fd (set_prev p q h) x) = fd_payload_len (fd h x)"
  by (simp_all add: set_prev_def)

lemma set_next_sel [simp]:
  "fd_next (fd (set_next p q h) x) = (if x = p then q else fd_next (fd h x))"
  "fd_prev (fd (set_next p q h) x) = fd_prev (fd h x)"
  "fd_payload (fd (set_next p q h) x) = fd_payload (fd h x)"
  "fd_offset (fd (set_next p q h) x) = fd_offset (fd h x)"
  "fd_payload_len (fd (set_next p q h) x) = fd_payload_len (fd h x)"
  by (simp_all add: set_next_def)

lemma set_alloc [simp]:
  "set_prev p q h x = None \<longleftrightarrow> x \<noteq> p \<and> h x = None"
  "set_next p q h x = None \<longleftrightarrow> x \<noteq> p \<and> h x = None"
  by (simp_all add: set_prev_def set_next_def)

lemma set_other [simp]:
  "x \<noteq> p \<Longrightarrow> set_prev p q h x = h x"
  "x \<noteq> p \<Longrightarrow> set_next p q h x = h x"
  by (simp_all add: set_prev_def set_next_def)

text \<open>The ring's links around a node \<open>t\<close>.\<close>

lemma ring_next:
  assumes "ring h d ps" "ps \<noteq> []" "d # ps = A @ t # B"
  shows "fd_next (fd h t) = Some (hd (B @ [d]))" "fd_prev (fd h (hd (B @ [d]))) = Some t"
proof -
  have "d # ps @ [d] = (A @ t # B) @ [d]" using assms(3) by (metis append_Cons)
  moreover have "links h (d # ps @ [d])" using assms(1,2) by (simp add: ring_def)
  ultimately have "links h ((A @ t # B) @ [d])" by metis
  then have "links h (t # B @ [d])" using links_append [of h A t "B @ [d]"] by simp
  then show "fd_next (fd h t) = Some (hd (B @ [d]))" "fd_prev (fd h (hd (B @ [d]))) = Some t"
    by (cases B; simp)+
qed

lemma ring_last:
  assumes "ring h d ps"
  shows "fd_prev (fd h d) = (if ps = [] then None else Some (last (d # ps)))"
proof (cases "ps = []")
  case False
  have "d # ps = butlast (d # ps) @ last (d # ps) # []" by simp
  from ring_next(2) [OF assms False this] False show ?thesis by simp
qed (use assms in \<open>simp add: ring_def\<close>)

section \<open>Insertion\<close>

definition link_in :: "nat \<Rightarrow> nat \<Rightarrow> nat \<Rightarrow> fheap \<Rightarrow> fheap" where
  "link_in t q n h = set_next t (Some q) (set_prev n (Some q) (set_next q (Some n) (set_prev q (Some t) h)))"

lemma ring_link_in:
  assumes "ring h d ps" "ps \<noteq> []" "d # ps = A @ t # B" "q \<notin> set (d # ps)" "h q \<noteq> None"
    and "fd_payload (fd h q) \<noteq> None"
  shows "ring (link_in t q (hd (B @ [d])) h) d (tl (A @ t # q # B))"
proof -
  let ?n = "hd (B @ [d])" and ?h = "link_in t q (hd (B @ [d])) h"
  obtain C where C: "B @ [d] = ?n # C" by (metis hd_Cons_tl snoc_eq_iff_butlast)
  have dist: "distinct (A @ t # B)" using assms(1,3) by (simp add: ring_def)
  have S: "insert d (set ps) = set A \<union> {t} \<union> set B" using arg_cong [OF assms(3), of set] by auto
  then have q: "q \<notin> set A" "q \<noteq> t" "q \<notin> set B" "q \<noteq> d" using assms(4) by auto
  have hd: "hd (A @ t # B) = d" using assms(3) by (metis list.sel(1))
  have nq: "?n \<noteq> q" using q C by (metis Un_iff insert_iff list.set_intros(1) list.simps(15) set_append empty_iff list.set(1))
  have "d # ps @ [d] = A @ t # ?n # C" using assms(3) C by (metis append_Cons append_assoc)
  moreover have "links h (d # ps @ [d])" using assms(1,2) by (simp add: ring_def)
  ultimately have L: "links h (A @ t # ?n # C)" by metis
  have n_tl: "?n \<notin> set (tl (A @ [t]))"
  proof (cases B)
    case Nil
    then have "?n = d" by simp
    moreover have "d \<notin> set (tl (A @ [t]))" using dist hd by (cases A) auto
    ultimately show ?thesis by simp
  next
    case (Cons b B')
    then have "?n = b" "b \<notin> set (A @ [t])" using dist by auto
    then show ?thesis by (metis list.set_sel(2) snoc_eq_iff_butlast)
  qed
  have t_bl: "t \<notin> set (butlast (?n # C))"
  proof -
    have "butlast (?n # C) = B" using C by (metis butlast_snoc)
    then show ?thesis using dist by simp
  qed
  have n_C: "?n \<notin> set C"
  proof (cases B)
    case Nil
    then show ?thesis using C by simp
  next
    case (Cons b B')
    then have "?n = b" "C = B' @ [d]" using C by auto
    moreover have "b \<noteq> d" using dist hd Cons by (cases A) auto
    ultimately show ?thesis using dist Cons by auto
  qed
  have sub: "set C \<subseteq> set (B @ [d])" "set (butlast (?n # C)) = set B"
    using C by (metis set_subset_Cons, metis butlast_snoc)
  have "links ?h (A @ [t])"
  proof (subst links_cong)
    show "\<forall>a \<in> set (butlast (A @ [t])). fd_next (fd ?h a) = fd_next (fd h a)"
      using dist q by (auto simp: link_in_def)
    show "\<forall>b \<in> set (tl (A @ [t])). fd_prev (fd ?h b) = fd_prev (fd h b)"
    proof
      fix b assume b: "b \<in> set (tl (A @ [t]))"
      then have "b \<in> set (A @ [t])" by (metis list.set_sel(2) snoc_eq_iff_butlast)
      then have "b \<noteq> q" using q by auto
      moreover have "b \<noteq> ?n" using b n_tl by blast
      ultimately show "fd_prev (fd ?h b) = fd_prev (fd h b)" by (simp add: link_in_def)
    qed
    show "links h (A @ [t])" using L links_append [of h A t "?n # C"] by blast
  qed
  moreover have "links ?h (?n # C)"
  proof (subst links_cong)
    show "\<forall>a \<in> set (butlast (?n # C)). fd_next (fd ?h a) = fd_next (fd h a)"
      using t_bl q sub(2) by (auto simp: link_in_def)
    show "\<forall>b \<in> set (tl (?n # C)). fd_prev (fd ?h b) = fd_prev (fd h b)"
      using n_C sub(1) q by (auto simp: link_in_def)
    have "links h (t # ?n # C)" using L links_append [of h A t "?n # C"] by blast
    then show "links h (?n # C)" by simp
  qed
  moreover have "fd_next (fd ?h t) = Some q" "fd_prev (fd ?h q) = Some t"
    "fd_next (fd ?h q) = Some ?n" "fd_prev (fd ?h ?n) = Some q"
    using q nq by (simp_all add: link_in_def)
  ultimately have links: "links ?h (A @ t # q # ?n # C)"
    using links_append [of ?h A t "q # ?n # C"] by simp
  let ?ps = "tl (A @ t # q # B)"
  have ne: "?ps \<noteq> []" by (cases A) auto
  have eq: "d # ?ps = A @ t # q # B" using hd by (cases A) auto
  have links': "links ?h (d # ?ps @ [d])"
  proof -
    have "d # ?ps @ [d] = A @ t # q # ?n # C" using eq C by (metis append_Cons append_assoc)
    then show ?thesis using links by simp
  qed
  have dist': "distinct (d # ?ps)" unfolding eq using dist q by auto
  have S': "insert d (set ?ps) = insert q (insert d (set ps))"
    using arg_cong [OF eq, of set] S by auto
  then have ps': "set ?ps \<subseteq> insert q (set ps)" using dist' by auto
  have alloc: "\<forall>p \<in> insert d (set ps). h p \<noteq> None" and pd: "fd_payload (fd h d) = None"
    and pp: "\<forall>p \<in> set ps. fd_payload (fd h p) \<noteq> None" using assms(1) by (simp_all add: ring_def)
  have pay: "fd_payload (fd ?h p) = fd_payload (fd h p)" for p by (simp add: link_in_def)
  have "?h p \<noteq> None" if "p \<in> set (d # ?ps)" for p
    using alloc that assms(5) S' by (auto simp: link_in_def)
  moreover have "fd_payload (fd ?h p) \<noteq> None" if "p \<in> set ?ps" for p
    using that ps' pp assms(6) by (auto simp: pay)
  ultimately show ?thesis
    unfolding ring_def using dist' ne links' pd by (simp add: pay)
qed

text \<open>The abstract operation: the search from the end of the list, at most three steps back.\<close>

fun back_steps :: "nat \<Rightarrow> u16 \<Rightarrow> frag list \<Rightarrow> nat" where
  "back_steps (Suc k) off ((o1, bs) # rs) =
     (if unat o1 + length bs \<le> unat off then 0 else if off < o1 then Suc (back_steps k off rs) else 0)"
| "back_steps k off rs = 0"

definition insert_frag :: "frag \<Rightarrow> frag list \<Rightarrow> frag list" where
  "insert_frag f fs = (let n = length fs - back_steps 3 (fst f) (rev fs) in take n fs @ f # drop n fs)"

definition frag_at :: "fheap \<Rightarrow> nat \<Rightarrow> frag" where
  "frag_at h p = (fd_offset (fd h p), the (fd_payload (fd h p)))"

definition len_ok :: "fheap \<Rightarrow> nat \<Rightarrow> bool" where
  "len_ok h p \<longleftrightarrow> unat (fd_payload_len (fd h p)) = length (the (fd_payload (fd h p)))"

lemma back_steps_le: "back_steps k off rs \<le> length rs"
  by (induction k off rs rule: back_steps.induct) auto

lemma ring_cong: "(\<And>p. p \<in> set (d # ps) \<Longrightarrow> h' p = h p) \<Longrightarrow> ring h' d ps = ring h d ps"
proof -
  assume a: "\<And>p. p \<in> set (d # ps) \<Longrightarrow> h' p = h p"
  have "links h' (d # ps @ [d]) = links h (d # ps @ [d])"
    using a by (intro links_cong) (auto dest: in_set_butlastD)
  then show ?thesis using a by (simp add: ring_def)
qed

lemma insert_scan_ring:
  assumes "ring h d ps" "ps = R @ S" "ps \<noteq> []" "\<forall>p \<in> set ps. len_ok h p"
  shows "insert_scan k h off (Some (last (d # R))) =
    Some (last (d # take (length R - back_steps k off (rev (map (frag_at h) R))) R))"
  using assms(2)
proof (induction k arbitrary: R S)
  case (Suc k)
  show ?case
  proof (cases R rule: rev_cases)
    case Nil
    then show ?thesis using assms(1) by (simp add: ring_def)
  next
    case (snoc R' t)
    have t: "t \<in> set ps" using snoc Suc.prems by simp
    have "fd_payload (fd h t) \<noteq> None" using assms(1) t by (simp add: ring_def)
    then obtain bs where bs: "fd_payload (fd h t) = Some bs" by blast
    have len: "uint (fd_offset (fd h t)) + uint (fd_payload_len (fd h t)) \<le> uint off \<longleftrightarrow>
        unat (fd_offset (fd h t)) + length bs \<le> unat off"
    proof -
      have "unat (fd_payload_len (fd h t)) = length bs" using assms(4) t bs by (simp add: len_ok_def)
      then show ?thesis unfolding uint_nat by linarith
    qed
    have "d # ps = butlast (d # R') @ last (d # R') # t # S"
      using Suc.prems snoc by (metis Cons_eq_appendI append.assoc append_butlast_last_id append_Cons append_Nil list.discI)
    from ring_next(2) [OF assms(1,3) this] have prev: "fd_prev (fd h t) = Some (last (d # R'))" by simp
    have "insert_scan k h off (Some (last (d # R'))) =
        Some (last (d # take (length R' - back_steps k off (rev (map (frag_at h) R'))) R'))"
      using Suc.prems snoc by (intro Suc.IH [of R' "t # S"]) simp
    then show ?thesis using snoc bs len prev by (simp add: frag_at_def [of h t])
  qed
qed simp

lemma ring_allocated: "ring h d ps \<Longrightarrow> p \<in> insert d (set ps) \<Longrightarrow> h p \<noteq> None"
  by (auto simp: ring_def)

text \<open>Insertion of a node \<open>q\<close> that is not in the ring.\<close>

lemma insert_node_ring:
  assumes "ring h d ps" "\<forall>p \<in> set ps. len_ok h p" "q \<notin> insert d (set ps)"
    and "h q \<noteq> None" "fd_payload (fd h q) \<noteq> None"
  obtains h' ps' where "insert_node d q h = Inr h'" "ring h' d ps'"
    "map (frag_at h') ps' = insert_frag (frag_at h q) (map (frag_at h) ps)"
    "set ps' = insert q (set ps)" "\<And>p. p \<notin> insert q (insert d (set ps)) \<Longrightarrow> h' p = h p"
    "\<And>p. len_ok h' p = len_ok h p" "\<And>p. h' p = None \<longleftrightarrow> h p = None" "\<And>p. frag_at h' p = frag_at h p"
proof (cases "ps = []")
  case True
  let ?h = "set_next d (Some q) (set_prev d (Some q) (set_next q (Some d) (set_prev q (Some d) h)))"
  have "insert_node d q h = Inr ?h"
    using True ring_last [OF assms(1)] by (simp add: insert_node_def Let_def numeral_3_eq_3)
  moreover have "ring ?h d [q]"
    using assms True by (auto simp: ring_def)
  moreover have "map (frag_at ?h) [q] = insert_frag (frag_at h q) (map (frag_at h) ps)"
    using True by (simp add: insert_frag_def frag_at_def)
  ultimately show thesis
    using True assms by (intro that [of ?h "[q]"]) (auto simp: len_ok_def ring_def frag_at_def)
next
  case False
  define n where "n = length ps - back_steps 3 (fd_offset (fd h q)) (rev (map (frag_at h) ps))"
  define t where "t = last (d # take n ps)"
  have n: "n \<le> length ps" by (simp add: n_def)
  have split: "d # ps = butlast (d # take n ps) @ t # drop n ps"
    by (metis append_Cons append_butlast_last_id append_eq_append_conv2 append_take_drop_id list.discI t_def append.assoc append_Nil)
  have "d # take n ps = butlast (d # take n ps) @ [t]" unfolding t_def by (simp del: butlast.simps last.simps)
  then have tl: "tl (butlast (d # take n ps) @ t # q # drop n ps) = take n ps @ q # drop n ps"
    by (metis append.assoc append_Cons append_Nil list.sel(3))
  let ?m = "hd (drop n ps @ [d])"
  let ?h = "link_in t q ?m h"
  have scan: "insert_scan 3 h (fd_offset (fd h q)) (fd_prev (fd h d)) = Some t"
    using insert_scan_ring [OF assms(1) _ False assms(2), of ps "[]" 3 "fd_offset (fd h q)"]
      ring_last [OF assms(1)] False by (simp add: t_def n_def)
  have nx: "fd_next (fd h t) = Some ?m" by (rule ring_next(1) [OF assms(1) False split])
  have tin: "t \<in> insert d (set ps)" using arg_cong [OF split, of set] by auto
  then have tq: "t \<noteq> q" using assms(3) by auto
  have run: "insert_node d q h = Inr ?h"
    using scan nx tq by (simp add: insert_node_def Let_def link_in_def)
  have rg: "ring ?h d (take n ps @ q # drop n ps)"
    using ring_link_in [OF assms(1) False split _ assms(4,5)] assms(3) unfolding tl by simp
  have same: "frag_at ?h = frag_at h" "len_ok ?h = len_ok h"
    by (simp_all add: fun_eq_iff frag_at_def len_ok_def link_in_def)
  have fr: "map (frag_at h) (take n ps @ q # drop n ps) = insert_frag (frag_at h q) (map (frag_at h) ps)"
    by (simp add: insert_frag_def n_def frag_at_def [of h q] take_map drop_map Let_def)
  have "set (take n ps) \<union> set (drop n ps) = set ps" by (metis append_take_drop_id set_append)
  then have st: "set (take n ps @ q # drop n ps) = insert q (set ps)" by auto
  have "?m \<in> set (drop n ps @ [d])" by (intro hd_in_set) simp
  then have m: "?m \<in> insert d (set ps)" by (auto dest: in_set_dropD)
  show thesis
  proof (rule that [OF run rg _ st])
    show "map (frag_at ?h) (take n ps @ q # drop n ps) = insert_frag (frag_at h q) (map (frag_at h) ps)"
      unfolding same by (rule fr)
    show "?h p = h p" if "p \<notin> insert q (insert d (set ps))" for p
    proof -
      have "p \<noteq> q" "p \<noteq> t" "p \<noteq> ?m" using that tin m by blast+
      then show ?thesis by (simp add: link_in_def)
    qed
    show "len_ok ?h p = len_ok h p" "frag_at ?h p = frag_at h p" for p by (simp_all add: same)
    have "h ?m \<noteq> None" "h t \<noteq> None" using ring_allocated [OF assms(1)] tin m by blast+
    then show "?h p = None \<longleftrightarrow> h p = None" for p
      using assms(4) by (auto simp: link_in_def)
  qed
qed

section \<open>Walking the ring\<close>

text \<open>The copy loop on a list of fragments: contiguous from \<open>plen\<close> on, or not.\<close>

fun copy_frags :: "u16 \<Rightarrow> mem \<Rightarrow> frag list \<Rightarrow> (bool \<times> u16 \<times> mem) res" where
  "copy_frags plen m [] = Inr (True, plen, m)"
| "copy_frags plen m ((off, bs) # fs) =
     (if plen \<noteq> off then Inr (False, plen, m)
      else if PAYLOAD_SIZE < unat plen + length bs then Inl Out_of_bounds
      else copy_frags (plen + word_of_nat (length bs)) (wr_bytes m (unat plen) bs) fs)"

lemma copy_loop_ring:
  assumes "ring h d ps" "ps = R @ S" "\<forall>p \<in> set ps. len_ok h p"
  shows "copy_loop h (Some (hd (S @ [d]))) plen m = Some (copy_frags plen m (map (frag_at h) S))"
  using assms(2)
proof (induction S arbitrary: R plen m)
  case Nil
  then show ?case using assms(1) by (subst copy_loop.simps) (simp add: ring_def)
next
  case (Cons p S)
  have p: "p \<in> set ps" using Cons.prems by simp
  then obtain bs where bs: "fd_payload (fd h p) = Some bs" using assms(1) by (auto simp: ring_def)
  have "unat (fd_payload_len (fd h p)) = length bs" using assms(3) p bs by (simp add: len_ok_def)
  from this [symmetric] have len: "fd_payload_len (fd h p) = word_of_nat (length bs)" by simp
  have ne: "ps \<noteq> []" using p by auto
  have "d # ps = (d # R) @ p # S" using Cons.prems by simp
  from ring_next(1) [OF assms(1) ne this] have nx: "fd_next (fd h p) = Some (hd (S @ [d]))" .
  have "copy_loop h (Some (hd (S @ [d]))) (plen + word_of_nat (length bs)) (wr_bytes m (unat plen) bs) =
      Some (copy_frags (plen + word_of_nat (length bs)) (wr_bytes m (unat plen) bs) (map (frag_at h) S))"
    using Cons.prems by (intro Cons.IH [of "R @ [p]"]) simp
  then show ?case using bs len nx by (subst copy_loop.simps) (auto simp: frag_at_def [of h p])
qed

lemma free_nodes_ring:
  assumes "ring h d (R @ S)" "R @ S \<noteq> []" "h' = (\<lambda>p. if p \<in> set R then None else h p)"
  shows "free_nodes (Some (hd (S @ [d]))) h' = Some (\<lambda>p. if p \<in> set (d # R @ S) then None else h p)"
  using assms
proof (induction S arbitrary: R h')
  case Nil
  have "d \<notin> set R" "fd_payload (fd h d) = None" using Nil.prems(1) by (simp_all add: ring_def)
  then show ?case by (subst free_nodes.simps) (auto simp: Nil.prems(3))
next
  case (Cons p S)
  have p: "p \<notin> set R" "fd_payload (fd h p) \<noteq> None" using Cons.prems(1) by (auto simp: ring_def)
  have "d # R @ p # S = (d # R) @ p # S" by simp
  from ring_next(1) [OF Cons.prems(1,2) this] have nx: "fd_next (fd h p) = Some (hd (S @ [d]))" .
  have "free_nodes (Some (hd (S @ [d]))) (h'(p := None)) =
      Some (\<lambda>x. if x \<in> set (d # (R @ [p]) @ S) then None else h x)"
    using Cons.prems by (intro Cons.IH) (auto simp: fun_eq_iff)
  then show ?case using p nx by (subst free_nodes.simps) (simp add: Cons.prems(3))
qed

section \<open>Reassembly as an operation on lists of fragments\<close>

interpretation rea_find: first_match "\<lambda>r. unat (rea_size r)" rea_hit checkReassemblyTable
  by unfold_locales (auto simp: checkReassemblyTable_def find_upt_Some_iff find_upt_None_iff)

definition pkt_key :: "mem \<Rightarrow> nat \<Rightarrow> byte list \<times> byte list \<times> u32" where
  "pkt_key m ip = (ip_src m ip, ip_dest m ip, frag_identif m ip)"

definition pkt_frag :: "mem \<Rightarrow> nat \<Rightarrow> frag" where
  "pkt_frag m ip = (frag_offset_of m ip,
     bytes m (ip + 48) (unat (ntohs (ip_payload_len m ip) - word_of_nat FRAG_HDR_LEN)))"

text \<open>Entry \<open>i\<close> is the one found for key \<open>k\<close>, and its ring stores the fragments \<open>fs\<close>.\<close>

definition rea_ring :: "rea \<Rightarrow> nat \<Rightarrow> nat list \<Rightarrow> frag list \<Rightarrow> bool" where
  "rea_ring r d ps fs \<longleftrightarrow> ring (heap r) d ps \<and> map (frag_at (heap r)) ps = fs \<and>
     (\<forall>p \<in> set ps. len_ok (heap r) p) \<and> (\<forall>p. heap r p \<noteq> None \<longrightarrow> p < fresh r)"

definition rea_holds :: "rea \<Rightarrow> nat \<Rightarrow> byte list \<times> byte list \<times> u32 \<Rightarrow> frag list \<Rightarrow> bool" where
  "rea_holds r i k fs \<longleftrightarrow> checkReassemblyTable r k = Some i \<and> i < length (rea_table r) \<and> fs \<noteq> [] \<and>
     (\<exists>d ps. re_list (rea_table r ! i) = Some d \<and> rea_ring r d ps fs)"

lemma insert_frag_list_ring:
  assumes "rea_ring r d ps fs"
  obtains r' ps' where "insert_frag_list d m ip r = Inr r'"
    "rea_ring r' d ps' (insert_frag (pkt_frag m ip) fs)" "rea_table r' = rea_table r" "rea_size r' = rea_size r"
    "set ps' = insert (fresh r) (set ps)" "\<And>p. p \<notin> insert (fresh r) (insert d (set ps)) \<Longrightarrow> heap r' p = heap r p"
proof -
  let ?q = "fresh r" and ?pl = "ntohs (ip_payload_len m ip) - word_of_nat FRAG_HDR_LEN"
  let ?node = "\<lparr>fd_offset = frag_offset_of m ip, fd_payload = Some (bytes m (ip + 48) (unat ?pl)),
      fd_payload_len = ?pl, fd_prev = None, fd_next = None\<rparr>"
  define h where "h = (heap r)(?q := Some ?node)"
  note R = assms [unfolded rea_ring_def]
  have fr: "?q \<notin> insert d (set ps)" using R ring_allocated by blast
  have ring: "ring h d ps"
  proof (subst ring_cong)
    show "h p = heap r p" if "p \<in> set (d # ps)" for p using that fr by (auto simp: h_def)
  qed (use R in blast)
  have eqs: "p \<in> set ps \<Longrightarrow> frag_at h p = frag_at (heap r) p" "p \<in> set ps \<Longrightarrow> len_ok h p = len_ok (heap r) p" for p
    using fr by (auto simp: h_def frag_at_def len_ok_def)
  have fs: "map (frag_at h) ps = fs" using R eqs(1) by (metis map_cong)
  have node: "frag_at h ?q = pkt_frag m ip" "h ?q \<noteq> None" "fd_payload (fd h ?q) \<noteq> None" "len_ok h ?q"
    by (simp_all add: h_def frag_at_def pkt_frag_def len_ok_def)
  have ok: "\<forall>p \<in> set ps. len_ok h p" using R eqs(2) by blast
  obtain h' ps' where h': "insert_node d ?q h = Inr h'"
    "ring h' d ps'" "map (frag_at h') ps' = insert_frag (frag_at h ?q) (map (frag_at h) ps)"
    "set ps' = insert ?q (set ps)" "\<And>p. p \<notin> insert ?q (insert d (set ps)) \<Longrightarrow> h' p = h p"
    "\<And>p. len_ok h' p = len_ok h p" "\<And>p. h' p = None \<longleftrightarrow> h p = None" "\<And>p. frag_at h' p = frag_at h p"
    by (rule insert_node_ring [OF ring ok fr node(2,3)], rule that)
  show thesis
  proof (rule that [of "r\<lparr>heap := h', fresh := ?q + 1\<rparr>" ps'])
    show "insert_frag_list d m ip r = Inr (r\<lparr>heap := h', fresh := ?q + 1\<rparr>)"
      using h'(1) by (simp add: insert_frag_list_def Let_def h_def)
    have "len_ok h' p" if "p \<in> set ps'" for p
      using that h'(4,6) node(4) R eqs(2) by auto
    moreover have "p < ?q + 1" if "h' p \<noteq> None" for p
      using that R h'(7) [of p] by (cases "p = ?q") (auto simp: less_Suc_eq h_def)
    ultimately show "rea_ring (r\<lparr>heap := h', fresh := ?q + 1\<rparr>) d ps' (insert_frag (pkt_frag m ip) fs)"
      using h'(2,3) node(1) fs by (simp add: rea_ring_def)
  qed (use h'(4,5) in \<open>auto simp: h_def\<close>)
qed

text \<open>The datagram handed over for a contiguous list.\<close>

definition datagram_of :: "rea_entry \<Rightarrow> u16 \<Rightarrow> mem \<Rightarrow> Datagram" where
  "datagram_of e plen m = \<lparr>d_headers_len = re_headers_len e, d_payload_len = plen,
     d_headers = updateDatagramHeaders (take (unat (re_headers_len e)) (re_headers e)) plen (re_next_header e),
     d_payload = m\<rparr>"

lemma copy_to_datagram_ring:
  assumes "rea_ring r d ps fs" "fs \<noteq> []" "re_list e = Some d"
  shows "copy_to_datagram junk e r =
    (case copy_frags 0 junk fs of
       Inl f \<Rightarrow> Inl f
     | Inr (ok, plen, m) \<Rightarrow> Inr (if ok then Some (datagram_of e plen m) else None))"
proof -
  note R = assms(1) [unfolded rea_ring_def]
  have ne: "ps \<noteq> []" using R assms(2) by auto
  have "fd_next (fd (heap r) d) = Some (hd (ps @ [d]))"
    using R ne by (intro ring_next(1) [where A = "[]" and ps = ps]) auto
  then have "copy_loop (heap r) (fd_next (fd (heap r) d)) 0 junk = Some (copy_frags 0 junk fs)"
    using R copy_loop_ring [of "heap r" d ps "[]" ps 0 junk] by simp
  then show ?thesis
    using assms(3) by (cases "copy_frags 0 junk fs") (auto simp: copy_to_datagram_def datagram_of_def)
qed

lemma removeReaEntry_ring:
  assumes "rea_ring r d ps fs" "fs \<noteq> []" "re_list (rea_table r ! i) = Some d"
  shows "removeReaEntry i r = Inr (r\<lparr>heap := (\<lambda>p. if p \<in> insert d (set ps) then None else heap r p),
    rea_table := (rea_table r)[i := (rea_table r ! i)\<lparr>re_list := None, re_timestamp := 0\<rparr>],
    rea_size := rea_size r - 1\<rparr>)"
proof -
  note R = assms(1) [unfolded rea_ring_def]
  have ne: "ps \<noteq> []" using R assms(2) by auto
  have "fd_next (fd (heap r) d) = Some (hd (ps @ [d]))"
    using R ne by (intro ring_next(1) [where A = "[]" and ps = ps]) auto
  then have "free_nodes (fd_next (fd (heap r) d)) (heap r) =
      Some (\<lambda>p. if p \<in> insert d (set ps) then None else heap r p)"
    using R ne free_nodes_ring [of "heap r" d "[]" ps "heap r"] by simp
  then show ?thesis using assms(3) by (simp add: removeReaEntry_def)
qed

lemma check_cong: "rea_table r' = rea_table r \<Longrightarrow> rea_size r' = rea_size r \<Longrightarrow>
    checkReassemblyTable r' k = checkReassemblyTable r k"
  by (simp add: checkReassemblyTable_def rea_hit_def [abs_def])

lemma insert_frag_ne [simp]: "insert_frag f fs \<noteq> []"
  by (simp add: insert_frag_def Let_def)

lemma reassembly_known:
  assumes "rea_holds r i (pkt_key m (ip_of pkt)) fs"
    and "re_list (rea_table r ! i) = Some d" "rea_ring r d ps fs"
  obtains r1 ps1 where "rea_ring r1 d ps1 (insert_frag (pkt_frag m (ip_of pkt)) fs)"
    "rea_table r1 = rea_table r" "rea_size r1 = rea_size r" "set ps1 = insert (fresh r) (set ps)"
    "\<And>p. p \<notin> insert (fresh r) (insert d (set ps)) \<Longrightarrow> heap r1 p = heap r p"
    "rea_holds r1 i (pkt_key m (ip_of pkt)) (insert_frag (pkt_frag m (ip_of pkt)) fs)"
    "reassembly now junk m pkt r =
       (if isLastFragment m (ip_of pkt)
        then (case copy_frags 0 junk (insert_frag (pkt_frag m (ip_of pkt)) fs) of
                Inl f \<Rightarrow> Inl f
              | Inr (ok, plen, pm) \<Rightarrow>
                  if ok then bind_res (removeReaEntry i r1) (\<lambda>r. Inr (Some (datagram_of (rea_table r1 ! i) plen pm), r))
                  else Inr (None, r1))
        else Inr (None, r1))"
proof -
  let ?ip = "ip_of pkt" and ?fs = "insert_frag (pkt_frag m (ip_of pkt)) fs"
  from insert_frag_list_ring [OF assms(3), of m ?ip] obtain r1 ps1 where
    r1: "insert_frag_list d m ?ip r = Inr r1" "rea_ring r1 d ps1 ?fs"
    "rea_table r1 = rea_table r" "rea_size r1 = rea_size r"
    "set ps1 = insert (fresh r) (set ps)" "\<And>p. p \<notin> insert (fresh r) (insert d (set ps)) \<Longrightarrow> heap r1 p = heap r p"
    by blast
  have look: "checkReassemblyTable r (pkt_key m ?ip) = Some i" and i: "i < length (rea_table r)"
    using assms(1) by (simp_all add: rea_holds_def)
  have list1: "re_list (rea_table r1 ! i) = Some d" using assms(2) r1(3) by simp
  have "rea_holds r1 i (pkt_key m ?ip) ?fs"
    using look i list1 r1(2,3) check_cong [OF r1(3,4)] by (auto simp: rea_holds_def)
  moreover have "reassembly now junk m pkt r =
       (if isLastFragment m ?ip
        then (case copy_frags 0 junk ?fs of
                Inl f \<Rightarrow> Inl f
              | Inr (ok, plen, pm) \<Rightarrow>
                  if ok then bind_res (removeReaEntry i r1) (\<lambda>r. Inr (Some (datagram_of (rea_table r1 ! i) plen pm), r))
                  else Inr (None, r1))
        else Inr (None, r1))"
    using look assms(2) r1(1) copy_to_datagram_ring [OF r1(2) insert_frag_ne list1, of junk]
    by (simp add: reassembly_def pkt_key_def Let_def split: sum.split)
  ultimately show thesis using r1 that by blast
qed

text \<open>C10: a further fragment of a known datagram. On the list of fragments, \<^verbatim>\<open>reassembly\<close> is an
  insertion (\<open>insert_frag\<close>, which looks at most three fragments back); only if the fragment is the
  last one does it try to complete. A complete list yields the datagram and frees exactly the nodes
  of the entry's ring; a list with a hole keeps the entry as it is.\<close>

theorem reassembly_refines_list:
  assumes "rea_holds r i (pkt_key m (ip_of pkt)) fs"
  shows "let fs' = insert_frag (pkt_frag m (ip_of pkt)) fs; out = reassembly now junk m pkt r;
      kept = (\<lambda>r'. out = Inr (None, r') \<and> rea_holds r' i (pkt_key m (ip_of pkt)) fs')
    in if \<not> isLastFragment m (ip_of pkt) then \<exists>r'. kept r'
       else (case copy_frags 0 junk fs' of
          Inl f \<Rightarrow> out = Inl f
        | Inr (ok, plen, pm) \<Rightarrow>
            if ok then \<exists>r' d ps. out = Inr (Some (datagram_of (rea_table r ! i) plen pm), r') \<and>
              re_list (rea_table r ! i) = Some d \<and> ring (heap r) d ps \<and>
              heap r' = (\<lambda>p. if p \<in> insert d (set ps) then None else heap r p) \<and>
              re_list (rea_table r' ! i) = None \<and> rea_size r' = rea_size r - 1
            else \<exists>r'. kept r')"
proof -
  obtain d ps where d: "re_list (rea_table r ! i) = Some d" "rea_ring r d ps fs" "i < length (rea_table r)"
    using assms by (auto simp: rea_holds_def)
  let ?fs = "insert_frag (pkt_frag m (ip_of pkt)) fs"
  obtain r1 ps1 where r1: "rea_ring r1 d ps1 ?fs" "rea_table r1 = rea_table r" "rea_size r1 = rea_size r"
    "set ps1 = insert (fresh r) (set ps)" "\<And>p. p \<notin> insert (fresh r) (insert d (set ps)) \<Longrightarrow> heap r1 p = heap r p"
    "rea_holds r1 i (pkt_key m (ip_of pkt)) ?fs"
    and step: "reassembly now junk m pkt r =
       (if isLastFragment m (ip_of pkt)
        then (case copy_frags 0 junk ?fs of
                Inl f \<Rightarrow> Inl f
              | Inr (ok, plen, pm) \<Rightarrow>
                  if ok then bind_res (removeReaEntry i r1) (\<lambda>r. Inr (Some (datagram_of (rea_table r1 ! i) plen pm), r))
                  else Inr (None, r1))
        else Inr (None, r1))"
    by (rule reassembly_known [OF assms d(1,2), of now junk]) blast
  let ?h = "\<lambda>p. if p \<in> insert d (set ps1) then None else heap r1 p"
  let ?r2 = "r1\<lparr>heap := ?h, rea_table := (rea_table r1)[i := (rea_table r1 ! i)\<lparr>re_list := None, re_timestamp := 0\<rparr>],
      rea_size := rea_size r1 - 1\<rparr>"
  have rem: "removeReaEntry i r1 = Inr ?r2"
    using d(1) r1(2) by (intro removeReaEntry_ring [OF r1(1)]) simp_all
  have fresh: "heap r (fresh r) = None" using d(2) unfolding rea_ring_def by blast
  have freed: "?h = (\<lambda>p. if p \<in> insert d (set ps) then None else heap r p)"
    using r1(4,5) fresh by (auto simp: fun_eq_iff)
  have gone: "re_list (rea_table ?r2 ! i) = None" "rea_size ?r2 = rea_size r - 1"
    "heap ?r2 = (\<lambda>p. if p \<in> insert d (set ps) then None else heap r p)"
    using d(3) r1(2,3) freed by simp_all
  have "ring (heap r) d ps" using d(2) by (simp add: rea_ring_def)
  moreover have "reassembly now junk m pkt r = Inr (Some (datagram_of (rea_table r ! i) plen pm), ?r2)"
    if "isLastFragment m (ip_of pkt)" "copy_frags 0 junk ?fs = Inr (True, plen, pm)" for plen pm
    using that step rem r1(2) by simp
  ultimately show ?thesis
    using step r1(6) d(1) gone
    by (cases "copy_frags 0 junk ?fs") (auto simp: Let_def split: prod.splits)
qed

section \<open>Where a fragment is inserted\<close>

definition later :: "u16 \<Rightarrow> frag list \<Rightarrow> frag list" where
  "later off fs = filter (\<lambda>g. off < fst g) fs"

definition fits :: "frag \<Rightarrow> frag list \<Rightarrow> bool" where
  "fits f fs \<longleftrightarrow> (\<forall>g \<in> set fs. unat (fst g) + length (snd g) \<le> unat (fst f) \<or> fst f < fst g)"

lemma back_steps_takeWhile:
  assumes "fits (off, bs) (rev rs)"
  shows "back_steps k off rs = min k (length (takeWhile (\<lambda>g. off < fst g) rs))"
  using assms
proof (induction k off rs rule: back_steps.induct)
  case (1 k off o1 bs rs)
  have "fits (off, bs) (rev rs)" using "1.prems" by (simp add: fits_def)
  moreover have "\<not> unat o1 + length bs \<le> unat off" if "off < o1"
    using that by (simp add: word_less_nat_alt)
  ultimately show ?case using 1 by (auto simp: fits_def)
qed auto

lemma takeWhile_rev_sorted:
  assumes "sorted_wrt (\<lambda>a b. fst a < fst b) (fs :: frag list)"
  shows "takeWhile (\<lambda>g. off < fst g) (rev fs) = rev (later off fs)"
  using assms
proof (induction fs)
  case (Cons g fs)
  show ?case
  proof (cases "off < fst g")
    case True
    then have "\<forall>x \<in> set fs. off < fst x" using Cons.prems by auto
    then have "later off fs = fs" by (simp add: later_def)
    then show ?thesis using Cons True by (simp add: later_def takeWhile_append)
  next
    case False
    then show ?thesis using Cons by (auto simp: later_def takeWhile_append)
  qed
qed (simp add: later_def)

lemma sorted_split:
  assumes "sorted_wrt (\<lambda>a b. fst a < fst b) (fs :: frag list)"
  shows "drop (length fs - length (later off fs)) fs = later off fs"
  using assms
proof (induction fs)
  case (Cons g fs)
  show ?case
  proof (cases "off < fst g")
    case True
    then have "\<forall>x \<in> set fs. off < fst x" using Cons.prems by auto
    then have "later off fs = fs" by (simp add: later_def)
    then show ?thesis using True by (simp add: later_def)
  next
    case False
    then have "later off (g # fs) = later off fs" "length (later off fs) \<le> length fs" by (simp_all add: later_def)
    then show ?thesis using Cons by (simp add: Suc_diff_le)
  qed
qed (simp add: later_def)

lemma insert_frag_sorted:
  assumes "sorted_wrt (\<lambda>a b. fst a < fst b) fs" "fits f fs" "length (later (fst f) fs) \<le> 3"
  shows "insert_frag f fs = take (length fs - length (later (fst f) fs)) fs @ f # later (fst f) fs"
    and "sorted_wrt (\<lambda>a b. fst a < fst b) (insert_frag f fs) \<or> (\<exists>g \<in> set fs. fst g = fst f)"
proof -
  obtain off bs where f: "f = (off, bs)" by (cases f)
  have "back_steps 3 off (rev fs) = length (later off fs)"
    using assms back_steps_takeWhile [of off bs "rev fs" 3] takeWhile_rev_sorted [OF assms(1), of off]
    by (simp add: f)
  then show eq: "insert_frag f fs = take (length fs - length (later (fst f) fs)) fs @ f # later (fst f) fs"
    using sorted_split [OF assms(1), of off] by (simp add: insert_frag_def f)
  show "sorted_wrt (\<lambda>a b. fst a < fst b) (insert_frag f fs) \<or> (\<exists>g \<in> set fs. fst g = fst f)"
  proof (cases "\<exists>g \<in> set fs. fst g = fst f")
    case False
    let ?n = "length fs - length (later (fst f) fs)"
    have split: "fs = take ?n fs @ later (fst f) fs"
      using sorted_split [OF assms(1)] append_take_drop_id [of ?n fs] by metis
    have s: "sorted_wrt (\<lambda>a b. fst a < fst b) (take ?n fs @ later (fst f) fs)" using split assms(1) by metis
    have "fst g < fst f" if g: "g \<in> set (take ?n fs)" for g
    proof -
      have "g \<in> set fs" using g by (rule in_set_takeD)
      moreover have "g \<notin> set (later (fst f) fs)" using s g by (auto simp: sorted_wrt_append)
      ultimately have "\<not> fst f < fst g" "fst g \<noteq> fst f" using False by (auto simp: later_def)
      then show ?thesis by simp
    qed
    moreover have "\<forall>g \<in> set (later (fst f) fs). fst f < fst g" by (simp add: later_def)
    ultimately show ?thesis using s unfolding eq by (auto simp: sorted_wrt_append)
  qed blast
qed

text \<open>The ring stays sorted. Inserting a node whose data begins after the end of every earlier
  fragment keeps the ring a ring, and its fragments in order of offset, when at most three fragments
  of the ring are later than the new one.\<close>

theorem insert_node_sorted:
  assumes "ring h d ps" and "\<forall>p \<in> set ps. len_ok h p" and "q \<notin> insert d (set ps)"
    and "h q \<noteq> None" and "fd_payload (fd h q) \<noteq> None"
    and "sorted_wrt (\<lambda>a b. fst a < fst b) (map (frag_at h) ps)"
    and "fits (frag_at h q) (map (frag_at h) ps)" and "fst (frag_at h q) \<notin> fst ` frag_at h ` set ps"
    and "length (later (fst (frag_at h q)) (map (frag_at h) ps)) \<le> 3"
  shows "\<exists>h' ps'. insert_node d q h = Inr h' \<and> ring h' d ps' \<and> set ps' = insert q (set ps) \<and>
    (\<forall>p \<in> set ps'. frag_at h' p = frag_at h p) \<and> sorted_wrt (\<lambda>a b. fst a < fst b) (map (frag_at h') ps')"
proof -
  obtain h' ps' where h': "insert_node d q h = Inr h'" "ring h' d ps'"
    "map (frag_at h') ps' = insert_frag (frag_at h q) (map (frag_at h) ps)"
    "set ps' = insert q (set ps)" "\<And>p. p \<notin> insert q (insert d (set ps)) \<Longrightarrow> h' p = h p"
    "\<And>p. len_ok h' p = len_ok h p" "\<And>p. h' p = None \<longleftrightarrow> h p = None" "\<And>p. frag_at h' p = frag_at h p"
    by (rule insert_node_ring [OF assms(1-5)], rule that)
  moreover have "sorted_wrt (\<lambda>a b. fst a < fst b) (map (frag_at h') ps')"
    using insert_frag_sorted(2) [OF assms(6,7,9)] assms(8) unfolding h'(3) by (auto simp: image_iff)
  ultimately show ?thesis by blast
qed

theorem insert_node_sorted_witness:
  "\<exists>h'. insert_node 1 2 (\<lambda>p. if p = 1 then Some \<lparr>fd_offset = 0, fd_payload = None, fd_payload_len = 0, fd_prev = None, fd_next = None\<rparr>
     else if p = 2 then Some \<lparr>fd_offset = 8, fd_payload = Some [7], fd_payload_len = 1, fd_prev = None, fd_next = None\<rparr>
     else None) = Inr h' \<and> ring h' 1 [2]"
  (is "\<exists>h'. insert_node 1 2 ?h = Inr h' \<and> _")
proof -
  have "ring ?h 1 []" by (simp add: ring_def)
  from insert_node_sorted [OF this, of 2] obtain h' ps where *: "insert_node 1 2 ?h = Inr h'" "ring h' 1 ps" "set ps = {2}"
    by (auto simp: fits_def later_def)
  have "distinct ps" using *(2) by (simp add: ring_def)
  then have "length ps = 1" using distinct_card [of ps] *(3) by simp
  then have "ps = [2]" using *(3) by (cases ps) auto
  then show ?thesis using * by blast
qed

end
