(* ===== verification/Frag_Trip.thy ===== *)
theory Frag_Trip
  imports Frag_Ring
begin

text \<open>
  What \<^verbatim>\<open>fragmentDatagram\<close> sends (\<^verbatim>\<open>net/sendto.c\<close>), and the round trip: a receiver that gets the
  fragments in the order they were sent rebuilds the datagram.
\<close>

section \<open>The pieces of a datagram\<close>

text \<open>Offset, length, and whether more pieces follow, for a payload of which \<open>rem\<close> bytes are left.\<close>

definition piece_len :: "nat \<Rightarrow> nat \<Rightarrow> nat" where
  "piece_len mx rem = (if rem > mx then mx else if rem > 8 then rem - rem mod 8 else rem)"

function pieces :: "nat \<Rightarrow> nat \<Rightarrow> nat \<Rightarrow> (nat \<times> nat \<times> bool) list" where
  "pieces mx off rem =
     (if rem = 0 \<or> piece_len mx rem = 0 then []
      else (off, piece_len mx rem, piece_len mx rem < rem) #
           pieces mx (off + piece_len mx rem) (rem - piece_len mx rem))"
  by pat_completeness auto
termination
  by (relation "measure (\<lambda>(mx, off, rem). rem)") (auto simp: piece_len_def)

declare pieces.simps [simp del]

lemma piece_len_pos:
  assumes "8 \<le> mx" "0 < rem"
  shows "0 < piece_len mx rem" "piece_len mx rem \<le> rem" "piece_len mx rem \<le> mx"
proof -
  have "rem mod 8 < 8" by simp
  then show "0 < piece_len mx rem" using assms by (auto simp: piece_len_def)
  show "piece_len mx rem \<le> rem" by (auto simp: piece_len_def)
  show "piece_len mx rem \<le> mx" by (auto simp: piece_len_def)
qed

lemma pieces_step:
  assumes "8 \<le> mx" "0 < rem"
  shows "pieces mx off rem = (off, piece_len mx rem, piece_len mx rem < rem) #
    pieces mx (off + piece_len mx rem) (rem - piece_len mx rem)"
  using piece_len_pos(1) [OF assms] assms(2) by (subst pieces.simps) simp

lemma pieces_0 [simp]: "pieces mx off 0 = []"
  by (simp add: pieces.simps)

text \<open>A piece that is followed by another one is a multiple of eight bytes long.\<close>

lemma piece_len_mult8:
  assumes "8 \<le> mx" "mx mod 8 = 0" "piece_len mx rem < rem"
  shows "piece_len mx rem mod 8 = 0"
proof -
  have "(rem - rem mod 8) mod 8 = 0" by (metis minus_mod_eq_div_mult mod_mult_self2_is_0)
  then show ?thesis using assms by (auto simp: piece_len_def split: if_splits)
qed

lemma pieces_offsets:
  assumes "8 \<le> mx" "mx mod 8 = 0" "off mod 8 = 0"
  shows "\<forall>(o1, l, mf) \<in> set (pieces mx off rem). o1 mod 8 = 0 \<and> 0 < l \<and> l \<le> mx \<and>
    o1 + l \<le> off + rem \<and> (mf \<longleftrightarrow> o1 + l < off + rem)"
  using assms
proof (induction mx off rem rule: pieces.induct)
  case (1 mx off rem)
  show ?case
  proof (cases "rem = 0")
    case False
    let ?l = "piece_len mx rem"
    note l = piece_len_pos [OF "1.prems"(1), of rem]
    have IH: "\<forall>(o1, l, mf) \<in> set (pieces mx (off + ?l) (rem - ?l)). o1 mod 8 = 0 \<and> 0 < l \<and> l \<le> mx \<and>
        o1 + l \<le> off + ?l + (rem - ?l) \<and> (mf \<longleftrightarrow> o1 + l < off + ?l + (rem - ?l))"
    proof (cases "?l < rem")
      case True
      then have "(off + ?l) mod 8 = 0" using piece_len_mult8 [OF "1.prems"(1,2)] "1.prems"(3) by (metis add_0 mod_add_eq mod_0)
      then show ?thesis using "1.IH" "1.prems" l(1) False by simp
    next
      case f: False
      then show ?thesis by simp
    qed
    then show ?thesis using False l "1.prems" by (auto simp: pieces_step)
  qed simp
qed

lemma checkLength_eq: "unat (checkLength x) = (if unat x > 8 then unat x - unat x mod 8 else unat x)"
proof -
  have "unat (x - x mod 8) = unat x - unat x mod 8"
  proof -
    have "x mod 8 \<le> x" by (simp add: word_le_nat_alt unat_mod)
    then show ?thesis by (simp add: unat_sub unat_mod)
  qed
  then show ?thesis by (simp add: checkLength_def word_less_nat_alt)
qed

section \<open>What is sent\<close>

definition frag_field :: "nat \<Rightarrow> bool \<Rightarrow> u16" where
  "frag_field off mf = (let w = word_of_nat off AND 0xFFF8 in if mf then w OR 0x0001 else w)"

definition frag_packet :: "Datagram \<Rightarrow> u32 \<Rightarrow> nat \<times> nat \<times> bool \<Rightarrow> byte list" where
  "frag_packet d identif = (\<lambda>(off, l, mf).
     take 4 (d_headers d) @ be16 (word_of_nat (8 + l)) @ [NEXT_HEADER_FRAGMENT] @ drop 7 (d_headers d) @
     [d_headers d ! 6, 0] @ be16 (frag_field off mf) @ be32 identif @ bytes (d_payload d) off l)"

definition frag_frame :: "net \<Rightarrow> nat \<Rightarrow> Datagram \<Rightarrow> u32 \<Rightarrow> nat \<times> nat \<times> bool \<Rightarrow> byte list" where
  "frag_frame s n d identif pc = othernet_fix
     (n_macAddr (NDCache s ! n) @ own_mac s 14 @ be16 ETH_IPv6 @ frag_packet d identif pc @
      replicate (1458 - fst (snd pc)) 0)"

lemma length_frag_packet:
  "length (d_headers d) = 40 \<Longrightarrow> length (frag_packet d identif (off, l, mf)) = 48 + l"
  by (simp add: frag_packet_def)

definition frag_hop :: "net \<Rightarrow> Datagram \<Rightarrow> nat option" where
  "frag_hop s d = (case lookupNDEntry (NDCache s) (take IPV6_ASIZE (drop 24 (d_headers d))) of
     None \<Rightarrow> lookupNDEntry (NDCache s) (take IPV6_ASIZE (drop 8 (d_headers d)))
   | Some n \<Rightarrow> Some n)"

lemma wr_bytes_zero: "wr_bytes zero_block a bs = wr_bytes zero_block 0 (replicate a 0 @ bs)"
  by (auto simp: wr_bytes_def fun_eq_iff nth_append zero_block_def)

lemma bytes_zero_pad: "length bs \<le> n \<Longrightarrow> bytes (wr_bytes zero_block 0 bs) 0 n = bs @ replicate (n - length bs) 0"
  by (auto simp: list_eq_iff_nth_eq wr_bytes_def nth_append zero_block_def)

lemma sendFragment_eq:
  assumes "macs_ok s" "nd_inv (NDCache s)" "length (d_headers d) = 40" "d_headers_len d = 40"
    and "off < 65536" "l \<le> 1458" "frag_hop s d = Some n" "0 < ipv6_free s"
  shows "sendFragment d (word_of_nat (8 + l)) (word_of_nat l) identif (word_of_nat off) (d_headers d ! 6) mf s =
    Inr (s\<lparr>ipv6_free := ipv6_free s - 1, sent := sent s @ [frag_frame s n d identif (off, l, mf)]\<rparr>)"
proof -
  let ?s = "s\<lparr>ipv6_free := ipv6_free s - 1\<rparr>" and ?nh = "d_headers d ! 6"
  let ?hs = "take 4 (d_headers d) @ be16 (word_of_nat (8 + l)) @ [NEXT_HEADER_FRAGMENT] @ drop 7 (d_headers d)"
  let ?mac = "n_macAddr (NDCache s ! n)" and ?own = "own_mac s 14"
  have hl: "length ?hs = 40" using assms(3) by simp
  have un: "unat (40 :: u16) = 40" "unat (word_of_nat l :: u16) = l" "unat (word_of_nat off :: u16) = off"
    "unat (14 :: byte) = 14"
    using assms(5,6) by (simp_all add: unat_of_nat)
  have t: "take 4 (d_headers d) @ drop 4 (d_headers d) = d_headers d" by simp
  have d7: "drop 1 (drop 6 (d_headers d)) = drop 7 (d_headers d)" by simp
  have m1: "fillPerFragmentHeader d zero_block ETH_HDR_LEN (word_of_nat (8 + l)) =
      wr_bytes zero_block 0 (replicate 14 0 @ ?hs)"
  proof -
    let ?a = "take 4 (d_headers d) @ be16 (word_of_nat (8 + l)) @ drop 6 (d_headers d)"
    have "wr16 (wr_bytes zero_block 14 (d_headers d)) (14 + 4) (htons (word_of_nat (8 + l))) = wr_bytes zero_block 14 ?a"
      unfolding wr16_def le16_htons using assms(3) by (subst wr_bytes_within) simp_all
    moreover have "(wr_bytes zero_block 14 ?a)(14 + 6 := NEXT_HEADER_FRAGMENT) = wr_bytes zero_block 14 ?hs"
      unfolding fun_upd_wr_bytes using assms(3) by (subst wr_bytes_within) simp_all
    moreover have "take (unat (40 :: u16)) (d_headers d) = d_headers d" using assms(3) un(1) by simp
    ultimately show ?thesis
      unfolding fillPerFragmentHeader_def Let_def assms(4) ETH_HDR_LEN_def wr_bytes_zero [symmetric] by simp
  qed
  have f: "(if mf then (word_of_nat off AND 0xFFF8) OR 0x0001 else (word_of_nat off AND 0xFFF8)) = frag_field off mf"
    by (simp add: frag_field_def)
  have m2: "fillFragmentHeader (wr_bytes zero_block 0 (replicate 14 0 @ ?hs)) 54 identif ?nh (word_of_nat off) mf =
      wr_bytes zero_block 0 (replicate 14 0 @ ?hs @ [?nh, 0] @ be16 (frag_field off mf) @ be32 identif)"
  proof -
    define p where "p = replicate 14 0 @ ?hs"
    have p: "length p = 54" using hl by (simp add: p_def)
    have "(wr_bytes zero_block 0 p)(54 := ?nh) = wr_bytes zero_block 0 (p @ [?nh])"
      unfolding fun_upd_wr_bytes using p by (intro wr_bytes_join) simp
    moreover have "wr32 (wr_bytes zero_block 0 (p @ [?nh])) (54 + 4) (htonl identif) =
        wr_bytes zero_block 0 ((p @ [?nh, 0, 0, 0]) @ be32 identif)"
      unfolding wr32_def htonl_be32 using p by (subst wr_bytes_ge) (simp_all add: numeral_3_eq_3)
    moreover have "wr16 (wr_bytes zero_block 0 ((p @ [?nh, 0, 0, 0]) @ be32 identif)) (54 + 2) (htons (frag_field off mf)) =
        wr_bytes zero_block 0 (p @ [?nh, 0] @ be16 (frag_field off mf) @ be32 identif)"
      unfolding wr16_def le16_htons using p by (subst wr_bytes_within) simp_all
    ultimately show ?thesis unfolding fillFragmentHeader_def Let_def f p_def by simp
  qed
  let ?f = "frag_packet d identif (off, l, mf)"
  let ?z = "?mac @ ?own @ be16 ETH_IPv6 @ ?f"
  have n: "n < MAXNDENTRY"
    using assms(7) nd_ip.search_Some_iff unfolding frag_hop_def by (metis (no_types, lifting) option.case_eq_if option.collapse)
  have ml: "length ?mac = 6" "length ?own = 6"
    using nd_inv_nth [OF assms(2) n] length_own_mac [OF assms(1)] by (simp_all add: len_defs)
  have fl: "length ?f = 48 + l" using assms(3) by (rule length_frag_packet)
  have m3: "wr_bytes (wr_bytes zero_block 0 (replicate 14 0 @ ?hs @ [?nh, 0] @ be16 (frag_field off mf) @ be32 identif))
      62 (bytes (d_payload d) off l) = wr_bytes zero_block 0 (replicate 14 0 @ ?f)"
    using hl by (subst wr_bytes_join) (simp_all add: frag_packet_def)
  have m4: "fillEthernet ?s (wr_bytes zero_block 0 (replicate 14 0 @ ?f)) 0 ?mac (word_of_nat 14) = wr_bytes zero_block 0 ?z"
    using ml assms(1) by (subst fillEthernet_spec) (simp_all add: macs_ok_def own_mac_def len_defs wr_bytes_within)
  have "bytes (wr_bytes zero_block 0 ?z) 0 PACKLEN = ?z @ replicate (1458 - l) 0"
    using assms(6) ml fl by (subst bytes_zero_pad) (simp_all add: len_defs)
  then have fr: "writeToInterface (wr_bytes zero_block 0 ?z) ?s =
      Inr (?s\<lparr>sent := sent s @ [frag_frame s n d identif (off, l, mf)]\<rparr>)"
    by (simp add: writeToInterface_def fire_off_eq eth_frame_eq len_defs frag_frame_def)
  have hop: "(case lookupNDEntry (NDCache ?s) (take IPV6_ASIZE (drop 24 (d_headers d))) of
      None \<Rightarrow> lookupNDEntry (NDCache ?s) (take IPV6_ASIZE (drop 8 (d_headers d))) | Some n \<Rightarrow> Some n) = Some n"
  proof -
    have "NDCache ?s = NDCache s" by simp
    then show ?thesis using assms(7) unfolding frag_hop_def by presburger
  qed
  have g: "getbuf_ipv6 s = Inr ?s" using assms(8) by (simp add: getbuf_ipv6_def)
  have a: "ETH_HDR_LEN + unat (d_headers_len d) = 54" "54 + FRAG_HDR_LEN = 62" "\<not> PACKLEN < 62 + l"
    using assms(4,6) un(1) by (simp_all add: len_defs FRAG_HDR_LEN_def)
  show ?thesis
    unfolding sendFragment_def g Let_def bind_res_simps m1 a m2 un m3 if_not_P [OF a(3)] hop
    using m4 fr by (simp add: ETH_HDR_LEN_def)
qed

definition frag_ready :: "net \<Rightarrow> Datagram \<Rightarrow> nat \<Rightarrow> bool" where
  "frag_ready s d n \<longleftrightarrow> macs_ok s \<and> nd_inv (NDCache s) \<and> length (d_headers d) = 40 \<and>
     d_headers_len d = 40 \<and> frag_hop s d = Some n"

lemma frag_ready_sent [simp]:
  "frag_ready (s\<lparr>ipv6_free := k, sent := x\<rparr>) d n = frag_ready s d n"
  "frag_frame (s\<lparr>ipv6_free := k, sent := x\<rparr>) = frag_frame s"
  by (simp_all add: frag_ready_def frag_hop_def macs_ok_def frag_frame_def own_mac_def fun_eq_iff split: option.splits)

lemma fragment_loop_eq:
  assumes "frag_ready s d n" "8 \<le> mx" "mx \<le> 1458" "off + rem < 65536"
  shows "fragment_loop others False d identif (d_headers d ! 6) (word_of_nat mx) (word_of_nat rem) (word_of_nat off) s =
    Some (if length (pieces mx off rem) \<le> ipv6_free s
      then Inr (s\<lparr>ipv6_free := ipv6_free s - length (pieces mx off rem),
                  sent := sent s @ map (frag_frame s n d identif) (pieces mx off rem)\<rparr>)
      else Inl Blocked)"
  using assms
proof (induction mx off rem arbitrary: s rule: pieces.induct)
  case (1 mx off rem)
  let ?l = "piece_len mx rem"
  have un: "unat (word_of_nat mx :: u16) = mx" "unat (word_of_nat rem :: u16) = rem"
    using "1.prems" by (simp_all add: unat_of_nat)
  show ?case
  proof (cases "rem = 0")
    case True
    then show ?thesis by (subst fragment_loop.simps) simp
  next
    case False
    note l = piece_len_pos [OF "1.prems"(2), of rem]
    let ?p0 = "if (word_of_nat rem :: u16) > word_of_nat mx then (word_of_nat mx :: u16) else word_of_nat rem"
    let ?p = "if ?p0 = word_of_nat rem then checkLength ?p0 else ?p0"
    have "unat ?p = ?l"
      using un by (auto simp: piece_len_def word_less_nat_alt checkLength_eq word_unat_eq_iff)
    from this [symmetric] have p: "?p = word_of_nat ?l" by simp
    have sub: "(word_of_nat rem :: u16) - word_of_nat ?l = word_of_nat (rem - ?l)"
      using l(2) False by (simp add: of_nat_diff)
    have pos: "(0 :: u16) < word_of_nat rem" using un False by (simp add: word_less_nat_alt)
    have "unat (word_of_nat (rem - ?l) :: u16) = rem - ?l" using "1.prems"(4) by (simp add: unat_of_nat)
    then have mf: "((word_of_nat (rem - ?l) :: u16) \<noteq> 0) = (?l < rem)"
      by (simp add: word_unat_eq_iff) linarith
    have hdr: "word_of_nat FRAG_HDR_LEN + word_of_nat ?l = (word_of_nat (8 + ?l) :: u16)" by (simp add: FRAG_HDR_LEN_def)
    have offs: "(word_of_nat off :: u16) + word_of_nat ?l = word_of_nat (off + ?l)" by simp
    have step: "fragment_loop others False d identif (d_headers d ! 6) (word_of_nat mx) (word_of_nat rem) (word_of_nat off) s =
        (case sendFragment d (word_of_nat (8 + ?l)) (word_of_nat ?l) identif (word_of_nat off) (d_headers d ! 6) (?l < rem) s of
           Inl e \<Rightarrow> Some (Inl e)
         | Inr s \<Rightarrow> fragment_loop others False d identif (d_headers d ! 6) (word_of_nat mx)
             (word_of_nat (rem - ?l)) (word_of_nat (off + ?l)) s)"
      by (subst fragment_loop.simps) (unfold if_P [OF pos] Let_def p sub mf hdr offs if_False, rule refl)
    show ?thesis
    proof (cases "ipv6_free s = 0")
      case True
      then show ?thesis using step "1.prems" False by (simp add: sendFragment_def getbuf_ipv6_def pieces_step)
    next
      case f: False
      let ?s = "s\<lparr>ipv6_free := ipv6_free s - 1, sent := sent s @ [frag_frame s n d identif (off, ?l, ?l < rem)]\<rparr>"
      have "sendFragment d (word_of_nat (8 + ?l)) (word_of_nat ?l) identif (word_of_nat off) (d_headers d ! 6) (?l < rem) s = Inr ?s"
        using "1.prems" f l(3) False by (intro sendFragment_eq) (auto simp: frag_ready_def)
      moreover have "fragment_loop others False d identif (d_headers d ! 6) (word_of_nat mx)
          (word_of_nat (rem - ?l)) (word_of_nat (off + ?l)) ?s = Some (if length (pieces mx (off + ?l) (rem - ?l)) \<le> ipv6_free ?s
            then Inr (?s\<lparr>ipv6_free := ipv6_free ?s - length (pieces mx (off + ?l) (rem - ?l)),
                  sent := sent ?s @ map (frag_frame ?s n d identif) (pieces mx (off + ?l) (rem - ?l))\<rparr>)
            else Inl Blocked)"
        using "1.prems" l False by (intro "1.IH") simp_all
      ultimately show ?thesis
        using step "1.prems"(2) False f by (auto simp: pieces_step)
    qed
  qed
qed

definition frag_size :: "u32 \<Rightarrow> nat" where
  "frag_size mtu = unat mtu - 48 - (unat mtu - 48) mod 8"

lemma frag_size_bounds:
  assumes "56 \<le> unat mtu" "unat mtu \<le> 1506"
  shows "8 \<le> frag_size mtu" "frag_size mtu \<le> 1458" "frag_size mtu mod 8 = 0"
proof -
  have e: "frag_size mtu = 8 * ((unat mtu - 48) div 8)"
    by (simp add: frag_size_def minus_mod_eq_mult_div)
  show "frag_size mtu \<le> 1458" using assms by (simp add: frag_size_def)
  have "1 \<le> (unat mtu - 48) div 8" using assms(1) by (simp add: Suc_leI div_greater_zero_iff)
  then show "8 \<le> frag_size mtu" "frag_size mtu mod 8 = 0" unfolding e by simp_all
qed

lemma fragmentDatagram_eq:
  assumes "frag_ready s d n" "56 \<le> unat (MTU s)" "unat (MTU s) \<le> 1506" "unat (MTU s) < 40 + unat (d_payload_len d)"
  shows "fragmentDatagram others ticks d False s =
    (let ps = pieces (frag_size (MTU s)) 0 (unat (d_payload_len d)) in
     if length ps \<le> ipv6_free s
     then Inr (s\<lparr>ipv6_free := ipv6_free s - length ps,
                 sent := sent s @ map (frag_frame s n d (getIdentif ticks)) ps\<rparr>)
     else Inl Blocked)"
proof -
  have dh: "d_headers_len d = 40" using assms(1) by (simp add: frag_ready_def)
  have u40: "(ucast (40 :: u16) :: u32) = 40" "unat (40 :: u32) = 40" "unat (word_of_nat FRAG_HDR_LEN :: u32) = 8"
    by (simp_all add: FRAG_HDR_LEN_def)
  have pl: "unat (d_payload_len d) < 65536" by (rule unat_u16_less)
  have gt: "ucast (d_headers_len d) + ucast (d_payload_len d) > MTU s"
    using assms(4) pl unfolding dh u40 word_less_nat_alt
    by (subst unat_add_lem [THEN iffD1]) (simp_all add: u40)
  have "unat (MTU s - ucast (d_headers_len d) - word_of_nat FRAG_HDR_LEN) = unat (MTU s) - 48"
    using assms(2) unfolding dh u40 by (subst unat_sub; simp add: word_le_nat_alt u40 unat_sub)
  then have "unat (ucast (MTU s - ucast (d_headers_len d) - word_of_nat FRAG_HDR_LEN) :: u16) = unat (MTU s) - 48"
    using assms(3) by (simp add: unsigned_ucast_eq take_bit_nat_eq_self)
  then have "unat (checkLength (ucast (MTU s - ucast (d_headers_len d) - word_of_nat FRAG_HDR_LEN))) = frag_size (MTU s)"
    using assms(2) by (cases "unat (MTU s) = 56") (simp_all add: checkLength_eq frag_size_def)
  from this [symmetric] have mx: "checkLength (ucast (MTU s - ucast (d_headers_len d) - word_of_nat FRAG_HDR_LEN)) =
      word_of_nat (frag_size (MTU s))" by simp
  have "fragment_loop others False d (getIdentif ticks) (d_headers d ! 6) (word_of_nat (frag_size (MTU s)))
      (d_payload_len d) 0 s = Some (let ps = pieces (frag_size (MTU s)) 0 (unat (d_payload_len d)) in
     if length ps \<le> ipv6_free s
     then Inr (s\<lparr>ipv6_free := ipv6_free s - length ps,
                 sent := sent s @ map (frag_frame s n d (getIdentif ticks)) ps\<rparr>)
     else Inl Blocked)"
    using fragment_loop_eq [OF assms(1) frag_size_bounds(1,2) [OF assms(2,3)], of 0 "unat (d_payload_len d)"] pl
    by (simp add: Let_def)
  then show ?thesis using gt mx by (simp add: fragmentDatagram_def)
qed

section \<open>What a receiver sees\<close>

definition piece_frag :: "mem \<Rightarrow> nat \<times> nat \<times> bool \<Rightarrow> frag" where
  "piece_frag P pc = (word_of_nat (fst pc), bytes P (fst pc) (fst (snd pc)))"

lemma piece_frag_simp [simp]: "piece_frag P (off, l, mf) = (word_of_nat off, bytes P off l)"
  by (simp add: piece_frag_def)

definition frag_key :: "Datagram \<Rightarrow> u32 \<Rightarrow> byte list \<times> byte list \<times> u32" where
  "frag_key d identif = (take 16 (drop 8 (d_headers d)), take 16 (drop 24 (d_headers d)), identif)"

lemma rd16_be16: "bytes m a 2 = be16 w \<Longrightarrow> ntohs (rd16 m a) = w"
proof -
  assume "bytes m a 2 = be16 w"
  then have "m = wr16 m a (htons w)"
    unfolding wr16_def le16_htons by (metis wr_bytes_id)
  then have "rd16 m a = htons w" by (metis rd16_wr16)
  then show ?thesis by simp
qed

lemma ntohl_be32:
  assumes "bytes m a 4 = be32 w"
  shows "ntohl (rd32 m a) = w"
proof -
  have "bytes m a 4 = [m a, m (a + 1), m (a + 2), m (a + 3)]"
    by (simp add: bytes_def upt_rec numeral_eq_Suc)
  then have m: "m a = ucast (drop_bit 24 w)" "m (a + 1) = ucast (drop_bit 16 w)"
    "m (a + 2) = ucast (drop_bit 8 w)" "m (a + 3) = ucast w"
    using assms by (simp_all add: be32_def)
  have "bit (ntohl (rd32 m a)) k = bit w k" if "k < 32" for k
  proof (rule bit32_cases [OF that])
    fix j assume j: "(j :: nat) < 8" "k = j"
    then show ?thesis by (simp only: bit_ntohl_rd32 m) (simp add: bit_simps)
  next
    fix j assume j: "(j :: nat) < 8" "k = j + 8"
    then show ?thesis by (simp only: bit_ntohl_rd32 m) (simp add: bit_simps add.commute)
  next
    fix j assume j: "(j :: nat) < 8" "k = j + 16"
    then show ?thesis by (simp only: bit_ntohl_rd32 m) (simp add: bit_simps add.commute)
  next
    fix j assume j: "(j :: nat) < 8" "k = j + 24"
    then show ?thesis by (simp only: bit_ntohl_rd32 m) (simp add: bit_simps add.commute)
  qed
  then show ?thesis by (intro bit_eqI) simp
qed

lemma shifted3_bits:
  assumes "w = push_bit 3 (v :: u16)"
  shows "w AND 0xFFF8 = w" "(w OR 1) AND 0xFFFE = w" "w AND 0xFFFE = w" "w AND 1 = 0" "(w OR 1) AND 1 = 1"
proof -
  have n: "(0xFFF8 :: u16) = NOT (mask 3)" "(0xFFFE :: u16) = NOT (mask 1)" "(1 :: u16) = mask 1"
    by (simp_all add: mask_eq_exp_minus_1)
  show "w AND 0xFFF8 = w" unfolding assms n by (rule bit_eqI) (auto simp: bit_simps)
  show "(w OR 1) AND 0xFFFE = w" unfolding assms n by (rule bit_eqI) (auto simp: bit_simps)
  show "w AND 0xFFFE = w" unfolding assms n by (rule bit_eqI) (auto simp: bit_simps)
  show "w AND 1 = 0" unfolding assms n by (rule bit_eqI) (auto simp: bit_simps)
  show "(w OR 1) AND 1 = 1" unfolding assms n by (rule bit_eqI) (auto simp: bit_simps)
qed

lemma frag_field_bits:
  assumes "off mod 8 = 0"
  shows "frag_field off mf AND 0xFFFE = word_of_nat off" "(frag_field off mf AND 1 = 0) = (\<not> mf)"
proof -
  obtain k where "off = 8 * k" using assms by auto
  then have "(word_of_nat off :: u16) = push_bit 3 (word_of_nat k)" by (simp add: push_bit_eq_mult)
  note b = shifted3_bits [OF this]
  show "frag_field off mf AND 0xFFFE = word_of_nat off" unfolding frag_field_def Let_def b(1) using b(2,3) by simp
  show "(frag_field off mf AND 1 = 0) = (\<not> mf)" unfolding frag_field_def Let_def b(1) using b(4,5) by simp
qed

lemma frag_packet_in_memory:
  assumes "length (d_headers d) = 40" "off mod 8 = 0" "off + l < 65528"
    and "bytes m ip (48 + l) = frag_packet d identif (off, l, mf)"
  shows "pkt_key m ip = frag_key d identif" "pkt_frag m ip = piece_frag (d_payload d) (off, l, mf)"
    and "frag_offset_of m ip = word_of_nat off" "isLastFragment m ip = (\<not> mf)"
    and "m (ip + 40) = d_headers d ! 6"
    and "bytes m ip 40 = take 4 (d_headers d) @ be16 (word_of_nat (8 + l)) @ [NEXT_HEADER_FRAGMENT] @ drop 7 (d_headers d)"
proof -
  let ?hd = "d_headers d" and ?P = "bytes (d_payload d) off l"
  let ?bs = "take 4 ?hd @ be16 (word_of_nat (8 + l)) @ [NEXT_HEADER_FRAGMENT] @ drop 7 ?hd @
     [?hd ! 6, 0] @ be16 (frag_field off mf) @ be32 identif @ ?P"
  have B: "bytes m ip (48 + l) = ?bs" using assms(4) by (simp add: frag_packet_def)
  have sub: "bytes m (ip + k) n = take n (drop k ?bs)" if "k + n \<le> 48 + l" for k n
    using that unfolding B [symmetric] by (simp add: drop_bytes take_bytes)
  have "bytes m (ip + 4) 2 = be16 (word_of_nat (8 + l))" using sub [of 4 2] assms(1) by simp
  then have pl: "ntohs (ip_payload_len m ip) = word_of_nat (8 + l)" by (simp add: ip_payload_len_def rd16_be16)
  have l: "unat (ntohs (ip_payload_len m ip) - word_of_nat FRAG_HDR_LEN) = l"
  proof -
    have "ntohs (ip_payload_len m ip) - word_of_nat FRAG_HDR_LEN = word_of_nat l"
      by (simp add: pl FRAG_HDR_LEN_def)
    moreover have "unat (word_of_nat l :: u16) = l" using assms(3) by (simp add: unat_of_nat)
    ultimately show ?thesis by simp
  qed
  have "bytes m (ip + 42) 2 = be16 (frag_field off mf)" using sub [of 42 2] assms(1) by simp
  then have f: "ntohs (rd16 m (ip + 42)) = frag_field off mf" by (rule rd16_be16)
  show o1: "frag_offset_of m ip = word_of_nat off" "isLastFragment m ip = (\<not> mf)"
    using frag_field_bits [OF assms(2), of mf] by (simp_all add: frag_offset_of_def isLastFragment_def f)
  have "bytes m (ip + 48) l = ?P" using sub [of 48 l] assms(1) by simp
  then show "pkt_frag m ip = piece_frag (d_payload d) (off, l, mf)"
    by (simp add: pkt_frag_def piece_frag_def o1 l)
  have "bytes m (ip + 44) 4 = be32 identif" using sub [of 44 4] assms(1) by simp
  then have "frag_identif m ip = identif" unfolding frag_identif_def by (rule ntohl_be32)
  moreover have "ip_src m ip = take 16 (drop 8 ?hd)" "ip_dest m ip = take 16 (drop 24 ?hd)"
    using sub [of 8 16] sub [of 24 16] assms(1) by (simp_all add: ip_src_def ip_dest_def len_defs)
  ultimately show "pkt_key m ip = frag_key d identif" by (simp add: pkt_key_def frag_key_def)
  have "bytes m (ip + 40) 1 = [?hd ! 6]" using sub [of 40 1] assms(1) by simp
  then show "m (ip + 40) = ?hd ! 6" by (simp add: bytes_def)
  show "bytes m ip 40 = take 4 ?hd @ be16 (word_of_nat (8 + l)) @ [NEXT_HEADER_FRAGMENT] @ drop 7 ?hd"
    using sub [of 0 40] assms(1) by simp
qed

section \<open>The round trip\<close>

fun receive_all :: "u32 \<Rightarrow> mem \<Rightarrow> (mem \<times> nat) list \<Rightarrow> rea \<Rightarrow> (Datagram option list \<times> rea) res" where
  "receive_all now junk [] r = Inr ([], r)"
| "receive_all now junk ((m, pkt) # xs) r =
     bind_res (reassembly now junk m pkt r) (\<lambda>(d, r).
       bind_res (receive_all now junk xs r) (\<lambda>(ds, r). Inr (d # ds, r)))"

text \<open>Appending a fragment that begins where the list ends.\<close>

definition ends_at :: "frag list \<Rightarrow> nat \<Rightarrow> bool" where
  "ends_at fs n \<longleftrightarrow> fs = [] \<or> unat (fst (last fs)) + length (snd (last fs)) = n"

lemma insert_frag_append:
  assumes "ends_at fs (unat (fst f))"
  shows "insert_frag f fs = fs @ [f]"
proof (cases fs rule: rev_cases)
  case (snoc gs g)
  then have "back_steps 3 (fst f) (rev fs) = 0"
    using assms by (cases g) (simp add: ends_at_def numeral_3_eq_3)
  then show ?thesis by (simp add: insert_frag_def)
qed (simp add: insert_frag_def)

lemma copy_frags_append:
  "copy_frags plen m (fs @ gs) =
    (case copy_frags plen m fs of Inl e \<Rightarrow> Inl e
     | Inr (ok, plen', m') \<Rightarrow> if ok then copy_frags plen' m' gs else Inr (False, plen', m'))"
  by (induction plen m fs rule: copy_frags.induct) auto

lemma copy_frags_pieces:
  assumes "8 \<le> mx" "off + rem \<le> 65535"
  shows "copy_frags (word_of_nat off) m (map (piece_frag P) (pieces mx off rem)) =
    Inr (True, word_of_nat (off + rem), wr_bytes m off (bytes P off rem))"
  using assms
proof (induction mx off rem arbitrary: m rule: pieces.induct)
  case (1 mx off rem)
  show ?case
  proof (cases "rem = 0")
    case False
    let ?l = "piece_len mx rem"
    note l = piece_len_pos [OF "1.prems"(1), of rem]
    have "unat (word_of_nat off :: u16) = off" using "1.prems"(2) by (simp add: unat_of_nat)
    moreover have "rem = ?l + (rem - ?l)" using l False by simp
    then have "bytes P off rem = bytes P off ?l @ bytes P (off + ?l) (rem - ?l)" by (metis bytes_append)
    moreover have "copy_frags (word_of_nat (off + ?l)) (wr_bytes m off (bytes P off ?l))
        (map (piece_frag P) (pieces mx (off + ?l) (rem - ?l))) =
        Inr (True, word_of_nat (off + ?l + (rem - ?l)),
          wr_bytes (wr_bytes m off (bytes P off ?l)) (off + ?l) (bytes P (off + ?l) (rem - ?l)))"
      using "1.prems" l False by (intro "1.IH") simp_all
    ultimately show ?thesis
      using "1.prems" l False by (simp add: pieces_step PAYLOAD_SIZE_def wr_bytes_join)
  qed simp
qed

text \<open>The memory in which the receiver finds each fragment.\<close>

definition carries :: "Datagram \<Rightarrow> u32 \<Rightarrow> mem \<times> nat \<Rightarrow> nat \<times> nat \<times> bool \<Rightarrow> bool" where
  "carries d identif mp pc \<longleftrightarrow>
     bytes (fst mp) (ip_of (snd mp)) (48 + fst (snd pc)) = frag_packet d identif pc"

lemma receive_rest:
  assumes "8 \<le> mx" "mx mod 8 = 0" "off mod 8 = 0" "off + rem < 65528" "0 < rem" "length (d_headers d) = 40"
    and "list_all2 (carries d identif) mps (pieces mx off rem)"
    and "rea_holds r i (frag_key d identif) fs" "ends_at fs off"
    and "copy_frags 0 junk fs = Inr (True, word_of_nat off, m0)"
    and "re_list (rea_table r ! i) = Some dd" "rea_ring r dd ps0 fs"
  shows "\<exists>r'. receive_all now junk mps r = Inr (replicate (length mps - 1) None @
      [Some (datagram_of (rea_table r ! i) (word_of_nat (off + rem)) (wr_bytes m0 off (bytes (d_payload d) off rem)))], r') \<and>
    rea_table r' = (rea_table r)[i := (rea_table r ! i)\<lparr>re_list := None, re_timestamp := 0\<rparr>] \<and> rea_size r' = rea_size r - 1 \<and>
    heap r' = (\<lambda>p. if p \<in> insert dd (set ps0) then None else heap r p) \<and> (\<forall>p. heap r' p \<noteq> None \<longrightarrow> p < fresh r')"
  using assms
proof (induction mx off rem arbitrary: mps r fs m0 ps0 rule: pieces.induct)
  case (1 mx off rem)
  let ?l = "piece_len mx rem" and ?P = "d_payload d"
  let ?pc = "(off, ?l, ?l < rem)"
  note l = piece_len_pos [OF "1.prems"(1,5)]
  have ps: "pieces mx off rem = ?pc # pieces mx (off + ?l) (rem - ?l)" using "1.prems"(1,5) by (rule pieces_step)
  obtain m pkt xs where mps: "mps = (m, pkt) # xs" and c: "carries d identif (m, pkt) ?pc"
    and rest: "list_all2 (carries d identif) xs (pieces mx (off + ?l) (rem - ?l))"
    using "1.prems"(7) unfolding ps by (auto simp: list_all2_Cons2)
  have lt: "off + ?l < 65528" using l "1.prems"(4) by simp
  note f = frag_packet_in_memory [OF "1.prems"(6,3) lt, of m "ip_of pkt" identif "?l < rem"]
  have c': "bytes m (ip_of pkt) (48 + ?l) = frag_packet d identif ?pc" using c by (simp add: carries_def)
  have key: "pkt_key m (ip_of pkt) = frag_key d identif" and fr: "pkt_frag m (ip_of pkt) = piece_frag ?P ?pc"
    and lastf: "isLastFragment m (ip_of pkt) = (\<not> ?l < rem)"
    using f(1,2,4) [OF c'] by simp_all
  have un: "unat (word_of_nat off :: u16) = off" using lt by (simp add: unat_of_nat)
  have ins: "insert_frag (pkt_frag m (ip_of pkt)) fs = fs @ [piece_frag ?P ?pc]"
    using "1.prems"(9) un unfolding fr by (intro insert_frag_append) (simp add: piece_frag_def)
  have holds: "rea_holds r i (pkt_key m (ip_of pkt)) fs" using "1.prems"(8) key by simp
  have dd: "re_list (rea_table r ! i) = Some dd" "rea_ring r dd ps0 fs" "i < length (rea_table r)"
    using holds "1.prems"(11,12) by (auto simp: rea_holds_def)
  obtain r1 ps1 where r1: "rea_ring r1 dd ps1 (fs @ [piece_frag ?P ?pc])"
    "rea_table r1 = rea_table r" "rea_size r1 = rea_size r" "set ps1 = insert (fresh r) (set ps0)"
    "\<And>p. p \<notin> insert (fresh r) (insert dd (set ps0)) \<Longrightarrow> heap r1 p = heap r p"
    "rea_holds r1 i (frag_key d identif) (fs @ [piece_frag ?P ?pc])"
    and step: "reassembly now junk m pkt r =
       (if \<not> ?l < rem
        then (case copy_frags 0 junk (fs @ [piece_frag ?P ?pc]) of
                Inl f \<Rightarrow> Inl f
              | Inr (ok, plen, pm) \<Rightarrow>
                  if ok then bind_res (removeReaEntry i r1) (\<lambda>r. Inr (Some (datagram_of (rea_table r1 ! i) plen pm), r))
                  else Inr (None, r1))
        else Inr (None, r1))"
    by (rule reassembly_known [OF holds dd(1,2), of now junk]) (simp add: ins key lastf)
  have freed: "(\<lambda>p. if p \<in> insert dd (set ps1) then None else heap r1 p) = (\<lambda>p. if p \<in> insert dd (set ps0) then None else heap r p)"
  proof -
    have "heap r (fresh r) = None" using dd(2) unfolding rea_ring_def by blast
    then show ?thesis using r1(4,5) by (auto simp: fun_eq_iff)
  qed
  have list1: "re_list (rea_table r1 ! i) = Some dd" using dd(1) r1(2) by simp
  have copy: "copy_frags 0 junk (fs @ [piece_frag ?P ?pc]) =
      Inr (True, word_of_nat (off + ?l), wr_bytes m0 off (bytes ?P off ?l))"
    using "1.prems"(10) un lt by (simp add: copy_frags_append piece_frag_def PAYLOAD_SIZE_def)
  show ?case
  proof (cases "?l < rem")
    case True
    have "(off + ?l) mod 8 = 0"
      using piece_len_mult8 [OF "1.prems"(1,2) True] "1.prems"(3) by (metis add_0 mod_add_eq mod_0)
    moreover have "ends_at (fs @ [piece_frag ?P ?pc]) (off + ?l)" using un by (simp add: ends_at_def piece_frag_def)
    ultimately obtain r' where r': "receive_all now junk xs r1 = Inr (replicate (length xs - 1) None @
        [Some (datagram_of (rea_table r1 ! i) (word_of_nat (off + ?l + (rem - ?l)))
          (wr_bytes (wr_bytes m0 off (bytes ?P off ?l)) (off + ?l) (bytes ?P (off + ?l) (rem - ?l))))], r')"
      "rea_table r' = (rea_table r1)[i := (rea_table r1 ! i)\<lparr>re_list := None, re_timestamp := 0\<rparr>]" "rea_size r' = rea_size r1 - 1"
      "heap r' = (\<lambda>p. if p \<in> insert dd (set ps1) then None else heap r1 p)" "\<forall>p. heap r' p \<noteq> None \<longrightarrow> p < fresh r'"
      using "1.IH" [OF _ "1.prems"(1,2) _ _ _ "1.prems"(6) rest r1(6) _ copy list1 r1(1)] True l "1.prems"(4,5) by auto
    have "rem = ?l + (rem - ?l)" using l(2) by simp
    then have b: "bytes ?P off rem = bytes ?P off ?l @ bytes ?P (off + ?l) (rem - ?l)" by (metis bytes_append)
    have "xs \<noteq> []" using rest True "1.prems"(1) by (auto simp: pieces_step)
    then show ?thesis
      using step True r' r1(2,3) l b unfolding freed by (cases xs) (simp_all add: mps wr_bytes_join)
  next
    case False
    then have eq: "?l = rem" using l(2) by simp
    then have "xs = []" using rest by simp
    let ?h = "\<lambda>p. if p \<in> insert dd (set ps1) then None else heap r1 p"
    have "removeReaEntry i r1 = Inr (r1\<lparr>heap := ?h,
        rea_table := (rea_table r1)[i := (rea_table r1 ! i)\<lparr>re_list := None, re_timestamp := 0\<rparr>],
        rea_size := rea_size r1 - 1\<rparr>)"
      using dd(1) r1(2) by (intro removeReaEntry_ring [OF r1(1)]) simp_all
    moreover have "\<forall>p. (if p \<in> insert dd (set ps0) then None else heap r p) \<noteq> None \<longrightarrow> p < fresh r1"
    proof (intro allI impI)
      fix p assume "(if p \<in> insert dd (set ps0) then None else heap r p) \<noteq> None"
      then have "heap r1 p \<noteq> None" using fun_cong [OF freed, of p] by (auto split: if_splits)
      then show "p < fresh r1" using r1(1) unfolding rea_ring_def by blast
    qed
    ultimately show ?thesis
      using step False copy eq \<open>xs = []\<close> dd(3) r1(2,3) unfolding freed by (simp add: mps)
  qed
qed

definition rea_empty :: "rea \<Rightarrow> bool" where
  "rea_empty r \<longleftrightarrow> rea_size r = 0 \<and> length (rea_table r) = REASSEMBLY_TABLE_MAX_SIZE \<and>
     (\<forall>e \<in> set (rea_table r). re_list e = None \<and> re_timestamp e = 0) \<and>
     (\<forall>p. heap r p \<noteq> None \<longrightarrow> p < fresh r)"

lemma reassembly_first:
  assumes "rea_empty r" "frag_offset_of m (ip_of pkt) = 0"
  obtains r1 where "reassembly now junk m pkt r = Inr (None, r1)"
    "rea_holds r1 0 (pkt_key m (ip_of pkt)) [pkt_frag m (ip_of pkt)]"
    "re_headers_len (rea_table r1 ! 0) = 40" "take 40 (re_headers (rea_table r1 ! 0)) = bytes m (ip_of pkt) 40"
    "re_next_header (rea_table r1 ! 0) = m (ip_of pkt + 40)" "rea_size r1 = 1"
    "\<exists>e. rea_table r1 = (rea_table r)[0 := e]"
    "\<exists>d ps. re_list (rea_table r1 ! 0) = Some d \<and> rea_ring r1 d ps [pkt_frag m (ip_of pkt)] \<and>
       heap r = (\<lambda>p. if p \<in> insert d (set ps) then None else heap r1 p)"
proof -
  let ?ip = "ip_of pkt" and ?d = "fresh r"
  let ?r0 = "snd (initialize_frag_list r)"
  have len: "length (rea_table r) = 16" using assms(1) by (simp add: rea_empty_def REASSEMBLY_TABLE_MAX_SIZE_def)
  have e0: "re_list (rea_table r ! 0) = None" "re_timestamp (rea_table r ! 0) = 0"
    using assms(1) len by (simp_all add: rea_empty_def)
  then have hole: "find_hole r = Some 0"
    unfolding find_hole_def find_upt_Some_iff by (simp add: REASSEMBLY_TABLE_MAX_SIZE_def)
  have none: "checkReassemblyTable r k = None" for k
    using assms(1) by (simp add: checkReassemblyTable_def rea_empty_def)
  have "heap r ?d = None" using assms(1) by (auto simp: rea_empty_def)
  then have ring: "rea_ring ?r0 ?d [] []"
    using assms(1) by (auto simp: rea_ring_def ring_def initialize_frag_list_def rea_empty_def less_Suc_eq)
  obtain r1 ps where r1: "insert_frag_list ?d m ?ip ?r0 = Inr r1" "rea_ring r1 ?d ps (insert_frag (pkt_frag m ?ip) [])"
    "rea_table r1 = rea_table ?r0" "rea_size r1 = rea_size ?r0" "set ps = insert (fresh ?r0) (set [])"
    "\<And>p. p \<notin> insert (fresh ?r0) (insert ?d (set [])) \<Longrightarrow> heap r1 p = heap ?r0 p"
    by (rule insert_frag_list_ring [OF ring, of m ?ip]) blast
  have tab: "rea_table r1 = rea_table r" "rea_size r1 = 0"
    using r1(3,4) assms(1) by (simp_all add: initialize_frag_list_def rea_empty_def)
  let ?e = "\<lparr>re_src = ip_src m ?ip, re_dest = ip_dest m ?ip, re_identif = frag_identif m ?ip,
      re_headers = bytes m ?ip IPV6_HDR_LEN @ drop IPV6_HDR_LEN (re_headers (rea_table r1 ! 0)),
      re_headers_len = word_of_nat IPV6_HDR_LEN, re_list = Some ?d,
      re_next_header = m (?ip + 40), re_timestamp = now\<rparr>"
  let ?r2 = "r1\<lparr>rea_table := (rea_table r1)[0 := ?e], rea_size := rea_size r1 + 1\<rparr>"
  have run: "reassembly now junk m pkt r = Inr (None, ?r2)"
    using none assms(2) hole r1(1)
    by (simp add: reassembly_def Let_def appendReaTable_def initialize_frag_list_def)
  have e: "rea_table ?r2 ! 0 = ?e" using len tab by simp
  have "checkReassemblyTable ?r2 (pkt_key m ?ip) = Some 0"
    unfolding rea_find.search_Some_iff using len tab
    by (simp add: rea_hit_def pkt_key_def byteComp_def match_eq)
  moreover have r: "rea_ring ?r2 ?d ps [pkt_frag m ?ip]"
    using r1(2) by (simp add: rea_ring_def insert_frag_def)
  ultimately have h: "rea_holds ?r2 0 (pkt_key m ?ip) [pkt_frag m ?ip]"
    unfolding rea_holds_def using e len tab by auto
  have f0: "fresh ?r0 = Suc ?d" by (simp add: initialize_frag_list_def)
  have h0: "heap ?r0 p = heap r p" if "p \<noteq> ?d" for p using that by (simp add: initialize_frag_list_def)
  have "heap r p = (if p \<in> insert ?d (set ps) then None else heap ?r2 p)" for p
  proof (cases "p \<in> insert ?d (set ps)")
    case True
    then have "p = Suc ?d \<or> p = ?d" unfolding r1(5) f0 by auto
    then have "\<not> p < fresh r" by (elim disjE) simp_all
    then have "heap r p = None" using assms(1) unfolding rea_empty_def by blast
    then show ?thesis using True by (simp only: if_True)
  next
    case False
    then have "heap r1 p = heap ?r0 p" "p \<noteq> ?d" using r1(5,6) by auto
    then have "heap ?r2 p = heap r p" using h0 by simp
    then show ?thesis using False by (simp only: if_False)
  qed
  then have "heap r = (\<lambda>p. if p \<in> insert ?d (set ps) then None else heap ?r2 p)" by (rule ext)
  moreover have "re_list (rea_table ?r2 ! 0) = Some ?d" by (simp only: e rea_entry.simps)
  ultimately have last: "\<exists>d ps. re_list (rea_table ?r2 ! 0) = Some d \<and> rea_ring ?r2 d ps [pkt_frag m ?ip] \<and>
       heap r = (\<lambda>p. if p \<in> insert d (set ps) then None else heap ?r2 p)" using r by blast
  have "rea_table ?r2 = (rea_table r)[0 := ?e]" using tab(1) by simp
  then have tab0: "\<exists>e. rea_table ?r2 = (rea_table r)[0 := e]" by blast
  show thesis
    by (rule that [OF run h _ _ _ _ tab0 last]) (use e tab in \<open>simp_all add: len_defs\<close>)
qed

lemma frag_frame_carries:
  assumes "frag_ready s d n" "l \<le> 1458" "bytes m (ip_of pkt) 1506 = drop 14 (frag_frame s n d identif (off, l, mf))"
  shows "carries d identif (m, pkt) (off, l, mf)"
proof -
  have n: "n < MAXNDENTRY"
    using assms(1) nd_ip.search_Some_iff unfolding frag_ready_def frag_hop_def
    by (metis (no_types, lifting) option.case_eq_if option.collapse)
  have ml: "length (n_macAddr (NDCache s ! n)) = 6" "length (own_mac s 14) = 6" "length (d_headers d) = 40"
    using assms(1) nd_inv_nth [OF _ n] length_own_mac unfolding frag_ready_def by (auto simp: len_defs)
  have "bytes m (ip_of pkt) 1506 = frag_packet d identif (off, l, mf) @ replicate (1458 - l) 0"
    using assms(3) ml by (simp add: frag_frame_def)
  then have "take (48 + l) (bytes m (ip_of pkt) 1506) = frag_packet d identif (off, l, mf)"
    using length_frag_packet [OF ml(3), of identif off l mf] by simp
  then show ?thesis using assms(2) by (simp add: carries_def take_bytes)
qed

text \<open>C6: a datagram survives fragmentation. When \<^verbatim>\<open>fragmentDatagram\<close> (called without the flag that makes it
  leave out fragments for a test) sends a datagram of more than one packet and less than 65528 bytes of payload over an
  MTU between 56 and 1506, and an idle receiver (no entry in the table, every slot reusable) gets the frames in the order
  they were sent, then \<^verbatim>\<open>reassembly\<close> hands over nothing for all frames but the last, and for the last one the datagram:
  the same payload and the same header with the payload's length. Afterwards the receiver is idle again: every slot has
  no list and time stamp 0, so that the search for a free slot takes it again, and every node is back on the heap.\<close>

theorem fragment_round_trip:
  assumes "frag_ready s d n" and "56 \<le> unat (MTU s)" and "unat (MTU s) \<le> 1506"
    and "unat (MTU s) < 40 + unat (d_payload_len d)" and "unat (d_payload_len d) < 65528"
    and "fragmentDatagram others ticks d False s = Inr s'" and "rea_empty r"
    and "list_all2 (\<lambda>mp f. bytes (fst mp) (ip_of (snd mp)) 1506 = drop 14 f) mps (drop (length (sent s)) (sent s'))"
  shows "\<exists>d' r'. receive_all now junk mps r = Inr (replicate (length mps - 1) None @ [Some d'], r') \<and>
    d_payload_len d' = d_payload_len d \<and>
    bytes (d_payload d') 0 (unat (d_payload_len d)) = bytes (d_payload d) 0 (unat (d_payload_len d)) \<and>
    d_headers d' = take 4 (d_headers d) @ be16 (d_payload_len d) @ drop 6 (d_headers d) \<and>
    rea_empty r' \<and> heap r' = heap r"
proof -
  let ?L = "unat (d_payload_len d)" and ?mx = "frag_size (MTU s)" and ?id = "getIdentif ticks" and ?hd = "d_headers d"
  let ?ps = "pieces ?mx 0 ?L" and ?l = "piece_len (frag_size (MTU s)) (unat (d_payload_len d))"
  note mx = frag_size_bounds [OF assms(2,3)]
  have hd: "length ?hd = 40" using assms(1) by (simp add: frag_ready_def)
  have "sent s' = sent s @ map (frag_frame s n d ?id) ?ps"
    using assms(6) unfolding fragmentDatagram_eq [OF assms(1-4)] Let_def by (auto split: if_splits)
  then have A: "list_all2 (\<lambda>mp pc. bytes (fst mp) (ip_of (snd mp)) 1506 = drop 14 (frag_frame s n d ?id pc)) mps ?ps"
    using assms(8) by (simp add: list_all2_map2)
  have B: "list_all2 (carries d ?id) mps ?ps"
  proof (rule list.rel_mono_strong [OF A])
    fix mp pc
    assume x: "pc \<in> set ?ps" "bytes (fst mp) (ip_of (snd mp)) 1506 = drop 14 (frag_frame s n d ?id pc)"
    obtain off l mf where pc: "pc = (off, l, mf)" by (cases pc)
    then have "l \<le> ?mx" using pieces_offsets [OF mx(1,3), of 0 ?L] x(1) by auto
    then show "carries d ?id mp pc"
      using frag_frame_carries [OF assms(1), of l "fst mp" "snd mp"] x(2) mx(2) unfolding pc by simp
  qed
  have L: "0 < ?L" "?mx < ?L" using assms(2,4) mx(2) by (simp_all add: frag_size_def)
  then have l: "?l = ?mx" by (simp add: piece_len_def)
  have ps: "?ps = (0, ?mx, True) # pieces ?mx ?mx (?L - ?mx)"
    using pieces_step [OF mx(1) L(1), of 0] L(2) by (simp add: l)
  obtain m pkt xs where mps: "mps = (m, pkt) # xs" and c: "carries d ?id (m, pkt) (0, ?mx, True)"
    and rest: "list_all2 (carries d ?id) xs (pieces ?mx ?mx (?L - ?mx))"
    using B unfolding ps by (auto simp: list_all2_Cons2)
  have lt: "0 + ?mx < 65528" using mx(2) by simp
  note f = frag_packet_in_memory [OF hd mod_0 lt c [unfolded carries_def, simplified]]
  obtain r1 where r1: "reassembly now junk m pkt r = Inr (None, r1)"
    "rea_holds r1 0 (pkt_key m (ip_of pkt)) [pkt_frag m (ip_of pkt)]"
    "re_headers_len (rea_table r1 ! 0) = 40" "take 40 (re_headers (rea_table r1 ! 0)) = bytes m (ip_of pkt) 40"
    "re_next_header (rea_table r1 ! 0) = m (ip_of pkt + 40)" "rea_size r1 = 1"
    "\<exists>e. rea_table r1 = (rea_table r)[0 := e]"
    "\<exists>d ps. re_list (rea_table r1 ! 0) = Some d \<and> rea_ring r1 d ps [pkt_frag m (ip_of pkt)] \<and>
       heap r = (\<lambda>p. if p \<in> insert d (set ps) then None else heap r1 p)"
    by (rule reassembly_first [OF assms(7), of m pkt now junk]) (use f(3) in simp)
  have holds: "rea_holds r1 0 (frag_key d ?id) [piece_frag (d_payload d) (0, ?mx, True)]"
    using r1(2) f(1,2) by simp
  obtain dd ps0 where ring1: "re_list (rea_table r1 ! 0) = Some dd" "rea_ring r1 dd ps0 [piece_frag (d_payload d) (0, ?mx, True)]"
    "heap r = (\<lambda>p. if p \<in> insert dd (set ps0) then None else heap r1 p)" using r1(8) f(2) by auto
  have copy: "copy_frags 0 junk [piece_frag (d_payload d) (0, ?mx, True)] =
      Inr (True, word_of_nat ?mx, wr_bytes junk 0 (bytes (d_payload d) 0 ?mx))"
    using mx(2) by (simp add: PAYLOAD_SIZE_def)
  obtain r' where r': "receive_all now junk xs r1 = Inr (replicate (length xs - 1) None @
      [Some (datagram_of (rea_table r1 ! 0) (word_of_nat (?mx + (?L - ?mx)))
        (wr_bytes (wr_bytes junk 0 (bytes (d_payload d) 0 ?mx)) ?mx (bytes (d_payload d) ?mx (?L - ?mx))))], r')"
    "rea_table r' = (rea_table r1)[0 := (rea_table r1 ! 0)\<lparr>re_list := None, re_timestamp := 0\<rparr>]" "rea_size r' = rea_size r1 - 1"
    "heap r' = (\<lambda>p. if p \<in> insert dd (set ps0) then None else heap r1 p)" "\<forall>p. heap r' p \<noteq> None \<longrightarrow> p < fresh r'"
    using receive_rest [OF mx(1,3,3) _ _ hd rest holds _ copy ring1(1,2), of now] L assms(5) by (auto simp: ends_at_def)
  have idle: "rea_empty r'"
  proof -
    obtain e where "rea_table r1 = (rea_table r)[0 := e]" using r1(7) by blast
    then have "rea_table r' = (rea_table r)[0 := (rea_table r1 ! 0)\<lparr>re_list := None, re_timestamp := 0\<rparr>]" using r'(2) by simp
    then show ?thesis
      using assms(7) r'(3,5) r1(6) set_update_subset_insert [of "rea_table r" 0 "(rea_table r1 ! 0)\<lparr>re_list := None, re_timestamp := 0\<rparr>"]
      by (auto simp: rea_empty_def)
  qed
  have heap: "heap r' = heap r" using r'(4) ring1(3) by simp
  have "xs \<noteq> []" using rest L mx(1) by (auto simp: pieces_step)
  then have out: "receive_all now junk mps r = Inr (replicate (length mps - 1) None @
      [Some (datagram_of (rea_table r1 ! 0) (d_payload_len d) (wr_bytes junk 0 (bytes (d_payload d) 0 ?L)))], r')"
  proof -
    have "bytes (d_payload d) 0 ?L = bytes (d_payload d) 0 ?mx @ bytes (d_payload d) ?mx (?L - ?mx)"
      using bytes_append [of "d_payload d" 0 ?mx "?L - ?mx"] L(2) by simp
    then show ?thesis using r1(1) r'(1) L(2) \<open>xs \<noteq> []\<close> by (cases xs) (simp_all add: mps wr_bytes_join)
  qed
  have "updateDatagramHeaders (take 40 (re_headers (rea_table r1 ! 0))) (d_payload_len d) (re_next_header (rea_table r1 ! 0)) =
      take 4 ?hd @ be16 (d_payload_len d) @ drop 6 ?hd"
  proof -
    have "?hd ! 6 # drop 7 ?hd = drop 6 ?hd" using hd Cons_nth_drop_Suc [of 6 ?hd] by simp
    then show ?thesis
      unfolding r1(4,5) f(5,6) using hd by (simp add: updateDatagramHeaders_def nth_append list_update_append be16_def)
  qed
  then show ?thesis
    using out idle heap r1(3) by (auto simp: datagram_of_def mem_simps)
qed

theorem reassembly_refines_list_witness:
  "\<exists>r r' f. rea_holds r 0 (pkt_key (zero_block(57 := 1)) (ip_of 0)) [f] \<and>
     reassembly 0 zero_block (zero_block(57 := 1)) 0 r = Inr (None, r')"
proof -
  let ?m = "zero_block(57 := 1)"
  have e: "rea_empty rea_boot" by (simp add: rea_empty_def rea_boot_def)
  have off: "frag_offset_of ?m (ip_of 0) = 0" and last: "\<not> isLastFragment ?m (ip_of 0)"
    by (simp_all add: frag_offset_of_def isLastFragment_def rd16_def ntohs_def layout_defs zero_block_def)
  obtain r1 where r1: "rea_holds r1 0 (pkt_key ?m (ip_of 0)) [pkt_frag ?m (ip_of 0)]"
    using reassembly_first [OF e off, of 0 zero_block] by blast
  from reassembly_refines_list [OF r1, of 0 zero_block] last
  obtain r' where "reassembly 0 zero_block ?m 0 r1 = Inr (None, r')" by (auto simp: Let_def)
  with r1 show ?thesis by blast
qed

theorem fragment_round_trip_witness:
  "\<exists>(s' :: net) mps d' r'. length (sent s') = 2 \<and> receive_all 0 zero_block mps rea_boot = Inr ([None, Some d'], r') \<and> d_payload_len d' = 1600"
proof -
  define s where "s = (net_boot True if_boot zero_block)\<lparr>MTU := 1500\<rparr>"
  define d where "d = \<lparr>d_headers_len = 40, d_payload_len = 1600, d_headers = replicate 40 0, d_payload = zero_block\<rparr>"
  have ready: "frag_ready s d 0"
    using nd_inv_init nd_init_lookup
    by (simp add: frag_ready_def s_def d_def macs_ok_def frag_hop_def ETH_ADDR_LEN_def IPV6_ASIZE_def)
  have un: "unat (1500 :: u32) = 1500" "unat (1600 :: u16) = 1600" by simp_all
  have p: "pieces (frag_size 1500) 0 1600 = [(0, 1448, True), (1448, 152, False)]"
    by (simp add: frag_size_def pieces_step piece_len_def)
  let ?frames = "map (frag_frame s 0 d (getIdentif 0)) [(0, 1448, True), (1448, 152, False)]"
  let ?s' = "s\<lparr>ipv6_free := 38, sent := ?frames\<rparr>"
  have run: "fragmentDatagram (\<lambda>t. t) 0 d False s = Inr ?s'"
    using fragmentDatagram_eq [OF ready, of "\<lambda>t. t" 0] p by (simp add: s_def d_def)
  have len: "length f = 1520" if "f \<in> set ?frames" for f
    using that nd_inv_init
    by (auto simp: frag_frame_def othernet_fix_def length_frag_packet d_def s_def own_mac_def NDCache_init_def
        MAXNDENTRY_def ETH_ADDR_LEN_def)
  define mps where "mps = map (\<lambda>f. (wr_bytes zero_block 14 (drop 14 f), 0 :: nat)) ?frames"
  have L: "list_all2 (\<lambda>mp f. bytes (fst mp) (ip_of (snd mp)) 1506 = drop 14 f) mps (drop (length (sent s)) (sent ?s'))"
  proof -
    have "bytes (wr_bytes zero_block 14 (drop 14 f)) (ip_of 0) 1506 = drop 14 f" if "f \<in> set ?frames" for f
      using len [OF that] by (simp add: ip_of_def ETH_HDR_LEN_def mem_simps)
    moreover have "sent s = []" by (simp add: s_def)
    ultimately show ?thesis by (simp add: mps_def)
  qed
  have mtu: "56 \<le> unat (MTU s)" "unat (MTU s) \<le> 1506" "unat (MTU s) < 40 + unat (d_payload_len d)"
    "unat (d_payload_len d) < 65528" by (simp_all add: s_def d_def)
  have e: "rea_empty rea_boot" by (simp add: rea_empty_def rea_boot_def)
  from fragment_round_trip [OF ready mtu run e L, of 0 zero_block] obtain d' r' where
    "receive_all 0 zero_block mps rea_boot = Inr (replicate (length mps - 1) None @ [Some d'], r')"
    "d_payload_len d' = d_payload_len d" by blast
  moreover have "replicate (length mps - 1) None @ [Some d'] = [None, Some d']" by (simp add: mps_def)
  ultimately have "receive_all 0 zero_block mps rea_boot = Inr ([None, Some d'], r') \<and> d_payload_len d' = 1600"
    by (simp only: d_def Datagram.select_convs simp_thms)
  moreover have "length (sent ?s') = 2" by simp
  ultimately show ?thesis by blast
qed

end
