(* ===== verification/Nd_Handle.thy ===== *)
theory Nd_Handle
  imports Nd_Send
begin

text \<open>
  The handlers of the neighbour-discovery messages: \<^verbatim>\<open>radvert_handler\<close> and its option
  readers (\<^verbatim>\<open>net/radvert.c\<close>), \<^verbatim>\<open>rsolicit_handler\<close> (\<^verbatim>\<open>net/rsolicit.c\<close>), \<^verbatim>\<open>nsolicit_handler\<close>
  (\<^verbatim>\<open>net/nsolicit.c\<close>), \<^verbatim>\<open>nadvert_handler\<close> (\<^verbatim>\<open>net/nadvert.c\<close>), and the dispatcher
  \<^verbatim>\<open>icmpv6_in\<close> (\<^verbatim>\<open>net/icmpv6.c\<close>).
\<close>

section \<open>Router advertisements\<close>

text \<open>
  \<^verbatim>\<open>option\<close> is a \<^verbatim>\<open>char *\<close>, so its length byte is sign-extended before it is multiplied by 8 in
  16 bits. What \<^verbatim>\<open>get_router_link_addr\<close> copies behind the six bytes of \<^verbatim>\<open>router_mac_addr\<close> is
  recorded as an overrun.
\<close>

definition opt_octets :: "mem \<Rightarrow> nat \<Rightarrow> u16" where
  "opt_octets m opt = scast (m (opt + 1))"

definition get_router_link_addr :: "nat \<Rightarrow> net \<Rightarrow> u16 \<times> net" where
  "get_router_link_addr opt s =
     (let m = mem s; curr_option_len_octets = opt_octets m opt;
          option_payload_len = unat (curr_option_len_octets * 8 - 2);
          s = s\<lparr>router_mac_addr := bytes m (opt + 2) (min ETH_ADDR_LEN option_payload_len) @
                  drop option_payload_len (router_mac_addr s)\<rparr>;
          s = (if ETH_ADDR_LEN < option_payload_len
               then s\<lparr>overrun := overrun s @ [(''router_mac_addr'',
                        bytes m (opt + 8) (option_payload_len - ETH_ADDR_LEN))]\<rparr>
               else s)
      in (curr_option_len_octets * 8, s))"

definition get_MTU :: "nat \<Rightarrow> net \<Rightarrow> u16 \<times> net" where
  "get_MTU opt s = (opt_octets (mem s) opt * 8, s\<lparr>MTU := ntohl (rd32 (mem s) (opt + 4))\<rparr>)"

definition get_prefix_default :: "nat \<Rightarrow> net \<Rightarrow> u16 \<times> net" where
  "get_prefix_default opt s =
     (let m = mem s;
          s = s\<lparr>prefix_ipv6_default := \<lparr>pfx_ipv6 = bytes m (opt + 16) IPV6_ASIZE, pfx_length = m (opt + 2)\<rparr>\<rparr>;
          s = s\<lparr>option_prefix_default := bytes m opt 32\<rparr>;
          s = s\<lparr>ipv6_addr := pfx_ipv6 (prefix_ipv6_default s)\<rparr>;
          s = s\<lparr>ipv6_addr := take 8 (ipv6_addr s) @ take 8 (drop 8 (link_local s))\<rparr>;
          s = s\<lparr>hasIPv6Addr := 1\<rparr>
      in (opt_octets m opt * 8, s))"

text \<open>The option loop; \<open>None\<close> is a call that never returns. The C loop index is a 32-bit integer.\<close>

definition radvert_option :: "nat \<Rightarrow> u32 \<Rightarrow> nat \<Rightarrow> net \<Rightarrow> u16 \<times> net" where
  "radvert_option options options_len opt s =
     (if mem s opt = 1 then get_router_link_addr opt s
      else if mem s opt = 3 then get_prefix_default opt s
      else if mem s opt = 5 then get_MTU opt s
      else (ucast options_len, s))"

partial_function (option) radvert_loop :: "nat \<Rightarrow> u32 \<Rightarrow> u32 \<Rightarrow> net \<Rightarrow> net option" where
  "radvert_loop options options_len i s =
     (if i < options_len
      then radvert_loop options options_len
             (i + ucast (fst (radvert_option options options_len (options + unat i) s)))
             (snd (radvert_option options options_len (options + unat i) s))
      else Some s)"

definition radvert_handler :: "nat \<Rightarrow> u32 \<Rightarrow> net \<Rightarrow> net res" where
  "radvert_handler ad pload s =
     (let s = s\<lparr>radvert_from_router := bytes (mem s) ad RADVERTSIZE\<rparr>;
          options_len = pload - word_of_nat RADVERTSIZE;
          options = ad + RADVERTSIZE
      in opt_res Diverges (radvert_loop options options_len 0 s))"

section \<open>Router solicitations\<close>

definition rsolicit_handler :: "nat \<Rightarrow> net \<Rightarrow> net res" where
  "rsolicit_handler pkt s =
     (let iface = net_iface (mem s) pkt in
      if \<not> host s
      then bind_res (sendipv6pkt ROUTERA (if_macbcast (if_tab s (unat iface))) [] (ucast iface) s)
             (\<lambda>(r, s). Inr s)
      else Inr s)"

section \<open>Neighbour solicitations and advertisements\<close>

text \<open>
  \<open>others\<close> is what the other processes do to the state while the handler of a new neighbour's
  solicitation sleeps.
\<close>

definition set_nd :: "nat \<Rightarrow> (NDCacheEntry \<Rightarrow> NDCacheEntry) \<Rightarrow> net \<Rightarrow> net" where
  "set_nd i f s = s\<lparr>NDCache := (NDCache s)[i := f (NDCache s ! i)]\<rparr>"

definition nsol_entry :: "byte list \<Rightarrow> ndcache \<Rightarrow> nat option \<times> ndcache" where
  "nsol_entry src nd =
     (case lookupNDEntry nd src of
        Some i \<Rightarrow> (Some i, nd)
      | None \<Rightarrow>
         (case getAvailNDEntry nd of (entry, nd) \<Rightarrow>
            (case entry of
               None \<Rightarrow> (None, nd)
             | Some i \<Rightarrow> (Some i, nd[i := (nd ! i)\<lparr>n_ipAddr := src\<rparr>]))))"

definition nsolicit_handler :: "(net \<Rightarrow> net) \<Rightarrow> nat \<Rightarrow> net \<Rightarrow> net res" where
  "nsolicit_handler others pkt s =
     (let ip = ip_of pkt; msg = msg_of pkt; m = mem s;
          exists = (lookupNDEntry (NDCache s) (ip_src m ip) \<noteq> None);
          (entry, nd) = nsol_entry (ip_src m ip) (NDCache s);
          s = s\<lparr>NDCache := nd\<rparr>
      in case entry of
           None \<Rightarrow> Inr s
         | Some i \<Rightarrow>
             (let s = set_nd i (\<lambda>e. e\<lparr>n_ttl := MAXNDTTL, n_state := NDREACHABLE\<rparr>) s in
              case getmac_sol m msg of
                None \<Rightarrow> Inr s
              | Some mac \<Rightarrow>
                  (let s = set_nd i (\<lambda>e. e\<lparr>n_macAddr := bytes m mac ETH_ADDR_LEN\<rparr>) s;
                       a = n_ipAddr (NDCache s ! i);
                       iface = ucast (net_iface m pkt);
                       s = s\<lparr>fwd_tab := snd (insertNewFwdTabEntry a 128 a iface (fwd_tab s))\<rparr>;
                       target = bytes m (msg + 8) IPV6_ASIZE
                   in bind_res (sendNAD target (net_src m pkt) (ip_src m ip) target iface s) (\<lambda>s.
                        if exists then Inr s
                        else
                          let s = others s; m = mem s in
                          sendNSOL (ip_dest m ip) (net_src m pkt) (ip_src m ip) (ip_src m ip)
                            (ucast (net_iface m pkt)) s))))"

definition nadvert_handler :: "nat \<Rightarrow> net \<Rightarrow> net" where
  "nadvert_handler pkt s =
     (let ip = ip_of pkt; msg = msg_of pkt; m = mem s in
      case lookupNDEntry (NDCache s) (ip_src m ip) of
        None \<Rightarrow> s
      | Some i \<Rightarrow>
          (let s = set_nd i (\<lambda>e. e\<lparr>n_ttl := MAXNDTTL, n_state := NDREACHABLE\<rparr>) s in
           case getmac_ad m msg of
             None \<Rightarrow> s
           | Some mac \<Rightarrow> set_nd i (\<lambda>e. e\<lparr>n_macAddr := bytes m mac ETH_ADDR_LEN\<rparr>) s))"

section \<open>\<open>icmpv6_in\<close>\<close>

definition default_router_mac :: "byte list" where
  "default_router_mac = [0x00, 0x24, 0xC4, 0xDC, 0xCB, 0xC0]"

text \<open>
  The default router's addresses, from the source of its advertisement. The two copies to
  offset 8 of a 16-byte array are 16 bytes long; the second half leaves the array.
\<close>

definition learn_router :: "nat \<Rightarrow> net \<Rightarrow> net" where
  "learn_router pkt s =
     (let src8 = bytes (mem s) (ip_of pkt + 16) IPV6_ASIZE;
          s = s\<lparr>router_ip_addr := take 8 (pfx_ipv6 (prefix_ipv6_default s)) @ take 8 src8,
                overrun := overrun s @ [(''router_ip_addr'', drop 8 src8)]\<rparr>;
          s = s\<lparr>router_link_local := [0xFE, 0x80] @ replicate 6 0 @ take 8 src8,
                overrun := overrun s @ [(''router_link_local'', drop 8 src8)]\<rparr>;
          s = s\<lparr>router_snm_addr := [0xFF, 0x02] @ replicate 9 0 @ [0x01, 0xFF] @ drop 13 (router_link_local s)\<rparr>;
          s = s\<lparr>router_mac_snm := [0x33, 0x33] @ drop 12 (router_snm_addr s)\<rparr>
      in s\<lparr>router_link_local_mac := [0x33, 0x33] @ drop 12 (router_link_local s)\<rparr>)"

definition icmpv6_in :: "(net \<Rightarrow> net) \<Rightarrow> nat \<Rightarrow> net \<Rightarrow> net res" where
  "icmpv6_in others pkt s =
     (let ip = ip_of pkt; msg = msg_of pkt;
          pload = ucast (ntohs (ip_payload_len (mem s) ip));
          type = mem s msg
      in if type = ROUTERA then
           bind_res (radvert_valid (mem s) ip) (\<lambda>(v, m).
             let s = s\<lparr>mem := m\<rparr> in
             if \<not> v then Inr s
             else if \<not> host s \<and> match (net_src m pkt) default_router_mac ETH_ADDR_LEN = 0 then Inr s
             else bind_res (radvert_handler msg pload s) (\<lambda>s.
               let s = learn_router pkt s in
               if \<not> host s
               then bind_res (sendipv6pkt ROUTERA (if_macbcast (if_tab s 1)) [] 1 s) (\<lambda>(r, s).
                    bind_res (sendipv6pkt ROUTERA (if_macbcast (if_tab s 2)) [] 2 s) (\<lambda>(r, s). Inr s))
               else Inr s))
         else if type = ROUTERS then
           (if host s then Inr s
            else bind_res (rsolicit_valid (mem s) ip) (\<lambda>(v, m).
              let s = s\<lparr>mem := m\<rparr> in if \<not> v then Inr s else rsolicit_handler pkt s))
         else if type = NEIGHBS then
           bind_res (nsolicit_valid s (mem s) ip) (\<lambda>v. if \<not> v then Inr s else nsolicit_handler others pkt s)
         else if type = NEIGHBA then
           bind_res (nadvert_valid s (mem s) ip) (\<lambda>v. Inr (if \<not> v then s else nadvert_handler pkt s))
         else if type = ECHOREQ then
           sendEchoResp (ip_dest (mem s) ip) (net_src (mem s) pkt) (ip_src (mem s) ip)
             (ntohs (rd16 (mem s) (msg + 4))) (ntohs (rd16 (mem s) (msg + 6))) s
         else Inr s)"

section \<open>The options a router wrote are read back\<close>

lemma mtu_read_back:
  assumes "bytes m a 4 = [0, 0] @ be16 (ucast (w :: u32))"
  shows "ntohl (rd32 m a) = w AND mask 16"
proof -
  have "bytes m a 4 = [m a, m (a + 1), m (a + 2), m (a + 3)]"
    by (simp add: bytes_def upt_rec numeral_eq_Suc)
  then have m: "m a = 0" "m (a + 1) = 0" "m (a + 2) = ucast (drop_bit 8 (ucast w :: u16))"
    "m (a + 3) = ucast (ucast w :: u16)"
    using assms by (simp_all add: be16_def)
  have "bit (ntohl (rd32 m a)) n = bit (w AND mask 16) n" if "n < 32" for n
  proof (rule bit32_cases [OF that])
    fix j assume j: "(j :: nat) < 8" "n = j"
    then show ?thesis by (simp only: bit_ntohl_rd32 m) (simp add: bit_simps)
  next
    fix j assume j: "(j :: nat) < 8" "n = j + 8"
    then show ?thesis by (simp only: bit_ntohl_rd32 m) (simp add: bit_simps add.commute)
  next
    fix j assume j: "(j :: nat) < 8" "n = j + 16"
    then show ?thesis by (simp only: bit_ntohl_rd32 m) (simp add: bit_simps)
  next
    fix j assume j: "(j :: nat) < 8" "n = j + 24"
    then show ?thesis by (simp only: bit_ntohl_rd32 m) (simp add: bit_simps)
  qed
  then show ?thesis by (intro bit_eqI) simp
qed

lemma radvert_option_mem [simp]: "mem (snd (radvert_option o1 n opt s)) = mem s"
  by (simp add: radvert_option_def get_router_link_addr_def get_MTU_def get_prefix_default_def Let_def)

lemma radvert_option_fst:
  "mem s opt \<in> {1, 3, 5} \<Longrightarrow> fst (radvert_option o1 n opt s) = opt_octets (mem s) opt * 8"
  by (auto simp: radvert_option_def get_router_link_addr_def get_MTU_def get_prefix_default_def Let_def)

lemma radvert_loop_stuck:
  assumes "i < options_len" "m (options + unat i) \<in> {1, 3, 5}" "opt_octets m (options + unat i) = 0"
    and "mem s = m"
  shows "radvert_loop options options_len i s = None"
proof (rule ccontr)
  assume "radvert_loop options options_len i s \<noteq> None"
  then obtain r where r: "radvert_loop options options_len i s = Some r" by blast
  have "\<not> (i < options_len \<and> m (options + unat i) \<in> {1, 3, 5} \<and> opt_octets m (options + unat i) = 0 \<and> mem s = m)"
  proof (rule radvert_loop.raw_induct [where P = "\<lambda>options options_len i s r.
        \<not> (i < options_len \<and> m (options + unat i) \<in> {1, 3, 5} \<and>
           opt_octets m (options + unat i) = 0 \<and> mem s = m)", OF _ r])
    fix f options options_len i s r
    assume IH: "\<And>options options_len i s r. f options options_len i s = Some r \<Longrightarrow>
        \<not> (i < options_len \<and> m (options + unat i) \<in> {1, 3, 5} \<and>
           opt_octets m (options + unat i) = 0 \<and> mem s = m)"
      and eq: "(if i < options_len
         then f options options_len (i + ucast (fst (radvert_option options options_len (options + unat i) s)))
                (snd (radvert_option options options_len (options + unat i) s))
         else Some s) = Some r"
    show "\<not> (i < options_len \<and> m (options + unat i) \<in> {1, 3, 5} \<and>
        opt_octets m (options + unat i) = 0 \<and> mem s = m)"
    proof
      assume A: "i < options_len \<and> m (options + unat i) \<in> {1, 3, 5} \<and>
        opt_octets m (options + unat i) = 0 \<and> mem s = m"
      then have "fst (radvert_option options options_len (options + unat i) s) = 0"
        using radvert_option_fst [of s "options + unat i"] by auto
      with eq A have "f options options_len i (snd (radvert_option options options_len (options + unat i) s)) = Some r"
        by simp
      from IH [OF this] A show False by simp
    qed
  qed
  with assms show False by blast
qed

text \<open>An advertisement whose first option has a known type and the length 0 (which RFC 4861
  forbids) is never finished: \<^verbatim>\<open>radvert_handler\<close> stays in its option loop.\<close>

theorem radvert_zero_length_option:
  assumes "mem s (ad + 16) \<in> {1, 3, 5}" and "mem s (ad + 17) = 0" and "16 < pload"
  shows "radvert_handler ad pload s = Inl Diverges"
proof -
  have "opt_octets (mem s) (ad + 16) = 0" using assms(2) by (simp add: opt_octets_def add.commute [of ad])
  moreover have "(0 :: u32) < pload - 16"
    using assms(3) by (metis eq_iff_diff_eq_0 less_irrefl word_gt_0)
  ultimately show ?thesis
    using assms(1) by (simp add: radvert_handler_def RADVERTSIZE_def Let_def
      radvert_loop_stuck [of 0 "pload - 16" "mem s" "ad + 16"])
qed

lemma get_router_link_addr_8:
  assumes "mem s (opt + 1) = 1" "length (router_mac_addr s) = ETH_ADDR_LEN"
  shows "get_router_link_addr opt s = (8, s\<lparr>router_mac_addr := bytes (mem s) (opt + 2) 6\<rparr>)"
proof -
  have "opt_octets (mem s) opt = 1" using assms(1) by (simp add: opt_octets_def)
  moreover have "unat ((1 :: u16) * 8 - 2) = 6" by simp
  ultimately show ?thesis using assms(2) by (simp only: get_router_link_addr_def Let_def) (simp add: len_defs)
qed

lemma radvert_loop_step:
  assumes "i < options_len" "radvert_option options options_len (options + unat i) s = (n, s')"
    and "j = i + ucast n"
  shows "radvert_loop options options_len i s = radvert_loop options options_len j s'"
  using assms by (subst radvert_loop.simps) simp

text \<open>C30: router advertisements are read back. When the memory behind the 16-byte message holds the 48
  bytes that another router's \<^verbatim>\<open>fillOptions\<close> wrote for an advertisement (with whatever lies on its stack behind the array of
  option types), and that router has a prefix option that it has itself learned (of type 3 and length 4, not the zeros it
  starts with), \<^verbatim>\<open>radvert_handler\<close> learns that router's MAC address, its MTU modulo 65536, and its prefix,
  and forms the global address from the prefix and the low half of the link-local address. Nothing
  is written outside the variables.\<close>

theorem radvert_handler_reads_options:
  assumes "bytes (mem s) (ad + 16) 48 = bytes (fillOptions r m p (ra_option_types junk) 48 iface) p 48"
    and "length (own_mac r iface) = ETH_ADDR_LEN" and "length (option_prefix_default r) = 32"
    and "take 2 (option_prefix_default r) = [3, 4]" and "length (router_mac_addr s) = ETH_ADDR_LEN"
  shows "\<exists>s'. radvert_handler ad 64 s = Inr s' \<and> router_mac_addr s' = own_mac r iface \<and>
    MTU s' = MTU r AND mask 16 \<and> option_prefix_default s' = option_prefix_default r \<and>
    prefix_ipv6_default s' = \<lparr>pfx_ipv6 = drop 16 (option_prefix_default r), pfx_length = option_prefix_default r ! 2\<rparr> \<and>
    ipv6_addr s' = take 8 (drop 16 (option_prefix_default r)) @ take 8 (drop 8 (link_local s)) \<and>
    hasIPv6Addr s' = 1 \<and> overrun s' = overrun s \<and> mem s' = mem s"
proof -
  let ?p = "option_prefix_default r" and ?m = "mem s"
  let ?os = "option_one (own_mac r iface) @ option_MTU (MTU r) @ ?p"
  have B: "bytes ?m (ad + 16) 48 = ?os" using assms(1-3) fillOptions_ra_bytes [of r iface m p junk] by (simp add: ra_options_def own_mac_def)
  have len: "length (own_mac r iface) = 6" using assms(2) by (simp add: len_defs)
  have at: "?m (ad + 16 + k) = ?os ! k" if "k < 48" for k using B that by (metis nth_bytes)
  have sub: "bytes ?m (ad + 16 + k) n = take n (drop k ?os)" if "k + n \<le> 48" for k n
    using that by (simp add: B [symmetric] drop_bytes take_bytes)
  have "?p ! 0 = take 2 ?p ! 0" "?p ! 1 = take 2 ?p ! 1" by simp_all
  then have p: "?p ! 0 = 3" "?p ! 1 = 4" unfolding assms(4) by simp_all
  have t: "?m (ad + 16 + 0) = 1" "?m (ad + 16 + 1) = 1" "?m (ad + 16 + 8) = 5" "?m (ad + 16 + 9) = 1"
    "?m (ad + 16 + 16) = 3" "?m (ad + 16 + 17) = 4" "?m (ad + 16 + 18) = ?p ! 2"
    using at [of 0] at [of 1] at [of 8] at [of 9] at [of 16] at [of 17] at [of 18] p len
    by (simp_all add: option_one_def option_MTU_def nth_append)
  have mac: "bytes ?m (ad + 16 + 2) 6 = own_mac r iface" and pfx: "bytes ?m (ad + 16 + 16) 32 = ?p"
    and ip: "bytes ?m (ad + 16 + 32) 16 = drop 16 ?p"
    and mtu: "bytes ?m (ad + 16 + 12) 4 = [0, 0] @ be16 (ucast (MTU r))"
    using sub [of 2 6] sub [of 16 32] sub [of 32 16] sub [of 12 4] len assms(3)
    by (simp_all add: option_one_def option_MTU_def be16_def)
  let ?s0 = "s\<lparr>radvert_from_router := bytes ?m ad 16\<rparr>"
  let ?s1 = "?s0\<lparr>router_mac_addr := own_mac r iface\<rparr>"
  let ?s2 = "?s1\<lparr>MTU := MTU r AND mask 16\<rparr>"
  let ?s3 = "snd (get_prefix_default (ad + 32) ?s2)"
  have "radvert_option (ad + 16) 48 (ad + 16 + unat (0 :: u32)) ?s0 = (8, ?s1)"
    using t(1,2) mac assms(5) by (simp add: radvert_option_def get_router_link_addr_8)
  moreover have "radvert_option (ad + 16) 48 (ad + 16 + unat (8 :: u32)) ?s1 = (8, ?s2)"
    using t(3,4) mtu_read_back [OF mtu] by (simp add: radvert_option_def get_MTU_def opt_octets_def)
  moreover have "radvert_option (ad + 16) 48 (ad + 16 + unat (16 :: u32)) ?s2 = (32, ?s3)"
    using t(5,6) by (simp add: radvert_option_def get_prefix_default_def opt_octets_def Let_def
      add.commute [of ad])
  ultimately have "radvert_loop (ad + 16) 48 0 ?s0 = Some ?s3"
    by (simp add: radvert_loop_step [of 0 48 "ad + 16" ?s0 8 ?s1 8] radvert_loop_step [of 8 48 "ad + 16" ?s1 8 ?s2 16]
      radvert_loop_step [of 16 48 "ad + 16" ?s2 32 ?s3 48] radvert_loop.simps [of _ _ 48])
  then have "radvert_handler ad 64 s = Inr ?s3"
    by (simp add: radvert_handler_def RADVERTSIZE_def Let_def)
  then show ?thesis
    using t(7) pfx ip by (simp add: get_prefix_default_def Let_def len_defs add.commute [of ad])
qed

section \<open>What a solicitation teaches\<close>

lemma nsol_entry_spec:
  assumes "nd_inv nd" "length src = IPV6_ASIZE" "nsol_entry src nd = (Some i, nd')"
  shows "i < MAXNDENTRY" "nd_inv nd'" "n_ipAddr (nd' ! i) = src" "lookupNDEntry nd' src = Some i"
    and "n_macAddr (nd' ! i) = n_macAddr (nd ! i)"
proof -
  have "i < MAXNDENTRY \<and> nd_inv nd' \<and> n_ipAddr (nd' ! i) = src \<and> lookupNDEntry nd' src = Some i \<and>
      n_macAddr (nd' ! i) = n_macAddr (nd ! i)"
  proof (cases "lookupNDEntry nd src")
    case (Some j)
    then have "j = i" "nd' = nd" using assms(3) by (simp_all add: nsol_entry_def)
    then show ?thesis
      using Some assms(1) nd_ip.search_Some_iff [of nd src j] nd_ip_hit [OF assms(1) _ assms(2)] by auto
  next
    case None
    let ?nd = "snd (getAvailNDEntry nd)"
    let ?e = "(?nd ! i)\<lparr>n_ipAddr := src\<rparr>"
    have f: "fst (getAvailNDEntry nd) = Some i" and nd': "nd' = ?nd[i := ?e]"
      using assms(3) None by (auto simp: nsol_entry_def split: prod.splits option.splits)
    have i: "i < MAXNDENTRY" using f nd_free.search_Some_iff [of nd i] by blast
    have inv: "nd_inv ?nd" using assms(1) by (rule getAvailNDEntry_inv)
    have "length ?nd = MAXNDENTRY" using inv by (simp add: nd_inv_def)
    moreover have "nd_inv (?nd[i := ?e])"
      using inv i assms(2) nd_inv_nth [OF inv i] by (intro nd_inv_update) simp_all
    moreover have "lookupNDEntry (?nd[i := ?e]) src = Some i"
      using None assms(2) lookup_after_getAvail [OF assms(1)] by (intro lookup_after_store [OF inv i]) simp_all
    ultimately show ?thesis
      using i nd' getAvail_other_fields(2) [OF assms(1), of i] by simp
  qed
  then show "i < MAXNDENTRY" "nd_inv nd'" "n_ipAddr (nd' ! i) = src" "lookupNDEntry nd' src = Some i"
    "n_macAddr (nd' ! i) = n_macAddr (nd ! i)" by blast+
qed

lemma nsol_entry_exists:
  assumes "lookupNDEntry nd src \<noteq> None \<or> fst (getAvailNDEntry nd) \<noteq> None"
  obtains i nd' where "nsol_entry src nd = (Some i, nd')"
proof (cases "lookupNDEntry nd src")
  case None
  then obtain j where "fst (getAvailNDEntry nd) = Some j" using assms by auto
  then show thesis using None that by (cases "getAvailNDEntry nd") (simp add: nsol_entry_def)
next
  case (Some j)
  then show thesis using that by (simp add: nsol_entry_def)
qed

definition neighbour :: "byte list \<Rightarrow> byte list \<Rightarrow> NDCacheEntry" where
  "neighbour ip mac = \<lparr>n_ttl = MAXNDTTL, n_ipAddr = ip, n_macAddr = mac, n_state = NDREACHABLE\<rparr>"

lemma neighbour_ip [simp]: "n_ipAddr (neighbour ip mac) = ip"
  by (simp add: neighbour_def)

lemma lookup_refresh:
  assumes "nd_inv nd" "length ip = IPV6_ASIZE" "lookupNDEntry nd ip = Some i" "n_ipAddr e = ip"
  shows "lookupNDEntry (nd[i := e]) ip = Some i"
  using assms nd_ip.search_Some_iff [of nd ip i] by (intro lookup_after_store) auto

lemma getmac_sol_eq: "getmac_sol m msg = (if m (msg + 24) = 1 then Some (msg + 26) else None)"
  by (simp add: getmac_sol_def)

text \<open>A solicitation teaches the sender's address. With a source link-layer option (type 1) in
  the message and room in the cache, \<^verbatim>\<open>nsolicit_handler\<close> returns with the sender's address bound
  to the six option bytes, reachable, and the cache intact -- whatever other processes do while it
  sleeps, as long as they leave the cache alone and a buffer is free.\<close>

theorem nsolicit_handler_learns:
  assumes "nd_inv (NDCache s)" and "macs_ok s" and "0 < ipv6_free s"
    and "mem s (pkt + 78) = 1"
    and "lookupNDEntry (NDCache s) (ip_src (mem s) (ip_of pkt)) \<noteq> None \<or> fst (getAvailNDEntry (NDCache s)) \<noteq> None"
    and "\<And>t. NDCache (others t) = NDCache t \<and> macs_ok (others t) \<and> 0 < ipv6_free (others t)"
  shows "\<exists>s' i. nsolicit_handler others pkt s = Inr s' \<and> nd_inv (NDCache s') \<and>
    lookupNDEntry (NDCache s') (ip_src (mem s) (ip_of pkt)) = Some i \<and>
    NDCache s' ! i = neighbour (ip_src (mem s) (ip_of pkt)) (bytes (mem s) (pkt + 80) 6)"
proof -
  let ?m = "mem s" and ?src = "ip_src (mem s) (ip_of pkt)"
  have src: "length ?src = IPV6_ASIZE" by simp
  obtain i nd where e: "nsol_entry ?src (NDCache s) = (Some i, nd)"
    using nsol_entry_exists [OF assms(5)] by blast
  note spec = nsol_entry_spec [OF assms(1) src e]
  let ?n = "neighbour ?src (bytes ?m (pkt + 80) 6)"
  have len: "i < length nd" using spec(1,2) by (simp add: nd_inv_def)
  have inv: "nd_inv (nd[i := ?n])"
    using src by (intro nd_inv_update [OF spec(2)]) (simp_all add: neighbour_def len_defs)
  have look: "lookupNDEntry (nd[i := ?n]) ?src = Some i"
    using spec(4) by (intro lookup_refresh [OF spec(2) src]) (simp_all add: neighbour_def)
  have mac: "getmac_sol ?m (pkt + 54) = Some (pkt + 80)"
    using assms(4) by (simp add: getmac_sol_eq add.commute [of pkt])
  have fill: "(nd ! i)\<lparr>n_ttl := MAXNDTTL, n_state := NDREACHABLE, n_macAddr := bytes ?m (pkt + 80) 6\<rparr> = ?n"
    using spec(3) by (simp add: neighbour_def len_defs)
  define t where "t = s\<lparr>NDCache := nd[i := ?n],
    fwd_tab := snd (insertNewFwdTabEntry ?src 128 ?src (ucast (net_iface ?m pkt)) (fwd_tab s))\<rparr>"
  let ?target = "bytes ?m (pkt + 62) 16"
  have t: "macs_ok t" "0 < ipv6_free t" "NDCache t = nd[i := ?n]"
    using assms(2,3) by (simp_all add: t_def macs_ok_def)
  have sub: "nsolicit_handler others pkt s =
      bind_res (sendNAD ?target (net_src ?m pkt) ?src ?target (ucast (net_iface ?m pkt)) t) (\<lambda>s1.
        if lookupNDEntry (NDCache s) ?src \<noteq> None then Inr s1
        else let s2 = others s1; m = mem s2 in
          sendNSOL (ip_dest m (ip_of pkt)) (net_src m pkt) (ip_src m (ip_of pkt)) (ip_src m (ip_of pkt))
            (ucast (net_iface m pkt)) s2)"
    using e len mac spec(3) unfolding nsolicit_handler_def Let_def pkt_addrs t_def
    by (simp add: set_nd_def fill len_defs)
  have "\<exists>s1. sendNAD ?target (net_src ?m pkt) ?src ?target (ucast (net_iface ?m pkt)) t = Inr s1 \<and>
      NDCache s1 = nd[i := ?n]"
    using t sendNAD_eq [OF t(1) _ _ _ _ t(2), of "net_src ?m pkt" ?target ?src ?target] by (simp add: len_defs)
  then obtain s1 where s1: "sendNAD ?target (net_src ?m pkt) ?src ?target (ucast (net_iface ?m pkt)) t = Inr s1"
    "NDCache s1 = nd[i := ?n]" by blast
  let ?s2 = "others s1"
  have "\<exists>s3. sendNSOL (ip_dest (mem ?s2) (ip_of pkt)) (net_src (mem ?s2) pkt) (ip_src (mem ?s2) (ip_of pkt))
      (ip_src (mem ?s2) (ip_of pkt)) (ucast (net_iface (mem ?s2) pkt)) ?s2 = Inr s3 \<and> NDCache s3 = nd[i := ?n]"
    using assms(6) [of s1] s1(2) by (simp add: sendNSOL_eq)
  then have "\<exists>s'. nsolicit_handler others pkt s = Inr s' \<and> NDCache s' = nd[i := ?n]"
    using s1 by (auto simp: sub Let_def)
  then show ?thesis using inv look len by (metis nth_list_update_eq)
qed

text \<open>A solicitation without the link-layer option still makes its source reachable: the entry
  keeps the MAC address it had -- all zero for a fresh entry -- and nothing is sent.\<close>

theorem nsolicit_handler_without_option:
  assumes "nd_inv (NDCache s)" and "mem s (pkt + 78) \<noteq> 1"
    and "nsol_entry (ip_src (mem s) (ip_of pkt)) (NDCache s) = (Some i, nd)"
  shows "\<exists>s'. nsolicit_handler others pkt s = Inr s' \<and> sent s' = sent s \<and>
    lookupNDEntry (NDCache s') (ip_src (mem s) (ip_of pkt)) = Some i \<and>
    NDCache s' ! i = neighbour (ip_src (mem s) (ip_of pkt)) (n_macAddr (NDCache s ! i))"
proof -
  let ?src = "ip_src (mem s) (ip_of pkt)"
  have src: "length ?src = IPV6_ASIZE" by simp
  note spec = nsol_entry_spec [OF assms(1) src assms(3)]
  let ?n = "neighbour ?src (n_macAddr (NDCache s ! i))"
  have len: "i < length nd" using spec(1,2) by (simp add: nd_inv_def)
  have "(nd ! i)\<lparr>n_ttl := MAXNDTTL, n_state := NDREACHABLE\<rparr> = ?n"
    using spec(3,5) by (simp add: neighbour_def)
  moreover have "getmac_sol (mem s) (pkt + 54) = None"
    using assms(2) by (simp add: getmac_sol_eq add.commute [of pkt])
  ultimately have "nsolicit_handler others pkt s = Inr (s\<lparr>NDCache := nd[i := ?n]\<rparr>)"
    using assms(3) unfolding nsolicit_handler_def Let_def pkt_addrs by (simp add: set_nd_def)
  moreover have "lookupNDEntry (nd[i := ?n]) ?src = Some i"
    using spec(4) by (intro lookup_refresh [OF spec(2) src]) (simp_all add: neighbour_def)
  ultimately show ?thesis using len by simp
qed

theorem radvert_zero_length_option_witness:
  "radvert_handler 54 64 (net_boot True if_boot (zero_block(70 := 1))) = Inl Diverges"
  using radvert_zero_length_option [of "net_boot True if_boot (zero_block(70 := 1))" 54 64]
  by (simp add: zero_block_def)

theorem radvert_handler_reads_options_witness:
  "\<exists>r s'. router_mac_addr s' = replicate 6 0 \<and>
     radvert_handler 54 64 (net_boot True if_boot (fillOptions r zero_block 70 (ra_option_types (\<lambda>_. 0)) 48 0)) = Inr s'"
proof -
  define r where "r = (net_boot True if_boot zero_block)\<lparr>option_prefix_default := [3, 4] @ replicate 30 0\<rparr>"
  define s where "s = net_boot True if_boot (fillOptions r zero_block 70 (ra_option_types (\<lambda>_. 0)) 48 0)"
  have "bytes (mem s) (54 + 16) 48 = bytes (fillOptions r zero_block 70 (ra_option_types (\<lambda>_. 0)) 48 0) 70 48"
    by (simp add: s_def)
  from radvert_handler_reads_options [OF this] show ?thesis
    by (auto simp: r_def own_mac_def s_def ETH_ADDR_LEN_def)
qed

theorem nsolicit_handler_learns_witness:
  "\<exists>s'. nsolicit_handler (\<lambda>t. t\<lparr>if_tab := if_boot, ipv6_free := 40\<rparr>) 1520
      (net_boot True if_boot (zero_block(1598 := 1))) = Inr s' \<and>
     (\<exists>i. lookupNDEntry (NDCache s') (replicate 16 0) = Some i \<and> n_macAddr (NDCache s' ! i) = replicate 6 0)"
proof -
  let ?s = "net_boot True if_boot (zero_block(1598 := 1))"
  have src: "ip_src (mem ?s) (ip_of 1520) = replicate 16 0"
    by (simp add: layout_defs bytes_def zero_block_def list_eq_iff_nth_eq)
  have opt: "bytes (mem ?s) (1520 + 80) 6 = replicate 6 0"
    by (simp add: bytes_def zero_block_def list_eq_iff_nth_eq)
  have others: "NDCache (t\<lparr>if_tab := if_boot, ipv6_free := 40\<rparr>) = NDCache t \<and> macs_ok (t\<lparr>if_tab := if_boot, ipv6_free := 40\<rparr>) \<and>
      0 < ipv6_free (t\<lparr>if_tab := if_boot, ipv6_free := 40\<rparr>)" for t :: net
    by (simp add: macs_ok_def ETH_ADDR_LEN_def)
  have "lookupNDEntry (NDCache ?s) (ip_src (mem ?s) (ip_of 1520)) \<noteq> None \<or> fst (getAvailNDEntry (NDCache ?s)) \<noteq> None"
    unfolding src using nd_init_lookup by simp
  from nsolicit_handler_learns [OF _ _ _ _ this others] obtain s' i where
    "nsolicit_handler (\<lambda>t. t\<lparr>if_tab := if_boot, ipv6_free := 40\<rparr>) 1520 ?s = Inr s'"
    "lookupNDEntry (NDCache s') (replicate 16 0) = Some i"
    "NDCache s' ! i = neighbour (replicate 16 0) (replicate 6 0)"
    unfolding src opt using nd_inv_init by (auto simp: macs_ok_def ETH_ADDR_LEN_def)
  moreover have "neighbour (replicate 16 0) (replicate 6 0) = neighbour (replicate 16 0) (replicate 6 0)" ..
  ultimately show ?thesis by (auto simp: neighbour_def)
qed

theorem nsolicit_handler_without_option_witness:
  "\<exists>s'. nsolicit_handler (\<lambda>t. t) 1520 (net_boot True if_boot zero_block) = Inr s' \<and> sent s' = []"
proof -
  have src: "ip_src zero_block (ip_of 1520) = replicate 16 0" by (simp add: ip_src_def zero_block_bytes IPV6_ASIZE_def)
  have "nsol_entry (ip_src (mem (net_boot True if_boot zero_block)) (ip_of 1520)) (NDCache (net_boot True if_boot zero_block)) =
      (Some 0, NDCache_init)"
    using nd_init_lookup by (simp add: nsol_entry_def src)
  from nsolicit_handler_without_option [OF _ _ this] nd_inv_init show ?thesis by (auto simp: zero_block_def)
qed

end
