(* ===== verification/Ipv6_In.thy ===== *)
theory Ipv6_In
  imports Frag_Trip Nd_Handle
begin

text \<open>
  The entry point for received packets, \<^verbatim>\<open>ipv6_in\<close> of \<^verbatim>\<open>net/ipv6.c\<close>: NAT, forwarding and local
  delivery; and the address helpers and initialisation steps of that file. The state is the
  network state and the reassembly state.
\<close>

section \<open>The code\<close>

definition isItMine :: "net \<Rightarrow> mem \<Rightarrow> nat \<Rightarrow> bool" where
  "isItMine s m ip =
     (match (ip_dest m ip) (ipv6_addr s) IPV6_ASIZE \<noteq> 0 \<or>
      match (ip_dest m ip) (link_local s) IPV6_ASIZE \<noteq> 0 \<or>
      match (ip_dest m ip) (snm_addr s) IPV6_ASIZE \<noteq> 0 \<or>
      match (ip_dest m ip) (allrIPmulti s) IPV6_ASIZE \<noteq> 0 \<or>
      match (ip_dest m ip) (allnIPmulti s) IPV6_ASIZE \<noteq> 0)"

text \<open>\<^verbatim>\<open>reassembly\<close> with its tail call of \<^verbatim>\<open>processDatagram\<close>. \<open>ticks\<close> is the cycle counter.\<close>

definition reassemble :: "(net \<Rightarrow> net) \<Rightarrow> 64 word \<Rightarrow> nat \<Rightarrow> net \<times> rea \<Rightarrow> (net \<times> rea) res" where
  "reassemble others ticks pkt = (\<lambda>(s, r).
     bind_res (reassembly (clktime s) (heap_junk s) (mem s) pkt r) (\<lambda>(d, r).
       case d of
         None \<Rightarrow> Inr (s, r)
       | Some d \<Rightarrow> bind_res (processDatagram others ticks d s) (\<lambda>s. Inr (s, r))))"

definition ipv6_in :: "(net \<Rightarrow> net) \<Rightarrow> 64 word \<Rightarrow> nat \<Rightarrow> net \<times> rea \<Rightarrow> (net \<times> rea) res" where
  "ipv6_in others ticks pkt = (\<lambda>(s, r).
     let ip = ip_of pkt in
     if match (net_src (mem s) pkt) (if_macucast (if_tab s (nat (ifprime s)))) ETH_ADDR_LEN \<noteq> 0
     then Inr (freebuf_pkt pkt s, r)
     else if hasIPv6Addr s \<noteq> 0 \<and> \<not> isItMine s (mem s) ip then
       (let forward = (\<lambda>s. bind_res (fwdIPDatagram pkt PACKLEN s) (\<lambda>s. Inr (freebuf_pkt pkt s, r))) in
        if \<not> host s then
          if sint (net_iface (mem s) pkt) = ifprime s
          then bind_res (incPktRW pkt s) (\<lambda>(x, s). if x = -1 then Inr (freebuf_pkt pkt s, r) else forward s)
          else bind_res (outPktRW (ucast (net_iface (mem s) pkt)) pkt s) (\<lambda>(x, s).
                 if x \<noteq> 0 then Inr (freebuf_pkt pkt s, r) else forward s)
        else forward s)
     else
       (let deliver = (\<lambda>s.
              if ip_next_header (mem s) ip = IPV6_ICMP
              then bind_res (icmpv6_in others pkt s) (\<lambda>s. Inr (freebuf_pkt pkt s, r))
              else if ip_next_header (mem s) ip = NEXT_HEADER_FRAGMENT
              then bind_res (reassemble others ticks pkt (s, r)) (\<lambda>(s, r). Inr (freebuf_pkt pkt s, r))
              else Inr (freebuf_pkt pkt s, r))
        in if \<not> host s
           then bind_res (incPktRW pkt s) (\<lambda>(x, s).
                  if x \<noteq> -1
                  then bind_res (fwdIPDatagram pkt PACKLEN s) (\<lambda>s. Inr (freebuf_pkt pkt s, r))
                  else deliver s)
           else deliver s))"

section \<open>What the operations leave alone\<close>

text \<open>
  Received packets are returned by \<^verbatim>\<open>ipv6_in\<close> only, and every sender but the fragmenting one
  returns the transmit buffer it takes.
\<close>

definition balanced :: "net \<Rightarrow> net \<Rightarrow> bool" where
  "balanced s s' \<longleftrightarrow> freed s' = freed s \<and> ipv6_free s' = ipv6_free s"

lemma balanced_refl [simp]: "balanced s s"
  by (simp add: balanced_def)

lemma balanced_trans: "balanced s t \<Longrightarrow> balanced t u \<Longrightarrow> balanced s u"
  by (simp add: balanced_def)

lemma fire_off_Inr: "fire_off m buf len s = Inr s' \<Longrightarrow> freed s' = freed s \<and> ipv6_free s' = ipv6_free s"
  by (auto simp: fire_off_eq)

lemma getbuf_ipv6_Inr: "getbuf_ipv6 s = Inr s' \<Longrightarrow> freed s' = freed s \<and> ipv6_free s = ipv6_free s' + 1"
  by (auto simp: getbuf_ipv6_def split: if_splits)

lemma freebuf_ipv6_sel [simp]: "freed (freebuf_ipv6 s) = freed s" "ipv6_free (freebuf_ipv6 s) = ipv6_free s + 1"
  by (simp_all add: freebuf_ipv6_def)

lemma checksum_and_send_Inr:
  "checksum_and_send m k len s = Inr s' \<Longrightarrow> freed s' = freed s \<and> ipv6_free s' = ipv6_free s + 1"
  by (auto simp: checksum_and_send_def bind_res_Inr_iff dest!: fire_off_Inr)

lemma write_and_free_Inr:
  "write_and_free m len s = Inr (x, s') \<Longrightarrow> freed s' = freed s \<and> ipv6_free s' = ipv6_free s + 1"
  by (auto simp: write_and_free_def bind_res_Inr_iff dest!: fire_off_Inr)

lemma sendNSOL_balanced: "sendNSOL a b c d e s = Inr s' \<Longrightarrow> balanced s s'"
  by (auto simp: sendNSOL_def bind_res_Inr_iff Let_def balanced_def dest!: getbuf_ipv6_Inr checksum_and_send_Inr)

lemma sendNAD_balanced: "sendNAD a b c d e s = Inr s' \<Longrightarrow> balanced s s'"
  by (auto simp: sendNAD_def bind_res_Inr_iff Let_def balanced_def dest!: getbuf_ipv6_Inr checksum_and_send_Inr)

lemma sendEchoResp_balanced: "sendEchoResp a b c d e s = Inr s' \<Longrightarrow> balanced s s'"
  by (auto simp: sendEchoResp_def bind_res_Inr_iff Let_def balanced_def dest!: getbuf_ipv6_Inr checksum_and_send_Inr)

lemma log_scratch_sel [simp]: "freed (log_scratch m s) = freed s" "ipv6_free (log_scratch m s) = ipv6_free s"
  by (simp_all add: log_scratch_def Let_def)

lemma sendipv6pkt_balanced: "sendipv6pkt t a b i s = Inr (x, s') \<Longrightarrow> balanced s s'"
  unfolding sendipv6pkt_def Let_def bind_res_Inr_iff
  by (auto simp: balanced_def bind_res_Inr_iff dest!: getbuf_ipv6_Inr write_and_free_Inr split: if_splits prod.splits)

lemma radvert_option_balanced: "balanced s (snd (radvert_option o1 n opt s))"
  by (simp add: radvert_option_def get_router_link_addr_def get_MTU_def get_prefix_default_def Let_def balanced_def)

lemma radvert_loop_balanced:
  assumes "radvert_loop o1 n i s = Some s'"
  shows "balanced s s'"
proof (rule radvert_loop.raw_induct [where P = "\<lambda>o1 n i s s'. balanced s s'", OF _ assms])
  fix f o1 n i s r
  assume IH: "\<And>o1 n i s r. f o1 n i s = Some r \<Longrightarrow> balanced s r"
    and eq: "(if i < n then f o1 n (i + ucast (fst (radvert_option o1 n (o1 + unat i) s)))
        (snd (radvert_option o1 n (o1 + unat i) s)) else Some s) = Some r"
  show "balanced s r"
  proof (cases "i < n")
    case True
    let ?s = "snd (radvert_option o1 n (o1 + unat i) s)"
    have "balanced ?s r" using IH eq True by (metis (no_types, lifting))
    then show ?thesis using radvert_option_balanced balanced_trans by blast
  next
    case False
    then show ?thesis using eq by simp
  qed
qed

lemma radvert_handler_balanced: "radvert_handler ad n s = Inr s' \<Longrightarrow> balanced s s'"
  using radvert_loop_balanced by (auto simp: radvert_handler_def Let_def opt_res_Inr_iff balanced_def) 

lemma rsolicit_handler_balanced: "rsolicit_handler pkt s = Inr s' \<Longrightarrow> balanced s s'"
  by (auto simp: rsolicit_handler_def bind_res_Inr_iff Let_def dest: sendipv6pkt_balanced split: if_splits)

lemma set_nd_balanced [simp]: "freed (set_nd i f s) = freed s" "ipv6_free (set_nd i f s) = ipv6_free s"
  by (simp_all add: set_nd_def)

lemma nadvert_handler_balanced: "balanced s (nadvert_handler pkt s)"
  by (auto simp: nadvert_handler_def Let_def balanced_def split: option.split)

lemma nsolicit_handler_balanced:
  assumes "\<And>t. balanced t (others t)" "nsolicit_handler others pkt s = Inr s'"
  shows "balanced s s'"
proof -
  have o1: "freed (others t) = freed t" "ipv6_free (others t) = ipv6_free t" for t
    using assms(1) by (simp_all add: balanced_def)
  show ?thesis
    using assms(2) unfolding nsolicit_handler_def Let_def balanced_def
    by (auto simp: bind_res_Inr_iff o1 balanced_def dest!: sendNAD_balanced sendNSOL_balanced
        split: prod.splits option.splits if_splits)
qed

lemma learn_router_balanced [simp]: "freed (learn_router pkt s) = freed s" "ipv6_free (learn_router pkt s) = ipv6_free s"
  by (simp_all add: learn_router_def Let_def)

lemma icmpv6_in_balanced:
  assumes others: "\<And>t. balanced t (others t)" and "icmpv6_in others pkt s = Inr s'"
  shows "balanced s s'"
proof -
  have RA: "balanced t t2" if "radvert_handler a n t = Inr t1"
    "(let t = learn_router pkt t1 in
      if \<not> host t
      then bind_res (sendipv6pkt ROUTERA (if_macbcast (if_tab t 1)) [] 1 t) (\<lambda>(r, t).
           bind_res (sendipv6pkt ROUTERA (if_macbcast (if_tab t 2)) [] 2 t) (\<lambda>(r, t). Inr t))
      else Inr t) = Inr t2" for a n t t1 t2
    using that(2) radvert_handler_balanced [OF that(1)]
    by (auto simp: bind_res_Inr_iff Let_def balanced_def dest!: sendipv6pkt_balanced split: if_splits)
  have m: "balanced (t\<lparr>mem := m\<rparr>) t' \<longleftrightarrow> balanced t t'" "balanced t (t\<lparr>mem := m\<rparr>)" for t t' m
    by (simp_all add: balanced_def)
  consider "mem s (msg_of pkt) = ROUTERA" | "mem s (msg_of pkt) = ROUTERS" | "mem s (msg_of pkt) = NEIGHBS"
    | "mem s (msg_of pkt) \<notin> {ROUTERA, ROUTERS, NEIGHBS}" by blast
  then show ?thesis
  proof cases
    case 1
    then show ?thesis
      using assms(2) unfolding icmpv6_in_def
      by (auto simp: Let_def bind_res_Inr_iff m split: prod.splits if_splits dest!: RA [unfolded Let_def])
  next
    case 2
    then show ?thesis
      using assms(2) unfolding icmpv6_in_def
      by (auto simp: Let_def bind_res_Inr_iff m type_defs split: prod.splits if_splits dest!: rsolicit_handler_balanced)
  next
    case 3
    then show ?thesis
      using assms(2) unfolding icmpv6_in_def
      by (auto simp: Let_def bind_res_Inr_iff m type_defs split: prod.splits if_splits
          dest!: nsolicit_handler_balanced [OF others])
  next
    case 4
    then show ?thesis
      using assms(2) nadvert_handler_balanced unfolding icmpv6_in_def
      by (auto simp: Let_def bind_res_Inr_iff m type_defs split: prod.splits if_splits dest!: sendEchoResp_balanced)
  qed
qed

lemma sendFragment_Inr: "sendFragment d a b c e f g s = Inr s' \<Longrightarrow> freed s' = freed s \<and> ipv6_free s' \<le> ipv6_free s"
  by (auto simp: sendFragment_def bind_res_Inr_iff Let_def writeToInterface_def dest!: getbuf_ipv6_Inr fire_off_Inr
      split: option.splits if_splits)

lemma fragment_loop_Inr:
  assumes "fragment_loop others tf d id1 nh mx rem off s = Some res"
  shows "\<not> tf \<Longrightarrow> res = Inr s' \<Longrightarrow> freed s' = freed s \<and> ipv6_free s' \<le> ipv6_free s"
proof -
  have "\<not> tf \<longrightarrow> (\<forall>s'. res = Inr s' \<longrightarrow> freed s' = freed s \<and> ipv6_free s' \<le> ipv6_free s)"
  proof (rule fragment_loop.raw_induct [where P = "\<lambda>others tf d id1 nh mx rem off s res. \<not> tf \<longrightarrow>
        (\<forall>s'. res = Inr s' \<longrightarrow> freed s' = freed s \<and> ipv6_free s' \<le> ipv6_free s)", OF _ assms])
    fix f :: "(net \<Rightarrow> net) \<Rightarrow> bool \<Rightarrow> Datagram \<Rightarrow> u32 \<Rightarrow> byte \<Rightarrow> u16 \<Rightarrow> u16 \<Rightarrow> u16 \<Rightarrow> net \<Rightarrow> net res option"
    fix others tf d id1 nh mx rem off s res
    assume IH: "\<And>others tf d id1 nh mx rem off s res. f others tf d id1 nh mx rem off s = Some res \<Longrightarrow> \<not> tf \<longrightarrow>
        (\<forall>s'. res = Inr s' \<longrightarrow> freed s' = freed s \<and> ipv6_free s' \<le> ipv6_free s)"
      and eq: "(if rem > 0
      then
        (let payload_len = (if rem > mx then mx else rem);
             payload_len = (if payload_len = rem then checkLength payload_len else payload_len);
             payload_len_ipv6_header = word_of_nat FRAG_HDR_LEN + payload_len;
             remain_len = rem - payload_len
         in case sendFragment d payload_len_ipv6_header payload_len id1 off nh (remain_len \<noteq> 0) s of
              Inl e \<Rightarrow> Some (Inl e)
            | Inr s \<Rightarrow> f others tf d id1 nh mx remain_len (off + payload_len) (if tf then others s else s))
      else Some (Inr s)) = Some res"
    show "\<not> tf \<longrightarrow> (\<forall>s'. res = Inr s' \<longrightarrow> freed s' = freed s \<and> ipv6_free s' \<le> ipv6_free s)"
    proof (intro impI allI)
      fix s' assume tf: "\<not> tf" "res = Inr s'"
      show "freed s' = freed s \<and> ipv6_free s' \<le> ipv6_free s"
      proof (cases "rem > 0")
        case True
        then obtain a b c e s1 rem' off' where s1: "sendFragment d a b id1 off nh c s = Inr s1"
          "f others tf d id1 nh mx rem' off' s1 = Some res"
          using eq tf by (auto simp: Let_def split: sum.splits)
        then show ?thesis using IH [OF s1(2)] tf sendFragment_Inr [OF s1(1)] by force
      next
        case False
        then show ?thesis using eq tf by simp
      qed
    qed
  qed
  then show "\<not> tf \<Longrightarrow> res = Inr s' \<Longrightarrow> freed s' = freed s \<and> ipv6_free s' \<le> ipv6_free s" by blast
qed

lemma processDatagram_Inr:
  "processDatagram others ticks d s = Inr s' \<Longrightarrow> freed s' = freed s \<and> ipv6_free s' \<le> ipv6_free s"
  using fragment_loop_Inr
  by (fastforce simp: processDatagram_def sendto_def fragmentDatagram_def bind_res_Inr_iff Let_def opt_res_Inr_iff
      split: if_splits)

lemma incPktRW_balanced: "incPktRW pkt s = Inr (x, s') \<Longrightarrow> balanced s s'"
  by (auto simp: incPktRW_def Let_def bind_res_Inr_iff balanced_def split: option.splits)

lemma outPktRW_balanced: "outPktRW i pkt s = Inr (x, s') \<Longrightarrow> balanced s s'"
  by (auto simp: outPktRW_def Let_def bind_res_Inr_iff balanced_def split: prod.splits if_splits)

lemma fwdIPDatagram_balanced: "fwdIPDatagram pkt len s = Inr s' \<Longrightarrow> balanced s s'"
  by (auto simp: fwdIPDatagram_def Let_def balanced_def dest!: fire_off_Inr split: option.splits)

lemma freebuf_pkt_sel [simp]: "freed (freebuf_pkt p s) = freed s @ [p]" "ipv6_free (freebuf_pkt p s) = ipv6_free s"
  by (simp_all add: freebuf_pkt_def)

text \<open>C5: a received packet is freed exactly once. On every path on which \<^verbatim>\<open>ipv6_in\<close> returns, it has
  returned the packet it was given, once, and no other packet; and unless the packet is a fragment
  it has returned every transmit buffer it took (a completed fragmented echo request takes transmit
  buffers that are never returned).\<close>

theorem ipv6_in_frees_once:
  assumes "\<And>t. balanced t (others t)" and "ipv6_in others ticks pkt (s, r) = Inr (s', r')"
  shows "freed s' = freed s @ [pkt] \<and> ipv6_free s' \<le> ipv6_free s \<and>
    (ip_next_header (mem s) (ip_of pkt) \<noteq> NEXT_HEADER_FRAGMENT \<longrightarrow> ipv6_free s' = ipv6_free s)"
proof -
  define fin where "fin = (\<lambda>t::net. freed t = freed s @ [pkt] \<and> ipv6_free t \<le> ipv6_free s \<and>
    (ip_next_header (mem s) (ip_of pkt) \<noteq> NEXT_HEADER_FRAGMENT \<longrightarrow> ipv6_free t = ipv6_free s))"
  have fin: "fin (freebuf_pkt pkt t)" if "balanced s t" for t
    using that by (simp add: fin_def balanced_def)
  have fwd: "fin (freebuf_pkt pkt x)" if "fwdIPDatagram pkt PACKLEN t = Inr x" "balanced s t" for t x
    using that fwdIPDatagram_balanced balanced_trans fin by blast
  have fwd_in: "fin (freebuf_pkt pkt x)" if "incPktRW pkt s = Inr (a, t)" "fwdIPDatagram pkt PACKLEN t = Inr x" for a t x
    using that fwd incPktRW_balanced by blast
  have fwd_out: "fin (freebuf_pkt pkt x)" if "outPktRW i pkt s = Inr (a, t)" "fwdIPDatagram pkt PACKLEN t = Inr x" for i a t x
    using that fwd outPktRW_balanced by blast
  have rea: "fin (freebuf_pkt pkt t)" if "reassemble others ticks pkt (s, r) = Inr (t, r')"
    "ip_next_header (mem s) (ip_of pkt) = NEXT_HEADER_FRAGMENT" for t r'
    using that by (auto simp: fin_def reassemble_def bind_res_Inr_iff dest!: processDatagram_Inr split: option.splits)
  have icmp: "fin (freebuf_pkt pkt t)" if "icmpv6_in others pkt s = Inr t" for t
    using icmpv6_in_balanced [OF assms(1) that] fin by blast
  have miss: "t = s" if "incPktRW pkt s = Inr (-1, t)" for t
  proof -
    have "uint (x :: byte) \<noteq> - 1" for x using uint_ge_0 [of x] by linarith
    then show ?thesis using that by (auto simp: incPktRW_def Let_def bind_res_Inr_iff split: option.splits)
  qed
  have "fin s'"
    using assms(2) unfolding ipv6_in_def Let_def
    by (auto simp: bind_res_Inr_iff split: if_splits dest!: miss intro: rea icmp
        intro: fin [OF balanced_refl] fin [OF incPktRW_balanced] fin [OF outPktRW_balanced] fwd [OF _ balanced_refl] fwd_in fwd_out)
  then show ?thesis by (simp add: fin_def)
qed

theorem ipv6_in_frees_once_witness:
  "freed (fst (projr (ipv6_in (\<lambda>t. t) 0 1520 (net_boot True if_boot zero_block, rea_boot)))) = [1520]"
proof -
  have r: "ipv6_in (\<lambda>t. t) 0 1520 (net_boot True if_boot zero_block, rea_boot) =
      Inr (freebuf_pkt 1520 (net_boot True if_boot zero_block), rea_boot)"
    by (simp add: ipv6_in_def net_src_def match_eq zero_block_def ETH_ADDR_LEN_def)
  from ipv6_in_frees_once [OF _ r] show ?thesis by (simp add: r)
qed

end
