(* ===== verification/Ipv6_Init.thy ===== *)
theory Ipv6_Init
  imports Eth_Mcast Ipv6_In
begin

text \<open>
  \<^verbatim>\<open>ipv6_init\<close> of \<^verbatim>\<open>net/ipv6.c\<close> and the address derivations it uses. The state is the network
  state, the reassembly state and the Ethernet control block. \<open>others\<close> is what the other
  processes do to the network state while \<^verbatim>\<open>ipv6_init\<close> sleeps for a second. The creation of the
  process that runs \<^verbatim>\<open>check_reassembly_time_out\<close> every 15 seconds is left out.
\<close>

section \<open>The code\<close>

definition get_link_local :: "byte list \<Rightarrow> net \<Rightarrow> net" where
  "get_link_local mac s =
     (let res = (replicate IPV6_ASIZE 0)[0 := 0xFE, 1 := 0x80];
          temp = take 3 mac @ [0xFF, 0xFE] @ take 3 (drop 3 mac);
          temp = temp[0 := temp ! 0 XOR 2];
          res = take 8 res @ take 8 temp
      in s\<lparr>link_local := res\<rparr>)"

definition get_snm_addr :: "byte list \<Rightarrow> net \<Rightarrow> net" where
  "get_snm_addr unicast s =
     (let res = (replicate IPV6_ASIZE 0)[0 := 0xFF, 1 := 2, 11 := 1, 12 := 0xFF];
          res = take 13 res @ take 3 (drop 13 unicast)
      in s\<lparr>snm_addr := res\<rparr>)"

definition get_mac_snm :: "byte list \<Rightarrow> net \<Rightarrow> net" where
  "get_mac_snm addr s =
     (let res = (replicate 6 0)[0 := 0x33, 1 := 0x33];
          res = take 2 res @ take 4 (drop 12 addr)
      in s\<lparr>mac_snm := res\<rparr>)"

definition clear_reassembly :: "rea \<Rightarrow> rea" where
  "clear_reassembly r =
     r\<lparr>rea_table := map (\<lambda>e. e\<lparr>re_list := None, re_timestamp := 0\<rparr>) (take REASSEMBLY_TABLE_MAX_SIZE (rea_table r))\<rparr>"

text \<open>\<^verbatim>\<open>ipv6_init\<close> up to the first transmission.\<close>

definition ipv6_setup :: "net \<times> rea \<times> ethcblk \<Rightarrow> net \<times> rea \<times> ethcblk" where
  "ipv6_setup = (\<lambda>(s, r, e).
     let s = s\<lparr>ipv6_free := IPV6OUTNBUFS\<rparr>;
         r = clear_reassembly r;
         s = s\<lparr>option_prefix_default := replicate 32 0\<rparr>;
         s = get_link_local (if_macucast (if_tab s (nat (ifprime s)))) s;
         s = get_snm_addr (link_local s) s;
         s = get_mac_snm (snm_addr s) s;
         s = s\<lparr>hasIPv6Addr := 0\<rparr>;
         e = snd (ethmcast_add (mac_snm s) e);
         s = s\<lparr>link_local_mac := [0x33, 0x33] @ take 4 (drop 12 (link_local s))\<rparr>;
         e = snd (ethmcast_add (link_local_mac s) e);
         buf = (replicate IPV6_ASIZE 0)[0 := 0x33, 1 := 0x33, 2 := 0, 3 := 0, 4 := 0, 5 := 1];
         s = s\<lparr>allnMACmulti := take ETH_ADDR_LEN buf\<rparr>;
         e = snd (ethmcast_add (allnMACmulti s) e);
         buf = buf[5 := 2];
         s = s\<lparr>allrMACmulti := take ETH_ADDR_LEN buf\<rparr>;
         e = (if \<not> host s then snd (ethmcast_add (allrMACmulti s) e) else e);
         buf = (replicate IPV6_ASIZE 0)[0 := 0xff, 1 := 2, 15 := 1];
         s = s\<lparr>allnIPmulti := buf\<rparr>;
         buf = buf[15 := 2];
         s = s\<lparr>allrIPmulti := buf\<rparr>
     in (s, r, e))"

partial_function (option) wait_ipv6 :: "(net \<Rightarrow> net) \<Rightarrow> net \<Rightarrow> net option" where
  "wait_ipv6 others s = (if hasIPv6Addr s = 0 then wait_ipv6 others (others s) else Some s)"

text \<open>The rest: solicit, initialise the tables, wait for an address, enter the default router.\<close>

definition ipv6_start :: "(net \<Rightarrow> net) \<Rightarrow> net \<Rightarrow> (int \<times> net) res" where
  "ipv6_start others s =
     bind_res (sendipv6pkt ROUTERS (allrMACmulti s) [] (ifprime8 s) s) (\<lambda>(x, s).
     let s = s\<lparr>NDCache := NDCache_init\<rparr>;
         s = s\<lparr>fwd_tab := fwdipv6_init (ifprime8 s) (router_ip_addr s) (fwd_tab s)\<rparr>;
         s = (if \<not> host s then s\<lparr>nat_tab := natTab_init (nat_tab s)\<rparr> else s)
     in bind_res (opt_res Diverges (wait_ipv6 others s)) (\<lambda>s.
        case getAvailNDEntry (NDCache s) of (entry1, nd) \<Rightarrow>
          case entry1 of None \<Rightarrow> Inl Null_deref
          | Some i1 \<Rightarrow>
            (let s = set_nd i1 (\<lambda>e. e\<lparr>n_ipAddr := router_link_local s, n_ttl := MAXNDTTL, n_state := NDINCOMPLETE\<rparr>)
                       (s\<lparr>NDCache := nd\<rparr>) in
             case getAvailNDEntry (NDCache s) of (entry2, nd) \<Rightarrow>
               case entry2 of None \<Rightarrow> Inl Null_deref
               | Some i2 \<Rightarrow>
                 (let s = set_nd i2 (\<lambda>e. e\<lparr>n_ipAddr := router_ip_addr s, n_ttl := MAXNDTTL, n_state := NDINCOMPLETE\<rparr>)
                            (s\<lparr>NDCache := nd\<rparr>) in
                  bind_res (sendNSOL (link_local s) (router_link_local_mac s) (router_link_local s)
                              (router_link_local s) (ifprime8 s) s) (\<lambda>s.
                  let s = others s in
                  bind_res (sendNSOL (ipv6_addr s) (router_link_local_mac s) (router_link_local s)
                              (router_link_local s) (ifprime8 s) s) (\<lambda>s.
                  let s = others s;
                      s = set_nd i2 (\<lambda>e. e\<lparr>n_macAddr := router_mac_addr s, n_state := NDREACHABLE\<rparr>) s
                  in Inr (OK, s)))))))"

definition ipv6_init :: "(net \<Rightarrow> net) \<Rightarrow> net \<times> rea \<times> ethcblk \<Rightarrow> (int \<times> net \<times> rea \<times> ethcblk) res" where
  "ipv6_init others st =
     (case ipv6_setup st of (s, r, e) \<Rightarrow>
        bind_res (ipv6_start others s) (\<lambda>(x, s). Inr (x, s, r, e)))"

section \<open>The derived addresses\<close>

definition eui64 :: "byte list \<Rightarrow> byte list" where
  "eui64 mac = [mac ! 0 XOR 2, mac ! 1, mac ! 2, 0xFF, 0xFE, mac ! 3, mac ! 4, mac ! 5]"

lemma six: "length mac = 6 \<Longrightarrow> \<exists>a b c d e f. mac = [a, b, c, d, e, f]"
  by (auto simp: numeral_eq_Suc length_Suc_conv)

lemma get_link_local_eq:
  assumes "length mac = 6"
  shows "get_link_local mac s = s\<lparr>link_local := [0xFE, 0x80, 0, 0, 0, 0, 0, 0] @ eui64 mac\<rparr>"
  using six [OF assms]
  by (auto simp: get_link_local_def eui64_def Let_def IPV6_ASIZE_def numeral_eq_Suc)

lemma eui64_inj: "length a = 6 \<Longrightarrow> length b = 6 \<Longrightarrow> eui64 a = eui64 b \<Longrightarrow> a = b"
proof -
  have "u = (u XOR 2) XOR 2" for u :: byte by (simp add: xor.assoc)
  then have x: "(u :: byte) XOR 2 = v XOR 2 \<Longrightarrow> u = v" for u v by metis
  assume "length a = 6" "length b = 6" "eui64 a = eui64 b"
  then show "a = b" using six [of a] six [of b] x by (auto simp: eui64_def)
qed

lemma mcast_add:
  assumes "mcast_inv e" "length addr = ETH_ADDR_LEN" "ed_mcc e < 32"
  shows "mcast_inv (snd (ethmcast_add addr e))" "ed_mcc (snd (ethmcast_add addr e)) = ed_mcc e + 1"
    "mcasts (snd (ethmcast_add addr e)) = mcasts e @ [addr]"
proof -
  have "length (mcasts e) = ed_mcc e" using assms(1) by (simp add: mcasts_def mcast_inv_def)
  then show "mcast_inv (snd (ethmcast_add addr e))" "ed_mcc (snd (ethmcast_add addr e)) = ed_mcc e + 1"
    "mcasts (snd (ethmcast_add addr e)) = mcasts e @ [addr]"
    using mcast_add_spec [OF assms(1,2)] assms(3) by (simp_all add: ETH_NUM_MCAST_def ethmcast_add_def Let_def)
qed

text \<open>Address derivation. After \<^verbatim>\<open>ipv6_setup\<close> the link-local address is fe80::/64 with the
  modified EUI-64 of the primary interface's MAC address; the solicited-node address carries its last 24 bits, the multicast MAC addresses the
  last 32 bits; all three are registered with the driver together with the all-nodes address (and
  on a NAT box the all-routers address); and datagrams to those IP addresses count as the box's own.\<close>

theorem ipv6_setup_addresses:
  assumes "length (if_macucast (if_tab s (nat (ifprime s)))) = ETH_ADDR_LEN" and "mcast_inv e" and "ed_mcc e \<le> 28"
    and "ipv6_setup (s, r, e) = (s', r', e')"
  shows "link_local s' = [0xFE, 0x80, 0, 0, 0, 0, 0, 0] @ eui64 (if_macucast (if_tab s (nat (ifprime s)))) \<and>
    snm_addr s' = [0xFF, 2, 0, 0, 0, 0, 0, 0, 0, 0, 0, 1, 0xFF] @ drop 13 (link_local s') \<and>
    mac_snm s' = [0x33, 0x33] @ drop 12 (snm_addr s') \<and>
    link_local_mac s' = [0x33, 0x33] @ drop 12 (link_local s') \<and>
    mcasts e' = mcasts e @ [mac_snm s', link_local_mac s', [0x33, 0x33, 0, 0, 0, 1]] @
      (if host s then [] else [[0x33, 0x33, 0, 0, 0, 2]]) \<and>
    (\<forall>m ip. ip_dest m ip \<in> {link_local s', snm_addr s', allnIPmulti s', allrIPmulti s'} \<longrightarrow> isItMine s' m ip)"
proof -
  let ?mac = "if_macucast (if_tab s (nat (ifprime s)))"
  obtain a b c d f g where mac: "?mac = [a, b, c, d, f, g]"
    using six [of ?mac] assms(1) by (auto simp: ETH_ADDR_LEN_def)
  define L where "L = [0xFE, 0x80, 0, 0, 0, 0, 0, 0] @ eui64 ?mac"
  define N where "N = [0xFF, 2, 0, 0, 0, 0, 0, 0, 0, 0, 0, 1, 0xFF, d, f, g]"
  define M where "M = [0x33, 0x33, 0xFF, d, f, g]"
  define K where "K = [0x33, 0x33] @ drop 12 L"
  have ll: "get_link_local ?mac t = t\<lparr>link_local := L\<rparr>" for t
    using get_link_local_eq assms(1) by (simp add: ETH_ADDR_LEN_def L_def)
  have snm: "get_snm_addr L t = t\<lparr>snm_addr := N\<rparr>" for t
    by (simp add: get_snm_addr_def Let_def eui64_def mac IPV6_ASIZE_def numeral_eq_Suc L_def N_def)
  have msnm: "get_mac_snm N t = t\<lparr>mac_snm := M\<rparr>" for t
    by (simp add: get_mac_snm_def Let_def numeral_eq_Suc M_def N_def)
  have K: "0x33 # 0x33 # take 4 (drop 12 L) = K" by (simp add: K_def L_def eui64_def)
  have buf: "take ETH_ADDR_LEN ((replicate IPV6_ASIZE 0)[0 := 0x33, 1 := 0x33, 2 := 0, 3 := 0, 4 := 0, 5 := 1]) =
      [0x33 :: byte, 0x33, 0, 0, 0, 1]"
    "take ETH_ADDR_LEN ((replicate IPV6_ASIZE 0)[0 := 0x33, 1 := 0x33, 2 := 0, 3 := 0, 4 := 0, 5 := 1, 5 := 2]) =
      [0x33 :: byte, 0x33, 0, 0, 0, 2]"
    by (simp_all add: IPV6_ASIZE_def ETH_ADDR_LEN_def numeral_eq_Suc)
  have s': "link_local s' = L" "snm_addr s' = N" "mac_snm s' = M" "link_local_mac s' = K"
    and e: "e' = (let e = snd (ethmcast_add M e); e = snd (ethmcast_add K e);
      e = snd (ethmcast_add [0x33, 0x33, 0, 0, 0, 1] e)
      in if \<not> host s then snd (ethmcast_add [0x33, 0x33, 0, 0, 0, 2] e) else e)"
    using assms(4)
    by (auto simp: ipv6_setup_def Let_def ll snm msnm K buf [simplified])
  have "length M = 6" "length K = 6" by (simp_all add: M_def K_def L_def eui64_def)
  then have e': "mcasts e' = mcasts e @ [mac_snm s', link_local_mac s', [0x33, 0x33, 0, 0, 0, 1]] @
      (if host s then [] else [[0x33, 0x33, 0, 0, 0, 2]])"
    using assms(2,3) unfolding e s' by (simp add: Let_def mcast_add ETH_ADDR_LEN_def)
  have mine: "isItMine s' m ip" if "ip_dest m ip \<in> {link_local s', snm_addr s', allnIPmulti s', allrIPmulti s'}" for m ip
    using that by (auto simp: isItMine_def match_eq)
  show ?thesis using s' e' mine by (simp add: eui64_def mac L_def N_def M_def K_def)
qed

theorem ipv6_setup_addresses_witness:
  "link_local (fst (ipv6_setup (net_boot True if_boot zero_block, rea_boot, eth_boot)))
    = [0xFE, 0x80, 0, 0, 0, 0, 0, 0] @ eui64 (replicate 6 0)"
proof -
  obtain s' r' e' where st: "ipv6_setup (net_boot True if_boot zero_block, rea_boot, eth_boot) = (s', r', e')"
    using prod_cases3 by blast
  from ipv6_setup_addresses [OF _ mcast_inv_boot _ st] show ?thesis
    by (simp add: st ETH_ADDR_LEN_def)
qed

end
