(* ===== verification/Net_Input.thy ===== *)
theory Net_Input
  imports Fifo Ipv6_Init
begin

text \<open>
  Input of frames, \<^verbatim>\<open>net/net.c\<close>: \<^verbatim>\<open>net_init\<close> (interfaces and addresses), the process \<^verbatim>\<open>rawin\<close>
  that reads frames and puts them in the queue of an interface, and the processes \<^verbatim>\<open>netin\<close>, one
  for each interface, that take them out and dispatch on the Ethernet type.

  A process \<^verbatim>\<open>netin\<close> is idle (processing), waiting in \<^verbatim>\<open>wait\<close>, or granted: \<^verbatim>\<open>wait\<close> has returned, or
  \<^verbatim>\<open>signal\<close> has made it ready, and it has not yet taken the packet out of the queue. \<^verbatim>\<open>rawin\<close> has the
  higher priority, so any number of its iterations can happen while \<^verbatim>\<open>netin\<close> is granted.
\<close>

section \<open>Initialisation\<close>

datatype mode = Nat_box | Host_on nat

text \<open>The answer to the prompt; \<open>None\<close> asks again. The characters include the newline.\<close>

definition parse_mode :: "string \<Rightarrow> mode option" where
  "parse_mode buffer =
     (if length buffer = 2 then
        (if buffer ! 0 \<noteq> CHR ''n'' \<and> buffer ! 0 \<noteq> CHR ''N'' then None else Some Nat_box)
      else if length buffer = 3 then
        (if buffer ! 0 \<noteq> CHR ''h'' \<and> buffer ! 0 \<noteq> CHR ''H'' then None
         else let ch = of_char (buffer ! 1) :: nat in
              if ch < 48 \<or> ch > 50 then None else Some (Host_on (ch - 48)))
      else None)"

definition oth_ucast :: "byte \<Rightarrow> u32 \<Rightarrow> u32 \<Rightarrow> byte list" where
  "oth_ucast tag uid bingid =
     [tag, ucast (drop_bit 24 uid), ucast (drop_bit 16 uid), ucast (drop_bit 8 uid), ucast uid, ucast bingid]"

definition oth_bcast :: "byte \<Rightarrow> u32 \<Rightarrow> byte list" where
  "oth_bcast tag bingid = [tag, 0xff, 0xff, 0xff, 0xff, ucast bingid]"

definition if_down :: "string \<Rightarrow> ifentry" where
  "if_down name = \<lparr>if_name = name, if_state = IF_DOWN, if_macucast = replicate ETH_ADDR_LEN 0,
     if_macbcast = replicate ETH_ADDR_LEN 0, if_semcount = 0, if_queue = replicate IF_QUEUESIZE 0,
     if_head = 0, if_tail = 0\<rparr>"

definition upd_if :: "nat \<Rightarrow> (ifentry \<Rightarrow> ifentry) \<Rightarrow> net \<Rightarrow> net" where
  "upd_if i f s = s\<lparr>if_tab := (if_tab s)(i := f (if_tab s i))\<rparr>"

definition if_set_up :: "nat \<Rightarrow> net \<Rightarrow> net" where
  "if_set_up i = upd_if i (\<lambda>e. e\<lparr>if_state := IF_UP\<rparr>)"

definition oth_register :: "nat \<Rightarrow> net \<Rightarrow> ethcblk \<Rightarrow> ethcblk" where
  "oth_register i s e =
     (if if_state (if_tab s i) = IF_UP
      then snd (ethmcast_add (if_macbcast (if_tab s i)) (snd (ethmcast_add (if_macucast (if_tab s i)) e)))
      else e)"

text \<open>\<^verbatim>\<open>mactable\<close> is the generated table of MAC addresses with their unique IDs.\<close>

definition net_init :: "(u32 \<times> byte list) list \<Rightarrow> mode \<Rightarrow> net \<times> ethcblk \<Rightarrow> (net \<times> ethcblk) res" where
  "net_init mactable md = (\<lambda>(s, e).
     let bingid = 51;
         s = (case md of Nat_box \<Rightarrow> s\<lparr>host := False, ifprime := 0\<rparr>
              | Host_on i \<Rightarrow> s\<lparr>ifprime := int i, host := True\<rparr>);
         s = s\<lparr>if_tab := (if_tab s)(0 := if_down ''eth0'', 1 := if_down ''oth1'', 2 := if_down ''oth2'')\<rparr>;
         s = upd_if 0 (\<lambda>e'. e'\<lparr>if_macucast := take ETH_ADDR_LEN (devAddress e),
                               if_macbcast := replicate ETH_ADDR_LEN 0xff\<rparr>) s
     in case find (\<lambda>(uid, mac). if_macucast (if_tab s 0) = mac) mactable of
          None \<Rightarrow> Inl Panic
        | Some (uid, mac) \<Rightarrow>
            (let s = (if host s then if_set_up (nat (ifprime s)) s else if_set_up 2 (if_set_up 1 (if_set_up 0 s)));
                 s = upd_if 1 (\<lambda>e'. e'\<lparr>if_macucast := oth_ucast 0x11 uid bingid,
                                       if_macbcast := oth_bcast 0x11 bingid\<rparr>) s;
                 e = oth_register 1 s e;
                 s = upd_if 2 (\<lambda>e'. e'\<lparr>if_macucast := oth_ucast 0x21 uid bingid,
                                       if_macbcast := oth_bcast 0x21 bingid\<rparr>) s;
                 e = oth_register 2 s e
             in Inr (s, e)))"

section \<open>The queue of an interface\<close>

datatype nphase = Idle | Waiting | Granted

text \<open>\<^verbatim>\<open>signal\<close> and \<^verbatim>\<open>wait\<close> on the queue's semaphore, whose only waiting process is \<^verbatim>\<open>netin\<close>.\<close>

definition if_signal :: "ifentry \<times> nphase \<Rightarrow> ifentry \<times> nphase" where
  "if_signal = (\<lambda>(e, ph). (e\<lparr>if_semcount := if_semcount e + 1\<rparr>, if if_semcount e < 0 then Granted else ph))"

definition if_wait :: "ifentry \<times> nphase \<Rightarrow> ifentry \<times> nphase" where
  "if_wait = (\<lambda>(e, ph). let e = e\<lparr>if_semcount := if_semcount e - 1\<rparr> in
     (e, if if_semcount e < 0 then Waiting else Granted))"

definition wrap :: "nat \<Rightarrow> nat" where
  "wrap i = (if i \<ge> IF_QUEUESIZE then 0 else i)"

definition if_enqueue :: "nat \<Rightarrow> ifentry \<Rightarrow> ifentry" where
  "if_enqueue pkt e = e\<lparr>if_queue := (if_queue e)[if_tail e := pkt], if_tail := wrap (if_tail e + 1)\<rparr>"

definition if_dequeue :: "ifentry \<Rightarrow> nat \<times> ifentry" where
  "if_dequeue e = (if_queue e ! if_head e, e\<lparr>if_head := wrap (if_head e + 1)\<rparr>)"

text \<open>A frame for the interface: dropped (\<open>None\<close>) when the semaphore counts 20 packets.\<close>

definition arrive :: "nat \<Rightarrow> ifentry \<times> nphase \<Rightarrow> (ifentry \<times> nphase) option" where
  "arrive pkt = (\<lambda>(e, ph).
     if if_semcount e \<ge> int IF_QUEUESIZE then None else Some (if_signal (if_enqueue pkt e, ph)))"

section \<open>The processes\<close>

record netsys =
  n_net :: net
  n_rea :: rea
  n_phase :: "nat \<Rightarrow> nphase"
  n_pkt :: "nat option"
  n_pool :: "nat list"
  n_returned :: bool

definition restore_mcast :: "mem \<Rightarrow> nat \<Rightarrow> mem" where
  "restore_mcast m pkt =
     (if m (pkt + 7) = 0x80 \<and> m (pkt + 8) = 0x0a then m(pkt + 6 := m (pkt + 6) OR 1) else m)"

definition accepts :: "(nat \<Rightarrow> ifentry) \<Rightarrow> byte list \<Rightarrow> nat \<Rightarrow> bool" where
  "accepts ifs dst i \<longleftrightarrow> if_state (ifs i) = IF_UP \<and> (if_macucast (ifs i) = dst \<or> if_macbcast (ifs i) = dst)"

primrec demux :: "(nat \<Rightarrow> ifentry) \<Rightarrow> byte list \<Rightarrow> nat \<Rightarrow> nat" where
  "demux ifs dst 0 = 0"
| "demux ifs dst (Suc i) = (if accepts ifs dst (Suc i) then Suc i else demux ifs dst i)"

text \<open>\<^verbatim>\<open>getbuf\<close> of the next buffer; with an empty pool \<^verbatim>\<open>rawin\<close> waits for one (\<open>n_pkt = None\<close>).\<close>

definition next_buffer :: "netsys \<Rightarrow> netsys" where
  "next_buffer st = (case n_pool st of [] \<Rightarrow> st\<lparr>n_pkt := None\<rparr> | b # bs \<Rightarrow> st\<lparr>n_pkt := Some b, n_pool := bs\<rparr>)"

text \<open>
  An iteration of \<^verbatim>\<open>rawin\<close> on the buffer \<open>pkt\<close>. \<open>frame\<close> is what the device delivers, \<open>None\<close> a read
  error. An overflow of an Othernet's queue drops the frame; an overflow of the Ethernet's
  queue leaves the loop and with it the process.
\<close>

definition rawin_iter :: "byte list option \<Rightarrow> nat \<Rightarrow> netsys \<Rightarrow> netsys res" where
  "rawin_iter frame pkt st =
     (case frame of
        None \<Rightarrow> Inl Panic
      | Some bs \<Rightarrow>
          (let s = n_net st;
               m = restore_mcast (wr_bytes (mem s) pkt (take PACKLEN bs)) pkt;
               iface = demux (if_tab s) (net_dst m pkt) (NIFACES - 1)
           in if iface = 0 \<and> if_state (if_tab s 0) \<noteq> IF_UP then Inr (st\<lparr>n_net := s\<lparr>mem := m\<rparr>\<rparr>)
              else
                let m = wr16 m (pkt + 1518) (word_of_nat iface);
                    st = st\<lparr>n_net := s\<lparr>mem := m\<rparr>\<rparr>
                in case arrive pkt (if_tab s iface, n_phase st iface) of
                     None \<Rightarrow> Inr (if iface = 0 then st\<lparr>n_returned := True\<rparr> else st)
                   | Some (e, ph) \<Rightarrow>
                       Inr (next_buffer (st\<lparr>n_net := upd_if iface (\<lambda>_. e) (n_net st),
                                            n_phase := (n_phase st)(iface := ph)\<rparr>))))"

definition eth_ntoh :: "nat \<Rightarrow> mem \<Rightarrow> mem" where
  "eth_ntoh pkt m = wr16 m (pkt + 12) (ntohs (net_type m pkt))"

definition eth_hton :: "nat \<Rightarrow> mem \<Rightarrow> mem" where
  "eth_hton pkt m = wr16 m (pkt + 12) (htons (net_type m pkt))"

definition ETH_ARP :: u16 where "ETH_ARP = 0x0806"
definition ETH_IP :: u16 where "ETH_IP = 0x0800"

text \<open>The processing of a packet by \<^verbatim>\<open>netin\<close>.\<close>

definition netin_handle :: "(net \<Rightarrow> net) \<Rightarrow> 64 word \<Rightarrow> nat \<Rightarrow> nat \<Rightarrow> net \<times> rea \<Rightarrow> (net \<times> rea) res" where
  "netin_handle others ticks iface pkt = (\<lambda>(s, r).
     let m = wr16 (mem s) (pkt + 1518) (word_of_nat iface);
         s = s\<lparr>mem := eth_ntoh pkt m\<rparr>
     in if net_type (mem s) pkt = ETH_ARP then Inr (freebuf_pkt pkt s, r)
        else if net_type (mem s) pkt = ETH_IP then Inr (freebuf_pkt pkt s, r)
        else if net_type (mem s) pkt = ETH_IPv6 then ipv6_in others ticks pkt (s, r)
        else Inr (freebuf_pkt pkt s, r))"

text \<open>
  The iteration of \<^verbatim>\<open>netin\<close> in two steps: \<^verbatim>\<open>wait\<close>, and, when it has returned, the rest. Buffers freed
  meanwhile return to the pool.
\<close>

definition netin_wait :: "nat \<Rightarrow> netsys \<Rightarrow> netsys" where
  "netin_wait i st =
     (case if_wait (if_tab (n_net st) i, n_phase st i) of
        (e, ph) \<Rightarrow> st\<lparr>n_net := upd_if i (\<lambda>_. e) (n_net st), n_phase := (n_phase st)(i := ph)\<rparr>)"

definition netin_fetch :: "nat \<Rightarrow> netsys \<Rightarrow> nat \<times> netsys" where
  "netin_fetch i st =
     (case if_dequeue (if_tab (n_net st) i) of
        (pkt, e) \<Rightarrow> (pkt, st\<lparr>n_net := upd_if i (\<lambda>_. e) (n_net st), n_phase := (n_phase st)(i := Idle)\<rparr>))"

definition netin_take :: "(net \<Rightarrow> net) \<Rightarrow> 64 word \<Rightarrow> nat \<Rightarrow> netsys \<Rightarrow> netsys res" where
  "netin_take others ticks i st =
     (case netin_fetch i st of (pkt, st) \<Rightarrow>
        bind_res (netin_handle others ticks i pkt (n_net st, n_rea st)) (\<lambda>(s, r).
          Inr (st\<lparr>n_net := s, n_rea := r, n_pool := n_pool st @ drop (length (freed (n_net st))) (freed s)\<rparr>)))"

text \<open>The steps of the input processes.\<close>

inductive net_step :: "netsys \<Rightarrow> netsys \<Rightarrow> bool" where
  rawin: "\<not> n_returned st \<Longrightarrow> n_pkt st = Some pkt \<Longrightarrow> rawin_iter (Some bs) pkt st = Inr st' \<Longrightarrow> net_step st st'"
| rawin_getbuf: "\<not> n_returned st \<Longrightarrow> n_pkt st = None \<Longrightarrow> n_pool st \<noteq> [] \<Longrightarrow> net_step st (next_buffer st)"
| wait_sem: "i < NIFACES \<Longrightarrow> n_phase st i = Idle \<Longrightarrow> net_step st (netin_wait i st)"
| take_pkt: "i < NIFACES \<Longrightarrow> n_phase st i = Granted \<Longrightarrow> netin_take others ticks i st = Inr st' \<Longrightarrow> net_step st st'"

definition getport :: "64 word \<Rightarrow> u16 \<times> 64 word" where
  "getport netportseed =
     (let netportseed = 6364136223846793005 * netportseed + 1;
          x = (ucast (drop_bit 48 netportseed) :: u16)
      in (50000 + x mod 15535, netportseed))"

section \<open>The queue is a bounded FIFO\<close>

definition n_pending :: "ifentry \<times> nphase \<Rightarrow> nat" where
  "n_pending = (\<lambda>(e, ph). nat (if_semcount e) + (if ph = Granted then 1 else 0))"

definition if_items :: "ifentry \<times> nphase \<Rightarrow> nat list" where
  "if_items q = ring_items (if_queue (fst q)) (if_head (fst q)) (n_pending q)"

definition if_ok :: "ifentry \<times> nphase \<Rightarrow> bool" where
  "if_ok = (\<lambda>(e, ph). length (if_queue e) = IF_QUEUESIZE \<and> if_head e < IF_QUEUESIZE \<and>
     n_pending (e, ph) \<le> IF_QUEUESIZE \<and> if_tail e = (if_head e + n_pending (e, ph)) mod IF_QUEUESIZE \<and>
     -1 \<le> if_semcount e \<and> (ph = Waiting \<longleftrightarrow> if_semcount e = -1))"

definition if_put :: "nat \<Rightarrow> ifentry \<times> nphase \<Rightarrow> ifentry \<times> nphase" where
  "if_put pkt q = (case arrive pkt q of None \<Rightarrow> q | Some q' \<Rightarrow> q')"

text \<open>\<^verbatim>\<open>netin\<close> at its next packet: \<^verbatim>\<open>wait\<close> unless it has been granted one, then dequeue.\<close>

definition if_get :: "ifentry \<times> nphase \<Rightarrow> nat \<times> ifentry \<times> nphase" where
  "if_get q = (case if_dequeue (fst (if snd q = Granted then q else if_wait q)) of (pkt, e) \<Rightarrow> (pkt, e, Idle))"

lemma length_if_items [simp]: "length (if_items q) = n_pending q"
  by (simp add: if_items_def)

lemma wrap_mod: "i \<le> IF_QUEUESIZE \<Longrightarrow> wrap i = i mod IF_QUEUESIZE"
  by (auto simp: wrap_def le_less IF_QUEUESIZE_def)

lemma pending_signal:
  assumes "if_ok (e, ph)" "if_semcount e' = if_semcount e"
  shows "n_pending (if_signal (e', ph)) = n_pending (e, ph) + 1"
  using assms by (cases ph) (auto simp: if_ok_def n_pending_def if_signal_def nat_add_distrib)

lemma arrive_ok:
  assumes "if_ok q" "n_pending q < IF_QUEUESIZE"
  shows "\<exists>q'. arrive pkt q = Some q' \<and> if_ok q' \<and> if_items q' = if_items q @ [pkt] \<and> (snd q' = Granted \<longleftrightarrow> snd q \<noteq> Idle)"
proof -
  obtain e ph where q: "q = (e, ph)" by fastforce
  note ok = assms(1) [unfolded q if_ok_def case_prod_conv]
  let ?e = "if_enqueue pkt e"
  have c: "if_semcount e < int IF_QUEUESIZE" using assms(2) ok by (auto simp: q n_pending_def split: if_splits)
  then have a: "arrive pkt q = Some (if_signal (?e, ph))" by (simp add: arrive_def q)
  have pend: "n_pending (if_signal (?e, ph)) = n_pending q + 1"
    using pending_signal assms(1) by (simp add: q if_enqueue_def)
  have sel: "if_queue (fst (if_signal (?e, ph))) = (if_queue e)[if_tail e := pkt]" "if_head (fst (if_signal (?e, ph))) = if_head e"
    "if_tail (fst (if_signal (?e, ph))) = (if_tail e + 1) mod IF_QUEUESIZE"
    "if_semcount (fst (if_signal (?e, ph))) = if_semcount e + 1"
    using ok by (auto simp: if_signal_def if_enqueue_def wrap_mod less_eq_Suc_le IF_QUEUESIZE_def)
  have ph: "snd (if_signal (?e, ph)) = (if if_semcount e < 0 then Granted else ph)"
    by (simp add: if_signal_def if_enqueue_def)
  have "if_items (if_signal (?e, ph)) = if_items q @ [pkt]"
    unfolding if_items_def sel pend using ok ring_put [of "n_pending q" "if_queue e" "if_head e" pkt] assms(2)
    by (simp add: q)
  moreover have "if_ok (if_signal (?e, ph))"
    using ok sel pend ph assms(2) by (cases "if_signal (?e, ph)") (auto simp: if_ok_def q mod_simps)
  ultimately show ?thesis using a ph ok by (cases ph) (auto simp: q)
qed

lemma wait_ok:
  assumes "if_ok q" "snd q = Idle"
  shows "if_ok (if_wait q) \<and> if_items (if_wait q) = if_items q \<and> (snd (if_wait q) = Granted \<longleftrightarrow> if_items q \<noteq> [])"
proof -
  obtain e where q: "q = (e, Idle)" using assms(2) by (cases q) auto
  note ok = assms(1) [unfolded q if_ok_def case_prod_conv]
  have pend: "n_pending (if_wait q) = n_pending q"
    using ok by (auto simp: q if_wait_def n_pending_def Let_def)
  then have "if_items (if_wait q) = if_items q"
    by (simp add: if_items_def q if_wait_def Let_def)
  moreover have "if_ok (if_wait q)" using ok pend by (auto simp: q if_wait_def if_ok_def Let_def)
  moreover have "if_items q \<noteq> [] \<longleftrightarrow> 0 < n_pending q" by (metis length_0_conv length_if_items neq0_conv)
  ultimately show ?thesis using ok by (auto simp: q if_wait_def n_pending_def Let_def)
qed

lemma dequeue_ok:
  assumes "if_ok q" "snd q = Granted"
  shows "if_items q = fst (if_dequeue (fst q)) # if_items (snd (if_dequeue (fst q)), Idle)"
    "if_ok (snd (if_dequeue (fst q)), Idle)"
proof -
  obtain e where q: "q = (e, Granted)" using assms(2) by (cases q) auto
  note ok = assms(1) [unfolded q if_ok_def case_prod_conv]
  have pend: "n_pending q = Suc (nat (if_semcount e))" by (simp add: q n_pending_def)
  have h: "wrap (if_head e + 1) = Suc (if_head e) mod IF_QUEUESIZE" using ok by (simp add: wrap_mod)
  show "if_items q = fst (if_dequeue (fst q)) # if_items (snd (if_dequeue (fst q)), Idle)"
    unfolding if_items_def pend using ring_get [of "if_head e" "if_queue e"] ok h
    by (simp add: q if_dequeue_def n_pending_def)
  have "0 \<le> if_semcount e" using ok by auto
  moreover have "(if_head e + Suc (nat (if_semcount e))) mod IF_QUEUESIZE =
      (Suc (if_head e) mod IF_QUEUESIZE + nat (if_semcount e)) mod IF_QUEUESIZE" by (simp add: mod_simps)
  ultimately show "if_ok (snd (if_dequeue (fst q)), Idle)"
    using ok h by (auto simp: if_ok_def q if_dequeue_def n_pending_def IF_QUEUESIZE_def)
qed

lemma if_get_ok:
  assumes "if_ok q" "if_items q \<noteq> []"
  shows "if_ok (snd (if_get q))" "if_items q = fst (if_get q) # if_items (snd (if_get q))"
proof -
  have "snd q \<noteq> Waiting"
    using assms by (cases q) (auto simp: if_items_def ring_items_def if_ok_def n_pending_def)
  then have "snd q = Granted \<or> snd q = Idle" by (cases "snd q") auto
  moreover have "if_items (if_wait q) = if_items q" "if_ok (if_wait q)" "snd (if_wait q) = Granted" if "snd q = Idle"
    using wait_ok [OF assms(1) that] assms(2) by simp_all
  ultimately show "if_ok (snd (if_get q))" "if_items q = fst (if_get q) # if_items (snd (if_get q))"
    using dequeue_ok [of q] dequeue_ok [of "if_wait q"] assms(1)
    by (auto simp: if_get_def split: prod.splits if_splits)
qed

interpretation ifq: bounded_fifo if_ok if_items IF_QUEUESIZE if_put if_get
proof
  fix q and x :: nat assume q: "if_ok q" "length (if_items q) < IF_QUEUESIZE"
  show "if_ok (if_put x q)" "if_items (if_put x q) = if_items q @ [x]"
    using arrive_ok [OF q(1), of x] q(2) by (auto simp: if_put_def)
qed (use if_get_ok in blast)+

section \<open>Properties\<close>

text \<open>The system's view of the queue of interface \<open>i\<close>.\<close>

definition if_view :: "netsys \<Rightarrow> nat \<Rightarrow> ifentry \<times> nphase" where
  "if_view st i = (if_tab (n_net st) i, n_phase st i)"

lemma next_buffer_view [simp]: "if_view (next_buffer st) i = if_view st i"
  by (simp add: if_view_def next_buffer_def split: list.split)

definition rawin_mem :: "byte list \<Rightarrow> nat \<Rightarrow> netsys \<Rightarrow> mem" where
  "rawin_mem bs pkt st = restore_mcast (wr_bytes (mem (n_net st)) pkt (take PACKLEN bs)) pkt"

lemma rawin_iter_arrive:
  assumes "iface = demux (if_tab (n_net st)) (net_dst (rawin_mem bs pkt st) pkt) 2"
    and "iface = 0 \<Longrightarrow> if_state (if_tab (n_net st) 0) = IF_UP"
    and "arrive pkt (if_view st iface) = Some q"
  shows "\<exists>st'. rawin_iter (Some bs) pkt st = Inr st' \<and> if_view st' iface = q \<and> n_returned st' = n_returned st \<and>
    (\<forall>j. j \<noteq> iface \<longrightarrow> if_view st' j = if_view st j)"
proof -
  obtain e ph where q: "q = (e, ph)" by fastforce
  let ?m = "rawin_mem bs pkt st"
  let ?st = "st\<lparr>n_net := upd_if iface (\<lambda>_. e) ((n_net st)\<lparr>mem := wr16 ?m (pkt + 1518) (word_of_nat iface)\<rparr>),
    n_phase := (n_phase st)(iface := ph)\<rparr>"
  have "rawin_iter (Some bs) pkt st = Inr (next_buffer ?st)"
    using assms by (auto simp: rawin_iter_def Let_def rawin_mem_def [symmetric] NIFACES_def if_view_def q upd_if_def
        numeral_2_eq_2)
  moreover have "if_view ?st iface = q" "\<forall>j. j \<noteq> iface \<longrightarrow> if_view ?st j = if_view st j"
    by (auto simp: if_view_def q upd_if_def)
  moreover have "n_returned (next_buffer ?st) = n_returned st" by (simp add: next_buffer_def split: list.split)
  ultimately show ?thesis by simp
qed

text \<open>C19: the input queues are first-in first-out. With fewer than 20 packets pending, a frame
  \<^verbatim>\<open>rawin\<close> accepts for an interface is appended to that interface's queue and no other queue
  changes; what a granted \<^verbatim>\<open>netin\<close> takes is the oldest packet; and up to 20 frames that arrive at
  an empty queue are delivered in their order.\<close>

theorem input_queue_fifo:
  assumes "if_ok (if_view st iface)" and "n_pending (if_view st iface) < IF_QUEUESIZE"
    and "iface = demux (if_tab (n_net st)) (net_dst (rawin_mem bs pkt st) pkt) 2"
    and "iface = 0 \<Longrightarrow> if_state (if_tab (n_net st) 0) = IF_UP"
  shows "(\<exists>st'. rawin_iter (Some bs) pkt st = Inr st' \<and> if_ok (if_view st' iface) \<and>
       if_items (if_view st' iface) = if_items (if_view st iface) @ [pkt] \<and>
       (\<forall>j. j \<noteq> iface \<longrightarrow> if_view st' j = if_view st j)) \<and>
    (n_phase st iface = Granted \<longrightarrow> fst (netin_fetch iface st) = hd (if_items (if_view st iface)) \<and>
       if_items (if_view (snd (netin_fetch iface st)) iface) = tl (if_items (if_view st iface))) \<and>
    (\<forall>pkts :: nat list. if_items (if_view st iface) = [] \<and> length pkts \<le> IF_QUEUESIZE \<longrightarrow>
       fst (ifq.gets (length pkts) (fold if_put pkts (if_view st iface))) = pkts)"
proof (intro conjI allI impI)
  from arrive_ok [OF assms(1,2), of pkt] obtain q where q: "arrive pkt (if_view st iface) = Some q" "if_ok q"
    "if_items q = if_items (if_view st iface) @ [pkt]" by blast
  from rawin_iter_arrive [OF assms(3,4) q(1)] q(2,3)
  show "\<exists>st'. rawin_iter (Some bs) pkt st = Inr st' \<and> if_ok (if_view st' iface) \<and>
       if_items (if_view st' iface) = if_items (if_view st iface) @ [pkt] \<and>
       (\<forall>j. j \<noteq> iface \<longrightarrow> if_view st' j = if_view st j)" by metis
next
  assume g: "n_phase st iface = Granted"
  then have "snd (if_view st iface) = Granted" by (simp add: if_view_def)
  note d = dequeue_ok(1) [OF assms(1) this]
  have f: "fst (netin_fetch iface st) = fst (if_dequeue (fst (if_view st iface)))"
    "if_view (snd (netin_fetch iface st)) iface = (snd (if_dequeue (fst (if_view st iface))), Idle)"
    by (simp_all add: netin_fetch_def if_view_def upd_if_def split: prod.split)
  show "fst (netin_fetch iface st) = hd (if_items (if_view st iface))"
    "if_items (if_view (snd (netin_fetch iface st)) iface) = tl (if_items (if_view st iface))"
    unfolding f d by simp_all
next
  fix pkts :: "nat list" assume "if_items (if_view st iface) = [] \<and> length pkts \<le> IF_QUEUESIZE"
  then show "fst (ifq.gets (length pkts) (fold if_put pkts (if_view st iface))) = pkts"
    using ifq.puts_gets assms(1) by blast
qed

text \<open>A queue whose process has been granted a packet it has not taken yet can be overrun: the
  semaphore counts one packet less than the ring holds.\<close>

lemma overrun_get:
  assumes "if_ok q" "snd q = Granted" "n_pending q = IF_QUEUESIZE"
  shows "\<exists>q'. arrive x q = Some q' \<and> fst (if_get q') = x \<and> if_ok (snd (if_get q')) \<and>
    if_items (snd (if_get q')) = tl (if_items q) @ [x]"
proof -
  obtain e where q: "q = (e, Granted)" using assms(2) by (cases q) auto
  note ok = assms(1) [unfolded q if_ok_def case_prod_conv]
  have c: "if_semcount e = 19" using assms(3) by (auto simp: q n_pending_def IF_QUEUESIZE_def split: if_splits)
  have t: "if_tail e = if_head e" using ok assms(3) by (simp add: q)
  let ?a = "(if_queue e)[if_head e := x]"
  define e' where "e' = e\<lparr>if_queue := ?a, if_tail := wrap (if_tail e + 1), if_semcount := 20\<rparr>"
  have a: "arrive x q = Some (e', Granted)"
    using c t by (simp add: arrive_def q if_signal_def if_enqueue_def e'_def IF_QUEUESIZE_def)
  let ?g = "(e'\<lparr>if_head := wrap (if_head e + 1)\<rparr>, Idle)"
  have g: "if_get (e', Granted) = (x, ?g)"
    using ok by (simp add: if_get_def if_dequeue_def e'_def)
  have h: "wrap (if_head e + 1) = Suc (if_head e) mod IF_QUEUESIZE" using ok by (simp add: wrap_mod)
  have len: "length (if_queue e) = 20" "if_head e < 20" using ok by (simp_all add: IF_QUEUESIZE_def)
  have "ring_items ?a (if_head e) (Suc 20) = ring_items ?a (if_head e) 20 @ [?a ! ((if_head e + 20) mod length ?a)]"
    unfolding ring_items_def upt_Suc_append [OF le0] by simp
  also have "?a ! ((if_head e + 20) mod length ?a) = x" using len by simp
  also have "ring_items ?a (if_head e) 20 = x # tl (if_items q)"
    using ring_overflow [of "if_head e" "if_queue e" 20 x] len assms(3) by (simp add: if_items_def q IF_QUEUESIZE_def)
  finally have "ring_items ?a (Suc (if_head e) mod 20) 20 = tl (if_items q) @ [x]"
    using ring_get [of "if_head e" ?a 20] len by simp
  then have "if_items ?g = tl (if_items q) @ [x]"
    by (simp add: if_items_def n_pending_def e'_def h [simplified] IF_QUEUESIZE_def)
  moreover have "if_ok ?g"
    using ok t h by (simp add: if_ok_def e'_def n_pending_def IF_QUEUESIZE_def wrap_mod)
  ultimately show ?thesis using a g by simp
qed

text \<open>A burst of 21 frames for an interface whose \<^verbatim>\<open>netin\<close> is waiting, all of them handled by
  \<^verbatim>\<open>rawin\<close> before \<^verbatim>\<open>netin\<close> runs, is accepted without a drop, but the first packet is overwritten by
  the last one, which \<^verbatim>\<open>netin\<close> takes twice (and so frees twice).\<close>

theorem burst_loses_packet:
  assumes "if_ok q" and "snd q = Waiting" and "length pkts = 20"
  shows "fst (ifq.gets 21 (fold if_put (pkts @ [x]) q)) = x # tl pkts @ [x]"
proof -
  have empty: "if_items q = []"
    using assms(1,2) by (cases q) (auto simp: if_items_def ring_items_def if_ok_def n_pending_def)
  obtain p ps where p: "pkts = p # ps" using assms(3) by (cases pkts) auto
  have granted: "snd (fold if_put ps q') = Granted" if "if_ok q'" "snd q' = Granted" "n_pending q' + length ps \<le> IF_QUEUESIZE" for q' ps
    using that
  proof (induction ps arbitrary: q')
    case (Cons a as)
    from Cons.prems arrive_ok [OF Cons.prems(1), of a] obtain q'' where "arrive a q' = Some q''" "if_ok q''"
      "if_items q'' = if_items q' @ [a]" "snd q'' = Granted" by auto
    moreover from this have "n_pending q'' = n_pending q' + 1" by (metis length_append_singleton length_if_items add.commute plus_1_eq_Suc)
    ultimately show ?case using Cons.IH [of q''] Cons.prems(3) by (simp add: if_put_def)
  qed simp
  let ?q1 = "if_put p q"
  have n0: "n_pending q = 0" using empty by (metis length_0_conv length_if_items)
  from arrive_ok [OF assms(1), of p] n0 assms(2) have q1: "if_ok ?q1" "snd ?q1 = Granted" "if_items ?q1 = [p]"
    by (auto simp: if_put_def IF_QUEUESIZE_def empty)
  then have n1: "n_pending ?q1 = 1" by (metis One_nat_def length_Cons length_if_items list.size(3))
  let ?q = "fold if_put pkts q"
  have q: "if_ok ?q" "if_items ?q = pkts" using ifq.items_puts [OF assms(1), of pkts] empty assms(3) by (simp_all add: IF_QUEUESIZE_def)
  have "snd ?q = Granted" using granted [OF q1(1,2), of ps] n1 assms(3) by (simp add: p IF_QUEUESIZE_def)
  moreover have "n_pending ?q = IF_QUEUESIZE" using q(2) assms(3) by (metis length_if_items IF_QUEUESIZE_def)
  ultimately obtain q' where q': "arrive x ?q = Some q'" "fst (if_get q') = x" "if_ok (snd (if_get q'))"
    "if_items (snd (if_get q')) = tl pkts @ [x]" using overrun_get [OF q(1), of x] q(2) by auto
  have "fst (ifq.gets 20 (snd (if_get q'))) = tl pkts @ [x]"
    using ifq.items_gets [OF q'(3), of 20] q'(4) assms(3) by simp
  moreover have "21 = Suc 20" by simp
  ultimately show ?thesis using q'(1,2) by (simp only: ifq.gets.simps) (simp add: if_put_def case_prod_beta)
qed

text \<open>The interface an idle system starts with, and one whose \<^verbatim>\<open>netin\<close> waits.\<close>

lemma if_boot_ok: "if_ok (if_boot i, Idle)" "if_items (if_boot i, Idle) = []" "n_pending (if_boot i, Idle) = 0"
  by (simp_all add: if_ok_def n_pending_def if_items_def IF_QUEUESIZE_def ring_items_def)

lemma if_waiting_ok: "if_ok (if_wait (if_boot i, Idle))" "snd (if_wait (if_boot i, Idle)) = Waiting"
  using wait_ok [OF if_boot_ok(1) [of i]] by (simp_all add: if_wait_def Let_def)

definition sys_boot :: "net \<Rightarrow> netsys" where
  "sys_boot s = \<lparr>n_net = s, n_rea = rea_boot, n_phase = (\<lambda>_. Idle), n_pkt = Some 1520, n_pool = [3040, 4560],
     n_returned = False\<rparr>"

lemma sys_boot_view [simp]: "if_view (sys_boot (net_boot h if_boot m)) i = (if_boot i, Idle)"
  by (simp add: sys_boot_def if_view_def)

theorem input_queue_fifo_witness:
  "\<exists>st'. rawin_iter (Some []) 1520 (sys_boot (net_boot False if_boot zero_block)) = Inr st' \<and>
     if_items (if_view st' 0) = [1520]"
proof -
  let ?st = "sys_boot (net_boot False if_boot zero_block)"
  have m: "rawin_mem [] 1520 ?st = zero_block"
    by (simp add: rawin_mem_def sys_boot_def restore_mcast_def zero_block_def wr_bytes_Nil)
  have d: "demux (if_tab (n_net ?st)) (net_dst (rawin_mem [] 1520 ?st) 1520) 2 = 0"
    unfolding m numeral_2_eq_2
    by (simp add: accepts_def sys_boot_def net_dst_def zero_block_bytes ETH_ADDR_LEN_def IF_UP_def)
  show ?thesis
    using input_queue_fifo [of ?st 0 "[]" 1520, OF _ _ d [symmetric]] if_boot_ok [of 0]
    by (auto simp: IF_QUEUESIZE_def sys_boot_def [of "net_boot False if_boot zero_block"] IF_UP_def
        simp del: sys_boot_view simp: sys_boot_view [unfolded sys_boot_def])
qed

theorem burst_loses_packet_witness:
  "fst (ifq.gets 21 (fold if_put ([100..<120] @ [120]) (if_wait (if_boot 0, Idle)))) = 120 # [101..<120] @ [120]"
  using burst_loses_packet [OF if_waiting_ok, of "[100..<120]" 120] by (simp add: upt_conv_Cons)

inductive_cases net_stepE: "net_step st st'"

lemma rawin_stays_returned:
  assumes "net_step\<^sup>*\<^sup>* st st'" "n_returned st"
  shows "n_returned st' \<and> n_pkt st' = n_pkt st"
  using assms
proof (induction rule: rtranclp_induct)
  case (step y z)
  from step.hyps(2) step.IH [OF step.prems] show ?case
    by (cases rule: net_stepE)
      (auto simp: netin_wait_def netin_take_def netin_fetch_def bind_res_Inr_iff split: prod.splits)
qed simp

text \<open>An overflow of the Ethernet's queue ends the input process. When the semaphore of
  interface 0 counts 20 packets, the next frame for the Ethernet makes \<^verbatim>\<open>rawin\<close> return, after which
  it takes no frame any more; on an Othernet the frame is dropped and \<^verbatim>\<open>rawin\<close> goes on with the same
  buffer.\<close>

theorem ethernet_overflow_ends_rawin:
  assumes "if_state (if_tab (n_net st) 0) = IF_UP" and "\<not> n_returned st"
    and "iface = demux (if_tab (n_net st)) (net_dst (rawin_mem bs pkt st) pkt) 2"
    and "int IF_QUEUESIZE \<le> if_semcount (if_tab (n_net st) iface)"
  shows "\<exists>st'. rawin_iter (Some bs) pkt st = Inr st' \<and> n_pkt st' = n_pkt st \<and>
     (\<forall>j. if_view st' j = if_view st j) \<and> (n_returned st' \<longleftrightarrow> iface = 0) \<and>
     (iface = 0 \<longrightarrow> (\<forall>st''. net_step\<^sup>*\<^sup>* st' st'' \<longrightarrow> n_returned st'' \<and> n_pkt st'' = n_pkt st))"
proof -
  let ?st = "st\<lparr>n_net := (n_net st)\<lparr>mem := wr16 (rawin_mem bs pkt st) (pkt + 1518) (word_of_nat iface)\<rparr>\<rparr>"
  let ?st' = "if iface = 0 then ?st\<lparr>n_returned := True\<rparr> else ?st"
  have "arrive pkt (if_tab (n_net st) iface, n_phase st iface) = None" using assms(4) by (simp add: arrive_def)
  then have "rawin_iter (Some bs) pkt st = Inr ?st'"
    using assms(1,3) by (auto simp: rawin_iter_def Let_def rawin_mem_def [symmetric] NIFACES_def numeral_2_eq_2)
  moreover have "n_pkt ?st' = n_pkt st" "\<forall>j. if_view ?st' j = if_view st j" "n_returned ?st' \<longleftrightarrow> iface = 0"
    using assms(2) by (auto simp: if_view_def)
  ultimately show ?thesis using rawin_stays_returned [of ?st'] by (intro exI [of _ ?st']) metis
qed

definition sys_full :: netsys where
  "sys_full = sys_boot (net_boot False (\<lambda>i. (if_boot i)\<lparr>if_semcount := 20\<rparr>) zero_block)"

theorem ethernet_overflow_ends_rawin_witness:
  "\<exists>st'. rawin_iter (Some []) 1520 sys_full = Inr st' \<and> n_returned st'"
proof -
  have m: "rawin_mem [] 1520 sys_full = zero_block"
    by (simp add: rawin_mem_def sys_full_def sys_boot_def restore_mcast_def zero_block_def wr_bytes_Nil)
  have d: "demux (if_tab (n_net sys_full)) (net_dst (rawin_mem [] 1520 sys_full) 1520) 2 = 0"
    unfolding m numeral_2_eq_2
    by (simp add: accepts_def sys_full_def sys_boot_def net_dst_def zero_block_bytes ETH_ADDR_LEN_def IF_UP_def)
  show ?thesis
    using ethernet_overflow_ends_rawin [of sys_full, OF _ _ d [symmetric]]
    by (auto simp: sys_full_def sys_boot_def IF_UP_def IF_QUEUESIZE_def)
qed

text \<open>The source address of an Othernet survives the wire. \<^verbatim>\<open>ethwrite\<close> clears the multicast bit of
  a source address x:80:0a:..., \<^verbatim>\<open>rawin\<close> sets it again; so a frame arrives as it was sent exactly
  when its source is not of that form or had the bit set (as all addresses of Othernets have).\<close>

theorem othernet_source_round_trip:
  assumes "9 \<le> len" and "len \<le> PACKLEN"
  shows "bytes (restore_mcast (wr_bytes m' pkt (eth_frame m buf len)) pkt) pkt len = bytes m buf len \<longleftrightarrow>
    \<not> (m (buf + 7) = 0x80 \<and> m (buf + 8) = 0x0a) \<or> m (buf + 6) AND 1 = 1"
proof -
  let ?w = "wr_bytes m' pkt (eth_frame m buf len)"
  have len: "length (eth_frame m buf len) = len" by (simp add: eth_frame_def)
  have w: "?w (pkt + k) = eth_frame m buf len ! k" if "k < len" for k
    using that len by (simp add: wr_bytes_def)
  have bit: "(b AND NOT 1) OR 1 = b \<longleftrightarrow> b AND 1 = 1" "b OR 1 = b \<longleftrightarrow> b AND 1 = 1" for b :: byte
    by (auto simp: bit_eq_iff bit_simps)
  show ?thesis
  proof (cases "m (buf + 7) = 0x80 \<and> m (buf + 8) = 0x0a")
    case True
    have f: "eth_frame m buf len = (bytes m buf len)[6 := m (buf + 6) AND NOT 1]"
      using True assms by (auto simp: eth_frame_def list_eq_iff_nth_eq nth_list_update)
    have "bytes (restore_mcast ?w pkt) pkt len = (bytes m buf len)[6 := (m (buf + 6) AND NOT 1) OR 1]"
      using True assms w len unfolding f
      by (auto simp: restore_mcast_def list_eq_iff_nth_eq nth_list_update)
    also have "\<dots> = bytes m buf len \<longleftrightarrow> (m (buf + 6) AND NOT 1) OR 1 = m (buf + 6)"
      using assms by (auto simp: list_eq_iff_nth_eq nth_list_update)
    finally show ?thesis using True bit by simp
  next
    case False
    then have f: "eth_frame m buf len = bytes m buf len" by (auto simp: eth_frame_def)
    have "restore_mcast ?w pkt = ?w"
      using False w [of 7] w [of 8] assms by (auto simp: restore_mcast_def f)
    then show ?thesis using False w by (auto simp: list_eq_iff_nth_eq f)
  qed
qed

theorem othernet_source_round_trip_witness:
  "bytes (restore_mcast (wr_bytes zero_block 100 (eth_frame zero_block 0 9)) 100) 100 9 = replicate 9 0"
  using othernet_source_round_trip [of 9 zero_block 100 zero_block 0]
  by (simp add: PACKLEN_def zero_block_def bytes_def map_replicate_const)

lemma demux_2: "demux ifs dst 2 = (if accepts ifs dst 2 then 2 else if accepts ifs dst 1 then 1 else 0)"
  by (simp add: numeral_2_eq_2)

section \<open>The interfaces after \<^verbatim>\<open>net_init\<close>\<close>

text \<open>The demultiplexing of a NAT box. After a successful \<^verbatim>\<open>net_init\<close> all three interfaces are up,
  the addresses of both Othernets are accepted by the driver, and \<^verbatim>\<open>rawin\<close> gives a frame to an
  Othernet exactly when it carries that net's unicast or broadcast address and to the Ethernet
  otherwise; without an entry for the station in the table of MAC addresses the system panics.\<close>

theorem net_init_demux:
  assumes "length (devAddress e) = ETH_ADDR_LEN" and "mcast_inv e" and "ed_mcc e \<le> 28"
  shows "case find (\<lambda>(uid, mac). devAddress e = mac) mactable of
      None \<Rightarrow> net_init mactable Nat_box (s, e) = Inl Panic
    | Some (uid, mac) \<Rightarrow> \<exists>s' e'. net_init mactable Nat_box (s, e) = Inr (s', e') \<and> \<not> host s' \<and> ifprime s' = 0 \<and>
        (\<forall>i < NIFACES. if_state (if_tab s' i) = IF_UP) \<and> if_macucast (if_tab s' 0) = devAddress e \<and>
        (\<forall>i \<in> {1, 2}. {if_macucast (if_tab s' i), if_macbcast (if_tab s' i)} =
            {oth_ucast (if i = 1 then 0x11 else 0x21) uid 51, oth_bcast (if i = 1 then 0x11 else 0x21) 51} \<and>
          (\<forall>dst. demux (if_tab s' ) dst 2 = i \<longleftrightarrow>
             dst = if_macucast (if_tab s' i) \<or> dst = if_macbcast (if_tab s' i)) \<and>
          {if_macucast (if_tab s' i), if_macbcast (if_tab s' i)} \<subseteq> set (mcasts e'))"
proof (cases "find (\<lambda>(uid, mac). devAddress e = mac) mactable")
  case None
  then show ?thesis using assms(1) by (simp add: net_init_def Let_def upd_if_def if_down_def)
next
  case (Some um)
  obtain uid mac where um: "um = (uid, mac)" by fastforce
  define u1 b1 u2 b2 where "u1 = oth_ucast 0x11 uid 51" and "b1 = oth_bcast 0x11 51"
    and "u2 = oth_ucast 0x21 uid 51" and "b2 = oth_bcast 0x21 51"
  have len: "length u1 = ETH_ADDR_LEN" "length b1 = ETH_ADDR_LEN" "length u2 = ETH_ADDR_LEN" "length b2 = ETH_ADDR_LEN"
    by (simp_all add: u1_def b1_def u2_def b2_def oth_ucast_def oth_bcast_def ETH_ADDR_LEN_def)
  have ne: "u1 \<noteq> u2" "u1 \<noteq> b2" "b1 \<noteq> u2" "b1 \<noteq> b2"
    by (simp_all add: u1_def b1_def u2_def b2_def oth_ucast_def oth_bcast_def)
  let ?e = "snd (ethmcast_add b2 (snd (ethmcast_add u2 (snd (ethmcast_add b1 (snd (ethmcast_add u1 e)))))))"
  have mc: "mcasts ?e = mcasts e @ [u1, b1, u2, b2]"
    using assms(2,3) len by (simp add: mcast_add)
  obtain s' where s': "net_init mactable Nat_box (s, e) = Inr (s', ?e)"
    "host s' = False" "ifprime s' = 0" "if_state (if_tab s' 0) = IF_UP" "if_state (if_tab s' 1) = IF_UP"
    "if_state (if_tab s' 2) = IF_UP" "if_macucast (if_tab s' 0) = devAddress e"
    "if_macucast (if_tab s' 1) = u1" "if_macbcast (if_tab s' 1) = b1"
    "if_macucast (if_tab s' 2) = u2" "if_macbcast (if_tab s' 2) = b2"
    using Some assms(1)
    by (simp add: net_init_def Let_def upd_if_def if_set_up_def oth_register_def um
        u1_def [symmetric] b1_def [symmetric] u2_def [symmetric] b2_def [symmetric] if_down_def IF_UP_def IF_DOWN_def)
  have d: "demux (if_tab s') dst 2 = (if dst = u2 \<or> dst = b2 then 2 else if dst = u1 \<or> dst = b1 then 1 else 0)" for dst
    unfolding demux_2 using s'(4-11) by (auto simp: accepts_def)
  show ?thesis
    unfolding Some um using s' mc d ne
    by (auto simp: NIFACES_def less_Suc_eq numeral_eq_Suc u1_def b1_def u2_def b2_def
        intro!: exI [of _ s'] exI [of _ ?e])
qed

theorem net_init_demux_witness:
  "(case find (\<lambda>(uid, mac). devAddress eth_boot = mac) [(5, replicate 6 0)] of None \<Rightarrow> False | Some _ \<Rightarrow> True) \<and>
   (\<exists>s' e'. net_init [(5, replicate 6 0)] Nat_box (net_boot True if_boot zero_block, eth_boot) = Inr (s', e') \<and>
      if_macucast (if_tab s' 0) = replicate 6 0)"
  using net_init_demux [of eth_boot "[(5, replicate 6 0)]" "net_boot True if_boot zero_block", OF _ mcast_inv_boot]
  by (auto simp: ETH_ADDR_LEN_def eth_boot_def)

end
