(* ===== verification/Proc_Queue.thy ===== *)
theory Proc_Queue
  imports Net_Prelude
begin

text \<open>
  The kernel's state and its process queues (\<^verbatim>\<open>include/process.h\<close>, \<^verbatim>\<open>include/semaphore.h\<close>,
  \<^verbatim>\<open>include/queue.h\<close>, \<^verbatim>\<open>system/queue.c\<close>, \<^verbatim>\<open>getitem.c\<close>, \<^verbatim>\<open>newqueue.c\<close>, \<^verbatim>\<open>insert.c\<close>, \<^verbatim>\<open>insertd.c\<close>).
  All queues live in one table of doubly linked nodes: entry \<open>p < NPROC\<close> is the node of process
  \<open>p\<close>, and queue \<open>q\<close> has head node \<open>q\<close> and tail node \<open>q + 1\<close>. The table is total: an index outside
  of it is memory the model does not specify. The specification is a list of processes for each
  queue; each operation on the table is a list operation on it.
\<close>

section \<open>The kernel's state\<close>

record qentry =
  qkey :: int
  qnext :: int
  qprev :: int

datatype pstate = PR_FREE | PR_CURR | PR_READY | PR_RECV | PR_SLEEP | PR_SUSP | PR_WAIT | PR_RECTIM

record procent =
  prstate :: pstate
  prprio :: int
  prstkbase :: nat
  prstklen :: nat
  prname :: "byte list"
  prsem :: int
  prparent :: int
  prmsg :: u32
  prhasmsg :: bool
  prdesc :: "int list"

record sentry =
  sused :: bool
  scount :: int
  squeue :: int

record kern =
  queuetab :: "int \<Rightarrow> qentry"
  proctab :: "int \<Rightarrow> procent"
  semtab :: "int \<Rightarrow> sentry"
  nextqid :: int
  nextpid :: int
  nextsem :: int
  readylist :: int
  sleepq :: int
  currpid :: int
  prcount :: int
  ndefers :: int
  attempt :: bool
  preempt :: u32
  count1000 :: u32
  kclktime :: u32

definition NPROC :: int where "NPROC = 100"
definition NSEM :: int where "NSEM = 100"
definition NQENT :: int where "NQENT = NPROC + 4 + NSEM + NSEM"
definition EMPTY :: int where "EMPTY = -1"
definition MAXKEY :: int where "MAXKEY = 2147483647"
definition MINKEY :: int where "MINKEY = -2147483648"
definition OK_st :: int where "OK_st = 1"
definition SYSERR_st :: int where "SYSERR_st = -1"

text \<open>The value of a 32-bit integer after an arithmetic operation.\<close>

definition i32 :: "int \<Rightarrow> int" where
  "i32 x = (x + 2147483648) mod 4294967296 - 2147483648"

lemma i32_in_range [simp]: "-2147483648 \<le> x \<Longrightarrow> x < 2147483648 \<Longrightarrow> i32 x = x"
  by (simp add: i32_def)

definition isbadqid :: "int \<Rightarrow> bool" where
  "isbadqid x \<longleftrightarrow> x < NPROC \<or> x \<ge> NQENT - 1"

definition isbadpid :: "kern \<Rightarrow> int \<Rightarrow> bool" where
  "isbadpid k x \<longleftrightarrow> x < 0 \<or> x \<ge> NPROC \<or> prstate (proctab k x) = PR_FREE"

section \<open>The queue operations\<close>

definition qset_next :: "int \<Rightarrow> int \<Rightarrow> (int \<Rightarrow> qentry) \<Rightarrow> int \<Rightarrow> qentry" where
  "qset_next i v t = t(i := (t i)\<lparr>qnext := v\<rparr>)"

definition qset_prev :: "int \<Rightarrow> int \<Rightarrow> (int \<Rightarrow> qentry) \<Rightarrow> int \<Rightarrow> qentry" where
  "qset_prev i v t = t(i := (t i)\<lparr>qprev := v\<rparr>)"

definition qset_key :: "int \<Rightarrow> int \<Rightarrow> (int \<Rightarrow> qentry) \<Rightarrow> int \<Rightarrow> qentry" where
  "qset_key i v t = t(i := (t i)\<lparr>qkey := v\<rparr>)"

definition firstid :: "(int \<Rightarrow> qentry) \<Rightarrow> int \<Rightarrow> int" where "firstid t q = qnext (t q)"
definition lastid :: "(int \<Rightarrow> qentry) \<Rightarrow> int \<Rightarrow> int" where "lastid t q = qprev (t (q + 1))"
definition isempty :: "(int \<Rightarrow> qentry) \<Rightarrow> int \<Rightarrow> bool" where "isempty t q \<longleftrightarrow> firstid t q \<ge> NPROC"
definition nonempty :: "(int \<Rightarrow> qentry) \<Rightarrow> int \<Rightarrow> bool" where "nonempty t q \<longleftrightarrow> firstid t q < NPROC"
definition firstkey :: "(int \<Rightarrow> qentry) \<Rightarrow> int \<Rightarrow> int" where "firstkey t q = qkey (t (firstid t q))"
definition lastkey :: "(int \<Rightarrow> qentry) \<Rightarrow> int \<Rightarrow> int" where "lastkey t q = qkey (t (lastid t q))"

definition enqueue :: "int \<Rightarrow> int \<Rightarrow> kern \<Rightarrow> int \<times> kern" where
  "enqueue pid q k =
     (if isbadqid q \<or> isbadpid k pid then (SYSERR_st, k)
      else
        let t = queuetab k; tail = q + 1; prev = qprev (t tail);
            t = qset_next pid tail t;
            t = qset_prev pid prev t;
            t = qset_next prev pid t;
            t = qset_prev tail pid t
        in (pid, k\<lparr>queuetab := t\<rparr>))"

definition getitem :: "int \<Rightarrow> kern \<Rightarrow> int \<times> kern" where
  "getitem pid k =
     (let t = queuetab k; nxt = qnext (t pid); prev = qprev (t pid);
          t = qset_next prev nxt t;
          t = qset_prev nxt prev t
      in (pid, k\<lparr>queuetab := t\<rparr>))"

definition getfirst :: "int \<Rightarrow> kern \<Rightarrow> int \<times> kern" where
  "getfirst q k =
     (if isempty (queuetab k) q then (EMPTY, k) else getitem (qnext (queuetab k q)) k)"

definition getlast :: "int \<Rightarrow> kern \<Rightarrow> int \<times> kern" where
  "getlast q k =
     (if isempty (queuetab k) q then (EMPTY, k) else getitem (qprev (queuetab k (q + 1))) k)"

definition dequeue :: "int \<Rightarrow> kern \<Rightarrow> int \<times> kern" where
  "dequeue q k =
     (if isbadqid q then (SYSERR_st, k)
      else if isempty (queuetab k) q then (EMPTY, k)
      else case getfirst q k of (pid, k) \<Rightarrow>
        let t = qset_prev pid EMPTY (queuetab k);
            t = qset_next pid EMPTY t
        in (pid, k\<lparr>queuetab := t\<rparr>))"

definition newqueue :: "kern \<Rightarrow> int \<times> kern" where
  "newqueue k =
     (let q = nextqid k in
      if q \<ge> NQENT then (SYSERR_st, k)
      else
        let t = queuetab k;
            t = qset_next q (q + 1) t;
            t = qset_prev q EMPTY t;
            t = qset_key q MAXKEY t;
            t = qset_next (q + 1) EMPTY t;
            t = qset_prev (q + 1) q t;
            t = qset_key (q + 1) MINKEY t
        in (q, k\<lparr>nextqid := nextqid k + 2, queuetab := t\<rparr>))"

text \<open>The loops of \<^verbatim>\<open>insert\<close> and \<^verbatim>\<open>insertd\<close>; \<open>None\<close> is a search that never ends.\<close>

partial_function (option) key_scan :: "(int \<Rightarrow> qentry) \<Rightarrow> int \<Rightarrow> int \<Rightarrow> int option" where
  "key_scan t key cur = (if qkey (t cur) \<ge> key then key_scan t key (qnext (t cur)) else Some cur)"

definition insert_q :: "int \<Rightarrow> int \<Rightarrow> int \<Rightarrow> kern \<Rightarrow> (int \<times> kern) res" where
  "insert_q pid q key k =
     (if isbadqid q \<or> isbadpid k pid then Inr (SYSERR_st, k)
      else
        let t = queuetab k in
        case key_scan t key (firstid t q) of
          None \<Rightarrow> Inl Diverges
        | Some cur \<Rightarrow>
            (let prev = qprev (t cur);
                 t = qset_next pid cur t;
                 t = qset_prev pid prev t;
                 t = qset_key pid key t;
                 t = qset_next prev pid t;
                 t = qset_prev cur pid t
             in Inr (OK_st, k\<lparr>queuetab := t\<rparr>)))"

partial_function (option) delta_scan ::
    "(int \<Rightarrow> qentry) \<Rightarrow> int \<Rightarrow> int \<Rightarrow> int \<Rightarrow> int \<Rightarrow> (int \<times> int \<times> int) option" where
  "delta_scan t tail key prev nxt =
     (if nxt \<noteq> tail \<and> qkey (t nxt) \<le> key
      then delta_scan t tail (i32 (key - qkey (t nxt))) nxt (qnext (t nxt))
      else Some (key, prev, nxt))"

definition insertd :: "int \<Rightarrow> int \<Rightarrow> int \<Rightarrow> kern \<Rightarrow> (int \<times> kern) res" where
  "insertd pid q key k =
     (if isbadqid q \<or> isbadpid k pid then Inr (SYSERR_st, k)
      else
        let t = queuetab k in
        case delta_scan t (q + 1) key q (qnext (t q)) of
          None \<Rightarrow> Inl Diverges
        | Some (key, prev, nxt) \<Rightarrow>
            (let t = qset_next pid nxt t;
                 t = qset_prev pid prev t;
                 t = qset_key pid key t;
                 t = qset_next prev pid t;
                 t = qset_prev nxt pid t;
                 t = (if nxt \<noteq> q + 1 then qset_key nxt (i32 (qkey (t nxt) - key)) t else t)
             in Inr (OK_st, k\<lparr>queuetab := t\<rparr>)))"

section \<open>Chains of nodes\<close>

text \<open>The nodes of the list are linked in both directions.\<close>

fun qlinks :: "(int \<Rightarrow> qentry) \<Rightarrow> int list \<Rightarrow> bool" where
  "qlinks t (x # y # zs) \<longleftrightarrow> qnext (t x) = y \<and> qprev (t y) = x \<and> qlinks t (y # zs)"
| "qlinks t _ \<longleftrightarrow> True"

lemma qset_sel [simp]:
  "qnext (qset_next i v t j) = (if j = i then v else qnext (t j))" "qprev (qset_next i v t j) = qprev (t j)"
  "qkey (qset_next i v t j) = qkey (t j)"
  "qnext (qset_prev i v t j) = qnext (t j)" "qprev (qset_prev i v t j) = (if j = i then v else qprev (t j))"
  "qkey (qset_prev i v t j) = qkey (t j)"
  "qnext (qset_key i v t j) = qnext (t j)" "qprev (qset_key i v t j) = qprev (t j)"
  "qkey (qset_key i v t j) = (if j = i then v else qkey (t j))"
  by (simp_all add: qset_next_def qset_prev_def qset_key_def)

lemma qlinks_append: "qlinks t (xs @ a # ys) \<longleftrightarrow> qlinks t (xs @ [a]) \<and> qlinks t (a # ys)"
proof (induction xs)
  case (Cons x xs)
  then show ?case by (cases xs) auto
qed simp

lemma qlinks_mid: "qlinks t (xs @ a # b # ys) \<Longrightarrow> qnext (t a) = b \<and> qprev (t b) = a"
  using qlinks_append [of t xs a "b # ys"] by simp

lemma qlinks_cong:
  assumes "\<And>x. x \<in> set xs \<Longrightarrow> qnext (t' x) = qnext (t x) \<and> qprev (t' x) = qprev (t x)"
  shows "qlinks t' xs = qlinks t xs"
  using assms by (induction t xs rule: qlinks.induct) auto

text \<open>The last node's next pointer and the first node's previous pointer do not matter.\<close>

lemma qlinks_cong_left:
  assumes "\<And>x. x \<in> set xs \<Longrightarrow> qnext (t' x) = qnext (t x) \<and> qprev (t' x) = qprev (t x)" "qprev (t' a) = qprev (t a)"
  shows "qlinks t' (xs @ [a]) = qlinks t (xs @ [a])"
  using assms
proof (induction xs)
  case (Cons x xs)
  then show ?case by (cases xs) auto
qed simp

lemma qlinks_cong_right:
  assumes "\<And>x. x \<in> set ys \<Longrightarrow> qnext (t' x) = qnext (t x) \<and> qprev (t' x) = qprev (t x)" "qnext (t' b) = qnext (t b)"
  shows "qlinks t' (b # ys) = qlinks t (b # ys)"
  using assms qlinks_cong [of ys t' t] by (cases ys) auto

lemma qlinks_link_in:
  assumes "qlinks t (xs @ a # b # ys)" "distinct (xs @ a # b # ys)" "p \<notin> set (xs @ a # b # ys)"
    and "\<And>x. x \<notin> {a, b, p} \<Longrightarrow> qnext (t' x) = qnext (t x) \<and> qprev (t' x) = qprev (t x)"
    and "qnext (t' a) = p" "qprev (t' p) = a" "qnext (t' p) = b" "qprev (t' b) = p"
    and "qprev (t' a) = qprev (t a)" "qnext (t' b) = qnext (t b)"
  shows "qlinks t' (xs @ a # p # b # ys)"
proof -
  have l: "qlinks t (xs @ [a])" and r: "qlinks t (b # ys)"
    using assms(1) qlinks_append [of t xs a "b # ys"] by auto
  have frame: "qnext (t' x) = qnext (t x) \<and> qprev (t' x) = qprev (t x)" if "x \<in> set xs \<union> set ys" for x
    using that assms(2,3) by (intro assms(4)) auto
  have "qlinks t' (xs @ [a])" using l qlinks_cong_left [of xs t' t a] frame assms(9) by simp
  moreover have "qlinks t' (b # ys)" using r qlinks_cong_right [of ys t' t b] frame assms(10) by simp
  ultimately show ?thesis using assms(5-8) qlinks_append [of t' xs a "p # b # ys"] by simp
qed

lemma qlinks_unlink:
  assumes "qlinks t (xs @ a # p # b # ys)" "distinct (xs @ a # p # b # ys)"
    and "\<And>x. x \<notin> {a, b, p} \<Longrightarrow> qnext (t' x) = qnext (t x) \<and> qprev (t' x) = qprev (t x)"
    and "qnext (t' a) = b" "qprev (t' b) = a" "qprev (t' a) = qprev (t a)" "qnext (t' b) = qnext (t b)"
  shows "qlinks t' (xs @ a # b # ys)"
proof -
  have l: "qlinks t (xs @ [a])" and r: "qlinks t (b # ys)"
    using assms(1) qlinks_append [of t xs a "p # b # ys"] by auto
  have frame: "qnext (t' x) = qnext (t x) \<and> qprev (t' x) = qprev (t x)" if "x \<in> set xs \<union> set ys" for x
    using that assms(2) by (intro assms(3)) auto
  have "qlinks t' (xs @ [a])" using l qlinks_cong_left [of xs t' t a] frame assms(6) by simp
  moreover have "qlinks t' (b # ys)" using r qlinks_cong_right [of ys t' t b] frame assms(7) by simp
  ultimately show ?thesis using assms(4,5) qlinks_append [of t' xs a "b # ys"] by simp
qed

section \<open>The queues of the table\<close>

definition qnodes :: "int \<Rightarrow> int list \<Rightarrow> int list" where
  "qnodes q ps = q # ps @ [q + 1]"

definition queue_at :: "(int \<Rightarrow> qentry) \<Rightarrow> int \<Rightarrow> int list \<Rightarrow> bool" where
  "queue_at t q ps \<longleftrightarrow> qlinks t (qnodes q ps) \<and> distinct ps \<and> set ps \<subseteq> {0..<NPROC} \<and>
     NPROC \<le> q \<and> q + 1 < NQENT \<and> qkey (t (q + 1)) = MINKEY"

text \<open>\<open>Q\<close> gives the list of every queue in \<open>S\<close>; a process is in at most one of them.\<close>

definition queues_ok :: "(int \<Rightarrow> qentry) \<Rightarrow> (int \<Rightarrow> int list) \<Rightarrow> int set \<Rightarrow> bool" where
  "queues_ok t Q S \<longleftrightarrow> (\<forall>q \<in> S. queue_at t q (Q q) \<and> q + 1 \<notin> S) \<and>
     (\<forall>q \<in> S. \<forall>r \<in> S. q \<noteq> r \<longrightarrow> set (Q q) \<inter> set (Q r) = {})"

definition queued :: "(int \<Rightarrow> int list) \<Rightarrow> int set \<Rightarrow> int set" where
  "queued Q S = (\<Union>q \<in> S. set (Q q))"

lemma qnodes_distinct: "queue_at t q ps \<Longrightarrow> distinct (qnodes q ps)"
  by (auto simp: queue_at_def qnodes_def)

lemma qnodes_disjoint:
  assumes "queues_ok t Q S" "q \<in> S" "r \<in> S" "q \<noteq> r"
  shows "set (qnodes q (Q q)) \<inter> set (qnodes r (Q r)) = {}"
proof -
  have "queue_at t q (Q q)" "queue_at t r (Q r)" "q + 1 \<notin> S" "r + 1 \<notin> S" "set (Q q) \<inter> set (Q r) = {}"
    using assms by (auto simp: queues_ok_def)
  then show ?thesis using assms(2-4) by (auto simp: qnodes_def queue_at_def)
qed

text \<open>An operation that changes the pointers of nodes of queue \<open>q\<close> and of the unqueued process \<open>p\<close>
  only leaves the other queues as they are.\<close>

lemma queues_ok_update:
  assumes "queues_ok t Q S" "q \<in> S" "qlinks t' (qnodes q ps)" "distinct ps" "set ps \<subseteq> {0..<NPROC}"
    and "set ps \<subseteq> set (Q q) \<union> (- queued Q S)"
    and "\<And>x. x \<notin> set (qnodes q (Q q)) \<union> set ps \<Longrightarrow> qnext (t' x) = qnext (t x) \<and> qprev (t' x) = qprev (t x)"
    and "\<And>x. NPROC \<le> x \<Longrightarrow> qkey (t' x) = qkey (t x)"
  shows "queues_ok t' (Q(q := ps)) S"
proof -
  have q: "queue_at t q (Q q)" using assms(1,2) by (simp add: queues_ok_def)
  have "queue_at t' q ps" using q assms(3-5,8) by (simp add: queue_at_def)
  moreover have "queue_at t' r (Q r)" if r: "r \<in> S" "r \<noteq> q" for r
  proof -
    have at: "queue_at t r (Q r)" using assms(1) r(1) by (simp add: queues_ok_def)
    have "set (qnodes r (Q r)) \<inter> (set (qnodes q (Q q)) \<union> set ps) = {}"
    proof -
      have "set (Q r) \<inter> set (Q q) = {}" "set (Q r) \<subseteq> queued Q S" using assms(1,2) r by (auto simp: queues_ok_def queued_def)
      then have "set (Q r) \<inter> set ps = {}" using assms(6) by blast
      moreover have "r \<notin> set ps" "r + 1 \<notin> set ps" using at assms(5) by (auto simp: queue_at_def)
      ultimately show ?thesis using qnodes_disjoint [OF assms(1) r(1) assms(2) r(2)] by (auto simp: qnodes_def)
    qed
    then have "qlinks t' (qnodes r (Q r)) = qlinks t (qnodes r (Q r))"
      using assms(7) by (intro qlinks_cong) blast
    then show ?thesis using at assms(8) by (simp add: queue_at_def)
  qed
  moreover have "set ps \<inter> set (Q r) = {}" if "r \<in> S" "r \<noteq> q" for r
  proof -
    have "set (Q q) \<inter> set (Q r) = {}" "set (Q r) \<subseteq> queued Q S"
      using assms(1,2) that by (auto simp: queues_ok_def queued_def)
    then show ?thesis using assms(6) by blast
  qed
  ultimately show ?thesis using assms(1) by (auto simp: queues_ok_def)
qed

section \<open>The operations on the lists\<close>

lemma qnodes_split:
  "qnodes q (A @ B) = butlast (q # A) @ last (q # A) # hd (B @ [q + 1]) # tl (B @ [q + 1])"
proof -
  have a: "butlast (q # A) @ [last (q # A)] = q # A" by (rule append_butlast_last_id) simp
  have b: "hd (B @ [q + 1]) # tl (B @ [q + 1]) = B @ [q + 1]" by (rule list.collapse) simp
  have "butlast (q # A) @ last (q # A) # hd (B @ [q + 1]) # tl (B @ [q + 1]) =
      (butlast (q # A) @ [last (q # A)]) @ (hd (B @ [q + 1]) # tl (B @ [q + 1]))" by (simp only: append.assoc append_Cons append_Nil)
  also have "\<dots> = qnodes q (A @ B)" unfolding a b by (simp add: qnodes_def)
  finally show ?thesis ..
qed

lemma queue_at_split:
  assumes "queue_at t q (A @ B)"
  shows "qnext (t (last (q # A))) = hd (B @ [q + 1])" "qprev (t (hd (B @ [q + 1]))) = last (q # A)"
proof -
  have "qlinks t (qnodes q (A @ B))" using assms by (simp add: queue_at_def)
  from qlinks_mid [OF this [unfolded qnodes_split]]
  show "qnext (t (last (q # A))) = hd (B @ [q + 1])" "qprev (t (hd (B @ [q + 1]))) = last (q # A)" by blast+
qed

lemma queues_okD:
  assumes "queues_ok t Q S" "q \<in> S"
  shows "queue_at t q (Q q)" "NPROC \<le> q" "q + 1 < NQENT" "qkey (t (q + 1)) = MINKEY" "\<not> isbadqid q"
    "set (Q q) \<subseteq> {0..<NPROC}" "distinct (Q q)" "set (Q q) \<subseteq> queued Q S"
  using assms by (auto simp: queues_ok_def queue_at_def isbadqid_def queued_def)

lemma firstid_queue:
  assumes "queues_ok t Q S" "q \<in> S"
  shows "firstid t q = hd (Q q @ [q + 1])" "lastid t q = last (q # Q q)" "isempty t q \<longleftrightarrow> Q q = []"
proof -
  have at: "queue_at t q (Q q)" using queues_okD(1) [OF assms] .
  show f: "firstid t q = hd (Q q @ [q + 1])"
    using queue_at_split(1) [of t q "[]" "Q q"] at by (simp add: firstid_def)
  show "lastid t q = last (q # Q q)"
    using queue_at_split(2) [of t q "Q q" "[]"] at by (simp add: lastid_def)
  show "isempty t q \<longleftrightarrow> Q q = []"
    using queues_okD(2,6) [OF assms] by (cases "Q q") (auto simp: isempty_def f)
qed

text \<open>The neighbours in a split list are different nodes.\<close>

lemma split_ends:
  assumes "queue_at t q (A @ B)"
  shows "last (q # A) \<noteq> hd (B @ [q + 1])" "last (q # A) \<in> set (qnodes q (A @ B))" "hd (B @ [q + 1]) \<in> set (qnodes q (A @ B))"
proof -
  obtain xs ys where n: "qnodes q (A @ B) = xs @ last (q # A) # hd (B @ [q + 1]) # ys" using qnodes_split by blast
  have "c \<noteq> e" if "distinct (xs @ c # e # ys)" for c e using that by auto
  then show "last (q # A) \<noteq> hd (B @ [q + 1])" using qnodes_distinct [OF assms] unfolding n by blast
  show "last (q # A) \<in> set (qnodes q (A @ B))" "hd (B @ [q + 1]) \<in> set (qnodes q (A @ B))"
    unfolding n by simp_all
qed

text \<open>A process that is in no queue is not a node of any.\<close>

lemma unqueued_node:
  assumes "queues_ok t Q S" "q \<in> S" "p \<in> {0..<NPROC}" "p \<notin> queued Q S"
  shows "p \<notin> set (qnodes q (Q q))"
  using queues_okD(2,8) [OF assms(1,2)] assms(3,4) by (auto simp: qnodes_def)

lemma queues_link_in:
  assumes "queues_ok t Q S" "q \<in> S" "Q q = A @ B" "p \<in> {0..<NPROC}" "p \<notin> queued Q S"
    and "a = last (q # A)" "b = hd (B @ [q + 1])"
    and "\<And>x. x \<notin> {a, b, p} \<Longrightarrow> qnext (t' x) = qnext (t x) \<and> qprev (t' x) = qprev (t x)"
    and "qnext (t' a) = p" "qprev (t' p) = a" "qnext (t' p) = b" "qprev (t' b) = p"
    and "qprev (t' a) = qprev (t a)" "qnext (t' b) = qnext (t b)"
    and "\<And>x. NPROC \<le> x \<Longrightarrow> qkey (t' x) = qkey (t x)"
  shows "queues_ok t' (Q(q := A @ p # B)) S"
proof -
  note d = queues_okD [OF assms(1,2)]
  have pq: "p \<notin> set (qnodes q (Q q))" using unqueued_node [OF assms(1,2,4,5)] .
  have n: "qnodes q (Q q) = butlast (q # A) @ a # b # tl (B @ [q + 1])"
    unfolding assms(3,6,7) by (rule qnodes_split)
  have nodes: "a \<in> set (qnodes q (Q q))" "b \<in> set (qnodes q (Q q))" unfolding n by simp_all
  have "qlinks t' (butlast (q # A) @ a # p # b # tl (B @ [q + 1]))"
  proof (rule qlinks_link_in [OF _ _ _ assms(8-14)])
    show "qlinks t (butlast (q # A) @ a # b # tl (B @ [q + 1]))" using d(1) n by (simp add: queue_at_def)
    show "distinct (butlast (q # A) @ a # b # tl (B @ [q + 1]))" using qnodes_distinct [OF d(1)] n by simp
    show "p \<notin> set (butlast (q # A) @ a # b # tl (B @ [q + 1]))" using pq n by simp
  qed simp_all
  moreover have "butlast (q # A) @ a # p # b # tl (B @ [q + 1]) = qnodes q (A @ p # B)"
    using qnodes_split [of q A "p # B"] unfolding assms(6,7) by simp
  ultimately have "qlinks t' (qnodes q (A @ p # B))" by simp
  moreover have "p \<notin> set (Q q)" using pq by (simp add: qnodes_def)
  ultimately show ?thesis
  proof (intro queues_ok_update [OF assms(1,2)])
    fix x assume "x \<notin> set (qnodes q (Q q)) \<union> set (A @ p # B)"
    then have "x \<notin> {a, b, p}" using nodes by auto
    then show "qnext (t' x) = qnext (t x) \<and> qprev (t' x) = qprev (t x)" by (rule assms(8))
  qed (use d(6,7) assms(3,4,5,15) in auto)
qed

lemma queues_unlink:
  assumes "queues_ok t Q S" "q \<in> S" "Q q = A @ p # B" "a = last (q # A)" "b = hd (B @ [q + 1])"
    and "\<And>x. x \<notin> {a, b, p} \<Longrightarrow> qnext (t' x) = qnext (t x) \<and> qprev (t' x) = qprev (t x)"
    and "qnext (t' a) = b" "qprev (t' b) = a" "qprev (t' a) = qprev (t a)" "qnext (t' b) = qnext (t b)"
    and "\<And>x. NPROC \<le> x \<Longrightarrow> qkey (t' x) = qkey (t x)"
  shows "queues_ok t' (Q(q := A @ B)) S"
proof -
  note d = queues_okD [OF assms(1,2)]
  have n: "qnodes q (Q q) = butlast (q # A) @ a # p # b # tl (B @ [q + 1])"
    unfolding assms(3) qnodes_split assms(4,5) by simp
  have nodes: "a \<in> set (qnodes q (Q q))" "b \<in> set (qnodes q (Q q))" "p \<in> set (qnodes q (Q q))" unfolding n by simp_all
  have "qlinks t' (butlast (q # A) @ a # b # tl (B @ [q + 1]))"
  proof (rule qlinks_unlink [OF _ _ assms(6-10)])
    show "qlinks t (butlast (q # A) @ a # p # b # tl (B @ [q + 1]))" using d(1) n by (simp add: queue_at_def)
    show "distinct (butlast (q # A) @ a # p # b # tl (B @ [q + 1]))" using qnodes_distinct [OF d(1)] n by simp
  qed simp_all
  then have "qlinks t' (qnodes q (A @ B))" unfolding qnodes_split assms(4,5) .
  then show ?thesis
  proof (intro queues_ok_update [OF assms(1,2)])
    fix x assume "x \<notin> set (qnodes q (Q q)) \<union> set (A @ B)"
    then have "x \<notin> {a, b, p}" using nodes by auto
    then show "qnext (t' x) = qnext (t x) \<and> qprev (t' x) = qprev (t x)" by (rule assms(6))
  qed (use d(6,7) assms(3,11) in auto)
qed

lemma enqueue_spec:
  assumes "queues_ok (queuetab k) Q S" "q \<in> S" "\<not> isbadpid k p" "p \<notin> queued Q S"
  obtains t' where "enqueue p q k = (p, k\<lparr>queuetab := t'\<rparr>)" "queues_ok t' (Q(q := Q q @ [p])) S"
    "\<And>x. qkey (t' x) = qkey (queuetab k x)"
proof -
  let ?t = "queuetab k"
  let ?a = "last (q # Q q)"
  let ?t' = "qset_prev (q + 1) p (qset_next ?a p (qset_prev p ?a (qset_next p (q + 1) ?t)))"
  note d = queues_okD [OF assms(1,2)]
  have p: "p \<in> {0..<NPROC}" using assms(3) by (auto simp: isbadpid_def)
  have nodes: "p \<noteq> q + 1" "p \<noteq> ?a" "?a \<noteq> q + 1"
    using unqueued_node [OF assms(1,2) p assms(4)] split_ends [of ?t q "Q q" "[]"] d(1) by auto
  have "qprev (?t (q + 1)) = ?a" using firstid_queue(2) [OF assms(1,2)] by (simp add: lastid_def)
  then have "enqueue p q k = (p, k\<lparr>queuetab := ?t'\<rparr>)"
    using assms(3) d(5) nodes by (simp add: enqueue_def Let_def)
  moreover have "queues_ok ?t' (Q(q := Q q @ [p])) S"
    by (rule queues_link_in [OF assms(1,2) _ p assms(4), of "Q q" "[]" ?a "q + 1"]) (use nodes in auto)
  ultimately show thesis using that by simp
qed

lemma queue_neighbours:
  assumes "queues_ok t Q S" "q \<in> S" "Q q = A @ p # B"
  shows "qprev (t p) = last (q # A)" "qnext (t p) = hd (B @ [q + 1])"
    "p \<notin> {last (q # A), hd (B @ [q + 1])}" "last (q # A) \<noteq> hd (B @ [q + 1])"
proof -
  have at: "queue_at t q (A @ p # B)" using queues_okD(1) [OF assms(1,2)] assms(3) by simp
  have n: "qnodes q (Q q) = butlast (q # A) @ last (q # A) # p # hd (B @ [q + 1]) # tl (B @ [q + 1])"
    using qnodes_split [of q A "p # B"] assms(3) by (cases B) auto
  have dist: "distinct (qnodes q (Q q))" using qnodes_distinct [OF queues_okD(1) [OF assms(1,2)]] .
  have e: "\<And>a p b xs ys. distinct (xs @ a # p # b # ys) \<Longrightarrow> p \<notin> {a, b} \<and> a \<noteq> b" by auto
  have "p \<notin> {last (q # A), hd (B @ [q + 1])} \<and> last (q # A) \<noteq> hd (B @ [q + 1])"
    by (rule e [OF dist [unfolded n]])
  then show "p \<notin> {last (q # A), hd (B @ [q + 1])}" "last (q # A) \<noteq> hd (B @ [q + 1])" by blast+
  show "qprev (t p) = last (q # A)" using queue_at_split(2) [of t q A "p # B"] at by simp
  show "qnext (t p) = hd (B @ [q + 1])" using queue_at_split(1) [of t q "A @ [p]" B] at by simp
qed

lemma getitem_spec:
  assumes "queues_ok (queuetab k) Q S" "q \<in> S" "Q q = A @ p # B"
  obtains t' where "getitem p k = (p, k\<lparr>queuetab := t'\<rparr>)" "queues_ok t' (Q(q := A @ B)) S"
    "\<And>x. qkey (t' x) = qkey (queuetab k x)"
proof -
  let ?t = "queuetab k"
  let ?a = "last (q # A)"
  let ?b = "hd (B @ [q + 1])"
  let ?t' = "qset_prev ?b ?a (qset_next ?a ?b ?t)"
  note n = queue_neighbours [OF assms]
  have "getitem p k = (p, k\<lparr>queuetab := ?t'\<rparr>)" using n(1,2) by (simp add: getitem_def Let_def)
  moreover have "queues_ok ?t' (Q(q := A @ B)) S"
    by (rule queues_unlink [OF assms, of ?a ?b]) (use n(3,4) in auto)
  ultimately show thesis using that by simp
qed

lemma getfirst_spec:
  assumes "queues_ok (queuetab k) Q S" "q \<in> S" "Q q = p # ps"
  obtains t' where "getfirst q k = (p, k\<lparr>queuetab := t'\<rparr>)" "queues_ok t' (Q(q := ps)) S"
    "\<And>x. qkey (t' x) = qkey (queuetab k x)"
proof -
  have "getfirst q k = getitem p k"
    using firstid_queue [OF assms(1,2)] assms(3) by (simp add: getfirst_def firstid_def)
  then show thesis using getitem_spec [of k Q S q "[]" p ps] assms that by auto
qed

lemma getlast_spec:
  assumes "queues_ok (queuetab k) Q S" "q \<in> S" "Q q = ps @ [p]"
  obtains t' where "getlast q k = (p, k\<lparr>queuetab := t'\<rparr>)" "queues_ok t' (Q(q := ps)) S"
    "\<And>x. qkey (t' x) = qkey (queuetab k x)"
proof -
  have "getlast q k = getitem p k"
    using firstid_queue [OF assms(1,2)] assms(3) by (simp add: getlast_def lastid_def)
  then show thesis using getitem_spec [of k Q S q ps p "[]"] assms that by auto
qed

lemma getfirst_empty: "queues_ok (queuetab k) Q S \<Longrightarrow> q \<in> S \<Longrightarrow> Q q = [] \<Longrightarrow> getfirst q k = (EMPTY, k)"
  using firstid_queue(3) by (simp add: getfirst_def)

lemma dequeue_empty: "queues_ok (queuetab k) Q S \<Longrightarrow> q \<in> S \<Longrightarrow> Q q = [] \<Longrightarrow> dequeue q k = (EMPTY, k)"
  using firstid_queue(3) queues_okD(5) by (simp add: dequeue_def)

text \<open>The pointers of a process in no queue do not matter.\<close>

lemma queues_ok_frame:
  assumes "queues_ok t Q S" "p < NPROC" "p \<notin> queued Q S"
    and "\<And>x. x \<noteq> p \<Longrightarrow> qnext (t' x) = qnext (t x) \<and> qprev (t' x) = qprev (t x)"
    and "\<And>x. NPROC \<le> x \<Longrightarrow> qkey (t' x) = qkey (t x)"
  shows "queues_ok t' Q S"
proof -
  have "queue_at t' q (Q q)" if q: "q \<in> S" for q
  proof -
    note d = queues_okD [OF assms(1) q]
    have "p \<notin> set (qnodes q (Q q))" using d(2,8) assms(2,3) by (auto simp: qnodes_def)
    then have "\<forall>x \<in> set (qnodes q (Q q)). x \<noteq> p" by auto
    then have "qlinks t' (qnodes q (Q q)) = qlinks t (qnodes q (Q q))"
      using assms(4) by (intro qlinks_cong) simp
    then show ?thesis using d(1,2) assms(5) by (simp add: queue_at_def)
  qed
  then show ?thesis using assms(1) by (auto simp: queues_ok_def)
qed

lemma dequeue_spec:
  assumes "queues_ok (queuetab k) Q S" "q \<in> S" "Q q = p # ps"
  obtains t' where "dequeue q k = (p, k\<lparr>queuetab := t'\<rparr>)" "queues_ok t' (Q(q := ps)) S"
    "\<And>x. qkey (t' x) = qkey (queuetab k x)"
proof -
  obtain t where t: "getfirst q k = (p, k\<lparr>queuetab := t\<rparr>)" "queues_ok t (Q(q := ps)) S"
    "\<And>x. qkey (t x) = qkey (queuetab k x)" using getfirst_spec [OF assms] by blast
  let ?t' = "qset_next p EMPTY (qset_prev p EMPTY t)"
  note d = queues_okD [OF assms(1,2)]
  have p: "p < NPROC" "p \<notin> set ps" using d(6,7) assms(3) by auto
  have "p \<notin> set (Q r)" if "r \<in> S" "r \<noteq> q" for r
    using assms that unfolding queues_ok_def by (metis disjoint_iff list.set_intros(1))
  then have "p \<notin> queued (Q(q := ps)) S" using p(2) by (auto simp: queued_def)
  then have "queues_ok ?t' (Q(q := ps)) S" by (rule queues_ok_frame [OF t(2) p(1)]) simp_all
  moreover have "dequeue q k = (p, k\<lparr>queuetab := ?t'\<rparr>)"
    using firstid_queue(3) [OF assms(1,2)] assms(3) d(5) t(1) by (simp add: dequeue_def Let_def)
  ultimately show thesis using that t(3) by simp
qed

lemma newqueue_spec:
  assumes "queues_ok (queuetab k) Q S" "nextqid k = q" "NPROC \<le> q" "q + 1 < NQENT" "\<And>r. r \<in> S \<Longrightarrow> r + 1 < q"
  obtains t' where "newqueue k = (q, k\<lparr>nextqid := q + 2, queuetab := t'\<rparr>)" "queues_ok t' (Q(q := [])) (insert q S)"
    "\<And>x. x < q \<Longrightarrow> t' x = queuetab k x" "qkey (t' q) = MAXKEY"
proof -
  let ?t' = "qset_key (q + 1) MINKEY (qset_prev (q + 1) q (qset_next (q + 1) EMPTY
    (qset_key q MAXKEY (qset_prev q EMPTY (qset_next q (q + 1) (queuetab k))))))"
  have "queue_at ?t' r (Q r) \<and> r + 1 \<notin> insert q S" if r: "r \<in> S" for r
  proof -
    note d = queues_okD [OF assms(1) r]
    have "qlinks ?t' (qnodes r (Q r)) = qlinks (queuetab k) (qnodes r (Q r))"
      using d(6) assms(3) assms(5) [OF r] by (intro qlinks_cong) (auto simp: qnodes_def)
    then show ?thesis using d(1) assms(1) assms(5) [OF r] r by (auto simp: queue_at_def queues_ok_def)
  qed
  moreover have "queue_at ?t' q []" using assms(3,4) by (simp add: queue_at_def qnodes_def)
  moreover have "q \<notin> S" "q + 1 \<notin> S" using assms(5) by fastforce+
  ultimately have "queues_ok ?t' (Q(q := [])) (insert q S)" using assms(1) by (auto simp: queues_ok_def)
  moreover have "newqueue k = (q, k\<lparr>nextqid := q + 2, queuetab := ?t'\<rparr>)"
    using assms(2,4) by (simp add: newqueue_def Let_def)
  moreover have "?t' x = queuetab k x" if "x < q" for x
    using that by (simp add: qset_next_def qset_prev_def qset_key_def)
  ultimately show thesis using that [of ?t'] by simp
qed

section \<open>Insertion by key\<close>

text \<open>The position \<open>insert\<close> chooses: behind the leading processes whose key is at least the new one.\<close>

definition put_by_key :: "(int \<Rightarrow> int) \<Rightarrow> int \<Rightarrow> int \<Rightarrow> int list \<Rightarrow> int list" where
  "put_by_key kf p key ps = takeWhile (\<lambda>x. kf x \<ge> key) ps @ p # dropWhile (\<lambda>x. kf x \<ge> key) ps"

lemma set_put_by_key [simp]: "set (put_by_key kf p key ps) = insert p (set ps)"
proof -
  have "set ps = set (takeWhile (\<lambda>x. kf x \<ge> key) ps @ dropWhile (\<lambda>x. kf x \<ge> key) ps)" by simp
  then show ?thesis unfolding put_by_key_def set_append by auto
qed

lemma put_by_key_sorted:
  assumes "sorted_wrt (\<lambda>x y. kf x \<ge> kf y) ps" "p \<notin> set ps"
  shows "sorted_wrt (\<lambda>x y. (kf(p := key)) x \<ge> (kf(p := key)) y) (put_by_key kf p key ps)"
  using assms
proof (induction ps)
  case (Cons x ps)
  have "set (dropWhile (\<lambda>x. kf x \<ge> key) ps) \<subseteq> set ps" by (meson set_dropWhileD subsetI)
  moreover have "sorted_wrt (\<lambda>x y. (kf(p := key)) x \<ge> (kf(p := key)) y) (x # ps)"
    using Cons.prems by (intro sorted_wrt_mono_rel [OF _ Cons.prems(1)]) auto
  moreover have "sorted_wrt (\<lambda>x y. (kf(p := key)) x \<ge> (kf(p := key)) y) (put_by_key kf p key ps)"
    using Cons by simp
  moreover have "\<forall>y \<in> set (put_by_key kf p key ps). kf x \<ge> (kf(p := key)) y" if "kf x \<ge> key"
    using Cons.prems that by auto
  moreover have "put_by_key kf p key (x # ps) = (if kf x \<ge> key then x # put_by_key kf p key ps else p # x # ps)"
    by (simp add: put_by_key_def)
  ultimately show ?case using Cons.prems by (cases "kf x \<ge> key") auto
qed (simp add: put_by_key_def)

lemma key_scan_list:
  assumes "qlinks t (B @ [e])" "qkey (t e) = MINKEY" "key > MINKEY"
  shows "key_scan t key (hd (B @ [e])) = Some (hd (dropWhile (\<lambda>x. qkey (t x) \<ge> key) B @ [e]))"
  using assms(1)
proof (induction B)
  case Nil
  show ?case using assms(2,3) by (simp add: key_scan.simps)
next
  case (Cons b B)
  have "qlinks t (B @ [e])" "qnext (t b) = hd (B @ [e])" using Cons.prems by (cases B; simp)+
  then show ?case using Cons.IH by (simp add: key_scan.simps [of t key b])
qed

lemma insert_q_spec:
  assumes "queues_ok (queuetab k) Q S" "q \<in> S" "\<not> isbadpid k p" "p \<notin> queued Q S" "key > MINKEY"
  obtains t' where "insert_q p q key k = Inr (OK_st, k\<lparr>queuetab := t'\<rparr>)"
    "queues_ok t' (Q(q := put_by_key (\<lambda>x. qkey (queuetab k x)) p key (Q q))) S"
    "\<And>x. qkey (t' x) = (if x = p then key else qkey (queuetab k x))"
proof -
  let ?t = "queuetab k"
  let ?A = "takeWhile (\<lambda>x. qkey (?t x) \<ge> key) (Q q)"
  let ?B = "dropWhile (\<lambda>x. qkey (?t x) \<ge> key) (Q q)"
  let ?a = "last (q # ?A)"
  let ?b = "hd (?B @ [q + 1])"
  let ?t' = "qset_prev ?b p (qset_next ?a p (qset_key p key (qset_prev p ?a (qset_next p ?b ?t))))"
  note d = queues_okD [OF assms(1,2)]
  have split: "Q q = ?A @ ?B" by simp
  have p: "p \<in> {0..<NPROC}" using assms(3) by (auto simp: isbadpid_def)
  have at: "queue_at ?t q (?A @ ?B)" using d(1) by simp
  have nodes: "p \<noteq> ?b" "p \<noteq> ?a" "?a \<noteq> ?b"
    using unqueued_node [OF assms(1,2) p assms(4)] split_ends [OF at] by auto
  have "qlinks ?t (Q q @ [q + 1])"
    using d(1) by (cases "Q q") (auto simp: queue_at_def qnodes_def)
  from key_scan_list [OF this d(4) assms(5)] have "key_scan ?t key (firstid ?t q) = Some ?b"
    using firstid_queue(1) [OF assms(1,2)] by simp
  moreover have "qprev (?t ?b) = ?a" using queue_at_split(2) [OF at] .
  ultimately have "insert_q p q key k = Inr (OK_st, k\<lparr>queuetab := ?t'\<rparr>)"
    using assms(3) d(5) nodes by (simp add: insert_q_def Let_def)
  moreover have "queues_ok ?t' (Q(q := put_by_key (\<lambda>x. qkey (?t x)) p key (Q q))) S"
    unfolding put_by_key_def
    by (rule queues_link_in [OF assms(1,2) split p assms(4), of ?a ?b]) (use nodes p in auto)
  moreover have "qkey (?t' x) = (if x = p then key else qkey (?t x))" for x by simp
  ultimately show thesis using that by blast
qed

section \<open>Delta lists\<close>

text \<open>A node of a delta list holds its delay after the node before it; \<open>dues\<close> gives the total delays.\<close>

fun dues :: "(int \<Rightarrow> int) \<Rightarrow> int \<Rightarrow> int list \<Rightarrow> (int \<times> int) list" where
  "dues kf d [] = []"
| "dues kf d (p # ps) = (p, d + kf p) # dues kf (d + kf p) ps"

text \<open>The timer list after a new timer: behind those that expire no later.\<close>

definition add_timer :: "int \<Rightarrow> int \<Rightarrow> (int \<times> int) list \<Rightarrow> (int \<times> int) list" where
  "add_timer p key ts = takeWhile (\<lambda>(_, d). d \<le> key) ts @ (p, key) # dropWhile (\<lambda>(_, d). d \<le> key) ts"

fun delta_pos :: "(int \<Rightarrow> int) \<Rightarrow> int \<Rightarrow> int list \<Rightarrow> int list \<times> int \<times> int list" where
  "delta_pos kf key [] = ([], key, [])"
| "delta_pos kf key (x # xs) =
     (if kf x \<le> key then (case delta_pos kf (key - kf x) xs of (A, key', B) \<Rightarrow> (x # A, key', B)) else ([], key, x # xs))"

lemma dues_cong: "(\<And>x. x \<in> set ps \<Longrightarrow> kf x = kf' x) \<Longrightarrow> dues kf d ps = dues kf' d ps"
  by (induction ps arbitrary: d) auto

lemma delta_pos_spec:
  assumes "delta_pos kf key xs = (A, key', B)" "0 \<le> key"
  shows "xs = A @ B \<and> 0 \<le> key' \<and> key' = key - sum_list (map kf A) \<and> (B \<noteq> [] \<longrightarrow> key' < kf (hd B)) \<and>
    (\<forall>d. takeWhile (\<lambda>(_, e). e \<le> d + key) (dues kf d xs) = dues kf d A \<and>
         dropWhile (\<lambda>(_, e). e \<le> d + key) (dues kf d xs) = dues kf (d + key - key') B)"
  using assms
proof (induction kf key xs arbitrary: A key' B rule: delta_pos.induct)
  case (2 kf key x xs)
  show ?case
  proof (cases "kf x \<le> key")
    case True
    obtain A' where A: "delta_pos kf (key - kf x) xs = (A', key', B)" "A = x # A'"
      using 2(2) True by (auto split: prod.splits)
    have "0 \<le> key - kf x" using True by simp
    note IH = 2(1) [OF True A(1) this]
    have e: "d + kf x + (key - kf x) = d + key" for d :: int by simp
    have "\<forall>d. takeWhile (\<lambda>(_, e). e \<le> d + (key - kf x)) (dues kf d xs) = dues kf d A' \<and>
         dropWhile (\<lambda>(_, e). e \<le> d + (key - kf x)) (dues kf d xs) = dues kf (d + (key - kf x) - key') B"
      using IH by (elim conjE)
    from this [rule_format, of "d + kf x" for d, unfolded e]
    have "takeWhile (\<lambda>(_, e). e \<le> d + key) (dues kf (d + kf x) xs) = dues kf (d + kf x) A' \<and>
         dropWhile (\<lambda>(_, e). e \<le> d + key) (dues kf (d + kf x) xs) = dues kf (d + key - key') B" for d .
    moreover have "key' = key - kf x - sum_list (map kf A')" "B \<noteq> [] \<longrightarrow> key' < kf (hd B)" "xs = A' @ B" "0 \<le> key'"
      using IH by blast+
    ultimately show ?thesis using True A(2) by auto
  next
    case False
    then show ?thesis using 2(2,3) by auto
  qed
qed simp

lemma delta_scan_list:
  assumes "qlinks t (a # B @ [e])" "e \<notin> set B" "\<forall>x \<in> set B. 0 \<le> qkey (t x)" "0 \<le> key" "key < 2147483648"
    and "delta_pos (\<lambda>x. qkey (t x)) key B = (A', key', B')"
  shows "delta_scan t e key a (hd (B @ [e])) = Some (key', last (a # A'), hd (B' @ [e]))"
  using assms
proof (induction B arbitrary: a key A')
  case Nil
  then show ?case by (subst delta_scan.simps) simp
next
  case (Cons b B)
  have l: "qlinks t (b # B @ [e])" "qnext (t b) = hd (B @ [e])" using Cons.prems(1) by (cases B; simp)+
  show ?case
  proof (cases "qkey (t b) \<le> key")
    case True
    then obtain A'' where A: "delta_pos (\<lambda>x. qkey (t x)) (key - qkey (t b)) B = (A'', key', B')" "A' = b # A''"
      using Cons.prems(6) by (auto split: prod.splits)
    have r: "i32 (key - qkey (t b)) = key - qkey (t b)" using Cons.prems(3-5) True by simp
    have "delta_scan t e (key - qkey (t b)) b (hd (B @ [e])) = Some (key', last (b # A''), hd (B' @ [e]))"
      using Cons.prems True by (intro Cons.IH [OF l(1) _ _ _ _ A(1)]) auto
    then show ?thesis using True Cons.prems(2) l(2) A(2) r by (simp add: delta_scan.simps [of t e key a b])
  next
    case False
    then show ?thesis using Cons.prems(6) by (subst delta_scan.simps) auto
  qed
qed

text \<open>The delays of a delta list, once the new process is in front of \<open>B\<close>.\<close>

lemma dues_append: "dues kf d (xs @ ys) = dues kf d xs @ dues kf (d + sum_list (map kf xs)) ys"
  by (induction xs arbitrary: d) (auto simp: add.assoc)

lemma dues_put:
  assumes "p \<notin> set (A @ B)" "distinct (A @ B)" "key' = key - sum_list (map kf A)"
    and kf': "\<And>x. kf' x = (if x = p then key' else if B \<noteq> [] \<and> x = hd B then kf x - key' else kf x)"
  shows "dues kf' d (A @ p # B) = dues kf d A @ (p, d + key) # dues kf (d + key - key') B"
proof -
  have same: "kf' x = kf x" if "x \<in> set A" for x
    using assms(1,2) that unfolding kf' by (cases B) auto
  then have A: "dues kf' d A = dues kf d A" "map kf' A = map kf A" by (auto intro: dues_cong)
  have B: "dues kf' (d + key) B = dues kf (d + key - key') B"
  proof (cases B)
    case (Cons b B')
    have "dues kf' e B' = dues kf e B'" for e using assms(1,2) Cons by (intro dues_cong) (auto simp: kf')
    then show ?thesis using assms(1) Cons by (auto simp: kf' algebra_simps)
  qed simp
  show ?thesis using B unfolding dues_append A by (simp add: kf' assms(3))
qed

lemma insertd_spec:
  assumes "queues_ok (queuetab k) Q S" "q \<in> S" "\<not> isbadpid k p" "p \<notin> queued Q S" "0 \<le> key" "key < 2147483648"
    and "\<forall>x \<in> set (Q q). 0 \<le> qkey (queuetab k x) \<and> qkey (queuetab k x) < 2147483648"
  obtains t' A B where "insertd p q key k = Inr (OK_st, k\<lparr>queuetab := t'\<rparr>)" "Q q = A @ B"
    "queues_ok t' (Q(q := A @ p # B)) S"
    "dues (\<lambda>x. qkey (t' x)) 0 (A @ p # B) = add_timer p key (dues (\<lambda>x. qkey (queuetab k x)) 0 (Q q))"
    "\<forall>x \<in> set (A @ p # B). 0 \<le> qkey (t' x) \<and> qkey (t' x) < 2147483648"
    "\<And>x. x \<notin> insert p (set (Q q)) \<Longrightarrow> qkey (t' x) = qkey (queuetab k x)"
proof -
  let ?t = "queuetab k"
  let ?kf = "\<lambda>x. qkey (?t x)"
  obtain A key' B where pos: "delta_pos ?kf key (Q q) = (A, key', B)" by (metis surj_pair)
  note dp = delta_pos_spec [OF pos assms(5)]
  have split: "Q q = A @ B" using dp by blast
  note d = queues_okD [OF assms(1,2)]
  let ?a = "last (q # A)"
  let ?b = "hd (B @ [q + 1])"
  have p: "p \<in> {0..<NPROC}" using assms(3) by (auto simp: isbadpid_def)
  have at: "queue_at ?t q (A @ B)" using d(1) split by simp
  have nodes: "p \<noteq> ?b" "p \<noteq> ?a" "?a \<noteq> ?b"
    using unqueued_node [OF assms(1,2) p assms(4)] split_ends [OF at] split by auto
  have fresh: "p \<notin> set (A @ B)" "q + 1 \<notin> set (Q q)"
    using assms(4) d(2,6,8) split by auto
  let ?s = "qset_prev ?b p (qset_next ?a p (qset_key p key' (qset_prev p ?a (qset_next p ?b ?t))))"
  let ?t' = "if ?b \<noteq> q + 1 then qset_key ?b (i32 (qkey (?s ?b) - key')) ?s else ?s"
  have hdB: "B \<noteq> [] \<longleftrightarrow> ?b \<noteq> q + 1" using fresh(2) split by (cases B) auto
  have hdP: "?b < NPROC" if "B \<noteq> []"
  proof -
    have "hd B \<in> set (Q q)" using that split by simp
    then show ?thesis using d(6) that by auto
  qed
  have k': "0 \<le> key'" "B \<noteq> [] \<Longrightarrow> key' < ?kf (hd B)" "key' = key - sum_list (map ?kf A)" using dp by blast+
  have "delta_scan ?t (q + 1) key q (hd (Q q @ [q + 1])) = Some (key', ?a, ?b)"
    using assms(5-7) fresh(2) d(1)
    by (intro delta_scan_list [OF _ _ _ _ _ pos]) (auto simp: queue_at_def qnodes_def)
  then have "insertd p q key k = Inr (OK_st, k\<lparr>queuetab := ?t'\<rparr>)"
    using assms(3) d(5) firstid_queue(1) [OF assms(1,2)] by (simp add: insertd_def Let_def firstid_def)
  moreover have keys: "qkey (?t' x) = (if x = p then key' else if B \<noteq> [] \<and> x = hd B then ?kf x - key' else ?kf x)" for x
  proof -
    have "i32 (?kf (hd B) - key') = ?kf (hd B) - key'" if "B \<noteq> []"
    proof (rule i32_in_range)
      have "hd B \<in> set (Q q)" using that split by simp
      then have "?kf (hd B) < 2147483648" using assms(7) by blast
      then show "?kf (hd B) - key' < 2147483648" "-2147483648 \<le> ?kf (hd B) - key'" using k'(1) k'(2) [OF that] by simp_all
    qed
    then show ?thesis using nodes hdB by (cases B) auto
  qed
  moreover have "queues_ok ?t' (Q(q := A @ p # B)) S"
    by (rule queues_link_in [OF assms(1,2) split p assms(4), of ?a ?b])
      (use nodes p hdP hdB d(2) in auto)
  moreover have "dues (\<lambda>x. qkey (?t' x)) 0 (A @ p # B) = add_timer p key (dues ?kf 0 (Q q))"
  proof -
    have "takeWhile (\<lambda>(_, e). e \<le> 0 + key) (dues ?kf 0 (Q q)) = dues ?kf 0 A \<and>
      dropWhile (\<lambda>(_, e). e \<le> 0 + key) (dues ?kf 0 (Q q)) = dues ?kf (0 + key - key') B"
      using dp by blast
    then show ?thesis
      using dues_put [OF fresh(1) _ k'(3) keys, of 0] d(7) split by (simp add: add_timer_def)
  qed
  moreover have "\<forall>x \<in> set (A @ p # B). 0 \<le> qkey (?t' x) \<and> qkey (?t' x) < 2147483648"
  proof -
    have "0 \<le> sum_list (map ?kf A)" using assms(7) split by (intro sum_list_nonneg) auto
    then have "key' < 2147483648" using k'(3) assms(6) by simp
    then show ?thesis
    proof (intro ballI)
      fix x assume "key' < 2147483648" "x \<in> set (A @ p # B)"
      moreover have "0 \<le> ?kf x \<and> ?kf x < 2147483648" if "x \<noteq> p" using assms(7) calculation(2) that split by auto
      ultimately show "0 \<le> qkey (?t' x) \<and> qkey (?t' x) < 2147483648"
        unfolding keys using k'(1,2) by (cases "x = p"; cases "B \<noteq> [] \<and> x = hd B") auto
    qed
  qed
  moreover have "qkey (?t' x) = ?kf x" if "x \<notin> insert p (set (Q q))" for x
    using that split unfolding keys by (cases B) auto
  ultimately show thesis using that [of ?t' A B] split by blast
qed

section \<open>Reading the queues off the table\<close>

text \<open>The list of a queue, followed from the head node for at most \<open>NPROC\<close> steps.\<close>

fun qwalk :: "nat \<Rightarrow> (int \<Rightarrow> qentry) \<Rightarrow> int \<Rightarrow> int \<Rightarrow> int list" where
  "qwalk 0 t x e = []"
| "qwalk (Suc n) t x e = (if x = e then [] else x # qwalk n t (qnext (t x)) e)"

definition qitems :: "(int \<Rightarrow> qentry) \<Rightarrow> int \<Rightarrow> int list" where
  "qitems t q = qwalk (nat NPROC) t (firstid t q) (q + 1)"

definition qtable_ok :: "(int \<Rightarrow> qentry) \<Rightarrow> int set \<Rightarrow> bool" where
  "qtable_ok t S \<longleftrightarrow> queues_ok t (qitems t) S"

lemma qwalk_list:
  "qlinks t (ps @ [e]) \<Longrightarrow> e \<notin> set ps \<Longrightarrow> length ps \<le> n \<Longrightarrow> qwalk n t (hd (ps @ [e])) e = ps"
proof (induction ps arbitrary: n)
  case Nil
  then show ?case by (cases n) simp_all
next
  case (Cons p ps)
  then obtain m where m: "n = Suc m" by (cases n) auto
  have "qlinks t (ps @ [e])" "qnext (t p) = hd (ps @ [e])" using Cons.prems(1) by (cases ps; simp)+
  then show ?case using Cons m by auto
qed

lemma qitems_queue_at:
  assumes "queue_at t q ps"
  shows "qitems t q = ps"
proof -
  have l: "qlinks t (ps @ [q + 1])" "q + 1 \<notin> set ps" using assms by (cases ps; auto simp: queue_at_def qnodes_def)+
  have "length ps = card (set ps)" using assms by (simp add: queue_at_def distinct_card)
  also have "\<dots> \<le> card {0..<NPROC}" using assms by (intro card_mono) (auto simp: queue_at_def)
  finally have "length ps \<le> nat NPROC" by simp
  moreover have "firstid t q = hd (ps @ [q + 1])" using queue_at_split(1) [of t q "[]" ps] assms by (simp add: firstid_def)
  ultimately show ?thesis using qwalk_list [OF l] by (simp add: qitems_def)
qed

lemma qitems_eq: "queues_ok t Q S \<Longrightarrow> q \<in> S \<Longrightarrow> qitems t q = Q q"
  by (rule qitems_queue_at [OF queues_okD(1)])

lemma queues_ok_cong: "(\<And>q. q \<in> S \<Longrightarrow> Q q = Q' q) \<Longrightarrow> queues_ok t Q S = queues_ok t Q' S"
  by (auto simp: queues_ok_def)

lemma qtable_okI: "queues_ok t Q S \<Longrightarrow> qtable_ok t S"
  unfolding qtable_ok_def by (subst queues_ok_cong [of S _ Q]) (auto simp: qitems_eq)

text \<open>A queue of different elements: what its client relies on.\<close>

locale unique_fifo =
  fixes ok :: "'q \<Rightarrow> bool" and items :: "'q \<Rightarrow> 'a list" and can_put :: "'q \<Rightarrow> 'a \<Rightarrow> bool"
    and put :: "'a \<Rightarrow> 'q \<Rightarrow> 'q" and get :: "'q \<Rightarrow> 'a \<times> 'q"
  assumes put_ok: "ok q \<Longrightarrow> can_put q x \<Longrightarrow> ok (put x q)"
    and items_put: "ok q \<Longrightarrow> can_put q x \<Longrightarrow> items (put x q) = items q @ [x]"
    and can_put_put: "ok q \<Longrightarrow> can_put q x \<Longrightarrow> can_put q y \<Longrightarrow> y \<noteq> x \<Longrightarrow> can_put (put x q) y"
    and get_ok: "ok q \<Longrightarrow> items q \<noteq> [] \<Longrightarrow> ok (snd (get q))"
    and items_get: "ok q \<Longrightarrow> items q \<noteq> [] \<Longrightarrow> items q = fst (get q) # items (snd (get q))"
begin

primrec take_out :: "nat \<Rightarrow> 'q \<Rightarrow> 'a list \<times> 'q" where
  "take_out 0 q = ([], q)"
| "take_out (Suc n) q = (let (x, q) = get q; (xs, q) = take_out n q in (x # xs, q))"

lemma items_fold_put:
  "ok q \<Longrightarrow> distinct xs \<Longrightarrow> (\<And>x. x \<in> set xs \<Longrightarrow> can_put q x) \<Longrightarrow>
    ok (fold put xs q) \<and> items (fold put xs q) = items q @ xs"
proof (induction xs arbitrary: q)
  case (Cons x xs)
  have "ok (put x q)" "items (put x q) = items q @ [x]" using Cons.prems put_ok items_put by simp_all
  moreover have "can_put (put x q) y" if "y \<in> set xs" for y
    using Cons.prems that by (intro can_put_put) auto
  ultimately show ?case using Cons.IH [of "put x q"] Cons.prems(2) by simp
qed simp

lemma items_take_out:
  "ok q \<Longrightarrow> n \<le> length (items q) \<Longrightarrow> fst (take_out n q) = take n (items q)"
proof (induction n arbitrary: q)
  case (Suc n)
  then have ne: "items q \<noteq> []" by auto
  then show ?case
    using Suc.IH [of "snd (get q)"] get_ok [OF Suc.prems(1) ne] items_get [OF Suc.prems(1) ne] Suc.prems(2)
    by (simp add: case_prod_beta)
qed simp

lemma put_take_out:
  assumes "ok q" "distinct xs" "\<And>x. x \<in> set xs \<Longrightarrow> can_put q x"
  shows "fst (take_out (length (items q) + length xs) (fold put xs q)) = items q @ xs"
  using items_take_out [of "fold put xs q"] items_fold_put [OF assms] by simp

end

definition may_enqueue :: "kern \<Rightarrow> int set \<Rightarrow> int \<Rightarrow> bool" where
  "may_enqueue k S p \<longleftrightarrow> \<not> isbadpid k p \<and> p \<notin> queued (qitems (queuetab k)) S"

lemma enqueue_table:
  assumes "qtable_ok (queuetab k) S" "q \<in> S" "may_enqueue k S p"
  shows "qtable_ok (queuetab (snd (enqueue p q k))) S" "fst (enqueue p q k) = p" "proctab (snd (enqueue p q k)) = proctab k"
    "r \<in> S \<Longrightarrow> qitems (queuetab (snd (enqueue p q k))) r = ((qitems (queuetab k))(q := qitems (queuetab k) q @ [p])) r"
proof -
  obtain t' where t': "enqueue p q k = (p, k\<lparr>queuetab := t'\<rparr>)"
      "queues_ok t' ((qitems (queuetab k))(q := qitems (queuetab k) q @ [p])) S"
    using enqueue_spec [of k "qitems (queuetab k)" S q p] assms by (auto simp: qtable_ok_def may_enqueue_def)
  show "qtable_ok (queuetab (snd (enqueue p q k))) S" using qtable_okI [OF t'(2)] t'(1) by simp
  show "fst (enqueue p q k) = p" "proctab (snd (enqueue p q k)) = proctab k" using t'(1) by simp_all
  show "r \<in> S \<Longrightarrow> qitems (queuetab (snd (enqueue p q k))) r = ((qitems (queuetab k))(q := qitems (queuetab k) q @ [p])) r"
    using qitems_eq [OF t'(2)] t'(1) by simp
qed

lemma dequeue_table:
  assumes "qtable_ok (queuetab k) S" "q \<in> S" "qitems (queuetab k) q = p # ps"
  shows "qtable_ok (queuetab (snd (dequeue q k))) S" "fst (dequeue q k) = p" "proctab (snd (dequeue q k)) = proctab k"
    "r \<in> S \<Longrightarrow> qitems (queuetab (snd (dequeue q k))) r = ((qitems (queuetab k))(q := ps)) r"
proof -
  obtain t' where t': "dequeue q k = (p, k\<lparr>queuetab := t'\<rparr>)" "queues_ok t' ((qitems (queuetab k))(q := ps)) S"
    using dequeue_spec [of k "qitems (queuetab k)" S q p ps] assms by (auto simp: qtable_ok_def)
  show "qtable_ok (queuetab (snd (dequeue q k))) S" using qtable_okI [OF t'(2)] t'(1) by simp
  show "fst (dequeue q k) = p" "proctab (snd (dequeue q k)) = proctab k" using t'(1) by simp_all
  show "r \<in> S \<Longrightarrow> qitems (queuetab (snd (dequeue q k))) r = ((qitems (queuetab k))(q := ps)) r"
    using qitems_eq [OF t'(2)] t'(1) by simp
qed

lemma queued_table: "q \<in> S \<Longrightarrow> (\<And>r. r \<in> S \<Longrightarrow> Q' r = (Q(q := ps)) r) \<Longrightarrow>
    x \<in> queued Q' S \<longleftrightarrow> x \<in> set ps \<or> (\<exists>r \<in> S. r \<noteq> q \<and> x \<in> set (Q r))"
  by (auto simp: queued_def split: if_splits)

interpretation pq: unique_fifo "\<lambda>k. qtable_ok (queuetab k) S \<and> q \<in> S" "\<lambda>k. qitems (queuetab k) q"
    "\<lambda>k. may_enqueue k S" "\<lambda>p k. snd (enqueue p q k)" "dequeue q" for S q
proof
  fix k :: kern and x y :: int
  assume k: "qtable_ok (queuetab k) S \<and> q \<in> S"
  note kq = conjunct1 [OF k] conjunct2 [OF k]
  {
    assume x: "may_enqueue k S x"
    note e = enqueue_table [OF kq x]
    show "qtable_ok (queuetab (snd (enqueue x q k))) S \<and> q \<in> S" using e(1) k by simp
    show "qitems (queuetab (snd (enqueue x q k))) q = qitems (queuetab k) q @ [x]" using e(4) k by simp
    assume y: "may_enqueue k S y" "y \<noteq> x"
    have "y \<in> queued (qitems (queuetab (snd (enqueue x q k)))) S \<longleftrightarrow>
        y \<in> set (qitems (queuetab k) q @ [x]) \<or> (\<exists>r \<in> S. r \<noteq> q \<and> y \<in> set (qitems (queuetab k) r))"
      by (rule queued_table [OF kq(2) e(4)])
    then show "may_enqueue (snd (enqueue x q k)) S y"
      using y kq(2) e(3) by (auto simp: may_enqueue_def isbadpid_def queued_def)
  next
    assume "qitems (queuetab k) q \<noteq> []"
    then obtain p ps where p: "qitems (queuetab k) q = p # ps" by (cases "qitems (queuetab k) q") auto
    note e = dequeue_table [OF kq p]
    show "qtable_ok (queuetab (snd (dequeue q k))) S \<and> q \<in> S" using e(1) k by simp
    show "qitems (queuetab k) q = fst (dequeue q k) # qitems (queuetab (snd (dequeue q k))) q" using e(2,4) p k by simp
  }
qed

primrec dequeues :: "nat \<Rightarrow> int \<Rightarrow> kern \<Rightarrow> int list \<times> kern" where
  "dequeues 0 q k = ([], k)"
| "dequeues (Suc n) q k = (let (p, k) = dequeue q k; (ps, k) = dequeues n q k in (p # ps, k))"

lemma take_out_dequeues: "unique_fifo.take_out (dequeue q) n k = dequeues n q k"
  by (induction n arbitrary: k) (simp_all add: unique_fifo.take_out.simps [OF pq.unique_fifo_axioms])

lemma insert_q_table:
  assumes "qtable_ok (queuetab k) S" "q \<in> S" "may_enqueue k S p" "key > MINKEY"
  obtains t' where "insert_q p q key k = Inr (OK_st, k\<lparr>queuetab := t'\<rparr>)" "qtable_ok t' S"
    "\<And>r. r \<in> S \<Longrightarrow> qitems t' r = ((qitems (queuetab k))
       (q := put_by_key (\<lambda>x. qkey (queuetab k x)) p key (qitems (queuetab k) q))) r"
    "\<And>x. qkey (t' x) = (if x = p then key else qkey (queuetab k x))"
proof -
  obtain t' where t': "insert_q p q key k = Inr (OK_st, k\<lparr>queuetab := t'\<rparr>)"
    "queues_ok t' ((qitems (queuetab k))(q := put_by_key (\<lambda>x. qkey (queuetab k x)) p key (qitems (queuetab k) q))) S"
    "\<And>x. qkey (t' x) = (if x = p then key else qkey (queuetab k x))"
    using insert_q_spec [of k "qitems (queuetab k)" S q p key] assms by (auto simp: qtable_ok_def may_enqueue_def)
  show thesis by (rule that [OF t'(1) qtable_okI [OF t'(2)] qitems_eq [OF t'(2)] t'(3)])
qed

lemma insertd_table:
  assumes "qtable_ok (queuetab k) S" "q \<in> S" "may_enqueue k S p" "0 \<le> key" "key < 2147483648"
    and "\<forall>x \<in> set (qitems (queuetab k) q). 0 \<le> qkey (queuetab k x) \<and> qkey (queuetab k x) < 2147483648"
  obtains t' A B where "insertd p q key k = Inr (OK_st, k\<lparr>queuetab := t'\<rparr>)" "qtable_ok t' S" "qitems (queuetab k) q = A @ B"
    "\<And>r. r \<in> S \<Longrightarrow> qitems t' r = ((qitems (queuetab k))(q := A @ p # B)) r"
    "dues (\<lambda>x. qkey (t' x)) 0 (qitems t' q) = add_timer p key (dues (\<lambda>x. qkey (queuetab k x)) 0 (qitems (queuetab k) q))"
    "\<forall>x \<in> set (qitems t' q). 0 \<le> qkey (t' x) \<and> qkey (t' x) < 2147483648"
    "\<And>x. x \<notin> insert p (set (qitems (queuetab k) q)) \<Longrightarrow> qkey (t' x) = qkey (queuetab k x)"
proof -
  have a: "queues_ok (queuetab k) (qitems (queuetab k)) S" "\<not> isbadpid k p" "p \<notin> queued (qitems (queuetab k)) S"
    using assms(1,3) by (simp_all add: qtable_ok_def may_enqueue_def)
  obtain t' A B where t': "insertd p q key k = Inr (OK_st, k\<lparr>queuetab := t'\<rparr>)" "qitems (queuetab k) q = A @ B"
    "queues_ok t' ((qitems (queuetab k))(q := A @ p # B)) S"
    "dues (\<lambda>x. qkey (t' x)) 0 (A @ p # B) = add_timer p key (dues (\<lambda>x. qkey (queuetab k x)) 0 (qitems (queuetab k) q))"
    "\<forall>x \<in> set (A @ p # B). 0 \<le> qkey (t' x) \<and> qkey (t' x) < 2147483648"
    "\<And>x. x \<notin> insert p (set (qitems (queuetab k) q)) \<Longrightarrow> qkey (t' x) = qkey (queuetab k x)"
    using insertd_spec [OF a(1) assms(2) a(2,3) assms(4-6)] by blast
  have "qitems t' q = A @ p # B" using qitems_eq [OF t'(3) assms(2)] by simp
  then show thesis using that [OF t'(1) qtable_okI [OF t'(3)] t'(2) qitems_eq [OF t'(3)]] t'(4-6) by simp
qed

section \<open>What the queues guarantee\<close>

text \<open>C29: processes leave a queue in the order in which they were put in: after the processes of \<open>ps\<close>
  (valid, different, in no queue) have been enqueued one after the other, dequeuing returns the processes
  that were there before, then those of \<open>ps\<close>, although all the queues share one table.\<close>

theorem process_queue_fifo:
  assumes "qtable_ok (queuetab k) S" "q \<in> S" "distinct ps" "\<forall>p \<in> set ps. may_enqueue k S p"
  shows "fst (dequeues (length (qitems (queuetab k) q) + length ps) q (fold (\<lambda>p k. snd (enqueue p q k)) ps k)) =
    qitems (queuetab k) q @ ps"
  using pq.put_take_out [of k S q ps] assms by (simp add: take_out_dequeues)

text \<open>\<open>insert\<close> keeps a queue in descending order of its keys: the process goes behind all
  processes with at least its key (so equal priorities are served in turn) and in front of the others,
  and the search always ends, at the latest at the tail node, for every key above \<open>MINKEY\<close>.\<close>

theorem insert_keeps_priority_order:
  assumes "qtable_ok (queuetab k) S" "q \<in> S" "may_enqueue k S p" "key > MINKEY"
    and "sorted_wrt (\<lambda>x y. qkey (queuetab k x) \<ge> qkey (queuetab k y)) (qitems (queuetab k) q)"
  shows "\<exists>t'. insert_q p q key k = Inr (OK_st, k\<lparr>queuetab := t'\<rparr>) \<and> qtable_ok t' S \<and>
    qitems t' q = put_by_key (\<lambda>x. qkey (queuetab k x)) p key (qitems (queuetab k) q) \<and> qkey (t' p) = key \<and>
    sorted_wrt (\<lambda>x y. qkey (t' x) \<ge> qkey (t' y)) (qitems t' q)"
proof -
  obtain t' where t': "insert_q p q key k = Inr (OK_st, k\<lparr>queuetab := t'\<rparr>)" "qtable_ok t' S"
    "\<And>r. r \<in> S \<Longrightarrow> qitems t' r = ((qitems (queuetab k))
       (q := put_by_key (\<lambda>x. qkey (queuetab k x)) p key (qitems (queuetab k) q))) r"
    "\<And>x. qkey (t' x) = (if x = p then key else qkey (queuetab k x))"
    using insert_q_table [OF assms(1-4)] by blast
  have "p \<notin> set (qitems (queuetab k) q)" using assms(2,3) by (auto simp: may_enqueue_def queued_def)
  then have "sorted_wrt (\<lambda>x y. qkey (t' x) \<ge> qkey (t' y)) (qitems t' q)"
    using put_by_key_sorted [OF assms(5), of p key] t'(3) [OF assms(2)] by (simp add: t'(4))
  then show ?thesis
    using t'(1,2) t'(3) [OF assms(2)] t'(4) [of p] by (intro exI [of _ t']) simp
qed

text \<open>\<open>insertd\<close> adds a timer to a list of timers: with \<open>dues\<close> as the reading of the relative
  delays of the nodes, the new process is due after exactly its delay, behind the timers that are due no
  later, and every other process stays due when it was; the search ends and no delay becomes negative.\<close>

theorem insertd_adds_timer:
  assumes "qtable_ok (queuetab k) S" "q \<in> S" "may_enqueue k S p" "0 \<le> key" "key < 2147483648"
    and "\<forall>x \<in> set (qitems (queuetab k) q). 0 \<le> qkey (queuetab k x) \<and> qkey (queuetab k x) < 2147483648"
  shows "\<exists>t'. insertd p q key k = Inr (OK_st, k\<lparr>queuetab := t'\<rparr>) \<and> qtable_ok t' S \<and>
    dues (\<lambda>x. qkey (t' x)) 0 (qitems t' q) = add_timer p key (dues (\<lambda>x. qkey (queuetab k x)) 0 (qitems (queuetab k) q)) \<and>
    (\<forall>x \<in> set (qitems t' q). 0 \<le> qkey (t' x))"
  by (rule insertd_table [OF assms]) blast

section \<open>Concrete queues\<close>

text \<open>Two queues of a fresh table and processes 3 to 5.\<close>

definition proc0 :: procent where
  "proc0 = \<lparr>prstate = PR_SUSP, prprio = 20, prstkbase = 0, prstklen = 0, prname = [], prsem = -1, prparent = 0,
     prmsg = 0, prhasmsg = False, prdesc = [0, 0, 0, 0, 0]\<rparr>"

definition kern0 :: kern where
  "kern0 = snd (newqueue (snd (newqueue \<lparr>queuetab = (\<lambda>_. \<lparr>qkey = 0, qnext = 0, qprev = 0\<rparr>), proctab = (\<lambda>_. proc0),
     semtab = (\<lambda>_. \<lparr>sused = False, scount = 0, squeue = 0\<rparr>), nextqid = NPROC, nextpid = 1, nextsem = 0,
     readylist = 100, sleepq = 102, currpid = 0, prcount = 1, ndefers = 0, attempt = False, preempt = 2,
     count1000 = 1000, kclktime = 0\<rparr>)))"

lemma kern0_queues: "queues_ok (queuetab kern0) (\<lambda>_. []) {100, 102}"
proof -
  have "queue_at (queuetab kern0) 100 []" "queue_at (queuetab kern0) 102 []"
    by (simp_all add: kern0_def newqueue_def queue_at_def qnodes_def NPROC_def NQENT_def NSEM_def Let_def)
  then show ?thesis by (auto simp: queues_ok_def)
qed

lemma kern0_ok: "qtable_ok (queuetab kern0) {100, 102}" "qitems (queuetab kern0) 100 = []" "qitems (queuetab kern0) 102 = []"
  "0 \<le> p \<Longrightarrow> p < 100 \<Longrightarrow> may_enqueue kern0 {100, 102} p"
  using qtable_okI [OF kern0_queues] qitems_eq [OF kern0_queues]
  by (simp_all add: may_enqueue_def queued_def isbadpid_def kern0_def newqueue_def NPROC_def NQENT_def NSEM_def Let_def proc0_def)

theorem process_queue_fifo_witness:
  "fst (dequeues 3 100 (fold (\<lambda>p k. snd (enqueue p 100 k)) [5, 3, 4] kern0)) = [5, 3, 4]"
  using process_queue_fifo [of kern0 "{100, 102}" 100 "[5, 3, 4]"] kern0_ok
  by (simp add: eval_nat_numeral del: dequeues.simps)

theorem insert_keeps_priority_order_witness:
  "\<exists>t'. insert_q 3 100 20 kern0 = Inr (OK_st, kern0\<lparr>queuetab := t'\<rparr>) \<and> qtable_ok t' {100, 102} \<and> qitems t' 100 = [3]"
proof -
  have "put_by_key f 3 20 [] = [3]" for f by (simp add: put_by_key_def)
  then show ?thesis
    using insert_keeps_priority_order [of kern0 "{100, 102}" 100 3 20] kern0_ok by (auto simp: MINKEY_def)
qed

theorem insertd_adds_timer_witness:
  "\<exists>t'. insertd 3 102 50 kern0 = Inr (OK_st, kern0\<lparr>queuetab := t'\<rparr>) \<and>
    dues (\<lambda>x. qkey (t' x)) 0 (qitems t' 102) = [(3, 50)]"
proof -
  have "add_timer 3 50 (dues f 0 []) = [(3, 50)]" for f by (simp add: add_timer_def)
  then show ?thesis
    using insertd_adds_timer [of kern0 "{100, 102}" 102 3 50] kern0_ok by auto
qed

end
