(* ===== verification/Sched.thy ===== *)
theory Sched
  imports Proc_Queue
begin

text \<open>
  The scheduler (\<^verbatim>\<open>system/resched.c\<close>, \<^verbatim>\<open>ready.c\<close>, \<^verbatim>\<open>suspend.c\<close>, \<^verbatim>\<open>resume.c\<close>, \<^verbatim>\<open>chprio.c\<close>,
  \<^verbatim>\<open>yield.c\<close>, \<^verbatim>\<open>unsleep.c\<close>) and the invariant of the kernel: which queue a process is in is
  determined by its state. A context switch ends the model of the call: the resulting state is the
  one in which the process that was chosen runs. What a caller does after it has been resumed is
  modelled as a second part of the operation where there is any.
\<close>

definition QUANTUM :: u32 where "QUANTUM = 2"
definition NULLPROC :: int where "NULLPROC = 0"

definition upd_proc :: "int \<Rightarrow> (procent \<Rightarrow> procent) \<Rightarrow> kern \<Rightarrow> kern" where
  "upd_proc p f k = k\<lparr>proctab := (proctab k)(p := f (proctab k p))\<rparr>"

definition set_state :: "int \<Rightarrow> pstate \<Rightarrow> kern \<Rightarrow> kern" where
  "set_state p s = upd_proc p (\<lambda>e. e\<lparr>prstate := s\<rparr>)"

text \<open>The end of \<open>resched\<close>: the first ready process becomes the current one. An empty ready list
  would make the code write in front of the process table.\<close>

definition switch_to_first :: "kern \<Rightarrow> kern res" where
  "switch_to_first k =
     (case dequeue (readylist k) k of (pid, k) \<Rightarrow>
        if pid < 0 then Inl Out_of_bounds
        else Inr ((set_state pid PR_CURR (k\<lparr>currpid := pid\<rparr>))\<lparr>preempt := QUANTUM\<rparr>))"

definition resched :: "kern \<Rightarrow> kern res" where
  "resched k =
     (if ndefers k > 0 then Inr (k\<lparr>attempt := True\<rparr>)
      else
        let old = currpid k; ptold = proctab k old in
        if prstate ptold = PR_CURR then
          if prprio ptold > firstkey (queuetab k) (readylist k) then Inr k
          else
            bind_res (insert_q old (readylist k) (prprio ptold) (set_state old PR_READY k)) (\<lambda>(_, k).
              switch_to_first k)
        else switch_to_first k)"

definition DEFER_START :: int where "DEFER_START = 1"
definition DEFER_STOP :: int where "DEFER_STOP = 2"

definition resched_cntl :: "int \<Rightarrow> kern \<Rightarrow> (int \<times> kern) res" where
  "resched_cntl defer k =
     (if defer = DEFER_START then
        let k' = k\<lparr>ndefers := i32 (ndefers k + 1)\<rparr>
        in Inr (OK_st, if ndefers k = 0 then k'\<lparr>attempt := False\<rparr> else k')
      else if defer = DEFER_STOP then
        if ndefers k \<le> 0 then Inr (SYSERR_st, k)
        else
          let k' = k\<lparr>ndefers := ndefers k - 1\<rparr> in
          if ndefers k' = 0 \<and> attempt k' then bind_res (resched k') (\<lambda>k. Inr (OK_st, k))
          else Inr (OK_st, k')
      else Inr (SYSERR_st, k))"

definition ready :: "int \<Rightarrow> kern \<Rightarrow> (int \<times> kern) res" where
  "ready pid k =
     (if isbadpid k pid then Inr (SYSERR_st, k)
      else
        let k = set_state pid PR_READY k in
        bind_res (insert_q pid (readylist k) (prprio (proctab k pid)) k) (\<lambda>(_, k).
        bind_res (resched k) (\<lambda>k. Inr (OK_st, k))))"

text \<open>\<open>suspend\<close> up to the rescheduling; the priority it returns is read afterwards, when the process
  that called it runs again (\<open>suspend_return\<close>).\<close>

definition suspend :: "int \<Rightarrow> kern \<Rightarrow> (int option \<times> kern) res" where
  "suspend pid k =
     (if isbadpid k pid \<or> pid = NULLPROC then Inr (Some SYSERR_st, k)
      else
        let st = prstate (proctab k pid) in
        if st \<noteq> PR_CURR \<and> st \<noteq> PR_READY then Inr (Some SYSERR_st, k)
        else if st = PR_READY then Inr (None, set_state pid PR_SUSP (snd (getitem pid k)))
        else bind_res (resched (set_state pid PR_SUSP k)) (\<lambda>k. Inr (None, k)))"

definition suspend_return :: "int \<Rightarrow> kern \<Rightarrow> int" where
  "suspend_return pid k = prprio (proctab k pid)"

definition resume :: "int \<Rightarrow> kern \<Rightarrow> (int \<times> kern) res" where
  "resume pid k =
     (if isbadpid k pid then Inr (SYSERR_st, k)
      else if prstate (proctab k pid) \<noteq> PR_SUSP then Inr (SYSERR_st, k)
      else
        let prio = prprio (proctab k pid) in
        bind_res (ready pid k) (\<lambda>(_, k). Inr (prio, k)))"

definition chprio :: "int \<Rightarrow> int \<Rightarrow> kern \<Rightarrow> int \<times> kern" where
  "chprio pid newprio k =
     (if isbadpid k pid then (SYSERR_st, k)
      else (prprio (proctab k pid), upd_proc pid (\<lambda>e. e\<lparr>prprio := newprio\<rparr>) k))"

definition yield :: "kern \<Rightarrow> (int \<times> kern) res" where
  "yield k = bind_res (resched k) (\<lambda>k. Inr (OK_st, k))"

definition unsleep :: "int \<Rightarrow> kern \<Rightarrow> int \<times> kern" where
  "unsleep pid k =
     (if isbadpid k pid then (SYSERR_st, k)
      else
        let st = prstate (proctab k pid) in
        if st \<noteq> PR_SLEEP \<and> st \<noteq> PR_RECTIM then (SYSERR_st, k)
        else
          let t = queuetab k; pidnext = qnext (t pid);
              t = (if pidnext < NPROC then qset_key pidnext (i32 (qkey (t pidnext) + qkey (t pid))) t else t)
          in (OK_st, snd (getitem pid (k\<lparr>queuetab := t\<rparr>))))"

section \<open>The invariant\<close>

definition sem_queue :: "kern \<Rightarrow> int \<Rightarrow> int" where
  "sem_queue k s = squeue (semtab k s)"

definition kqueues :: "kern \<Rightarrow> int set" where
  "kqueues k = insert (readylist k) (insert (sleepq k) (sem_queue k ` {0..<NSEM}))"

text \<open>The queue a process in the given state belongs to.\<close>

definition home :: "kern \<Rightarrow> int \<Rightarrow> int option" where
  "home k p = (case prstate (proctab k p) of
      PR_READY \<Rightarrow> Some (readylist k) | PR_SLEEP \<Rightarrow> Some (sleepq k) | PR_RECTIM \<Rightarrow> Some (sleepq k)
    | PR_WAIT \<Rightarrow> Some (sem_queue k (prsem (proctab k p))) | _ \<Rightarrow> None)"

definition queue_ids_ok :: "kern \<Rightarrow> bool" where
  "queue_ids_ok k \<longleftrightarrow> readylist k \<noteq> sleepq k \<and> inj_on (sem_queue k) {0..<NSEM} \<and>
     readylist k \<notin> sem_queue k ` {0..<NSEM} \<and> sleepq k \<notin> sem_queue k ` {0..<NSEM}"

definition ready_sorted :: "(int \<Rightarrow> qentry) \<Rightarrow> int \<Rightarrow> bool" where
  "ready_sorted t q \<longleftrightarrow> sorted_wrt (\<lambda>x y. qkey (t x) \<ge> qkey (t y)) (qitems t q)"

text \<open>The delays of the sleeping processes: not negative, and the last one is due in time.\<close>

definition delays_ok :: "(int \<Rightarrow> qentry) \<Rightarrow> int list \<Rightarrow> bool" where
  "delays_ok t ps \<longleftrightarrow> (\<forall>x \<in> set ps. 0 \<le> qkey (t x)) \<and> sum_list (map (\<lambda>x. qkey (t x)) ps) < 2147483648"

text \<open>The processes of \<open>X\<close> are in no queue, whatever their state: they are being moved.\<close>

definition kinv :: "int set \<Rightarrow> kern \<Rightarrow> bool" where
  "kinv X k \<longleftrightarrow> qtable_ok (queuetab k) (kqueues k) \<and> queue_ids_ok k \<and>
     (\<forall>p \<in> {0..<NPROC}. \<forall>q \<in> kqueues k. p \<in> set (qitems (queuetab k) q) \<longleftrightarrow> home k p = Some q \<and> p \<notin> X) \<and>
     (\<forall>p \<in> {0..<NPROC}. prstate (proctab k p) = PR_WAIT \<longrightarrow> prsem (proctab k p) \<in> {0..<NSEM}) \<and>
     (\<forall>p \<in> {0..<NPROC}. prstate (proctab k p) = PR_CURR \<longrightarrow> p = currpid k) \<and>
     (\<forall>p \<in> {0..<NPROC}. -32768 \<le> prprio (proctab k p) \<and> prprio (proctab k p) < 32768) \<and>
     ready_sorted (queuetab k) (readylist k) \<and>
     currpid k \<in> {0..<NPROC} \<and> prstate (proctab k NULLPROC) \<in> {PR_CURR, PR_READY}"

lemma kinvD:
  assumes "kinv X k"
  shows "qtable_ok (queuetab k) (kqueues k)" "queue_ids_ok k"
    "p \<in> {0..<NPROC} \<Longrightarrow> q \<in> kqueues k \<Longrightarrow> p \<in> set (qitems (queuetab k) q) \<longleftrightarrow> home k p = Some q \<and> p \<notin> X"
    "p \<in> {0..<NPROC} \<Longrightarrow> prstate (proctab k p) = PR_WAIT \<Longrightarrow> prsem (proctab k p) \<in> {0..<NSEM}"
    "p \<in> {0..<NPROC} \<Longrightarrow> prstate (proctab k p) = PR_CURR \<Longrightarrow> p = currpid k"
    "p \<in> {0..<NPROC} \<Longrightarrow> -32768 \<le> prprio (proctab k p) \<and> prprio (proctab k p) < 32768"
    "ready_sorted (queuetab k) (readylist k)"
    "currpid k \<in> {0..<NPROC}" "prstate (proctab k NULLPROC) \<in> {PR_CURR, PR_READY}"
  using assms unfolding kinv_def by blast+

lemma kqueues_mem [simp]: "readylist k \<in> kqueues k" "sleepq k \<in> kqueues k" "s \<in> {0..<NSEM} \<Longrightarrow> sem_queue k s \<in> kqueues k"
  by (simp_all add: kqueues_def)

lemma queue_members:
  assumes "qtable_ok t S" "q \<in> S" "p \<in> set (qitems t q)"
  shows "p \<in> {0..<NPROC}"
  using queues_okD(6) [of t "qitems t" S q] assms by (auto simp: qtable_ok_def)

lemma kinv_members: "kinv X k \<Longrightarrow> q \<in> kqueues k \<Longrightarrow> p \<in> set (qitems (queuetab k) q) \<longleftrightarrow> p \<in> {0..<NPROC} \<and> home k p = Some q \<and> p \<notin> X"
  using kinvD(1,3) queue_members by metis

lemma home_queue: "kinv X k \<Longrightarrow> p \<in> {0..<NPROC} \<Longrightarrow> home k p = Some q \<Longrightarrow> q \<in> kqueues k"
  using kinvD(4) [of X k p] by (auto simp: home_def split: pstate.splits)

lemma upd_proc_sel [simp]:
  "queuetab (upd_proc p f k) = queuetab k" "proctab (upd_proc p f k) x = (if x = p then f (proctab k p) else proctab k x)"
  "semtab (upd_proc p f k) = semtab k" "readylist (upd_proc p f k) = readylist k" "sleepq (upd_proc p f k) = sleepq k"
  "currpid (upd_proc p f k) = currpid k" "ndefers (upd_proc p f k) = ndefers k" "attempt (upd_proc p f k) = attempt k"
  "nextsem (upd_proc p f k) = nextsem k" "nextqid (upd_proc p f k) = nextqid k" "sem_queue (upd_proc p f k) = sem_queue k" "kqueues (upd_proc p f k) = kqueues k"
  by (auto simp: upd_proc_def sem_queue_def kqueues_def)

lemma set_state_sel [simp]:
  "queuetab (set_state p s k) = queuetab k"
  "prstate (proctab (set_state p s k) x) = (if x = p then s else prstate (proctab k x))"
  "prprio (proctab (set_state p s k) x) = prprio (proctab k x)" "prsem (proctab (set_state p s k) x) = prsem (proctab k x)"
  "semtab (set_state p s k) = semtab k" "readylist (set_state p s k) = readylist k" "sleepq (set_state p s k) = sleepq k"
  "currpid (set_state p s k) = currpid k" "ndefers (set_state p s k) = ndefers k" "attempt (set_state p s k) = attempt k"
  "sem_queue (set_state p s k) = sem_queue k" "kqueues (set_state p s k) = kqueues k"
  "nextsem (set_state p s k) = nextsem k" "prcount (set_state p s k) = prcount k" "kclktime (set_state p s k) = kclktime k" "count1000 (set_state p s k) = count1000 k"
  by (simp_all add: set_state_def) (simp_all add: upd_proc_def)

lemma proctab_set_state:
  "proctab (set_state p s k) = (proctab k)(p := (proctab k p)\<lparr>prstate := s\<rparr>)"
  by (simp add: set_state_def upd_proc_def)

text \<open>Fields the invariant does not mention.\<close>

lemma kern_fields:
  assumes "semtab k' = semtab k" "readylist k' = readylist k" "sleepq k' = sleepq k"
  shows "sem_queue k' = sem_queue k" "kqueues k' = kqueues k" "queue_ids_ok k' = queue_ids_ok k"
    "proctab k' = proctab k \<Longrightarrow> home k' = home k"
proof -
  show s: "sem_queue k' = sem_queue k" by (simp add: fun_eq_iff sem_queue_def assms)
  show "kqueues k' = kqueues k" "queue_ids_ok k' = queue_ids_ok k" by (simp_all add: kqueues_def queue_ids_ok_def s assms)
  show "home k' = home k" if "proctab k' = proctab k"
    by (rule ext) (unfold home_def s assms that, rule refl)
qed

lemma kinv_cong:
  assumes "queuetab k' = queuetab k" "proctab k' = proctab k" "semtab k' = semtab k" "readylist k' = readylist k"
    "sleepq k' = sleepq k" "currpid k' = currpid k"
  shows "kinv X k' = kinv X k"
  unfolding kinv_def kern_fields [OF assms(3-5)] kern_fields(4) [OF assms(3-5,2)] assms ..

text \<open>Changing one queue.\<close>

lemma kinv_requeue:
  assumes k: "kinv X k" and q: "q \<in> kqueues k" and t': "qtable_ok t' (kqueues k)"
    and items: "\<And>r. r \<in> kqueues k \<Longrightarrow> qitems t' r = ((qitems (queuetab k))(q := ps)) r"
    and new: "\<And>x. x \<in> {0..<NPROC} \<Longrightarrow> x \<in> set ps \<longleftrightarrow> home k x = Some q \<and> x \<notin> X'"
    and other: "\<And>x r. x \<in> {0..<NPROC} \<Longrightarrow> r \<in> kqueues k \<Longrightarrow> r \<noteq> q \<Longrightarrow> home k x = Some r \<Longrightarrow> x \<in> X \<longleftrightarrow> x \<in> X'"
    and keys: "\<And>x. home k x \<noteq> Some q \<Longrightarrow> qkey (t' x) = qkey (queuetab k x)"
    and sorted: "q = readylist k \<Longrightarrow> ready_sorted t' q"
  shows "kinv X' (k\<lparr>queuetab := t'\<rparr>)"
proof -
  have f: "kqueues (k\<lparr>queuetab := t'\<rparr>) = kqueues k" "home (k\<lparr>queuetab := t'\<rparr>) = home k"
    "queue_ids_ok (k\<lparr>queuetab := t'\<rparr>) = queue_ids_ok k"
    by (rule kern_fields; simp)+
  have place: "p \<in> set (qitems t' r) \<longleftrightarrow> home k p = Some r \<and> p \<notin> X'" if "p \<in> {0..<NPROC}" "r \<in> kqueues k" for p r
    using items [OF that(2)] new [OF that(1)] other [OF that] kinvD(3) [OF k that] by (cases "r = q") auto
  have frame: "qitems t' r = qitems (queuetab k) r \<and> (\<forall>x \<in> set (qitems (queuetab k) r). qkey (t' x) = qkey (queuetab k x))"
    if "r \<in> kqueues k" "r \<noteq> q" for r
    using items [OF that(1)] that kinv_members [OF k that(1)] keys by auto
  have "ready_sorted t' (readylist k)"
  proof (cases "readylist k = q")
    case False
    note fr = frame [OF kqueues_mem(1) False]
    have "sorted_wrt (\<lambda>x y. qkey (t' x) \<ge> qkey (t' y)) (qitems (queuetab k) (readylist k))"
      by (rule sorted_wrt_mono_rel [OF _ kinvD(7) [OF k, unfolded ready_sorted_def]]) (use fr in simp)
    then show ?thesis using fr by (simp add: ready_sorted_def)
  qed (use sorted in auto)
  then show ?thesis
    using k t' place unfolding kinv_def f by simp
qed

section \<open>Steps of the operations\<close>

definition relinked :: "(int \<Rightarrow> qentry) \<Rightarrow> (int \<Rightarrow> qentry) \<Rightarrow> int set \<Rightarrow> int \<Rightarrow> int list \<Rightarrow> bool" where
  "relinked t t' S q ps \<longleftrightarrow> qtable_ok t' S \<and> (\<forall>r \<in> S. qitems t' r = ((qitems t)(q := ps)) r)"

lemma relinkedI: "queues_ok t' ((qitems t)(q := ps)) S \<Longrightarrow> relinked t t' S q ps"
  using qitems_eq qtable_okI by (auto simp: relinked_def)

text \<open>A process leaves its queue.\<close>

lemma kinv_take:
  assumes k: "kinv X k" and q: "q \<in> kqueues k" "qitems (queuetab k) q = A @ p # B"
    and r: "relinked (queuetab k) t' (kqueues k) q (A @ B)"
    and keys: "\<And>x. x \<notin> set (A @ B) \<or> q \<noteq> sleepq k \<Longrightarrow> qkey (t' x) = qkey (queuetab k x)"
  shows "kinv (insert p X) (k\<lparr>queuetab := t'\<rparr>)"
proof (rule kinv_requeue [OF k q(1)])
  have mem: "x \<in> set (A @ p # B) \<longleftrightarrow> x \<in> {0..<NPROC} \<and> home k x = Some q \<and> x \<notin> X" for x
    using kinv_members [OF k q(1)] q(2) by auto
  show "qtable_ok t' (kqueues k)" "\<And>r. r \<in> kqueues k \<Longrightarrow> qitems t' r = ((qitems (queuetab k))(q := A @ B)) r"
    using r by (auto simp: relinked_def)
  have "distinct (A @ p # B)" using kinvD(1) [OF k] q queues_okD(7) unfolding qtable_ok_def by metis
  then show "x \<in> set (A @ B) \<longleftrightarrow> home k x = Some q \<and> x \<notin> insert p X" if "x \<in> {0..<NPROC}" for x
    using mem [of x] that by auto
  show "x \<in> X \<longleftrightarrow> x \<in> insert p X" if "r \<noteq> q" "home k x = Some r" for x r using that mem [of p] by auto
  show "qkey (t' x) = qkey (queuetab k x)" if "home k x \<noteq> Some q" for x using keys mem [of x] that by auto
  show "ready_sorted t' q" if q': "q = readylist k"
  proof -
    have "q \<noteq> sleepq k" using kinvD(2) [OF k] q' by (simp add: queue_ids_ok_def)
    moreover have "qitems t' q = A @ B" using r q(1) by (simp add: relinked_def)
    ultimately show ?thesis
      using kinvD(7) [OF k] q' q(2) keys by (auto simp: ready_sorted_def sorted_wrt_append)
  qed
qed

text \<open>A process that is in no queue enters the queue of its state.\<close>

lemma kinv_put:
  assumes k: "kinv X k" and p: "p \<in> {0..<NPROC}" "p \<in> X" "home k p = Some q"
    and r: "relinked (queuetab k) t' (kqueues k) q ps" "set ps = insert p (set (qitems (queuetab k) q))"
    and keys: "\<And>x. x \<notin> insert p (set (qitems (queuetab k) q)) \<Longrightarrow> qkey (t' x) = qkey (queuetab k x)"
    and sorted: "q = readylist k \<Longrightarrow> ready_sorted t' q"
  shows "kinv (X - {p}) (k\<lparr>queuetab := t'\<rparr>)"
proof -
  have q: "q \<in> kqueues k" using home_queue [OF k p(1,3)] .
  note mem = kinv_members [OF k q]
  show ?thesis
  proof (rule kinv_requeue [OF k q])
    show "qtable_ok t' (kqueues k)" "\<And>r. r \<in> kqueues k \<Longrightarrow> qitems t' r = ((qitems (queuetab k))(q := ps)) r"
      using r by (auto simp: relinked_def)
    show "x \<in> set ps \<longleftrightarrow> home k x = Some q \<and> x \<notin> X - {p}" if "x \<in> {0..<NPROC}" for x
      using mem that p r(2) by auto
    show "x \<in> X \<longleftrightarrow> x \<in> X - {p}" if "r \<noteq> q" "home k x = Some r" for x r using that p by auto
    show "qkey (t' x) = qkey (queuetab k x)" if "home k x \<noteq> Some q" for x
      using keys [of x] mem [of x] p that by auto
  qed (use sorted in auto)
qed

lemma kinv_set_state:
  assumes k: "kinv X k" and p: "p \<in> X \<or> home k p = None \<and> s \<notin> {PR_READY, PR_SLEEP, PR_RECTIM, PR_WAIT}"
    and s: "s = PR_CURR \<Longrightarrow> p = currpid k" "s = PR_WAIT \<Longrightarrow> prsem (proctab k p) \<in> {0..<NSEM}"
      "p = NULLPROC \<Longrightarrow> s \<in> {PR_CURR, PR_READY}"
  shows "kinv X (set_state p s k)"
proof -
  let ?k = "set_state p s k"
  have h: "home ?k x = home k x" if "x \<noteq> p" for x using that by (simp add: home_def split: pstate.splits)
  have h': "home ?k p = None" if "p \<notin> X" using p that by (auto simp: home_def split: pstate.splits)
  have place: "x \<in> set (qitems (queuetab k) q) \<longleftrightarrow> home ?k x = Some q \<and> x \<notin> X" if "x \<in> {0..<NPROC}" "q \<in> kqueues k" for x q
    using kinvD(3) [OF k that] h [of x] h' p by (cases "x = p") auto
  have "queue_ids_ok ?k" using kinvD(2) [OF k] by (simp add: queue_ids_ok_def)
  then show ?thesis
    using k place s unfolding kinv_def by auto
qed

lemma kinv_None:
  assumes "home k p = None" "X - {p} = Y - {p}"
  shows "kinv X k = kinv Y k"
proof -
  have "(home k x = Some q \<and> x \<notin> X) = (home k x = Some q \<and> x \<notin> Y)" for x q
    using assms by (cases "x = p") auto
  then show ?thesis by (simp only: kinv_def)
qed

lemma kinv_may_enqueue:
  assumes "kinv X k" "p \<in> {0..<NPROC}" "p \<in> X \<or> home k p = None" "prstate (proctab k p) \<noteq> PR_FREE"
  shows "may_enqueue k (kqueues k) p"
  using assms kinv_members [OF assms(1)] by (auto simp: may_enqueue_def isbadpid_def queued_def)

lemma insert_ready:
  assumes k: "kinv X k" "p \<in> {0..<NPROC}" "p \<in> X" "prstate (proctab k p) = PR_READY"
    and key: "key = prprio (proctab k p)"
  obtains t' where "insert_q p (readylist k) key k = Inr (OK_st, k\<lparr>queuetab := t'\<rparr>)" "kinv (X - {p}) (k\<lparr>queuetab := t'\<rparr>)"
    "relinked (queuetab k) t' (kqueues k) (readylist k)
       (put_by_key (\<lambda>x. qkey (queuetab k x)) p key (qitems (queuetab k) (readylist k)))"
    "\<And>x. qkey (t' x) = (if x = p then key else qkey (queuetab k x))"
proof -
  let ?q = "readylist k"
  let ?ps = "put_by_key (\<lambda>x. qkey (queuetab k x)) p key (qitems (queuetab k) ?q)"
  have "key > MINKEY" using kinvD(6) [OF k(1,2)] key by (simp add: MINKEY_def)
  moreover have me: "may_enqueue k (kqueues k) p" using k by (intro kinv_may_enqueue [OF k(1,2)]) auto
  ultimately obtain t' where t': "insert_q p ?q key k = Inr (OK_st, k\<lparr>queuetab := t'\<rparr>)" "qtable_ok t' (kqueues k)"
    "\<And>r. r \<in> kqueues k \<Longrightarrow> qitems t' r = ((qitems (queuetab k))(?q := ?ps)) r"
    "\<And>x. qkey (t' x) = (if x = p then key else qkey (queuetab k x))"
    using insert_q_table [OF kinvD(1) [OF k(1)] kqueues_mem(1)] by blast
  have r: "relinked (queuetab k) t' (kqueues k) ?q ?ps" using t'(2,3) by (simp add: relinked_def)
  have "p \<notin> set (qitems (queuetab k) ?q)" using me by (auto simp: may_enqueue_def queued_def)
  then have s: "ready_sorted t' ?q"
    using put_by_key_sorted [of "\<lambda>x. qkey (queuetab k x)" "qitems (queuetab k) ?q" p key] kinvD(7) [OF k(1)] t'(3,4)
    by (simp add: ready_sorted_def)
  have "home k p = Some ?q" using k(4) by (simp add: home_def)
  then have "kinv (X - {p}) (k\<lparr>queuetab := t'\<rparr>)"
    by (intro kinv_put [OF k(1-3) _ r]) (use s t'(4) in auto)
  then show thesis using that t'(1,4) r by blast
qed

lemma dequeue_kinv:
  assumes k: "kinv X k" "q \<in> kqueues k" "qitems (queuetab k) q = p # ps"
  obtains t' where "dequeue q k = (p, k\<lparr>queuetab := t'\<rparr>)" "kinv (insert p X) (k\<lparr>queuetab := t'\<rparr>)"
    "relinked (queuetab k) t' (kqueues k) q ps" "\<And>x. qkey (t' x) = qkey (queuetab k x)"
proof -
  obtain t' where t': "dequeue q k = (p, k\<lparr>queuetab := t'\<rparr>)" "queues_ok t' ((qitems (queuetab k))(q := ps)) (kqueues k)"
    "\<And>x. qkey (t' x) = qkey (queuetab k x)"
    using dequeue_spec [of k "qitems (queuetab k)" "kqueues k" q p ps] kinvD(1) [OF k(1)] k(2,3) by (auto simp: qtable_ok_def)
  have r: "relinked (queuetab k) t' (kqueues k) q ([] @ ps)" using relinkedI [OF t'(2)] by simp
  have "kinv (insert p X) (k\<lparr>queuetab := t'\<rparr>)"
    by (rule kinv_take [OF k(1,2) _ r]) (use k(3) t'(3) in auto)
  then show thesis using that t' r by simp
qed

section \<open>Rescheduling\<close>

text \<open>No process was created or has ended, and the stacks are where they were.\<close>

definition procs_same :: "kern \<Rightarrow> kern \<Rightarrow> bool" where
  "procs_same k k' \<longleftrightarrow> (\<forall>p. (prstate (proctab k' p) = PR_FREE \<longleftrightarrow> prstate (proctab k p) = PR_FREE) \<and>
     prstkbase (proctab k' p) = prstkbase (proctab k p) \<and> prstklen (proctab k' p) = prstklen (proctab k p))"

definition kept :: "kern \<Rightarrow> kern \<Rightarrow> bool" where
  "kept k k' \<longleftrightarrow> nextsem k' = nextsem k \<and> procs_same k k'"

lemma kept_refl [simp]: "kept k k" "procs_same k k"
  by (simp_all add: kept_def procs_same_def)

lemma kept_trans: "kept k k' \<Longrightarrow> kept k' k'' \<Longrightarrow> kept k k''"
  by (simp add: kept_def procs_same_def)

lemma procs_same_trans: "procs_same k k' \<Longrightarrow> procs_same k' k'' \<Longrightarrow> procs_same k k''"
  by (simp add: procs_same_def)

lemma kept_cong [simp]:
  "kept (k\<lparr>queuetab := t\<rparr>) k' = kept k k'" "kept (k\<lparr>ndefers := n\<rparr>) k' = kept k k'" "kept (k\<lparr>attempt := a\<rparr>) k' = kept k k'"
  "kept k' (k\<lparr>queuetab := t\<rparr>) = kept k' k" "kept k' (k\<lparr>ndefers := n\<rparr>) = kept k' k" "kept k' (k\<lparr>attempt := a\<rparr>) = kept k' k"
  by (simp_all add: kept_def procs_same_def)

text \<open>What a rescheduling leaves alone: everything but the ready list and the states of processes.\<close>

definition only_ready :: "kern \<Rightarrow> kern \<Rightarrow> bool" where
  "only_ready k k' \<longleftrightarrow> semtab k' = semtab k \<and> readylist k' = readylist k \<and> sleepq k' = sleepq k \<and> prcount k' = prcount k \<and>
     kclktime k' = kclktime k \<and> count1000 k' = count1000 k \<and> nextsem k' = nextsem k \<and>
     (\<forall>r \<in> kqueues k. r \<noteq> readylist k \<longrightarrow> qitems (queuetab k') r = qitems (queuetab k) r) \<and>
     (\<forall>x \<in> set (qitems (queuetab k) (sleepq k)). qkey (queuetab k' x) = qkey (queuetab k x)) \<and>
     (\<forall>p. proctab k' p = (proctab k p)\<lparr>prstate := prstate (proctab k' p)\<rparr>) \<and>
     (\<forall>p. prstate (proctab k' p) = PR_FREE \<longleftrightarrow> prstate (proctab k p) = PR_FREE)"

lemma only_ready_kept:
  assumes "only_ready k k'" shows "kept k k'"
proof -
  have "prstkbase (proctab k' p) = prstkbase (proctab k p) \<and> prstklen (proctab k' p) = prstklen (proctab k p)" for p
  proof -
    have "proctab k' p = (proctab k p)\<lparr>prstate := prstate (proctab k' p)\<rparr>" using assms unfolding only_ready_def by blast
    then show ?thesis by (metis procent.select_convs(3,4) procent.surjective procent.update_convs(1))
  qed
  then show ?thesis using assms by (simp add: kept_def procs_same_def only_ready_def)
qed

lemma only_ready_refl [simp]: "only_ready k k"
  by (simp add: only_ready_def)

lemma only_ready_kqueues: "only_ready k k' \<Longrightarrow> kqueues k' = kqueues k"
  by (rule kern_fields) (simp_all add: only_ready_def)

lemma only_ready_trans:
  assumes "only_ready k k'" "only_ready k' k''" "queue_ids_ok k"
  shows "only_ready k k''"
proof -
  have "qitems (queuetab k') (sleepq k) = qitems (queuetab k) (sleepq k)"
    using assms(1,3) by (auto simp: only_ready_def queue_ids_ok_def)
  moreover have "proctab k'' p = (proctab k p)\<lparr>prstate := prstate (proctab k'' p)\<rparr>" for p
  proof -
    have a: "proctab k' p = (proctab k p)\<lparr>prstate := prstate (proctab k' p)\<rparr>"
      "proctab k'' p = (proctab k' p)\<lparr>prstate := prstate (proctab k'' p)\<rparr>" using assms(1,2) unfolding only_ready_def by blast+
    show ?thesis by (subst a(2), subst a(1)) simp
  qed
  ultimately show ?thesis
    using assms(1,2) only_ready_kqueues [OF assms(1)] unfolding only_ready_def by (auto simp del: set_state_sel)
qed

text \<open>The sleeping processes and their delays are as before.\<close>

definition sleep_same :: "kern \<Rightarrow> kern \<Rightarrow> bool" where
  "sleep_same k k' \<longleftrightarrow> sleepq k' = sleepq k \<and> qitems (queuetab k') (sleepq k) = qitems (queuetab k) (sleepq k) \<and>
     (\<forall>x \<in> set (qitems (queuetab k) (sleepq k)). qkey (queuetab k' x) = qkey (queuetab k x))"

lemma sleep_same_refl [simp]: "sleep_same k k"
  by (simp add: sleep_same_def)

lemma sleep_same_trans: "sleep_same k k' \<Longrightarrow> sleep_same k' k'' \<Longrightarrow> sleep_same k k''"
  by (auto simp: sleep_same_def)

lemma only_ready_sleep: "only_ready k k' \<Longrightarrow> queue_ids_ok k \<Longrightarrow> sleep_same k k'"
  by (auto simp: only_ready_def sleep_same_def queue_ids_ok_def)

lemma relinked_sleep:
  assumes "relinked (queuetab k) t' (kqueues k) q ps" "q \<noteq> sleepq k" "\<And>x. qkey (t' x) = qkey (queuetab k x)"
  shows "sleep_same k (k\<lparr>queuetab := t'\<rparr>)"
  using assms by (simp add: sleep_same_def relinked_def)

definition running :: "kern \<Rightarrow> bool" where
  "running k \<longleftrightarrow> prstate (proctab k (currpid k)) = PR_CURR"

lemma running_null_ready:
  assumes "kinv {} k" "\<not> running k"
  shows "NULLPROC \<in> set (qitems (queuetab k) (readylist k))"
proof -
  have n: "NULLPROC \<in> {0..<NPROC}" by (simp add: NULLPROC_def NPROC_def)
  then have "prstate (proctab k NULLPROC) = PR_READY"
    using kinvD(5) [OF assms(1) n] kinvD(9) [OF assms(1)] assms(2) by (auto simp: running_def)
  then show ?thesis using kinvD(3) [OF assms(1) n, of "readylist k"] by (simp add: home_def)
qed

lemma switch_to_first_spec:
  assumes k: "kinv {} k" and l: "qitems (queuetab k) (readylist k) = p # ps"
    and old: "prstate (proctab k (currpid k)) \<noteq> PR_CURR"
  obtains k' where "switch_to_first k = Inr k'" "kinv {} k'" "running k'" "only_ready k k'" "currpid k' = p"
    "qitems (queuetab k') (readylist k') = ps" "\<And>x. qkey (queuetab k' x) = qkey (queuetab k x)"
    "\<And>x. x \<noteq> p \<Longrightarrow> proctab k' x = proctab k x" "preempt k' = QUANTUM" "ndefers k' = ndefers k"
proof -
  obtain t' where t': "dequeue (readylist k) k = (p, k\<lparr>queuetab := t'\<rparr>)" "kinv {p} (k\<lparr>queuetab := t'\<rparr>)"
    "relinked (queuetab k) t' (kqueues k) (readylist k) ps" "\<And>x. qkey (t' x) = qkey (queuetab k x)"
    using dequeue_kinv [OF k kqueues_mem(1) l] by auto
  have p: "p \<in> {0..<NPROC}" using kinv_members [OF k kqueues_mem(1), of p] l by simp
  let ?k = "k\<lparr>queuetab := t', currpid := p\<rparr>"
  let ?k' = "(set_state p PR_CURR ?k)\<lparr>preempt := QUANTUM\<rparr>"
  have none: "x \<in> {0..<NPROC} \<Longrightarrow> prstate (proctab k x) \<noteq> PR_CURR" for x using kinvD(5) [OF k] old by metis
  have f: "kqueues ?k = kqueues k" "home ?k = home k" "queue_ids_ok ?k = queue_ids_ok k"
    "kqueues (k\<lparr>queuetab := t'\<rparr>) = kqueues k" "home (k\<lparr>queuetab := t'\<rparr>) = home k" "queue_ids_ok (k\<lparr>queuetab := t'\<rparr>) = queue_ids_ok k"
    by (rule kern_fields; simp)+
  have "kinv {p} ?k" using t'(2) p none unfolding kinv_def f by auto
  then have "kinv {p} (set_state p PR_CURR ?k)" by (rule kinv_set_state) auto
  then have k': "kinv {p} ?k'" by (subst (asm) kinv_cong [symmetric, of ?k']) simp_all
  have "home ?k' p = None" by (simp add: home_def)
  then have "kinv {} ?k'" using k' kinv_None [of ?k' p "{p}" "{}"] by simp
  moreover have "switch_to_first k = Inr ?k'" using t'(1) p by (simp add: switch_to_first_def)
  moreover have "prstate (proctab k p) \<noteq> PR_FREE" using kinv_members [OF k kqueues_mem(1), of p] l by (auto simp: home_def)
  then have "only_ready k ?k'"
    using t'(3,4) by (auto simp: only_ready_def relinked_def set_state_def upd_proc_def)
  moreover have "qitems (queuetab ?k') (readylist ?k') = ps" using t'(3) by (simp add: relinked_def)
  moreover have "x \<noteq> p \<Longrightarrow> proctab ?k' x = proctab k x" for x by (simp add: set_state_def upd_proc_def)
  ultimately show thesis using that [of ?k'] t'(4) by (simp add: running_def)
qed

text \<open>\<open>resched\<close> never leaves the table of processes, keeps the invariant, and afterwards the current
  process is a runnable one whose key (its priority, if it was running) no ready process exceeds.\<close>

definition run_key :: "kern \<Rightarrow> int \<Rightarrow> int" where
  "run_key k p = (if running k \<and> p = currpid k then prprio (proctab k p) else qkey (queuetab k p))"

lemma resched_spec:
  assumes k: "kinv {} k" and d: "ndefers k \<le> 0"
  obtains k' where "resched k = Inr k'" "kinv {} k'" "running k'" "only_ready k k'" "ndefers k' = ndefers k"
    "\<And>p. p \<in> set (qitems (queuetab k') (readylist k')) \<Longrightarrow> run_key k p \<le> run_key k (currpid k')"
    "running k \<Longrightarrow> prprio (proctab k (currpid k)) > firstkey (queuetab k) (readylist k) \<Longrightarrow> k' = k"
    "running k \<Longrightarrow> prprio (proctab k (currpid k)) \<le> firstkey (queuetab k) (readylist k) \<Longrightarrow>
       currpid k' = hd (qitems (queuetab k) (readylist k)) \<and>
       qitems (queuetab k') (readylist k') = put_by_key (\<lambda>x. qkey (queuetab k x)) (currpid k) (prprio (proctab k (currpid k)))
         (tl (qitems (queuetab k) (readylist k)))"
    "\<not> running k \<Longrightarrow> currpid k' = hd (qitems (queuetab k) (readylist k)) \<and>
       qitems (queuetab k') (readylist k') = tl (qitems (queuetab k) (readylist k))"
    "\<And>x. x \<noteq> currpid k \<or> \<not> running k \<Longrightarrow> x \<noteq> currpid k' \<Longrightarrow> proctab k' x = proctab k x"
    "\<And>x. x \<in> set (qitems (queuetab k') (readylist k')) \<Longrightarrow> qkey (queuetab k' x) = run_key k x"
    "\<And>x. x = currpid k' \<or> x \<in> set (qitems (queuetab k') (readylist k')) \<Longrightarrow>
       x \<in> set (qitems (queuetab k) (readylist k)) \<or> running k \<and> x = currpid k"
proof -
  let ?c = "currpid k" and ?q = "readylist k" and ?t = "queuetab k"
  let ?L = "qitems ?t ?q" and ?prio = "prprio (proctab k (currpid k))"
  have c: "?c \<in> {0..<NPROC}" using kinvD(8) [OF k] .
  have sorted: "sorted_wrt (\<lambda>x y. qkey (?t x) \<ge> qkey (?t y)) ?L" using kinvD(7) [OF k] by (simp add: ready_sorted_def)
  have fk: "firstkey ?t ?q = (if ?L = [] then MINKEY else qkey (?t (hd ?L)))"
    using firstid_queue(1) [of ?t "qitems ?t" "kqueues k" ?q] queues_okD(4) [of ?t "qitems ?t" "kqueues k" ?q] kinvD(1) [OF k]
    by (auto simp: firstkey_def qtable_ok_def)
  show thesis
  proof (cases "running k")
    case False
    then obtain h ps where L: "?L = h # ps" using running_null_ready [OF k False] by (cases ?L) auto
    have old: "prstate (proctab k ?c) \<noteq> PR_CURR" using False by (simp add: running_def)
    obtain k' where k': "switch_to_first k = Inr k'" "kinv {} k'" "running k'" "only_ready k k'" "currpid k' = h"
      "qitems (queuetab k') (readylist k') = ps" "\<And>x. x \<noteq> h \<Longrightarrow> proctab k' x = proctab k x" "ndefers k' = ndefers k"
      "\<And>x. qkey (queuetab k' x) = qkey (?t x)"
      using switch_to_first_spec [OF k L old] by metis
    show thesis
    proof (rule that [OF _ k'(2-4,8)])
      show "resched k = Inr k'" using k'(1) d old by (simp add: resched_def Let_def)
      show "run_key k p \<le> run_key k (currpid k')" if "p \<in> set (qitems (queuetab k') (readylist k'))" for p
        using sorted that False by (simp add: run_key_def k'(5,6) L)
    qed (use False k'(5-7,9) L in \<open>auto simp: run_key_def\<close>)
  next
    case True
    have cs: "prstate (proctab k ?c) = PR_CURR" using True by (simp add: running_def)
    have hc: "home k ?c = None" using cs by (simp add: home_def)
    then have cL: "?c \<notin> set ?L" using kinv_members [OF k kqueues_mem(1)] by simp
    show thesis
    proof (cases "?prio > firstkey ?t ?q")
      case gt: True
      show thesis
      proof (rule that [of k])
        show "resched k = Inr k" using d cs gt by (simp add: resched_def Let_def)
        show "run_key k p \<le> run_key k (currpid k)" if p: "p \<in> set (qitems ?t ?q)" for p
        proof -
          have "qkey (?t p) \<le> qkey (?t (hd ?L))" using sorted p by (cases ?L) auto
          then show ?thesis using gt fk p cL True by (auto simp: run_key_def split: if_splits)
        qed
      qed (use k True gt cL in \<open>auto simp: run_key_def\<close>)
    next
      case le: False
      have "?prio > MINKEY" using kinvD(6) [OF k c] by (simp add: MINKEY_def)
      then obtain h ps where L: "?L = h # ps" using le fk by (cases ?L) auto
      have hk: "qkey (?t h) \<ge> ?prio" using le fk L by simp
      let ?k = "set_state ?c PR_READY k"
      have "kinv {?c} k" using kinv_None [of k ?c "{}" "{?c}"] k hc by simp
      then have k1: "kinv {?c} ?k" by (rule kinv_set_state) auto
      obtain t' where t': "insert_q ?c (readylist ?k) ?prio ?k = Inr (OK_st, ?k\<lparr>queuetab := t'\<rparr>)" "kinv ({?c} - {?c}) (?k\<lparr>queuetab := t'\<rparr>)"
        "relinked (queuetab ?k) t' (kqueues ?k) (readylist ?k) (put_by_key (\<lambda>x. qkey (queuetab ?k x)) ?c ?prio (qitems (queuetab ?k) (readylist ?k)))"
        "\<And>x. qkey (t' x) = (if x = ?c then ?prio else qkey (queuetab ?k x))"
        using insert_ready [OF k1 c, of ?prio] by auto
      let ?k1 = "?k\<lparr>queuetab := t'\<rparr>"
      have L1: "qitems (queuetab ?k1) (readylist ?k1) = h # put_by_key (\<lambda>x. qkey (?t x)) ?c ?prio ps"
        using t'(3) hk L by (simp add: relinked_def put_by_key_def)
      have "prstate (proctab ?k1 (currpid ?k1)) \<noteq> PR_CURR" by simp
      from switch_to_first_spec [OF _ L1 this] t'(2)
      obtain k' where k': "switch_to_first ?k1 = Inr k'" "kinv {} k'" "running k'" "only_ready ?k1 k'" "currpid k' = h"
        "qitems (queuetab k') (readylist k') = put_by_key (\<lambda>x. qkey (?t x)) ?c ?prio ps"
        "\<And>x. x \<noteq> h \<Longrightarrow> proctab k' x = proctab ?k1 x" "ndefers k' = ndefers ?k1"
        "\<And>x. qkey (queuetab k' x) = qkey (t' x)"
        by auto
      have "only_ready k ?k1"
      proof -
        have "?c \<notin> set (qitems ?t (sleepq k))" using kinv_members [OF k kqueues_mem(2)] hc by simp
        then show ?thesis
          using t'(3,4) cs by (auto simp: only_ready_def relinked_def proctab_set_state)
      qed
      then have fr: "only_ready k k'" using k'(4) only_ready_trans kinvD(2) [OF k] by blast
      show thesis
      proof (rule that [OF _ k'(2,3) fr])
        show "resched k = Inr k'" using d cs le t'(1) k'(1) by (simp add: resched_def Let_def)
        show "run_key k p \<le> run_key k (currpid k')" if p: "p \<in> set (qitems (queuetab k') (readylist k'))" for p
        proof -
          have "p = ?c \<or> p \<in> set ps" using p k'(6) by simp
          moreover have "h \<noteq> ?c" using cL L by auto
          ultimately show ?thesis using sorted L hk cL True k'(5) by (auto simp: run_key_def)
        qed
      qed (use k'(5-9) t'(4) L le True in \<open>auto simp: set_state_def run_key_def\<close>)
    qed
  qed
qed

lemma resched_ok:
  assumes "kinv {} k" "ndefers k \<le> 0"
  shows "\<exists>k'. resched k = Inr k' \<and> kinv {} k' \<and> running k' \<and> only_ready k k' \<and> ndefers k' = ndefers k \<and>
    (\<forall>x. x \<noteq> currpid k \<or> \<not> running k \<longrightarrow> x \<noteq> currpid k' \<longrightarrow> proctab k' x = proctab k x) \<and>
    (\<not> running k \<longrightarrow> currpid k' = hd (qitems (queuetab k) (readylist k)) \<and>
       qitems (queuetab k') (readylist k') = tl (qitems (queuetab k) (readylist k)))"
  by (rule resched_spec [OF assms], rule exI) (intro conjI allI impI; assumption?; blast)

lemma queue_ids:
  assumes "kinv X k"
  shows "readylist k \<noteq> sleepq k" "s \<in> {0..<NSEM} \<Longrightarrow> sem_queue k s \<noteq> readylist k" "s \<in> {0..<NSEM} \<Longrightarrow> sem_queue k s \<noteq> sleepq k"
    "s \<in> {0..<NSEM} \<Longrightarrow> s' \<in> {0..<NSEM} \<Longrightarrow> sem_queue k s = sem_queue k s' \<longleftrightarrow> s = s'"
  using kinvD(2) [OF assms] imageI [of s "{0..<NSEM}" "sem_queue k"] unfolding queue_ids_ok_def
  by (blast, metis, metis, metis inj_on_eq_iff)

text \<open>\<open>ready\<close> puts a process that is in no queue (\<open>p\<close> is being moved) on the ready list.\<close>

lemma ready_spec:
  assumes k: "kinv {p} k" "p \<in> {0..<NPROC}" "prstate (proctab k p) \<noteq> PR_FREE"
  obtains k' where "ready p k = Inr (OK_st, k')" "kinv {} k'" "only_ready k k'" "ndefers k' = ndefers k"
    "ndefers k \<le> 0 \<Longrightarrow> running k'" "ndefers k > 0 \<Longrightarrow> currpid k' = currpid k \<and> attempt k'"
    "prstate (proctab k' p) \<in> {PR_READY, PR_CURR}"
    "ndefers k > 0 \<Longrightarrow> proctab k' = (proctab k)(p := (proctab k p)\<lparr>prstate := PR_READY\<rparr>)"
    "ndefers k > 0 \<Longrightarrow> qitems (queuetab k') (readylist k') =
       put_by_key (\<lambda>x. qkey (queuetab k x)) p (prprio (proctab k p)) (qitems (queuetab k) (readylist k))"
proof -
  let ?k = "set_state p PR_READY k" and ?prio = "prprio (proctab k p)"
  have k1: "kinv {p} ?k" by (rule kinv_set_state [OF k(1)]) auto
  obtain t' where t': "insert_q p (readylist ?k) ?prio ?k = Inr (OK_st, ?k\<lparr>queuetab := t'\<rparr>)" "kinv ({p} - {p}) (?k\<lparr>queuetab := t'\<rparr>)"
    "relinked (queuetab ?k) t' (kqueues ?k) (readylist ?k) (put_by_key (\<lambda>x. qkey (queuetab ?k x)) p ?prio (qitems (queuetab ?k) (readylist ?k)))"
    "\<And>x. qkey (t' x) = (if x = p then ?prio else qkey (queuetab ?k x))"
    using insert_ready [OF k1 k(2), of ?prio] by auto
  let ?k1 = "?k\<lparr>queuetab := t'\<rparr>"
  have inv: "kinv {} ?k1" using t'(2) by simp
  have "p \<notin> set (qitems (queuetab k) (sleepq k))" using kinv_members [OF k(1) kqueues_mem(2)] by simp
  then have fr: "only_ready k ?k1"
    using t'(3,4) k(3) by (auto simp: only_ready_def relinked_def proctab_set_state)
  have body: "ready p k = bind_res (resched ?k1) (\<lambda>k. Inr (OK_st, k))"
    using k(2,3) t'(1) by (simp add: ready_def isbadpid_def Let_def)
  show thesis
  proof (cases "ndefers k \<le> 0")
    case True
    obtain k' where k': "resched ?k1 = Inr k'" "kinv {} k'" "running k'" "only_ready ?k1 k'" "ndefers k' = ndefers ?k1"
      "\<And>x. x \<noteq> currpid ?k1 \<Longrightarrow> x \<noteq> currpid k' \<Longrightarrow> proctab k' x = proctab ?k1 x"
      "\<not> running ?k1 \<Longrightarrow> currpid k' = hd (qitems (queuetab ?k1) (readylist ?k1)) \<and>
         qitems (queuetab k') (readylist k') = tl (qitems (queuetab ?k1) (readylist ?k1))"
      using resched_ok [OF inv] True by auto
    have p1: "p \<in> set (qitems (queuetab ?k1) (readylist ?k1))" using t'(3) by (simp add: relinked_def)
    have "prstate (proctab k' p) \<in> {PR_READY, PR_CURR}"
    proof -
      show ?thesis
      proof (cases "p = currpid k'")
        case True
        then show ?thesis using k'(3) by (simp add: running_def)
      next
        case False
        show ?thesis
        proof (cases "p = currpid ?k1")
          case cur: True
          then have "\<not> running ?k1" by (simp add: running_def)
          then have "p \<in> set (qitems (queuetab k') (readylist k'))"
            using k'(7) False p1 by (cases "qitems (queuetab ?k1) (readylist ?k1)") auto
          then have "home k' p = Some (readylist k')" using kinv_members [OF k'(2) kqueues_mem(1)] by simp
          then show ?thesis
            using queue_ids [OF k'(2)] kinvD(4) [OF k'(2) k(2)] by (auto simp: home_def split: pstate.splits)
        next
          case nc: False
          then show ?thesis using k'(6) [of p] False by (simp add: proctab_set_state)
        qed
      qed
    qed
    moreover have "only_ready k k'" using only_ready_trans [OF fr k'(4) kinvD(2) [OF k(1)]] .
    ultimately show thesis using that [of k'] True k' body by simp
  next
    case False
    let ?k' = "?k1\<lparr>attempt := True\<rparr>"
    have "only_ready k ?k'" using fr by (simp add: only_ready_def)
    moreover have "kinv {} ?k'" using inv by (subst kinv_cong [of _ ?k1]) simp_all
    moreover have "ready p k = Inr (OK_st, ?k')" using body False by (simp add: resched_def)
    ultimately show thesis using that [of ?k'] False t'(3) by (simp add: proctab_set_state relinked_def)
  qed
qed

text \<open>The state a process has because of the queue it is in.\<close>

lemma queue_state:
  assumes "kinv X k" "p \<in> set (qitems (queuetab k) q)" "q \<in> kqueues k"
  shows "q = readylist k \<Longrightarrow> prstate (proctab k p) = PR_READY"
    "q = sleepq k \<Longrightarrow> prstate (proctab k p) \<in> {PR_SLEEP, PR_RECTIM}"
    "s \<in> {0..<NSEM} \<Longrightarrow> q = sem_queue k s \<Longrightarrow> prstate (proctab k p) = PR_WAIT \<and> prsem (proctab k p) = s"
    "p \<in> {0..<NPROC}" "p \<notin> X"
proof -
  have h: "home k p = Some q" "p \<in> {0..<NPROC}" "p \<notin> X" using kinv_members [OF assms(1,3)] assms(2) by auto
  note ids = queue_ids [OF assms(1)] and w = kinvD(4) [OF assms(1) h(2)]
  show "q = readylist k \<Longrightarrow> prstate (proctab k p) = PR_READY"
    using h(1) ids w by (auto simp: home_def split: pstate.splits)
  show "q = sleepq k \<Longrightarrow> prstate (proctab k p) \<in> {PR_SLEEP, PR_RECTIM}"
    using h(1) ids w by (auto simp: home_def split: pstate.splits)
  show "s \<in> {0..<NSEM} \<Longrightarrow> q = sem_queue k s \<Longrightarrow> prstate (proctab k p) = PR_WAIT \<and> prsem (proctab k p) = s"
    using h(1) ids w by (auto simp: home_def inj_on_def split: pstate.splits)
  show "p \<in> {0..<NPROC}" "p \<notin> X" using h(2,3) by auto
qed

section \<open>The other operations\<close>

lemma getitem_kinv:
  assumes k: "kinv X k" "q \<in> kqueues k" "p \<in> set (qitems (queuetab k) q)"
  obtains t' where "getitem p k = (p, k\<lparr>queuetab := t'\<rparr>)" "kinv (insert p X) (k\<lparr>queuetab := t'\<rparr>)"
    "relinked (queuetab k) t' (kqueues k) q (remove1 p (qitems (queuetab k) q))" "\<And>x. qkey (t' x) = qkey (queuetab k x)"
proof -
  obtain A B where AB: "qitems (queuetab k) q = A @ p # B" by (meson k(3) split_list)
  have dist: "distinct (A @ p # B)" using kinvD(1) [OF k(1)] k(2) queues_okD(7) AB unfolding qtable_ok_def by metis
  obtain t' where t': "getitem p k = (p, k\<lparr>queuetab := t'\<rparr>)" "queues_ok t' ((qitems (queuetab k))(q := A @ B)) (kqueues k)"
    "\<And>x. qkey (t' x) = qkey (queuetab k x)"
    using getitem_spec [of k "qitems (queuetab k)" "kqueues k" q A p B] kinvD(1) [OF k(1)] k(2) AB by (auto simp: qtable_ok_def)
  have r: "relinked (queuetab k) t' (kqueues k) q (A @ B)" using relinkedI [OF t'(2)] .
  have "kinv (insert p X) (k\<lparr>queuetab := t'\<rparr>)"
    by (rule kinv_take [OF k(1,2) AB r]) (use t'(3) in auto)
  moreover have "remove1 p (qitems (queuetab k) q) = A @ B" using dist by (simp add: AB remove1_append)
  ultimately show thesis using that t' r by simp
qed

text \<open>A process in no queue may change between the states without a queue.\<close>

lemma kinv_unqueued_state:
  assumes "kinv {} k" "home k p = None" "s \<in> {PR_FREE, PR_RECV, PR_SUSP}" "p \<noteq> NULLPROC"
  shows "kinv {} (set_state p s k)"
  by (rule kinv_set_state [OF assms(1)]) (use assms in auto)

lemma kinv_queued_state:
  assumes "kinv {p} k" "s \<in> {PR_FREE, PR_RECV, PR_SUSP}" "p \<noteq> NULLPROC"
  shows "kinv {} (set_state p s k)"
proof -
  have "kinv {p} (set_state p s k)" by (rule kinv_set_state [OF assms(1)]) (use assms in auto)
  moreover have "home (set_state p s k) p = None" using assms(2) by (auto simp: home_def)
  ultimately show ?thesis using kinv_None [of _ p "{p}" "{}"] by auto
qed

lemma home_running: "running k \<Longrightarrow> home k (currpid k) = None"
  by (simp add: running_def home_def)

lemma suspend_ready:
  assumes k: "kinv {} k" "p \<noteq> NULLPROC" "p \<in> {0..<NPROC}" "prstate (proctab k p) = PR_READY"
  obtains k' where "suspend p k = Inr (None, k')" "kinv {} k'" "prstate (proctab k' p) = PR_SUSP" "semtab k' = semtab k"
    "qitems (queuetab k') (readylist k') = remove1 p (qitems (queuetab k) (readylist k))"
    "\<And>r. r \<in> kqueues k \<Longrightarrow> r \<noteq> readylist k \<Longrightarrow> qitems (queuetab k') r = qitems (queuetab k) r"
    "currpid k' = currpid k" "ndefers k' = ndefers k" "\<And>x. x \<noteq> p \<Longrightarrow> proctab k' x = proctab k x"
    "\<And>x. qkey (queuetab k' x) = qkey (queuetab k x)" "readylist k' = readylist k" "sleepq k' = sleepq k"
    "sleep_same k k'" "kept k k'"
proof -
  have "home k p = Some (readylist k)" using k(4) by (simp add: home_def)
  then have m: "p \<in> set (qitems (queuetab k) (readylist k))" using kinv_members [OF k(1) kqueues_mem(1)] k(3) by simp
  obtain t' where t': "getitem p k = (p, k\<lparr>queuetab := t'\<rparr>)" "kinv {p} (k\<lparr>queuetab := t'\<rparr>)"
    "relinked (queuetab k) t' (kqueues k) (readylist k) (remove1 p (qitems (queuetab k) (readylist k)))"
    "\<And>x. qkey (t' x) = qkey (queuetab k x)"
    using getitem_kinv [OF k(1) kqueues_mem(1) m] by auto
  let ?k' = "set_state p PR_SUSP (k\<lparr>queuetab := t'\<rparr>)"
  have "kinv {} ?k'" by (rule kinv_queued_state [OF t'(2)]) (use k in auto)
  moreover have "suspend p k = Inr (None, ?k')" using k t'(1) by (simp add: suspend_def isbadpid_def)
  moreover have "sleep_same k (k\<lparr>queuetab := t'\<rparr>)" using relinked_sleep [OF t'(3) _ t'(4)] queue_ids(1) [OF k(1)] by simp
  then have "sleep_same k ?k'" by (simp add: sleep_same_def)
  moreover have "kept k ?k'" using k(4) by (simp add: kept_def procs_same_def proctab_set_state)
  ultimately show thesis using that [of ?k'] t'(3,4) by (simp add: relinked_def proctab_set_state)
qed

lemma suspend_current:
  assumes k: "kinv {} k" "p \<noteq> NULLPROC" "p \<in> {0..<NPROC}" "prstate (proctab k p) = PR_CURR" "ndefers k \<le> 0"
  obtains k' where "suspend p k = Inr (None, k')" "kinv {} k'" "running k'" "prstate (proctab k' p) = PR_SUSP"
    "only_ready (set_state p PR_SUSP k) k'" "currpid k' = hd (qitems (queuetab k) (readylist k))"
    "qitems (queuetab k') (readylist k') = tl (qitems (queuetab k) (readylist k))" "ndefers k' = ndefers k"
proof -
  have c: "p = currpid k" using kinvD(5) [OF k(1,3,4)] .
  let ?k = "set_state p PR_SUSP k"
  have inv: "kinv {} ?k" by (rule kinv_unqueued_state [OF k(1)]) (use k in \<open>auto simp: home_def\<close>)
  have nr: "\<not> running ?k" by (simp add: running_def c)
  obtain k' where k': "resched ?k = Inr k'" "kinv {} k'" "running k'" "only_ready ?k k'" "ndefers k' = ndefers ?k"
    "currpid k' = hd (qitems (queuetab ?k) (readylist ?k))" "qitems (queuetab k') (readylist k') = tl (qitems (queuetab ?k) (readylist ?k))"
    "\<And>x. x \<noteq> currpid k' \<Longrightarrow> proctab k' x = proctab ?k x"
    using resched_ok [OF inv] k(5) nr by auto
  have "NULLPROC \<in> set (qitems (queuetab ?k) (readylist ?k))" by (rule running_null_ready [OF inv nr])
  then have "currpid k' \<in> set (qitems (queuetab ?k) (readylist ?k))" using k'(6) by (metis empty_iff hd_in_set set_empty)
  then have "prstate (proctab ?k (currpid k')) = PR_READY" using queue_state(1) [OF inv _ kqueues_mem(1)] by blast
  then have "currpid k' \<noteq> p" by auto
  then have "prstate (proctab k' p) = PR_SUSP" using k'(8) [of p] by simp
  moreover have "suspend p k = Inr (None, k')" using k k'(1) by (simp add: suspend_def isbadpid_def)
  ultimately show thesis using that [of k'] k' by simp
qed

lemma resume_spec:
  assumes k: "kinv {} k" "p \<in> {0..<NPROC}" "prstate (proctab k p) = PR_SUSP" "ndefers k \<le> 0"
  obtains k' where "resume p k = Inr (prprio (proctab k p), k')" "kinv {} k'" "running k'" "only_ready k k'" "ndefers k' = ndefers k"
    "prstate (proctab k' p) \<in> {PR_READY, PR_CURR}"
proof -
  have "kinv {p} k" using kinv_None [of k p "{}" "{p}"] k by (simp add: home_def)
  from ready_spec [OF this k(2)] k(3,4)
  obtain k' where "ready p k = Inr (OK_st, k')" "kinv {} k'" "only_ready k k'" "ndefers k' = ndefers k" "running k'"
    "prstate (proctab k' p) \<in> {PR_READY, PR_CURR}" by auto
  then show thesis using that [of k'] k by (simp add: resume_def isbadpid_def Let_def)
qed

lemma chprio_kinv:
  assumes "kinv {} k" "-32768 \<le> prio" "prio < 32768"
  shows "kinv {} (snd (chprio p prio k))"
proof (cases "isbadpid k p")
  case False
  let ?k = "upd_proc p (\<lambda>e. e\<lparr>prprio := prio\<rparr>) k"
  have "home ?k = home k" by (auto simp: home_def fun_eq_iff split: pstate.split)
  moreover have "queue_ids_ok ?k = queue_ids_ok k" by (simp add: queue_ids_ok_def)
  moreover have "prstate (proctab ?k x) = prstate (proctab k x)" "prsem (proctab ?k x) = prsem (proctab k x)" for x by simp_all
  ultimately have "kinv {} ?k" using assms unfolding kinv_def by simp
  then show ?thesis using False by (simp add: chprio_def)
qed (use assms in \<open>simp add: chprio_def\<close>)

text \<open>The delay of the first element of \<open>B\<close> grows by that of the process that leaves.\<close>

definition grow_head :: "(int \<Rightarrow> int) \<Rightarrow> int \<Rightarrow> int list \<Rightarrow> int \<Rightarrow> int" where
  "grow_head kf p B = (\<lambda>x. if B \<noteq> [] \<and> x = hd B then kf x + kf p else kf x)"

lemma dues_grow:
  assumes "distinct (A @ p # B)"
  shows "dues (grow_head kf p B) d (A @ B) = filter (\<lambda>(x, _). x \<noteq> p) (dues kf d (A @ p # B))"
proof -
  have fst: "x \<in> fst ` set (dues f e xs) \<longleftrightarrow> x \<in> set xs" for x f e xs by (induction xs arbitrary: e) auto
  have keep: "filter (\<lambda>(x, _). x \<noteq> p) (dues f e xs) = dues f e xs" if "p \<notin> set xs" for f e xs
    using that fst [of p f e xs] by (intro filter_True) force
  have A: "dues (grow_head kf p B) d A = dues kf d A" "map (grow_head kf p B) A = map kf A"
  proof -
    have "grow_head kf p B x = kf x" if "x \<in> set A" for x using assms that by (cases B) (auto simp: grow_head_def)
    then show "dues (grow_head kf p B) d A = dues kf d A" "map (grow_head kf p B) A = map kf A" by (auto intro: dues_cong)
  qed
  have B: "dues (grow_head kf p B) e B = dues kf (e + kf p) B" for e
  proof (cases B)
    case (Cons b C)
    have "dues (grow_head kf p B) e' C = dues kf e' C" for e' using assms Cons by (intro dues_cong) (auto simp: grow_head_def)
    then show ?thesis using Cons by (simp add: grow_head_def algebra_simps)
  qed simp
  show ?thesis using assms unfolding dues_append A by (simp add: B keep)
qed

lemma sum_grow:
  assumes "distinct (A @ p # B)"
  shows "sum_list (map (grow_head kf p B) (A @ B)) = sum_list (map kf (A @ B)) + (if B = [] then 0 else kf p)"
proof -
  have A: "sum_list (map (grow_head kf p B) A) = sum_list (map kf A)"
    using assms by (intro arg_cong [where f = sum_list] map_cong) (cases B; auto simp: grow_head_def)+
  have "sum_list (map (grow_head kf p B) B) = sum_list (map kf B) + (if B = [] then 0 else kf p)"
  proof (cases B)
    case (Cons b C)
    have "sum_list (map (grow_head kf p B) C) = sum_list (map kf C)"
      using assms Cons by (intro arg_cong [where f = sum_list] map_cong) (auto simp: grow_head_def)
    moreover have "grow_head kf p B b = kf b + kf p" using Cons by (simp add: grow_head_def)
    ultimately show ?thesis using Cons by simp
  qed simp
  then show ?thesis using A by simp
qed

lemma delays_okD:
  assumes "delays_ok t ps" "x \<in> set ps"
  shows "0 \<le> qkey (t x)" "qkey (t x) < 2147483648"
proof -
  have n: "\<forall>y \<in> set ps. 0 \<le> qkey (t y)" using assms(1) by (simp add: delays_ok_def)
  then show "0 \<le> qkey (t x)" using assms(2) by blast
  have "qkey (t x) \<le> sum_list (map (\<lambda>y. qkey (t y)) ps)" using n assms(2) by (intro member_le_sum_list) auto
  then show "qkey (t x) < 2147483648" using assms(1) by (simp add: delays_ok_def)
qed

lemma sum_list_distinct_pair:
  fixes f :: "int \<Rightarrow> int"
  assumes "\<forall>x \<in> set (A @ p # B). 0 \<le> f x" "B \<noteq> []"
  shows "f p + f (hd B) \<le> sum_list (map f (A @ p # B))"
proof -
  obtain b C where B: "B = b # C" using assms(2) by (cases B) auto
  have "0 \<le> sum_list (map f A)" "0 \<le> sum_list (map f C)" using assms(1) B by (auto intro!: sum_list_nonneg)
  then show ?thesis by (simp add: B)
qed

text \<open>\<open>unsleep\<close> takes one process off the delta list; the others are due when they were.\<close>

lemma unsleep_spec:
  assumes k: "kinv {} k" "p \<in> set (qitems (queuetab k) (sleepq k))" and d: "delays_ok (queuetab k) (qitems (queuetab k) (sleepq k))"
  obtains t' where "unsleep p k = (OK_st, k\<lparr>queuetab := t'\<rparr>)" "kinv {p} (k\<lparr>queuetab := t'\<rparr>)"
    "relinked (queuetab k) t' (kqueues k) (sleepq k) (remove1 p (qitems (queuetab k) (sleepq k)))"
    "dues (\<lambda>x. qkey (t' x)) 0 (qitems t' (sleepq k)) =
       filter (\<lambda>(x, _). x \<noteq> p) (dues (\<lambda>x. qkey (queuetab k x)) 0 (qitems (queuetab k) (sleepq k)))"
    "delays_ok t' (qitems t' (sleepq k))"
    "\<And>x. x \<notin> set (qitems (queuetab k) (sleepq k)) \<Longrightarrow> qkey (t' x) = qkey (queuetab k x)"
proof -
  let ?q = "sleepq k" and ?t = "queuetab k"
  let ?L = "qitems ?t ?q"
  obtain A B where L: "?L = A @ p # B" by (meson k(2) split_list)
  have tok: "queues_ok ?t (qitems ?t) (kqueues k)" using kinvD(1) [OF k(1)] by (simp add: qtable_ok_def)
  note qd = queues_okD [OF tok kqueues_mem(2)]
  have dist: "distinct (A @ p # B)" using qd(7) L by simp
  note nb = queue_neighbours [OF tok kqueues_mem(2) L]
  let ?b = "hd (B @ [?q + 1])"
  have bP: "?b < NPROC \<longleftrightarrow> B \<noteq> []"
  proof (cases B)
    case (Cons b C)
    then have "b \<in> set ?L" using L by simp
    then show ?thesis using qd(6) Cons by auto
  qed (use qd(2) in auto)
  let ?kf = "\<lambda>x. qkey (?t x)"
  let ?s = "if ?b < NPROC then qset_key ?b (i32 (qkey (?t ?b) + qkey (?t p))) ?t else ?t"
  have keys: "qkey (?s x) = grow_head ?kf p B x" for x
  proof (cases "B = []")
    case False
    have "?kf p + ?kf (hd B) < 2147483648" "0 \<le> ?kf p + ?kf (hd B)"
      using sum_list_distinct_pair [of A p B ?kf] d L False by (auto simp: delays_ok_def)
    then have "i32 (?kf (hd B) + ?kf p) = ?kf (hd B) + ?kf p" by (intro i32_in_range) auto
    then show ?thesis using bP False by (auto simp: grow_head_def)
  qed (use bP in \<open>simp add: grow_head_def\<close>)
  have sok: "queues_ok ?s (qitems ?t) (kqueues k)"
  proof -
    have "queue_at ?s q (qitems ?t q)" if "q \<in> kqueues k" for q
    proof -
      have "qlinks ?s (qnodes q (qitems ?t q)) = qlinks ?t (qnodes q (qitems ?t q))" by (rule qlinks_cong) simp
      then show ?thesis using queues_okD [OF tok that] by (auto simp: queue_at_def)
    qed
    then show ?thesis using tok by (simp add: queues_ok_def)
  qed
  obtain t' where t': "getitem p (k\<lparr>queuetab := ?s\<rparr>) = (p, k\<lparr>queuetab := t'\<rparr>)" "queues_ok t' ((qitems ?t)(?q := A @ B)) (kqueues k)"
    "\<And>x. qkey (t' x) = qkey (?s x)"
    using getitem_spec [of "k\<lparr>queuetab := ?s\<rparr>" "qitems ?t" "kqueues k" ?q A p B] sok L by auto
  have r: "relinked ?t t' (kqueues k) ?q (A @ B)" using relinkedI [OF t'(2)] .
  then have items: "qitems t' ?q = A @ B" by (simp add: relinked_def)
  have st: "prstate (proctab k p) \<in> {PR_SLEEP, PR_RECTIM}" "p \<in> {0..<NPROC}"
    using queue_state(2,4) [OF k(1,2) kqueues_mem(2)] by auto
  then have "unsleep p k = (OK_st, k\<lparr>queuetab := t'\<rparr>)"
    using t'(1) nb(2) by (auto simp: unsleep_def isbadpid_def Let_def)
  moreover have "kinv {p} (k\<lparr>queuetab := t'\<rparr>)"
  proof (rule kinv_take [OF k(1) kqueues_mem(2) L r])
    show "qkey (t' x) = qkey (?t x)" if "x \<notin> set (A @ B) \<or> ?q \<noteq> sleepq k" for x
      using that unfolding t'(3) keys by (cases B) (auto simp: grow_head_def)
  qed
  moreover have "remove1 p ?L = A @ B" using dist by (simp add: L remove1_append)
  moreover have kf': "(\<lambda>x. qkey (t' x)) = grow_head ?kf p B" by (simp add: fun_eq_iff t'(3) keys)
  moreover have "delays_ok t' (A @ B)"
  proof -
    have "sum_list (map (grow_head ?kf p B) (A @ B)) \<le> sum_list (map ?kf (A @ p # B))"
      using sum_grow [OF dist, of ?kf] delays_okD(1) [OF d, of p] L by simp
    moreover have "0 \<le> grow_head ?kf p B x" if "x \<in> set (A @ B)" for x
      using delays_okD(1) [OF d, of x] delays_okD(1) [OF d, of p] that L by (auto simp: grow_head_def)
    moreover have "qkey (t' x) = grow_head ?kf p B x" for x unfolding t'(3) keys ..
    ultimately show ?thesis using d L by (simp add: delays_ok_def)
  qed
  moreover have "qkey (t' x) = qkey (?t x)" if "x \<notin> set ?L" for x
    using that L unfolding t'(3) keys by (cases B) (auto simp: grow_head_def)
  ultimately show thesis using that [of t'] r items dues_grow [OF dist, of ?kf 0] by (simp add: L)
qed

section \<open>What the scheduler guarantees\<close>

text \<open>The keys of the ready processes are their priorities.\<close>

definition ready_keys :: "kern \<Rightarrow> bool" where
  "ready_keys k \<longleftrightarrow> (\<forall>p \<in> set (qitems (queuetab k) (readylist k)). qkey (queuetab k p) = prprio (proctab k p))"

lemma only_ready_prio: "only_ready k k' \<Longrightarrow> prprio (proctab k' p) = prprio (proctab k p)"
  unfolding only_ready_def by (metis (no_types, lifting) procent.select_convs(2) procent.surjective procent.update_convs(1))

lemma ready_member:
  "kinv X k \<Longrightarrow> p \<in> {0..<NPROC} \<Longrightarrow> p \<notin> X \<Longrightarrow> prstate (proctab k p) = PR_READY \<Longrightarrow> p \<in> set (qitems (queuetab k) (readylist k))"
  using kinv_members [of X k "readylist k" p] by (simp add: home_def)

text \<open>C8: after \<open>resched\<close> (rescheduling not being deferred) the process that runs has the highest priority
  of all runnable processes, provided the keys of the ready list are the priorities; the call never runs
  past the process table or loops, keeps the invariant that ties process states to queues, and the
  keys of the ready list are priorities again.\<close>

theorem resched_runs_highest_priority:
  assumes "kinv {} k" "ndefers k \<le> 0" "ready_keys k"
  shows "\<exists>k'. resched k = Inr k' \<and> kinv {} k' \<and> running k' \<and> ready_keys k' \<and>
    (\<forall>p \<in> {0..<NPROC}. prstate (proctab k' p) = PR_READY \<longrightarrow> prprio (proctab k' p) \<le> prprio (proctab k' (currpid k')))"
proof (rule resched_spec [OF assms(1,2)])
  fix k' assume k': "resched k = Inr k'" "kinv {} k'" "running k'" "only_ready k k'"
    "\<And>p. p \<in> set (qitems (queuetab k') (readylist k')) \<Longrightarrow> run_key k p \<le> run_key k (currpid k')"
    "\<And>x. x \<in> set (qitems (queuetab k') (readylist k')) \<Longrightarrow> qkey (queuetab k' x) = run_key k x"
    "\<And>x. x = currpid k' \<or> x \<in> set (qitems (queuetab k') (readylist k')) \<Longrightarrow>
       x \<in> set (qitems (queuetab k) (readylist k)) \<or> running k \<and> x = currpid k"
  have key: "run_key k x = prprio (proctab k' x)" if "x = currpid k' \<or> x \<in> set (qitems (queuetab k') (readylist k'))" for x
    using k'(7) [OF that] assms(3) only_ready_prio [OF k'(4)] by (auto simp: run_key_def ready_keys_def)
  have "ready_keys k'" using k'(6) key by (simp add: ready_keys_def)
  moreover have "prprio (proctab k' p) \<le> prprio (proctab k' (currpid k'))" if "p \<in> {0..<NPROC}" "prstate (proctab k' p) = PR_READY" for p
    using ready_member [OF k'(2) that(1) _ that(2)] k'(5) [of p] key [of p] key [of "currpid k'"] by simp
  ultimately show ?thesis using k'(1-3) by blast
qed

text \<open>A change of the priority of a ready process is not seen by the scheduler: when the process that
  runs has a priority above the keys of the ready list, it goes on running after \<^verbatim>\<open>chprio\<close> has given any
  waiting process any priority, however high, and the ready list is as before.\<close>

theorem chprio_keeps_ready_order:
  assumes "kinv {} k" "running k" "ndefers k \<le> 0" "prprio (proctab k (currpid k)) > firstkey (queuetab k) (readylist k)"
    and "p \<in> {0..<NPROC}" "prstate (proctab k p) = PR_READY"
  shows "\<exists>k'. chprio p prio k = (prprio (proctab k p), k') \<and> resched k' = Inr k' \<and> currpid k' = currpid k \<and>
    prprio (proctab k' p) = prio \<and> queuetab k' = queuetab k"
proof -
  have "p \<noteq> currpid k" using assms(2,6) by (auto simp: running_def)
  then show ?thesis using assms by (simp add: chprio_def isbadpid_def resched_def running_def Let_def)
qed

primrec yields :: "nat \<Rightarrow> kern \<Rightarrow> kern res" where
  "yields 0 k = Inr k"
| "yields (Suc n) k = bind_res (yield k) (\<lambda>(_, k). yields n k)"

definition one_priority :: "int \<Rightarrow> kern \<Rightarrow> bool" where
  "one_priority prio k \<longleftrightarrow> prprio (proctab k (currpid k)) = prio \<and>
     (\<forall>p \<in> set (qitems (queuetab k) (readylist k)). prprio (proctab k p) = prio \<and> qkey (queuetab k p) = prio)"

lemma yield_rotates:
  assumes "kinv {} k" "running k" "ndefers k \<le> 0" "one_priority prio k"
  obtains k' where "yield k = Inr (OK_st, k')" "kinv {} k'" "running k'" "ndefers k' \<le> 0" "one_priority prio k'"
    "currpid k' # qitems (queuetab k') (readylist k') = rotate1 (currpid k # qitems (queuetab k) (readylist k))"
proof (rule resched_spec [OF assms(1,3)])
  let ?L = "qitems (queuetab k) (readylist k)" and ?c = "currpid k"
  fix k' assume k': "resched k = Inr k'" "kinv {} k'" "running k'" "only_ready k k'" "ndefers k' = ndefers k"
    "\<And>x. x \<in> set (qitems (queuetab k') (readylist k')) \<Longrightarrow> qkey (queuetab k' x) = run_key k x"
    "\<And>x. x = currpid k' \<or> x \<in> set (qitems (queuetab k') (readylist k')) \<Longrightarrow> x \<in> set ?L \<or> running k \<and> x = ?c"
    "running k \<Longrightarrow> prprio (proctab k ?c) > firstkey (queuetab k) (readylist k) \<Longrightarrow> k' = k"
    "running k \<Longrightarrow> prprio (proctab k ?c) \<le> firstkey (queuetab k) (readylist k) \<Longrightarrow> currpid k' = hd ?L \<and>
       qitems (queuetab k') (readylist k') = put_by_key (\<lambda>x. qkey (queuetab k x)) ?c (prprio (proctab k ?c)) (tl ?L)"
  have p: "prprio (proctab k ?c) = prio" "\<forall>p \<in> set ?L. prprio (proctab k p) = prio \<and> qkey (queuetab k p) = prio"
    using assms(4) by (simp_all add: one_priority_def)
  have fk: "firstkey (queuetab k) (readylist k) = (if ?L = [] then MINKEY else qkey (queuetab k (hd ?L)))"
    using firstid_queue(1) [of "queuetab k" "qitems (queuetab k)" "kqueues k" "readylist k"]
      queues_okD(4) [of "queuetab k" "qitems (queuetab k)" "kqueues k" "readylist k"] kinvD(1) [OF assms(1)]
    by (auto simp: firstkey_def qtable_ok_def)
  have one: "one_priority prio k'"
    using k'(6,7) only_ready_prio [OF k'(4)] p assms(2) unfolding one_priority_def run_key_def by (metis (full_types))
  have "currpid k' # qitems (queuetab k') (readylist k') = rotate1 (?c # ?L)"
  proof (cases ?L)
    case Nil
    have "prio > MINKEY" using kinvD(6) [OF assms(1) kinvD(8) [OF assms(1)]] p(1) by (simp add: MINKEY_def)
    then show ?thesis using k'(8) assms(2) fk Nil p(1) by simp
  next
    case (Cons h L)
    have "takeWhile (\<lambda>x. qkey (queuetab k x) \<ge> prio) L = L" "dropWhile (\<lambda>x. qkey (queuetab k x) \<ge> prio) L = []"
      using p(2) Cons by auto
    then show ?thesis using k'(9) assms(2) fk Cons p by (simp add: put_by_key_def)
  qed
  then show thesis using that [of k'] k' one assms(3) by (simp add: yield_def)
qed

text \<open>Processes of the same priority take turns: with the running process and all ready processes at
  one priority, the list of the running process and the ready ones is rotated by one with each \<open>yield\<close>,
  so that every one of them runs within as many calls as there are processes.\<close>

theorem yields_round_robin:
  assumes "kinv {} k" "running k" "ndefers k \<le> 0" "one_priority prio k"
  shows "\<exists>k'. yields n k = Inr k' \<and> currpid k' # qitems (queuetab k') (readylist k') =
    rotate n (currpid k # qitems (queuetab k) (readylist k))"
  using assms
proof (induction n arbitrary: k)
  case (Suc n)
  obtain k' where k': "yield k = Inr (OK_st, k')" "kinv {} k'" "running k'" "ndefers k' \<le> 0" "one_priority prio k'"
    "currpid k' # qitems (queuetab k') (readylist k') = rotate1 (currpid k # qitems (queuetab k) (readylist k))"
    using yield_rotates [OF Suc.prems] by blast
  show ?case using Suc.IH [OF k'(2-5)] k'(1,6) by (simp add: rotate1_rotate_swap rotate_Suc del: rotate1.simps)
qed simp

section \<open>A concrete kernel\<close>

text \<open>Process 3 runs with priority \<open>prio\<close>, the null process is ready, process 4 is suspended.\<close>

definition demo_table :: "int \<Rightarrow> qentry" where
  "demo_table x =
     (if x = 300 then \<lparr>qkey = MAXKEY, qnext = 0, qprev = -1\<rparr>
      else if x = 0 then \<lparr>qkey = 0, qnext = 301, qprev = 300\<rparr>
      else if x = 301 then \<lparr>qkey = MINKEY, qnext = -1, qprev = 0\<rparr>
      else if even x then \<lparr>qkey = MAXKEY, qnext = x + 1, qprev = -1\<rparr>
      else \<lparr>qkey = MINKEY, qnext = -1, qprev = x - 1\<rparr>)"

definition demo_kern :: "int \<Rightarrow> kern" where
  "demo_kern prio = \<lparr>queuetab = demo_table,
     proctab = (\<lambda>p. if p = 0 then proc0\<lparr>prstate := PR_READY, prprio := 0\<rparr> else if p = 3 then proc0\<lparr>prstate := PR_CURR, prprio := prio\<rparr>
       else if p = 4 then proc0 else proc0\<lparr>prstate := PR_FREE\<rparr>),
     semtab = (\<lambda>s. \<lparr>sused = True, scount = 0, squeue = 100 + 2 * s\<rparr>), nextqid = 304, nextpid = 5, nextsem = 0,
     readylist = 300, sleepq = 302, currpid = 3, prcount = 3, ndefers = 0, attempt = False, preempt = 2,
     count1000 = 1000, kclktime = 0\<rparr>"

lemma demo_queues: "queues_ok demo_table (\<lambda>q. if q = 300 then [0] else []) (kqueues (demo_kern prio))"
proof -
  have S: "q \<in> kqueues (demo_kern prio) \<longleftrightarrow> q = 300 \<or> q = 302 \<or> (\<exists>s. 0 \<le> s \<and> s < 100 \<and> q = 100 + 2 * s)" for q
    by (auto simp: kqueues_def demo_kern_def sem_queue_def NSEM_def image_iff)
  have "queue_at demo_table q (if q = 300 then [0] else []) \<and> q + 1 \<notin> kqueues (demo_kern prio)" if "q \<in> kqueues (demo_kern prio)" for q
  proof -
    have "even q" "100 \<le> q" "q \<le> 302" using that S by auto
    then show ?thesis unfolding S by (auto simp: queue_at_def qnodes_def demo_table_def NPROC_def NQENT_def NSEM_def; presburger)
  qed
  then show ?thesis by (auto simp: queues_ok_def)
qed

lemma demo_items: "q \<in> kqueues (demo_kern prio) \<Longrightarrow> qitems demo_table q = (if q = 300 then [0] else [])"
  by (rule qitems_eq [OF demo_queues])

lemma demo_kinv:
  assumes "0 \<le> prio" "prio < 32768"
  shows "kinv {} (demo_kern prio)" "running (demo_kern prio)"
proof -
  let ?k = "demo_kern prio"
  have st: "prstate (proctab ?k p) = (if p = 0 then PR_READY else if p = 3 then PR_CURR else if p = 4 then PR_SUSP else PR_FREE)" for p
    by (simp add: demo_kern_def proc0_def)
  have f: "queuetab ?k = demo_table" "readylist ?k = 300" "sleepq ?k = 302" "currpid ?k = 3" by (simp_all add: demo_kern_def)
  have h: "home ?k p = (if p = 0 then Some 300 else None)" for p by (simp add: home_def st f)
  have ids: "queue_ids_ok ?k" by (auto simp: queue_ids_ok_def demo_kern_def sem_queue_def inj_on_def NSEM_def)
  have r: "qitems demo_table 300 = [0]" using demo_items [OF kqueues_mem(1), of prio] f by simp
  have "qtable_ok demo_table (kqueues ?k)" using qtable_okI [OF demo_queues] .
  moreover have "-32768 \<le> prprio (proctab ?k p) \<and> prprio (proctab ?k p) < 32768" for p
    using assms by (simp add: demo_kern_def proc0_def)
  ultimately show "kinv {} ?k"
    using ids by (auto simp: kinv_def f h st demo_items r ready_sorted_def NULLPROC_def NPROC_def)
  show "running ?k" by (simp add: running_def st f)
qed

lemma demo_sel: "ndefers (demo_kern prio) = 0" "currpid (demo_kern prio) = 3" "prprio (proctab (demo_kern prio) 3) = prio"
  "qitems (queuetab (demo_kern prio)) (readylist (demo_kern prio)) = [0]" "firstkey (queuetab (demo_kern prio)) (readylist (demo_kern prio)) = 0"
  "prstate (proctab (demo_kern prio) 0) = PR_READY" "prprio (proctab (demo_kern prio) 0) = 0" "qkey (queuetab (demo_kern prio) 0) = 0"
  using demo_items [OF kqueues_mem(1), of prio]
  by (simp_all add: demo_kern_def firstkey_def firstid_def demo_table_def)

theorem resched_runs_highest_priority_witness:
  "\<exists>k'. resched (demo_kern 20) = Inr k' \<and> kinv {} k' \<and> running k'"
  using resched_runs_highest_priority [of "demo_kern 20"] demo_kinv [of 20] demo_sel [of 20]
  by (auto simp: ready_keys_def)

theorem chprio_keeps_ready_order_witness:
  "\<exists>k'. chprio 0 100 (demo_kern 20) = (0, k') \<and> resched k' = Inr k' \<and> currpid k' = 3 \<and> prprio (proctab k' 0) = 100"
  using chprio_keeps_ready_order [of "demo_kern 20" 0 100] demo_kinv [of 20] demo_sel [of 20] by (auto simp: NPROC_def)

theorem yields_round_robin_witness:
  "\<exists>k'. yields 3 (demo_kern 0) = Inr k' \<and> currpid k' # qitems (queuetab k') (readylist k') = [0, 3]"
  using yields_round_robin [of "demo_kern 0" 0 3] demo_kinv [of 0] demo_sel [of 0]
  by (auto simp: one_priority_def numeral_3_eq_3)

end
