(* ===== verification/Semaphores.thy ===== *)
theory Semaphores
  imports Sched
begin

text \<open>
  Counting semaphores (\<^verbatim>\<open>system/wait.c\<close>, \<^verbatim>\<open>signal.c\<close>, \<^verbatim>\<open>signaln.c\<close>, \<^verbatim>\<open>semcreate.c\<close>,
  \<^verbatim>\<open>semdelete.c\<close>, \<^verbatim>\<open>semreset.c\<close>, \<^verbatim>\<open>semcount.c\<close>) over the scheduler. The specification of a
  semaphore is a number of tokens and a list of waiting processes; a negative count in the table is
  the number of waiting processes.
\<close>

definition isbadsem :: "int \<Rightarrow> bool" where
  "isbadsem s \<longleftrightarrow> s < 0 \<or> s \<ge> NSEM"

definition upd_sem :: "int \<Rightarrow> (sentry \<Rightarrow> sentry) \<Rightarrow> kern \<Rightarrow> kern" where
  "upd_sem s f k = k\<lparr>semtab := (semtab k)(s := f (semtab k s))\<rparr>"

definition set_count :: "int \<Rightarrow> int \<Rightarrow> kern \<Rightarrow> kern" where
  "set_count s c = upd_sem s (\<lambda>e. e\<lparr>scount := c\<rparr>)"

definition wait :: "int \<Rightarrow> kern \<Rightarrow> (int \<times> kern) res" where
  "wait sem k =
     (if isbadsem sem then Inr (SYSERR_st, k)
      else if \<not> sused (semtab k sem) then Inr (SYSERR_st, k)
      else
        let c = i32 (scount (semtab k sem) - 1); k = set_count sem c k in
        if c < 0 then
          let k = upd_proc (currpid k) (\<lambda>e. e\<lparr>prstate := PR_WAIT, prsem := sem\<rparr>) k;
              k = snd (enqueue (currpid k) (squeue (semtab k sem)) k)
          in bind_res (resched k) (\<lambda>k. Inr (OK_st, k))
        else Inr (OK_st, k))"

text \<open>One increment of the count, which releases the first waiting process if there is one.\<close>

definition signal_once :: "int \<Rightarrow> kern \<Rightarrow> kern res" where
  "signal_once sem k =
     (let c = scount (semtab k sem); k = set_count sem (i32 (c + 1)) k in
      if c < 0 then case dequeue (squeue (semtab k sem)) k of (pid, k) \<Rightarrow> bind_res (ready pid k) (\<lambda>(_, k). Inr k)
      else Inr k)"

definition signal :: "int \<Rightarrow> kern \<Rightarrow> (int \<times> kern) res" where
  "signal sem k =
     (if isbadsem sem then Inr (SYSERR_st, k)
      else if \<not> sused (semtab k sem) then Inr (SYSERR_st, k)
      else bind_res (signal_once sem k) (\<lambda>k. Inr (OK_st, k)))"

primrec signaln_loop :: "nat \<Rightarrow> int \<Rightarrow> kern \<Rightarrow> kern res" where
  "signaln_loop 0 sem k = Inr k"
| "signaln_loop (Suc n) sem k = bind_res (signal_once sem k) (signaln_loop n sem)"

definition signaln :: "int \<Rightarrow> int \<Rightarrow> kern \<Rightarrow> (int \<times> kern) res" where
  "signaln sem count k =
     (if isbadsem sem \<or> count < 0 then Inr (SYSERR_st, k)
      else if \<not> sused (semtab k sem) then Inr (SYSERR_st, k)
      else
        bind_res (resched_cntl DEFER_START k) (\<lambda>(_, k).
        bind_res (signaln_loop (nat count) sem k) (\<lambda>k.
        bind_res (resched_cntl DEFER_STOP k) (\<lambda>(_, k). Inr (OK_st, k)))))"

primrec newsem_loop :: "nat \<Rightarrow> kern \<Rightarrow> int \<times> kern" where
  "newsem_loop 0 k = (SYSERR_st, k)"
| "newsem_loop (Suc n) k =
     (let sem = nextsem k; k = k\<lparr>nextsem := if nextsem k + 1 \<ge> NSEM then 0 else nextsem k + 1\<rparr> in
      if \<not> sused (semtab k sem) then (sem, upd_sem sem (\<lambda>e. e\<lparr>sused := True\<rparr>) k)
      else newsem_loop n k)"

definition newsem :: "kern \<Rightarrow> int \<times> kern" where
  "newsem = newsem_loop (nat NSEM)"

definition semcreate :: "int \<Rightarrow> kern \<Rightarrow> int \<times> kern" where
  "semcreate count k =
     (if count < 0 then (SYSERR_st, k)
      else case newsem k of (sem, k) \<Rightarrow>
        if sem = SYSERR_st then (SYSERR_st, k) else (sem, set_count sem count k))"

partial_function (option) semdelete_loop :: "int \<Rightarrow> kern \<Rightarrow> kern res option" where
  "semdelete_loop sem k =
     (let c = scount (semtab k sem); k = set_count sem (i32 (c + 1)) k in
      if c < 0 then
        (case getfirst (squeue (semtab k sem)) k of (pid, k) \<Rightarrow>
         case ready pid k of Inl e \<Rightarrow> Some (Inl e) | Inr (_, k) \<Rightarrow> semdelete_loop sem k)
      else Some (Inr k))"

partial_function (option) semreset_loop :: "int \<Rightarrow> kern \<Rightarrow> kern res option" where
  "semreset_loop q k =
     (case getfirst q k of (pid, k) \<Rightarrow>
        if pid \<noteq> EMPTY then
          case ready pid k of Inl e \<Rightarrow> Some (Inl e) | Inr (_, k) \<Rightarrow> semreset_loop q k
        else Some (Inr k))"

definition loop_res :: "'a res option \<Rightarrow> 'a res" where
  "loop_res r = (case r of None \<Rightarrow> Inl Diverges | Some r \<Rightarrow> r)"

definition semdelete :: "int \<Rightarrow> kern \<Rightarrow> (int \<times> kern) res" where
  "semdelete sem k =
     (if isbadsem sem then Inr (SYSERR_st, k)
      else if \<not> sused (semtab k sem) then Inr (SYSERR_st, k)
      else
        bind_res (resched_cntl DEFER_START (upd_sem sem (\<lambda>e. e\<lparr>sused := False\<rparr>) k)) (\<lambda>(_, k).
        bind_res (loop_res (semdelete_loop sem k)) (\<lambda>k.
        bind_res (resched_cntl DEFER_STOP k) (\<lambda>(_, k). Inr (OK_st, k)))))"

definition semreset :: "int \<Rightarrow> int \<Rightarrow> kern \<Rightarrow> (int \<times> kern) res" where
  "semreset sem count k =
     (if count < 0 \<or> isbadsem sem \<or> \<not> sused (semtab k sem) then Inr (SYSERR_st, k)
      else
        bind_res (resched_cntl DEFER_START k) (\<lambda>(_, k).
        bind_res (loop_res (semreset_loop (squeue (semtab k sem)) k)) (\<lambda>k.
        bind_res (resched_cntl DEFER_STOP (set_count sem count k)) (\<lambda>(_, k). Inr (OK_st, k)))))"

definition semcount :: "int \<Rightarrow> kern \<Rightarrow> int" where
  "semcount sem k = (if isbadsem sem \<or> \<not> sused (semtab k sem) then SYSERR_st else scount (semtab k sem))"

section \<open>Tokens and waiting processes\<close>

type_synonym asem = "nat \<times> int list"

fun asem_wait :: "int \<Rightarrow> asem \<Rightarrow> asem" where
  "asem_wait p (0, ws) = (0, ws @ [p])"
| "asem_wait p (Suc n, ws) = (n, ws)"

fun asem_signal :: "asem \<Rightarrow> asem" where
  "asem_signal (n, []) = (Suc n, [])"
| "asem_signal (n, w # ws) = (n, ws)"

definition sem_abs :: "kern \<Rightarrow> int \<Rightarrow> asem" where
  "sem_abs k s = (nat (scount (semtab k s)), qitems (queuetab k) (sem_queue k s))"

definition sem_ok :: "kern \<Rightarrow> int \<Rightarrow> bool" where
  "sem_ok k s \<longleftrightarrow> -2147483648 \<le> scount (semtab k s) \<and> scount (semtab k s) < 2147483648 \<and>
     (let L = qitems (queuetab k) (sem_queue k s) in
      if sused (semtab k s) \<and> scount (semtab k s) < 0 then int (length L) = - scount (semtab k s) else L = [])"

definition sems_ok :: "kern \<Rightarrow> bool" where
  "sems_ok k \<longleftrightarrow> (\<forall>s \<in> {0..<NSEM}. sem_ok k s)"

lemma upd_sem_sel [simp]:
  "queuetab (upd_sem s f k) = queuetab k" "proctab (upd_sem s f k) = proctab k"
  "semtab (upd_sem s f k) x = (if x = s then f (semtab k s) else semtab k x)"
  "readylist (upd_sem s f k) = readylist k" "sleepq (upd_sem s f k) = sleepq k" "currpid (upd_sem s f k) = currpid k"
  "ndefers (upd_sem s f k) = ndefers k" "attempt (upd_sem s f k) = attempt k" "nextsem (upd_sem s f k) = nextsem k"
  by (auto simp: upd_sem_def)

lemma set_count_sel [simp]:
  "queuetab (set_count s c k) = queuetab k" "proctab (set_count s c k) = proctab k"
  "semtab (set_count s c k) x = (if x = s then (semtab k s)\<lparr>scount := c\<rparr> else semtab k x)"
  "readylist (set_count s c k) = readylist k" "sleepq (set_count s c k) = sleepq k" "currpid (set_count s c k) = currpid k"
  "ndefers (set_count s c k) = ndefers k" "attempt (set_count s c k) = attempt k" "nextsem (set_count s c k) = nextsem k"
  "sem_queue (set_count s c k) = sem_queue k"
  by (auto simp: set_count_def sem_queue_def fun_eq_iff)

text \<open>The invariant looks at the queues of the semaphores only.\<close>

lemma kinv_sem_cong:
  assumes "queuetab k' = queuetab k" "proctab k' = proctab k" "sem_queue k' = sem_queue k" "readylist k' = readylist k"
    "sleepq k' = sleepq k" "currpid k' = currpid k"
  shows "kinv X k' = kinv X k" "kqueues k' = kqueues k"
proof -
  have q: "kqueues k' = kqueues k" "queue_ids_ok k' = queue_ids_ok k"
    unfolding kqueues_def queue_ids_ok_def assms by (rule refl)+
  have h: "home k' = home k" by (rule ext) (unfold home_def assms, rule refl)
  show "kinv X k' = kinv X k" unfolding kinv_def q h assms ..
  show "kqueues k' = kqueues k" by (rule q)
qed

lemma set_count_kinv [simp]: "kinv X (set_count s c k) = kinv X k" "kqueues (set_count s c k) = kqueues k"
  by (rule kinv_sem_cong; simp)+

lemma sleep_same_set_count [simp]: "sleep_same k (set_count s c k)"
  by (simp add: sleep_same_def)

lemma kept_upd_sem [simp]: "kept (upd_sem s f k) k' = kept k k'" "kept (set_count s c k) k' = kept k k'"
  "kept k' (upd_sem s f k) = kept k' k" "kept k' (set_count s c k) = kept k' k"
  by (simp_all add: kept_def procs_same_def)

lemma running_set_count [simp]: "running (set_count s c k) = running k"
  by (simp add: running_def)

lemma sem_ok_only_ready:
  assumes "only_ready k k'" "kinv X k" "s \<in> {0..<NSEM}"
  shows "sem_ok k' s = sem_ok k s" "sem_abs k' s = sem_abs k s" "semtab k' = semtab k" "sem_queue k' = sem_queue k"
proof -
  have t: "semtab k' = semtab k" using assms(1) by (simp add: only_ready_def)
  then have q: "sem_queue k' = sem_queue k" by (simp add: sem_queue_def fun_eq_iff)
  have "qitems (queuetab k') (sem_queue k s) = qitems (queuetab k) (sem_queue k s)"
    using assms(1) queue_ids(2) [OF assms(2,3)] assms(3) by (simp add: only_ready_def)
  then show "sem_ok k' s = sem_ok k s" "sem_abs k' s = sem_abs k s" by (simp_all add: sem_ok_def sem_abs_def t q)
  show "semtab k' = semtab k" "sem_queue k' = sem_queue k" by fact+
qed

lemma isbadsem_iff: "\<not> isbadsem s \<longleftrightarrow> s \<in> {0..<NSEM}"
  by (auto simp: isbadsem_def)

section \<open>The operations\<close>

lemma kinv_block:
  assumes k: "kinv {p} k" and s: "s \<in> {0..<NSEM}" and p: "p \<noteq> NULLPROC"
  shows "kinv {p} (upd_proc p (\<lambda>e. e\<lparr>prstate := PR_WAIT, prsem := s\<rparr>) k)"
proof -
  let ?k = "upd_proc p (\<lambda>e. e\<lparr>prstate := PR_WAIT, prsem := s\<rparr>) k"
  have h: "home ?k x = home k x" if "x \<noteq> p" for x using that by (simp add: home_def split: pstate.splits)
  have "x \<in> set (qitems (queuetab k) q) \<longleftrightarrow> home ?k x = Some q \<and> x \<notin> {p}" if "x \<in> {0..<NPROC}" "q \<in> kqueues k" for x q
    using kinvD(3) [OF k that] h [of x] by (cases "x = p") auto
  moreover have "queue_ids_ok ?k" using kinvD(2) [OF k] by (simp add: queue_ids_ok_def)
  ultimately show ?thesis using k s p unfolding kinv_def by auto
qed

lemma enqueue_kinv:
  assumes k: "kinv {p} k" "p \<in> {0..<NPROC}" "prstate (proctab k p) = PR_WAIT" "q = sem_queue k (prsem (proctab k p))"
  obtains t' where "enqueue p q k = (p, k\<lparr>queuetab := t'\<rparr>)" "kinv {} (k\<lparr>queuetab := t'\<rparr>)"
    "relinked (queuetab k) t' (kqueues k) q (qitems (queuetab k) q @ [p])" "\<And>x. qkey (t' x) = qkey (queuetab k x)"
proof -
  have s: "prsem (proctab k p) \<in> {0..<NSEM}" using kinvD(4) [OF k(1-3)] .
  have q: "q \<in> kqueues k" "q \<noteq> readylist k" using s queue_ids(2) [OF k(1) s] k(4) by simp_all
  have "may_enqueue k (kqueues k) p" by (rule kinv_may_enqueue [OF k(1,2)]) (use k(3) in auto)
  then obtain t' where t': "enqueue p q k = (p, k\<lparr>queuetab := t'\<rparr>)"
      "queues_ok t' ((qitems (queuetab k))(q := qitems (queuetab k) q @ [p])) (kqueues k)" "\<And>x. qkey (t' x) = qkey (queuetab k x)"
    using enqueue_spec [of k "qitems (queuetab k)" "kqueues k" q p] kinvD(1) [OF k(1)] q by (auto simp: qtable_ok_def may_enqueue_def)
  note r = relinkedI [OF t'(2)]
  have "home k p = Some q" using k(3,4) by (simp add: home_def)
  then have "kinv ({p} - {p}) (k\<lparr>queuetab := t'\<rparr>)" by (intro kinv_put [OF k(1,2) _ _ r]) (use t'(3) q(2) in auto)
  then show thesis using that t' r by simp
qed

lemma sem_ok_relinked:
  assumes k: "kinv X k" and r: "relinked (queuetab k) t' (kqueues k) (sem_queue k s) ps" and s: "s \<in> {0..<NSEM}" "r' \<in> {0..<NSEM}"
  shows "qitems t' (sem_queue k r') = (if r' = s then ps else qitems (queuetab k) (sem_queue k r'))"
  using r s queue_ids(4) [OF k s] by (auto simp: relinked_def)

lemma wait_spec:
  assumes k: "kinv {} k" "running k" "ndefers k \<le> 0" "sems_ok k" and s: "s \<in> {0..<NSEM}" "sused (semtab k s)"
    and c: "currpid k \<noteq> NULLPROC" and n: "scount (semtab k s) > -2147483648"
  obtains k' where "wait s k = Inr (OK_st, k')" "kinv {} k'" "running k'" "ndefers k' = ndefers k" "sems_ok k'"
    "sem_abs k' s = asem_wait (currpid k) (sem_abs k s)" "\<And>r. r \<in> {0..<NSEM} \<Longrightarrow> r \<noteq> s \<Longrightarrow> sem_abs k' r = sem_abs k r"
    "scount (semtab k s) > 0 \<Longrightarrow> currpid k' = currpid k"
    "scount (semtab k s) \<le> 0 \<Longrightarrow> prstate (proctab k' (currpid k)) = PR_WAIT"
    "sleep_same k k'" "kept k k'" "semtab k' = (semtab k)(s := (semtab k s)\<lparr>scount := scount (semtab k s) - 1\<rparr>)"
proof -
  let ?n = "scount (semtab k s)" and ?p = "currpid k"
  have ok: "sem_ok k r" if "r \<in> {0..<NSEM}" for r using k(4) that by (simp add: sems_ok_def)
  have c': "i32 (?n - 1) = ?n - 1" using ok [OF s(1)] n by (intro i32_in_range) (auto simp: sem_ok_def)
  let ?k1 = "set_count s (?n - 1) k"
  have bad: "\<not> isbadsem s" using s(1) by (simp add: isbadsem_iff)
  show thesis
  proof (cases "?n > 0")
    case True
    have "sem_ok ?k1 r" if "r \<in> {0..<NSEM}" for r using ok [OF that] s True by (auto simp: sem_ok_def Let_def)
    moreover have "sem_abs ?k1 s = asem_wait ?p (sem_abs k s)"
    proof -
      obtain m where "nat ?n = Suc m" using True by (cases "nat ?n") auto
      moreover then have "nat (?n - 1) = m" by simp
      ultimately show ?thesis by (simp add: sem_abs_def)
    qed
    moreover have "wait s k = Inr (OK_st, ?k1)" using True s(2) bad c' by (simp add: wait_def Let_def)
    moreover have "sleep_same k ?k1" by (simp add: sleep_same_def)
    moreover have "semtab ?k1 = (semtab k)(s := (semtab k s)\<lparr>scount := ?n - 1\<rparr>)" by (simp add: set_count_def upd_sem_def)
    ultimately show thesis using that [of ?k1] k True by (simp add: sems_ok_def sem_abs_def)
  next
    case False
    let ?k2 = "upd_proc ?p (\<lambda>e. e\<lparr>prstate := PR_WAIT, prsem := s\<rparr>) ?k1"
    have p: "?p \<in> {0..<NPROC}" using kinvD(8) [OF k(1)] .
    have "kinv {?p} k" using kinv_None [OF home_running [OF k(2)], of "{}" "{?p}"] k(1) by simp
    then have k2: "kinv {?p} ?k2" by (intro kinv_block [OF _ s(1) c]) simp
    obtain t' where t': "enqueue ?p (sem_queue ?k2 s) ?k2 = (?p, ?k2\<lparr>queuetab := t'\<rparr>)" "kinv {} (?k2\<lparr>queuetab := t'\<rparr>)"
      "relinked (queuetab ?k2) t' (kqueues ?k2) (sem_queue ?k2 s) (qitems (queuetab ?k2) (sem_queue ?k2 s) @ [?p])"
      "\<And>x. qkey (t' x) = qkey (queuetab ?k2 x)"
      using enqueue_kinv [OF k2 p, of "sem_queue ?k2 s"] by auto
    let ?k3 = "?k2\<lparr>queuetab := t'\<rparr>"
    have f3: "sem_queue ?k3 = sem_queue k" "kqueues ?k2 = kqueues k" "semtab ?k3 r = (if r = s then (semtab k s)\<lparr>scount := ?n - 1\<rparr> else semtab k r)"
      for r by (simp_all add: sem_queue_def fun_eq_iff)
    have items: "qitems (queuetab ?k3) (sem_queue k r) = (if r = s then qitems (queuetab k) (sem_queue k s) @ [?p] else qitems (queuetab k) (sem_queue k r))"
      if "r \<in> {0..<NSEM}" for r
      using sem_ok_relinked [OF k2 t'(3) s(1) that] by simp
    have nr: "\<not> running ?k3" by (simp add: running_def)
    obtain k' where k': "resched ?k3 = Inr k'" "kinv {} k'" "running k'" "only_ready ?k3 k'" "ndefers k' = ndefers ?k3"
      using resched_ok [OF t'(2)] k(3) by auto
    note oe = sem_ok_only_ready [OF k'(4) t'(2)]
    have "wait s k = Inr (OK_st, k')"
      using False s(2) bad c' t'(1) k'(1) by (simp add: wait_def Let_def sem_queue_def)
    moreover have "sem_ok ?k3 r" if r: "r \<in> {0..<NSEM}" for r
      using ok [OF r] s False n items [OF r] by (auto simp: sem_ok_def f3 Let_def split: if_splits)
    then have "sems_ok k'" using oe(1) by (simp add: sems_ok_def)
    moreover have "sem_abs k' s = asem_wait ?p (sem_abs k s)"
      using oe(2) [OF s(1)] False items [OF s(1)] by (simp add: sem_abs_def f3)
    moreover have "sem_abs k' r = sem_abs k r" if "r \<in> {0..<NSEM}" "r \<noteq> s" for r
      using oe(2) [OF that(1)] items [OF that(1)] that(2) by (simp add: sem_abs_def f3)
    moreover have "prstate (proctab k' ?p) = PR_WAIT"
    proof -
      have "?p \<in> set (qitems (queuetab k') (sem_queue k' s))"
        using oe(2,4) [OF s(1)] items [OF s(1)] by (simp add: sem_abs_def f3)
      then show ?thesis using queue_state(3) [OF k'(2) _ _ s(1)] s(1) by auto
    qed
    moreover have "sleep_same k k'"
    proof (rule sleep_same_trans)
      have "sleep_same ?k2 ?k3" using relinked_sleep [OF t'(3) _ t'(4)] queue_ids(3) [OF k2 s(1)] by simp
      then show "sleep_same k ?k3" by (simp add: sleep_same_def)
      show "sleep_same ?k3 k'" using only_ready_sleep [OF k'(4) kinvD(2) [OF t'(2)]] .
    qed
    moreover have "kept k ?k3" using k(2) by (auto simp: kept_def procs_same_def running_def)
    then have "kept k k'" using only_ready_kept [OF k'(4)] by (rule kept_trans)
    moreover have "semtab k' = semtab ?k3" using k'(4) by (simp add: only_ready_def)
    then have "semtab k' = (semtab k)(s := (semtab k s)\<lparr>scount := ?n - 1\<rparr>)" by (simp only: f3 fun_eq_iff) simp
    ultimately show thesis using that [of k'] k' False by simp
  qed
qed

text \<open>The count of a semaphore matches its queue, whether its entry is in use or being freed.\<close>

definition count_ok :: "kern \<Rightarrow> int \<Rightarrow> bool" where
  "count_ok k s \<longleftrightarrow> -2147483648 \<le> scount (semtab k s) \<and> scount (semtab k s) < 2147483648 \<and>
     int (length (qitems (queuetab k) (sem_queue k s))) = (if scount (semtab k s) < 0 then - scount (semtab k s) else 0)"

lemma sem_ok_count: "sem_ok k s \<Longrightarrow> sused (semtab k s) \<Longrightarrow> count_ok k s"
  by (auto simp: sem_ok_def count_ok_def Let_def split: if_splits)

lemma count_sem_ok: "count_ok k s \<Longrightarrow> sused (semtab k s) \<or> scount (semtab k s) \<ge> 0 \<Longrightarrow> sem_ok k s"
  by (auto simp: sem_ok_def count_ok_def Let_def split: if_splits)

text \<open>\<open>k'\<close> is \<open>k\<close> with other counts, a shorter queue and perhaps another running process.\<close>

definition sem_step :: "int \<Rightarrow> sentry \<Rightarrow> int list \<Rightarrow> kern \<Rightarrow> kern \<Rightarrow> bool" where
  "sem_step s e L k k' \<longleftrightarrow> kinv {} k' \<and> ndefers k' = ndefers k \<and> semtab k' = (semtab k)(s := e) \<and> sem_queue k' = sem_queue k \<and>
     (\<forall>r \<in> {0..<NSEM}. qitems (queuetab k') (sem_queue k r) = (if r = s then L else qitems (queuetab k) (sem_queue k r))) \<and>
     (running k \<longrightarrow> running k') \<and> (ndefers k > 0 \<longrightarrow> currpid k' = currpid k) \<and>
     (attempt k \<and> ndefers k > 0 \<longrightarrow> attempt k') \<and> sleep_same k k' \<and> kept k k'"

lemma release_kinv:
  assumes k: "kinv {} k" and s: "s \<in> {0..<NSEM}" and L: "qitems (queuetab k) (sem_queue k s) = w # ws"
    and t': "kinv {w} (k\<lparr>queuetab := t'\<rparr>)" "relinked (queuetab k) t' (kqueues k) (sem_queue k s) ws"
    and keys: "\<And>x. qkey (t' x) = qkey (queuetab k x)"
  obtains k' where "ready w (k\<lparr>queuetab := t'\<rparr>) = Inr (OK_st, k')" "sem_step s (semtab k s) ws k k'"
    "prstate (proctab k' w) \<in> {PR_READY, PR_CURR}" "ndefers k > 0 \<Longrightarrow> attempt k'" "ndefers k \<le> 0 \<Longrightarrow> running k'"
    "ndefers k > 0 \<Longrightarrow> proctab k' = (proctab k)(w := (proctab k w)\<lparr>prstate := PR_READY\<rparr>)"
proof -
  let ?k = "k\<lparr>queuetab := t'\<rparr>"
  have w: "w \<in> set (qitems (queuetab k) (sem_queue k s))" using L by simp
  have wp: "w \<in> {0..<NPROC}" "prstate (proctab ?k w) \<noteq> PR_FREE"
    using queue_state(3,4) [OF k w] s by auto
  obtain k' where k': "ready w ?k = Inr (OK_st, k')" "kinv {} k'" "only_ready ?k k'" "ndefers k' = ndefers ?k"
    "ndefers ?k \<le> 0 \<Longrightarrow> running k'" "ndefers ?k > 0 \<Longrightarrow> currpid k' = currpid ?k \<and> attempt k'"
    "prstate (proctab k' w) \<in> {PR_READY, PR_CURR}"
    "ndefers ?k > 0 \<Longrightarrow> proctab k' = (proctab ?k)(w := (proctab ?k w)\<lparr>prstate := PR_READY\<rparr>)"
    using ready_spec [OF t'(1) wp] by metis
  have run: "running k'" if "running k"
  proof (cases "ndefers k > 0")
    case True
    have "prstate (proctab k w) = PR_WAIT" using queue_state(3) [OF k w] s by simp
    then have "w \<noteq> currpid k" using that by (auto simp: running_def)
    then show ?thesis using True k'(6,8) that by (simp add: running_def)
  qed (use k'(5) in simp)
  have q: "sem_queue ?k = sem_queue k" by (simp add: sem_queue_def fun_eq_iff)
  have "qitems (queuetab k') (sem_queue k r) = (if r = s then ws else qitems (queuetab k) (sem_queue k r))" if "r \<in> {0..<NSEM}" for r
    using sem_ok_only_ready(2,4) [OF k'(3) t'(1) that] sem_ok_relinked [OF k t'(2) s that] by (simp add: sem_abs_def q)
  moreover have "semtab k' = (semtab k)(s := semtab k s)" "sem_queue k' = sem_queue k"
    using sem_ok_only_ready(3,4) [OF k'(3) t'(1) s] by (simp_all add: q)
  moreover have "sleep_same k k'"
    using sleep_same_trans [OF relinked_sleep [OF t'(2) queue_ids(3) [OF k s] keys] only_ready_sleep [OF k'(3) kinvD(2) [OF t'(1)]]] .
  moreover have "kept k k'" using only_ready_kept [OF k'(3)] by simp
  ultimately have "sem_step s (semtab k s) ws k k'" using k' run by (simp add: sem_step_def)
  then show thesis using that [of k'] k' by simp
qed

lemma sem_step_count:
  assumes "sem_step s (semtab (set_count s c k) s) ws (set_count s c k) k'"
  shows "sem_step s ((semtab k s)\<lparr>scount := c\<rparr>) ws k k'"
proof -
  have "sleep_same (set_count s c k) k' = sleep_same k k'" by (simp add: sleep_same_def)
  moreover
  have "(semtab (set_count s c k))(s := semtab (set_count s c k) s) = (semtab k)(s := (semtab k s)\<lparr>scount := c\<rparr>)" by auto
  ultimately show ?thesis using assms by (simp add: sem_step_def)
qed

lemma signal_once_spec:
  assumes k: "kinv {} k" and s: "s \<in> {0..<NSEM}" "count_ok k s" and n: "scount (semtab k s) < 2147483647"
  obtains k' where "signal_once s k = Inr k'" "count_ok k' s" "sem_abs k' s = asem_signal (sem_abs k s)"
    "sem_step s ((semtab k s)\<lparr>scount := scount (semtab k s) + 1\<rparr>) (tl (qitems (queuetab k) (sem_queue k s))) k k'"
    "qitems (queuetab k) (sem_queue k s) \<noteq> [] \<Longrightarrow> prstate (proctab k' (hd (qitems (queuetab k) (sem_queue k s)))) \<in> {PR_READY, PR_CURR}"
proof -
  let ?n = "scount (semtab k s)" and ?L = "qitems (queuetab k) (sem_queue k s)"
  have i: "i32 (?n + 1) = ?n + 1" using s(2) n by (intro i32_in_range) (auto simp: count_ok_def)
  let ?k1 = "set_count s (?n + 1) k"
  have len: "int (length ?L) = (if ?n < 0 then - ?n else 0)" using s(2) by (simp add: count_ok_def)
  show thesis
  proof (cases "?n < 0")
    case False
    then have "?L = []" using len by simp
    moreover from this have "sem_abs ?k1 s = asem_signal (sem_abs k s)" using False by (simp add: sem_abs_def nat_add_distrib)
    moreover have "sem_step s ((semtab k s)\<lparr>scount := ?n + 1\<rparr>) (tl ?L) k ?k1"
      using k calculation(1) by (auto simp: sem_step_def)
    moreover have "signal_once s k = Inr ?k1" using False i by (simp add: signal_once_def Let_def)
    moreover have "count_ok ?k1 s" using s(2) n False calculation(1) by (simp add: count_ok_def)
    ultimately show thesis using that [of ?k1] by simp
  next
    case True
    then obtain w ws where L: "?L = w # ws" using len by (cases ?L) auto
    have k1: "kinv {} ?k1" and L1: "qitems (queuetab ?k1) (sem_queue ?k1 s) = w # ws" using k L by simp_all
    have mem: "sem_queue ?k1 s \<in> kqueues ?k1" using s(1) by simp
    obtain t' where t': "dequeue (sem_queue ?k1 s) ?k1 = (w, ?k1\<lparr>queuetab := t'\<rparr>)" "kinv {w} (?k1\<lparr>queuetab := t'\<rparr>)"
      "relinked (queuetab ?k1) t' (kqueues ?k1) (sem_queue ?k1 s) ws" "\<And>x. qkey (t' x) = qkey (queuetab ?k1 x)"
      using dequeue_kinv [OF k1 mem L1] by auto
    obtain k' where k': "ready w (?k1\<lparr>queuetab := t'\<rparr>) = Inr (OK_st, k')" "sem_step s (semtab ?k1 s) ws ?k1 k'"
      "prstate (proctab k' w) \<in> {PR_READY, PR_CURR}"
      using release_kinv [OF k1 s(1) L1 t'(2-4)] by blast
    have st: "sem_step s ((semtab k s)\<lparr>scount := ?n + 1\<rparr>) ws k k'" by (rule sem_step_count [OF k'(2)])
    then have items: "qitems (queuetab k') (sem_queue k' s) = ws" "semtab k' s = (semtab k s)\<lparr>scount := ?n + 1\<rparr>"
      using s(1) by (simp_all add: sem_step_def)
    have "signal_once s k = Inr k'"
      using True i t'(1) k'(1) by (simp add: signal_once_def Let_def sem_queue_def)
    moreover have "int (length ws) = - ?n - 1" using len L True by simp
    then have "count_ok k' s" using s(2) True unfolding count_ok_def items by simp
    moreover have "sem_abs k' s = asem_signal (sem_abs k s)" using L True by (simp add: sem_abs_def items)
    ultimately show thesis using that [of k'] st k'(3) L by simp
  qed
qed

text \<open>Releasing \<open>n\<close> times while rescheduling is deferred.\<close>

lemma sem_step_trans:
  assumes "sem_step s e L k k'" "sem_step s e' L' k' k''" "ndefers k > 0"
  shows "sem_step s e' L' k k''"
  using assms sleep_same_trans [of k k' k''] kept_trans [of k k' k''] by (simp add: sem_step_def)

lemma signaln_loop_spec:
  assumes k: "kinv {} k" "ndefers k > 0" and s: "s \<in> {0..<NSEM}" "count_ok k s"
    and n: "scount (semtab k s) + int n < 2147483648"
  shows "\<exists>k'. signaln_loop n s k = Inr k' \<and> kinv {} k' \<and> count_ok k' s \<and> sem_abs k' s = (asem_signal ^^ n) (sem_abs k s) \<and>
    sem_step s ((semtab k s)\<lparr>scount := scount (semtab k s) + int n\<rparr>) (drop n (qitems (queuetab k) (sem_queue k s))) k k'"
  using assms
proof (induction n arbitrary: k)
  case 0
  then show ?case by (auto simp: sem_step_def)
next
  case (Suc n)
  let ?e = "(semtab k s)\<lparr>scount := scount (semtab k s) + 1\<rparr>"
  have "scount (semtab k s) < 2147483647" using Suc.prems(5) by simp
  then obtain k1 where k1: "signal_once s k = Inr k1" "count_ok k1 s" "sem_abs k1 s = asem_signal (sem_abs k s)"
    "sem_step s ?e (tl (qitems (queuetab k) (sem_queue k s))) k k1"
    using signal_once_spec [OF Suc.prems(1,3,4)] by metis
  have f: "kinv {} k1" "ndefers k1 = ndefers k" "semtab k1 s = ?e" "sem_queue k1 = sem_queue k"
    "qitems (queuetab k1) (sem_queue k s) = tl (qitems (queuetab k) (sem_queue k s))"
    using k1(4) Suc.prems(3) by (simp_all add: sem_step_def)
  have "scount (semtab k1 s) + int n < 2147483648" using Suc.prems(5) f(3) by simp
  then obtain k' where k': "signaln_loop n s k1 = Inr k'" "kinv {} k'" "count_ok k' s" "sem_abs k' s = (asem_signal ^^ n) (sem_abs k1 s)"
    "sem_step s ((semtab k1 s)\<lparr>scount := scount (semtab k1 s) + int n\<rparr>) (drop n (qitems (queuetab k1) (sem_queue k1 s))) k1 k'"
    using Suc.IH [OF f(1) _ Suc.prems(3) k1(2)] f(2) Suc.prems(2) by auto
  have "sem_step s ((semtab k s)\<lparr>scount := scount (semtab k s) + int (Suc n)\<rparr>) (drop (Suc n) (qitems (queuetab k) (sem_queue k s))) k k'"
    using sem_step_trans [OF k1(4) k'(5) Suc.prems(2)] f by (simp add: drop_Suc add.assoc)
  moreover have "(asem_signal ^^ Suc n) (sem_abs k s) = sem_abs k' s" using k'(4) k1(3) by (simp add: funpow_swap1)
  ultimately show ?case using k1(1) k'(1-3) by auto
qed

text \<open>The beginning and the end of a deferral period.\<close>

lemma defer_start:
  assumes "ndefers k = 0"
  shows "resched_cntl DEFER_START k = Inr (OK_st, k\<lparr>ndefers := 1, attempt := False\<rparr>)"
  using assms by (simp add: resched_cntl_def DEFER_START_def Let_def)

lemma defer_kinv:
  "kinv X (k\<lparr>ndefers := n, attempt := a\<rparr>) = kinv X k" "kinv X (k\<lparr>ndefers := n\<rparr>) = kinv X k"
  by (rule kinv_cong; simp)+

lemma defer_stop:
  assumes k: "kinv {} k" "ndefers k = 1" and run: "running k \<or> attempt k"
  obtains k' where "resched_cntl DEFER_STOP k = Inr (OK_st, k')" "kinv {} k'" "running k'" "ndefers k' = 0"
    "only_ready k k'" "\<And>x. x \<noteq> currpid k \<Longrightarrow> x \<noteq> currpid k' \<Longrightarrow> proctab k' x = proctab k x"
proof -
  let ?k = "k\<lparr>ndefers := 0\<rparr>"
  have inv: "kinv {} ?k" using k(1) by (simp add: defer_kinv)
  have q: "kqueues ?k = kqueues k" by (rule kern_fields) simp_all
  have fr: "only_ready k ?k" by (simp add: only_ready_def)
  show thesis
  proof (cases "attempt k")
    case True
    obtain k' where k': "resched ?k = Inr k'" "kinv {} k'" "running k'" "only_ready ?k k'" "ndefers k' = ndefers ?k"
      "\<And>x. x \<noteq> currpid k \<Longrightarrow> x \<noteq> currpid k' \<Longrightarrow> proctab k' x = proctab k x"
      using resched_ok [OF inv] by auto
    have "only_ready k k'" using only_ready_trans [OF fr k'(4) kinvD(2) [OF k(1)]] .
    then show thesis using that [of k'] k' k(2) True by (simp add: resched_cntl_def DEFER_START_def DEFER_STOP_def Let_def)
  next
    case False
    then have "running ?k" using run by (simp add: running_def)
    then show thesis using that [of ?k] inv fr k(2) False by (simp add: resched_cntl_def DEFER_START_def DEFER_STOP_def Let_def)
  qed
qed

lemma signaln_spec:
  assumes k: "kinv {} k" "running k" "ndefers k = 0" "sems_ok k" and s: "s \<in> {0..<NSEM}" "sused (semtab k s)"
    and n: "0 \<le> n" "scount (semtab k s) + n < 2147483648"
  obtains k' where "signaln s n k = Inr (OK_st, k')" "kinv {} k'" "running k'" "ndefers k' = 0" "sems_ok k'"
    "sem_abs k' s = (asem_signal ^^ nat n) (sem_abs k s)" "\<And>r. r \<in> {0..<NSEM} \<Longrightarrow> r \<noteq> s \<Longrightarrow> sem_abs k' r = sem_abs k r"
    "sleep_same k k'" "kept k k'"
proof -
  let ?k0 = "k\<lparr>ndefers := 1, attempt := False\<rparr>"
  have q0: "sem_queue ?k0 = sem_queue k" by (simp add: sem_queue_def fun_eq_iff)
  have ok: "sem_ok k r" if "r \<in> {0..<NSEM}" for r using k(4) that by (simp add: sems_ok_def)
  have "count_ok ?k0 s" using sem_ok_count [OF ok [OF s(1)] s(2)] by (simp add: count_ok_def q0)
  then obtain k1 where k1: "signaln_loop (nat n) s ?k0 = Inr k1" "kinv {} k1" "count_ok k1 s"
    "sem_abs k1 s = (asem_signal ^^ nat n) (sem_abs ?k0 s)"
    "sem_step s ((semtab ?k0 s)\<lparr>scount := scount (semtab ?k0 s) + int (nat n)\<rparr>) (drop (nat n) (qitems (queuetab ?k0) (sem_queue ?k0 s))) ?k0 k1"
    using signaln_loop_spec [of ?k0 s "nat n"] k(1) s(1) n by (auto simp: defer_kinv)
  have "running ?k0" using k(2) by (simp add: running_def)
  then have f1: "ndefers k1 = 1" "semtab k1 = (semtab k)(s := (semtab k s)\<lparr>scount := scount (semtab k s) + n\<rparr>)" "sem_queue k1 = sem_queue k"
    "\<And>r. r \<in> {0..<NSEM} \<Longrightarrow> r \<noteq> s \<Longrightarrow> qitems (queuetab k1) (sem_queue k r) = qitems (queuetab k) (sem_queue k r)" "running k1"
    using k1(5) n(1) by (simp_all add: sem_step_def q0)
  obtain k' where k': "resched_cntl DEFER_STOP k1 = Inr (OK_st, k')" "kinv {} k'" "running k'" "ndefers k' = 0" "only_ready k1 k'"
    using defer_stop [OF k1(2) f1(1)] f1(5) by blast
  note oe = sem_ok_only_ready [OF k'(5) k1(2)]
  have bad: "\<not> isbadsem s" using s(1) by (simp add: isbadsem_iff)
  have abs1: "sem_abs k1 r = sem_abs k r" "sem_ok k1 r = sem_ok k r" if "r \<in> {0..<NSEM}" "r \<noteq> s" for r
    using f1(2-4) that by (simp_all add: sem_abs_def sem_ok_def)
  have "sem_ok k1 s" using count_sem_ok [OF k1(3)] s(2) f1(2) by simp
  then have "sem_ok k1 r" if "r \<in> {0..<NSEM}" for r using abs1(2) [OF that] ok [OF that] by (cases "r = s") auto
  then have "sems_ok k'" using oe(1) by (simp add: sems_ok_def)
  moreover have "signaln s n k = Inr (OK_st, k')"
    using bad n(1) s(2) defer_start [OF k(3)] k1(1) k'(1) by (simp add: signaln_def)
  moreover have "sem_abs k' s = (asem_signal ^^ nat n) (sem_abs k s)"
    using oe(2) [OF s(1)] k1(4) by (simp add: sem_abs_def q0)
  moreover have "sem_abs k' r = sem_abs k r" if "r \<in> {0..<NSEM}" "r \<noteq> s" for r
    using oe(2) [OF that(1)] abs1(1) [OF that] by simp
  moreover have "sleep_same k k1" "kept k k1" using k1(5) by (simp_all add: sem_step_def sleep_same_def)
  then have "sleep_same k k'" "kept k k'"
    using sleep_same_trans [OF _ only_ready_sleep [OF k'(5) kinvD(2) [OF k1(2)]]] kept_trans [OF _ only_ready_kept [OF k'(5)]] by simp_all
  ultimately show thesis using that [of k'] k' by simp
qed

lemma signal_spec:
  assumes k: "kinv {} k" "running k" "ndefers k \<le> 0" "sems_ok k" and s: "s \<in> {0..<NSEM}" "sused (semtab k s)"
    and n: "scount (semtab k s) < 2147483647"
  obtains k' where "signal s k = Inr (OK_st, k')" "kinv {} k'" "running k'" "ndefers k' = ndefers k" "sems_ok k'"
    "sem_abs k' s = asem_signal (sem_abs k s)" "\<And>r. r \<in> {0..<NSEM} \<Longrightarrow> r \<noteq> s \<Longrightarrow> sem_abs k' r = sem_abs k r"
    "sleep_same k k'" "kept k k'"
    "qitems (queuetab k) (sem_queue k s) \<noteq> [] \<Longrightarrow> prstate (proctab k' (hd (qitems (queuetab k) (sem_queue k s)))) \<in> {PR_READY, PR_CURR}"
    "semtab k' = (semtab k)(s := (semtab k s)\<lparr>scount := scount (semtab k s) + 1\<rparr>)"
proof -
  have ok: "sem_ok k r" if "r \<in> {0..<NSEM}" for r using k(4) that by (simp add: sems_ok_def)
  obtain k' where k': "signal_once s k = Inr k'" "count_ok k' s" "sem_abs k' s = asem_signal (sem_abs k s)"
    "sem_step s ((semtab k s)\<lparr>scount := scount (semtab k s) + 1\<rparr>) (tl (qitems (queuetab k) (sem_queue k s))) k k'"
    "qitems (queuetab k) (sem_queue k s) \<noteq> [] \<Longrightarrow> prstate (proctab k' (hd (qitems (queuetab k) (sem_queue k s)))) \<in> {PR_READY, PR_CURR}"
    using signal_once_spec [OF k(1) s(1) sem_ok_count [OF ok [OF s(1)] s(2)] n] by metis
  have other: "sem_abs k' r = sem_abs k r" "sem_ok k' r = sem_ok k r" if "r \<in> {0..<NSEM}" "r \<noteq> s" for r
    using k'(4) that by (simp_all add: sem_step_def sem_abs_def sem_ok_def)
  have e: "semtab k' = (semtab k)(s := (semtab k s)\<lparr>scount := scount (semtab k s) + 1\<rparr>)" using k'(4) by (simp add: sem_step_def)
  then have "sem_ok k' s" using count_sem_ok [OF k'(2)] s(2) by simp
  then have "sem_ok k' r" if "r \<in> {0..<NSEM}" for r using other(2) [OF that] ok [OF that] by (cases "r = s") auto
  then have "sems_ok k'" by (simp add: sems_ok_def)
  moreover have "signal s k = Inr (OK_st, k')" using s isbadsem_iff [of s] k'(1) by (simp add: signal_def)
  ultimately show thesis using that [of k'] k' other(1) k(2) e by (simp add: sem_step_def)
qed

lemma getfirst_kinv:
  assumes k: "kinv X k" "q \<in> kqueues k" "qitems (queuetab k) q = p # ps"
  obtains t' where "getfirst q k = (p, k\<lparr>queuetab := t'\<rparr>)" "kinv (insert p X) (k\<lparr>queuetab := t'\<rparr>)"
    "relinked (queuetab k) t' (kqueues k) q ps" "\<And>x. qkey (t' x) = qkey (queuetab k x)"
proof -
  obtain t' where t': "getfirst q k = (p, k\<lparr>queuetab := t'\<rparr>)" "queues_ok t' ((qitems (queuetab k))(q := ps)) (kqueues k)"
    "\<And>x. qkey (t' x) = qkey (queuetab k x)"
    using getfirst_spec [of k "qitems (queuetab k)" "kqueues k" q p ps] kinvD(1) [OF k(1)] k(2,3) by (auto simp: qtable_ok_def)
  have r: "relinked (queuetab k) t' (kqueues k) q ([] @ ps)" using relinkedI [OF t'(2)] by simp
  have "kinv (insert p X) (k\<lparr>queuetab := t'\<rparr>)"
    by (rule kinv_take [OF k(1,2) _ r]) (use k(3) t'(3) in auto)
  then show thesis using that t' r by simp
qed

definition make_ready :: "int set \<Rightarrow> (int \<Rightarrow> procent) \<Rightarrow> int \<Rightarrow> procent" where
  "make_ready ps f = (\<lambda>p. if p \<in> ps then (f p)\<lparr>prstate := PR_READY\<rparr> else f p)"

lemma make_ready_step: "make_ready (set ws) (f(w := (f w)\<lparr>prstate := PR_READY\<rparr>)) = make_ready (insert w (set ws)) f"
  by (auto simp: make_ready_def)

lemma semreset_loop_spec:
  assumes "kinv {} k" "ndefers k > 0" "s \<in> {0..<NSEM}" "qitems (queuetab k) (sem_queue k s) = L"
  shows "\<exists>k'. semreset_loop (sem_queue k s) k = Some (Inr k') \<and> sem_step s (semtab k s) [] k k' \<and>
    proctab k' = make_ready (set L) (proctab k)"
  using assms
proof (induction L arbitrary: k)
  case Nil
  have "getfirst (sem_queue k s) k = (EMPTY, k)"
    using getfirst_empty [of k "qitems (queuetab k)" "kqueues k"] kinvD(1) [OF Nil(1)] Nil(3,4) by (simp add: qtable_ok_def)
  moreover have "sem_step s (semtab k s) [] k k" using Nil by (simp add: sem_step_def)
  ultimately show ?case by (subst semreset_loop.simps) (auto simp: make_ready_def)
next
  case (Cons w ws)
  have mem: "sem_queue k s \<in> kqueues k" using Cons.prems(3) by simp
  obtain t' where t': "getfirst (sem_queue k s) k = (w, k\<lparr>queuetab := t'\<rparr>)" "kinv {w} (k\<lparr>queuetab := t'\<rparr>)"
    "relinked (queuetab k) t' (kqueues k) (sem_queue k s) ws" "\<And>x. qkey (t' x) = qkey (queuetab k x)"
    using getfirst_kinv [OF Cons.prems(1) mem Cons.prems(4)] by auto
  have "w \<noteq> EMPTY" using queue_state(4) [OF Cons.prems(1) _ mem, of w] Cons.prems(4) by (auto simp: EMPTY_def)
  obtain k1 where k1: "ready w (k\<lparr>queuetab := t'\<rparr>) = Inr (OK_st, k1)" "sem_step s (semtab k s) ws k k1"
    "proctab k1 = (proctab k)(w := (proctab k w)\<lparr>prstate := PR_READY\<rparr>)"
    using release_kinv [OF Cons.prems(1,3,4) t'(2-4)] Cons.prems(2) by metis
  have f: "kinv {} k1" "ndefers k1 > 0" "sem_queue k1 = sem_queue k" "semtab k1 s = semtab k s" "qitems (queuetab k1) (sem_queue k1 s) = ws"
    using k1(2) Cons.prems(2,3) by (simp_all add: sem_step_def)
  obtain k' where k': "semreset_loop (sem_queue k1 s) k1 = Some (Inr k')" "sem_step s (semtab k1 s) [] k1 k'"
    "proctab k' = make_ready (set ws) (proctab k1)"
    using Cons.IH [OF f(1,2) Cons.prems(3) f(5)] by blast
  have "semreset_loop (sem_queue k s) k = Some (Inr k')"
    using t'(1) k1(1) k'(1) f(3) \<open>w \<noteq> EMPTY\<close> by (subst semreset_loop.simps) simp
  moreover have "sem_step s (semtab k s) [] k k'" using sem_step_trans [OF k1(2) k'(2) Cons.prems(2)] f(4) by simp
  ultimately show ?case using k'(3) k1(3) by (auto simp: make_ready_step)
qed

lemma semdelete_loop_spec:
  assumes "kinv {} k" "ndefers k > 0" "s \<in> {0..<NSEM}" "count_ok k s" "qitems (queuetab k) (sem_queue k s) = L"
    and "scount (semtab k s) < 2147483647"
  shows "\<exists>k' c. semdelete_loop s k = Some (Inr k') \<and> 0 \<le> c \<and> c < 2147483648 \<and> sem_step s ((semtab k s)\<lparr>scount := c\<rparr>) [] k k' \<and>
    proctab k' = make_ready (set L) (proctab k)"
  using assms
proof (induction L arbitrary: k)
  case Nil
  let ?n = "scount (semtab k s)"
  have n: "0 \<le> ?n" using Nil(4,5) by (auto simp: count_ok_def split: if_splits)
  have i: "i32 (?n + 1) = ?n + 1" using n Nil(6) by simp
  let ?k = "set_count s (?n + 1) k"
  have "semdelete_loop s k = Some (Inr ?k)" using n i by (subst semdelete_loop.simps) (simp add: Let_def)
  moreover have "sem_step s ((semtab k s)\<lparr>scount := ?n + 1\<rparr>) [] k ?k" using Nil by (auto simp: sem_step_def)
  ultimately show ?case using n Nil(6) by (intro exI [of _ ?k] exI [of _ "?n + 1"]) (auto simp: make_ready_def)
next
  case (Cons w ws)
  let ?n = "scount (semtab k s)"
  have n: "?n < 0" "int (length ws) = - ?n - 1" using Cons.prems(4,5) by (auto simp: count_ok_def split: if_splits)
  have i: "i32 (?n + 1) = ?n + 1" using n Cons.prems(4) by (intro i32_in_range) (auto simp: count_ok_def)
  let ?k = "set_count s (?n + 1) k"
  have k0: "kinv {} ?k" "qitems (queuetab ?k) (sem_queue ?k s) = w # ws" using Cons.prems by simp_all
  have mem: "sem_queue ?k s \<in> kqueues ?k" using Cons.prems(3) by simp
  obtain t' where t': "getfirst (sem_queue ?k s) ?k = (w, ?k\<lparr>queuetab := t'\<rparr>)" "kinv {w} (?k\<lparr>queuetab := t'\<rparr>)"
    "relinked (queuetab ?k) t' (kqueues ?k) (sem_queue ?k s) ws" "\<And>x. qkey (t' x) = qkey (queuetab ?k x)"
    using getfirst_kinv [OF k0(1) mem k0(2)] by auto
  obtain k1 where k1: "ready w (?k\<lparr>queuetab := t'\<rparr>) = Inr (OK_st, k1)" "sem_step s (semtab ?k s) ws ?k k1"
    "proctab k1 = (proctab ?k)(w := (proctab ?k w)\<lparr>prstate := PR_READY\<rparr>)"
    using release_kinv [OF k0(1) Cons.prems(3) k0(2) t'(2-4)] Cons.prems(2) by auto
  have st: "sem_step s ((semtab k s)\<lparr>scount := ?n + 1\<rparr>) ws k k1" by (rule sem_step_count [OF k1(2)])
  then have f: "kinv {} k1" "ndefers k1 > 0" "sem_queue k1 = sem_queue k" "semtab k1 s = (semtab k s)\<lparr>scount := ?n + 1\<rparr>"
    "qitems (queuetab k1) (sem_queue k1 s) = ws"
    using Cons.prems(2,3) by (simp_all add: sem_step_def)
  have "count_ok k1 s" using Cons.prems(4) n unfolding count_ok_def f(4,5) by simp
  moreover have "scount (semtab k1 s) < 2147483647" using f(4) n by simp
  ultimately obtain k' c where k': "semdelete_loop s k1 = Some (Inr k')" "0 \<le> c" "c < 2147483648"
    "sem_step s ((semtab k1 s)\<lparr>scount := c\<rparr>) [] k1 k'" "proctab k' = make_ready (set ws) (proctab k1)"
    using Cons.IH [OF f(1,2) Cons.prems(3) _ f(5)] by blast
  have "semdelete_loop s k = Some (Inr k')"
    using t'(1) k1(1) k'(1) n(1) i by (subst semdelete_loop.simps) (simp add: Let_def sem_queue_def)
  moreover have "sem_step s ((semtab k s)\<lparr>scount := c\<rparr>) [] k k'" using sem_step_trans [OF st k'(4) Cons.prems(2)] f(4) by simp
  ultimately show ?case using k'(2,3,5) k1(3) by (intro exI [of _ k'] exI [of _ c]) (auto simp: make_ready_step)
qed

text \<open>The deferral period of \<open>semdelete\<close> and \<open>semreset\<close>: \<open>k0\<close> is the state at its start, \<open>k1\<close> at its end.\<close>

lemma drained:
  assumes k: "kinv {} k" "running k" and s: "s \<in> {0..<NSEM}"
    and k0: "kinv {} k0" "proctab k0 = proctab k" "queuetab k0 = queuetab k" "sem_queue k0 = sem_queue k" "currpid k0 = currpid k" "ndefers k0 = 1"
    and k1: "sem_step s e [] k0 k1" "proctab k1 = make_ready (set (qitems (queuetab k) (sem_queue k s))) (proctab k0)"
    and k2: "kinv {} k2" "proctab k2 = proctab k1" "currpid k2 = currpid k1" "ndefers k2 = ndefers k1"
  obtains k' where "resched_cntl DEFER_STOP k2 = Inr (OK_st, k')" "kinv {} k'" "running k'" "ndefers k' = 0" "only_ready k2 k'"
    "\<And>w. w \<in> set (qitems (queuetab k) (sem_queue k s)) \<Longrightarrow> prstate (proctab k' w) \<in> {PR_READY, PR_CURR}"
proof -
  have r0: "running k0" using k(2) k0 by (simp add: running_def)
  then have r2: "running k2" "ndefers k2 = 1" "currpid k2 = currpid k" using k1(1) k0(5,6) k2 by (auto simp: sem_step_def running_def)
  obtain k' where k': "resched_cntl DEFER_STOP k2 = Inr (OK_st, k')" "kinv {} k'" "running k'" "ndefers k' = 0" "only_ready k2 k'"
    "\<And>x. x \<noteq> currpid k2 \<Longrightarrow> x \<noteq> currpid k' \<Longrightarrow> proctab k' x = proctab k2 x"
    using defer_stop [OF k2(1) r2(2)] r2(1) by metis
  have "prstate (proctab k' w) \<in> {PR_READY, PR_CURR}" if w: "w \<in> set (qitems (queuetab k) (sem_queue k s))" for w
  proof (cases "w = currpid k'")
    case True
    then show ?thesis using k'(3) by (simp add: running_def)
  next
    case False
    have "prstate (proctab k w) = PR_WAIT" using queue_state(3) [OF k(1) w _ s] s by simp
    then have "w \<noteq> currpid k2" using k(2) r2(3) by (auto simp: running_def)
    then show ?thesis using k'(6) [OF _ False] k2(2) k1(2) w by (simp add: make_ready_def)
  qed
  then show thesis using that k' by blast
qed

lemma semreset_spec:
  assumes k: "kinv {} k" "running k" "ndefers k = 0" "sems_ok k" and s: "s \<in> {0..<NSEM}" "sused (semtab k s)"
    and n: "0 \<le> count" "count < 2147483648"
  obtains k' where "semreset s count k = Inr (OK_st, k')" "kinv {} k'" "running k'" "ndefers k' = 0" "sems_ok k'"
    "sem_abs k' s = (nat count, [])" "\<And>r. r \<in> {0..<NSEM} \<Longrightarrow> r \<noteq> s \<Longrightarrow> sem_abs k' r = sem_abs k r" "sused (semtab k' s)"
    "\<And>w. w \<in> set (qitems (queuetab k) (sem_queue k s)) \<Longrightarrow> prstate (proctab k' w) \<in> {PR_READY, PR_CURR}"
    "sleep_same k k'" "kept k k'" "semtab k' = (semtab k)(s := (semtab k s)\<lparr>scount := count\<rparr>)"
proof -
  let ?k0 = "k\<lparr>ndefers := 1, attempt := False\<rparr>"
  have q0: "sem_queue ?k0 = sem_queue k" by (simp add: sem_queue_def fun_eq_iff)
  have k0: "kinv {} ?k0" using k(1) by (simp add: defer_kinv)
  obtain k1 where k1: "semreset_loop (sem_queue ?k0 s) ?k0 = Some (Inr k1)" "sem_step s (semtab ?k0 s) [] ?k0 k1"
    "proctab k1 = make_ready (set (qitems (queuetab k) (sem_queue k s))) (proctab ?k0)"
    using semreset_loop_spec [OF k0 _ s(1), of "qitems (queuetab k) (sem_queue k s)"] by (auto simp: q0)
  let ?k2 = "set_count s count k1"
  have f: "kinv {} k1" "semtab k1 = semtab k" "sem_queue k1 = sem_queue k" "ndefers k1 = 1"
    "\<And>r. r \<in> {0..<NSEM} \<Longrightarrow> qitems (queuetab k1) (sem_queue k r) = (if r = s then [] else qitems (queuetab k) (sem_queue k r))"
    using k1(2) by (simp_all add: sem_step_def q0)
  obtain k' where k': "resched_cntl DEFER_STOP ?k2 = Inr (OK_st, k')" "kinv {} k'" "running k'" "ndefers k' = 0" "only_ready ?k2 k'"
    "\<And>w. w \<in> set (qitems (queuetab k) (sem_queue k s)) \<Longrightarrow> prstate (proctab k' w) \<in> {PR_READY, PR_CURR}"
    by (rule drained [OF k(1,2) s(1) k0 _ _ q0 _ _ k1(2,3), of ?k2]) (use f(1) in auto)
  have k2: "kinv {} ?k2" using f(1) by simp
  note oe = sem_ok_only_ready [OF k'(5) k2]
  have ok: "sem_ok ?k2 r" "sem_abs ?k2 r = (if r = s then (nat count, []) else sem_abs k r)" if "r \<in> {0..<NSEM}" for r
    using k(4) n f(5) [OF that] that by (auto simp: sems_ok_def sem_ok_def sem_abs_def f(2,3) Let_def)
  have "semreset s count k = Inr (OK_st, k')"
    using n(1) s isbadsem_iff [of s] defer_start [OF k(3)] k1(1) k'(1) by (simp add: semreset_def loop_res_def sem_queue_def)
  moreover have "sems_ok k'" using oe(1) ok(1) by (simp add: sems_ok_def)
  moreover have "sem_abs k' r = (if r = s then (nat count, []) else sem_abs k r)" if "r \<in> {0..<NSEM}" for r
    using oe(2) [OF that] ok(2) [OF that] by simp
  moreover have "sused (semtab k' s)" using oe(3) [OF s(1)] s(2) by (simp add: f(2))
  moreover have "semtab k' = (semtab k)(s := (semtab k s)\<lparr>scount := count\<rparr>)"
    using k'(5) by (simp add: only_ready_def f(2) set_count_def upd_sem_def)
  moreover have "sleep_same k ?k2" "kept k ?k2" using k1(2) by (simp_all add: sem_step_def sleep_same_def)
  then have "sleep_same k k'" "kept k k'"
    using sleep_same_trans [OF _ only_ready_sleep [OF k'(5) kinvD(2) [OF k2]]] kept_trans [OF _ only_ready_kept [OF k'(5)]] by simp_all
  ultimately show thesis using that [of k'] k' s(1) by simp
qed

lemma semdelete_spec:
  assumes k: "kinv {} k" "running k" "ndefers k = 0" "sems_ok k" and s: "s \<in> {0..<NSEM}" "sused (semtab k s)"
    and n: "scount (semtab k s) < 2147483647"
  obtains k' where "semdelete s k = Inr (OK_st, k')" "kinv {} k'" "running k'" "ndefers k' = 0" "sems_ok k'"
    "\<not> sused (semtab k' s)" "qitems (queuetab k') (sem_queue k' s) = []"
    "\<And>r. r \<in> {0..<NSEM} \<Longrightarrow> r \<noteq> s \<Longrightarrow> sem_abs k' r = sem_abs k r"
    "\<And>w. w \<in> set (qitems (queuetab k) (sem_queue k s)) \<Longrightarrow> prstate (proctab k' w) \<in> {PR_READY, PR_CURR}"
    "sleep_same k k'" "kept k k'"
proof -
  let ?kf = "upd_sem s (\<lambda>e. e\<lparr>sused := False\<rparr>) k"
  let ?k0 = "?kf\<lparr>ndefers := 1, attempt := False\<rparr>"
  have qf: "sem_queue ?kf = sem_queue k" "sem_queue ?k0 = sem_queue k" by (auto simp: sem_queue_def fun_eq_iff)
  have "kinv {} ?kf" using kinv_sem_cong(1) [of ?kf k "{}"] k(1) qf(1) by simp
  then have k0: "kinv {} ?k0" by (simp add: defer_kinv)
  have ok: "sem_ok k r" if "r \<in> {0..<NSEM}" for r using k(4) that by (simp add: sems_ok_def)
  have "count_ok ?k0 s" using sem_ok_count [OF ok [OF s(1)] s(2)] by (simp add: count_ok_def qf)
  then obtain k1 c where k1: "semdelete_loop s ?k0 = Some (Inr k1)" "0 \<le> c" "c < 2147483648"
    "sem_step s ((semtab ?k0 s)\<lparr>scount := c\<rparr>) [] ?k0 k1"
    "proctab k1 = make_ready (set (qitems (queuetab k) (sem_queue k s))) (proctab ?k0)"
    using semdelete_loop_spec [OF k0 _ s(1), of "qitems (queuetab k) (sem_queue k s)"] n by (auto simp: qf)
  have f: "kinv {} k1" "semtab k1 = (semtab k)(s := (semtab k s)\<lparr>sused := False, scount := c\<rparr>)" "sem_queue k1 = sem_queue k" "ndefers k1 = 1"
    "\<And>r. r \<in> {0..<NSEM} \<Longrightarrow> qitems (queuetab k1) (sem_queue k r) = (if r = s then [] else qitems (queuetab k) (sem_queue k r))"
    using k1(4) by (auto simp: sem_step_def qf fun_eq_iff)
  obtain k' where k': "resched_cntl DEFER_STOP k1 = Inr (OK_st, k')" "kinv {} k'" "running k'" "ndefers k' = 0" "only_ready k1 k'"
    "\<And>w. w \<in> set (qitems (queuetab k) (sem_queue k s)) \<Longrightarrow> prstate (proctab k' w) \<in> {PR_READY, PR_CURR}"
    by (rule drained [OF k(1,2) s(1) k0 _ _ qf(2) _ _ k1(4,5) f(1)]) auto
  note oe = sem_ok_only_ready [OF k'(5) f(1)]
  have ok1: "sem_ok k1 r" "r \<noteq> s \<Longrightarrow> sem_abs k1 r = sem_abs k r" if "r \<in> {0..<NSEM}" for r
    using ok [OF that] k1(2,3) f(5) [OF that] by (auto simp: sem_ok_def sem_abs_def f(2,3) Let_def)
  have "semdelete s k = Inr (OK_st, k')"
    using s isbadsem_iff [of s] defer_start [of ?kf] k(3) k1(1) k'(1) by (simp add: semdelete_def loop_res_def)
  moreover have "sems_ok k'" using oe(1) ok1(1) by (simp add: sems_ok_def)
  moreover have "sem_abs k' r = sem_abs k r" if "r \<in> {0..<NSEM}" "r \<noteq> s" for r
    using oe(2) [OF that(1)] ok1(2) [OF that] by simp
  moreover have "\<not> sused (semtab k' s)" using oe(3) [OF s(1)] by (simp add: f(2))
  moreover have "qitems (queuetab k') (sem_queue k' s) = []" using oe(2,4) [OF s(1)] f(5) [OF s(1)] by (simp add: sem_abs_def f(3))
  moreover have "sleep_same k k1" "kept k k1" using k1(4) by (simp_all add: sem_step_def sleep_same_def)
  then have "sleep_same k k'" "kept k k'"
    using sleep_same_trans [OF _ only_ready_sleep [OF k'(5) kinvD(2) [OF f(1)]]] kept_trans [OF _ only_ready_kept [OF k'(5)]] by simp_all
  ultimately show thesis using that [of k'] k' by simp
qed

section \<open>Allocation\<close>

lemma newsem_loop_spec:
  assumes "nextsem k \<in> {0..<NSEM}"
  shows "case newsem_loop n k of (sem, k') \<Rightarrow> nextsem k' \<in> {0..<NSEM} \<and>
    (if \<exists>j < n. \<not> sused (semtab k ((nextsem k + int j) mod NSEM))
     then sem \<in> {0..<NSEM} \<and> \<not> sused (semtab k sem) \<and> k' = upd_sem sem (\<lambda>e. e\<lparr>sused := True\<rparr>) (k\<lparr>nextsem := nextsem k'\<rparr>)
     else sem = SYSERR_st \<and> k' = k\<lparr>nextsem := nextsem k'\<rparr>)"
  using assms
proof (induction n arbitrary: k)
  case (Suc n)
  let ?i = "nextsem k"
  define m where "m = (if ?i + 1 \<ge> NSEM then 0 else ?i + 1)"
  let ?k = "k\<lparr>nextsem := m\<rparr>"
  have i: "?i mod NSEM = ?i" "m = (?i + 1) mod NSEM" "m \<in> {0..<NSEM}"
    using Suc.prems by (cases "?i = 99"; simp add: NSEM_def m_def)+
  have shift: "(m + int j) mod NSEM = (?i + int (Suc j)) mod NSEM" for j
    unfolding i(2) by (simp add: mod_simps algebra_simps)
  have ex: "(\<exists>j < Suc n. \<not> sused (semtab k ((?i + int j) mod NSEM))) \<longleftrightarrow>
      \<not> sused (semtab k ?i) \<or> (\<exists>j < n. \<not> sused (semtab k ((m + int j) mod NSEM)))"
    unfolding shift Ex_less_Suc2 using i(1) by simp
  have unf: "newsem_loop (Suc n) k =
      (if \<not> sused (semtab k ?i) then (?i, upd_sem ?i (\<lambda>e. e\<lparr>sused := True\<rparr>) ?k) else newsem_loop n ?k)"
    by (simp add: Let_def m_def)
  show ?case
  proof (cases "sused (semtab k ?i)")
    case True
    have "nextsem ?k \<in> {0..<NSEM}" using i(3) by simp
    from Suc.IH [OF this] show ?thesis unfolding unf ex using True by (cases "newsem_loop n ?k") (auto split: if_splits)
  next
    case False
    have "nextsem (upd_sem ?i (\<lambda>e. e\<lparr>sused := True\<rparr>) ?k) = m" by simp
    then show ?thesis unfolding unf ex using False Suc.prems i(3) by simp
  qed
qed simp

lemma semcreate_spec:
  assumes k: "kinv {} k" "sems_ok k" "nextsem k \<in> {0..<NSEM}" and n: "0 \<le> count" "count < 2147483648"
  obtains sem k' where "semcreate count k = (sem, k')" "kinv {} k'" "sems_ok k'" "nextsem k' \<in> {0..<NSEM}" "running k' = running k"
    "sem = SYSERR_st \<Longrightarrow> (\<forall>s \<in> {0..<NSEM}. sused (semtab k s)) \<and> semtab k' = semtab k"
    "sem \<noteq> SYSERR_st \<Longrightarrow> sem \<in> {0..<NSEM} \<and> \<not> sused (semtab k sem) \<and> sused (semtab k' sem) \<and> sem_abs k' sem = (nat count, []) \<and>
       (\<forall>r. r \<noteq> sem \<longrightarrow> semtab k' r = semtab k r)"
    "queuetab k' = queuetab k" "proctab k' = proctab k" "ndefers k' = ndefers k"
proof -
  obtain sem k1 where k1: "newsem k = (sem, k1)" by (metis surj_pair)
  have all: "(\<exists>j < nat NSEM. \<not> sused (semtab k ((nextsem k + int j) mod NSEM))) \<longleftrightarrow> (\<exists>s \<in> {0..<NSEM}. \<not> sused (semtab k s))"
  proof
    assume "\<exists>s \<in> {0..<NSEM}. \<not> sused (semtab k s)"
    then obtain s where s: "s \<in> {0..<NSEM}" "\<not> sused (semtab k s)" by blast
    let ?j = "nat ((s - nextsem k) mod NSEM)"
    have "int ?j = (s - nextsem k) mod NSEM" by (simp add: NSEM_def)
    then have "(nextsem k + int ?j) mod NSEM = s mod NSEM" by (simp add: mod_simps)
    then have "(nextsem k + int ?j) mod NSEM = s" using s(1) by simp
    moreover have "?j < nat NSEM" by (simp add: NSEM_def nat_less_iff)
    ultimately show "\<exists>j < nat NSEM. \<not> sused (semtab k ((nextsem k + int j) mod NSEM))"
      using s(2) by (intro exI [of _ ?j]) simp
  qed (auto simp: NSEM_def)
  note sp = newsem_loop_spec [OF k(3), of "nat NSEM", folded newsem_def, unfolded k1 all, simplified]
  show thesis
  proof (cases "\<exists>s \<in> {0..<NSEM}. \<not> sused (semtab k s)")
    case False
    then obtain m where m: "sem = SYSERR_st" "k1 = k\<lparr>nextsem := m\<rparr>" "m \<in> {0..<NSEM}" using sp by auto
    have "semcreate count k = (sem, k1)" using k1 n(1) m(1) by (simp add: semcreate_def)
    moreover have "kinv {} k1" using k(1) by (subst kinv_cong [of _ k]) (simp_all add: m)
    moreover have "sems_ok k1" using k(2) by (simp add: sems_ok_def sem_ok_def sem_queue_def m Let_def)
    ultimately show thesis using that [of sem k1] m False by (simp add: running_def)
  next
    case True
    then obtain m where m: "sem \<in> {0..<NSEM}" "\<not> sused (semtab k sem)" "k1 = upd_sem sem (\<lambda>e. e\<lparr>sused := True\<rparr>) (k\<lparr>nextsem := m\<rparr>)"
      "m \<in> {0..<NSEM}" using sp by auto
    let ?k' = "set_count sem count k1"
    have q1: "sem_queue k1 = sem_queue k" by (auto simp: sem_queue_def fun_eq_iff m(3))
    have q: "sem_queue ?k' = sem_queue k" by (simp add: q1)
    have st: "semtab ?k' r = (if r = sem then (semtab k sem)\<lparr>sused := True, scount := count\<rparr> else semtab k r)" for r
      by (simp add: m(3))
    have qt: "queuetab k1 = queuetab k" by (simp add: m(3))
    have e: "sem \<noteq> SYSERR_st" using m(1) by (auto simp: SYSERR_st_def)
    have L: "qitems (queuetab k) (sem_queue k sem) = []" using k(2) m(1,2) by (auto simp: sems_ok_def sem_ok_def Let_def)
    have "semcreate count k = (sem, ?k')" using k1 n(1) e by (simp add: semcreate_def)
    moreover have "kinv {} ?k'" using kinv_sem_cong(1) [of ?k' k "{}"] k(1) q m(3) by simp
    moreover have "sem_ok ?k' r" if "r \<in> {0..<NSEM}" for r
      using k(2) that n L by (auto simp: sems_ok_def sem_ok_def q1 qt st Let_def simp del: set_count_sel(3))
    then have "sems_ok ?k'" by (simp add: sems_ok_def)
    moreover have "sem_abs ?k' sem = (nat count, [])" using L by (simp add: sem_abs_def q1 qt)
    ultimately show thesis using that [of sem ?k'] m e by (simp add: running_def)
  qed
qed

section \<open>What semaphores guarantee\<close>

text \<open>C4: \<open>wait\<close> and \<open>signal\<close> implement a semaphore of tokens and waiting processes, although the table has one
  signed count and a queue: \<open>wait\<close> takes a token, or puts the caller behind those that wait and lets another process
  run; \<open>signal\<close> adds a token, or releases the process that has waited longest. Both keep the invariants of the kernel
  and of all semaphores.\<close>

theorem semaphore_refines_tokens:
  assumes "kinv {} k" "running k" "ndefers k \<le> 0" "sems_ok k" "s \<in> {0..<NSEM}" "sused (semtab k s)"
    and "currpid k \<noteq> NULLPROC" "scount (semtab k s) > -2147483648" "scount (semtab k s) < 2147483647"
  shows "(\<exists>k'. wait s k = Inr (OK_st, k') \<and> kinv {} k' \<and> running k' \<and> sems_ok k' \<and>
      sem_abs k' s = asem_wait (currpid k) (sem_abs k s) \<and>
      (if scount (semtab k s) > 0 then currpid k' = currpid k else prstate (proctab k' (currpid k)) = PR_WAIT)) \<and>
    (\<exists>k'. signal s k = Inr (OK_st, k') \<and> kinv {} k' \<and> running k' \<and> sems_ok k' \<and>
      sem_abs k' s = asem_signal (sem_abs k s))"
proof
  show "\<exists>k'. signal s k = Inr (OK_st, k') \<and> kinv {} k' \<and> running k' \<and> sems_ok k' \<and> sem_abs k' s = asem_signal (sem_abs k s)"
    using signal_spec [OF assms(1-6,9)] by metis
  show "\<exists>k'. wait s k = Inr (OK_st, k') \<and> kinv {} k' \<and> running k' \<and> sems_ok k' \<and>
      sem_abs k' s = asem_wait (currpid k) (sem_abs k s) \<and>
      (if scount (semtab k s) > 0 then currpid k' = currpid k else prstate (proctab k' (currpid k)) = PR_WAIT)"
    by (rule wait_spec [OF assms(1-8)]) (auto simp: not_less)
qed

primrec signals :: "nat \<Rightarrow> int \<Rightarrow> kern \<Rightarrow> kern res" where
  "signals 0 s k = Inr k"
| "signals (Suc n) s k = bind_res (signal s k) (\<lambda>(_, k). signals n s k)"

lemma signals_spec:
  assumes "kinv {} k" "running k" "ndefers k = 0" "sems_ok k" "s \<in> {0..<NSEM}" "sused (semtab k s)"
    and "scount (semtab k s) + int n < 2147483648"
  shows "\<exists>k'. signals n s k = Inr k' \<and> running k' \<and> sem_abs k' s = (asem_signal ^^ n) (sem_abs k s) \<and>
    (\<forall>r \<in> {0..<NSEM}. r \<noteq> s \<longrightarrow> sem_abs k' r = sem_abs k r)"
  using assms
proof (induction n arbitrary: k)
  case (Suc n)
  have n1: "scount (semtab k s) < 2147483647" using Suc.prems(7) by simp
  obtain k1 where k1: "signal s k = Inr (OK_st, k1)" "kinv {} k1" "running k1" "ndefers k1 = ndefers k" "sems_ok k1"
    "sem_abs k1 s = asem_signal (sem_abs k s)" "\<And>r. r \<in> {0..<NSEM} \<Longrightarrow> r \<noteq> s \<Longrightarrow> sem_abs k1 r = sem_abs k r"
    "semtab k1 = (semtab k)(s := (semtab k s)\<lparr>scount := scount (semtab k s) + 1\<rparr>)"
    using signal_spec [OF Suc.prems(1,2) _ Suc.prems(4-6) n1] Suc.prems(3) by (metis order_refl)
  have "sused (semtab k1 s)" "scount (semtab k1 s) + int n < 2147483648" "ndefers k1 = 0"
    using k1(4,8) Suc.prems(3,6,7) by simp_all
  then obtain k' where "signals n s k1 = Inr k'" "running k'" "sem_abs k' s = (asem_signal ^^ n) (sem_abs k1 s)"
    "\<forall>r \<in> {0..<NSEM}. r \<noteq> s \<longrightarrow> sem_abs k' r = sem_abs k1 r"
    using Suc.IH [OF k1(2,3) _ k1(5) Suc.prems(5)] by blast
  then show ?case using k1(1,6,7) by (auto simp: funpow_swap1)
qed simp

text \<open>C27: \<open>signaln\<close>, which defers rescheduling until all its increments are done, has the same effect on every
  semaphore as the same number of single signals, each of which may switch to another process: the same tokens
  and the same processes still waiting in the same order. Both end with a running process.\<close>

theorem signaln_equals_signals:
  assumes "kinv {} k" "running k" "ndefers k = 0" "sems_ok k" "s \<in> {0..<NSEM}" "sused (semtab k s)"
    and "0 \<le> n" "scount (semtab k s) + n < 2147483648" "r \<in> {0..<NSEM}"
  shows "\<exists>k1 k2. signaln s n k = Inr (OK_st, k1) \<and> signals (nat n) s k = Inr k2 \<and> running k1 \<and> running k2 \<and> sem_abs k1 r = sem_abs k2 r"
proof -
  obtain k1 where k1: "signaln s n k = Inr (OK_st, k1)" "running k1"
    "sem_abs k1 s = (asem_signal ^^ nat n) (sem_abs k s)" "r \<noteq> s \<Longrightarrow> sem_abs k1 r = sem_abs k r"
    using signaln_spec [OF assms(1-8)] assms(9) by metis
  have "scount (semtab k s) + int (nat n) < 2147483648" using assms(7,8) by simp
  then obtain k2 where k2: "signals (nat n) s k = Inr k2" "running k2" "sem_abs k2 s = (asem_signal ^^ nat n) (sem_abs k s)"
    "r \<noteq> s \<longrightarrow> sem_abs k2 r = sem_abs k r"
    using signals_spec [OF assms(1-6)] assms(9) by blast
  show ?thesis using k1 k2 by (cases "r = s") auto
qed

text \<open>C28: \<open>semdelete\<close> ends, frees the entry, and leaves nobody behind: every process that waited on the semaphore is
  ready or running afterwards, its queue is empty, and the other semaphores are unchanged.\<close>

theorem semdelete_releases_all:
  assumes "kinv {} k" "running k" "ndefers k = 0" "sems_ok k" "s \<in> {0..<NSEM}" "sused (semtab k s)"
    and "scount (semtab k s) < 2147483647"
  shows "\<exists>k'. semdelete s k = Inr (OK_st, k') \<and> kinv {} k' \<and> running k' \<and> sems_ok k' \<and> \<not> sused (semtab k' s) \<and>
    qitems (queuetab k') (sem_queue k' s) = [] \<and>
    (\<forall>w \<in> set (qitems (queuetab k) (sem_queue k s)). prstate (proctab k' w) \<in> {PR_READY, PR_CURR}) \<and>
    (\<forall>r \<in> {0..<NSEM}. r \<noteq> s \<longrightarrow> sem_abs k' r = sem_abs k r)"
  using semdelete_spec [OF assms] by metis

section \<open>The concrete kernel\<close>

lemma demo_sems: "sems_ok (demo_kern prio)" "sused (semtab (demo_kern prio) s)" "scount (semtab (demo_kern prio) s) = 0"
proof -
  have q: "sem_queue (demo_kern prio) s = 100 + 2 * s" "queuetab (demo_kern prio) = demo_table"
    "sused (semtab (demo_kern prio) s)" "scount (semtab (demo_kern prio) s) = 0" for s
    by (simp_all add: demo_kern_def sem_queue_def)
  have "qitems demo_table (sem_queue (demo_kern prio) s) = []" if "s \<in> {0..<NSEM}" for s
    using demo_items [OF kqueues_mem(3) [OF that, of "demo_kern prio"]] that by (simp add: q NSEM_def)
  then show "sems_ok (demo_kern prio)" by (simp add: sems_ok_def sem_ok_def q(2,4))
  show "sused (semtab (demo_kern prio) s)" "scount (semtab (demo_kern prio) s) = 0" by (rule q)+
qed

theorem semaphore_refines_tokens_witness:
  "(\<exists>k'. wait 7 (demo_kern 20) = Inr (OK_st, k') \<and> running k' \<and> prstate (proctab k' 3) = PR_WAIT) \<and>
   (\<exists>k'. signal 7 (demo_kern 20) = Inr (OK_st, k') \<and> running k')"
  using semaphore_refines_tokens [of "demo_kern 20" 7] demo_kinv [of 20] demo_sel [of 20] demo_sems [of 20]
  by (auto simp: NSEM_def NULLPROC_def)

theorem signaln_equals_signals_witness:
  "\<exists>k1 k2. signaln 7 2 (demo_kern 20) = Inr (OK_st, k1) \<and> signals 2 7 (demo_kern 20) = Inr k2 \<and> sem_abs k1 7 = sem_abs k2 7"
  using signaln_equals_signals [of "demo_kern 20" 7 2 7] demo_kinv [of 20] demo_sel [of 20] demo_sems [of 20]
  by (auto simp: NSEM_def)

theorem semdelete_releases_all_witness:
  "\<exists>k'. semdelete 7 (demo_kern 20) = Inr (OK_st, k') \<and> running k' \<and> \<not> sused (semtab k' 7)"
  using semdelete_releases_all [of "demo_kern 20" 7] demo_kinv [of 20] demo_sel [of 20] demo_sems [of 20]
  by (auto simp: NSEM_def)

end
