(* ===== verification/Timing.thy ===== *)
theory Timing
  imports Semaphores
begin

text \<open>
  Messages, sleeping and the clock (\<^verbatim>\<open>system/send.c\<close>, \<^verbatim>\<open>receive.c\<close>, \<^verbatim>\<open>recvclr.c\<close>, \<^verbatim>\<open>recvtime.c\<close>,
  \<^verbatim>\<open>sleep.c\<close>, \<^verbatim>\<open>wakeup.c\<close>, \<^verbatim>\<open>clkhandler.c\<close>). A blocking call is split at its context switch: the first part
  returns \<open>None\<close> when the caller has been taken off the processor, and \<open>receive_return\<close>, \<open>recvtime_return\<close> are what
  it does when it runs again. The sleep queue is a delta list; the specification is the list of the sleeping
  processes with their remaining ticks (\<open>dues\<close>).
\<close>

definition TIMEOUT :: u32 where "TIMEOUT = - 3"
definition SYSERR_msg :: u32 where "SYSERR_msg = - 1"
definition OK_msg :: u32 where "OK_msg = 1"
definition MAXSECONDS :: int where "MAXSECONDS = 2147483"

definition send :: "int \<Rightarrow> u32 \<Rightarrow> kern \<Rightarrow> (int \<times> kern) res" where
  "send pid msg k =
     (if isbadpid k pid then Inr (SYSERR_st, k)
      else if prhasmsg (proctab k pid) then Inr (SYSERR_st, k)
      else
        let k = upd_proc pid (\<lambda>e. e\<lparr>prmsg := msg, prhasmsg := True\<rparr>) k in
        if prstate (proctab k pid) = PR_RECV then bind_res (ready pid k) (\<lambda>(_, k). Inr (OK_st, k))
        else if prstate (proctab k pid) = PR_RECTIM then
          bind_res (ready pid (snd (unsleep pid k))) (\<lambda>(_, k). Inr (OK_st, k))
        else Inr (OK_st, k))"

definition receive_return :: "int \<Rightarrow> kern \<Rightarrow> u32 \<times> kern" where
  "receive_return pid k = (prmsg (proctab k pid), upd_proc pid (\<lambda>e. e\<lparr>prhasmsg := False\<rparr>) k)"

definition receive :: "kern \<Rightarrow> (u32 option \<times> kern) res" where
  "receive k =
     (if \<not> prhasmsg (proctab k (currpid k)) then
        bind_res (resched (set_state (currpid k) PR_RECV k)) (\<lambda>k. Inr (None, k))
      else case receive_return (currpid k) k of (msg, k) \<Rightarrow> Inr (Some msg, k))"

definition recvclr :: "kern \<Rightarrow> u32 \<times> kern" where
  "recvclr k =
     (if prhasmsg (proctab k (currpid k)) then receive_return (currpid k) k else (OK_msg, k))"

definition recvtime_return :: "int \<Rightarrow> kern \<Rightarrow> u32 \<times> kern" where
  "recvtime_return pid k = (if prhasmsg (proctab k pid) then receive_return pid k else (TIMEOUT, k))"

definition recvtime :: "int \<Rightarrow> kern \<Rightarrow> (u32 option \<times> kern) res" where
  "recvtime maxwait k =
     (if maxwait < 0 then Inr (Some SYSERR_msg, k)
      else if \<not> prhasmsg (proctab k (currpid k)) then
        bind_res (insertd (currpid k) (sleepq k) maxwait k) (\<lambda>(st, k).
          if st = SYSERR_st then Inr (Some SYSERR_msg, k)
          else bind_res (resched (set_state (currpid k) PR_RECTIM k)) (\<lambda>k. Inr (None, k)))
      else case recvtime_return (currpid k) k of (msg, k) \<Rightarrow> Inr (Some msg, k))"

definition sleepms :: "int \<Rightarrow> kern \<Rightarrow> (int \<times> kern) res" where
  "sleepms delay k =
     (if delay < 0 then Inr (SYSERR_st, k)
      else if delay = 0 then yield k
      else
        bind_res (insertd (currpid k) (sleepq k) delay k) (\<lambda>(st, k).
          if st = SYSERR_st then Inr (SYSERR_st, k)
          else bind_res (resched (set_state (currpid k) PR_SLEEP k)) (\<lambda>k. Inr (OK_st, k))))"

definition sleep_s :: "int \<Rightarrow> kern \<Rightarrow> (int \<times> kern) res" where
  "sleep_s delay k =
     (if delay < 0 \<or> delay > MAXSECONDS then Inr (SYSERR_st, k)
      else bind_res (sleepms (1000 * delay) k) (\<lambda>(_, k). Inr (OK_st, k)))"

partial_function (option) wakeup_loop :: "kern \<Rightarrow> kern res option" where
  "wakeup_loop k =
     (if nonempty (queuetab k) (sleepq k) \<and> firstkey (queuetab k) (sleepq k) \<le> 0 then
        (case dequeue (sleepq k) k of (pid, k) \<Rightarrow>
         case ready pid k of Inl e \<Rightarrow> Some (Inl e) | Inr (_, k) \<Rightarrow> wakeup_loop k)
      else Some (Inr k))"

definition wakeup :: "kern \<Rightarrow> kern res" where
  "wakeup k =
     bind_res (resched_cntl DEFER_START k) (\<lambda>(_, k).
     bind_res (loop_res (wakeup_loop k)) (\<lambda>k.
     bind_res (resched_cntl DEFER_STOP k) (\<lambda>(_, k). Inr k)))"

text \<open>The clock handler up to the wake-up of sleepers, and its end. If the wake-up has switched to another
  process the end runs when the interrupted one is back (\<open>others\<close> is what happens in between); \<open>irq\<close> is the bit of
  the timer's interrupt status register.\<close>

definition clk_count :: "kern \<Rightarrow> kern" where
  "clk_count k =
     (let k = k\<lparr>count1000 := count1000 k - 1\<rparr> in
      if count1000 k \<le> 0 then k\<lparr>kclktime := kclktime k + 1, count1000 := 1000\<rparr> else k)"

definition clk_sleepers :: "kern \<Rightarrow> kern res" where
  "clk_sleepers k =
     (if \<not> isempty (queuetab k) (sleepq k) then
        let p = firstid (queuetab k) (sleepq k);
            key = i32 (qkey (queuetab k p) - 1);
            k = k\<lparr>queuetab := qset_key p key (queuetab k)\<rparr>
        in if key \<le> 0 then wakeup k else Inr k
      else Inr k)"

definition clk_preempt :: "kern \<Rightarrow> kern res" where
  "clk_preempt k =
     (let k = k\<lparr>preempt := preempt k - 1\<rparr> in
      if preempt k \<le> 0 then resched (k\<lparr>preempt := QUANTUM\<rparr>) else Inr k)"

definition clkhandler :: "bool \<Rightarrow> (kern \<Rightarrow> kern) \<Rightarrow> kern \<Rightarrow> kern res" where
  "clkhandler irq others k =
     (if \<not> irq then Inr k
      else bind_res (clk_sleepers (clk_count k)) (\<lambda>k'.
        clk_preempt (if currpid k' = currpid k then k' else others k')))"

lemma queuetab_upd_sel [simp]:
  "sem_queue (k\<lparr>queuetab := t\<rparr>) = sem_queue k" "kqueues (k\<lparr>queuetab := t\<rparr>) = kqueues k"
  by (simp_all add: sem_queue_def fun_eq_iff kqueues_def)

section \<open>Sleepers\<close>

definition kdues :: "kern \<Rightarrow> (int \<times> int) list" where
  "kdues k = dues (\<lambda>x. qkey (queuetab k x)) 0 (qitems (queuetab k) (sleepq k))"

definition kdelays_ok :: "kern \<Rightarrow> bool" where
  "kdelays_ok k \<longleftrightarrow> delays_ok (queuetab k) (qitems (queuetab k) (sleepq k))"

lemma dues_Nil_iff [simp]: "dues kf e ps = [] \<longleftrightarrow> ps = []"
  by (cases ps) auto

lemma dues_last: "ps \<noteq> [] \<Longrightarrow> snd (last (dues kf e ps)) = e + sum_list (map kf ps)"
  by (induction ps arbitrary: e) (auto simp: add.assoc)

lemma dues_bound:
  assumes "\<forall>x \<in> set ps. 0 \<le> kf x" "(x, d) \<in> set (dues kf e ps)"
  shows "e \<le> d \<and> d \<le> e + sum_list (map kf ps)"
  using assms
proof (induction ps arbitrary: e)
  case (Cons p ps)
  have "0 \<le> sum_list (map kf ps)" using Cons.prems(1) by (intro sum_list_nonneg) auto
  then show ?case using Cons.IH [of "e + kf p"] Cons.prems by fastforce
qed simp

lemma delays_ok_dues:
  assumes "\<forall>x \<in> set ps. 0 \<le> qkey (t x)" "\<forall>(x, d) \<in> set (dues (\<lambda>x. qkey (t x)) 0 ps). d < 2147483648"
  shows "delays_ok t ps"
proof (cases "ps = []")
  case False
  let ?l = "last (dues (\<lambda>x. qkey (t x)) 0 ps)"
  have "?l \<in> set (dues (\<lambda>x. qkey (t x)) 0 ps)" using False by (intro last_in_set) simp
  then have "snd ?l < 2147483648" using assms(2) by (auto simp: case_prod_beta)
  then show ?thesis using assms(1) dues_last [OF False, of "\<lambda>x. qkey (t x)" 0] by (simp add: delays_ok_def)
qed (simp add: delays_ok_def)

lemma add_timer_set: "set (add_timer p d ts) = insert (p, d) (set ts)"
proof -
  have "set ts = set (takeWhile (\<lambda>(_, e). e \<le> d) ts) \<union> set (dropWhile (\<lambda>(_, e). e \<le> d) ts)"
    by (metis set_append takeWhile_dropWhile_id)
  then show ?thesis by (auto simp: add_timer_def)
qed

lemma kdues_only_ready: "only_ready k k' \<Longrightarrow> queue_ids_ok k \<Longrightarrow> kdues k' = kdues k \<and> kdelays_ok k' = kdelays_ok k"
proof -
  assume a: "only_ready k k'" "queue_ids_ok k"
  have i: "qitems (queuetab k') (sleepq k') = qitems (queuetab k) (sleepq k)" "sleepq k' = sleepq k"
    using a by (auto simp: only_ready_def queue_ids_ok_def)
  have key: "\<forall>x \<in> set (qitems (queuetab k) (sleepq k)). qkey (queuetab k' x) = qkey (queuetab k x)"
    using a by (simp add: only_ready_def)
  have "sum_list (map (\<lambda>x. qkey (queuetab k' x)) (qitems (queuetab k) (sleepq k))) =
      sum_list (map (\<lambda>x. qkey (queuetab k x)) (qitems (queuetab k) (sleepq k)))"
    using key by (intro arg_cong [where f = sum_list] map_cong) auto
  moreover have "dues (\<lambda>x. qkey (queuetab k' x)) 0 (qitems (queuetab k) (sleepq k)) = dues (\<lambda>x. qkey (queuetab k x)) 0 (qitems (queuetab k) (sleepq k))"
    using key by (intro dues_cong) simp
  ultimately show ?thesis using key i by (simp add: kdues_def kdelays_ok_def delays_ok_def)
qed

text \<open>The caller enters the sleep queue, then its state is set, then another process runs.\<close>

lemma enter_sleepq:
  assumes k: "kinv {} k" "running k" "ndefers k \<le> 0" "kdelays_ok k" and c: "currpid k \<noteq> NULLPROC"
    and d: "0 \<le> d" "d < 2147483648" and st: "st \<in> {PR_SLEEP, PR_RECTIM}"
  obtains k1 k' where "insertd (currpid k) (sleepq k) d k = Inr (OK_st, k1)" "currpid k1 = currpid k"
    "resched (set_state (currpid k) st k1) = Inr k'" "kinv {} k'" "running k'" "ndefers k' = ndefers k"
    "kdues k' = add_timer (currpid k) d (kdues k)" "kdelays_ok k'" "prstate (proctab k' (currpid k)) = st"
    "\<And>s. s \<in> {0..<NSEM} \<Longrightarrow> sem_ok k' s = sem_ok k s" "kept k k'"
proof -
  let ?p = "currpid k" and ?q = "sleepq k" and ?t = "queuetab k"
  have p: "?p \<in> {0..<NPROC}" using kinvD(8) [OF k(1)] .
  have kp: "kinv {?p} k" using kinv_None [OF home_running [OF k(2)], of "{}" "{?p}"] k(1) by simp
  have me: "may_enqueue k (kqueues k) ?p"
    by (rule kinv_may_enqueue [OF kp p]) (use k(2) in \<open>auto simp: running_def\<close>)
  have keys: "\<forall>x \<in> set (qitems ?t ?q). 0 \<le> qkey (?t x) \<and> qkey (?t x) < 2147483648"
    using delays_okD k(4) by (auto simp: kdelays_ok_def)
  obtain t' A B where t': "insertd ?p ?q d k = Inr (OK_st, k\<lparr>queuetab := t'\<rparr>)" "qtable_ok t' (kqueues k)" "qitems ?t ?q = A @ B"
    "\<And>r. r \<in> kqueues k \<Longrightarrow> qitems t' r = ((qitems ?t)(?q := A @ ?p # B)) r"
    "dues (\<lambda>x. qkey (t' x)) 0 (qitems t' ?q) = add_timer ?p d (dues (\<lambda>x. qkey (?t x)) 0 (qitems ?t ?q))"
    "\<forall>x \<in> set (qitems t' ?q). 0 \<le> qkey (t' x) \<and> qkey (t' x) < 2147483648"
    "\<And>x. x \<notin> insert ?p (set (qitems ?t ?q)) \<Longrightarrow> qkey (t' x) = qkey (?t x)"
    using insertd_table [OF kinvD(1) [OF k(1)] kqueues_mem(2) me d keys] by blast
  let ?k1 = "k\<lparr>queuetab := t'\<rparr>" and ?s = "set_state ?p st k"
  let ?k2 = "set_state ?p st ?k1"
  have s1: "kinv {?p} ?s" by (rule kinv_set_state [OF kp]) (use st c in auto)
  have r: "relinked (queuetab ?s) t' (kqueues ?s) ?q (A @ ?p # B)" using t'(2,4) by (simp add: relinked_def)
  have "kinv ({?p} - {?p}) (?s\<lparr>queuetab := t'\<rparr>)"
    using queue_ids(1) [OF k(1)] st
    by (intro kinv_put [OF s1 p _ _ r]) (auto simp: home_def t'(3) intro!: t'(7))
  moreover have e: "?s\<lparr>queuetab := t'\<rparr> = ?k2" by (simp add: set_state_def upd_proc_def)
  ultimately have k2: "kinv {} ?k2" by simp
  have nr: "\<not> running ?k2" using st by (auto simp: running_def)
  obtain k' where k': "resched ?k2 = Inr k'" "kinv {} k'" "running k'" "only_ready ?k2 k'" "ndefers k' = ndefers ?k2"
    using resched_ok [OF k2] k(3) by auto
  have f: "sleepq ?k2 = ?q" "queuetab ?k2 = t'" by simp_all
  have dues2: "kdues ?k2 = add_timer ?p d (kdues k)" using t'(5) by (simp add: kdues_def)
  have "delays_ok t' (qitems t' ?q)"
  proof (rule delays_ok_dues)
    have "e < 2147483648" if "(x, e) \<in> set (kdues k)" for x e
      using dues_bound [of "qitems ?t ?q" "\<lambda>x. qkey (?t x)" x e 0] that keys k(4) by (auto simp: kdues_def kdelays_ok_def delays_ok_def)
    then show "\<forall>(x, e) \<in> set (dues (\<lambda>x. qkey (t' x)) 0 (qitems t' ?q)). e < 2147483648"
      unfolding t'(5) add_timer_set using d(2) by (auto simp: kdues_def)
  qed (use t'(6) in blast)
  then have "kdelays_ok ?k2" by (simp add: kdelays_ok_def)
  note kd = kdues_only_ready [OF k'(4) kinvD(2) [OF k2]]
  have "?p \<in> set (qitems (queuetab k') (sleepq k'))"
    using k'(4) t'(4) [of ?q] queue_ids(1) [OF k2] by (auto simp: only_ready_def)
  then have "prstate (proctab k' ?p) \<in> {PR_SLEEP, PR_RECTIM}" using queue_state(2) [OF k'(2)] by auto
  then have "?p \<noteq> currpid k'" using k'(3) by (auto simp: running_def)
  obtain k'' where k'': "resched ?k2 = Inr k''" "\<forall>x. x \<noteq> currpid k'' \<longrightarrow> proctab k'' x = proctab ?k2 x"
    using resched_ok [OF k2] k(3) nr by auto
  then have "prstate (proctab k' ?p) = st" using k'(1) \<open>?p \<noteq> currpid k'\<close> by simp
  moreover have "sem_ok k' s = sem_ok k s" if "s \<in> {0..<NSEM}" for s
  proof -
    have "sem_queue k s \<noteq> ?q" using queue_ids(3) [OF k(1) that] .
    moreover have "sem_queue ?k2 s = sem_queue k s" by (simp add: sem_queue_def)
    ultimately have "sem_ok ?k2 s = sem_ok k s" using t'(4) that by (simp add: sem_ok_def)
    then show ?thesis using sem_ok_only_ready(1) [OF k'(4) k2 that] by simp
  qed
  moreover have "kept k ?k2" using k(2) st by (auto simp: kept_def procs_same_def running_def proctab_set_state)
  then have "kept k k'" using only_ready_kept [OF k'(4)] by (rule kept_trans)
  ultimately show thesis using that [of ?k1 k'] t'(1) k' kd dues2 \<open>kdelays_ok ?k2\<close> by simp
qed

lemma sleepms_spec:
  assumes "kinv {} k" "running k" "ndefers k \<le> 0" "kdelays_ok k" "currpid k \<noteq> NULLPROC" "0 < d" "d < 2147483648"
  obtains k' where "sleepms d k = Inr (OK_st, k')" "kinv {} k'" "running k'" "ndefers k' = ndefers k"
    "kdues k' = add_timer (currpid k) d (kdues k)" "kdelays_ok k'" "prstate (proctab k' (currpid k)) = PR_SLEEP"
    "\<And>s. s \<in> {0..<NSEM} \<Longrightarrow> sem_ok k' s = sem_ok k s" "kept k k'"
proof -
  obtain k1 k' where k': "insertd (currpid k) (sleepq k) d k = Inr (OK_st, k1)" "currpid k1 = currpid k"
    "resched (set_state (currpid k) PR_SLEEP k1) = Inr k'" "kinv {} k'" "running k'" "ndefers k' = ndefers k"
    "kdues k' = add_timer (currpid k) d (kdues k)" "kdelays_ok k'" "prstate (proctab k' (currpid k)) = PR_SLEEP"
    "\<And>s. s \<in> {0..<NSEM} \<Longrightarrow> sem_ok k' s = sem_ok k s" "kept k k'"
    by (rule enter_sleepq [OF assms(1-5) _ assms(7), of PR_SLEEP]) (use assms(6) in auto)
  show thesis by (rule that [of k']) (use assms k' in \<open>auto simp: sleepms_def OK_st_def SYSERR_st_def\<close>)
qed

lemma recvtime_spec:
  assumes "kinv {} k" "running k" "ndefers k \<le> 0" "kdelays_ok k" "currpid k \<noteq> NULLPROC" "0 \<le> d" "d < 2147483648"
    and "\<not> prhasmsg (proctab k (currpid k))"
  obtains k' where "recvtime d k = Inr (None, k')" "kinv {} k'" "running k'" "ndefers k' = ndefers k"
    "kdues k' = add_timer (currpid k) d (kdues k)" "kdelays_ok k'" "prstate (proctab k' (currpid k)) = PR_RECTIM"
    "\<And>s. s \<in> {0..<NSEM} \<Longrightarrow> sem_ok k' s = sem_ok k s" "kept k k'"
proof -
  obtain k1 k' where k': "insertd (currpid k) (sleepq k) d k = Inr (OK_st, k1)" "currpid k1 = currpid k"
    "resched (set_state (currpid k) PR_RECTIM k1) = Inr k'" "kinv {} k'" "running k'" "ndefers k' = ndefers k"
    "kdues k' = add_timer (currpid k) d (kdues k)" "kdelays_ok k'" "prstate (proctab k' (currpid k)) = PR_RECTIM"
    "\<And>s. s \<in> {0..<NSEM} \<Longrightarrow> sem_ok k' s = sem_ok k s" "kept k k'"
    by (rule enter_sleepq [OF assms(1-5) _ assms(7), of PR_RECTIM]) (use assms(6) in auto)
  show thesis by (rule that [of k']) (use assms k' in \<open>auto simp: recvtime_def OK_st_def SYSERR_st_def\<close>)
qed

section \<open>The clock\<close>

lemma kinv_sleep_key:
  assumes k: "kinv X k" and p: "p \<in> set (qitems (queuetab k) (sleepq k))"
  shows "kinv X (k\<lparr>queuetab := qset_key p v (queuetab k)\<rparr>)"
    "\<And>r. r \<in> kqueues k \<Longrightarrow> qitems (qset_key p v (queuetab k)) r = qitems (queuetab k) r"
proof -
  let ?t = "queuetab k" let ?s = "qset_key p v ?t"
  have tok: "queues_ok ?t (qitems ?t) (kqueues k)" using kinvD(1) [OF k] by (simp add: qtable_ok_def)
  have pr: "p < NPROC" using queue_state(4) [OF k p kqueues_mem(2)] by simp
  have sok: "queues_ok ?s (qitems ?t) (kqueues k)"
  proof -
    have "queue_at ?s q (qitems ?t q)" if "q \<in> kqueues k" for q
    proof -
      have "qlinks ?s (qnodes q (qitems ?t q)) = qlinks ?t (qnodes q (qitems ?t q))" by (rule qlinks_cong) simp
      then show ?thesis using queues_okD [OF tok that] pr by (auto simp: queue_at_def)
    qed
    then show ?thesis using tok by (simp add: queues_ok_def)
  qed
  show items: "qitems ?s r = qitems ?t r" if "r \<in> kqueues k" for r using qitems_eq [OF sok that] .
  have hp: "home k p = Some (sleepq k)" using kinv_members [OF k kqueues_mem(2)] p by simp
  show "kinv X (k\<lparr>queuetab := ?s\<rparr>)"
  proof (rule kinv_requeue [OF k kqueues_mem(2) qtable_okI [OF sok]])
    show "qitems ?s r = ((qitems ?t)(sleepq k := qitems ?t (sleepq k))) r" if "r \<in> kqueues k" for r using items [OF that] by simp
    show "x \<in> set (qitems ?t (sleepq k)) \<longleftrightarrow> home k x = Some (sleepq k) \<and> x \<notin> X" if "x \<in> {0..<NPROC}" for x
      using kinvD(3) [OF k that kqueues_mem(2)] .
    show "qkey (?s x) = qkey (?t x)" if "home k x \<noteq> Some (sleepq k)" for x using that hp by auto
    show "sleepq k = readylist k \<Longrightarrow> ready_sorted ?s (sleepq k)" using queue_ids(1) [OF k] by simp
  qed simp
qed

lemma sleepq_first:
  assumes "kinv X k"
  shows "nonempty (queuetab k) (sleepq k) \<longleftrightarrow> qitems (queuetab k) (sleepq k) \<noteq> []"
    "isempty (queuetab k) (sleepq k) \<longleftrightarrow> qitems (queuetab k) (sleepq k) = []"
    "qitems (queuetab k) (sleepq k) = p # ps \<Longrightarrow> firstid (queuetab k) (sleepq k) = p"
proof -
  have tok: "queues_ok (queuetab k) (qitems (queuetab k)) (kqueues k)" using kinvD(1) [OF assms] by (simp add: qtable_ok_def)
  note f = firstid_queue [OF tok kqueues_mem(2)]
  show "isempty (queuetab k) (sleepq k) \<longleftrightarrow> qitems (queuetab k) (sleepq k) = []" using f(3) .
  then show "nonempty (queuetab k) (sleepq k) \<longleftrightarrow> qitems (queuetab k) (sleepq k) \<noteq> []"
    by (auto simp: nonempty_def isempty_def)
  show "qitems (queuetab k) (sleepq k) = p # ps \<Longrightarrow> firstid (queuetab k) (sleepq k) = p" using f(1) by simp
qed

text \<open>Everything but the ready list and the sleep queue is as before.\<close>

definition wake_step :: "int list \<Rightarrow> kern \<Rightarrow> kern \<Rightarrow> bool" where
  "wake_step L k k' \<longleftrightarrow> kinv {} k' \<and> ndefers k' = ndefers k \<and> sleepq k' = sleepq k \<and> currpid k' = currpid k \<and>
     qitems (queuetab k') (sleepq k) = L \<and> (\<forall>x \<in> set L. qkey (queuetab k' x) = qkey (queuetab k x)) \<and>
     (\<forall>s \<in> {0..<NSEM}. sem_ok k' s = sem_ok k s) \<and> (attempt k \<longrightarrow> attempt k') \<and> kept k k'"

lemma wakeup_loop_spec:
  assumes "kinv {} k" "ndefers k > 0" "qitems (queuetab k) (sleepq k) = L"
  shows "\<exists>k'. wakeup_loop k = Some (Inr k') \<and> wake_step (dropWhile (\<lambda>x. qkey (queuetab k x) \<le> 0) L) k k' \<and>
    proctab k' = make_ready (set (takeWhile (\<lambda>x. qkey (queuetab k x) \<le> 0) L)) (proctab k)"
  using assms
proof (induction L arbitrary: k)
  case Nil
  then show ?case using sleepq_first(1) [OF Nil(1)]
    by (subst wakeup_loop.simps) (auto simp: make_ready_def wake_step_def)
next
  case (Cons p ps)
  note fst = sleepq_first [OF Cons.prems(1)]
  have fk: "firstkey (queuetab k) (sleepq k) = qkey (queuetab k p)" using fst(3) Cons.prems(3) by (simp add: firstkey_def)
  show ?case
  proof (cases "qkey (queuetab k p) \<le> 0")
    case False
    then show ?thesis using Cons.prems fk by (subst wakeup_loop.simps) (auto simp: make_ready_def wake_step_def)
  next
    case True
    obtain t' where t': "dequeue (sleepq k) k = (p, k\<lparr>queuetab := t'\<rparr>)" "kinv {p} (k\<lparr>queuetab := t'\<rparr>)"
      "relinked (queuetab k) t' (kqueues k) (sleepq k) ps" "\<And>x. qkey (t' x) = qkey (queuetab k x)"
      using dequeue_kinv [OF Cons.prems(1) kqueues_mem(2) Cons.prems(3)] by auto
    let ?k = "k\<lparr>queuetab := t'\<rparr>"
    have pin: "p \<in> set (qitems (queuetab k) (sleepq k))" using Cons.prems(3) by simp
    have pp: "p \<in> {0..<NPROC}" "prstate (proctab ?k p) \<noteq> PR_FREE"
      using queue_state(2,4) [OF Cons.prems(1) pin kqueues_mem(2)] by auto
    obtain k1 where k1: "ready p ?k = Inr (OK_st, k1)" "kinv {} k1" "only_ready ?k k1" "ndefers k1 = ndefers ?k"
      "currpid k1 = currpid ?k \<and> attempt k1" "proctab k1 = (proctab ?k)(p := (proctab ?k p)\<lparr>prstate := PR_READY\<rparr>)"
      by (rule ready_spec [OF t'(2) pp]) (use Cons.prems(2) in auto)
    have items: "qitems (queuetab k1) (sleepq k1) = ps" "sleepq k1 = sleepq k"
      using k1(3) t'(3) queue_ids(1) [OF t'(2)] by (auto simp: only_ready_def relinked_def)
    have keys: "\<forall>x \<in> set ps. qkey (queuetab k1 x) = qkey (queuetab k x)"
      using k1(3) t'(3,4) by (auto simp: only_ready_def relinked_def)
    have nx: "kept k k1" using only_ready_kept [OF k1(3)] by simp
    have sem: "sem_ok k1 s = sem_ok k s" if "s \<in> {0..<NSEM}" for s
    proof -
      have "sem_ok ?k s = sem_ok k s"
        using t'(3) queue_ids(3) [OF Cons.prems(1) that] that by (simp add: sem_ok_def relinked_def)
      then show ?thesis using sem_ok_only_ready(1) [OF k1(3) t'(2) that] by simp
    qed
    obtain k' where k': "wakeup_loop k1 = Some (Inr k')" "wake_step (dropWhile (\<lambda>x. qkey (queuetab k1 x) \<le> 0) ps) k1 k'"
      "proctab k' = make_ready (set (takeWhile (\<lambda>x. qkey (queuetab k1 x) \<le> 0) ps)) (proctab k1)"
      using Cons.IH [OF k1(2) _ items(1)] k1(4) Cons.prems(2) by auto
    have tw: "takeWhile (\<lambda>x. qkey (queuetab k1 x) \<le> 0) ps = takeWhile (\<lambda>x. qkey (queuetab k x) \<le> 0) ps"
      "dropWhile (\<lambda>x. qkey (queuetab k1 x) \<le> 0) ps = dropWhile (\<lambda>x. qkey (queuetab k x) \<le> 0) ps"
      using keys by (auto intro: takeWhile_cong dropWhile_cong)
    have "wakeup_loop k = Some (Inr k')"
      using True fk fst(1) Cons.prems(3) t'(1) k1(1) k'(1) by (subst wakeup_loop.simps) simp
    moreover have "wake_step (dropWhile (\<lambda>x. qkey (queuetab k x) \<le> 0) (p # ps)) k k'"
    proof -
      have "set (dropWhile (\<lambda>x. qkey (queuetab k x) \<le> 0) ps) \<subseteq> set ps" by (meson set_dropWhileD subsetI)
      then show ?thesis using k'(2) k1(4,5) items(2) keys sem kept_trans [OF nx] True by (auto simp: wake_step_def tw)
    qed
    ultimately show ?thesis using k'(3) k1(6) True by (auto simp: make_ready_step tw)
  qed
qed

lemma dues_shift: "dues kf (e + c) ps = map (\<lambda>(p, d). (p, d + c)) (dues kf e ps)"
proof (induction ps arbitrary: e)
  case (Cons p ps)
  have "e + c + kf p = (e + kf p) + c" by simp
  then have "dues kf (e + c + kf p) ps = map (\<lambda>(p, d). (p, d + c)) (dues kf (e + kf p) ps)"
    using Cons.IH [of "e + kf p"] by (simp only:)
  then show ?case by simp
qed simp

lemma dues_positive:
  assumes "\<forall>x \<in> set ps. 0 \<le> kf x"
  shows "filter (\<lambda>(_, d). d > 0) (dues kf 0 ps) = dues kf 0 (dropWhile (\<lambda>x. kf x \<le> 0) ps)"
  using assms
proof (induction ps)
  case (Cons p ps)
  show ?case
  proof (cases "kf p \<le> 0")
    case True
    then have "kf p = 0" using Cons.prems by auto
    then show ?thesis using Cons by simp
  next
    case False
    have "(x, d) \<in> set (dues kf (kf p) ps) \<Longrightarrow> d > 0" for x d
      using dues_bound [of ps kf x d "kf p"] Cons.prems False by auto
    then show ?thesis using False by (auto simp: filter_id_conv)
  qed
qed simp

lemma dues_zero: "(x, 0) \<in> set (dues kf 0 ps) \<Longrightarrow> \<forall>x \<in> set ps. 0 \<le> kf x \<Longrightarrow> x \<in> set (takeWhile (\<lambda>x. kf x \<le> 0) ps)"
proof (induction ps)
  case (Cons p ps)
  show ?case
  proof (cases "kf p \<le> 0")
    case True
    then have "kf p = 0" using Cons.prems(2) by auto
    then show ?thesis using Cons by auto
  next
    case False
    then show ?thesis using dues_bound [of ps kf x 0 "kf p"] Cons.prems by auto
  qed
qed simp

lemma wakeup_spec:
  assumes k: "kinv {} k" "running k" "ndefers k = 0"
  defines "L \<equiv> qitems (queuetab k) (sleepq k)"
  obtains k' where "wakeup k = Inr k'" "kinv {} k'" "running k'" "ndefers k' = 0" "sleepq k' = sleepq k"
    "qitems (queuetab k') (sleepq k) = dropWhile (\<lambda>x. qkey (queuetab k x) \<le> 0) L"
    "\<forall>x \<in> set (qitems (queuetab k') (sleepq k)). qkey (queuetab k' x) = qkey (queuetab k x)"
    "\<And>s. s \<in> {0..<NSEM} \<Longrightarrow> sem_ok k' s = sem_ok k s" "kept k k'"
    "\<And>x. x \<in> set (takeWhile (\<lambda>x. qkey (queuetab k x) \<le> 0) L) \<Longrightarrow> prstate (proctab k' x) \<in> {PR_READY, PR_CURR}"
proof -
  let ?k0 = "k\<lparr>ndefers := 1, attempt := False\<rparr>"
  let ?tw = "takeWhile (\<lambda>x. qkey (queuetab k x) \<le> 0) L" and ?dw = "dropWhile (\<lambda>x. qkey (queuetab k x) \<le> 0) L"
  have k0: "kinv {} ?k0" using k(1) by (simp add: defer_kinv)
  obtain k1 where k1: "wakeup_loop ?k0 = Some (Inr k1)" "wake_step ?dw ?k0 k1" "proctab k1 = make_ready (set ?tw) (proctab k)"
    using wakeup_loop_spec [OF k0, of L] by (auto simp: L_def)
  have sem0: "sem_ok ?k0 s = sem_ok k s" for s by (simp add: sem_ok_def sem_queue_def)
  have f: "kinv {} k1" "ndefers k1 = 1" "sleepq k1 = sleepq k" "currpid k1 = currpid k" "qitems (queuetab k1) (sleepq k) = ?dw"
    "\<forall>x \<in> set ?dw. qkey (queuetab k1 x) = qkey (queuetab k x)" "\<And>s. s \<in> {0..<NSEM} \<Longrightarrow> sem_ok k1 s = sem_ok k s"
    using k1(2) by (simp_all add: wake_step_def sem0)
  have asleep: "x \<noteq> currpid k" if "x \<in> set L" for x
    using queue_state(2) [OF k(1) that [unfolded L_def] kqueues_mem(2)] k(2) by (auto simp: running_def)
  have tw: "set ?tw \<subseteq> set L" by (meson set_takeWhileD subsetI)
  have "running k1"
    using k(2) asleep tw by (auto simp: running_def k1(3) f(4) make_ready_def)
  then obtain k' where k': "resched_cntl DEFER_STOP k1 = Inr (OK_st, k')" "kinv {} k'" "running k'" "ndefers k' = 0" "only_ready k1 k'"
    "\<And>x. x \<noteq> currpid k1 \<Longrightarrow> x \<noteq> currpid k' \<Longrightarrow> proctab k' x = proctab k1 x"
    using defer_stop [OF f(1,2)] by metis
  have items: "qitems (queuetab k') (sleepq k) = ?dw" "sleepq k' = sleepq k" "\<forall>x \<in> set ?dw. qkey (queuetab k' x) = qkey (queuetab k x)"
    using k'(5) f(3,5,6) queue_ids(1) [OF f(1)] kqueues_mem(2) [of k1] by (auto simp: only_ready_def)
  have "prstate (proctab k' x) \<in> {PR_READY, PR_CURR}" if x: "x \<in> set ?tw" for x
  proof (cases "x = currpid k'")
    case True
    then show ?thesis using k'(3) by (simp add: running_def)
  next
    case False
    then show ?thesis using k'(6) [of x] asleep [of x] tw x f(4) by (auto simp: k1(3) make_ready_def)
  qed
  moreover have "wakeup k = Inr k'" using defer_start [OF k(3)] k1(1) k'(1) by (simp add: wakeup_def loop_res_def)
  moreover have "sem_ok k' s = sem_ok k s" if "s \<in> {0..<NSEM}" for s
    using sem_ok_only_ready(1) [OF k'(5) f(1) that] f(7) [OF that] by simp
  moreover have "kept k k'" using kept_trans [OF _ only_ready_kept [OF k'(5)], of k] k1(2) by (simp add: wake_step_def)
  ultimately show thesis using that [of k'] k'(2-4) items by simp
qed

definition tick_timers :: "(int \<times> int) list \<Rightarrow> (int \<times> int) list" where
  "tick_timers ts = filter (\<lambda>(_, d). d > 0) (map (\<lambda>(p, d). (p, d - 1)) ts)"

lemma clk_sleepers_spec:
  assumes k: "kinv {} k" "running k" "ndefers k = 0" "kdelays_ok k"
    and pos: "\<forall>(p, d) \<in> set (kdues k). d > 0"
  obtains k' where "clk_sleepers k = Inr k'" "kinv {} k'" "running k'" "ndefers k' = 0" "kdelays_ok k'"
    "kdues k' = tick_timers (kdues k)" "\<And>s. s \<in> {0..<NSEM} \<Longrightarrow> sem_ok k' s = sem_ok k s" "kept k k'"
    "\<And>p. (p, 1) \<in> set (kdues k) \<Longrightarrow> prstate (proctab k' p) \<in> {PR_READY, PR_CURR}"
proof -
  let ?L = "qitems (queuetab k) (sleepq k)"
  note fst = sleepq_first [OF k(1)]
  show thesis
  proof (cases ?L)
    case Nil
    then have "kdues k = []" "clk_sleepers k = Inr k" using fst(2) by (simp_all add: kdues_def clk_sleepers_def)
    then show thesis using that [of k] k by (simp add: tick_timers_def)
  next
    case (Cons p ps)
    let ?key = "qkey (queuetab k p)"
    let ?t = "qset_key p (?key - 1) (queuetab k)"
    let ?k1 = "k\<lparr>queuetab := ?t\<rparr>" and ?kf = "\<lambda>x. qkey (?t x)"
    have pin: "p \<in> set ?L" using Cons by simp
    have p1: "0 < ?key" "?key < 2147483648"
      using pos Cons delays_okD(2) [OF k(4) [unfolded kdelays_ok_def] pin] by (auto simp: kdues_def)
    have i: "i32 (?key - 1) = ?key - 1" using p1 by (intro i32_in_range) auto
    note sk = kinv_sleep_key(1) [OF k(1) pin, of "?key - 1"] kinv_sleep_key(2) [OF k(1) pin]
    have items: "qitems ?t (sleepq k) = ?L" using sk(2) [OF kqueues_mem(2)] .
    have "distinct ?L" using kinvD(1) [OF k(1)] queues_okD(7) kqueues_mem(2) unfolding qtable_ok_def by blast
    then have "p \<notin> set ps" using Cons by simp
    then have "dues ?kf (?key - 1) ps = dues (\<lambda>x. qkey (queuetab k x)) (?key - 1) ps" by (intro dues_cong) auto
    then have "dues ?kf 0 ?L = map (\<lambda>(p, d). (p, d + - 1)) (dues (\<lambda>x. qkey (queuetab k x)) 0 ?L)"
      using dues_shift [of "\<lambda>x. qkey (queuetab k x)" ?key "- 1" ps] Cons by simp
    then have d1: "dues ?kf 0 ?L = map (\<lambda>(p, d). (p, d - 1)) (kdues k)" by (simp add: kdues_def)
    have nn: "\<forall>x \<in> set ?L. 0 \<le> ?kf x" using delays_okD(1) [OF k(4) [unfolded kdelays_ok_def]] p1 by auto
    then have tick: "dues ?kf 0 (dropWhile (\<lambda>x. ?kf x \<le> 0) ?L) = tick_timers (kdues k)"
      using dues_positive [of ?L ?kf] d1 by (simp add: tick_timers_def)
    have due1: "x \<in> set (takeWhile (\<lambda>x. ?kf x \<le> 0) ?L)" if "(x, 1) \<in> set (kdues k)" for x
    proof -
      have "(x, 0) \<in> (\<lambda>(p, d). (p, d - 1)) ` set (kdues k)" using that by (auto simp: image_iff intro: bexI [of _ "(x, 1)"])
      then have "(x, 0) \<in> set (dues ?kf 0 ?L)" unfolding d1 by simp
      then show ?thesis by (rule dues_zero [OF _ nn])
    qed
    have late: "d < 2147483648" if "(x, d) \<in> set (tick_timers (kdues k))" for x d
      using dues_bound [of ?L "\<lambda>x. qkey (queuetab k x)" x "d + 1" 0] that k(4)
      by (force simp: tick_timers_def kdues_def kdelays_ok_def delays_ok_def)
    have sem1: "sem_ok ?k1 s = sem_ok k s" if "s \<in> {0..<NSEM}" for s
      using sk(2) [OF kqueues_mem(3) [OF that]] by (simp add: sem_ok_def)
    have run1: "running ?k1" using k(2) by (simp add: running_def)
    show thesis
    proof (cases "?key - 1 \<le> 0")
      case True
      obtain k' where k': "wakeup ?k1 = Inr k'" "kinv {} k'" "running k'" "ndefers k' = 0" "sleepq k' = sleepq k"
        "qitems (queuetab k') (sleepq k) = dropWhile (\<lambda>x. ?kf x \<le> 0) ?L"
        "\<forall>x \<in> set (qitems (queuetab k') (sleepq k)). qkey (queuetab k' x) = ?kf x"
        "\<And>s. s \<in> {0..<NSEM} \<Longrightarrow> sem_ok k' s = sem_ok ?k1 s" "kept ?k1 k'"
        "\<And>x. x \<in> set (takeWhile (\<lambda>x. ?kf x \<le> 0) ?L) \<Longrightarrow> prstate (proctab k' x) \<in> {PR_READY, PR_CURR}"
        using wakeup_spec [OF sk(1) run1] k(3) items by auto
      have "kdues k' = dues (\<lambda>x. qkey (queuetab k' x)) 0 (dropWhile (\<lambda>x. ?kf x \<le> 0) ?L)"
        by (simp only: kdues_def k'(5,6))
      also have "\<dots> = dues ?kf 0 (dropWhile (\<lambda>x. ?kf x \<le> 0) ?L)" using k'(6,7) by (intro dues_cong) simp
      finally have du: "kdues k' = tick_timers (kdues k)" using tick by simp
      have "kdelays_ok k'"
        unfolding kdelays_ok_def
      proof (rule delays_ok_dues)
        show "\<forall>x \<in> set (qitems (queuetab k') (sleepq k')). 0 \<le> qkey (queuetab k' x)"
          unfolding k'(5)
        proof
          fix x assume x: "x \<in> set (qitems (queuetab k') (sleepq k))"
          then have "x \<in> set ?L" unfolding k'(6) by (rule set_dropWhileD)
          then have "0 \<le> ?kf x" using nn by (rule bspec [rotated])
          then show "0 \<le> qkey (queuetab k' x)" using bspec [OF k'(7) x] by (simp only:)
        qed
        show "\<forall>(x, d) \<in> set (dues (\<lambda>x. qkey (queuetab k' x)) 0 (qitems (queuetab k') (sleepq k'))). d < 2147483648"
          using late du by (auto simp: kdues_def)
      qed
      moreover have "clk_sleepers k = Inr k'"
        using fst(2) fst(3) [OF Cons] Cons i True k'(1) by (simp add: clk_sleepers_def Let_def)
      ultimately show thesis using that [of k'] k' du due1 sem1 by simp
    next
      case False
      have dw: "dropWhile (\<lambda>x. ?kf x \<le> 0) ?L = ?L" "takeWhile (\<lambda>x. ?kf x \<le> 0) ?L = []" using False Cons by simp_all
      have du: "kdues ?k1 = tick_timers (kdues k)" using tick dw items by (simp add: kdues_def)
      have "kdelays_ok ?k1"
        unfolding kdelays_ok_def
      proof (rule delays_ok_dues)
        show "\<forall>(x, d) \<in> set (dues (\<lambda>x. qkey (queuetab ?k1 x)) 0 (qitems (queuetab ?k1) (sleepq ?k1))). d < 2147483648"
          using late du by (auto simp: kdues_def)
      qed (use nn items in simp)
      moreover have "clk_sleepers k = Inr ?k1"
        using fst(2) fst(3) [OF Cons] Cons i False by (simp add: clk_sleepers_def Let_def)
      moreover have "(x, 1) \<notin> set (kdues k)" for x using due1 [of x] dw(2) by auto
      ultimately show thesis using that [of ?k1] sk(1) run1 k(3) du sem1 by simp
    qed
  qed
qed

text \<open>A timed wait of no milliseconds at the head of the queue: its key goes below zero, it is woken with all that are due, and
  the tick is lost for the others.\<close>

lemma clk_sleepers_zero:
  assumes k: "kinv {} k" "running k" "ndefers k = 0" "kdelays_ok k" and z: "(x0, 0) \<in> set (kdues k)"
  obtains k' where "clk_sleepers k = Inr k'" "kinv {} k'" "running k'" "ndefers k' = 0" "kdelays_ok k'"
    "kdues k' = filter (\<lambda>(_, d). d > 0) (kdues k)"
proof -
  let ?L = "qitems (queuetab k) (sleepq k)" and ?f = "\<lambda>x. qkey (queuetab k x)"
  note fst = sleepq_first [OF k(1)]
  note nn = delays_okD(1) [OF k(4) [unfolded kdelays_ok_def]]
  obtain p ps where Cons: "?L = p # ps" using z by (cases ?L) (simp_all add: kdues_def)
  have pin: "p \<in> set ?L" using Cons by simp
  have "p \<in> set (takeWhile (\<lambda>x. ?f x \<le> 0) ?L)"
    using dues_zero [OF z [unfolded kdues_def]] nn Cons by (cases "?f p \<le> 0") auto
  then have p0: "?f p = 0" using nn [OF pin] set_takeWhileD [of p "\<lambda>x. ?f x \<le> 0" ?L] by simp
  let ?t = "qset_key p (- 1) (queuetab k)"
  let ?k1 = "k\<lparr>queuetab := ?t\<rparr>" and ?kf = "\<lambda>x. qkey (?t x)"
  note sk = kinv_sleep_key(1) [OF k(1) pin, of "- 1"] kinv_sleep_key(2) [OF k(1) pin]
  have items: "qitems ?t (sleepq k) = ?L" using sk(2) [OF kqueues_mem(2)] .
  have le: "?kf x \<le> 0 \<longleftrightarrow> ?f x \<le> 0" for x using p0 by (cases "x = p") simp_all
  have run1: "running ?k1" using k(2) by (simp add: running_def)
  have nd: "ndefers ?k1 = 0" using k(3) by simp
  have "\<exists>k'. wakeup ?k1 = Inr k' \<and> kinv {} k' \<and> running k' \<and> ndefers k' = 0 \<and> sleepq k' = sleepq k \<and>
      qitems (queuetab k') (sleepq k) = dropWhile (\<lambda>x. ?kf x \<le> 0) ?L \<and>
      (\<forall>x \<in> set (qitems (queuetab k') (sleepq k)). qkey (queuetab k' x) = ?kf x)"
    by (rule wakeup_spec [OF sk(1) run1 nd]) (use items in auto)
  then obtain k' where k': "wakeup ?k1 = Inr k'" "kinv {} k'" "running k'" "ndefers k' = 0" "sleepq k' = sleepq k"
    "qitems (queuetab k') (sleepq k) = dropWhile (\<lambda>x. ?f x \<le> 0) ?L"
    "\<forall>x \<in> set (qitems (queuetab k') (sleepq k)). qkey (queuetab k' x) = ?kf x" unfolding le by blast
  have sub: "x \<in> set ?L \<and> x \<noteq> p" if "x \<in> set (dropWhile (\<lambda>x. ?f x \<le> 0) ?L)" for x
  proof -
    have "distinct ?L" using kinvD(1) [OF k(1)] queues_okD(7) kqueues_mem(2) unfolding qtable_ok_def by blast
    then show ?thesis using that Cons p0 by (auto dest: set_dropWhileD)
  qed
  have keys: "qkey (queuetab k' x) = ?f x" if "x \<in> set (qitems (queuetab k') (sleepq k))" for x
    using bspec [OF k'(7) that] sub [of x] that unfolding k'(6) by simp
  have "kdues k' = dues ?f 0 (dropWhile (\<lambda>x. ?f x \<le> 0) ?L)"
    using keys unfolding kdues_def k'(5) unfolding k'(6) by (intro dues_cong) simp
  then have du: "kdues k' = filter (\<lambda>(_, d). d > 0) (kdues k)" using dues_positive [of ?L ?f] nn by (simp add: kdues_def)
  have "kdelays_ok k'"
    unfolding kdelays_ok_def
  proof (rule delays_ok_dues)
    show "\<forall>x \<in> set (qitems (queuetab k') (sleepq k')). 0 \<le> qkey (queuetab k' x)"
      using keys sub nn unfolding k'(5) k'(6) by simp
    show "\<forall>(x, d) \<in> set (dues (\<lambda>x. qkey (queuetab k' x)) 0 (qitems (queuetab k') (sleepq k'))). d < 2147483648"
      using dues_bound [of ?L ?f _ _ 0] k(4) unfolding kdues_def [symmetric] du
      by (force simp: kdues_def kdelays_ok_def delays_ok_def)
  qed
  moreover have "clk_sleepers k = Inr k'"
    using fst(2) fst(3) [OF Cons] Cons p0 k'(1) by (simp add: clk_sleepers_def Let_def i32_in_range)
  ultimately show thesis using that [of k'] k'(2-4) du by simp
qed

section \<open>Messages\<close>

lemma kinv_upd_other:
  assumes k: "kinv X k" and f: "\<And>e. prstate (f e) = prstate e \<and> prprio (f e) = prprio e \<and> prsem (f e) = prsem e"
  shows "kinv X (upd_proc p f k)"
proof -
  have "home (upd_proc p f k) = home k" using f by (auto simp: home_def fun_eq_iff split: pstate.split)
  moreover have "queue_ids_ok (upd_proc p f k) = queue_ids_ok k" by (simp add: queue_ids_ok_def)
  ultimately show ?thesis using k f unfolding kinv_def by simp
qed

lemma upd_other_same:
  assumes "\<And>e. prstate (f e) = prstate e \<and> prprio (f e) = prprio e \<and> prsem (f e) = prsem e"
  shows "running (upd_proc p f k) = running k" "kdues (upd_proc p f k) = kdues k" "kdelays_ok (upd_proc p f k) = kdelays_ok k"
    "sem_ok (upd_proc p f k) s = sem_ok k s"
  using assms by (simp_all add: running_def kdues_def kdelays_ok_def sem_ok_def)

text \<open>A process waiting for a message becomes ready with the message in its entry.\<close>

lemma send_recv:
  assumes k: "kinv {} k" "p \<in> {0..<NPROC}" "prstate (proctab k p) = PR_RECV" "\<not> prhasmsg (proctab k p)" "ndefers k \<le> 0"
  obtains k' where "send p m k = Inr (OK_st, k')" "kinv {} k'" "running k'" "ndefers k' = ndefers k" "kdues k' = kdues k"
    "kdelays_ok k' = kdelays_ok k" "\<And>s. s \<in> {0..<NSEM} \<Longrightarrow> sem_ok k' s = sem_ok k s" "kept k k'"
    "prstate (proctab k' p) \<in> {PR_READY, PR_CURR}" "prmsg (proctab k' p) = m" "prhasmsg (proctab k' p)"
proof -
  let ?f = "\<lambda>e. e\<lparr>prmsg := m, prhasmsg := True\<rparr>"
  let ?k = "upd_proc p ?f k"
  have k1: "kinv {} ?k" by (rule kinv_upd_other [OF k(1)]) simp
  have "kinv {p} ?k" using kinv_None [of ?k p "{}" "{p}"] k1 k(3) by (simp add: home_def)
  then obtain k' where k': "ready p ?k = Inr (OK_st, k')" "kinv {} k'" "only_ready ?k k'" "ndefers k' = ndefers ?k" "running k'"
    "prstate (proctab k' p) \<in> {PR_READY, PR_CURR}"
    by (rule ready_spec [OF _ k(2)]) (use k in auto)
  have e: "proctab k' p = (proctab ?k p)\<lparr>prstate := prstate (proctab k' p)\<rparr>" using k'(3) unfolding only_ready_def by blast
  have "prmsg (proctab k' p) = m" "prhasmsg (proctab k' p)" by (subst e, simp)+
  moreover have "send p m k = Inr (OK_st, k')" using k k'(1) by (simp add: send_def isbadpid_def)
  moreover have "kdues k' = kdues k" "kdelays_ok k' = kdelays_ok k"
    using kdues_only_ready [OF k'(3) kinvD(2) [OF k1]] upd_other_same [of ?f p k] by auto
  moreover have "sem_ok k' s = sem_ok k s" if "s \<in> {0..<NSEM}" for s
    using sem_ok_only_ready(1) [OF k'(3) k1 that] upd_other_same(4) [of ?f p k] by simp
  moreover have "kept k ?k" by (simp add: kept_def procs_same_def)
  then have "kept k k'" using only_ready_kept [OF k'(3)] by (rule kept_trans)
  ultimately show thesis using that [of k'] k' by simp
qed

text \<open>A process in a timed wait is woken too, and its timer goes.\<close>

lemma send_rectim:
  assumes k: "kinv {} k" "p \<in> {0..<NPROC}" "prstate (proctab k p) = PR_RECTIM" "\<not> prhasmsg (proctab k p)" "ndefers k \<le> 0"
    and d: "kdelays_ok k"
  obtains k' where "send p m k = Inr (OK_st, k')" "kinv {} k'" "running k'" "ndefers k' = ndefers k"
    "kdues k' = filter (\<lambda>(x, _). x \<noteq> p) (kdues k)" "kdelays_ok k'" "\<And>s. s \<in> {0..<NSEM} \<Longrightarrow> sem_ok k' s = sem_ok k s" "kept k k'"
    "prstate (proctab k' p) \<in> {PR_READY, PR_CURR}" "prmsg (proctab k' p) = m" "prhasmsg (proctab k' p)"
proof -
  let ?f = "\<lambda>e. e\<lparr>prmsg := m, prhasmsg := True\<rparr>"
  let ?k = "upd_proc p ?f k"
  have k1: "kinv {} ?k" by (rule kinv_upd_other [OF k(1)]) simp
  have "home ?k p = Some (sleepq ?k)" using k(3) by (simp add: home_def)
  then have pin: "p \<in> set (qitems (queuetab ?k) (sleepq ?k))" using kinv_members [OF k1 kqueues_mem(2)] k(2) by simp
  have d1: "delays_ok (queuetab ?k) (qitems (queuetab ?k) (sleepq ?k))" using d by (simp add: kdelays_ok_def)
  obtain t' where t': "unsleep p ?k = (OK_st, ?k\<lparr>queuetab := t'\<rparr>)" "kinv {p} (?k\<lparr>queuetab := t'\<rparr>)"
    "relinked (queuetab ?k) t' (kqueues ?k) (sleepq ?k) (remove1 p (qitems (queuetab ?k) (sleepq ?k)))"
    "dues (\<lambda>x. qkey (t' x)) 0 (qitems t' (sleepq ?k)) =
       filter (\<lambda>(x, _). x \<noteq> p) (dues (\<lambda>x. qkey (queuetab ?k x)) 0 (qitems (queuetab ?k) (sleepq ?k)))"
    "delays_ok t' (qitems t' (sleepq ?k))"
    using unsleep_spec [OF k1 pin d1] by metis
  let ?k2 = "?k\<lparr>queuetab := t'\<rparr>"
  obtain k' where k': "ready p ?k2 = Inr (OK_st, k')" "kinv {} k'" "only_ready ?k2 k'" "ndefers k' = ndefers ?k2" "running k'"
    "prstate (proctab k' p) \<in> {PR_READY, PR_CURR}"
    by (rule ready_spec [OF t'(2) k(2)]) (use k in auto)
  have e: "proctab k' p = (proctab ?k2 p)\<lparr>prstate := prstate (proctab k' p)\<rparr>" using k'(3) unfolding only_ready_def by blast
  have "prmsg (proctab k' p) = m" "prhasmsg (proctab k' p)" by (subst e, simp)+
  moreover have "send p m k = Inr (OK_st, k')" using k k'(1) t'(1) by (simp add: send_def isbadpid_def)
  moreover have "kdues k' = filter (\<lambda>(x, _). x \<noteq> p) (kdues k)" "kdelays_ok k'"
    using kdues_only_ready [OF k'(3) kinvD(2) [OF t'(2)]] t'(4,5) by (auto simp: kdues_def kdelays_ok_def)
  moreover have "sem_ok k' s = sem_ok k s" if "s \<in> {0..<NSEM}" for s
  proof -
    have "sem_ok ?k2 s = sem_ok k s"
      using t'(3) queue_ids(3) [OF k(1) that] that by (simp add: sem_ok_def relinked_def)
    then show ?thesis using sem_ok_only_ready(1) [OF k'(3) t'(2) that] by simp
  qed
  moreover have "kept k ?k2" by (simp add: kept_def procs_same_def)
  then have "kept k k'" using only_ready_kept [OF k'(3)] by (rule kept_trans)
  ultimately show thesis using that [of k'] k' by simp
qed

lemma receive_block:
  assumes k: "kinv {} k" "running k" "ndefers k \<le> 0" "currpid k \<noteq> NULLPROC" "\<not> prhasmsg (proctab k (currpid k))"
  obtains k' where "receive k = Inr (None, k')" "kinv {} k'" "running k'" "ndefers k' = ndefers k" "kdues k' = kdues k"
    "kdelays_ok k' = kdelays_ok k" "\<And>s. s \<in> {0..<NSEM} \<Longrightarrow> sem_ok k' s = sem_ok k s" "kept k k'"
    "prstate (proctab k' (currpid k)) = PR_RECV"
proof -
  let ?p = "currpid k" let ?k = "set_state ?p PR_RECV k"
  have inv: "kinv {} ?k" by (rule kinv_unqueued_state [OF k(1) home_running [OF k(2)]]) (use k(4) in auto)
  have nr: "\<not> running ?k" by (simp add: running_def)
  obtain k' where k': "resched ?k = Inr k'" "kinv {} k'" "running k'" "only_ready ?k k'" "ndefers k' = ndefers ?k"
    "\<And>x. x \<noteq> currpid k' \<Longrightarrow> proctab k' x = proctab ?k x"
    "currpid k' = hd (qitems (queuetab ?k) (readylist ?k))"
    using resched_ok [OF inv] k(3) nr by auto
  have "currpid k' \<in> set (qitems (queuetab ?k) (readylist ?k))"
    using running_null_ready [OF inv nr] k'(7) by (metis empty_iff hd_in_set set_empty)
  then have "prstate (proctab ?k (currpid k')) = PR_READY" using queue_state(1) [OF inv _ kqueues_mem(1)] by blast
  then have "currpid k' \<noteq> ?p" by auto
  then have "prstate (proctab k' ?p) = PR_RECV" using k'(6) [of ?p] by simp
  moreover have "kdues k' = kdues k" "kdelays_ok k' = kdelays_ok k"
    using kdues_only_ready [OF k'(4) kinvD(2) [OF inv]] by (auto simp: kdues_def kdelays_ok_def)
  moreover have "sem_ok k' s = sem_ok k s" if "s \<in> {0..<NSEM}" for s
    using sem_ok_only_ready(1) [OF k'(4) inv that] by (simp add: sem_ok_def)
  moreover have "receive k = Inr (None, k')" using k(5) k'(1) by (simp add: receive_def)
  moreover have "kept k ?k" using k(2) by (auto simp: kept_def procs_same_def running_def proctab_set_state)
  then have "kept k k'" using only_ready_kept [OF k'(4)] by (rule kept_trans)
  ultimately show thesis using that [of k'] k' by simp
qed

section \<open>What messages and the clock guarantee\<close>

lemma kdues_fst: "fst ` set (kdues k) = set (qitems (queuetab k) (sleepq k))"
proof -
  have "fst ` set (dues f e xs) = set xs" for f e xs by (induction xs arbitrary: e) auto
  then show ?thesis by (simp add: kdues_def)
qed

text \<open>C23: a message sent to a process that waits for one (with or without a time limit) is the one it receives:
  the process becomes ready or runs, takes exactly this message, and until it has done so every further
  message is refused without any effect; the timer of a timed wait is cancelled and no other timer moves.\<close>

theorem message_delivered:
  assumes "kinv {} k" "p \<in> {0..<NPROC}" "prstate (proctab k p) \<in> {PR_RECV, PR_RECTIM}" "\<not> prhasmsg (proctab k p)"
    and "ndefers k \<le> 0" "kdelays_ok k"
  shows "\<exists>k'. send p m k = Inr (OK_st, k') \<and> kinv {} k' \<and> running k' \<and> prstate (proctab k' p) \<in> {PR_READY, PR_CURR} \<and>
    kdues k' = filter (\<lambda>(x, _). x \<noteq> p) (kdues k) \<and> send p m' k' = Inr (SYSERR_st, k') \<and>
    fst (receive_return p k') = m \<and> recvtime_return p k' = receive_return p k' \<and>
    \<not> prhasmsg (proctab (snd (receive_return p k')) p)"
proof -
  have "\<exists>k'. send p m k = Inr (OK_st, k') \<and> kinv {} k' \<and> running k' \<and> prstate (proctab k' p) \<in> {PR_READY, PR_CURR} \<and>
    kdues k' = filter (\<lambda>(x, _). x \<noteq> p) (kdues k) \<and> prmsg (proctab k' p) = m \<and> prhasmsg (proctab k' p)"
  proof (cases "prstate (proctab k p) = PR_RECTIM")
    case True
    show ?thesis by (rule send_rectim [OF assms(1,2) True assms(4-6), of m]) blast
  next
    case False
    then have st: "prstate (proctab k p) = PR_RECV" using assms(3) by auto
    then have "home k p = None" by (simp add: home_def)
    then have "p \<notin> fst ` set (kdues k)" unfolding kdues_fst using kinv_members [OF assms(1) kqueues_mem(2)] by simp
    then have "filter (\<lambda>(x, _). x \<noteq> p) (kdues k) = kdues k" by (intro filter_True) force
    then show ?thesis by (metis send_recv [OF assms(1,2) st assms(4,5)])
  qed
  then obtain k' where k': "send p m k = Inr (OK_st, k')" "kinv {} k'" "running k'" "prstate (proctab k' p) \<in> {PR_READY, PR_CURR}"
    "kdues k' = filter (\<lambda>(x, _). x \<noteq> p) (kdues k)" "prmsg (proctab k' p) = m" "prhasmsg (proctab k' p)" by blast
  have "send p m' k' = Inr (SYSERR_st, k')" using k'(7) by (simp add: send_def)
  then show ?thesis using k' by (intro exI [of _ k']) (simp add: receive_return_def recvtime_return_def)
qed

primrec clk_ticks :: "nat \<Rightarrow> kern \<Rightarrow> kern res" where
  "clk_ticks 0 k = Inr k"
| "clk_ticks (Suc n) k = bind_res (clk_sleepers (clk_count k)) (clk_ticks n)"

lemma clk_count_same:
  "kinv X (clk_count k) = kinv X k" "running (clk_count k) = running k" "ndefers (clk_count k) = ndefers k" "kdues (clk_count k) = kdues k"
  "kdelays_ok (clk_count k) = kdelays_ok k" "sem_ok (clk_count k) s = sem_ok k s" "currpid (clk_count k) = currpid k"
proof -
  have f: "queuetab (clk_count k) = queuetab k" "proctab (clk_count k) = proctab k" "semtab (clk_count k) = semtab k"
    "readylist (clk_count k) = readylist k" "sleepq (clk_count k) = sleepq k" "currpid (clk_count k) = currpid k"
    "ndefers (clk_count k) = ndefers k" by (simp_all add: clk_count_def Let_def)
  show "kinv X (clk_count k) = kinv X k" by (rule kinv_cong) (simp_all add: f)
  show "running (clk_count k) = running k" "ndefers (clk_count k) = ndefers k" "kdues (clk_count k) = kdues k"
    "kdelays_ok (clk_count k) = kdelays_ok k" "sem_ok (clk_count k) s = sem_ok k s" "currpid (clk_count k) = currpid k"
    by (simp_all add: f running_def kdues_def kdelays_ok_def sem_ok_def sem_queue_def)
qed

lemma clk_ticks_spec:
  assumes "kinv {} k" "running k" "ndefers k = 0" "kdelays_ok k" "\<forall>(p, d) \<in> set (kdues k). d > 0"
  shows "\<exists>k'. clk_ticks n k = Inr k' \<and> kinv {} k' \<and> running k' \<and>
    kdues k' = filter (\<lambda>(_, d). d > 0) (map (\<lambda>(p, d). (p, d - int n)) (kdues k))"
  using assms
proof (induction n arbitrary: k)
  case 0
  have "filter (\<lambda>(_, d). d > 0) (kdues k) = kdues k" using 0(5) by (intro filter_True) auto
  then show ?case using 0 by (simp add: case_prod_unfold)
next
  case (Suc n)
  obtain k1 where k1: "clk_sleepers (clk_count k) = Inr k1" "kinv {} k1" "running k1" "ndefers k1 = 0" "kdelays_ok k1"
    "kdues k1 = tick_timers (kdues k)"
  proof (rule clk_sleepers_spec [of "clk_count k"])
    fix k1 assume "clk_sleepers (clk_count k) = Inr k1" "kinv {} k1" "running k1" "ndefers k1 = 0" "kdelays_ok k1"
      "kdues k1 = tick_timers (kdues (clk_count k))"
    then show thesis using that by (simp add: clk_count_same(4))
  qed (use Suc.prems in \<open>simp_all add: clk_count_same\<close>)
  have "\<forall>(p, d) \<in> set (kdues k1). d > 0" by (auto simp: k1(6) tick_timers_def)
  then obtain k' where k': "clk_ticks n k1 = Inr k'" "kinv {} k'" "running k'"
    "kdues k' = filter (\<lambda>(_, d). d > 0) (map (\<lambda>(p, d). (p, d - int n)) (kdues k1))"
    using Suc.IH [OF k1(2-5)] by blast
  have "filter (\<lambda>(_, d). d > 0) (map (\<lambda>(p, d). (p, d - int n)) (tick_timers ts)) =
      filter (\<lambda>(_, d). d > 0) (map (\<lambda>(p, d). (p, d - int (Suc n))) ts)" for ts :: "(int \<times> int) list"
    by (induction ts) (auto simp: tick_timers_def)
  then show ?case using k1(1,6) k' by simp
qed

text \<open>Every tick ends, whatever the delays: what is left after \<open>n\<close> ticks, where a delay of 0 costs the others one tick.\<close>

definition ticks_of :: "(int \<times> int) list \<Rightarrow> nat \<Rightarrow> int" where
  "ticks_of ts n = (if 0 \<in> snd ` set ts then int n - 1 else int n)"

lemma clk_ticks_any:
  assumes k: "kinv {} k" "running k" "ndefers k = 0" "kdelays_ok k" and n: "0 < n"
  shows "\<exists>k'. clk_ticks n k = Inr k' \<and> kinv {} k' \<and> running k' \<and>
    kdues k' = filter (\<lambda>(_, d). d > 0) (map (\<lambda>(p, d). (p, d - ticks_of (kdues k) n)) (kdues k))"
proof (cases "0 \<in> snd ` set (kdues k)")
  case False
  have "0 \<le> d" if "(p, d) \<in> set (kdues k)" for p d
    using dues_bound [of "qitems (queuetab k) (sleepq k)" "\<lambda>x. qkey (queuetab k x)" p d 0] that k(4)
    by (auto simp: kdues_def kdelays_ok_def delays_ok_def)
  then have "\<forall>(p, d) \<in> set (kdues k). d > 0" using False by (force simp: order_le_less)
  from clk_ticks_spec [OF k this, of n] show ?thesis using False by (simp add: ticks_of_def)
next
  case True
  then obtain x0 where z: "(x0, 0) \<in> set (kdues (clk_count k))" by (auto simp: clk_count_same(4))
  obtain m where m: "n = Suc m" using n by (cases n) auto
  obtain k1 where k1: "clk_sleepers (clk_count k) = Inr k1" "kinv {} k1" "running k1" "ndefers k1 = 0" "kdelays_ok k1"
    "kdues k1 = filter (\<lambda>(_, d). d > 0) (kdues k)"
    by (rule clk_sleepers_zero [OF _ _ _ _ z]) (use k in \<open>simp_all add: clk_count_same\<close>)
  have "\<forall>(p, d) \<in> set (kdues k1). d > 0" by (auto simp: k1(6))
  then obtain k' where k': "clk_ticks m k1 = Inr k'" "kinv {} k'" "running k'"
    "kdues k' = filter (\<lambda>(_, d). d > 0) (map (\<lambda>(p, d). (p, d - int m)) (kdues k1))"
    using clk_ticks_spec [OF k1(2-5)] by blast
  have "filter (\<lambda>(_, d). d > 0) (map (\<lambda>(p, d). (p, d - int m)) (filter (\<lambda>(_, d). d > 0) ts)) =
      filter (\<lambda>(_, d). d > 0) (map (\<lambda>(p, d). (p, d - int m)) ts)" for ts :: "(int \<times> int) list"
    by (induction ts) auto
  then show ?thesis using True k1(1) k' m by (simp add: k1(6) ticks_of_def)
qed

text \<open>C16: a sleeping process is woken by the tick on which its delay is over, neither earlier nor later, however many
  other sleepers with whatever positive delays there are: as long as fewer than \<open>d\<close> ticks have passed it is still asleep
  (or in its timed wait), from the \<open>d\<close>-th tick on it is not. When some process waits with a delay of 0 (\<^verbatim>\<open>recvtime(0)\<close>),
  all wake exactly one tick later than that. Every tick ends and keeps the invariant.\<close>

theorem sleepers_wake_on_time:
  assumes "kinv {} k" "running k" "ndefers k = 0" "kdelays_ok k" and "(p, d) \<in> set (kdues k)"
  shows "\<exists>k'. clk_ticks n k = Inr k' \<and> kinv {} k' \<and> running k' \<and>
    (prstate (proctab k' p) \<in> {PR_SLEEP, PR_RECTIM} \<longleftrightarrow> int n < (if 0 \<in> snd ` set (kdues k) then d + 1 else d))"
proof (cases "n = 0")
  case True
  have pin: "p \<in> set (qitems (queuetab k) (sleepq k))" using assms(5) kdues_fst [of k] by force
  have "0 \<le> d"
    using dues_bound [of "qitems (queuetab k) (sleepq k)" "\<lambda>x. qkey (queuetab k x)" p d 0] assms(4,5)
    by (auto simp: kdues_def kdelays_ok_def delays_ok_def)
  moreover have "d \<noteq> 0" if "0 \<notin> snd ` set (kdues k)" using that assms(5) by force
  moreover have "prstate (proctab k p) \<in> {PR_SLEEP, PR_RECTIM}" by (rule queue_state(2) [OF assms(1) pin kqueues_mem(2) refl])
  ultimately show ?thesis using True assms by auto
next
  case False
  obtain k' where k': "clk_ticks n k = Inr k'" "kinv {} k'" "running k'"
    "kdues k' = filter (\<lambda>(_, d). d > 0) (map (\<lambda>(p, d). (p, d - ticks_of (kdues k) n)) (kdues k))"
    using clk_ticks_any [OF assms(1-4)] False by blast
  have L: "distinct (qitems (queuetab k) (sleepq k))"
    using kinvD(1) [OF assms(1)] queues_okD(7) kqueues_mem(2) unfolding qtable_ok_def by blast
  have "map fst (dues f e xs) = xs" for f e xs by (induction xs arbitrary: e) auto
  then have "distinct (map fst (kdues k))" using L by (simp add: kdues_def)
  then have uniq: "d' = d" if "(p, d') \<in> set (kdues k)" for d' using assms(5) that by (metis eq_key_imp_eq_value)
  have pin: "p \<in> set (qitems (queuetab k) (sleepq k))" using assms(5) kdues_fst [of k] by force
  have pp: "p \<in> {0..<NPROC}" using queue_state(4) [OF assms(1) pin kqueues_mem(2)] .
  let ?n = "ticks_of (kdues k) n"
  have "p \<in> fst ` set (kdues k') \<longleftrightarrow> ?n < d"
  proof
    assume "p \<in> fst ` set (kdues k')"
    then obtain e where "(p, e) \<in> set (kdues k')" by auto
    then have "(p, e + ?n) \<in> set (kdues k)" "e > 0" unfolding k'(4) by auto
    then show "?n < d" using uniq by fastforce
  next
    assume "?n < d"
    then have "(p, d - ?n) \<in> set (kdues k')" using imageI [OF assms(5), of "\<lambda>(p, d). (p, d - ?n)"] unfolding k'(4) by simp
    then show "p \<in> fst ` set (kdues k')" by (metis fst_conv image_eqI)
  qed
  then have "p \<in> set (qitems (queuetab k') (sleepq k')) \<longleftrightarrow> ?n < d" by (simp add: kdues_fst)
  moreover have "p \<in> set (qitems (queuetab k') (sleepq k')) \<longleftrightarrow> prstate (proctab k' p) \<in> {PR_SLEEP, PR_RECTIM}"
    using kinv_members [OF k'(2) kqueues_mem(2), of p] pp queue_ids(1,3) [OF k'(2)] kinvD(4) [OF k'(2) pp]
    by (auto simp: home_def split: pstate.splits)
  moreover have "?n < d \<longleftrightarrow> int n < (if 0 \<in> snd ` set (kdues k) then d + 1 else d)" by (auto simp: ticks_of_def)
  ultimately show ?thesis using k'(1-3) by blast
qed

section \<open>The concrete kernel\<close>

text \<open>Process 4 waits for a message; process 4 sleeps for three ticks.\<close>

definition demo_recv :: kern where "demo_recv = set_state 4 PR_RECV (demo_kern 20)"

definition demo_sleep :: kern where
  "demo_sleep = set_state 4 PR_SLEEP (demo_kern 20)\<lparr>queuetab :=
     qset_prev 303 4 (qset_next 302 4 (qset_key 4 3 (qset_prev 4 302 (qset_next 4 303 demo_table))))\<rparr>"

lemma demo_dues: "kdues (demo_kern prio) = []" "kdelays_ok (demo_kern prio)"
proof -
  have "qitems (queuetab (demo_kern prio)) (sleepq (demo_kern prio)) = []"
    using demo_items [OF kqueues_mem(2), of prio] by (simp add: demo_kern_def)
  then show "kdues (demo_kern prio) = []" "kdelays_ok (demo_kern prio)"
    by (simp_all add: kdues_def kdelays_ok_def delays_ok_def)
qed

lemma demo_recv_ok: "kinv {} demo_recv" "prstate (proctab demo_recv 4) = PR_RECV" "\<not> prhasmsg (proctab demo_recv 4)"
  "ndefers demo_recv = 0" "kdelays_ok demo_recv"
proof -
  have h: "home (demo_kern 20) 4 = None" by (simp add: home_def demo_kern_def proc0_def)
  show "kinv {} demo_recv" unfolding demo_recv_def
    by (rule kinv_unqueued_state [OF demo_kinv(1) h]) (simp_all add: NULLPROC_def)
  show "kdelays_ok demo_recv" using demo_dues(2) [of 20] by (simp add: demo_recv_def kdelays_ok_def)
qed (simp_all add: demo_recv_def proctab_set_state, simp_all add: demo_kern_def proc0_def)

theorem message_delivered_witness:
  "\<exists>k'. send 4 99 demo_recv = Inr (OK_st, k') \<and> fst (receive_return 4 k') = 99 \<and> send 4 7 k' = Inr (SYSERR_st, k')"
  using message_delivered [of demo_recv 4 99 7] demo_recv_ok by (auto simp: NPROC_def)

lemma demo_sleep_ok: "kinv {} demo_sleep" "running demo_sleep" "ndefers demo_sleep = 0" "kdelays_ok demo_sleep" "kdues demo_sleep = [(4, 3)]"
proof -
  let ?k = "set_state 4 PR_SLEEP (demo_kern 20)"
  let ?t = "qset_prev 303 4 (qset_next 302 4 (qset_key 4 3 (qset_prev 4 302 (qset_next 4 303 demo_table))))"
  let ?Q = "\<lambda>q :: int. if q = 300 then [0 :: int] else []"
  have f: "queuetab ?k = demo_table" "sleepq ?k = 302" "kqueues ?k = kqueues (demo_kern 20)" "queuetab demo_sleep = ?t" "sleepq demo_sleep = 302"
    by (simp_all add: demo_sleep_def) (simp_all add: demo_kern_def)
  have h: "home (demo_kern 20) 4 = None" by (simp add: home_def demo_kern_def proc0_def)
  have "kinv {4} (demo_kern 20)" using kinv_None [OF h, of "{}" "{4}"] demo_kinv(1) [of 20] by simp
  then have k: "kinv {4} ?k" by (rule kinv_set_state) (auto simp: NULLPROC_def)
  have S: "302 \<in> kqueues (demo_kern 20)" by (simp add: kqueues_def demo_kern_def)
  have nq: "4 \<notin> queued ?Q (kqueues (demo_kern 20))" by (auto simp: queued_def)
  have "queues_ok ?t (?Q(302 := [] @ 4 # [])) (kqueues (demo_kern 20))"
    by (rule queues_link_in [OF demo_queues S _ _ nq, of "[]" "[]" 302 303]) (auto simp: NPROC_def demo_table_def)
  then have ok: "queues_ok ?t (?Q(302 := [4])) (kqueues (demo_kern 20))" by simp
  have items: "qitems ?t r = (?Q(302 := [4])) r" if "r \<in> kqueues (demo_kern 20)" for r using qitems_eq [OF ok that] .
  have r: "relinked (queuetab ?k) ?t (kqueues ?k) 302 [4]"
    using qtable_okI [OF ok] items demo_items [of _ 20] f by (auto simp: relinked_def)
  have "kinv ({4} - {4}) (?k\<lparr>queuetab := ?t\<rparr>)"
  proof (rule kinv_put [OF k _ _ _ r])
    show "set [4] = insert 4 (set (qitems (queuetab ?k) 302))" using demo_items [OF S] f by simp
    show "302 = readylist ?k \<Longrightarrow> ready_sorted ?t 302" by (simp add: demo_kern_def)
  qed (auto simp: home_def NPROC_def demo_kern_def)
  then show "kinv {} demo_sleep" by (simp add: demo_sleep_def)
  show "running demo_sleep" "ndefers demo_sleep = 0"
    using demo_sel(2) [of 20] by (simp_all add: demo_sleep_def running_def demo_sel) (simp add: demo_kern_def proc0_def)
  have it: "qitems (queuetab demo_sleep) (sleepq demo_sleep) = [4]" using items [OF S] f by simp
  show "kdues demo_sleep = [(4, 3)]" unfolding kdues_def it unfolding f(4) by simp
  show "kdelays_ok demo_sleep" unfolding kdelays_ok_def it unfolding f(4) delays_ok_def by simp
qed

theorem sleepers_wake_on_time_witness:
  "(\<exists>k'. clk_ticks 2 demo_sleep = Inr k' \<and> prstate (proctab k' 4) \<in> {PR_SLEEP, PR_RECTIM}) \<and>
   (\<exists>k'. clk_ticks 3 demo_sleep = Inr k' \<and> prstate (proctab k' 4) \<notin> {PR_SLEEP, PR_RECTIM})"
  using sleepers_wake_on_time [of demo_sleep 4 3 2] sleepers_wake_on_time [of demo_sleep 4 3 3] demo_sleep_ok
  by (simp del: clk_ticks.simps) blast

end
