(* ===== verification/Kernel.thy ===== *)
theory Kernel
  imports Timing
begin

text \<open>
  The tables of the kernel as a whole: their initialisation (\<^verbatim>\<open>system/initialize.c\<close>, function \<^verbatim>\<open>sysinit\<close>, and
  \<^verbatim>\<open>system/clkinit.c\<close>), the system calls and the parts of the clock interrupt as one function, and
  the invariant they keep. Console output, the interrupt controller, the buffer pools and the
  drivers, which \<^verbatim>\<open>sysinit\<close> also initialises, do not touch the state modelled here.
\<close>

section \<open>Initialisation\<close>

definition NULLSTK :: nat where "NULLSTK = 8192"

definition sysinit_proc :: "int \<Rightarrow> kern \<Rightarrow> kern" where
  "sysinit_proc i = upd_proc i (\<lambda>e. e\<lparr>prstate := PR_FREE, prname := (prname e)[0 := 0], prstkbase := 0, prprio := 0\<rparr>)"

definition sysinit_sem :: "int \<Rightarrow> kern \<Rightarrow> kern" where
  "sysinit_sem i k = (case newqueue k of (q, k) \<Rightarrow> upd_sem i (\<lambda>_. \<lparr>sused = False, scount = 0, squeue = q\<rparr>) k)"

definition clkinit :: "kern \<Rightarrow> kern" where
  "clkinit k = (case newqueue k of (q, k) \<Rightarrow> k\<lparr>sleepq := q, preempt := QUANTUM, kclktime := 0\<rparr>)"

definition sysinit_null :: "nat \<Rightarrow> kern \<Rightarrow> kern" where
  "sysinit_null stk k =
     (upd_proc NULLPROC (\<lambda>e. e\<lparr>prstate := PR_CURR, prprio := 0, prname := [112, 114, 110, 117, 108, 108, 0] @ drop 7 (prname e),
        prstkbase := stk, prstklen := NULLSTK\<rparr>) k)\<lparr>currpid := NULLPROC\<rparr>"

definition sysinit :: "nat \<Rightarrow> kern \<Rightarrow> kern" where
  "sysinit stk k =
     (let k = k\<lparr>prcount := 1, ndefers := 0\<rparr>;
          k = fold sysinit_proc (map int [0..<nat NPROC]) k;
          k = sysinit_null stk k;
          k = fold sysinit_sem (map int [0..<nat NSEM]) k;
          (q, k) = newqueue k;
          k = k\<lparr>readylist := q\<rparr>
      in clkinit k)"

section \<open>System calls as transitions\<close>

datatype kcall = Yield | Suspend int | Resume int | Chprio int int | Wait int | Signal int | Signaln int int
  | Semcreate int | Semdelete int | Semreset int int | Send int u32 | Receive | Receive_return int | Recvclr
  | Recvtime int | Recvtime_return int | Sleepms int | Tick | Preempt

definition drop_res :: "('a \<times> kern) res \<Rightarrow> kern res" where
  "drop_res r = bind_res r (\<lambda>(_, k). Inr k)"

fun exec :: "kcall \<Rightarrow> kern \<Rightarrow> kern res" where
  "exec Yield k = drop_res (yield k)"
| "exec (Suspend p) k = drop_res (suspend p k)"
| "exec (Resume p) k = drop_res (resume p k)"
| "exec (Chprio p prio) k = Inr (snd (chprio p prio k))"
| "exec (Wait s) k = drop_res (wait s k)"
| "exec (Signal s) k = drop_res (signal s k)"
| "exec (Signaln s n) k = drop_res (signaln s n k)"
| "exec (Semcreate n) k = Inr (snd (semcreate n k))"
| "exec (Semdelete s) k = drop_res (semdelete s k)"
| "exec (Semreset s n) k = drop_res (semreset s n k)"
| "exec (Send p m) k = drop_res (send p m k)"
| "exec Receive k = drop_res (receive k)"
| "exec (Receive_return p) k = Inr (snd (receive_return p k))"
| "exec Recvclr k = Inr (snd (recvclr k))"
| "exec (Recvtime d) k = drop_res (recvtime d k)"
| "exec (Recvtime_return p) k = Inr (snd (recvtime_return p k))"
| "exec (Sleepms d) k = drop_res (sleepms d k)"
| "exec Tick k = clk_sleepers (clk_count k)"
| "exec Preempt k = clk_preempt k"

text \<open>What the callers have to respect: the null process does not block, arguments fit their types, and
  semaphore counts do not overflow; a timed wait of zero ticks is left out (see the header).\<close>

fun may :: "kcall \<Rightarrow> kern \<Rightarrow> bool" where
  "may (Chprio p prio) k \<longleftrightarrow> -32768 \<le> prio \<and> prio < 32768"
| "may (Wait s) k \<longleftrightarrow> currpid k \<noteq> NULLPROC \<and> scount (semtab k s) > -2147483648"
| "may (Signal s) k \<longleftrightarrow> scount (semtab k s) < 2147483647"
| "may (Signaln s n) k \<longleftrightarrow> scount (semtab k s) + n < 2147483648"
| "may (Semcreate n) k \<longleftrightarrow> n < 2147483648"
| "may (Semdelete s) k \<longleftrightarrow> scount (semtab k s) < 2147483647"
| "may (Semreset s n) k \<longleftrightarrow> n < 2147483648"
| "may Receive k \<longleftrightarrow> currpid k \<noteq> NULLPROC"
| "may (Recvtime d) k \<longleftrightarrow> currpid k \<noteq> NULLPROC \<and> d \<noteq> 0 \<and> d < 2147483648"
| "may (Sleepms d) k \<longleftrightarrow> currpid k \<noteq> NULLPROC \<and> d < 2147483648"
| "may _ k \<longleftrightarrow> True"

definition kernel_ok :: "kern \<Rightarrow> bool" where
  "kernel_ok k \<longleftrightarrow> kinv {} k \<and> running k \<and> ndefers k = 0 \<and> sems_ok k \<and> kdelays_ok k \<and>
     (\<forall>(p, d) \<in> set (kdues k). d > 0) \<and> nextsem k \<in> {0..<NSEM}"

lemma kernel_okD:
  assumes "kernel_ok k"
  shows "kinv {} k" "running k" "ndefers k = 0" "ndefers k \<le> 0" "sems_ok k" "kdelays_ok k"
    "\<forall>(p, d) \<in> set (kdues k). d > 0" "nextsem k \<in> {0..<NSEM}"
  using assms by (simp_all add: kernel_ok_def)

lemma sleep_same_kdues: "sleep_same k k' \<Longrightarrow> kdues k' = kdues k" "sleep_same k k' \<Longrightarrow> kdelays_ok k' = kdelays_ok k"
proof -
  assume a: "sleep_same k k'"
  then show "kdues k' = kdues k" by (auto simp: sleep_same_def kdues_def intro: dues_cong)
  have "sum_list (map (\<lambda>x. qkey (queuetab k' x)) (qitems (queuetab k) (sleepq k))) =
      sum_list (map (\<lambda>x. qkey (queuetab k x)) (qitems (queuetab k) (sleepq k)))"
    using a by (intro arg_cong [where f = sum_list] map_cong) (auto simp: sleep_same_def)
  then show "kdelays_ok k' = kdelays_ok k" using a by (simp add: kdelays_ok_def sleep_same_def delays_ok_def)
qed

text \<open>The invariant after a call that leaves the sleepers alone.\<close>

lemma kernel_ok_nextsem:
  assumes "kernel_ok k" "kinv {} k'" "running k'" "ndefers k' = 0" "sems_ok k'" "sleep_same k k'" "nextsem k' = nextsem k"
  shows "kernel_ok k'"
  using assms sleep_same_kdues [OF assms(6)] by (simp add: kernel_ok_def)

definition kernel_step :: "kern \<Rightarrow> kern \<Rightarrow> bool" where
  "kernel_step k k' \<longleftrightarrow> kernel_ok k' \<and> procs_same k k'"

lemma kernel_step_refl [simp, intro]: "kernel_ok k \<Longrightarrow> kernel_step k k"
  by (simp add: kernel_step_def)

lemma kernel_step_trans: "kernel_step k k' \<Longrightarrow> kernel_step k' k'' \<Longrightarrow> kernel_step k k''"
  by (auto simp: kernel_step_def intro: procs_same_trans)

lemma kernel_stepD: "kernel_step k k' \<Longrightarrow> kernel_ok k'" "kernel_step k k' \<Longrightarrow> procs_same k k'"
  by (simp_all add: kernel_step_def)

lemma kernel_okI:
  assumes "kernel_ok k" "kinv {} k'" "running k'" "ndefers k' = 0" "sems_ok k'" "sleep_same k k'" "kept k k'"
  shows "kernel_step k k'"
  using kernel_ok_nextsem [OF assms(1-6)] assms(7) by (simp add: kernel_step_def kept_def)

lemma sems_ok_cong: "sems_ok k \<Longrightarrow> (\<And>s. s \<in> {0..<NSEM} \<Longrightarrow> sem_ok k' s = sem_ok k s) \<Longrightarrow> sems_ok k'"
  by (simp add: sems_ok_def)

lemma kernel_ok_only_ready:
  assumes "kernel_ok k" "only_ready k k'" "kinv {} k'" "running k'" "ndefers k' = 0"
  shows "kernel_step k k'"
proof (rule kernel_okI [OF assms(1,3-5)])
  note k = kernel_okD [OF assms(1)]
  show "sems_ok k'" by (rule sems_ok_cong [OF k(5)]) (rule sem_ok_only_ready(1) [OF assms(2) k(1)])
  show "sleep_same k k'" using only_ready_sleep [OF assms(2) kinvD(2) [OF k(1)]] .
  show "kept k k'" using only_ready_kept [OF assms(2)] .
qed

lemma resched_kernel:
  assumes "kernel_ok k"
  shows "\<exists>k'. resched k = Inr k' \<and> kernel_step k k'"
  using resched_ok [OF kernel_okD(1,4) [OF assms]] kernel_ok_only_ready [OF assms] kernel_okD(3) [OF assms] by auto

lemma kernel_ok_same:
  assumes "kernel_ok k" "queuetab k' = queuetab k" "semtab k' = semtab k" "readylist k' = readylist k" "sleepq k' = sleepq k"
    "kept k k'" "ndefers k' = ndefers k" "kinv {} k'" "running k'"
  shows "kernel_step k k'"
proof (rule kernel_okI [OF assms(1,8,9)])
  show "sems_ok k'" using kernel_okD(5) [OF assms(1)] assms(2,3) by (simp add: sems_ok_def sem_ok_def sem_queue_def Let_def)
  show "sleep_same k k'" using assms(2,5) by (simp add: sleep_same_def)
qed (use assms kernel_okD(3) [OF assms(1)] in auto)

lemma kernel_ok_upd_other:
  assumes "kernel_ok k" "\<And>e. prstate (f e) = prstate e \<and> prprio (f e) = prprio e \<and> prsem (f e) = prsem e"
  shows "kernel_ok (upd_proc p f k)"
  using kernel_okD [OF assms(1)] upd_other_same [OF assms(2)] kinv_upd_other [OF _ assms(2)]
  by (intro kernel_ok_nextsem [OF assms(1)]) (simp_all add: sems_ok_def sleep_same_def)

lemma kernel_ok_upd:
  assumes "kernel_ok k" "\<And>e. prstate (f e) = prstate e \<and> prprio (f e) = prprio e \<and> prsem (f e) = prsem e"
    "\<And>e. prstkbase (f e) = prstkbase e \<and> prstklen (f e) = prstklen e"
  shows "kernel_step k (upd_proc p f k)"
  using kernel_ok_upd_other [OF assms(1,2)] assms(2,3) by (simp add: kernel_step_def procs_same_def)

lemma positive_add_timer:
  "\<forall>(p, d) \<in> set ts. d > 0 \<Longrightarrow> 0 < e \<Longrightarrow> \<forall>(p, d) \<in> set (add_timer q e ts). d > 0"
  by (auto simp: add_timer_set)

lemma drop_res_Inr [simp]: "drop_res (Inr (r, k)) = Inr k"
  by (simp add: drop_res_def)

lemma yield_kernel: "kernel_ok k \<Longrightarrow> \<exists>r k'. yield k = Inr (r, k') \<and> kernel_step k k'"
  using resched_kernel [of k] by (auto simp: yield_def)

lemma suspend_kernel:
  assumes ok: "kernel_ok k"
  shows "\<exists>r k'. suspend p k = Inr (r, k') \<and> kernel_step k k'"
proof (cases "isbadpid k p \<or> p = NULLPROC \<or> prstate (proctab k p) \<notin> {PR_CURR, PR_READY}")
  case True
  then show ?thesis using kernel_step_refl [OF ok] by (auto simp: suspend_def)
next
  case False
  note k = kernel_okD [OF ok]
  have p: "p \<noteq> NULLPROC" "p \<in> {0..<NPROC}" using False by (auto simp: isbadpid_def)
  show ?thesis
  proof (cases "prstate (proctab k p) = PR_READY")
    case True
    obtain k' where k': "suspend p k = Inr (None, k')" "kinv {} k'" "semtab k' = semtab k"
      "\<And>r. r \<in> kqueues k \<Longrightarrow> r \<noteq> readylist k \<Longrightarrow> qitems (queuetab k') r = qitems (queuetab k) r"
      "currpid k' = currpid k" "ndefers k' = ndefers k" "\<And>x. x \<noteq> p \<Longrightarrow> proctab k' x = proctab k x"
      "sleep_same k k'" "kept k k'"
      using suspend_ready [OF k(1) p True] by metis
    have "p \<noteq> currpid k" using True k(2) by (auto simp: running_def)
    then have "running k'" using k(2) k'(5,7) by (simp add: running_def)
    moreover have "sems_ok k'"
      by (rule sems_ok_cong [OF k(5)]) (use k'(3,4) queue_ids(2) [OF k(1)] in \<open>simp add: sem_ok_def sem_queue_def kqueues_def\<close>)
    ultimately show ?thesis using k' k(3) kernel_okI [OF ok k'(2)] by auto
  next
    case nr: False
    then have st: "prstate (proctab k p) = PR_CURR" using False by auto
    let ?k = "set_state p PR_SUSP k"
    have inv: "kinv {} ?k" by (rule kinv_unqueued_state [OF k(1)]) (use st p in \<open>auto simp: home_def\<close>)
    obtain k' where k': "suspend p k = Inr (None, k')" "kinv {} k'" "running k'" "only_ready ?k k'" "ndefers k' = ndefers k"
      using suspend_current [OF k(1) p st k(4)] by metis
    have "sems_ok k'" by (rule sems_ok_cong [OF k(5)]) (use sem_ok_only_ready(1) [OF k'(4) inv] in \<open>simp add: sem_ok_def\<close>)
    moreover have "sleep_same k k'" using only_ready_sleep [OF k'(4) kinvD(2) [OF inv]] by (simp add: sleep_same_def)
    moreover have "kept k ?k" using st by (simp add: kept_def procs_same_def proctab_set_state)
    then have "kept k k'" using only_ready_kept [OF k'(4)] by (rule kept_trans)
    ultimately show ?thesis using k' k(3) kernel_okI [OF ok k'(2,3)] by auto
  qed
qed

lemma resume_kernel:
  assumes ok: "kernel_ok k"
  shows "\<exists>r k'. resume p k = Inr (r, k') \<and> kernel_step k k'"
proof (cases "isbadpid k p \<or> prstate (proctab k p) \<noteq> PR_SUSP")
  case True
  then show ?thesis using kernel_step_refl [OF ok] by (auto simp: resume_def)
next
  case False
  note k = kernel_okD [OF ok]
  have p: "p \<in> {0..<NPROC}" "prstate (proctab k p) = PR_SUSP" using False by (auto simp: isbadpid_def)
  obtain k' where "resume p k = Inr (prprio (proctab k p), k')" "kinv {} k'" "running k'" "only_ready k k'" "ndefers k' = ndefers k"
    using resume_spec [OF k(1) p k(4)] by metis
  then show ?thesis using kernel_ok_only_ready [OF ok] k(3) by auto
qed

lemma wait_kernel:
  assumes ok: "kernel_ok k" and m: "may (Wait s) k"
  shows "\<exists>r k'. wait s k = Inr (r, k') \<and> kernel_step k k'"
proof (cases "isbadsem s \<or> \<not> sused (semtab k s)")
  case True
  then show ?thesis using kernel_step_refl [OF ok] by (auto simp: wait_def)
next
  case False
  note k = kernel_okD [OF ok]
  have s: "s \<in> {0..<NSEM}" "sused (semtab k s)" using False by (auto simp: isbadsem_iff)
  obtain k' where "wait s k = Inr (OK_st, k')" "kinv {} k'" "running k'" "ndefers k' = ndefers k" "sems_ok k'" "sleep_same k k'" "kept k k'"
    using wait_spec [OF k(1,2,4,5) s] m by (metis may.simps(2))
  then show ?thesis using kernel_okI [OF ok] k(3) by auto
qed

lemma signal_kernel:
  assumes ok: "kernel_ok k" and m: "may (Signal s) k"
  shows "\<exists>r k'. signal s k = Inr (r, k') \<and> kernel_step k k'"
proof (cases "isbadsem s \<or> \<not> sused (semtab k s)")
  case True
  then show ?thesis using kernel_step_refl [OF ok] by (auto simp: signal_def)
next
  case False
  note k = kernel_okD [OF ok]
  have s: "s \<in> {0..<NSEM}" "sused (semtab k s)" "scount (semtab k s) < 2147483647" using False m by (auto simp: isbadsem_iff)
  obtain k' where "signal s k = Inr (OK_st, k')" "kinv {} k'" "running k'" "ndefers k' = ndefers k" "sems_ok k'" "sleep_same k k'" "kept k k'"
    using signal_spec [OF k(1,2,4,5) s] by metis
  then show ?thesis using kernel_okI [OF ok] k(3) by auto
qed

lemma signaln_kernel:
  assumes ok: "kernel_ok k" and m: "may (Signaln s n) k"
  shows "\<exists>r k'. signaln s n k = Inr (r, k') \<and> kernel_step k k'"
proof (cases "isbadsem s \<or> n < 0 \<or> \<not> sused (semtab k s)")
  case True
  then show ?thesis using kernel_step_refl [OF ok] by (auto simp: signaln_def)
next
  case False
  note k = kernel_okD [OF ok]
  have s: "s \<in> {0..<NSEM}" "sused (semtab k s)" "0 \<le> n" "scount (semtab k s) + n < 2147483648" using False m by (auto simp: isbadsem_iff)
  obtain k' where "signaln s n k = Inr (OK_st, k')" "kinv {} k'" "running k'" "ndefers k' = 0" "sems_ok k'" "sleep_same k k'" "kept k k'"
    using signaln_spec [OF k(1-3,5) s] by metis
  then show ?thesis using kernel_okI [OF ok] by auto
qed

lemma semdelete_kernel:
  assumes ok: "kernel_ok k" and m: "may (Semdelete s) k"
  shows "\<exists>r k'. semdelete s k = Inr (r, k') \<and> kernel_step k k'"
proof (cases "isbadsem s \<or> \<not> sused (semtab k s)")
  case True
  then show ?thesis using kernel_step_refl [OF ok] by (auto simp: semdelete_def)
next
  case False
  note k = kernel_okD [OF ok]
  have s: "s \<in> {0..<NSEM}" "sused (semtab k s)" "scount (semtab k s) < 2147483647" using False m by (auto simp: isbadsem_iff)
  obtain k' where "semdelete s k = Inr (OK_st, k')" "kinv {} k'" "running k'" "ndefers k' = 0" "sems_ok k'" "sleep_same k k'" "kept k k'"
    using semdelete_spec [OF k(1-3,5) s] by metis
  then show ?thesis using kernel_okI [OF ok] by auto
qed

lemma semreset_kernel:
  assumes ok: "kernel_ok k" and m: "may (Semreset s n) k"
  shows "\<exists>r k'. semreset s n k = Inr (r, k') \<and> kernel_step k k'"
proof (cases "n < 0 \<or> isbadsem s \<or> \<not> sused (semtab k s)")
  case True
  then show ?thesis using kernel_step_refl [OF ok] by (auto simp: semreset_def)
next
  case False
  note k = kernel_okD [OF ok]
  have s: "s \<in> {0..<NSEM}" "sused (semtab k s)" "0 \<le> n" "n < 2147483648" using False m by (auto simp: isbadsem_iff)
  obtain k' where "semreset s n k = Inr (OK_st, k')" "kinv {} k'" "running k'" "ndefers k' = 0" "sems_ok k'" "sleep_same k k'" "kept k k'"
    using semreset_spec [OF k(1-3,5) s] by metis
  then show ?thesis using kernel_okI [OF ok] by auto
qed

lemma semcreate_sleepq: "sleepq (snd (semcreate n k)) = sleepq k"
proof -
  have "sleepq (snd (newsem_loop m k)) = sleepq k" for m k
    by (induction m arbitrary: k) (auto simp: Let_def)
  then have "sleepq (snd (newsem k)) = sleepq k" by (simp add: newsem_def)
  then show ?thesis by (auto simp: semcreate_def split: prod.splits)
qed

lemma semcreate_kernel:
  assumes ok: "kernel_ok k" and m: "may (Semcreate n) k"
  shows "kernel_step k (snd (semcreate n k))"
proof (cases "n < 0")
  case True
  then show ?thesis using ok by (simp add: semcreate_def)
next
  case False
  note k = kernel_okD [OF ok]
  obtain sem k' where k': "semcreate n k = (sem, k')" "kinv {} k'" "sems_ok k'" "nextsem k' \<in> {0..<NSEM}" "running k' = running k"
    "queuetab k' = queuetab k" "ndefers k' = ndefers k" "proctab k' = proctab k"
    by (rule semcreate_spec [OF k(1,5,8)]) (use False m in auto)
  have "sleepq k' = sleepq k" using semcreate_sleepq [of n k] k'(1) by simp
  then have "sleep_same k k'" by (simp add: sleep_same_def k')
  then show ?thesis using k' k sleep_same_kdues [of k k'] by (simp add: kernel_ok_def kernel_step_def procs_same_def)
qed

lemma send_kernel:
  assumes ok: "kernel_ok k"
  shows "\<exists>r k'. send p m k = Inr (r, k') \<and> kernel_step k k'"
proof (cases "isbadpid k p \<or> prhasmsg (proctab k p)")
  case True
  then show ?thesis using kernel_step_refl [OF ok] by (auto simp: send_def)
next
  case False
  note k = kernel_okD [OF ok]
  have p: "p \<in> {0..<NPROC}" "\<not> prhasmsg (proctab k p)" using False by (auto simp: isbadpid_def)
  let ?f = "\<lambda>e. e\<lparr>prmsg := m, prhasmsg := True\<rparr>"
  show ?thesis
  proof (cases "prstate (proctab k p) \<in> {PR_RECV, PR_RECTIM}")
    case True
    have "\<exists>k'. send p m k = Inr (OK_st, k') \<and> kinv {} k' \<and> running k' \<and> ndefers k' = ndefers k \<and>
      set (kdues k') \<subseteq> set (kdues k) \<and> kdelays_ok k' \<and> (\<forall>s \<in> {0..<NSEM}. sem_ok k' s = sem_ok k s) \<and> kept k k'"
    proof (cases "prstate (proctab k p) = PR_RECV")
      case recv: True
      show ?thesis by (rule send_recv [OF k(1) p(1) recv p(2) k(4), of m]) (use k(6) in auto)
    next
      case False
      then have st: "prstate (proctab k p) = PR_RECTIM" using True by simp
      show ?thesis by (rule send_rectim [OF k(1) p(1) st p(2) k(4,6), of m]) (use k(6) in auto)
    qed
    then obtain k' where k': "send p m k = Inr (OK_st, k')" "kinv {} k'" "running k'" "ndefers k' = ndefers k"
      "set (kdues k') \<subseteq> set (kdues k)" "kdelays_ok k'" "\<forall>s \<in> {0..<NSEM}. sem_ok k' s = sem_ok k s" "kept k k'"
      by blast
    then have "kernel_step k k'" using k sems_ok_cong [OF k(5), of k'] by (auto simp: kernel_ok_def kernel_step_def kept_def)
    then show ?thesis using k'(1) by blast
  next
    case other: False
    have "send p m k = Inr (OK_st, upd_proc p ?f k)" using False other by (simp add: send_def)
    then show ?thesis using kernel_ok_upd [OF ok, of ?f p] by simp
  qed
qed

lemma receive_return_kernel: "kernel_ok k \<Longrightarrow> kernel_step k (snd (receive_return p k))"
  by (simp add: receive_return_def kernel_ok_upd)

lemma receive_kernel:
  assumes ok: "kernel_ok k" and c: "currpid k \<noteq> NULLPROC"
  shows "\<exists>r k'. receive k = Inr (r, k') \<and> kernel_step k k'"
proof (cases "prhasmsg (proctab k (currpid k))")
  case True
  then show ?thesis using receive_return_kernel [OF ok, of "currpid k"]
    by (cases "receive_return (currpid k) k") (simp add: receive_def)
next
  case False
  note k = kernel_okD [OF ok]
  obtain k' where "receive k = Inr (None, k')" "kinv {} k'" "running k'" "ndefers k' = ndefers k" "kdues k' = kdues k"
    "kdelays_ok k' = kdelays_ok k" "\<And>s. s \<in> {0..<NSEM} \<Longrightarrow> sem_ok k' s = sem_ok k s" "kept k k'"
    using receive_block [OF k(1,2,4) c False] by metis
  then show ?thesis using k sems_ok_cong [OF k(5), of k'] by (auto simp: kernel_ok_def kernel_step_def kept_def)
qed

lemma recvtime_kernel:
  assumes ok: "kernel_ok k" and m: "may (Recvtime d) k"
  shows "\<exists>r k'. recvtime d k = Inr (r, k') \<and> kernel_step k k'"
proof (cases "d < 0 \<or> prhasmsg (proctab k (currpid k))")
  case True
  then show ?thesis using ok receive_return_kernel [OF ok, of "currpid k"]
    by (cases "receive_return (currpid k) k") (auto simp: recvtime_def recvtime_return_def)
next
  case False
  note k = kernel_okD [OF ok]
  have d: "currpid k \<noteq> NULLPROC" "0 \<le> d" "0 < d" "d < 2147483648" "\<not> prhasmsg (proctab k (currpid k))" using False m by auto
  obtain k' where "recvtime d k = Inr (None, k')" "kinv {} k'" "running k'" "ndefers k' = ndefers k"
    "kdues k' = add_timer (currpid k) d (kdues k)" "kdelays_ok k'" "\<And>s. s \<in> {0..<NSEM} \<Longrightarrow> sem_ok k' s = sem_ok k s" "kept k k'"
    using recvtime_spec [OF k(1,2,4,6) d(1,2,4,5)] by metis
  then show ?thesis using k sems_ok_cong [OF k(5), of k'] positive_add_timer [OF k(7) d(3)] by (auto simp: kernel_ok_def kernel_step_def kept_def)
qed

lemma sleepms_kernel:
  assumes ok: "kernel_ok k" and m: "may (Sleepms d) k"
  shows "\<exists>r k'. sleepms d k = Inr (r, k') \<and> kernel_step k k'"
proof (cases "d \<le> 0")
  case True
  then show ?thesis using ok yield_kernel [OF ok] by (cases "d < 0") (auto simp: sleepms_def)
next
  case False
  note k = kernel_okD [OF ok]
  have d: "currpid k \<noteq> NULLPROC" "0 < d" "d < 2147483648" using False m by auto
  obtain k' where "sleepms d k = Inr (OK_st, k')" "kinv {} k'" "running k'" "ndefers k' = ndefers k"
    "kdues k' = add_timer (currpid k) d (kdues k)" "kdelays_ok k'" "\<And>s. s \<in> {0..<NSEM} \<Longrightarrow> sem_ok k' s = sem_ok k s" "kept k k'"
    using sleepms_spec [OF k(1,2,4,6) d] by metis
  then show ?thesis using k sems_ok_cong [OF k(5), of k'] positive_add_timer [OF k(7) d(2)] by (auto simp: kernel_ok_def kernel_step_def kept_def)
qed

lemma tick_kernel:
  assumes ok: "kernel_ok k"
  shows "\<exists>k'. clk_sleepers (clk_count k) = Inr k' \<and> kernel_step k k'"
proof -
  note k = kernel_okD [OF ok]
  let ?k = "clk_count k"
  have nx: "kept k ?k" by (simp add: clk_count_def Let_def kept_def procs_same_def)
  obtain k' where k': "clk_sleepers ?k = Inr k'" "kinv {} k'" "running k'" "ndefers k' = 0" "kdelays_ok k'"
    "kdues k' = tick_timers (kdues ?k)" "\<And>s. s \<in> {0..<NSEM} \<Longrightarrow> sem_ok k' s = sem_ok ?k s" "kept ?k k'"
    by (rule clk_sleepers_spec [of ?k]) (use k in \<open>auto simp: clk_count_same\<close>)
  have "\<forall>(p, d) \<in> set (kdues k'). d > 0" by (auto simp: k'(6) tick_timers_def)
  moreover have "sems_ok k'" by (rule sems_ok_cong [OF k(5)]) (simp add: k'(7) clk_count_same)
  ultimately show ?thesis using k' k(8) kept_trans [OF nx] by (auto simp: kernel_ok_def kernel_step_def kept_def)
qed

lemma preempt_kernel:
  assumes ok: "kernel_ok k"
  shows "\<exists>k'. clk_preempt k = Inr k' \<and> kernel_step k k'"
proof -
  have "kernel_step k (k\<lparr>preempt := x\<rparr>)" for x
    by (rule kernel_ok_same [OF ok])
      (use kernel_okD [OF ok] kinv_cong [of "k\<lparr>preempt := x\<rparr>" k] in \<open>simp_all add: running_def kept_def procs_same_def\<close>)
  then have "kernel_step k (k\<lparr>preempt := x\<rparr>)" "\<exists>k'. resched (k\<lparr>preempt := x\<rparr>) = Inr k' \<and> kernel_step k k'" for x
    using resched_kernel [OF kernel_stepD(1)] kernel_step_trans by blast+
  then show ?thesis by (simp add: clk_preempt_def Let_def)
qed

text \<open>Every call returns, and the invariant holds again.\<close>

lemma exec_kernel:
  assumes ok: "kernel_ok k" and m: "may c k"
  shows "\<exists>k'. exec c k = Inr k' \<and> kernel_step k k'"
proof (cases c)
  case Yield
  then show ?thesis using yield_kernel [OF ok] by auto
next
  case (Suspend p)
  then show ?thesis using suspend_kernel [OF ok, of p] by auto
next
  case (Resume p)
  then show ?thesis using resume_kernel [OF ok, of p] by auto
next
  case (Chprio p prio)
  have "kinv {} (snd (chprio p prio k))" using chprio_kinv [OF kernel_okD(1) [OF ok]] m Chprio by simp
  then have "kernel_step k (snd (chprio p prio k))"
    using kernel_okD(2) [OF ok] by (intro kernel_ok_same [OF ok]) (auto simp: chprio_def running_def kept_def procs_same_def)
  then show ?thesis using Chprio by simp
next
  case (Wait s)
  then show ?thesis using wait_kernel [OF ok, of s] m by auto
next
  case (Signal s)
  then show ?thesis using signal_kernel [OF ok, of s] m by auto
next
  case (Signaln s n)
  then show ?thesis using signaln_kernel [OF ok, of s n] m by auto
next
  case (Semcreate n)
  then show ?thesis using semcreate_kernel [OF ok, of n] m by auto
next
  case (Semdelete s)
  then show ?thesis using semdelete_kernel [OF ok, of s] m by auto
next
  case (Semreset s n)
  then show ?thesis using semreset_kernel [OF ok, of s n] m by auto
next
  case (Send p x)
  then show ?thesis using send_kernel [OF ok, of p x] by auto
next
  case Receive
  then show ?thesis using receive_kernel [OF ok] m by auto
next
  case (Receive_return p)
  then show ?thesis using receive_return_kernel [OF ok] by auto
next
  case Recvclr
  then show ?thesis using receive_return_kernel [OF ok] ok by (simp add: recvclr_def)
next
  case (Recvtime d)
  then show ?thesis using recvtime_kernel [OF ok, of d] m by auto
next
  case (Recvtime_return p)
  then show ?thesis using receive_return_kernel [OF ok] ok by (simp add: recvtime_return_def)
next
  case (Sleepms d)
  then show ?thesis using sleepms_kernel [OF ok, of d] m by auto
next
  case Tick
  then show ?thesis using tick_kernel [OF ok] by auto
next
  case Preempt
  then show ?thesis using preempt_kernel [OF ok] by auto
qed

section \<open>The initial state\<close>

lemma sysinit_procs:
  "fold sysinit_proc (map int [0..<n]) k =
     k\<lparr>proctab := (\<lambda>p. if 0 \<le> p \<and> p < int n
        then (proctab k p)\<lparr>prstate := PR_FREE, prname := (prname (proctab k p))[0 := 0], prstkbase := 0, prprio := 0\<rparr>
        else proctab k p)\<rparr>"
proof (induction n)
  case (Suc n)
  then show ?case by (auto simp: sysinit_proc_def upd_proc_def fun_eq_iff)
next
  case 0
  show ?case by (rule kern.equality) (auto simp: fun_eq_iff)
qed

lemma sysinit_sems:
  assumes "nextqid k = NPROC" "n \<le> 100"
  defines "S \<equiv> \<lambda>m. (\<lambda>i. NPROC + 2 * int i) ` {0..<m}"
  shows "\<exists>t st. fold sysinit_sem (map int [0..<n]) k = k\<lparr>queuetab := t, semtab := st, nextqid := NPROC + 2 * int n\<rparr> \<and>
    queues_ok t (\<lambda>_. []) (S n) \<and> (\<forall>i < n. st (int i) = \<lparr>sused = False, scount = 0, squeue = NPROC + 2 * int i\<rparr>)"
  using assms(2)
proof (induction n)
  case 0
  show ?case using assms(1) by (intro exI [of _ "queuetab k"] exI [of _ "semtab k"]) (simp add: queues_ok_def S_def)
next
  case (Suc n)
  then obtain t st where IH: "fold sysinit_sem (map int [0..<n]) k = k\<lparr>queuetab := t, semtab := st, nextqid := NPROC + 2 * int n\<rparr>"
    "queues_ok t (\<lambda>_. []) (S n)" "\<forall>i < n. st (int i) = \<lparr>sused = False, scount = 0, squeue = NPROC + 2 * int i\<rparr>" by auto
  let ?k = "k\<lparr>queuetab := t, semtab := st, nextqid := NPROC + 2 * int n\<rparr>" and ?q = "NPROC + 2 * int n"
  have b: "NPROC \<le> ?q" "?q + 1 < NQENT" "\<And>r. r \<in> S n \<Longrightarrow> r + 1 < ?q"
    using Suc.prems by (auto simp: NQENT_def NPROC_def NSEM_def S_def)
  have ok: "queues_ok (queuetab ?k) (\<lambda>_. []) (S n)" using IH(2) by simp
  obtain t' where t': "newqueue ?k = (?q, ?k\<lparr>nextqid := ?q + 2, queuetab := t'\<rparr>)" "queues_ok t' ((\<lambda>_. [])(?q := [])) (insert ?q (S n))"
    by (rule newqueue_spec [where q = ?q, OF ok _ b(1,2)]) (use b(3) in auto)
  have "S (Suc n) = insert ?q (S n)" by (auto simp: S_def atLeast0_lessThan_Suc)
  moreover have "(\<lambda>_. [])(?q := []) = (\<lambda>_ :: int. [] :: int list)" by auto
  ultimately have ok': "queues_ok t' (\<lambda>_. []) (S (Suc n))" using t'(2) by simp
  let ?st = "st(int n := \<lparr>sused = False, scount = 0, squeue = ?q\<rparr>)"
  have "fold sysinit_sem (map int [0..<Suc n]) k = sysinit_sem (int n) ?k" using IH(1) by simp
  also have "\<dots> = k\<lparr>queuetab := t', semtab := ?st, nextqid := NPROC + 2 * int (Suc n)\<rparr>"
    using t'(1) by (simp add: sysinit_sem_def upd_sem_def)
  finally show ?case using ok' IH(3) by (intro exI [of _ t'] exI [of _ ?st]) (auto simp: less_Suc_eq fun_upd_def)
qed

lemma sysinit_kernel_ok:
  assumes "nextqid k = NPROC" "nextsem k = 0" "\<forall>p. -32768 \<le> prprio (proctab k p) \<and> prprio (proctab k p) < 32768"
  shows "kernel_ok (sysinit stk k)"
proof -
  let ?k1 = "sysinit_null stk (fold sysinit_proc (map int [0..<nat NPROC]) (k\<lparr>prcount := 1, ndefers := 0\<rparr>))"
  have f1: "nextqid ?k1 = NPROC" "nextsem ?k1 = 0" "ndefers ?k1 = 0" "currpid ?k1 = 0"
    "\<And>p. p \<in> {0..<NPROC} \<Longrightarrow> prstate (proctab ?k1 p) = (if p = 0 then PR_CURR else PR_FREE) \<and> prprio (proctab ?k1 p) = 0"
    using assms(1,2) by (auto simp: sysinit_procs sysinit_null_def NPROC_def NULLPROC_def)
  let ?S = "(\<lambda>i. NPROC + 2 * int i) ` {0..<100}"
  obtain t st where sem: "fold sysinit_sem (map int [0..<100]) ?k1 = ?k1\<lparr>queuetab := t, semtab := st, nextqid := NPROC + 2 * int 100\<rparr>"
    "queues_ok t (\<lambda>_. []) ?S" "\<forall>i < 100. st (int i) = \<lparr>sused = False, scount = 0, squeue = NPROC + 2 * int i\<rparr>"
    using sysinit_sems [OF f1(1), of 100] by auto
  let ?k2 = "?k1\<lparr>queuetab := t, semtab := st, nextqid := NPROC + 2 * int 100\<rparr>"
  have b2: "NPROC \<le> 300" "300 + 1 < NQENT" "\<And>r. r \<in> ?S \<Longrightarrow> r + 1 < 300" by (auto simp: NPROC_def NQENT_def NSEM_def)
  have ok2: "queues_ok (queuetab ?k2) (\<lambda>_. []) ?S" using sem(2) by simp
  obtain t3 where t3: "newqueue ?k2 = (300, ?k2\<lparr>nextqid := 300 + 2, queuetab := t3\<rparr>)" "queues_ok t3 ((\<lambda>_. [])(300 := [])) (insert 300 ?S)"
    by (rule newqueue_spec [where q = 300, OF ok2 _ b2(1,2)]) (use b2(3) in \<open>auto simp: NPROC_def\<close>)
  let ?k3 = "?k2\<lparr>nextqid := 300 + 2, queuetab := t3, readylist := 300\<rparr>"
  have b3: "NPROC \<le> 302" "302 + 1 < NQENT" "\<And>r. r \<in> insert 300 ?S \<Longrightarrow> r + 1 < 302" by (auto simp: NPROC_def NQENT_def NSEM_def)
  have e: "(\<lambda>_. [])(x := []) = (\<lambda>_ :: int. [] :: int list)" for x by auto
  have ok3: "queues_ok (queuetab ?k3) (\<lambda>_. []) (insert 300 ?S)" using t3(2) e by simp
  obtain t4 where t4: "newqueue ?k3 = (302, ?k3\<lparr>nextqid := 302 + 2, queuetab := t4\<rparr>)"
    "queues_ok t4 ((\<lambda>_. [])(302 := [])) (insert 302 (insert 300 ?S))"
    by (rule newqueue_spec [where q = 302, OF ok3 _ b3(1,2)]) (use b3(3) in auto)
  let ?k = "?k3\<lparr>nextqid := 302 + 2, queuetab := t4, sleepq := 302, preempt := QUANTUM, kclktime := 0\<rparr>"
  have run: "sysinit stk k = ?k"
    using sem(1) t3(1) t4(1) by (simp add: sysinit_def clkinit_def Let_def NSEM_def)
  have st: "st s = \<lparr>sused = False, scount = 0, squeue = NPROC + 2 * s\<rparr>" if "s \<in> {0..<NSEM}" for s
    using sem(3) [rule_format, of "nat s"] that by (simp add: NSEM_def nat_less_iff)
  have sq: "sem_queue ?k s = NPROC + 2 * s" if "s \<in> {0..<NSEM}" for s using st [OF that] by (simp add: sem_queue_def)
  have img: "sem_queue ?k ` {0..<NSEM} = ?S"
  proof -
    have "sem_queue ?k ` {0..<NSEM} = (\<lambda>s. NPROC + 2 * s) ` {0..<NSEM}" by (rule image_cong [OF refl sq])
    also have "\<dots> = (\<lambda>s. NPROC + 2 * s) ` int ` {0..<100}" by (simp add: NSEM_def image_int_atLeastLessThan)
    finally show ?thesis by (simp add: image_image)
  qed
  have kq: "kqueues ?k = insert 300 (insert 302 ?S)" unfolding kqueues_def img by simp
  then have ok4: "queues_ok t4 (\<lambda>_. []) (kqueues ?k)" using t4(2) e by (simp add: insert_commute)
  have items: "qitems t4 q = []" if "q \<in> kqueues ?k" for q using qitems_eq [OF ok4 that] .
  have i4: "qitems t4 300 = []" "qitems t4 302 = []" using items kq by simp_all
  have "queue_ids_ok ?k"
    using sq unfolding queue_ids_ok_def img by (auto simp: inj_on_def NPROC_def)
  moreover have "home ?k p = None" if "p \<in> {0..<NPROC}" for p using f1(5) [OF that] by (auto simp: home_def)
  ultimately have "kinv {} ?k"
    using qtable_okI [OF ok4] items i4 f1(4,5) by (auto simp: kinv_def ready_sorted_def NULLPROC_def NPROC_def)
  moreover have "running ?k" using f1(4,5) by (simp add: running_def NPROC_def)
  moreover have "sems_ok ?k"
  proof -
    have "sem_ok ?k s" if s: "s \<in> {0..<NSEM}" for s
      using st [OF s] items [of "sem_queue ?k s"] kqueues_mem(3) [OF s, of ?k] by (simp add: sem_ok_def Let_def)
    then show ?thesis by (simp add: sems_ok_def)
  qed
  moreover have "kdues ?k = []" "kdelays_ok ?k" using i4 by (simp_all add: kdues_def kdelays_ok_def delays_ok_def)
  ultimately show ?thesis unfolding run using f1(2,3) by (simp add: kernel_ok_def NSEM_def)
qed

text \<open>The processes that run, and where the others are.\<close>

lemma kernel_ok_meaning:
  assumes "kernel_ok k"
  shows "{p \<in> {0..<NPROC}. prstate (proctab k p) = PR_CURR} = {currpid k}"
    "p \<in> {0..<NPROC} \<Longrightarrow> prstate (proctab k p) = PR_READY \<longleftrightarrow> p \<in> set (qitems (queuetab k) (readylist k))"
    "p \<in> {0..<NPROC} \<Longrightarrow> prstate (proctab k p) \<in> {PR_SLEEP, PR_RECTIM} \<longleftrightarrow> p \<in> set (qitems (queuetab k) (sleepq k))"
    "p \<in> {0..<NPROC} \<Longrightarrow> s \<in> {0..<NSEM} \<Longrightarrow>
       prstate (proctab k p) = PR_WAIT \<and> prsem (proctab k p) = s \<longleftrightarrow> p \<in> set (qitems (queuetab k) (sem_queue k s))"
proof -
  note k = kernel_okD [OF assms]
  note m = kinv_members [OF k(1)] and ids = queue_ids [OF k(1)]
  show "{p \<in> {0..<NPROC}. prstate (proctab k p) = PR_CURR} = {currpid k}"
  proof
    show "{p \<in> {0..<NPROC}. prstate (proctab k p) = PR_CURR} \<subseteq> {currpid k}" using kinvD(5) [OF k(1)] by blast
    show "{currpid k} \<subseteq> {p \<in> {0..<NPROC}. prstate (proctab k p) = PR_CURR}"
      using kinvD(8) [OF k(1)] k(2) by (simp add: running_def)
  qed
  show "prstate (proctab k p) = PR_READY \<longleftrightarrow> p \<in> set (qitems (queuetab k) (readylist k))" if "p \<in> {0..<NPROC}"
    using m [OF kqueues_mem(1), of p] that ids(1,2) kinvD(4) [OF k(1) that] by (auto simp: home_def split: pstate.splits)
  show "prstate (proctab k p) \<in> {PR_SLEEP, PR_RECTIM} \<longleftrightarrow> p \<in> set (qitems (queuetab k) (sleepq k))" if "p \<in> {0..<NPROC}"
    using m [OF kqueues_mem(2), of p] that ids(1,3) kinvD(4) [OF k(1) that] by (auto simp: home_def split: pstate.splits)
  show "prstate (proctab k p) = PR_WAIT \<and> prsem (proctab k p) = s \<longleftrightarrow> p \<in> set (qitems (queuetab k) (sem_queue k s))"
    if "p \<in> {0..<NPROC}" "s \<in> {0..<NSEM}"
    using m [OF kqueues_mem(3) [OF that(2)], of p] that ids(2) [OF that(2)] ids(3) [OF that(2)] ids(4) [OF _ that(2)]
      kinvD(4) [OF k(1) that(1)] by (auto simp: home_def split: pstate.splits)
qed

section \<open>Semaphores of a well-formed kernel\<close>

text \<open>The facts that a client of a semaphore needs: creation, and the tokens before and after.\<close>

lemma semcreate_kernel_spec:
  assumes k: "kernel_ok k" and n: "0 \<le> count" "count < 2147483648"
  shows "\<exists>sem k'. semcreate count k = (sem, k') \<and> kernel_ok k' \<and> (sem = SYSERR_st \<longrightarrow> semtab k' = semtab k) \<and>
    (sem \<noteq> SYSERR_st \<longrightarrow> sem \<in> {0..<NSEM} \<and> sused (semtab k' sem) \<and> sem_abs k' sem = (nat count, []) \<and> \<not> sused (semtab k sem) \<and>
       (\<forall>r. r \<noteq> sem \<longrightarrow> semtab k' r = semtab k r))"
proof -
  note d = kernel_okD [OF k]
  obtain sem k1 where 1: "semcreate count k = (sem, k1)" "sem = SYSERR_st \<Longrightarrow> semtab k1 = semtab k"
    "sem \<noteq> SYSERR_st \<Longrightarrow> sem \<in> {0..<NSEM} \<and> \<not> sused (semtab k sem) \<and> sused (semtab k1 sem) \<and> sem_abs k1 sem = (nat count, []) \<and>
       (\<forall>r. r \<noteq> sem \<longrightarrow> semtab k1 r = semtab k r)"
    by (rule semcreate_spec [OF d(1,5,8) n]) auto
  moreover have "kernel_ok k1" using semcreate_kernel [OF k, of count] 1(1) n by (auto simp: kernel_step_def)
  ultimately show ?thesis by blast
qed

lemma sem_tokens:
  assumes "kernel_ok k" "s \<in> {0..<NSEM}" "sused (semtab k s)"
  shows "snd (sem_abs k s) \<noteq> [] \<longleftrightarrow> scount (semtab k s) < 0" "snd (sem_abs k s) \<noteq> [] \<Longrightarrow> fst (sem_abs k s) = 0"
    "fst (sem_abs k s) > 0 \<longleftrightarrow> scount (semtab k s) > 0"
proof -
  have "sem_ok k s" using kernel_okD(5) [OF assms(1)] assms(2) by (simp add: sems_ok_def)
  then show "snd (sem_abs k s) \<noteq> [] \<longleftrightarrow> scount (semtab k s) < 0" using assms(3) by (auto simp: sem_ok_def sem_abs_def Let_def split: if_splits)
  then show "snd (sem_abs k s) \<noteq> [] \<Longrightarrow> fst (sem_abs k s) = 0" by (simp add: sem_abs_def)
  show "fst (sem_abs k s) > 0 \<longleftrightarrow> scount (semtab k s) > 0" by (simp add: sem_abs_def)
qed

lemma wait_on:
  assumes k: "kernel_ok k" and s: "s \<in> {0..<NSEM}" "sused (semtab k s)" and c: "currpid k \<noteq> NULLPROC" "scount (semtab k s) > -2147483648"
  shows "\<exists>k'. wait s k = Inr (OK_st, k') \<and> kernel_ok k' \<and> (\<forall>r. sused (semtab k' r) = sused (semtab k r)) \<and>
    sem_abs k' s = asem_wait (currpid k) (sem_abs k s) \<and> (\<forall>r \<in> {0..<NSEM}. r \<noteq> s \<longrightarrow> sem_abs k' r = sem_abs k r)"
proof -
  note d = kernel_okD [OF k]
  obtain k' where k': "wait s k = Inr (OK_st, k')" "sem_abs k' s = asem_wait (currpid k) (sem_abs k s)"
    "\<And>r. r \<in> {0..<NSEM} \<Longrightarrow> r \<noteq> s \<Longrightarrow> sem_abs k' r = sem_abs k r"
    "semtab k' = (semtab k)(s := (semtab k s)\<lparr>scount := scount (semtab k s) - 1\<rparr>)"
    using wait_spec [OF d(1,2,4,5) s c] by metis
  moreover have "kernel_ok k'" using wait_kernel [OF k, of s] c k'(1) by (auto simp: kernel_step_def)
  ultimately show ?thesis by simp
qed

lemma signal_on:
  assumes k: "kernel_ok k" and s: "s \<in> {0..<NSEM}" "sused (semtab k s)" and c: "scount (semtab k s) < 2147483647"
  shows "\<exists>k'. signal s k = Inr (OK_st, k') \<and> kernel_ok k' \<and> (\<forall>r. sused (semtab k' r) = sused (semtab k r)) \<and>
    sem_abs k' s = asem_signal (sem_abs k s) \<and> (\<forall>r \<in> {0..<NSEM}. r \<noteq> s \<longrightarrow> sem_abs k' r = sem_abs k r)"
proof -
  note d = kernel_okD [OF k]
  obtain k' where k': "signal s k = Inr (OK_st, k')" "sem_abs k' s = asem_signal (sem_abs k s)"
    "\<And>r. r \<in> {0..<NSEM} \<Longrightarrow> r \<noteq> s \<Longrightarrow> sem_abs k' r = sem_abs k r"
    "semtab k' = (semtab k)(s := (semtab k s)\<lparr>scount := scount (semtab k s) + 1\<rparr>)"
    using signal_spec [OF d(1,2,4,5) s c] by metis
  moreover have "kernel_ok k'" using signal_kernel [OF k, of s] c k'(1) by (auto simp: kernel_step_def)
  ultimately show ?thesis by simp
qed

lemma semreset_on:
  assumes k: "kernel_ok k" and s: "s \<in> {0..<NSEM}" "sused (semtab k s)" and c: "0 \<le> n" "n < 2147483648"
  shows "\<exists>k'. semreset s n k = Inr (OK_st, k') \<and> kernel_ok k' \<and> (\<forall>r. sused (semtab k' r) = sused (semtab k r)) \<and>
    sem_abs k' s = (nat n, []) \<and> (\<forall>r \<in> {0..<NSEM}. r \<noteq> s \<longrightarrow> sem_abs k' r = sem_abs k r)"
proof -
  note d = kernel_okD [OF k]
  obtain k' where k': "semreset s n k = Inr (OK_st, k')" "sem_abs k' s = (nat n, [])"
    "\<And>r. r \<in> {0..<NSEM} \<Longrightarrow> r \<noteq> s \<Longrightarrow> sem_abs k' r = sem_abs k r"
    "semtab k' = (semtab k)(s := (semtab k s)\<lparr>scount := n\<rparr>)"
    using semreset_spec [OF d(1,2,3,5) s c] by metis
  moreover have "kernel_ok k'" using semreset_kernel [OF k, of s n] c k'(1) by (auto simp: kernel_step_def)
  ultimately show ?thesis by simp
qed

lemma asem_wait_tokens: "fst (asem_wait p a) + (if fst a > 0 then 1 else 0) = fst a"
  by (cases a rule: prod.exhaust; cases "fst a") auto

lemma asem_signal_tokens: "(snd a \<noteq> [] \<Longrightarrow> fst a = 0) \<Longrightarrow> fst (asem_signal a) + (if snd a \<noteq> [] then 1 else 0) = fst a + 1"
  by (cases a rule: asem_signal.cases) auto

text \<open>A semaphore nobody waits for can be marked unused.\<close>

lemma kernel_ok_unused:
  assumes k: "kernel_ok k" and c: "scount (semtab k s) = 0"
  shows "kernel_ok (upd_sem s (\<lambda>e. e\<lparr>sused := False\<rparr>) k)"
proof -
  let ?k = "upd_sem s (\<lambda>e. e\<lparr>sused := False\<rparr>) k"
  note d = kernel_okD [OF k]
  have q: "sem_queue ?k = sem_queue k" by (auto simp: sem_queue_def fun_eq_iff)
  have "kinv {} ?k" using kinv_sem_cong(1) [of ?k k "{}"] d(1) q by simp
  moreover have "sem_ok ?k r" if "r \<in> {0..<NSEM}" for r
    using d(5) that c unfolding sems_ok_def sem_ok_def q Let_def by (auto split: if_splits)
  then have "sems_ok ?k" by (simp add: sems_ok_def)
  ultimately show ?thesis
    using d(2,3,8) by (intro kernel_ok_nextsem [OF k]) (simp_all add: running_def sleep_same_def)
qed

lemma demo_kernel_ok: "kernel_ok (demo_kern 20)"
  using demo_kinv [of 20] demo_sems [of 20] demo_dues [of 20] by (simp add: kernel_ok_def demo_sel) (simp add: demo_kern_def NSEM_def)

end
