(* ===== verification/Kmem.thy ===== *)
theory Kmem
  imports Proc_Queue
begin

text \<open>
  The heap of the kernel (\<^verbatim>\<open>include/memory.h\<close>, \<^verbatim>\<open>system/getmem.c\<close>, \<^verbatim>\<open>freemem.c\<close>,
  \<^verbatim>\<open>getstk.c\<close>): the free blocks are linked in order of their addresses, and the header of a free block lies
  at its first address. \<open>mblk\<close> gives the header at an address; the head of the list is at the address \<open>MEMLIST\<close>,
  which is no heap address, and the \<open>NULL\<close> pointer is 0. Addresses and sizes are 32-bit values kept as integers,
  with the wrap-around written out (\<open>w32\<close>). The specification is the list of the free blocks.
\<close>

record memblk =
  mnext :: int
  mlength :: int

record kmem =
  mblk :: "int \<Rightarrow> memblk"
  minheap :: int
  maxheap :: int

definition MEMLIST :: int where "MEMLIST = -1"

definition w32 :: "int \<Rightarrow> int" where "w32 x = x mod 4294967296"

lemma w32_id [simp]: "0 \<le> x \<Longrightarrow> x < 4294967296 \<Longrightarrow> w32 x = x"
  by (simp add: w32_def)

definition roundmb :: "int \<Rightarrow> int" where
  "roundmb x = w32 (7 + x) div 8 * 8"

definition set_mnext :: "int \<Rightarrow> int \<Rightarrow> kmem \<Rightarrow> kmem" where
  "set_mnext a v m = m\<lparr>mblk := (mblk m)(a := (mblk m a)\<lparr>mnext := v\<rparr>)\<rparr>"

definition set_mlength :: "int \<Rightarrow> int \<Rightarrow> kmem \<Rightarrow> kmem" where
  "set_mlength a v m = m\<lparr>mblk := (mblk m)(a := (mblk m a)\<lparr>mlength := v\<rparr>)\<rparr>"

definition mem_taken :: "int \<Rightarrow> kmem \<Rightarrow> kmem" where
  "mem_taken n m = set_mlength MEMLIST (w32 (mlength (mblk m MEMLIST) - n)) m"

section \<open>The operations\<close>

partial_function (option) getmem_loop :: "int \<Rightarrow> int \<Rightarrow> int \<Rightarrow> kmem \<Rightarrow> (int \<times> kmem) option" where
  "getmem_loop n prev cur m =
     (if cur = 0 then Some (SYSERR_st, m)
      else if mlength (mblk m cur) = n then
        Some (cur, mem_taken n (set_mnext prev (mnext (mblk m cur)) m))
      else if mlength (mblk m cur) > n then
        (let leftover = w32 (cur + n);
             m = set_mnext prev leftover m;
             m = set_mnext leftover (mnext (mblk m cur)) m;
             m = set_mlength leftover (w32 (mlength (mblk m cur) - n)) m
         in Some (cur, mem_taken n m))
      else getmem_loop n cur (mnext (mblk m cur)) m)"

definition getmem :: "int \<Rightarrow> kmem \<Rightarrow> (int \<times> kmem) res" where
  "getmem nbytes m =
     (if nbytes = 0 then Inr (SYSERR_st, m)
      else opt_res Diverges (getmem_loop (roundmb nbytes) MEMLIST (mnext (mblk m MEMLIST)) m))"

partial_function (option) freemem_scan :: "int \<Rightarrow> int \<Rightarrow> int \<Rightarrow> kmem \<Rightarrow> (int \<times> int) option" where
  "freemem_scan block prev nxt m =
     (if nxt \<noteq> 0 \<and> nxt < block then freemem_scan block nxt (mnext (mblk m nxt)) m else Some (prev, nxt))"

definition freemem :: "int \<Rightarrow> int \<Rightarrow> kmem \<Rightarrow> (int \<times> kmem) res" where
  "freemem block nbytes m =
     (if nbytes = 0 \<or> block < minheap m \<or> block > maxheap m then Inr (SYSERR_st, m)
      else
        let n = roundmb nbytes in
        case freemem_scan block MEMLIST (mnext (mblk m MEMLIST)) m of
          None \<Rightarrow> Inl Diverges
        | Some (prev, nxt) \<Rightarrow>
            (let top = (if prev = MEMLIST then 0 else w32 (prev + mlength (mblk m prev))) in
             if prev \<noteq> MEMLIST \<and> block < top \<or> nxt \<noteq> 0 \<and> w32 (block + n) > nxt then Inr (SYSERR_st, m)
             else
               let m = set_mlength MEMLIST (w32 (mlength (mblk m MEMLIST) + n)) m;
                   (block, m) =
                     (if top = block then (prev, set_mlength prev (w32 (mlength (mblk m prev) + n)) m)
                      else (block, set_mnext prev block (set_mlength block n (set_mnext block nxt m))));
                   m = (if w32 (block + mlength (mblk m block)) = nxt then
                          let m = set_mlength block (w32 (mlength (mblk m block) + mlength (mblk m nxt))) m
                          in set_mnext block (mnext (mblk m nxt)) m
                        else m)
               in Inr (OK_st, m)))"

partial_function (option) getstk_scan :: "int \<Rightarrow> int \<Rightarrow> int \<Rightarrow> int \<Rightarrow> int \<Rightarrow> kmem \<Rightarrow> (int \<times> int) option" where
  "getstk_scan n prev cur fits fitsprev m =
     (if cur = 0 then Some (fits, fitsprev)
      else if mlength (mblk m cur) \<ge> n then getstk_scan n cur (mnext (mblk m cur)) cur prev m
      else getstk_scan n cur (mnext (mblk m cur)) fits fitsprev m)"

definition getstk :: "int \<Rightarrow> kmem \<Rightarrow> (int \<times> kmem) res" where
  "getstk nbytes m =
     (if nbytes = 0 then Inr (SYSERR_st, m)
      else
        let n = roundmb nbytes in
        case getstk_scan n MEMLIST (mnext (mblk m MEMLIST)) 0 0 m of
          None \<Rightarrow> Inl Diverges
        | Some (fits, fitsprev) \<Rightarrow>
            if fits = 0 then Inr (SYSERR_st, m)
            else
              let (fits, m) =
                    (if n = mlength (mblk m fits) then (fits, set_mnext fitsprev (mnext (mblk m fits)) m)
                     else let m = set_mlength fits (w32 (mlength (mblk m fits) - n)) m
                          in (w32 (fits + mlength (mblk m fits)), m))
              in Inr (w32 (fits + n - 4), mem_taken n m))"

definition freestk :: "int \<Rightarrow> int \<Rightarrow> kmem \<Rightarrow> (int \<times> kmem) res" where
  "freestk p len m = freemem (w32 (p - roundmb len + 4)) (roundmb len) m"

section \<open>The list of free blocks\<close>

fun mseg :: "kmem \<Rightarrow> int \<Rightarrow> (int \<times> int) list \<Rightarrow> bool" where
  "mseg m prev [] \<longleftrightarrow> True"
| "mseg m prev ((a, l) # bs) \<longleftrightarrow> mnext (mblk m prev) = a \<and> mlength (mblk m a) = l \<and> mseg m a bs"

definition last_addr :: "int \<Rightarrow> (int \<times> int) list \<Rightarrow> int" where
  "last_addr prev bs = (if bs = [] then prev else fst (last bs))"

definition mchain :: "kmem \<Rightarrow> int \<Rightarrow> (int \<times> int) list \<Rightarrow> bool" where
  "mchain m prev bs \<longleftrightarrow> mseg m prev bs \<and> mnext (mblk m (last_addr prev bs)) = 0"

definition first_addr :: "(int \<times> int) list \<Rightarrow> int" where
  "first_addr bs = (if bs = [] then 0 else fst (hd bs))"

text \<open>Sorted, with a gap between neighbours (adjacent blocks are merged), of multiples of 8 bytes.\<close>

fun blocks_ok :: "int \<Rightarrow> int \<Rightarrow> (int \<times> int) list \<Rightarrow> bool" where
  "blocks_ok lo hi [] \<longleftrightarrow> True"
| "blocks_ok lo hi ((a, l) # bs) \<longleftrightarrow> lo < a \<and> 0 < l \<and> 8 dvd a \<and> 8 dvd l \<and> a + l \<le> hi \<and> blocks_ok (a + l) hi bs"

definition kmem_ok :: "kmem \<Rightarrow> (int \<times> int) list \<Rightarrow> bool" where
  "kmem_ok m bs \<longleftrightarrow> mchain m MEMLIST bs \<and> blocks_ok (minheap m - 1) (maxheap m + 1) bs \<and> 0 < minheap m \<and>
     maxheap m + 1 < 4294967296 \<and> mlength (mblk m MEMLIST) = sum_list (map snd bs)"

lemma set_mem_sel [simp]:
  "mnext (mblk (set_mnext a v m) x) = (if x = a then v else mnext (mblk m x))" "mlength (mblk (set_mnext a v m) x) = mlength (mblk m x)"
  "mnext (mblk (set_mlength a v m) x) = mnext (mblk m x)" "mlength (mblk (set_mlength a v m) x) = (if x = a then v else mlength (mblk m x))"
  "minheap (set_mnext a v m) = minheap m" "maxheap (set_mnext a v m) = maxheap m"
  "minheap (set_mlength a v m) = minheap m" "maxheap (set_mlength a v m) = maxheap m"
  by (simp_all add: set_mnext_def set_mlength_def)

lemma mem_taken_sel [simp]:
  "mnext (mblk (mem_taken n m) x) = mnext (mblk m x)"
  "mlength (mblk (mem_taken n m) x) = (if x = MEMLIST then w32 (mlength (mblk m MEMLIST) - n) else mlength (mblk m x))"
  "minheap (mem_taken n m) = minheap m" "maxheap (mem_taken n m) = maxheap m"
  by (simp_all add: mem_taken_def)

lemma last_addr_simps [simp]:
  "last_addr p [] = p" "last_addr p ((a, l) # bs) = last_addr a bs" "last_addr p (bs @ [(a, l)]) = a"
  "last_addr p (A @ (a, l) # B) = last_addr a B"
  by (auto simp: last_addr_def)

lemma mseg_append: "mseg m p (A @ B) \<longleftrightarrow> mseg m p A \<and> mseg m (last_addr p A) B"
  by (induction m p A rule: mseg.induct) auto

lemma last_addr_append: "last_addr p (A @ B) = last_addr (last_addr p A) B"
  by (auto simp: last_addr_def)

lemma mchain_append: "mchain m p (A @ B) \<longleftrightarrow> mseg m p A \<and> mchain m (last_addr p A) B"
  by (auto simp: mchain_def mseg_append last_addr_append)

lemma mchain_Cons: "mchain m p ((a, l) # B) \<longleftrightarrow> mnext (mblk m p) = a \<and> mlength (mblk m a) = l \<and> mchain m a B"
  by (simp add: mchain_def)

lemma mchain_first: "mchain m p B \<Longrightarrow> mnext (mblk m p) = first_addr B"
  by (cases B) (auto simp: mchain_def first_addr_def)

text \<open>A change of headers outside the list, or of the successor of the last block of a segment, keeps it.\<close>

lemma mseg_cong:
  assumes "\<And>x. x \<in> set (map fst A) \<Longrightarrow> mlength (mblk m' x) = mlength (mblk m x)"
    "\<And>x. x \<in> set (p # map fst A) \<Longrightarrow> x \<noteq> last_addr p A \<Longrightarrow> mnext (mblk m' x) = mnext (mblk m x)"
    and "distinct (p # map fst A)"
  shows "mseg m' p A = mseg m p A"
  using assms
proof (induction m p A rule: mseg.induct)
  case (2 m p a l bs)
  have "last_addr a bs \<in> insert a (set (map fst bs))" by (auto simp: last_addr_def)
  then have "p \<noteq> last_addr p ((a, l) # bs)" using 2(4) by auto
  then have "mnext (mblk m' p) = mnext (mblk m p)" using 2(3) by simp
  then show ?case using 2 by simp
qed simp

lemma mchain_cong:
  assumes "\<And>x. x \<in> set (map fst B) \<Longrightarrow> mlength (mblk m' x) = mlength (mblk m x)"
    "\<And>x. x \<in> set (p # map fst B) \<Longrightarrow> mnext (mblk m' x) = mnext (mblk m x)"
  shows "mchain m' p B = mchain m p B"
  using assms
proof (induction B arbitrary: p)
  case (Cons b B)
  obtain a l where "b = (a, l)" by fastforce
  then show ?case using Cons by (simp add: mchain_Cons)
qed (simp add: mchain_def)

lemma blocks_ok_append:
  "blocks_ok lo hi (A @ B) \<longleftrightarrow> blocks_ok lo hi A \<and> blocks_ok (if A = [] then lo else fst (last A) + snd (last A)) hi B"
  by (induction lo hi A rule: blocks_ok.induct) auto

lemma blocks_ok_addr:
  assumes "blocks_ok lo hi bs" "(a, l) \<in> set bs"
  shows "lo < a" "0 < l" "a + l \<le> hi" "8 dvd a" "8 dvd l"
  using assms by (induction lo hi bs rule: blocks_ok.induct) auto

lemma blocks_ok_weaken: "blocks_ok lo hi bs \<Longrightarrow> lo' \<le> lo \<Longrightarrow> blocks_ok lo' hi bs"
  by (cases bs) auto

lemma blocks_ok_distinct: "blocks_ok lo hi bs \<Longrightarrow> distinct (map fst bs)"
proof (induction lo hi bs rule: blocks_ok.induct)
  case (2 lo hi a l bs)
  then show ?case using blocks_ok_addr(1) [of "a + l" hi bs a] by fastforce
qed simp

lemma blocks_ok_not_MEMLIST:
  assumes "blocks_ok lo hi bs" "0 \<le> lo"
  shows "MEMLIST \<notin> set (map fst bs)" "0 \<notin> set (map fst bs)"
  using blocks_ok_addr(1) [OF assms(1)] assms(2) by (fastforce simp: MEMLIST_def)+

lemma kmem_okD:
  assumes "kmem_ok m bs"
  shows "mchain m MEMLIST bs" "distinct (MEMLIST # map fst bs)" "0 \<notin> set (map fst bs)"
    "blocks_ok (minheap m - 1) (maxheap m + 1) bs" "0 < minheap m" "maxheap m + 1 < 4294967296"
  using assms blocks_ok_not_MEMLIST [of "minheap m - 1" "maxheap m + 1" bs] blocks_ok_distinct [of "minheap m - 1" "maxheap m + 1" bs]
  by (auto simp: kmem_ok_def)

lemma kmem_ok_block:
  assumes "kmem_ok m bs" "(a, l) \<in> set bs"
  shows "minheap m \<le> a" "0 < a" "0 < l" "a + l \<le> maxheap m + 1" "a + l < 4294967296" "8 dvd a" "8 dvd l" "a \<noteq> MEMLIST"
  using kmem_okD [OF assms(1)] blocks_ok_addr [of "minheap m - 1" "maxheap m + 1" bs a l] assms(2)
  by (auto simp: MEMLIST_def)

section \<open>Allocation is first fit\<close>

fun first_fit :: "int \<Rightarrow> (int \<times> int) list \<Rightarrow> (int \<times> (int \<times> int) list) option" where
  "first_fit n [] = None"
| "first_fit n ((a, l) # bs) =
     (if l = n then Some (a, bs)
      else if l > n then Some (a, (a + n, l - n) # bs)
      else case first_fit n bs of None \<Rightarrow> None | Some (x, bs') \<Rightarrow> Some (x, (a, l) # bs'))"

lemma first_fitE:
  assumes "first_fit n bs = Some (a, bs')"
  obtains A l B where "bs = A @ (a, l) # B" "n \<le> l" "\<forall>(b, k) \<in> set A. k < n"
    "bs' = A @ (if l = n then B else (a + n, l - n) # B)"
proof -
  have "\<exists>A l B. bs = A @ (a, l) # B \<and> n \<le> l \<and> (\<forall>(b, k) \<in> set A. k < n) \<and> bs' = A @ (if l = n then B else (a + n, l - n) # B)"
    using assms
  proof (induction n bs arbitrary: bs' rule: first_fit.induct)
    case (2 n c k bs)
    show ?case
    proof (cases "n \<le> k")
      case True
      with 2 show ?thesis by (intro exI [of _ "[]"]) (auto split: if_splits)
    next
      case False
      then obtain cs where cs: "first_fit n bs = Some (a, cs)" "bs' = (c, k) # cs"
        using 2(2) by (auto split: option.splits)
      then obtain A l B where "bs = A @ (a, l) # B" "n \<le> l" "\<forall>(b, k) \<in> set A. k < n" "cs = A @ (if l = n then B else (a + n, l - n) # B)"
        using 2(1) False by auto
      then show ?thesis using False cs(2) by (intro exI [of _ "(c, k) # A"]) auto
    qed
  qed simp
  then show ?thesis using that by blast
qed

lemma first_fit_None: "first_fit n bs = None \<Longrightarrow> (b, k) \<in> set bs \<Longrightarrow> k < n"
  by (induction n bs rule: first_fit.induct) (auto split: if_splits option.splits)

lemma getmem_loop_skip:
  assumes "mchain m p (A @ B)" "\<forall>(b, k) \<in> set A. k < n" "0 \<notin> set (map fst A)"
  shows "getmem_loop n p (first_addr (A @ B)) m = getmem_loop n (last_addr p A) (first_addr B) m"
  using assms
proof (induction A arbitrary: p)
  case (Cons x A)
  obtain b k where x: "x = (b, k)" by fastforce
  have c: "mnext (mblk m p) = b" "mlength (mblk m b) = k" "mchain m b (A @ B)" using Cons(2) x by (auto simp: mchain_Cons)
  have "getmem_loop n p b m = getmem_loop n b (mnext (mblk m b)) m"
    using Cons(3,4) x c by (subst getmem_loop.simps) auto
  then show ?case using Cons(1) [OF c(3)] Cons(3,4) x mchain_first [OF c(3)] by (simp add: first_addr_def)
qed simp

text \<open>Unlinking one block of the list, and replacing it by its upper part.\<close>

lemma mchain_unlink:
  assumes "mchain m p (A @ (a, l) # B)" "distinct (p # map fst (A @ (a, l) # B))"
  shows "mchain (set_mnext (last_addr p A) (mnext (mblk m a)) m) p (A @ B)"
proof -
  define m' where "m' = set_mnext (last_addr p A) (mnext (mblk m a)) m"
  have c: "mseg m p A" "mchain m a B" using assms(1) by (auto simp: mchain_append mchain_Cons)
  have q: "last_addr p A \<in> set (p # map fst A)" by (auto simp: last_addr_def)
  have "mseg m' p A" using c(1) assms(2) by (subst mseg_cong [of A m' m]) (auto simp: m'_def)
  moreover have "mchain m' (last_addr p A) B"
  proof (cases B)
    case Nil
    then show ?thesis using c(2) by (simp add: m'_def mchain_def)
  next
    case (Cons b B')
    obtain b0 k where b: "b = (b0, k)" by fastforce
    have D: "set (p # map fst A) \<inter> set (b0 # map fst B') = {}" using assms(2) Cons b by auto
    have nB: "x \<noteq> last_addr p A" if "x \<in> set (b0 # map fst B')" for x using D q that by blast
    have "mchain m' b0 B' = mchain m b0 B'" by (rule mchain_cong) (use nB in \<open>auto simp: m'_def\<close>)
    then show ?thesis using c(2) Cons b by (simp add: m'_def mchain_Cons)
  qed
  ultimately show ?thesis by (simp add: mchain_append m'_def)
qed

lemma mchain_relink:
  assumes "mchain m p (A @ B)" "distinct (p # map fst (A @ B))" "a \<notin> set (p # map fst (A @ B))"
    "mnext (mblk m' a) = first_addr B" "mlength (mblk m' a) = l" "mnext (mblk m' (last_addr p A)) = a"
    "\<And>x. x \<noteq> a \<Longrightarrow> x \<in> set (map fst (A @ B)) \<Longrightarrow> mlength (mblk m' x) = mlength (mblk m x)"
    "\<And>x. x \<noteq> a \<Longrightarrow> x \<noteq> last_addr p A \<Longrightarrow> mnext (mblk m' x) = mnext (mblk m x)"
  shows "mchain m' p (A @ (a, l) # B)"
proof -
  have c: "mseg m p A" "mchain m (last_addr p A) B" using assms(1) by (auto simp: mchain_append)
  have q: "last_addr p A \<in> set (p # map fst A)" by (auto simp: last_addr_def)
  have nA: "x \<noteq> a" if "x \<in> set (p # map fst A)" for x using assms(3) that by auto
  have "mseg m' p A = mseg m p A"
    by (rule mseg_cong) (use assms(2,7,8) nA in auto)
  moreover have "mchain m' a B"
  proof (cases B)
    case Nil
    then show ?thesis using assms(4) by (simp add: mchain_def first_addr_def)
  next
    case (Cons b B')
    obtain b0 k where b: "b = (b0, k)" by fastforce
    have D: "set (p # map fst A) \<inter> set (b0 # map fst B') = {}" using assms(2) Cons b by auto
    have nB: "x \<noteq> a" "x \<noteq> last_addr p A" "x \<in> set (map fst (A @ B))" if "x \<in> set (b0 # map fst B')" for x
    proof -
      show "x \<noteq> last_addr p A" using D q that by blast
      show x: "x \<in> set (map fst (A @ B))" using Cons b that by auto
      then show "x \<noteq> a" using assms(3) by auto
    qed
    have "mchain m' b0 B' = mchain m b0 B'"
    proof (rule mchain_cong)
      fix x assume "x \<in> set (map fst B')"
      then show "mlength (mblk m' x) = mlength (mblk m x)" using assms(7) nB [of x] by simp
    next
      fix x assume "x \<in> set (b0 # map fst B')"
      then show "mnext (mblk m' x) = mnext (mblk m x)" using assms(8) nB [of x] by simp
    qed
    then show ?thesis using c(2) Cons b assms(4,7) nB [of b0] by (simp add: mchain_Cons first_addr_def)
  qed
  ultimately show ?thesis using assms(5,6) c(1) by (simp add: mchain_append mchain_Cons)
qed

lemma roundmb_bounds:
  assumes "0 < n" "n \<le> 4294967288"
  shows "n \<le> roundmb n" "roundmb n < n + 8" "8 dvd roundmb n" "roundmb n \<le> 4294967288" "0 < roundmb n"
  using assms by (auto simp: roundmb_def)

lemma roundmb_id: "8 dvd n \<Longrightarrow> 0 < n \<Longrightarrow> n \<le> 4294967288 \<Longrightarrow> roundmb n = n"
  by (auto simp: roundmb_def elim!: dvdE)

lemma blocks_ok_sum: "blocks_ok lo hi bs \<Longrightarrow> lo \<le> hi \<Longrightarrow> sum_list (map snd bs) \<le> hi - lo"
  by (induction lo hi bs rule: blocks_ok.induct) auto

lemma blocks_ok_sum_bounds:
  assumes "blocks_ok lo hi bs" shows "0 \<le> sum_list (map snd bs)"
  using assms by (induction lo hi bs rule: blocks_ok.induct) auto

lemma kmem_ok_total:
  assumes "kmem_ok m bs"
  shows "mlength (mblk m MEMLIST) = sum_list (map snd bs)" "0 \<le> sum_list (map snd bs)" "sum_list (map snd bs) < 4294967296"
proof -
  have k: "blocks_ok (minheap m - 1) (maxheap m + 1) bs" "0 < minheap m" "maxheap m + 1 < 4294967296"
    using kmem_okD [OF assms] by auto
  show "mlength (mblk m MEMLIST) = sum_list (map snd bs)" using assms by (simp add: kmem_ok_def)
  show "0 \<le> sum_list (map snd bs)" using blocks_ok_sum_bounds [OF k(1)] .
  show "sum_list (map snd bs) < 4294967296"
  proof (cases "minheap m - 1 \<le> maxheap m + 1")
    case True
    then show ?thesis using blocks_ok_sum [OF k(1)] k by simp
  next
    case False
    then have "bs = []" using k(1) by (cases bs) auto
    then show ?thesis by simp
  qed
qed

lemma blocks_ok_take:
  assumes "blocks_ok lo hi (A @ (a, l) # B)" "0 < n" "n \<le> l" "8 dvd n"
  shows "blocks_ok lo hi (A @ (if l = n then B else (a + n, l - n) # B))"
proof -
  let ?q = "if A = [] then lo else fst (last A) + snd (last A)"
  have b: "blocks_ok lo hi A" "blocks_ok ?q hi ((a, l) # B)" using assms(1) by (auto simp: blocks_ok_append)
  then have "blocks_ok ?q hi (if l = n then B else (a + n, l - n) # B)"
    using assms(2-4) blocks_ok_weaken [of "a + l" hi B ?q] by auto
  then show ?thesis using b by (simp add: blocks_ok_append)
qed

lemma getmem_takes_block:
  assumes "kmem_ok m (A @ (a, l) # B)" "0 < n" "n \<le> l" "8 dvd n" "\<forall>(b, k) \<in> set A. k < n"
  obtains m' where "getmem_loop n MEMLIST (mnext (mblk m MEMLIST)) m = Some (a, m')"
    "kmem_ok m' (A @ (if l = n then B else (a + n, l - n) # B))" "minheap m' = minheap m" "maxheap m' = maxheap m"
proof -
  let ?q = "last_addr MEMLIST A" and ?bs = "A @ (a, l) # B"
  note k = kmem_okD [OF assms(1)] and t = kmem_ok_total [OF assms(1)]
  note al = kmem_ok_block [OF assms(1), of a l, simplified]
  have c: "mnext (mblk m ?q) = a" "mlength (mblk m a) = l" "mchain m a B" using k(1) by (auto simp: mchain_append mchain_Cons)
  have q: "?q \<in> set (MEMLIST # map fst A)" by (auto simp: last_addr_def)
  have skip: "getmem_loop n MEMLIST (mnext (mblk m MEMLIST)) m = getmem_loop n ?q a m"
    using getmem_loop_skip [of m MEMLIST A "(a, l) # B" n] mchain_first [OF k(1)] k(1,3) assms(5)
    by (simp add: first_addr_def)
  have sum: "w32 (mlength (mblk m MEMLIST) - n) = sum_list (map snd (A @ (if l = n then B else (a + n, l - n) # B)))"
  proof -
    have "0 \<le> sum_list (map snd A)" "0 \<le> sum_list (map snd B)"
      using k(4) by (auto simp: blocks_ok_append intro: blocks_ok_sum_bounds)
    then show ?thesis using t assms(2,3) by auto
  qed
  have bl: "blocks_ok (minheap m - 1) (maxheap m + 1) (A @ (if l = n then B else (a + n, l - n) # B))"
    using blocks_ok_take k(4) assms(2-4) by blast
  have nM: "MEMLIST \<notin> set (map fst A)" "MEMLIST \<notin> set (map fst B)" using k(2) by auto
  define m1 where "m1 = set_mnext ?q (mnext (mblk m a)) m"
  have m1: "mchain m1 MEMLIST (A @ B)" unfolding m1_def by (rule mchain_unlink) (use k(1,2) in auto)
  show ?thesis
  proof (cases "l = n")
    case True
    define m' where "m' = mem_taken n m1"
    have "getmem_loop n ?q a m = Some (a, m')"
      using al c True by (subst getmem_loop.simps) (simp add: m'_def m1_def)
    moreover have "mchain m' MEMLIST (A @ B) = mchain m1 MEMLIST (A @ B)"
      by (rule mchain_cong) (use nM in \<open>auto simp: m'_def\<close>)
    ultimately show ?thesis using that [of m'] sum bl k(5,6) m1 skip True
      by (simp add: kmem_ok_def m'_def m1_def)
  next
    case False
    define m2 where "m2 = set_mlength (a + n) (l - n) (set_mnext (a + n) (mnext (mblk m a)) (set_mnext ?q (a + n) m))"
    define m' where "m' = mem_taken n m2"
    have w: "w32 (a + n) = a + n" "w32 (l - n) = l - n" using al assms(2,3) False by auto
    have new: "a + n \<notin> set (MEMLIST # map fst (A @ B))"
    proof -
      have "blocks_ok (minheap m - 1) (maxheap m + 1) (A @ (a + n, l - n) # B)" using bl False by simp
      then have "distinct (map fst (A @ (a + n, l - n) # B))" by (rule blocks_ok_distinct)
      then show ?thesis using al assms(2) by (auto simp: MEMLIST_def)
    qed
    moreover have "set (MEMLIST # map fst A) \<subseteq> set (MEMLIST # map fst (A @ B))" by auto
    ultimately have qa: "a + n \<noteq> ?q" using q by (metis subsetD)
    have "a \<notin> set (MEMLIST # map fst A)" using k(2) by auto
    then have "a \<noteq> ?q" using q by metis
    then have "getmem_loop n ?q a m = Some (a, m')"
      using al c w False assms(2,3) qa by (subst getmem_loop.simps) (auto simp: m'_def m2_def Let_def)
    moreover have "mchain m2 MEMLIST (A @ (a + n, l - n) # B)"
      by (rule mchain_relink [OF m1]) (use k(2) new qa mchain_first [OF c(3)] in \<open>auto simp: m2_def m1_def\<close>)
    then have "mchain m' MEMLIST (A @ (a + n, l - n) # B)"
      by (subst mchain_cong [where m = m2]) (use nM new in \<open>auto simp: m'_def\<close>)
    moreover have "mlength (mblk m2 MEMLIST) = mlength (mblk m MEMLIST)" using new by (auto simp: m2_def)
    ultimately show ?thesis using that [of m'] sum bl k(5,6) skip False
      by (simp add: kmem_ok_def m'_def m2_def)
  qed
qed

lemma getmem_first_fit:
  assumes "kmem_ok m bs" "0 < nbytes" "nbytes \<le> 4294967288"
  shows "case first_fit (roundmb nbytes) bs of
           None \<Rightarrow> getmem nbytes m = Inr (SYSERR_st, m)
         | Some (a, bs') \<Rightarrow> \<exists>m'. getmem nbytes m = Inr (a, m') \<and> kmem_ok m' bs' \<and> minheap m' = minheap m \<and> maxheap m' = maxheap m"
proof (cases "first_fit (roundmb nbytes) bs")
  case None
  note k = kmem_okD [OF assms(1)]
  have "getmem_loop (roundmb nbytes) MEMLIST (mnext (mblk m MEMLIST)) m = getmem_loop (roundmb nbytes) (last_addr MEMLIST bs) 0 m"
  proof -
    have "\<forall>(b, k) \<in> set bs. k < roundmb nbytes" using first_fit_None [OF None] by auto
    then show ?thesis
      using getmem_loop_skip [of m MEMLIST bs "[]" "roundmb nbytes"] k(1,3) mchain_first [OF k(1)] by (simp add: first_addr_def)
  qed
  also have "\<dots> = Some (SYSERR_st, m)" by (subst getmem_loop.simps) simp
  finally show ?thesis using None assms(2) by (simp add: getmem_def opt_res_def)
next
  case (Some r)
  obtain a bs' where r: "r = (a, bs')" by fastforce
  obtain A l B where s: "bs = A @ (a, l) # B" "roundmb nbytes \<le> l" "\<forall>(b, k) \<in> set A. k < roundmb nbytes"
    "bs' = A @ (if l = roundmb nbytes then B else (a + roundmb nbytes, l - roundmb nbytes) # B)"
    using first_fitE Some r by metis
  obtain m' where m': "getmem_loop (roundmb nbytes) MEMLIST (mnext (mblk m MEMLIST)) m = Some (a, m')"
    "kmem_ok m' bs'" "minheap m' = minheap m" "maxheap m' = maxheap m"
    using getmem_takes_block [of m A a l B "roundmb nbytes"] assms(1) s roundmb_bounds [OF assms(2,3)] by metis
  then show ?thesis using Some r assms(2) by (auto simp: getmem_def opt_res_def)
qed

section \<open>Freeing merges neighbours\<close>

definition join_right :: "int \<Rightarrow> int \<Rightarrow> (int \<times> int) list \<Rightarrow> (int \<times> int) list" where
  "join_right a n B =
     (case B of [] \<Rightarrow> [(a, n)] | (c, k) # B' \<Rightarrow> if a + n = c then (a, n + k) # B' else (a, n) # B)"

definition end_addr :: "(int \<times> int) list \<Rightarrow> int" where
  "end_addr A = fst (last A) + snd (last A)"

definition release :: "int \<Rightarrow> int \<Rightarrow> (int \<times> int) list \<Rightarrow> (int \<times> int) list \<Rightarrow> (int \<times> int) list" where
  "release a n A B =
     (if A \<noteq> [] \<and> end_addr A = a then butlast A @ join_right (fst (last A)) (snd (last A) + n) B
      else A @ join_right a n B)"

definition give_back :: "int \<Rightarrow> int \<Rightarrow> (int \<times> int) list \<Rightarrow> (int \<times> int) list" where
  "give_back a n bs = release a n (takeWhile (\<lambda>(b, k). b < a) bs) (dropWhile (\<lambda>(b, k). b < a) bs)"

definition off_list :: "int \<Rightarrow> int \<Rightarrow> (int \<times> int) list \<Rightarrow> bool" where
  "off_list a n bs = list_all (\<lambda>(b, k). b + k \<le> a \<or> a + n \<le> b) bs"

lemma join_right_sum: "sum_list (map snd (join_right a n B)) = n + sum_list (map snd B)"
  by (auto simp: join_right_def split: list.splits)

lemma release_sum: "sum_list (map snd (release a n A B)) = n + sum_list (map snd (A @ B))"
  by (cases A rule: rev_cases) (auto simp: release_def join_right_sum)

lemma join_right_ok:
  assumes "blocks_ok q hi B" "q' < a" "0 < n" "8 dvd a" "8 dvd n" "a + n \<le> hi" "B \<noteq> [] \<Longrightarrow> a + n \<le> fst (hd B)"
  shows "blocks_ok q' hi (join_right a n B)"
proof (cases B)
  case (Cons b B')
  obtain c k where "b = (c, k)" by fastforce
  then show ?thesis using assms Cons
    by (cases "a + n = c") (auto simp: join_right_def add.assoc)
qed (use assms in \<open>simp add: join_right_def\<close>)

lemma release_ok:
  assumes "blocks_ok lo hi (A @ B)" "lo < a" "0 < n" "8 dvd a" "8 dvd n" "a + n \<le> hi"
    "A \<noteq> [] \<Longrightarrow> end_addr A \<le> a" "B \<noteq> [] \<Longrightarrow> a + n \<le> fst (hd B)"
  shows "blocks_ok lo hi (release a n A B)"
proof (cases A rule: rev_cases)
  case Nil
  then show ?thesis using join_right_ok [of lo hi B lo a n] assms by (simp add: release_def)
next
  case (snoc A' x)
  obtain pa pl where x: "x = (pa, pl)" by fastforce
  let ?q = "if A' = [] then lo else fst (last A') + snd (last A')"
  have b: "blocks_ok lo hi A'" "blocks_ok ?q hi [(pa, pl)]" "blocks_ok (pa + pl) hi B"
    using assms(1) snoc x by (auto simp: blocks_ok_append)
  show ?thesis
  proof (cases "pa + pl = a")
    case True
    have "blocks_ok ?q hi (join_right pa (pl + n) B)"
      by (rule join_right_ok [OF b(3)]) (use b(2) True assms in auto)
    then show ?thesis using b(1) snoc x True by (simp add: release_def end_addr_def blocks_ok_append)
  next
    case False
    then have "pa + pl < a" using assms(7) snoc x by (simp add: end_addr_def)
    then have "blocks_ok (pa + pl) hi (join_right a n B)" by (intro join_right_ok [OF b(3)]) (use assms in auto)
    then show ?thesis using b snoc x False by (simp add: release_def end_addr_def blocks_ok_append)
  qed
qed

lemma freemem_scan_split:
  assumes "mchain m p (A @ B)" "\<forall>(b, k) \<in> set A. b \<noteq> 0 \<and> b < a" "B \<noteq> [] \<Longrightarrow> a \<le> fst (hd B)"
  shows "freemem_scan a p (first_addr (A @ B)) m = Some (last_addr p A, first_addr B)"
  using assms
proof (induction A arbitrary: p)
  case Nil
  then show ?case by (subst freemem_scan.simps) (auto simp: first_addr_def)
next
  case (Cons x A)
  obtain b k where x: "x = (b, k)" by fastforce
  have c: "mchain m b (A @ B)" using Cons(2) x by (auto simp: mchain_Cons)
  have "freemem_scan a p b m = freemem_scan a b (mnext (mblk m b)) m"
    using Cons(3) x by (subst freemem_scan.simps) auto
  then show ?case using Cons(1) [OF c] Cons(3,4) x mchain_first [OF c] by (simp add: first_addr_def)
qed

lemma mchain_set_mlength:
  assumes "mchain m p (A @ (a, l) # B)" "distinct (p # map fst (A @ (a, l) # B))"
  shows "mchain (set_mlength a n m) p (A @ (a, n) # B)"
proof -
  let ?m = "set_mnext (last_addr p A) (mnext (mblk m a)) m"
  have "mchain ?m p (A @ B)" by (rule mchain_unlink [OF assms])
  moreover have "a \<notin> set (p # map fst (A @ B))" using assms(2) by auto
  moreover have "mnext (mblk m (last_addr p A)) = a" "mnext (mblk m a) = first_addr B"
    using assms(1) mchain_first [of m a B] by (auto simp: mchain_append mchain_Cons)
  ultimately show ?thesis using assms(2) by (intro mchain_relink [where m = ?m]) auto
qed

lemma mchain_join:
  assumes "mchain m p (A @ (a, l) # B)" "distinct (p # map fst (A @ (a, l) # B))" "0 < a" "0 < l" "a + l < 4294967296"
    "\<And>c k B'. B = (c, k) # B' \<Longrightarrow> w32 (l + k) = l + k"
  shows "mchain (if w32 (a + mlength (mblk m a)) = first_addr B
                 then set_mnext a (mnext (mblk m (first_addr B))) (set_mlength a (w32 (mlength (mblk m a) + mlength (mblk m (first_addr B)))) m)
                 else m) p (A @ join_right a l B)"
proof (cases B)
  case Nil
  then show ?thesis using assms by (auto simp: join_right_def first_addr_def mchain_append mchain_Cons)
next
  case (Cons b B')
  obtain c k where b: "b = (c, k)" by fastforce
  have ml: "mlength (mblk m a) = l" "mlength (mblk m c) = k" "mchain m c B'" "mnext (mblk m (last_addr p A)) = a" "mnext (mblk m a) = c"
    using assms(1) Cons b by (auto simp: mchain_append mchain_Cons)
  show ?thesis
  proof (cases "a + l = c")
    case False
    then show ?thesis using assms Cons b ml by (simp add: join_right_def first_addr_def)
  next
    case True
    let ?m0 = "set_mnext (last_addr p A) (mnext (mblk m a)) m"
    let ?m1 = "set_mnext (last_addr p A) (mnext (mblk ?m0 c)) ?m0"
    let ?m' = "set_mnext a (mnext (mblk m c)) (set_mlength a (l + k) m)"
    have "mchain ?m0 p (A @ (c, k) # B')" using mchain_unlink [OF assms(1,2)] Cons b by simp
    then have m1: "mchain ?m1 p (A @ B')" by (rule mchain_unlink) (use assms(2) Cons b in auto)
    have "last_addr p A \<in> set (p # map fst A)" by (auto simp: last_addr_def)
    moreover have "a \<notin> set (p # map fst A)" using assms(2) by auto
    ultimately have "last_addr p A \<noteq> a" by metis
    then have "mchain ?m' p (A @ (a, l + k) # B')"
      by (intro mchain_relink [OF m1]) (use assms(2) Cons b ml mchain_first [OF ml(3)] in auto)
    then show ?thesis using assms Cons b ml True by (simp add: join_right_def first_addr_def)
  qed
qed

definition link_block :: "int \<Rightarrow> int \<Rightarrow> int \<Rightarrow> int \<Rightarrow> int \<Rightarrow> kmem \<Rightarrow> int \<times> kmem" where
  "link_block prev nxt tp block n m =
     (if tp = block then (prev, set_mlength prev (w32 (mlength (mblk m prev) + n)) m)
      else (block, set_mnext prev block (set_mlength block n (set_mnext block nxt m))))"

definition join_next :: "int \<Rightarrow> int \<Rightarrow> kmem \<Rightarrow> kmem" where
  "join_next block nxt m =
     (if w32 (block + mlength (mblk m block)) = nxt
      then set_mnext block (mnext (mblk m nxt)) (set_mlength block (w32 (mlength (mblk m block) + mlength (mblk m nxt))) m)
      else m)"

lemma freemem_unfold:
  assumes "nbytes \<noteq> 0" "minheap m \<le> block" "block \<le> maxheap m"
    "freemem_scan block MEMLIST (mnext (mblk m MEMLIST)) m = Some (prev, nxt)"
    "tp = (if prev = MEMLIST then 0 else w32 (prev + mlength (mblk m prev)))"
  shows "freemem block nbytes m =
    (if prev \<noteq> MEMLIST \<and> block < tp \<or> nxt \<noteq> 0 \<and> w32 (block + roundmb nbytes) > nxt then Inr (SYSERR_st, m)
     else let m1 = set_mlength MEMLIST (w32 (mlength (mblk m MEMLIST) + roundmb nbytes)) m;
              (b, m2) = link_block prev nxt tp block (roundmb nbytes) m1
          in Inr (OK_st, join_next b nxt m2))"
  using assms by (simp add: freemem_def link_block_def join_next_def Let_def)

text \<open>The list splits at the block; the scan stops there.\<close>

lemma split_at:
  assumes "blocks_ok lo hi bs" "A = takeWhile (\<lambda>(b, k). b < a) bs" "B = dropWhile (\<lambda>(b, k). b < a) bs"
  shows "bs = A @ B" "\<And>b k. (b, k) \<in> set A \<Longrightarrow> b < a" "B \<noteq> [] \<Longrightarrow> a \<le> fst (hd B)"
proof -
  show "bs = A @ B" using assms by simp
  show "b < a" if "(b, k) \<in> set A" for b k using that assms(2) by (auto dest: set_takeWhileD)
  show "a \<le> fst (hd B)" if "B \<noteq> []" using hd_dropWhile [of "\<lambda>(b, k). b < a" bs] that assms(3) by (cases "hd B") auto
qed

lemma blocks_ok_end: "blocks_ok lo hi A \<Longrightarrow> A \<noteq> [] \<Longrightarrow> lo < fst (last A) + snd (last A)"
  by (induction lo hi A rule: blocks_ok.induct) fastforce+

lemma off_list_split:
  assumes "blocks_ok lo hi (A @ B)" "\<And>b k. (b, k) \<in> set A \<Longrightarrow> b < a" "B \<noteq> [] \<Longrightarrow> a \<le> fst (hd B)" "0 < n"
  shows "off_list a n (A @ B) \<longleftrightarrow> (A \<noteq> [] \<longrightarrow> end_addr A \<le> a) \<and> (B \<noteq> [] \<longrightarrow> a + n \<le> fst (hd B))"
proof -
  have a: "list_all (\<lambda>(b, k). b + k \<le> a \<or> a + n \<le> b) A \<longleftrightarrow> (A \<noteq> [] \<longrightarrow> end_addr A \<le> a)"
  proof (cases A rule: rev_cases)
    case (snoc A' x)
    obtain pa pl where x: "x = (pa, pl)" by fastforce
    have o: "blocks_ok lo pa A'"
    proof -
      have "blocks_ok lo hi (A' @ [(pa, pl)])" using assms(1) snoc x by (simp add: blocks_ok_append)
      then show ?thesis
      proof (induction A' arbitrary: lo)
        case (Cons y A')
        obtain c k where "y = (c, k)" by fastforce
        with Cons have h: "lo < c" "0 < k" "8 dvd c" "8 dvd k" "blocks_ok (c + k) pa A'" "blocks_ok (c + k) hi (A' @ [(pa, pl)])" by auto
        then have "c + k < pa" by (cases "A' = []") (auto simp: blocks_ok_append dest: blocks_ok_end)
        then show ?case using h \<open>y = (c, k)\<close> by simp
      qed simp
    qed
    have "pa < a" using assms(2) snoc x by auto
    then have "b + k \<le> a" if "(b, k) \<in> set A'" for b k using blocks_ok_addr(3) [OF o that] by simp
    then show ?thesis using snoc x assms(4) \<open>pa < a\<close> by (auto simp: end_addr_def list_all_iff)
  qed simp
  have b: "list_all (\<lambda>(b, k). b + k \<le> a \<or> a + n \<le> b) B \<longleftrightarrow> (B \<noteq> [] \<longrightarrow> a + n \<le> fst (hd B))"
  proof (cases B)
    case (Cons x B')
    obtain c k where x: "x = (c, k)" by fastforce
    have ck: "0 < k" "blocks_ok (c + k) hi B'" "a \<le> c" using assms(1,3) Cons x by (auto simp: blocks_ok_append)
    then have "c < d" if "(d, e) \<in> set B'" for d e using blocks_ok_addr(1) [OF ck(2) that] by simp
    then show ?thesis using Cons x ck assms(4) by (fastforce simp: list_all_iff)
  qed simp
  show ?thesis using a b by (simp add: off_list_def)
qed

lemma freemem_prev_next:
  assumes "kmem_ok m bs" "A = takeWhile (\<lambda>(b, k). b < a) bs" "B = dropWhile (\<lambda>(b, k). b < a) bs"
  shows "freemem_scan a MEMLIST (mnext (mblk m MEMLIST)) m = Some (last_addr MEMLIST A, first_addr B)"
    "A \<noteq> [] \<Longrightarrow> w32 (last_addr MEMLIST A + mlength (mblk m (last_addr MEMLIST A))) = end_addr A"
    "last_addr MEMLIST A = MEMLIST \<longleftrightarrow> A = []" "first_addr B = 0 \<longleftrightarrow> B = []"
proof -
  note k = kmem_okD [OF assms(1)] and s = split_at [OF k(4) assms(2,3)]
  have ch: "mchain m MEMLIST (A @ B)" and "0 \<notin> set (map fst (A @ B))" "MEMLIST \<notin> set (map fst (A @ B))"
    using k(1-3) s(1) by auto
  then have n: "b \<noteq> 0" "b \<noteq> MEMLIST" if "(b, k) \<in> set (A @ B)" for b k using that by force+
  show "freemem_scan a MEMLIST (mnext (mblk m MEMLIST)) m = Some (last_addr MEMLIST A, first_addr B)"
    using freemem_scan_split [OF ch, of a] s(2,3) n mchain_first [OF ch] by force
  show "last_addr MEMLIST A = MEMLIST \<longleftrightarrow> A = []"
    using n(2) [of "fst (last A)" "snd (last A)"] by (auto simp: last_addr_def)
  show "first_addr B = 0 \<longleftrightarrow> B = []"
    using n(1) [of "fst (hd B)" "snd (hd B)"] by (auto simp: first_addr_def)
  show "w32 (last_addr MEMLIST A + mlength (mblk m (last_addr MEMLIST A))) = end_addr A" if ne: "A \<noteq> []"
  proof -
    obtain A' pa pl where A: "A = A' @ [(pa, pl)]" using ne by (cases A rule: rev_cases) auto
    have "mlength (mblk m pa) = pl" using ch A by (simp add: mchain_append mseg_append mchain_Cons)
    then show ?thesis using kmem_ok_block [OF assms(1), of pa pl] s(1) A by (simp add: end_addr_def)
  qed
qed

lemma link_block_mchain:
  assumes "mchain m MEMLIST (A @ B)" "distinct (MEMLIST # map fst (A @ B))" "a \<notin> set (MEMLIST # map fst (A @ B))"
    "tp = (if A = [] then 0 else end_addr A)" "0 < a" "A \<noteq> [] \<Longrightarrow> w32 (snd (last A) + n) = snd (last A) + n"
    "link_block (last_addr MEMLIST A) (first_addr B) tp a n m = (b, m')"
  obtains C l where "mchain m' MEMLIST (C @ (b, l) # B)" "distinct (MEMLIST # map fst (C @ (b, l) # B))"
    "C @ join_right b l B = release a n A B" "C @ [(b, l)] = release a n A []" "mlength (mblk m' MEMLIST) = mlength (mblk m MEMLIST)"
    "minheap m' = minheap m" "maxheap m' = maxheap m"
proof (cases "A \<noteq> [] \<and> end_addr A = a")
  case True
  then obtain A' pa pl where A: "A = A' @ [(pa, pl)]" by (cases A rule: rev_cases) auto
  have "mlength (mblk m pa) = pl" using assms(1) A by (simp add: mchain_append mseg_append mchain_Cons)
  then have l: "b = pa" "m' = set_mlength pa (pl + n) m" using assms(4,6,7) True A by (auto simp: link_block_def)
  have "pa \<noteq> MEMLIST" using assms(2) A by auto
  moreover have "mchain m' MEMLIST (A' @ (pa, pl + n) # B)"
    unfolding l by (rule mchain_set_mlength [where l = pl]) (use assms(1,2) A in auto)
  ultimately show ?thesis using that [of A' "pl + n"] assms(2) True A l by (simp add: release_def join_right_def)
next
  case False
  have l: "b = a" "m' = set_mnext (last_addr MEMLIST A) a (set_mlength a n (set_mnext a (first_addr B) m))"
    using assms(4,5,7) False by (auto simp: link_block_def split: if_splits)
  have "last_addr MEMLIST A \<in> set (MEMLIST # map fst A)" by (auto simp: last_addr_def)
  then have "last_addr MEMLIST A \<noteq> a" using assms(3) by (auto simp del: list.set_map)
  moreover have "mchain m' MEMLIST (A @ (a, n) # B)"
    unfolding l by (rule mchain_relink [OF assms(1-3)]) (use calculation in auto)
  moreover have "distinct (MEMLIST # map fst (A @ (a, n) # B))" using assms(2,3) by auto
  moreover have "a \<noteq> MEMLIST" using assms(5) by (simp add: MEMLIST_def)
  ultimately show ?thesis using that [of A n] False l by (simp add: release_def join_right_def)
qed

lemma freemem_gives_back:
  assumes "kmem_ok m bs" "0 < nbytes" "nbytes \<le> 4294967288" "8 dvd a" "minheap m \<le> a" "a + roundmb nbytes \<le> maxheap m + 1"
    "off_list a (roundmb nbytes) bs"
  obtains m' where "freemem a nbytes m = Inr (OK_st, m')" "kmem_ok m' (give_back a (roundmb nbytes) bs)"
    "minheap m' = minheap m" "maxheap m' = maxheap m"
proof -
  define n where "n = roundmb nbytes"
  define A where "A = takeWhile (\<lambda>(b, k). b < a) bs"
  define B where "B = dropWhile (\<lambda>(b, k). b < a) bs"
  define tp where "tp = (if A = [] then 0 else end_addr A)"
  define m1 where "m1 = set_mlength MEMLIST (w32 (mlength (mblk m MEMLIST) + n)) m"
  note k = kmem_okD [OF assms(1)] and t = kmem_ok_total [OF assms(1)]
  note s = split_at [OF k(4) A_def B_def] and nb = roundmb_bounds [OF assms(2,3), folded n_def]
  note pn = freemem_prev_next [OF assms(1) A_def B_def]
  have off: "A \<noteq> [] \<Longrightarrow> end_addr A \<le> a" "B \<noteq> [] \<Longrightarrow> a + n \<le> fst (hd B)"
    using off_list_split [of "minheap m - 1" "maxheap m + 1" A B a n] k(4) s nb(5) assms(7) n_def by auto
  have new: "blocks_ok (minheap m - 1) (maxheap m + 1) (release a n A B)"
    by (rule release_ok) (use k(4) s(1) assms(4-6) nb off n_def in auto)
  have tot: "sum_list (map snd (release a n A B)) = n + sum_list (map snd bs)" using s(1) by (simp add: release_sum)
  have small: "n + sum_list (map snd bs) < 4294967296" using blocks_ok_sum [OF new] tot k(5,6) assms(5,6) nb n_def by auto
  have w: "w32 (a + n) = a + n" using assms(5,6) k(5,6) nb n_def by simp
  have sA: "snd (last A) + n \<le> n + sum_list (map snd bs) \<and> 0 < snd (last A)" if "A \<noteq> []"
  proof -
    have "blocks_ok (minheap m - 1) (maxheap m + 1) A" using k(4) s(1) by (simp add: blocks_ok_append)
    then show ?thesis using that s(1) k(4) by (cases A rule: rev_cases) (auto simp: blocks_ok_append intro!: add_nonneg_nonneg blocks_ok_sum_bounds)
  qed
  have ch1: "mchain m1 MEMLIST (A @ B)"
    by (subst mchain_cong [where m = m]) (use k(1,2) s(1) in \<open>auto simp: m1_def\<close>)
  have aM: "a \<noteq> MEMLIST" "0 < a" using assms(5) k(5) by (auto simp: MEMLIST_def)
  have "a \<notin> set (map fst B)"
  proof
    assume "a \<in> set (map fst B)"
    then obtain x where x: "(a, x) \<in> set B" by auto
    then have "B \<noteq> []" by auto
    then have "a < fst (hd B)" using off(2) nb(5) by simp
    then show False using x k(4) s(1) blocks_ok_addr(1) by (cases B) (fastforce simp: blocks_ok_append)+
  qed
  moreover have "a \<notin> set (map fst A)" using s(2) by fastforce
  ultimately have aN: "a \<notin> set (MEMLIST # map fst (A @ B))" using aM by auto
  obtain b m2 where lb: "link_block (last_addr MEMLIST A) (first_addr B) tp a n m1 = (b, m2)" by fastforce
  have wA: "w32 (snd (last A) + n) = snd (last A) + n" if "A \<noteq> []" using sA [OF that] small nb(5) by simp
  obtain C l where C: "mchain m2 MEMLIST (C @ (b, l) # B)" "distinct (MEMLIST # map fst (C @ (b, l) # B))"
    "C @ join_right b l B = release a n A B" "C @ [(b, l)] = release a n A []" "mlength (mblk m2 MEMLIST) = mlength (mblk m1 MEMLIST)"
    "minheap m2 = minheap m1" "maxheap m2 = maxheap m1"
    using link_block_mchain [OF ch1 _ aN tp_def aM(2) wA lb] k(2) s(1) by auto
  have relA: "blocks_ok (minheap m - 1) (maxheap m + 1) (C @ [(b, l)])"
    unfolding C(4) by (rule release_ok) (use k(4) s(1) assms(4-6) nb off n_def in \<open>auto simp: blocks_ok_append\<close>)
  have bl: "0 < b" "0 < l" "b + l < 4294967296" "b \<noteq> MEMLIST"
    using blocks_ok_addr [OF relA, of b l] k(5,6) by (auto simp: MEMLIST_def)
  have wB: "w32 (l + k) = l + k" if "B = (c, k) # B'" for c k B'
  proof -
    have "0 < k" "0 \<le> sum_list (map snd B')" using k(4) s(1) that by (auto simp: blocks_ok_append intro: blocks_ok_sum_bounds)
    moreover have "0 \<le> sum_list (map snd C)" using relA by (auto simp: blocks_ok_append intro: blocks_ok_sum_bounds)
    moreover have "sum_list (map snd C) + l + k + sum_list (map snd B') = n + sum_list (map snd bs)"
      using arg_cong [OF C(3), of "\<lambda>x. sum_list (map snd x)"] tot that by (simp add: join_right_sum)
    ultimately show ?thesis using small bl(2) by simp
  qed
  define m' where "m' = join_next b (first_addr B) m2"
  have "mchain m' MEMLIST (C @ join_right b l B)"
    using mchain_join [OF C(1,2) bl(1-3) wB] by (simp add: m'_def join_next_def)
  moreover have "mlength (mblk m' MEMLIST) = n + sum_list (map snd bs)"
    using C(5) t(1) small t(2) nb(5) bl(4) by (simp add: m'_def join_next_def m1_def add.commute)
  moreover have "minheap m' = minheap m" "maxheap m' = maxheap m" using C(6,7) by (simp_all add: m'_def join_next_def m1_def)
  ultimately have ok: "kmem_ok m' (give_back a n bs)"
    using new tot C(3) k(5,6) by (simp add: kmem_ok_def give_back_def A_def [symmetric] B_def [symmetric])
  have "tp = (if last_addr MEMLIST A = MEMLIST then 0 else w32 (last_addr MEMLIST A + mlength (mblk m (last_addr MEMLIST A))))"
    using pn(2,3) by (auto simp: tp_def)
  then have "freemem a nbytes m = Inr (OK_st, m')"
    using freemem_unfold [OF _ _ _ pn(1), of nbytes tp] assms(2,5,6) nb(5) n_def off pn(2-4) w lb
    by (auto simp: tp_def m1_def m'_def first_addr_def)
  then show ?thesis using that ok \<open>minheap m' = minheap m\<close> \<open>maxheap m' = maxheap m\<close> n_def by simp
qed

lemma freemem_rejects_overlap:
  assumes "kmem_ok m bs" "0 < nbytes" "nbytes \<le> 4294967288" "minheap m \<le> a" "a \<le> maxheap m" "a + roundmb nbytes < 4294967296"
    "\<not> off_list a (roundmb nbytes) bs"
  shows "freemem a nbytes m = Inr (SYSERR_st, m)"
proof -
  define n where "n = roundmb nbytes"
  define A where "A = takeWhile (\<lambda>(b, k). b < a) bs"
  define B where "B = dropWhile (\<lambda>(b, k). b < a) bs"
  note k = kmem_okD [OF assms(1)] and s = split_at [OF kmem_okD(4) [OF assms(1)] A_def B_def]
  note nb = roundmb_bounds [OF assms(2,3), folded n_def] and pn = freemem_prev_next [OF assms(1) A_def B_def]
  have "\<not> ((A \<noteq> [] \<longrightarrow> end_addr A \<le> a) \<and> (B \<noteq> [] \<longrightarrow> a + n \<le> fst (hd B)))"
    using off_list_split [of "minheap m - 1" "maxheap m + 1" A B a n] k(4) s nb(5) assms(7) n_def by auto
  moreover have "w32 (a + n) = a + n" using assms(4,6) k(5) nb n_def by simp
  ultimately show ?thesis
    using freemem_unfold [OF _ assms(4,5) pn(1) refl, of nbytes] assms(2) n_def pn(2-4)
    by (auto simp: first_addr_def not_le)
qed

section \<open>Round trips\<close>

definition heap_bytes :: "(int \<times> int) list \<Rightarrow> int set" where
  "heap_bytes bs = (\<Union>(a, l) \<in> set bs. {a..<a + l})"

lemma heap_bytes_simps [simp]:
  "heap_bytes [] = {}" "heap_bytes ((a, l) # bs) = {a..<a + l} \<union> heap_bytes bs" "heap_bytes (A @ B) = heap_bytes A \<union> heap_bytes B"
  by (auto simp: heap_bytes_def)

lemma range_join: "(0::int) \<le> n \<Longrightarrow> 0 \<le> k \<Longrightarrow> {a..<a + n} \<union> {a + n..<a + n + k} = {a..<a + (n + k)}"
  by auto

lemma join_right_bytes:
  assumes "blocks_ok q hi B" "0 < n"
  shows "heap_bytes (join_right a n B) = {a..<a + n} \<union> heap_bytes B"
proof (cases B)
  case (Cons b B')
  obtain c k where "b = (c, k)" by fastforce
  then show ?thesis using assms Cons range_join [of n k a] by (auto simp: join_right_def)
qed (simp add: join_right_def)

lemma release_bytes:
  assumes "blocks_ok q hi (A @ B)" "0 < n"
  shows "heap_bytes (release a n A B) = {a..<a + n} \<union> heap_bytes (A @ B)"
proof (cases A rule: rev_cases)
  case Nil
  then show ?thesis using join_right_bytes assms by (simp add: release_def)
next
  case (snoc A' x)
  obtain pa pl where x: "x = (pa, pl)" by fastforce
  have b: "blocks_ok (pa + pl) hi B" "0 < pl" using assms(1) snoc x by (auto simp: blocks_ok_append)
  show ?thesis
    using join_right_bytes [OF b(1), of "pl + n" pa] join_right_bytes [OF b(1) assms(2), of a] range_join [of pl n pa] snoc x b(2) assms(2)
    by (auto simp: release_def end_addr_def)
qed

lemma give_back_bytes:
  "blocks_ok q hi bs \<Longrightarrow> 0 < n \<Longrightarrow> heap_bytes (give_back a n bs) = {a..<a + n} \<union> heap_bytes bs"
  using release_bytes [of q hi "takeWhile (\<lambda>(b, k). b < a) bs" "dropWhile (\<lambda>(b, k). b < a) bs"] by (simp add: give_back_def)

text \<open>The blocks on both sides of a block of the list.\<close>

lemma blocks_around:
  assumes "blocks_ok lo hi (A @ (a, l) # B)"
  shows "\<forall>(b, k) \<in> set A. b + k < a" "\<forall>(b, k) \<in> set B. a + l < b" "0 < l"
proof -
  show "\<forall>(b, k) \<in> set A. b + k < a"
    using assms
  proof (induction A arbitrary: lo)
    case (Cons x A)
    obtain c k where x: "x = (c, k)" by fastforce
    have "blocks_ok (c + k) hi (A @ (a, l) # B)" using Cons(2) x by simp
    then show ?case using Cons(1) x blocks_ok_addr(1) [of "c + k" hi "A @ (a, l) # B" a l] by auto
  qed simp
  have "blocks_ok (a + l) hi B" "0 < l" using assms by (auto simp: blocks_ok_append)
  then show "\<forall>(b, k) \<in> set B. a + l < b" "0 < l" using blocks_ok_addr(1) by auto
qed

lemma split_at_exact:
  "\<forall>x \<in> set A. P x \<Longrightarrow> B = [] \<or> \<not> P (hd B) \<Longrightarrow> takeWhile P (A @ B) = A \<and> dropWhile P (A @ B) = B"
  by (induction A) (cases B; auto)+

lemma give_back_between:
  assumes "\<forall>(b, k) \<in> set A. b + k < a \<and> 0 < k" "\<forall>(b, k) \<in> set B. a \<le> b"
  shows "give_back a n (A @ B) = A @ join_right a n B"
proof -
  have "\<forall>x \<in> set A. (case x of (b, k) \<Rightarrow> b < a)" using assms(1) by fastforce
  moreover have "B = [] \<or> \<not> (case hd B of (b, k) \<Rightarrow> b < a)" using assms(2) by (cases B) auto
  ultimately have t: "takeWhile (\<lambda>(b, k). b < a) (A @ B) = A" "dropWhile (\<lambda>(b, k). b < a) (A @ B) = B"
    using split_at_exact [of A "\<lambda>(b, k). b < a" B] by simp_all
  have "A \<noteq> [] \<Longrightarrow> end_addr A \<noteq> a" using assms(1) by (cases A rule: rev_cases) (auto simp: end_addr_def)
  then show ?thesis by (auto simp: give_back_def t release_def)
qed

lemma give_back_above:
  assumes "\<forall>(b, k) \<in> set A. b + k < a \<and> 0 < k" "0 < j" "\<forall>(b, k) \<in> set B. a + j \<le> b"
  shows "give_back (a + j) n (A @ (a, j) # B) = A @ join_right a (j + n) B"
proof -
  have "\<forall>(b, k) \<in> set A. b < a + j" using assms(1,2) by fastforce
  then have "\<forall>x \<in> set (A @ [(a, j)]). (case x of (b, k) \<Rightarrow> b < a + j)" using assms(2) by simp
  moreover have "B = [] \<or> \<not> (case hd B of (b, k) \<Rightarrow> b < a + j)" using assms(3) by (cases B) auto
  ultimately have t: "takeWhile (\<lambda>(b, k). b < a + j) ((A @ [(a, j)]) @ B) = A @ [(a, j)]" "dropWhile (\<lambda>(b, k). b < a + j) ((A @ [(a, j)]) @ B) = B"
    using split_at_exact [of "A @ [(a, j)]" "\<lambda>(b, k). b < a + j" B] by simp_all
  then show ?thesis by (simp add: give_back_def release_def end_addr_def)
qed

lemma join_right_split: "0 < n \<Longrightarrow> n \<le> l \<Longrightarrow> \<forall>(b, k) \<in> set B. a + l < b \<Longrightarrow>
    join_right a n (if l = n then B else (a + n, l - n) # B) = (a, l) # B"
  by (cases B) (auto simp: join_right_def)

lemma join_right_apart: "\<forall>(b, k) \<in> set B. a + l < b \<Longrightarrow> join_right a l B = (a, l) # B"
  by (cases B) (auto simp: join_right_def)

text \<open>The stack allocator takes the upper end of the last block that is large enough.\<close>

lemma getstk_scan_small:
  assumes "mchain m p B" "\<forall>(b, k) \<in> set B. k < n" "0 \<notin> set (map fst B)"
  shows "getstk_scan n p (first_addr B) f fp m = Some (f, fp)"
  using assms
proof (induction B arbitrary: p)
  case Nil
  then show ?case by (subst getstk_scan.simps) (simp add: first_addr_def)
next
  case (Cons x B)
  obtain b k where x: "x = (b, k)" by fastforce
  have c: "mnext (mblk m p) = b" "mlength (mblk m b) = k" "mchain m b B" using Cons(2) x by (auto simp: mchain_Cons)
  have "getstk_scan n p b f fp m = getstk_scan n b (mnext (mblk m b)) f fp m"
    using Cons(3,4) x c by (subst getstk_scan.simps) auto
  then show ?case using Cons(1) [OF c(3)] Cons(3,4) x mchain_first [OF c(3)] by (simp add: first_addr_def)
qed

lemma getstk_scan_last:
  assumes "mchain m p (A @ (a, l) # B)" "n \<le> l" "\<forall>(b, k) \<in> set B. k < n" "0 \<notin> set (map fst (A @ (a, l) # B))"
  shows "getstk_scan n p (first_addr (A @ (a, l) # B)) f fp m = Some (a, last_addr p A)"
  using assms
proof (induction A arbitrary: p f fp)
  case Nil
  then have c: "mlength (mblk m a) = l" "mchain m a B" by (auto simp: mchain_Cons)
  have "getstk_scan n p a f fp m = getstk_scan n a (mnext (mblk m a)) a p m"
    using Nil c by (subst getstk_scan.simps) auto
  then show ?case using getstk_scan_small [OF c(2), of n a p] Nil mchain_first [OF c(2)] by (simp add: first_addr_def)
next
  case (Cons x A)
  obtain b k where x: "x = (b, k)" by fastforce
  have c: "mlength (mblk m b) = k" "mchain m b (A @ (a, l) # B)" using Cons(2) x by (auto simp: mchain_Cons)
  have "getstk_scan n p b f fp m = (if k \<ge> n then getstk_scan n b (mnext (mblk m b)) b p m else getstk_scan n b (mnext (mblk m b)) f fp m)"
    using Cons(5) x c by (subst getstk_scan.simps) auto
  then show ?case using Cons(1) [OF c(2) Cons(3,4)] Cons(5) x mchain_first [OF c(2)] by (simp add: first_addr_def)
qed

lemma blocks_ok_take_top:
  assumes "blocks_ok lo hi (A @ (a, l) # B)" "0 < n" "n < l" "8 dvd n"
  shows "blocks_ok lo hi (A @ (a, l - n) # B)"
  using assms blocks_ok_weaken [of "a + l" hi B "a + (l - n)"] by (auto simp: blocks_ok_append)

lemma getstk_takes_top:
  assumes "kmem_ok m (A @ (a, l) # B)" "0 < nbytes" "nbytes \<le> 4294967288" "roundmb nbytes \<le> l" "\<forall>(b, k) \<in> set B. k < roundmb nbytes"
  obtains m' where "getstk nbytes m = Inr (a + l - 4, m')"
    "kmem_ok m' (A @ (if l = roundmb nbytes then B else (a, l - roundmb nbytes) # B))" "minheap m' = minheap m" "maxheap m' = maxheap m"
proof -
  define n where "n = roundmb nbytes"
  note nb = roundmb_bounds [OF assms(2,3), folded n_def]
  note k = kmem_okD [OF assms(1)] and t = kmem_ok_total [OF assms(1)]
  note al = kmem_ok_block [OF assms(1), of a l, simplified]
  have a8: "8 \<le> a" using al zdvd_imp_le [of 8 a] by simp
  have c: "mlength (mblk m a) = l" "mchain m a B" using k(1) by (auto simp: mchain_append mchain_Cons)
  have scan: "getstk_scan n MEMLIST (mnext (mblk m MEMLIST)) 0 0 m = Some (a, last_addr MEMLIST A)"
    using getstk_scan_last [OF k(1) _ _ k(3), of n 0 0] assms(4,5) mchain_first [OF k(1)] n_def by simp
  have pos: "0 \<le> sum_list (map snd A)" "0 \<le> sum_list (map snd B)"
    using k(4) by (auto simp: blocks_ok_append intro: blocks_ok_sum_bounds)
  have nM: "MEMLIST \<notin> set (map fst A)" "MEMLIST \<notin> set (map fst B)" "a \<noteq> MEMLIST" using k(2) by auto
  show ?thesis
  proof (cases "l = n")
    case True
    define m1 where "m1 = set_mnext (last_addr MEMLIST A) (mnext (mblk m a)) m"
    have "mchain m1 MEMLIST (A @ B)" unfolding m1_def by (rule mchain_unlink) (use k(1,2) in auto)
    then have "mchain (mem_taken n m1) MEMLIST (A @ B)"
      by (subst mchain_cong [where m = m1]) (use nM in auto)
    moreover have "blocks_ok (minheap m - 1) (maxheap m + 1) (A @ B)"
      using blocks_ok_take [OF k(4) nb(5) _ nb(3)] True by simp
    ultimately have "kmem_ok (mem_taken n m1) (A @ B)" using k(5,6) t pos nb True by (simp add: kmem_ok_def m1_def)
    moreover have "getstk nbytes m = Inr (a + l - 4, mem_taken n m1)"
      using scan assms(2) c True al a8 by (simp add: getstk_def n_def [symmetric] m1_def)
    ultimately show ?thesis using that [of "mem_taken n m1"] True n_def by (simp add: m1_def)
  next
    case False
    define m1 where "m1 = set_mlength a (l - n) m"
    have ln: "w32 (l - n) = l - n" "n < l" using al t(3) assms(4) nb False n_def by auto
    have "mchain m1 MEMLIST (A @ (a, l - n) # B)" unfolding m1_def by (rule mchain_set_mlength) (use k(1,2) in auto)
    then have "mchain (mem_taken n m1) MEMLIST (A @ (a, l - n) # B)"
      by (subst mchain_cong [where m = m1]) (use nM in auto)
    moreover have "blocks_ok (minheap m - 1) (maxheap m + 1) (A @ (a, l - n) # B)"
      by (rule blocks_ok_take_top [OF k(4) nb(5) ln(2) nb(3)])
    ultimately have "kmem_ok (mem_taken n m1) (A @ (a, l - n) # B)"
      using k(5,6) t pos nb ln nM by (simp add: kmem_ok_def m1_def)
    moreover have "getstk nbytes m = Inr (a + l - 4, mem_taken n m1)"
      using scan assms(2) c False al ln nb a8 by (simp add: getstk_def n_def [symmetric] m1_def Let_def)
    ultimately show ?thesis using that [of "mem_taken n m1"] False n_def by (simp add: m1_def)
  qed
qed

lemma getstk_none:
  assumes "kmem_ok m bs" "0 < nbytes" "\<forall>(b, k) \<in> set bs. k < roundmb nbytes"
  shows "getstk nbytes m = Inr (SYSERR_st, m)"
proof -
  note k = kmem_okD [OF assms(1)]
  show ?thesis using getstk_scan_small [OF k(1) assms(3) k(3), of 0 0] mchain_first [OF k(1)] assms(2) by (simp add: getstk_def)
qed

lemma last_fit_split:
  assumes "\<not> (\<forall>(b, k) \<in> set bs. k < n)"
  obtains A a l B where "bs = A @ (a, l) # B" "(n :: int) \<le> l" "\<forall>(b, k) \<in> set B. k < n"
proof -
  have "\<exists>x \<in> set bs. (\<lambda>(b, k). n \<le> k) x" using assms by fastforce
  from split_list_last_prop [OF this] obtain A x B where "bs = A @ x # B" "(\<lambda>(b, k). n \<le> k) x" "\<forall>y \<in> set B. \<not> (\<lambda>(b, k). n \<le> k) y"
    by blast
  then show ?thesis using that [of A "fst x" "snd x" B] by (cases x) fastforce
qed

lemma off_list_around:
  assumes "\<forall>(b, k) \<in> set A. b + k \<le> a" "\<forall>(b, k) \<in> set B. a + n \<le> b"
  shows "off_list a n (A @ B)"
  using assms by (auto simp: off_list_def list_all_iff)

lemma first_fit_bytes:
  assumes "blocks_ok lo hi bs" "0 < n" "first_fit n bs = Some (a, bs')"
  shows "{a..<a + n} \<inter> heap_bytes bs' = {}" "{a..<a + n} \<union> heap_bytes bs' = heap_bytes bs"
proof -
  obtain A l B where s: "bs = A @ (a, l) # B" "n \<le> l" "bs' = A @ (if l = n then B else (a + n, l - n) # B)"
    using first_fitE [OF assms(3)] by metis
  note ar = blocks_around [OF assms(1) [unfolded s(1)]]
  have "{a..<a + n} \<inter> heap_bytes A = {}" "{a..<a + n} \<inter> heap_bytes B = {}"
    using ar s(2) by (force simp: heap_bytes_def)+
  then show "{a..<a + n} \<inter> heap_bytes bs' = {}" using s by auto
  show "{a..<a + n} \<union> heap_bytes bs' = heap_bytes bs"
    using s range_join [of n "l - n" a] assms(2) by auto
qed

definition demo_heap :: kmem where
  "demo_heap = \<lparr>mblk = (\<lambda>_. \<lparr>mnext = 0, mlength = 0\<rparr>)(MEMLIST := \<lparr>mnext = 4096, mlength = 4032\<rparr>,
       4096 := \<lparr>mnext = 4224, mlength = 64\<rparr>, 4224 := \<lparr>mnext = 0, mlength = 3968\<rparr>), minheap = 4096, maxheap = 8191\<rparr>"

lemma demo_heap_ok: "kmem_ok demo_heap [(4096, 64), (4224, 3968)]"
  by (simp add: kmem_ok_def demo_heap_def MEMLIST_def mchain_def last_addr_def)

text \<open>C17: \<^verbatim>\<open>getmem\<close> serves a request from the first free block that is large enough: it returns the start of bytes that
  were free, the free list loses exactly those bytes and stays well formed (sorted, merged, its total kept in the
  list head); it fails, and changes nothing, only when no free block is large enough.
\<close>

theorem getmem_takes_first_fit:
  assumes "kmem_ok m bs" "0 < nbytes" "nbytes \<le> 4294967288"
  shows "case first_fit (roundmb nbytes) bs of
           None \<Rightarrow> getmem nbytes m = Inr (SYSERR_st, m) \<and> list_all (\<lambda>(b, k). k < roundmb nbytes) bs
         | Some (a, bs') \<Rightarrow> (\<exists>m'. getmem nbytes m = Inr (a, m') \<and> kmem_ok m' bs') \<and>
             {a..<a + roundmb nbytes} \<inter> heap_bytes bs' = {} \<and> {a..<a + roundmb nbytes} \<union> heap_bytes bs' = heap_bytes bs"
proof (cases "first_fit (roundmb nbytes) bs")
  case None
  then show ?thesis using getmem_first_fit [OF assms] first_fit_None [OF None] by (auto simp: list_all_iff)
next
  case (Some r)
  obtain a bs' where r: "r = (a, bs')" by fastforce
  show ?thesis
    using getmem_first_fit [OF assms] first_fit_bytes [OF kmem_okD(4) [OF assms(1)] roundmb_bounds(5) [OF assms(2,3)]] Some r by auto
qed

theorem getmem_takes_first_fit_witness:
  "\<exists>m'. getmem 100 demo_heap = Inr (4224, m') \<and> kmem_ok m' [(4096, 64), (4328, 3864)]"
  using getmem_takes_first_fit [OF demo_heap_ok, of 100] by (simp add: roundmb_def)

text \<open>C18: \<^verbatim>\<open>freemem\<close> returns exactly the bytes of the block to the free list, merged with free neighbours on both sides, when
  the block overlaps no free block; a block that overlaps a free one is refused and nothing changes.
\<close>

theorem freemem_returns_the_block:
  assumes "kmem_ok m bs" "0 < nbytes" "nbytes \<le> 4294967288" "8 dvd a" "minheap m \<le> a" "a + roundmb nbytes \<le> maxheap m + 1"
  shows "if off_list a (roundmb nbytes) bs
         then \<exists>m' bs'. freemem a nbytes m = Inr (OK_st, m') \<and> kmem_ok m' bs' \<and> heap_bytes bs' = {a..<a + roundmb nbytes} \<union> heap_bytes bs
         else freemem a nbytes m = Inr (SYSERR_st, m)"
proof (cases "off_list a (roundmb nbytes) bs")
  case True
  then show ?thesis
    using freemem_gives_back [OF assms True] give_back_bytes [OF kmem_okD(4) [OF assms(1)] roundmb_bounds(5) [OF assms(2,3)], of a] by metis
next
  case False
  then show ?thesis
    using freemem_rejects_overlap [OF assms(1-3,5) _ _ False] roundmb_bounds(5) [OF assms(2,3)] assms(5,6) kmem_okD(5,6) [OF assms(1)] by simp
qed

theorem freemem_returns_the_block_witness:
  "(\<exists>m' bs'. freemem 4160 64 demo_heap = Inr (OK_st, m') \<and> kmem_ok m' bs' \<and>
      heap_bytes bs' = {4160..<4224} \<union> ({4096..<4160} \<union> {4224..<8192})) \<and>
   freemem 4160 65 demo_heap = Inr (SYSERR_st, demo_heap)"
  using freemem_returns_the_block [OF demo_heap_ok, of 64 4160] freemem_returns_the_block [OF demo_heap_ok, of 65 4160]
  by (simp add: roundmb_def off_list_def demo_heap_def)

lemma getmem_freemem:
  assumes "kmem_ok m bs" "0 < nbytes" "nbytes \<le> 4294967288" "getmem nbytes m = Inr (a, m')" "a \<noteq> SYSERR_st"
  shows "\<exists>m''. freemem a nbytes m' = Inr (OK_st, m'') \<and> kmem_ok m'' bs"
proof -
  define n where "n = roundmb nbytes"
  note nb = roundmb_bounds [OF assms(2,3), folded n_def]
  obtain bs' where ff: "first_fit n bs = Some (a, bs')" "kmem_ok m' bs'" "minheap m' = minheap m" "maxheap m' = maxheap m"
    using getmem_first_fit [OF assms(1-3), folded n_def] assms(4,5) by (auto split: option.splits)
  obtain A l B where s: "bs = A @ (a, l) # B" "n \<le> l" "bs' = A @ (if l = n then B else (a + n, l - n) # B)"
    using first_fitE [OF ff(1)] by metis
  note k = kmem_okD [OF assms(1)] and ar = blocks_around [OF kmem_okD(4) [OF assms(1), unfolded s(1)]]
  note al = kmem_ok_block [OF assms(1), of a l, unfolded s(1), simplified]
  let ?R = "if l = n then B else (a + n, l - n) # B"
  have R: "\<forall>(b, k) \<in> set ?R. a + n \<le> b" using ar(2) s(2) by auto
  have A: "\<forall>(b, k) \<in> set A. b + k < a \<and> 0 < k"
    using ar(1) blocks_ok_addr(2) [OF k(4)] s(1) by fastforce
  have "off_list a n bs'" unfolding s(3) by (rule off_list_around) (use A R in fastforce)+
  moreover have "give_back a n bs' = A @ join_right a n ?R"
    unfolding s(3) by (rule give_back_between [OF A]) (use R nb(5) in fastforce)
  then have "give_back a n bs' = bs" using join_right_split [OF nb(5) s(2) ar(2)] s(1) by simp
  ultimately show ?thesis
    using freemem_gives_back [OF ff(2) assms(2,3) al(6), folded n_def] ff(3,4) al s(2) by (metis add_left_mono order.trans)
qed

lemma getstk_freestk:
  assumes "kmem_ok m bs" "0 < nbytes" "nbytes \<le> 4294967288" "getstk nbytes m = Inr (p, m')" "p \<noteq> SYSERR_st"
  shows "\<exists>m''. freestk p nbytes m' = Inr (OK_st, m'') \<and> kmem_ok m'' bs"
proof -
  define n where "n = roundmb nbytes"
  note nb = roundmb_bounds [OF assms(2,3), folded n_def]
  have "\<not> (\<forall>(b, k) \<in> set bs. k < n)" using getstk_none [OF assms(1,2)] assms(4,5) n_def by auto
  then obtain A a l B where s: "bs = A @ (a, l) # B" "n \<le> l" "\<forall>(b, k) \<in> set B. k < n" by (rule last_fit_split)
  let ?bs' = "A @ (if l = n then B else (a, l - n) # B)"
  note k = kmem_okD [OF assms(1)] and ar = blocks_around [OF kmem_okD(4) [OF assms(1), unfolded s(1)]]
  note al = kmem_ok_block [OF assms(1), of a l, unfolded s(1), simplified]
  obtain m1 where m1: "getstk nbytes m = Inr (a + l - 4, m1)" "kmem_ok m1 ?bs'" "minheap m1 = minheap m" "maxheap m1 = maxheap m"
    using getstk_takes_top [OF assms(1) [unfolded s(1)] assms(2,3)] s(2,3) n_def by metis
  have pm: "p = a + l - 4" "m1 = m'" using m1(1) assms(4) by auto
  have "w32 (p - n + 4) = a + l - n" "roundmb n = n" using al s(2) nb pm(1) by (auto intro: roundmb_id)
  then have f: "freestk p nbytes m' = freemem (a + l - n) n m'" by (simp add: freestk_def n_def [symmetric])
  have A: "\<forall>(b, k) \<in> set A. b + k < a \<and> 0 < k"
    using ar(1) blocks_ok_addr(2) [OF k(4)] s(1) by fastforce
  have B: "\<forall>(b, k) \<in> set B. a + l \<le> b" using ar(2) by fastforce
  have "off_list (a + l - n) n ?bs'" using A B s(2) nb(5) by (auto simp: off_list_def list_all_iff)
  moreover have "give_back (a + l - n) n ?bs' = bs"
  proof (cases "l = n")
    case True
    then show ?thesis using give_back_between [OF A, of B n] B nb(5) join_right_apart [OF ar(2)] s(1) by fastforce
  next
    case False
    have "\<forall>(b, k) \<in> set B. a + (l - n) \<le> b" using B nb(5) by fastforce
    then have "give_back (a + (l - n)) n (A @ (a, l - n) # B) = A @ join_right a l B"
      using give_back_above [OF A, of "l - n" B n] s(2) False by simp
    then show ?thesis using False s(1) join_right_apart [OF ar(2)] by (simp add: add_diff_eq)
  qed
  moreover have "8 dvd a + l - n" using al nb(3) by (simp add: dvd_add dvd_diff)
  ultimately show ?thesis
    using freemem_gives_back [OF m1(2) nb(5,4), of "a + l - n"] m1(3,4) al s(2) f pm(2) \<open>roundmb n = n\<close>
    by (metis add_diff_cancel_left' diff_add_cancel order.trans add_increasing2 diff_ge_0_iff_ge add_diff_eq)
qed

text \<open>C7: Freeing a block right after it was allocated restores the free list exactly as it was, for the heap allocator
  (\<^verbatim>\<open>getmem\<close>/\<^verbatim>\<open>freemem\<close>, first fit from the low end of a block) and for the stack allocator
  (\<^verbatim>\<open>getstk\<close>/\<^verbatim>\<open>freestk\<close>, last fit from the high end), so neither leaks nor fragments memory.
\<close>

theorem heap_round_trip:
  assumes "kmem_ok m bs" "0 < nbytes" "nbytes \<le> 4294967288"
  shows "(getmem nbytes m = Inr (a, m') \<and> a \<noteq> SYSERR_st \<longrightarrow>
            (\<exists>m''. freemem a nbytes m' = Inr (OK_st, m'') \<and> kmem_ok m'' bs)) \<and>
         (getstk nbytes m = Inr (p, k) \<and> p \<noteq> SYSERR_st \<longrightarrow>
            (\<exists>m''. freestk p nbytes k = Inr (OK_st, m'') \<and> kmem_ok m'' bs))"
  using getmem_freemem [OF assms] getstk_freestk [OF assms] by blast

theorem heap_round_trip_witness:
  "\<exists>m1 m2 m3 m4. getmem 100 demo_heap = Inr (4224, m1) \<and> freemem 4224 100 m1 = Inr (OK_st, m2) \<and> kmem_ok m2 [(4096, 64), (4224, 3968)] \<and>
     getstk 100 demo_heap = Inr (8188, m3) \<and> freestk 8188 100 m3 = Inr (OK_st, m4) \<and> kmem_ok m4 [(4096, 64), (4224, 3968)]"
proof -
  obtain m1 where 1: "getmem 100 demo_heap = Inr (4224, m1)" using getmem_first_fit [OF demo_heap_ok, of 100] by (auto simp: roundmb_def)
  obtain m3 where 3: "getstk 100 demo_heap = Inr (8188, m3)"
    using getstk_takes_top [of demo_heap "[(4096, 64)]" 4224 3968 "[]" 100] demo_heap_ok by (auto simp: roundmb_def)
  show ?thesis using heap_round_trip [OF demo_heap_ok, of 100 4224 m1 8188 m3] 1 3 by (simp add: SYSERR_st_def)
qed

text \<open>
  The rounding wraps: for the seven largest request sizes \<^verbatim>\<open>roundmb\<close> gives 0, and \<^verbatim>\<open>getmem\<close> then returns the first free
  block although nothing is taken off the free list, so the next request gets the same memory.
\<close>

lemma roundmb_wraps: "4294967289 \<le> n \<Longrightarrow> n < 4294967296 \<Longrightarrow> roundmb n = 0"
  using minus_mod_self2 [of "7 + n" 4294967296] by (simp add: roundmb_def w32_def)

theorem getmem_huge_request:
  assumes "kmem_ok m ((a, l) # bs)" "4294967289 \<le> nbytes" "nbytes < 4294967296"
  shows "\<exists>m'. getmem nbytes m = Inr (a, m') \<and> kmem_ok m' ((a, l) # bs)"
proof -
  note k = kmem_okD [OF assms(1)] and t = kmem_ok_total [OF assms(1)]
  note al = kmem_ok_block [OF assms(1), of a l, simplified]
  have c: "mnext (mblk m MEMLIST) = a" "mlength (mblk m a) = l" "mchain m a bs" using k(1) by (auto simp: mchain_Cons)
  define m' where "m' = mem_taken 0 (set_mlength a l (set_mnext a (mnext (mblk m a)) (set_mnext MEMLIST a m)))"
  have w: "w32 a = a" "w32 l = l" using al by auto
  have "getmem_loop 0 MEMLIST (mnext (mblk m MEMLIST)) m = Some (a, m')"
    using c al w by (subst getmem_loop.simps) (auto simp: m'_def Let_def)
  moreover have "mchain m' MEMLIST ((a, l) # bs)"
    by (subst mchain_cong [where m = m]) (use k(1,2) c al in \<open>auto simp: m'_def\<close>)
  then have "kmem_ok m' ((a, l) # bs)" using k(4-6) t al by (simp add: kmem_ok_def m'_def)
  ultimately show ?thesis using assms(2) roundmb_wraps [OF assms(2,3)] by (simp add: getmem_def)
qed

end
