(* ===== verification/Proc_Life.thy ===== *)
theory Proc_Life
  imports Kernel Kmem
begin

text \<open>
  The life of a process: \<^verbatim>\<open>system/create.c\<close> (\<^verbatim>\<open>create\<close>, \<^verbatim>\<open>newpid\<close>), \<^verbatim>\<open>system/kill.c\<close>, \<^verbatim>\<open>userret.c\<close> and
  the context switch \<^verbatim>\<open>system/ctxsw.S\<close>. The stacks are words of memory (\<open>stk\<close>, by address), their space comes from
  the allocator of \<^verbatim>\<open>Kmem\<close>. \<^verbatim>\<open>kill\<close> is split where it can lose the processor: \<open>kill_start\<close> ends with the message
  to the parent, \<open>kill_finish\<close> is what the caller does when it runs again. The three \<^verbatim>\<open>close\<close> calls of \<^verbatim>\<open>kill\<close> go
  through the device switch table and do not touch this state; the descriptors they are made with are returned.
\<close>

section \<open>The operations\<close>

definition MINSTK :: int where "MINSTK = 400"
definition PNMLEN :: nat where "PNMLEN = 16"
definition CONSOLE :: int where "CONSOLE = 0"
definition STACKMAGIC :: u32 where "STACKMAGIC = 0x0A0AAAA9"

type_synonym stk = "int \<Rightarrow> u32"

fun newpid_loop :: "nat \<Rightarrow> kern \<Rightarrow> int \<times> kern" where
  "newpid_loop 0 k = (SYSERR_st, k)"
| "newpid_loop (Suc n) k =
     (let i = nextpid k mod NPROC; k' = k\<lparr>nextpid := i + 1\<rparr> in
      if prstate (proctab k i) = PR_FREE then (i, k') else newpid_loop n k')"

definition newpid :: "kern \<Rightarrow> int \<times> kern" where
  "newpid k = newpid_loop (nat NPROC) k"

text \<open>The name is copied up to its end, and at most 15 characters of it; the last byte is set first.\<close>

fun copy_name :: "nat \<Rightarrow> byte list \<Rightarrow> byte list \<Rightarrow> byte list" where
  "copy_name i (c # cs) old =
     (if i < PNMLEN - 1 then let new = old[i := c] in if c \<noteq> 0 then copy_name (i + 1) cs new else new else old)"
| "copy_name i [] old = old"

fun push :: "u32 \<Rightarrow> int \<times> stk \<Rightarrow> int \<times> stk" where
  "push v (sp, w) = (sp - 4, w(sp - 4 := v))"

definition create_stack :: "u32 \<Rightarrow> u32 \<Rightarrow> u32 list \<Rightarrow> int \<Rightarrow> stk \<Rightarrow> int \<times> stk" where
  "create_stack initret funcaddr args saddr w =
     (let w = w(saddr := STACKMAGIC);
          savsp = of_int saddr;
          st = fold push (rev args) (saddr, w);
          st = push initret st;
          st = push funcaddr st;
          st = push savsp st;
          savsp = of_int (fst st);
          st = push 0x200 st;
          st = fold push [0, 0, 0, 0, 0] st;
          pushsp = fst st;
          st = fold push [savsp, 0, 0] st
      in (fst st, (snd st)(pushsp := of_int (fst st))))"

definition create_proc :: "int \<Rightarrow> int \<Rightarrow> int \<Rightarrow> int \<Rightarrow> byte list \<Rightarrow> kern \<Rightarrow> kern" where
  "create_proc pid saddr ssize priority name k =
     upd_proc pid (\<lambda>e. e\<lparr>prstate := PR_SUSP, prprio := priority, prstkbase := nat saddr, prstklen := nat ssize,
         prname := copy_name 0 name ((prname e)[PNMLEN - 1 := 0]), prsem := -1, prparent := currpid k, prhasmsg := False,
         prdesc := (prdesc e)[0 := CONSOLE, 1 := CONSOLE, 2 := CONSOLE]\<rparr>)
       (k\<lparr>prcount := i32 (prcount k + 1)\<rparr>)"

text \<open>The result has the new process, and the saved stack pointer that goes to its entry (\<^verbatim>\<open>prstkptr\<close>).\<close>

definition create :: "u32 \<Rightarrow> u32 \<Rightarrow> int \<Rightarrow> int \<Rightarrow> byte list \<Rightarrow> u32 list \<Rightarrow> kern \<Rightarrow> kmem \<Rightarrow> stk \<Rightarrow>
    (int \<times> int option \<times> kern \<times> kmem \<times> stk) res" where
  "create initret funcaddr ssize priority name args k m w =
     (let ssize = roundmb (if ssize < MINSTK then MINSTK else ssize) in
      if priority < 1 then Inr (SYSERR_st, None, k, m, w)
      else
        let (pid, k) = newpid k in
        if pid = SYSERR_st then Inr (SYSERR_st, None, k, m, w)
        else
          bind_res (getstk ssize m) (\<lambda>(saddr, m).
          if saddr = SYSERR_st then Inr (SYSERR_st, None, k, m, w)
          else
            let (sp, w) = create_stack initret funcaddr args saddr w
            in Inr (pid, Some sp, create_proc pid saddr ssize priority name k, m, w)))"

text \<open>When the last user process is killed, \<^verbatim>\<open>xdone\<close> halts the processor.\<close>

definition kill_start :: "int \<Rightarrow> kern \<Rightarrow> (int option \<times> kern) res" where
  "kill_start pid k =
     (if isbadpid k pid \<or> pid = NULLPROC \<or> prstate (proctab k pid) = PR_FREE then Inr (Some SYSERR_st, k)
      else
        let k = k\<lparr>prcount := i32 (prcount k - 1)\<rparr> in
        if prcount k \<le> 1 then Inl Panic
        else bind_res (send (prparent (proctab k pid)) (of_int pid) k) (\<lambda>(_, k). Inr (None, k)))"

definition kill_state :: "int \<Rightarrow> kern \<Rightarrow> kern res" where
  "kill_state pid k =
     (let free = set_state pid PR_FREE; entry = proctab k pid in
      case prstate entry of
        PR_CURR \<Rightarrow> bind_res (resched (free k)) (\<lambda>k. if ndefers k > 0 then Inr (free (snd (unsleep pid k))) else Inr k)
      | PR_SLEEP \<Rightarrow> Inr (free (snd (unsleep pid k)))
      | PR_RECTIM \<Rightarrow> Inr (free (snd (unsleep pid k)))
      | PR_WAIT \<Rightarrow>
          let s = prsem entry in
          Inr (free (snd (getitem pid (set_count s (i32 (scount (semtab k s) + 1)) k))))
      | PR_READY \<Rightarrow> Inr (free (snd (getitem pid k)))
      | _ \<Rightarrow> Inr (free k))"

definition kill_finish :: "int \<Rightarrow> kern \<Rightarrow> kmem \<Rightarrow> (int list \<times> kern \<times> kmem) res" where
  "kill_finish pid k m =
     (let entry = proctab k pid in
      bind_res (freestk (int (prstkbase entry)) (int (prstklen entry)) m) (\<lambda>(_, m).
      bind_res (kill_state pid k) (\<lambda>k. Inr (take 3 (prdesc entry), k, m))))"

section \<open>The context switch\<close>

record regs =
  eax :: u32
  ecx :: u32
  edx :: u32
  ebx :: u32
  esp :: int
  ebp :: u32
  esi :: u32
  edi :: u32
  eflags :: u32
  eip :: u32

text \<open>\<^verbatim>\<open>ctxsw\<close> up to the store of the old stack pointer; the return address is on the stack.\<close>

definition ctxsw_save :: "regs \<Rightarrow> stk \<Rightarrow> int \<times> stk" where
  "ctxsw_save r w =
     (let st = push (ebp r) (esp r, w);
          frame = of_int (fst st);
          st = push (eflags r) st;
          sp = of_int (fst st)
      in fold push [eax r, ecx r, edx r, ebx r, sp, frame, esi r, edi r] st)"

definition ctxsw_restore :: "int \<Rightarrow> stk \<Rightarrow> regs" where
  "ctxsw_restore sp w =
     \<lparr>eax = w (sp + 28), ecx = w (sp + 24), edx = w (sp + 20), ebx = w (sp + 16), esp = sp + 44,
      ebp = w (sp + 36), esi = w (sp + 4), edi = w sp, eflags = w (sp + 32), eip = w (sp + 40)\<rparr>"

lemma fold_push_fst: "fst (fold push vs st) = fst st - 4 * int (length vs)"
proof (induction vs arbitrary: st)
  case (Cons v vs)
  obtain sp w where "st = (sp, w)" by fastforce
  then show ?case using Cons by simp
qed simp

lemma fold_push_other: "fst st \<le> x \<or> x < fst st - 4 * int (length vs) \<Longrightarrow> snd (fold push vs st) x = snd st x"
proof (induction vs arbitrary: st)
  case (Cons v vs)
  obtain sp w where st: "st = (sp, w)" by fastforce
  show ?case using Cons.IH [of "push v st"] Cons.prems st by auto
qed simp

lemma fold_push_at:
  "i < length vs \<Longrightarrow> snd (fold push vs st) (fst st - 4 * int (i + 1)) = vs ! i"
proof (induction vs arbitrary: st i)
  case (Cons v vs)
  obtain sp w where st: "st = (sp, w)" by fastforce
  show ?case
  proof (cases i)
    case 0
    then show ?thesis using fold_push_other [of "push v st" "sp - 4" vs] st by simp
  next
    case (Suc j)
    have "snd (fold push vs (push v st)) (fst (push v st) - 4 * int (j + 1)) = vs ! j"
      using Cons Suc by simp
    then show ?thesis using st Suc by (simp add: algebra_simps)
  qed
qed simp

text \<open>C11: A new process starts in its function: the context switch to the stack that \<^verbatim>\<open>create\<close> built continues at
  \<^verbatim>\<open>funcaddr\<close> with interrupts enabled, the return address on the stack is that of \<^verbatim>\<open>userret\<close>, the arguments follow it
  in order, and nothing outside the top \<open>nargs + 13\<close> words of the stack was written.
\<close>

theorem created_process_starts:
  "case create_stack initret funcaddr args saddr w of (sp, w') \<Rightarrow>
     let r = ctxsw_restore sp w' in
     eip r = funcaddr \<and> eflags r = 0x200 \<and> ebp r = of_int saddr \<and> w' saddr = STACKMAGIC \<and>
     w' (esp r) = initret \<and> map (\<lambda>i. w' (esp r + 4 * int (i + 1))) [0..<length args] = args \<and>
     esp r + 4 * int (length args + 1) = saddr \<and> {x. w' x \<noteq> w x} \<subseteq> {saddr - 4 * int (length args + 12)..saddr}"
proof -
  define st where "st = create_stack initret funcaddr args saddr w"
  let ?n = "int (length args)"
  let ?w0 = "w(saddr := STACKMAGIC)"
  define s1 where "s1 = fold push (rev args) (saddr, ?w0)"
  define s2 where "s2 = push (of_int saddr) (push funcaddr (push initret s1))"
  define s3 where "s3 = fold push [0x200, 0, 0, 0, 0, 0] s2"
  define s4 where "s4 = fold push [of_int (fst s2), 0, 0] s3"
  have st: "st = (fst s4, (snd s4)(fst s3 := of_int (fst s4)))"
    by (simp add: st_def create_stack_def Let_def s4_def s3_def s2_def s1_def)
  have f1: "fst s1 = saddr - 4 * ?n" by (simp add: s1_def fold_push_fst)
  obtain w1 where s1: "s1 = (saddr - 4 * ?n, w1)" using f1 by (cases s1) auto
  have s2: "s2 = (saddr - 4 * ?n - 12, w1(saddr - 4 * ?n - 4 := initret, saddr - 4 * ?n - 8 := funcaddr, saddr - 4 * ?n - 12 := of_int saddr))"
    by (simp add: s2_def s1)
  have s3: "fst s3 = saddr - 4 * ?n - 36" "s4 = push 0 (push 0 (push (of_int (fst s2)) s3))" by (simp_all add: s3_def s2 s4_def)
  have s4: "fst s4 = saddr - 4 * ?n - 48" using s3 by (cases s3) simp
  let ?e = "saddr - 4 * ?n - 4"
  have hi: "snd st x = snd s2 x" if "fst s2 \<le> x" for x
    using that fold_push_other [of s3 x "[of_int (fst s2), 0, 0]"] fold_push_other [of s2 x "[0x200, 0, 0, 0, 0, 0]"] s3 s2
    by (simp add: st s4_def s3_def)
  have fl: "snd st (saddr - 4 * ?n - 16) = 0x200"
    using fold_push_other [of s3 "saddr - 4 * ?n - 16" "[of_int (fst s2), 0, 0]"] fold_push_at [of 0 "[0x200, 0, 0, 0, 0, 0]" s2] s3 s2
    by (simp add: st s4_def s3_def)
  have arg: "snd st (saddr - 4 * int (i + 1)) = rev args ! i" if "i < length args" for i
  proof -
    have "snd s1 (saddr - 4 * int (i + 1)) = rev args ! i" using fold_push_at [of i "rev args" "(saddr, ?w0)"] that by (simp add: s1_def)
    then have "w1 (saddr - 4 * int (i + 1)) = rev args ! i" by (simp add: s1)
    moreover have "fst s2 \<le> saddr - 4 * int (i + 1)" "saddr - 4 * ?n \<le> saddr - 4 * int (i + 1)" using that by (simp_all add: s2)
    ultimately show ?thesis using hi by (simp add: s2)
  qed
  have "map (\<lambda>i. snd st (?e + 4 * int (i + 1))) [0..<length args] = args"
  proof -
    have "snd st (?e + 4 * int (i + 1)) = args ! i" if i: "i < length args" for i
    proof -
      have n: "length args - 1 - i < length args" "length args - 1 - i + 1 = length args - i" using i by simp_all
      have "?e + 4 * int (i + 1) = saddr - 4 * int (length args - 1 - i + 1)" unfolding n(2) using i by (simp add: of_nat_diff)
      then have "snd st (?e + 4 * int (i + 1)) = rev args ! (length args - 1 - i)" using arg [OF n(1)] by (simp only:)
      also have "\<dots> = args ! i" using i by (simp add: rev_nth)
      finally show ?thesis .
    qed
    then have "map (\<lambda>i. snd st (?e + 4 * int (i + 1))) [0..<length args] = map (\<lambda>i. args ! i) [0..<length args]"
      by (intro map_cong) auto
    then show ?thesis by (simp only: map_nth)
  qed
  moreover have "snd st saddr = STACKMAGIC"
    using hi [of saddr] fold_push_other [of "(saddr, ?w0)" saddr "rev args"] s1 s1_def by (simp add: s2)
  moreover have "{x. snd st x \<noteq> w x} \<subseteq> {saddr - 4 * (?n + 12)..saddr}"
  proof -
    have "snd st x = w x" if "x < saddr - 4 * (?n + 12) \<or> saddr < x" for x
    proof -
      have "snd s1 x = ?w0 x" using that fold_push_other [of "(saddr, ?w0)" x "rev args"] by (auto simp: s1_def)
      then have "snd s2 x = w x" using that by (auto simp: s2 s1)
      then show ?thesis
        using that fold_push_other [of s2 x "[0x200, 0, 0, 0, 0, 0]"] fold_push_other [of s3 x "[of_int (fst s2), 0, 0]"] s2 s3
        by (auto simp: st s4_def s3_def)
    qed
    then show ?thesis by (auto simp: not_less [symmetric])
  qed
  moreover have "snd st ?e = initret" "snd st (saddr - 4 * ?n - 8) = funcaddr" "snd st (saddr - 4 * ?n - 12) = of_int saddr"
    using hi by (simp_all add: s2)
  ultimately show ?thesis
    unfolding st_def [symmetric] using fl st s4 by (simp add: ctxsw_restore_def case_prod_beta Let_def algebra_simps)
qed

text \<open>A process that loses the processor gets its registers back: from a stack that is as \<^verbatim>\<open>ctxsw\<close> left it, a later
  switch restores the general registers, the frame pointer and the interrupt flag, and returns to the caller of
  \<^verbatim>\<open>ctxsw\<close>.
\<close>

theorem context_switch_round_trip:
  assumes "\<forall>x \<in> {esp r - 40..esp r}. w' x = snd (ctxsw_save r w) x"
  shows "ctxsw_restore (fst (ctxsw_save r w)) w' = r\<lparr>eip := w (esp r), esp := esp r + 4\<rparr>"
proof -
  have "fst (ctxsw_save r w) = esp r - 40" by (simp add: ctxsw_save_def Let_def)
  moreover have e: "w' x = snd (ctxsw_save r w) x" if "esp r - 40 \<le> x" "x \<le> esp r" for x using assms that by simp
  ultimately show ?thesis by (simp add: ctxsw_restore_def e) (simp add: ctxsw_save_def Let_def)
qed

theorem context_switch_round_trip_witness:
  "ctxsw_restore 4056 (snd (ctxsw_save \<lparr>eax = 1, ecx = 2, edx = 3, ebx = 4, esp = 4096, ebp = 5, esi = 6, edi = 7, eflags = 0x200, eip = 8\<rparr> (\<lambda>_. 9))) =
     \<lparr>eax = 1, ecx = 2, edx = 3, ebx = 4, esp = 4100, ebp = 5, esi = 6, edi = 7, eflags = 0x200, eip = 9\<rparr>"
  using context_switch_round_trip [of "\<lparr>eax = 1, ecx = 2, edx = 3, ebx = 4, esp = 4096, ebp = 5, esi = 6, edi = 7, eflags = 0x200, eip = 8\<rparr>"
      "snd (ctxsw_save \<lparr>eax = 1, ecx = 2, edx = 3, ebx = 4, esp = 4096, ebp = 5, esi = 6, edi = 7, eflags = 0x200, eip = 8\<rparr> (\<lambda>_. 9))" "\<lambda>_. 9"]
  by (simp add: ctxsw_save_def Let_def)

section \<open>New processes\<close>

text \<open>The other processes still exist, with their stacks.\<close>

definition procs_same_but :: "int \<Rightarrow> kern \<Rightarrow> kern \<Rightarrow> bool" where
  "procs_same_but p k k' \<longleftrightarrow> (\<forall>x. x \<noteq> p \<longrightarrow> (prstate (proctab k' x) = PR_FREE \<longleftrightarrow> prstate (proctab k x) = PR_FREE) \<and>
     prstkbase (proctab k' x) = prstkbase (proctab k x) \<and> prstklen (proctab k' x) = prstklen (proctab k x))"

lemma newpid_loop_spec:
  shows "case newpid_loop n k of (pid, k') \<Rightarrow> (\<exists>i. k' = k\<lparr>nextpid := i\<rparr>) \<and>
    (if \<exists>j < n. prstate (proctab k ((nextpid k + int j) mod NPROC)) = PR_FREE
     then pid \<in> {0..<NPROC} \<and> prstate (proctab k pid) = PR_FREE else pid = SYSERR_st)"
proof (induction n arbitrary: k)
  case 0
  have "\<exists>i. k = k\<lparr>nextpid := i\<rparr>" by (rule exI [of _ "nextpid k"]) simp
  then show ?case by simp
next
  case (Suc n)
  let ?i = "nextpid k mod NPROC"
  let ?k = "k\<lparr>nextpid := ?i + 1\<rparr>"
  have i: "?i \<in> {0..<NPROC}" by (simp add: NPROC_def)
  have shift: "(?i + 1 + int j) mod NPROC = (nextpid k + int (Suc j)) mod NPROC" for j
    using mod_add_left_eq [of "nextpid k" NPROC "1 + int j"] by (simp add: ac_simps)
  have ex: "(\<exists>j < Suc n. prstate (proctab k ((nextpid k + int j) mod NPROC)) = PR_FREE) \<longleftrightarrow>
      prstate (proctab k ?i) = PR_FREE \<or> (\<exists>j < n. prstate (proctab ?k ((nextpid ?k + int j) mod NPROC)) = PR_FREE)"
    unfolding Ex_less_Suc2 using shift by simp
  show ?case
  proof (cases "prstate (proctab k ?i) = PR_FREE")
    case True
    then show ?thesis unfolding ex using i by (auto simp: Let_def)
  next
    case False
    then have l: "newpid_loop (Suc n) k = newpid_loop n ?k" by (simp add: Let_def)
    show ?thesis unfolding ex l using Suc.IH [of ?k] False by (cases "newpid_loop n ?k") (fastforce split: if_splits)
  qed
qed

lemma newpid_spec:
  obtains pid i where "newpid k = (pid, k\<lparr>nextpid := i\<rparr>)"
    "pid = SYSERR_st \<longleftrightarrow> (\<forall>p \<in> {0..<NPROC}. prstate (proctab k p) \<noteq> PR_FREE)"
    "pid \<noteq> SYSERR_st \<Longrightarrow> pid \<in> {0..<NPROC} \<and> prstate (proctab k pid) = PR_FREE"
proof -
  obtain pid k' where n: "newpid k = (pid, k')" by fastforce
  have all: "(\<exists>j < nat NPROC. prstate (proctab k ((nextpid k + int j) mod NPROC)) = PR_FREE) \<longleftrightarrow>
      (\<exists>p \<in> {0..<NPROC}. prstate (proctab k p) = PR_FREE)"
  proof
    assume "\<exists>p \<in> {0..<NPROC}. prstate (proctab k p) = PR_FREE"
    then obtain p where p: "p \<in> {0..<NPROC}" "prstate (proctab k p) = PR_FREE" by blast
    let ?j = "nat ((p - nextpid k) mod NPROC)"
    have "int ?j = (p - nextpid k) mod NPROC" by (simp add: NPROC_def)
    then have "(nextpid k + int ?j) mod NPROC = p mod NPROC" by (simp add: mod_simps)
    then have "(nextpid k + int ?j) mod NPROC = p" using p(1) by simp
    moreover have "?j < nat NPROC" by (simp add: NPROC_def nat_less_iff)
    ultimately show "\<exists>j < nat NPROC. prstate (proctab k ((nextpid k + int j) mod NPROC)) = PR_FREE"
      using p(2) by (intro exI [of _ ?j]) simp
  qed (auto simp: NPROC_def)
  have "SYSERR_st \<notin> {0..<NPROC}" by (simp add: SYSERR_st_def)
  then show thesis
    using newpid_loop_spec [where n = "nat NPROC" and k = k, folded newpid_def, unfolded all n] n that [of pid] by (auto split: if_splits)
qed

lemma kernel_ok_nextpid: "kernel_ok k \<Longrightarrow> kernel_step k (k\<lparr>nextpid := i\<rparr>)" "kernel_ok k \<Longrightarrow> kernel_step k (k\<lparr>prcount := c\<rparr>)"
proof -
  assume ok: "kernel_ok k"
  have "kinv {} (k\<lparr>nextpid := i\<rparr>) = kinv {} k" "kinv {} (k\<lparr>prcount := c\<rparr>) = kinv {} k" by (rule kinv_cong; simp)+
  then show "kernel_step k (k\<lparr>nextpid := i\<rparr>)" "kernel_step k (k\<lparr>prcount := c\<rparr>)"
    using kernel_okD [OF ok] by (auto intro!: kernel_ok_same [OF ok] simp: running_def kept_def procs_same_def)
qed

lemma create_proc_kernel:
  assumes ok: "kernel_ok k" and p: "pid \<in> {0..<NPROC}" "prstate (proctab k pid) = PR_FREE" and prio: "1 \<le> priority" "priority < 32768"
  shows "kernel_ok (create_proc pid saddr ssize priority name k)" (is "kernel_ok ?k'")
    "prstate (proctab (create_proc pid saddr ssize priority name k) pid) = PR_SUSP"
    "procs_same_but pid k (create_proc pid saddr ssize priority name k)"
    "prstkbase (proctab (create_proc pid saddr ssize priority name k) pid) = nat saddr"
    "prstklen (proctab (create_proc pid saddr ssize priority name k) pid) = nat ssize"
proof -
  note k = kernel_okD [OF ok]
  have np: "pid \<noteq> NULLPROC" "pid \<noteq> currpid k" using kinvD(9) [OF k(1)] k(2) p(2) by (auto simp: running_def)
  have h: "home ?k' x = home k x" for x
    using p(2) by (cases "x = pid") (auto simp: home_def create_proc_def upd_proc_def sem_queue_def split: pstate.splits)
  have q: "kqueues ?k' = kqueues k" "queue_ids_ok ?k' = queue_ids_ok k"
    by (rule kern_fields; simp add: create_proc_def upd_proc_def)+
  have "kinv {} ?k'"
    using k(1) np prio unfolding kinv_def q h by (auto simp: create_proc_def)
  moreover have "sems_ok ?k'"
    by (rule sems_ok_cong [OF k(5)]) (simp add: sem_ok_def create_proc_def upd_proc_def sem_queue_def)
  ultimately show "kernel_ok ?k'"
    by (intro kernel_ok_nextsem [OF ok]) (use k np in \<open>auto simp: create_proc_def running_def sleep_same_def upd_proc_def\<close>)
qed (simp_all add: create_proc_def procs_same_but_def)

section \<open>Processes that end\<close>

text \<open>What the end of \<open>p\<close> leaves of the queues: every semaphore keeps its other waiters in their order and counts one waiter
  less exactly if \<open>p\<close> was one of them, and every other sleeper is due after the same number of ticks.\<close>

definition others_wait_on :: "int \<Rightarrow> kern \<Rightarrow> kern \<Rightarrow> bool" where
  "others_wait_on p k k' \<longleftrightarrow> (\<forall>s \<in> {0..<NSEM}.
     qitems (queuetab k') (sem_queue k' s) = remove1 p (qitems (queuetab k) (sem_queue k s)) \<and>
     scount (semtab k' s) = scount (semtab k s) + (if p \<in> set (qitems (queuetab k) (sem_queue k s)) then 1 else 0)) \<and>
   kdues k' = filter (\<lambda>(x, _). x \<noteq> p) (kdues k)"

lemma kdues_without: "p \<notin> set (qitems (queuetab k) (sleepq k)) \<Longrightarrow> filter (\<lambda>(x, _). x \<noteq> p) (kdues k) = kdues k"
proof -
  have "fst x \<in> set ps" if "x \<in> set (dues kf d ps)" for x kf d ps using that by (induction ps arbitrary: d) auto
  then show "p \<notin> set (qitems (queuetab k) (sleepq k)) \<Longrightarrow> filter (\<lambda>(x, _). x \<noteq> p) (kdues k) = kdues k"
    unfolding kdues_def filter_id_conv by fastforce
qed

lemma others_wait_onI:
  assumes inv: "kinv {} k" and h: "\<And>s. s \<in> {0..<NSEM} \<Longrightarrow> home k p \<noteq> Some (sem_queue k s)" "home k p \<noteq> Some (sleepq k)"
    and q: "\<And>s. s \<in> {0..<NSEM} \<Longrightarrow> qitems (queuetab k') (sem_queue k' s) = qitems (queuetab k) (sem_queue k s)"
    "\<And>s. s \<in> {0..<NSEM} \<Longrightarrow> scount (semtab k' s) = scount (semtab k s)" and s: "sleep_same k k'"
  shows "others_wait_on p k k'"
proof -
  have "p \<notin> set (qitems (queuetab k) (sleepq k))" using kinv_members [OF inv kqueues_mem(2)] h(2) by simp
  moreover have "p \<notin> set (qitems (queuetab k) (sem_queue k s))" if "s \<in> {0..<NSEM}" for s
    using kinv_members [OF inv kqueues_mem(3) [OF that]] h(1) [OF that] by simp
  ultimately show ?thesis
    unfolding others_wait_on_def sleep_same_kdues(1) [OF s] using q kdues_without by (simp add: remove1_idem)
qed

lemma kill_current:
  assumes ok: "kernel_ok k" and p: "p \<noteq> NULLPROC" "prstate (proctab k p) = PR_CURR" "p \<in> {0..<NPROC}"
  shows "\<exists>k'. kill_state p k = Inr k' \<and> kernel_ok k' \<and> kept (set_state p PR_FREE k) k' \<and> others_wait_on p k k'"
proof -
  note k = kernel_okD [OF ok]
  let ?k = "set_state p PR_FREE k"
  have c: "p = currpid k" using kinvD(5) [OF k(1) p(3,2)] .
  have inv: "kinv {} ?k" by (rule kinv_unqueued_state [OF k(1)]) (use p in \<open>auto simp: home_def\<close>)
  obtain k' where k': "resched ?k = Inr k'" "kinv {} k'" "running k'" "only_ready ?k k'" "ndefers k' = ndefers ?k"
    using resched_ok [OF inv] k(4) by auto
  have "sems_ok k'" by (rule sems_ok_cong [OF k(5)]) (use sem_ok_only_ready(1) [OF k'(4) inv] in \<open>simp add: sem_ok_def\<close>)
  moreover have "sleep_same k k'" using only_ready_sleep [OF k'(4) kinvD(2) [OF inv]] by (simp add: sleep_same_def)
  moreover have "kept ?k k'" by (rule only_ready_kept [OF k'(4)])
  ultimately have "kernel_ok k'" using kernel_ok_nextsem [OF ok k'(2,3)] k'(5) k(3) by (simp add: kept_def)
  moreover have "kill_state p k = Inr k'" using p(2) k'(1,5) k(3) by (simp add: kill_state_def Let_def)
  moreover have "others_wait_on p k k'"
  proof (rule others_wait_onI [OF k(1) _ _ _ _ \<open>sleep_same k k'\<close>])
    fix s assume s: "s \<in> {0..<NSEM}"
    show "home k p \<noteq> Some (sem_queue k s)" using p(2) by (simp add: home_def)
    show "qitems (queuetab k') (sem_queue k' s) = qitems (queuetab k) (sem_queue k s)" "scount (semtab k' s) = scount (semtab k s)"
      using k'(4) queue_ids(2) [OF inv s] kqueues_mem(3) [OF s] sem_ok_only_ready(3,4) [OF k'(4) inv s]
      by (simp_all add: only_ready_def)
  qed (use p(2) in \<open>simp add: home_def\<close>)
  ultimately show ?thesis using \<open>kept ?k k'\<close> by blast
qed

lemma kill_sleeping:
  assumes ok: "kernel_ok k" and p: "p \<noteq> NULLPROC" "prstate (proctab k p) \<in> {PR_SLEEP, PR_RECTIM}" "p \<in> {0..<NPROC}"
  shows "\<exists>k'. kill_state p k = Inr k' \<and> kernel_ok k' \<and> kept (set_state p PR_FREE k) k' \<and> others_wait_on p k k'"
proof -
  note k = kernel_okD [OF ok]
  have "home k p = Some (sleepq k)" using p(2) by (auto simp: home_def)
  then have pin: "p \<in> set (qitems (queuetab k) (sleepq k))" using kinv_members [OF k(1) kqueues_mem(2)] p(3) by simp
  obtain t' where t': "unsleep p k = (OK_st, k\<lparr>queuetab := t'\<rparr>)" "kinv {p} (k\<lparr>queuetab := t'\<rparr>)"
    "relinked (queuetab k) t' (kqueues k) (sleepq k) (remove1 p (qitems (queuetab k) (sleepq k)))"
    "dues (\<lambda>x. qkey (t' x)) 0 (qitems t' (sleepq k)) =
       filter (\<lambda>(x, _). x \<noteq> p) (dues (\<lambda>x. qkey (queuetab k x)) 0 (qitems (queuetab k) (sleepq k)))"
    "delays_ok t' (qitems t' (sleepq k))"
    using unsleep_spec [OF k(1) pin k(6) [unfolded kdelays_ok_def]] by metis
  let ?k' = "set_state p PR_FREE (k\<lparr>queuetab := t'\<rparr>)"
  have "kinv {} ?k'" by (rule kinv_queued_state [OF t'(2)]) (use p in auto)
  moreover have "p \<noteq> currpid k" using p(2) k(2) by (auto simp: running_def)
  then have "running ?k'" using k(2) by (simp add: running_def proctab_set_state)
  moreover have "sems_ok ?k'"
    by (rule sems_ok_cong [OF k(5)]) (use t'(3) queue_ids(3) [OF k(1)] in \<open>auto simp: sem_ok_def relinked_def\<close>)
  moreover have "kdues ?k' = filter (\<lambda>(x, _). x \<noteq> p) (kdues k)" "kdelays_ok ?k'" using t'(4,5) by (simp_all add: kdues_def kdelays_ok_def)
  ultimately have "kernel_ok ?k'" using k by (auto simp: kernel_ok_def)
  moreover have "kill_state p k = Inr ?k'" using p(2) t'(1) by (auto simp: kill_state_def Let_def)
  moreover have "kept (set_state p PR_FREE k) ?k'" by (simp add: kept_def procs_same_def proctab_set_state)
  moreover have "others_wait_on p k ?k'"
  proof -
    have "p \<notin> set (qitems (queuetab k) (sem_queue k s)) \<and> qitems t' (sem_queue k s) = qitems (queuetab k) (sem_queue k s)"
      if s: "s \<in> {0..<NSEM}" for s
      using kinv_members [OF k(1) kqueues_mem(3) [OF s], of p] \<open>home k p = _\<close> queue_ids(3) [OF k(1) s] t'(3) s
      by (auto simp: relinked_def)
    then show ?thesis using \<open>kdues ?k' = _\<close> by (simp add: others_wait_on_def remove1_idem sem_queue_def)
  qed
  ultimately show ?thesis by blast
qed

lemma kill_ready:
  assumes ok: "kernel_ok k" and p: "p \<noteq> NULLPROC" "prstate (proctab k p) = PR_READY" "p \<in> {0..<NPROC}"
  shows "\<exists>k'. kill_state p k = Inr k' \<and> kernel_ok k' \<and> kept (set_state p PR_FREE k) k' \<and> others_wait_on p k k'"
proof -
  note k = kernel_okD [OF ok]
  have "home k p = Some (readylist k)" using p(2) by (simp add: home_def)
  then have m: "p \<in> set (qitems (queuetab k) (readylist k))" using kinv_members [OF k(1) kqueues_mem(1)] p(3) by simp
  obtain t' where t': "getitem p k = (p, k\<lparr>queuetab := t'\<rparr>)" "kinv {p} (k\<lparr>queuetab := t'\<rparr>)"
    "relinked (queuetab k) t' (kqueues k) (readylist k) (remove1 p (qitems (queuetab k) (readylist k)))"
    "\<And>x. qkey (t' x) = qkey (queuetab k x)"
    using getitem_kinv [OF k(1) kqueues_mem(1) m] by auto
  let ?k' = "set_state p PR_FREE (k\<lparr>queuetab := t'\<rparr>)"
  have "kinv {} ?k'" by (rule kinv_queued_state [OF t'(2)]) (use p in auto)
  moreover have "p \<noteq> currpid k" using p(2) k(2) by (auto simp: running_def)
  then have "running ?k'" using k(2) by (simp add: running_def proctab_set_state)
  moreover have "sems_ok ?k'"
    by (rule sems_ok_cong [OF k(5)]) (use t'(3) queue_ids(2) [OF k(1)] in \<open>auto simp: sem_ok_def relinked_def\<close>)
  moreover have "sleep_same k (k\<lparr>queuetab := t'\<rparr>)" using relinked_sleep [OF t'(3) _ t'(4)] queue_ids(1) [OF k(1)] by simp
  then have "sleep_same k ?k'" by (simp add: sleep_same_def)
  ultimately have "kernel_ok ?k'" using k(3) by (intro kernel_ok_nextsem [OF ok]) simp_all
  moreover have "kill_state p k = Inr ?k'" using p(2) t'(1) by (simp add: kill_state_def Let_def)
  moreover have "kept (set_state p PR_FREE k) ?k'" by (simp add: kept_def procs_same_def proctab_set_state)
  moreover have "others_wait_on p k ?k'"
  proof (rule others_wait_onI [OF k(1) _ _ _ _ \<open>sleep_same k ?k'\<close>])
    fix s assume s: "s \<in> {0..<NSEM}"
    show "home k p \<noteq> Some (sem_queue k s)" using queue_ids(2) [OF k(1) s] \<open>home k p = _\<close> by simp
    show "qitems (queuetab ?k') (sem_queue ?k' s) = qitems (queuetab k) (sem_queue k s)" "scount (semtab ?k' s) = scount (semtab k s)"
      using t'(3) queue_ids(2) [OF k(1) s] kqueues_mem(3) [OF s] by (simp_all add: relinked_def sem_queue_def)
  qed (use queue_ids(1) [OF k(1)] \<open>home k p = _\<close> in simp)
  ultimately show ?thesis by blast
qed

lemma kill_waiting:
  assumes ok: "kernel_ok k" and p: "p \<noteq> NULLPROC" "prstate (proctab k p) = PR_WAIT" "p \<in> {0..<NPROC}"
  shows "\<exists>k'. kill_state p k = Inr k' \<and> kernel_ok k' \<and> kept (set_state p PR_FREE k) k' \<and> others_wait_on p k k'"
proof -
  note k = kernel_okD [OF ok]
  let ?s = "prsem (proctab k p)"
  let ?L = "qitems (queuetab k) (sem_queue k ?s)" and ?c = "scount (semtab k ?s)"
  have s: "?s \<in> {0..<NSEM}" using kinvD(4) [OF k(1) p(3,2)] .
  have "home k p = Some (sem_queue k ?s)" using p(2) by (simp add: home_def)
  then have m: "p \<in> set ?L" using kinv_members [OF k(1) kqueues_mem(3) [OF s]] p(3) by simp
  have sok: "sem_ok k r" if "r \<in> {0..<NSEM}" for r using k(5) that by (simp add: sems_ok_def)
  have c: "?c < 0" "sused (semtab k ?s)" "int (length ?L) = - ?c" "-2147483648 \<le> ?c"
    using sok [OF s] m by (auto simp: sem_ok_def Let_def split: if_splits)
  have i: "i32 (?c + 1) = ?c + 1" using c by (intro i32_in_range) auto
  let ?k1 = "set_count ?s (?c + 1) k"
  have k1: "kinv {} ?k1" "sem_queue k ?s \<in> kqueues ?k1" "p \<in> set (qitems (queuetab ?k1) (sem_queue k ?s))"
    using k(1) s m by simp_all
  obtain t' where t': "getitem p ?k1 = (p, ?k1\<lparr>queuetab := t'\<rparr>)" "kinv {p} (?k1\<lparr>queuetab := t'\<rparr>)"
    "relinked (queuetab ?k1) t' (kqueues ?k1) (sem_queue k ?s) (remove1 p ?L)" "\<And>x. qkey (t' x) = qkey (queuetab ?k1 x)"
    using getitem_kinv [OF k1] by auto
  let ?k' = "set_state p PR_FREE (?k1\<lparr>queuetab := t'\<rparr>)"
  have "kinv {} ?k'" by (rule kinv_queued_state [OF t'(2)]) (use p in auto)
  moreover have "p \<noteq> currpid k" using p(2) k(2) by (auto simp: running_def)
  then have "running ?k'" using k(2) by (simp add: running_def proctab_set_state)
  moreover have q: "sem_queue ?k' r = sem_queue k r" for r by (simp add: sem_queue_def)
  have it: "qitems t' (sem_queue k r) = (if r = ?s then remove1 p ?L else qitems (queuetab k) (sem_queue k r))"
    if r: "r \<in> {0..<NSEM}" for r
    using t'(3) r s queue_ids(4) [OF k(1) r s] by (simp add: relinked_def)
  have "sem_ok ?k' r" if r: "r \<in> {0..<NSEM}" for r
  proof -
    note it = it [OF r]
    show ?thesis
    proof (cases "r = ?s")
      case True
      have "0 < length ?L" using m by (rule length_pos_if_in_set)
      then have len: "int (length (remove1 p ?L)) = - (?c + 1)" using m c(3) unfolding length_remove1 by (simp add: of_nat_diff Suc_le_eq del: length_greater_0_conv)
      have "remove1 p ?L = []" if "\<not> ?c + 1 < 0"
      proof -
        have "length (remove1 p ?L) = 0" using that len by linarith
        then show ?thesis by (simp only: length_0_conv)
      qed
      then show ?thesis using True c it q [of r] len by (auto simp: sem_ok_def Let_def)
    next
      case False
      then show ?thesis using sok [OF r] it q [of r] by (simp add: sem_ok_def Let_def)
    qed
  qed
  then have "sems_ok ?k'" by (simp add: sems_ok_def)
  moreover have "sleep_same ?k1 (?k1\<lparr>queuetab := t'\<rparr>)" using relinked_sleep [OF t'(3) _ t'(4)] queue_ids(3) [OF k(1) s] by simp
  then have "sleep_same k ?k'" by (simp add: sleep_same_def)
  ultimately have "kernel_ok ?k'" using k(3) by (intro kernel_ok_nextsem [OF ok]) simp_all
  moreover have "kill_state p k = Inr ?k'" using p(2) t'(1) i by (simp add: kill_state_def Let_def)
  moreover have "kept (set_state p PR_FREE k) ?k'" by (simp add: kept_def procs_same_def proctab_set_state)
  moreover have "others_wait_on p k ?k'"
  proof -
    have "p \<notin> set (qitems (queuetab k) (sem_queue k r))" if r: "r \<in> {0..<NSEM}" "r \<noteq> ?s" for r
      using kinv_members [OF k(1) kqueues_mem(3) [OF r(1)], of p] \<open>home k p = _\<close> queue_ids(4) [OF k(1) r(1) s] r(2) by auto
    moreover have "kdues ?k' = filter (\<lambda>(x, _). x \<noteq> p) (kdues k)"
      using sleep_same_kdues(1) [OF \<open>sleep_same k ?k'\<close>] kdues_without [of p k]
        kinv_members [OF k(1) kqueues_mem(2), of p] \<open>home k p = _\<close> queue_ids(3) [OF k(1) s] by auto
    ultimately show ?thesis using it m q by (auto simp: others_wait_on_def remove1_idem)
  qed
  ultimately show ?thesis by blast
qed

lemma kill_idle:
  assumes ok: "kernel_ok k" and p: "p \<noteq> NULLPROC" "prstate (proctab k p) \<in> {PR_RECV, PR_SUSP}" "p \<in> {0..<NPROC}"
  shows "\<exists>k'. kill_state p k = Inr k' \<and> kernel_ok k' \<and> kept (set_state p PR_FREE k) k' \<and> others_wait_on p k k'"
proof -
  note k = kernel_okD [OF ok]
  let ?k' = "set_state p PR_FREE k"
  have "kinv {} ?k'" by (rule kinv_unqueued_state [OF k(1)]) (use p in \<open>auto simp: home_def\<close>)
  moreover have "p \<noteq> currpid k" using p(2) k(2) by (auto simp: running_def)
  then have "running ?k'" using k(2) by (simp add: running_def proctab_set_state)
  moreover have "sems_ok ?k'" by (rule sems_ok_cong [OF k(5)]) (simp add: sem_ok_def)
  moreover have ss: "sleep_same k ?k'" by (simp add: sleep_same_def)
  ultimately have "kernel_ok ?k'" using k(3) by (intro kernel_ok_nextsem [OF ok]) simp_all
  moreover have "others_wait_on p k ?k'"
    by (rule others_wait_onI [OF k(1) _ _ _ _ ss]) (use p(2) in \<open>auto simp: home_def sem_queue_def\<close>)
  moreover have "kill_state p k = Inr ?k'" using p(2) by (auto simp: kill_state_def Let_def)
  ultimately show ?thesis by auto
qed

lemma kill_state_kernel:
  assumes ok: "kernel_ok k" and p: "p \<noteq> NULLPROC" "prstate (proctab k p) \<noteq> PR_FREE" "p \<in> {0..<NPROC}"
  shows "\<exists>k'. kill_state p k = Inr k' \<and> kernel_ok k' \<and> kept (set_state p PR_FREE k) k' \<and> others_wait_on p k k'"
proof (cases "prstate (proctab k p)")
  case PR_CURR
  then show ?thesis using kill_current ok p by blast
next
  case PR_READY
  then show ?thesis using kill_ready ok p by blast
next
  case PR_SLEEP
  then show ?thesis using kill_sleeping ok p by blast
next
  case PR_RECTIM
  then show ?thesis using kill_sleeping ok p by blast
next
  case PR_WAIT
  then show ?thesis using kill_waiting ok p by blast
qed (use assms kill_idle in blast)+

end
