(* ===== verification/System.thy ===== *)
theory System
  imports Proc_Life
begin

text \<open>
  The kernel as one transition system: system calls, the parts of the clock interrupt, creation and termination of
  processes and the heap calls act on the kernel's tables, the heap and the words of the stacks. The invariant of the
  reachable states joins that of the tables (\<^verbatim>\<open>Kernel\<close>), that of the heap (\<^verbatim>\<open>Kmem\<close>) and the ownership of the stacks.
\<close>

type_synonym ksys = "kern \<times> kmem \<times> stk"

datatype scall = Kcall kcall | Create u32 int int "byte list" "u32 list" | Kill_start int | Kill_finish int
  | Getmem int | Freemem int int

fun sys_exec :: "u32 \<Rightarrow> scall \<Rightarrow> ksys \<Rightarrow> ksys res" where
  "sys_exec initret (Kcall c) (k, m, w) = bind_res (exec c k) (\<lambda>k. Inr (k, m, w))"
| "sys_exec initret (Create f ssize prio name args) (k, m, w) =
     bind_res (create initret f ssize prio name args k m w) (\<lambda>(_, _, st). Inr st)"
| "sys_exec initret (Kill_start p) (k, m, w) = bind_res (kill_start p k) (\<lambda>(_, k). Inr (k, m, w))"
| "sys_exec initret (Kill_finish p) (k, m, w) = bind_res (kill_finish p k m) (\<lambda>(_, k, m). Inr (k, m, w))"
| "sys_exec initret (Getmem n) (k, m, w) = bind_res (getmem n m) (\<lambda>(_, m). Inr (k, m, w))"
| "sys_exec initret (Freemem a n) (k, m, w) = bind_res (freemem a n m) (\<lambda>(_, m). Inr (k, m, w))"

definition stack_bytes :: "kern \<Rightarrow> int \<Rightarrow> int set" where
  "stack_bytes k p = {int (prstkbase (proctab k p)) + 4 - int (prstklen (proctab k p))..<int (prstkbase (proctab k p)) + 4}"

definition user_proc :: "kern \<Rightarrow> int \<Rightarrow> bool" where
  "user_proc k p \<longleftrightarrow> p \<in> {0..<NPROC} \<and> p \<noteq> NULLPROC \<and> prstate (proctab k p) \<noteq> PR_FREE"

text \<open>What the callers respect, beside \<open>may\<close>: sizes fit, the last user process is not killed (that halts the
  processor), a process does not end twice, and \<^verbatim>\<open>freemem\<close> is not given a piece of a stack.\<close>

fun sys_may :: "scall \<Rightarrow> ksys \<Rightarrow> bool" where
  "sys_may (Kcall c) (k, m, w) \<longleftrightarrow> may c k"
| "sys_may (Create f ssize prio name args) (k, m, w) \<longleftrightarrow> ssize \<le> 4294967288 \<and> prio < 32768"
| "sys_may (Kill_start p) (k, m, w) \<longleftrightarrow> (user_proc k p \<longrightarrow> i32 (prcount k - 1) > 1)"
| "sys_may (Kill_finish p) (k, m, w) \<longleftrightarrow> user_proc k p"
| "sys_may (Getmem n) (k, m, w) \<longleftrightarrow> 0 \<le> n \<and> n \<le> 4294967288"
| "sys_may (Freemem a n) (k, m, w) \<longleftrightarrow> 0 < n \<and> n \<le> 4294967288 \<and> 8 dvd a \<and> minheap m \<le> a \<and> a + roundmb n \<le> maxheap m + 1 \<and>
     (\<forall>p. user_proc k p \<longrightarrow> {a..<a + roundmb n} \<inter> stack_bytes k p = {})"

section \<open>The stacks\<close>

definition stack_ok :: "kern \<Rightarrow> kmem \<Rightarrow> int \<Rightarrow> bool" where
  "stack_ok k m p \<longleftrightarrow> (let top = int (prstkbase (proctab k p)) + 4; len = int (prstklen (proctab k p)) in
     0 < len \<and> len \<le> 4294967288 \<and> 8 dvd len \<and> 8 dvd top \<and> minheap m \<le> top - len \<and> top \<le> maxheap m + 1)"

definition stacks_ok :: "kern \<Rightarrow> kmem \<Rightarrow> (int \<times> int) list \<Rightarrow> bool" where
  "stacks_ok k m bs \<longleftrightarrow> (\<forall>p. user_proc k p \<longrightarrow> stack_ok k m p \<and> stack_bytes k p \<inter> heap_bytes bs = {} \<and>
     (\<forall>q. user_proc k q \<longrightarrow> q \<noteq> p \<longrightarrow> stack_bytes k p \<inter> stack_bytes k q = {}))"

definition sys_ok :: "ksys \<Rightarrow> bool" where
  "sys_ok st = (case st of (k, m, w) \<Rightarrow> kernel_ok k \<and> (\<exists>bs. kmem_ok m bs \<and> stacks_ok k m bs))"

lemma procs_same_stacks:
  assumes "procs_same k k'" "minheap m' = minheap m" "maxheap m' = maxheap m"
  shows "user_proc k' = user_proc k" "stack_bytes k' = stack_bytes k" "stack_ok k' m' = stack_ok k m" "stacks_ok k' m' bs = stacks_ok k m bs"
proof -
  show a: "user_proc k' = user_proc k" "stack_bytes k' = stack_bytes k" "stack_ok k' m' = stack_ok k m"
    using assms by (simp_all add: fun_eq_iff user_proc_def stack_bytes_def stack_ok_def procs_same_def)
  show "stacks_ok k' m' bs = stacks_ok k m bs" by (simp add: stacks_ok_def a)
qed

lemma stacks_ok_fewer: "stacks_ok k m bs \<Longrightarrow> heap_bytes bs' \<subseteq> heap_bytes bs \<Longrightarrow> stacks_ok k m bs'"
  by (fastforce simp: stacks_ok_def)

lemma off_list_disjoint:
  assumes "blocks_ok lo hi bs" "0 < n" "{a..<a + n} \<inter> heap_bytes bs = {}"
  shows "off_list a n bs"
proof -
  have "b + k \<le> a \<or> a + n \<le> b" if bk: "(b, k) \<in> set bs" for b k
  proof (rule ccontr)
    assume "\<not> (b + k \<le> a \<or> a + n \<le> b)"
    then have "max a b \<in> {a..<a + n} \<inter> {b..<b + k}" using blocks_ok_addr(2) [OF assms(1) bk] assms(2) by auto
    then show False using assms(3) bk unfolding heap_bytes_def by blast
  qed
  then show ?thesis by (auto simp: off_list_def list_all_iff)
qed

text \<open>The stack allocator, on sets of bytes.\<close>

lemma getstk_bytes:
  assumes "kmem_ok m bs" "0 < nbytes" "nbytes \<le> 4294967288"
  shows "getstk nbytes m = Inr (SYSERR_st, m) \<or>
    (\<exists>p m' bs'. getstk nbytes m = Inr (p, m') \<and> p \<noteq> SYSERR_st \<and> kmem_ok m' bs' \<and> minheap m' = minheap m \<and> maxheap m' = maxheap m \<and>
       {p + 4 - roundmb nbytes..<p + 4} \<inter> heap_bytes bs' = {} \<and> {p + 4 - roundmb nbytes..<p + 4} \<union> heap_bytes bs' = heap_bytes bs \<and>
       8 dvd p + 4 \<and> 4 \<le> p \<and> minheap m \<le> p + 4 - roundmb nbytes \<and> p + 4 \<le> maxheap m + 1)"
proof (cases "\<forall>(b, k) \<in> set bs. k < roundmb nbytes")
  case True
  then show ?thesis using getstk_none [OF assms(1,2)] by simp
next
  case False
  note nb = roundmb_bounds [OF assms(2,3)]
  obtain A a l B where s: "bs = A @ (a, l) # B" "roundmb nbytes \<le> l" "\<forall>(b, k) \<in> set B. k < roundmb nbytes"
    using last_fit_split [OF False] by metis
  let ?n = "roundmb nbytes" and ?bs' = "A @ (if l = roundmb nbytes then B else (a, l - roundmb nbytes) # B)"
  obtain m' where m': "getstk nbytes m = Inr (a + l - 4, m')" "kmem_ok m' ?bs'" "minheap m' = minheap m" "maxheap m' = maxheap m"
    using getstk_takes_top [OF assms(1) [unfolded s(1)] assms(2,3) s(2,3)] by metis
  note al = kmem_ok_block [OF assms(1), of a l, unfolded s(1), simplified]
  have a8: "8 \<le> a" using al zdvd_imp_le [of 8 a] by simp
  note ar = blocks_around [OF kmem_okD(4) [OF assms(1), unfolded s(1)]]
  have d: "{a + l - ?n..<a + l} \<inter> heap_bytes A = {}" "{a + l - ?n..<a + l} \<inter> heap_bytes B = {}"
    using ar(1,2) s(2) by (force simp: heap_bytes_def)+
  have j: "{a..<a + (l - ?n)} \<union> {a + (l - ?n)..<a + l} = {a..<a + l}" using s(2) nb(5) by auto
  have "{a + l - ?n..<a + l} \<inter> heap_bytes ?bs' = {}" using d by auto
  moreover have "{a + l - ?n..<a + l} \<union> heap_bytes ?bs' = heap_bytes bs"
    using s(1) j by (cases "l = ?n") (auto simp: add_diff_eq)
  ultimately show ?thesis
    using m' al a8 s(2) nb by (intro disjI2 exI [of _ "a + l - 4"] exI [of _ m'] exI [of _ ?bs']) (auto simp: SYSERR_st_def)
qed

section \<open>Every call keeps the invariant\<close>

lemma sys_okI: "kernel_ok k \<Longrightarrow> kmem_ok m bs \<Longrightarrow> stacks_ok k m bs \<Longrightarrow> sys_ok (k, m, w)"
  by (auto simp: sys_ok_def)

lemma kernel_step_sys:
  assumes "kernel_step k k'" "kmem_ok m bs" "stacks_ok k m bs"
  shows "sys_ok (k', m, w)"
  using assms procs_same_stacks(4) [OF kernel_stepD(2) [OF assms(1)], of m m bs] by (auto intro!: sys_okI simp: kernel_step_def)

lemma new_stack:
  assumes st: "stacks_ok k m bs" and same: "procs_same_but pid k k'"
    and new: "int (prstkbase (proctab k' pid)) = saddr" "int (prstklen (proctab k' pid)) = n"
    and blk: "0 < n" "n \<le> 4294967288" "8 dvd n" "8 dvd saddr + 4" "minheap m \<le> saddr + 4 - n" "saddr + 4 \<le> maxheap m + 1"
    and bytes: "{saddr + 4 - n..<saddr + 4} \<inter> heap_bytes bs' = {}" "{saddr + 4 - n..<saddr + 4} \<union> heap_bytes bs' = heap_bytes bs"
    and m': "minheap m' = minheap m" "maxheap m' = maxheap m"
  shows "stacks_ok k' m' bs'"
proof -
  have sb: "stack_bytes k' pid = {saddr + 4 - n..<saddr + 4}" by (simp add: stack_bytes_def new algebra_simps)
  have old: "user_proc k p" "stack_bytes k' p = stack_bytes k p" "stack_ok k' m' p = stack_ok k m p" if "user_proc k' p" "p \<noteq> pid" for p
    using same that m' by (auto simp: user_proc_def stack_bytes_def stack_ok_def procs_same_but_def)
  have free: "stack_bytes k p \<inter> heap_bytes bs = {}" if "user_proc k p" for p using st that by (simp add: stacks_ok_def)
  have okn: "stack_ok k' m' pid" using new blk m' by (auto simp: stack_ok_def Let_def algebra_simps)
  show ?thesis
    unfolding stacks_ok_def
  proof (intro allI impI conjI)
    fix p assume p: "user_proc k' p"
    show "stack_ok k' m' p" using okn old [OF p] st by (cases "p = pid") (auto simp: stacks_ok_def)
    show "stack_bytes k' p \<inter> heap_bytes bs' = {}" using sb old [OF p] free bytes by (cases "p = pid") blast+
    fix q assume q: "user_proc k' q" "q \<noteq> p"
    consider "p = pid" | "q = pid" | "p \<noteq> pid" "q \<noteq> pid" by blast
    then show "stack_bytes k' p \<inter> stack_bytes k' q = {}"
    proof cases
      case 1
      then show ?thesis using sb old [OF q(1)] q(2) free bytes(2) by blast
    next
      case 2
      then show ?thesis using sb old [OF p] q(2) free bytes(2) by blast
    next
      case 3
      then show ?thesis using old(1,2) [OF p] old(1,2) [OF q(1)] st q(2) by (simp add: stacks_ok_def)
    qed
  qed
qed

lemma create_sys:
  assumes ok: "kernel_ok k" and m: "kmem_ok m bs" "stacks_ok k m bs" and a: "ssize \<le> 4294967288" "prio < 32768"
  shows "\<exists>r. create initret f ssize prio name args k m w = Inr r \<and> sys_ok (snd (snd r))"
proof -
  define s where "s = (if ssize < MINSTK then MINSTK else ssize)"
  have s: "0 < s" "s \<le> 4294967288" using a(1) by (auto simp: s_def MINSTK_def)
  note nb = roundmb_bounds [OF s]
  have rr: "roundmb (roundmb s) = roundmb s" using nb by (intro roundmb_id) auto
  obtain pid i where pid: "newpid k = (pid, k\<lparr>nextpid := i\<rparr>)" "pid \<noteq> SYSERR_st \<Longrightarrow> pid \<in> {0..<NPROC} \<and> prstate (proctab k pid) = PR_FREE"
    using newpid_spec [of k] by metis
  let ?k = "k\<lparr>nextpid := i\<rparr>"
  have step: "kernel_step k ?k" by (rule kernel_ok_nextpid(1) [OF ok])
  have unchanged: "sys_ok (?k, m, w)" "sys_ok (k, m, w)" using kernel_step_sys [OF step m] sys_okI [OF ok m] by auto
  show ?thesis
  proof (cases "prio < 1 \<or> pid = SYSERR_st")
    case True
    then show ?thesis using unchanged pid(1) by (auto simp: create_def Let_def)
  next
    case False
    from getstk_bytes [OF m(1) nb(5,4)] consider (full) "getstk (roundmb s) m = Inr (SYSERR_st, m)"
      | (stk) p m' bs' where "getstk (roundmb s) m = Inr (p, m')" "p \<noteq> SYSERR_st" "kmem_ok m' bs'"
        "minheap m' = minheap m" "maxheap m' = maxheap m"
        "{p + 4 - roundmb s..<p + 4} \<inter> heap_bytes bs' = {}" "{p + 4 - roundmb s..<p + 4} \<union> heap_bytes bs' = heap_bytes bs"
        "8 dvd p + 4" "4 \<le> p" "minheap m \<le> p + 4 - roundmb s" "p + 4 \<le> maxheap m + 1"
      unfolding rr by blast
    then show ?thesis
    proof cases
      case full
      then show ?thesis using unchanged pid(1) False by (auto simp: create_def Let_def s_def)
    next
      case stk
      let ?k' = "create_proc pid p (roundmb s) prio name ?k"
      have fr: "pid \<in> {0..<NPROC}" "prstate (proctab ?k pid) = PR_FREE" using pid(2) False by auto
      note c = create_proc_kernel [OF kernel_stepD(1) [OF step] fr, of prio p "roundmb s" name]
      have k': "kernel_ok ?k'" "procs_same_but pid ?k ?k'" using c(1,3) False a(2) by auto
      have st1: "stacks_ok ?k m bs" using m(2) procs_same_stacks(4) [OF kernel_stepD(2) [OF step], of m m bs] by simp
      have "stacks_ok ?k' m' bs'"
        by (rule new_stack [OF st1 k'(2) _ _ nb(5,4,3) stk(8,10,11,6,7,4,5)]) (use c(4,5) False a(2) stk(9) nb(5) in auto)
      moreover obtain sp w' where "create_stack initret f args p w = (sp, w')" by fastforce
      ultimately show ?thesis
        using pid(1) False stk(1-3) k'(1) by (auto simp: create_def Let_def s_def intro!: sys_okI)
    qed
  qed
qed

lemma kill_start_sys:
  assumes ok: "kernel_ok k" and m: "kmem_ok m bs" "stacks_ok k m bs" and last: "user_proc k p \<longrightarrow> i32 (prcount k - 1) > 1"
  shows "\<exists>r k'. kill_start p k = Inr (r, k') \<and> sys_ok (k', m, w)"
proof (cases "user_proc k p")
  case False
  then show ?thesis using sys_okI [OF ok m] by (auto simp: kill_start_def user_proc_def isbadpid_def)
next
  case True
  let ?k = "k\<lparr>prcount := i32 (prcount k - 1)\<rparr>"
  have step: "kernel_step k ?k" by (rule kernel_ok_nextpid(2) [OF ok])
  obtain r k' where k': "send (prparent (proctab ?k p)) (of_int p) ?k = Inr (r, k')" "kernel_step ?k k'"
    using send_kernel [OF kernel_stepD(1) [OF step]] by blast
  have "kill_start p k = Inr (None, k')" using True last k'(1) by (simp add: kill_start_def user_proc_def isbadpid_def Let_def)
  then show ?thesis using kernel_step_sys [OF kernel_step_trans [OF step k'(2)] m] by blast
qed

lemma kill_finish_sys:
  assumes ok: "kernel_ok k" and m: "kmem_ok m bs" "stacks_ok k m bs" and p: "user_proc k p"
  shows "\<exists>d k' m' bs'. kill_finish p k m = Inr (d, k', m') \<and> kernel_ok k' \<and> prstate (proctab k' p) = PR_FREE \<and>
    kmem_ok m' bs' \<and> stacks_ok k' m' bs' \<and> heap_bytes bs' = stack_bytes k p \<union> heap_bytes bs \<and> others_wait_on p k k'"
proof -
  let ?top = "int (prstkbase (proctab k p)) + 4" and ?n = "int (prstklen (proctab k p))"
  have so: "0 < ?n" "?n \<le> 4294967288" "8 dvd ?n" "8 dvd ?top" "minheap m \<le> ?top - ?n" "?top \<le> maxheap m + 1"
    "stack_bytes k p \<inter> heap_bytes bs = {}"
    using m(2) p by (auto simp: stacks_ok_def stack_ok_def Let_def)
  have r: "roundmb ?n = ?n" using so by (intro roundmb_id) auto
  note kd = kmem_okD [OF m(1)]
  have w: "w32 (?top - 4 - ?n + 4) = ?top - ?n" using so(1,5,6) kd(5,6) by simp
  have sb: "stack_bytes k p = {?top - ?n..<?top - ?n + ?n}" by (simp add: stack_bytes_def)
  have off: "off_list (?top - ?n) ?n bs" using off_list_disjoint [OF kd(4) so(1)] so(7) sb by simp
  have d8: "8 dvd ?top - ?n" using so(3,4) by (simp add: dvd_diff)
  obtain m' where m': "freemem (?top - ?n) ?n m = Inr (OK_st, m')" "kmem_ok m' (give_back (?top - ?n) ?n bs)"
    "minheap m' = minheap m" "maxheap m' = maxheap m"
    using freemem_gives_back [OF m(1) so(1,2) d8 so(5), unfolded r, OF _ off] so(6) by auto
  let ?bs' = "give_back (?top - ?n) ?n bs"
  have by': "heap_bytes ?bs' = stack_bytes k p \<union> heap_bytes bs" using give_back_bytes [OF kd(4) so(1)] sb by simp
  obtain k' where k': "kill_state p k = Inr k'" "kernel_ok k'" "kept (set_state p PR_FREE k) k'" "others_wait_on p k k'"
    using kill_state_kernel [OF ok] p by (auto simp: user_proc_def)
  have e: "user_proc k' x \<longleftrightarrow> user_proc k x \<and> x \<noteq> p" "stack_bytes k' x = stack_bytes k x" "stack_ok k' m' x = stack_ok k m x" for x
    using k'(3) m'(3,4) by (auto simp: kept_def procs_same_def user_proc_def stack_bytes_def stack_ok_def proctab_set_state)
  have "stacks_ok k' m' ?bs'" using m(2) p unfolding stacks_ok_def e by' by blast
  moreover have "prstate (proctab k' p) = PR_FREE" using k'(3) by (simp add: kept_def procs_same_def)
  moreover have "kill_finish p k m = Inr (take 3 (prdesc (proctab k p)), k', m')"
    using m'(1) k'(1) r w by (simp add: kill_finish_def freestk_def Let_def)
  ultimately show ?thesis using k'(2,4) m'(2) by' by blast
qed

lemma getmem_sys:
  assumes ok: "kernel_ok k" and m: "kmem_ok m bs" "stacks_ok k m bs" and n: "0 \<le> n" "n \<le> 4294967288"
  shows "\<exists>r m'. getmem n m = Inr (r, m') \<and> sys_ok (k, m', w)"
proof (cases "n = 0")
  case True
  then show ?thesis using sys_okI [OF ok m] by (simp add: getmem_def)
next
  case False
  then have n': "0 < n" using n by simp
  show ?thesis
  proof (cases "first_fit (roundmb n) bs")
    case None
    then show ?thesis using getmem_first_fit [OF m(1) n' n(2)] sys_okI [OF ok m] by auto
  next
    case (Some r)
    obtain a bs' where r: "r = (a, bs')" by fastforce
    obtain m' where m': "getmem n m = Inr (a, m')" "kmem_ok m' bs'" "minheap m' = minheap m" "maxheap m' = maxheap m"
      using getmem_first_fit [OF m(1) n' n(2)] Some r by auto
    have "heap_bytes bs' \<subseteq> heap_bytes bs"
      using first_fit_bytes(2) [OF kmem_okD(4) [OF m(1)] roundmb_bounds(5) [OF n' n(2)]] Some r by blast
    then have "stacks_ok k m' bs'"
      using stacks_ok_fewer [OF m(2)] procs_same_stacks(4) [OF kept_refl(2) m'(3,4), of k bs'] by simp
    then show ?thesis using m' sys_okI [OF ok] by blast
  qed
qed

lemma freemem_sys:
  assumes ok: "kernel_ok k" and m: "kmem_ok m bs" "stacks_ok k m bs" and may: "sys_may (Freemem a n) (k, m, w)"
  shows "\<exists>r m'. freemem a n m = Inr (r, m') \<and> sys_ok (k, m', w)"
proof -
  have b: "0 < n" "n \<le> 4294967288" "8 dvd a" "minheap m \<le> a" "a + roundmb n \<le> maxheap m + 1"
    "\<And>p. user_proc k p \<Longrightarrow> {a..<a + roundmb n} \<inter> stack_bytes k p = {}" using may by auto
  note nb = roundmb_bounds [OF b(1,2)] and kd = kmem_okD [OF m(1)]
  show ?thesis
  proof (cases "off_list a (roundmb n) bs")
    case True
    obtain m' where m': "freemem a n m = Inr (OK_st, m')" "kmem_ok m' (give_back a (roundmb n) bs)"
      "minheap m' = minheap m" "maxheap m' = maxheap m"
      using freemem_gives_back [OF m(1) b(1-5) True] by metis
    have "stacks_ok k m (give_back a (roundmb n) bs)"
      using m(2) b(6) unfolding stacks_ok_def give_back_bytes [OF kd(4) nb(5)] by blast
    then have "stacks_ok k m' (give_back a (roundmb n) bs)"
      using procs_same_stacks(4) [OF kept_refl(2) m'(3,4)] by simp
    then show ?thesis using m' sys_okI [OF ok] by blast
  next
    case False
    have "freemem a n m = Inr (SYSERR_st, m)"
      by (rule freemem_rejects_overlap [OF m(1) b(1,2,4) _ _ False]) (use b(5) nb(5) kd(6) in auto)
    then show ?thesis using sys_okI [OF ok m] by blast
  qed
qed

lemma sys_progress:
  assumes "sys_ok st" "sys_may c st"
  shows "\<exists>st'. sys_exec initret c st = Inr st' \<and> sys_ok st'"
proof -
  obtain k m w where st: "st = (k, m, w)" by (cases st) auto
  obtain bs where ok: "kernel_ok k" and m: "kmem_ok m bs" "stacks_ok k m bs" using assms(1) st by (auto simp: sys_ok_def)
  show ?thesis
  proof (cases c)
    case (Kcall c')
    then obtain k' where k': "exec c' k = Inr k'" "kernel_step k k'" using exec_kernel [OF ok, of c'] assms(2) st by auto
    show ?thesis using Kcall k' st kernel_step_sys [OF k'(2) m] by auto
  next
    case (Create f ssize prio name args)
    then obtain r where r: "create initret f ssize prio name args k m w = Inr r" "sys_ok (snd (snd r))"
      using create_sys [OF ok m, of ssize prio initret f name args w] assms(2) st by auto
    then show ?thesis using Create st by (cases r) auto
  next
    case (Kill_start p)
    then obtain r k' where "kill_start p k = Inr (r, k')" "sys_ok (k', m, w)"
      using kill_start_sys [OF ok m, of p w] assms(2) st by auto
    then show ?thesis using Kill_start st by auto
  next
    case (Kill_finish p)
    then have "user_proc k p" using assms(2) st by simp
    then obtain d k' m' bs' where "kill_finish p k m = Inr (d, k', m')" "kernel_ok k'" "kmem_ok m' bs'" "stacks_ok k' m' bs'"
      using kill_finish_sys [OF ok m] by blast
    then show ?thesis using Kill_finish st by (auto intro!: sys_okI)
  next
    case (Getmem n)
    then obtain r m' where "getmem n m = Inr (r, m')" "sys_ok (k, m', w)" using getmem_sys [OF ok m, of n w] assms(2) st by auto
    then show ?thesis using Getmem st by auto
  next
    case (Freemem a n)
    then obtain r m' where "freemem a n m = Inr (r, m')" "sys_ok (k, m', w)" using freemem_sys [OF ok m, of a n w] assms(2) st by auto
    then show ?thesis using Freemem st by auto
  qed
qed

lemma sysinit_sys_ok:
  assumes "nextqid k = NPROC" "nextsem k = 0" "\<forall>p. -32768 \<le> prprio (proctab k p) \<and> prprio (proctab k p) < 32768" "kmem_ok m bs"
  shows "sys_ok (sysinit base k, m, w)"
proof -
  have "\<not> user_proc (sysinit base k) p" for p
  proof -
    have pt: "proctab (sysinit_sem i k) = proctab k" for i k by (cases "newqueue k") (auto simp: sysinit_sem_def newqueue_def Let_def split: if_splits)
    have "proctab (fold sysinit_sem is k) = proctab k" for "is" k by (induction "is" arbitrary: k) (simp_all add: pt)
    then show ?thesis
      by (auto simp: sysinit_def sysinit_procs sysinit_null_def user_proc_def clkinit_def newqueue_def NPROC_def Let_def)
  qed
  then have "stacks_ok (sysinit base k) m bs" by (simp add: stacks_ok_def)
  then show ?thesis using sysinit_kernel_ok [OF assms(1-3)] assms(4) by (auto intro!: sys_okI)
qed

section \<open>Reachable states\<close>

text \<open>A system whose calls always return when they may be made.\<close>

locale guarded_system =
  fixes ok :: "'s \<Rightarrow> bool" and allowed :: "'c \<Rightarrow> 's \<Rightarrow> bool" and do_call :: "'c \<Rightarrow> 's \<Rightarrow> 's res"
  assumes progress: "ok s \<Longrightarrow> allowed c s \<Longrightarrow> \<exists>s'. do_call c s = Inr s' \<and> ok s'"
begin

inductive reach :: "'s \<Rightarrow> 's \<Rightarrow> bool" for s0 where
  reach_start: "reach s0 s0"
| reach_call: "reach s0 s \<Longrightarrow> allowed c s \<Longrightarrow> do_call c s = Inr s' \<Longrightarrow> reach s0 s'"

lemma reach_ok: "reach s0 s \<Longrightarrow> ok s0 \<Longrightarrow> ok s"
proof (induction rule: reach.induct)
  case (reach_call s c s')
  then show ?case using progress [of s c] by auto
qed

lemma reach_progress: "reach s0 s \<Longrightarrow> ok s0 \<Longrightarrow> allowed c s \<Longrightarrow> \<exists>s'. do_call c s = Inr s' \<and> reach s0 s'"
  using reach_ok progress reach_call by metis

end

interpretation kern_system: guarded_system sys_ok sys_may "sys_exec initret" for initret
  by unfold_locales (rule sys_progress)

inductive kreach :: "u32 \<Rightarrow> ksys \<Rightarrow> ksys \<Rightarrow> bool" for initret st0 where
  kreach_start: "kreach initret st0 st0"
| kreach_call: "kreach initret st0 st \<Longrightarrow> sys_may c st \<Longrightarrow> sys_exec initret c st = Inr st' \<Longrightarrow> kreach initret st0 st'"

inductive_cases kreachE: "kreach initret st0 st"

lemma kreach_reach: "kreach initret st0 st \<Longrightarrow> kern_system.reach initret st0 st"
  by (induction rule: kreach.induct) (auto intro: kern_system.reach_start kern_system.reach_call)

text \<open>C2: from the state \<^verbatim>\<open>sysinit\<close> sets up and any well-formed heap, whatever sequence of system calls, process
  creations and terminations, heap calls and clock interrupts follows: exactly one process runs; a process is on the ready
  list, in the sleep queue or in the queue of a semaphore exactly if its state says so; a negative semaphore count is the
  number of its waiting processes; the stacks of two processes never overlap, and none overlaps free memory; and every
  further call returns: no search for a place in a queue runs past its end, no loop diverges, and rescheduling always
  finds a process.\<close>

theorem kernel_invariant:
  assumes "nextqid k0 = NPROC" "nextsem k0 = 0" "\<forall>p. -32768 \<le> prprio (proctab k0 p) \<and> prprio (proctab k0 p) < 32768"
    and "kmem_ok m0 bs0" "kreach initret (sysinit base k0, m0, w0) (k, m, w)" "p \<in> {0..<NPROC}" "s \<in> {0..<NSEM}" "sys_may c (k, m, w)"
  shows "{p \<in> {0..<NPROC}. prstate (proctab k p) = PR_CURR} = {currpid k} \<and>
    (prstate (proctab k p) = PR_READY \<longleftrightarrow> p \<in> set (qitems (queuetab k) (readylist k))) \<and>
    (prstate (proctab k p) \<in> {PR_SLEEP, PR_RECTIM} \<longleftrightarrow> p \<in> set (qitems (queuetab k) (sleepq k))) \<and>
    (prstate (proctab k p) = PR_WAIT \<and> prsem (proctab k p) = s \<longleftrightarrow> p \<in> set (qitems (queuetab k) (sem_queue k s))) \<and>
    (sused (semtab k s) \<and> scount (semtab k s) < 0 \<longrightarrow> int (length (qitems (queuetab k) (sem_queue k s))) = - scount (semtab k s)) \<and>
    (\<exists>bs. kmem_ok m bs \<and> (\<forall>p. user_proc k p \<longrightarrow> stack_bytes k p \<inter> heap_bytes bs = {} \<and>
       (\<forall>q. user_proc k q \<longrightarrow> q \<noteq> p \<longrightarrow> stack_bytes k p \<inter> stack_bytes k q = {}))) \<and>
    (\<exists>st'. sys_exec initret c (k, m, w) = Inr st' \<and> kreach initret (sysinit base k0, m0, w0) st')"
proof -
  have r: "kern_system.reach initret (sysinit base k0, m0, w0) (k, m, w)" by (rule kreach_reach [OF assms(5)])
  have sok: "sys_ok (k, m, w)" by (rule kern_system.reach_ok [OF r sysinit_sys_ok [OF assms(1-4)]])
  then obtain bs where ok: "kernel_ok k" "kmem_ok m bs" "stacks_ok k m bs" by (auto simp: sys_ok_def)
  have "sem_ok k s" using kernel_okD(5) [OF ok(1)] assms(7) by (simp add: sems_ok_def)
  then have "sused (semtab k s) \<and> scount (semtab k s) < 0 \<longrightarrow> int (length (qitems (queuetab k) (sem_queue k s))) = - scount (semtab k s)"
    by (simp add: sem_ok_def Let_def)
  moreover obtain st' where st': "sys_exec initret c (k, m, w) = Inr st'" using sys_progress [OF sok assms(8)] by blast
  then have "\<exists>st'. sys_exec initret c (k, m, w) = Inr st' \<and> kreach initret (sysinit base k0, m0, w0) st'"
    using kreach_call [OF assms(5,8)] by blast
  moreover have "\<exists>bs. kmem_ok m bs \<and> (\<forall>p. user_proc k p \<longrightarrow> stack_bytes k p \<inter> heap_bytes bs = {} \<and>
       (\<forall>q. user_proc k q \<longrightarrow> q \<noteq> p \<longrightarrow> stack_bytes k p \<inter> stack_bytes k q = {}))"
    using ok(2,3) unfolding stacks_ok_def by blast
  ultimately show ?thesis using kernel_ok_meaning [OF ok(1)] assms(6,7) by blast
qed

theorem kernel_invariant_witness:
  "\<exists>st'. sys_exec 7 (Create 8 1000 20 [65, 0] [1, 2]) (sysinit 0 (demo_kern 20\<lparr>nextqid := 100\<rparr>), demo_heap, \<lambda>_. 0) = Inr st' \<and>
     kreach 7 (sysinit 0 (demo_kern 20\<lparr>nextqid := 100\<rparr>), demo_heap, \<lambda>_. 0) st'"
proof -
  let ?k = "demo_kern 20\<lparr>nextqid := 100\<rparr>"
  have a: "nextqid ?k = NPROC" "nextsem ?k = 0" by (simp_all add: NPROC_def demo_kern_def)
  have b: "\<forall>p. -32768 \<le> prprio (proctab ?k p) \<and> prprio (proctab ?k p) < 32768" by (simp add: demo_kern_def proc0_def)
  have c: "(0 :: int) \<in> {0..<NPROC}" "(0 :: int) \<in> {0..<NSEM}" by (simp_all add: NPROC_def NSEM_def)
  have m: "sys_may (Create 8 1000 20 [65, 0] [1, 2]) (sysinit 0 ?k, demo_heap, \<lambda>_. 0)" by simp
  from kernel_invariant [where initret = 7, OF a b demo_heap_ok kreach_start c m] show ?thesis by (elim conjE)
qed

text \<open>C12: \<^verbatim>\<open>kill\<close>, once it has told the parent, ends a process in whatever state it is: its table entry is free and it is in no queue; another process
  runs if it was the running one; every semaphore keeps its other waiters in their order, and its count goes up by one
  exactly if the process waited for it; every other sleeper wakes when it would have (its delays in the sleep queue add
  up to the same number of ticks); and exactly its stack goes back to the heap.\<close>

theorem kill_ends_process:
  assumes "kernel_ok k" "kmem_ok m bs" "stacks_ok k m bs" "user_proc k p"
  shows "\<exists>d k' m' bs'. kill_finish p k m = Inr (d, k', m') \<and> kernel_ok k' \<and> prstate (proctab k' p) = PR_FREE \<and>
    list_all (\<lambda>q. p \<notin> set (qitems (queuetab k') q)) (readylist k' # sleepq k' # map (sem_queue k') [0..NSEM - 1]) \<and>
    currpid k' \<noteq> p \<and> prstate (proctab k' (currpid k')) = PR_CURR \<and>
    list_all (\<lambda>s. qitems (queuetab k') (sem_queue k' s) = remove1 p (qitems (queuetab k) (sem_queue k s)) \<and>
       scount (semtab k' s) =
         (if prstate (proctab k p) = PR_WAIT \<and> prsem (proctab k p) = s then scount (semtab k s) + 1 else scount (semtab k s)))
      [0..NSEM - 1] \<and>
    dues (\<lambda>x. qkey (queuetab k' x)) 0 (qitems (queuetab k') (sleepq k')) =
      filter (\<lambda>(x, _). x \<noteq> p) (dues (\<lambda>x. qkey (queuetab k x)) 0 (qitems (queuetab k) (sleepq k))) \<and>
    kmem_ok m' bs' \<and> stacks_ok k' m' bs' \<and> heap_bytes bs' = stack_bytes k p \<union> heap_bytes bs"
proof -
  obtain d k' m' bs' where k': "kill_finish p k m = Inr (d, k', m')" "kernel_ok k'" "prstate (proctab k' p) = PR_FREE"
    "kmem_ok m' bs'" "stacks_ok k' m' bs'" "heap_bytes bs' = stack_bytes k p \<union> heap_bytes bs" "others_wait_on p k k'"
    using kill_finish_sys [OF assms] by blast
  have "p \<notin> set (qitems (queuetab k') q)" if "q \<in> kqueues k'" for q
    using kinv_members [OF kernel_okD(1) [OF k'(2)] that, of p] k'(3) by (simp add: home_def)
  then have "list_all (\<lambda>q. p \<notin> set (qitems (queuetab k') q)) (readylist k' # sleepq k' # map (sem_queue k') [0..NSEM - 1])"
    by (auto simp: list_all_iff)
  moreover have "prstate (proctab k' (currpid k')) = PR_CURR" using kernel_okD(2) [OF k'(2)] by (simp add: running_def)
  moreover from this have "currpid k' \<noteq> p" using k'(3) by auto
  moreover have "p \<in> set (qitems (queuetab k) (sem_queue k s)) \<longleftrightarrow> prstate (proctab k p) = PR_WAIT \<and> prsem (proctab k p) = s"
    if "s \<in> {0..<NSEM}" for s using kernel_ok_meaning(4) [OF assms(1)] assms(4) that by (auto simp: user_proc_def)
  then have "list_all (\<lambda>s. qitems (queuetab k') (sem_queue k' s) = remove1 p (qitems (queuetab k) (sem_queue k s)) \<and>
       scount (semtab k' s) =
         (if prstate (proctab k p) = PR_WAIT \<and> prsem (proctab k p) = s then scount (semtab k s) + 1 else scount (semtab k s)))
      [0..NSEM - 1]"
    using k'(7) by (simp add: list_all_iff others_wait_on_def)
  ultimately show ?thesis using k' unfolding others_wait_on_def kdues_def by blast
qed

definition demo_procs :: kern where
  "demo_procs = upd_proc 3 (\<lambda>e. e\<lparr>prstkbase := 4188, prstklen := 32\<rparr>) (upd_proc 4 (\<lambda>e. e\<lparr>prstkbase := 4220, prstklen := 32\<rparr>) (demo_kern 20))"

theorem kill_ends_process_witness:
  "\<exists>d k' m' bs'. kill_finish 4 demo_procs demo_heap = Inr (d, k', m') \<and> kernel_ok k' \<and> prstate (proctab k' 4) = PR_FREE \<and>
     kmem_ok m' bs' \<and> heap_bytes bs' = {4192..<4224} \<union> ({4096..<4160} \<union> {4224..<8192})"
proof -
  have ok: "kernel_ok demo_procs" unfolding demo_procs_def by (intro kernel_ok_upd_other demo_kernel_ok) simp_all
  have u: "user_proc demo_procs p \<longleftrightarrow> p = 3 \<or> p = 4" for p
    by (auto simp: user_proc_def demo_procs_def demo_kern_def NPROC_def NULLPROC_def proc0_def)
  have st: "stacks_ok demo_procs demo_heap [(4096, 64), (4224, 3968)]"
    unfolding stacks_ok_def u by (auto simp: stack_ok_def stack_bytes_def demo_procs_def demo_heap_def)
  have "stack_bytes demo_procs 4 = {4192..<4224}" by (simp add: stack_bytes_def demo_procs_def)
  then show ?thesis using kill_ends_process [OF ok demo_heap_ok st, of 4] u by auto
qed

end
