(* ===== verification/Word_List.thy ===== *)
theory Word_List
  imports Kmem
begin

text \<open>
  Lists of equal nodes in one block of memory, linked through a word of each node and ended by the null pointer: the free
  lists of buffer pools and of the message nodes of ports, and the message lists of ports.
\<close>

text \<open>The loop of \<^verbatim>\<open>mkbufpool\<close> and \<^verbatim>\<open>ptinit\<close>: it runs once for every node but the last.\<close>

primrec link_bufs :: "nat \<Rightarrow> int \<Rightarrow> int \<Rightarrow> (int \<Rightarrow> int) \<Rightarrow> int \<Rightarrow> int" where
  "link_bufs 0 bufsiz buf w = w(buf := 0)"
| "link_bufs (Suc n) bufsiz buf w = link_bufs n bufsiz (buf + bufsiz) (w(buf := buf + bufsiz))"

fun bchain :: "(int \<Rightarrow> int) \<Rightarrow> int \<Rightarrow> int list \<Rightarrow> bool" where
  "bchain w a [] \<longleftrightarrow> a = 0"
| "bchain w a (x # xs) \<longleftrightarrow> a = x \<and> x \<noteq> 0 \<and> bchain w (w x) xs"

definition pool_addrs :: "int \<Rightarrow> int \<Rightarrow> nat \<Rightarrow> int list" where
  "pool_addrs buf sz n = map (\<lambda>i. buf + int i * sz) [0..<n]"

lemma in_pool_addrs: "x \<in> set (pool_addrs buf sz n) \<longleftrightarrow> (\<exists>i < n. x = buf + int i * sz)"
  by (auto simp: pool_addrs_def)

lemma pool_addrs_Suc: "pool_addrs buf sz (Suc n) = buf # pool_addrs (buf + sz) sz n"
  by (simp add: pool_addrs_def upt_conv_Cons map_Suc_upt [symmetric] comp_def algebra_simps del: upt_Suc)

lemma bchain_frame: "(\<And>x. x \<in> set xs \<Longrightarrow> w' x = w x) \<Longrightarrow> bchain w' a xs \<longleftrightarrow> bchain w a xs"
  by (induction xs arbitrary: a) auto

lemma pool_addrs_ge: "x \<in> set (pool_addrs buf sz n) \<Longrightarrow> 0 < sz \<Longrightarrow> buf \<le> x"
  by (auto simp: pool_addrs_def)

lemma distinct_pool_addrs: "0 < sz \<Longrightarrow> distinct (pool_addrs buf sz n)"
  by (auto simp: pool_addrs_def distinct_map inj_on_def)

lemma link_bufs_below: "0 < sz \<Longrightarrow> x < buf \<Longrightarrow> link_bufs n sz buf w x = w x"
  by (induction n arbitrary: buf w) auto

lemma link_bufs_chain: "0 < sz \<Longrightarrow> 0 < buf \<Longrightarrow> bchain (link_bufs n sz buf w) buf (pool_addrs buf sz (Suc n))"
proof (induction n arbitrary: buf w)
  case 0
  then show ?case by (simp add: pool_addrs_def)
next
  case (Suc n)
  have "bchain (link_bufs n sz (buf + sz) (w(buf := buf + sz))) (buf + sz) (pool_addrs (buf + sz) sz (Suc n))"
    using Suc by simp
  moreover have "link_bufs n sz (buf + sz) (w(buf := buf + sz)) buf = buf + sz"
    using link_bufs_below [OF Suc.prems(1)] Suc.prems by simp
  ultimately show ?case unfolding pool_addrs_Suc [of buf sz "Suc n"] using Suc.prems by simp
qed

lemma link_bufs_outside: "x \<notin> set (pool_addrs buf sz (Suc n)) \<Longrightarrow> link_bufs n sz buf w x = w x"
proof (induction n arbitrary: buf w)
  case 0
  then show ?case by (simp add: pool_addrs_def)
next
  case (Suc n)
  then show ?case by (simp add: pool_addrs_Suc [of buf sz "Suc n"])
qed

text \<open>The nodes are apart from each other and lie in the block.\<close>

lemma pool_addrs_apart:
  assumes "x \<in> set (pool_addrs buf sz n)" "y \<in> set (pool_addrs buf sz n)" "x \<noteq> y" "0 < sz"
  shows "x + sz \<le> y \<or> y + sz \<le> x"
proof -
  obtain i j where ij: "x = buf + int i * sz" "y = buf + int j * sz" using assms(1,2) unfolding in_pool_addrs by blast
  have "i < j \<or> j < i" using assms(3) ij by (metis linorder_neqE_nat)
  then have "int (i + 1) * sz \<le> int j * sz \<or> int (j + 1) * sz \<le> int i * sz"
    using assms(4) by (elim disj_forward) (rule mult_right_mono; simp)+
  then show ?thesis by (auto simp: ij algebra_simps)
qed

lemma pool_addrs_inside:
  assumes "x \<in> set (pool_addrs buf sz n)" "0 < sz"
  shows "buf \<le> x" "x + sz \<le> buf + int n * sz"
proof -
  obtain i where i: "x = buf + int i * sz" "i < n" using assms(1) unfolding in_pool_addrs by blast
  then have "int (i + 1) * sz \<le> int n * sz" using assms(2) by (intro mult_right_mono) auto
  then show "x + sz \<le> buf + int n * sz" by (simp add: i(1) algebra_simps)
  show "buf \<le> x" by (rule pool_addrs_ge [OF assms])
qed

text \<open>A node at the end.\<close>

lemma bchain_hd: "bchain w a xs \<Longrightarrow> a = (if xs = [] then 0 else hd xs)"
  by (cases xs) auto

lemma bchain_nonzero: "bchain w a xs \<Longrightarrow> 0 \<notin> set xs"
  by (induction xs arbitrary: a) auto

lemma bchain_snoc:
  assumes "bchain w a xs" "x \<noteq> 0" "distinct (xs @ [x])"
  shows "bchain (if xs = [] then w(x := 0) else w(x := 0, last xs := x)) (if xs = [] then x else a) (xs @ [x])"
  using assms
proof (induction xs arbitrary: a)
  case (Cons y xs)
  show ?case
  proof (cases "xs = []")
    case False
    then have "last xs \<noteq> y" "y \<noteq> x" using Cons.prems(3) by auto
    then show ?thesis using Cons.IH [of "w y"] Cons.prems False by simp
  qed (use Cons.prems in auto)
qed simp

text \<open>Appending one list to another by its last node.\<close>

lemma bchain_join:
  assumes "bchain w a xs" "xs \<noteq> []" "bchain w b ys" "distinct (xs @ ys)"
  shows "bchain (w(last xs := b)) a (xs @ ys)"
  using assms
proof (induction xs arbitrary: a)
  case (Cons y xs)
  show ?case
  proof (cases "xs = []")
    case True
    have "bchain (w(y := b)) b ys \<longleftrightarrow> bchain w b ys" by (rule bchain_frame) (use Cons.prems True in auto)
    then have "bchain (w(y := b)) b ys" using Cons.prems(3) by blast
    then show ?thesis using Cons.prems(1) True by (simp del: fun_upd_apply add: fun_upd_same)
  next
    case False
    then have "last xs \<noteq> y" using Cons.prems(4) by auto
    then show ?thesis using Cons.IH [of "w y"] Cons.prems False by simp
  qed
qed simp

end
