(* ===== verification/Buffer_Pool.thy ===== *)
theory Buffer_Pool
  imports System Word_List
begin

text \<open>
  Buffer pools (\<^verbatim>\<open>system/mkbufpool.c\<close>, \<^verbatim>\<open>getbuf.c\<close>, \<^verbatim>\<open>freebuf.c\<close>, \<^verbatim>\<open>bufinit.c\<close>): a pool is a list of equal buffers in one
  heap block, linked through their first word while they are free; the first word of a buffer that is handed out holds
  the number of its pool. A semaphore counts the free buffers. \<open>bword\<close> gives the first word of the buffer at an address.
  \<^verbatim>\<open>getbuf\<close> is split where it may wait: \<open>getbuf_start\<close> ends with \<^verbatim>\<open>wait\<close>, \<open>getbuf_finish\<close> is what the caller does when
  \<^verbatim>\<open>wait\<close> has returned, at once or after other processes ran.
\<close>

section \<open>The operations\<close>

definition NBPOOLS :: int where "NBPOOLS = 20"
definition BP_MAXB :: int where "BP_MAXB = 8192"
definition BP_MINB :: int where "BP_MINB = 8"
definition BP_MAXN :: int where "BP_MAXN = 2048"

record bpentry =
  bpnext :: int
  bpsem :: int
  bpsize :: int

record bpools =
  buftab :: "int \<Rightarrow> bpentry"
  nbpools :: int
  bword :: "int \<Rightarrow> int"

definition upd_pool :: "int \<Rightarrow> (bpentry \<Rightarrow> bpentry) \<Rightarrow> bpools \<Rightarrow> bpools" where
  "upd_pool i f b = b\<lparr>buftab := (buftab b)(i := f (buftab b i))\<rparr>"

definition bufinit :: "bpools \<Rightarrow> int \<times> bpools" where
  "bufinit b = (OK_st, b\<lparr>nbpools := 0\<rparr>)"

definition mkbufpool :: "int \<Rightarrow> int \<Rightarrow> kern \<times> kmem \<times> bpools \<Rightarrow> (int \<times> kern \<times> kmem \<times> bpools) res" where
  "mkbufpool bufsiz numbufs = (\<lambda>(k, m, b).
     if bufsiz < BP_MINB \<or> bufsiz > BP_MAXB \<or> numbufs < 1 \<or> numbufs > BP_MAXN \<or> nbpools b \<ge> NBPOOLS then
       Inr (SYSERR_st, k, m, b)
     else
       let bufsiz = (bufsiz + 3) div 4 * 4 in
       bind_res (getmem (numbufs * (bufsiz + 4)) m) (\<lambda>(buf, m).
         if buf = SYSERR_st then Inr (SYSERR_st, k, m, b)
         else
           let poolid = nbpools b;
               b = b\<lparr>nbpools := nbpools b + 1\<rparr>;
               b = upd_pool poolid (\<lambda>e. e\<lparr>bpnext := buf, bpsize := bufsiz\<rparr>) b;
               (sem, k) = semcreate numbufs k;
               b = upd_pool poolid (\<lambda>e. e\<lparr>bpsem := sem\<rparr>) b
           in if sem = SYSERR_st then
                bind_res (freemem buf (numbufs * (bufsiz + 4)) m) (\<lambda>(_, m).
                  Inr (SYSERR_st, k, m, b\<lparr>nbpools := nbpools b - 1\<rparr>))
              else Inr (poolid, k, m, b\<lparr>bword := link_bufs (nat (numbufs - 1)) (bufsiz + 4) buf (bword b)\<rparr>)))"

text \<open>\<open>getbuf_start\<close> returns \<open>SYSERR\<close> for a bad pool number, else it has called \<^verbatim>\<open>wait\<close>, whose result the code ignores.\<close>

definition getbuf_start :: "int \<Rightarrow> kern \<Rightarrow> bpools \<Rightarrow> (int \<times> kern) res" where
  "getbuf_start poolid k b =
     (if poolid < 0 \<or> poolid \<ge> nbpools b then Inr (SYSERR_st, k)
      else bind_res (wait (bpsem (buftab b poolid)) k) (\<lambda>(_, k). Inr (OK_st, k)))"

definition getbuf_finish :: "int \<Rightarrow> bpools \<Rightarrow> (int \<times> bpools) res" where
  "getbuf_finish poolid b =
     (let bufptr = bpnext (buftab b poolid) in
      if bufptr = 0 then Inl Null_deref
      else
        let b = upd_pool poolid (\<lambda>e. e\<lparr>bpnext := bword b bufptr\<rparr>) b;
            b = b\<lparr>bword := (bword b)(bufptr := poolid)\<rparr>
        in Inr (bufptr + 4, b))"

definition freebuf :: "int \<Rightarrow> kern \<times> bpools \<Rightarrow> (int \<times> kern \<times> bpools) res" where
  "freebuf bufaddr = (\<lambda>(k, b).
     let bufaddr = bufaddr - 4; poolid = bword b bufaddr in
     if poolid < 0 \<or> poolid \<ge> nbpools b then Inr (SYSERR_st, k, b)
     else
       let b = b\<lparr>bword := (bword b)(bufaddr := bpnext (buftab b poolid))\<rparr>;
           b = upd_pool poolid (\<lambda>e. e\<lparr>bpnext := bufaddr\<rparr>) b
       in bind_res (signal (bpsem (buftab b poolid)) k) (\<lambda>(_, k). Inr (OK_st, k, b)))"

section \<open>Making a pool\<close>

definition pool_made :: "int \<Rightarrow> int \<Rightarrow> int \<Rightarrow> nat \<Rightarrow> kern \<Rightarrow> bpools \<Rightarrow> bool" where
  "pool_made P buf sz n k b \<longleftrightarrow> 0 \<le> P \<and> P < nbpools b \<and> 0 < buf \<and> 4 < sz \<and> 4 dvd sz \<and> n \<le> 2048 \<and>
     bchain (bword b) (bpnext (buftab b P)) (pool_addrs buf sz n) \<and>
     bpsem (buftab b P) \<in> {0..<NSEM} \<and> sused (semtab k (bpsem (buftab b P))) \<and> sem_abs k (bpsem (buftab b P)) = (n, [])"

lemma mkbufpool_spec:
  assumes k: "kernel_ok k" and m: "kmem_ok m bs" and b: "0 \<le> nbpools b"
  shows "\<exists>r k' m' b'. mkbufpool bufsiz numbufs (k, m, b) = Inr (r, k', m', b') \<and> kernel_ok k' \<and> 
    (if r = SYSERR_st then kmem_ok m' bs \<and> nbpools b' = nbpools b \<and> bword b' = bword b \<and> (\<forall>i < nbpools b. buftab b' i = buftab b i) \<and> semtab k' = semtab k
     else r = nbpools b \<and> nbpools b' = r + 1 \<and> (\<forall>i < r. buftab b' i = buftab b i) \<and>
       (\<exists>buf sz bs'. bufsiz + 4 \<le> sz \<and> pool_made r buf sz (nat numbufs) k' b' \<and> kmem_ok m' bs' \<and>
          {buf..<buf + numbufs * sz} \<inter> heap_bytes bs' = {} \<and> {buf..<buf + numbufs * sz} \<subseteq> heap_bytes bs \<and> heap_bytes bs' \<subseteq> heap_bytes bs))"
proof (cases "bufsiz < BP_MINB \<or> bufsiz > BP_MAXB \<or> numbufs < 1 \<or> numbufs > BP_MAXN \<or> nbpools b \<ge> NBPOOLS")
  case True
  then show ?thesis using k m by (simp add: mkbufpool_def)
next
  case False
  define sz where "sz = (bufsiz + 3) div 4 * 4"
  have z: "bufsiz \<le> sz" "sz \<le> 8195" "4 dvd sz" using False by (auto simp: sz_def BP_MINB_def BP_MAXB_def)
  have n: "1 \<le> numbufs" "numbufs \<le> 2048" "8 \<le> bufsiz" using False by (auto simp: BP_MAXN_def BP_MINB_def)
  define N where "N = numbufs * (sz + 4)"
  have "0 < N" using n z by (simp add: N_def)
  have "N \<le> 2048 * 8199" unfolding N_def using n z by (intro mult_mono) auto
  then have N: "0 < N" "N \<le> 4294967288" using \<open>0 < N\<close> by simp_all
  note nb = roundmb_bounds [OF N]
  have start: "mkbufpool bufsiz numbufs (k, m, b) = bind_res (getmem N m) (\<lambda>(buf, m).
         if buf = SYSERR_st then Inr (SYSERR_st, k, m, b)
         else
           let poolid = nbpools b;
               b = b\<lparr>nbpools := nbpools b + 1\<rparr>;
               b = upd_pool poolid (\<lambda>e. e\<lparr>bpnext := buf, bpsize := sz\<rparr>) b;
               (sem, k) = semcreate numbufs k;
               b = upd_pool poolid (\<lambda>e. e\<lparr>bpsem := sem\<rparr>) b
           in if sem = SYSERR_st then
                bind_res (freemem buf N m) (\<lambda>(_, m). Inr (SYSERR_st, k, m, b\<lparr>nbpools := nbpools b - 1\<rparr>))
              else Inr (poolid, k, m, b\<lparr>bword := link_bufs (nat (numbufs - 1)) (sz + 4) buf (bword b)\<rparr>))"
    by (simp only: mkbufpool_def prod.case if_not_P [OF False] Let_def sz_def [symmetric] N_def [symmetric])
  show ?thesis
  proof (cases "first_fit (roundmb N) bs")
    case None
    then have "getmem N m = Inr (SYSERR_st, m)" using getmem_first_fit [OF m N] by simp
    then show ?thesis using k m unfolding start by simp
  next
    case (Some r)
    obtain a bs' where r: "r = (a, bs')" by fastforce
    obtain m' where m': "getmem N m = Inr (a, m')" "kmem_ok m' bs'" using getmem_first_fit [OF m N] Some r by auto
    note by' = first_fit_bytes [OF kmem_okD(4) [OF m] nb(5), of a bs'] 
    have bytes: "{a..<a + roundmb N} \<inter> heap_bytes bs' = {}" "{a..<a + roundmb N} \<union> heap_bytes bs' = heap_bytes bs"
      using by' Some r by auto
    have "a \<in> heap_bytes bs" using bytes nb(5) by auto
    then obtain x l where x: "(x, l) \<in> set bs" "x \<le> a" by (auto simp: heap_bytes_def)
    have a: "0 < a" "a \<noteq> SYSERR_st" using kmem_ok_block(2) [OF m x(1)] x(2) by (auto simp: SYSERR_st_def)
    obtain sem k' where k': "semcreate numbufs k = (sem, k')" "kernel_ok k'" 
      "sem = SYSERR_st \<Longrightarrow> semtab k' = semtab k" 
      "sem \<noteq> SYSERR_st \<Longrightarrow> sem \<in> {0..<NSEM} \<and> sused (semtab k' sem) \<and> sem_abs k' sem = (nat numbufs, [])"
      using semcreate_kernel_spec [OF k, of numbufs] n by auto
    show ?thesis
    proof (cases "sem = SYSERR_st")
      case True
      obtain m'' where "freemem a N m' = Inr (OK_st, m'')" "kmem_ok m'' bs" using getmem_freemem [OF m N m'(1) a(2)] by blast
      then show ?thesis unfolding start using m'(1) a(2) k' True by (simp add: Let_def upd_pool_def)
    next
      case False
      have s4: "0 < sz + 4" "4 dvd sz + 4" using z n by auto
      have sub: "{a..<a + N} \<subseteq> {a..<a + roundmb N}" using nb(1) by auto
      have "nat numbufs = Suc (nat (numbufs - 1))" using n by simp
      then have ch: "bchain (link_bufs (nat (numbufs - 1)) (sz + 4) a w) a (pool_addrs a (sz + 4) (nat numbufs))" for w
        using link_bufs_chain [OF s4(1) a(1)] by simp
      let ?b = "b\<lparr>nbpools := nbpools b + 1,
          buftab := (buftab b)(nbpools b := (buftab b (nbpools b))\<lparr>bpnext := a, bpsize := sz, bpsem := sem\<rparr>),
          bword := link_bufs (nat (numbufs - 1)) (sz + 4) a (bword b)\<rparr>"
      have run: "mkbufpool bufsiz numbufs (k, m, b) = Inr (nbpools b, k', m', ?b)"
        unfolding start using m'(1) a(2) k'(1) False by (simp add: Let_def upd_pool_def)
      have made: "pool_made (nbpools b) a (sz + 4) (nat numbufs) k' ?b"
        using b a(1) n z s4 ch k'(4) [OF False] by (simp add: pool_made_def upd_pool_def)
      have e: "nbpools b \<noteq> SYSERR_st" using b by (simp add: SYSERR_st_def)
      have fin: "bufsiz + 4 \<le> sz + 4" "{a..<a + numbufs * (sz + 4)} \<inter> heap_bytes bs' = {}" "{a..<a + numbufs * (sz + 4)} \<subseteq> heap_bytes bs"
        "heap_bytes bs' \<subseteq> heap_bytes bs"
        using bytes sub z(1) unfolding N_def [symmetric] by (simp, blast+)
      have ex: "\<exists>buf sz bs'. bufsiz + 4 \<le> sz \<and> pool_made (nbpools b) buf sz (nat numbufs) k' ?b \<and> kmem_ok m' bs' \<and>
          {buf..<buf + numbufs * sz} \<inter> heap_bytes bs' = {} \<and> {buf..<buf + numbufs * sz} \<subseteq> heap_bytes bs \<and> heap_bytes bs' \<subseteq> heap_bytes bs"
        using made fin m'(2) by (intro exI [of _ a] exI [of _ "sz + 4"] exI [of _ bs'] conjI)
      show ?thesis
        unfolding run using k'(2) e ex
        by (intro exI [of _ "nbpools b"] exI [of _ k'] exI [of _ m'] exI [of _ ?b]) simp
    qed
  qed
qed

section \<open>Processes that share a pool\<close>

text \<open>
  \<open>held\<close> are the buffers that were handed out, \<open>granted\<close> is the number of calls of \<^verbatim>\<open>getbuf\<close> for which \<^verbatim>\<open>wait\<close> has
  returned or will return without another signal, and which have not taken their buffer yet. Other processes may do
  anything that leaves the pool, the first words of its buffers and the tokens of its semaphore alone; they may leave
  the semaphore's queue.
\<close>

record bp_sys =
  bpk :: kern
  bpb :: bpools
  held :: "int set"
  granted :: nat

abbreviation pool_sem :: "int \<Rightarrow> bp_sys \<Rightarrow> int" where
  "pool_sem P s \<equiv> bpsem (buftab (bpb s) P)"

abbreviation tokens :: "int \<Rightarrow> bp_sys \<Rightarrow> nat" where
  "tokens P s \<equiv> fst (sem_abs (bpk s) (pool_sem P s))"

abbreviation waiting :: "int \<Rightarrow> bp_sys \<Rightarrow> int list" where
  "waiting P s \<equiv> snd (sem_abs (bpk s) (pool_sem P s))"

inductive bp_step :: "int \<Rightarrow> int set \<Rightarrow> bp_sys \<Rightarrow> bp_sys \<Rightarrow> bool" for P A where
  bp_get: "\<lbrakk>currpid (bpk s) \<noteq> NULLPROC; scount (semtab (bpk s) (pool_sem P s)) > -2147483648;
      getbuf_start P (bpk s) (bpb s) = Inr (r, k')\<rbrakk> \<Longrightarrow>
    bp_step P A s (s\<lparr>bpk := k', granted := granted s + (if tokens P s > 0 then 1 else 0)\<rparr>)"
| bp_take: "\<lbrakk>granted s > 0; getbuf_finish P (bpb s) = Inr (p, b')\<rbrakk> \<Longrightarrow>
    bp_step P A s (s\<lparr>bpb := b', held := insert p (held s), granted := granted s - 1\<rparr>)"
| bp_free: "\<lbrakk>p \<in> held s; freebuf p (bpk s, bpb s) = Inr (r, k', b')\<rbrakk> \<Longrightarrow>
    bp_step P A s (s\<lparr>bpk := k', bpb := b', held := held s - {p}, granted := granted s + (if waiting P s \<noteq> [] then 1 else 0)\<rparr>)"
| bp_other: "\<lbrakk>kernel_ok k'; sused (semtab k' (pool_sem P s)); fst (sem_abs k' (pool_sem P s)) = tokens P s;
      buftab b' P = buftab (bpb s) P; nbpools (bpb s) \<le> nbpools b'; \<forall>a \<in> A. bword b' a = bword (bpb s) a\<rbrakk> \<Longrightarrow>
    bp_step P A s (s\<lparr>bpk := k', bpb := b'\<rparr>)"

inductive bp_steps :: "int \<Rightarrow> int set \<Rightarrow> bp_sys \<Rightarrow> bp_sys \<Rightarrow> bool" for P A where
  bp_none: "bp_steps P A s s"
| bp_more: "bp_steps P A s s' \<Longrightarrow> bp_step P A s' s'' \<Longrightarrow> bp_steps P A s s''"

definition bp_inv :: "int \<Rightarrow> int list \<Rightarrow> bp_sys \<Rightarrow> bool" where
  "bp_inv P addrs s \<longleftrightarrow> kernel_ok (bpk s) \<and> 0 \<le> P \<and> P < nbpools (bpb s) \<and> pool_sem P s \<in> {0..<NSEM} \<and> sused (semtab (bpk s) (pool_sem P s)) \<and>
     length addrs \<le> 2048 \<and> distinct addrs \<and> 0 \<notin> set addrs \<and>
     (\<exists>F. bchain (bword (bpb s)) (bpnext (buftab (bpb s) P)) F \<and> distinct F \<and> length F = tokens P s + granted s \<and>
       set addrs - set F = (\<lambda>p. p - 4) ` held s \<and> set F \<subseteq> set addrs \<and> (\<forall>p \<in> held s. bword (bpb s) (p - 4) = P))"

lemma bp_invE:
  assumes "bp_inv P addrs s"
  obtains F where "kernel_ok (bpk s)" "0 \<le> P" "P < nbpools (bpb s)" "pool_sem P s \<in> {0..<NSEM}" "sused (semtab (bpk s) (pool_sem P s))"
     "length addrs \<le> 2048" "distinct addrs" "0 \<notin> set addrs" "bchain (bword (bpb s)) (bpnext (buftab (bpb s) P)) F" "distinct F" "length F = tokens P s + granted s"
     "set addrs - set F = (\<lambda>p. p - 4) ` held s" "set F \<subseteq> set addrs" "\<And>p. p \<in> held s \<Longrightarrow> bword (bpb s) (p - 4) = P"
  using assms unfolding bp_inv_def by blast

lemma bp_inv_start:
  assumes "kernel_ok k" "pool_made P buf sz n k b"
  shows "bp_inv P (pool_addrs buf sz n) \<lparr>bpk = k, bpb = b, held = {}, granted = 0\<rparr>"
  using assms distinct_pool_addrs [of sz buf n] pool_addrs_ge [of 0 buf sz n] unfolding bp_inv_def pool_made_def
  by (auto intro!: exI [of _ "pool_addrs buf sz n"]) (simp_all add: pool_addrs_def)

lemma bp_inv_get:
  assumes inv: "bp_inv P addrs s" and c: "currpid (bpk s) \<noteq> NULLPROC" "scount (semtab (bpk s) (pool_sem P s)) > -2147483648"
    and r: "getbuf_start P (bpk s) (bpb s) = Inr (r, k')"
  shows "bp_inv P addrs (s\<lparr>bpk := k', granted := granted s + (if tokens P s > 0 then 1 else 0)\<rparr>)"
  using inv
proof (rule bp_invE)
  fix F
  assume i: "kernel_ok (bpk s)" "0 \<le> P" "P < nbpools (bpb s)" "pool_sem P s \<in> {0..<NSEM}" "sused (semtab (bpk s) (pool_sem P s))"
     "length addrs \<le> 2048" "distinct addrs" "0 \<notin> set addrs" "bchain (bword (bpb s)) (bpnext (buftab (bpb s) P)) F" "distinct F" "length F = tokens P s + granted s"
     "set addrs - set F = (\<lambda>p. p - 4) ` held s" "set F \<subseteq> set addrs" "\<And>p. p \<in> held s \<Longrightarrow> bword (bpb s) (p - 4) = P"
  obtain k1 where k1: "wait (pool_sem P s) (bpk s) = Inr (OK_st, k1)" "kernel_ok k1" "sused (semtab k1 (pool_sem P s))"
    "sem_abs k1 (pool_sem P s) = asem_wait (currpid (bpk s)) (sem_abs (bpk s) (pool_sem P s))"
    using wait_on [OF i(1,4,5) c] i(5) by metis
  have k': "k' = k1" using r k1(1) i(2,3) by (simp add: getbuf_start_def)
  have "fst (sem_abs k1 (pool_sem P s)) + (if tokens P s > 0 then 1 else 0) = tokens P s"
    unfolding k1(4) by (rule asem_wait_tokens)
  then have n: "length F = fst (sem_abs k1 (pool_sem P s)) + (granted s + (if tokens P s > 0 then 1 else 0))" using i(11) by linarith
  show ?thesis
    unfolding bp_inv_def k' using i(2-4,6-10,12-14) k1(2,3) n by auto
qed

lemma bp_inv_take:
  assumes inv: "bp_inv P addrs s" and g: "granted s > 0"
  shows "\<exists>p b'. getbuf_finish P (bpb s) = Inr (p, b') \<and> p \<notin> held s \<and> p - 4 \<in> set addrs \<and>
    bp_inv P addrs (s\<lparr>bpb := b', held := insert p (held s), granted := granted s - 1\<rparr>)"
  using inv
proof (rule bp_invE)
  fix F
  assume i: "kernel_ok (bpk s)" "0 \<le> P" "P < nbpools (bpb s)" "pool_sem P s \<in> {0..<NSEM}" "sused (semtab (bpk s) (pool_sem P s))"
     "length addrs \<le> 2048" "distinct addrs" "0 \<notin> set addrs" "bchain (bword (bpb s)) (bpnext (buftab (bpb s) P)) F" "distinct F" "length F = tokens P s + granted s"
     "set addrs - set F = (\<lambda>p. p - 4) ` held s" "set F \<subseteq> set addrs" "\<And>p. p \<in> held s \<Longrightarrow> bword (bpb s) (p - 4) = P"
  obtain x F' where F: "F = x # F'" using i(11) g by (cases F) auto
  have x: "bpnext (buftab (bpb s) P) = x" "x \<noteq> 0" "bchain (bword (bpb s)) (bword (bpb s) x) F'" "x \<notin> set F'" "distinct F'"
    using i(9,10) F by auto
  define b1 where "b1 = (upd_pool P (\<lambda>e. e\<lparr>bpnext := bword (bpb s) x\<rparr>) (bpb s))\<lparr>bword := (bword (bpb s))(x := P)\<rparr>"
  have b1: "bword b1 = (bword (bpb s))(x := P)" "bpnext (buftab b1 P) = bword (bpb s) x" "bpsem (buftab b1 P) = pool_sem P s" "nbpools b1 = nbpools (bpb s)"
    by (simp_all add: b1_def upd_pool_def)
  have run: "getbuf_finish P (bpb s) = Inr (x + 4, b1)" using x(1,2) by (simp add: getbuf_finish_def Let_def b1_def upd_pool_def)
  have nh: "x \<notin> (\<lambda>p. p - 4) ` held s" using i(12) F by auto
  then have new: "x + 4 \<notin> held s" by (metis add_diff_cancel_right' imageI)
  have "bchain (bword b1) a F' \<longleftrightarrow> bchain (bword (bpb s)) a F'" for a
    by (rule bchain_frame) (use x(4) b1(1) in auto)
  then have ch: "bchain (bword b1) (bword (bpb s) x) F'" using x(3) by simp
  have hs: "set addrs - set F' = (\<lambda>p. p - 4) ` insert (x + 4) (held s)"
    using i(12,13) x(4) F by auto
  have wd: "bword b1 (p - 4) = P" if "p \<in> insert (x + 4) (held s)" for p
    using that i(14) by (auto simp: b1(1))
  have "bp_inv P addrs (s\<lparr>bpb := b1, held := insert (x + 4) (held s), granted := granted s - 1\<rparr>)"
    unfolding bp_inv_def using i(1-8,11,13) b1 ch hs wd x(5) F g by (auto intro!: exI [of _ F'])
  then show ?thesis using run new i(13) F by auto
qed

lemma bp_inv_free:
  assumes inv: "bp_inv P addrs s" and p: "p \<in> held s" and r: "freebuf p (bpk s, bpb s) = Inr (r, k', b')"
  shows "bp_inv P addrs (s\<lparr>bpk := k', bpb := b', held := held s - {p}, granted := granted s + (if waiting P s \<noteq> [] then 1 else 0)\<rparr>)"
  using inv
proof (rule bp_invE)
  fix F
  assume i: "kernel_ok (bpk s)" "0 \<le> P" "P < nbpools (bpb s)" "pool_sem P s \<in> {0..<NSEM}" "sused (semtab (bpk s) (pool_sem P s))"
     "length addrs \<le> 2048" "distinct addrs" "0 \<notin> set addrs" "bchain (bword (bpb s)) (bpnext (buftab (bpb s) P)) F" "distinct F" "length F = tokens P s + granted s"
     "set addrs - set F = (\<lambda>p. p - 4) ` held s" "set F \<subseteq> set addrs" "\<And>p. p \<in> held s \<Longrightarrow> bword (bpb s) (p - 4) = P"
  let ?x = "p - 4"
  have x: "?x \<in> set addrs" "?x \<notin> set F" "bword (bpb s) ?x = P" using p i(12,14) by auto
  have "length F \<le> length addrs" using i(10,13) distinct_card [of F] card_mono [OF finite_set i(13)] card_length [of addrs] by linarith
  then have "tokens P s \<le> 2048" using i(6,11) by linarith
  then have c: "scount (semtab (bpk s) (pool_sem P s)) < 2147483647" by (simp add: sem_abs_def)
  obtain k1 where k1: "signal (pool_sem P s) (bpk s) = Inr (OK_st, k1)" "kernel_ok k1" "sused (semtab k1 (pool_sem P s))"
    "sem_abs k1 (pool_sem P s) = asem_signal (sem_abs (bpk s) (pool_sem P s))"
    using signal_on [OF i(1,4,5) c] i(5) by metis
  define b1 where "b1 = upd_pool P (\<lambda>e. e\<lparr>bpnext := ?x\<rparr>) ((bpb s)\<lparr>bword := (bword (bpb s))(?x := bpnext (buftab (bpb s) P))\<rparr>)"
  have b1: "bword b1 = (bword (bpb s))(?x := bpnext (buftab (bpb s) P))" "bpnext (buftab b1 P) = ?x" "bpsem (buftab b1 P) = pool_sem P s" "nbpools b1 = nbpools (bpb s)"
    by (simp_all add: b1_def upd_pool_def)
  have eq: "k' = k1" "b' = b1"
    using r k1(1) i(2,3) x(3) b1(3) by (simp_all add: freebuf_def Let_def b1_def [symmetric]) 
  have "bchain (bword b1) a F \<longleftrightarrow> bchain (bword (bpb s)) a F" for a
    by (rule bchain_frame) (use x(2) b1(1) in auto)
  then have ch: "bchain (bword b1) ?x (?x # F)" using i(8,9) x(1) b1(1) by auto
  have wait0: "waiting P s \<noteq> [] \<Longrightarrow> tokens P s = 0" using sem_tokens(2) [OF i(1,4,5)] .
  have n: "length (?x # F) = fst (sem_abs k1 (pool_sem P s)) + (granted s + (if waiting P s \<noteq> [] then 1 else 0))"
    using asem_signal_tokens [OF wait0] i(11) unfolding k1(4) by simp
  have hs: "set addrs - set (?x # F) = (\<lambda>p. p - 4) ` (held s - {p})"
    using i(12) by auto
  have wd: "bword b1 (q - 4) = P" if "q \<in> held s - {p}" for q using that i(14) by (auto simp: b1(1))
  show ?thesis
    unfolding bp_inv_def eq using i(2-4,6-8,10,13) x(1,2) b1 k1(2,3) ch n hs wd by (auto intro!: exI [of _ "?x # F"])
qed

lemma bp_inv_other:
  assumes inv: "bp_inv P addrs s" and k: "kernel_ok k'" "sused (semtab k' (pool_sem P s))" "fst (sem_abs k' (pool_sem P s)) = tokens P s"
    and b: "buftab b' P = buftab (bpb s) P" "nbpools (bpb s) \<le> nbpools b'" "\<forall>a \<in> set addrs. bword b' a = bword (bpb s) a"
  shows "bp_inv P addrs (s\<lparr>bpk := k', bpb := b'\<rparr>)"
  using inv
proof (rule bp_invE)
  fix F
  assume i: "kernel_ok (bpk s)" "0 \<le> P" "P < nbpools (bpb s)" "pool_sem P s \<in> {0..<NSEM}" "sused (semtab (bpk s) (pool_sem P s))"
     "length addrs \<le> 2048" "distinct addrs" "0 \<notin> set addrs" "bchain (bword (bpb s)) (bpnext (buftab (bpb s) P)) F" "distinct F" "length F = tokens P s + granted s"
     "set addrs - set F = (\<lambda>p. p - 4) ` held s" "set F \<subseteq> set addrs" "\<And>p. p \<in> held s \<Longrightarrow> bword (bpb s) (p - 4) = P"
  have "bchain (bword b') a F \<longleftrightarrow> bchain (bword (bpb s)) a F" for a
    by (rule bchain_frame) (use b(3) i(13) in auto)
  moreover have "bword b' (p - 4) = P" if "p \<in> held s" for p using b(3) i(12,14) that by auto
  ultimately show ?thesis unfolding bp_inv_def using i b k by (auto intro!: exI [of _ F])
qed

lemma bp_inv_step: "bp_step P (set addrs) s s' \<Longrightarrow> bp_inv P addrs s \<Longrightarrow> bp_inv P addrs s'"
proof (induction rule: bp_step.induct)
  case (bp_get s r k')
  then show ?case by (intro bp_inv_get)
next
  case (bp_take s p b')
  then show ?case using bp_inv_take [OF bp_take(3,1)] by auto
next
  case (bp_free p s r k' b')
  then show ?case by (intro bp_inv_free)
next
  case (bp_other k' s b')
  then show ?case by (intro bp_inv_other)
qed

lemma bp_inv_steps: "bp_steps P (set addrs) s s' \<Longrightarrow> bp_inv P addrs s \<Longrightarrow> bp_inv P addrs s'"
  by (induction rule: bp_steps.induct) (auto intro: bp_inv_step)

lemma bp_inv_total: "bp_inv P addrs s \<Longrightarrow> tokens P s + granted s + card (held s) = length addrs"
proof (erule bp_invE)
  fix F
  assume i: "distinct addrs" "distinct F" "length F = tokens P s + granted s" "set addrs - set F = (\<lambda>p. p - 4) ` held s" "set F \<subseteq> set addrs"
  have "card (held s) = card ((\<lambda>p. p - 4) ` held s)" by (rule card_image [symmetric]) simp
  also have "\<dots> = card (set addrs) - card (set F)" unfolding i(4) [symmetric] by (rule card_Diff_subset) (use i(5) in auto)
  finally have "card (held s) = length addrs - length F" using i(1,2) by (simp add: distinct_card)
  moreover have "length F \<le> length addrs" using card_mono [OF finite_set i(5)] i(1,2) by (simp add: distinct_card)
  ultimately show "tokens P s + granted s + card (held s) = length addrs" using i(3) by simp
qed

section \<open>What a pool guarantees\<close>

text \<open>C38: Making a pool succeeds completely or changes nothing. \<^verbatim>\<open>mkbufpool\<close> either returns the number of a new pool whose free list has
  exactly the buffers asked for, all in heap memory that was free and no longer is, with a new semaphore that counts
  them; or it returns \<^verbatim>\<open>SYSERR\<close>, and the free list of the heap, the semaphores and the number of pools are as
  before, also when the memory was there and only a semaphore was missing.\<close>

theorem mkbufpool_all_or_nothing:
  assumes "kernel_ok k" "kmem_ok m bs" "0 \<le> nbpools b"
  shows "\<exists>r k' m' b'. mkbufpool bufsiz numbufs (k, m, b) = Inr (r, k', m', b') \<and> kernel_ok k' \<and> 
    (if r = SYSERR_st then kmem_ok m' bs \<and> nbpools b' = nbpools b \<and> bword b' = bword b \<and> semtab k' = semtab k
     else r = nbpools b \<and> nbpools b' = r + 1 \<and>
       (\<exists>buf sz bs'. bufsiz + 4 \<le> sz \<and> bchain (bword b') (bpnext (buftab b' r)) (pool_addrs buf sz (nat numbufs)) \<and>
          sem_abs k' (bpsem (buftab b' r)) = (nat numbufs, []) \<and> kmem_ok m' bs' \<and>
          {buf..<buf + numbufs * sz} \<inter> heap_bytes bs' = {} \<and> {buf..<buf + numbufs * sz} \<subseteq> heap_bytes bs))"
  using mkbufpool_spec [OF assms, of bufsiz numbufs] unfolding pool_made_def by (elim exE conjE) (auto split: if_splits)

text \<open>C21: No buffer has two owners. From a new pool, whatever sequence of calls of \<^verbatim>\<open>getbuf\<close> (blocking or not) and \<^verbatim>\<open>freebuf\<close> and
  actions of other processes follows: the buffers that are free, promised to a process that \<^verbatim>\<open>wait\<close> has let pass,
  and handed out add up to all buffers of the pool; a process that \<^verbatim>\<open>wait\<close> has let pass always gets a buffer, and
  this buffer lies in the block of the pool, apart from every buffer that is handed out.\<close>

theorem pool_buffers_have_one_owner:
  assumes "kernel_ok k" "pool_made P buf sz n k b"
    and "bp_steps P (set (pool_addrs buf sz n)) \<lparr>bpk = k, bpb = b, held = {}, granted = 0\<rparr> s"
  shows "tokens P s + granted s + card (held s) = n \<and>
    (granted s > 0 \<longrightarrow> (\<exists>p b'. getbuf_finish P (bpb s) = Inr (p, b') \<and> {p - 4..<p - 4 + sz} \<subseteq> {buf..<buf + int n * sz} \<and>
       (\<forall>q \<in> held s. {p - 4..<p - 4 + sz} \<inter> {q - 4..<q - 4 + sz} = {})))"
proof -
  let ?A = "pool_addrs buf sz n"
  have inv: "bp_inv P ?A s" by (rule bp_inv_steps [OF assms(3) bp_inv_start [OF assms(1,2)]])
  have sz: "0 < sz" using assms(2) by (simp add: pool_made_def)
  have "\<exists>p b'. getbuf_finish P (bpb s) = Inr (p, b') \<and> {p - 4..<p - 4 + sz} \<subseteq> {buf..<buf + int n * sz} \<and>
      (\<forall>q \<in> held s. {p - 4..<p - 4 + sz} \<inter> {q - 4..<q - 4 + sz} = {})" if g: "granted s > 0"
  proof -
    obtain p b' where p: "getbuf_finish P (bpb s) = Inr (p, b')" "p \<notin> held s" "p - 4 \<in> set ?A" using bp_inv_take [OF inv g] by blast
    have held: "q - 4 \<in> set ?A" if "q \<in> held s" for q using inv that by (elim bp_invE) auto
    have "{p - 4..<p - 4 + sz} \<inter> {q - 4..<q - 4 + sz} = {}" if "q \<in> held s" for q
      using pool_addrs_apart [OF p(3) held [OF that] _ sz] p(2) that by force
    then show ?thesis using p(1) pool_addrs_inside [OF p(3) sz] by auto
  qed
  then show ?thesis using bp_inv_total [OF inv] by (simp add: pool_addrs_def)
qed

text \<open>A pool of two buffers of 100 bytes on the kernel of the other examples, with semaphore 0 free.\<close>

definition demo_pool_kern :: kern where
  "demo_pool_kern = upd_sem 0 (\<lambda>e. e\<lparr>sused := False\<rparr>) (demo_kern 20)"

definition demo_pools :: bpools where
  "demo_pools = \<lparr>buftab = \<lambda>_. \<lparr>bpnext = 0, bpsem = 0, bpsize = 0\<rparr>, nbpools = 0, bword = \<lambda>_. 0\<rparr>"

definition demo_pool_made :: bpools where
  "demo_pool_made = demo_pools\<lparr>nbpools := 1, buftab := (buftab demo_pools)(0 := \<lparr>bpnext = 4224, bpsem = 0, bpsize = 100\<rparr>),
     bword := link_bufs 1 104 4224 (\<lambda>_. 0)\<rparr>"

lemma demo_pool_kern_ok: "kernel_ok demo_pool_kern"
  unfolding demo_pool_kern_def by (rule kernel_ok_unused [OF demo_kernel_ok]) (simp add: demo_sems)

lemma demo_semcreate:
  "semcreate 2 demo_pool_kern = (0, set_count 0 2 (upd_sem 0 (\<lambda>e. e\<lparr>sused := True\<rparr>) (demo_pool_kern\<lparr>nextsem := 1\<rparr>)))"
proof -
  have n: "nat NSEM = Suc 99" by (simp add: NSEM_def)
  have f: "nextsem demo_pool_kern = 0" "\<not> sused (semtab demo_pool_kern 0)" by (simp_all add: demo_pool_kern_def demo_kern_def)
  have "newsem demo_pool_kern = (0, upd_sem 0 (\<lambda>e. e\<lparr>sused := True\<rparr>) (demo_pool_kern\<lparr>nextsem := 1\<rparr>))"
    unfolding newsem_def n newsem_loop.simps using f by (simp add: Let_def NSEM_def)
  then show ?thesis by (simp add: semcreate_def SYSERR_st_def)
qed

theorem mkbufpool_all_or_nothing_witness:
  "\<exists>k' m' b' buf sz. mkbufpool 100 2 (demo_pool_kern, demo_heap, demo_pools) = Inr (0, k', m', b') \<and> 104 \<le> sz \<and>
     bchain (bword b') (bpnext (buftab b' 0)) (pool_addrs buf sz 2)"
proof -
  obtain m' where "getmem 208 demo_heap = Inr (4224, m')" using getmem_first_fit [OF demo_heap_ok, of 208] by (auto simp: roundmb_def)
  then have run: "\<exists>k' m' b'. mkbufpool 100 2 (demo_pool_kern, demo_heap, demo_pools) = Inr (0, k', m', b')"
    by (simp add: mkbufpool_def demo_semcreate demo_pools_def upd_pool_def BP_MINB_def BP_MAXB_def BP_MAXN_def NBPOOLS_def SYSERR_st_def Let_def)
  have b: "0 \<le> nbpools demo_pools" by (simp add: demo_pools_def)
  obtain r k' m' b' where r: "mkbufpool 100 2 (demo_pool_kern, demo_heap, demo_pools) = Inr (r, k', m', b')"
    "r \<noteq> SYSERR_st \<Longrightarrow> \<exists>buf sz. 104 \<le> sz \<and> bchain (bword b') (bpnext (buftab b' r)) (pool_addrs buf sz 2)"
    using mkbufpool_all_or_nothing [OF demo_pool_kern_ok demo_heap_ok b, of 100 2] by (auto split: if_splits) blast+
  then show ?thesis using run by (auto simp: SYSERR_st_def)
qed

theorem pool_buffers_have_one_owner_witness:
  "\<exists>k b s p b'. bp_steps 0 {4224, 4328} \<lparr>bpk = k, bpb = b, held = {}, granted = 0\<rparr> s \<and> granted s = 1 \<and> tokens 0 s = 1 \<and>
     getbuf_finish 0 (bpb s) = Inr (p, b') \<and> {p - 4..<p + 100} \<subseteq> {4224..<4432}"
proof -
  let ?k = "set_count 0 2 (upd_sem 0 (\<lambda>e. e\<lparr>sused := True\<rparr>) (demo_pool_kern\<lparr>nextsem := 1\<rparr>))"
  let ?s = "\<lparr>bpk = ?k, bpb = demo_pool_made, held = {}, granted = 0\<rparr>"
  have k: "kernel_ok ?k" "sused (semtab ?k 0)" "sem_abs ?k 0 = (2, [])"
    using semcreate_kernel_spec [OF demo_pool_kern_ok, of 2] demo_semcreate by (auto simp: SYSERR_st_def)
  have A: "pool_addrs 4224 104 2 = [4224, 4328]" by (simp add: pool_addrs_def upt_conv_Cons)
  have m: "pool_made 0 4224 104 2 ?k demo_pool_made"
    using k link_bufs_chain [of 104 4224 1 "\<lambda>_. 0"] by (simp add: pool_made_def demo_pool_made_def demo_pools_def NSEM_def numeral_2_eq_2 A)
  obtain k2 where k2: "wait 0 ?k = Inr (OK_st, k2)" "sem_abs k2 0 = asem_wait (currpid ?k) (sem_abs ?k 0)"
    using wait_on [OF k(1) _ k(2)] by (auto simp: NSEM_def demo_pool_kern_def demo_kern_def NULLPROC_def)
  let ?s2 = "?s\<lparr>bpk := k2, granted := 1\<rparr>"
  have sm: "bpsem (buftab demo_pool_made 0) = 0" by (simp add: demo_pool_made_def)
  have t: "tokens 0 ?s > 0" by (simp only: bp_sys.simps sm k(3) fst_conv)
  have "getbuf_start 0 ?k demo_pool_made = Inr (OK_st, k2)" using k2(1) by (simp add: getbuf_start_def demo_pool_made_def)
  then have "bp_step 0 (set (pool_addrs 4224 104 2)) ?s (?s\<lparr>bpk := k2, granted := granted ?s + (if tokens 0 ?s > 0 then 1 else 0)\<rparr>)"
    by (intro bp_get) (simp_all add: demo_pool_made_def demo_pool_kern_def demo_kern_def NULLPROC_def)
  then have st: "bp_steps 0 (set (pool_addrs 4224 104 2)) ?s ?s2" using t by (intro bp_more [OF bp_none]) simp
  have "tokens 0 ?s2 = 1" using k2(2) k(3) by (simp add: demo_pool_made_def numeral_2_eq_2)
  moreover obtain p b' where "getbuf_finish 0 (bpb ?s2) = Inr (p, b')" "{p - 4..<p - 4 + 104} \<subseteq> {4224..<4224 + int 2 * 104}"
    using pool_buffers_have_one_owner [OF k(1) m st] by auto
  ultimately show ?thesis using st unfolding A by (intro exI [of _ ?k] exI [of _ demo_pool_made] exI [of _ ?s2] exI [of _ p] exI [of _ b']) simp
qed

end
