(* ===== verification/Ports.thy ===== *)
theory Ports
  imports System Word_List
begin

text \<open>
  Ports (\<^verbatim>\<open>system/ptinit.c\<close>, \<^verbatim>\<open>ptcreate.c\<close>, \<^verbatim>\<open>ptsend.c\<close>, \<^verbatim>\<open>ptrecv.c\<close>, \<^verbatim>\<open>ptclear.c\<close>, \<^verbatim>\<open>ptdelete.c\<close>, \<^verbatim>\<open>ptreset.c\<close>,
  \<^verbatim>\<open>ptcount.c\<close>): bounded queues of one-word messages between processes. All ports take their message nodes from one
  free list; \<open>ptmsg\<close> and \<open>ptnext\<close> give the fields of the node at an address. A port has two semaphores, for free places
  and for messages. Sending and receiving are split where they may wait; the second part gets the sequence number of
  the port that the first part has read and the result of \<^verbatim>\<open>wait\<close>. The rest of \<open>ptclear\<close> after its two \<^verbatim>\<open>semreset\<close>s is one step:
  that the processes these make ready could run before it ends is not modelled.
\<close>

section \<open>The operations\<close>

definition NPORTS :: int where "NPORTS = 30"

datatype port_state = PT_FREE | PT_LIMBO | PT_ALLOC

record ptentry =
  ptssem :: int
  ptrsem :: int
  ptstate :: port_state
  ptmaxcnt :: int
  ptseq :: int
  pthead :: int
  pttail :: int

record ports =
  porttab :: "int \<Rightarrow> ptentry"
  ptnextid :: int
  ptfree :: int
  ptmsg :: "int \<Rightarrow> int"
  ptnext :: "int \<Rightarrow> int"

definition isbadport :: "int \<Rightarrow> bool" where
  "isbadport i \<longleftrightarrow> i < 0 \<or> i \<ge> NPORTS"

definition upd_port :: "int \<Rightarrow> (ptentry \<Rightarrow> ptentry) \<Rightarrow> ports \<Rightarrow> ports" where
  "upd_port i f p = p\<lparr>porttab := (porttab p)(i := f (porttab p i))\<rparr>"

definition ptinit :: "int \<Rightarrow> kmem \<times> ports \<Rightarrow> (int \<times> kmem \<times> ports) res" where
  "ptinit maxmsgs = (\<lambda>(m, p).
     bind_res (getmem (w32 (maxmsgs * 8)) m) (\<lambda>(a, m).
       if a = SYSERR_st then Inl Panic
       else Inr (OK_st, m, p\<lparr>ptfree := a,
              porttab := (\<lambda>i. if isbadport i then porttab p i else (porttab p i)\<lparr>ptstate := PT_FREE, ptseq := 0\<rparr>),
              ptnextid := 0, ptnext := link_bufs (nat (maxmsgs - 1)) 8 a (ptnext p)\<rparr>)))"

text \<open>The results of \<^verbatim>\<open>semcreate\<close> are not tested.\<close>

primrec ptcreate_loop :: "nat \<Rightarrow> int \<Rightarrow> kern \<times> ports \<Rightarrow> int \<times> kern \<times> ports" where
  "ptcreate_loop 0 cnt st = (SYSERR_st, st)"
| "ptcreate_loop (Suc n) cnt st =
     (case st of (k, p) \<Rightarrow>
      let ptnum = ptnextid p;
          p = p\<lparr>ptnextid := if ptnextid p + 1 \<ge> NPORTS then 0 else ptnextid p + 1\<rparr>
      in if ptstate (porttab p ptnum) = PT_FREE then
           let (ssem, k) = semcreate cnt k;
               (rsem, k) = semcreate 0 k
           in (ptnum, k, upd_port ptnum (\<lambda>e. e\<lparr>ptstate := PT_ALLOC, ptssem := ssem, ptrsem := rsem, pthead := 0, pttail := 0,
                ptseq := i32 (ptseq e + 1), ptmaxcnt := cnt mod 65536\<rparr>) p)
         else ptcreate_loop n cnt (k, p))"

definition ptcreate :: "int \<Rightarrow> kern \<times> ports \<Rightarrow> int \<times> kern \<times> ports" where
  "ptcreate cnt st = (if cnt < 0 then (SYSERR_st, st) else ptcreate_loop (nat NPORTS) cnt st)"

text \<open>The first parts return the sequence number and the result of \<^verbatim>\<open>wait\<close>, or \<open>None\<close> when the call returns \<open>SYSERR\<close> at once.\<close>

definition ptsend_start :: "int \<Rightarrow> kern \<Rightarrow> ports \<Rightarrow> ((int \<times> int) option \<times> kern) res" where
  "ptsend_start portid k p =
     (if isbadport portid \<or> ptstate (porttab p portid) \<noteq> PT_ALLOC then Inr (None, k)
      else bind_res (wait (ptssem (porttab p portid)) k) (\<lambda>(r, k). Inr (Some (ptseq (porttab p portid), r), k)))"

definition ptsend_finish :: "int \<Rightarrow> int \<Rightarrow> int \<times> int \<Rightarrow> kern \<times> ports \<Rightarrow> (int \<times> kern \<times> ports) res" where
  "ptsend_finish portid msg = (\<lambda>(seq, r) (k, p).
     if r = SYSERR_st \<or> ptstate (porttab p portid) \<noteq> PT_ALLOC \<or> ptseq (porttab p portid) \<noteq> seq then Inr (SYSERR_st, k, p)
     else if ptfree p = 0 then Inl Panic
     else
       let msgnode = ptfree p;
           p = p\<lparr>ptfree := ptnext p msgnode\<rparr>;
           p = p\<lparr>ptnext := (ptnext p)(msgnode := 0), ptmsg := (ptmsg p)(msgnode := msg)\<rparr>;
           tailnode = pttail (porttab p portid);
           p = (if tailnode = 0 then upd_port portid (\<lambda>e. e\<lparr>pttail := msgnode, pthead := msgnode\<rparr>) p
                else upd_port portid (\<lambda>e. e\<lparr>pttail := msgnode\<rparr>) (p\<lparr>ptnext := (ptnext p)(tailnode := msgnode)\<rparr>))
       in bind_res (signal (ptrsem (porttab p portid)) k) (\<lambda>(_, k). Inr (OK_st, k, p)))"

definition ptrecv_start :: "int \<Rightarrow> kern \<Rightarrow> ports \<Rightarrow> ((int \<times> int) option \<times> kern) res" where
  "ptrecv_start portid k p =
     (if isbadport portid \<or> ptstate (porttab p portid) \<noteq> PT_ALLOC then Inr (None, k)
      else bind_res (wait (ptrsem (porttab p portid)) k) (\<lambda>(r, k). Inr (Some (ptseq (porttab p portid), r), k)))"

definition ptrecv_finish :: "int \<Rightarrow> int \<times> int \<Rightarrow> kern \<times> ports \<Rightarrow> (int \<times> kern \<times> ports) res" where
  "ptrecv_finish portid = (\<lambda>(seq, r) (k, p).
     if r = SYSERR_st \<or> ptstate (porttab p portid) \<noteq> PT_ALLOC \<or> ptseq (porttab p portid) \<noteq> seq then Inr (SYSERR_st, k, p)
     else
       let msgnode = pthead (porttab p portid) in
       if msgnode = 0 then Inl Null_deref
       else
         let msg = ptmsg p msgnode;
             p = (if pthead (porttab p portid) = pttail (porttab p portid) then upd_port portid (\<lambda>e. e\<lparr>pttail := 0, pthead := 0\<rparr>) p
                  else upd_port portid (\<lambda>e. e\<lparr>pthead := ptnext p msgnode\<rparr>) p);
             p = p\<lparr>ptnext := (ptnext p)(msgnode := ptfree p)\<rparr>;
             p = p\<lparr>ptfree := msgnode\<rparr>
         in bind_res (signal (ptssem (porttab p portid)) k) (\<lambda>(_, k). Inr (msg, k, p)))"

text \<open>
  Clearing a port; \<open>dispose\<close> is what the function that the caller passes does to the kernel. The parts after a
  semaphore is reset or deleted follow at once: this is a caller whose priority is above that of the released processes.
\<close>

partial_function (option) ptwalk :: "(int \<Rightarrow> kern \<Rightarrow> kern) \<Rightarrow> ports \<Rightarrow> int \<Rightarrow> kern \<Rightarrow> kern option" where
  "ptwalk dispose p walk k = (if walk \<noteq> 0 then ptwalk dispose p (ptnext p walk) (dispose (ptmsg p walk) k) else Some k)"

definition ptclear :: "(int \<Rightarrow> kern \<Rightarrow> kern) \<Rightarrow> int \<Rightarrow> port_state \<Rightarrow> kern \<times> ports \<Rightarrow> (kern \<times> ports) res" where
  "ptclear dispose portid newstate = (\<lambda>(k, p).
     let p = upd_port portid (\<lambda>e. e\<lparr>ptstate := PT_LIMBO, ptseq := i32 (ptseq e + 1)\<rparr>) p;
         e = porttab p portid
     in bind_res (if pthead e \<noteq> 0
                  then bind_res (opt_res Diverges (ptwalk dispose p (pthead e) k)) (\<lambda>k.
                    Inr (k, p\<lparr>ptnext := (ptnext p)(pttail e := ptfree p), ptfree := pthead e\<rparr>))
                  else Inr (k, p)) (\<lambda>(k, p).
        bind_res (if newstate = PT_ALLOC
                  then let p = upd_port portid (\<lambda>e. e\<lparr>pttail := 0, pthead := 0\<rparr>) p in
                    bind_res (semreset (ptssem e) (ptmaxcnt e) k) (\<lambda>(_, k).
                    bind_res (semreset (ptrsem e) 0 k) (\<lambda>(_, k). Inr (k, p)))
                  else
                    bind_res (semdelete (ptssem e) k) (\<lambda>(_, k).
                    bind_res (semdelete (ptrsem e) k) (\<lambda>(_, k). Inr (k, p)))) (\<lambda>(k, p).
        Inr (k, upd_port portid (\<lambda>e. e\<lparr>ptstate := newstate\<rparr>) p))))"

definition ptdelete :: "(int \<Rightarrow> kern \<Rightarrow> kern) \<Rightarrow> int \<Rightarrow> kern \<times> ports \<Rightarrow> (int \<times> kern \<times> ports) res" where
  "ptdelete disp portid = (\<lambda>(k, p).
     if isbadport portid \<or> ptstate (porttab p portid) \<noteq> PT_ALLOC then Inr (SYSERR_st, k, p)
     else bind_res (ptclear disp portid PT_FREE (k, p)) (\<lambda>(k, p). Inr (OK_st, k, p\<lparr>ptnextid := portid\<rparr>)))"

definition ptreset :: "(int \<Rightarrow> kern \<Rightarrow> kern) \<Rightarrow> int \<Rightarrow> kern \<times> ports \<Rightarrow> (int \<times> kern \<times> ports) res" where
  "ptreset disp portid = (\<lambda>(k, p).
     if isbadport portid \<or> ptstate (porttab p portid) \<noteq> PT_ALLOC then Inr (SYSERR_st, k, p)
     else bind_res (ptclear disp portid PT_ALLOC (k, p)) (\<lambda>(k, p). Inr (OK_st, k, p)))"

definition ptcount :: "int \<Rightarrow> kern \<times> ports \<Rightarrow> int" where
  "ptcount portid = (\<lambda>(k, p).
     if isbadport portid \<or> ptstate (porttab p portid) \<noteq> PT_ALLOC then SYSERR_st
     else
       let n = semcount (ptrsem (porttab p portid)) k in
       if n \<ge> 0 then
         let sndcnt = semcount (ptssem (porttab p portid)) k in
         if sndcnt < 0 then i32 (n - sndcnt) else n
       else n)"

section \<open>Message lists\<close>

text \<open>\<open>Q\<close> are the nodes of the messages of a port, \<open>F\<close> the free nodes.\<close>

definition port_lists :: "int \<Rightarrow> int list \<Rightarrow> int list \<Rightarrow> ports \<Rightarrow> bool" where
  "port_lists P Q F p \<longleftrightarrow> bchain (ptnext p) (pthead (porttab p P)) Q \<and> bchain (ptnext p) (ptfree p) F \<and> distinct (Q @ F) \<and>
     pttail (porttab p P) = (if Q = [] then 0 else last Q)"

definition port_open :: "int \<Rightarrow> int \<Rightarrow> kern \<Rightarrow> ports \<Rightarrow> bool" where
  "port_open P q k p \<longleftrightarrow> kernel_ok k \<and> \<not> isbadport P \<and> ptstate (porttab p P) = PT_ALLOC \<and> ptseq (porttab p P) = q \<and>
     ptssem (porttab p P) \<noteq> ptrsem (porttab p P) \<and> ptssem (porttab p P) \<in> {0..<NSEM} \<and> ptrsem (porttab p P) \<in> {0..<NSEM} \<and>
     sused (semtab k (ptssem (porttab p P))) \<and> sused (semtab k (ptrsem (porttab p P)))"

lemma upd_port_sel [simp]:
  "porttab (upd_port i f p) j = (if j = i then f (porttab p i) else porttab p j)" "ptnext (upd_port i f p) = ptnext p"
  "ptmsg (upd_port i f p) = ptmsg p" "ptfree (upd_port i f p) = ptfree p" "ptnextid (upd_port i f p) = ptnextid p"
  by (simp_all add: upd_port_def)

lemma port_put:
  assumes L: "port_lists P Q F p" and o: "port_open P q k p" and F: "ptfree p \<noteq> 0"
    and c: "scount (semtab k (ptrsem (porttab p P))) < 2147483647"
  shows "\<exists>x F' k' p'. ptsend_finish P msg (q, OK_st) (k, p) = Inr (OK_st, k', p') \<and> F = x # F' \<and> port_lists P (Q @ [x]) F' p' \<and>
    port_open P q k' p' \<and> ptssem (porttab p' P) = ptssem (porttab p P) \<and> ptrsem (porttab p' P) = ptrsem (porttab p P) \<and>
    map (ptmsg p') (Q @ [x]) = map (ptmsg p) Q @ [msg] \<and>
    sem_abs k' (ptrsem (porttab p P)) = asem_signal (sem_abs k (ptrsem (porttab p P))) \<and>
    sem_abs k' (ptssem (porttab p P)) = sem_abs k (ptssem (porttab p P))"
proof -
  note o' = o [unfolded port_open_def]
  obtain x F' where x: "F = x # F'" using L F by (cases F) (auto simp: port_lists_def)
  have f: "ptfree p = x" "x \<noteq> 0" "bchain (ptnext p) (ptnext p x) F'" "x \<notin> set Q" "x \<notin> set F'" "distinct Q" "distinct F'" "set Q \<inter> set F' = {}"
    "bchain (ptnext p) (pthead (porttab p P)) Q" "pttail (porttab p P) = (if Q = [] then 0 else last Q)"
    using L x by (auto simp: port_lists_def)
  obtain k' where k': "signal (ptrsem (porttab p P)) k = Inr (OK_st, k')" "kernel_ok k'" "\<forall>r. sused (semtab k' r) = sused (semtab k r)"
    "sem_abs k' (ptrsem (porttab p P)) = asem_signal (sem_abs k (ptrsem (porttab p P)))"
    "\<forall>r \<in> {0..<NSEM}. r \<noteq> ptrsem (porttab p P) \<longrightarrow> sem_abs k' r = sem_abs k r"
    using signal_on [of k, OF _ _ _ c] o' by blast
  define p' where "p' = (if pttail (porttab p P) = 0 then upd_port P (\<lambda>e. e\<lparr>pttail := x, pthead := x\<rparr>)
      (p\<lparr>ptfree := ptnext p x, ptnext := (ptnext p)(x := 0), ptmsg := (ptmsg p)(x := msg)\<rparr>)
    else upd_port P (\<lambda>e. e\<lparr>pttail := x\<rparr>)
      (p\<lparr>ptfree := ptnext p x, ptmsg := (ptmsg p)(x := msg), ptnext := (ptnext p)(x := 0, pttail (porttab p P) := x)\<rparr>))"
  have t0: "Q \<noteq> [] \<Longrightarrow> last Q \<noteq> 0" using bchain_nonzero [OF f(9)] last_in_set [of Q] by metis
  have p': "ptnext p' = (if Q = [] then (ptnext p)(x := 0) else (ptnext p)(x := 0, last Q := x))"
    "pthead (porttab p' P) = (if Q = [] then x else pthead (porttab p P))" "pttail (porttab p' P) = x" "ptfree p' = ptnext p x"
    "ptssem (porttab p' P) = ptssem (porttab p P)" "ptrsem (porttab p' P) = ptrsem (porttab p P)" "ptmsg p' = (ptmsg p)(x := msg)"
    "ptstate (porttab p' P) = ptstate (porttab p P)" "ptseq (porttab p' P) = ptseq (porttab p P)"
    by (cases "Q = []"; simp add: p'_def f(10) t0)+
  have run: "ptsend_finish P msg (q, OK_st) (k, p) = Inr (OK_st, k', p')"
    using o' k'(1) f(1,2) by (simp add: ptsend_finish_def Let_def p'_def SYSERR_st_def OK_st_def)
  have "bchain (ptnext p') (pthead (porttab p' P)) (Q @ [x])"
    using bchain_snoc [OF f(9,2)] f(4,6) by (simp add: p'(1,2))
  moreover have "bchain (ptnext p') (ptnext p x) F' \<longleftrightarrow> bchain (ptnext p) (ptnext p x) F'"
  proof (rule bchain_frame)
    fix y
    assume y: "y \<in> set F'"
    then have "Q \<noteq> [] \<Longrightarrow> y \<noteq> last Q" using f(8) last_in_set [of Q] by blast
    then show "ptnext p' y = ptnext p y" using y f(5) by (auto simp: p'(1))
  qed
  ultimately have "port_lists P (Q @ [x]) F' p'"
    using f(3-8) by (simp add: port_lists_def p'(3,4))
  moreover have "port_open P q k' p'" using o' k'(2,3) by (simp add: port_open_def p')
  moreover have "map (ptmsg p') (Q @ [x]) = map (ptmsg p) Q @ [msg]" using f(4) by (auto simp: p'(7))
  moreover have "sem_abs k' (ptssem (porttab p P)) = sem_abs k (ptssem (porttab p P))" using k'(5) o' by metis
  ultimately show ?thesis using run x k'(4) p'(5,6) by blast
qed

lemma port_get:
  assumes L: "port_lists P (x # Q) F p" and o: "port_open P q k p" and c: "scount (semtab k (ptssem (porttab p P))) < 2147483647"
  shows "\<exists>k' p'. ptrecv_finish P (q, OK_st) (k, p) = Inr (ptmsg p x, k', p') \<and> port_lists P Q (x # F) p' \<and>
    port_open P q k' p' \<and> ptssem (porttab p' P) = ptssem (porttab p P) \<and> ptrsem (porttab p' P) = ptrsem (porttab p P) \<and>
    ptmsg p' = ptmsg p \<and>
    sem_abs k' (ptssem (porttab p P)) = asem_signal (sem_abs k (ptssem (porttab p P))) \<and>
    sem_abs k' (ptrsem (porttab p P)) = sem_abs k (ptrsem (porttab p P))"
proof -
  note o' = o [unfolded port_open_def]
  have f: "pthead (porttab p P) = x" "x \<noteq> 0" "bchain (ptnext p) (ptnext p x) Q" "x \<notin> set Q" "x \<notin> set F" "distinct Q" "distinct F"
    "set Q \<inter> set F = {}" "bchain (ptnext p) (ptfree p) F" "pttail (porttab p P) = last (x # Q)"
    using L by (auto simp: port_lists_def)
  obtain k' where k': "signal (ptssem (porttab p P)) k = Inr (OK_st, k')" "kernel_ok k'" "\<forall>r. sused (semtab k' r) = sused (semtab k r)"
    "sem_abs k' (ptssem (porttab p P)) = asem_signal (sem_abs k (ptssem (porttab p P)))"
    "\<forall>r \<in> {0..<NSEM}. r \<noteq> ptssem (porttab p P) \<longrightarrow> sem_abs k' r = sem_abs k r"
    using signal_on [of k, OF _ _ _ c] o' by blast
  define p' where "p' = (if pthead (porttab p P) = pttail (porttab p P) then upd_port P (\<lambda>e. e\<lparr>pttail := 0, pthead := 0\<rparr>) p
      else upd_port P (\<lambda>e. e\<lparr>pthead := ptnext p x\<rparr>) p)\<lparr>ptnext := (ptnext p)(x := ptfree p), ptfree := x\<rparr>"
  have one: "Q \<noteq> [] \<Longrightarrow> x \<noteq> last Q" using f(4) last_in_set [of Q] by metis
  have nx: "Q = [] \<Longrightarrow> ptnext p x = 0" using f(3) by simp
  have p': "ptnext p' = (ptnext p)(x := ptfree p)" "pthead (porttab p' P) = ptnext p x" "pttail (porttab p' P) = (if Q = [] then 0 else last Q)"
    "ptfree p' = x" "ptssem (porttab p' P) = ptssem (porttab p P)" "ptrsem (porttab p' P) = ptrsem (porttab p P)" "ptmsg p' = ptmsg p"
    "ptstate (porttab p' P) = ptstate (porttab p P)" "ptseq (porttab p' P) = ptseq (porttab p P)"
    by (cases "Q = []"; simp add: p'_def f(1,10) nx one)+
  have run: "ptrecv_finish P (q, OK_st) (k, p) = Inr (ptmsg p x, k', p')"
    using o' k'(1) f(1,2) by (simp add: ptrecv_finish_def Let_def p'_def SYSERR_st_def OK_st_def)
  have "bchain (ptnext p') a Q \<longleftrightarrow> bchain (ptnext p) a Q" "bchain (ptnext p') a F \<longleftrightarrow> bchain (ptnext p) a F" for a
    by (rule bchain_frame; use f(4,5) in \<open>auto simp: p'(1)\<close>)+
  then have "port_lists P Q (x # F) p'" using f by (simp add: port_lists_def p'(2,3,4)) (simp add: p'(1))
  moreover have "port_open P q k' p'" using o' k'(2,3) by (simp add: port_open_def p')
  moreover have "sem_abs k' (ptrsem (porttab p P)) = sem_abs k (ptrsem (porttab p P))" using k'(5) o' by metis
  ultimately show ?thesis using run k'(4) p'(5-7) by blast
qed

section \<open>Processes that share a port\<close>

text \<open>
  \<open>sgranted\<close> and \<open>rgranted\<close> count the senders and receivers that \<^verbatim>\<open>wait\<close> has let pass and that have not gone on; \<open>sent\<close>
  and \<open>received\<close> are the messages in order. Other processes may use other ports, which changes the free list.
\<close>

record pt_sys =
  ptk :: kern
  ptp :: ports
  sent :: "int list"
  received :: "int list"
  sgranted :: nat
  rgranted :: nat

abbreviation send_sem :: "int \<Rightarrow> pt_sys \<Rightarrow> int" where
  "send_sem P s \<equiv> ptssem (porttab (ptp s) P)"

abbreviation recv_sem :: "int \<Rightarrow> pt_sys \<Rightarrow> int" where
  "recv_sem P s \<equiv> ptrsem (porttab (ptp s) P)"

abbreviation places :: "int \<Rightarrow> pt_sys \<Rightarrow> nat" where
  "places P s \<equiv> fst (sem_abs (ptk s) (send_sem P s))"

abbreviation messages :: "int \<Rightarrow> pt_sys \<Rightarrow> nat" where
  "messages P s \<equiv> fst (sem_abs (ptk s) (recv_sem P s))"

abbreviation senders :: "int \<Rightarrow> pt_sys \<Rightarrow> int list" where
  "senders P s \<equiv> snd (sem_abs (ptk s) (send_sem P s))"

abbreviation receivers :: "int \<Rightarrow> pt_sys \<Rightarrow> int list" where
  "receivers P s \<equiv> snd (sem_abs (ptk s) (recv_sem P s))"

inductive pt_step :: "int \<Rightarrow> int \<Rightarrow> pt_sys \<Rightarrow> pt_sys \<Rightarrow> bool" for P q where
  pt_send: "\<lbrakk>currpid (ptk s) \<noteq> NULLPROC; scount (semtab (ptk s) (send_sem P s)) > -2147483648;
      ptsend_start P (ptk s) (ptp s) = Inr (r, k')\<rbrakk> \<Longrightarrow>
    pt_step P q s (s\<lparr>ptk := k', sgranted := sgranted s + (if places P s > 0 then 1 else 0)\<rparr>)"
| pt_put: "\<lbrakk>sgranted s > 0; ptsend_finish P msg (q, OK_st) (ptk s, ptp s) = Inr (r, k', p')\<rbrakk> \<Longrightarrow>
    pt_step P q s (s\<lparr>ptk := k', ptp := p', sent := sent s @ [msg], sgranted := sgranted s - 1,
      rgranted := rgranted s + (if receivers P s \<noteq> [] then 1 else 0)\<rparr>)"
| pt_receive: "\<lbrakk>currpid (ptk s) \<noteq> NULLPROC; scount (semtab (ptk s) (recv_sem P s)) > -2147483648;
      ptrecv_start P (ptk s) (ptp s) = Inr (r, k')\<rbrakk> \<Longrightarrow>
    pt_step P q s (s\<lparr>ptk := k', rgranted := rgranted s + (if messages P s > 0 then 1 else 0)\<rparr>)"
| pt_get: "\<lbrakk>rgranted s > 0; ptrecv_finish P (q, OK_st) (ptk s, ptp s) = Inr (msg, k', p')\<rbrakk> \<Longrightarrow>
    pt_step P q s (s\<lparr>ptk := k', ptp := p', received := received s @ [msg], rgranted := rgranted s - 1,
      sgranted := sgranted s + (if senders P s \<noteq> [] then 1 else 0)\<rparr>)"
| pt_other: "\<lbrakk>kernel_ok k'; \<forall>x. sused (semtab (ptk s) x) \<longrightarrow> sused (semtab k' x);
      fst (sem_abs k' (send_sem P s)) = places P s; fst (sem_abs k' (recv_sem P s)) = messages P s;
      porttab p' P = porttab (ptp s) P; port_lists P Q F (ptp s); port_lists P Q F' p'; \<forall>x \<in> set Q. ptmsg p' x = ptmsg (ptp s) x\<rbrakk> \<Longrightarrow>
    pt_step P q s (s\<lparr>ptk := k', ptp := p'\<rparr>)"

inductive pt_steps :: "int \<Rightarrow> int \<Rightarrow> pt_sys \<Rightarrow> pt_sys \<Rightarrow> bool" for P q where
  pt_none: "pt_steps P q s s"
| pt_more: "pt_steps P q s s' \<Longrightarrow> pt_step P q s' s'' \<Longrightarrow> pt_steps P q s s''"

definition pt_inv :: "int \<Rightarrow> int \<Rightarrow> nat \<Rightarrow> pt_sys \<Rightarrow> bool" where
  "pt_inv P q n s \<longleftrightarrow> port_open P q (ptk s) (ptp s) \<and> n < 2147483647 \<and>
     (\<exists>Q F. port_lists P Q F (ptp s) \<and> sent s = received s @ map (ptmsg (ptp s)) Q \<and>
        messages P s + rgranted s = length Q \<and> places P s + sgranted s + length Q = n)"

lemma pt_invE:
  assumes "pt_inv P q n s"
  obtains Q F where "port_open P q (ptk s) (ptp s)" "n < 2147483647" "port_lists P Q F (ptp s)"
    "sent s = received s @ map (ptmsg (ptp s)) Q" "messages P s + rgranted s = length Q" "places P s + sgranted s + length Q = n"
  using assms unfolding pt_inv_def by blast

lemma count_below: "fst (sem_abs k s) \<le> m \<Longrightarrow> m < 2147483647 \<Longrightarrow> scount (semtab k s) < 2147483647" for m :: nat
  by (simp add: sem_abs_def)

lemma port_list_unique: "bchain w a xs \<Longrightarrow> bchain w a ys \<Longrightarrow> xs = ys"
proof (induction xs arbitrary: a ys)
  case Nil
  then show ?case by (cases ys) auto
next
  case (Cons x xs)
  then show ?case by (cases ys) auto
qed

lemma port_waits:
  assumes o: "port_open P q k p" and c: "currpid k \<noteq> NULLPROC" "scount (semtab k s) > -2147483648"
    and s: "s = ptssem (porttab p P) \<or> s = ptrsem (porttab p P)" "s' = ptssem (porttab p P) \<or> s' = ptrsem (porttab p P)" "s' \<noteq> s"
  shows "\<exists>k'. wait s k = Inr (OK_st, k') \<and> port_open P q k' p \<and> fst (sem_abs k' s) + (if fst (sem_abs k s) > 0 then 1 else 0) = fst (sem_abs k s) \<and>
    sem_abs k' s' = sem_abs k s'"
proof -
  have ss: "s \<in> {0..<NSEM}" "sused (semtab k s)" "s' \<in> {0..<NSEM}" "kernel_ok k" using o s by (auto simp: port_open_def)
  obtain k' where k': "wait s k = Inr (OK_st, k')" "kernel_ok k'" "\<forall>r. sused (semtab k' r) = sused (semtab k r)"
    "sem_abs k' s = asem_wait (currpid k) (sem_abs k s)" "\<forall>r \<in> {0..<NSEM}. r \<noteq> s \<longrightarrow> sem_abs k' r = sem_abs k r"
    using wait_on [OF ss(4,1,2) c] by blast
  have "fst (sem_abs k' s) + (if fst (sem_abs k s) > 0 then 1 else 0) = fst (sem_abs k s)" unfolding k'(4) by (rule asem_wait_tokens)
  moreover have "port_open P q k' p" using o k'(2,3) by (simp add: port_open_def)
  ultimately show ?thesis using k'(1,5) ss(3) s(3) by blast
qed

lemma port_sems_waiting:
  assumes "port_open P q k p" "s = ptssem (porttab p P) \<or> s = ptrsem (porttab p P)"
  shows "fst (asem_signal (sem_abs k s)) + (if snd (sem_abs k s) \<noteq> [] then 1 else 0) = fst (sem_abs k s) + 1"
  using assms sem_tokens(2) [of k s] by (intro asem_signal_tokens) (auto simp: port_open_def)

lemma pt_inv_put:
  assumes inv: "pt_inv P q n s" and g: "sgranted s > 0" and F: "ptfree (ptp s) \<noteq> 0"
  shows "\<exists>k' p'. ptsend_finish P msg (q, OK_st) (ptk s, ptp s) = Inr (OK_st, k', p') \<and>
    pt_inv P q n (s\<lparr>ptk := k', ptp := p', sent := sent s @ [msg], sgranted := sgranted s - 1,
      rgranted := rgranted s + (if receivers P s \<noteq> [] then 1 else 0)\<rparr>)"
  using inv
proof (rule pt_invE)
  fix Q F
  assume i: "port_open P q (ptk s) (ptp s)" "n < 2147483647" "port_lists P Q F (ptp s)"
    "sent s = received s @ map (ptmsg (ptp s)) Q" "messages P s + rgranted s = length Q" "places P s + sgranted s + length Q = n"
  have c: "scount (semtab (ptk s) (recv_sem P s)) < 2147483647" by (rule count_below [OF _ i(2)]) (use i(5,6) in linarith)
  obtain x F' k' p' where r: "ptsend_finish P msg (q, OK_st) (ptk s, ptp s) = Inr (OK_st, k', p')" "port_lists P (Q @ [x]) F' p'"
    "port_open P q k' p'" "ptssem (porttab p' P) = send_sem P s" "ptrsem (porttab p' P) = recv_sem P s"
    "map (ptmsg p') (Q @ [x]) = map (ptmsg (ptp s)) Q @ [msg]"
    "sem_abs k' (recv_sem P s) = asem_signal (sem_abs (ptk s) (recv_sem P s))" "sem_abs k' (send_sem P s) = sem_abs (ptk s) (send_sem P s)"
    using port_put [OF i(3,1) F c, of msg] by metis
  have m: "fst (sem_abs k' (recv_sem P s)) + (if receivers P s \<noteq> [] then 1 else 0) = messages P s + 1"
    unfolding r(7) by (rule port_sems_waiting [OF i(1)]) simp
  let ?s = "s\<lparr>ptk := k', ptp := p', sent := sent s @ [msg], sgranted := sgranted s - 1,
      rgranted := rgranted s + (if receivers P s \<noteq> [] then 1 else 0)\<rparr>"
  have "messages P ?s + rgranted ?s = length (Q @ [x])" using m i(5) by (simp add: r(5))
  moreover have "places P ?s + sgranted ?s + length (Q @ [x]) = n" using i(6) g by (simp add: r(4,8))
  moreover have "sent ?s = received ?s @ map (ptmsg (ptp ?s)) (Q @ [x])" using i(4) r(6) by simp
  ultimately have "pt_inv P q n ?s" unfolding pt_inv_def using r(2,3) i(2) by (intro conjI exI [of _ "Q @ [x]"] exI [of _ F']) simp_all
  then show ?thesis using r(1) by blast
qed

lemma pt_inv_get:
  assumes inv: "pt_inv P q n s" and g: "rgranted s > 0"
  shows "\<exists>m k' p'. ptrecv_finish P (q, OK_st) (ptk s, ptp s) = Inr (m, k', p') \<and> (\<exists>ms. sent s = received s @ m # ms) \<and>
    pt_inv P q n (s\<lparr>ptk := k', ptp := p', received := received s @ [m], rgranted := rgranted s - 1,
      sgranted := sgranted s + (if senders P s \<noteq> [] then 1 else 0)\<rparr>)"
  using inv
proof (rule pt_invE)
  fix Q F
  assume i: "port_open P q (ptk s) (ptp s)" "n < 2147483647" "port_lists P Q F (ptp s)"
    "sent s = received s @ map (ptmsg (ptp s)) Q" "messages P s + rgranted s = length Q" "places P s + sgranted s + length Q = n"
  obtain x Q' where Q: "Q = x # Q'" using i(5) g by (cases Q) auto
  have c: "scount (semtab (ptk s) (send_sem P s)) < 2147483647" by (rule count_below [OF _ i(2)]) (use i(6) in linarith)
  obtain k' p' where r: "ptrecv_finish P (q, OK_st) (ptk s, ptp s) = Inr (ptmsg (ptp s) x, k', p')" "port_lists P Q' (x # F) p'"
    "port_open P q k' p'" "ptssem (porttab p' P) = send_sem P s" "ptrsem (porttab p' P) = recv_sem P s" "ptmsg p' = ptmsg (ptp s)"
    "sem_abs k' (send_sem P s) = asem_signal (sem_abs (ptk s) (send_sem P s))" "sem_abs k' (recv_sem P s) = sem_abs (ptk s) (recv_sem P s)"
    using port_get [OF i(3) [unfolded Q] i(1) c] by metis
  have m: "fst (sem_abs k' (send_sem P s)) + (if senders P s \<noteq> [] then 1 else 0) = places P s + 1"
    unfolding r(7) by (rule port_sems_waiting [OF i(1)]) simp
  let ?s = "s\<lparr>ptk := k', ptp := p', received := received s @ [ptmsg (ptp s) x], rgranted := rgranted s - 1,
      sgranted := sgranted s + (if senders P s \<noteq> [] then 1 else 0)\<rparr>"
  have "messages P ?s + rgranted ?s = length Q'" using i(5) g Q by (simp add: r(5,8))
  moreover have "places P ?s + sgranted ?s + length Q' = n" using m i(6) Q by (simp add: r(4))
  moreover have "sent ?s = received ?s @ map (ptmsg (ptp ?s)) Q'" using i(4) Q by (simp add: r(6))
  ultimately have "pt_inv P q n ?s" unfolding pt_inv_def using r(2,3) i(2) by (intro conjI exI [of _ Q'] exI [of _ "x # F"]) simp_all
  moreover have "sent s = received s @ ptmsg (ptp s) x # map (ptmsg (ptp s)) Q'" using i(4) Q by simp
  ultimately show ?thesis using r(1) by blast
qed

lemma pt_inv_wait:
  assumes inv: "pt_inv P q n s" and c: "currpid (ptk s) \<noteq> NULLPROC"
  shows "scount (semtab (ptk s) (send_sem P s)) > -2147483648 \<Longrightarrow> ptsend_start P (ptk s) (ptp s) = Inr (r, k') \<Longrightarrow>
      pt_inv P q n (s\<lparr>ptk := k', sgranted := sgranted s + (if places P s > 0 then 1 else 0)\<rparr>) \<and> r = Some (q, OK_st)"
    "scount (semtab (ptk s) (recv_sem P s)) > -2147483648 \<Longrightarrow> ptrecv_start P (ptk s) (ptp s) = Inr (r, k') \<Longrightarrow>
      pt_inv P q n (s\<lparr>ptk := k', rgranted := rgranted s + (if messages P s > 0 then 1 else 0)\<rparr>) \<and> r = Some (q, OK_st)"
proof -
  obtain Q F where i: "port_open P q (ptk s) (ptp s)" "n < 2147483647" "port_lists P Q F (ptp s)"
    "sent s = received s @ map (ptmsg (ptp s)) Q" "messages P s + rgranted s = length Q" "places P s + sgranted s + length Q = n"
    by (rule pt_invE [OF inv])
  note o = i(1) [unfolded port_open_def]
  have ne: "recv_sem P s \<noteq> send_sem P s" "send_sem P s \<noteq> recv_sem P s" using o by metis+
  {
    assume a: "scount (semtab (ptk s) (send_sem P s)) > -2147483648" "ptsend_start P (ptk s) (ptp s) = Inr (r, k')"
    obtain k1 where k1: "wait (send_sem P s) (ptk s) = Inr (OK_st, k1)" "port_open P q k1 (ptp s)"
      "fst (sem_abs k1 (send_sem P s)) + (if places P s > 0 then 1 else 0) = places P s" "sem_abs k1 (recv_sem P s) = sem_abs (ptk s) (recv_sem P s)"
      using port_waits [OF i(1) c a(1) disjI1 [OF HOL.refl] disjI2 [OF HOL.refl] ne(1)] by metis
    have e: "k' = k1" "r = Some (q, OK_st)" using a(2) k1(1) o by (simp_all add: ptsend_start_def)
    have "fst (sem_abs k1 (send_sem P s)) + (sgranted s + (if places P s > 0 then 1 else 0)) + length Q = n" using k1(3) i(6) by linarith
    then show "pt_inv P q n (s\<lparr>ptk := k', sgranted := sgranted s + (if places P s > 0 then 1 else 0)\<rparr>) \<and> r = Some (q, OK_st)"
      unfolding pt_inv_def e using i(2-5) k1(2,4) by (intro conjI exI [of _ Q] exI [of _ F]) simp_all
  next
    assume a: "scount (semtab (ptk s) (recv_sem P s)) > -2147483648" "ptrecv_start P (ptk s) (ptp s) = Inr (r, k')"
    obtain k1 where k1: "wait (recv_sem P s) (ptk s) = Inr (OK_st, k1)" "port_open P q k1 (ptp s)"
      "fst (sem_abs k1 (recv_sem P s)) + (if messages P s > 0 then 1 else 0) = messages P s" "sem_abs k1 (send_sem P s) = sem_abs (ptk s) (send_sem P s)"
      using port_waits [OF i(1) c a(1) disjI2 [OF HOL.refl] disjI1 [OF HOL.refl] ne(2)] by metis
    have e: "k' = k1" "r = Some (q, OK_st)" using a(2) k1(1) o by (simp_all add: ptrecv_start_def)
    have "fst (sem_abs k1 (recv_sem P s)) + (rgranted s + (if messages P s > 0 then 1 else 0)) = length Q" using k1(3) i(5) by linarith
    then show "pt_inv P q n (s\<lparr>ptk := k', rgranted := rgranted s + (if messages P s > 0 then 1 else 0)\<rparr>) \<and> r = Some (q, OK_st)"
      unfolding pt_inv_def e using i(2-4,6) k1(2,4) by (intro conjI exI [of _ Q] exI [of _ F]) simp_all
  }
qed

lemma pt_inv_step: "pt_step P q s s' \<Longrightarrow> pt_inv P q n s \<Longrightarrow> pt_inv P q n s'"
proof (induction rule: pt_step.induct)
  case (pt_put s msg r k' p')
  have "ptfree (ptp s) \<noteq> 0"
  proof
    assume "ptfree (ptp s) = 0"
    then have "ptsend_finish P msg (q, OK_st) (ptk s, ptp s) = Inl Panic"
      using pt_put(3) by (elim pt_invE) (simp add: ptsend_finish_def port_open_def SYSERR_st_def OK_st_def)
    then show False using pt_put(2) by simp
  qed
  from pt_inv_put [OF pt_put(3,1) this, of msg] show ?case using pt_put(2) by auto
next
  case (pt_get s msg k' p')
  from pt_inv_get [OF pt_get(3,1)] show ?case using pt_get(2) by auto
next
  case (pt_other k' s p' Q F F')
  obtain Q1 F1 where i: "port_open P q (ptk s) (ptp s)" "n < 2147483647" "port_lists P Q1 F1 (ptp s)"
    "sent s = received s @ map (ptmsg (ptp s)) Q1" "messages P s + rgranted s = length Q1" "places P s + sgranted s + length Q1 = n"
    by (rule pt_invE [OF pt_other(9)])
  have Q: "Q1 = Q" using i(3) pt_other(6) by (auto simp: port_lists_def intro: port_list_unique)
  have "map (ptmsg p') Q = map (ptmsg (ptp s)) Q" using pt_other(8) by simp
  then show ?case
    unfolding pt_inv_def using i pt_other(1-5,7) Q by (intro conjI exI [of _ Q] exI [of _ F']) (auto simp: port_open_def)
qed (use pt_inv_wait in blast)+

lemma pt_inv_steps: "pt_steps P q s s' \<Longrightarrow> pt_inv P q n s \<Longrightarrow> pt_inv P q n s'"
  by (induction rule: pt_steps.induct) (auto intro: pt_inv_step)

section \<open>Creating a port\<close>

lemma ptcreate_loop_spec:
  assumes "ptcreate_loop m cnt (k, p) = (P, k', p')" "P \<noteq> SYSERR_st" "ptnextid p \<in> {0..<NPORTS}"
    and k: "kernel_ok k" and n: "0 \<le> cnt" "cnt < 2147483648" and F: "bchain (ptnext p) (ptfree p) F" "distinct F"
    and sems: "ptssem (porttab p' P) \<noteq> SYSERR_st" "ptrsem (porttab p' P) \<noteq> SYSERR_st"
  shows "port_open P (ptseq (porttab p' P)) k' p' \<and> port_lists P [] F p' \<and> ptstate (porttab p P) = PT_FREE \<and>
    ptseq (porttab p' P) = i32 (ptseq (porttab p P) + 1) \<and>
    sem_abs k' (ptssem (porttab p' P)) = (nat cnt, []) \<and> sem_abs k' (ptrsem (porttab p' P)) = (0, [])"
  using assms(1,3) F
proof (induction m arbitrary: p)
  case 0
  then show ?case using assms(2) by simp
next
  case (Suc m)
  let ?i = "ptnextid p" and ?p = "p\<lparr>ptnextid := if ptnextid p + 1 \<ge> NPORTS then 0 else ptnextid p + 1\<rparr>"
  show ?case
  proof (cases "ptstate (porttab p ?i) = PT_FREE")
    case False
    have i: "ptnextid ?p \<in> {0..<NPORTS}" using Suc.prems(2) by (auto simp: NPORTS_def)
    have r: "ptcreate_loop m cnt (k, ?p) = (P, k', p')" using Suc.prems(1) False by (simp add: Let_def)
    have "porttab ?p = porttab p" "ptnext ?p = ptnext p" "ptfree ?p = ptfree p" by simp_all
    from Suc.IH [OF r i, unfolded this, OF Suc.prems(3,4)] show ?thesis .
  next
    case True
    obtain ssem k1 where 1: "semcreate cnt k = (ssem, k1)" by fastforce
    obtain rsem k2 where 2: "semcreate 0 k1 = (rsem, k2)" by fastforce
    have e: "P = ?i" "k' = k2" "p' = upd_port ?i (\<lambda>e. e\<lparr>ptstate := PT_ALLOC, ptssem := ssem, ptrsem := rsem, pthead := 0, pttail := 0,
                ptseq := i32 (ptseq e + 1), ptmaxcnt := cnt mod 65536\<rparr>) ?p"
      using Suc.prems(1) True 1 2 by (auto simp: Let_def)
    have s: "ssem \<noteq> SYSERR_st" "rsem \<noteq> SYSERR_st" using sems by (simp_all add: e(1,3))
    have a: "kernel_ok k1" "ssem \<in> {0..<NSEM}" "sused (semtab k1 ssem)" "sem_abs k1 ssem = (nat cnt, [])"
      using semcreate_kernel_spec [OF k n] 1 s(1) by auto
    have b: "kernel_ok k2" "rsem \<in> {0..<NSEM}" "sused (semtab k2 rsem)" "sem_abs k2 rsem = (0, [])" "\<not> sused (semtab k1 rsem)"
      "\<forall>r. r \<noteq> rsem \<longrightarrow> semtab k2 r = semtab k1 r"
      using semcreate_kernel_spec [OF a(1), of 0] 2 s(2) by auto
    have d: "ssem \<noteq> rsem" using a(3) b(5) by auto
    have q: "queuetab k2 = queuetab k1"
      using semcreate_spec [OF kernel_okD(1,5,8) [OF a(1)], of 0] 2 by (metis Pair_inject order_refl zero_less_numeral)
    have "sem_abs k2 ssem = (nat cnt, [])" using a(4) b(6) d by (simp add: sem_abs_def sem_queue_def q)
    then show ?thesis using a(2,3) b(1-4,6) d Suc.prems(2-4) True
      by (simp add: e port_open_def port_lists_def isbadport_def NPORTS_def)
  qed
qed

lemma ptcreate_spec:
  assumes "ptcreate cnt (k, p) = (P, k', p')" "P \<noteq> SYSERR_st" "ptnextid p \<in> {0..<NPORTS}"
    and k: "kernel_ok k" and n: "cnt < 2147483648" and F: "bchain (ptnext p) (ptfree p) F" "distinct F"
    and sems: "ptssem (porttab p' P) \<noteq> SYSERR_st" "ptrsem (porttab p' P) \<noteq> SYSERR_st"
  shows "port_open P (ptseq (porttab p' P)) k' p'" "port_lists P [] F p'" "ptstate (porttab p P) = PT_FREE"
    "sem_abs k' (ptssem (porttab p' P)) = (nat cnt, [])" "sem_abs k' (ptrsem (porttab p' P)) = (0, [])"
proof -
  have "0 \<le> cnt" "ptcreate_loop (nat NPORTS) cnt (k, p) = (P, k', p')" using assms(1,2) by (auto simp: ptcreate_def split: if_splits)
  from ptcreate_loop_spec [OF this(2) assms(2,3) k this(1) n F sems]
  show "port_open P (ptseq (porttab p' P)) k' p'" "port_lists P [] F p'" "ptstate (porttab p P) = PT_FREE"
    "sem_abs k' (ptssem (porttab p' P)) = (nat cnt, [])" "sem_abs k' (ptrsem (porttab p' P)) = (0, [])" by blast+
qed

section \<open>What a port guarantees\<close>

text \<open>C22: A port is a bounded queue. From its creation, whatever sequence of sends and receives (blocking or not) and
  actions of other processes follows: the messages received are the first ones sent, in order; the messages on the
  way never exceed the size of the port; a receiver that \<^verbatim>\<open>wait\<close> has let pass always finds a message, the oldest
  one; and a sender that \<^verbatim>\<open>wait\<close> has let pass can put its message unless the nodes shared by all ports are used up.\<close>

theorem port_is_bounded_queue:
  assumes "kernel_ok k0" "ptcreate (int n) (k0, p0) = (P, k, p)" "P \<noteq> SYSERR_st" "ptnextid p0 \<in> {0..<NPORTS}" "n < 2147483647"
    and "bchain (ptnext p0) (ptfree p0) F" "distinct F" "ptssem (porttab p P) \<noteq> SYSERR_st" "ptrsem (porttab p P) \<noteq> SYSERR_st"
    and "q = ptseq (porttab p P)"
    and "pt_steps P q \<lparr>ptk = k, ptp = p, sent = [], received = [], sgranted = 0, rgranted = 0\<rparr> s"
  shows "(\<exists>ms. sent s = received s @ ms \<and> length ms + places P s + sgranted s = n) \<and>
    (rgranted s > 0 \<longrightarrow> (\<exists>m ms k' p'. sent s = received s @ m # ms \<and> ptrecv_finish P (q, OK_st) (ptk s, ptp s) = Inr (m, k', p'))) \<and>
    (sgranted s > 0 \<and> ptfree (ptp s) \<noteq> 0 \<longrightarrow> (\<exists>k' p'. ptsend_finish P msg (q, OK_st) (ptk s, ptp s) = Inr (OK_st, k', p')))"
proof -
  have c: "int n < 2147483648" using assms(5) by simp
  note made = ptcreate_spec [OF assms(2-4,1) c assms(6-9), folded assms(10)]
  have "pt_inv P q n \<lparr>ptk = k, ptp = p, sent = [], received = [], sgranted = 0, rgranted = 0\<rparr>"
    unfolding pt_inv_def using made assms(5) by (intro conjI exI [of _ "[]"] exI [of _ F]) simp_all
  then have inv: "pt_inv P q n s" by (rule pt_inv_steps [OF assms(11)])
  then have "\<exists>ms. sent s = received s @ ms \<and> length ms + places P s + sgranted s = n" by (elim pt_invE) (auto simp: add_ac)
  moreover have "rgranted s > 0 \<Longrightarrow> \<exists>m ms k' p'. sent s = received s @ m # ms \<and> ptrecv_finish P (q, OK_st) (ptk s, ptp s) = Inr (m, k', p')"
    using pt_inv_get [OF inv] by blast
  moreover have "sgranted s > 0 \<Longrightarrow> ptfree (ptp s) \<noteq> 0 \<Longrightarrow> \<exists>k' p'. ptsend_finish P msg (q, OK_st) (ptk s, ptp s) = Inr (OK_st, k', p')"
    using pt_inv_put [OF inv, of msg] by blast
  ultimately show ?thesis by blast
qed

section \<open>Resetting a port\<close>

lemma ptwalk_list: "bchain (ptnext p) a Q \<Longrightarrow> ptwalk dispose p a k = Some (fold dispose (map (ptmsg p) Q) k)"
proof (induction Q arbitrary: a k)
  case Nil
  then show ?case by (subst ptwalk.simps) simp
next
  case (Cons x Q)
  then show ?case by (subst ptwalk.simps) simp
qed

lemma ptwalk_same: "ptwalk dispose (upd_port i f p) a k = ptwalk dispose p a k" if "bchain (ptnext p) a Q"
  using ptwalk_list [OF that] ptwalk_list [of "upd_port i f p" a Q] that by simp

lemma i32_Suc_neq: "i32 (q + 1) \<noteq> q"
proof
  assume "i32 (q + 1) = q"
  then have "(q + 1 + 2147483648) mod 4294967296 = q + 2147483648" by (simp add: i32_def)
  moreover have "(q + 1 + 2147483648) - (q + 1 + 2147483648) mod 4294967296 = 4294967296 * ((q + 1 + 2147483648) div 4294967296)"
    by (rule minus_mod_eq_mult_div)
  ultimately have "1 = 4294967296 * ((q + 1 + 2147483648) div 4294967296)" by linarith
  then show False by (metis dvd_triv_left one_dvd zdvd1_eq abs_numeral numeral_eq_one_iff semiring_norm(83))
qed

lemma fold_dispose:
  assumes d: "\<And>m k. kernel_ok k \<Longrightarrow> kernel_ok (dispose m k) \<and> (\<forall>x. sused (semtab k x) \<longrightarrow> sused (semtab (dispose m k) x))"
  shows "kernel_ok k \<Longrightarrow> kernel_ok (fold dispose ms k) \<and> (\<forall>x. sused (semtab k x) \<longrightarrow> sused (semtab (fold dispose ms k) x))"
  by (induction ms arbitrary: k) (simp, metis d fold_simps(2))

text \<open>C39: \<^verbatim>\<open>ptreset\<close> empties a port. It calls the function for every message on the way, in order; all nodes of the
  messages are free again; the port is open and empty, with all its places free, and nobody waits for it; and a
  sender or receiver that had waited gets \<^verbatim>\<open>SYSERR\<close> when it goes on.\<close>

theorem ptreset_empties_port:
  assumes "port_open P q k p" "port_lists P Q F p" "0 \<le> ptmaxcnt (porttab p P)" "ptmaxcnt (porttab p P) < 65536"
    and "\<And>m k. kernel_ok k \<Longrightarrow> kernel_ok (dispose m k) \<and> (\<forall>x. sused (semtab k x) \<longrightarrow> sused (semtab (dispose m k) x))"
  shows "\<exists>k1 k2 k' p'. k1 = fold dispose (map (ptmsg p) Q) k \<and> semreset (ptssem (porttab p P)) (ptmaxcnt (porttab p P)) k1 = Inr (OK_st, k2) \<and>
    semreset (ptrsem (porttab p P)) 0 k2 = Inr (OK_st, k') \<and> ptreset dispose P (k, p) = Inr (OK_st, k', p') \<and>
    port_open P (i32 (q + 1)) k' p' \<and> port_lists P [] (Q @ F) p' \<and>
    sem_abs k' (ptssem (porttab p' P)) = (nat (ptmaxcnt (porttab p P)), []) \<and> sem_abs k' (ptrsem (porttab p' P)) = (0, []) \<and>
    ptsend_finish P msg (q, r) (k', p') = Inr (SYSERR_st, k', p') \<and> ptrecv_finish P (q, r) (k', p') = Inr (SYSERR_st, k', p')"
proof -
  note o = assms(1) [unfolded port_open_def]
  let ?e = "porttab p P"
  define k1 where "k1 = fold dispose (map (ptmsg p) Q) k"
  have k1: "kernel_ok k1" "sused (semtab k1 (ptssem ?e))" "sused (semtab k1 (ptrsem ?e))"
    using fold_dispose [of dispose k "map (ptmsg p) Q", OF assms(5)] o unfolding k1_def by blast+
  have c: "ptmaxcnt ?e < 2147483648" using assms(4) by simp
  obtain k2 where k2: "semreset (ptssem ?e) (ptmaxcnt ?e) k1 = Inr (OK_st, k2)" "kernel_ok k2" "\<forall>r. sused (semtab k2 r) = sused (semtab k1 r)"
    "sem_abs k2 (ptssem ?e) = (nat (ptmaxcnt ?e), [])"
    using semreset_on [OF k1(1) _ k1(2) assms(3) c] o by blast
  obtain k' where k': "semreset (ptrsem ?e) 0 k2 = Inr (OK_st, k')" "kernel_ok k'" "\<forall>r. sused (semtab k' r) = sused (semtab k2 r)"
    "sem_abs k' (ptrsem ?e) = (0, [])" "\<forall>r \<in> {0..<NSEM}. r \<noteq> ptrsem ?e \<longrightarrow> sem_abs k' r = sem_abs k2 r"
    using semreset_on [OF k2(2), of "ptrsem ?e" 0] k1(3) k2(3) o by auto
  have f: "bchain (ptnext p) (pthead ?e) Q" "bchain (ptnext p) (ptfree p) F" "distinct (Q @ F)" "pttail ?e = (if Q = [] then 0 else last Q)"
    using assms(2) by (simp_all add: port_lists_def)
  have hd0: "pthead ?e \<noteq> 0 \<longleftrightarrow> Q \<noteq> []" using f(1) by (cases Q) auto
  have walk: "ptwalk dispose (upd_port P g p) (pthead ?e) k = Some k1" for g
    unfolding ptwalk_same [OF f(1)] k1_def by (rule ptwalk_list [OF f(1)])
  obtain p' where p': "ptclear dispose P PT_ALLOC (k, p) = Inr (k', p')" 
    "ptnext p' = (if Q = [] then ptnext p else (ptnext p)(last Q := ptfree p))" "ptfree p' = (if Q = [] then ptfree p else pthead ?e)"
    "porttab p' P = ?e\<lparr>ptstate := PT_ALLOC, ptseq := i32 (q + 1), pthead := 0, pttail := 0\<rparr>"
  proof (cases "Q = []")
    case True
    then have "k1 = k" by (simp add: k1_def)
    then show thesis using that True hd0 o k2(1) k'(1) by (simp add: ptclear_def Let_def)
  next
    case False
    then show thesis using that hd0 walk f(4) o k2(1) k'(1) by (simp add: ptclear_def Let_def)
  qed
  have "ptreset dispose P (k, p) = Inr (OK_st, k', p')" using p'(1) o by (simp add: ptreset_def)
  moreover have "port_open P (i32 (q + 1)) k' p'" using o k'(2,3) k2(3) k1(2,3) by (simp add: port_open_def p'(4))
  moreover have "bchain (ptnext p') (ptfree p') (Q @ F)"
    using f bchain_join [OF f(1) _ f(2,3)] by (simp add: p'(2,3))
  then have "port_lists P [] (Q @ F) p'" using f(3) by (simp add: port_lists_def p'(4))
  moreover have "sem_abs k' (ptssem (porttab p' P)) = (nat (ptmaxcnt ?e), [])" using k'(5) k2(4) o by (simp add: p'(4))
  moreover have "ptsend_finish P msg (q, r) (k', p') = Inr (SYSERR_st, k', p')" "ptrecv_finish P (q, r) (k', p') = Inr (SYSERR_st, k', p')"
    using i32_Suc_neq [of q] by (simp_all add: ptsend_finish_def ptrecv_finish_def p'(4))
  moreover have "sem_abs k' (ptrsem (porttab p' P)) = (0, [])" using k'(4) by (simp add: p'(4))
  ultimately show ?thesis using k2(1) k'(1) unfolding k1_def by blast
qed

section \<open>A port on the kernel of the other examples\<close>

definition demo_port_kern :: kern where
  "demo_port_kern = upd_sem 1 (\<lambda>e. e\<lparr>sused := False\<rparr>) (upd_sem 0 (\<lambda>e. e\<lparr>sused := False\<rparr>) (demo_kern 20))"

definition demo_ports :: ports where
  "demo_ports = \<lparr>porttab = \<lambda>_. \<lparr>ptssem = 0, ptrsem = 0, ptstate = PT_FREE, ptmaxcnt = 0, ptseq = 0, pthead = 0, pttail = 0\<rparr>, ptnextid = 0,
     ptfree = 4224, ptmsg = \<lambda>_. 0, ptnext = link_bufs 1 8 4224 (\<lambda>_. 0)\<rparr>"

lemma demo_port_kern_ok: "kernel_ok demo_port_kern"
  unfolding demo_port_kern_def by (intro kernel_ok_unused demo_kernel_ok) (simp_all add: demo_sems)

definition demo_kern_made :: kern where
  "demo_kern_made = set_count 1 0 (upd_sem 1 (\<lambda>e. e\<lparr>sused := True\<rparr>) (set_count 0 3 (upd_sem 0 (\<lambda>e. e\<lparr>sused := True\<rparr>) (demo_port_kern\<lparr>nextsem := 1\<rparr>))\<lparr>nextsem := 2\<rparr>))"

definition demo_port_made :: ports where
  "demo_port_made = upd_port 0 (\<lambda>e. e\<lparr>ptstate := PT_ALLOC, ptssem := 0, ptrsem := 1, pthead := 0, pttail := 0, ptseq := 1, ptmaxcnt := 3\<rparr>)
     (demo_ports\<lparr>ptnextid := 1\<rparr>)"

lemma newsem_next: "\<not> sused (semtab k (nextsem k)) \<Longrightarrow>
    newsem k = (nextsem k, upd_sem (nextsem k) (\<lambda>e. e\<lparr>sused := True\<rparr>) (k\<lparr>nextsem := if nextsem k + 1 \<ge> NSEM then 0 else nextsem k + 1\<rparr>))"
proof -
  assume a: "\<not> sused (semtab k (nextsem k))"
  have n: "nat NSEM = Suc 99" by (simp add: NSEM_def)
  show ?thesis unfolding newsem_def n newsem_loop.simps using a by (simp add: Let_def)
qed

lemma demo_ptcreate: "ptcreate (int 3) (demo_port_kern, demo_ports) = (0, demo_kern_made, demo_port_made)"
proof -
  let ?k1 = "set_count 0 3 (upd_sem 0 (\<lambda>e. e\<lparr>sused := True\<rparr>) (demo_port_kern\<lparr>nextsem := 1\<rparr>))"
  have n: "nextsem demo_port_kern = 0" "\<not> sused (semtab demo_port_kern 0)" "\<not> sused (semtab demo_port_kern 1)"
    by (simp_all add: demo_port_kern_def demo_kern_def)
  have 1: "semcreate 3 demo_port_kern = (0, ?k1)"
    using newsem_next [of demo_port_kern] n by (simp add: semcreate_def SYSERR_st_def NSEM_def)
  have n1: "nextsem ?k1 = 1" "\<not> sused (semtab ?k1 1)" using n by simp_all
  have 2: "semcreate 0 ?k1 = (1, demo_kern_made)"
    using newsem_next [of ?k1] n1 by (simp add: semcreate_def SYSERR_st_def NSEM_def demo_kern_made_def)
  have m: "nat NPORTS = Suc 29" by (simp add: NPORTS_def)
  have 3: "ptnextid demo_ports = 0" "\<And>i. ptstate (porttab demo_ports i) = PT_FREE" "\<And>i. ptseq (porttab demo_ports i) = 0" by (simp_all add: demo_ports_def)
  show ?thesis
    unfolding ptcreate_def m ptcreate_loop.simps using 1 2 3 by (simp add: Let_def NPORTS_def demo_port_made_def upd_port_def i32_def)
qed

lemma demo_port_lists: "bchain (ptnext demo_ports) (ptfree demo_ports) [4224, 4232]"
  using link_bufs_chain [of 8 4224 1 "\<lambda>_. 0"] by (simp add: demo_ports_def pool_addrs_def upt_conv_Cons)

lemma demo_port_facts: "ptnextid demo_ports \<in> {0..<NPORTS}" "ptssem (porttab demo_port_made 0) = 0" "ptrsem (porttab demo_port_made 0) = 1"
  "ptseq (porttab demo_port_made 0) = 1" "ptmaxcnt (porttab demo_port_made 0) = 3" "ptfree demo_port_made = 4224" "(0 :: int) \<noteq> SYSERR_st" "(1 :: int) \<noteq> SYSERR_st"
  by (simp_all add: demo_ports_def demo_port_made_def NPORTS_def SYSERR_st_def)

lemma demo_port_open: "port_open 0 1 demo_kern_made demo_port_made" "port_lists 0 [] [4224, 4232] demo_port_made"
  "sem_abs demo_kern_made 0 = (3, [])" "sem_abs demo_kern_made 1 = (0, [])"
proof -
  have "(3 :: int) < 2147483648" "distinct [4224, 4232 :: int]" by simp_all
  note f = ptcreate_spec [OF demo_ptcreate demo_port_facts(7) demo_port_facts(1) demo_port_kern_ok _ demo_port_lists this(2), unfolded demo_port_facts]
  show "port_open 0 1 demo_kern_made demo_port_made" "port_lists 0 [] [4224, 4232] demo_port_made"
    "sem_abs demo_kern_made 0 = (3, [])" "sem_abs demo_kern_made 1 = (0, [])" using f demo_port_facts(7,8) by auto
qed

text \<open>A first message, 77, is sent.\<close>

theorem port_is_bounded_queue_witness:
  "\<exists>s k' p'. pt_steps 0 1 \<lparr>ptk = demo_kern_made, ptp = demo_port_made, sent = [], received = [], sgranted = 0, rgranted = 0\<rparr> s \<and>
     ptsend_finish 0 77 (1, OK_st) (ptk s, ptp s) = Inr (OK_st, k', p')"
proof -
  let ?s = "\<lparr>ptk = demo_kern_made, ptp = demo_port_made, sent = [], received = [], sgranted = 0, rgranted = 0\<rparr>"
  have c: "currpid demo_kern_made \<noteq> NULLPROC" by (simp add: demo_kern_made_def demo_port_kern_def demo_kern_def NULLPROC_def)
  have n: "scount (semtab demo_kern_made 0) > -2147483648" by (simp add: demo_kern_made_def)
  obtain k1 where k1: "wait 0 demo_kern_made = Inr (OK_st, k1)"
    using port_waits [OF demo_port_open(1) c n, of 1] demo_port_facts(2,3) by auto
  have "ptsend_start 0 demo_kern_made demo_port_made = Inr (Some (1, OK_st), k1)"
    using k1 demo_port_open(1) demo_port_facts(2) by (simp add: ptsend_start_def port_open_def)
  then have "pt_step 0 1 ?s (?s\<lparr>ptk := k1, sgranted := sgranted ?s + (if places 0 ?s > 0 then 1 else 0)\<rparr>)"
    using c n demo_port_facts(2) by (intro pt_send) simp_all
  moreover have "places 0 ?s > 0" by (simp only: pt_sys.simps demo_port_facts(2) demo_port_open(3) fst_conv)
  ultimately have "pt_step 0 1 ?s (?s\<lparr>ptk := k1, sgranted := 1\<rparr>)" by simp
  then have st: "pt_steps 0 1 ?s (?s\<lparr>ptk := k1, sgranted := 1\<rparr>)" by (rule pt_more [OF pt_none])
  have d: "distinct [4224, 4232 :: int]" by simp
  have n3: "(3 :: nat) < 2147483647" by simp
  have s0: "ptssem (porttab demo_port_made 0) \<noteq> SYSERR_st" "ptrsem (porttab demo_port_made 0) \<noteq> SYSERR_st" "1 = ptseq (porttab demo_port_made 0)"
    using demo_port_facts by simp_all
  show ?thesis
    using port_is_bounded_queue [OF demo_port_kern_ok demo_ptcreate demo_port_facts(7,1) n3 demo_port_lists d s0 st, of 77] st
    by (auto simp: demo_port_facts)
qed

text \<open>The port is reset while the message 77 is on the way.\<close>

theorem ptreset_empties_port_witness:
  "\<exists>k p k' p'. port_lists 0 [4224] [4232] p \<and> ptreset (\<lambda>_ k. k) 0 (k, p) = Inr (OK_st, k', p') \<and> port_lists 0 [] [4224, 4232] p' \<and>
     ptrecv_finish 0 (1, OK_st) (k', p') = Inr (SYSERR_st, k', p')"
proof -
  have c: "scount (semtab demo_kern_made (ptrsem (porttab demo_port_made 0))) < 2147483647" by (simp add: demo_port_facts(3) demo_kern_made_def)
  have F: "ptfree demo_port_made \<noteq> 0" by (simp add: demo_port_facts)
  obtain x F' k p where p: "ptsend_finish 0 77 (1, OK_st) (demo_kern_made, demo_port_made) = Inr (OK_st, k, p)" "[4224, 4232] = x # F'"
    "port_lists 0 ([] @ [x]) F' p" "port_open 0 1 k p"
    using port_put [OF demo_port_open(2,1) F c, of 77] by blast
  have "ptmaxcnt (porttab p 0) = 3"
    using p(1) demo_port_facts demo_port_open(1) by (auto simp: ptsend_finish_def port_open_def Let_def OK_st_def SYSERR_st_def bind_res_def split: sum.splits if_splits)
  then obtain k' p' where "ptreset (\<lambda>_ k. k) 0 (k, p) = Inr (OK_st, k', p')" "port_lists 0 [] ([x] @ F') p'"
    "ptrecv_finish 0 (1, OK_st) (k', p') = Inr (SYSERR_st, k', p')"
    using ptreset_empties_port [OF p(4,3), of "\<lambda>_ k. k" 0 OK_st] by auto
  moreover have "[x] @ F' = [4224, 4232]" "port_lists 0 [4224] [4232] p" using p(2,3) by auto
  ultimately show ?thesis by metis
qed

end
