(* ===== verification/Eth_Ring.thy ===== *)
theory Eth_Ring
  imports Eth_Mcast Fifo
begin

text \<open>
  The descriptor rings of the Ethernet driver (\<^verbatim>\<open>device/eth/ethwrite.c\<close>, \<^verbatim>\<open>ethread.c\<close>, \<^verbatim>\<open>ethhandler.c\<close>,
  \<^verbatim>\<open>ethcontrol.c\<close>, the rings of \<^verbatim>\<open>ethinit.c\<close>). A descriptor belongs to the DMA engine while its \<^verbatim>\<open>OWN\<close> bit is set.
  The semaphores are counts of tokens with the effect the theory \<^verbatim>\<open>Semaphores\<close> proves of them; a call that has to wait
  is \<open>Blocked\<close>, or stops where it waits. The engine is not part of the program: a theorem assumes of it that it works
  through the descriptors in ring order, changes only those it owns, and gives each back with its \<^verbatim>\<open>OWN\<close> bit cleared.
\<close>

section \<open>Descriptors and control block\<close>

record tx_desc =
  t_ctrlstat :: u32
  t_buf1size :: u16
  t_buffer1 :: nat

record rx_desc =
  r_status :: u32
  r_buf1size :: u16
  r_buffer1 :: nat

record eth_dev =
  mc :: ethcblk
  txRing :: "tx_desc list"
  txRingSize :: nat
  txHead :: nat
  txTail :: nat
  osem :: nat
  rxRing :: "rx_desc list"
  rxRingSize :: nat
  rxHead :: nat
  rxTail :: nat
  isem :: nat

definition TDCS_OWN :: u32 where "TDCS_OWN = 0x80000000"
definition TDCS_IC :: u32 where "TDCS_IC = 0x40000000"
definition TDCS_LS :: u32 where "TDCS_LS = 0x20000000"
definition TDCS_FS :: u32 where "TDCS_FS = 0x10000000"
definition TDCS_TER :: u32 where "TDCS_TER = 0x00200000"
definition RDST_OWN :: u32 where "RDST_OWN = 0x80000000"
definition RDST_FS :: u32 where "RDST_FS = 0x00000200"
definition RDST_LS :: u32 where "RDST_LS = 0x00000100"
definition RDCTL1_RER :: u16 where "RDCTL1_RER = 0x8000"
definition SR_NIS :: u32 where "SR_NIS = 0x00010000"
definition SR_RI :: u32 where "SR_RI = 0x00000040"
definition SR_TI :: u32 where "SR_TI = 0x00000001"
definition RX_RING_SIZE :: nat where "RX_RING_SIZE = 128"
definition TX_RING_SIZE :: nat where "TX_RING_SIZE = 64"
definition ETH_BUF_SIZE :: nat where "ETH_BUF_SIZE = 1522"
definition NETPACKET_SIZE :: nat where "NETPACKET_SIZE = 1520"

definition upd_tx :: "nat \<Rightarrow> (tx_desc \<Rightarrow> tx_desc) \<Rightarrow> eth_dev \<Rightarrow> eth_dev" where
  "upd_tx i f e = e\<lparr>txRing := (txRing e)[i := f (txRing e ! i)]\<rparr>"

definition upd_rx :: "nat \<Rightarrow> (rx_desc \<Rightarrow> rx_desc) \<Rightarrow> eth_dev \<Rightarrow> eth_dev" where
  "upd_rx i f e = e\<lparr>rxRing := (rxRing e)[i := f (rxRing e ! i)]\<rparr>"

section \<open>The rings of \<^verbatim>\<open>ethinit\<close>\<close>

text \<open>The buffers are spaced by the size of a \<^verbatim>\<open>struct netpacket\<close>; \<open>txbufs\<close> and \<open>rxbufs\<close> are the addresses from \<^verbatim>\<open>getmem\<close>.\<close>

definition align4 :: "nat \<Rightarrow> nat" where "align4 a = (a + 3) div 4 * 4"

definition eth_rings_init :: "nat \<Rightarrow> nat \<Rightarrow> ethcblk \<Rightarrow> eth_dev" where
  "eth_rings_init txbufs rxbufs c =
     \<lparr>mc = c,
      txRing = map (\<lambda>i. \<lparr>t_ctrlstat = 0, t_buf1size = 0, t_buffer1 = align4 txbufs + i * NETPACKET_SIZE\<rparr>) [0..<TX_RING_SIZE],
      txRingSize = TX_RING_SIZE, txHead = 0, txTail = 0, osem = TX_RING_SIZE,
      rxRing = map (\<lambda>i. \<lparr>r_status = RDST_OWN,
        r_buf1size = of_nat ETH_BUF_SIZE OR (if i = RX_RING_SIZE - 1 then RDCTL1_RER else 0),
        r_buffer1 = align4 rxbufs + i * NETPACKET_SIZE\<rparr>) [0..<RX_RING_SIZE],
      rxRingSize = RX_RING_SIZE, rxHead = 0, rxTail = 0, isem = 0\<rparr>"

section \<open>Transmission\<close>

primrec copy_bytes :: "nat \<Rightarrow> nat \<Rightarrow> nat \<Rightarrow> mem \<Rightarrow> mem" where
  "copy_bytes 0 dst src m = m"
| "copy_bytes (Suc n) dst src m = copy_bytes n (dst + 1) (src + 1) (m(dst := m src))"

definition is_othernet :: "mem \<Rightarrow> nat \<Rightarrow> bool" where
  "is_othernet m buf \<longleftrightarrow> m (buf + 7) = 0x80 \<and> m (buf + 8) = 0x0a"

text \<open>\<^verbatim>\<open>for(i = 0; i < len; i++)\<close> compares as unsigned numbers.\<close>

definition ethwrite_ring :: "nat \<Rightarrow> int \<Rightarrow> eth_dev \<times> mem \<Rightarrow> (int \<times> eth_dev \<times> mem) res" where
  "ethwrite_ring buf len = (\<lambda>(e, m).
     let temp = m (buf + 6);
         m = (if is_othernet m buf then m(buf + 6 := m (buf + 6) AND NOT 1) else m)
     in
     if osem e = 0 then Inl Blocked
     else
       let e = e\<lparr>osem := osem e - 1\<rparr>;
           d = txTail e;
           e = e\<lparr>txTail := if txTail e + 1 \<ge> txRingSize e then 0 else txTail e + 1\<rparr>;
           e = upd_tx d (\<lambda>t. t\<lparr>t_buf1size := of_int len\<rparr>) e;
           m = copy_bytes (nat (len mod 2 ^ 32)) (t_buffer1 (txRing e ! d)) buf m;
           e = upd_tx d (\<lambda>t. t\<lparr>t_ctrlstat := if txTail e = 0 then TDCS_TER else 0\<rparr>) e;
           e = upd_tx d (\<lambda>t. t\<lparr>t_ctrlstat := t_ctrlstat t OR (TDCS_OWN OR TDCS_IC OR TDCS_LS OR TDCS_FS)\<rparr>) e;
           m = (if is_othernet m buf then m(buf + 6 := temp) else m)
       in Inr (OK, e, m))"

section \<open>The interrupt handler\<close>

partial_function (option) tx_reap :: "nat \<Rightarrow> eth_dev \<Rightarrow> (nat \<times> eth_dev) option" where
  "tx_reap n e =
     (if txHead e \<noteq> txTail e then
        if t_ctrlstat (txRing e ! txHead e) AND TDCS_OWN \<noteq> 0 then Some (n, e)
        else tx_reap (n + 1) (e\<lparr>txHead := if txHead e + 1 \<ge> txRingSize e then 0 else txHead e + 1\<rparr>)
      else Some (n, e))"

function rx_reap :: "nat \<Rightarrow> eth_dev \<Rightarrow> nat \<times> eth_dev" where
  "rx_reap n e =
     (if n \<le> rxRingSize e then
        if r_status (rxRing e ! rxTail e) AND RDST_OWN \<noteq> 0 then (n, e)
        else rx_reap (n + 1) (e\<lparr>rxTail := if rxTail e + 1 \<ge> rxRingSize e then 0 else rxTail e + 1\<rparr>)
      else (n, e))"
  by pat_completeness auto
termination by (relation "measure (\<lambda>(n, e). Suc (rxRingSize e) - n)") auto
declare rx_reap.simps [simp del]

text \<open>\<open>sr\<close> is the value of the status register.\<close>

definition ethhandler :: "u32 \<Rightarrow> eth_dev \<Rightarrow> eth_dev res" where
  "ethhandler sr e =
     (if sr AND SR_NIS = 0 then Inr e
      else
        bind_res (if sr AND SR_TI \<noteq> 0
                  then bind_res (opt_res Diverges (tx_reap 0 e)) (\<lambda>(n, e). Inr (e\<lparr>osem := osem e + n\<rparr>))
                  else Inr e) (\<lambda>e.
        if sr AND SR_RI \<noteq> 0
        then let (n, e) = rx_reap 0 e in Inr (e\<lparr>isem := isem e + n\<rparr>)
        else Inr e))"

section \<open>Reception\<close>

text \<open>The local variables of \<^verbatim>\<open>ethread\<close>; \<^verbatim>\<open>cptr\<close> and \<^verbatim>\<open>valid_addr\<close> are not initialised there.\<close>

record rd_locals =
  cptr :: nat
  seglen :: int
  framelen :: int
  copylen :: int
  accepted :: bool

definition rx_release :: "eth_dev \<Rightarrow> eth_dev" where
  "rx_release e =
     (let d = rxHead e;
          e = e\<lparr>rxHead := if rxHead e + 1 \<ge> RX_RING_SIZE then 0 else rxHead e + 1\<rparr>;
          e = upd_rx d (\<lambda>r. r\<lparr>r_buf1size := of_nat ETH_BUF_SIZE\<rparr>) e;
          e = (if rxHead e = 0 then upd_rx d (\<lambda>r. r\<lparr>r_buf1size := r_buf1size r OR RDCTL1_RER\<rparr>) e else e)
      in upd_rx d (\<lambda>r. r\<lparr>r_status := RDST_OWN\<rparr>) e)"

definition ethread_iter :: "nat \<Rightarrow> int \<Rightarrow> rd_locals \<times> eth_dev \<times> mem \<Rightarrow> rd_locals \<times> eth_dev \<times> mem" where
  "ethread_iter buf len = (\<lambda>(l, e, m).
     let e = e\<lparr>isem := isem e - 1\<rparr>;
         desc = rxRing e ! rxHead e;
         first = r_status desc AND RDST_FS \<noteq> 0;
         last = r_status desc AND RDST_LS \<noteq> 0;
         l = (if first then l\<lparr>cptr := buf, seglen := 0, framelen := 0, copylen := 0\<rparr> else l);
         l = l\<lparr>seglen := uint (drop_bit 16 (r_status desc) AND 0x3FFF)\<rparr>;
         l = (if last then l\<lparr>seglen := seglen l - framelen l\<rparr> else l);
         l = l\<lparr>framelen := framelen l + seglen l\<rparr>;
         l = l\<lparr>copylen := seglen l\<rparr>;
         l = (if framelen l > len then l\<lparr>copylen := copylen l - (framelen l - len)\<rparr> else l);
         m = (if copylen l > 0 then wr_bytes m (cptr l) (bytes m (r_buffer1 desc) (nat (copylen l))) else m);
         l = (if copylen l > 0 then l\<lparr>cptr := cptr l + nat (copylen l)\<rparr> else l);
         l = (if last then l\<lparr>accepted := valid_addr (mc e) (bytes m buf 6)\<rparr> else l)
     in (l, rx_release e, m))"

lemma isem_ethread_iter: "isem (fst (snd (ethread_iter buf len (l, e, m)))) = isem e - 1"
  by (simp add: ethread_iter_def rx_release_def Let_def upd_rx_def)

text \<open>The result \<open>None\<close> is a caller that waits for the next packet, with its local variables.\<close>

function ethread_loop :: "nat \<Rightarrow> int \<Rightarrow> rd_locals \<times> eth_dev \<times> mem \<Rightarrow> int option \<times> rd_locals \<times> eth_dev \<times> mem" where
  "ethread_loop buf len (l, e, m) =
     (if isem e = 0 then (None, l, e, m)
      else case ethread_iter buf len (l, e, m) of (l', e', m') \<Rightarrow>
        if accepted l' then (Some (if framelen l' > len then len else framelen l'), l', e', m')
        else ethread_loop buf len (l', e', m'))"
  by pat_completeness auto
termination
  by (relation "measure (\<lambda>(_, _, _, e, _). isem e)") (auto split: prod.split, metis One_nat_def diff_Suc_less fst_conv isem_ethread_iter snd_conv)
declare ethread_loop.simps [simp del]

definition ethread :: "nat \<Rightarrow> int \<Rightarrow> nat \<Rightarrow> bool \<Rightarrow> eth_dev \<times> mem \<Rightarrow> int option \<times> rd_locals \<times> eth_dev \<times> mem" where
  "ethread buf len cptr0 accepted0 = (\<lambda>(e, m).
     ethread_loop buf len (\<lparr>cptr = cptr0, seglen = 0, framelen = 0, copylen = 0, accepted = accepted0\<rparr>, e, m))"

section \<open>Control\<close>

definition CTRL_GET_MAC :: int where "CTRL_GET_MAC = 1"
definition CTRL_ADD_MCAST :: int where "CTRL_ADD_MCAST = 2"
definition CTRL_REMOVE_MCAST :: int where "CTRL_REMOVE_MCAST = 3"

definition ethcontrol :: "int \<Rightarrow> nat \<Rightarrow> eth_dev \<times> mem \<Rightarrow> (int \<times> eth_dev \<times> mem) res" where
  "ethcontrol func arg1 = (\<lambda>(e, m).
     if func = CTRL_GET_MAC then Inr (OK, e, wr_bytes m arg1 (take 6 (devAddress (mc e))))
     else if func = CTRL_ADD_MCAST then
       case ethmcast_add (bytes m arg1 6) (mc e) of (r, c) \<Rightarrow> Inr (r, e\<lparr>mc := c\<rparr>, m)
     else if func = CTRL_REMOVE_MCAST then
       bind_res (ethmcast_remove (bytes m arg1 6) (mc e)) (\<lambda>(r, c). Inr (r, e\<lparr>mc := c\<rparr>, m))
     else Inr (SYSERR, e, m))"


section \<open>The transmit ring as a queue of frames\<close>

text \<open>
  Writers, interrupts, and the engine at position \<open>eng\<close>: it sends the buffer of a descriptor it owns, gives it back
  with any status, and goes on to the next one, or to the start after a descriptor marked as the end of the ring.
\<close>

record tx_sys =
  dev :: eth_dev
  memory :: mem
  eng :: nat
  wire :: "byte list list"
  given :: "byte list list"

definition tx_frame :: "eth_dev \<Rightarrow> mem \<Rightarrow> nat \<Rightarrow> byte list" where
  "tx_frame e m i = bytes m (t_buffer1 (txRing e ! i)) (unat (t_buf1size (txRing e ! i)))"

definition tx_area :: "nat \<Rightarrow> nat set" where
  "tx_area base = {base..<base + TX_RING_SIZE * NETPACKET_SIZE}"

inductive tx_step :: "nat \<Rightarrow> tx_sys \<Rightarrow> tx_sys \<Rightarrow> bool" for base where
  tx_put: "\<lbrakk>ethwrite_ring buf (int len) (dev s, memory s) = Inr (r, e', m'); len \<le> NETPACKET_SIZE;
      {buf..<buf + max 9 len} \<inter> tx_area base = {}\<rbrakk> \<Longrightarrow>
    tx_step base s (s\<lparr>dev := e', memory := m', given := given s @ [eth_frame (memory s) buf len]\<rparr>)"
| tx_emit: "\<lbrakk>t_ctrlstat (txRing (dev s) ! eng s) AND TDCS_OWN \<noteq> 0; c AND TDCS_OWN = 0\<rbrakk> \<Longrightarrow>
    tx_step base s (s\<lparr>dev := upd_tx (eng s) (\<lambda>t. t\<lparr>t_ctrlstat := c\<rparr>) (dev s),
      eng := if t_ctrlstat (txRing (dev s) ! eng s) AND TDCS_TER \<noteq> 0 then 0 else eng s + 1,
      wire := wire s @ [tx_frame (dev s) (memory s) (eng s)]\<rparr>)"
| tx_interrupt: "ethhandler sr (dev s) = Inr e' \<Longrightarrow> tx_step base s (s\<lparr>dev := e'\<rparr>)"
| tx_elsewhere: "\<forall>a \<in> tx_area base. m' a = memory s a \<Longrightarrow> tx_step base s (s\<lparr>memory := m'\<rparr>)"

inductive tx_steps :: "nat \<Rightarrow> tx_sys \<Rightarrow> tx_sys \<Rightarrow> bool" for base where
  tx_steps_none: "tx_steps base s s"
| tx_steps_more: "tx_steps base s s' \<Longrightarrow> tx_step base s' s'' \<Longrightarrow> tx_steps base s s''"

definition tx_start :: "nat \<Rightarrow> nat \<Rightarrow> ethcblk \<Rightarrow> mem \<Rightarrow> tx_sys" where
  "tx_start txbufs rxbufs c m =
     \<lparr>dev = eth_rings_init txbufs rxbufs c, memory = m, eng = 0, wire = [], given = []\<rparr>"

lemma copy_bytes_disjoint:
  "dst + n \<le> src \<or> src + n \<le> dst \<Longrightarrow> copy_bytes n dst src m = wr_bytes m dst (bytes m src n)"
proof (induction n arbitrary: dst src m)
  case (Suc n)
  let ?m = "m(dst := m src)"
  have "copy_bytes (Suc n) dst src m = wr_bytes ?m (dst + 1) (bytes ?m (src + 1) n)"
    unfolding copy_bytes.simps by (rule Suc.IH) (use Suc.prems in linarith)
  also have "bytes ?m (src + 1) n = bytes m (src + 1) n" using Suc.prems by (auto simp: list_eq_iff_nth_eq)
  also have "wr_bytes ?m (dst + 1) (bytes m (src + 1) n) = wr_bytes m dst (bytes m src (Suc n))"
  proof (rule ext)
    fix x
    have "src + 1 + (x - (dst + 1)) = src + (x - dst)" if "dst + 1 \<le> x" using that by simp
    then show "wr_bytes ?m (dst + 1) (bytes m (src + 1) n) x = wr_bytes m dst (bytes m src (Suc n)) x"
      by (cases "x = dst") (auto simp: wr_bytes_def)
  qed
  finally show ?case .
qed simp

text \<open>\<^verbatim>\<open>ethwrite\<close> puts the frame of the network model into the buffer at the tail and leaves the caller's packet as it was.\<close>

lemma ethwrite_ring_spec:
  assumes "osem e \<noteq> 0" "txTail e < length (txRing e)" "len < 2 ^ 32" "dst = t_buffer1 (txRing e ! txTail e)"
    "dst + len \<le> buf \<or> buf + max 9 len \<le> dst"
  shows "ethwrite_ring buf (int len) (e, m) =
    Inr (OK, upd_tx (txTail e) (\<lambda>t. t\<lparr>t_buf1size := of_nat len,
        t_ctrlstat := (if txTail e + 1 \<ge> txRingSize e then TDCS_TER else 0) OR (TDCS_OWN OR TDCS_IC OR TDCS_LS OR TDCS_FS)\<rparr>)
      (e\<lparr>osem := osem e - 1, txTail := if txTail e + 1 \<ge> txRingSize e then 0 else txTail e + 1\<rparr>),
      wr_bytes m dst (eth_frame m buf len))"
proof -
  define m1 where "m1 = (if is_othernet m buf then m(buf + 6 := m (buf + 6) AND NOT 1) else m)"
  have f: "bytes m1 buf len = eth_frame m buf len" by (simp add: m1_def eth_frame_def is_othernet_def)
  have "dst + len \<le> buf \<or> buf + len \<le> dst" using assms(5) by linarith
  then have c: "copy_bytes len dst buf m1 = wr_bytes m1 dst (eth_frame m buf len)"
    by (simp only: copy_bytes_disjoint f)
  let ?w = "wr_bytes m1 dst (eth_frame m buf len)"
  have len: "length (eth_frame m buf len) = len" by (simp add: eth_frame_def)
  have out: "?w (buf + i) = m1 (buf + i)" if "i < 9" for i
    using that assms(5) len by (auto simp: wr_bytes_def)
  have o1: "is_othernet ?w buf = is_othernet m buf" using out [of 7] out [of 8] by (simp add: is_othernet_def m1_def)
  have "(wr_bytes (m(buf + 6 := v)) dst (eth_frame m buf len)) (buf + 6 := m (buf + 6)) = wr_bytes m dst (eth_frame m buf len)" for v
    using assms(5) len by (auto simp: wr_bytes_def fun_eq_iff)
  then have r: "(if is_othernet m buf then ?w(buf + 6 := m (buf + 6)) else ?w) = wr_bytes m dst (eth_frame m buf len)"
    by (simp add: m1_def)
  have n: "nat (int len mod 2 ^ 32) = len" using assms(3) by simp
  have b: "t_buffer1 (txRing (upd_tx (txTail e) (\<lambda>t. t\<lparr>t_buf1size := v\<rparr>) e') ! txTail e) = dst" if "txRing e' = txRing e" for v e'
    using that assms(2,4) by (simp add: upd_tx_def)
  show ?thesis
    using assms(1,2) unfolding ethwrite_ring_def m1_def [symmetric] prod.case Let_def n
    by (simp add: b c o1 del: fun_upd_apply) (simp add: upd_tx_def, use r in \<open>simp split: if_splits\<close>)
qed


definition owned :: "tx_desc \<Rightarrow> bool" where
  "owned t \<longleftrightarrow> t_ctrlstat t AND TDCS_OWN \<noteq> 0"

definition ends_ring :: "tx_desc \<Rightarrow> bool" where
  "ends_ring t \<longleftrightarrow> t_ctrlstat t AND TDCS_TER \<noteq> 0"

abbreviation slot :: "nat \<Rightarrow> nat \<Rightarrow> nat" where
  "slot h i \<equiv> (h + i) mod TX_RING_SIZE"

text \<open>
  The ring holds the frames that wait for the engine: of the \<open>64 - osem\<close> descriptors from the head, the first \<open>d\<close> are
  sent and not yet reclaimed, the others are the engine's; no other descriptor is.
\<close>

definition tx_shape :: "nat \<Rightarrow> eth_dev \<Rightarrow> bool" where
  "tx_shape base e \<longleftrightarrow> length (txRing e) = TX_RING_SIZE \<and> txRingSize e = TX_RING_SIZE \<and>
     (\<forall>i < TX_RING_SIZE. t_buffer1 (txRing e ! i) = base + i * NETPACKET_SIZE) \<and>
     osem e \<le> TX_RING_SIZE \<and> txHead e < TX_RING_SIZE \<and> txTail e = slot (txHead e) (TX_RING_SIZE - osem e)"

definition tx_inv :: "nat \<Rightarrow> nat \<Rightarrow> tx_sys \<Rightarrow> bool" where
  "tx_inv base d s \<longleftrightarrow> (let e = dev s; k = TX_RING_SIZE - osem e; h = txHead e in
     tx_shape base e \<and> d \<le> k \<and> eng s = slot h d \<and>
     (\<forall>i < TX_RING_SIZE. owned (txRing e ! slot h i) \<longleftrightarrow> d \<le> i \<and> i < k) \<and>
     (\<forall>i. d \<le> i \<and> i < k \<longrightarrow> unat (t_buf1size (txRing e ! slot h i)) \<le> NETPACKET_SIZE \<and>
       (ends_ring (txRing e ! slot h i) \<longleftrightarrow> slot h i = TX_RING_SIZE - 1)) \<and>
     given s = wire s @ map (\<lambda>i. tx_frame e (memory s) (slot h i)) [d..<k])"

lemma tx_consts: "TX_RING_SIZE = 64" "NETPACKET_SIZE = 1520"
  by (simp_all add: TX_RING_SIZE_def NETPACKET_SIZE_def)

lemma slot_less [simp]: "slot h i < TX_RING_SIZE"
  by (simp add: tx_consts)

lemma slot_inj: "i < TX_RING_SIZE \<Longrightarrow> j < TX_RING_SIZE \<Longrightarrow> slot h i = slot h j \<Longrightarrow> i = j"
  by (rule ring_mod_inj)

lemma slot_Suc: "h < TX_RING_SIZE \<Longrightarrow> (if h + 1 \<ge> TX_RING_SIZE then 0 else h + 1) = slot h 1"
  by (cases "h = 63") (auto simp: tx_consts)

lemma slot_step: "(if slot h i + 1 \<ge> TX_RING_SIZE then 0 else slot h i + 1) = slot h (Suc i)"
  using slot_Suc [of "slot h i"] by (simp add: mod_simps)

lemma slot_slot: "slot (slot h i) j = slot h (i + j)"
  by (simp add: mod_simps add.assoc)

lemma slot_0: "h < TX_RING_SIZE \<Longrightarrow> slot h 0 = h"
  by simp

lemma tx_reap_spec:
  assumes "txRingSize e = TX_RING_SIZE" "txHead e < TX_RING_SIZE" "txTail e = slot (txHead e) k" "k < TX_RING_SIZE" "d \<le> k"
    "\<forall>i < d. \<not> owned (txRing e ! slot (txHead e) i)" "d < k \<Longrightarrow> owned (txRing e ! slot (txHead e) d)"
  shows "tx_reap n e = Some (n + d, e\<lparr>txHead := slot (txHead e) d\<rparr>)"
  using assms
proof (induction d arbitrary: n e k)
  case 0
  have "txHead e \<noteq> txTail e \<Longrightarrow> 0 < k" using 0 by (cases k) simp_all
  then show ?case using 0 by (subst tx_reap.simps) (auto simp: owned_def)
next
  case (Suc d)
  let ?h = "txHead e"
  let ?e = "e\<lparr>txHead := slot ?h 1\<rparr>"
  have ne: "?h \<noteq> txTail e" using Suc.prems slot_inj [of 0 k ?h] by auto
  have own: "\<not> owned (txRing e ! ?h)" using Suc.prems by force
  have nx: "(if txHead e + 1 \<ge> txRingSize e then 0 else txHead e + 1) = slot ?h 1"
    using slot_Suc Suc.prems(1,2) by simp
  have "tx_reap n e = tx_reap (n + 1) ?e"
    using ne own by (subst tx_reap.simps) (simp only: nx owned_def simp_thms if_True if_False)
  also have "\<dots> = Some (n + 1 + d, ?e\<lparr>txHead := slot (txHead ?e) d\<rparr>)"
  proof (rule Suc.IH [where k = "k - 1"])
    have "slot (slot ?h 1) (k - 1) = slot ?h k" using Suc.prems(5) by (simp only: slot_slot) simp
    then show "txTail ?e = slot (txHead ?e) (k - 1)" using Suc.prems(3) by simp
    show "\<forall>i < d. \<not> owned (txRing ?e ! slot (txHead ?e) i)"
    proof (intro allI impI)
      fix i assume "i < d"
      then have "\<not> owned (txRing e ! slot ?h (Suc i))" using Suc.prems(6) by blast
      then show "\<not> owned (txRing ?e ! slot (txHead ?e) i)" by (simp add: mod_simps)
    qed
    show "owned (txRing ?e ! slot (txHead ?e) d)" if "d < k - 1"
      using Suc.prems(7) that by (simp add: mod_simps)
  qed (use Suc.prems in auto)
  finally show ?case by (simp add: mod_simps)
qed

lemma tx_reap_full: "txHead e = txTail e \<Longrightarrow> tx_reap n e = Some (n, e)"
  by (subst tx_reap.simps) simp

text \<open>Only the transmit part of the device matters.\<close>

lemma rx_reap_tx: "case rx_reap n e of (c, e') \<Rightarrow> \<exists>i. e' = e\<lparr>rxTail := i\<rparr>"
proof (induction n e rule: rx_reap.induct)
  case (1 n e)
  have id: "\<exists>i. e = e\<lparr>rxTail := i\<rparr>" by (rule exI [of _ "rxTail e"]) simp
  show ?case
  proof (cases "n \<le> rxRingSize e \<and> r_status (rxRing e ! rxTail e) AND RDST_OWN = 0")
    case True
    then have "rx_reap n e = rx_reap (n + 1) (e\<lparr>rxTail := if rxTail e + 1 \<ge> rxRingSize e then 0 else rxTail e + 1\<rparr>)"
      by (subst rx_reap.simps) simp
    then show ?thesis using 1 True by (force split: prod.splits)
  next
    case False
    then have "rx_reap n e = (n, e)" by (subst rx_reap.simps) auto
    then show ?thesis using id by simp
  qed
qed

lemma ethhandler_tx:
  assumes "ethhandler sr e = Inr e'"
  obtains e1 i j where "e' = e1\<lparr>rxTail := i, isem := j\<rparr>"
    "e1 = e \<or> (\<exists>n e2. tx_reap 0 e = Some (n, e2) \<and> e1 = e2\<lparr>osem := osem e2 + n\<rparr>)"
proof (cases "sr AND SR_NIS = 0")
  case True
  then show thesis using assms that [where ?e1.0 = e and i = "rxTail e" and j = "isem e"] by (simp add: ethhandler_def)
next
  case False
  let ?tx = "if sr AND SR_TI \<noteq> 0 then bind_res (opt_res Diverges (tx_reap 0 e)) (\<lambda>(n, e). Inr (e\<lparr>osem := osem e + n\<rparr>)) else Inr e"
  obtain e1 where e1: "?tx = Inr e1"
    "(if sr AND SR_RI \<noteq> 0 then let (n, e) = rx_reap 0 e1 in Inr (e\<lparr>isem := isem e + n\<rparr>) else Inr e1) = (Inr e' :: eth_dev res)"
    using assms False by (cases ?tx) (auto simp: ethhandler_def)
  have "e1 = e \<or> (\<exists>n e2. tx_reap 0 e = Some (n, e2) \<and> e1 = e2\<lparr>osem := osem e2 + n\<rparr>)"
    using e1(1) by (cases "tx_reap 0 e") (auto split: if_splits)
  moreover have "\<exists>i j. e' = e1\<lparr>rxTail := i, isem := j\<rparr>"
  proof (cases "sr AND SR_RI = 0")
    case True
    then have "e' = e1\<lparr>rxTail := rxTail e1, isem := isem e1\<rparr>" using e1(2) by simp
    then show ?thesis by blast
  next
    case False
    then show ?thesis using e1(2) rx_reap_tx [where n = 0 and e = e1] by (auto split: prod.splits)
  qed
  ultimately show thesis using that by blast
qed

lemma tx_invD:
  assumes "tx_inv base d s" "k = TX_RING_SIZE - osem (dev s)" "h = txHead (dev s)"
  shows "tx_shape base (dev s)" "d \<le> k" "eng s = slot h d"
    "\<And>i. i < TX_RING_SIZE \<Longrightarrow> owned (txRing (dev s) ! slot h i) \<longleftrightarrow> d \<le> i \<and> i < k"
    "\<And>i. d \<le> i \<Longrightarrow> i < k \<Longrightarrow> unat (t_buf1size (txRing (dev s) ! slot h i)) \<le> NETPACKET_SIZE"
    "\<And>i. d \<le> i \<Longrightarrow> i < k \<Longrightarrow> ends_ring (txRing (dev s) ! slot h i) \<longleftrightarrow> slot h i = TX_RING_SIZE - 1"
    "given s = wire s @ map (\<lambda>i. tx_frame (dev s) (memory s) (slot h i)) [d..<k]"
  using assms by (simp_all add: tx_inv_def Let_def)

lemma tx_shapeD:
  assumes "tx_shape base e"
  shows "length (txRing e) = TX_RING_SIZE" "txRingSize e = TX_RING_SIZE" "osem e \<le> TX_RING_SIZE" "txHead e < TX_RING_SIZE"
    "txTail e = slot (txHead e) (TX_RING_SIZE - osem e)"
    "\<And>i. i < TX_RING_SIZE \<Longrightarrow> t_buffer1 (txRing e ! i) = base + i * NETPACKET_SIZE"
  using assms by (simp_all add: tx_shape_def)

lemma intervals_disjoint:
  fixes a b c d :: nat
  assumes "{a..<b} \<inter> {c..<d} = {}" "a < b" "c < d"
  shows "b \<le> c \<or> d \<le> a"
proof (rule ccontr)
  assume "\<not> ?thesis"
  then have "max a c \<in> {a..<b} \<inter> {c..<d}" using assms(2,3) by auto
  then show False using assms(1) by blast
qed

lemma tx_start_inv: "tx_inv (align4 txbufs) 0 (tx_start txbufs rxbufs c m)"
proof -
  have "\<not> owned (txRing (eth_rings_init txbufs rxbufs c) ! slot 0 i)" for i
    by (simp add: eth_rings_init_def owned_def tx_consts)
  then show ?thesis
    by (simp add: tx_inv_def tx_start_def Let_def tx_shape_def) (simp add: eth_rings_init_def tx_consts)
qed

lemma tx_frame_wr:
  assumes "tx_shape base e" "i < TX_RING_SIZE" "j < TX_RING_SIZE" "i \<noteq> j" "length bs \<le> NETPACKET_SIZE"
    "unat (t_buf1size (txRing e ! i)) \<le> NETPACKET_SIZE"
  shows "tx_frame e (wr_bytes m (base + j * NETPACKET_SIZE) bs) i = tx_frame e m i"
proof -
  have "base + i * NETPACKET_SIZE + unat (t_buf1size (txRing e ! i)) \<le> base + j * NETPACKET_SIZE \<or>
      base + j * NETPACKET_SIZE + length bs \<le> base + i * NETPACKET_SIZE"
  proof (cases "i < j")
    case True
    then have "Suc i * NETPACKET_SIZE \<le> j * NETPACKET_SIZE" by (intro mult_le_mono1) simp
    then show ?thesis using assms(6) by simp
  next
    case False
    then have "Suc j * NETPACKET_SIZE \<le> i * NETPACKET_SIZE" using assms(4) by (intro mult_le_mono1) simp
    then show ?thesis using assms(5) by simp
  qed
  then show ?thesis using tx_shapeD(6) [OF assms(1,2)] by (simp add: tx_frame_def bytes_wr_disjoint)
qed

lemma tx_put_inv:
  assumes inv: "tx_inv base d s" and w: "ethwrite_ring buf (int len) (dev s, memory s) = Inr (r, e', m')"
    and len: "len \<le> NETPACKET_SIZE" and buf: "{buf..<buf + max 9 len} \<inter> tx_area base = {}"
  shows "tx_inv base d (s\<lparr>dev := e', memory := m', given := given s @ [eth_frame (memory s) buf len]\<rparr>)"
proof -
  let ?e = "dev s" and ?m = "memory s"
  define h k where "h = txHead ?e" and "k = TX_RING_SIZE - osem ?e"
  let ?f = "\<lambda>t. t\<lparr>t_buf1size := of_nat len,
    t_ctrlstat := (if slot h k + 1 \<ge> TX_RING_SIZE then TDCS_TER else 0) OR (TDCS_OWN OR TDCS_IC OR TDCS_LS OR TDCS_FS)\<rparr>"
  note I = tx_invD [OF inv k_def h_def]
  note S = tx_shapeD [OF I(1), folded h_def, folded k_def]
  have os: "osem ?e \<noteq> 0" using w by (auto simp: ethwrite_ring_def Let_def split: if_splits)
  then have k: "k < TX_RING_SIZE" "TX_RING_SIZE - (osem ?e - 1) = Suc k" using S(3) by (simp_all add: k_def tx_consts)
  let ?dst = "base + slot h k * NETPACKET_SIZE"
  have "slot h k \<le> TX_RING_SIZE - 1" using slot_less [of h k] by (simp add: tx_consts)
  then have "slot h k * NETPACKET_SIZE \<le> (TX_RING_SIZE - 1) * NETPACKET_SIZE" by (rule mult_le_mono1)
  then have "slot h k * NETPACKET_SIZE + len \<le> TX_RING_SIZE * NETPACKET_SIZE" using len by (simp add: tx_consts)
  moreover have "buf + max 9 len \<le> base \<or> base + TX_RING_SIZE * NETPACKET_SIZE \<le> buf"
    using intervals_disjoint [OF buf [unfolded tx_area_def]] by (simp add: tx_consts)
  ultimately have dis: "?dst + len \<le> buf \<or> buf + max 9 len \<le> ?dst" by linarith
  have "len < 2 ^ 32" using len by (simp add: tx_consts)
  from ethwrite_ring_spec [OF os _ this _ dis, of ?m, unfolded S(2,5) slot_step] w S(1) S(6) [of "slot h k"]
  have e': "e' = upd_tx (slot h k) ?f (?e\<lparr>osem := osem ?e - 1, txTail := slot h (Suc k)\<rparr>)"
    and m': "m' = wr_bytes ?m ?dst (eth_frame ?m buf len)"
    by simp_all
  have ring: "txRing e' = (txRing ?e)[slot h k := ?f (txRing ?e ! slot h k)]" by (simp add: e' upd_tx_def)
  have new: "txRing e' ! slot h k = ?f (txRing ?e ! slot h k)" using S(1) by (simp add: ring)
  have old: "txRing e' ! slot h i = txRing ?e ! slot h i" if "i < TX_RING_SIZE" "i \<noteq> k" for i
    using slot_inj [OF that(1) k(1), of h] that(2) unfolding ring by (metis nth_list_update_neq)
  have sh: "tx_shape base e'"
    using S k by (auto simp: tx_shape_def e' upd_tx_def nth_list_update h_def)
  have fl: "length (eth_frame ?m buf len) = len" by (simp add: eth_frame_def)
  have frames: "tx_frame e' m' (slot h i) = tx_frame ?e ?m (slot h i)" if "d \<le> i" "i < k" for i
  proof -
    have i: "i < TX_RING_SIZE" "i \<noteq> k" using that k(1) by simp_all
    then have ne: "slot h i \<noteq> slot h k" using slot_inj k(1) by blast
    show ?thesis using tx_frame_wr [OF I(1) slot_less slot_less ne, of "eth_frame ?m buf len" ?m] I(5) [OF that] len fl
      by (simp add: tx_frame_def old [OF i] m')
  qed
  have sz: "unat (of_nat len :: u16) = len" using len by (simp add: tx_consts unat_of_nat)
  have nf: "tx_frame e' m' (slot h k) = eth_frame ?m buf len"
  proof -
    have "t_buffer1 (txRing ?e ! slot h k) = ?dst" by (rule S(6)) simp
    then show ?thesis using fl sz by (simp add: tx_frame_def new m' bytes_wr_same)
  qed
  have own: "owned (txRing e' ! slot h k)" "ends_ring (txRing e' ! slot h k) \<longleftrightarrow> slot h k = TX_RING_SIZE - 1"
    using slot_less [of h k] unfolding owned_def ends_ring_def new
    by (auto simp: TDCS_OWN_def TDCS_TER_def TDCS_IC_def TDCS_LS_def TDCS_FS_def tx_consts)
  have "map (\<lambda>i. tx_frame e' m' (slot h i)) [d..<Suc k] = map (\<lambda>i. tx_frame ?e ?m (slot h i)) [d..<k] @ [eth_frame ?m buf len]"
    using I(2) frames nf by simp
  moreover have "txHead e' = h" "TX_RING_SIZE - osem e' = Suc k" using k(2) by (simp_all add: e' upd_tx_def h_def)
  moreover have "owned (txRing e' ! slot h i) \<longleftrightarrow> d \<le> i \<and> i < Suc k" if "i < TX_RING_SIZE" for i
    using I(2) I(4) [OF that] old [OF that] own(1) by (cases "i = k") auto
  moreover have "unat (t_buf1size (txRing e' ! slot h i)) \<le> NETPACKET_SIZE \<and>
      (ends_ring (txRing e' ! slot h i) \<longleftrightarrow> slot h i = TX_RING_SIZE - 1)" if "d \<le> i" "i < Suc k" for i
  proof (cases "i = k")
    case True
    have "unat (t_buf1size (txRing e' ! slot h k)) = len" by (simp add: new sz)
    then show ?thesis using own(2) len True by simp
  next
    case False
    then show ?thesis using I(5) [OF that(1)] I(6) [OF that(1)] that(2) old [of i] k by simp
  qed
  ultimately show ?thesis using sh I(2,3,7) by (simp add: tx_inv_def Let_def)
qed

lemma tx_emit_inv:
  assumes inv: "tx_inv base d s" and own: "t_ctrlstat (txRing (dev s) ! eng s) AND TDCS_OWN \<noteq> 0" and c: "c AND TDCS_OWN = 0"
  shows "tx_inv base (Suc d) (s\<lparr>dev := upd_tx (eng s) (\<lambda>t. t\<lparr>t_ctrlstat := c\<rparr>) (dev s),
      eng := if t_ctrlstat (txRing (dev s) ! eng s) AND TDCS_TER \<noteq> 0 then 0 else eng s + 1,
      wire := wire s @ [tx_frame (dev s) (memory s) (eng s)]\<rparr>)" (is "tx_inv base _ ?s'")
proof -
  let ?e = "dev s" and ?m = "memory s"
  define h k where "h = txHead ?e" and "k = TX_RING_SIZE - osem ?e"
  note I = tx_invD [OF inv k_def h_def]
  note S = tx_shapeD [OF I(1), folded h_def, folded k_def]
  have k: "k \<le> TX_RING_SIZE" by (simp add: k_def)
  have dk: "d < k"
  proof (rule ccontr)
    assume "\<not> d < k"
    then have d: "d = k" using I(2) by simp
    have "\<not> owned (txRing ?e ! slot h d)"
    proof (cases "k = TX_RING_SIZE")
      case True
      have "slot h d = slot h 0" using True d by simp
      then show ?thesis using I(4) [of 0] True d by (simp add: tx_consts)
    next
      case False
      then show ?thesis using I(4) [of d] d k by simp
    qed
    then show False using own I(3) by (simp add: owned_def)
  qed
  let ?e' = "upd_tx (slot h d) (\<lambda>t. t\<lparr>t_ctrlstat := c\<rparr>) ?e"
  have ring: "txRing ?e' = (txRing ?e)[slot h d := (txRing ?e ! slot h d)\<lparr>t_ctrlstat := c\<rparr>]" by (simp add: upd_tx_def)
  have old: "txRing ?e' ! slot h i = txRing ?e ! slot h i" if "i < TX_RING_SIZE" "i \<noteq> d" for i
    using slot_inj [OF that(1), of d h] that(2) dk k unfolding ring by (metis nth_list_update_neq order_less_le_trans)
  have new: "txRing ?e' ! slot h d = (txRing ?e ! slot h d)\<lparr>t_ctrlstat := c\<rparr>" using S(1) by (simp add: ring)
  have sh: "tx_shape base ?e'" using I(1) by (auto simp: tx_shape_def upd_tx_def nth_list_update)
  have "t_ctrlstat (txRing ?e ! slot h d) AND TDCS_TER \<noteq> 0 \<longleftrightarrow> slot h d + 1 \<ge> TX_RING_SIZE"
  proof -
    have "slot h d = TX_RING_SIZE - 1 \<longleftrightarrow> slot h d + 1 \<ge> TX_RING_SIZE" using slot_less [of h d] by linarith
    then show ?thesis using I(6) [of d] dk by (simp only: ends_ring_def order_refl)
  qed
  then have next_eng: "(if t_ctrlstat (txRing ?e ! eng s) AND TDCS_TER \<noteq> 0 then 0 else eng s + 1) = slot h (Suc d)"
    by (simp only: I(3) slot_step)
  have own': "owned (txRing ?e' ! slot h i) \<longleftrightarrow> Suc d \<le> i \<and> i < k" if "i < TX_RING_SIZE" for i
    using I(4) [OF that] old [OF that] c by (cases "i = d") (auto simp: new owned_def)
  have frames: "map (\<lambda>i. tx_frame ?e' ?m (slot h i)) [Suc d..<k] = map (\<lambda>i. tx_frame ?e ?m (slot h i)) [Suc d..<k]"
    using old k by (auto simp: tx_frame_def)
  have "given s = (wire s @ [tx_frame ?e ?m (slot h d)]) @ map (\<lambda>i. tx_frame ?e ?m (slot h i)) [Suc d..<k]"
    using I(7) dk by (simp add: upt_conv_Cons)
  moreover have "dev ?s' = ?e'" "eng ?s' = slot h (Suc d)" using I(3) next_eng by simp_all
  moreover have "txHead ?e' = h" "TX_RING_SIZE - osem ?e' = k" by (simp_all add: upd_tx_def h_def k_def)
  moreover have "unat (t_buf1size (txRing ?e' ! slot h i)) \<le> NETPACKET_SIZE \<and>
      (ends_ring (txRing ?e' ! slot h i) \<longleftrightarrow> slot h i = TX_RING_SIZE - 1)" if "Suc d \<le> i" "i < k" for i
    using I(5,6) [of i] old [of i] that k by simp
  ultimately show ?thesis unfolding tx_inv_def Let_def using sh dk own' frames I(3) by simp
qed

lemma tx_interrupt_inv:
  assumes inv: "tx_inv base d s" and eh: "ethhandler sr (dev s) = Inr e'"
  shows "\<exists>d'. tx_inv base d' (s\<lparr>dev := e'\<rparr>)"
proof -
  let ?e = "dev s" and ?m = "memory s"
  define h k where "h = txHead ?e" and "k = TX_RING_SIZE - osem ?e"
  note I = tx_invD [OF inv k_def h_def]
  note S = tx_shapeD [OF I(1), folded h_def, folded k_def]
  have rx: "tx_inv base x (s\<lparr>dev := e\<lparr>rxTail := i, isem := j\<rparr>\<rparr>) = tx_inv base x (s\<lparr>dev := e\<rparr>)" for x e i j
    by (simp add: tx_inv_def tx_shape_def tx_frame_def Let_def)
  have k: "k \<le> TX_RING_SIZE" by (simp add: k_def)
  have r: "\<exists>d'. tx_inv base d' (s\<lparr>dev := e2\<lparr>osem := osem e2 + n\<rparr>\<rparr>)" if reap: "tx_reap 0 ?e = Some (n, e2)" for n e2
  proof (cases "k = TX_RING_SIZE")
    case True
    then have "txHead ?e = txTail ?e" using S(4,5) by (simp add: h_def)
    from tx_reap_full [OF this, of 0] that have "n = 0" "e2 = ?e" by simp_all
    then show ?thesis using inv by auto
  next
    case False
    have "tx_reap 0 ?e = Some (0 + d, ?e\<lparr>txHead := slot h d\<rparr>)"
      unfolding h_def by (rule tx_reap_spec [where k = k]) (use S I(2,4) k False in \<open>auto simp: h_def [symmetric]\<close>)
    then have n: "n = d" "e2 = ?e\<lparr>txHead := slot h d\<rparr>" using reap by simp_all
    let ?e' = "?e\<lparr>txHead := slot h d, osem := osem ?e + d\<rparr>"
    have k': "TX_RING_SIZE - (osem ?e + d) = k - d" by (simp add: k_def)
    have sl: "slot (slot h d) i = slot h (d + i)" for i by (simp only: slot_slot)
    have "tx_shape base ?e'" using I(1,2) k False
      by (auto simp: tx_shape_def sl k_def h_def [symmetric] simp del: mod_add_left_eq)
    moreover have "owned (txRing ?e ! slot h (d + i)) \<longleftrightarrow> i < k - d" if "i < TX_RING_SIZE" for i
    proof (cases "d + i < TX_RING_SIZE")
      case True
      then show ?thesis using I(4) by auto
    next
      case F: False
      then obtain j where j: "d + i = TX_RING_SIZE + j" by (metis le_Suc_ex not_less)
      then have "slot h (d + i) = slot h j" by (metis add.assoc add.commute mod_add_self2)
      moreover have "j < d" "j < TX_RING_SIZE" "\<not> i < k - d" using j that k I(2) by simp_all
      ultimately show ?thesis using I(4) [of j] by simp
    qed
    moreover have "given s = wire s @ map (\<lambda>i. tx_frame ?e ?m (slot h (d + i))) [0..<k - d]"
    proof -
      have "map (\<lambda>i. tx_frame ?e ?m (slot h (d + i))) [0..<k - d] = map (\<lambda>i. tx_frame ?e ?m (slot h i)) [d..<k]"
        by (rule nth_equalityI) auto
      then show ?thesis using I(7) by simp
    qed
    moreover have "unat (t_buf1size (txRing ?e ! slot h (d + i))) \<le> NETPACKET_SIZE \<and>
        (ends_ring (txRing ?e ! slot h (d + i)) \<longleftrightarrow> slot h (d + i) = TX_RING_SIZE - 1)" if "i < k - d" for i
      using I(5,6) [of "d + i"] that by simp
    ultimately have "tx_inv base 0 (s\<lparr>dev := ?e'\<rparr>)"
      using I(3) by (simp add: tx_inv_def Let_def k' sl tx_frame_def del: mod_add_left_eq)
    then show ?thesis unfolding n by auto
  qed
  from eh show ?thesis
  proof (rule ethhandler_tx)
    fix e1 i j assume "e' = e1\<lparr>rxTail := i, isem := j\<rparr>" "e1 = ?e \<or> (\<exists>n e2. tx_reap 0 ?e = Some (n, e2) \<and> e1 = e2\<lparr>osem := osem e2 + n\<rparr>)"
    then show ?thesis using r inv by (auto simp: rx)
  qed
qed

lemma tx_steps_inv: "tx_steps base s s' \<Longrightarrow> tx_inv base d s \<Longrightarrow> \<exists>d'. tx_inv base d' s'"
proof (induction rule: tx_steps.induct)
  case (tx_steps_more s s' s'')
  then obtain d where d: "tx_inv base d s'" by blast
  from tx_steps_more.hyps(2) show ?case
  proof cases
    case (tx_put buf len r e' m')
    then show ?thesis using tx_put_inv [OF d] by blast
  next
    case (tx_emit c)
    then show ?thesis using tx_emit_inv [OF d] by blast
  next
    case (tx_interrupt sr e')
    then show ?thesis using tx_interrupt_inv [OF d] by blast
  next
    case (tx_elsewhere m')
    note I = tx_invD [OF d HOL.refl HOL.refl]
    let ?e = "dev s'"
    have "tx_frame ?e m' i = tx_frame ?e (memory s') i" if "i < TX_RING_SIZE" "unat (t_buf1size (txRing ?e ! i)) \<le> NETPACKET_SIZE" for i
    proof -
      have "Suc i * NETPACKET_SIZE \<le> TX_RING_SIZE * NETPACKET_SIZE" using that(1) by (intro mult_le_mono1) simp
      then have "t_buffer1 (txRing ?e ! i) + x \<in> tx_area base" if "x < unat (t_buf1size (txRing ?e ! i))" for x
        using tx_shapeD(6) [OF I(1) \<open>i < TX_RING_SIZE\<close>] \<open>unat _ \<le> _\<close> that by (simp add: tx_area_def)
      then show ?thesis using tx_elsewhere(2) by (auto simp: tx_frame_def list_eq_iff_nth_eq)
    qed
    then have "map (\<lambda>i. tx_frame ?e m' (slot (txHead ?e) i)) [d..<TX_RING_SIZE - osem ?e] =
        map (\<lambda>i. tx_frame ?e (memory s') (slot (txHead ?e) i)) [d..<TX_RING_SIZE - osem ?e]"
      using I(5) by (auto intro!: map_cong)
    then have "tx_inv base d s''" using d unfolding tx_elsewhere(1) by (simp add: tx_inv_def Let_def)
    then show ?thesis by blast
  qed
qed blast

text \<open>With no token left the head and the tail are equal, and the handler has nothing to return.\<close>

lemma tx_full_steps:
  "tx_steps base s s' \<Longrightarrow> tx_inv base d s \<Longrightarrow> osem (dev s) = 0 \<Longrightarrow> osem (dev s') = 0 \<and> given s' = given s"
proof (induction rule: tx_steps.induct)
  case (tx_steps_more s s1 s2)
  then have z: "osem (dev s1) = 0" "given s1 = given s" by blast+
  obtain d1 where d1: "tx_inv base d1 s1" using tx_steps_inv tx_steps_more by blast
  note S = tx_shapeD [OF tx_invD(1) [OF d1 HOL.refl HOL.refl]]
  have full: "txHead (dev s1) = txTail (dev s1)" using S(4,5) z(1) by simp
  from tx_steps_more.hyps(2) show ?case
  proof cases
    case (tx_put buf len r e' m')
    then show ?thesis using z(1) by (simp add: ethwrite_ring_def Let_def)
  next
    case (tx_emit c)
    then show ?thesis using z by (simp add: upd_tx_def)
  next
    case (tx_interrupt sr e')
    from tx_interrupt(2) have "osem e' = 0"
      by (rule ethhandler_tx) (use z(1) tx_reap_full [OF full, of 0] in auto)
    then show ?thesis using z tx_interrupt(1) by simp
  next
    case (tx_elsewhere m')
    then show ?thesis using z by simp
  qed
qed blast

text \<open>C13: The transmit ring is a queue of frames. Whatever writers, the interrupt handler, the engine and other
  code do, the frames on the wire are those that were written, byte for byte and in the same order, up to at
  most 64 that are still in the ring; no frame is sent twice or overwritten before it was sent.\<close>

theorem transmit_ring_fifo:
  assumes "tx_steps (align4 txbufs) (tx_start txbufs rxbufs c m) s"
  shows "\<exists>pending. given s = wire s @ pending \<and> length pending + osem (dev s) \<le> TX_RING_SIZE"
proof -
  obtain d where d: "tx_inv (align4 txbufs) d s" using tx_steps_inv [OF assms tx_start_inv] by blast
  note I = tx_invD [OF d HOL.refl HOL.refl]
  have "length [d..<TX_RING_SIZE - osem (dev s)] + osem (dev s) \<le> TX_RING_SIZE"
    using tx_shapeD(3) [OF I(1)] by simp
  then show ?thesis using I(7) by (metis length_map)
qed

text \<open>C37: A full transmit ring is never used again. When the last token is taken the tail has reached the head, the
  interrupt handler takes that for an empty ring and returns no token even after the engine has sent all 64
  frames: from then on every call of \<^verbatim>\<open>ethwrite\<close> waits for ever.\<close>

theorem full_transmit_ring_stays_full:
  assumes "tx_steps (align4 txbufs) (tx_start txbufs rxbufs c m) s" "osem (dev s) = 0" "tx_steps (align4 txbufs) s s'"
  shows "osem (dev s') = 0 \<and> given s' = given s \<and> ethwrite_ring buf len (dev s', memory s') = Inl Blocked"
proof -
  obtain d where d: "tx_inv (align4 txbufs) d s" using tx_steps_inv [OF assms(1) tx_start_inv] by blast
  from tx_full_steps [OF assms(3) this assms(2)] show ?thesis by (simp add: ethwrite_ring_def Let_def)
qed

lemma tx_fill:
  "n \<le> TX_RING_SIZE \<Longrightarrow> \<exists>s. tx_steps (align4 txbufs) (tx_start txbufs rxbufs c m) s \<and> osem (dev s) = TX_RING_SIZE - n \<and> length (given s) = n"
proof (induction n)
  case 0
  have "osem (dev (tx_start txbufs rxbufs c m)) = TX_RING_SIZE" "given (tx_start txbufs rxbufs c m) = []"
    by (simp_all add: tx_start_def eth_rings_init_def)
  then show ?case using tx_steps_none by (metis list.size(3) minus_nat.diff_0)
next
  case (Suc n)
  let ?base = "align4 txbufs"
  obtain s where s: "tx_steps ?base (tx_start txbufs rxbufs c m) s" "osem (dev s) = TX_RING_SIZE - n" "length (given s) = n"
    using Suc by auto
  obtain d where d: "tx_inv ?base d s" using tx_steps_inv [OF s(1) tx_start_inv] by blast
  note I = tx_invD [OF d HOL.refl HOL.refl]
  note S = tx_shapeD [OF I(1)]
  let ?buf = "?base + TX_RING_SIZE * NETPACKET_SIZE"
  have os: "osem (dev s) \<noteq> 0" using s(2) Suc.prems by simp
  have t: "txTail (dev s) < TX_RING_SIZE" using S(5) by simp
  then have "txTail (dev s) * NETPACKET_SIZE \<le> TX_RING_SIZE * NETPACKET_SIZE" by (intro mult_le_mono1) simp
  then obtain e' m' where w: "ethwrite_ring ?buf (int 0) (dev s, memory s) = Inr (OK, e', m')" "osem e' = osem (dev s) - 1"
    using ethwrite_ring_spec [OF os, of 0 _ ?buf "memory s"] t S(1) S(6) [OF t] by (simp add: upd_tx_def)
  have dis: "{?buf..<?buf + max 9 0} \<inter> tx_area ?base = {}" by (auto simp: tx_area_def)
  let ?s = "s\<lparr>dev := e', memory := m', given := given s @ [eth_frame (memory s) ?buf 0]\<rparr>"
  from tx_step.tx_put [OF w(1) _ dis] have "tx_step ?base s ?s" by simp
  from tx_steps_more [OF s(1) this] show ?case using w(2) s by (intro exI [of _ ?s]) simp
qed

theorem transmit_ring_fifo_witness:
  "\<exists>s pending. tx_steps (align4 4096) (tx_start 4096 131072 eth_boot (\<lambda>_. 0)) s \<and> length (given s) = 3 \<and>
     given s = wire s @ pending \<and> length pending + osem (dev s) \<le> TX_RING_SIZE"
proof -
  have "3 \<le> TX_RING_SIZE" by (simp add: tx_consts)
  from tx_fill [OF this] obtain s where s: "tx_steps (align4 4096) (tx_start 4096 131072 eth_boot (\<lambda>_. 0)) s" "length (given s) = 3"
    by blast
  with transmit_ring_fifo [OF s(1)] show ?thesis by blast
qed

theorem full_transmit_ring_stays_full_witness:
  "\<exists>s. tx_steps (align4 4096) (tx_start 4096 131072 eth_boot (\<lambda>_. 0)) s \<and> length (given s) = 64 \<and>
     ethwrite_ring 0 60 (dev s, memory s) = Inl Blocked"
proof -
  obtain s where s: "tx_steps (align4 4096) (tx_start 4096 131072 eth_boot (\<lambda>_. 0)) s" "osem (dev s) = 0" "length (given s) = 64"
    using tx_fill [of TX_RING_SIZE 4096 131072 eth_boot "\<lambda>_. 0"] by (auto simp: tx_consts)
  with full_transmit_ring_stays_full [OF s(1,2) tx_steps_none] show ?thesis by blast
qed

section \<open>The receive ring\<close>

abbreviation rslot :: "nat \<Rightarrow> nat \<Rightarrow> nat" where
  "rslot h i \<equiv> (h + i) mod RX_RING_SIZE"

lemma rx_consts: "RX_RING_SIZE = 128" "ETH_BUF_SIZE = 1522"
  by (simp_all add: RX_RING_SIZE_def ETH_BUF_SIZE_def)

lemma rslot_less [simp]: "rslot h i < RX_RING_SIZE"
  by (simp add: rx_consts)

lemma rslot_inj: "i < RX_RING_SIZE \<Longrightarrow> j < RX_RING_SIZE \<Longrightarrow> rslot h i = rslot h j \<Longrightarrow> i = j"
  by (rule ring_mod_inj)

lemma rslot_Suc: "h < RX_RING_SIZE \<Longrightarrow> (if h + 1 \<ge> RX_RING_SIZE then 0 else h + 1) = rslot h 1"
  by (cases "h = 127") (auto simp: rx_consts)

lemma rslot_rslot: "rslot (rslot h i) j = rslot h (i + j)"
  by (simp add: mod_simps add.assoc)

definition rx_owned :: "rx_desc \<Rightarrow> bool" where
  "rx_owned r \<longleftrightarrow> r_status r AND RDST_OWN \<noteq> 0"

lemma rx_reap_spec:
  assumes "rxRingSize e = RX_RING_SIZE" "rxTail e < RX_RING_SIZE" "n + d \<le> Suc RX_RING_SIZE"
    "\<forall>i < d. \<not> rx_owned (rxRing e ! rslot (rxTail e) i)"
    "n + d \<le> RX_RING_SIZE \<Longrightarrow> rx_owned (rxRing e ! rslot (rxTail e) d)"
  shows "rx_reap n e = (n + d, e\<lparr>rxTail := rslot (rxTail e) d\<rparr>)"
  using assms
proof (induction d arbitrary: n e)
  case 0
  then show ?case by (subst rx_reap.simps) (auto simp: rx_owned_def)
next
  case (Suc d)
  let ?t = "rxTail e"
  let ?e = "e\<lparr>rxTail := rslot ?t 1\<rparr>"
  have own: "r_status (rxRing e ! ?t) AND RDST_OWN = 0" using Suc.prems(2,4) by (force simp: rx_owned_def)
  have nx: "(if rxTail e + 1 \<ge> rxRingSize e then 0 else rxTail e + 1) = rslot ?t 1"
    using rslot_Suc Suc.prems(1,2) by simp
  have le: "n \<le> rxRingSize e" using Suc.prems(1,3) by simp
  have "rx_reap n e = rx_reap (n + 1) ?e"
    by (subst rx_reap.simps) (simp only: le nx own simp_thms if_True if_False)
  also have "\<dots> = (n + 1 + d, ?e\<lparr>rxTail := rslot (rxTail ?e) d\<rparr>)"
  proof (rule Suc.IH)
    show "\<forall>i < d. \<not> rx_owned (rxRing ?e ! rslot (rxTail ?e) i)"
    proof (intro allI impI)
      fix i assume "i < d"
      then have "\<not> rx_owned (rxRing e ! rslot ?t (Suc i))" using Suc.prems(4) by blast
      then show "\<not> rx_owned (rxRing ?e ! rslot (rxTail ?e) i)" by (simp add: mod_simps)
    qed
    show "rx_owned (rxRing ?e ! rslot (rxTail ?e) d)" if "n + 1 + d \<le> RX_RING_SIZE"
      using Suc.prems(5) that by (simp add: mod_simps)
  qed (use Suc.prems in auto)
  finally show ?case by (simp add: mod_simps)
qed

definition rx_interrupt :: u32 where
  "rx_interrupt = SR_NIS OR SR_RI"

lemma rx_interrupt_handler:
  "ethhandler rx_interrupt e = (case rx_reap 0 e of (n, e) \<Rightarrow> Inr (e\<lparr>isem := isem e + n\<rparr>))"
  by (simp add: ethhandler_def rx_interrupt_def SR_NIS_def SR_RI_def SR_TI_def)

text \<open>The receive interrupt gives one token for each filled descriptor up to the first one of the engine, unless
  the engine owns none of the 128: then the loop, whose bound is off by one, counts the first descriptor twice, and
  the semaphore promises a frame that is not there.\<close>

theorem receive_interrupt_tokens:
  assumes "rxRingSize e = RX_RING_SIZE" "rxTail e < RX_RING_SIZE" "d \<le> RX_RING_SIZE"
    "\<forall>i < d. \<not> rx_owned (rxRing e ! rslot (rxTail e) i)"
    "d < RX_RING_SIZE \<Longrightarrow> rx_owned (rxRing e ! rslot (rxTail e) d)"
  shows "ethhandler rx_interrupt e =
    (let n = if d < RX_RING_SIZE then d else RX_RING_SIZE + 1
     in Inr (e\<lparr>rxTail := rslot (rxTail e) n, isem := isem e + n\<rparr>))"
proof (cases "d < RX_RING_SIZE")
  case True
  then show ?thesis using rx_reap_spec [of e 0 d] assms by (simp add: rx_interrupt_handler)
next
  case False
  then have d: "d = RX_RING_SIZE" using assms(3) by simp
  have "\<not> rx_owned (rxRing e ! rslot (rxTail e) i)" if "i < Suc RX_RING_SIZE" for i
  proof (cases "i = RX_RING_SIZE")
    case True
    then have "rslot (rxTail e) i = rslot (rxTail e) 0" by simp
    then show ?thesis using assms(4) d by (metis length_greater_0_conv rslot_less gr_zeroI not_less_zero)
  qed (use assms(4) d that in auto)
  then show ?thesis using rx_reap_spec [of e 0 "Suc RX_RING_SIZE"] assms(1,2) d by (simp add: rx_interrupt_handler)
qed

definition filled_dev :: eth_dev where
  "filled_dev = (eth_rings_init 4096 131072 eth_boot)\<lparr>rxRing := map (\<lambda>i. \<lparr>r_status = 0, r_buf1size = 0, r_buffer1 = i\<rparr>) [0..<128]\<rparr>"

theorem receive_interrupt_tokens_witness:
  "\<exists>e'. ethhandler rx_interrupt filled_dev = Inr e' \<and> isem e' = 129"
  using receive_interrupt_tokens [of filled_dev RX_RING_SIZE]
  by (simp add: filled_dev_def eth_rings_init_def rx_owned_def Let_def rx_consts)

text \<open>The buffers lie closer together than the engine may fill them.\<close>

lemma receive_buffers_overlap:
  assumes "Suc i < RX_RING_SIZE"
  shows "let ring = rxRing (eth_rings_init txbufs rxbufs c)
    in r_buffer1 (ring ! Suc i) < r_buffer1 (ring ! i) + unat (r_buf1size (ring ! i))"
  using assms by (simp add: eth_rings_init_def rx_consts NETPACKET_SIZE_def nth_append)

section \<open>Reading frames\<close>

text \<open>Descriptor \<open>i\<close> holds the frame \<open>f\<close> in one segment.\<close>

definition rx_holds :: "eth_dev \<Rightarrow> mem \<Rightarrow> nat \<Rightarrow> byte list \<Rightarrow> bool" where
  "rx_holds e m i f \<longleftrightarrow> (let r = rxRing e ! i in
     r_status r AND RDST_FS \<noteq> 0 \<and> r_status r AND RDST_LS \<noteq> 0 \<and>
     uint (drop_bit 16 (r_status r) AND 0x3FFF) = int (length f) \<and> bytes m (r_buffer1 r) (length f) = f)"

definition give_back :: "nat \<Rightarrow> eth_dev \<Rightarrow> eth_dev" where
  "give_back i = upd_rx i (\<lambda>r. r\<lparr>r_buf1size := of_nat ETH_BUF_SIZE OR (if i = RX_RING_SIZE - 1 then RDCTL1_RER else 0), r_status := RDST_OWN\<rparr>)"

lemma rx_release_eq:
  assumes "rxHead e < RX_RING_SIZE" "length (rxRing e) = RX_RING_SIZE"
  shows "rx_release e = give_back (rxHead e) (e\<lparr>rxHead := rslot (rxHead e) 1\<rparr>)"
proof (cases "rxHead e = 127")
  case True
  then show ?thesis using assms(2) by (simp add: rx_release_def give_back_def upd_rx_def rx_consts)
next
  case False
  then have "rxHead e < 127" using assms(1) by (simp add: rx_consts)
  then show ?thesis using assms(2) by (simp add: rx_release_def give_back_def upd_rx_def rx_consts Let_def)
qed

lemma ethread_iter_frame:
  assumes "rx_holds e m (rxHead e) f" "rxHead e < RX_RING_SIZE" "length (rxRing e) = RX_RING_SIZE" "6 \<le> length f" "6 \<le> len"
  shows "\<exists>l'. ethread_iter buf (int len) (l, e, m) =
      (l', give_back (rxHead e) (e\<lparr>isem := isem e - 1, rxHead := rslot (rxHead e) 1\<rparr>), wr_bytes m buf (take len f)) \<and>
    framelen l' = int (length f) \<and> accepted l' = valid_addr (mc e) (take 6 f)"
proof -
  let ?r = "rxRing e ! rxHead e"
  let ?n = "min (length f) len"
  have r: "r_status ?r AND RDST_FS \<noteq> 0" "r_status ?r AND RDST_LS \<noteq> 0"
    "uint (drop_bit 16 (r_status ?r) AND 0x3FFF) = int (length f)" "bytes m (r_buffer1 ?r) (length f) = f"
    using assms(1) by (simp_all add: rx_holds_def Let_def)
  let ?l = "l\<lparr>cptr := buf, seglen := int (length f), framelen := int (length f), copylen := int ?n\<rparr>"
  have cp: "bytes m (r_buffer1 ?r) ?n = take len f"
  proof -
    have "bytes m (r_buffer1 ?r) ?n = take len (bytes m (r_buffer1 ?r) (length f))" by (simp add: take_bytes min.commute)
    then show ?thesis using r(4) by simp
  qed
  have ne: "f \<noteq> []" "0 < len" using assms(4,5) by auto
  have nn: "nat (int len) = len" "take len f = f" if "length f \<le> len" for len using that by simp_all
  have dst: "bytes (wr_bytes m buf (take len f)) buf 6 = take 6 f"
    using assms(4,5) by (subst bytes_wr_inside) (simp_all add: min_def)
  have rel: "rx_release (e\<lparr>isem := isem e - 1\<rparr>) = give_back (rxHead e) (e\<lparr>isem := isem e - 1, rxHead := rslot (rxHead e) 1\<rparr>)"
    using rx_release_eq [of "e\<lparr>isem := isem e - 1\<rparr>"] assms(2,3) by simp
  have cp': "bytes m (r_buffer1 ?r) len = take len f" if "len < length f" using cp that by (simp add: min_def)
  have lv: "rxRing (e\<lparr>isem := x\<rparr>) = rxRing e" "rxHead (e\<lparr>isem := x\<rparr>) = rxHead e" "mc (e\<lparr>isem := x\<rparr>) = mc e" for x by simp_all
  show ?thesis
    unfolding ethread_iter_def prod.case
    using ne cp' dst rel nn by (cases "len < length f") (simp_all add: Let_def lv r(3,4) eqTrueI [OF r(1)] eqTrueI [OF r(2)])
qed

text \<open>The frames \<open>fs\<close> are in the ring, counted by the semaphore, and apart from the caller's buffer.\<close>

definition rx_queue :: "nat \<Rightarrow> nat \<Rightarrow> eth_dev \<Rightarrow> mem \<Rightarrow> byte list list \<Rightarrow> bool" where
  "rx_queue buf len e m fs \<longleftrightarrow> length (rxRing e) = RX_RING_SIZE \<and> rxHead e < RX_RING_SIZE \<and> isem e = length fs \<and>
     length fs \<le> RX_RING_SIZE \<and>
     (\<forall>i < length fs. rx_holds e m (rslot (rxHead e) i) (fs ! i) \<and> 6 \<le> length (fs ! i) \<and>
        (let b = r_buffer1 (rxRing e ! rslot (rxHead e) i) in b + length (fs ! i) \<le> buf \<or> buf + len \<le> b))"

lemma rx_queue_step:
  assumes q: "rx_queue buf len e m (f # fs)" and len: "6 \<le> len"
  shows "\<exists>l' e' m'. ethread_iter buf (int len) (l, e, m) = (l', e', m') \<and> m' = wr_bytes m buf (take len f) \<and> mc e' = mc e \<and>
    framelen l' = int (length f) \<and> accepted l' = valid_addr (mc e) (take 6 f) \<and> rx_queue buf len e' m' fs \<and>
    e' = give_back (rxHead e) (e\<lparr>isem := isem e - 1, rxHead := rslot (rxHead e) 1\<rparr>)"
proof -
  let ?h = "rxHead e"
  let ?e = "e\<lparr>isem := isem e - 1, rxHead := rslot ?h 1\<rparr>"
  have s: "length (rxRing e) = RX_RING_SIZE" "?h < RX_RING_SIZE" "isem e = Suc (length fs)" "Suc (length fs) \<le> RX_RING_SIZE"
    using q by (simp_all add: rx_queue_def)
  have el: "rx_holds e m (rslot ?h i) ((f # fs) ! i)" "6 \<le> length ((f # fs) ! i)"
    "r_buffer1 (rxRing e ! rslot ?h i) + length ((f # fs) ! i) \<le> buf \<or> buf + len \<le> r_buffer1 (rxRing e ! rslot ?h i)"
    if "i < Suc (length fs)" for i
    using q that by (simp_all add: rx_queue_def Let_def del: mod_add_left_eq)
  have f: "rx_holds e m ?h f" "6 \<le> length f" using el(1,2) [of 0] s(2) by simp_all
  obtain l' where l': "ethread_iter buf (int len) (l, e, m) = (l', give_back ?h ?e, wr_bytes m buf (take len f))"
    "framelen l' = int (length f)" "accepted l' = valid_addr (mc e) (take 6 f)"
    using ethread_iter_frame [OF f(1) s(2,1) f(2) len] by blast
  have "rx_queue buf len (give_back ?h ?e) (wr_bytes m buf (take len f)) fs"
  proof -
    have ring: "rxRing (give_back ?h ?e) ! rslot ?h (Suc i) = rxRing e ! rslot ?h (Suc i)" if "i < length fs" for i
    proof -
      have "rslot ?h (Suc i) \<noteq> rslot ?h 0"
      proof
        assume "rslot ?h (Suc i) = rslot ?h 0"
        moreover have "Suc i < RX_RING_SIZE" "0 < RX_RING_SIZE" using that s(4) by simp_all
        ultimately show False using rslot_inj by blast
      qed
      then have "rslot ?h (Suc i) \<noteq> ?h" using s(2) by simp
      then show ?thesis by (simp add: give_back_def upd_rx_def)
    qed
    have "rx_holds (give_back ?h ?e) (wr_bytes m buf (take len f)) (rslot ?h (Suc i)) (fs ! i)" if "i < length fs" for i
    proof -
      let ?b = "r_buffer1 (rxRing e ! rslot ?h (Suc i))"
      have "?b + length (fs ! i) \<le> buf \<or> buf + length (take len f) \<le> ?b" using el(3) [of "Suc i"] that by auto
      then have "bytes (wr_bytes m buf (take len f)) ?b (length (fs ! i)) = bytes m ?b (length (fs ! i))"
        by (rule bytes_wr_disjoint)
      then show ?thesis using el(1) [of "Suc i"] that ring [OF that] by (simp add: rx_holds_def Let_def)
    qed
    moreover have "rslot (rslot ?h 1) i = rslot ?h (Suc i)" for i by (simp only: rslot_rslot) simp
    moreover have "rxHead (give_back ?h ?e) = rslot ?h 1" "isem (give_back ?h ?e) = length fs"
      "length (rxRing (give_back ?h ?e)) = RX_RING_SIZE" using s by (simp_all add: give_back_def upd_rx_def)
    ultimately show ?thesis
      unfolding rx_queue_def using s(4) el(2) [of "Suc _"] el(3) [of "Suc _"] ring rslot_less by (simp add: Let_def del: mod_add_left_eq)
  qed
  moreover have "mc (give_back ?h ?e) = mc e" by (simp add: give_back_def upd_rx_def)
  ultimately show ?thesis using l' by blast
qed

text \<open>The first \<open>n\<close> descriptors from the head have been given back to the engine, empty and with their full size, the head
  has moved past them, and the others are as they were.\<close>

definition given_back :: "eth_dev \<Rightarrow> nat \<Rightarrow> eth_dev \<Rightarrow> bool" where
  "given_back e n e' \<longleftrightarrow> rxHead e' = rslot (rxHead e) n \<and>
     (\<forall>i < RX_RING_SIZE. let d = rslot (rxHead e) i in rxRing e' ! d =
       (if i < n then (rxRing e ! d)\<lparr>r_buf1size := of_nat ETH_BUF_SIZE OR (if d = RX_RING_SIZE - 1 then RDCTL1_RER else 0), r_status := RDST_OWN\<rparr>
        else rxRing e ! d))"

lemma given_back_0: "rxHead e < RX_RING_SIZE \<Longrightarrow> given_back e 0 e"
  by (simp add: given_back_def)

lemma given_back_Suc:
  assumes "length (rxRing e) = RX_RING_SIZE" "rxHead e < RX_RING_SIZE" "n < RX_RING_SIZE"
    and step: "given_back (give_back (rxHead e) (e\<lparr>isem := x, rxHead := rslot (rxHead e) 1\<rparr>)) n e'"
  shows "given_back e (Suc n) e'"
proof -
  let ?h = "rxHead e"
  let ?d = "(rxRing e ! ?h)\<lparr>r_buf1size := of_nat ETH_BUF_SIZE OR (if ?h = RX_RING_SIZE - 1 then RDCTL1_RER else 0), r_status := RDST_OWN\<rparr>"
  define E where "E = give_back ?h (e\<lparr>isem := x, rxHead := rslot ?h 1\<rparr>)"
  have r: "rxRing E = (rxRing e)[?h := ?d]" "rxHead E = rslot ?h 1" by (simp_all add: E_def give_back_def upd_rx_def)
  have S: "rxHead e' = rslot (rslot ?h 1) n" "rxRing e' ! rslot (rslot ?h 1) j =
      (if j < n then (rxRing E ! rslot (rslot ?h 1) j)\<lparr>r_buf1size := of_nat ETH_BUF_SIZE OR
         (if rslot (rslot ?h 1) j = RX_RING_SIZE - 1 then RDCTL1_RER else 0), r_status := RDST_OWN\<rparr>
       else rxRing E ! rslot (rslot ?h 1) j)" if "j < RX_RING_SIZE" for j
    using step [folded E_def] that unfolding given_back_def r(2) Let_def by blast+
  have one: "rslot (rslot ?h 1) j = rslot ?h (Suc j)" for j by (simp only: rslot_rslot) simp
  have "rxRing e' ! rslot ?h i = (if i < Suc n then (rxRing e ! rslot ?h i)\<lparr>r_buf1size := of_nat ETH_BUF_SIZE OR
       (if rslot ?h i = RX_RING_SIZE - 1 then RDCTL1_RER else 0), r_status := RDST_OWN\<rparr> else rxRing e ! rslot ?h i)"
    if i: "i < RX_RING_SIZE" for i
  proof (cases i)
    case 0
    have last: "RX_RING_SIZE - 1 < RX_RING_SIZE" by (simp add: rx_consts)
    have "rslot (rslot ?h 1) (RX_RING_SIZE - 1) = ?h" using assms(2) unfolding one by (simp add: rx_consts)
    then have "rxRing e' ! ?h = ?d" using S(2) [OF last] assms(1-3) by (auto simp: r(1))
    then show ?thesis using 0 assms(2) by simp
  next
    case (Suc j)
    have "rslot ?h (Suc j) \<noteq> rslot ?h 0"
    proof
      assume "rslot ?h (Suc j) = rslot ?h 0"
      moreover have "Suc j < RX_RING_SIZE" "0 < RX_RING_SIZE" using i Suc by simp_all
      ultimately show False using rslot_inj by blast
    qed
    then have "rxRing E ! rslot ?h (Suc j) = rxRing e ! rslot ?h (Suc j)" using assms(2) by (simp add: r(1))
    then show ?thesis using S(2) [of j] i Suc unfolding one by simp
  qed
  moreover have "rxHead e' = rslot ?h (Suc n)" using S(1) [OF assms(3)] one by simp
  ultimately show ?thesis unfolding given_back_def Let_def by blast
qed

lemma ethread_loop_frames:
  assumes "rx_queue buf len e m fs" "6 \<le> len"
  shows "\<exists>r l' e' m'. ethread_loop buf (int len) (l, e, m) = (r, l', e', m') \<and> (\<forall>x. x < buf \<or> buf + len \<le> x \<longrightarrow> m' x = m x) \<and>
    (case dropWhile (\<lambda>f. \<not> valid_addr (mc e) (take 6 f)) fs of
       [] \<Rightarrow> r = None \<and> rx_queue buf len e' m' [] \<and> given_back e (length fs) e'
     | f # rest \<Rightarrow> r = Some (int (min (length f) len)) \<and> bytes m' buf (min (length f) len) = take len f \<and>
         rx_queue buf len e' m' rest \<and> given_back e (length fs - length rest) e')"
  using assms(1)
proof (induction fs arbitrary: l e m)
  case Nil
  then have "ethread_loop buf (int len) (l, e, m) = (None, l, e, m)" by (subst ethread_loop.simps) (simp add: rx_queue_def)
  then show ?case using Nil given_back_0 [of e] by (simp add: rx_queue_def)
next
  case (Cons f fs)
  obtain l1 e1 m1 where it: "ethread_iter buf (int len) (l, e, m) = (l1, e1, m1)" "m1 = wr_bytes m buf (take len f)" "mc e1 = mc e"
    "framelen l1 = int (length f)" "accepted l1 = valid_addr (mc e) (take 6 f)" "rx_queue buf len e1 m1 fs"
    "e1 = give_back (rxHead e) (e\<lparr>isem := isem e - 1, rxHead := rslot (rxHead e) 1\<rparr>)"
    using rx_queue_step [OF Cons.prems assms(2)] by blast
  have sem: "isem e \<noteq> 0" using Cons.prems by (simp add: rx_queue_def)
  have gb: "given_back e (Suc n) e'" if "given_back e1 n e'" "n \<le> length fs" for n e'
    using given_back_Suc [of e n "isem e - 1" e'] that Cons.prems it(7) by (simp add: rx_queue_def)
  have out: "m1 x = m x" if "x < buf \<or> buf + len \<le> x" for x using that by (auto simp: it(2) wr_bytes_def)
  show ?case
  proof (cases "valid_addr (mc e) (take 6 f)")
    case True
    then have "ethread_loop buf (int len) (l, e, m) = (Some (int (min (length f) len)), l1, e1, m1)"
      using it sem by (subst ethread_loop.simps) (simp add: min_def)
    moreover have "bytes m1 buf (min (length f) len) = take len f" by (simp add: it(2) bytes_wr_same min.commute)
    moreover have "given_back e1 0 e1" using it(6) by (intro given_back_0) (simp add: rx_queue_def)
    ultimately show ?thesis using True it(6) out gb [of 0 e1] by simp
  next
    case False
    then have "ethread_loop buf (int len) (l, e, m) = ethread_loop buf (int len) (l1, e1, m1)"
      using it sem by (subst ethread_loop.simps) simp
    moreover obtain r l' e' m' where ih: "ethread_loop buf (int len) (l1, e1, m1) = (r, l', e', m')"
      "\<forall>x. x < buf \<or> buf + len \<le> x \<longrightarrow> m' x = m1 x"
      "case dropWhile (\<lambda>f. \<not> valid_addr (mc e) (take 6 f)) fs of
         [] \<Rightarrow> r = None \<and> rx_queue buf len e' m' [] \<and> given_back e1 (length fs) e'
       | f # rest \<Rightarrow> r = Some (int (min (length f) len)) \<and> bytes m' buf (min (length f) len) = take len f \<and>
           rx_queue buf len e' m' rest \<and> given_back e1 (length fs - length rest) e'"
      using Cons.IH [OF it(6), of l1] unfolding it(3) by blast
    moreover have d: "dropWhile (\<lambda>f. \<not> valid_addr (mc e) (take 6 f)) (f # fs) = dropWhile (\<lambda>f. \<not> valid_addr (mc e) (take 6 f)) fs"
      using False by simp
    ultimately show ?thesis
    proof (cases "dropWhile (\<lambda>f. \<not> valid_addr (mc e) (take 6 f)) fs")
      case Nil
      show ?thesis
        using \<open>ethread_loop buf (int len) (l, e, m) = _\<close> ih(1,2) ih(3) [unfolded Nil list.case] out gb [of "length fs" e']
        unfolding d Nil list.case by simp
    next
      case (Cons g rest)
      then have "length rest < length fs" using length_dropWhile_le [of "\<lambda>f. \<not> valid_addr (mc e) (take 6 f)" fs] by simp
      then show ?thesis
        using \<open>ethread_loop buf (int len) (l, e, m) = _\<close> ih(1,2) ih(3) [unfolded Cons list.case] out gb [of "length fs - length rest" e']
        unfolding d Cons list.case by (simp add: Suc_diff_le less_imp_le)
    qed
  qed
qed

text \<open>C33: \<^verbatim>\<open>ethread\<close> delivers the oldest frame in the ring that is addressed to the station, to all, or to a registered
  multicast address; it passes over the others, waits when none is left, copies no more than the caller's buffer
  holds, changes no other memory and leaves the later frames in the ring. The descriptors of the frame and of those
  passed over, and only they, are given back to the engine: owned by it, with their full size and the end-of-ring mark
  on the last one.\<close>

theorem ethread_delivers:
  assumes "rx_queue buf len e m fs" "6 \<le> len"
  shows "\<exists>r l' e' m'. ethread buf (int len) cptr0 accepted0 (e, m) = (r, l', e', m') \<and>
    (\<forall>x. x < buf \<or> buf + len \<le> x \<longrightarrow> m' x = m x) \<and>
    (case dropWhile (\<lambda>f. \<not> valid_addr (mc e) (take 6 f)) fs of
       [] \<Rightarrow> r = None \<and> rx_queue buf len e' m' [] \<and> given_back e (length fs) e'
     | f # rest \<Rightarrow> r = Some (int (min (length f) len)) \<and> bytes m' buf (min (length f) len) = take len f \<and>
         rx_queue buf len e' m' rest \<and> given_back e (length fs - length rest) e')"
  unfolding ethread_def prod.case by (rule ethread_loop_frames [OF assms])

definition one_frame :: "eth_dev \<times> mem" where
  "one_frame =
     ((eth_rings_init 4096 131072 eth_boot)\<lparr>rxRing := (rxRing (eth_rings_init 4096 131072 eth_boot))
          [0 := \<lparr>r_status = 0x003C0300, r_buf1size = 1522, r_buffer1 = 131072\<rparr>], isem := 1\<rparr>,
      wr_bytes (\<lambda>_. 0) 131072 (replicate 6 0xFF @ replicate 54 7))"

theorem ethread_delivers_witness:
  "\<exists>l' e' m'. ethread 1000 1520 0 False one_frame = (Some 60, l', e', m') \<and> bytes m' 1000 60 = replicate 6 0xFF @ replicate 54 7"
proof -
  obtain e m where em: "one_frame = (e, m)" by fastforce
  have "rx_queue 1000 1520 e m [replicate 6 0xFF @ replicate 54 7]"
    using em by (auto simp: rx_queue_def one_frame_def eth_rings_init_def rx_consts rx_holds_def RDST_FS_def RDST_LS_def bytes_wr_same)
  note q = ethread_delivers [OF this, of 0 False]
  have "take 6 (replicate 6 0xFF @ replicate 54 (7 :: byte)) = replicate 6 0xFF" by simp
  then have "valid_addr (mc e) (take 6 (replicate 6 0xFF @ replicate 54 7))" by (simp only: valid_addr_def simp_thms if_True if_cancel)
  with q show ?thesis unfolding em by (auto simp del: take_append)
qed

end
