(* ===== verification/Tty.thy ===== *)
theory Tty
  imports Net_Prelude Fifo
begin

text \<open>
  The serial line driver (\<^verbatim>\<open>device/tty/*.c\<close>): the interrupt side \<^verbatim>\<open>ttyhandle_in\<close> with line editing and echo,
  \<^verbatim>\<open>ttyhandle_out\<close> and \<^verbatim>\<open>ttyhandler\<close>, and the calls \<^verbatim>\<open>ttygetc\<close>, \<^verbatim>\<open>ttyputc\<close>, \<^verbatim>\<open>ttyread\<close>, \<^verbatim>\<open>ttywrite\<close>, \<^verbatim>\<open>ttycontrol\<close>.
  Pointers into the three buffers are indices. The semaphores are counts with the effect the theory \<^verbatim>\<open>Semaphores\<close>
  proves of them; a call that has to wait is \<open>Blocked\<close>. Of the UART the model has the characters in its input FIFO,
  the characters given to its transmitter and its interrupt enable register.
\<close>

section \<open>State\<close>

definition TY_IBUFLEN :: nat where "TY_IBUFLEN = 128"
definition TY_OBUFLEN :: nat where "TY_OBUFLEN = 64"
definition TY_EBUFLEN :: nat where "TY_EBUFLEN = 20"
definition UART_FIFO_SIZE :: nat where "UART_FIFO_SIZE = 16"
definition TTY_EOF :: int where "TTY_EOF = -2"
definition tty_OK :: int where "tty_OK = 1"
definition tty_SYSERR :: int where "tty_SYSERR = -1"

datatype ty_mode = TY_IMRAW | TY_IMCOOKED | TY_IMCBREAK

definition TY_BACKSP :: byte where "TY_BACKSP = 8"
definition TY_BACKSP2 :: byte where "TY_BACKSP2 = 127"
definition TY_BELL :: byte where "TY_BELL = 7"
definition TY_EOFCH :: byte where "TY_EOFCH = 4"
definition TY_BLANK :: byte where "TY_BLANK = 32"
definition TY_NEWLINE :: byte where "TY_NEWLINE = 10"
definition TY_RETURN :: byte where "TY_RETURN = 13"
definition TY_STOPCH :: byte where "TY_STOPCH = 19"
definition TY_STRTCH :: byte where "TY_STRTCH = 17"
definition TY_KILLCH :: byte where "TY_KILLCH = 21"
definition TY_UPARROW :: byte where "TY_UPARROW = 94"

record uart =
  ier :: byte
  rx_fifo :: "byte list"
  tx_line :: "byte list"

record ttycblk =
  tyihead :: nat
  tyitail :: nat
  tyibuff :: "byte list"
  tyisem :: int
  tyohead :: nat
  tyotail :: nat
  tyobuff :: "byte list"
  tyosem :: int
  tyehead :: nat
  tyetail :: nat
  tyebuff :: "byte list"
  tyimode :: ty_mode
  tyiecho :: bool
  tyieback :: bool
  tyevis :: bool
  tyecrlf :: bool
  tyicrlf :: bool
  tyierase :: bool
  tyierasec :: byte
  tyierasec2 :: byte
  tyeof :: bool
  tyeofch :: byte
  tyikill :: bool
  tyikillc :: byte
  tyicursor :: nat
  tyoflow :: bool
  tyoheld :: bool
  tyostop :: byte
  tyostart :: byte
  tyocrlf :: bool
  tyifullc :: byte

type_synonym tty = "ttycblk \<times> uart"

definition ttykickout :: "uart \<Rightarrow> uart" where
  "ttykickout u = u\<lparr>ier := 0x03\<rparr>"

text \<open>The control block after \<^verbatim>\<open>ttyinit\<close>; the contents of the buffers are those of the static array.\<close>

definition ttyinit :: "ttycblk \<Rightarrow> ttycblk" where
  "ttyinit t = t\<lparr>tyihead := 0, tyitail := 0, tyisem := 0, tyohead := 0, tyotail := 0, tyosem := int TY_OBUFLEN,
     tyehead := 0, tyetail := 0, tyimode := TY_IMCOOKED, tyiecho := True, tyieback := True, tyevis := True, tyecrlf := True,
     tyicrlf := True, tyierase := True, tyierasec := TY_BACKSP, tyierasec2 := TY_BACKSP2, tyeof := True, tyeofch := TY_EOFCH,
     tyikill := True, tyikillc := TY_KILLCH, tyicursor := 0, tyoflow := True, tyoheld := False, tyostop := TY_STOPCH,
     tyostart := TY_STRTCH, tyocrlf := True, tyifullc := TY_BELL\<rparr>"

section \<open>Echo\<close>

definition eputc :: "byte \<Rightarrow> tty \<Rightarrow> tty" where
  "eputc ch = (\<lambda>(t, u).
     (t\<lparr>tyebuff := (tyebuff t)[tyetail t := ch], tyetail := if tyetail t + 1 \<ge> TY_EBUFLEN then 0 else tyetail t + 1\<rparr>,
      ttykickout u))"

text \<open>\<^verbatim>\<open>char\<close> is signed: codes from 128 on are below the blank.\<close>

definition nonprintable :: "byte \<Rightarrow> bool" where
  "nonprintable ch \<longleftrightarrow> sint ch < sint TY_BLANK \<or> ch = 127"

definition echoch :: "byte \<Rightarrow> tty \<Rightarrow> tty" where
  "echoch ch s =
     (if (ch = TY_NEWLINE \<or> ch = TY_RETURN) \<and> tyecrlf (fst s) then eputc TY_NEWLINE (eputc TY_RETURN s)
      else if nonprintable ch \<and> tyevis (fst s) then eputc (ch + 64) (eputc TY_UPARROW s)
      else eputc ch s)"

definition back_over :: "tty \<Rightarrow> tty" where
  "back_over s =
     (let s = eputc TY_BACKSP s in
      if tyieback (fst s) then eputc TY_BACKSP (eputc TY_BLANK s) else s)"

definition erase1 :: "tty \<Rightarrow> tty" where
  "erase1 = (\<lambda>(t, u).
     let t = t\<lparr>tyitail := if tyitail t = 0 then TY_IBUFLEN - 1 else tyitail t - 1\<rparr>;
         ch = tyibuff t ! tyitail t
     in if tyiecho t
        then if nonprintable ch
             then back_over (if tyevis t then back_over (t, u) else (t, u))
             else back_over (t, u)
        else (t, u))"

section \<open>Input interrupts\<close>

definition iavail :: "ttycblk \<Rightarrow> int" where
  "iavail t = (if tyisem t < 0 then 0 else tyisem t)"

text \<open>A character is stored at the tail; the wrap-around is a step of its own, which one path leaves out.\<close>

definition store_in :: "byte \<Rightarrow> tty \<Rightarrow> tty res" where
  "store_in ch = (\<lambda>(t, u).
     if tyitail t < TY_IBUFLEN then Inr (t\<lparr>tyibuff := (tyibuff t)[tyitail t := ch], tyitail := tyitail t + 1\<rparr>, u)
     else Inl Out_of_bounds)"

definition wrap_in :: "tty \<Rightarrow> tty" where
  "wrap_in = (\<lambda>(t, u). (t\<lparr>tyitail := if tyitail t \<ge> TY_IBUFLEN then 0 else tyitail t\<rparr>, u))"

definition upd_tty :: "(ttycblk \<Rightarrow> ttycblk) \<Rightarrow> tty \<Rightarrow> tty" where
  "upd_tty f = (\<lambda>(t, u). (f t, u))"

definition sig_in :: "int \<Rightarrow> tty \<Rightarrow> tty" where
  "sig_in n = upd_tty (\<lambda>t. t\<lparr>tyisem := tyisem t + n\<rparr>)"

definition in_raw :: "byte \<Rightarrow> tty \<Rightarrow> tty res" where
  "in_raw ch s =
     (if iavail (fst s) \<ge> int TY_IBUFLEN then Inr s
      else bind_res (store_in ch s) (\<lambda>s. Inr (sig_in 1 (wrap_in s))))"

definition in_cbreak :: "byte \<Rightarrow> tty \<Rightarrow> tty res" where
  "in_cbreak ch s =
     (if iavail (fst s) \<ge> int TY_IBUFLEN then Inr (eputc (tyifullc (fst s)) s)
      else bind_res (store_in ch s) (\<lambda>s.
        let s = wrap_in s; s = (if tyiecho (fst s) then echoch ch s else s) in Inr (sig_in 1 s)))"

definition in_kill :: "tty \<Rightarrow> tty" where
  "in_kill = (\<lambda>(t, u).
     let t = t\<lparr>tyitail := if tyitail t < tyicursor t then tyitail t + TY_IBUFLEN - tyicursor t else tyitail t - tyicursor t,
               tyicursor := 0\<rparr>
     in eputc TY_NEWLINE (eputc TY_RETURN (t, u)))"

definition in_erase :: "tty \<Rightarrow> tty" where
  "in_erase s = (if tyicursor (fst s) > 0 then erase1 (upd_tty (\<lambda>t. t\<lparr>tyicursor := tyicursor t - 1\<rparr>) s) else s)"

definition in_eol :: "byte \<Rightarrow> tty \<Rightarrow> tty res" where
  "in_eol ch s =
     (let s = (if tyiecho (fst s) then echoch ch s else s) in
      bind_res (store_in ch s) (\<lambda>s.
        let s = wrap_in s; s = sig_in (int (tyicursor (fst s)) + 1) s
        in Inr (upd_tty (\<lambda>t. t\<lparr>tyicursor := 0\<rparr>) s)))"

definition in_eof :: "byte \<Rightarrow> tty \<Rightarrow> tty res" where
  "in_eof ch s =
     (let s = (if tyiecho (fst s) then echoch ch s else s) in
      if tyicursor (fst s) \<noteq> 0 then Inr s
      else bind_res (store_in ch s) (\<lambda>s. Inr (sig_in 1 s)))"

definition in_char :: "byte \<Rightarrow> tty \<Rightarrow> tty res" where
  "in_char ch s =
     (let s = (if tyiecho (fst s) then echoch ch s else s);
          s = upd_tty (\<lambda>t. t\<lparr>tyicursor := tyicursor t + 1\<rparr>) s
      in bind_res (store_in ch s) (\<lambda>s. Inr (wrap_in s)))"

definition in_cooked :: "byte \<Rightarrow> tty \<Rightarrow> tty res" where
  "in_cooked ch s =
     (let t = fst s in
      if ch = tyikillc t \<and> tyikill t then Inr (in_kill s)
      else if (ch = tyierasec t \<or> ch = tyierasec2 t) \<and> tyierase t then Inr (in_erase s)
      else if ch = TY_NEWLINE \<or> ch = TY_RETURN then in_eol ch s
      else if iavail t + int (tyicursor t) \<ge> int TY_IBUFLEN - 1 then Inr (eputc (tyifullc t) s)
      else if ch = tyeofch t \<and> tyeof t then in_eof ch s
      else in_char ch s)"

definition ttyhandle_in :: "byte \<Rightarrow> tty \<Rightarrow> tty res" where
  "ttyhandle_in ch s =
     (if tyimode (fst s) = TY_IMRAW then in_raw ch s
      else
        let ch = (if ch = TY_RETURN \<and> tyicrlf (fst s) then TY_NEWLINE else ch) in
        if tyoflow (fst s) \<and> ch = tyostart (fst s) then
          Inr (case s of (t, u) \<Rightarrow> (t\<lparr>tyoheld := False\<rparr>, ttykickout u))
        else if tyoflow (fst s) \<and> ch = tyostop (fst s) then Inr (upd_tty (\<lambda>t. t\<lparr>tyoheld := True\<rparr>) s)
        else
          let s = upd_tty (\<lambda>t. t\<lparr>tyoheld := False\<rparr>) s in
          if tyimode (fst s) = TY_IMCBREAK then in_cbreak ch s else in_cooked ch s)"

section \<open>Output interrupts\<close>

definition transmit :: "byte \<Rightarrow> uart \<Rightarrow> uart" where
  "transmit ch u = u\<lparr>tx_line := tx_line u @ [ch]\<rparr>"

fun drain_echo :: "nat \<Rightarrow> tty \<Rightarrow> nat \<times> tty" where
  "drain_echo 0 s = (0, s)"
| "drain_echo (Suc uspace) (t, u) =
     (if tyehead t \<noteq> tyetail t then
        drain_echo uspace (t\<lparr>tyehead := if tyehead t + 1 \<ge> TY_EBUFLEN then 0 else tyehead t + 1\<rparr>, transmit (tyebuff t ! tyehead t) u)
      else (Suc uspace, (t, u)))"

fun drain_out :: "nat \<Rightarrow> int \<Rightarrow> int \<Rightarrow> tty \<Rightarrow> int \<times> tty" where
  "drain_out 0 avail ochars s = (ochars, s)"
| "drain_out (Suc uspace) avail ochars (t, u) =
     (if avail > 0 then
        drain_out uspace (avail - 1) (ochars + 1)
          (t\<lparr>tyohead := if tyohead t + 1 \<ge> TY_OBUFLEN then 0 else tyohead t + 1\<rparr>, transmit (tyobuff t ! tyohead t) u)
      else (ochars, (t, u)))"

definition ttyhandle_out :: "tty \<Rightarrow> tty" where
  "ttyhandle_out = (\<lambda>(t, u).
     if tyoheld t then (t, u)
     else if tyehead t = tyetail t \<and> tyosem t \<ge> int TY_OBUFLEN then (t, u\<lparr>ier := ier u AND NOT 0x02\<rparr>)
     else
       case drain_echo UART_FIFO_SIZE (t, u) of (uspace, (t, u)) \<Rightarrow>
       case drain_out uspace (int TY_OBUFLEN - tyosem t) 0 (t, u) of (ochars, (t, u)) \<Rightarrow>
         (if ochars > 0 then t\<lparr>tyosem := tyosem t + ochars\<rparr> else t, u))"

text \<open>The interrupt: \<open>iir\<close> is the identification register. The handler reads characters until the FIFO is empty.\<close>

fun drain_input :: "byte list \<Rightarrow> tty \<Rightarrow> tty res" where
  "drain_input [] s = Inr s"
| "drain_input (ch # cs) s = bind_res (ttyhandle_in ch s) (drain_input cs)"

definition ttyhandler :: "byte \<Rightarrow> tty \<Rightarrow> tty res" where
  "ttyhandler iir = (\<lambda>(t, u).
     if iir AND 0x01 \<noteq> 0 then Inr (t, u)
     else
       let iir = iir AND 0x0E in
       if iir = 0x04 \<or> iir = 0x0C then drain_input (rx_fifo u) (t, u\<lparr>rx_fifo := []\<rparr>)
       else if iir = 0x02 then Inr (ttyhandle_out (t, u))
       else Inr (t, u))"

section \<open>Calls\<close>

definition ttygetc :: "tty \<Rightarrow> (int \<times> tty) res" where
  "ttygetc = (\<lambda>(t, u).
     if tyisem t \<le> 0 then Inl Blocked
     else
       let t = t\<lparr>tyisem := tyisem t - 1\<rparr>;
           ch = tyibuff t ! tyihead t;
           t = t\<lparr>tyihead := if tyihead t + 1 \<ge> TY_IBUFLEN then 0 else tyihead t + 1\<rparr>
       in if tyimode t = TY_IMCOOKED \<and> tyeof t \<and> ch = tyeofch t then Inr (TTY_EOF, (t, u)) else Inr (sint ch, (t, u)))"

definition put_out :: "byte \<Rightarrow> tty \<Rightarrow> tty res" where
  "put_out ch = (\<lambda>(t, u).
     if tyosem t \<le> 0 then Inl Blocked
     else Inr (t\<lparr>tyosem := tyosem t - 1, tyobuff := (tyobuff t)[tyotail t := ch],
                 tyotail := if tyotail t + 1 \<ge> TY_OBUFLEN then 0 else tyotail t + 1\<rparr>, ttykickout u))"

definition ttyputc :: "byte \<Rightarrow> tty \<Rightarrow> tty res" where
  "ttyputc ch s = bind_res (if ch = TY_NEWLINE \<and> tyocrlf (fst s) then put_out TY_RETURN s else Inr s) (put_out ch)"

fun write_loop :: "byte list \<Rightarrow> tty \<Rightarrow> tty res" where
  "write_loop [] s = Inr s"
| "write_loop (ch # cs) s = bind_res (ttyputc ch s) (write_loop cs)"

text \<open>The caller's buffer is a list of at least \<open>count\<close> characters.\<close>

definition ttywrite :: "byte list \<Rightarrow> int \<Rightarrow> tty \<Rightarrow> (int \<times> tty) res" where
  "ttywrite buff count s =
     (if count < 0 then Inr (tty_SYSERR, s)
      else if count = 0 then Inr (tty_OK, s)
      else bind_res (write_loop (take (nat count) buff) s) (\<lambda>s. Inr (tty_OK, s)))"

fun read_raw :: "nat \<Rightarrow> tty \<Rightarrow> (byte list \<times> tty) res" where
  "read_raw 0 s = Inr ([], s)"
| "read_raw (Suc n) s = bind_res (ttygetc s) (\<lambda>(c, s). bind_res (read_raw n s) (\<lambda>(cs, s). Inr (of_int c # cs, s)))"

fun read_line :: "nat \<Rightarrow> byte \<Rightarrow> tty \<Rightarrow> (byte list \<times> tty) res" where
  "read_line 0 ch s = Inr ([], s)"
| "read_line (Suc n) ch s =
     (if ch \<noteq> TY_NEWLINE \<and> ch \<noteq> TY_RETURN
      then bind_res (ttygetc s) (\<lambda>(c, s). bind_res (read_line n (of_int c) s) (\<lambda>(cs, s). Inr (of_int c # cs, s)))
      else Inr ([], s))"

text \<open>The result has the return value and the characters stored in the caller's buffer.\<close>

definition ttyread :: "int \<Rightarrow> tty \<Rightarrow> (int \<times> byte list \<times> tty) res" where
  "ttyread count s =
     (if count < 0 then Inr (tty_SYSERR, [], s)
      else if tyimode (fst s) \<noteq> TY_IMCOOKED then
        if count = 0 \<and> tyisem (fst s) = 0 then Inr (0, [], s)
        else
          let count = (if count = 0 then tyisem (fst s) else count) in
          bind_res (read_raw (nat count) s) (\<lambda>(cs, s). Inr (int (length cs), cs, s))
      else
        bind_res (ttygetc s) (\<lambda>(firstch, s).
          if firstch = TTY_EOF then Inr (TTY_EOF, [], s)
          else bind_res (read_line (nat (count - 1)) (of_int firstch) s)
            (\<lambda>(cs, s). Inr (1 + int (length cs), of_int firstch # cs, s))))"

datatype tc_func = TC_NEXTC | TC_MODER | TC_MODEC | TC_MODEK | TC_ICHARS | TC_ECHO | TC_NOECHO | TC_OTHER

definition ttycontrol :: "tc_func \<Rightarrow> tty \<Rightarrow> (int \<times> tty) res" where
  "ttycontrol func s =
     (case func of
        TC_NEXTC \<Rightarrow> if tyisem (fst s) \<le> 0 then Inl Blocked else Inr (sint (tyibuff (fst s) ! tyitail (fst s)), s)
      | TC_MODER \<Rightarrow> Inr (tty_OK, upd_tty (\<lambda>t. t\<lparr>tyimode := TY_IMRAW\<rparr>) s)
      | TC_MODEC \<Rightarrow> Inr (tty_OK, upd_tty (\<lambda>t. t\<lparr>tyimode := TY_IMCOOKED\<rparr>) s)
      | TC_MODEK \<Rightarrow> Inr (tty_OK, upd_tty (\<lambda>t. t\<lparr>tyimode := TY_IMCBREAK\<rparr>) s)
      | TC_ICHARS \<Rightarrow> Inr (tyisem (fst s), s)
      | TC_ECHO \<Rightarrow> Inr (tty_OK, upd_tty (\<lambda>t. t\<lparr>tyiecho := True\<rparr>) s)
      | TC_NOECHO \<Rightarrow> Inr (tty_OK, upd_tty (\<lambda>t. t\<lparr>tyiecho := False\<rparr>) s)
      | TC_OTHER \<Rightarrow> Inr (tty_SYSERR, s))"

section \<open>The line editor\<close>

text \<open>
  The input buffer as a user sees it: the characters that can be read, and the line that is being typed.
\<close>

type_synonym edit_buf = "byte list \<times> byte list"

definition edit_key :: "ttycblk \<Rightarrow> byte \<Rightarrow> edit_buf \<Rightarrow> edit_buf" where
  "edit_key t ch = (\<lambda>(done, line).
     if ch = tyikillc t \<and> tyikill t then (done, [])
     else if (ch = tyierasec t \<or> ch = tyierasec2 t) \<and> tyierase t then (done, butlast line)
     else if ch = TY_NEWLINE \<or> ch = TY_RETURN then (done @ line @ [ch], [])
     else if length done + length line \<ge> TY_IBUFLEN - 1 then (done, line)
     else if ch = tyeofch t \<and> tyeof t then (if line = [] then (done @ [ch], []) else (done, line))
     else (done, line @ [ch]))"

definition edit :: "ttycblk \<Rightarrow> byte \<Rightarrow> edit_buf \<Rightarrow> edit_buf" where
  "edit t ch b =
     (let ch = (if ch = TY_RETURN \<and> tyicrlf t then TY_NEWLINE else ch) in
      if tyoflow t \<and> (ch = tyostart t \<or> ch = tyostop t) then b else edit_key t ch b)"

definition in_items :: "ttycblk \<Rightarrow> byte list" where
  "in_items t = ring_items (tyibuff t) (tyihead t) (nat (tyisem t) + tyicursor t)"

definition tty_abs :: "ttycblk \<Rightarrow> edit_buf" where
  "tty_abs t = (take (nat (tyisem t)) (in_items t), drop (nat (tyisem t)) (in_items t))"

definition tty_in_ok :: "ttycblk \<Rightarrow> bool" where
  "tty_in_ok t \<longleftrightarrow> length (tyibuff t) = TY_IBUFLEN \<and> tyihead t < TY_IBUFLEN \<and> 0 \<le> tyisem t \<and>
     nat (tyisem t) + tyicursor t \<le> TY_IBUFLEN \<and> tyitail t = (tyihead t + nat (tyisem t) + tyicursor t) mod TY_IBUFLEN"

lemma TY_IBUFLEN_pos [simp]: "0 < TY_IBUFLEN" "TY_IBUFLEN \<noteq> 0"
  by (simp_all add: TY_IBUFLEN_def)

text \<open>Echo touches the echo buffer and the UART only.\<close>

definition no_echo :: "ttycblk \<Rightarrow> ttycblk" where
  "no_echo t = t\<lparr>tyebuff := [], tyetail := 0\<rparr>"

definition same_input :: "tty \<Rightarrow> tty \<Rightarrow> bool" where
  "same_input s s' \<longleftrightarrow> no_echo (fst s') = no_echo (fst s)"

lemma same_input_refl [simp]: "same_input s s"
  by (simp add: same_input_def)

lemma same_input_trans [trans]: "same_input s s' \<Longrightarrow> same_input s' s'' \<Longrightarrow> same_input s s''"
  by (simp add: same_input_def)

lemma same_input_eputc [simp]: "same_input s (eputc ch s')" if "same_input s s'"
  using that by (cases s') (simp add: same_input_def eputc_def no_echo_def)

lemma same_input_echoch [simp]: "same_input s (echoch ch s)"
  by (simp add: echoch_def)

lemma same_input_back_over [simp]: "same_input s (back_over s')" if "same_input s s'"
  using that by (simp add: back_over_def Let_def)

lemma same_input_erase1:
  "same_input (t\<lparr>tyitail := if tyitail t = 0 then TY_IBUFLEN - 1 else tyitail t - 1\<rparr>, u) (erase1 (t, u))"
  by (simp add: erase1_def Let_def)

lemma edit_cong:
  assumes "tyicrlf t' = tyicrlf t" "tyoflow t' = tyoflow t" "tyostart t' = tyostart t" "tyostop t' = tyostop t"
    "tyikillc t' = tyikillc t" "tyikill t' = tyikill t" "tyierasec t' = tyierasec t" "tyierasec2 t' = tyierasec2 t"
    "tyierase t' = tyierase t" "tyeofch t' = tyeofch t" "tyeof t' = tyeof t"
  shows "edit t' = edit t" "edit_key t' = edit_key t"
  by (intro ext; simp only: edit_def edit_key_def assms)+

lemma edit_no_echo [simp]: "edit (no_echo t) = edit t"
  by (rule edit_cong) (simp_all add: no_echo_def)

lemma same_input_sel:
  assumes "same_input s s'"
  shows "tyibuff (fst s') = tyibuff (fst s)"
    "tyihead (fst s') = tyihead (fst s)"
    "tyitail (fst s') = tyitail (fst s)"
    "tyisem (fst s') = tyisem (fst s)"
    "tyicursor (fst s') = tyicursor (fst s)"
    "tyimode (fst s') = tyimode (fst s)"
    "tyeof (fst s') = tyeof (fst s)"
    "tyeofch (fst s') = tyeofch (fst s)"
    "tyicrlf (fst s') = tyicrlf (fst s)"
    "edit (fst s') = edit (fst s)"
proof -
  note eq = assms [unfolded same_input_def, THEN arg_cong]
  show "tyibuff (fst s') = tyibuff (fst s)"
    "tyihead (fst s') = tyihead (fst s)"
    "tyitail (fst s') = tyitail (fst s)"
    "tyisem (fst s') = tyisem (fst s)"
    "tyicursor (fst s') = tyicursor (fst s)"
    "tyimode (fst s') = tyimode (fst s)"
    "tyeof (fst s') = tyeof (fst s)"
    "tyeofch (fst s') = tyeofch (fst s)"
    "tyicrlf (fst s') = tyicrlf (fst s)"
    using eq [of tyibuff] eq [of tyihead] eq [of tyitail] eq [of tyisem] eq [of tyicursor] eq [of tyimode] eq [of tyeof] eq [of tyeofch] eq [of tyicrlf] by (simp_all add: no_echo_def)
  show "edit (fst s') = edit (fst s)" using eq [of edit] by simp
qed

lemma take_ring_items: "take k (ring_items a h n) = ring_items a h (min k n)"
  by (auto simp: ring_items_def list_eq_iff_nth_eq)

lemma butlast_ring_items: "butlast (ring_items a h n) = ring_items a h (n - 1)"
  by (simp add: butlast_conv_take take_ring_items)

lemma length_in_items [simp]: "length (in_items t) = nat (tyisem t) + tyicursor t"
  by (simp add: in_items_def)

lemma length_tty_abs: "tty_abs t = (d, l) \<Longrightarrow> length d = nat (tyisem t)" "tty_abs t = (d, l) \<Longrightarrow> length l = tyicursor t"
  by (auto simp: tty_abs_def)

text \<open>One more character at the tail.\<close>

lemma store_wrap:
  assumes "tty_in_ok t" "nat (tyisem t) + tyicursor t < TY_IBUFLEN"
  shows "tyitail t < TY_IBUFLEN"
    "ring_items ((tyibuff t)[tyitail t := ch]) (tyihead t) (Suc (nat (tyisem t) + tyicursor t)) = in_items t @ [ch]"
    "(if TY_IBUFLEN \<le> Suc (tyitail t) then 0 else Suc (tyitail t)) = (tyihead t + Suc (nat (tyisem t) + tyicursor t)) mod TY_IBUFLEN"
proof -
  let ?n = "nat (tyisem t) + tyicursor t"
  have ok: "length (tyibuff t) = TY_IBUFLEN" "tyihead t < TY_IBUFLEN" "tyitail t = (tyihead t + ?n) mod TY_IBUFLEN"
    using assms(1) by (simp_all add: tty_in_ok_def add.assoc)
  show tl: "tyitail t < TY_IBUFLEN" using ok by simp
  have "ring_items ((tyibuff t)[(tyihead t + ?n) mod length (tyibuff t) := ch]) (tyihead t) (Suc ?n) = in_items t @ [ch]"
    unfolding in_items_def by (rule ring_put) (use ok assms(2) in simp_all)
  then show "ring_items ((tyibuff t)[tyitail t := ch]) (tyihead t) (Suc ?n) = in_items t @ [ch]" using ok by simp
  have "(if TY_IBUFLEN \<le> Suc (tyitail t) then 0 else Suc (tyitail t)) = Suc (tyitail t) mod TY_IBUFLEN"
    using tl by (cases "Suc (tyitail t) = TY_IBUFLEN") auto
  then show "(if TY_IBUFLEN \<le> Suc (tyitail t) then 0 else Suc (tyitail t)) = (tyihead t + Suc ?n) mod TY_IBUFLEN"
    unfolding ok(3) by (simp add: mod_Suc_eq)
qed

text \<open>The control block \<open>t'\<close> has the settings of \<open>t\<close> and the input \<open>v\<close>.\<close>

definition input_is :: "ttycblk \<Rightarrow> edit_buf \<Rightarrow> ttycblk \<Rightarrow> bool" where
  "input_is t v t' \<longleftrightarrow> tty_in_ok t' \<and> tty_abs t' = v \<and> edit t' = edit t \<and> tyimode t' = tyimode t \<and>
     tyeof t' = tyeof t \<and> tyeofch t' = tyeofch t \<and> tyicrlf t' = tyicrlf t"

lemma input_is_same:
  assumes "tty_in_ok (fst s)" "same_input s s'"
  shows "input_is (fst s) (tty_abs (fst s)) (fst s')"
  using assms(1) same_input_sel [OF assms(2)]
  by (simp add: input_is_def tty_in_ok_def tty_abs_def in_items_def)

lemma input_is_cong:
  assumes "input_is t v t'" "same_input s s'" "fst s = t'"
  shows "input_is t v (fst s')"
  using assms(1) same_input_sel [OF assms(2)] assms(3)
  by (simp add: input_is_def tty_in_ok_def tty_abs_def in_items_def)

lemma tail_back:
  fixes N :: nat
  assumes "x = (a + c) mod N" "c \<le> N" "0 < N"
  shows "(if x < c then x + N - c else x - c) = a mod N"
proof -
  define y where "y = a mod N"
  have y: "y < N" "x = (y + c) mod N" using assms(1,3) by (simp_all add: y_def mod_add_left_eq)
  show ?thesis
  proof (cases "y + c < N")
    case True
    then show ?thesis using y by (simp add: y_def [symmetric])
  next
    case False
    have "y + c - N < N" using y(1) assms(2) by linarith
    moreover have "(y + c) mod N = (y + c - N) mod N" using False by (simp add: mod_if)
    ultimately have "x = y + c - N" using y(2) by simp
    then show ?thesis using y(1) False assms(2) by (auto simp: y_def [symmetric])
  qed
qed

lemma in_kill_spec:
  assumes "tty_in_ok (fst s)"
  shows "input_is (fst s) (fst (tty_abs (fst s)), []) (fst (in_kill s))"
proof -
  obtain t u where s: "s = (t, u)" by fastforce
  let ?t = "t\<lparr>tyitail := if tyitail t < tyicursor t then tyitail t + TY_IBUFLEN - tyicursor t else tyitail t - tyicursor t, tyicursor := 0\<rparr>"
  have ok: "length (tyibuff t) = TY_IBUFLEN" "tyihead t < TY_IBUFLEN" "0 \<le> tyisem t" "nat (tyisem t) + tyicursor t \<le> TY_IBUFLEN"
    "tyitail t = (tyihead t + nat (tyisem t) + tyicursor t) mod TY_IBUFLEN"
    using assms s by (simp_all add: tty_in_ok_def)
  have "tty_in_ok ?t"
    using ok tail_back [OF ok(5)] by (simp add: tty_in_ok_def)
  moreover have "in_items ?t = take (nat (tyisem t)) (in_items t)"
    by (simp add: in_items_def take_ring_items min_def)
  then have "tty_abs ?t = (fst (tty_abs t), [])" by (simp add: tty_abs_def)
  moreover have "edit ?t = edit t" by (rule edit_cong) simp_all
  ultimately have "input_is t (fst (tty_abs t), []) ?t" by (simp add: input_is_def)
  then show ?thesis unfolding s fst_conv by (rule input_is_cong [where s = "(?t, u)"]) (simp_all add: in_kill_def)
qed

lemma in_erase_spec:
  assumes "tty_in_ok (fst s)"
  shows "input_is (fst s) (fst (tty_abs (fst s)), butlast (snd (tty_abs (fst s)))) (fst (in_erase s))"
proof (cases "tyicursor (fst s) > 0")
  case False
  then show ?thesis using input_is_same [OF assms same_input_refl] assms
    by (simp add: in_erase_def tty_abs_def)
next
  case True
  obtain t u where s: "s = (t, u)" by fastforce
  let ?t1 = "t\<lparr>tyicursor := tyicursor t - 1\<rparr>"
  let ?t = "?t1\<lparr>tyitail := if tyitail ?t1 = 0 then TY_IBUFLEN - 1 else tyitail ?t1 - 1\<rparr>"
  have ok: "length (tyibuff t) = TY_IBUFLEN" "tyihead t < TY_IBUFLEN" "0 \<le> tyisem t" "nat (tyisem t) + tyicursor t \<le> TY_IBUFLEN"
    "tyitail t = (tyihead t + nat (tyisem t) + (tyicursor t - 1) + 1) mod TY_IBUFLEN"
    using assms s True by (simp_all add: tty_in_ok_def)
  have "tyitail ?t = (tyihead t + nat (tyisem t) + (tyicursor t - 1)) mod TY_IBUFLEN"
    using tail_back [OF ok(5)] by (auto simp: TY_IBUFLEN_def split: if_splits)
  moreover have "nat (tyisem t) + (tyicursor t - 1) \<le> TY_IBUFLEN" using ok(4) by linarith
  ultimately have "tty_in_ok ?t" using ok(1,2,3) by (simp add: tty_in_ok_def)
  moreover have "in_items ?t = butlast (in_items t)"
    using True s by (simp add: in_items_def butlast_ring_items)
  then have "tty_abs ?t = (fst (tty_abs t), butlast (snd (tty_abs t)))"
    using True s by (simp add: tty_abs_def butlast_drop take_butlast)
  moreover have "edit ?t = edit t" by (rule edit_cong) simp_all
  ultimately have "input_is t (fst (tty_abs t), butlast (snd (tty_abs t))) ?t" by (simp add: input_is_def)
  moreover have "same_input (?t, u) (in_erase s)"
    using same_input_erase1 [of ?t1 u] True s by (simp add: in_erase_def upd_tty_def)
  ultimately show ?thesis unfolding s fst_conv by (rule input_is_cong) simp
qed

lemma tty_in_okD:
  assumes "tty_in_ok t"
  shows "length (tyibuff t) = TY_IBUFLEN" "tyihead t < TY_IBUFLEN" "0 \<le> tyisem t" "nat (tyisem t) + tyicursor t \<le> TY_IBUFLEN"
  using assms by (simp_all add: tty_in_ok_def)

text \<open>A character stored at the tail, with \<open>k\<close> more characters released to the readers.\<close>

lemma stored_input:
  assumes ok: "tty_in_ok t" and room: "nat (tyisem t) + tyicursor t < TY_IBUFLEN" and n: "n + c = nat (tyisem t) + tyicursor t + 1"
    and t': "t' = t\<lparr>tyibuff := (tyibuff t)[tyitail t := ch], tyitail := (if TY_IBUFLEN \<le> Suc (tyitail t) then 0 else Suc (tyitail t)), tyisem := int n, tyicursor := c\<rparr>"
  shows "input_is t (take n (in_items t @ [ch]), drop n (in_items t @ [ch])) t'"
proof -
  note D = tty_in_okD [OF ok] and S = store_wrap [OF ok room]
  have "n + c \<le> TY_IBUFLEN" using n room by simp
  moreover have "tyitail t' = (tyihead t + n + c) mod TY_IBUFLEN" unfolding t' using S(3) n by (simp add: add.assoc)
  ultimately have "tty_in_ok t'" using D by (simp add: tty_in_ok_def t')
  moreover have "in_items t' = in_items t @ [ch]" using S(2) [of ch] n by (simp add: in_items_def t')
  then have "tty_abs t' = (take n (in_items t @ [ch]), drop n (in_items t @ [ch]))" by (simp add: tty_abs_def t')
  moreover have "edit t' = edit t" by (rule edit_cong) (simp_all add: t')
  ultimately show ?thesis by (simp add: input_is_def t')
qed

text \<open>The three ways in which a character enters the buffer; the echo comes first.\<close>

lemma echoed:
  assumes "tty_in_ok (fst s)"
  obtains t u where "(if tyiecho (fst s) then echoch ch s else s) = (t, u)" "input_is (fst s) (tty_abs (fst s)) t" "tty_in_ok t"
    "tyisem t = tyisem (fst s)" "tyicursor t = tyicursor (fst s)" "tyitail t = tyitail (fst s)" "in_items t = in_items (fst s)"
proof -
  let ?s = "if tyiecho (fst s) then echoch ch s else s"
  have e: "same_input s ?s" by simp
  obtain t u where t: "?s = (t, u)" by fastforce
  then have t': "t = fst ?s" by simp
  have "input_is (fst s) (tty_abs (fst s)) t" unfolding t' by (rule input_is_same [OF assms e])
  moreover have "in_items t = in_items (fst s)" unfolding in_items_def t' by (simp only: same_input_sel [OF e])
  ultimately show thesis
    using that [OF t] same_input_sel [OF e] by (simp only: t' input_is_def)
qed

lemma input_is_trans: "input_is t v t' \<Longrightarrow> input_is t' v' t'' \<Longrightarrow> input_is t v' t''"
  by (simp add: input_is_def)

lemma in_char_spec:
  assumes ok: "tty_in_ok (fst s)" and room: "nat (tyisem (fst s)) + tyicursor (fst s) < TY_IBUFLEN"
  shows "\<exists>s'. in_char ch s = Inr s' \<and> input_is (fst s) (fst (tty_abs (fst s)), snd (tty_abs (fst s)) @ [ch]) (fst s')"
proof -
  obtain t u where t: "(if tyiecho (fst s) then echoch ch s else s) = (t, u)" "input_is (fst s) (tty_abs (fst s)) t" "tty_in_ok t"
    "tyisem t = tyisem (fst s)" "tyicursor t = tyicursor (fst s)" "in_items t = in_items (fst s)" "tty_abs t = tty_abs (fst s)"
    using echoed [OF ok] by (metis input_is_def)
  have room': "nat (tyisem t) + tyicursor t < TY_IBUFLEN" using room t by simp
  note D = tty_in_okD [OF t(3)] and S = store_wrap [OF t(3) room']
  define t2 where "t2 = t\<lparr>tyibuff := (tyibuff t)[tyitail t := ch], tyitail := (if TY_IBUFLEN \<le> Suc (tyitail t) then 0 else Suc (tyitail t)),
      tyisem := int (nat (tyisem t)), tyicursor := tyicursor t + 1\<rparr>"
  have "in_char ch s = Inr (t2, u)"
    using S(1) D(3) by (simp add: in_char_def t2_def t(1) upd_tty_def store_in_def wrap_in_def)
  moreover have "input_is t (take (nat (tyisem t)) (in_items t @ [ch]), drop (nat (tyisem t)) (in_items t @ [ch])) t2"
    by (rule stored_input [OF t(3) room' _ t2_def]) simp
  moreover have "(take (nat (tyisem t)) (in_items t @ [ch]), drop (nat (tyisem t)) (in_items t @ [ch])) =
      (fst (tty_abs t), snd (tty_abs t) @ [ch])" by (simp add: tty_abs_def)
  ultimately show ?thesis using input_is_trans [OF t(2)] t(7) by (metis fst_conv)
qed

lemma in_eol_spec:
  assumes ok: "tty_in_ok (fst s)" and room: "nat (tyisem (fst s)) + tyicursor (fst s) < TY_IBUFLEN"
  shows "\<exists>s'. in_eol ch s = Inr s' \<and> input_is (fst s) (fst (tty_abs (fst s)) @ snd (tty_abs (fst s)) @ [ch], []) (fst s')"
proof -
  obtain t u where t: "(if tyiecho (fst s) then echoch ch s else s) = (t, u)" "input_is (fst s) (tty_abs (fst s)) t" "tty_in_ok t"
    "tyisem t = tyisem (fst s)" "tyicursor t = tyicursor (fst s)" "in_items t = in_items (fst s)" "tty_abs t = tty_abs (fst s)"
    using echoed [OF ok] by (metis input_is_def)
  have room': "nat (tyisem t) + tyicursor t < TY_IBUFLEN" using room t by simp
  note D = tty_in_okD [OF t(3)] and S = store_wrap [OF t(3) room']
  let ?n = "nat (tyisem t) + tyicursor t + 1"
  define t2 where "t2 = t\<lparr>tyibuff := (tyibuff t)[tyitail t := ch], tyitail := (if TY_IBUFLEN \<le> Suc (tyitail t) then 0 else Suc (tyitail t)), tyisem := int ?n, tyicursor := 0\<rparr>"
  have "in_eol ch s = Inr (t2, u)"
    using S(1) D(3) by (simp add: in_eol_def t2_def t(1) upd_tty_def store_in_def wrap_in_def sig_in_def)
  moreover have "input_is t (take ?n (in_items t @ [ch]), drop ?n (in_items t @ [ch])) t2"
    by (rule stored_input [OF t(3) room' _ t2_def]) simp
  moreover have "(take ?n (in_items t @ [ch]), drop ?n (in_items t @ [ch])) = (fst (tty_abs t) @ snd (tty_abs t) @ [ch], [])"
    by (simp add: tty_abs_def)
  ultimately show ?thesis using input_is_trans [OF t(2)] t(7) by (metis fst_conv)
qed

lemma in_eof_spec:
  assumes ok: "tty_in_ok (fst s)" and room: "nat (tyisem (fst s)) + tyicursor (fst s) < TY_IBUFLEN"
    and tl: "tyicursor (fst s) = 0 \<Longrightarrow> Suc (tyitail (fst s)) < TY_IBUFLEN"
  shows "\<exists>s'. in_eof ch s = Inr s' \<and> input_is (fst s)
    (if tyicursor (fst s) = 0 then (fst (tty_abs (fst s)) @ [ch], []) else tty_abs (fst s)) (fst s')"
proof -
  obtain t u where t: "(if tyiecho (fst s) then echoch ch s else s) = (t, u)" "input_is (fst s) (tty_abs (fst s)) t" "tty_in_ok t"
    "tyisem t = tyisem (fst s)" "tyicursor t = tyicursor (fst s)" "in_items t = in_items (fst s)" "tyitail t = tyitail (fst s)" "tty_abs t = tty_abs (fst s)"
    using echoed [OF ok] by (metis input_is_def)
  show ?thesis
  proof (cases "tyicursor t = 0")
    case False
    then have "in_eof ch s = Inr (t, u)" by (simp add: in_eof_def t(1))
    then show ?thesis using False t(2,5) by auto
  next
    case True
    have room': "nat (tyisem t) + tyicursor t < TY_IBUFLEN" using room t by simp
    note D = tty_in_okD [OF t(3)] and S = store_wrap [OF t(3) room']
    have nw: "Suc (tyitail t) < TY_IBUFLEN" using tl True t by simp
    let ?n = "nat (tyisem t) + 1"
    define t2 where "t2 = t\<lparr>tyibuff := (tyibuff t)[tyitail t := ch], tyitail := (if TY_IBUFLEN \<le> Suc (tyitail t) then 0 else Suc (tyitail t)), tyisem := int ?n, tyicursor := tyicursor t\<rparr>"
    have "in_eof ch s = bind_res (store_in ch (t, u)) (\<lambda>s. Inr (sig_in 1 s))"
      using True by (simp only: in_eof_def Let_def t(1) fst_conv simp_thms if_False not_True_eq_False)
    also have "\<dots> = Inr (t2, u)"
      using S(1) D(3) nw by (simp add: t2_def upd_tty_def store_in_def sig_in_def)
    finally have r: "in_eof ch s = Inr (t2, u)" .
    have "(take ?n (in_items t @ [ch]), drop ?n (in_items t @ [ch])) = (fst (tty_abs t) @ [ch], [])"
      using True by (simp add: tty_abs_def)
    moreover have "input_is t (take ?n (in_items t @ [ch]), drop ?n (in_items t @ [ch])) t2"
      by (rule stored_input [OF t(3) room' _ t2_def]) (simp add: True)
    ultimately have "input_is t (fst (tty_abs t) @ [ch], []) t2" by (simp only:)
    from input_is_trans [OF t(2) this] have "input_is (fst s) (fst (tty_abs (fst s)) @ [ch], []) t2" unfolding t(8) .
    then show ?thesis using r True t(5) by simp
  qed
qed

lemma in_cooked_spec:
  assumes ok: "tty_in_ok (fst s)"
    and room: "ch = TY_NEWLINE \<or> ch = TY_RETURN \<Longrightarrow> nat (tyisem (fst s)) + tyicursor (fst s) < TY_IBUFLEN"
    and tl: "tyicursor (fst s) = 0 \<Longrightarrow> nat (tyisem (fst s)) < TY_IBUFLEN - 1 \<Longrightarrow> ch = tyeofch (fst s) \<Longrightarrow> ch \<noteq> TY_NEWLINE \<Longrightarrow>
      Suc (tyitail (fst s)) < TY_IBUFLEN"
  shows "\<exists>s'. in_cooked ch s = Inr s' \<and> input_is (fst s) (edit_key (fst s) ch (tty_abs (fst s))) (fst s')"
proof -
  let ?t = "fst s"
  obtain d l where dl: "tty_abs ?t = (d, l)" by fastforce
  note len = length_tty_abs [OF dl]
  have av: "iavail ?t + int (tyicursor ?t) \<ge> int TY_IBUFLEN - 1 \<longleftrightarrow> length d + length l \<ge> TY_IBUFLEN - 1"
    using tty_in_okD(3) [OF ok] len by (auto simp: iavail_def TY_IBUFLEN_def)
  consider (kill) "ch = tyikillc ?t \<and> tyikill ?t"
    | (erase) "\<not> (ch = tyikillc ?t \<and> tyikill ?t)" "(ch = tyierasec ?t \<or> ch = tyierasec2 ?t) \<and> tyierase ?t"
    | (eol) "\<not> (ch = tyikillc ?t \<and> tyikill ?t)" "\<not> ((ch = tyierasec ?t \<or> ch = tyierasec2 ?t) \<and> tyierase ?t)" "ch = TY_NEWLINE \<or> ch = TY_RETURN"
    | (other) "\<not> (ch = tyikillc ?t \<and> tyikill ?t)" "\<not> ((ch = tyierasec ?t \<or> ch = tyierasec2 ?t) \<and> tyierase ?t)"
       "\<not> (ch = TY_NEWLINE \<or> ch = TY_RETURN)" by blast
  then show ?thesis
  proof cases
    case kill
    then show ?thesis using in_kill_spec [OF ok] by (simp add: in_cooked_def edit_key_def dl)
  next
    case erase
    then have "in_cooked ch s = Inr (in_erase s)" unfolding in_cooked_def Let_def by (simp only: simp_thms if_True if_False)
    moreover have "edit_key ?t ch (d, l) = (d, butlast l)" unfolding edit_key_def prod.case using erase by (simp only: simp_thms if_True if_False)
    ultimately show ?thesis using in_erase_spec [OF ok] by (simp add: dl)
  next
    case eol
    then have "in_cooked ch s = in_eol ch s" unfolding in_cooked_def Let_def by (simp only: simp_thms if_True if_False)
    moreover have "edit_key ?t ch (d, l) = (d @ l @ [ch], [])" unfolding edit_key_def prod.case using eol by (simp only: simp_thms if_True if_False)
    ultimately show ?thesis using in_eol_spec [OF ok room [OF eol(3)], of ch] by (simp add: dl)
  next
    case other
    have c: "in_cooked ch s = (if length d + length l \<ge> TY_IBUFLEN - 1 then Inr (eputc (tyifullc ?t) s)
        else if ch = tyeofch ?t \<and> tyeof ?t then in_eof ch s else in_char ch s)"
      unfolding in_cooked_def Let_def av using other by (simp only: simp_thms if_True if_False)
    have e: "edit_key ?t ch (d, l) = (if length d + length l \<ge> TY_IBUFLEN - 1 then (d, l)
        else if ch = tyeofch ?t \<and> tyeof ?t then (if l = [] then (d @ [ch], []) else (d, l)) else (d, l @ [ch]))"
      unfolding edit_key_def prod.case using other by (simp only: simp_thms if_True if_False)
    show ?thesis
    proof (cases "length d + length l \<ge> TY_IBUFLEN - 1")
      case True
      have "same_input s (eputc (tyifullc ?t) s)" by simp
      from input_is_same [OF ok this] show ?thesis using True by (simp add: c e dl)
    next
      case False
      then have room: "nat (tyisem ?t) + tyicursor ?t < TY_IBUFLEN" "nat (tyisem ?t) < TY_IBUFLEN - 1" using len by linarith+
      show ?thesis
      proof (cases "ch = tyeofch ?t \<and> tyeof ?t")
        case True
        have "l = [] \<longleftrightarrow> tyicursor ?t = 0" using len by auto
        moreover have "in_cooked ch s = in_eof ch s" "edit_key ?t ch (d, l) = (if l = [] then (d @ [ch], []) else (d, l))"
          unfolding c e using True False by (simp_all only: simp_thms if_True if_False)
        ultimately show ?thesis using in_eof_spec [OF ok room(1), of ch] tl room(2) True other(3) by (cases "tyicursor ?t = 0") (auto simp: dl)
      next
        case F: False
        then have "in_cooked ch s = in_char ch s" "edit_key ?t ch (d, l) = (d, l @ [ch])"
          unfolding c e using False by (simp_all only: simp_thms if_True if_False)
        then show ?thesis using in_char_spec [OF ok room(1), of ch] by (simp add: dl)
      qed
    qed
  qed
qed

lemma input_is_held: "tty_in_ok t \<Longrightarrow> input_is t (tty_abs t) (t\<lparr>tyoheld := b\<rparr>)"
proof -
  assume "tty_in_ok t"
  moreover have "edit (t\<lparr>tyoheld := b\<rparr>) = edit t" by (rule edit_cong) simp_all
  ultimately show ?thesis by (simp add: input_is_def tty_in_ok_def tty_abs_def in_items_def)
qed

lemma ttyhandle_in_cooked:
  assumes ok: "tty_in_ok (fst s)" and mode: "tyimode (fst s) = TY_IMCOOKED"
    and room: "ch = TY_NEWLINE \<or> ch = TY_RETURN \<Longrightarrow> nat (tyisem (fst s)) + tyicursor (fst s) < TY_IBUFLEN"
    and tl: "tyicursor (fst s) = 0 \<Longrightarrow> nat (tyisem (fst s)) < TY_IBUFLEN - 1 \<Longrightarrow> ch = tyeofch (fst s) \<Longrightarrow> Suc (tyitail (fst s)) < TY_IBUFLEN"
  shows "\<exists>s'. ttyhandle_in ch s = Inr s' \<and> input_is (fst s) (edit (fst s) ch (tty_abs (fst s))) (fst s')"
proof -
  obtain t u where s: "s = (t, u)" by fastforce
  define c where "c = (if ch = TY_RETURN \<and> tyicrlf t then TY_NEWLINE else ch)"
  let ?s = "(t\<lparr>tyoheld := False\<rparr>, u)"
  have held: "input_is t (tty_abs t) (t\<lparr>tyoheld := b\<rparr>)" for b using input_is_held ok s by simp
  have h: "ttyhandle_in ch s = (if tyoflow t \<and> c = tyostart t then Inr (t\<lparr>tyoheld := False\<rparr>, ttykickout u)
      else if tyoflow t \<and> c = tyostop t then Inr (t\<lparr>tyoheld := True\<rparr>, u) else in_cooked c ?s)"
    using mode unfolding ttyhandle_in_def s c_def [symmetric] by (simp add: upd_tty_def Let_def c_def)
  have e: "edit t ch v = (if tyoflow t \<and> (c = tyostart t \<or> c = tyostop t) then v else edit_key t c v)" for v
    unfolding edit_def c_def [symmetric] Let_def ..
  show ?thesis
  proof (cases "tyoflow t \<and> (c = tyostart t \<or> c = tyostop t)")
    case True
    then show ?thesis using held unfolding h unfolding s fst_conv e by auto
  next
    case False
    let ?t = "t\<lparr>tyoheld := False\<rparr>"
    have "Suc (tyitail t) < TY_IBUFLEN" if "tyicursor t = 0" "nat (tyisem t) < TY_IBUFLEN - 1" "c = tyeofch t" "c \<noteq> TY_NEWLINE"
      using that tl s by (auto simp: c_def split: if_splits)
    moreover have "nat (tyisem t) + tyicursor t < TY_IBUFLEN" if "c = TY_NEWLINE \<or> c = TY_RETURN"
      using that room s by (auto simp: c_def split: if_splits)
    ultimately have "\<exists>s'. in_cooked c ?s = Inr s' \<and> input_is ?t (edit_key ?t c (tty_abs ?t)) (fst s')"
      using in_cooked_spec [of ?s c] held [of False] by (simp add: input_is_def)
    moreover have "edit_key ?t c (tty_abs ?t) = edit_key t c (tty_abs t)"
    proof -
      have "edit_key ?t = edit_key t" by (rule edit_cong) simp_all
      then show ?thesis using held [of False] by (simp add: input_is_def)
    qed
    ultimately show ?thesis using False held [of False] unfolding h unfolding s fst_conv e by (auto intro: input_is_trans)
  qed
qed

text \<open>C14: Line editing. In cooked mode every arriving character changes the characters that can be read and the line being
  typed as the editor \<open>edit\<close> does: ordinary characters go to the end of the line, erase and kill take them back,
  a newline (or carriage return) makes the line readable, an end-of-file character counts at the start of a line only,
  and with 127 or 128 places in use every character but erase, kill and the ends of a line is refused. Excluded are the two
  ways to leave the buffer: an end of a line when all 128 places are in use, and an end-of-file character that is accepted
  in the last place.\<close>

theorem tty_edits_line:
  assumes "tty_in_ok (fst s)" "tyimode (fst s) = TY_IMCOOKED"
    "ch = TY_NEWLINE \<or> ch = TY_RETURN \<Longrightarrow> nat (tyisem (fst s)) + tyicursor (fst s) < TY_IBUFLEN"
    "tyicursor (fst s) = 0 \<Longrightarrow> nat (tyisem (fst s)) < TY_IBUFLEN - 1 \<Longrightarrow> ch = tyeofch (fst s) \<Longrightarrow> Suc (tyitail (fst s)) < TY_IBUFLEN"
  shows "\<exists>s'. ttyhandle_in ch s = Inr s' \<and> input_is (fst s) (edit (fst s) ch (tty_abs (fst s))) (fst s')"
  by (rule ttyhandle_in_cooked [OF assms])

section \<open>Reading a line\<close>

lemma ring_items_head:
  "0 < n \<Longrightarrow> h < length a \<Longrightarrow> ring_items a h n = a ! h # ring_items a (Suc h mod length a) (n - 1)"
  using ring_get [of h a "n - 1"] by simp

text \<open>The oldest character is taken; it is an end of file when it is the end-of-file character.\<close>

lemma ttygetc_spec:
  assumes ok: "tty_in_ok t" and abs: "tty_abs t = (c # d, l)" and mode: "tyimode t = TY_IMCOOKED"
  obtains t' where "ttygetc (t, u) = Inr (if tyeof t \<and> c = tyeofch t then TTY_EOF else sint c, (t', u))"
    "input_is t (d, l) t'"
proof -
  note D = tty_in_okD [OF ok]
  have n: "nat (tyisem t) = Suc (length d)" using length_tty_abs(1) [OF abs] by simp
  have sem: "0 < tyisem t" using n by simp
  let ?h = "if tyihead t + 1 \<ge> TY_IBUFLEN then 0 else tyihead t + 1"
  let ?t = "t\<lparr>tyisem := tyisem t - 1, tyihead := ?h\<rparr>"
  have h: "?h = Suc (tyihead t) mod TY_IBUFLEN" using D(2) by (cases "Suc (tyihead t) = TY_IBUFLEN") auto
  have items: "in_items t = tyibuff t ! tyihead t # in_items ?t"
    using ring_items_head [of "nat (tyisem t) + tyicursor t" "tyihead t" "tyibuff t"] n D(1,2) h
    by (simp add: in_items_def nat_diff_distrib')
  have c: "tyibuff t ! tyihead t = c" using abs items n by (simp add: tty_abs_def)
  have "tty_in_ok ?t"
  proof -
    have "(?h + nat (tyisem t - 1) + tyicursor t) mod TY_IBUFLEN = (tyihead t + nat (tyisem t) + tyicursor t) mod TY_IBUFLEN"
      unfolding h add.assoc mod_add_left_eq using n by (simp add: nat_diff_distrib')
    moreover have "?h < TY_IBUFLEN" unfolding h by simp
    ultimately show ?thesis using ok sem n by (simp add: tty_in_ok_def nat_diff_distrib')
  qed
  moreover have "tty_abs ?t = (d, l)"
    using abs items n by (simp add: tty_abs_def nat_diff_distrib')
  moreover have "edit ?t = edit t" by (rule edit_cong) simp_all
  ultimately have "input_is t (d, l) ?t" by (simp add: input_is_def)
  moreover have "ttygetc (t, u) = Inr (if tyeof t \<and> c = tyeofch t then TTY_EOF else sint c, (?t, u))"
    using sem mode c by (simp add: ttygetc_def Let_def)
  ultimately show thesis using that by blast
qed

lemma of_int_sint_byte [simp]: "of_int (sint (c :: byte)) = c"
  by simp

lemma read_line_spec:
  assumes "tty_in_ok t" "tty_abs t = (cs @ e # d, l)" "tyimode t = TY_IMCOOKED" "length cs < n" "e = TY_NEWLINE \<or> e = TY_RETURN"
    "\<forall>x \<in> set (ch # cs). x \<noteq> TY_NEWLINE \<and> x \<noteq> TY_RETURN" "\<forall>x \<in> set (cs @ [e]). x \<noteq> tyeofch t"
  shows "\<exists>t'. read_line n ch (t, u) = Inr (cs @ [e], (t', u)) \<and> input_is t (d, l) t'"
  using assms
proof (induction cs arbitrary: n ch t)
  case Nil
  then obtain n' where n: "n = Suc n'" by (cases n) auto
  obtain t' where t': "ttygetc (t, u) = Inr (sint e, (t', u))" "input_is t (d, l) t'"
    using ttygetc_spec [OF Nil.prems(1), of e d l u] Nil.prems(2,3,7) by auto
  have "read_line n' e (t', u) = Inr ([], (t', u))" using Nil.prems(5) by (cases n') auto
  then show ?case using t' n Nil.prems(6) by simp
next
  case (Cons c cs)
  then obtain n' where n: "n = Suc n'" by (cases n) auto
  obtain t' where t': "ttygetc (t, u) = Inr (sint c, (t', u))" "input_is t (cs @ e # d, l) t'"
    using ttygetc_spec [OF Cons.prems(1), of c "cs @ e # d" l u] Cons.prems(2,3,7) by auto
  have "\<exists>t''. read_line n' c (t', u) = Inr (cs @ [e], (t'', u)) \<and> input_is t' (d, l) t''"
    by (rule Cons.IH) (use t'(2) Cons.prems n in \<open>auto simp: input_is_def\<close>)
  then obtain t'' where "read_line n' c (t', u) = Inr (cs @ [e], (t'', u))" "input_is t' (d, l) t''" by blast
  then show ?case using t' n Cons.prems(6) input_is_trans by fastforce
qed

lemma ttyread_spec:
  assumes ok: "tty_in_ok t" and abs: "tty_abs t = (cs @ e # d, l)" and mode: "tyimode t = TY_IMCOOKED"
    and count: "int (length cs) < count" and e: "e = TY_NEWLINE \<or> e = TY_RETURN"
    and plain: "\<forall>x \<in> set cs. x \<noteq> TY_NEWLINE \<and> x \<noteq> TY_RETURN" "\<forall>x \<in> set (cs @ [e]). x \<noteq> tyeofch t \<and> sint x \<noteq> TTY_EOF"
  shows "\<exists>t'. ttyread count (t, u) = Inr (int (length cs) + 1, cs @ [e], (t', u)) \<and> input_is t (d, l) t'"
proof (cases cs)
  case Nil
  obtain t' where t': "ttygetc (t, u) = Inr (sint e, (t', u))" "input_is t (d, l) t'"
    using ttygetc_spec [OF ok, of e d l u] abs mode plain Nil by auto
  have "read_line (nat (count - 1)) e (t', u) = Inr ([], (t', u))" using e by (cases "nat (count - 1)") auto
  then show ?thesis using t' mode count plain Nil by (simp add: ttyread_def)
next
  case (Cons c cs')
  obtain t' where t': "ttygetc (t, u) = Inr (sint c, (t', u))" "input_is t (cs' @ e # d, l) t'"
    using ttygetc_spec [OF ok, of c "cs' @ e # d" l u] abs mode plain Cons by auto
  have "\<exists>t''. read_line (nat (count - 1)) c (t', u) = Inr (cs' @ [e], (t'', u)) \<and> input_is t' (d, l) t''"
    by (rule read_line_spec) (use t'(2) mode count e plain Cons in \<open>auto simp: input_is_def\<close>)
  then obtain t'' where "read_line (nat (count - 1)) c (t', u) = Inr (cs' @ [e], (t'', u))" "input_is t' (d, l) t''" by blast
  then show ?thesis using t' mode count plain Cons input_is_trans by (fastforce simp: ttyread_def)
qed

text \<open>Characters that do not end the line leave nothing to read.\<close>

definition plain_key :: "ttycblk \<Rightarrow> byte \<Rightarrow> bool" where
  "plain_key t c \<longleftrightarrow> c \<noteq> TY_NEWLINE \<and> c \<noteq> TY_RETURN \<and> c \<noteq> tyeofch t \<and> sint c \<noteq> TTY_EOF"

lemma edit_plain:
  assumes "plain_key t c"
  obtains l' where "edit t c ([], l) = ([], l')" "length l' \<le> length l + 1" "set l' \<subseteq> insert c (set l)"
proof -
  have "edit t c ([], l) \<in> {([], l), ([], []), ([], butlast l), ([], l @ [c])}"
    using assms by (auto simp: edit_def edit_key_def plain_key_def Let_def)
  then show thesis using that [of l] that [of "[]"] that [of "butlast l"] that [of "l @ [c]"]
    by (auto simp: in_set_butlastD subset_iff)
qed

lemma input_is_edit: "input_is t v t' \<Longrightarrow> edit t' = edit t" "input_is t v t' \<Longrightarrow> plain_key t' = plain_key t"
  by (auto simp: input_is_def plain_key_def fun_eq_iff)

lemma drain_plain:
  assumes "tty_in_ok t" "tty_abs t = ([], l)" "tyimode t = TY_IMCOOKED" "length l + length cs < TY_IBUFLEN" "\<forall>c \<in> set cs. plain_key t c"
  shows "\<exists>s' l'. drain_input cs (t, u) = Inr s' \<and> fold (edit t) cs ([], l) = ([], l') \<and> input_is t ([], l') (fst s') \<and>
    length l' \<le> length l + length cs \<and> set l' \<subseteq> set l \<union> set cs"
  using assms
proof (induction cs arbitrary: t l u)
  case Nil
  then show ?case by (simp add: input_is_def)
next
  case (Cons c cs)
  have pc: "plain_key t c" using Cons.prems(5) by simp
  have n: "nat (tyisem t) = 0" "tyicursor t = length l" using length_tty_abs [OF Cons.prems(2)] by simp_all
  obtain l1 where l1: "edit t c ([], l) = ([], l1)" "length l1 \<le> length l + 1" "set l1 \<subseteq> insert c (set l)"
    using edit_plain [OF pc] .
  have "\<exists>s1. ttyhandle_in c (t, u) = Inr s1 \<and> input_is t ([], l1) (fst s1)"
    using ttyhandle_in_cooked [of "(t, u)" c] Cons.prems pc n by (simp add: l1 plain_key_def)
  then obtain t1 u1 where s1: "ttyhandle_in c (t, u) = Inr (t1, u1)" "input_is t ([], l1) t1" by auto
  have "\<exists>s' l'. drain_input cs (t1, u1) = Inr s' \<and> fold (edit t1) cs ([], l1) = ([], l') \<and> input_is t1 ([], l') (fst s') \<and>
      length l' \<le> length l1 + length cs \<and> set l' \<subseteq> set l1 \<union> set cs"
    by (rule Cons.IH) (use s1(2) Cons.prems l1(2) input_is_edit(2) [OF s1(2)] in \<open>auto simp: input_is_def\<close>)
  then obtain s' l' where "drain_input cs (t1, u1) = Inr s'" "fold (edit t1) cs ([], l1) = ([], l')" "input_is t1 ([], l') (fst s')"
    "length l' \<le> length l1 + length cs" "set l' \<subseteq> set l1 \<union> set cs" by blast
  then show ?case using s1 l1 input_is_edit(1) [OF s1(2)] input_is_trans [OF s1(2)] by (intro exI [of _ s'] exI [of _ l']) auto
qed

text \<open>C31: A typed line is read as it was edited. When up to 126 characters other than the ends of a line or a file arrive at an
  empty input buffer, followed by a newline, the next \<^verbatim>\<open>ttyread\<close> with a large enough count returns the line
  that erase and kill left, and the newline, and leaves the buffer empty.\<close>

theorem tty_line_round_trip:
  assumes "tty_in_ok t" "tty_abs t = ([], [])" "tyimode t = TY_IMCOOKED" "length cs < TY_IBUFLEN - 1" "\<forall>c \<in> set cs. plain_key t c"
    "TY_NEWLINE \<notin> {tyikillc t, tyierasec t, tyierasec2 t, tyostart t, tyostop t, tyeofch t}"
    "line = snd (fold (edit t) cs ([], []))" "int (length line) < count"
  shows "\<exists>s t'' u'. drain_input (cs @ [TY_NEWLINE]) (t, u) = Inr s \<and>
    ttyread count s = Inr (int (length line) + 1, line @ [TY_NEWLINE], (t'', u')) \<and> tty_in_ok t'' \<and> tty_abs t'' = ([], [])"
proof -
  from assms(4) have "length [] + length cs < TY_IBUFLEN" by simp
  from drain_plain [OF assms(1-3) this assms(5), of u] obtain s1 l' where
    "drain_input cs (t, u) = Inr s1" "fold (edit t) cs ([], []) = ([], l')" "input_is t ([], l') (fst s1)"
    "length l' \<le> length cs" "set l' \<subseteq> set cs" by auto
  then obtain t1 u1 where s1: "drain_input cs (t, u) = Inr (t1, u1)" "input_is t ([], line) t1" "length line \<le> length cs" "set line \<subseteq> set cs"
    using assms(7) by (cases s1) auto
  have i1: "tty_in_ok t1" "tty_abs t1 = ([], line)" "edit t1 = edit t" "tyimode t1 = TY_IMCOOKED" "tyeofch t1 = tyeofch t"
    using s1(2) assms(3) by (simp_all add: input_is_def)
  have n1: "nat (tyisem t1) = 0" "tyicursor t1 = length line" using length_tty_abs [OF i1(2)] by simp_all
  have ed: "edit t1 TY_NEWLINE ([], line) = (line @ [TY_NEWLINE], [])"
    using assms(6) unfolding i1(3) by (simp add: edit_def edit_key_def TY_NEWLINE_def TY_RETURN_def)
  have "\<exists>s2. ttyhandle_in TY_NEWLINE (t1, u1) = Inr s2 \<and> input_is t1 (line @ [TY_NEWLINE], []) (fst s2)"
    using ttyhandle_in_cooked [of "(t1, u1)" TY_NEWLINE] i1 n1 s1(3) assms(4,6) ed by auto
  then obtain t2 u2 where s2: "ttyhandle_in TY_NEWLINE (t1, u1) = Inr (t2, u2)" "input_is t1 (line @ [TY_NEWLINE], []) t2" by auto
  have dr: "drain_input (xs @ ys) s = bind_res (drain_input xs s) (drain_input ys)" for xs ys s
    by (induction xs arbitrary: s) (auto simp: bind_res_def split: sum.split)
  have d: "drain_input (cs @ [TY_NEWLINE]) (t, u) = Inr (t2, u2)" using s1(1) s2(1) by (simp add: dr)
  have "\<exists>t'. ttyread count (t2, u2) = Inr (int (length line) + 1, line @ [TY_NEWLINE], (t', u2)) \<and> input_is t2 ([], []) t'"
    by (rule ttyread_spec [where d = "[]" and e = TY_NEWLINE])
      (use s2(2) i1 assms(5,6,8) s1(4) in \<open>auto simp: input_is_def plain_key_def TY_NEWLINE_def TTY_EOF_def\<close>)
  then show ?thesis using d by (auto simp: input_is_def)
qed

section \<open>Output\<close>

definition crlf :: "ttycblk \<Rightarrow> byte \<Rightarrow> byte list" where
  "crlf t c = (if c = TY_NEWLINE \<and> tyocrlf t then [TY_RETURN, c] else [c])"

definition out_items :: "ttycblk \<Rightarrow> byte list" where
  "out_items t = ring_items (tyobuff t) (tyohead t) (nat (int TY_OBUFLEN - tyosem t))"

definition echo_items :: "ttycblk \<Rightarrow> byte list" where
  "echo_items t = ring_items (tyebuff t) (tyehead t) ((tyetail t + TY_EBUFLEN - tyehead t) mod TY_EBUFLEN)"

definition tty_out_ok :: "ttycblk \<Rightarrow> bool" where
  "tty_out_ok t \<longleftrightarrow> length (tyobuff t) = TY_OBUFLEN \<and> tyohead t < TY_OBUFLEN \<and> 0 \<le> tyosem t \<and> tyosem t \<le> int TY_OBUFLEN \<and>
     tyotail t = (tyohead t + nat (int TY_OBUFLEN - tyosem t)) mod TY_OBUFLEN \<and>
     length (tyebuff t) = TY_EBUFLEN \<and> tyehead t < TY_EBUFLEN \<and> tyetail t < TY_EBUFLEN"

lemma tty_lens [simp]: "0 < TY_OBUFLEN" "0 < TY_EBUFLEN" "TY_OBUFLEN \<noteq> 0" "TY_EBUFLEN \<noteq> 0"
  by (simp_all add: TY_OBUFLEN_def TY_EBUFLEN_def)

lemma wrap_ring: "i < N \<Longrightarrow> (if i + 1 \<ge> N then 0 else i + 1) = Suc i mod N" for i N :: nat
  by (cases "Suc i = N") auto

lemma put_out_spec:
  assumes ok: "tty_out_ok t" and room: "0 < tyosem t"
  shows "\<exists>t'. put_out ch (t, u) = Inr (t', ttykickout u) \<and> tty_out_ok t' \<and> out_items t' = out_items t @ [ch] \<and>
    tyosem t' = tyosem t - 1 \<and> echo_items t' = echo_items t \<and> tyoheld t' = tyoheld t \<and> tyocrlf t' = tyocrlf t"
proof -
  let ?n = "nat (int TY_OBUFLEN - tyosem t)"
  let ?t = "t\<lparr>tyosem := tyosem t - 1, tyobuff := (tyobuff t)[tyotail t := ch],
      tyotail := if tyotail t + 1 \<ge> TY_OBUFLEN then 0 else tyotail t + 1\<rparr>"
  have D: "length (tyobuff t) = TY_OBUFLEN" "tyohead t < TY_OBUFLEN" "tyosem t \<le> int TY_OBUFLEN"
    "tyotail t = (tyohead t + ?n) mod TY_OBUFLEN" using ok by (simp_all add: tty_out_ok_def)
  have n: "nat (int TY_OBUFLEN - (tyosem t - 1)) = Suc ?n" using D(3) by simp
  have tl: "tyotail t < TY_OBUFLEN" using D(4) by simp
  have nl: "?n < length (tyobuff t)" "tyohead t < length (tyobuff t)" using room D by simp_all
  have "out_items ?t = out_items t @ [ch]"
    using ring_put [OF nl, of ch] D(1) unfolding D(4) by (simp add: out_items_def n)
  moreover have "tty_out_ok ?t"
    using ok room wrap_ring [OF tl] n D(4) by (simp add: tty_out_ok_def mod_Suc_eq)
  moreover have "put_out ch (t, u) = Inr (?t, ttykickout u)" using room by (simp add: put_out_def)
  ultimately show ?thesis by (intro exI [of _ ?t]) (simp add: echo_items_def)
qed

text \<open>What \<^verbatim>\<open>ttywrite\<close> and \<^verbatim>\<open>ttyputc\<close> change.\<close>

definition written :: "ttycblk \<Rightarrow> byte list \<Rightarrow> ttycblk \<Rightarrow> bool" where
  "written t cs t' \<longleftrightarrow> tty_out_ok t' \<and> out_items t' = out_items t @ cs \<and> tyosem t' = tyosem t - int (length cs) \<and>
     echo_items t' = echo_items t \<and> tyoheld t' = tyoheld t \<and> tyocrlf t' = tyocrlf t"

lemma written_trans: "written t cs t' \<Longrightarrow> written t' ds t'' \<Longrightarrow> written t (cs @ ds) t''"
  by (simp add: written_def)

lemma ttyputc_spec:
  assumes ok: "tty_out_ok t" and room: "int (length (crlf t c)) \<le> tyosem t"
  shows "\<exists>t' u'. ttyputc c (t, u) = Inr (t', u') \<and> written t (crlf t c) t' \<and> tx_line u' = tx_line u"
proof (cases "c = TY_NEWLINE \<and> tyocrlf t")
  case True
  then have r2: "2 \<le> tyosem t" using room by (simp add: crlf_def)
  then obtain t1 where t1: "put_out TY_RETURN (t, u) = Inr (t1, ttykickout u)" "written t [TY_RETURN] t1"
    using put_out_spec [OF ok, of TY_RETURN u] by (auto simp: written_def)
  then obtain t2 where t2: "put_out c (t1, ttykickout u) = Inr (t2, ttykickout (ttykickout u))" "written t1 [c] t2"
    using put_out_spec [of t1 c "ttykickout u"] r2 by (auto simp: written_def)
  then show ?thesis
    using True t1 written_trans [OF t1(2) t2(2)] by (simp add: ttyputc_def crlf_def ttykickout_def)
next
  case False
  then have "0 < tyosem t" using room by (auto simp: crlf_def)
  then show ?thesis using put_out_spec [OF ok, of c u] False by (auto simp: ttyputc_def crlf_def ttykickout_def written_def)
qed

lemma write_loop_spec:
  assumes "tty_out_ok t" "int (length (concat (map (crlf t) cs))) \<le> tyosem t"
  shows "\<exists>t' u'. write_loop cs (t, u) = Inr (t', u') \<and> written t (concat (map (crlf t) cs)) t' \<and> tx_line u' = tx_line u"
  using assms
proof (induction cs arbitrary: t u)
  case Nil
  then show ?case by (simp add: written_def)
next
  case (Cons c cs)
  have "int (length (crlf t c)) \<le> tyosem t" using Cons.prems(2) by simp
  from ttyputc_spec [OF Cons.prems(1) this, of u] obtain t1 u1
    where t1: "ttyputc c (t, u) = Inr (t1, u1)" "written t (crlf t c) t1" "tx_line u1 = tx_line u" by blast
  have cr: "crlf t1 = crlf t" using t1(2) by (simp add: written_def crlf_def fun_eq_iff)
  have "\<exists>t' u'. write_loop cs (t1, u1) = Inr (t', u') \<and> written t1 (concat (map (crlf t1) cs)) t' \<and> tx_line u' = tx_line u1"
    by (rule Cons.IH) (use t1(2) Cons.prems(2) in \<open>simp_all add: written_def cr\<close>)
  then show ?case using t1 written_trans [OF t1(2)] by (auto simp: cr)
qed

lemma echo_step:
  assumes "length (tyebuff t) = TY_EBUFLEN" "tyehead t < TY_EBUFLEN" "tyetail t < TY_EBUFLEN" "tyehead t \<noteq> tyetail t"
  shows "echo_items t = tyebuff t ! tyehead t #
    echo_items (t\<lparr>tyehead := if tyehead t + 1 \<ge> TY_EBUFLEN then 0 else tyehead t + 1\<rparr>)"
proof -
  let ?h = "Suc (tyehead t) mod TY_EBUFLEN"
  let ?n = "(tyetail t + TY_EBUFLEN - tyehead t) mod TY_EBUFLEN"
  have n: "?n = Suc ((tyetail t + TY_EBUFLEN - ?h) mod TY_EBUFLEN)"
    using assms(2-4) by (cases "tyehead t < tyetail t"; cases "Suc (tyehead t) = TY_EBUFLEN"; cases "tyetail t = 0")
      (auto simp: TY_EBUFLEN_def mod_if)
  show ?thesis
    unfolding wrap_ring [OF assms(2)] using ring_items_head [of ?n "tyehead t" "tyebuff t"] n assms(1,2)
    by (simp add: echo_items_def)
qed

lemma echo_empty:
  assumes "tyehead t < TY_EBUFLEN" "tyetail t < TY_EBUFLEN"
  shows "echo_items t = [] \<longleftrightarrow> tyehead t = tyetail t"
proof -
  have "(tyetail t + TY_EBUFLEN - tyehead t) mod TY_EBUFLEN = 0 \<longleftrightarrow> tyehead t = tyetail t"
    using assms by (cases "tyehead t < tyetail t") (auto simp: TY_EBUFLEN_def mod_if)
  then show ?thesis by (metis echo_items_def length_0_conv length_ring_items)
qed

lemma drain_echo_spec:
  assumes "tty_out_ok t"
  shows "\<exists>t' u'. drain_echo n (t, u) = (n - length (echo_items t), t', u') \<and> tty_out_ok t' \<and>
    tx_line u' = tx_line u @ take n (echo_items t) \<and> echo_items t' = drop n (echo_items t) \<and>
    t' = t\<lparr>tyehead := tyehead t'\<rparr>"
  using assms
proof (induction n arbitrary: t u)
  case (Suc n)
  have D: "length (tyebuff t) = TY_EBUFLEN" "tyehead t < TY_EBUFLEN" "tyetail t < TY_EBUFLEN" using Suc.prems by (simp_all add: tty_out_ok_def)
  show ?case
  proof (cases "tyehead t = tyetail t")
    case True
    then have "echo_items t = []" using echo_empty D by blast
    then show ?thesis using True Suc.prems by simp
  next
    case False
    let ?t = "t\<lparr>tyehead := if tyehead t + 1 \<ge> TY_EBUFLEN then 0 else tyehead t + 1\<rparr>"
    note e = echo_step [OF D False]
    have ok: "tty_out_ok ?t" using Suc.prems D(2) wrap_ring [OF D(2)] by (simp add: tty_out_ok_def)
    from Suc.IH [OF ok, of "transmit (tyebuff t ! tyehead t) u"] obtain t' u' where
      t': "drain_echo n (?t, transmit (tyebuff t ! tyehead t) u) = (n - length (echo_items ?t), t', u')" "tty_out_ok t'"
        "tx_line u' = tx_line (transmit (tyebuff t ! tyehead t) u) @ take n (echo_items ?t)" "echo_items t' = drop n (echo_items ?t)"
        "t' = ?t\<lparr>tyehead := tyehead t'\<rparr>" by blast
    have "t' = t\<lparr>tyehead := tyehead t'\<rparr>" by (rule trans [OF t'(5)]) simp
    moreover have "drain_echo (Suc n) (t, u) = (Suc n - length (echo_items t), t', u')" using False t'(1) e by simp
    ultimately show ?thesis using t'(2-4) unfolding e by (intro exI [of _ t'] exI [of _ u']) (simp add: transmit_def)
  qed
qed simp

lemma drain_out_spec:
  assumes "length (tyobuff t) = TY_OBUFLEN" "tyohead t < TY_OBUFLEN" "0 \<le> av" "av \<le> int TY_OBUFLEN"
  shows "\<exists>t' u'. drain_out n av oc (t, u) = (oc + int (min n (nat av)), t', u') \<and>
    tx_line u' = tx_line u @ take n (ring_items (tyobuff t) (tyohead t) (nat av)) \<and>
    t' = t\<lparr>tyohead := (tyohead t + min n (nat av)) mod TY_OBUFLEN\<rparr> \<and>
    drop n (ring_items (tyobuff t) (tyohead t) (nat av)) = ring_items (tyobuff t) (tyohead t') (nat av - min n (nat av))"
  using assms
proof (induction n arbitrary: t u av oc)
  case 0
  then show ?case by simp
next
  case (Suc n)
  show ?case
  proof (cases "av > 0")
    case False
    then have "av = 0" using Suc.prems by simp
    then show ?thesis using Suc.prems by (simp add: ring_items_def)
  next
    case True
    let ?t = "t\<lparr>tyohead := if tyohead t + 1 \<ge> TY_OBUFLEN then 0 else tyohead t + 1\<rparr>"
    let ?ch = "tyobuff t ! tyohead t"
    have h: "tyohead ?t = Suc (tyohead t) mod TY_OBUFLEN" using wrap_ring [OF Suc.prems(2)] by simp
    have it: "ring_items (tyobuff t) (tyohead t) (nat av) = ?ch # ring_items (tyobuff ?t) (tyohead ?t) (nat (av - 1))"
      using ring_items_head [of "nat av" "tyohead t" "tyobuff t"] True Suc.prems(1,2) h by (simp add: nat_diff_distrib')
    have "\<exists>t' u'. drain_out n (av - 1) (oc + 1) (?t, transmit ?ch u) = (oc + 1 + int (min n (nat (av - 1))), t', u') \<and>
      tx_line u' = tx_line (transmit ?ch u) @ take n (ring_items (tyobuff ?t) (tyohead ?t) (nat (av - 1))) \<and>
      t' = ?t\<lparr>tyohead := (tyohead ?t + min n (nat (av - 1))) mod TY_OBUFLEN\<rparr> \<and>
      drop n (ring_items (tyobuff ?t) (tyohead ?t) (nat (av - 1))) = ring_items (tyobuff ?t) (tyohead t') (nat (av - 1) - min n (nat (av - 1)))"
      by (rule Suc.IH) (use Suc.prems True h in simp_all)
    then obtain t' u' where t': "drain_out n (av - 1) (oc + 1) (?t, transmit ?ch u) = (oc + 1 + int (min n (nat (av - 1))), t', u')"
      "tx_line u' = tx_line (transmit ?ch u) @ take n (ring_items (tyobuff ?t) (tyohead ?t) (nat (av - 1)))"
      "t' = ?t\<lparr>tyohead := (tyohead ?t + min n (nat (av - 1))) mod TY_OBUFLEN\<rparr>"
      "drop n (ring_items (tyobuff ?t) (tyohead ?t) (nat (av - 1))) = ring_items (tyobuff ?t) (tyohead t') (nat (av - 1) - min n (nat (av - 1)))"
      by blast
    have nv: "nat av = Suc (nat (av - 1))" using True by simp
    have "t' = t\<lparr>tyohead := (tyohead t + min (Suc n) (nat av)) mod TY_OBUFLEN\<rparr>"
      by (rule trans [OF t'(3)]) (simp only: h nv min_Suc_Suc, simp add: mod_simps)
    moreover have "drain_out (Suc n) av oc (t, u) = (oc + int (min (Suc n) (nat av)), t', u')"
      using True t'(1) by (simp add: nv del: nat_diff_distrib')
    moreover have "drop (Suc n) (ring_items (tyobuff t) (tyohead t) (nat av)) =
        ring_items (tyobuff t) (tyohead t') (nat av - min (Suc n) (nat av))"
      using t'(4) unfolding it unfolding nv by simp
    moreover have "tx_line u' = tx_line u @ take (Suc n) (ring_items (tyobuff t) (tyohead t) (nat av))"
      using t'(2) unfolding it by (simp add: transmit_def)
    ultimately show ?thesis by blast
  qed
qed

lemma ttyhandle_out_spec:
  assumes ok: "tty_out_ok t"
  shows "case ttyhandle_out (t, u) of (t', u') \<Rightarrow>
    if tyoheld t then t' = t \<and> u' = u
    else tx_line u' = tx_line u @ take UART_FIFO_SIZE (echo_items t @ out_items t) \<and>
      echo_items t' = drop UART_FIFO_SIZE (echo_items t) \<and>
      out_items t' = drop (UART_FIFO_SIZE - length (echo_items t)) (out_items t) \<and> tty_out_ok t' \<and> tyoheld t' = tyoheld t"
proof -
  have D: "tyehead t < TY_EBUFLEN" "tyetail t < TY_EBUFLEN" "tyosem t \<le> int TY_OBUFLEN" using ok by (simp_all add: tty_out_ok_def)
  consider (held) "tyoheld t" | (idle) "\<not> tyoheld t" "tyehead t = tyetail t" "tyosem t \<ge> int TY_OBUFLEN"
    | (busy) "\<not> tyoheld t" "\<not> (tyehead t = tyetail t \<and> tyosem t \<ge> int TY_OBUFLEN)" by blast
  then show ?thesis
  proof cases
    case held
    then show ?thesis by (simp add: ttyhandle_out_def)
  next
    case idle
    have "echo_items t = []" "out_items t = []" using idle echo_empty D by (blast, simp add: out_items_def ring_items_def)
    then show ?thesis using idle ok by (simp add: ttyhandle_out_def)
  next
    case busy
    obtain t1 u1 where e: "drain_echo UART_FIFO_SIZE (t, u) = (UART_FIFO_SIZE - length (echo_items t), t1, u1)" "tty_out_ok t1"
      "tx_line u1 = tx_line u @ take UART_FIFO_SIZE (echo_items t)" "echo_items t1 = drop UART_FIFO_SIZE (echo_items t)" "t1 = t\<lparr>tyehead := tyehead t1\<rparr>"
      using drain_echo_spec [OF ok, of UART_FIFO_SIZE u] by blast
    have s1: "tyosem t1 = tyosem t" "out_items t1 = out_items t" "tyoheld t1 = tyoheld t"
      by (subst e(5), simp add: out_items_def)+
    let ?n = "UART_FIFO_SIZE - length (echo_items t)" and ?av = "int TY_OBUFLEN - tyosem t1"
    let ?k = "min ?n (nat ?av)"
    have D1: "length (tyobuff t1) = TY_OBUFLEN" "tyohead t1 < TY_OBUFLEN" "0 \<le> ?av" "?av \<le> int TY_OBUFLEN"
      using e(2) by (simp_all add: tty_out_ok_def)
    obtain t2 u2 where o: "drain_out ?n ?av 0 (t1, u1) = (int ?k, t2, u2)"
      "tx_line u2 = tx_line u1 @ take ?n (out_items t1)" "t2 = t1\<lparr>tyohead := (tyohead t1 + ?k) mod TY_OBUFLEN\<rparr>"
      "drop ?n (out_items t1) = ring_items (tyobuff t1) (tyohead t2) (nat ?av - ?k)"
      using drain_out_spec [OF D1, of ?n 0 u1] unfolding out_items_def by auto
    let ?t = "t2\<lparr>tyosem := tyosem t2 + int ?k\<rparr>"
    have r: "ttyhandle_out (t, u) = (?t, u2)"
    proof -
      have "(if 0 < int i then t2\<lparr>tyosem := tyosem t2 + int i\<rparr> else t2) = t2\<lparr>tyosem := tyosem t2 + int i\<rparr>" for i
        by (cases "i = 0") simp_all
      then show ?thesis
        unfolding ttyhandle_out_def prod.case if_not_P [OF busy(1)] if_not_P [OF busy(2)] e(1) o(1) by (simp only:)
    qed
    have s2: "tyosem t2 = tyosem t1" "tyobuff t2 = tyobuff t1" "tyohead t2 = (tyohead t1 + ?k) mod TY_OBUFLEN" "echo_items t2 = echo_items t1" "tyoheld t2 = tyoheld t1"
      "tyotail t2 = tyotail t1" "tyebuff t2 = tyebuff t1" "tyehead t2 = tyehead t1" "tyetail t2 = tyetail t1"
      by (simp_all add: o(3) echo_items_def)
    have k: "nat (int TY_OBUFLEN - (tyosem t1 + int ?k)) = nat ?av - ?k" using D1(3) by (simp add: nat_diff_distrib')
    have os: "tyosem ?t = tyosem t1 + int ?k" using s2(1) by simp
    have "tty_out_ok ?t"
    proof -
      have m: "(tyohead t2 + (nat ?av - ?k)) mod TY_OBUFLEN = (tyohead t1 + nat ?av) mod TY_OBUFLEN"
        unfolding s2 mod_add_left_eq by simp
      have kav: "int ?k \<le> ?av" using D1(3) by simp
      have E: "tyotail t1 = (tyohead t1 + nat ?av) mod TY_OBUFLEN" "length (tyebuff t1) = TY_EBUFLEN" "tyehead t1 < TY_EBUFLEN"
        "tyetail t1 < TY_EBUFLEN" using e(2) by (simp_all add: tty_out_ok_def)
      show ?thesis
        unfolding tty_out_ok_def
      proof (intro conjI)
        show "tyotail ?t = (tyohead ?t + nat (int TY_OBUFLEN - tyosem ?t)) mod TY_OBUFLEN"
          unfolding os k using m E(1) s2(6) by simp
        show "0 \<le> tyosem ?t" unfolding os using D1(4) by linarith
        show "tyosem ?t \<le> int TY_OBUFLEN" unfolding os using kav by linarith
        show "tyohead ?t < TY_OBUFLEN" by (simp add: s2(3))
        show "length (tyobuff ?t) = TY_OBUFLEN" using D1(1) s2(2) by simp
        show "length (tyebuff ?t) = TY_EBUFLEN" "tyehead ?t < TY_EBUFLEN" "tyetail ?t < TY_EBUFLEN" using E(2-4) s2(7-9) by simp_all
      qed
    qed
    moreover have "out_items ?t = drop ?n (out_items t)"
      unfolding s1(2) [symmetric] o(4) unfolding out_items_def os k using s2(2) by simp
    moreover have "echo_items ?t = drop UART_FIFO_SIZE (echo_items t)"
      unfolding e(4) [symmetric] s2(4) [symmetric] by (simp add: echo_items_def)
    moreover have "tx_line u2 = tx_line u @ take UART_FIFO_SIZE (echo_items t @ out_items t)"
      by (simp only: o(2) e(3) s1(2) take_append append_assoc)
    moreover have "tyoheld ?t = tyoheld t" using s2(5) s1(3) by simp
    ultimately show ?thesis using busy(1) unfolding r by simp
  qed
qed

text \<open>C34: The output interrupt fills the transmitter's FIFO of 16 characters from the echo queue first and then from the output
  queue, each in the order in which it was filled, and returns a token for each character taken from the output
  queue; a held line sends nothing.\<close>

theorem ttyhandle_out_order:
  assumes "tty_out_ok t"
  shows "case ttyhandle_out (t, u) of (t', u') \<Rightarrow>
    if tyoheld t then t' = t \<and> u' = u
    else tx_line u' = tx_line u @ take UART_FIFO_SIZE (echo_items t @ out_items t) \<and>
      echo_items t' = drop UART_FIFO_SIZE (echo_items t) \<and>
      out_items t' = drop (UART_FIFO_SIZE - length (echo_items t)) (out_items t) \<and> tty_out_ok t' \<and> tyoheld t' = tyoheld t"
  by (rule ttyhandle_out_spec [OF assms])

lemma out_iter:
  assumes "tty_out_ok t" "\<not> tyoheld t" "echo_items t = []" "length (out_items t) \<le> n * UART_FIFO_SIZE"
  shows "\<exists>t' u'. (ttyhandle_out ^^ n) (t, u) = (t', u') \<and> tx_line u' = tx_line u @ out_items t \<and> out_items t' = []"
  using assms
proof (induction n arbitrary: t u)
  case 0
  then show ?case by simp
next
  case (Suc n)
  obtain t1 u1 where t1: "ttyhandle_out (t, u) = (t1, u1)" by fastforce
  have s: "tx_line u1 = tx_line u @ take UART_FIFO_SIZE (out_items t)" "echo_items t1 = []"
    "out_items t1 = drop UART_FIFO_SIZE (out_items t)" "tty_out_ok t1" "\<not> tyoheld t1"
    using ttyhandle_out_spec [OF Suc.prems(1), of u] Suc.prems(2,3) t1 by simp_all
  have "\<exists>t' u'. (ttyhandle_out ^^ n) (t1, u1) = (t', u') \<and> tx_line u' = tx_line u1 @ out_items t1 \<and> out_items t' = []"
    by (rule Suc.IH) (use s Suc.prems(4) in simp_all)
  then show ?case using t1 s(1,3) by (auto simp: funpow_Suc_right simp del: funpow.simps)
qed

text \<open>What is written appears on the line. With nothing waiting, a text that fits the output buffer is accepted whole by
  \<^verbatim>\<open>ttywrite\<close>, and after one output interrupt for every 16 characters the line has carried the text, each newline
  preceded by a carriage return, and the buffer is empty.\<close>

theorem ttywrite_reaches_line:
  assumes "tty_out_ok t" "\<not> tyoheld t" "echo_items t = []" "out_items t = []"
    "length (concat (map (crlf t) msg)) \<le> TY_OBUFLEN" "length (concat (map (crlf t) msg)) \<le> n * UART_FIFO_SIZE"
  shows "\<exists>s. ttywrite msg (int (length msg)) (t, u) = Inr (tty_OK, s) \<and>
    (\<exists>t' u'. (ttyhandle_out ^^ n) s = (t', u') \<and> tx_line u' = tx_line u @ concat (map (crlf t) msg) \<and> out_items t' = [])"
proof -
  have "int TY_OBUFLEN = tyosem t"
    using assms(1,4) by (simp add: tty_out_ok_def out_items_def ring_items_def)
  then obtain t1 u1 where w: "write_loop msg (t, u) = Inr (t1, u1)" "written t (concat (map (crlf t) msg)) t1" "tx_line u1 = tx_line u"
    using write_loop_spec [OF assms(1), of msg u] assms(5) by auto
  have "ttywrite msg (int (length msg)) (t, u) = Inr (tty_OK, (t1, u1))"
    using w(1) by (cases msg) (simp_all add: ttywrite_def)
  moreover have "\<exists>t' u'. (ttyhandle_out ^^ n) (t1, u1) = (t', u') \<and> tx_line u' = tx_line u1 @ out_items t1 \<and> out_items t' = []"
    by (rule out_iter) (use w(2) assms in \<open>simp_all add: written_def\<close>)
  ultimately show ?thesis using w(2,3) assms(4) by (simp add: written_def)
qed

section \<open>Leaving the input buffer\<close>

text \<open>An end-of-file character that arrives in the last place of the input buffer is stored without the wrap-around, so that
  the next ordinary character is written behind the buffer, over the semaphore's identifier.\<close>

theorem eof_in_last_place_overruns:
  assumes "tty_in_ok t" "tyimode t = TY_IMCOOKED" "tyicursor t = 0" "tyitail t = TY_IBUFLEN - 1" "tyisem t < int TY_IBUFLEN - 2"
    "tyeof t" "tyeofch t \<notin> {tyikillc t, tyierasec t, tyierasec2 t, tyostart t, tyostop t, TY_NEWLINE, TY_RETURN}"
    "c \<notin> {tyikillc t, tyierasec t, tyierasec2 t, tyostart t, tyostop t, TY_NEWLINE, TY_RETURN, tyeofch t}"
  shows "drain_input [tyeofch t, c] (t, u) = Inl Out_of_bounds"
proof -
  have held: "tty_in_ok (t\<lparr>tyoheld := False\<rparr>)" using assms(1) by (simp add: tty_in_ok_def)
  let ?s = "(t\<lparr>tyoheld := False\<rparr>, u)"
  obtain t1 u1 where e: "(if tyiecho (fst ?s) then echoch (tyeofch t) ?s else ?s) = (t1, u1)" by fastforce
  have same: "same_input ?s (t1, u1)" unfolding e [symmetric] by simp
  note S = same_input_sel [OF same]
  have n: "0 \<le> tyisem t" "iavail t = tyisem t" using tty_in_okD(3) [OF assms(1)] by (simp_all add: iavail_def)
  have neq: "no_echo t1 = no_echo (t\<lparr>tyoheld := False\<rparr>)" using same by (simp add: same_input_def)
  have nsel: "f t1 = f (t\<lparr>tyoheld := False\<rparr>)" if "\<And>t. f (no_echo t) = f t" for f :: "ttycblk \<Rightarrow> 'a"
    using arg_cong [OF neq, of f] by (simp only: that)
  define t2 where "t2 = t1\<lparr>tyibuff := (tyibuff t1)[tyitail t1 := tyeofch t], tyitail := TY_IBUFLEN, tyisem := tyisem t1 + 1\<rparr>"
  have "ttyhandle_in (tyeofch t) (t, u) = in_cooked (tyeofch t) ?s"
    using assms(2,7) by (simp add: ttyhandle_in_def upd_tty_def Let_def)
  also have "\<dots> = in_eof (tyeofch t) ?s"
    using assms(3,5,6,7) n by (simp add: in_cooked_def Let_def iavail_def)
  also have "\<dots> = Inr (t2, u1)"
    unfolding in_eof_def Let_def e using S(3,5) assms(3,4)
    by (simp add: store_in_def sig_in_def upd_tty_def t2_def TY_IBUFLEN_def)
  finally have first: "ttyhandle_in (tyeofch t) (t, u) = Inr (t2, u1)" .
  have sets: "tyimode t2 = TY_IMCOOKED" "tyikillc t2 = tyikillc t" "tyierasec t2 = tyierasec t" "tyierasec2 t2 = tyierasec2 t"
    "tyostart t2 = tyostart t" "tyostop t2 = tyostop t" "tyeofch t2 = tyeofch t" "tyisem t2 = tyisem t + 1" "tyicursor t2 = 0"
    "tyitail t2 = TY_IBUFLEN"
    using assms(2,3) nsel [of tyimode] nsel [of tyikillc] nsel [of tyierasec] nsel [of tyierasec2] nsel [of tyostart]
      nsel [of tyostop] nsel [of tyeofch] nsel [of tyisem] nsel [of tyicursor]
    by (simp_all add: t2_def no_echo_def)
  let ?s2 = "(t2\<lparr>tyoheld := False\<rparr>, u1)"
  obtain t3 u3 where e3: "(if tyiecho (fst ?s2) then echoch c ?s2 else ?s2) = (t3, u3)" by fastforce
  have "same_input ?s2 (t3, u3)" unfolding e3 [symmetric] by simp
  then have t3: "tyitail t3 = TY_IBUFLEN" using same_input_sel(3) sets by fastforce
  have "ttyhandle_in c (t2, u1) = in_cooked c ?s2"
    using sets assms(8) by (simp add: ttyhandle_in_def upd_tty_def Let_def)
  also have "\<dots> = in_char c ?s2"
    using sets assms(5,8) n(1) by (simp add: in_cooked_def Let_def iavail_def)
  also have "\<dots> = Inl Out_of_bounds"
    unfolding in_char_def Let_def e3 using t3 by (simp add: upd_tty_def store_in_def)
  finally show ?thesis using first by simp
qed

section \<open>A line after \<^verbatim>\<open>ttyinit\<close>\<close>

definition tty_boot :: ttycblk where
  "tty_boot = ttyinit \<lparr>tyihead = 0, tyitail = 0, tyibuff = replicate 128 0, tyisem = 0, tyohead = 0, tyotail = 0,
     tyobuff = replicate 64 0, tyosem = 0, tyehead = 0, tyetail = 0, tyebuff = replicate 20 0, tyimode = TY_IMRAW, tyiecho = False,
     tyieback = False, tyevis = False, tyecrlf = False, tyicrlf = False, tyierase = False, tyierasec = 0, tyierasec2 = 0,
     tyeof = False, tyeofch = 0, tyikill = False, tyikillc = 0, tyicursor = 0, tyoflow = False, tyoheld = False, tyostop = 0,
     tyostart = 0, tyocrlf = False, tyifullc = 0\<rparr>"

definition uart_boot :: uart where
  "uart_boot = \<lparr>ier = 0, rx_fifo = [], tx_line = []\<rparr>"

lemma tty_boot_ok: "tty_in_ok tty_boot" "tty_out_ok tty_boot" "tty_abs tty_boot = ([], [])" "tyimode tty_boot = TY_IMCOOKED"
  "echo_items tty_boot = []" "out_items tty_boot = []" "\<not> tyoheld tty_boot" "tyicursor tty_boot = 0" "tyisem tty_boot = 0"
  by (simp_all add: tty_boot_def ttyinit_def tty_in_ok_def tty_out_ok_def tty_abs_def in_items_def echo_items_def out_items_def
      ring_items_def TY_IBUFLEN_def TY_OBUFLEN_def TY_EBUFLEN_def)

lemma tty_boot_keys: "tyeofch tty_boot = 4" "tyikillc tty_boot = 21" "tyierasec tty_boot = 8" "tyierasec2 tty_boot = 127"
  "tyostart tty_boot = 17" "tyostop tty_boot = 19" "tyeof tty_boot" "tyikill tty_boot" "tyierase tty_boot" "tyoflow tty_boot" "tyicrlf tty_boot"
  "tyocrlf tty_boot"
  by (simp_all add: tty_boot_def ttyinit_def TY_EOFCH_def TY_KILLCH_def TY_BACKSP_def TY_BACKSP2_def TY_STRTCH_def TY_STOPCH_def)

lemmas tty_codes = TY_NEWLINE_def TY_RETURN_def TTY_EOF_def TY_IBUFLEN_def TY_OBUFLEN_def UART_FIFO_SIZE_def

theorem tty_edits_line_witness:
  "\<exists>s'. ttyhandle_in 97 (tty_boot, uart_boot) = Inr s' \<and> input_is tty_boot ([], [97]) (fst s')"
  using tty_edits_line [of "(tty_boot, uart_boot)" 97]
  by (simp add: tty_boot_ok tty_boot_keys edit_def edit_key_def tty_codes)

theorem tty_line_round_trip_witness:
  "\<exists>s t'' u'. drain_input ([97, 8, 98] @ [TY_NEWLINE]) (tty_boot, uart_boot) = Inr s \<and>
     ttyread 80 s = Inr (2, [98, TY_NEWLINE], (t'', u')) \<and> tty_in_ok t'' \<and> tty_abs t'' = ([], [])"
proof -
  have line: "[98] = snd (fold (edit tty_boot) [97, 8, 98] ([], []))"
    by (simp add: edit_def edit_key_def tty_boot_keys tty_codes)
  have keys: "\<forall>c \<in> set [97, 8, 98]. plain_key tty_boot c"
    by (simp add: plain_key_def tty_boot_keys tty_codes)
  have nl: "TY_NEWLINE \<notin> {tyikillc tty_boot, tyierasec tty_boot, tyierasec2 tty_boot, tyostart tty_boot, tyostop tty_boot, tyeofch tty_boot}"
    by (simp add: tty_boot_keys tty_codes)
  have n: "length [97, 8, 98 :: byte] < TY_IBUFLEN - 1" "int (length [98 :: byte]) < 80" by (simp_all add: TY_IBUFLEN_def)
  from tty_line_round_trip [OF tty_boot_ok(1,3,4) n(1) keys nl line n(2), of uart_boot] show ?thesis by simp
qed

theorem ttyhandle_out_order_witness:
  "case ttyhandle_out (tty_boot\<lparr>tyosem := 62, tyotail := 2, tyobuff := 72 # 105 # replicate 62 0\<rparr>, uart_boot) of (t', u') \<Rightarrow>
     tx_line u' = [72, 105] \<and> out_items t' = []"
proof -
  let ?t = "tty_boot\<lparr>tyosem := 62, tyotail := 2, tyobuff := 72 # 105 # replicate 62 0\<rparr>"
  have "tty_out_ok ?t" using tty_boot_ok(2) by (simp add: tty_out_ok_def tty_boot_def ttyinit_def TY_OBUFLEN_def)
  moreover have "echo_items ?t = []" "\<not> tyoheld ?t" using tty_boot_ok(5,7) by (simp_all add: echo_items_def)
  moreover have "tyohead tty_boot = 0" by (simp add: tty_boot_def ttyinit_def)
  then have "out_items ?t = [72, 105]" by (simp add: out_items_def ring_items_def TY_OBUFLEN_def numeral_2_eq_2)
  ultimately show ?thesis
    using ttyhandle_out_order [of ?t uart_boot] by (auto simp: uart_boot_def UART_FIFO_SIZE_def)
qed

theorem ttywrite_reaches_line_witness:
  "\<exists>s t' u'. ttywrite [72, 10] 2 (tty_boot, uart_boot) = Inr (tty_OK, s) \<and> (ttyhandle_out ^^ 1) s = (t', u') \<and> tx_line u' = [72, 13, 10]"
  using ttywrite_reaches_line [OF tty_boot_ok(2,7,5,6), of "[72, 10]" 1 uart_boot]
  by (auto simp: crlf_def tty_boot_keys tty_codes uart_boot_def)

theorem eof_in_last_place_overruns_witness:
  "drain_input [4, 97] (tty_boot\<lparr>tyihead := 127, tyitail := 127\<rparr>, uart_boot) = Inl Out_of_bounds"
  using eof_in_last_place_overruns [of "tty_boot\<lparr>tyihead := 127, tyitail := 127\<rparr>" 97 uart_boot] tty_boot_ok
  by (simp add: tty_boot_keys tty_codes tty_in_ok_def)

section \<open>Indices and buffers\<close>

text \<open>
  The control block is well formed when every index lies in its buffer, the input tail too: the one step that leaves it
  behind the buffer is the missing wrap-around after an end-of-file character.
\<close>

definition tty_typed :: "ttycblk \<Rightarrow> bool" where
  "tty_typed t \<longleftrightarrow> length (tyibuff t) = TY_IBUFLEN \<and> tyihead t < TY_IBUFLEN \<and> tyitail t < TY_IBUFLEN \<and> tyicursor t < TY_IBUFLEN \<and>
     length (tyobuff t) = TY_OBUFLEN \<and> tyohead t < TY_OBUFLEN \<and> tyotail t < TY_OBUFLEN \<and>
     length (tyebuff t) = TY_EBUFLEN \<and> tyehead t < TY_EBUFLEN \<and> tyetail t < TY_EBUFLEN"

definition last_place_eof :: "byte \<Rightarrow> ttycblk \<Rightarrow> bool" where
  "last_place_eof ch t \<longleftrightarrow> tyimode t = TY_IMCOOKED \<and> ch = tyeofch t \<and> tyeof t \<and> tyicursor t = 0 \<and> tyitail t = TY_IBUFLEN - 1"

lemma typed_upd: "(\<And>t. tty_typed t \<Longrightarrow> tty_typed (f t)) \<Longrightarrow> tty_typed (fst s) \<Longrightarrow> tty_typed (fst (upd_tty f s))"
  by (cases s) (simp add: upd_tty_def)

lemma typed_eputc [simp]: "tty_typed (fst s) \<Longrightarrow> tty_typed (fst (eputc ch s))"
  by (cases s) (auto simp: tty_typed_def eputc_def)

lemma typed_echoch [simp]: "tty_typed (fst s) \<Longrightarrow> tty_typed (fst (echoch ch s))"
  by (simp add: echoch_def)

lemma typed_back_over [simp]: "tty_typed (fst s) \<Longrightarrow> tty_typed (fst (back_over s))"
  by (simp add: back_over_def Let_def)

lemma typed_erase1 [simp]: "tty_typed (fst s) \<Longrightarrow> tty_typed (fst (erase1 s))"
proof (cases s)
  case (Pair t u)
  assume "tty_typed (fst s)"
  then have "tty_typed (t\<lparr>tyitail := if tyitail t = 0 then TY_IBUFLEN - 1 else tyitail t - 1\<rparr>)" using Pair by (auto simp: tty_typed_def)
  then show ?thesis using Pair by (simp add: erase1_def Let_def)
qed

text \<open>A character is stored inside the buffer, and the tail is back inside after the wrap-around.\<close>

lemma typed_store_wrap:
  assumes "tty_typed (fst s)"
  obtains s' where "store_in ch s = Inr s'" "tty_typed (fst (wrap_in s'))" "Suc (tyitail (fst s)) < TY_IBUFLEN \<Longrightarrow> tty_typed (fst s')"
  using assms by (cases s) (auto simp: store_in_def wrap_in_def tty_typed_def)

lemma typed_sig [simp]: "tty_typed (fst s) \<Longrightarrow> tty_typed (fst (sig_in n s))"
  by (cases s) (auto simp: sig_in_def upd_tty_def tty_typed_def)

lemma typed_in_raw: "tty_typed (fst s) \<Longrightarrow> \<exists>s'. in_raw ch s = Inr s' \<and> tty_typed (fst s')"
  by (rule typed_store_wrap [of s ch]) (simp_all add: in_raw_def del: split_paired_Ex)

lemma typed_in_cbreak: "tty_typed (fst s) \<Longrightarrow> \<exists>s'. in_cbreak ch s = Inr s' \<and> tty_typed (fst s')"
  by (rule typed_store_wrap [of s ch]) (simp_all add: in_cbreak_def Let_def del: split_paired_Ex)

lemma typed_in_kill: "tty_typed (fst s) \<Longrightarrow> tty_typed (fst (in_kill s))"
proof (cases s)
  case (Pair t u)
  assume "tty_typed (fst s)"
  then have "tty_typed (t\<lparr>tyitail := if tyitail t < tyicursor t then tyitail t + TY_IBUFLEN - tyicursor t else tyitail t - tyicursor t, tyicursor := 0\<rparr>)"
    using Pair by (auto simp: tty_typed_def)
  then show ?thesis using Pair by (simp add: in_kill_def Let_def)
qed

lemma typed_in_erase: "tty_typed (fst s) \<Longrightarrow> tty_typed (fst (in_erase s))"
  by (auto simp: in_erase_def intro!: typed_erase1 typed_upd) (auto simp: tty_typed_def)

lemma typed_echoed:
  assumes "tty_typed (fst s)"
  shows "tty_typed (fst (if tyiecho (fst s) then echoch ch s else s))"
    "tyicursor (fst (if tyiecho (fst s) then echoch ch s else s)) = tyicursor (fst s)"
    "tyitail (fst (if tyiecho (fst s) then echoch ch s else s)) = tyitail (fst s)"
  using assms same_input_sel(3,5) [OF same_input_echoch [of s ch]] by simp_all

lemma typed_in_eol: "tty_typed (fst s) \<Longrightarrow> \<exists>s'. in_eol ch s = Inr s' \<and> tty_typed (fst s')"
proof -
  assume "tty_typed (fst s)"
  note e = typed_echoed(1) [OF this, of ch]
  obtain s' where s': "store_in ch (if tyiecho (fst s) then echoch ch s else s) = Inr s'" "tty_typed (fst (wrap_in s'))"
    by (rule typed_store_wrap [OF e])
  have "tty_typed (fst (upd_tty (\<lambda>t. t\<lparr>tyicursor := 0\<rparr>) (sig_in n (wrap_in s'))))" for n
    by (rule typed_upd [OF _ typed_sig [OF s'(2)]]) (simp add: tty_typed_def)
  then show ?thesis unfolding in_eol_def Let_def s'(1) by simp
qed

lemma typed_in_eof:
  assumes "tty_typed (fst s)" "tyicursor (fst s) = 0 \<longrightarrow> Suc (tyitail (fst s)) < TY_IBUFLEN"
  shows "\<exists>s'. in_eof ch s = Inr s' \<and> tty_typed (fst s')"
proof -
  note e = typed_echoed [OF assms(1), of ch]
  obtain s' where s': "store_in ch (if tyiecho (fst s) then echoch ch s else s) = Inr s'"
    "Suc (tyitail (fst s)) < TY_IBUFLEN \<Longrightarrow> tty_typed (fst s')"
    by (rule typed_store_wrap [OF e(1), unfolded e(3), of ch]) blast
  show ?thesis
    using s' assms(2) e(1,2) unfolding in_eof_def Let_def by (cases "tyicursor (fst s) = 0") simp_all
qed

lemma typed_in_char:
  assumes "tty_typed (fst s)" "Suc (tyicursor (fst s)) < TY_IBUFLEN"
  shows "\<exists>s'. in_char ch s = Inr s' \<and> tty_typed (fst s')"
proof -
  let ?s = "if tyiecho (fst s) then echoch ch s else s"
  have "tty_typed (fst (upd_tty (\<lambda>t. t\<lparr>tyicursor := tyicursor t + 1\<rparr>) ?s))"
    using typed_echoed [OF assms(1), of ch] assms(2) by (cases ?s) (auto simp: upd_tty_def tty_typed_def)
  then obtain s' where "store_in ch (upd_tty (\<lambda>t. t\<lparr>tyicursor := tyicursor t + 1\<rparr>) ?s) = Inr s'" "tty_typed (fst (wrap_in s'))"
    by (rule typed_store_wrap)
  then show ?thesis unfolding in_char_def Let_def by simp
qed

lemma typed_in_cooked:
  assumes "tty_typed (fst s)" "ch = tyeofch (fst s) \<and> tyeof (fst s) \<and> tyicursor (fst s) = 0 \<longrightarrow> Suc (tyitail (fst s)) < TY_IBUFLEN"
  shows "\<exists>s'. in_cooked ch s = Inr s' \<and> tty_typed (fst s')"
proof -
  have "Suc (tyicursor (fst s)) < TY_IBUFLEN" if "\<not> iavail (fst s) + int (tyicursor (fst s)) \<ge> int TY_IBUFLEN - 1"
    using that by (simp add: iavail_def split: if_splits)
  then show ?thesis
    unfolding in_cooked_def Let_def
    using assms typed_in_eol [OF assms(1)] typed_in_eof [OF assms(1)] typed_in_char [OF assms(1)]
    by (simp add: typed_in_kill typed_in_erase del: split_paired_Ex)
qed

lemma typed_handle_in:
  assumes "tty_typed (fst s)" "\<not> last_place_eof ch (fst s)" "ch = TY_RETURN \<and> tyicrlf (fst s) \<longrightarrow> \<not> last_place_eof TY_NEWLINE (fst s)"
  shows "\<exists>s'. ttyhandle_in ch s = Inr s' \<and> tty_typed (fst s')"
proof -
  obtain t u where s: "s = (t, u)" by fastforce
  define c where "c = (if ch = TY_RETURN \<and> tyicrlf t then TY_NEWLINE else ch)"
  have ty: "tty_typed t" "tty_typed (t\<lparr>tyoheld := b\<rparr>)" for b using assms(1) s by (simp_all add: tty_typed_def)
  have "c = tyeofch t \<and> tyeof t \<and> tyicursor t = 0 \<longrightarrow> Suc (tyitail t) < TY_IBUFLEN" if "tyimode t = TY_IMCOOKED"
    using assms(2,3) ty(1) that unfolding s fst_conv c_def last_place_eof_def tty_typed_def by (auto split: if_splits)
  then have coo: "\<exists>s'. in_cooked c (t\<lparr>tyoheld := False\<rparr>, u) = Inr s' \<and> tty_typed (fst s')" if "tyimode t = TY_IMCOOKED"
    using typed_in_cooked [of "(t\<lparr>tyoheld := False\<rparr>, u)" c] ty(2) [of False] that by simp
  have ck: "\<exists>s'. (if tyimode t = TY_IMCBREAK then in_cbreak else in_cooked) c (t\<lparr>tyoheld := False\<rparr>, u) = Inr s' \<and> tty_typed (fst s')"
    if "tyimode t \<noteq> TY_IMRAW"
    using typed_in_cbreak [of "(t\<lparr>tyoheld := False\<rparr>, u)" c] ty(2) [of False] that coo
    by (cases "tyimode t") (simp_all del: split_paired_Ex)
  have h: "ttyhandle_in ch s = (if tyimode t = TY_IMRAW then in_raw ch s
      else if tyoflow t \<and> c = tyostart t then Inr (t\<lparr>tyoheld := False\<rparr>, ttykickout u)
      else if tyoflow t \<and> c = tyostop t then Inr (t\<lparr>tyoheld := True\<rparr>, u)
      else (if tyimode t = TY_IMCBREAK then in_cbreak else in_cooked) c (t\<lparr>tyoheld := False\<rparr>, u))"
    unfolding ttyhandle_in_def s c_def [symmetric] by (simp add: upd_tty_def Let_def c_def)
  show ?thesis
    unfolding h using ck typed_in_raw [OF assms(1), of ch] ty by (simp del: split_paired_Ex)
qed

lemma typed_drain_echo: "drain_echo n s = (m, s') \<Longrightarrow> tty_typed (fst s) \<Longrightarrow> tty_typed (fst s')"
  by (induction n s rule: drain_echo.induct) (fastforce simp: tty_typed_def split: if_splits)+

lemma typed_drain_out: "drain_out n a o' s = (m, s') \<Longrightarrow> tty_typed (fst s) \<Longrightarrow> tty_typed (fst s')"
  by (induction n a o' s rule: drain_out.induct) (fastforce simp: tty_typed_def split: if_splits)+

lemma typed_handle_out: "tty_typed (fst s) \<Longrightarrow> tty_typed (fst (ttyhandle_out s))"
proof -
  assume a: "tty_typed (fst s)"
  obtain t u where s: "s = (t, u)" by fastforce
  obtain n t1 u1 where 1: "drain_echo UART_FIFO_SIZE (t, u) = (n, (t1, u1))" by (metis surj_pair)
  obtain c t2 u2 where 2: "drain_out n (int TY_OBUFLEN - tyosem t1) 0 (t1, u1) = (c, (t2, u2))" by (metis surj_pair)
  have "tty_typed t2" using typed_drain_out [OF 2] typed_drain_echo [OF 1] a s by simp
  then show ?thesis using a by (auto simp: ttyhandle_out_def s 1 2 tty_typed_def)
qed

lemma typed_ttygetc: "ttygetc s = Inr (c, s') \<Longrightarrow> tty_typed (fst s) \<Longrightarrow> tty_typed (fst s')"
  by (cases s) (auto simp: ttygetc_def Let_def tty_typed_def split: if_splits)

lemma typed_put_out: "put_out ch s = Inr s' \<Longrightarrow> tty_typed (fst s) \<Longrightarrow> tty_typed (fst s')"
  by (cases s) (auto simp: put_out_def tty_typed_def split: if_splits)

lemma bind_InrE: "bind_res m f = Inr y \<Longrightarrow> \<exists>x. m = Inr x \<and> f x = Inr y"
  by (cases m) auto

lemma typed_ttyputc: "ttyputc ch s = Inr s' \<Longrightarrow> tty_typed (fst s) \<Longrightarrow> tty_typed (fst s')"
  by (auto simp: ttyputc_def split: if_splits dest!: bind_InrE intro: typed_put_out)

lemma typed_ttycontrol: "ttycontrol f s = Inr (r, s') \<Longrightarrow> tty_typed (fst s) \<Longrightarrow> tty_typed (fst s')"
  by (cases s) (auto simp: ttycontrol_def upd_tty_def tty_typed_def split: tc_func.splits if_splits)

text \<open>C35: No character is stored outside the buffers of a terminal. After \<^verbatim>\<open>ttyinit\<close> every head and tail lies in its buffer,
  and an arriving character, in every mode, is handled without a store outside the input buffer and leaves the heads and tails
  (and the length of the line) in range; so do output interrupts, characters read or written, and control calls. The
  exception is named in the hypotheses: an end-of-file character (or a carriage return that is translated to it) that
  starts a line in cooked mode when the tail is at the last place, after which the tail is one behind the buffer.\<close>

theorem tty_indices_in_buffers:
  assumes "length (tyibuff t0) = TY_IBUFLEN" "length (tyobuff t0) = TY_OBUFLEN" "length (tyebuff t0) = TY_EBUFLEN"
    and "tty_typed (fst s)" "\<not> last_place_eof ch (fst s)" "ch = TY_RETURN \<and> tyicrlf (fst s) \<longrightarrow> \<not> last_place_eof TY_NEWLINE (fst s)"
  shows "tty_typed (ttyinit t0) \<and> (\<exists>s'. ttyhandle_in ch s = Inr s' \<and> tty_typed (fst s')) \<and>
    tty_typed (fst (ttyhandle_out s)) \<and> (\<forall>c s'. ttygetc s = Inr (c, s') \<longrightarrow> tty_typed (fst s')) \<and>
    (\<forall>c s'. ttyputc c s = Inr s' \<longrightarrow> tty_typed (fst s')) \<and> (\<forall>f r s'. ttycontrol f s = Inr (r, s') \<longrightarrow> tty_typed (fst s'))"
proof -
  have "tty_typed (ttyinit t0)"
    using assms(1-3) by (simp add: ttyinit_def tty_typed_def TY_IBUFLEN_def TY_OBUFLEN_def TY_EBUFLEN_def)
  then show ?thesis
    using typed_handle_in [OF assms(4-6)] typed_handle_out [OF assms(4)] typed_ttygetc typed_ttyputc typed_ttycontrol assms(4) by blast
qed

theorem tty_indices_in_buffers_witness:
  "\<exists>s'. ttyhandle_in 65 (tty_boot\<lparr>tyitail := 127, tyihead := 127, tyimode := TY_IMCBREAK\<rparr>, uart_boot) = Inr s' \<and> tty_typed (fst s')"
proof -
  let ?t = "tty_boot\<lparr>tyitail := 127, tyihead := 127, tyimode := TY_IMCBREAK\<rparr>"
  have ty: "tty_typed tty_boot" using tty_boot_ok(1,2) by (simp add: tty_boot_def tty_typed_def ttyinit_def TY_IBUFLEN_def TY_OBUFLEN_def TY_EBUFLEN_def)
  then have "tty_typed ?t" "length (tyibuff tty_boot) = TY_IBUFLEN" "length (tyobuff tty_boot) = TY_OBUFLEN" "length (tyebuff tty_boot) = TY_EBUFLEN"
    by (simp_all add: tty_typed_def TY_IBUFLEN_def)
  then show ?thesis
    using tty_indices_in_buffers [of tty_boot "(?t, uart_boot)" 65] by (simp add: last_place_eof_def)
qed

end
