(* ===== verification/Shell.thy ===== *)
theory Shell
  imports Net_Prelude
begin

text \<open>
  The command line of the shell: the lexical analyser \<^verbatim>\<open>shell/lexan.c\<close>, the part of \<^verbatim>\<open>shell/shell.c\<close> that takes the
  tokens apart (background, redirection, command name), and \<^verbatim>\<open>shell/addargs.c\<close>, which puts the arguments on the stack
  of the new process. The arrays \<^verbatim>\<open>tokbuf\<close>, \<^verbatim>\<open>tok\<close> and \<^verbatim>\<open>toktyp\<close> are only ever extended at their end: they are the lists
  of what has been stored so far. A line is the list of its characters from \<^verbatim>\<open>p\<close> on; reading behind it is a fault.
\<close>

section \<open>The lexical analyser\<close>

definition SHELL_BUFLEN :: nat where "SHELL_BUFLEN = 128 + 1"
definition SHELL_MAXTOK :: nat where "SHELL_MAXTOK = 32"
definition sh_SYSERR :: int where "sh_SYSERR = -1"
definition NULLCH :: byte where "NULLCH = 0"
definition SH_NEWLINE :: byte where "SH_NEWLINE = 10"
definition SH_AMPER :: byte where "SH_AMPER = 38"
definition SH_BLANK :: byte where "SH_BLANK = 32"
definition SH_TAB :: byte where "SH_TAB = 9"
definition SH_SQUOTE :: byte where "SH_SQUOTE = 39"
definition SH_DQUOTE :: byte where "SH_DQUOTE = 34"
definition SH_LESS :: byte where "SH_LESS = 60"
definition SH_GREATER :: byte where "SH_GREATER = 62"

lemmas sh_codes = NULLCH_def SH_NEWLINE_def SH_AMPER_def SH_BLANK_def SH_TAB_def SH_SQUOTE_def SH_DQUOTE_def SH_LESS_def SH_GREATER_def

datatype toktype = SH_TOK_AMPER | SH_TOK_LESS | SH_TOK_GREATER | SH_TOK_OTHER

fun skip_white :: "byte list \<Rightarrow> byte list" where
  "skip_white (c # p) = (if c = SH_BLANK \<or> c = SH_TAB then skip_white p else c # p)"
| "skip_white [] = []"

text \<open>The string up to the closing quote; \<open>False\<close> when the line ends before.\<close>

fun quoted :: "byte \<Rightarrow> byte list \<Rightarrow> byte list \<Rightarrow> (bool \<times> byte list \<times> byte list) res" where
  "quoted quote (ch # p) tokbuf =
     (if ch = quote then Inr (True, p, tokbuf)
      else if ch = SH_NEWLINE \<or> ch = NULLCH then Inr (False, p, tokbuf)
      else quoted quote p (tokbuf @ [ch]))"
| "quoted quote [] tokbuf = Inl Out_of_bounds"

fun word :: "byte list \<Rightarrow> byte list \<Rightarrow> (byte list \<times> byte list) res" where
  "word (ch # p) tokbuf =
     (if ch \<noteq> SH_NEWLINE \<and> ch \<noteq> NULLCH \<and> ch \<noteq> SH_LESS \<and> ch \<noteq> SH_GREATER \<and> ch \<noteq> SH_BLANK \<and> ch \<noteq> SH_TAB \<and>
         ch \<noteq> SH_AMPER \<and> ch \<noteq> SH_SQUOTE \<and> ch \<noteq> SH_DQUOTE
      then word p (tokbuf @ [ch]) else Inr (ch # p, tokbuf))"
| "word [] tokbuf = Inl Out_of_bounds"

lemma length_skip_white: "length (skip_white p) \<le> length p"
  by (induction p rule: skip_white.induct) auto

lemma skip_white_Cons: "skip_white p = ch # p' \<Longrightarrow> length p' < length p"
  using length_skip_white [of p] by simp

lemma length_quoted: "quoted q p tb = Inr (ok, p', tb') \<Longrightarrow> length p' < length p"
  by (induction q p tb rule: quoted.induct) (fastforce split: if_splits)+

lemma length_word: "word p tb = Inr (p', tb') \<Longrightarrow> length p' \<le> length p"
  by (induction p tb rule: word.induct) (fastforce split: if_splits)+

text \<open>The result is the number of tokens or \<^verbatim>\<open>SYSERR\<close>, with the contents of the arrays.\<close>

function lexan_loop :: "byte list \<Rightarrow> byte list \<Rightarrow> (nat \<times> toktype) list \<Rightarrow> (int \<times> byte list \<times> (nat \<times> toktype) list) res" where
  "lexan_loop p tokbuf tok =
     (case p of
        [] \<Rightarrow> Inl Out_of_bounds
      | c # _ \<Rightarrow>
        if c = NULLCH \<or> c = SH_NEWLINE then Inr (int (length tok), tokbuf, tok)
        else if length tok \<ge> SHELL_MAXTOK then Inr (sh_SYSERR, tokbuf, tok)
        else
          (case skip_white p of
             [] \<Rightarrow> Inl Out_of_bounds
           | ch # p \<Rightarrow>
             if ch = SH_NEWLINE \<or> ch = NULLCH then Inr (int (length tok), tokbuf, tok)
             else if ch = SH_AMPER then lexan_loop p (tokbuf @ [ch, NULLCH]) (tok @ [(length tokbuf, SH_TOK_AMPER)])
             else if ch = SH_LESS then lexan_loop p (tokbuf @ [ch, NULLCH]) (tok @ [(length tokbuf, SH_TOK_LESS)])
             else if ch = SH_GREATER then lexan_loop p (tokbuf @ [ch, NULLCH]) (tok @ [(length tokbuf, SH_TOK_GREATER)])
             else if ch = SH_SQUOTE \<or> ch = SH_DQUOTE then
               (case quoted ch p tokbuf of
                  Inl e \<Rightarrow> Inl e
                | Inr (ok, p', tb) \<Rightarrow>
                    if ok then lexan_loop p' (tb @ [NULLCH]) (tok @ [(length tokbuf, SH_TOK_OTHER)])
                    else Inr (sh_SYSERR, tb, tok))
             else
               (case word p (tokbuf @ [ch]) of
                  Inl e \<Rightarrow> Inl e
                | Inr (p', tb) \<Rightarrow>
                    if hd p' \<in> {SH_SQUOTE, SH_DQUOTE, SH_LESS, SH_GREATER} then Inr (sh_SYSERR, tb, tok)
                    else lexan_loop p' (tb @ [NULLCH]) (tok @ [(length tokbuf, SH_TOK_OTHER)]))))"
  by pat_completeness auto
termination
proof (relation "measure (\<lambda>(p, _, _). length p)", goal_cases)
  case 1
  show ?case by simp
qed (use skip_white_Cons length_quoted length_word in \<open>fastforce dest!: skip_white_Cons\<close>)+
declare lexan_loop.simps [simp del]

definition lexan :: "byte list \<Rightarrow> (int \<times> byte list \<times> (nat \<times> toktype) list) res" where
  "lexan line = lexan_loop line [] []"

section \<open>Taking a command apart\<close>

record shcmd =
  sh_toks :: "(nat \<times> toktype) list"
  sh_tlen :: nat
  sh_in :: "nat option"
  sh_out :: "nat option"
  sh_backgnd :: bool

text \<open>One redirection at the end of the tokens; \<open>None\<close> is a syntax error. The program has this code twice.\<close>

definition redirect :: "shcmd \<Rightarrow> shcmd option" where
  "redirect c =
     (let toks = sh_toks c; n = length toks in
      if n \<ge> 3 \<and> (snd (toks ! (n - 2)) = SH_TOK_LESS \<or> snd (toks ! (n - 2)) = SH_TOK_GREATER) then
        if snd (toks ! (n - 1)) \<noteq> SH_TOK_OTHER then None
        else if snd (toks ! (n - 2)) = SH_TOK_LESS then
          if sh_in c \<noteq> None then None
          else Some (c\<lparr>sh_in := Some (fst (toks ! (n - 1))), sh_toks := take (n - 2) toks, sh_tlen := fst (toks ! (n - 2))\<rparr>)
        else
          if sh_out c \<noteq> None then None
          else Some (c\<lparr>sh_out := Some (fst (toks ! (n - 1))), sh_toks := take (n - 2) toks, sh_tlen := fst (toks ! (n - 2))\<rparr>)
      else Some c)"

definition shell_parse :: "nat \<Rightarrow> (nat \<times> toktype) list \<Rightarrow> shcmd option" where
  "shell_parse tlen toks =
     (let backgnd = (snd (last toks) = SH_TOK_AMPER);
          c = \<lparr>sh_toks = (if backgnd then butlast toks else toks), sh_tlen = (if backgnd then tlen - 2 else tlen),
               sh_in = None, sh_out = None, sh_backgnd = backgnd\<rparr>
      in case redirect c of
           None \<Rightarrow> None
         | Some c \<Rightarrow>
           (case redirect c of
              None \<Rightarrow> None
            | Some c \<Rightarrow>
                if sh_toks c = [] \<or> (\<exists>t \<in> set (sh_toks c). snd t \<noteq> SH_TOK_OTHER) then None else Some c))"

text \<open>The string that starts at an index of the token buffer.\<close>

definition string_at :: "byte list \<Rightarrow> nat \<Rightarrow> byte list" where
  "string_at tokbuf i = takeWhile (\<lambda>c. c \<noteq> NULLCH) (drop i tokbuf)"

text \<open>The comparison of a name in the command table with the first token.\<close>

fun same_name :: "byte list \<Rightarrow> byte list \<Rightarrow> bool" where
  "same_name (s # src) (c # cmp) = (if s \<noteq> NULLCH then if c \<noteq> s then False else same_name src cmp else c = NULLCH)"
| "same_name _ _ = False"

fun find_cmd :: "byte list list \<Rightarrow> byte list \<Rightarrow> nat \<Rightarrow> nat option" where
  "find_cmd [] tokbuf j = None"
| "find_cmd (cname # cmdtab) tokbuf j = (if same_name (cname @ [NULLCH]) tokbuf then Some j else find_cmd cmdtab tokbuf (j + 1))"

text \<open>An entry of the command table: the name and whether the shell itself runs the command.\<close>

record cmdent =
  cname :: "byte list"
  cbuiltin :: bool

text \<open>What the shell does with a line. \<open>Sh_Spawn\<close> carries what the code opens, creates and passes to \<^verbatim>\<open>addargs\<close>.\<close>

datatype shell_action =
  Sh_Synerr | Sh_Blank | Sh_Notfound "byte list" | Sh_Bgerr | Sh_Builtin nat "byte list list" | Sh_Spawn nat shcmd "byte list"

definition shell_line :: "cmdent list \<Rightarrow> byte list \<Rightarrow> shell_action res" where
  "shell_line cmdtab buf =
     (case lexan buf of
        Inl e \<Rightarrow> Inl e
      | Inr (ntok, tokbuf, toks) \<Rightarrow>
        Inr (if ntok = sh_SYSERR then Sh_Synerr
             else if ntok = 0 then Sh_Blank
             else
               (case shell_parse (length tokbuf) toks of
                  None \<Rightarrow> Sh_Synerr
                | Some c \<Rightarrow>
                  (case find_cmd (map cname cmdtab) tokbuf 0 of
                     None \<Rightarrow> Sh_Notfound (string_at tokbuf 0)
                   | Some j \<Rightarrow>
                       if cbuiltin (cmdtab ! j) then
                         if sh_in c \<noteq> None \<or> sh_out c \<noteq> None \<or> sh_backgnd c then Sh_Bgerr
                         else Sh_Builtin j (map (\<lambda>t. string_at tokbuf (fst t)) (sh_toks c))
                       else Sh_Spawn j c tokbuf))))"

section \<open>Arguments on the stack\<close>

fun arg_vector :: "nat \<Rightarrow> nat \<Rightarrow> nat list \<Rightarrow> mem \<Rightarrow> mem" where
  "arg_vector aptr argstr [] m = wr32 m aptr 0"
| "arg_vector aptr argstr (t # tok) m = arg_vector (aptr + 4) argstr tok (wr32 m aptr (of_nat (argstr + t)))"

function arg_search :: "nat \<Rightarrow> nat \<Rightarrow> u32 \<Rightarrow> u32 \<Rightarrow> mem \<Rightarrow> int \<times> mem" where
  "arg_search search base dummy argloc m =
     (if search < base then
        if rd32 m search = dummy then (1, wr32 m search argloc) else arg_search (search + 4) base dummy argloc m
      else (sh_SYSERR, m))"
  by pat_completeness auto
termination by (relation "measure (\<lambda>(s, b, _). b - s)") auto
declare arg_search.simps [simp del]

definition addargs :: "nat \<Rightarrow> nat \<Rightarrow> nat \<Rightarrow> nat list \<Rightarrow> int \<Rightarrow> byte list \<Rightarrow> u32 \<Rightarrow> mem \<Rightarrow> int \<times> mem" where
  "addargs prstkbase prstklen prstkptr tok tlen tokbuf dummy m =
     (if tok = [] \<or> tlen < 0 then (sh_SYSERR, m)
      else
        let aloc = prstkbase - prstklen + 4;
            argloc = (aloc + 3) div 4 * 4;
            argstr = argloc + 4 * (length tok + 1);
            m = arg_vector argloc argstr tok m;
            m = wr_bytes m argstr (take (nat tlen) tokbuf)
        in arg_search prstkptr prstkbase dummy (of_nat argloc) m)"

section \<open>The token buffer is large enough\<close>

definition line_end :: "byte \<Rightarrow> bool" where
  "line_end c \<longleftrightarrow> c = SH_NEWLINE \<or> c = NULLCH"

definition has_end :: "byte list \<Rightarrow> bool" where
  "has_end p \<longleftrightarrow> (\<exists>c \<in> set p. line_end c)"

definition plen :: "byte list \<Rightarrow> nat" where
  "plen p = length (takeWhile (\<lambda>c. \<not> line_end c) p)"

lemma plen_simps [simp]: "plen (c # p) = (if line_end c then 0 else Suc (plen p))" "plen [] = 0"
  "has_end (c # p) \<longleftrightarrow> line_end c \<or> has_end p" "\<not> has_end []"
  by (simp_all add: plen_def has_end_def)

lemma skip_white_end:
  "has_end p \<Longrightarrow> \<exists>ch p'. skip_white p = ch # p' \<and> has_end (ch # p') \<and> plen (ch # p') \<le> plen p"
proof (induction p rule: skip_white.induct)
  case (1 c p)
  show ?case
  proof (cases "c = SH_BLANK \<or> c = SH_TAB")
    case True
    then have nl: "\<not> line_end c" by (auto simp: line_end_def sh_codes)
    then have "has_end p" using 1(2) by simp
    from 1(1) [OF True this] show ?thesis using True nl by (metis le_SucI plen_simps(1) skip_white.simps(1))
  qed (use 1 in auto)
qed simp

lemma quoted_end:
  "has_end p \<Longrightarrow> \<not> line_end q \<Longrightarrow> \<exists>ok p' tb'. quoted q p tb = Inr (ok, p', tb') \<and> length tb' \<le> length tb + plen p \<and>
    (ok \<longrightarrow> has_end p' \<and> plen p' + length tb' + 1 = plen p + length tb)"
proof (induction q p tb rule: quoted.induct)
  case (1 q ch p tb)
  consider "ch = q" | "ch \<noteq> q" "line_end ch" | "ch \<noteq> q" "\<not> line_end ch" by blast
  then show ?case
  proof cases
    case 3
    then have "\<exists>ok p' tb'. quoted q p (tb @ [ch]) = Inr (ok, p', tb') \<and> length tb' \<le> length (tb @ [ch]) + plen p \<and>
        (ok \<longrightarrow> has_end p' \<and> plen p' + length tb' + 1 = plen p + length (tb @ [ch]))"
      using 1 by (simp add: line_end_def)
    then show ?thesis using 3 by (force simp: line_end_def)
  qed (use 1 in \<open>auto simp: line_end_def\<close>)
qed simp

lemma word_end:
  "has_end p \<Longrightarrow> \<exists>p' tb'. word p tb = Inr (p', tb') \<and> has_end p' \<and> p' \<noteq> [] \<and> plen p' + length tb' = plen p + length tb"
proof (induction p tb rule: word.induct)
  case (1 ch p tb)
  show ?case
  proof (cases "ch \<noteq> SH_NEWLINE \<and> ch \<noteq> NULLCH \<and> ch \<noteq> SH_LESS \<and> ch \<noteq> SH_GREATER \<and> ch \<noteq> SH_BLANK \<and> ch \<noteq> SH_TAB \<and>
         ch \<noteq> SH_AMPER \<and> ch \<noteq> SH_SQUOTE \<and> ch \<noteq> SH_DQUOTE")
    case True
    then have "\<not> line_end ch" by (simp add: line_end_def)
    moreover obtain p' tb' where "word p (tb @ [ch]) = Inr (p', tb')" "has_end p'" "p' \<noteq> []"
      "plen p' + length tb' = plen p + length (tb @ [ch])"
      using 1(1) [OF True] 1(2) \<open>\<not> line_end ch\<close> by auto
    ultimately show ?thesis using True by simp
  next
    case False
    then have "word (ch # p) tb = Inr (ch # p, tb)" unfolding word.simps by (simp only: if_False)
    then show ?thesis using 1(2) by simp
  qed
qed simp

lemma lexan_loop_step:
  assumes "p = c # p0" "\<not> (c = NULLCH \<or> c = SH_NEWLINE)" "\<not> length tok \<ge> SHELL_MAXTOK" "skip_white p = ch # p1"
  shows "lexan_loop p tb tok =
      (if ch = SH_NEWLINE \<or> ch = NULLCH then Inr (int (length tok), tb, tok)
       else if ch = SH_AMPER then lexan_loop p1 (tb @ [ch, NULLCH]) (tok @ [(length tb, SH_TOK_AMPER)])
       else if ch = SH_LESS then lexan_loop p1 (tb @ [ch, NULLCH]) (tok @ [(length tb, SH_TOK_LESS)])
       else if ch = SH_GREATER then lexan_loop p1 (tb @ [ch, NULLCH]) (tok @ [(length tb, SH_TOK_GREATER)])
       else if ch = SH_SQUOTE \<or> ch = SH_DQUOTE then
         (case quoted ch p1 tb of Inl e \<Rightarrow> Inl e
          | Inr (ok, p', tb') \<Rightarrow> if ok then lexan_loop p' (tb' @ [NULLCH]) (tok @ [(length tb, SH_TOK_OTHER)]) else Inr (sh_SYSERR, tb', tok))
       else (case word p1 (tb @ [ch]) of Inl e \<Rightarrow> Inl e
          | Inr (p', tb') \<Rightarrow> if hd p' \<in> {SH_SQUOTE, SH_DQUOTE, SH_LESS, SH_GREATER} then Inr (sh_SYSERR, tb', tok)
                           else lexan_loop p' (tb' @ [NULLCH]) (tok @ [(length tb, SH_TOK_OTHER)])))"
  unfolding assms(1) lexan_loop.simps [of "c # p0"] list.case if_not_P [OF assms(2)] if_not_P [OF assms(3)] assms(4) [unfolded assms(1)] ..

lemma lexan_loop_end:
  assumes "has_end p" "length tok \<le> SHELL_MAXTOK"
  shows "\<exists>r tb' tok'. lexan_loop p tb tok = Inr (r, tb', tok') \<and> length tok \<le> length tok' \<and> length tok' \<le> SHELL_MAXTOK \<and>
    length tb' + length tok \<le> length tb + plen p + length tok'"
  using assms
proof (induction "length p" arbitrary: p tb tok rule: less_induct)
  case less
  let ?G = "\<lambda>x. \<exists>r tb' tok'. x = Inr (r, tb', tok') \<and> length tok \<le> length tok' \<and> length tok' \<le> SHELL_MAXTOK \<and>
    length tb' + length tok \<le> length tb + plen p + length tok'"
  obtain c p0 where p: "p = c # p0" using less.prems(1) by (cases p) auto
  obtain ch p1 where sk: "skip_white p = ch # p1" "has_end (ch # p1)" "plen (ch # p1) \<le> plen p"
    using skip_white_end [OF less.prems(1)] by blast
  have len: "length p1 < length p" by (rule skip_white_Cons [OF sk(1)])
  consider (stop) "c = NULLCH \<or> c = SH_NEWLINE" | (full) "\<not> (c = NULLCH \<or> c = SH_NEWLINE)" "length tok \<ge> SHELL_MAXTOK"
    | (go) "\<not> (c = NULLCH \<or> c = SH_NEWLINE)" "\<not> length tok \<ge> SHELL_MAXTOK" by blast
  then show "?G (lexan_loop p tb tok)"
  proof cases
    case go
    have next_tok: "?G (lexan_loop p' tb' (tok @ [t]))"
      if "has_end p'" "length p' < length p" "length tb' + plen p' \<le> length tb + plen p + 1" for p' tb' t
    proof -
      have "length (tok @ [t]) \<le> SHELL_MAXTOK" using go(2) by simp
      from less.hyps [OF that(2,1) this, of tb'] that(3) show ?thesis by fastforce
    qed
    note step = lexan_loop_step [OF p go sk(1), of tb]
    show ?thesis
    proof (cases "line_end ch")
      case True
      then have "ch = SH_NEWLINE \<or> ch = NULLCH" by (simp add: line_end_def)
      then show ?thesis unfolding step using less.prems(2) by (simp only: if_True) auto
    next
      case False
      then have ne: "\<not> (ch = SH_NEWLINE \<or> ch = NULLCH)" by (simp add: line_end_def)
      have e1: "has_end p1" "Suc (plen p1) \<le> plen p" using sk(2,3) False by simp_all
      have sym: "?G (lexan_loop p1 (tb @ [ch, NULLCH]) (tok @ [t]))" for t
        by (rule next_tok) (use e1 len in simp_all)
      obtain ok p' tb' where q: "quoted ch p1 tb = Inr (ok, p', tb')" "length tb' \<le> length tb + plen p1"
        "ok \<longrightarrow> has_end p' \<and> plen p' + length tb' + 1 = plen p1 + length tb" using quoted_end [OF e1(1) False, of tb] by blast
      have qt: "?G (case quoted ch p1 tb of Inl e \<Rightarrow> Inl e
          | Inr (ok, p', tb') \<Rightarrow> if ok then lexan_loop p' (tb' @ [NULLCH]) (tok @ [(length tb, SH_TOK_OTHER)]) else Inr (sh_SYSERR, tb', tok))"
      proof (cases ok)
        case True
        have "?G (lexan_loop p' (tb' @ [NULLCH]) (tok @ [(length tb, SH_TOK_OTHER)]))"
          by (rule next_tok) (use True q e1 len length_quoted [OF q(1)] in auto)
        then show ?thesis using True by (simp add: q(1))
      next
        case False
        then show ?thesis using q(2) e1(2) less.prems(2) by (simp add: q(1))
      qed
      obtain p2 tb2 where w: "word p1 (tb @ [ch]) = Inr (p2, tb2)" "has_end p2" "plen p2 + length tb2 = plen p1 + length (tb @ [ch])"
        using word_end [OF e1(1), of "tb @ [ch]"] by blast
      have wd: "?G (case word p1 (tb @ [ch]) of Inl e \<Rightarrow> Inl e
          | Inr (p', tb') \<Rightarrow> if hd p' \<in> {SH_SQUOTE, SH_DQUOTE, SH_LESS, SH_GREATER} then Inr (sh_SYSERR, tb', tok)
                           else lexan_loop p' (tb' @ [NULLCH]) (tok @ [(length tb, SH_TOK_OTHER)]))"
      proof (cases "hd p2 \<in> {SH_SQUOTE, SH_DQUOTE, SH_LESS, SH_GREATER}")
        case True
        then show ?thesis using w e1(2) less.prems(2) unfolding w(1) sum.case prod.case if_P [OF True] by auto
      next
        case F: False
        have "?G (lexan_loop p2 (tb2 @ [NULLCH]) (tok @ [(length tb, SH_TOK_OTHER)]))"
          by (rule next_tok) (use w e1 len length_word [OF w(1)] in auto)
        then show ?thesis unfolding w(1) sum.case prod.case if_not_P [OF F] .
      qed
      show ?thesis
        unfolding step if_not_P [OF ne] using sym qt wd by presburger
    qed
  next
    case stop
    then have "lexan_loop p tb tok = Inr (int (length tok), tb, tok)"
      unfolding p lexan_loop.simps [of "c # p0"] by simp
    then show ?thesis using less.prems(2) by auto
  next
    case full
    then have "lexan_loop p tb tok = Inr (sh_SYSERR, tb, tok)"
      unfolding p lexan_loop.simps [of "c # p0"] by simp
    then show ?thesis using less.prems(2) by auto
  qed
qed

text \<open>C36: The analyser returns, with a number of tokens or \<^verbatim>\<open>SYSERR\<close>, on every line of the terminal (at most 128 characters
  before a newline or null character), and never stores more than the 32 entries of \<^verbatim>\<open>tok\<close> and the
  characters that \<^verbatim>\<open>tokbuf\<close> has room for, not even before it finds an error.\<close>

theorem lexan_stays_in_buffers:
  assumes "has_end line" "plen line < SHELL_BUFLEN"
  shows "\<exists>r tokbuf tok. lexan line = Inr (r, tokbuf, tok) \<and> length tok \<le> SHELL_MAXTOK \<and> length tokbuf < SHELL_BUFLEN + SHELL_MAXTOK"
  using lexan_loop_end [OF assms(1), of "[]" "[]"] assms(2) by (fastforce simp: lexan_def)

theorem lexan_stays_in_buffers_witness:
  "\<exists>r tokbuf tok. lexan (replicate 40 SH_AMPER @ [SH_NEWLINE]) = Inr (r, tokbuf, tok) \<and> length tok \<le> SHELL_MAXTOK \<and>
     length tokbuf < SHELL_BUFLEN + SHELL_MAXTOK"
proof (rule lexan_stays_in_buffers)
  show "has_end (replicate 40 SH_AMPER @ [SH_NEWLINE])" by (simp add: has_end_def line_end_def)
  have "takeWhile (\<lambda>c. \<not> line_end c) (replicate 40 SH_AMPER @ [SH_NEWLINE]) = replicate 40 SH_AMPER"
    by (subst takeWhile_append2) (simp_all add: line_end_def sh_codes)
  then show "plen (replicate 40 SH_AMPER @ [SH_NEWLINE]) < SHELL_BUFLEN" by (simp add: plen_def SHELL_BUFLEN_def)
qed

section \<open>Printing and reading tokens\<close>

datatype shtok = Sym toktype | Word "byte list" | Quoted byte "byte list"

fun sym_char :: "toktype \<Rightarrow> byte" where
  "sym_char SH_TOK_AMPER = SH_AMPER"
| "sym_char SH_TOK_LESS = SH_LESS"
| "sym_char SH_TOK_GREATER = SH_GREATER"
| "sym_char SH_TOK_OTHER = NULLCH"

fun render :: "shtok \<Rightarrow> byte list" where
  "render (Sym t) = [sym_char t]"
| "render (Word w) = w"
| "render (Quoted q w) = q # w @ [q]"

fun tokstr :: "shtok \<Rightarrow> byte list" where
  "tokstr (Sym t) = [sym_char t]"
| "tokstr (Word w) = w"
| "tokstr (Quoted q w) = w"

fun toktyp :: "shtok \<Rightarrow> toktype" where
  "toktyp (Sym t) = t"
| "toktyp (Word w) = SH_TOK_OTHER"
| "toktyp (Quoted q w) = SH_TOK_OTHER"

definition plain :: "byte \<Rightarrow> bool" where
  "plain c \<longleftrightarrow> c \<notin> {SH_NEWLINE, NULLCH, SH_LESS, SH_GREATER, SH_BLANK, SH_TAB, SH_AMPER, SH_SQUOTE, SH_DQUOTE}"

fun valid_tok :: "shtok \<Rightarrow> bool" where
  "valid_tok (Sym t) \<longleftrightarrow> t \<noteq> SH_TOK_OTHER"
| "valid_tok (Word w) \<longleftrightarrow> w \<noteq> [] \<and> list_all plain w"
| "valid_tok (Quoted q w) \<longleftrightarrow> (q = SH_SQUOTE \<or> q = SH_DQUOTE) \<and> list_all (\<lambda>c. c \<noteq> q \<and> \<not> line_end c) w"

definition white :: "byte list \<Rightarrow> bool" where
  "white ws \<longleftrightarrow> list_all (\<lambda>c. c = SH_BLANK \<or> c = SH_TAB) ws"

text \<open>A word has to be followed by white space, an ampersand or the end of the line.\<close>

fun spaced :: "bool \<Rightarrow> (byte list \<times> shtok) list \<Rightarrow> bool" where
  "spaced after_word [] \<longleftrightarrow> True"
| "spaced after_word ((ws, t) # r) \<longleftrightarrow> white ws \<and> valid_tok t \<and> (after_word \<longrightarrow> ws \<noteq> [] \<or> t = Sym SH_TOK_AMPER) \<and>
     spaced (\<exists>w. t = Word w) r"

definition print_toks :: "(byte list \<times> shtok) list \<Rightarrow> byte list" where
  "print_toks = concat \<circ> map (\<lambda>(ws, t). ws @ render t)"

definition tok_text :: "shtok list \<Rightarrow> byte list" where
  "tok_text = concat \<circ> map (\<lambda>t. tokstr t @ [NULLCH])"

fun tok_index :: "nat \<Rightarrow> shtok list \<Rightarrow> (nat \<times> toktype) list" where
  "tok_index n [] = []"
| "tok_index n (t # ts) = (n, toktyp t) # tok_index (n + length (tokstr t) + 1) ts"

lemma length_tok_index [simp]: "length (tok_index n ts) = length ts"
  by (induction ts arbitrary: n) auto

lemma skip_white_append: "white ws \<Longrightarrow> c \<noteq> SH_BLANK \<Longrightarrow> c \<noteq> SH_TAB \<Longrightarrow> skip_white (ws @ c # p) = c # p"
  by (induction ws) (auto simp: white_def)

lemma quoted_copies: "list_all (\<lambda>c. c \<noteq> q \<and> \<not> line_end c) w \<Longrightarrow> quoted q (w @ q # p) tb = Inr (True, p, tb @ w)"
  by (induction w arbitrary: tb) (auto simp: line_end_def)

lemma word_copies: "list_all plain w \<Longrightarrow> \<not> plain c \<Longrightarrow> word (w @ c # p) tb = Inr (c # p, tb @ w)"
  by (induction w arbitrary: tb) (auto simp: plain_def)

lemma not_special:
  assumes "plain c"
  shows "c \<noteq> SH_NEWLINE" "c \<noteq> NULLCH" "c \<noteq> SH_LESS" "c \<noteq> SH_GREATER" "c \<noteq> SH_BLANK" "c \<noteq> SH_TAB" "c \<noteq> SH_AMPER" "c \<noteq> SH_SQUOTE" "c \<noteq> SH_DQUOTE"
  using assms by (auto simp: plain_def)

lemma lexan_loop_token:
  assumes "white ws" "valid_tok t" "length tok < SHELL_MAXTOK"
    "(\<exists>w. t = Word w) \<Longrightarrow> p \<noteq> [] \<and> (line_end (hd p) \<or> hd p \<in> {SH_BLANK, SH_TAB, SH_AMPER})"
  shows "lexan_loop (ws @ render t @ p) tb tok = lexan_loop p (tb @ tokstr t @ [NULLCH]) (tok @ [(length tb, toktyp t)])"
proof -
  obtain ch p1 where r: "render t @ p = ch # p1" using assms(2) by (cases t) (auto simp: neq_Nil_conv)
  have ch: "ch \<noteq> SH_BLANK" "ch \<noteq> SH_TAB" "ch \<noteq> SH_NEWLINE" "ch \<noteq> NULLCH"
    using r assms(2) by (cases t; (auto simp: neq_Nil_conv not_special dest: not_special) ; (cases "toktyp t"; auto simp: sh_codes)?)+
  have sk: "skip_white (ws @ ch # p1) = ch # p1" by (rule skip_white_append [OF assms(1) ch(1,2)])
  obtain c q where c: "ws @ ch # p1 = c # q" by (cases ws) auto
  have ce: "\<not> (c = NULLCH \<or> c = SH_NEWLINE)"
    using c ch assms(1) by (cases ws) (auto simp: white_def sh_codes)
  have ne: "\<not> (ch = SH_NEWLINE \<or> ch = NULLCH)" using ch by simp
  have full: "\<not> length tok \<ge> SHELL_MAXTOK" using assms(3) by simp
  have "skip_white (c # q) = ch # p1" using sk c by simp
  note step = lexan_loop_step [OF HOL.refl ce full this, of tb]
  show ?thesis
  proof (cases t)
    case (Sym y)
    then have "ch = sym_char y" "p1 = p" "y \<noteq> SH_TOK_OTHER" using r assms(2) by auto
    then show ?thesis using Sym unfolding r c step if_not_P [OF ne] by (cases y) (auto simp: sh_codes)
  next
    case (Word w)
    then obtain w' where w: "w = ch # w'" "p1 = w' @ p" "list_all plain w'" "plain ch" using r assms(2) by (cases w) auto
    obtain d p2 where p: "p = d # p2" "\<not> plain d" "d \<notin> {SH_SQUOTE, SH_DQUOTE, SH_LESS, SH_GREATER}"
      using assms(4) Word by (cases p) (auto simp: plain_def line_end_def sh_codes)
    have "word p1 (tb @ [ch]) = Inr (p, tb @ w)" using word_copies [OF w(3) p(2), of p2 "tb @ [ch]"] p(1) w(1,2) by simp
    then show ?thesis
      using Word p(1,3) not_special [OF w(4)] unfolding r c step by simp
  next
    case (Quoted q' w)
    then have q: "q' = ch" "p1 = w @ ch # p" "ch = SH_SQUOTE \<or> ch = SH_DQUOTE" "list_all (\<lambda>c. c \<noteq> ch \<and> \<not> line_end c) w"
      using r assms(2) by auto
    have "quoted ch p1 tb = Inr (True, p, tb @ w)" unfolding q(2) by (rule quoted_copies [OF q(4)])
    moreover have "ch \<noteq> SH_AMPER" "ch \<noteq> SH_LESS" "ch \<noteq> SH_GREATER" using q(3) by (auto simp: sh_codes)
    ultimately show ?thesis using Quoted q(3) ne unfolding r c step by simp
  qed
qed

lemma after_word:
  assumes "spaced True items" "white ws" "line_end e"
  shows "print_toks items @ ws @ e # p \<noteq> [] \<and> (line_end (hd (print_toks items @ ws @ e # p)) \<or>
    hd (print_toks items @ ws @ e # p) \<in> {SH_BLANK, SH_TAB, SH_AMPER})"
proof (cases items)
  case Nil
  then show ?thesis using assms(2,3) by (cases ws) (auto simp: print_toks_def white_def)
next
  case (Cons it r)
  then obtain ws1 t where "items = (ws1, t) # r" by (cases it) auto
  then show ?thesis using assms(1) by (cases ws1) (auto simp: print_toks_def white_def)
qed

lemma lexan_loop_tokens:
  assumes "spaced aw items" "length tok + length items \<le> SHELL_MAXTOK" "white ws" "line_end e"
    "length tok + length items = SHELL_MAXTOK \<Longrightarrow> ws = []"
  shows "lexan_loop (print_toks items @ ws @ e # p) tb tok =
    Inr (int (length tok + length items), tb @ tok_text (map snd items), tok @ tok_index (length tb) (map snd items))"
  using assms
proof (induction items arbitrary: tb tok aw)
  case Nil
  have e: "e \<noteq> SH_BLANK" "e \<noteq> SH_TAB" "e = SH_NEWLINE \<or> e = NULLCH" using Nil.prems(4) by (auto simp: line_end_def sh_codes)
  show ?case
  proof (cases ws)
    case Nil
    then show ?thesis using e by (auto simp: print_toks_def tok_text_def lexan_loop.simps [of "e # p"])
  next
    case (Cons w ws')
    then have full: "\<not> length tok \<ge> SHELL_MAXTOK" using Nil.prems(2,5) by auto
    have w: "\<not> (w = NULLCH \<or> w = SH_NEWLINE)" using Nil.prems(3) Cons by (auto simp: white_def sh_codes)
    have "skip_white (ws @ e # p) = e # p" by (rule skip_white_append [OF Nil.prems(3) e(1,2)])
    then have "skip_white (w # ws' @ e # p) = e # p" using Cons by simp
    from lexan_loop_step [OF HOL.refl w full this, of tb] show ?thesis
      using e(3) Cons by (auto simp: print_toks_def tok_text_def)
  qed
next
  case (Cons it items)
  obtain ws1 t where it: "it = (ws1, t)" by fastforce
  have sp: "white ws1" "valid_tok t" "spaced (\<exists>w. t = Word w) items" using Cons.prems(1) it by auto
  have wd: "(\<exists>w. t = Word w) \<Longrightarrow> print_toks items @ ws @ e # p \<noteq> [] \<and> (line_end (hd (print_toks items @ ws @ e # p)) \<or>
      hd (print_toks items @ ws @ e # p) \<in> {SH_BLANK, SH_TAB, SH_AMPER})"
    using after_word [OF _ Cons.prems(3,4), of items p] sp(3) by simp
  have n: "length tok < SHELL_MAXTOK" using Cons.prems(2) by simp
  have "lexan_loop (print_toks (it # items) @ ws @ e # p) tb tok =
      lexan_loop (print_toks items @ ws @ e # p) (tb @ tokstr t @ [NULLCH]) (tok @ [(length tb, toktyp t)])"
    using lexan_loop_token [OF sp(1,2) n wd, of tb] by (simp add: print_toks_def it)
  also have "\<dots> = Inr (int (length (tok @ [(length tb, toktyp t)]) + length items), (tb @ tokstr t @ [NULLCH]) @ tok_text (map snd items),
      (tok @ [(length tb, toktyp t)]) @ tok_index (length (tb @ tokstr t @ [NULLCH])) (map snd items))"
    by (rule Cons.IH [OF sp(3)]) (use Cons.prems in auto)
  finally show ?case by (simp add: it tok_text_def)
qed

text \<open>What is printed as tokens is read as these tokens. A line of up to 32 words, quoted strings and symbols, with white
  space where a word would run into the next token, gives exactly these tokens, each with its type and its
  text without quotes. (With 32 tokens no white space may follow, or the line is refused.)\<close>

theorem lexan_round_trip:
  assumes "spaced False items" "length items \<le> SHELL_MAXTOK" "white ws" "line_end e" "length items = SHELL_MAXTOK \<Longrightarrow> ws = []"
  shows "lexan (print_toks items @ ws @ [e]) =
    Inr (int (length items), tok_text (map snd items), tok_index 0 (map snd items))"
  using lexan_loop_tokens [OF assms(1) _ assms(3,4), of "[]" "[]" "[]"] assms(2,5) by (simp add: lexan_def)

text \<open>Two words and a quoted string: \<^verbatim>\<open>cp "a b" > c\<close>.\<close>

theorem lexan_round_trip_witness:
  "lexan ([99, 112, 32, 34, 97, 32, 98, 34, 62, 32, 99] @ [] @ [SH_NEWLINE]) =
     Inr (4, [99, 112, 0, 97, 32, 98, 0, 62, 0, 99, 0], [(0, SH_TOK_OTHER), (3, SH_TOK_OTHER), (7, SH_TOK_GREATER), (9, SH_TOK_OTHER)])"
  using lexan_round_trip [of "[([], Word [99, 112]), ([32], Quoted 34 [97, 32, 98]), ([], Sym SH_TOK_GREATER), ([32], Word [99])]" "[]" SH_NEWLINE]
  by (simp add: print_toks_def tok_text_def white_def plain_def line_end_def sh_codes SHELL_MAXTOK_def)

section \<open>Commands\<close>

lemma tok_text_simps [simp]: "tok_text [] = []" "tok_text (t # ts) = tokstr t @ NULLCH # tok_text ts"
  "tok_text (ts @ us) = tok_text ts @ tok_text us"
  by (simp_all add: tok_text_def)

lemma tok_index_append: "tok_index n (ts @ us) = tok_index n ts @ tok_index (n + length (tok_text ts)) us"
  by (induction ts arbitrary: n) (auto simp: add_ac)

lemma snd_tok_index: "map snd (tok_index n ts) = map toktyp ts"
  by (induction ts arbitrary: n) auto

lemma no_null: "valid_tok t \<Longrightarrow> NULLCH \<notin> set (tokstr t)"
  by (cases t) (auto simp: list_all_iff plain_def line_end_def sh_codes elim: sym_char.elims)

lemma takeWhile_null: "NULLCH \<notin> set xs \<Longrightarrow> takeWhile (\<lambda>c. c \<noteq> NULLCH) (xs @ NULLCH # r) = xs"
  by (induction xs) auto

lemma string_at_token: "NULLCH \<notin> set (tokstr t) \<Longrightarrow> string_at (tok_text (ts @ t # us)) (length (tok_text ts)) = tokstr t"
  by (simp add: string_at_def takeWhile_null)

lemma strings_at_index:
  "\<forall>t \<in> set us. NULLCH \<notin> set (tokstr t) \<Longrightarrow>
   map (\<lambda>x. string_at (tok_text (ts @ us @ vs)) (fst x)) (tok_index (length (tok_text ts)) us) = map tokstr us"
proof (induction us arbitrary: ts)
  case (Cons u us)
  have "string_at (tok_text (ts @ u # us @ vs)) (length (tok_text ts)) = tokstr u"
    using string_at_token [of u ts "us @ vs"] Cons.prems by simp
  moreover have "map (\<lambda>x. string_at (tok_text ((ts @ [u]) @ us @ vs)) (fst x)) (tok_index (length (tok_text (ts @ [u]))) us) = map tokstr us"
    by (rule Cons.IH) (use Cons.prems in simp)
  ultimately show ?case by simp
qed simp

lemma redirect_none: "\<forall>t \<in> set (sh_toks c). snd t = SH_TOK_OTHER \<Longrightarrow> redirect c = Some c"
  using nth_mem [of "length (sh_toks c) - 2" "sh_toks c"] by (fastforce simp: redirect_def Let_def)

lemma redirect_some:
  assumes "sh_toks c = T @ [(i, k), (j, SH_TOK_OTHER)]" "T \<noteq> []"
  shows "k = SH_TOK_LESS \<Longrightarrow> redirect c = (if sh_in c \<noteq> None then None else Some (c\<lparr>sh_in := Some j, sh_toks := T, sh_tlen := i\<rparr>))"
    "k = SH_TOK_GREATER \<Longrightarrow> redirect c = (if sh_out c \<noteq> None then None else Some (c\<lparr>sh_out := Some j, sh_toks := T, sh_tlen := i\<rparr>))"
proof -
  have "1 \<le> length T" using assms(2) by (cases T) auto
  then have f: "length (sh_toks c) \<ge> 3" "sh_toks c ! (length (sh_toks c) - 2) = (i, k)" "sh_toks c ! (length (sh_toks c) - 1) = (j, SH_TOK_OTHER)"
    "sh_toks c ! (length (sh_toks c) - Suc 0) = (j, SH_TOK_OTHER)" "take (length (sh_toks c) - 2) (sh_toks c) = T"
    by (simp_all add: assms(1) nth_append)
  show "k = SH_TOK_LESS \<Longrightarrow> redirect c = (if sh_in c \<noteq> None then None else Some (c\<lparr>sh_in := Some j, sh_toks := T, sh_tlen := i\<rparr>))"
    "k = SH_TOK_GREATER \<Longrightarrow> redirect c = (if sh_out c \<noteq> None then None else Some (c\<lparr>sh_out := Some j, sh_toks := T, sh_tlen := i\<rparr>))"
    using f(1) by (simp_all add: redirect_def Let_def f(2-5))
qed

type_synonym redirs = "(toktype \<times> shtok) list"

definition redir_toks :: "redirs \<Rightarrow> shtok list" where
  "redir_toks rs = concat (map (\<lambda>(k, f). [Sym k, f]) rs)"

definition redirs_ok :: "redirs \<Rightarrow> bool" where
  "redirs_ok rs \<longleftrightarrow> distinct (map fst rs) \<and> (\<forall>(k, f) \<in> set rs. (k = SH_TOK_LESS \<or> k = SH_TOK_GREATER) \<and> toktyp f = SH_TOK_OTHER)"

definition command_toks :: "shtok list \<Rightarrow> redirs \<Rightarrow> bool \<Rightarrow> shtok list" where
  "command_toks cmd rs bg = cmd @ redir_toks rs @ (if bg then [Sym SH_TOK_AMPER] else [])"

lemma redirs_cases:
  assumes "redirs_ok rs"
  obtains "rs = []" | k f where "rs = [(k, f)]" "k = SH_TOK_LESS \<or> k = SH_TOK_GREATER" "toktyp f = SH_TOK_OTHER"
    | k f k' f' where "rs = [(k, f), (k', f')]" "(k, k') = (SH_TOK_LESS, SH_TOK_GREATER) \<or> (k, k') = (SH_TOK_GREATER, SH_TOK_LESS)"
        "toktyp f = SH_TOK_OTHER" "toktyp f' = SH_TOK_OTHER"
proof -
  have "set (map fst rs) \<subseteq> {SH_TOK_LESS, SH_TOK_GREATER}" using assms by (auto simp: redirs_ok_def)
  then have "card (set (map fst rs)) \<le> card {SH_TOK_LESS, SH_TOK_GREATER}" by (intro card_mono) simp_all
  moreover have "card (set (map fst rs)) = length rs"
    using assms distinct_card [of "map fst rs"] by (simp only: redirs_ok_def length_map)
  ultimately have "length rs \<le> 2" by simp
  then consider "rs = []" | a where "rs = [a]" | a b where "rs = [a, b]"
    by (cases rs; cases "tl rs"; cases "tl (tl rs)") auto
  then show thesis
    using assms that by cases (auto simp: redirs_ok_def)
qed

text \<open>The two passes over the redirections leave the command.\<close>

lemma redirect_twice:
  assumes rs: "redirs_ok rs" and cmd: "cmd \<noteq> []" "\<forall>t \<in> set cmd. toktyp t = SH_TOK_OTHER"
    and c: "c = \<lparr>sh_toks = tok_index 0 (cmd @ redir_toks rs), sh_tlen = length (tok_text (cmd @ redir_toks rs)), sh_in = None, sh_out = None, sh_backgnd = bg\<rparr>"
    and tb: "tb = tok_text (cmd @ redir_toks rs @ us)" and nn: "\<forall>t \<in> set (cmd @ redir_toks rs). NULLCH \<notin> set (tokstr t)"
  shows "\<exists>c1 c2. redirect c = Some c1 \<and> redirect c1 = Some c2 \<and> sh_toks c2 = tok_index 0 cmd \<and> sh_tlen c2 = length (tok_text cmd) \<and>
    sh_backgnd c2 = bg \<and> map_option (string_at tb) (sh_in c2) = map_option tokstr (map_of rs SH_TOK_LESS) \<and>
    map_option (string_at tb) (sh_out c2) = map_option tokstr (map_of rs SH_TOK_GREATER)"
proof -
  have snd_cmd: "\<forall>x \<in> set (tok_index n cmd). snd x = SH_TOK_OTHER" for n
  proof
    fix x
    assume "x \<in> set (tok_index n cmd)"
    then have "snd x \<in> set (map snd (tok_index n cmd))" by simp
    then show "snd x = SH_TOK_OTHER" unfolding snd_tok_index using cmd(2) by auto
  qed
  have ne: "tok_index 0 cmd \<noteq> []" using cmd(1) by (cases cmd) auto
  from rs show ?thesis
  proof (cases rule: redirs_cases)
    case 1
    then show ?thesis using redirect_none [of c] snd_cmd by (simp add: c redir_toks_def)
  next
    case (2 k f)
    let ?i = "length (tok_text cmd)" and ?j = "length (tok_text (cmd @ [Sym k]))"
    have t: "sh_toks c = tok_index 0 cmd @ [(?i, k), (?j, SH_TOK_OTHER)]"
      using 2 by (simp add: c redir_toks_def tok_index_append)
    have "string_at tb ?j = tokstr f"
      using string_at_token [of f "cmd @ [Sym k]" us] nn 2(1) by (simp add: tb redir_toks_def)
    then have s: "string_at tb ?j = tokstr f" .
    from 2(2) show ?thesis
    proof
      assume k: "k = SH_TOK_LESS"
      let ?c = "c\<lparr>sh_in := Some ?j, sh_toks := tok_index 0 cmd, sh_tlen := ?i\<rparr>"
      have "redirect c = Some ?c" using redirect_some(1) [OF t ne k] by (simp add: c)
      moreover have "redirect ?c = Some ?c" by (rule redirect_none) (use snd_cmd in simp)
      ultimately show ?thesis using s 2(1) k by (simp add: c)
    next
      assume k: "k = SH_TOK_GREATER"
      let ?c = "c\<lparr>sh_out := Some ?j, sh_toks := tok_index 0 cmd, sh_tlen := ?i\<rparr>"
      have "redirect c = Some ?c" using redirect_some(2) [OF t ne k] by (simp add: c)
      moreover have "redirect ?c = Some ?c" by (rule redirect_none) (use snd_cmd in simp)
      ultimately show ?thesis using s 2(1) k by (simp add: c)
    qed
  next
    case (3 k f k' f')
    let ?i = "length (tok_text cmd)" and ?j = "length (tok_text (cmd @ [Sym k]))"
    let ?i' = "length (tok_text (cmd @ [Sym k, f]))" and ?j' = "length (tok_text (cmd @ [Sym k, f, Sym k']))"
    let ?T = "tok_index 0 cmd @ [(?i, k), (?j, SH_TOK_OTHER)]"
    have t: "sh_toks c = ?T @ [(?i', k'), (?j', SH_TOK_OTHER)]"
      using 3 by (simp add: c redir_toks_def tok_index_append)
    have s: "string_at tb ?j = tokstr f" "string_at tb ?j' = tokstr f'"
      using string_at_token [of f "cmd @ [Sym k]" "[Sym k', f'] @ us"] string_at_token [of f' "cmd @ [Sym k, f, Sym k']" us] nn 3(1)
      by (simp_all add: tb redir_toks_def)
    have T: "?T \<noteq> []" by simp
    from 3(2) show ?thesis
    proof (elim disjE)
      assume k: "(k, k') = (SH_TOK_LESS, SH_TOK_GREATER)"
      let ?c = "c\<lparr>sh_out := Some ?j', sh_toks := ?T, sh_tlen := ?i'\<rparr>"
      have "redirect c = Some ?c" using redirect_some(2) [OF t T] k by (simp add: c)
      moreover have "redirect ?c = Some (?c\<lparr>sh_in := Some ?j, sh_toks := tok_index 0 cmd, sh_tlen := ?i\<rparr>)"
        using redirect_some(1) [of ?c "tok_index 0 cmd" ?i k ?j] ne k by (simp add: c)
      ultimately show ?thesis using s 3(1) k by (simp add: c)
    next
      assume k: "(k, k') = (SH_TOK_GREATER, SH_TOK_LESS)"
      let ?c = "c\<lparr>sh_in := Some ?j', sh_toks := ?T, sh_tlen := ?i'\<rparr>"
      have "redirect c = Some ?c" using redirect_some(1) [OF t T] k by (simp add: c)
      moreover have "redirect ?c = Some (?c\<lparr>sh_out := Some ?j, sh_toks := tok_index 0 cmd, sh_tlen := ?i\<rparr>)"
        using redirect_some(2) [of ?c "tok_index 0 cmd" ?i k ?j] ne k by (simp add: c)
      ultimately show ?thesis using s 3(1) k by (simp add: c)
    qed
  qed
qed

lemma tok_index_Nil [simp]: "tok_index n ts = [] \<longleftrightarrow> ts = []"
  by (cases ts) auto

lemma shell_parse_command:
  assumes rs: "redirs_ok rs" and cmd: "cmd \<noteq> []" "\<forall>t \<in> set cmd. toktyp t = SH_TOK_OTHER"
    and tb: "tb = tok_text (command_toks cmd rs bg)" and nn: "\<forall>t \<in> set (cmd @ redir_toks rs). NULLCH \<notin> set (tokstr t)"
  obtains c where "shell_parse (length tb) (tok_index 0 (command_toks cmd rs bg)) = Some c"
    "sh_toks c = tok_index 0 cmd" "sh_tlen c = length (tok_text cmd)" "sh_backgnd c = bg"
    "map_option (string_at tb) (sh_in c) = map_option tokstr (map_of rs SH_TOK_LESS)"
    "map_option (string_at tb) (sh_out c) = map_option tokstr (map_of rs SH_TOK_GREATER)"
proof -
  let ?T = "cmd @ redir_toks rs" and ?us = "if bg then [Sym SH_TOK_AMPER] else []"
  define c0 where "c0 = \<lparr>sh_toks = tok_index 0 ?T, sh_tlen = length (tok_text ?T), sh_in = None, sh_out = None, sh_backgnd = bg\<rparr>"
  have ne: "?T \<noteq> []" using cmd(1) by simp
  have l: "snd (last (tok_index 0 ?T)) = SH_TOK_OTHER"
  proof -
    have "snd (last (tok_index 0 ?T)) = last (map toktyp ?T)"
      using ne last_map [of "tok_index 0 ?T" snd] by (simp add: snd_tok_index)
    moreover have "last (map toktyp ?T) = SH_TOK_OTHER"
      using rs by (cases rule: redirs_cases) (use cmd in \<open>auto simp: redir_toks_def last_map\<close>)
    ultimately show ?thesis by simp
  qed
  have tb': "tb = tok_text (cmd @ redir_toks rs @ ?us)" by (simp add: tb command_toks_def)
  obtain c1 c2 where c: "redirect c0 = Some c1" "redirect c1 = Some c2" "sh_toks c2 = tok_index 0 cmd" "sh_tlen c2 = length (tok_text cmd)"
    "sh_backgnd c2 = bg" "map_option (string_at tb) (sh_in c2) = map_option tokstr (map_of rs SH_TOK_LESS)"
    "map_option (string_at tb) (sh_out c2) = map_option tokstr (map_of rs SH_TOK_GREATER)"
    using redirect_twice [OF rs cmd c0_def tb' nn] by blast
  have "\<not> (sh_toks c2 = [] \<or> (\<exists>t \<in> set (sh_toks c2). snd t \<noteq> SH_TOK_OTHER))"
  proof -
    have "snd ` set (tok_index 0 cmd) = toktyp ` set cmd" using snd_tok_index [of 0 cmd] by (metis list.set_map)
    then show ?thesis using cmd unfolding c(3) by auto
  qed
  moreover have "\<lparr>sh_toks = (if snd (last (tok_index 0 (command_toks cmd rs bg))) = SH_TOK_AMPER then butlast (tok_index 0 (command_toks cmd rs bg)) else tok_index 0 (command_toks cmd rs bg)),
      sh_tlen = (if snd (last (tok_index 0 (command_toks cmd rs bg))) = SH_TOK_AMPER then length tb - 2 else length tb),
      sh_in = None, sh_out = None, sh_backgnd = (snd (last (tok_index 0 (command_toks cmd rs bg))) = SH_TOK_AMPER)\<rparr> = c0"
    using l by (cases bg) (auto simp: c0_def tb command_toks_def tok_index_append [of 0 "cmd @ redir_toks rs", simplified] butlast_append)
  ultimately show thesis
    using that [of c2] c by (simp add: shell_parse_def Let_def)
qed

lemma same_name_iff: "NULLCH \<notin> set s \<Longrightarrow> NULLCH \<notin> set w \<Longrightarrow> same_name (s @ [NULLCH]) (w @ NULLCH # r) \<longleftrightarrow> s = w"
proof (induction s arbitrary: w)
  case Nil
  then show ?case by (cases w) auto
next
  case (Cons a s)
  then show ?case by (cases w) auto
qed

lemma find_cmd_first:
  assumes "NULLCH \<notin> set w" "\<forall>n \<in> set names. NULLCH \<notin> set n" "j < length names" "names ! j = w" "\<forall>i < j. names ! i \<noteq> w"
  shows "find_cmd names (w @ NULLCH # r) k = Some (k + j)"
  using assms(2-)
proof (induction names arbitrary: j k)
  case (Cons n names)
  show ?case
  proof (cases j)
    case 0
    then show ?thesis using Cons.prems(1,3) by (simp add: same_name_iff assms(1))
  next
    case (Suc j')
    have "\<not> same_name (n @ [NULLCH]) (w @ NULLCH # r)"
      using Cons.prems(1,4) Suc by (force simp: same_name_iff assms(1))
    then have "find_cmd (n # names) (w @ NULLCH # r) k = find_cmd names (w @ NULLCH # r) (k + 1)" by simp
    also have "\<dots> = Some (k + 1 + j')"
      by (rule Cons.IH) (use Cons.prems Suc in force)+
    finally show ?thesis using Suc by simp
  qed
qed simp

lemma find_cmd_none:
  assumes "NULLCH \<notin> set w" "\<forall>n \<in> set names. NULLCH \<notin> set n \<and> n \<noteq> w"
  shows "find_cmd names (w @ NULLCH # r) k = None"
  using assms by (induction names arbitrary: k) (auto simp: same_name_iff)

lemma spaced_valid: "spaced aw items \<Longrightarrow> x \<in> set items \<Longrightarrow> valid_tok (snd x)"
  by (induction items arbitrary: aw) auto

text \<open>C15: A command line is taken apart into the command it was printed from: command words, up to one input
  and one output file in either order, and a background mark. The shell runs the first entry of the command
  table with the name of the first word: a builtin with exactly the words, unless there is a redirection or
  background mark, which it refuses; any other command is spawned with the words, the names of the files,
  the background mark, and the length that covers exactly the texts of the words in the token buffer.\<close>

theorem shell_runs_command:
  assumes items: "spaced False items" "map snd items = command_toks cmd rs bg" "length items \<le> SHELL_MAXTOK"
    "white ws" "line_end e" "length items = SHELL_MAXTOK \<Longrightarrow> ws = []"
    and rs: "redirs_ok rs" and cmd: "cmd \<noteq> []" "\<forall>t \<in> set cmd. toktyp t = SH_TOK_OTHER"
    and tab: "\<forall>c \<in> set cmdtab. NULLCH \<notin> set (cname c)" "j < length cmdtab" "cname (cmdtab ! j) = tokstr (hd cmd)"
    "\<forall>i < j. cname (cmdtab ! i) \<noteq> tokstr (hd cmd)"
  shows "\<exists>c tb. shell_line cmdtab (print_toks items @ ws @ [e]) =
      Inr (if cbuiltin (cmdtab ! j) then if rs \<noteq> [] \<or> bg then Sh_Bgerr else Sh_Builtin j (map tokstr cmd)
           else Sh_Spawn j c tb) \<and>
    map (\<lambda>t. string_at tb (fst t)) (sh_toks c) = map tokstr cmd \<and> take (sh_tlen c) tb = tok_text cmd \<and>
    map_option (string_at tb) (sh_in c) = map_option tokstr (map_of rs SH_TOK_LESS) \<and>
    map_option (string_at tb) (sh_out c) = map_option tokstr (map_of rs SH_TOK_GREATER) \<and> sh_backgnd c = bg"
proof -
  define tb where "tb = tok_text (command_toks cmd rs bg)"
  have n: "length items = length (command_toks cmd rs bg)" using items(2) by (metis length_map)
  then have n0: "length items \<noteq> 0" using cmd(1) by (simp add: command_toks_def)
  have lex: "lexan (print_toks items @ ws @ [e]) = Inr (int (length items), tb, tok_index 0 (command_toks cmd rs bg))"
    using lexan_loop_tokens [OF items(1) _ items(4,5), of "[]" "[]" "[]"] items(3,6) by (simp add: lexan_def items(2) tb_def)
  have nn: "\<forall>t \<in> set (cmd @ redir_toks rs). NULLCH \<notin> set (tokstr t)"
  proof
    fix t
    assume "t \<in> set (cmd @ redir_toks rs)"
    then have "t \<in> set (map snd items)" unfolding items(2) by (auto simp: command_toks_def)
    then show "NULLCH \<notin> set (tokstr t)" using spaced_valid [OF items(1)] no_null by auto
  qed
  obtain c where c: "shell_parse (length tb) (tok_index 0 (command_toks cmd rs bg)) = Some c"
    "sh_toks c = tok_index 0 cmd" "sh_tlen c = length (tok_text cmd)" "sh_backgnd c = bg"
    "map_option (string_at tb) (sh_in c) = map_option tokstr (map_of rs SH_TOK_LESS)"
    "map_option (string_at tb) (sh_out c) = map_option tokstr (map_of rs SH_TOK_GREATER)"
    using shell_parse_command [OF rs cmd tb_def nn] by blast
  have args: "map (\<lambda>t. string_at tb (fst t)) (sh_toks c) = map tokstr cmd"
    using strings_at_index [of cmd "[]" "redir_toks rs @ (if bg then [Sym SH_TOK_AMPER] else [])"] nn
    by (simp add: c(2) tb_def command_toks_def)
  have io: "sh_in c \<noteq> None \<or> sh_out c \<noteq> None \<longleftrightarrow> rs \<noteq> []"
  proof -
    have a: "sh_in c \<noteq> None \<longleftrightarrow> map_of rs SH_TOK_LESS \<noteq> None" using c(5) by (metis option.map_disc_iff)
    have b: "sh_out c \<noteq> None \<longleftrightarrow> map_of rs SH_TOK_GREATER \<noteq> None" using c(6) by (metis option.map_disc_iff)
    show ?thesis unfolding a b using rs by (cases rule: redirs_cases) auto
  qed
  have bge: "(sh_in c \<noteq> None \<or> sh_out c \<noteq> None \<or> sh_backgnd c) = (rs \<noteq> [] \<or> bg)" using io c(4) by blast
  obtain t ts where tt: "cmd = t # ts" using cmd(1) by (cases cmd) auto
  have f: "find_cmd (map cname cmdtab) tb 0 = Some (0 + j)"
    unfolding tb_def command_toks_def tt append_Cons tok_text_simps
    by (rule find_cmd_first) (use tab nn tt in auto)
  have "shell_line cmdtab (print_toks items @ ws @ [e]) =
      Inr (if cbuiltin (cmdtab ! j) then if rs \<noteq> [] \<or> bg then Sh_Bgerr else Sh_Builtin j (map tokstr cmd)
           else Sh_Spawn j c tb)"
    unfolding shell_line_def lex sum.case prod.case c(1) f option.case add_0 bge args using n0 by (simp add: sh_SYSERR_def)
  moreover have "take (sh_tlen c) tb = tok_text cmd" by (simp add: c(3) tb_def command_toks_def)
  ultimately show ?thesis using args c(4-6) by blast
qed

text \<open>\<^verbatim>\<open>cp "a b" < i > o &\<close>.\<close>

theorem shell_runs_command_witness:
  "\<exists>c tb. shell_line [\<lparr>cname = [108, 115], cbuiltin = True\<rparr>, \<lparr>cname = [99, 112], cbuiltin = False\<rparr>]
      ([99, 112, 32, 34, 97, 32, 98, 34, 32, 60, 105, 32, 62, 111, 38] @ [32] @ [SH_NEWLINE]) = Inr (Sh_Spawn 1 c tb) \<and>
    map (\<lambda>t. string_at tb (fst t)) (sh_toks c) = [[99, 112], [97, 32, 98]] \<and> take (sh_tlen c) tb = [99, 112, 0, 97, 32, 98, 0] \<and>
    map_option (string_at tb) (sh_in c) = Some [105] \<and> map_option (string_at tb) (sh_out c) = Some [111] \<and> sh_backgnd c"
proof -
  define cmd where "cmd = [Word [99, 112], Quoted 34 [97, 32, 98]]"
  define rs where "rs = [(SH_TOK_LESS, Word [105]), (SH_TOK_GREATER, Word [111])]"
  define items where "items = [([] :: byte list, Word [99, 112]), ([32], Quoted 34 [97, 32, 98]), ([32], Sym SH_TOK_LESS), ([], Word [105]), ([32], Sym SH_TOK_GREATER), ([], Word [111]), ([], Sym SH_TOK_AMPER)]"
  define cmdtab where "cmdtab = [\<lparr>cname = [108, 115 :: byte], cbuiltin = True\<rparr>, \<lparr>cname = [99, 112], cbuiltin = False\<rparr>]"
  have sp: "spaced False items"
    by (simp add: items_def white_def plain_def line_end_def sh_codes)
  have m: "map snd items = command_toks cmd rs True" by (simp add: items_def command_toks_def cmd_def rs_def redir_toks_def)
  have rs: "redirs_ok rs" by (simp add: redirs_ok_def rs_def)
  have p: "print_toks items = [99, 112, 32, 34, 97, 32, 98, 34, 32, 60, 105, 32, 62, 111, 38]"
    by (simp add: print_toks_def items_def sh_codes)
  have tab: "\<forall>c \<in> set cmdtab. NULLCH \<notin> set (cname c)" "1 < length cmdtab" "cname (cmdtab ! 1) = tokstr (hd cmd)"
    "\<forall>i < 1. cname (cmdtab ! i) \<noteq> tokstr (hd cmd)"
    by (simp_all add: cmdtab_def cmd_def sh_codes)
  have len: "length items \<le> SHELL_MAXTOK" "length items = SHELL_MAXTOK \<Longrightarrow> [32 :: byte] = []"
    by (simp_all add: items_def SHELL_MAXTOK_def)
  have cmd: "cmd \<noteq> []" "\<forall>t \<in> set cmd. toktyp t = SH_TOK_OTHER" by (simp_all add: cmd_def)
  have ends: "white [32]" "line_end SH_NEWLINE" by (simp_all add: white_def line_end_def sh_codes)
  have r: "tok_text cmd = [99, 112, 0, 97, 32, 98, 0]" "map tokstr cmd = [[99, 112], [97, 32, 98]]" "\<not> cbuiltin (cmdtab ! 1)"
    "map_option tokstr (map_of rs SH_TOK_LESS) = Some [105]" "map_option tokstr (map_of rs SH_TOK_GREATER) = Some [111]"
    by (simp_all add: cmd_def rs_def cmdtab_def NULLCH_def)
  show ?thesis
    using shell_runs_command [OF sp m len(1) ends len(2) rs cmd tab] r unfolding cmdtab_def [symmetric] p
    by simp
qed

section \<open>The arguments of the new process\<close>

lemma rd32_wr_bytes_out: "a + 4 \<le> b \<or> b + length bs \<le> a \<Longrightarrow> rd32 (wr_bytes m b bs) a = rd32 m a"
  by (auto simp: rd32_def rd16_wr_bytes_out)

definition pointer_block :: "nat \<Rightarrow> nat list \<Rightarrow> byte list" where
  "pointer_block argstr toks = concat (map (\<lambda>t. le32 (of_nat (argstr + t))) toks)"

lemma length_pointer_block [simp]: "length (pointer_block argstr toks) = 4 * length toks"
  by (induction toks) (auto simp: pointer_block_def)

lemma pointer_block_nth: "i < length toks \<Longrightarrow> take 4 (drop (4 * i) (pointer_block argstr toks)) = le32 (of_nat (argstr + toks ! i))"
proof (induction toks arbitrary: i)
  case (Cons t toks)
  then show ?case by (cases i) (auto simp: pointer_block_def)
qed simp

lemma arg_vector_block: "arg_vector aptr argstr toks m = wr_bytes m aptr (pointer_block argstr toks @ le32 0)"
proof (induction toks arbitrary: aptr m)
  case Nil
  then show ?case by (simp add: pointer_block_def wr32_def)
next
  case (Cons t toks)
  then show ?case by (simp add: pointer_block_def wr32_def wr_bytes_join)
qed

lemma arg_search_first:
  assumes "p + 4 * k < base" "rd32 m (p + 4 * k) = dummy" "\<forall>i < k. rd32 m (p + 4 * i) \<noteq> dummy"
  shows "arg_search p base dummy argloc m = (1, wr32 m (p + 4 * k) argloc)"
  using assms
proof (induction k arbitrary: p)
  case 0
  then show ?case by (simp add: arg_search.simps [of p])
next
  case (Suc k)
  have "rd32 m p \<noteq> dummy" using Suc.prems(3) [rule_format, of 0] by simp
  moreover have "arg_search (p + 4) base dummy argloc m = (1, wr32 m (p + 4 + 4 * k) argloc)"
  proof (rule Suc.IH)
    show "\<forall>i < k. rd32 m (p + 4 + 4 * i) \<noteq> dummy" using Suc.prems(3) [rule_format, of "Suc _"] by (simp add: add.assoc)
  qed (use Suc.prems in \<open>simp_all add: add.assoc\<close>)
  ultimately show ?case using Suc.prems(1) by (simp add: arg_search.simps [of p] add.assoc)
qed

text \<open>A C string in memory.\<close>

definition cstring :: "mem \<Rightarrow> nat \<Rightarrow> byte list \<Rightarrow> bool" where
  "cstring m a s \<longleftrightarrow> bytes m a (length s + 1) = s @ [NULLCH]"

lemma token_text_at:
  "i < length cmd \<Longrightarrow> map fst (tok_index n cmd) ! i = n + length (tok_text (take i cmd)) \<and>
   tok_text cmd = tok_text (take i cmd) @ (tokstr (cmd ! i) @ [NULLCH]) @ tok_text (drop (Suc i) cmd)"
proof (induction cmd arbitrary: i n)
  case (Cons t cmd)
  show ?case
  proof (cases i)
    case (Suc i')
    then have "i' < length cmd" using Cons.prems by simp
    note ih = Cons.IH [OF this, of "n + length (tokstr t) + 1"]
    have "map fst (tok_index (n + length (tokstr t) + 1) cmd) ! i' = n + length (tokstr t) + 1 + length (tok_text (take i' cmd))"
      using ih by blast
    moreover have "tok_text cmd = tok_text (take i' cmd) @ (tokstr (cmd ! i') @ [NULLCH]) @ tok_text (drop (Suc i') cmd)"
      using ih by blast
    ultimately show ?thesis using Suc by simp
  qed simp
qed simp

text \<open>C32: A new command process gets its words. With room for them at the low end of its stack, \<^verbatim>\<open>addargs\<close> finds the first
  word of the stack that holds the dummy argument and makes it a pointer to a vector of pointers to the words,
  each ending in a null byte, and a null pointer after them. Nothing else in memory changes.\<close>

theorem addargs_passes_words:
  assumes cmd: "cmd \<noteq> []" and tb: "take tlen tokbuf = tok_text cmd"
    and av: "av = (prstkbase - prstklen + 4 + 3) div 4 * 4"
    and room: "av + 4 * (length cmd + 1) + length (tok_text cmd) \<le> prstkptr"
    and found: "prstkptr + 4 * k < prstkbase" "rd32 m (prstkptr + 4 * k) = dummy" "\<forall>i < k. rd32 m (prstkptr + 4 * i) \<noteq> dummy"
    and addr: "prstkbase < 2 ^ 32"
  shows "\<exists>m'. addargs prstkbase prstklen prstkptr (map fst (tok_index 0 cmd)) (int tlen) tokbuf dummy m = (1, m') \<and>
    unat (rd32 m' (prstkptr + 4 * k)) = av \<and>
    (\<forall>i < length cmd. cstring m' (unat (rd32 m' (av + 4 * i))) (tokstr (cmd ! i))) \<and> rd32 m' (av + 4 * length cmd) = 0 \<and>
    (\<forall>x. x \<notin> {av..<av + 4 * (length cmd + 1) + length (tok_text cmd)} \<and> x \<notin> {prstkptr + 4 * k..<prstkptr + 4 * k + 4} \<longrightarrow> m' x = m x)"
proof -
  let ?toks = "map fst (tok_index 0 cmd)" and ?n = "length cmd" and ?s = "prstkptr + 4 * k"
  let ?str = "av + 4 * (?n + 1)"
  define B where "B = pointer_block ?str ?toks @ le32 0 @ tok_text cmd"
  have lB: "length B = 4 * (?n + 1) + length (tok_text cmd)" by (simp add: B_def)
  define m1 where "m1 = wr_bytes m av B"
  define m2 where "m2 = wr32 m1 ?s (of_nat av)"
  have m1: "wr_bytes (arg_vector av ?str ?toks m) ?str (take tlen tokbuf) = m1"
    by (simp add: arg_vector_block tb m1_def B_def wr_bytes_join)
  have above: "av + length B \<le> prstkptr + 4 * i" for i using room lB by simp
  have same: "rd32 m1 (prstkptr + 4 * i) = rd32 m (prstkptr + 4 * i)" for i
    unfolding m1_def by (rule rd32_wr_bytes_out) (use above in blast)
  have run: "addargs prstkbase prstklen prstkptr ?toks (int tlen) tokbuf dummy m = (1, m2)"
  proof -
    have "arg_search prstkptr prstkbase dummy (of_nat av) m1 = (1, m2)"
      unfolding m2_def by (rule arg_search_first) (use found same in auto)
    moreover have "?toks \<noteq> []" using cmd by simp
    ultimately show ?thesis using m1 unfolding addargs_def av [symmetric] Let_def by simp
  qed
  have in_B: "bytes m2 (av + j) l = take l (drop j B)" if "j + l \<le> length B" for j l
  proof -
    have "bytes m2 (av + j) l = bytes m1 (av + j) l"
      unfolding m2_def wr32_def by (rule bytes_wr_disjoint) (use that above [of k] in simp)
    also have "\<dots> = take l (drop j B)"
      unfolding m1_def using that by (subst bytes_wr_inside) auto
    finally show ?thesis .
  qed
  have small: "av + length B < 2 ^ 32" using above [of k] found(1) addr by linarith
  have ptr: "unat (rd32 m2 (av + 4 * i)) = ?str + length (tok_text (take i cmd))" if i: "i < ?n" for i
  proof -
    have "bytes m2 (av + 4 * i) 4 = take 4 (drop (4 * i) B)" by (rule in_B) (use i lB in simp)
    also have "\<dots> = take 4 (drop (4 * i) (pointer_block ?str ?toks))" using i by (simp add: B_def)
    also have "\<dots> = le32 (of_nat (?str + ?toks ! i))" by (rule pointer_block_nth) (use i in simp)
    finally have "rd32 m2 (av + 4 * i) = of_nat (?str + ?toks ! i)" by (rule rd32_le32)
    moreover have t: "?toks ! i = length (tok_text (take i cmd))" using token_text_at [OF i, of 0] by simp
    moreover have "length (tok_text (take i cmd)) \<le> length (tok_text cmd)" using token_text_at [OF i, of 0] by (metis length_append le_add1)
    moreover define A where "A = ?str + length (tok_text (take i cmd))"
    ultimately have "rd32 m2 (av + 4 * i) = of_nat A" "A < 2 ^ 32" using small lB by simp_all
    then have "unat (rd32 m2 (av + 4 * i)) = A" by (simp add: unat_of_nat)
    then show ?thesis by (simp only: A_def)
  qed
  have str: "cstring m2 (?str + length (tok_text (take i cmd))) (tokstr (cmd ! i))" if i: "i < ?n" for i
  proof -
    let ?b = "length (tok_text (take i cmd))" and ?w = "tokstr (cmd ! i) @ [NULLCH]"
    have split: "tok_text cmd = tok_text (take i cmd) @ ?w @ tok_text (drop (Suc i) cmd)" using token_text_at [OF i] by blast
    then have len: "?b + length ?w \<le> length (tok_text cmd)" by (metis add_le_cancel_left length_append le_add1)
    have "bytes m2 (av + (4 * (?n + 1) + ?b)) (length ?w) = take (length ?w) (drop (4 * (?n + 1) + ?b) B)"
      by (rule in_B) (use len lB in simp)
    also have "\<dots> = take (length ?w) (drop ?b (tok_text cmd))" by (simp add: B_def)
    also have "\<dots> = ?w" by (subst split) simp
    finally show ?thesis by (simp add: cstring_def add.assoc)
  qed
  have null: "rd32 m2 (av + 4 * ?n) = 0"
  proof (rule rd32_le32)
    have "bytes m2 (av + 4 * ?n) 4 = take 4 (drop (4 * ?n) B)" by (rule in_B) (use lB in simp)
    then show "bytes m2 (av + 4 * ?n) 4 = le32 0" by (simp add: B_def)
  qed
  have out: "m2 x = m x" if "x \<notin> {av..<av + 4 * (?n + 1) + length (tok_text cmd)}" "x \<notin> {?s..<?s + 4}" for x
  proof -
    have "m2 x = m1 x" unfolding m2_def wr32_def by (rule wr_bytes_out) (use that(2) in auto)
    also have "\<dots> = m x" unfolding m1_def by (rule wr_bytes_out) (use that(1) lB in auto)
    finally show ?thesis .
  qed
  have "rd32 m2 ?s = of_nat av" by (simp add: m2_def rd32_wr32)
  then have "unat (rd32 m2 ?s) = av" using small by (simp add: unat_of_nat)
  then show ?thesis using run ptr str null out by (intro exI [of _ m2]) simp
qed

text \<open>\<^verbatim>\<open>ls a\<close> on a stack of 64 bytes below 1084 with the dummy argument 777 at 1080.\<close>

theorem addargs_passes_words_witness:
  "\<exists>m'. addargs 1084 64 1076 [0, 3] 5 [108, 115, 0, 97, 0] 777 (wr32 (\<lambda>_. 0) 1080 777) = (1, m') \<and> unat (rd32 m' 1080) = 1024 \<and>
     cstring m' (unat (rd32 m' 1024)) [108, 115] \<and> cstring m' (unat (rd32 m' 1028)) [97] \<and> rd32 m' 1032 = 0 \<and>
     (\<forall>x. x \<notin> {1024..<1041} \<and> x \<notin> {1080..<1084} \<longrightarrow> m' x = wr32 (\<lambda>_. 0) 1080 777 x)"
proof -
  define m :: mem where "m = wr32 (\<lambda>_. 0) 1080 777"
  have 1: "rd32 m (1076 + 4 * 1) = 777" by (simp add: m_def rd32_wr32)
  have "rd32 m 1076 = rd32 (\<lambda>_. 0) 1076" unfolding m_def wr32_def by (rule rd32_wr_bytes_out) simp
  then have 2: "\<forall>i < 1. rd32 m (1076 + 4 * i) \<noteq> 777" by (simp add: rd32_def rd16_def)
  show ?thesis
    using addargs_passes_words [of "[Word [108, 115], Word [97]]" 5 "[108, 115, 0, 97, 0]" 1024 1084 64 1076 1 m 777, OF _ _ _ _ _ 1 2]
    unfolding m_def [symmetric] by (simp add: NULLCH_def less_Suc_eq all_conj_distrib flip: numeral_3_eq_3)
qed

end
