(* ===== verification/Lfs_Disk.thy ===== *)
theory Lfs_Disk
  imports Proc_Queue "HOL-Library.Signed_Division"
begin

text \<open>
  The disk side of the local file system (\<^verbatim>\<open>device/lfs/*.c\<close>, \<^verbatim>\<open>include/lfilesys.h\<close>) and the RAM disk it runs on
  (\<^verbatim>\<open>device/ram/*.c\<close>): the sectors, the images of the directory and of the index blocks, the two free lists, and the
  creation of a file system. \<^verbatim>\<open>read\<close> and \<^verbatim>\<open>write\<close> on \<^verbatim>\<open>LF_DISK_DEV\<close> are \<open>ramread\<close> and \<open>ramwrite\<close>, as
  \<^verbatim>\<open>config/conf.c\<close> enters them in the device switch table. A transfer outside the array is the fault \<open>Out_of_bounds\<close>.
\<close>

section \<open>The RAM disk\<close>

definition RM_BLKSIZ :: nat where "RM_BLKSIZ = 512"
definition RM_BLKS :: nat where "RM_BLKS = 200"

text \<open>\<^verbatim>\<open>memcpy\<close> of \<^verbatim>\<open>lib/memcpy.c\<close> copies forward, one byte at a time, whether the blocks overlap or not.\<close>

primrec memcpy :: "nat \<Rightarrow> nat \<Rightarrow> nat \<Rightarrow> mem \<Rightarrow> mem" where
  "memcpy d s 0 m = m"
| "memcpy d s (Suc n) m = memcpy (d + 1) (s + 1) n (m(d := m s))"

definition hopeless :: "byte list" where
  "hopeless = [104, 111, 112, 101, 108, 101, 115, 115]"

definition raminit :: "mem \<Rightarrow> int \<times> mem" where
  "raminit m = (OK_st, memcpy 8 0 (RM_BLKSIZ * RM_BLKS - 8) (wr_bytes m 0 hopeless))"

definition ramread :: "int \<Rightarrow> mem \<Rightarrow> (int \<times> byte list) res" where
  "ramread blk m =
     (if 0 \<le> blk \<and> blk < int RM_BLKS then Inr (OK_st, bytes m (RM_BLKSIZ * nat blk) RM_BLKSIZ)
      else Inl Out_of_bounds)"

definition ramwrite :: "byte list \<Rightarrow> int \<Rightarrow> mem \<Rightarrow> (int \<times> mem) res" where
  "ramwrite buff blk m =
     (if 0 \<le> blk \<and> blk < int RM_BLKS then Inr (OK_st, wr_bytes m (RM_BLKSIZ * nat blk) (take RM_BLKSIZ buff))
      else Inl Out_of_bounds)"

lemma memcpy_pattern:
  "(\<And>a. a < d \<Longrightarrow> m a = p (a mod 8)) \<Longrightarrow> 8 \<le> d \<Longrightarrow> a < d + n \<Longrightarrow> memcpy d (d - 8) n m a = p (a mod 8)"
proof (induction n arbitrary: d m)
  case (Suc n)
  have e: "d - 8 + 1 = d + 1 - 8" using Suc.prems by simp
  have "(m(d := m (d - 8))) a = p (a mod 8)" if "a < d + 1" for a
  proof (cases "a = d")
    case True
    then have "p ((d - 8) mod 8) = p (a mod 8)" using Suc.prems(2) by (simp add: le_mod_geq)
    then show ?thesis using True Suc.prems(1) [of "d - 8"] Suc.prems(2) by simp
  next
    case False
    then show ?thesis using that Suc.prems(1) by simp
  qed
  then have "memcpy (d + 1) (d + 1 - 8) n (m(d := m (d - 8))) a = p (a mod 8)"
    using Suc.prems(2,3) by (intro Suc.IH) simp_all
  then show ?case by (simp only: memcpy.simps e)
qed simp

lemma raminit_pattern:
  assumes "a < RM_BLKSIZ * RM_BLKS"
  shows "snd (raminit m) a = hopeless ! (a mod 8)"
proof -
  have "wr_bytes m 0 hopeless x = hopeless ! (x mod 8)" if "x < 8" for x
    using that by (simp add: wr_bytes_def hopeless_def)
  then show ?thesis using memcpy_pattern [of 8 "wr_bytes m 0 hopeless" "\<lambda>i. hopeless ! i" a "RM_BLKSIZ * RM_BLKS - 8"] assms
    by (simp add: raminit_def RM_BLKSIZ_def RM_BLKS_def)
qed

section \<open>Structures on the disk\<close>

type_synonym ibid32 = u32
type_synonym dbid32 = u32

definition LF_BLKSIZ :: nat where "LF_BLKSIZ = 512"
definition LF_NAME_LEN :: nat where "LF_NAME_LEN = 16"
definition LF_NUM_DIR_ENT :: nat where "LF_NUM_DIR_ENT = 20"
definition LF_INULL :: ibid32 where "LF_INULL = -1"
definition LF_DNULL :: dbid32 where "LF_DNULL = -1"
definition LF_IBLEN :: nat where "LF_IBLEN = 16"
definition LF_IDATA :: u32 where "LF_IDATA = 8192"
definition LF_IMASK :: u32 where "LF_IMASK = 0x00001fff"
definition LF_DMASK :: u32 where "LF_DMASK = 0x000001ff"
definition LF_AREA_IB :: int where "LF_AREA_IB = 1"
definition LF_AREA_DIR :: int where "LF_AREA_DIR = 0"
definition LFS_ID :: u32 where "LFS_ID = 0x58696E75"

record lfiblk =
  ib_next :: ibid32
  ib_offset :: u32
  ib_dba :: "dbid32 list"

record ldentry =
  ld_size :: u32
  ld_ilist :: ibid32
  ld_name :: "byte list"

record lfdir =
  lfd_fsysid :: u32
  lfd_vers :: u16
  lfd_subvers :: u16
  lfd_allzeros :: u32
  lfd_allones :: u32
  lfd_dfree :: dbid32
  lfd_ifree :: ibid32
  lfd_nfiles :: u32
  lfd_files :: "ldentry list"
  lfd_revid :: u32

text \<open>\<^verbatim>\<open>sizeof(struct lfiblk)\<close> is 72; identifiers are signed.\<close>

definition SZ_IBLK :: nat where "SZ_IBLK = 72"

definition ib2sect :: "ibid32 \<Rightarrow> int" where
  "ib2sect ib = sint ib sdiv 7 + LF_AREA_IB"

definition ib2disp :: "ibid32 \<Rightarrow> int" where
  "ib2disp ib = (sint ib smod 7) * int SZ_IBLK"

definition u16_at :: "byte list \<Rightarrow> nat \<Rightarrow> u16" where
  "u16_at bs i = rd16 (\<lambda>j. bs ! j) i"

definition u32_at :: "byte list \<Rightarrow> nat \<Rightarrow> u32" where
  "u32_at bs i = rd32 (\<lambda>j. bs ! j) i"

definition iblk_bytes :: "lfiblk \<Rightarrow> byte list" where
  "iblk_bytes x = le32 (ib_next x) @ le32 (ib_offset x) @ concat (map le32 (ib_dba x))"

definition iblk_of :: "byte list \<Rightarrow> lfiblk" where
  "iblk_of bs = \<lparr>ib_next = u32_at bs 0, ib_offset = u32_at bs 4,
     ib_dba = map (\<lambda>j. u32_at bs (8 + 4 * j)) [0..<LF_IBLEN]\<rparr>"

definition ldentry_bytes :: "ldentry \<Rightarrow> byte list" where
  "ldentry_bytes e = le32 (ld_size e) @ le32 (ld_ilist e) @ ld_name e"

definition ldentry_of :: "byte list \<Rightarrow> ldentry" where
  "ldentry_of bs = \<lparr>ld_size = u32_at bs 0, ld_ilist = u32_at bs 4, ld_name = take LF_NAME_LEN (drop 8 bs)\<rparr>"

definition dir_bytes :: "lfdir \<Rightarrow> byte list" where
  "dir_bytes d = le32 (lfd_fsysid d) @ le16 (lfd_vers d) @ le16 (lfd_subvers d) @ le32 (lfd_allzeros d) @
     le32 (lfd_allones d) @ le32 (lfd_dfree d) @ le32 (lfd_ifree d) @ le32 (lfd_nfiles d) @
     concat (map ldentry_bytes (lfd_files d)) @ le32 (lfd_revid d)"

definition dir_of :: "byte list \<Rightarrow> lfdir" where
  "dir_of bs = \<lparr>lfd_fsysid = u32_at bs 0, lfd_vers = u16_at bs 4, lfd_subvers = u16_at bs 6, lfd_allzeros = u32_at bs 8,
     lfd_allones = u32_at bs 12, lfd_dfree = u32_at bs 16, lfd_ifree = u32_at bs 20, lfd_nfiles = u32_at bs 24,
     lfd_files = map (\<lambda>j. ldentry_of (take 24 (drop (28 + 24 * j) bs))) [0..<LF_NUM_DIR_ENT],
     lfd_revid = u32_at bs 508\<rparr>"

lemma rd32_cong: "(\<And>k. k < 4 \<Longrightarrow> m (a + k) = m' (b + k)) \<Longrightarrow> rd32 m a = rd32 m' b"
proof -
  assume *: "\<And>k. k < 4 \<Longrightarrow> m (a + k) = m' (b + k)"
  show ?thesis using * [of 0] * [of 1] * [of 2] * [of 3]
    by (simp add: rd32_def rd16_def numeral_3_eq_3 numeral_2_eq_2)
qed

lemma u32_at_le32: "length xs = i \<Longrightarrow> u32_at (xs @ le32 w @ ys) i = w"
proof -
  assume "length xs = i"
  then have "u32_at (xs @ le32 w @ ys) i = rd32 (wr32 (\<lambda>_. 0) i w) i"
    unfolding u32_at_def by (intro rd32_cong) (simp add: wr32_def wr_bytes_def nth_append)
  then show ?thesis by (simp add: rd32_wr32)
qed

lemma u16_at_le16: "length xs = i \<Longrightarrow> u16_at (xs @ le16 w @ ys) i = w"
proof -
  assume "length xs = i"
  then have "u16_at (xs @ le16 w @ ys) i = rd16 (wr16 (\<lambda>_. 0) i w) i"
    by (auto simp: u16_at_def rd16_def wr16_def wr_bytes_def nth_append)
  then show ?thesis by (simp add: rd16_wr16)
qed

lemma u32_at_append2: "length xs \<le> i \<Longrightarrow> u32_at (xs @ ys) i = u32_at ys (i - length xs)"
  by (auto simp: u32_at_def nth_append intro!: rd32_cong)

lemma u32_at_append1: "i + 4 \<le> length xs \<Longrightarrow> u32_at (xs @ ys) i = u32_at xs i"
  by (auto simp: u32_at_def nth_append intro!: rd32_cong)

lemma length_concat_le32: "length (concat (map le32 ws)) = 4 * length ws"
  by (induction ws) auto

lemma u32_at_concat: "j < length ws \<Longrightarrow> u32_at (concat (map le32 ws) @ ys) (4 * j) = ws ! j"
proof (induction ws arbitrary: j)
  case (Cons w ws)
  show ?case
  proof (cases j)
    case 0
    then show ?thesis using u32_at_le32 [of "[]" 0 w "concat (map le32 ws) @ ys"] by simp
  next
    case (Suc j')
    then show ?thesis using Cons by (simp add: u32_at_append2)
  qed
qed simp

lemma length_iblk_bytes: "length (ib_dba x) = LF_IBLEN \<Longrightarrow> length (iblk_bytes x) = SZ_IBLK"
  by (simp add: iblk_bytes_def length_concat_le32 LF_IBLEN_def SZ_IBLK_def)

lemma iblk_of_bytes:
  assumes "length (ib_dba x) = LF_IBLEN"
  shows "iblk_of (iblk_bytes x) = x"
proof -
  have 1: "u32_at (iblk_bytes x) 0 = ib_next x"
    using u32_at_le32 [of "[]" 0 "ib_next x"] by (simp add: iblk_bytes_def)
  have 2: "u32_at (iblk_bytes x) 4 = ib_offset x"
    using u32_at_le32 [of "le32 (ib_next x)" 4 "ib_offset x"] by (simp add: iblk_bytes_def)
  have 3: "map (\<lambda>j. u32_at (iblk_bytes x) (8 + 4 * j)) [0..<LF_IBLEN] = ib_dba x"
  proof (rule nth_equalityI)
    fix j assume "j < length (map (\<lambda>j. u32_at (iblk_bytes x) (8 + 4 * j)) [0..<LF_IBLEN])"
    then have "j < length (ib_dba x)" using assms by simp
    then show "map (\<lambda>j. u32_at (iblk_bytes x) (8 + 4 * j)) [0..<LF_IBLEN] ! j = ib_dba x ! j"
      using u32_at_concat [of j "ib_dba x" "[]"] assms
      by (simp add: iblk_bytes_def u32_at_append2)
  qed (simp add: assms)
  show ?thesis by (simp add: iblk_of_def 1 2 3)
qed

section \<open>Index blocks\<close>

definition lfibclear :: "u32 \<Rightarrow> lfiblk" where
  "lfibclear offset = \<lparr>ib_next = LF_INULL, ib_offset = offset, ib_dba = replicate LF_IBLEN LF_DNULL\<rparr>"

text \<open>A negative displacement is in front of the local buffer.\<close>

definition lfibget :: "ibid32 \<Rightarrow> mem \<Rightarrow> lfiblk res" where
  "lfibget inum m =
     bind_res (ramread (ib2sect inum) m) (\<lambda>(_, dbuff).
       if ib2disp inum < 0 then Inl Out_of_bounds
       else Inr (iblk_of (take SZ_IBLK (drop (nat (ib2disp inum)) dbuff))))"

definition lfibput :: "ibid32 \<Rightarrow> lfiblk \<Rightarrow> mem \<Rightarrow> (int \<times> mem) res" where
  "lfibput inum ibuff m =
     (let diskblock = ib2sect inum in
      bind_res (ramread diskblock m) (\<lambda>(r, dbuff).
        if r = SYSERR_st then Inr (SYSERR_st, m)
        else if ib2disp inum < 0 then Inl Out_of_bounds
        else
          let to = nat (ib2disp inum);
              dbuff = take to dbuff @ iblk_bytes ibuff @ drop (to + SZ_IBLK) dbuff
          in bind_res (ramwrite dbuff diskblock m) (\<lambda>(_, m). Inr (OK_st, m))))"

text \<open>Where an index block and a data block lie in the array, for a disk with \<open>K\<close> sectors of index blocks.\<close>

definition ib_addr :: "ibid32 \<Rightarrow> nat" where
  "ib_addr k = 512 * (unat k div 7 + 1) + 72 * (unat k mod 7)"

definition db_addr :: "dbid32 \<Rightarrow> nat" where
  "db_addr d = 512 * unat d"

definition valid_ib :: "nat \<Rightarrow> ibid32 \<Rightarrow> bool" where
  "valid_ib K k \<longleftrightarrow> unat k < 7 * K \<and> K < RM_BLKS"

definition valid_db :: "nat \<Rightarrow> dbid32 \<Rightarrow> bool" where
  "valid_db K d \<longleftrightarrow> K < unat d \<and> unat d < RM_BLKS"

definition iblk_at :: "mem \<Rightarrow> ibid32 \<Rightarrow> lfiblk" where
  "iblk_at m k = iblk_of (bytes m (ib_addr k) SZ_IBLK)"

definition dblk_at :: "mem \<Rightarrow> dbid32 \<Rightarrow> byte list" where
  "dblk_at m d = bytes m (db_addr d) LF_BLKSIZ"

lemmas lf_sizes = RM_BLKSIZ_def RM_BLKS_def LF_BLKSIZ_def SZ_IBLK_def LF_IBLEN_def LF_AREA_IB_def LF_AREA_DIR_def

lemma sint_small:
  assumes "unat (k :: u32) < 2147483648"
  shows "sint k = int (unat k)"
proof -
  have "uint k = int (unat k)" by (rule uint_nat)
  then have "0 \<le> uint k" "uint k < 2147483648" using assms by linarith+
  moreover have "(2 :: int) ^ 31 = 2147483648" by simp
  ultimately have "- (2 ^ 31) \<le> uint k" "uint k < 2 ^ 31" by linarith+
  then have "signed_take_bit 31 (uint k) = uint k" by (rule signed_take_bit_int_eq_self)
  then have "sint k = uint k" by (simp only: sint_uint) simp
  then show ?thesis by (simp only: uint_nat)
qed

lemma sdiv_7: "int n sdiv 7 = int (n div 7)" "int n smod 7 = int (n mod 7)"
  by (cases "n = 0"; simp add: signed_divide_int_def signed_modulo_int_def of_nat_div of_nat_mod)+

lemma valid_ib_sect:
  assumes "valid_ib K k"
  shows "ib2sect k = int (unat k div 7 + 1)" "ib2disp k = int (72 * (unat k mod 7))"
    "unat k div 7 + 1 < RM_BLKS"
proof -
  have b: "unat k < 7 * K" "K < 200" using assms by (simp_all add: valid_ib_def lf_sizes)
  then have s: "sint k = int (unat k)" by (intro sint_small) simp
  show "ib2sect k = int (unat k div 7 + 1)" unfolding ib2sect_def s sdiv_7 by (simp add: lf_sizes)
  show "ib2disp k = int (72 * (unat k mod 7))" unfolding ib2disp_def s sdiv_7 by (simp add: lf_sizes)
  show "unat k div 7 + 1 < RM_BLKS" using b by (simp add: RM_BLKS_def)
qed

lemma ib_addr_inside:
  assumes "valid_ib K k"
  shows "512 \<le> ib_addr k" "ib_addr k + SZ_IBLK \<le> 512 * (K + 1)"
proof -
  have "unat k div 7 + 1 \<le> K" using assms by (simp add: valid_ib_def less_mult_imp_div_less mult.commute Suc_le_eq)
  moreover have "unat k mod 7 \<le> 6" by (simp add: less_Suc_eq_le [symmetric])
  ultimately show "512 \<le> ib_addr k" "ib_addr k + SZ_IBLK \<le> 512 * (K + 1)" by (auto simp: ib_addr_def lf_sizes)
qed

lemma ib_addr_disjoint:
  assumes "k \<noteq> k'"
  shows "ib_addr k + SZ_IBLK \<le> ib_addr k' \<or> ib_addr k' + SZ_IBLK \<le> ib_addr k"
proof -
  have ne: "unat k \<noteq> unat k'" using assms by (simp only: word_unat_eq_iff) simp
  have m: "unat k mod 7 \<le> 6" "unat k' mod 7 \<le> 6" by (simp_all add: less_Suc_eq_le [symmetric])
  consider "unat k div 7 < unat k' div 7" | "unat k' div 7 < unat k div 7" | "unat k div 7 = unat k' div 7" by linarith
  then show ?thesis
  proof cases
    case 3
    then have "unat k mod 7 \<noteq> unat k' mod 7" using ne by (metis div_mult_mod_eq)
    then show ?thesis using 3 by (auto simp: ib_addr_def lf_sizes)
  qed (use m in \<open>auto simp: ib_addr_def lf_sizes\<close>)
qed

lemma db_addr_inside: "valid_db K d \<Longrightarrow> 512 * (K + 1) \<le> db_addr d \<and> db_addr d + LF_BLKSIZ \<le> RM_BLKSIZ * RM_BLKS"
  by (auto simp: valid_db_def db_addr_def lf_sizes)

lemma lfibget_valid:
  assumes "valid_ib K k"
  shows "lfibget k m = Inr (iblk_at m k)"
proof -
  have "unat k mod 7 \<le> 6" by (simp add: less_Suc_eq_le [symmetric])
  then have "min 72 (512 - 72 * (unat k mod 7)) = 72" by simp
  then show ?thesis using valid_ib_sect(3) [OF assms]
    unfolding lfibget_def ramread_def valid_ib_sect(1,2) [OF assms] nat_int iblk_at_def ib_addr_def
    by (simp add: take_bytes drop_bytes lf_sizes)
qed

lemma lfibput_valid:
  assumes "valid_ib K k" "length (ib_dba x) = LF_IBLEN"
  shows "lfibput k x m = Inr (OK_st, wr_bytes m (ib_addr k) (iblk_bytes x))"
proof -
  let ?s = "512 * (unat k div 7 + 1)" and ?d = "72 * (unat k mod 7)"
  let ?b = "take ?d (bytes m ?s 512) @ iblk_bytes x @ drop (?d + 72) (bytes m ?s 512)"
  have d: "?d + 72 \<le> 512" using mod_less_divisor [of 7 "unat k"] by linarith
  have l: "length (iblk_bytes x) = 72" using length_iblk_bytes [OF assms(2)] by (simp add: lf_sizes)
  have e: "take 512 ?b = ?b" using d l by (intro take_all) simp
  have w: "wr_bytes m ?s ?b = wr_bytes m (?s + ?d) (iblk_bytes x)"
    using wr_bytes_within [of ?s "?s + ?d" "iblk_bytes x" "bytes m ?s 512" m] d l by simp
  have i: "(0 \<le> int (unat k div 7 + 1) \<and> int (unat k div 7 + 1) < int RM_BLKS) = True"
    "(OK_st = SYSERR_st) = False" "(int ?d < 0) = False"
    using valid_ib_sect(3) [OF assms(1)] by (simp_all add: OK_st_def SYSERR_st_def)
  show ?thesis
    by (simp only: lfibput_def Let_def ramread_def ramwrite_def valid_ib_sect(1,2) [OF assms(1)] i if_True if_False
        bind_res_simps prod.case nat_int RM_BLKSIZ_def SZ_IBLK_def e w ib_addr_def)
qed

text \<open>What a write changes in the two views.\<close>

lemma iblk_at_put:
  assumes "length (ib_dba x) = LF_IBLEN"
  shows "iblk_at (wr_bytes m (ib_addr k) (iblk_bytes x)) k' = (if k' = k then x else iblk_at m k')"
  using ib_addr_disjoint [of k k'] assms
  by (auto simp: iblk_at_def bytes_wr_same bytes_wr_disjoint length_iblk_bytes iblk_of_bytes)

lemma dblk_at_iput:
  assumes "valid_ib K k" "length (ib_dba x) = LF_IBLEN" "K < unat d"
  shows "dblk_at (wr_bytes m (ib_addr k) (iblk_bytes x)) d = dblk_at m d"
  using ib_addr_inside [OF assms(1)] assms(3)
  by (auto simp: dblk_at_def bytes_wr_disjoint length_iblk_bytes [OF assms(2)] db_addr_def)

lemma dblk_at_put:
  assumes "length b = LF_BLKSIZ"
  shows "dblk_at (wr_bytes m (db_addr d) b) d' = (if d' = d then b else dblk_at m d')"
proof (cases "d' = d")
  case False
  then have "unat d' < unat d \<or> unat d < unat d'" by (simp only: word_unat_eq_iff) linarith
  then show ?thesis using False assms by (auto simp: dblk_at_def bytes_wr_disjoint db_addr_def lf_sizes)
qed (use assms in \<open>simp add: dblk_at_def bytes_wr_same\<close>)

lemma iblk_at_dput:
  assumes "valid_ib K k" "K < unat d"
  shows "iblk_at (wr_bytes m (db_addr d) b) k = iblk_at m k"
  using ib_addr_inside [OF assms(1)] assms(2) by (auto simp: iblk_at_def bytes_wr_disjoint db_addr_def)

lemma iblk_at_dir: "valid_ib K k \<Longrightarrow> length b \<le> 512 \<Longrightarrow> iblk_at (wr_bytes m 0 b) k = iblk_at m k"
  using ib_addr_inside [of K k] by (auto simp: iblk_at_def bytes_wr_disjoint)

lemma dblk_at_dir: "K < unat d \<Longrightarrow> length b \<le> 512 \<Longrightarrow> dblk_at (wr_bytes m 0 b) d = dblk_at m d"
  by (auto simp: dblk_at_def bytes_wr_disjoint db_addr_def)

section \<open>The directory\<close>

definition dir_ok :: "lfdir \<Rightarrow> bool" where
  "dir_ok d \<longleftrightarrow> length (lfd_files d) = LF_NUM_DIR_ENT \<and> (\<forall>e \<in> set (lfd_files d). length (ld_name e) = LF_NAME_LEN)"

lemma length_ldentry_bytes: "length (ld_name e) = LF_NAME_LEN \<Longrightarrow> length (ldentry_bytes e) = 24"
  by (simp add: ldentry_bytes_def LF_NAME_LEN_def)

lemma ldentry_of_bytes:
  assumes "length (ld_name e) = LF_NAME_LEN"
  shows "ldentry_of (ldentry_bytes e) = e"
  using u32_at_le32 [of "[]" 0 "ld_size e"] u32_at_le32 [of "le32 (ld_size e)" 4 "ld_ilist e"] assms
  by (simp add: ldentry_of_def ldentry_bytes_def)

lemma length_concat_const: "\<forall>x \<in> set xs. length (f x) = n \<Longrightarrow> length (concat (map f xs)) = n * length xs"
  by (induction xs) auto

lemma take_drop_concat_const:
  "\<forall>x \<in> set xs. length (f x) = n \<Longrightarrow> j < length xs \<Longrightarrow> take n (drop (n * j) (concat (map f xs) @ ys)) = f (xs ! j)"
proof (induction xs arbitrary: j)
  case (Cons x xs)
  then show ?case by (cases j) auto
qed simp

lemma length_dir_bytes: "dir_ok d \<Longrightarrow> length (dir_bytes d) = LF_BLKSIZ"
  by (simp add: dir_ok_def dir_bytes_def length_concat_const [of _ _ 24] length_ldentry_bytes LF_NUM_DIR_ENT_def LF_BLKSIZ_def)

lemma dir_of_bytes:
  assumes ok: "dir_ok d"
  shows "dir_of (dir_bytes d) = d"
proof -
  let ?w = "le32 (lfd_fsysid d) @ le16 (lfd_vers d) @ le16 (lfd_subvers d) @ le32 (lfd_allzeros d) @
     le32 (lfd_allones d) @ le32 (lfd_dfree d) @ le32 (lfd_ifree d) @ le32 (lfd_nfiles d)"
  let ?f = "concat (map ldentry_bytes (lfd_files d))"
  have e: "\<forall>x \<in> set (lfd_files d). length (ldentry_bytes x) = 24"
    using ok by (simp add: dir_ok_def length_ldentry_bytes)
  have n: "length (lfd_files d) = 20" using ok by (simp add: dir_ok_def LF_NUM_DIR_ENT_def)
  have b: "dir_bytes d = ?w @ ?f @ le32 (lfd_revid d)" by (simp add: dir_bytes_def)
  have lw: "length ?w = 28" by simp
  have lf: "length ?f = 480" using length_concat_const [OF e] n by simp
  have 1: "u32_at (dir_bytes d) 0 = lfd_fsysid d" "u16_at (dir_bytes d) 4 = lfd_vers d" "u16_at (dir_bytes d) 6 = lfd_subvers d"
    "u32_at (dir_bytes d) 8 = lfd_allzeros d" "u32_at (dir_bytes d) 12 = lfd_allones d" "u32_at (dir_bytes d) 16 = lfd_dfree d"
    "u32_at (dir_bytes d) 20 = lfd_ifree d" "u32_at (dir_bytes d) 24 = lfd_nfiles d"
    unfolding dir_bytes_def
    using u32_at_le32 [of "[]" 0 "lfd_fsysid d"] u16_at_le16 [of "le32 (lfd_fsysid d)" 4 "lfd_vers d"]
      u16_at_le16 [of "le32 (lfd_fsysid d) @ le16 (lfd_vers d)" 6 "lfd_subvers d"]
      u32_at_le32 [of "le32 (lfd_fsysid d) @ le16 (lfd_vers d) @ le16 (lfd_subvers d)" 8 "lfd_allzeros d"]
      u32_at_le32 [of "le32 (lfd_fsysid d) @ le16 (lfd_vers d) @ le16 (lfd_subvers d) @ le32 (lfd_allzeros d)" 12 "lfd_allones d"]
      u32_at_le32 [of "le32 (lfd_fsysid d) @ le16 (lfd_vers d) @ le16 (lfd_subvers d) @ le32 (lfd_allzeros d) @ le32 (lfd_allones d)" 16 "lfd_dfree d"]
      u32_at_le32 [of "le32 (lfd_fsysid d) @ le16 (lfd_vers d) @ le16 (lfd_subvers d) @ le32 (lfd_allzeros d) @ le32 (lfd_allones d) @ le32 (lfd_dfree d)" 20 "lfd_ifree d"]
      u32_at_le32 [of "le32 (lfd_fsysid d) @ le16 (lfd_vers d) @ le16 (lfd_subvers d) @ le32 (lfd_allzeros d) @ le32 (lfd_allones d) @ le32 (lfd_dfree d) @ le32 (lfd_ifree d)" 24 "lfd_nfiles d"]
    by simp_all
  have 2: "u32_at (dir_bytes d) 508 = lfd_revid d"
    using u32_at_le32 [of "?w @ ?f" 508 "lfd_revid d" "[]"] lf by (simp only: b) simp
  have 3: "map (\<lambda>j. ldentry_of (take 24 (drop (28 + 24 * j) (dir_bytes d)))) [0..<LF_NUM_DIR_ENT] = lfd_files d"
  proof (rule nth_equalityI)
    fix j assume "j < length (map (\<lambda>j. ldentry_of (take 24 (drop (28 + 24 * j) (dir_bytes d)))) [0..<LF_NUM_DIR_ENT])"
    then have j: "j < length (lfd_files d)" "j < LF_NUM_DIR_ENT" using n by (simp_all add: LF_NUM_DIR_ENT_def)
    have "drop (28 + 24 * j) (dir_bytes d) = drop (24 * j) (?f @ le32 (lfd_revid d))"
      unfolding b using lw by (simp add: drop_append [of _ ?w])
    then have "take 24 (drop (28 + 24 * j) (dir_bytes d)) = ldentry_bytes (lfd_files d ! j)"
      using take_drop_concat_const [OF e j(1)] by (simp only:)
    then show "map (\<lambda>j. ldentry_of (take 24 (drop (28 + 24 * j) (dir_bytes d)))) [0..<LF_NUM_DIR_ENT] ! j = lfd_files d ! j"
      using j ok by (simp add: ldentry_of_bytes dir_ok_def)
  qed (use n in \<open>simp add: LF_NUM_DIR_ENT_def\<close>)
  show ?thesis by (simp add: dir_of_def 1 2 3)
qed

definition byte_swap32 :: "u32 \<Rightarrow> u32" where
  "byte_swap32 w = (drop_bit 24 w AND 0x000000ff) OR (drop_bit 8 w AND 0x0000ff00) OR
     (push_bit 8 w AND 0x00ff0000) OR (push_bit 24 w AND 0xff000000)"

definition lfscheck :: "lfdir \<Rightarrow> int" where
  "lfscheck d =
     (if lfd_fsysid d \<noteq> LFS_ID \<or> lfd_allzeros d \<noteq> 0 \<or> lfd_allones d \<noteq> 0xffffffff then SYSERR_st
      else if lfd_revid d \<noteq> byte_swap32 LFS_ID then SYSERR_st
      else if sint (lfd_nfiles d) < 0 then SYSERR_st
      else OK_st)"

section \<open>State, free lists\<close>

datatype lf_state = LF_FREE | LF_USED

text \<open>\<^verbatim>\<open>lfdirptr\<close> is the index of the entry in the directory in memory, \<^verbatim>\<open>lfbyte\<close> the index of the next byte in \<^verbatim>\<open>lfdblock\<close>.\<close>

record lflcblk =
  lfstate :: lf_state
  lfdev :: int
  lfmutex :: int
  lfdirptr :: "nat option"
  lfmode :: u32
  lfpos :: u32
  lfname :: "byte list"
  lfinum :: ibid32
  lfiblock :: lfiblk
  lfdnum :: dbid32
  lfdblock :: "byte list"
  lfbyte :: nat
  lfibdirty :: bool
  lfdbdirty :: bool

record lfs =
  ram :: mem
  lf_mutex :: int
  lf_dir :: lfdir
  lf_dirpresent :: bool
  lf_dirdirty :: bool
  lfltab :: "nat \<Rightarrow> lflcblk"

definition upd_dir :: "(lfdir \<Rightarrow> lfdir) \<Rightarrow> lfs \<Rightarrow> lfs" where
  "upd_dir g s = s\<lparr>lf_dir := g (lf_dir s)\<rparr>"

text \<open>The directory is written to its sector; each caller records that by itself.\<close>

definition write_dir :: "lfs \<Rightarrow> lfs res" where
  "write_dir s = bind_res (ramwrite (dir_bytes (lf_dir s)) LF_AREA_DIR (ram s)) (\<lambda>(_, m). Inr (s\<lparr>ram := m\<rparr>))"

definition lfiballoc :: "lfs \<Rightarrow> (ibid32 \<times> lfs) res" where
  "lfiballoc s =
     (let ibnum = lfd_ifree (lf_dir s) in
      if ibnum = LF_INULL then Inl Panic
      else
        bind_res (lfibget ibnum (ram s)) (\<lambda>iblock.
        bind_res (write_dir (upd_dir (\<lambda>d. d\<lparr>lfd_ifree := ib_next iblock\<rparr>) s)) (\<lambda>s.
        Inr (ibnum, s\<lparr>lf_dirdirty := False\<rparr>))))"

definition DFILL :: byte where "DFILL = 43"

text \<open>\<^verbatim>\<open>lfdballoc\<close> fills the caller's buffer, which is returned with the block number.\<close>

definition lfdballoc :: "lfs \<Rightarrow> (dbid32 \<times> byte list \<times> lfs) res" where
  "lfdballoc s =
     (let dnum = lfd_dfree (lf_dir s) in
      if dnum = LF_DNULL then Inl Panic
      else
        bind_res (ramread (sint dnum) (ram s)) (\<lambda>(retval, dbuff).
        if retval = SYSERR_st then Inl Panic
        else
        bind_res (write_dir (upd_dir (\<lambda>d. d\<lparr>lfd_dfree := u32_at dbuff 0\<rparr>) s)) (\<lambda>s.
        Inr (dnum, replicate LF_BLKSIZ DFILL, s\<lparr>lf_dirdirty := False\<rparr>))))"

text \<open>Only the first word of the local buffer is set; \<open>junk\<close> is what the stack holds in the rest.\<close>

definition lfdbfree :: "byte list \<Rightarrow> dbid32 \<Rightarrow> lfs \<Rightarrow> (int \<times> lfs) res" where
  "lfdbfree junk dnum s =
     (let buf = le32 (lfd_dfree (lf_dir s)) @ junk;
          s = upd_dir (\<lambda>d. d\<lparr>lfd_dfree := dnum\<rparr>) s
      in bind_res (ramwrite buf (sint dnum) (ram s)) (\<lambda>(_, m).
         bind_res (write_dir (s\<lparr>ram := m\<rparr>)) (\<lambda>s. Inr (OK_st, s))))"

section \<open>Creating a file system\<close>

primrec create_iblks :: "nat \<Rightarrow> u32 \<Rightarrow> mem \<Rightarrow> mem res" where
  "create_iblks 0 i m = Inr m"
| "create_iblks (Suc n) i m =
     bind_res (lfibput i ((lfibclear 0)\<lparr>ib_next := i + 1\<rparr>) m) (\<lambda>(_, m). create_iblks n (i + 1) m)"

definition free_dblk :: "dbid32 \<Rightarrow> byte list" where
  "free_dblk next' = le32 next' @ replicate (LF_BLKSIZ - 4) 0"

primrec create_dblks :: "nat \<Rightarrow> dbid32 \<Rightarrow> mem \<Rightarrow> mem res" where
  "create_dblks 0 dbindex m = Inr m"
| "create_dblks (Suc n) dbindex m =
     bind_res (ramwrite (free_dblk (dbindex + 1)) (sint dbindex) m) (\<lambda>(_, m). create_dblks n (dbindex + 1) m)"

definition zero_dir :: lfdir where
  "zero_dir = \<lparr>lfd_fsysid = 0, lfd_vers = 0, lfd_subvers = 0, lfd_allzeros = 0, lfd_allones = 0, lfd_dfree = 0,
     lfd_ifree = 0, lfd_nfiles = 0,
     lfd_files = replicate LF_NUM_DIR_ENT \<lparr>ld_size = 0, ld_ilist = 0, ld_name = replicate LF_NAME_LEN 0\<rparr>, lfd_revid = 0\<rparr>"

definition lfscreate :: "u32 \<Rightarrow> u32 \<Rightarrow> mem \<Rightarrow> (int \<times> mem) res" where
  "lfscreate lfiblks dsiz m =
     (let sectors = dsiz div 512;
          ibpersector = 512 div 72;
          ibsectors = (lfiblks + (ibpersector - 1)) div ibpersector;
          lfiblks = ibsectors * ibpersector
      in if ibsectors > sectors div 2 then Inr (SYSERR_st, m)
         else
           let dbindex = ibsectors + 1;
               dir = zero_dir\<lparr>lfd_nfiles := 0, lfd_dfree := dbindex\<rparr>;
               dblks = sectors - ibsectors - 1
           in bind_res (ramwrite (dir_bytes dir) LF_AREA_DIR m) (\<lambda>(retval, m).
              if retval = SYSERR_st then Inr (SYSERR_st, m)
              else
                let n = nat (sint (lfiblks - 1)) in
                bind_res (create_iblks n 0 m) (\<lambda>m.
                bind_res (lfibput (word_of_nat n) ((lfibclear 0)\<lparr>ib_next := LF_INULL\<rparr>) m) (\<lambda>(_, m).
                bind_res (create_dblks (unat (dblks - 1)) dbindex m) (\<lambda>m.
                bind_res (ramwrite (free_dblk LF_DNULL) (sint (dbindex + (dblks - 1))) m) (\<lambda>(_, m).
                Inr (OK_st, m)))))))"

section \<open>Checking the format of a disk\<close>

text \<open>The two walks of \<^verbatim>\<open>lfsckfmt\<close> count the free blocks. A disk has fewer than 1400 index blocks and 200 sectors, so a
  walk with that many steps is in a cycle.\<close>

primrec ckfmt_iwalk :: "nat \<Rightarrow> ibid32 \<Rightarrow> nat \<Rightarrow> mem \<Rightarrow> nat res" where
  "ckfmt_iwalk 0 nextib lfiblks m = (if nextib = LF_INULL then Inr lfiblks else Inl Diverges)"
| "ckfmt_iwalk (Suc n) nextib lfiblks m =
     (if nextib = LF_INULL then Inr lfiblks
      else bind_res (lfibget nextib m) (\<lambda>iblock. ckfmt_iwalk n (ib_next iblock) (lfiblks + 1) m))"

primrec ckfmt_dwalk :: "nat \<Rightarrow> dbid32 \<Rightarrow> nat \<Rightarrow> mem \<Rightarrow> nat res" where
  "ckfmt_dwalk 0 nextdb dblks m = (if nextdb = LF_DNULL then Inr dblks else Inl Diverges)"
| "ckfmt_dwalk (Suc n) nextdb dblks m =
     (if nextdb = LF_DNULL then Inr dblks
      else bind_res (ramread (sint nextdb) m) (\<lambda>(_, dblock). ckfmt_dwalk n (u32_at dblock 0) (dblks + 1) m))"

definition lfsckfmt :: "mem \<Rightarrow> (int \<times> nat \<times> nat) res" where
  "lfsckfmt m =
     bind_res (ramread LF_AREA_DIR m) (\<lambda>(retval, buf).
       if retval = SYSERR_st then Inl Panic
       else
         let dir = dir_of buf in
         if lfscheck dir = SYSERR_st then Inl Panic
         else
           bind_res (ckfmt_iwalk 1400 (lfd_ifree dir) 0 m) (\<lambda>lfiblks.
           bind_res (ckfmt_dwalk RM_BLKS (lfd_dfree dir) 0 m) (\<lambda>dblks.
           Inr (OK_st, lfiblks, dblks))))"

section \<open>Lists of blocks on the disk\<close>

fun lchain :: "(u32 \<Rightarrow> u32) \<Rightarrow> u32 \<Rightarrow> u32 list \<Rightarrow> bool" where
  "lchain nx p [] \<longleftrightarrow> p = - 1"
| "lchain nx p (k # ks) \<longleftrightarrow> p = k \<and> k \<noteq> - 1 \<and> lchain nx (nx k) ks"

lemma lchain_frame: "(\<And>k. k \<in> set ks \<Longrightarrow> nx' k = nx k) \<Longrightarrow> lchain nx' p ks \<longleftrightarrow> lchain nx p ks"
  by (induction ks arbitrary: p) auto

lemma lchain_unique: "lchain nx p ks \<Longrightarrow> lchain nx p ks' \<Longrightarrow> ks = ks'"
proof (induction ks arbitrary: p ks')
  case Nil
  then show ?case by (cases ks') auto
next
  case (Cons k ks)
  then show ?case by (cases ks') auto
qed

lemma lchain_upt:
  "\<forall>i \<in> {a..<b}. nx (word_of_nat i) = (if Suc i = b then - 1 else word_of_nat (Suc i)) \<Longrightarrow> a < b \<Longrightarrow> b < 4294967295 \<Longrightarrow>
   lchain nx (word_of_nat a) (map word_of_nat [a..<b])"
proof (induction "b - a" arbitrary: a)
  case (Suc n)
  have nz: "(word_of_nat a :: u32) \<noteq> - 1"
  proof
    assume "(word_of_nat a :: u32) = - 1"
    then have "unat (word_of_nat a :: u32) = unat (- 1 :: u32)" by simp
    then show False using Suc.prems(2,3) by (simp add: unat_of_nat unsigned_minus_1_eq_mask mask_eq_exp_minus_1)
  qed
  show ?case
  proof (cases "Suc a = b")
    case True
    then have u: "[a..<b] = [a]" by (simp add: upt_rec)
    show ?thesis using nz Suc.prems(1) True by (simp add: u)
  next
    case False
    then have "lchain nx (word_of_nat (Suc a)) (map word_of_nat [Suc a..<b])"
      using Suc by (intro Suc.hyps(1)) auto
    then show ?thesis using nz Suc.prems False by (simp add: upt_conv_Cons)
  qed
qed simp

lemma sint_db: "valid_db K d \<Longrightarrow> sint d = int (unat d)"
  by (rule sint_small) (simp add: valid_db_def lf_sizes)

lemma db_in_disk: "valid_db K d \<Longrightarrow> (0 \<le> int (unat d) \<and> int (unat d) < int RM_BLKS) = True"
  unfolding valid_db_def by (simp only: of_nat_less_iff of_nat_0_le_iff simp_thms)

lemma ramread_valid: "valid_db K d \<Longrightarrow> ramread (sint d) m = Inr (OK_st, dblk_at m d)"
  unfolding ramread_def dblk_at_def db_addr_def
  by (simp only: sint_db db_in_disk if_True nat_int RM_BLKSIZ_def LF_BLKSIZ_def)

lemma ramwrite_valid: "valid_db K d \<Longrightarrow> ramwrite b (sint d) m = Inr (OK_st, wr_bytes m (db_addr d) (take 512 b))"
  unfolding ramwrite_def db_addr_def by (simp only: sint_db db_in_disk if_True nat_int RM_BLKSIZ_def)

lemma ramwrite_dir: "dir_ok d \<Longrightarrow> ramwrite (dir_bytes d) LF_AREA_DIR m = Inr (OK_st, wr_bytes m 0 (dir_bytes d))"
  using length_dir_bytes [of d] by (simp add: ramwrite_def lf_sizes)

lemma iput_low: "valid_ib K k \<Longrightarrow> x < 512 \<Longrightarrow> wr_bytes m (ib_addr k) b x = m x"
  using ib_addr_inside(1) [of K k] by (simp add: wr_bytes_out)

lemma dput_low: "valid_db K d \<Longrightarrow> x < 512 \<Longrightarrow> wr_bytes m (db_addr d) b x = m x"
  by (simp add: wr_bytes_out valid_db_def db_addr_def)

lemma unat_nat32: "n < 4294967296 \<Longrightarrow> unat (word_of_nat n :: u32) = n"
  by (simp add: unat_of_nat)

lemma create_iblks_spec:
  "a + n \<le> 7 * K \<Longrightarrow> K < RM_BLKS \<Longrightarrow> \<exists>m'. create_iblks n (word_of_nat a) m = Inr m' \<and>
     (\<forall>k. valid_ib K k \<longrightarrow> iblk_at m' k = (if unat k \<in> {a..<a + n} then (lfibclear 0)\<lparr>ib_next := k + 1\<rparr> else iblk_at m k)) \<and>
     (\<forall>x < 512. m' x = m x)"
proof (induction n arbitrary: a m)
  case (Suc n)
  let ?k = "word_of_nat a :: u32" and ?x = "(lfibclear 0)\<lparr>ib_next := word_of_nat a + 1\<rparr>"
  have u: "unat ?k = a" using Suc.prems by (intro unat_nat32) (simp add: lf_sizes)
  have v: "valid_ib K ?k" using Suc.prems by (simp add: valid_ib_def u)
  have l: "length (ib_dba ?x) = LF_IBLEN" by (simp add: lfibclear_def)
  let ?m = "wr_bytes m (ib_addr ?k) (iblk_bytes ?x)"
  have p: "lfibput ?k ?x m = Inr (OK_st, ?m)" by (rule lfibput_valid [OF v l])
  have "a + 1 + n \<le> 7 * K" using Suc.prems by simp
  then obtain m' where m': "create_iblks n (word_of_nat (a + 1)) ?m = Inr m'"
    "\<forall>k. valid_ib K k \<longrightarrow> iblk_at m' k = (if unat k \<in> {a + 1..<a + 1 + n} then (lfibclear 0)\<lparr>ib_next := k + 1\<rparr> else iblk_at ?m k)"
    "\<forall>x < 512. m' x = ?m x"
    using Suc.IH [of "a + 1" ?m] Suc.prems(2) by blast
  have "word_of_nat (a + 1) = ?k + 1" by simp
  then have "create_iblks (Suc n) ?k m = Inr m'"
    using m'(1) by (simp only: create_iblks.simps p bind_res_simps prod.case)
  moreover have "iblk_at m' k = (if unat k \<in> {a..<a + Suc n} then (lfibclear 0)\<lparr>ib_next := k + 1\<rparr> else iblk_at m k)"
    if "valid_ib K k" for k
  proof (cases "k = ?k")
    case True
    then show ?thesis using m'(2) that u by (simp add: iblk_at_put [OF l])
  next
    case False
    then have "unat k \<noteq> a" using u by (metis word_unat_eq_iff)
    then have "unat k \<in> {a..<a + Suc n} \<longleftrightarrow> unat k \<in> {a + 1..<a + 1 + n}" by auto
    then show ?thesis using m'(2) that False by (simp add: iblk_at_put [OF l])
  qed
  moreover have "m' x = m x" if "x < 512" for x using m'(3) that iput_low [OF v that] by simp
  ultimately show ?case by blast
qed simp

lemma length_free_dblk [simp]: "length (free_dblk d) = LF_BLKSIZ"
  by (simp add: free_dblk_def LF_BLKSIZ_def)

lemma take_free_dblk [simp]: "take 512 (free_dblk d) = free_dblk d"
  by (simp add: free_dblk_def LF_BLKSIZ_def)

lemma free_dblk_next [simp]: "u32_at (free_dblk d) 0 = d"
  using u32_at_le32 [of "[]" 0 d] by (simp add: free_dblk_def)

lemma create_dblks_spec:
  "K < a \<Longrightarrow> a + n \<le> RM_BLKS \<Longrightarrow> \<exists>m'. create_dblks n (word_of_nat a) m = Inr m' \<and>
     (\<forall>d. valid_db K d \<longrightarrow> dblk_at m' d = (if unat d \<in> {a..<a + n} then free_dblk (d + 1) else dblk_at m d)) \<and>
     (\<forall>k. valid_ib K k \<longrightarrow> iblk_at m' k = iblk_at m k) \<and> (\<forall>x < 512. m' x = m x)"
proof (induction n arbitrary: a m)
  case (Suc n)
  let ?d = "word_of_nat a :: u32"
  have u: "unat ?d = a" using Suc.prems by (intro unat_nat32) (simp add: lf_sizes)
  have v: "valid_db K ?d" using Suc.prems by (simp add: valid_db_def u)
  let ?m = "wr_bytes m (db_addr ?d) (free_dblk (?d + 1))"
  have p: "ramwrite (free_dblk (?d + 1)) (sint ?d) m = Inr (OK_st, ?m)"
    unfolding ramwrite_valid [OF v] by (simp only: take_free_dblk)
  obtain m' where m': "create_dblks n (word_of_nat (a + 1)) ?m = Inr m'"
    "\<forall>d. valid_db K d \<longrightarrow> dblk_at m' d = (if unat d \<in> {a + 1..<a + 1 + n} then free_dblk (d + 1) else dblk_at ?m d)"
    "\<forall>k. valid_ib K k \<longrightarrow> iblk_at m' k = iblk_at ?m k" "\<forall>x < 512. m' x = ?m x"
    using Suc.IH [of "a + 1" ?m] Suc.prems by auto
  have "word_of_nat (a + 1) = ?d + 1" by simp
  then have "create_dblks (Suc n) ?d m = Inr m'" using m'(1) by (simp only: create_dblks.simps p bind_res_simps prod.case)
  moreover have "dblk_at m' d = (if unat d \<in> {a..<a + Suc n} then free_dblk (d + 1) else dblk_at m d)"
    if "valid_db K d" for d
  proof (cases "d = ?d")
    case True
    then show ?thesis using m'(2) that u by (simp add: dblk_at_put)
  next
    case False
    then have "unat d \<noteq> a" using u by (metis word_unat_eq_iff)
    then have "unat d \<in> {a..<a + Suc n} \<longleftrightarrow> unat d \<in> {a + 1..<a + 1 + n}" by auto
    then show ?thesis using m'(2) that False by (simp add: dblk_at_put)
  qed
  moreover have "iblk_at m' k = iblk_at m k" if "valid_ib K k" for k
    using m'(3) that iblk_at_dput [OF that] u Suc.prems(1) by simp
  moreover have "m' x = m x" if "x < 512" for x using m'(4) that dput_low [OF v that] by simp
  ultimately show ?case by blast
qed simp

text \<open>The numbers \<^verbatim>\<open>lfscreate\<close> computes, for arguments in range: \<open>K\<close> sectors of index blocks on a disk of \<open>S\<close> sectors.\<close>

lemma lfscreate_numbers:
  fixes lfiblks dsiz :: u32
  assumes n: "unat lfiblks = n" "0 < n" and K: "K = (n + 6) div 7" and S: "S = unat dsiz div 512"
    and le: "K \<le> S div 2" and S200: "S \<le> 200" "3 \<le> S"
  shows "(lfiblks + (512 div 72 - 1)) div (512 div 72) = word_of_nat K" "dsiz div 512 = word_of_nat S"
    "word_of_nat K * (512 div 72) - (1 :: u32) = word_of_nat (7 * K - 1)"
    "\<not> word_of_nat K > (dsiz div 512) div 2"
    "(dsiz div 512) - word_of_nat K - 1 - 1 = word_of_nat (S - K - 2)" "1 \<le> K" "K + 2 \<le> S" "7 * K < 1400"
proof -
  have K1: "1 \<le> K" "K \<le> 100" using n(2) le S200(1) by (simp_all add: K)
  then show "1 \<le> K" "K + 2 \<le> S" "7 * K < 1400" using le S200 by simp_all
  have nb: "n \<le> 700" using K K1(2) by simp
  have 7: "(512 div 72 :: u32) = 7" by simp
  have "unat (lfiblks + 6) = n + 6" using nb n(1) by (subst unat_word_ariths) simp
  then have "unat ((lfiblks + 6) div 7) = K" by (simp add: unat_div K)
  moreover have "unat (word_of_nat K :: u32) = K" using K1 by (intro unat_nat32) simp
  ultimately show "(lfiblks + (512 div 72 - 1)) div (512 div 72) = word_of_nat K"
    by (simp add: 7 word_unat_eq_iff)
  show d: "dsiz div 512 = word_of_nat S"
  proof -
    have "unat (dsiz div 512) = S" by (simp add: unat_div S)
    moreover have "unat (word_of_nat S :: u32) = S" using S200 by (intro unat_nat32) simp
    ultimately show ?thesis by (simp add: word_unat_eq_iff)
  qed
  have "(7 * K - 1 :: nat) + 1 = 7 * K" using K1 by simp
  then have "(word_of_nat (7 * K - 1) :: u32) + 1 = 7 * word_of_nat K" by (metis of_nat_1 of_nat_add of_nat_mult of_nat_numeral)
  then show "word_of_nat K * (512 div 72) - (1 :: u32) = word_of_nat (7 * K - 1)"
    by (simp add: 7 mult.commute eq_diff_eq [symmetric] diff_eq_eq)
  have "unat (word_of_nat S div 2 :: u32) = S div 2" using S200 by (simp add: unat_div unat_of_nat)
  then show "\<not> word_of_nat K > (dsiz div 512) div 2"
    using le K1 by (simp add: d word_less_nat_alt unat_of_nat)
  have "S - K - 2 + K + 2 = S" using le K1 S200 by simp
  then have "(word_of_nat (S - K - 2) :: u32) + word_of_nat K + 2 = word_of_nat S"
    by (metis of_nat_add of_nat_numeral)
  then show "(dsiz div 512) - word_of_nat K - 1 - 1 = word_of_nat (S - K - 2)"
    by (simp add: d diff_eq_eq add.commute add.left_commute)
qed

definition created :: "nat \<Rightarrow> nat \<Rightarrow> mem \<Rightarrow> bool" where
  "created K S m \<longleftrightarrow>
     bytes m 0 512 = dir_bytes (zero_dir\<lparr>lfd_dfree := word_of_nat (K + 1)\<rparr>) \<and>
     (\<forall>k. valid_ib K k \<longrightarrow> iblk_at m k = (lfibclear 0)\<lparr>ib_next := if unat k + 1 = 7 * K then LF_INULL else k + 1\<rparr>) \<and>
     (\<forall>d. valid_db K d \<and> unat d < S \<longrightarrow> dblk_at m d = free_dblk (if unat d + 1 = S then LF_DNULL else d + 1))"

lemma lfscreate_creates:
  assumes n: "0 < unat lfiblks" and K: "K = (unat lfiblks + 6) div 7" and S: "S = unat dsiz div 512"
    and le: "K \<le> S div 2" and S200: "S \<le> RM_BLKS" "3 \<le> S"
  shows "\<exists>m'. lfscreate lfiblks dsiz m = Inr (OK_st, m') \<and> created K S m'"
proof -
  have s: "S \<le> 200" using S200(1) by (simp add: lf_sizes)
  note nums = lfscreate_numbers [OF refl n K S le s S200(2)]
  have KR: "K < RM_BLKS" using nums(7) S200(1) by simp
  let ?dir = "zero_dir\<lparr>lfd_nfiles := 0, lfd_dfree := word_of_nat K + 1\<rparr>"
  have dok: "dir_ok ?dir" by (simp add: dir_ok_def zero_dir_def)
  have deq: "?dir = zero_dir\<lparr>lfd_dfree := word_of_nat (K + 1)\<rparr>" by (simp add: zero_dir_def add.commute)
  let ?m1 = "wr_bytes m 0 (dir_bytes ?dir)"
  let ?N = "7 * K - 1" and ?last = "(lfibclear 0)\<lparr>ib_next := LF_INULL\<rparr>"
  have cnt: "nat (sint (word_of_nat ?N :: u32)) = ?N"
    using nums(8) by (subst sint_small) (simp_all add: unat_of_nat)
  obtain m2 where m2: "create_iblks ?N 0 ?m1 = Inr m2"
    "\<forall>k. valid_ib K k \<longrightarrow> iblk_at m2 k = (if unat k \<in> {0..<?N} then (lfibclear 0)\<lparr>ib_next := k + 1\<rparr> else iblk_at ?m1 k)"
    "\<forall>x < 512. m2 x = ?m1 x"
    using create_iblks_spec [of 0 ?N K ?m1] KR by auto
  have u: "unat (word_of_nat ?N :: u32) = ?N" using nums(8) by (intro unat_nat32) simp
  have v: "valid_ib K (word_of_nat ?N)" unfolding valid_ib_def u using KR nums(6) by simp
  have l: "length (ib_dba ?last) = LF_IBLEN" by (simp add: lfibclear_def)
  let ?m3 = "wr_bytes m2 (ib_addr (word_of_nat ?N)) (iblk_bytes ?last)"
  have room: "K + 1 + (S - K - 2) \<le> RM_BLKS" using nums(7) S200(1) by simp
  have "K < K + 1" by simp
  from create_dblks_spec [OF this room, of ?m3] obtain m4 where m4: "create_dblks (S - K - 2) (word_of_nat (K + 1)) ?m3 = Inr m4"
    "\<forall>d. valid_db K d \<longrightarrow> dblk_at m4 d = (if unat d \<in> {K + 1..<K + 1 + (S - K - 2)} then free_dblk (d + 1) else dblk_at ?m3 d)"
    "\<forall>k. valid_ib K k \<longrightarrow> iblk_at m4 k = iblk_at ?m3 k" "\<forall>x < 512. m4 x = ?m3 x"
    by blast
  let ?d = "word_of_nat (S - 1) :: u32"
  have ud: "unat ?d = S - 1" using s by (intro unat_nat32) simp
  have vd: "valid_db K ?d" unfolding valid_db_def ud using nums(7) S200(1) by arith
  have cnt2: "unat (word_of_nat (S - K - 2) :: u32) = S - K - 2" using s by (intro unat_nat32) simp
  have "K + 1 + (S - K - 2) = S - 1" using nums(7) by simp
  then have last: "word_of_nat K + 1 + word_of_nat (S - K - 2) = ?d" by (metis of_nat_1 of_nat_add)
  let ?m5 = "wr_bytes m4 (db_addr ?d) (free_dblk LF_DNULL)"
  have K1: "(word_of_nat (K + 1) :: u32) = word_of_nat K + 1" by simp
  have st: "(OK_st = SYSERR_st) = False" by (simp add: OK_st_def SYSERR_st_def)
  have run: "lfscreate lfiblks dsiz m = Inr (OK_st, ?m5)"
    by (simp only: lfscreate_def Let_def nums(1,3,5) if_not_P [OF nums(4)] ramwrite_dir [OF dok] bind_res_simps prod.case st
        if_False cnt m2(1) lfibput_valid [OF v l] cnt2 m4(1) [unfolded K1] last ramwrite_valid [OF vd] take_free_dblk)
  have "created K S ?m5"
    unfolding created_def
  proof (intro conjI allI impI)
    have "?m5 x = ?m1 x" if "x < 512" for x
      using that m4(4) m2(3) iput_low [OF v that] dput_low [OF vd that] by simp
    then have "bytes ?m5 0 512 = bytes ?m1 0 512" by (simp add: bytes_eq_iff)
    then show "bytes ?m5 0 512 = dir_bytes (zero_dir\<lparr>lfd_dfree := word_of_nat (K + 1)\<rparr>)"
      using length_dir_bytes [OF dok] by (simp only: deq) (simp add: bytes_wr_same lf_sizes)
  next
    fix k :: u32 assume k: "valid_ib K k"
    have e: "iblk_at ?m5 k = iblk_at ?m3 k"
      using m4(3) k iblk_at_dput [OF k, of ?d] vd by (simp add: valid_db_def)
    show "iblk_at ?m5 k = (lfibclear 0)\<lparr>ib_next := if unat k + 1 = 7 * K then LF_INULL else k + 1\<rparr>"
    proof (cases "unat k + 1 = 7 * K")
      case True
      then have "unat k = unat (word_of_nat ?N :: u32)" using u by simp
      then have kN: "k = word_of_nat ?N" by (simp only: word_unat_eq_iff)
      show ?thesis unfolding e iblk_at_put [OF l] if_P [OF kN] if_P [OF True] ..
    next
      case False
      then have "unat k < ?N" using k unfolding valid_ib_def by arith
      then have "k \<noteq> word_of_nat ?N" "unat k \<in> {0..<?N}" using u by auto
      then show ?thesis using m2(2) k unfolding e iblk_at_put [OF l] if_not_P [OF False] by simp
    qed
  next
    fix d :: u32 assume d: "valid_db K d \<and> unat d < S"
    show "dblk_at ?m5 d = free_dblk (if unat d + 1 = S then LF_DNULL else d + 1)"
    proof (cases "unat d + 1 = S")
      case True
      then have "unat d = unat ?d" using ud by simp
      then have "d = ?d" by (simp only: word_unat_eq_iff)
      then show ?thesis using True by (simp add: dblk_at_put)
    next
      case False
      then have "d \<noteq> ?d" using ud d by auto
      have "unat d \<in> {K + 1..<K + 1 + (S - K - 2)}" using False d by (auto simp: valid_db_def)
      then have "dblk_at m4 d = free_dblk (d + 1)" using m4(2) d by (simp only: if_True)
      with \<open>d \<noteq> ?d\<close> show ?thesis unfolding if_not_P [OF False] by (simp only: dblk_at_put [OF length_free_dblk] if_False)
    qed
  qed
  then show ?thesis using run by blast
qed

lemma created_free_lists:
  assumes m: "created K S m" and K: "1 \<le> K" "K + 2 \<le> S" "S \<le> RM_BLKS"
  shows "lchain (\<lambda>k. ib_next (iblk_at m k)) 0 (map word_of_nat [0..<7 * K])"
    "lchain (\<lambda>d. u32_at (dblk_at m d) 0) (word_of_nat (K + 1)) (map word_of_nat [K + 1..<S])"
proof -
  have "lchain (\<lambda>k. ib_next (iblk_at m k)) (word_of_nat 0) (map word_of_nat [0..<7 * K])"
  proof (rule lchain_upt)
    show "\<forall>i \<in> {0..<7 * K}. ib_next (iblk_at m (word_of_nat i)) = (if Suc i = 7 * K then - 1 else word_of_nat (Suc i))"
    proof
      fix i assume i: "i \<in> {0..<7 * K}"
      then have u: "unat (word_of_nat i :: u32) = i" using K by (intro unat_nat32) (simp add: lf_sizes)
      then have "valid_ib K (word_of_nat i)" using i K by (simp add: valid_ib_def)
      then show "ib_next (iblk_at m (word_of_nat i)) = (if Suc i = 7 * K then - 1 else word_of_nat (Suc i))"
        using m u by (simp add: created_def LF_INULL_def add.commute)
    qed
  qed (use K in \<open>simp_all add: lf_sizes\<close>)
  then show "lchain (\<lambda>k. ib_next (iblk_at m k)) 0 (map word_of_nat [0..<7 * K])" by simp
  show "lchain (\<lambda>d. u32_at (dblk_at m d) 0) (word_of_nat (K + 1)) (map word_of_nat [K + 1..<S])"
  proof (rule lchain_upt)
    show "\<forall>i \<in> {K + 1..<S}. u32_at (dblk_at m (word_of_nat i)) 0 = (if Suc i = S then - 1 else word_of_nat (Suc i))"
    proof
      fix i assume i: "i \<in> {K + 1..<S}"
      then have u: "unat (word_of_nat i :: u32) = i" using K by (intro unat_nat32) (simp add: lf_sizes)
      then have "valid_db K (word_of_nat i)" "i < S" using i K by (simp_all add: valid_db_def)
      then show "u32_at (dblk_at m (word_of_nat i)) 0 = (if Suc i = S then - 1 else word_of_nat (Suc i))"
        using m u by (simp add: created_def LF_DNULL_def add.commute)
    qed
  qed (use K in \<open>simp_all add: lf_sizes\<close>)
qed

end
