(* ===== verification/Lfs_File.thy ===== *)
theory Lfs_File
  imports Lfs_Disk
begin

text \<open>
  Open files of the local file system (\<^verbatim>\<open>device/lfs/lf*.c\<close>): \<^verbatim>\<open>lfsopen\<close>, \<^verbatim>\<open>lflgetc\<close>, \<^verbatim>\<open>lflputc\<close>, \<^verbatim>\<open>lflread\<close>,
  \<^verbatim>\<open>lflwrite\<close>, \<^verbatim>\<open>lflseek\<close>, \<^verbatim>\<open>lflclose\<close>, \<^verbatim>\<open>lflcontrol\<close> and what they share. A file is the number of its control
  block in \<^verbatim>\<open>lfltab\<close>. The mutexes are counts with the effect the theory \<^verbatim>\<open>Semaphores\<close> proves of them; a call that has
  to wait is \<open>Blocked\<close>.
\<close>

definition Nlfl :: nat where "Nlfl = 6"
definition LF_EOF :: int where "LF_EOF = -2"
definition LF_MODE_R :: u32 where "LF_MODE_R = 1"
definition LF_MODE_W :: u32 where "LF_MODE_W = 2"
definition LF_MODE_RW :: u32 where "LF_MODE_RW = 3"
definition LF_MODE_N :: u32 where "LF_MODE_N = 4"
definition LF_MODE_O :: u32 where "LF_MODE_O = 8"

section \<open>Access to the tables\<close>

definition upd_fcb :: "nat \<Rightarrow> (lflcblk \<Rightarrow> lflcblk) \<Rightarrow> lfs \<Rightarrow> lfs" where
  "upd_fcb f g s = s\<lparr>lfltab := (lfltab s)(f := g (lfltab s f))\<rparr>"

definition upd_entry :: "nat \<Rightarrow> (ldentry \<Rightarrow> ldentry) \<Rightarrow> lfs \<Rightarrow> lfs" where
  "upd_entry i g = upd_dir (\<lambda>d. d\<lparr>lfd_files := (lfd_files d)[i := g (lfd_files d ! i)]\<rparr>)"

definition entry_of :: "nat \<Rightarrow> lfs \<Rightarrow> nat res" where
  "entry_of f s = opt_res Null_deref (lfdirptr (lfltab s f))"

definition wait_dir :: "lfs \<Rightarrow> lfs res" where
  "wait_dir s = (if lf_mutex s \<le> 0 then Inl Blocked else Inr (s\<lparr>lf_mutex := lf_mutex s - 1\<rparr>))"

definition signal_dir :: "lfs \<Rightarrow> lfs" where
  "signal_dir s = s\<lparr>lf_mutex := lf_mutex s + 1\<rparr>"

definition wait_file :: "nat \<Rightarrow> lfs \<Rightarrow> lfs res" where
  "wait_file f s =
     (if lfmutex (lfltab s f) \<le> 0 then Inl Blocked else Inr (upd_fcb f (\<lambda>c. c\<lparr>lfmutex := lfmutex c - 1\<rparr>) s))"

definition signal_file :: "nat \<Rightarrow> lfs \<Rightarrow> lfs" where
  "signal_file f = upd_fcb f (\<lambda>c. c\<lparr>lfmutex := lfmutex c + 1\<rparr>)"

section \<open>Initialisation\<close>

definition lfsinit :: "lfs \<Rightarrow> int \<times> lfs" where
  "lfsinit s = (OK_st, s\<lparr>lf_mutex := 1, lf_dir := zero_dir, lf_dirpresent := False, lf_dirdirty := False\<rparr>)"

definition lflinit :: "nat \<Rightarrow> int \<Rightarrow> lfs \<Rightarrow> int \<times> lfs" where
  "lflinit f dvnum s = (OK_st, upd_fcb f (\<lambda>c. c\<lparr>lfstate := LF_FREE, lfdev := dvnum, lfmutex := 1, lfdirptr := None,
     lfpos := 0, lfname := replicate LF_NAME_LEN 0, lfinum := LF_INULL,
     lfiblock := \<lparr>ib_next = 0, ib_offset = 0, ib_dba = replicate LF_IBLEN 0\<rparr>, lfdnum := 0,
     lfdblock := replicate LF_BLKSIZ 0, lfbyte := LF_BLKSIZ, lfibdirty := False, lfdbdirty := False\<rparr>) s)"

section \<open>Writing back\<close>

definition flush_dir :: "lfs \<Rightarrow> lfs res" where
  "flush_dir s =
     (if lf_dirdirty s then bind_res (write_dir s) (\<lambda>s. Inr (s\<lparr>lf_dirdirty := False\<rparr>)) else Inr s)"

definition flush_data :: "nat \<Rightarrow> lfs \<Rightarrow> lfs res" where
  "flush_data f s =
     (let c = lfltab s f in
      if lfdbdirty c
      then bind_res (ramwrite (lfdblock c) (sint (lfdnum c)) (ram s)) (\<lambda>(_, m).
             Inr (upd_fcb f (\<lambda>c. c\<lparr>lfdbdirty := False\<rparr>) (s\<lparr>ram := m\<rparr>)))
      else Inr s)"

definition flush_index :: "nat \<Rightarrow> lfs \<Rightarrow> lfs res" where
  "flush_index f s =
     (let c = lfltab s f in
      if lfibdirty c
      then bind_res (lfibput (lfinum c) (lfiblock c) (ram s)) (\<lambda>(_, m).
             Inr (upd_fcb f (\<lambda>c. c\<lparr>lfibdirty := False\<rparr>) (s\<lparr>ram := m\<rparr>)))
      else Inr s)"

definition lfflush :: "nat \<Rightarrow> lfs \<Rightarrow> (int \<times> lfs) res" where
  "lfflush f s =
     (if lfstate (lfltab s f) = LF_FREE then Inr (SYSERR_st, s)
      else
        bind_res (flush_dir s) (\<lambda>s.
        bind_res (flush_data f s) (\<lambda>s.
        bind_res (flush_index f s) (\<lambda>s. Inr (OK_st, s)))))"

definition flush_dirty :: "nat \<Rightarrow> lfs \<Rightarrow> lfs res" where
  "flush_dirty f s =
     (if lfibdirty (lfltab s f) \<or> lfdbdirty (lfltab s f) then bind_res (lfflush f s) (\<lambda>(_, s). Inr s) else Inr s)"

section \<open>Blocks for the current position\<close>

text \<open>\<open>load_index f ibnum\<close> reads an index block into the control block and makes it the current one.\<close>

definition load_index :: "nat \<Rightarrow> ibid32 \<Rightarrow> lfs \<Rightarrow> lfs res" where
  "load_index f ibnum s =
     bind_res (lfibget ibnum (ram s)) (\<lambda>ib. Inr (upd_fcb f (\<lambda>c. c\<lparr>lfiblock := ib, lfinum := ibnum\<rparr>) s))"

text \<open>The first part of \<^verbatim>\<open>lfsetup\<close>: some index block of the file at or before the position becomes the current one.\<close>

definition setup_index :: "nat \<Rightarrow> nat \<Rightarrow> lfs \<Rightarrow> lfs res" where
  "setup_index f e s =
     (let c = lfltab s f; ilist = ld_ilist (lfd_files (lf_dir s) ! e) in
      if lfinum c = LF_INULL then
        if ilist = LF_INULL then
          bind_res (lfiballoc s) (\<lambda>(ibnum, s).
            Inr (upd_fcb f (\<lambda>c. c\<lparr>lfiblock := lfibclear 0, lfibdirty := True, lfinum := ibnum\<rparr>)
                  (upd_entry e (\<lambda>d. d\<lparr>ld_ilist := ibnum\<rparr>) s)))
        else load_index f ilist s
      else if lfpos c < ib_offset (lfiblock c) then load_index f ilist s
      else Inr s)"

text \<open>
  One step of the loop. \<open>LF_WALK\<close> steps are enough for every walk that ends: at most \<open>7 * 199\<close> index blocks can
  be read before one is read twice, and \<open>2 ^ 19\<close> new ones cover all positions.
\<close>

definition walk_step :: "nat \<Rightarrow> lfs \<Rightarrow> lfs res" where
  "walk_step f s =
     (let c = lfltab s f; ibnum = ib_next (lfiblock c) in
      if ibnum = LF_INULL then
        bind_res (lfiballoc s) (\<lambda>(ibnum, s).
        let ib = (lfiblock (lfltab s f))\<lparr>ib_next := ibnum\<rparr> in
        bind_res (lfibput (lfinum (lfltab s f)) ib (ram s)) (\<lambda>(_, m).
          Inr (upd_fcb f (\<lambda>c. c\<lparr>lfinum := ibnum, lfiblock := lfibclear (ib_offset ib + LF_IDATA), lfibdirty := True,
                 lfdnum := LF_DNULL\<rparr>) (s\<lparr>ram := m\<rparr>))))
      else bind_res (load_index f ibnum s) (\<lambda>s. Inr (upd_fcb f (\<lambda>c. c\<lparr>lfdnum := LF_DNULL\<rparr>) s)))"

definition LF_WALK :: nat where "LF_WALK = 526000"

primrec setup_walk :: "nat \<Rightarrow> nat \<Rightarrow> lfs \<Rightarrow> lfs res" where
  "setup_walk 0 f s =
     (if lfpos (lfltab s f) AND NOT LF_IMASK > ib_offset (lfiblock (lfltab s f)) then Inl Diverges else Inr s)"
| "setup_walk (Suc n) f s =
     (if lfpos (lfltab s f) AND NOT LF_IMASK > ib_offset (lfiblock (lfltab s f))
      then bind_res (walk_step f s) (setup_walk n f) else Inr s)"

definition setup_data :: "nat \<Rightarrow> lfs \<Rightarrow> lfs res" where
  "setup_data f s =
     (let c = lfltab s f;
          dindex = unat (drop_bit 9 (lfpos c AND LF_IMASK));
          dnum = ib_dba (lfiblock c) ! dindex
      in bind_res
           (if dnum = LF_DNULL then
              bind_res (lfdballoc s) (\<lambda>(dnum, buf, s).
                Inr (dnum, upd_fcb f (\<lambda>c. c\<lparr>lfdblock := buf,
                       lfiblock := (lfiblock c)\<lparr>ib_dba := (ib_dba (lfiblock c))[dindex := dnum]\<rparr>, lfibdirty := True\<rparr>) s))
            else if dnum \<noteq> lfdnum c then
              bind_res (ramread (sint dnum) (ram s)) (\<lambda>(_, buf).
                Inr (dnum, upd_fcb f (\<lambda>c. c\<lparr>lfdblock := buf, lfdbdirty := False\<rparr>) s))
            else Inr (dnum, s))
           (\<lambda>(dnum, s). Inr (upd_fcb f (\<lambda>c. c\<lparr>lfdnum := dnum, lfbyte := unat (lfpos c AND LF_DMASK)\<rparr>) s)))"

definition lfsetup :: "nat \<Rightarrow> lfs \<Rightarrow> (int \<times> lfs) res" where
  "lfsetup f s =
     bind_res (wait_dir s) (\<lambda>s.
     bind_res (entry_of f s) (\<lambda>e.
     bind_res (flush_dirty f s) (\<lambda>s.
     bind_res (setup_index f e s) (\<lambda>s.
     bind_res (setup_walk LF_WALK f s) (\<lambda>s.
     bind_res (setup_data f s) (\<lambda>s.
     Inr (OK_st, signal_dir s)))))))"

section \<open>Bytes\<close>

definition need_block :: "nat \<Rightarrow> lfs \<Rightarrow> lfs res" where
  "need_block f s =
     (if lfbyte (lfltab s f) \<ge> LF_BLKSIZ then bind_res (lfsetup f s) (\<lambda>(_, s). Inr s) else Inr s)"

definition lflgetc :: "nat \<Rightarrow> lfs \<Rightarrow> (int \<times> lfs) res" where
  "lflgetc f s =
     bind_res (wait_file f s) (\<lambda>s.
     if lfstate (lfltab s f) \<noteq> LF_USED then Inr (SYSERR_st, signal_file f s)
     else
     bind_res (entry_of f s) (\<lambda>e.
     if lfpos (lfltab s f) \<ge> ld_size (lfd_files (lf_dir s) ! e) then Inr (LF_EOF, signal_file f s)
     else
     bind_res (need_block f s) (\<lambda>s.
     let onebyte = lfdblock (lfltab s f) ! lfbyte (lfltab s f);
         s = upd_fcb f (\<lambda>c. c\<lparr>lfbyte := lfbyte c + 1, lfpos := lfpos c + 1\<rparr>) s
     in Inr (uint onebyte, signal_file f s))))"

definition lflputc :: "nat \<Rightarrow> byte \<Rightarrow> lfs \<Rightarrow> (int \<times> lfs) res" where
  "lflputc f ch s =
     bind_res (wait_file f s) (\<lambda>s.
     if lfstate (lfltab s f) \<noteq> LF_USED then Inr (SYSERR_st, signal_file f s)
     else
     bind_res (entry_of f s) (\<lambda>e.
     if lfpos (lfltab s f) > ld_size (lfd_files (lf_dir s) ! e) then Inr (SYSERR_st, signal_file f s)
     else
     bind_res (need_block f s) (\<lambda>s.
     let s = (if lfpos (lfltab s f) \<ge> ld_size (lfd_files (lf_dir s) ! e)
              then (upd_entry e (\<lambda>d. d\<lparr>ld_size := ld_size d + 1\<rparr>) s)\<lparr>lf_dirdirty := True\<rparr> else s);
         s = upd_fcb f (\<lambda>c. c\<lparr>lfdblock := (lfdblock c)[lfbyte c := ch], lfbyte := lfbyte c + 1, lfpos := lfpos c + 1,
                lfdbdirty := True\<rparr>) s
     in Inr (OK_st, signal_file f s))))"

definition lflseek :: "nat \<Rightarrow> u32 \<Rightarrow> lfs \<Rightarrow> (int \<times> lfs) res" where
  "lflseek f offset s =
     bind_res (wait_file f s) (\<lambda>s.
     if lfstate (lfltab s f) \<noteq> LF_USED then Inr (SYSERR_st, signal_file f s)
     else
     bind_res (entry_of f s) (\<lambda>e.
     if offset > ld_size (lfd_files (lf_dir s) ! e) then Inr (SYSERR_st, signal_file f s)
     else Inr (OK_st, signal_file f (upd_fcb f (\<lambda>c. c\<lparr>lfpos := offset, lfbyte := LF_BLKSIZ\<rparr>) s))))"

text \<open>\<^verbatim>\<open>lflread\<close> and \<^verbatim>\<open>lflwrite\<close>; the bytes that were put into the caller's buffer are part of the result.\<close>

primrec lf_read_loop :: "nat \<Rightarrow> nat \<Rightarrow> byte list \<Rightarrow> lfs \<Rightarrow> (int \<times> byte list \<times> lfs) res" where
  "lf_read_loop 0 f buff s = Inr (int (length buff), buff, s)"
| "lf_read_loop (Suc n) f buff s =
     bind_res (lflgetc f s) (\<lambda>(nxtbyte, s).
     if nxtbyte = SYSERR_st then Inr (SYSERR_st, buff, s)
     else if nxtbyte = LF_EOF then Inr (if buff = [] then LF_EOF else int (length buff), buff, s)
     else lf_read_loop n f (buff @ [word_of_int nxtbyte]) s)"

definition lflread :: "nat \<Rightarrow> int \<Rightarrow> lfs \<Rightarrow> (int \<times> byte list \<times> lfs) res" where
  "lflread f cnt s = (if cnt < 0 then Inr (SYSERR_st, [], s) else lf_read_loop (nat cnt) f [] s)"

primrec lf_write_loop :: "nat \<Rightarrow> byte list \<Rightarrow> int \<Rightarrow> lfs \<Rightarrow> (int \<times> lfs) res" where
  "lf_write_loop f [] cnt s = Inr (cnt, s)"
| "lf_write_loop f (b # bs) cnt s =
     bind_res (lflputc f b s) (\<lambda>(r, s). if r = SYSERR_st then Inr (SYSERR_st, s) else lf_write_loop f bs cnt s)"

definition lflwrite :: "nat \<Rightarrow> byte list \<Rightarrow> int \<Rightarrow> lfs \<Rightarrow> (int \<times> lfs) res" where
  "lflwrite f buff cnt s =
     (if cnt < 0 then Inr (SYSERR_st, s)
      else if length buff < nat cnt then Inl Out_of_bounds
      else lf_write_loop f (take (nat cnt) buff) cnt s)"

definition lflclose :: "nat \<Rightarrow> lfs \<Rightarrow> (int \<times> lfs) res" where
  "lflclose f s =
     bind_res (wait_file f s) (\<lambda>s.
     if lfstate (lfltab s f) \<noteq> LF_USED then Inr (SYSERR_st, signal_file f s)
     else
     bind_res (if lf_dirdirty s \<or> lfdbdirty (lfltab s f) \<or> lfibdirty (lfltab s f)
               then bind_res (lfflush f s) (\<lambda>(_, s). Inr s) else Inr s) (\<lambda>s.
     Inr (OK_st, signal_file f (upd_fcb f (\<lambda>c. c\<lparr>lfstate := LF_FREE\<rparr>) s))))"

section \<open>Truncation and control\<close>

primrec free_dbas :: "byte list \<Rightarrow> dbid32 list \<Rightarrow> lfs \<Rightarrow> lfs res" where
  "free_dbas junk [] s = Inr s"
| "free_dbas junk (nextdb # ds) s =
     (if nextdb \<noteq> LF_DNULL then bind_res (lfdbfree junk nextdb s) (\<lambda>(_, s). free_dbas junk ds s)
      else free_dbas junk ds s)"

text \<open>One round of the loop over the index blocks. A disk has fewer than 1400 of them.\<close>

definition truncate_step :: "byte list \<Rightarrow> ibid32 \<Rightarrow> ibid32 \<Rightarrow> lfs \<Rightarrow> (ibid32 \<times> lfs) res" where
  "truncate_step junk ifree nextib s =
     bind_res (lfibget nextib (ram s)) (\<lambda>iblock.
     bind_res (free_dbas junk (ib_dba iblock) s) (\<lambda>s.
     let iblock = \<lparr>ib_next = if ib_next iblock = LF_INULL then ifree else ib_next iblock, ib_offset = 0,
                   ib_dba = replicate LF_IBLEN LF_DNULL\<rparr>
     in bind_res (lfibput nextib iblock (ram s)) (\<lambda>(_, m). Inr (ib_next iblock, s\<lparr>ram := m\<rparr>))))"

primrec truncate_walk :: "nat \<Rightarrow> byte list \<Rightarrow> ibid32 \<Rightarrow> ibid32 \<Rightarrow> lfs \<Rightarrow> lfs res" where
  "truncate_walk 0 junk ifree nextib s = (if nextib = ifree then Inr s else Inl Diverges)"
| "truncate_walk (Suc n) junk ifree nextib s =
     (if nextib = ifree then Inr s
      else bind_res (truncate_step junk ifree nextib s) (\<lambda>(nextib, s). truncate_walk n junk ifree nextib s))"

definition lftruncate :: "byte list \<Rightarrow> nat \<Rightarrow> lfs \<Rightarrow> (int \<times> lfs) res" where
  "lftruncate junk f s =
     bind_res (entry_of f s) (\<lambda>e.
     if ld_size (lfd_files (lf_dir s) ! e) = 0 then Inr (OK_st, s)
     else
     bind_res (flush_dirty f s) (\<lambda>s.
     let s = upd_fcb f (\<lambda>c. c\<lparr>lfpos := 0, lfinum := LF_INULL, lfdnum := LF_DNULL, lfbyte := LF_BLKSIZ\<rparr>) s;
         ifree = lfd_ifree (lf_dir s);
         firstib = ld_ilist (lfd_files (lf_dir s) ! e);
         s = (upd_entry e (\<lambda>d. d\<lparr>ld_ilist := LF_INULL, ld_size := 0\<rparr>) s)\<lparr>lf_dirdirty := True\<rparr>
     in bind_res (truncate_walk 1400 junk ifree firstib s) (\<lambda>s.
        Inr (OK_st, (upd_dir (\<lambda>d. d\<lparr>lfd_ifree := firstib\<rparr>) s)\<lparr>lf_dirdirty := True\<rparr>))))"

definition LF_CTL_TRUNC :: int where "LF_CTL_TRUNC = 2"

definition lflcontrol :: "byte list \<Rightarrow> nat \<Rightarrow> int \<Rightarrow> lfs \<Rightarrow> (int \<times> lfs) res" where
  "lflcontrol junk f func s =
     bind_res (wait_file f s) (\<lambda>s.
     if lfstate (lfltab s f) \<noteq> LF_USED then Inr (SYSERR_st, signal_file f s)
     else if func = LF_CTL_TRUNC then
       bind_res (wait_dir s) (\<lambda>s.
       bind_res (lftruncate junk f s) (\<lambda>(retval, s). Inr (retval, signal_file f (signal_dir s))))
     else Inr (SYSERR_st, signal_file f s))"

section \<open>Opening\<close>

definition CH_r :: byte where "CH_r = 114"
definition CH_w :: byte where "CH_w = 119"
definition CH_o :: byte where "CH_o = 111"
definition CH_n :: byte where "CH_n = 110"

text \<open>Strings are the characters in front of the terminating null character.\<close>

primrec mode_bits :: "byte list \<Rightarrow> u32 \<Rightarrow> u32 option" where
  "mode_bits [] mbits = Some mbits"
| "mode_bits (ch # cs) mbits =
     (if ch = CH_r then if mbits AND LF_MODE_R \<noteq> 0 then None else mode_bits cs (mbits OR LF_MODE_R)
      else if ch = CH_w then if mbits AND LF_MODE_W \<noteq> 0 then None else mode_bits cs (mbits OR LF_MODE_W)
      else if ch = CH_o then
        if mbits AND LF_MODE_O \<noteq> 0 \<or> mbits AND LF_MODE_N \<noteq> 0 then None else mode_bits cs (mbits OR LF_MODE_O)
      else if ch = CH_n then
        if mbits AND LF_MODE_O \<noteq> 0 \<or> mbits AND LF_MODE_N \<noteq> 0 then None else mode_bits cs (mbits OR LF_MODE_N)
      else None)"

definition lfgetmode :: "byte list \<Rightarrow> u32" where
  "lfgetmode mode = (case mode_bits mode 0 of
       None \<Rightarrow> - 1
     | Some mbits \<Rightarrow> if mbits AND LF_MODE_RW = 0 then mbits OR LF_MODE_RW else mbits)"

text \<open>The comparison of a name with the characters in an array.\<close>

fun name_match :: "byte list \<Rightarrow> byte list \<Rightarrow> bool" where
  "name_match [] (c # cs) \<longleftrightarrow> c = 0"
| "name_match (n # ns) (c # cs) \<longleftrightarrow> n = c \<and> name_match ns cs"
| "name_match ns [] \<longleftrightarrow> False"

definition lf_copy_name :: "byte list \<Rightarrow> byte list \<Rightarrow> byte list" where
  "lf_copy_name name arr = name @ 0 # drop (length name + 1) arr"

text \<open>The search of the directory; beyond its 20 entries lies other memory.\<close>

definition dir_find :: "byte list \<Rightarrow> lfdir \<Rightarrow> nat option res" where
  "dir_find name d =
     (let n = nat (sint (lfd_nfiles d)) in
      case List.find (\<lambda>i. name_match name (ld_name (lfd_files d ! i))) [0..<min n LF_NUM_DIR_ENT] of
        Some i \<Rightarrow> Inr (Some i)
      | None \<Rightarrow> if n > LF_NUM_DIR_ENT then Inl Out_of_bounds else Inr None)"

definition get_directory :: "lfs \<Rightarrow> (int \<times> lfs) res" where
  "get_directory s =
     (if lf_dirpresent s then Inr (OK_st, s)
      else bind_res (ramread LF_AREA_DIR (ram s)) (\<lambda>(retval, buf).
        if retval = SYSERR_st then Inr (SYSERR_st, s)
        else
          let s = s\<lparr>lf_dir := dir_of buf\<rparr> in
          if lfscheck (lf_dir s) = SYSERR_st then Inr (SYSERR_st, s)
          else Inr (OK_st, s\<lparr>lf_dirpresent := True\<rparr>)))"

text \<open>\<open>None\<close> where the code returns \<^verbatim>\<open>SYSERR\<close>, else the index of the file's directory entry.\<close>

definition find_or_add :: "byte list \<Rightarrow> u32 \<Rightarrow> lfs \<Rightarrow> (nat option \<times> lfs) res" where
  "find_or_add name mbits s =
     bind_res (dir_find name (lf_dir s)) (\<lambda>found.
     case found of
       None \<Rightarrow>
         if mbits AND LF_MODE_O \<noteq> 0 then Inr (None, s)
         else
           let n = nat (sint (lfd_nfiles (lf_dir s))) in
           if n \<ge> LF_NUM_DIR_ENT then Inr (None, s)
           else Inr (Some n,
             upd_entry n (\<lambda>d. d\<lparr>ld_size := 0, ld_name := lf_copy_name name (ld_name d), ld_ilist := LF_INULL\<rparr>)
               (upd_dir (\<lambda>d. d\<lparr>lfd_nfiles := lfd_nfiles d + 1\<rparr>) s))
     | Some i \<Rightarrow> if mbits AND LF_MODE_N \<noteq> 0 then Inr (None, s) else Inr (Some i, s))"

definition lfsopen :: "byte list \<Rightarrow> byte list \<Rightarrow> lfs \<Rightarrow> (int \<times> lfs) res" where
  "lfsopen name mode s =
     (if length name \<ge> LF_NAME_LEN then Inr (SYSERR_st, s)
      else
        let mbits = lfgetmode mode in
        if mbits = - 1 then Inr (SYSERR_st, s)
        else if \<exists>i \<in> set [0..<Nlfl]. lfstate (lfltab s i) \<noteq> LF_FREE \<and> name_match name (lfname (lfltab s i))
        then Inr (SYSERR_st, s)
        else
          case List.find (\<lambda>i. lfstate (lfltab s i) = LF_FREE) [0..<Nlfl] of
            None \<Rightarrow> Inr (SYSERR_st, s)
          | Some lfnext \<Rightarrow>
              bind_res (wait_dir s) (\<lambda>s.
              bind_res (get_directory s) (\<lambda>(r, s).
              if r = SYSERR_st then Inr (SYSERR_st, signal_dir s)
              else
              bind_res (find_or_add name mbits s) (\<lambda>(ld, s).
              case ld of
                None \<Rightarrow> Inr (SYSERR_st, signal_dir s)
              | Some e \<Rightarrow>
                  Inr (lfdev (lfltab s lfnext),
                    signal_dir (upd_fcb lfnext (\<lambda>c. c\<lparr>lfstate := LF_USED, lfdirptr := Some e,
                      lfmode := mbits AND LF_MODE_RW, lfpos := 0, lfname := lf_copy_name name (lfname c),
                      lfinum := LF_INULL, lfdnum := LF_DNULL, lfbyte := LF_BLKSIZ, lfibdirty := False,
                      lfdbdirty := False\<rparr>) s))))))"

end
