(* ===== verification/Lfs_Refine.thy ===== *)
theory Lfs_Refine
  imports Lfs_File
begin

text \<open>
  The contract of the local file system: an open file is a sequence of bytes with a position, and the files and the two
  free lists share the blocks of the disk without overlap and without loss.

  The relation \<open>fs_inv\<close> says what index blocks and data blocks hold logically (\<open>gI\<close>, \<open>gD\<close>), which blocks belong to
  which directory entry (\<open>gks\<close>, \<open>gbs\<close>) and which are free (\<open>gFI\<close>, \<open>gFD\<close>); a block's logical contents are on the disk or
  in the control block of the open file that has changed it.
\<close>

section \<open>Logical contents of a disk\<close>

record fsg =
  gI :: "ibid32 \<Rightarrow> lfiblk"
  gD :: "dbid32 \<Rightarrow> byte list"
  gks :: "nat \<Rightarrow> ibid32 list"
  gbs :: "nat \<Rightarrow> dbid32 list"
  gFI :: "ibid32 list"
  gFD :: "dbid32 list"

definition in_use :: "lfs \<Rightarrow> nat \<Rightarrow> bool" where
  "in_use s f \<longleftrightarrow> lfstate (lfltab s f) = LF_USED"

definition nfiles :: "lfs \<Rightarrow> nat" where
  "nfiles s = unat (lfd_nfiles (lf_dir s))"

definition data_id :: "nat \<Rightarrow> nat \<Rightarrow> dbid32 \<Rightarrow> bool" where
  "data_id K S d \<longleftrightarrow> K < unat d \<and> unat d < S"

text \<open>Every block belongs to one file or to its free list, never to two.\<close>

definition lists_ok :: "nat \<Rightarrow> nat \<Rightarrow> nat \<Rightarrow> fsg \<Rightarrow> bool" where
  "lists_ok K S n g \<longleftrightarrow> K < S \<and> S \<le> RM_BLKS \<and> distinct (gFI g) \<and> distinct (gFD g) \<and>
     (\<forall>e < n. distinct (gks g e) \<and> distinct (gbs g e) \<and> set (gks g e) \<inter> set (gFI g) = {} \<and> set (gbs g e) \<inter> set (gFD g) = {}) \<and>
     (\<forall>e < n. \<forall>e' < n. e \<noteq> e' \<longrightarrow> set (gks g e) \<inter> set (gks g e') = {} \<and> set (gbs g e) \<inter> set (gbs g e') = {}) \<and>
     set (gFI g) \<union> (\<Union>e < n. set (gks g e)) = {k. valid_ib K k} \<and>
     set (gFD g) \<union> (\<Union>e < n. set (gbs g e)) = {d. data_id K S d}"

text \<open>A file: its index blocks in order, of 16 pointers each, and its data blocks.\<close>

definition file_ok :: "(ibid32 \<Rightarrow> lfiblk) \<Rightarrow> ldentry \<Rightarrow> ibid32 list \<Rightarrow> dbid32 list \<Rightarrow> bool" where
  "file_ok I ent ks bs \<longleftrightarrow> lchain (\<lambda>k. ib_next (I k)) (ld_ilist ent) ks \<and>
     (\<forall>j < length ks. unat (ib_offset (I (ks ! j))) = 8192 * j) \<and>
     concat (map (\<lambda>k. ib_dba (I k)) ks) = bs @ replicate (16 * length ks - length bs) LF_DNULL \<and>
     length bs \<le> 16 * length ks \<and> 16 * length ks \<le> length bs + 16 \<and>
     unat (ld_size ent) \<le> 512 * length bs \<and> 512 * length bs \<le> unat (ld_size ent) + 512"

definition lf_blocks_ok :: "nat \<Rightarrow> nat \<Rightarrow> fsg \<Rightarrow> bool" where
  "lf_blocks_ok K S g \<longleftrightarrow> (\<forall>k. valid_ib K k \<longrightarrow> length (ib_dba (gI g k)) = LF_IBLEN) \<and>
     (\<forall>d. data_id K S d \<longrightarrow> length (gD g d) = LF_BLKSIZ)"

definition disk_ok :: "nat \<Rightarrow> nat \<Rightarrow> fsg \<Rightarrow> mem \<Rightarrow> (nat \<Rightarrow> lflcblk) \<Rightarrow> bool" where
  "disk_ok K S g m tab \<longleftrightarrow>
     (\<forall>k. valid_ib K k \<longrightarrow> iblk_at m k = gI g k \<or> (\<exists>f. lfstate (tab f) = LF_USED \<and> lfibdirty (tab f) \<and> lfinum (tab f) = k)) \<and>
     (\<forall>d. data_id K S d \<longrightarrow> dblk_at m d = gD g d \<or> (\<exists>f. lfstate (tab f) = LF_USED \<and> lfdbdirty (tab f) \<and> lfdnum (tab f) = d))"

definition open_ok :: "fsg \<Rightarrow> lfdir \<Rightarrow> lflcblk \<Rightarrow> bool" where
  "open_ok g dir c \<longleftrightarrow> (\<exists>e. lfdirptr c = Some e \<and> e < unat (lfd_nfiles dir) \<and>
     lfpos c \<le> ld_size (lfd_files dir ! e) \<and> lfbyte c \<le> 512 \<and>
     (lfinum c \<noteq> LF_INULL \<longrightarrow> lfinum c \<in> set (gks g e) \<and> lfiblock c = gI g (lfinum c)) \<and>
     (lfdnum c \<noteq> LF_DNULL \<longrightarrow> lfdnum c \<in> set (gbs g e) \<and> lfdblock c = gD g (lfdnum c)) \<and>
     (lfibdirty c \<longrightarrow> lfinum c \<noteq> LF_INULL) \<and> (lfdbdirty c \<longrightarrow> lfdnum c \<noteq> LF_DNULL) \<and>
     (lfbyte c < 512 \<longrightarrow> lfbyte c = unat (lfpos c) mod 512 \<and> unat (lfpos c) div 512 < length (gbs g e) \<and>
        lfdnum c = gbs g e ! (unat (lfpos c) div 512)))"

definition fs_inv :: "nat \<Rightarrow> nat \<Rightarrow> fsg \<Rightarrow> lfs \<Rightarrow> bool" where
  "fs_inv K S g s \<longleftrightarrow> dir_ok (lf_dir s) \<and> nfiles s \<le> LF_NUM_DIR_ENT \<and> lists_ok K S (nfiles s) g \<and>
     (\<forall>e < nfiles s. file_ok (gI g) (lfd_files (lf_dir s) ! e) (gks g e) (gbs g e)) \<and>
     lchain (\<lambda>k. ib_next (gI g k)) (lfd_ifree (lf_dir s)) (gFI g) \<and>
     lchain (\<lambda>d. u32_at (gD g d) 0) (lfd_dfree (lf_dir s)) (gFD g) \<and>
     lf_blocks_ok K S g \<and> disk_ok K S g (ram s) (lfltab s) \<and>
     (\<forall>f. in_use s f \<longrightarrow> open_ok g (lf_dir s) (lfltab s f)) \<and>
     (\<forall>f f'. in_use s f \<longrightarrow> in_use s f' \<longrightarrow> f \<noteq> f' \<longrightarrow> lfdirptr (lfltab s f) \<noteq> lfdirptr (lfltab s f'))"

text \<open>The contents of a file, and the abstract state of an open one.\<close>

definition contents :: "fsg \<Rightarrow> lfs \<Rightarrow> nat \<Rightarrow> byte list" where
  "contents g s e = take (unat (ld_size (lfd_files (lf_dir s) ! e))) (concat (map (gD g) (gbs g e)))"

section \<open>Numbers and lists\<close>

lemma pos_block: "unat (p AND NOT LF_IMASK) = 8192 * (unat p div 8192)"
proof -
  have m: "LF_IMASK = mask 13" by (simp add: LF_IMASK_def mask_eq_exp_minus_1)
  have "p AND NOT LF_IMASK = push_bit 13 (drop_bit 13 p)"
    unfolding m by (rule bit_eqI) (auto simp: bit_simps)
  moreover have "8192 * (unat p div 8192) \<le> unat p" by simp
  then have "8192 * (unat p div 8192) < 4294967296" using unat_u32_less [of p] by linarith
  moreover have "unat (push_bit 13 (drop_bit 13 p)) = (unat p div 8192 * 8192) mod 4294967296"
    by (subst unsigned_push_bit_eq) (simp only: unat_drop_bit_eq, simp add: push_bit_eq_mult drop_bit_eq_div take_bit_eq_mod)
  ultimately show ?thesis by (simp only: mult.commute [of _ 8192]) (simp del: mult_mod_right)
qed

lemma pos_index: "unat (drop_bit 9 (p AND LF_IMASK)) = unat p mod 8192 div 512"
proof -
  have m: "LF_IMASK = mask 13" by (simp add: LF_IMASK_def mask_eq_exp_minus_1)
  have "p AND LF_IMASK = take_bit 13 p" unfolding m by (rule bit_eqI) (auto simp: bit_simps)
  then show ?thesis by (simp add: drop_bit_eq_div take_bit_eq_mod unat_div unat_mod)
qed

lemma pos_byte: "unat (p AND LF_DMASK) = unat p mod 512"
proof -
  have m: "LF_DMASK = mask 9" by (simp add: LF_DMASK_def mask_eq_exp_minus_1)
  have "p AND LF_DMASK = take_bit 9 p" unfolding m by (rule bit_eqI) (auto simp: bit_simps)
  then show ?thesis by (simp add: take_bit_eq_mod unat_mod)
qed

lemma index_arith:
  fixes p :: nat
  shows "p mod 8192 div 512 < 16" "16 * (p div 8192) + p mod 8192 div 512 = p div 512"
proof -
  show "p mod 8192 div 512 < 16" by (simp add: less_mult_imp_div_less)
  have "p div 512 = (8192 * (p div 8192) + p mod 8192) div 512" by simp
  also have "\<dots> = 16 * (p div 8192) + p mod 8192 div 512"
    using div_mult_self3 [of 512 "16 * (p div 8192)" "p mod 8192"] by (simp add: mult.assoc)
  finally show "16 * (p div 8192) + p mod 8192 div 512 = p div 512" by simp
qed

lemma concat_nth:
  "\<forall>x \<in> set xs. length (f x) = n \<Longrightarrow> m < length xs \<Longrightarrow> i < n \<Longrightarrow> concat (map f xs) ! (n * m + i) = f (xs ! m) ! i"
proof (induction xs arbitrary: m)
  case (Cons x xs)
  then show ?case by (cases m) (auto simp: nth_append add.assoc)
qed simp

lemma concat_update:
  "\<forall>x \<in> set xs. length (f x) = n \<Longrightarrow> distinct xs \<Longrightarrow> m < length xs \<Longrightarrow> i < n \<Longrightarrow>
   concat (map (f(xs ! m := (f (xs ! m))[i := v])) xs) = (concat (map f xs))[n * m + i := v]"
proof (induction xs arbitrary: m)
  case (Cons x xs)
  show ?case
  proof (cases m)
    case 0
    have "map (f(x := (f x)[i := v])) xs = map f xs" using Cons.prems(2) by auto
    then have "concat (map (f(x := (f x)[i := v])) (x # xs)) = (f x)[i := v] @ concat (map f xs)"
      by (simp only: list.map concat.simps fun_upd_same)
    then show ?thesis using 0 Cons.prems by (simp add: list_update_append del: fun_upd_apply)
  next
    case (Suc m')
    let ?f = "f(xs ! m' := (f (xs ! m'))[i := v])"
    have m': "x \<notin> set xs" "distinct xs" "m' < length xs" using Suc Cons.prems(2,3) by simp_all
    have n: "length (f x) = n" "\<forall>x \<in> set xs. length (f x) = n" using Cons.prems(1) by simp_all
    have "x \<noteq> xs ! m'" using m' by (metis nth_mem)
    then have "concat (map ?f (x # xs)) = f x @ concat (map ?f xs)" by simp
    moreover have "concat (map ?f xs) = (concat (map f xs))[n * m' + i := v]"
      by (rule Cons.IH [OF n(2) m'(2,3) Cons.prems(4)])
    ultimately show ?thesis
      unfolding Suc nth_Cons_Suc by (simp only: list.map concat.simps) (simp add: list_update_append n(1))
  qed
qed simp

lemma lchain_snoc:
  "lchain nx p ks \<Longrightarrow> distinct ks \<Longrightarrow> ks \<noteq> [] \<Longrightarrow> k \<notin> set ks \<Longrightarrow> k \<noteq> - 1 \<Longrightarrow> nx' (last ks) = k \<Longrightarrow> nx' k = - 1 \<Longrightarrow>
   \<forall>x \<in> set (butlast ks). nx' x = nx x \<Longrightarrow> lchain nx' p (ks @ [k])"
proof (induction ks arbitrary: p)
  case (Cons x xs)
  then show ?case by (cases xs) auto
qed simp

lemma lchain_next: "lchain nx p ks \<Longrightarrow> j < length ks \<Longrightarrow> nx (ks ! j) = (if j + 1 < length ks then ks ! (j + 1) else - 1)"
proof (induction ks arbitrary: p j)
  case (Cons k ks)
  show ?case
  proof (cases j)
    case 0
    then show ?thesis using Cons.prems by (cases ks) auto
  next
    case (Suc j')
    then show ?thesis using Cons by auto
  qed
qed simp

lemma lchain_rest: "lchain nx p (k # ks) \<Longrightarrow> \<forall>x \<in> set ks. nx' x = nx x \<Longrightarrow> lchain nx' (nx k) ks"
  using lchain_frame [of ks nx' nx] by simp

lemma lchain_nonnull: "lchain nx p ks \<Longrightarrow> k \<in> set ks \<Longrightarrow> k \<noteq> - 1"
  by (induction ks arbitrary: p) auto

section \<open>Facts of the invariant\<close>

lemma data_id_valid: "data_id K S d \<Longrightarrow> S \<le> RM_BLKS \<Longrightarrow> valid_db K d"
  by (simp add: data_id_def valid_db_def)

lemma listsD:
  assumes "lists_ok K S n g"
  shows "k \<in> set (gFI g) \<Longrightarrow> valid_ib K k" "e < n \<Longrightarrow> k \<in> set (gks g e) \<Longrightarrow> valid_ib K k"
    "d \<in> set (gFD g) \<Longrightarrow> data_id K S d" "e < n \<Longrightarrow> d \<in> set (gbs g e) \<Longrightarrow> data_id K S d" "S \<le> RM_BLKS"
  using assms unfolding lists_ok_def by blast+

lemma fs_invD:
  assumes "fs_inv K S g s"
  shows "dir_ok (lf_dir s)" "nfiles s \<le> LF_NUM_DIR_ENT" "lists_ok K S (nfiles s) g"
    "e < nfiles s \<Longrightarrow> file_ok (gI g) (lfd_files (lf_dir s) ! e) (gks g e) (gbs g e)"
    "lchain (\<lambda>k. ib_next (gI g k)) (lfd_ifree (lf_dir s)) (gFI g)"
    "lchain (\<lambda>d. u32_at (gD g d) 0) (lfd_dfree (lf_dir s)) (gFD g)"
    "lf_blocks_ok K S g" "disk_ok K S g (ram s) (lfltab s)" "in_use s f \<Longrightarrow> open_ok g (lf_dir s) (lfltab s f)"
    "in_use s f \<Longrightarrow> in_use s f' \<Longrightarrow> f \<noteq> f' \<Longrightarrow> lfdirptr (lfltab s f) \<noteq> lfdirptr (lfltab s f')"
  using assms unfolding fs_inv_def by blast+

text \<open>The entry of an open file.\<close>

definition on_entry :: "lfs \<Rightarrow> nat \<Rightarrow> nat \<Rightarrow> bool" where
  "on_entry s f e \<longleftrightarrow> in_use s f \<and> lfdirptr (lfltab s f) = Some e"

lemma open_okD:
  assumes "fs_inv K S g s" "on_entry s f e"
  shows "e < nfiles s" "lfpos (lfltab s f) \<le> ld_size (lfd_files (lf_dir s) ! e)" "lfbyte (lfltab s f) \<le> 512"
    "lfinum (lfltab s f) \<noteq> LF_INULL \<Longrightarrow> lfinum (lfltab s f) \<in> set (gks g e) \<and> lfiblock (lfltab s f) = gI g (lfinum (lfltab s f))"
    "lfdnum (lfltab s f) \<noteq> LF_DNULL \<Longrightarrow> lfdnum (lfltab s f) \<in> set (gbs g e) \<and> lfdblock (lfltab s f) = gD g (lfdnum (lfltab s f))"
    "lfibdirty (lfltab s f) \<Longrightarrow> lfinum (lfltab s f) \<noteq> LF_INULL" "lfdbdirty (lfltab s f) \<Longrightarrow> lfdnum (lfltab s f) \<noteq> LF_DNULL"
    "lfbyte (lfltab s f) < 512 \<Longrightarrow> lfbyte (lfltab s f) = unat (lfpos (lfltab s f)) mod 512 \<and>
       unat (lfpos (lfltab s f)) div 512 < length (gbs g e) \<and>
       lfdnum (lfltab s f) = gbs g e ! (unat (lfpos (lfltab s f)) div 512)"
proof -
  have "open_ok g (lf_dir s) (lfltab s f)" using fs_invD(9) [OF assms(1)] assms(2) by (simp add: on_entry_def)
  then obtain e' where e': "lfdirptr (lfltab s f) = Some e'" "e' < unat (lfd_nfiles (lf_dir s))"
    "lfpos (lfltab s f) \<le> ld_size (lfd_files (lf_dir s) ! e')" "lfbyte (lfltab s f) \<le> 512"
    "lfinum (lfltab s f) \<noteq> LF_INULL \<longrightarrow> lfinum (lfltab s f) \<in> set (gks g e') \<and> lfiblock (lfltab s f) = gI g (lfinum (lfltab s f))"
    "lfdnum (lfltab s f) \<noteq> LF_DNULL \<longrightarrow> lfdnum (lfltab s f) \<in> set (gbs g e') \<and> lfdblock (lfltab s f) = gD g (lfdnum (lfltab s f))"
    "lfibdirty (lfltab s f) \<longrightarrow> lfinum (lfltab s f) \<noteq> LF_INULL" "lfdbdirty (lfltab s f) \<longrightarrow> lfdnum (lfltab s f) \<noteq> LF_DNULL"
    "lfbyte (lfltab s f) < 512 \<longrightarrow> lfbyte (lfltab s f) = unat (lfpos (lfltab s f)) mod 512 \<and>
       unat (lfpos (lfltab s f)) div 512 < length (gbs g e') \<and>
       lfdnum (lfltab s f) = gbs g e' ! (unat (lfpos (lfltab s f)) div 512)"
    unfolding open_ok_def by blast
  have "e' = e" using e'(1) assms(2) by (simp add: on_entry_def)
  then show "e < nfiles s" "lfpos (lfltab s f) \<le> ld_size (lfd_files (lf_dir s) ! e)" "lfbyte (lfltab s f) \<le> 512"
    "lfinum (lfltab s f) \<noteq> LF_INULL \<Longrightarrow> lfinum (lfltab s f) \<in> set (gks g e) \<and> lfiblock (lfltab s f) = gI g (lfinum (lfltab s f))"
    "lfdnum (lfltab s f) \<noteq> LF_DNULL \<Longrightarrow> lfdnum (lfltab s f) \<in> set (gbs g e) \<and> lfdblock (lfltab s f) = gD g (lfdnum (lfltab s f))"
    "lfibdirty (lfltab s f) \<Longrightarrow> lfinum (lfltab s f) \<noteq> LF_INULL" "lfdbdirty (lfltab s f) \<Longrightarrow> lfdnum (lfltab s f) \<noteq> LF_DNULL"
    "lfbyte (lfltab s f) < 512 \<Longrightarrow> lfbyte (lfltab s f) = unat (lfpos (lfltab s f)) mod 512 \<and>
       unat (lfpos (lfltab s f)) div 512 < length (gbs g e) \<and>
       lfdnum (lfltab s f) = gbs g e ! (unat (lfpos (lfltab s f)) div 512)"
    using e'(2-) by (simp_all add: nfiles_def)
qed

lemma in_use_entry: "fs_inv K S g s \<Longrightarrow> in_use s f \<Longrightarrow> \<exists>e. on_entry s f e"
  using fs_invD(9) [of K S g s f] unfolding open_ok_def on_entry_def by blast

lemma entry_unique: "fs_inv K S g s \<Longrightarrow> on_entry s f e \<Longrightarrow> on_entry s f' e \<Longrightarrow> f' = f"
  using fs_invD(10) [of K S g s f f'] unfolding on_entry_def by auto

lemma dirty_block_owner:
  assumes "fs_inv K S g s" "in_use s f"
  shows "lfibdirty (lfltab s f) \<Longrightarrow> \<exists>e. on_entry s f e \<and> e < nfiles s \<and> lfinum (lfltab s f) \<in> set (gks g e)"
    "lfdbdirty (lfltab s f) \<Longrightarrow> \<exists>e. on_entry s f e \<and> e < nfiles s \<and> lfdnum (lfltab s f) \<in> set (gbs g e)"
proof -
  obtain e where e: "on_entry s f e" using in_use_entry [OF assms] by blast
  note o = open_okD [OF assms(1) e]
  show "\<exists>e. on_entry s f e \<and> e < nfiles s \<and> lfinum (lfltab s f) \<in> set (gks g e)" if "lfibdirty (lfltab s f)"
    using e o(1) o(4) [OF o(6) [OF that]] by blast
  show "\<exists>e. on_entry s f e \<and> e < nfiles s \<and> lfdnum (lfltab s f) \<in> set (gbs g e)" if "lfdbdirty (lfltab s f)"
    using e o(1) o(5) [OF o(7) [OF that]] by blast
qed

lemma owner_unique:
  assumes "lists_ok K S n g" "e < n" "e' < n"
  shows "k \<in> set (gks g e) \<Longrightarrow> k \<in> set (gks g e') \<Longrightarrow> e' = e" "d \<in> set (gbs g e) \<Longrightarrow> d \<in> set (gbs g e') \<Longrightarrow> e' = e"
proof -
  have "\<forall>e < n. \<forall>e' < n. e \<noteq> e' \<longrightarrow> set (gks g e) \<inter> set (gks g e') = {} \<and> set (gbs g e) \<inter> set (gbs g e') = {}"
    using assms(1) unfolding lists_ok_def by (elim conjE)
  then have *: "e \<noteq> e' \<longrightarrow> set (gks g e) \<inter> set (gks g e') = {} \<and> set (gbs g e) \<inter> set (gbs g e') = {}"
    using assms(2,3) by simp
  show "k \<in> set (gks g e) \<Longrightarrow> k \<in> set (gks g e') \<Longrightarrow> e' = e" using * by blast
  show "d \<in> set (gbs g e) \<Longrightarrow> d \<in> set (gbs g e') \<Longrightarrow> e' = e" using * by blast
qed

lemma disk_okD:
  assumes "disk_ok K S g m tab"
  shows "valid_ib K k \<Longrightarrow> iblk_at m k \<noteq> gI g k \<Longrightarrow> \<exists>f. lfstate (tab f) = LF_USED \<and> lfibdirty (tab f) \<and> lfinum (tab f) = k"
    "data_id K S d \<Longrightarrow> dblk_at m d \<noteq> gD g d \<Longrightarrow> \<exists>f. lfstate (tab f) = LF_USED \<and> lfdbdirty (tab f) \<and> lfdnum (tab f) = d"
  using assms unfolding disk_ok_def by blast+

text \<open>A block that the disk does not hold is in the copy of the open file that owns it.\<close>

lemma stale_owner:
  assumes inv: "fs_inv K S g s"
  shows "valid_ib K k \<Longrightarrow> iblk_at (ram s) k \<noteq> gI g k \<Longrightarrow>
      \<exists>f e. on_entry s f e \<and> e < nfiles s \<and> k \<in> set (gks g e) \<and> lfibdirty (lfltab s f)"
    "data_id K S d \<Longrightarrow> dblk_at (ram s) d \<noteq> gD g d \<Longrightarrow>
      \<exists>f e. on_entry s f e \<and> e < nfiles s \<and> d \<in> set (gbs g e) \<and> lfdbdirty (lfltab s f)"
  using disk_okD [OF fs_invD(8) [OF inv]] dirty_block_owner [OF inv] unfolding in_use_def by metis+

lemma lists_disjoint:
  "lists_ok K S n g \<Longrightarrow> e < n \<Longrightarrow> set (gks g e) \<inter> set (gFI g) = {} \<and> set (gbs g e) \<inter> set (gFD g) = {}"
  unfolding lists_ok_def by simp

text \<open>What the disk holds of free blocks, and of the blocks of a file whose copy in memory is unchanged.\<close>

lemma disk_free:
  assumes "fs_inv K S g s"
  shows "k \<in> set (gFI g) \<Longrightarrow> iblk_at (ram s) k = gI g k" "d \<in> set (gFD g) \<Longrightarrow> dblk_at (ram s) d = gD g d"
proof -
  note l = fs_invD(3) [OF assms]
  show "k \<in> set (gFI g) \<Longrightarrow> iblk_at (ram s) k = gI g k"
    using stale_owner(1) [OF assms listsD(1) [OF l]] lists_disjoint [OF l] by blast
  show "d \<in> set (gFD g) \<Longrightarrow> dblk_at (ram s) d = gD g d"
    using stale_owner(2) [OF assms listsD(3) [OF l]] lists_disjoint [OF l] by blast
qed

lemma disk_own:
  assumes inv: "fs_inv K S g s" and f: "on_entry s f e"
  shows "\<not> lfibdirty (lfltab s f) \<Longrightarrow> k \<in> set (gks g e) \<Longrightarrow> iblk_at (ram s) k = gI g k"
    "\<not> lfdbdirty (lfltab s f) \<Longrightarrow> d \<in> set (gbs g e) \<Longrightarrow> dblk_at (ram s) d = gD g d"
proof -
  note l = fs_invD(3) [OF inv] and e = open_okD(1) [OF inv f]
  show "iblk_at (ram s) k = gI g k" if nd: "\<not> lfibdirty (lfltab s f)" and k: "k \<in> set (gks g e)"
    using stale_owner(1) [OF inv listsD(2) [OF l e k]] owner_unique(1) [OF l e _ k] entry_unique [OF inv f] nd by metis
  show "dblk_at (ram s) d = gD g d" if nd: "\<not> lfdbdirty (lfltab s f)" and d: "d \<in> set (gbs g e)"
    using stale_owner(2) [OF inv listsD(4) [OF l e d]] owner_unique(2) [OF l e _ d] entry_unique [OF inv f] nd by metis
qed

section \<open>Writing back\<close>

definition others_same :: "nat \<Rightarrow> lfs \<Rightarrow> lfs \<Rightarrow> bool" where
  "others_same f s s' \<longleftrightarrow> (\<forall>f'. f' \<noteq> f \<longrightarrow> lfltab s' f' = lfltab s f') \<and> lf_mutex s' = lf_mutex s \<and>
     lf_dirpresent s' = lf_dirpresent s"

lemma others_same_refl [simp]: "others_same f s s"
  by (simp add: others_same_def)

lemma others_same_trans: "others_same f s s' \<Longrightarrow> others_same f s' s'' \<Longrightarrow> others_same f s s''"
  by (simp add: others_same_def)

lemma disk_ok_mem:
  assumes "disk_ok K S g m tab" "\<And>k. valid_ib K k \<Longrightarrow> iblk_at m' k = iblk_at m k"
    "\<And>d. data_id K S d \<Longrightarrow> dblk_at m' d = dblk_at m d"
  shows "disk_ok K S g m' tab"
  using assms unfolding disk_ok_def by simp

lemma disk_ok_fcb:
  assumes "disk_ok K S g m tab" "lfstate c = LF_USED"
    "lfstate (tab f) = LF_USED \<Longrightarrow> lfibdirty (tab f) \<Longrightarrow> lfibdirty c \<and> lfinum c = lfinum (tab f)"
    "lfstate (tab f) = LF_USED \<Longrightarrow> lfdbdirty (tab f) \<Longrightarrow> lfdbdirty c \<and> lfdnum c = lfdnum (tab f)"
  shows "disk_ok K S g m (tab(f := c))"
  unfolding disk_ok_def
proof (intro conjI allI impI)
  fix k assume k: "valid_ib K k"
  show "iblk_at m k = gI g k \<or> (\<exists>f'. lfstate ((tab(f := c)) f') = LF_USED \<and> lfibdirty ((tab(f := c)) f') \<and> lfinum ((tab(f := c)) f') = k)"
  proof (cases "iblk_at m k = gI g k")
    case False
    then obtain f' where "lfstate (tab f') = LF_USED" "lfibdirty (tab f')" "lfinum (tab f') = k"
      using disk_okD(1) [OF assms(1) k] by blast
    then show ?thesis using assms(2,3) by (intro disjI2 exI [of _ f']) auto
  qed simp
next
  fix d assume d: "data_id K S d"
  show "dblk_at m d = gD g d \<or> (\<exists>f'. lfstate ((tab(f := c)) f') = LF_USED \<and> lfdbdirty ((tab(f := c)) f') \<and> lfdnum ((tab(f := c)) f') = d)"
  proof (cases "dblk_at m d = gD g d")
    case False
    then obtain f' where "lfstate (tab f') = LF_USED" "lfdbdirty (tab f')" "lfdnum (tab f') = d"
      using disk_okD(2) [OF assms(1) d] by blast
    then show ?thesis using assms(2,4) by (intro disjI2 exI [of _ f']) auto
  qed simp
qed

text \<open>A change of one control block, with the disk.\<close>

lemma inv_fcb:
  assumes inv: "fs_inv K S g s" and f: "on_entry s f e" and d: "lf_dir s' = lf_dir s" and t: "lfltab s' = (lfltab s)(f := c)"
    and c: "open_ok g (lf_dir s) c" "lfstate c = LF_USED" "lfdirptr c = Some e"
    and m: "disk_ok K S g (ram s') ((lfltab s)(f := c))"
  shows "fs_inv K S g s'" "on_entry s' f e"
proof -
  have u: "in_use s' f' = in_use s f'" for f'
    using f c(2) by (cases "f' = f") (simp_all add: in_use_def on_entry_def t)
  have p: "lfdirptr (lfltab s' f') = lfdirptr (lfltab s f')" for f'
    using f c(3) by (cases "f' = f") (simp_all add: on_entry_def t)
  have o: "open_ok g (lf_dir s) (lfltab s' f')" if "in_use s f'" for f'
    using fs_invD(9) [OF inv that] c(1) by (cases "f' = f") (simp_all add: t)
  have n: "nfiles s' = nfiles s" by (simp add: nfiles_def d)
  have "disk_ok K S g (ram s') (lfltab s')" using m t by simp
  then show "fs_inv K S g s'"
    unfolding fs_inv_def d n u
    using fs_invD(1-7) [OF inv] o fs_invD(10) [OF inv] by (simp add: p)
  show "on_entry s' f e" using f u p unfolding on_entry_def by simp
qed

lemma write_dir_eq: "dir_ok (lf_dir s) \<Longrightarrow> write_dir s = Inr (s\<lparr>ram := wr_bytes (ram s) 0 (dir_bytes (lf_dir s))\<rparr>)"
  by (simp add: write_dir_def ramwrite_dir)

lemma dir_write_views:
  assumes "dir_ok d"
  shows "valid_ib K k \<Longrightarrow> iblk_at (wr_bytes m 0 (dir_bytes d)) k = iblk_at m k"
    "data_id K S x \<Longrightarrow> dblk_at (wr_bytes m 0 (dir_bytes d)) x = dblk_at m x"
  using length_dir_bytes [OF assms] by (auto intro: iblk_at_dir dblk_at_dir simp: LF_BLKSIZ_def data_id_def)

lemma flush_dir_spec:
  assumes inv: "fs_inv K S g s"
  shows "\<exists>s'. flush_dir s = Inr s' \<and> fs_inv K S g s' \<and> lfltab s' = lfltab s \<and> lf_dir s' = lf_dir s \<and>
    others_same f s s' \<and> \<not> lf_dirdirty s'"
proof (cases "lf_dirdirty s")
  case True
  let ?s = "s\<lparr>ram := wr_bytes (ram s) 0 (dir_bytes (lf_dir s)), lf_dirdirty := False\<rparr>"
  note d = fs_invD(1) [OF inv]
  have e: "flush_dir s = Inr ?s" using True by (simp add: flush_dir_def write_dir_eq [OF d])
  have m: "disk_ok K S g (ram ?s) (lfltab s)"
    using disk_ok_mem [OF fs_invD(8) [OF inv] dir_write_views [OF d]] by simp
  have "fs_inv K S g ?s"
    using inv m unfolding fs_inv_def nfiles_def in_use_def by simp
  then show ?thesis using e by (intro exI [of _ ?s]) (simp add: others_same_def)
qed (use inv in \<open>auto simp: flush_dir_def\<close>)

lemma open_ok_flags: "open_ok g d c \<Longrightarrow> open_ok g d (c\<lparr>lfdbdirty := False\<rparr>)" "open_ok g d c \<Longrightarrow> open_ok g d (c\<lparr>lfibdirty := False\<rparr>)"
  unfolding open_ok_def by auto

text \<open>Writing a block that only one control block holds.\<close>

lemma disk_ok_data_written:
  assumes ok: "disk_ok K S g m tab" and l: "length (gD g (lfdnum (tab f))) = LF_BLKSIZ" and K: "K < unat (lfdnum (tab f))"
  shows "disk_ok K S g (wr_bytes m (db_addr (lfdnum (tab f))) (gD g (lfdnum (tab f)))) (tab(f := (tab f)\<lparr>lfdbdirty := False\<rparr>))"
    (is "disk_ok K S g ?m (tab(f := ?c))")
  unfolding disk_ok_def
proof (intro conjI allI impI)
  fix k assume k: "valid_ib K k"
  show "iblk_at ?m k = gI g k \<or> (\<exists>f'. lfstate ((tab(f := ?c)) f') = LF_USED \<and> lfibdirty ((tab(f := ?c)) f') \<and> lfinum ((tab(f := ?c)) f') = k)"
  proof (cases "iblk_at m k = gI g k")
    case False
    then obtain f' where "lfstate (tab f') = LF_USED" "lfibdirty (tab f')" "lfinum (tab f') = k"
      using disk_okD(1) [OF ok k] by blast
    then show ?thesis by (intro disjI2 exI [of _ f']) auto
  qed (use iblk_at_dput [OF k K] in simp)
next
  fix d assume d: "data_id K S d"
  show "dblk_at ?m d = gD g d \<or> (\<exists>f'. lfstate ((tab(f := ?c)) f') = LF_USED \<and> lfdbdirty ((tab(f := ?c)) f') \<and> lfdnum ((tab(f := ?c)) f') = d)"
  proof (cases "d = lfdnum (tab f) \<or> dblk_at m d = gD g d")
    case False
    then obtain f' where "lfstate (tab f') = LF_USED" "lfdbdirty (tab f')" "lfdnum (tab f') = d"
      using disk_okD(2) [OF ok d] by blast
    moreover from this have "f' \<noteq> f" using False by auto
    ultimately show ?thesis by (intro disjI2 exI [of _ f']) auto
  qed (auto simp: dblk_at_put [OF l])
qed

lemma disk_ok_index_written:
  assumes ok: "disk_ok K S g m tab" and l: "length (ib_dba (gI g (lfinum (tab f)))) = LF_IBLEN" and K: "valid_ib K (lfinum (tab f))"
  shows "disk_ok K S g (wr_bytes m (ib_addr (lfinum (tab f))) (iblk_bytes (gI g (lfinum (tab f))))) (tab(f := (tab f)\<lparr>lfibdirty := False\<rparr>))"
    (is "disk_ok K S g ?m (tab(f := ?c))")
  unfolding disk_ok_def
proof (intro conjI allI impI)
  fix d assume d: "data_id K S d"
  show "dblk_at ?m d = gD g d \<or> (\<exists>f'. lfstate ((tab(f := ?c)) f') = LF_USED \<and> lfdbdirty ((tab(f := ?c)) f') \<and> lfdnum ((tab(f := ?c)) f') = d)"
  proof (cases "dblk_at m d = gD g d")
    case False
    then obtain f' where "lfstate (tab f') = LF_USED" "lfdbdirty (tab f')" "lfdnum (tab f') = d"
      using disk_okD(2) [OF ok d] by blast
    then show ?thesis by (intro disjI2 exI [of _ f']) auto
  qed (use dblk_at_iput [OF K l] d in \<open>simp add: data_id_def\<close>)
next
  fix k assume k: "valid_ib K k"
  show "iblk_at ?m k = gI g k \<or> (\<exists>f'. lfstate ((tab(f := ?c)) f') = LF_USED \<and> lfibdirty ((tab(f := ?c)) f') \<and> lfinum ((tab(f := ?c)) f') = k)"
  proof (cases "k = lfinum (tab f) \<or> iblk_at m k = gI g k")
    case False
    then obtain f' where "lfstate (tab f') = LF_USED" "lfibdirty (tab f')" "lfinum (tab f') = k"
      using disk_okD(1) [OF ok k] by blast
    moreover from this have "f' \<noteq> f" using False by auto
    ultimately show ?thesis by (intro disjI2 exI [of _ f']) auto
  qed (auto simp: iblk_at_put [OF l])
qed

lemma flush_data_spec:
  assumes inv: "fs_inv K S g s" and f: "on_entry s f e"
  shows "\<exists>s'. flush_data f s = Inr s' \<and> fs_inv K S g s' \<and> on_entry s' f e \<and>
    lfltab s' f = (lfltab s f)\<lparr>lfdbdirty := False\<rparr> \<and> lf_dir s' = lf_dir s \<and> others_same f s s'"
proof (cases "lfdbdirty (lfltab s f)")
  case True
  let ?c = "lfltab s f"
  let ?d = "lfdnum ?c"
  note o = open_okD [OF inv f]
  have d: "?d \<in> set (gbs g e)" "lfdblock ?c = gD g ?d" using o(5) [OF o(7) [OF True]] by auto
  have v: "data_id K S ?d" "valid_db K ?d"
    using listsD(4) [OF fs_invD(3) [OF inv] o(1) d(1)] data_id_valid listsD(5) [OF fs_invD(3) [OF inv]] by auto
  have l: "length (gD g ?d) = LF_BLKSIZ" using fs_invD(7) [OF inv] v(1) by (simp add: lf_blocks_ok_def)
  let ?m = "wr_bytes (ram s) (db_addr ?d) (gD g ?d)"
  let ?s = "upd_fcb f (\<lambda>c. c\<lparr>lfdbdirty := False\<rparr>) (s\<lparr>ram := ?m\<rparr>)"
  have e: "flush_data f s = Inr ?s"
    using True l by (simp add: flush_data_def Let_def ramwrite_valid [OF v(2)] d(2) LF_BLKSIZ_def)
  have m: "disk_ok K S g ?m ((lfltab s)(f := ?c\<lparr>lfdbdirty := False\<rparr>))"
    by (rule disk_ok_data_written [OF fs_invD(8) [OF inv] l]) (use v in \<open>auto simp: data_id_def\<close>)
  have "open_ok g (lf_dir s) (?c\<lparr>lfdbdirty := False\<rparr>)"
    using fs_invD(9) [OF inv] f open_ok_flags(1) unfolding on_entry_def by blast
  then have "fs_inv K S g ?s" "on_entry ?s f e"
    using inv_fcb [OF inv f, of ?s "?c\<lparr>lfdbdirty := False\<rparr>"] m f by (simp_all add: upd_fcb_def on_entry_def in_use_def)
  then show ?thesis using e by (intro exI [of _ ?s]) (simp add: others_same_def upd_fcb_def)
next
  case False
  then have "(lfltab s f)\<lparr>lfdbdirty := False\<rparr> = lfltab s f" by simp
  then show ?thesis using False inv f by (intro exI [of _ s]) (simp add: flush_data_def Let_def)
qed

lemma flush_index_spec:
  assumes inv: "fs_inv K S g s" and f: "on_entry s f e"
  shows "\<exists>s'. flush_index f s = Inr s' \<and> fs_inv K S g s' \<and> on_entry s' f e \<and>
    lfltab s' f = (lfltab s f)\<lparr>lfibdirty := False\<rparr> \<and> lf_dir s' = lf_dir s \<and> others_same f s s'"
proof (cases "lfibdirty (lfltab s f)")
  case True
  let ?c = "lfltab s f"
  let ?k = "lfinum ?c"
  note o = open_okD [OF inv f]
  have d: "?k \<in> set (gks g e)" "lfiblock ?c = gI g ?k" using o(4) [OF o(6) [OF True]] by auto
  have v: "valid_ib K ?k" using listsD(2) [OF fs_invD(3) [OF inv] o(1) d(1)] .
  have l: "length (ib_dba (gI g ?k)) = LF_IBLEN" using fs_invD(7) [OF inv] v by (simp add: lf_blocks_ok_def)
  let ?m = "wr_bytes (ram s) (ib_addr ?k) (iblk_bytes (gI g ?k))"
  let ?s = "upd_fcb f (\<lambda>c. c\<lparr>lfibdirty := False\<rparr>) (s\<lparr>ram := ?m\<rparr>)"
  have e: "flush_index f s = Inr ?s"
    using True by (simp add: flush_index_def Let_def d(2) lfibput_valid [OF v l])
  have m: "disk_ok K S g ?m ((lfltab s)(f := ?c\<lparr>lfibdirty := False\<rparr>))"
    by (rule disk_ok_index_written [OF fs_invD(8) [OF inv] l v])
  have "open_ok g (lf_dir s) (?c\<lparr>lfibdirty := False\<rparr>)"
    using fs_invD(9) [OF inv] f open_ok_flags(2) unfolding on_entry_def by blast
  then have "fs_inv K S g ?s" "on_entry ?s f e"
    using inv_fcb [OF inv f, of ?s "?c\<lparr>lfibdirty := False\<rparr>"] m f by (simp_all add: upd_fcb_def on_entry_def in_use_def)
  then show ?thesis using e by (intro exI [of _ ?s]) (simp add: others_same_def upd_fcb_def)
next
  case False
  then have "(lfltab s f)\<lparr>lfibdirty := False\<rparr> = lfltab s f" by simp
  then show ?thesis using False inv f by (intro exI [of _ s]) (simp add: flush_index_def Let_def)
qed

lemma lfflush_spec:
  assumes inv: "fs_inv K S g s" and f: "on_entry s f e"
  shows "\<exists>s'. lfflush f s = Inr (OK_st, s') \<and> fs_inv K S g s' \<and> on_entry s' f e \<and>
    lfltab s' f = (lfltab s f)\<lparr>lfibdirty := False, lfdbdirty := False\<rparr> \<and> lf_dir s' = lf_dir s \<and> others_same f s s'"
proof -
  have st: "lfstate (lfltab s f) \<noteq> LF_FREE" using f by (simp add: on_entry_def in_use_def)
  obtain s1 where s1: "flush_dir s = Inr s1" "fs_inv K S g s1" "lfltab s1 = lfltab s" "lf_dir s1 = lf_dir s" "others_same f s s1"
    using flush_dir_spec [OF inv, of f] by blast
  have f1: "on_entry s1 f e" using f s1(3) by (simp add: on_entry_def in_use_def)
  obtain s2 where s2: "flush_data f s1 = Inr s2" "fs_inv K S g s2" "on_entry s2 f e"
    "lfltab s2 f = (lfltab s1 f)\<lparr>lfdbdirty := False\<rparr>" "lf_dir s2 = lf_dir s1" "others_same f s1 s2"
    using flush_data_spec [OF s1(2) f1] by blast
  obtain s3 where s3: "flush_index f s2 = Inr s3" "fs_inv K S g s3" "on_entry s3 f e"
    "lfltab s3 f = (lfltab s2 f)\<lparr>lfibdirty := False\<rparr>" "lf_dir s3 = lf_dir s2" "others_same f s2 s3"
    using flush_index_spec [OF s2(2,3)] by blast
  have "lfflush f s = Inr (OK_st, s3)" using st by (simp add: lfflush_def s1(1) s2(1) s3(1))
  moreover have "others_same f s s3" using s1(5) s2(6) s3(6) others_same_trans by blast
  ultimately show ?thesis using s1(3,4) s2(4,5) s3 by (intro exI [of _ s3]) simp
qed

lemma flush_dirty_spec:
  assumes inv: "fs_inv K S g s" and f: "on_entry s f e"
  shows "\<exists>s'. flush_dirty f s = Inr s' \<and> fs_inv K S g s' \<and> on_entry s' f e \<and>
    lfltab s' f = (lfltab s f)\<lparr>lfibdirty := False, lfdbdirty := False\<rparr> \<and> lf_dir s' = lf_dir s \<and> others_same f s s'"
proof (cases "lfibdirty (lfltab s f) \<or> lfdbdirty (lfltab s f)")
  case True
  obtain s' where "lfflush f s = Inr (OK_st, s')" "fs_inv K S g s'" "on_entry s' f e"
    "lfltab s' f = (lfltab s f)\<lparr>lfibdirty := False, lfdbdirty := False\<rparr>" "lf_dir s' = lf_dir s" "others_same f s s'"
    using lfflush_spec [OF inv f] by blast
  then show ?thesis using True by (intro exI [of _ s']) (simp add: flush_dirty_def)
next
  case False
  then have "(lfltab s f)\<lparr>lfibdirty := False, lfdbdirty := False\<rparr> = lfltab s f" by simp
  then show ?thesis using False inv f by (intro exI [of _ s]) (simp add: flush_dirty_def)
qed

section \<open>One file changes\<close>

text \<open>The rule for a step on the file of entry \<open>e\<close>: what it has to keep of the other files and of the free lists.\<close>

definition apart :: "nat \<Rightarrow> nat \<Rightarrow> fsg \<Rightarrow> fsg \<Rightarrow> bool" where
  "apart n e g g' \<longleftrightarrow> (\<forall>e' < n. e' \<noteq> e \<longrightarrow> gks g' e' = gks g e' \<and> gbs g' e' = gbs g e' \<and>
     (\<forall>k \<in> set (gks g e'). gI g' k = gI g k) \<and> (\<forall>d \<in> set (gbs g e'). gD g' d = gD g d))"

lemma file_ok_frame: "\<forall>k \<in> set ks. I' k = I k \<Longrightarrow> file_ok I' ent ks bs \<longleftrightarrow> file_ok I ent ks bs"
proof -
  assume I: "\<forall>k \<in> set ks. I' k = I k"
  have "lchain (\<lambda>k. ib_next (I' k)) (ld_ilist ent) ks \<longleftrightarrow> lchain (\<lambda>k. ib_next (I k)) (ld_ilist ent) ks"
    using I by (intro lchain_frame) simp
  moreover have "map (\<lambda>k. ib_dba (I' k)) ks = map (\<lambda>k. ib_dba (I k)) ks" using I by simp
  moreover have "(\<forall>j < length ks. unat (ib_offset (I' (ks ! j))) = 8192 * j) \<longleftrightarrow> (\<forall>j < length ks. unat (ib_offset (I (ks ! j))) = 8192 * j)"
    using I by simp
  ultimately show ?thesis by (simp only: file_ok_def)
qed

lemma open_ok_frame:
  assumes "open_ok g d c" "lfdirptr c = Some e'" "gks g' e' = gks g e'" "gbs g' e' = gbs g e'"
    "\<forall>k \<in> set (gks g e'). gI g' k = gI g k" "\<forall>x \<in> set (gbs g e'). gD g' x = gD g x"
    "lfd_nfiles d' = lfd_nfiles d" "ld_size (lfd_files d' ! e') = ld_size (lfd_files d ! e')"
  shows "open_ok g' d' c"
  using assms unfolding open_ok_def by simp

lemma disk_ok_claim:
  assumes ok: "disk_ok K S g m tab" and u: "lfstate c = LF_USED"
    and i: "\<And>k. valid_ib K k \<Longrightarrow> \<not> (lfibdirty c \<and> lfinum c = k) \<Longrightarrow>
       gI g' k = gI g k \<and> \<not> (lfibdirty (tab f) \<and> lfinum (tab f) = k)"
    and d: "\<And>k. data_id K S k \<Longrightarrow> \<not> (lfdbdirty c \<and> lfdnum c = k) \<Longrightarrow>
       gD g' k = gD g k \<and> \<not> (lfdbdirty (tab f) \<and> lfdnum (tab f) = k)"
  shows "disk_ok K S g' m (tab(f := c))"
  unfolding disk_ok_def
proof (intro conjI allI impI)
  fix k assume k: "valid_ib K k"
  show "iblk_at m k = gI g' k \<or> (\<exists>f'. lfstate ((tab(f := c)) f') = LF_USED \<and> lfibdirty ((tab(f := c)) f') \<and> lfinum ((tab(f := c)) f') = k)"
  proof (cases "(lfibdirty c \<and> lfinum c = k) \<or> iblk_at m k = gI g' k")
    case True
    then show ?thesis using u by (elim disjE) (auto intro: exI [of _ f])
  next
    case False
    then have *: "gI g' k = gI g k" "\<not> (lfibdirty (tab f) \<and> lfinum (tab f) = k)" using i [OF k] by blast+
    then obtain f' where f': "lfstate (tab f') = LF_USED" "lfibdirty (tab f')" "lfinum (tab f') = k"
      using disk_okD(1) [OF ok k] False by auto
    then have "f' \<noteq> f" using * by blast
    then show ?thesis using f' by (intro disjI2 exI [of _ f']) simp
  qed
next
  fix k assume k: "data_id K S k"
  show "dblk_at m k = gD g' k \<or> (\<exists>f'. lfstate ((tab(f := c)) f') = LF_USED \<and> lfdbdirty ((tab(f := c)) f') \<and> lfdnum ((tab(f := c)) f') = k)"
  proof (cases "(lfdbdirty c \<and> lfdnum c = k) \<or> dblk_at m k = gD g' k")
    case True
    then show ?thesis using u by (elim disjE) (auto intro: exI [of _ f])
  next
    case False
    then have *: "gD g' k = gD g k" "\<not> (lfdbdirty (tab f) \<and> lfdnum (tab f) = k)" using d [OF k] by blast+
    then obtain f' where f': "lfstate (tab f') = LF_USED" "lfdbdirty (tab f')" "lfdnum (tab f') = k"
      using disk_okD(2) [OF ok k] False by auto
    then have "f' \<noteq> f" using * by blast
    then show ?thesis using f' by (intro disjI2 exI [of _ f']) simp
  qed
qed

lemma inv_step:
  assumes inv: "fs_inv K S g s" and f: "on_entry s f e" and a: "apart (nfiles s) e g g'"
    and l: "lists_ok K S (nfiles s) g'" and b: "lf_blocks_ok K S g'"
    and d: "dir_ok (lf_dir s')" "lfd_nfiles (lf_dir s') = lfd_nfiles (lf_dir s)"
      "\<forall>e' < nfiles s. e' \<noteq> e \<longrightarrow> lfd_files (lf_dir s') ! e' = lfd_files (lf_dir s) ! e'"
    and fi: "file_ok (gI g') (lfd_files (lf_dir s') ! e) (gks g' e) (gbs g' e)"
    and ch: "lchain (\<lambda>k. ib_next (gI g' k)) (lfd_ifree (lf_dir s')) (gFI g')"
      "lchain (\<lambda>d. u32_at (gD g' d) 0) (lfd_dfree (lf_dir s')) (gFD g')"
    and m: "disk_ok K S g' (ram s') ((lfltab s)(f := c))" and t: "lfltab s' = (lfltab s)(f := c)"
    and c: "open_ok g' (lf_dir s') c" "lfstate c = LF_USED" "lfdirptr c = Some e"
  shows "fs_inv K S g' s'" "on_entry s' f e"
    "\<forall>e' < nfiles s. e' \<noteq> e \<longrightarrow> contents g' s' e' = contents g s e'" "nfiles s' = nfiles s"
proof -
  have u: "in_use s f' = in_use s' f'" for f'
    using f c(2) by (cases "f' = f") (simp_all add: in_use_def on_entry_def t)
  have p: "lfdirptr (lfltab s' f') = lfdirptr (lfltab s f')" for f'
    using f c(3) by (cases "f' = f") (simp_all add: on_entry_def t)
  show n: "nfiles s' = nfiles s" by (simp add: nfiles_def d)
  have o: "open_ok g' (lf_dir s') (lfltab s' f')" if "in_use s' f'" for f'
  proof (cases "f' = f")
    case False
    have i: "in_use s f'" using that by (simp only: u)
    then obtain e' where e': "on_entry s f' e'" using in_use_entry [OF inv] by blast
    have ne: "e' \<noteq> e" using entry_unique [OF inv f, of f'] e' False by auto
    have lt: "e' < nfiles s" using open_okD(1) [OF inv e'] .
    have "open_ok g (lf_dir s) (lfltab s f')" by (rule fs_invD(9) [OF inv i])
    moreover have "lfdirptr (lfltab s f') = Some e'" using e' by (simp add: on_entry_def)
    ultimately show ?thesis
      using open_ok_frame [of g "lf_dir s" "lfltab s f'" e' g' "lf_dir s'"] a ne lt d(2,3) False unfolding apart_def by (simp add: t)
  qed (use c(1) t in simp)
  have fl: "file_ok (gI g') (lfd_files (lf_dir s') ! e') (gks g' e') (gbs g' e')" if lt: "e' < nfiles s" for e'
  proof (cases "e' = e")
    case False
    then show ?thesis using fs_invD(4) [OF inv lt] a d(3) lt file_ok_frame [of "gks g e'" "gI g'" "gI g"]
      unfolding apart_def by simp
  qed (use fi in simp)
  have "disk_ok K S g' (ram s') (lfltab s')" using m t by simp
  then show "fs_inv K S g' s'"
    unfolding fs_inv_def n
    using l b d(1) fl ch o fs_invD(2,10) [OF inv] by (simp add: p u)
  show "on_entry s' f e" using f u p unfolding on_entry_def by simp
  show "\<forall>e' < nfiles s. e' \<noteq> e \<longrightarrow> contents g' s' e' = contents g s e'"
  proof (intro allI impI)
    fix e' assume "e' < nfiles s" "e' \<noteq> e"
    then have "gbs g' e' = gbs g e'" "map (gD g') (gbs g e') = map (gD g) (gbs g e')" "lfd_files (lf_dir s') ! e' = lfd_files (lf_dir s) ! e'"
      using a d(3) unfolding apart_def by auto
    then show "contents g' s' e' = contents g s e'" unfolding contents_def by (simp only:)
  qed
qed

section \<open>Taking blocks from the free lists\<close>

lemma lists_alloc_index:
  assumes l: "lists_ok K S n g" and e: "e < n" and F: "gFI g = k # FI"
    and g': "gks g' = (gks g)(e := gks g e @ [k])" "gbs g' = gbs g" "gFI g' = FI" "gFD g' = gFD g"
  shows "lists_ok K S n g'"
proof -
  have k: "k \<notin> set FI" "distinct FI" using l F unfolding lists_ok_def by auto
  have nk: "k \<notin> set (gks g e')" if "e' < n" for e' using lists_disjoint [OF l that] F by auto
  have U: "set (gFI g') \<union> (\<Union>e < n. set (gks g' e)) = set (gFI g) \<union> (\<Union>e < n. set (gks g e))"
    using e by (auto simp: g' F split: if_splits)
  show ?thesis
    unfolding lists_ok_def U
  proof (intro conjI)
    show "\<forall>e' < n. \<forall>e'' < n. e' \<noteq> e'' \<longrightarrow> set (gks g' e') \<inter> set (gks g' e'') = {} \<and> set (gbs g' e') \<inter> set (gbs g' e'') = {}"
      using owner_unique [OF l] nk by (auto simp: g')
    show "\<forall>e' < n. distinct (gks g' e') \<and> distinct (gbs g' e') \<and> set (gks g' e') \<inter> set (gFI g') = {} \<and> set (gbs g' e') \<inter> set (gFD g') = {}"
      using l nk k unfolding lists_ok_def by (auto simp: g' F)
  qed (use l k in \<open>auto simp: lists_ok_def g'\<close>)
qed

lemma lists_alloc_data:
  assumes l: "lists_ok K S n g" and e: "e < n" and F: "gFD g = d # FD"
    and g': "gbs g' = (gbs g)(e := gbs g e @ [d])" "gks g' = gks g" "gFD g' = FD" "gFI g' = gFI g"
  shows "lists_ok K S n g'"
proof -
  have k: "d \<notin> set FD" "distinct FD" using l F unfolding lists_ok_def by auto
  have nk: "d \<notin> set (gbs g e')" if "e' < n" for e' using lists_disjoint [OF l that] F by auto
  have U: "set (gFD g') \<union> (\<Union>e < n. set (gbs g' e)) = set (gFD g) \<union> (\<Union>e < n. set (gbs g e))"
    using e by (auto simp: g' F split: if_splits)
  show ?thesis
    unfolding lists_ok_def U
  proof (intro conjI)
    show "\<forall>e' < n. \<forall>e'' < n. e' \<noteq> e'' \<longrightarrow> set (gks g' e') \<inter> set (gks g' e'') = {} \<and> set (gbs g' e') \<inter> set (gbs g' e'') = {}"
      using owner_unique [OF l] nk by (auto simp: g')
    show "\<forall>e' < n. distinct (gks g' e') \<and> distinct (gbs g' e') \<and> set (gks g' e') \<inter> set (gFI g') = {} \<and> set (gbs g' e') \<inter> set (gFD g') = {}"
      using l nk k unfolding lists_ok_def by (auto simp: g' F)
  qed (use l k in \<open>auto simp: lists_ok_def g'\<close>)
qed

text \<open>The state after the directory was changed and written.\<close>

definition wrote_dir :: "lfdir \<Rightarrow> lfs \<Rightarrow> lfs" where
  "wrote_dir d s = s\<lparr>lf_dir := d, ram := wr_bytes (ram s) 0 (dir_bytes d), lf_dirdirty := False\<rparr>"

lemma lfiballoc_spec:
  assumes inv: "fs_inv K S g s" and F: "gFI g = k # FI"
  shows "lfiballoc s = Inr (k, wrote_dir ((lf_dir s)\<lparr>lfd_ifree := ib_next (gI g k)\<rparr>) s)"
proof -
  have ch: "lfd_ifree (lf_dir s) = k" "k \<noteq> LF_INULL" using fs_invD(5) [OF inv] F by (simp_all add: LF_INULL_def)
  have k: "k \<in> set (gFI g)" using F by simp
  have v: "valid_ib K k" by (rule listsD(1) [OF fs_invD(3) [OF inv] k])
  have d: "dir_ok ((lf_dir s)\<lparr>lfd_ifree := ib_next (gI g k)\<rparr>)" using fs_invD(1) [OF inv] by (simp add: dir_ok_def)
  show ?thesis
    using d ch disk_free(1) [OF inv k]
    by (simp add: lfiballoc_def Let_def lfibget_valid [OF v] write_dir_eq upd_dir_def wrote_dir_def)
qed

lemma lfdballoc_spec:
  assumes inv: "fs_inv K S g s" and F: "gFD g = x # FD"
  shows "lfdballoc s = Inr (x, replicate LF_BLKSIZ DFILL, wrote_dir ((lf_dir s)\<lparr>lfd_dfree := u32_at (gD g x) 0\<rparr>) s)"
proof -
  have ch: "lfd_dfree (lf_dir s) = x" "x \<noteq> LF_DNULL" using fs_invD(6) [OF inv] F by (simp_all add: LF_DNULL_def)
  have k: "x \<in> set (gFD g)" using F by simp
  note l = fs_invD(3) [OF inv]
  have v: "valid_db K x" by (rule data_id_valid [OF listsD(3) [OF l k] listsD(5) [OF l]])
  have d: "dir_ok ((lf_dir s)\<lparr>lfd_dfree := u32_at (gD g x) 0\<rparr>)" using fs_invD(1) [OF inv] by (simp add: dir_ok_def)
  show ?thesis
    using d ch disk_free(2) [OF inv k]
    by (simp add: lfdballoc_def Let_def ramread_valid [OF v] write_dir_eq upd_dir_def wrote_dir_def OK_st_def SYSERR_st_def)
qed

lemma wrote_dir_views:
  assumes "dir_ok d"
  shows "valid_ib K k \<Longrightarrow> iblk_at (ram (wrote_dir d s)) k = iblk_at (ram s) k"
    "data_id K S x \<Longrightarrow> dblk_at (ram (wrote_dir d s)) x = dblk_at (ram s) x"
  using dir_write_views [OF assms] by (simp_all add: wrote_dir_def)

lemma wrote_dir_simps [simp]:
  "lf_dir (wrote_dir d s) = d" "lfltab (wrote_dir d s) = lfltab s" "lf_mutex (wrote_dir d s) = lf_mutex s"
  "lf_dirpresent (wrote_dir d s) = lf_dirpresent s"
  by (simp_all add: wrote_dir_def)

lemma disk_ok_wrote:
  assumes "disk_ok K S g (ram s) tab" "dir_ok d"
  shows "disk_ok K S g (ram (wrote_dir d s)) tab"
  using disk_ok_mem [OF assms(1) wrote_dir_views [OF assms(2)]] .

section \<open>The index block for a position\<close>

definition cur_index :: "nat \<Rightarrow> nat \<Rightarrow> nat \<Rightarrow> fsg \<Rightarrow> lfs \<Rightarrow> bool" where
  "cur_index f e m g s \<longleftrightarrow> m < length (gks g e) \<and> lfinum (lfltab s f) = gks g e ! m \<and>
     m \<le> unat (lfpos (lfltab s f)) div 8192 \<and> (lfibdirty (lfltab s f) \<longrightarrow> m = unat (lfpos (lfltab s f)) div 8192) \<and>
     \<not> lfdbdirty (lfltab s f) \<and> 512 \<le> lfbyte (lfltab s f)"

text \<open>What finding it leaves alone.\<close>

definition steady :: "nat \<Rightarrow> nat \<Rightarrow> fsg \<Rightarrow> lfs \<Rightarrow> fsg \<Rightarrow> lfs \<Rightarrow> bool" where
  "steady f e g s g' s' \<longleftrightarrow> gD g' = gD g \<and> gbs g' = gbs g \<and> gFD g' = gFD g \<and>
     length (gks g' e) + length (gFI g') = length (gks g e) + length (gFI g) \<and>
     (\<forall>e'. ld_size (lfd_files (lf_dir s') ! e') = ld_size (lfd_files (lf_dir s) ! e')) \<and> nfiles s' = nfiles s \<and>
     lfpos (lfltab s' f) = lfpos (lfltab s f) \<and> lfmutex (lfltab s' f) = lfmutex (lfltab s f) \<and> others_same f s s'"

lemma steady_refl [simp]: "steady f e g s g s"
  by (simp add: steady_def)

lemma steady_trans: "steady f e g s g' s' \<Longrightarrow> steady f e g' s' g'' s'' \<Longrightarrow> steady f e g s g'' s''"
  unfolding steady_def using others_same_trans by fastforce

lemma file_okD:
  assumes "file_ok I ent ks bs"
  shows "lchain (\<lambda>k. ib_next (I k)) (ld_ilist ent) ks" "j < length ks \<Longrightarrow> unat (ib_offset (I (ks ! j))) = 8192 * j"
    "concat (map (\<lambda>k. ib_dba (I k)) ks) = bs @ replicate (16 * length ks - length bs) LF_DNULL"
    "length bs \<le> 16 * length ks" "16 * length ks \<le> length bs + 16"
    "unat (ld_size ent) \<le> 512 * length bs" "512 * length bs \<le> unat (ld_size ent) + 512"
  using assms unfolding file_ok_def by blast+

text \<open>Changes of a control block that no longer point into the data block, or only to another index block of the file.\<close>

lemma inv_reset:
  assumes inv: "fs_inv K S g s" and f: "on_entry s f e" and nd: "\<not> lfibdirty (lfltab s f)" "\<not> lfdbdirty (lfltab s f)"
    and c: "lfstate c = LF_USED" "lfdirptr c = Some e" "lfpos c \<le> ld_size (lfd_files (lf_dir s) ! e)" "512 = lfbyte c"
      "lfinum c \<noteq> LF_INULL \<longrightarrow> lfinum c \<in> set (gks g e) \<and> lfiblock c = gI g (lfinum c)"
      "lfdnum c \<noteq> LF_DNULL \<longrightarrow> lfdnum c \<in> set (gbs g e) \<and> lfdblock c = gD g (lfdnum c)"
      "\<not> lfibdirty c" "\<not> lfdbdirty c"
    and s': "lf_dir s' = lf_dir s" "lfltab s' = (lfltab s)(f := c)" "ram s' = ram s"
  shows "fs_inv K S g s'" "on_entry s' f e"
proof -
  have o: "open_ok g (lf_dir s) c"
    using c open_okD(1) [OF inv f] unfolding open_ok_def nfiles_def by auto
  have m: "disk_ok K S g (ram s') ((lfltab s)(f := c))"
    unfolding s'(3) by (rule disk_ok_claim [OF fs_invD(8) [OF inv] c(1)]) (use nd in auto)
  show "fs_inv K S g s'" "on_entry s' f e" by (rule inv_fcb [OF inv f s'(1,2) o c(1,2) m])+
qed

lemma load_index_spec:
  assumes inv: "fs_inv K S g s" and f: "on_entry s f e" and nd: "\<not> lfibdirty (lfltab s f)" "\<not> lfdbdirty (lfltab s f)"
    and b: "lfbyte (lfltab s f) = 512" and k: "k \<in> set (gks g e)"
  shows "\<exists>s'. load_index f k s = Inr s' \<and> fs_inv K S g s' \<and> on_entry s' f e \<and> steady f e g s g s' \<and>
    lfltab s' f = (lfltab s f)\<lparr>lfiblock := gI g k, lfinum := k\<rparr>"
proof -
  note o = open_okD [OF inv f] and l = fs_invD(3) [OF inv]
  have v: "valid_ib K k" by (rule listsD(2) [OF l o(1) k])
  let ?c = "(lfltab s f)\<lparr>lfiblock := gI g k, lfinum := k\<rparr>"
  let ?s = "upd_fcb f (\<lambda>c. c\<lparr>lfiblock := gI g k, lfinum := k\<rparr>) s"
  have e: "load_index f k s = Inr ?s"
    by (simp add: load_index_def lfibget_valid [OF v] disk_own(1) [OF inv f nd(1) k])
  have "fs_inv K S g ?s" "on_entry ?s f e"
    by (rule inv_reset [OF inv f nd, of ?c]; use f nd b k o(2,5) in \<open>simp add: on_entry_def in_use_def upd_fcb_def\<close>)+
  then show ?thesis using e by (intro exI [of _ ?s]) (simp add: steady_def others_same_def upd_fcb_def nfiles_def)
qed

lemma dir_ok_entry:
  assumes "dir_ok d" "e < length (lfd_files d)" "lfd_files d' = (lfd_files d)[e := x]" "ld_name x = ld_name (lfd_files d ! e)"
  shows "dir_ok d'"
  using assms set_update_subset_insert [of "lfd_files d" e x] nth_mem [of e "lfd_files d"] unfolding dir_ok_def by fastforce

lemma setup_index_spec:
  assumes inv: "fs_inv K S g s" and f: "on_entry s f e" and nd: "\<not> lfibdirty (lfltab s f)" "\<not> lfdbdirty (lfltab s f)"
    and b: "lfbyte (lfltab s f) = 512"
    and room: "unat (lfpos (lfltab s f)) < 8192 * (length (gks g e) + length (gFI g))"
  shows "\<exists>g' s' m. setup_index f e s = Inr s' \<and> fs_inv K S g' s' \<and> on_entry s' f e \<and> cur_index f e m g' s' \<and>
    steady f e g s g' s'"
proof (cases "lfinum (lfltab s f) = LF_INULL \<and> ld_ilist (lfd_files (lf_dir s) ! e) = LF_INULL")
  case True
  note o = open_okD [OF inv f] and l = fs_invD(3) [OF inv] and fi = file_okD [OF fs_invD(4) [OF inv open_okD(1) [OF inv f]]]
  have ks: "gks g e = []" using fi(1) True by (cases "gks g e") (auto simp: LF_INULL_def)
  then have bs: "gbs g e = []" using fi(4) by simp
  have sz: "ld_size (lfd_files (lf_dir s) ! e) = 0" using fi(6) bs by (simp add: unat_eq_zero)
  then have pos: "lfpos (lfltab s f) = 0" using o(2) by simp
  obtain k FI where F: "gFI g = k # FI" using room ks pos by (cases "gFI g") auto
  have k: "k \<noteq> LF_INULL" "valid_ib K k" "k \<notin> set FI"
    using fs_invD(5) [OF inv] F listsD(1) [OF l] l unfolding lists_ok_def by (auto simp: LF_INULL_def)
  have nk: "k \<notin> set (gks g e')" if "e' < nfiles s" for e' using lists_disjoint [OF l that] F by auto
  let ?d = "(lf_dir s)\<lparr>lfd_ifree := ib_next (gI g k)\<rparr>"
  have d: "dir_ok ?d" using fs_invD(1) [OF inv] by (simp add: dir_ok_def)
  have en: "e < length (lfd_files (lf_dir s))" using o(1) fs_invD(1,2) [OF inv] by (simp add: dir_ok_def)
  let ?s1 = "wrote_dir ?d s"
  let ?c = "(lfltab s f)\<lparr>lfiblock := lfibclear 0, lfibdirty := True, lfinum := k\<rparr>"
  let ?s = "upd_fcb f (\<lambda>c. c\<lparr>lfiblock := lfibclear 0, lfibdirty := True, lfinum := k\<rparr>) (upd_entry e (\<lambda>d. d\<lparr>ld_ilist := k\<rparr>) ?s1)"
  let ?g = "g\<lparr>gI := (gI g)(k := lfibclear 0), gks := (gks g)(e := gks g e @ [k]), gFI := FI\<rparr>"
  have run: "setup_index f e s = Inr ?s"
    using True by (simp add: setup_index_def Let_def lfiballoc_spec [OF inv F])
  have ent: "lfd_files (lf_dir ?s) = (lfd_files (lf_dir s))[e := (lfd_files (lf_dir s) ! e)\<lparr>ld_ilist := k\<rparr>]"
    "lfd_ifree (lf_dir ?s) = ib_next (gI g k)" "lfd_dfree (lf_dir ?s) = lfd_dfree (lf_dir s)" "lfd_nfiles (lf_dir ?s) = lfd_nfiles (lf_dir s)"
    "lfltab ?s = (lfltab s)(f := ?c)" "ram ?s = ram ?s1"
    by (simp_all add: upd_fcb_def upd_entry_def upd_dir_def)
  have dok: "dir_ok (lf_dir ?s)"
    by (rule dir_ok_entry [OF fs_invD(1) [OF inv] en ent(1)]) simp
  have m: "disk_ok K S ?g (ram ?s) ((lfltab s)(f := ?c))"
    unfolding ent(6)
    by (rule disk_ok_claim [OF disk_ok_wrote [OF fs_invD(8) [OF inv] d]]) (use f nd in \<open>auto simp: on_entry_def in_use_def\<close>)
  have "open_ok ?g (lf_dir ?s) ?c"
    using f o(1) b nd(2) pos k bs o(5) en
    by (auto simp: open_ok_def on_entry_def nfiles_def ent(1,4))
  moreover have "lfd_files (lf_dir ?s) ! e = (lfd_files (lf_dir s) ! e)\<lparr>ld_ilist := k\<rparr>" using en by (simp only: ent(1) nth_list_update_eq)
  then have "file_ok (gI ?g) (lfd_files (lf_dir ?s) ! e) (gks ?g e) (gbs ?g e)"
    using ks bs sz k(1) by (simp only:) (simp add: file_ok_def lfibclear_def LF_INULL_def LF_IBLEN_def)
  moreover have "lf_blocks_ok K S ?g" using fs_invD(7) [OF inv] by (simp add: lf_blocks_ok_def lfibclear_def)
  moreover have "lchain (\<lambda>k. ib_next (gI ?g k)) (lfd_ifree (lf_dir ?s)) (gFI ?g)"
    unfolding ent(2) using lchain_rest [OF fs_invD(5) [OF inv, unfolded F], of "\<lambda>x. ib_next (gI ?g x)"] k(3) by auto
  moreover have "lchain (\<lambda>d. u32_at (gD ?g d) 0) (lfd_dfree (lf_dir ?s)) (gFD ?g)" using fs_invD(6) [OF inv] by (simp add: ent(3))
  moreover have "apart (nfiles s) e g ?g" using nk by (auto simp: apart_def)
  moreover have "lists_ok K S (nfiles s) ?g" using lists_alloc_index [OF l o(1) F] by simp
  ultimately have i: "fs_inv K S ?g ?s" "on_entry ?s f e"
    using inv_step [OF inv f, of ?g ?s ?c] m dok f en by (auto simp: ent(1,4,5) on_entry_def in_use_def)
  have "cur_index f e 0 ?g ?s" using ks nd b pos by (simp add: cur_index_def ent(5))
  moreover have "steady f e g s ?g ?s"
    using F en by (auto simp: steady_def others_same_def nfiles_def ent nth_list_update) (auto simp: upd_fcb_def upd_entry_def upd_dir_def)
  ultimately show ?thesis using run i by blast
next
  case False
  note o = open_okD [OF inv f] and l = fs_invD(3) [OF inv] and fi = file_okD [OF fs_invD(4) [OF inv open_okD(1) [OF inv f]]]
  have ks: "gks g e \<noteq> []" using False fi(1) o(4) by (auto simp: LF_INULL_def)
  have il: "ld_ilist (lfd_files (lf_dir s) ! e) = gks g e ! 0" "gks g e ! 0 \<in> set (gks g e)"
    using fi(1) ks by (cases "gks g e"; simp)+
  show ?thesis
  proof (cases "lfinum (lfltab s f) = LF_INULL \<or> lfpos (lfltab s f) < ib_offset (lfiblock (lfltab s f))")
    case True
    obtain s' where s': "load_index f (gks g e ! 0) s = Inr s'" "fs_inv K S g s'" "on_entry s' f e" "steady f e g s g s'"
      "lfltab s' f = (lfltab s f)\<lparr>lfiblock := gI g (gks g e ! 0), lfinum := gks g e ! 0\<rparr>"
      using load_index_spec [OF inv f nd b il(2)] by blast
    have "setup_index f e s = Inr s'"
      using True False s'(1) by (auto simp: setup_index_def Let_def il(1))
    moreover have "cur_index f e 0 g s'" using ks nd b s'(5) by (simp add: cur_index_def)
    ultimately show ?thesis using s' by blast
  next
    case F2: False
    then have i: "lfinum (lfltab s f) \<in> set (gks g e)" "lfiblock (lfltab s f) = gI g (lfinum (lfltab s f))" using o(4) by auto
    then obtain m where m: "m < length (gks g e)" "gks g e ! m = lfinum (lfltab s f)" by (auto simp: in_set_conv_nth)
    have "unat (ib_offset (lfiblock (lfltab s f))) = 8192 * m" using fi(2) [OF m(1)] m(2) i(2) by simp
    moreover have "unat (ib_offset (lfiblock (lfltab s f))) \<le> unat (lfpos (lfltab s f))"
      using F2 by (simp add: not_less word_le_nat_alt)
    ultimately have "m \<le> unat (lfpos (lfltab s f)) div 8192" by simp
    then have "cur_index f e m g s" using m nd b by (simp add: cur_index_def)
    moreover have "setup_index f e s = Inr s" using F2 by (simp add: setup_index_def Let_def)
    ultimately show ?thesis using inv f by (intro exI [of _ g] exI [of _ s] exI [of _ m]) simp
  qed
qed

lemma disk_ok_iput:
  assumes ok: "disk_ok K S g m tab" and v: "valid_ib K k" and l: "length (ib_dba x) = LF_IBLEN"
  shows "disk_ok K S (g\<lparr>gI := (gI g)(k := x)\<rparr>) (wr_bytes m (ib_addr k) (iblk_bytes x)) tab"
  unfolding disk_ok_def
proof (intro conjI allI impI)
  fix k' assume "valid_ib K k'"
  then show "iblk_at (wr_bytes m (ib_addr k) (iblk_bytes x)) k' = gI (g\<lparr>gI := (gI g)(k := x)\<rparr>) k' \<or>
      (\<exists>f. lfstate (tab f) = LF_USED \<and> lfibdirty (tab f) \<and> lfinum (tab f) = k')"
    using disk_okD(1) [OF ok, of k'] by (auto simp: iblk_at_put [OF l])
next
  fix d assume d: "data_id K S d"
  then have "dblk_at (wr_bytes m (ib_addr k) (iblk_bytes x)) d = dblk_at m d"
    using dblk_at_iput [OF v l] by (simp add: data_id_def)
  then show "dblk_at (wr_bytes m (ib_addr k) (iblk_bytes x)) d = gD (g\<lparr>gI := (gI g)(k := x)\<rparr>) d \<or>
      (\<exists>f. lfstate (tab f) = LF_USED \<and> lfdbdirty (tab f) \<and> lfdnum (tab f) = d)"
    using disk_okD(2) [OF ok d] by auto
qed

text \<open>A file with one more, empty, index block at its end.\<close>

lemma file_ok_extend:
  assumes fi: "file_ok I ent ks bs" and ne: "ks \<noteq> []" "distinct ks" and k: "k \<notin> set ks" "k \<noteq> - 1"
    and full: "16 * length ks \<le> length bs" and off: "unat off = 8192 * length ks"
    and I': "I' = I(last ks := (I (last ks))\<lparr>ib_next := k\<rparr>, k := lfibclear off)"
  shows "file_ok I' ent (ks @ [k]) bs"
proof -
  note fd = file_okD [OF fi]
  have lk: "last ks \<noteq> k" using ne k(1) last_in_set by metis
  have nl: "\<forall>x \<in> set (butlast ks). x \<noteq> last ks \<and> x \<noteq> k"
    using ne k(1) by (metis append_butlast_last_id distinct_butlast in_set_butlastD not_distinct_conv_prefix)
  have "lchain (\<lambda>x. ib_next (I' x)) (ld_ilist ent) (ks @ [k])"
  proof (rule lchain_snoc [OF fd(1) ne(2,1) k])
    show "ib_next (I' (last ks)) = k" using lk by (simp add: I')
    show "ib_next (I' k) = - 1" by (simp add: I' lfibclear_def LF_INULL_def)
    show "\<forall>x \<in> set (butlast ks). ib_next (I' x) = ib_next (I x)" using nl by (simp add: I')
  qed
  moreover have "unat (ib_offset (I' ((ks @ [k]) ! j))) = 8192 * j" if "j < length (ks @ [k])" for j
  proof (cases "j < length ks")
    case True
    then have "ks ! j \<noteq> k" using k(1) nth_mem by metis
    then have "ib_offset (I' (ks ! j)) = ib_offset (I (ks ! j))" by (simp add: I')
    then show ?thesis using fd(2) [OF True] True by (simp add: nth_append)
  next
    case False
    then show ?thesis using that off by (simp add: I' nth_append lfibclear_def)
  qed
  moreover have "concat (map (\<lambda>x. ib_dba (I' x)) (ks @ [k])) = bs @ replicate (16 * length (ks @ [k]) - length bs) LF_DNULL"
  proof -
    have mp: "map (\<lambda>x. ib_dba (I' x)) ks = map (\<lambda>x. ib_dba (I x)) ks" using k(1) by (auto simp: I')
    have "concat (map (\<lambda>x. ib_dba (I' x)) (ks @ [k])) = concat (map (\<lambda>x. ib_dba (I' x)) ks) @ ib_dba (I' k)" by simp
    also have "ib_dba (I' k) = replicate 16 LF_DNULL" by (simp add: I' lfibclear_def LF_IBLEN_def)
    finally show ?thesis unfolding mp fd(3) using fd(4) full by simp
  qed
  ultimately show ?thesis using fd(4-) full unfolding file_ok_def by simp
qed

lemma cur_offset:
  assumes "fs_inv K S g s" "on_entry s f e" "cur_index f e m g s"
  shows "lfiblock (lfltab s f) = gI g (gks g e ! m)" "unat (ib_offset (lfiblock (lfltab s f))) = 8192 * m"
    "(lfpos (lfltab s f) AND NOT LF_IMASK > ib_offset (lfiblock (lfltab s f))) \<longleftrightarrow> m < unat (lfpos (lfltab s f)) div 8192"
proof -
  note o = open_okD [OF assms(1,2)]
  note fi = file_okD [OF fs_invD(4) [OF assms(1) o(1)]]
  have m: "m < length (gks g e)" "lfinum (lfltab s f) = gks g e ! m" using assms(3) by (simp_all add: cur_index_def)
  have "gks g e ! m \<noteq> LF_INULL" using lchain_nonnull [OF fi(1) nth_mem [OF m(1)]] by (simp add: LF_INULL_def)
  then show i: "lfiblock (lfltab s f) = gI g (gks g e ! m)" using o(4) m(2) by simp
  then show "unat (ib_offset (lfiblock (lfltab s f))) = 8192 * m" using fi(2) [OF m(1)] by simp
  then show "(lfpos (lfltab s f) AND NOT LF_IMASK > ib_offset (lfiblock (lfltab s f))) \<longleftrightarrow> m < unat (lfpos (lfltab s f)) div 8192"
    by (simp add: word_less_nat_alt pos_block)
qed

lemma walk_step_spec:
  assumes inv: "fs_inv K S g s" and f: "on_entry s f e" and cur: "cur_index f e m g s" and lt: "m < unat (lfpos (lfltab s f)) div 8192"
    and b: "lfbyte (lfltab s f) = 512"
    and room: "unat (lfpos (lfltab s f)) < 8192 * (length (gks g e) + length (gFI g))"
  shows "\<exists>g' s'. walk_step f s = Inr s' \<and> fs_inv K S g' s' \<and> on_entry s' f e \<and> cur_index f e (m + 1) g' s' \<and>
    steady f e g s g' s' \<and> lfbyte (lfltab s' f) = 512"
proof -
  note o = open_okD [OF inv f] and l = fs_invD(3) [OF inv]
  note fo = fs_invD(4) [OF inv o(1)]
  note fi = file_okD [OF fo] and co = cur_offset [OF inv f cur]
  have m: "m < length (gks g e)" "lfinum (lfltab s f) = gks g e ! m" and nd: "\<not> lfibdirty (lfltab s f)" "\<not> lfdbdirty (lfltab s f)"
    using cur lt by (auto simp: cur_index_def)
  have nx: "ib_next (gI g (gks g e ! m)) = (if m + 1 < length (gks g e) then gks g e ! (m + 1) else - 1)"
    by (rule lchain_next [OF fi(1) m(1)])
  show ?thesis
  proof (cases "m + 1 < length (gks g e)")
    case True
    let ?k = "gks g e ! (m + 1)"
    have k: "?k \<in> set (gks g e)" "?k \<noteq> LF_INULL"
      using True lchain_nonnull [OF fi(1), of ?k] by (simp_all add: LF_INULL_def)
    obtain s1 where s1: "load_index f ?k s = Inr s1" "fs_inv K S g s1" "on_entry s1 f e" "steady f e g s g s1"
      "lfltab s1 f = (lfltab s f)\<lparr>lfiblock := gI g ?k, lfinum := ?k\<rparr>"
      using load_index_spec [OF inv f nd b k(1)] by blast
    let ?c = "(lfltab s1 f)\<lparr>lfdnum := LF_DNULL\<rparr>"
    let ?s = "upd_fcb f (\<lambda>c. c\<lparr>lfdnum := LF_DNULL\<rparr>) s1"
    note o1 = open_okD [OF s1(2,3)]
    have "fs_inv K S g ?s" "on_entry ?s f e"
      by (rule inv_reset [OF s1(2,3), of ?c]; use s1(3,5) o1(2,4) nd b in \<open>simp add: on_entry_def in_use_def upd_fcb_def\<close>)+
    moreover have "walk_step f s = Inr ?s" using nx True k(2) s1(1) by (simp add: walk_step_def Let_def co(1))
    moreover have "cur_index f e (m + 1) g ?s" using True lt nd s1(5) b by (simp add: cur_index_def upd_fcb_def)
    moreover have "steady f e g s g ?s"
      using s1(4) by (simp add: steady_def others_same_def upd_fcb_def nfiles_def)
    ultimately show ?thesis using s1(5) b by (intro exI [of _ g] exI [of _ ?s]) (simp add: upd_fcb_def)
  next
    case False
    let ?n = "length (gks g e)" and ?p = "unat (lfpos (lfltab s f))" and ?cur = "gks g e ! m"
    have mn: "?n = m + 1" using m(1) False by simp
    have "gks g e \<noteq> []" using mn by auto
    then have lst: "?cur = last (gks g e)" "gks g e \<noteq> []" using mn by (simp_all add: last_conv_nth)
    have "8192 * (?p div 8192) \<le> ?p" by simp
    then have p: "8192 * ?n \<le> ?p" using lt mn by linarith
    obtain k FI where F: "gFI g = k # FI" using room p by (cases "gFI g") auto
    have k: "k \<noteq> - 1" "valid_ib K k" "k \<notin> set FI"
      using fs_invD(5) [OF inv] F listsD(1) [OF l] l unfolding lists_ok_def by auto
    have nk: "k \<notin> set (gks g e')" if "e' < nfiles s" for e' using lists_disjoint [OF l that] F by auto
    have kn: "k \<noteq> ?cur" using nk [OF o(1)] m(1) nth_mem by metis
    have vc: "valid_ib K ?cur" by (rule listsD(2) [OF l o(1) nth_mem [OF m(1)]])
    let ?ib = "(gI g ?cur)\<lparr>ib_next := k\<rparr>" and ?off = "ib_offset (gI g ?cur) + LF_IDATA"
    have lb: "length (ib_dba ?ib) = LF_IBLEN" using fs_invD(7) [OF inv] vc by (simp add: lf_blocks_ok_def)
    have "unat (ib_offset (gI g ?cur)) + unat LF_IDATA = 8192 * ?n" using co(1,2) mn by (simp add: LF_IDATA_def)
    moreover have "8192 * ?n < 4294967296" using p unat_u32_less [of "lfpos (lfltab s f)"] by linarith
    ultimately have off: "unat ?off = 8192 * ?n" by (simp add: unat_word_ariths)
    let ?d = "(lf_dir s)\<lparr>lfd_ifree := ib_next (gI g k)\<rparr>"
    have d: "dir_ok ?d" using fs_invD(1) [OF inv] by (simp add: dir_ok_def)
    let ?s1 = "wrote_dir ?d s"
    let ?m = "wr_bytes (ram ?s1) (ib_addr ?cur) (iblk_bytes ?ib)"
    let ?u = "\<lambda>c. c\<lparr>lfinum := k, lfiblock := lfibclear ?off, lfibdirty := True, lfdnum := LF_DNULL\<rparr>"
    let ?c = "?u (lfltab s f)"
    let ?s = "upd_fcb f ?u (?s1\<lparr>ram := ?m\<rparr>)"
    let ?g = "g\<lparr>gI := (gI g)(?cur := ?ib, k := lfibclear ?off), gks := (gks g)(e := gks g e @ [k]), gFI := FI\<rparr>"
    have run: "walk_step f s = Inr ?s"
      using nx False by (simp add: walk_step_def Let_def co(1) LF_INULL_def lfiballoc_spec [OF inv F] m(2) lfibput_valid [OF vc lb])
    have st: "lf_dir ?s = ?d" "lfltab ?s = (lfltab s)(f := ?c)" "ram ?s = ?m" by (simp_all add: upd_fcb_def)
    have m1: "disk_ok K S (g\<lparr>gI := (gI g)(?cur := ?ib)\<rparr>) ?m (lfltab s)"
      by (rule disk_ok_iput [OF disk_ok_wrote [OF fs_invD(8) [OF inv] d] vc lb])
    have "disk_ok K S ?g ?m ((lfltab s)(f := ?c))"
      by (rule disk_ok_claim [OF m1]) (use f nd in \<open>auto simp: on_entry_def in_use_def\<close>)
    moreover have "open_ok ?g (lf_dir ?s) ?c"
      using f o(1,2) b nd(2) k(1) unfolding open_ok_def st(1) by (auto simp: on_entry_def nfiles_def LF_INULL_def)
    moreover have "file_ok (gI ?g) (lfd_files (lf_dir ?s) ! e) (gks ?g e) (gbs ?g e)"
    proof -
      have "?p \<le> unat (ld_size (lfd_files (lf_dir s) ! e))" using o(2) by (simp add: word_le_nat_alt)
      then have "16 * ?n \<le> length (gbs g e)" using p fi(6) by linarith
      then have "file_ok ((gI g)(?cur := ?ib, k := lfibclear ?off)) (lfd_files (lf_dir s) ! e) (gks g e @ [k]) (gbs g e)"
        using l o(1) nk [OF o(1)] k(1) off lst unfolding lists_ok_def by (intro file_ok_extend [OF fo]) simp_all
      then show ?thesis by (simp add: st(1))
    qed
    moreover have "lf_blocks_ok K S ?g" using fs_invD(7) [OF inv] lb by (simp add: lf_blocks_ok_def lfibclear_def)
    moreover have "lchain (\<lambda>k. ib_next (gI ?g k)) (lfd_ifree (lf_dir ?s)) (gFI ?g)"
    proof -
      have "\<forall>x \<in> set FI. x \<noteq> k \<and> x \<noteq> ?cur" using k(3) lists_disjoint [OF l o(1)] nth_mem [OF m(1)] F by auto
      then have "\<forall>x \<in> set FI. ib_next (gI ?g x) = ib_next (gI g x)" by simp
      moreover have "lfd_ifree (lf_dir ?s) = ib_next (gI g k)" "gFI ?g = FI" by (simp_all add: st(1))
      ultimately show ?thesis using lchain_rest [OF fs_invD(5) [OF inv, unfolded F]] by (simp only:)
    qed
    moreover have "lchain (\<lambda>d. u32_at (gD ?g d) 0) (lfd_dfree (lf_dir ?s)) (gFD ?g)" using fs_invD(6) [OF inv] by (simp add: st(1))
    moreover have "apart (nfiles s) e g ?g"
      using nk owner_unique(1) [OF l o(1) _ nth_mem [OF m(1)]] by (auto simp: apart_def)
    moreover have "lists_ok K S (nfiles s) ?g" using lists_alloc_index [OF l o(1) F] by simp
    ultimately have i: "fs_inv K S ?g ?s" "on_entry ?s f e"
      using inv_step [OF inv f, of ?g ?s ?c] d f by (auto simp: st on_entry_def in_use_def)
    have "cur_index f e (m + 1) ?g ?s"
    proof -
      have "?p \<le> 512 * length (gbs g e)" using o(2) fi(6) by (simp add: word_le_nat_alt)
      moreover have "512 * length (gbs g e) \<le> 8192 * (m + 1)" using fi(4) mn by simp
      ultimately have "?p \<le> 8192 * (m + 1)" by (rule order_trans)
      then have "?p div 8192 \<le> m + 1" using div_le_mono [of ?p "8192 * (m + 1)" 8192] by simp
      then show ?thesis using lt nd b mn by (simp add: cur_index_def st(2) nth_append)
    qed
    moreover have "steady f e g s ?g ?s"
      using F by (simp add: steady_def others_same_def nfiles_def upd_fcb_def)
    ultimately show ?thesis using run i b by (intro exI [of _ ?g] exI [of _ ?s]) (simp add: st(2))
  qed
qed

lemma setup_walk_spec:
  "fs_inv K S g s \<Longrightarrow> on_entry s f e \<Longrightarrow> cur_index f e m g s \<Longrightarrow> lfbyte (lfltab s f) = 512 \<Longrightarrow>
   unat (lfpos (lfltab s f)) < 8192 * (length (gks g e) + length (gFI g)) \<Longrightarrow> unat (lfpos (lfltab s f)) div 8192 \<le> m + n \<Longrightarrow>
   \<exists>g' s'. setup_walk n f s = Inr s' \<and> fs_inv K S g' s' \<and> on_entry s' f e \<and>
     cur_index f e (unat (lfpos (lfltab s f)) div 8192) g' s' \<and> steady f e g s g' s' \<and> lfbyte (lfltab s' f) = 512"
proof (induction n arbitrary: m g s)
  case 0
  then have "m = unat (lfpos (lfltab s f)) div 8192" by (simp add: cur_index_def)
  then show ?case using 0 cur_offset(3) [OF 0(1,2,3)] by (intro exI [of _ g] exI [of _ s]) simp
next
  case (Suc n)
  show ?case
  proof (cases "m < unat (lfpos (lfltab s f)) div 8192")
    case True
    obtain g1 s1 where s1: "walk_step f s = Inr s1" "fs_inv K S g1 s1" "on_entry s1 f e" "cur_index f e (m + 1) g1 s1"
      "steady f e g s g1 s1" "lfbyte (lfltab s1 f) = 512"
      using walk_step_spec [OF Suc.prems(1-3) True Suc.prems(4,5)] by blast
    have p: "lfpos (lfltab s1 f) = lfpos (lfltab s f)" "length (gks g1 e) + length (gFI g1) = length (gks g e) + length (gFI g)"
      using s1(5) by (simp_all add: steady_def)
    obtain g' s' where s': "setup_walk n f s1 = Inr s'" "fs_inv K S g' s'" "on_entry s' f e"
      "cur_index f e (unat (lfpos (lfltab s f)) div 8192) g' s'" "steady f e g1 s1 g' s'" "lfbyte (lfltab s' f) = 512"
      using Suc.IH [OF s1(2,3,4,6)] Suc.prems(5,6) unfolding p by auto
    have "setup_walk (Suc n) f s = Inr s'" using True cur_offset(3) [OF Suc.prems(1,2,3)] s1(1) s'(1) by simp
    then show ?thesis using s' steady_trans [OF s1(5) s'(5)] by blast
  next
    case False
    then have "m = unat (lfpos (lfltab s f)) div 8192" using Suc.prems(3) by (simp add: cur_index_def)
    then show ?thesis using Suc.prems cur_offset(3) [OF Suc.prems(1,2,3)] by (intro exI [of _ g] exI [of _ s]) simp
  qed
qed

section \<open>The data block for a position\<close>

text \<open>What \<^verbatim>\<open>lfsetup\<close> leaves alone, block allocation included.\<close>

definition lf_kept :: "nat \<Rightarrow> nat \<Rightarrow> fsg \<Rightarrow> lfs \<Rightarrow> fsg \<Rightarrow> lfs \<Rightarrow> bool" where
  "lf_kept f e g s g' s' \<longleftrightarrow> (\<forall>e' < nfiles s. contents g' s' e' = contents g s e') \<and>
     length (gks g' e) + length (gFI g') = length (gks g e) + length (gFI g) \<and>
     length (gbs g' e) + length (gFD g') = length (gbs g e) + length (gFD g) \<and>
     (\<forall>e'. ld_size (lfd_files (lf_dir s') ! e') = ld_size (lfd_files (lf_dir s) ! e')) \<and> nfiles s' = nfiles s \<and>
     lfpos (lfltab s' f) = lfpos (lfltab s f) \<and> lfmutex (lfltab s' f) = lfmutex (lfltab s f) \<and> others_same f s s'"

lemma lf_kept_trans: "lf_kept f e g s g' s' \<Longrightarrow> lf_kept f e g' s' g'' s'' \<Longrightarrow> lf_kept f e g s g'' s''"
  unfolding lf_kept_def using others_same_trans by fastforce

lemma steady_kept: "steady f e g s g' s' \<Longrightarrow> lf_kept f e g s g' s'"
  by (simp add: steady_def lf_kept_def contents_def)

definition mark :: "nat \<Rightarrow> lfs \<Rightarrow> lfs" where
  "mark f = upd_fcb f (\<lambda>c. c\<lparr>lfdbdirty := True\<rparr>)"

lemma inv_mark:
  assumes inv: "fs_inv K S g s" and f: "on_entry s f e" and d: "lfdnum (lfltab s f) \<noteq> LF_DNULL"
  shows "fs_inv K S g (mark f s)"
proof -
  let ?c = "(lfltab s f)\<lparr>lfdbdirty := True\<rparr>"
  have "open_ok g (lf_dir s) (lfltab s f)" using fs_invD(9) [OF inv] f by (simp add: on_entry_def)
  then have "open_ok g (lf_dir s) ?c" using d unfolding open_ok_def by auto
  moreover have "disk_ok K S g (ram s) ((lfltab s)(f := ?c))"
    by (rule disk_ok_fcb [OF fs_invD(8) [OF inv]]) (use f in \<open>auto simp: on_entry_def in_use_def\<close>)
  ultimately show ?thesis
    using inv_fcb(1) [OF inv f, of "mark f s" ?c] f by (simp add: mark_def upd_fcb_def on_entry_def in_use_def)
qed

lemma data_id_nonnull: "data_id K S d \<Longrightarrow> S \<le> RM_BLKS \<Longrightarrow> d \<noteq> LF_DNULL"
proof
  assume a: "data_id K S d" "S \<le> RM_BLKS" and "d = LF_DNULL"
  then have "unat d = 4294967295" by (simp add: LF_DNULL_def unsigned_minus_1_eq_mask mask_eq_exp_minus_1)
  then show False using a by (simp add: data_id_def RM_BLKS_def)
qed

text \<open>The pointer in the current index block is the one of the position's block in the file.\<close>

lemma cur_pointer:
  assumes inv: "fs_inv K S g s" and f: "on_entry s f e" and cur: "cur_index f e (unat (lfpos (lfltab s f)) div 8192) g s"
  shows "unat (lfpos (lfltab s f)) div 512 < 16 * length (gks g e)"
    "ib_dba (lfiblock (lfltab s f)) ! (unat (lfpos (lfltab s f)) mod 8192 div 512) =
       (gbs g e @ replicate (16 * length (gks g e) - length (gbs g e)) LF_DNULL) ! (unat (lfpos (lfltab s f)) div 512)"
proof -
  let ?p = "unat (lfpos (lfltab s f))"
  note o = open_okD [OF inv f] and l = fs_invD(3) [OF inv]
  note fi = file_okD [OF fs_invD(4) [OF inv o(1)]]
  have m: "?p div 8192 < length (gks g e)" using cur by (simp add: cur_index_def)
  have "16 * (?p div 8192) + ?p mod 8192 div 512 < 16 * length (gks g e)" using m index_arith(1) [of ?p] by linarith
  then show "?p div 512 < 16 * length (gks g e)" by (simp only: index_arith(2))
  have len: "\<forall>k \<in> set (gks g e). length (ib_dba (gI g k)) = 16"
    using fs_invD(7) [OF inv] listsD(2) [OF l o(1)] by (simp add: lf_blocks_ok_def LF_IBLEN_def)
  have "concat (map (\<lambda>k. ib_dba (gI g k)) (gks g e)) ! (?p div 512) = ib_dba (gI g (gks g e ! (?p div 8192))) ! (?p mod 8192 div 512)"
    using concat_nth [OF len m index_arith(1) [of ?p]] by (simp only: index_arith(2))
  then show "ib_dba (lfiblock (lfltab s f)) ! (?p mod 8192 div 512) =
       (gbs g e @ replicate (16 * length (gks g e) - length (gbs g e)) LF_DNULL) ! (?p div 512)"
    unfolding fi(3) cur_offset(1) [OF inv f cur] by (rule sym)
qed

lemma setup_data_old:
  assumes inv: "fs_inv K S g s" and f: "on_entry s f e" and cur: "cur_index f e (unat (lfpos (lfltab s f)) div 8192) g s"
    and b: "lfbyte (lfltab s f) = 512" and j: "unat (lfpos (lfltab s f)) div 512 < length (gbs g e)"
  shows "\<exists>s'. setup_data f s = Inr s' \<and> fs_inv K S g s' \<and> on_entry s' f e \<and> lf_kept f e g s g s' \<and>
    lfbyte (lfltab s' f) = unat (lfpos (lfltab s f)) mod 512 \<and> lfdnum (lfltab s' f) \<noteq> LF_DNULL"
proof -
  let ?p = "unat (lfpos (lfltab s f))"
  let ?d = "gbs g e ! (?p div 512)" and ?c = "lfltab s f"
  note o = open_okD [OF inv f] and l = fs_invD(3) [OF inv]
  have nd: "\<not> lfdbdirty ?c" using cur by (simp add: cur_index_def)
  have din: "?d \<in> set (gbs g e)" using j by simp
  have v: "data_id K S ?d" by (rule listsD(4) [OF l o(1) din])
  have dn: "?d \<noteq> LF_DNULL" "valid_db K ?d" using data_id_nonnull [OF v] data_id_valid [OF v] listsD(5) [OF l] by simp_all
  have ptr: "ib_dba (lfiblock ?c) ! (?p mod 8192 div 512) = ?d"
    using cur_pointer(2) [OF inv f cur] j by (simp add: nth_append)
  let ?u = "\<lambda>c. c\<lparr>lfdblock := gD g ?d, lfdnum := ?d, lfbyte := ?p mod 512\<rparr>"
  let ?s = "upd_fcb f ?u s"
  have run: "setup_data f s = Inr ?s"
  proof (cases "?d = lfdnum ?c")
    case True
    then have "lfdblock ?c = gD g ?d" using o(5) dn by simp
    then have "?u ?c = ?c\<lparr>lfdnum := ?d, lfbyte := ?p mod 512\<rparr>" by (simp add: lflcblk.equality)
    then show ?thesis using True dn(1)
      unfolding setup_data_def Let_def pos_index pos_byte ptr by (simp add: upd_fcb_def fun_eq_iff)
  next
    case False
    have "?c\<lparr>lfdblock := gD g ?d, lfdbdirty := False, lfdnum := ?d, lfbyte := ?p mod 512\<rparr> = ?u ?c" using nd by simp
    then show ?thesis using False dn(1)
      unfolding setup_data_def Let_def pos_index pos_byte ptr
      by (simp add: ramread_valid [OF dn(2)] disk_own(2) [OF inv f nd din] upd_fcb_def)
  qed
  have oc: "open_ok g (lf_dir s) (?u ?c)"
    using f o(1,2,4,6) din nd j mod_less_divisor [of 512 ?p] unfolding open_ok_def on_entry_def nfiles_def
    by (auto simp: less_imp_le)
  have m: "disk_ok K S g (ram ?s) ((lfltab s)(f := ?u ?c))"
    using disk_ok_fcb [OF fs_invD(8) [OF inv], of "?u ?c" f] f nd by (simp add: upd_fcb_def on_entry_def in_use_def)
  have "fs_inv K S g ?s" "on_entry ?s f e"
    using inv_fcb [OF inv f, of ?s "?u ?c"] oc m f by (simp_all add: upd_fcb_def on_entry_def in_use_def)
  moreover have "lf_kept f e g s g ?s" by (simp add: lf_kept_def contents_def others_same_def upd_fcb_def nfiles_def)
  ultimately show ?thesis using run dn(1) by (intro exI [of _ ?s]) (simp add: upd_fcb_def)
qed

text \<open>A file with one more data block at its end.\<close>

lemma file_ok_append:
  assumes fi: "file_ok I ent ks bs" and ks: "distinct ks" and m: "m < length ks" "i < 16" "16 * m + i = length bs"
    and len: "\<forall>k \<in> set ks. length (ib_dba (I k)) = 16" and full: "512 * length bs \<le> unat (ld_size ent)"
    and I': "I' = I(ks ! m := (I (ks ! m))\<lparr>ib_dba := (ib_dba (I (ks ! m)))[i := d]\<rparr>)"
  shows "file_ok I' ent ks (bs @ [d])"
proof -
  note fd = file_okD [OF fi]
  have lt: "length bs < 16 * length ks" using m by linarith
  have "lchain (\<lambda>k. ib_next (I' k)) (ld_ilist ent) ks \<longleftrightarrow> lchain (\<lambda>k. ib_next (I k)) (ld_ilist ent) ks"
    by (rule lchain_frame) (simp add: I')
  moreover have "unat (ib_offset (I' (ks ! j))) = 8192 * j" if "j < length ks" for j
  proof -
    have "ib_offset (I' k) = ib_offset (I k)" for k by (simp add: I')
    then show ?thesis using fd(2) [OF that] by simp
  qed
  moreover have "concat (map (\<lambda>k. ib_dba (I' k)) ks) = (bs @ [d]) @ replicate (16 * length ks - length (bs @ [d])) LF_DNULL"
  proof -
    have e: "(\<lambda>k. ib_dba (I' k)) = (\<lambda>k. ib_dba (I k))(ks ! m := (ib_dba (I (ks ! m)))[i := d])" by (auto simp: I')
    have r: "16 * length ks - length bs = Suc (16 * length ks - length (bs @ [d]))" using lt by simp
    show ?thesis
      unfolding e concat_update [OF len ks m(1,2)] fd(3) m(3) r by (simp add: list_update_append)
  qed
  ultimately show ?thesis using fd(1) fd(4-) lt full unfolding file_ok_def by simp
qed

lemma length_concat_blocks: "\<forall>d \<in> set bs. length (D d) = LF_BLKSIZ \<Longrightarrow> length (concat (map D bs)) = 512 * length bs"
  using length_concat_const [of bs D 512] by (simp add: LF_BLKSIZ_def)

lemma setup_data_new:
  assumes inv: "fs_inv K S g s" and f: "on_entry s f e" and cur: "cur_index f e (unat (lfpos (lfltab s f)) div 8192) g s"
    and b: "lfbyte (lfltab s f) = 512" and j: "\<not> unat (lfpos (lfltab s f)) div 512 < length (gbs g e)"
    and F: "gFD g = d # FD"
  shows "\<exists>g' s'. setup_data f s = Inr s' \<and> fs_inv K S g' (mark f s') \<and> on_entry s' f e \<and> lf_kept f e g s g' s' \<and>
    lfbyte (lfltab s' f) = unat (lfpos (lfltab s f)) mod 512 \<and> lfdnum (lfltab s' f) \<noteq> LF_DNULL"
proof -
  let ?p = "unat (lfpos (lfltab s f))" and ?c = "lfltab s f"
  let ?m = "?p div 8192" and ?i = "?p mod 8192 div 512"
  note o = open_okD [OF inv f] and l = fs_invD(3) [OF inv]
  note fo = fs_invD(4) [OF inv o(1)]
  note fi = file_okD [OF fo]
  have ps: "?p \<le> unat (ld_size (lfd_files (lf_dir s) ! e))" using o(2) by (simp add: word_le_nat_alt)
  have jl: "?p div 512 = length (gbs g e)"
  proof -
    have "?p \<le> 512 * length (gbs g e)" using ps fi(6) by (rule order_trans)
    then have "?p div 512 \<le> length (gbs g e)" using div_le_mono [of ?p "512 * length (gbs g e)" 512] by simp
    then show ?thesis using j by simp
  qed
  have "512 * (?p div 512) \<le> ?p" by simp
  then have full: "512 * length (gbs g e) \<le> unat (ld_size (lfd_files (lf_dir s) ! e))" using ps unfolding jl by (rule order_trans)
  have m: "?m < length (gks g e)" "lfinum ?c = gks g e ! ?m" "\<not> lfdbdirty ?c" using cur by (simp_all add: cur_index_def)
  let ?k = "gks g e ! ?m"
  have kin: "?k \<in> set (gks g e)" using m by simp
  have ib: "lfiblock ?c = gI g ?k" by (rule cur_offset(1) [OF inv f cur])
  have len: "\<forall>k \<in> set (gks g e). length (ib_dba (gI g k)) = 16"
    using fs_invD(7) [OF inv] listsD(2) [OF l o(1)] by (simp add: lf_blocks_ok_def LF_IBLEN_def)
  have ptr: "ib_dba (lfiblock ?c) ! ?i = LF_DNULL"
    using cur_pointer [OF inv f cur] jl by (simp add: nth_append)
  have din: "d \<in> set (gFD g)" using F by simp
  have v: "data_id K S d" by (rule listsD(3) [OF l din])
  have dn: "d \<noteq> LF_DNULL" using data_id_nonnull [OF v] listsD(5) [OF l] by simp
  have nb: "d \<notin> set (gbs g e')" if "e' < nfiles s" for e' using lists_disjoint [OF l that] F by auto
  have nF: "d \<notin> set FD" using l F unfolding lists_ok_def by auto
  let ?d = "(lf_dir s)\<lparr>lfd_dfree := u32_at (gD g d) 0\<rparr>"
  have dok: "dir_ok ?d" using fs_invD(1) [OF inv] by (simp add: dir_ok_def)
  let ?fill = "replicate LF_BLKSIZ DFILL"
  let ?ib = "(gI g ?k)\<lparr>ib_dba := (ib_dba (gI g ?k))[?i := d]\<rparr>"
  let ?u = "\<lambda>c. c\<lparr>lfdblock := ?fill, lfiblock := (lfiblock c)\<lparr>ib_dba := (ib_dba (lfiblock c))[?i := d]\<rparr>, lfibdirty := True\<rparr>"
  let ?v = "\<lambda>c. c\<lparr>lfdnum := d, lfbyte := ?p mod 512\<rparr>"
  let ?s = "upd_fcb f ?v (upd_fcb f ?u (wrote_dir ?d s))"
  have run: "setup_data f s = Inr ?s"
    unfolding setup_data_def Let_def pos_index pos_byte ptr by (simp add: lfdballoc_spec [OF inv F] upd_fcb_def)
  let ?c' = "?c\<lparr>lfdblock := ?fill, lfiblock := ?ib, lfibdirty := True, lfdnum := d, lfbyte := ?p mod 512, lfdbdirty := True\<rparr>"
  let ?g = "g\<lparr>gI := (gI g)(?k := ?ib), gD := (gD g)(d := ?fill), gbs := (gbs g)(e := gbs g e @ [d]), gFD := FD\<rparr>"
  have st: "lf_dir (mark f ?s) = ?d" "lfltab (mark f ?s) = (lfltab s)(f := ?c')" "ram (mark f ?s) = ram (wrote_dir ?d s)"
    using ib by (simp_all add: upd_fcb_def mark_def)
  have "disk_ok K S ?g (ram (mark f ?s)) ((lfltab s)(f := ?c'))"
    unfolding st(3)
    by (rule disk_ok_claim [OF disk_ok_wrote [OF fs_invD(8) [OF inv] dok]]) (use f m in \<open>auto simp: on_entry_def in_use_def\<close>)
  moreover have "open_ok ?g (lf_dir (mark f ?s)) ?c'"
    using f o(1,2) m kin dn lchain_nonnull [OF fi(1) kin] mod_less_divisor [of 512 ?p] unfolding open_ok_def st(1)
    by (auto simp: on_entry_def nfiles_def jl LF_INULL_def less_imp_le)
  moreover have "file_ok (gI ?g) (lfd_files (lf_dir (mark f ?s)) ! e) (gks ?g e) (gbs ?g e)"
  proof -
    have "distinct (gks g e)" using l o(1) unfolding lists_ok_def by simp
    moreover have "16 * ?m + ?i = length (gbs g e)" by (simp only: index_arith(2) jl)
    ultimately have "file_ok ((gI g)(?k := ?ib)) (lfd_files (lf_dir s) ! e) (gks g e) (gbs g e @ [d])"
      using m(1) index_arith(1) len full by (intro file_ok_append [OF fo]) simp_all
    then show ?thesis by (simp add: st(1))
  qed
  moreover have "lf_blocks_ok K S ?g" using fs_invD(7) [OF inv] by (simp add: lf_blocks_ok_def)
  moreover have "lchain (\<lambda>k. ib_next (gI ?g k)) (lfd_ifree (lf_dir (mark f ?s))) (gFI ?g)"
  proof -
    have "lchain (\<lambda>k. ib_next (gI ?g k)) (lfd_ifree (lf_dir s)) (gFI g) \<longleftrightarrow> lchain (\<lambda>k. ib_next (gI g k)) (lfd_ifree (lf_dir s)) (gFI g)"
      by (rule lchain_frame) simp
    then show ?thesis using fs_invD(5) [OF inv] by (simp add: st(1))
  qed
  moreover have "lchain (\<lambda>d. u32_at (gD ?g d) 0) (lfd_dfree (lf_dir (mark f ?s))) (gFD ?g)"
  proof -
    have "\<forall>x \<in> set FD. u32_at (gD ?g x) 0 = u32_at (gD g x) 0" using nF by auto
    moreover have "lfd_dfree (lf_dir (mark f ?s)) = u32_at (gD g d) 0" "gFD ?g = FD" by (simp_all add: st(1))
    ultimately show ?thesis using lchain_rest [OF fs_invD(6) [OF inv, unfolded F]] by (simp only:)
  qed
  moreover have "apart (nfiles s) e g ?g"
    using nb owner_unique(1) [OF l o(1) _ kin] by (auto simp: apart_def)
  moreover have "lists_ok K S (nfiles s) ?g" using lists_alloc_data [OF l o(1) F] by simp
  ultimately have i: "fs_inv K S ?g (mark f ?s)" "on_entry (mark f ?s) f e"
    "\<forall>e' < nfiles s. e' \<noteq> e \<longrightarrow> contents ?g (mark f ?s) e' = contents g s e'" "nfiles (mark f ?s) = nfiles s"
    using inv_step [OF inv f, of ?g "mark f ?s" ?c'] dok f by (auto simp: st on_entry_def in_use_def)
  have ce: "contents ?g ?s e = contents g s e"
  proof -
    have "map (gD ?g) (gbs g e) = map (gD g) (gbs g e)" using nb [OF o(1)] by auto
    moreover have "concat (map (gD ?g) (gbs ?g e)) = concat (map (gD ?g) (gbs g e)) @ ?fill" by simp
    ultimately have "concat (map (gD ?g) (gbs ?g e)) = concat (map (gD g) (gbs g e)) @ ?fill" by (simp only:)
    moreover have "length (concat (map (gD g) (gbs g e))) = 512 * length (gbs g e)"
      using fs_invD(7) [OF inv] listsD(4) [OF l o(1)] by (intro length_concat_blocks) (simp add: lf_blocks_ok_def)
    ultimately show ?thesis using fi(6) by (simp add: contents_def upd_fcb_def)
  qed
  have "\<forall>e' < nfiles s. contents ?g ?s e' = contents g s e'"
  proof (intro allI impI)
    fix e' assume "e' < nfiles s"
    then show "contents ?g ?s e' = contents g s e'"
      using i(3) ce by (cases "e' = e") (simp_all add: contents_def mark_def upd_fcb_def)
  qed
  then have "lf_kept f e g s ?g ?s"
    using F by (simp add: lf_kept_def others_same_def upd_fcb_def nfiles_def)
  moreover have "on_entry ?s f e" using f by (simp add: on_entry_def in_use_def upd_fcb_def)
  ultimately show ?thesis using run i(1) dn by (intro exI [of _ ?g] exI [of _ ?s]) (simp add: upd_fcb_def)
qed

end
