(* ===== verification/Lfs_Calls.thy ===== *)
theory Lfs_Calls
  imports Lfs_Refine
begin

text \<open>
  The calls on an open file of the local file system refine operations on a sequence of bytes with a position.
\<close>

section \<open>Setting up the blocks\<close>

lemma inv_same:
  assumes "fs_inv K S g s" "lf_dir s' = lf_dir s" "lfltab s' = lfltab s" "ram s' = ram s"
  shows "fs_inv K S g s'"
  using assms unfolding fs_inv_def nfiles_def in_use_def by simp

lemma open_ok_mutex: "open_ok g d (c\<lparr>lfmutex := m\<rparr>) \<longleftrightarrow> open_ok g d c"
  by (simp add: open_ok_def)

lemma inv_file_mutex:
  assumes inv: "fs_inv K S g s" and f: "on_entry s f e"
  shows "fs_inv K S g (upd_fcb f (\<lambda>c. c\<lparr>lfmutex := h c\<rparr>) s)" "on_entry (upd_fcb f (\<lambda>c. c\<lparr>lfmutex := h c\<rparr>) s) f e"
proof -
  let ?c = "(lfltab s f)\<lparr>lfmutex := h (lfltab s f)\<rparr>"
  have u: "in_use s f" using f by (simp add: on_entry_def)
  have m: "disk_ok K S g (ram s) ((lfltab s)(f := ?c))"
    by (rule disk_ok_fcb [OF fs_invD(8) [OF inv]]) (use u in \<open>auto simp: in_use_def\<close>)
  show "fs_inv K S g (upd_fcb f (\<lambda>c. c\<lparr>lfmutex := h c\<rparr>) s)" "on_entry (upd_fcb f (\<lambda>c. c\<lparr>lfmutex := h c\<rparr>) s) f e"
    by (rule inv_fcb [OF inv f, of _ ?c]; use u f m fs_invD(9) [OF inv u] in \<open>simp add: upd_fcb_def open_ok_mutex on_entry_def in_use_def\<close>)+
qed

text \<open>How far the file can grow.\<close>

definition file_room :: "fsg \<Rightarrow> nat \<Rightarrow> nat" where
  "file_room g e = min (512 * (length (gbs g e) + length (gFD g))) (8192 * (length (gks g e) + length (gFI g)))"

lemma kept_room: "lf_kept f e g s g' s' \<Longrightarrow> file_room g' e = file_room g e"
  by (simp add: lf_kept_def file_room_def)

lemma lfsetup_spec:
  assumes inv: "fs_inv K S g s" and f: "on_entry s f e" and b: "512 \<le> lfbyte (lfltab s f)" and mu: "0 < lf_mutex s"
    and room: "unat (lfpos (lfltab s f)) < file_room g e"
  shows "\<exists>g' s'. lfsetup f s = Inr (OK_st, s') \<and> fs_inv K S g' (mark f s') \<and> on_entry s' f e \<and> lf_kept f e g s g' s' \<and>
    lfbyte (lfltab s' f) = unat (lfpos (lfltab s f)) mod 512 \<and> lfdnum (lfltab s' f) \<noteq> LF_DNULL \<and>
    (lfpos (lfltab s f) < ld_size (lfd_files (lf_dir s) ! e) \<longrightarrow> fs_inv K S g' s')"
proof -
  let ?p = "unat (lfpos (lfltab s f))"
  let ?t = "s\<lparr>lf_mutex := lf_mutex s - 1\<rparr>"
  have inv0: "fs_inv K S g ?t" and f0: "on_entry ?t f e"
    using inv_same [OF inv, of ?t] f by (simp_all add: on_entry_def in_use_def)
  obtain s1 where s1: "flush_dirty f ?t = Inr s1" "fs_inv K S g s1" "on_entry s1 f e"
    "lfltab s1 f = (lfltab s f)\<lparr>lfibdirty := False, lfdbdirty := False\<rparr>" "lf_dir s1 = lf_dir s" "others_same f ?t s1"
    using flush_dirty_spec [OF inv0 f0] by auto
  have b1: "lfbyte (lfltab s1 f) = 512" using open_okD(3) [OF inv f] b s1(4) by simp
  have nd: "\<not> lfibdirty (lfltab s1 f)" "\<not> lfdbdirty (lfltab s1 f)" and p1: "lfpos (lfltab s1 f) = lfpos (lfltab s f)"
    using s1(4) by simp_all
  have k1: "lf_kept f e g ?t g s1"
    using s1(4,5,6) by (simp add: lf_kept_def contents_def nfiles_def)
  have r: "?p < 512 * (length (gbs g e) + length (gFD g))" "?p < 8192 * (length (gks g e) + length (gFI g))"
    using room by (simp_all add: file_room_def)
  obtain g2 s2 m where s2: "setup_index f e s1 = Inr s2" "fs_inv K S g2 s2" "on_entry s2 f e" "cur_index f e m g2 s2"
    "steady f e g s1 g2 s2"
    using setup_index_spec [OF s1(2,3) nd b1] r(2) p1 by auto
  have q2: "lfpos (lfltab s2 f) = lfpos (lfltab s f)" "length (gks g2 e) + length (gFI g2) = length (gks g e) + length (gFI g)"
    using s2(5) p1 by (simp_all add: steady_def)
  have b2: "lfbyte (lfltab s2 f) = 512"
    using s2(4) open_okD(3) [OF s2(2,3)] by (simp add: cur_index_def)
  have "?p < 4294967296" by (rule unat_u32_less)
  then have "?p div 8192 \<le> m + LF_WALK" by (simp add: LF_WALK_def)
  then obtain g3 s3 where s3: "setup_walk LF_WALK f s2 = Inr s3" "fs_inv K S g3 s3" "on_entry s3 f e"
    "cur_index f e (?p div 8192) g3 s3" "steady f e g2 s2 g3 s3" "lfbyte (lfltab s3 f) = 512"
    using setup_walk_spec [OF s2(2,3,4) b2, of LF_WALK] r(2) unfolding q2 by auto
  have q3: "lfpos (lfltab s3 f) = lfpos (lfltab s f)" "length (gbs g3 e) + length (gFD g3) = length (gbs g e) + length (gFD g)"
    "ld_size (lfd_files (lf_dir s3) ! e) = ld_size (lfd_files (lf_dir s) ! e)"
    using s3(5) s2(5) q2 s1(5) by (simp_all add: steady_def)
  have "\<exists>g' s4. setup_data f s3 = Inr s4 \<and> fs_inv K S g' (mark f s4) \<and> on_entry s4 f e \<and> lf_kept f e g3 s3 g' s4 \<and>
    lfbyte (lfltab s4 f) = ?p mod 512 \<and> lfdnum (lfltab s4 f) \<noteq> LF_DNULL \<and>
    (lfpos (lfltab s f) < ld_size (lfd_files (lf_dir s) ! e) \<longrightarrow> fs_inv K S g' s4)"
  proof (cases "?p div 512 < length (gbs g3 e)")
    case True
    then obtain s4 where s4: "setup_data f s3 = Inr s4" "fs_inv K S g3 s4" "on_entry s4 f e" "lf_kept f e g3 s3 g3 s4"
      "lfbyte (lfltab s4 f) = ?p mod 512" "lfdnum (lfltab s4 f) \<noteq> LF_DNULL"
      using setup_data_old [OF s3(2,3) _ s3(6)] s3(4) unfolding q3 by auto
    then show ?thesis using inv_mark [OF s4(2,3,6)] by blast
  next
    case False
    have "gFD g3 \<noteq> []"
    proof
      assume "gFD g3 = []"
      then have "?p < 512 * length (gbs g3 e)" using r(1) q3(2) by simp
      then have "?p div 512 < length (gbs g3 e)" by (simp add: less_mult_imp_div_less mult.commute)
      then show False using False by simp
    qed
    then obtain d FD where F: "gFD g3 = d # FD" by (cases "gFD g3") auto
    have "ld_size (lfd_files (lf_dir s) ! e) \<le> lfpos (lfltab s f)"
    proof -
      have "unat (ld_size (lfd_files (lf_dir s3) ! e)) \<le> 512 * length (gbs g3 e)"
        using file_okD(6) [OF fs_invD(4) [OF s3(2) open_okD(1) [OF s3(2,3)]]] .
      moreover have "512 * length (gbs g3 e) \<le> 512 * (?p div 512)" using False by simp
      moreover have "512 * (?p div 512) \<le> ?p" by simp
      ultimately show ?thesis unfolding q3 by (simp add: word_le_nat_alt)
    qed
    then have "\<not> lfpos (lfltab s f) < ld_size (lfd_files (lf_dir s) ! e)" by (simp add: not_less)
    then show ?thesis
      using setup_data_new [OF s3(2,3) _ s3(6) _ F, unfolded q3, OF s3(4) False] by blast
  qed
  then obtain g4 s4 where s4: "setup_data f s3 = Inr s4" "fs_inv K S g4 (mark f s4)" "on_entry s4 f e" "lf_kept f e g3 s3 g4 s4"
    "lfbyte (lfltab s4 f) = ?p mod 512" "lfdnum (lfltab s4 f) \<noteq> LF_DNULL"
    "lfpos (lfltab s f) < ld_size (lfd_files (lf_dir s) ! e) \<longrightarrow> fs_inv K S g4 s4"
    by blast
  let ?s = "signal_dir s4"
  have "lf_kept f e g ?t g4 s4"
    using k1 steady_kept [OF s2(5)] steady_kept [OF s3(5)] s4(4) lf_kept_trans by blast
  then have k: "lf_kept f e g s g4 ?s"
    unfolding lf_kept_def contents_def nfiles_def others_same_def by (elim conjE, intro conjI; simp add: signal_dir_def)
  have "entry_of f ?t = Inr e" using f by (simp add: entry_of_def on_entry_def)
  then have "lfsetup f s = Inr (OK_st, ?s)"
    using mu by (simp add: lfsetup_def wait_dir_def s1(1) s2(1) s3(1) s4(1))
  moreover have "fs_inv K S g4 (mark f ?s)" by (rule inv_same [OF s4(2)]) (simp_all add: mark_def upd_fcb_def signal_dir_def)
  moreover have "fs_inv K S g4 ?s" if "fs_inv K S g4 s4" by (rule inv_same [OF that]) (simp_all add: signal_dir_def)
  moreover have "on_entry ?s f e" using s4(3) by (simp add: on_entry_def in_use_def signal_dir_def)
  ultimately show ?thesis using k s4(5,6,7) by (intro exI [of _ g4] exI [of _ ?s]) (simp add: signal_dir_def)
qed

section \<open>Storing a byte\<close>

definition grow_entry :: "nat \<Rightarrow> nat \<Rightarrow> lfs \<Rightarrow> lfs" where
  "grow_entry f e s = (if lfpos (lfltab s f) \<ge> ld_size (lfd_files (lf_dir s) ! e)
     then (upd_entry e (\<lambda>d. d\<lparr>ld_size := ld_size d + 1\<rparr>) s)\<lparr>lf_dirdirty := True\<rparr> else s)"

definition put_in_block :: "nat \<Rightarrow> byte \<Rightarrow> lfs \<Rightarrow> lfs" where
  "put_in_block f ch = upd_fcb f (\<lambda>c. c\<lparr>lfdblock := (lfdblock c)[lfbyte c := ch], lfbyte := lfbyte c + 1, lfpos := lfpos c + 1,
     lfdbdirty := True\<rparr>)"

text \<open>The effect of a write on a sequence of bytes.\<close>

definition write_at :: "byte list \<Rightarrow> nat \<Rightarrow> byte \<Rightarrow> byte list" where
  "write_at bs p ch = (if p < length bs then bs[p := ch] else bs @ [ch])"

lemma take_write:
  assumes "p \<le> n" "n \<le> length xs" "p < length xs"
  shows "take (if p < n then n else n + 1) (xs[p := ch]) = write_at (take n xs) p ch"
proof (cases "p < n")
  case True
  then show ?thesis using assms by (simp add: write_at_def take_update_swap)
next
  case False
  then have "p = n" using assms by simp
  then show ?thesis using assms by (simp add: write_at_def take_Suc_conv_app_nth)
qed

lemma take_id_bytes: "length (contents g s e) \<le> unat (ld_size (lfd_files (lf_dir s) ! e))"
  by (simp add: contents_def)

lemma length_contents:
  assumes "fs_inv K S g s" "e < nfiles s"
  shows "length (contents g s e) = unat (ld_size (lfd_files (lf_dir s) ! e))"
    "length (concat (map (gD g) (gbs g e))) = 512 * length (gbs g e)"
    "unat (ld_size (lfd_files (lf_dir s) ! e)) \<le> 512 * length (gbs g e)"
proof -
  show l: "length (concat (map (gD g) (gbs g e))) = 512 * length (gbs g e)"
    using fs_invD(7) [OF assms(1)] listsD(4) [OF fs_invD(3) [OF assms(1)] assms(2)] by (intro length_concat_blocks) (simp add: lf_blocks_ok_def)
  show s: "unat (ld_size (lfd_files (lf_dir s) ! e)) \<le> 512 * length (gbs g e)"
    by (rule file_okD(6) [OF fs_invD(4) [OF assms]])
  then show "length (contents g s e) = unat (ld_size (lfd_files (lf_dir s) ! e))" using l by (simp add: contents_def)
qed

lemma block_count:
  assumes "fs_inv K S g s" "e < nfiles s"
  shows "length (gbs g e) \<le> 200"
proof -
  have l: "lists_ok K S (nfiles s) g" by (rule fs_invD(3) [OF assms(1)])
  then have d: "distinct (gbs g e)" "S \<le> RM_BLKS" using assms(2) unfolding lists_ok_def by auto
  have "set (gbs g e) \<subseteq> word_of_nat ` {..<200}"
  proof
    fix x assume "x \<in> set (gbs g e)"
    then have "unat x < 200" using listsD(4) [OF l assms(2)] d(2) by (fastforce simp: data_id_def RM_BLKS_def)
    then show "x \<in> word_of_nat ` {..<200}" by (intro image_eqI [of _ _ "unat x"]) simp_all
  qed
  then have "card (set (gbs g e)) \<le> card (word_of_nat ` {..<200} :: u32 set)" by (intro card_mono) simp_all
  also have "\<dots> \<le> 200" using card_image_le [of "{..<200 :: nat}" "word_of_nat :: nat \<Rightarrow> u32"] by simp
  finally show ?thesis using d(1) by (simp add: distinct_card)
qed

lemma store_byte:
  assumes inv: "fs_inv K S g (mark f s)" and f: "on_entry s f e" and b: "lfbyte (lfltab s f) < 512"
  shows "\<exists>g'. fs_inv K S g' (put_in_block f ch (grow_entry f e s)) \<and> on_entry (put_in_block f ch (grow_entry f e s)) f e \<and>
    (\<forall>e' < nfiles s. contents g' (put_in_block f ch (grow_entry f e s)) e' =
       (if e' = e then write_at (contents g s e) (unat (lfpos (lfltab s f))) ch else contents g s e')) \<and>
    nfiles (put_in_block f ch (grow_entry f e s)) = nfiles s \<and> file_room g' e = file_room g e \<and>
    unat (lfpos (lfltab s f) + 1) = unat (lfpos (lfltab s f)) + 1"
proof -
  let ?t = "mark f s" and ?p = "lfpos (lfltab s f)" and ?ent = "lfd_files (lf_dir s) ! e"
  let ?r = "put_in_block f ch (grow_entry f e s)"
  have ft: "on_entry ?t f e" using f by (simp add: mark_def upd_fcb_def on_entry_def in_use_def)
  have t: "lf_dir ?t = lf_dir s" "lfltab ?t = (lfltab s)(f := (lfltab s f)\<lparr>lfdbdirty := True\<rparr>)" "ram ?t = ram s" "nfiles ?t = nfiles s"
    by (simp_all add: mark_def upd_fcb_def nfiles_def)
  note o = open_okD [OF inv ft] and l = fs_invD(3) [OF inv]
  let ?c = "lfltab s f" and ?d = "lfdnum (lfltab s f)" and ?j = "unat (lfpos (lfltab s f)) div 512"
  have lb: "lfbyte ?c = unat ?p mod 512" "?j < length (gbs g e)" "?d = gbs g e ! ?j" using o(8) b by (simp_all add: t)
  have ee: "e < nfiles s" using o(1) by (simp add: t)
  have din: "?d \<in> set (gbs g e)" "?d \<noteq> LF_DNULL" "lfdblock ?c = gD g ?d" using o(5,7) by (simp_all add: t)
  note fo = fs_invD(4) [OF inv o(1), unfolded t]
  note fi = file_okD [OF fo]
  have pb: "unat ?p < 512 * length (gbs g e)"
  proof -
    have "unat ?p < 512 * (?j + 1)" by (simp add: mult.commute dividend_less_times_div add.commute)
    also have "\<dots> \<le> 512 * length (gbs g e)" using lb(2) by simp
    finally show ?thesis .
  qed
  have small: "unat ?p < 102400" using pb block_count [OF inv o(1)] by linarith
  have p1: "unat (?p + 1) = unat ?p + 1" using small by (simp add: unat_word_ariths)
  have ps: "unat ?p \<le> unat (ld_size ?ent)" using o(2) by (simp add: t word_le_nat_alt)
  let ?sz = "if ?p < ld_size ?ent then ld_size ?ent else ld_size ?ent + 1"
  have sz: "unat ?sz = (if unat ?p < unat (ld_size ?ent) then unat (ld_size ?ent) else unat (ld_size ?ent) + 1)"
    using ps p1 by (auto simp: word_less_nat_alt dest!: le_antisym simp del: unat_eq_zero) (simp add: unat_word_ariths)
  have en: "e < length (lfd_files (lf_dir s))" using ee fs_invD(1,2) [OF inv] by (simp add: dir_ok_def t)
  let ?g = "g\<lparr>gD := (gD g)(?d := (gD g ?d)[unat ?p mod 512 := ch])\<rparr>"
  let ?c' = "?c\<lparr>lfdblock := (lfdblock ?c)[lfbyte ?c := ch], lfbyte := lfbyte ?c + 1, lfpos := ?p + 1, lfdbdirty := True\<rparr>"
  have r: "lfltab ?r = (lfltab ?t)(f := ?c')" "ram ?r = ram ?t"
    "lfd_files (lf_dir ?r) = (lfd_files (lf_dir s))[e := ?ent\<lparr>ld_size := ?sz\<rparr>]" "lfd_nfiles (lf_dir ?r) = lfd_nfiles (lf_dir s)"
    "lfd_ifree (lf_dir ?r) = lfd_ifree (lf_dir s)" "lfd_dfree (lf_dir ?r) = lfd_dfree (lf_dir s)"
    by (cases "ld_size ?ent \<le> ?p";
        simp add: put_in_block_def grow_entry_def upd_fcb_def upd_entry_def upd_dir_def t linorder_not_le [symmetric])+
  have rent: "lfd_files (lf_dir ?r) ! e = ?ent\<lparr>ld_size := ?sz\<rparr>" using en by (simp add: r(3))
  have nr: "nfiles ?r = nfiles s" by (simp add: nfiles_def r(4))
  have d': "dir_ok (lf_dir ?r)"
    by (rule dir_ok_entry [OF fs_invD(1) [OF inv, unfolded t] en r(3)]) simp
  have m: "disk_ok K S ?g (ram ?r) ((lfltab ?t)(f := ?c'))"
    unfolding r(2) by (rule disk_ok_claim [OF fs_invD(8) [OF inv]]) (use f o(6) in \<open>auto simp: t on_entry_def in_use_def\<close>)
  have oc: "open_ok ?g (lf_dir ?r) ?c'"
  proof -
    have "lfpos ?c' \<le> ?sz" using ps p1 sz by (simp add: word_le_nat_alt)
    moreover have "(unat ?p + 1) mod 512 = unat ?p mod 512 + 1 \<and> (unat ?p + 1) div 512 = ?j" if "unat ?p mod 512 + 1 < 512"
      using that by (simp add: mod_Suc div_Suc)
    ultimately show ?thesis
      using f ee b din lb o(4,6) unfolding open_ok_def on_entry_def
      by (auto simp: r(4) rent nfiles_def p1 t)
  qed
  have fi': "file_ok (gI ?g) (lfd_files (lf_dir ?r) ! e) (gks ?g e) (gbs ?g e)"
  proof -
    have "unat ?sz \<le> 512 * length (gbs g e)" "512 * length (gbs g e) \<le> unat ?sz + 512"
      using sz ps pb fi(6,7) by auto
    then show ?thesis using fo unfolding file_ok_def rent by simp
  qed
  have bl: "lf_blocks_ok K S ?g" using fs_invD(7) [OF inv] by (simp add: lf_blocks_ok_def)
  have ap: "apart (nfiles ?t) e g ?g" using owner_unique(2) [OF l o(1) _ din(1)] by (auto simp: apart_def)
  have li: "lists_ok K S (nfiles ?t) ?g" using l unfolding lists_ok_def by simp
  have c1: "lchain (\<lambda>k. ib_next (gI ?g k)) (lfd_ifree (lf_dir ?r)) (gFI ?g)" using fs_invD(5) [OF inv] by (simp add: r(5) t)
  have c2: "lchain (\<lambda>d. u32_at (gD ?g d) 0) (lfd_dfree (lf_dir ?r)) (gFD ?g)"
  proof -
    have "\<forall>x \<in> set (gFD g). x \<noteq> ?d" using lists_disjoint [OF l o(1)] din(1) by auto
    then have "lchain (\<lambda>d. u32_at (gD ?g d) 0) (lfd_dfree (lf_dir s)) (gFD g) \<longleftrightarrow> lchain (\<lambda>d. u32_at (gD g d) 0) (lfd_dfree (lf_dir s)) (gFD g)"
      by (intro lchain_frame) simp
    then show ?thesis using fs_invD(6) [OF inv] by (simp add: r(6) t)
  qed
  have i: "fs_inv K S ?g ?r" "on_entry ?r f e" "\<forall>e' < nfiles ?t. e' \<noteq> e \<longrightarrow> contents ?g ?r e' = contents g ?t e'"
    using inv_step [OF inv ft ap li bl d' _ _ fi' c1 c2 m r(1) oc] f r(3,4) by (auto simp: t on_entry_def in_use_def)
  have ce: "contents ?g ?r e = write_at (contents g s e) (unat ?p) ch"
  proof -
    have len: "\<forall>x \<in> set (gbs g e). length (gD g x) = 512"
      using fs_invD(7) [OF inv] listsD(4) [OF l o(1)] by (simp add: lf_blocks_ok_def LF_BLKSIZ_def)
    have di: "distinct (gbs g e)" using l o(1) unfolding lists_ok_def by simp
    have "concat (map (gD ?g) (gbs g e)) = (concat (map (gD g) (gbs g e)))[512 * ?j + unat ?p mod 512 := ch]"
      using concat_update [OF len di lb(2), of "unat ?p mod 512" ch] by (simp add: lb(3))
    then have cc: "concat (map (gD ?g) (gbs ?g e)) = (concat (map (gD g) (gbs g e)))[unat ?p := ch]" by simp
    show ?thesis
      unfolding contents_def rent cc using take_write [OF ps, of "concat (map (gD g) (gbs g e))" ch] sz pb
        length_contents(2) [OF inv o(1)] fi(6) by (simp add: contents_def)
  qed
  show ?thesis
    using i ce p1 nr by (intro exI [of _ ?g]) (auto simp: t contents_def file_room_def)
qed

section \<open>The calls\<close>

lemma need_block_spec:
  assumes inv: "fs_inv K S g s" and f: "on_entry s f e" and mu: "0 < lf_mutex s" and room: "unat (lfpos (lfltab s f)) < file_room g e"
  shows "\<exists>g' s'. need_block f s = Inr s' \<and> fs_inv K S g' (mark f s') \<and> on_entry s' f e \<and> lf_kept f e g s g' s' \<and>
    lfbyte (lfltab s' f) < 512 \<and> (lfpos (lfltab s f) < ld_size (lfd_files (lf_dir s) ! e) \<longrightarrow> fs_inv K S g' s')"
proof (cases "lfbyte (lfltab s f) < 512")
  case True
  note o = open_okD [OF inv f] and l = fs_invD(3) [OF inv]
  have "lfdnum (lfltab s f) \<in> set (gbs g e)" using o(8) [OF True] by simp
  then have "lfdnum (lfltab s f) \<noteq> LF_DNULL" using data_id_nonnull [OF listsD(4) [OF l o(1)] listsD(5) [OF l]] by blast
  then have "fs_inv K S g (mark f s)" by (rule inv_mark [OF inv f])
  then show ?thesis using True inv f by (intro exI [of _ g] exI [of _ s]) (simp add: need_block_def LF_BLKSIZ_def lf_kept_def)
next
  case False
  then obtain g' s' where s': "lfsetup f s = Inr (OK_st, s')" "fs_inv K S g' (mark f s')" "on_entry s' f e" "lf_kept f e g s g' s'"
    "lfbyte (lfltab s' f) = unat (lfpos (lfltab s f)) mod 512"
    "lfpos (lfltab s f) < ld_size (lfd_files (lf_dir s) ! e) \<longrightarrow> fs_inv K S g' s'"
    using lfsetup_spec [OF inv f _ mu room] by auto
  then show ?thesis using False by (intro exI [of _ g'] exI [of _ s']) (simp add: need_block_def LF_BLKSIZ_def)
qed

lemma read_byte:
  assumes inv: "fs_inv K S g s" and f: "on_entry s f e" and b: "lfbyte (lfltab s f) < 512"
    and lt: "lfpos (lfltab s f) < ld_size (lfd_files (lf_dir s) ! e)"
  shows "lfdblock (lfltab s f) ! lfbyte (lfltab s f) = contents g s e ! unat (lfpos (lfltab s f))"
    "fs_inv K S g (upd_fcb f (\<lambda>c. c\<lparr>lfbyte := lfbyte c + 1, lfpos := lfpos c + 1\<rparr>) s)"
    "on_entry (upd_fcb f (\<lambda>c. c\<lparr>lfbyte := lfbyte c + 1, lfpos := lfpos c + 1\<rparr>) s) f e"
    "unat (lfpos (lfltab s f) + 1) = unat (lfpos (lfltab s f)) + 1"
proof -
  let ?p = "unat (lfpos (lfltab s f))" and ?c = "lfltab s f"
  note o = open_okD [OF inv f] and l = fs_invD(3) [OF inv]
  have lb: "lfbyte ?c = ?p mod 512" "?p div 512 < length (gbs g e)" "lfdnum ?c = gbs g e ! (?p div 512)" using o(8) [OF b] by simp_all
  have din: "lfdnum ?c \<in> set (gbs g e)" using lb by simp
  have db: "lfdblock ?c = gD g (lfdnum ?c)"
    using o(5) data_id_nonnull [OF listsD(4) [OF l o(1) din] listsD(5) [OF l]] by simp
  have len: "\<forall>x \<in> set (gbs g e). length (gD g x) = 512"
    using fs_invD(7) [OF inv] listsD(4) [OF l o(1)] by (simp add: lf_blocks_ok_def LF_BLKSIZ_def)
  have ps: "?p < unat (ld_size (lfd_files (lf_dir s) ! e))" using lt by (simp add: word_less_nat_alt)
  have "concat (map (gD g) (gbs g e)) ! (512 * (?p div 512) + ?p mod 512) = gD g (gbs g e ! (?p div 512)) ! (?p mod 512)"
    by (rule concat_nth [OF len lb(2)]) simp
  then show "lfdblock ?c ! lfbyte ?c = contents g s e ! ?p" using ps by (simp add: db lb contents_def)
  show p1: "unat (lfpos ?c + 1) = ?p + 1"
    using ps unat_u32_less [of "ld_size (lfd_files (lf_dir s) ! e)"] by (simp add: unat_word_ariths)
  let ?c' = "?c\<lparr>lfbyte := lfbyte ?c + 1, lfpos := lfpos ?c + 1\<rparr>"
  have "(?p + 1) mod 512 = ?p mod 512 + 1 \<and> (?p + 1) div 512 = ?p div 512" if "?p mod 512 + 1 < 512"
    using that by (simp add: mod_Suc div_Suc)
  moreover have "lfpos ?c + 1 \<le> ld_size (lfd_files (lf_dir s) ! e)" using ps p1 by (simp add: word_le_nat_alt)
  ultimately have oc: "open_ok g (lf_dir s) ?c'"
    using f o(1,4,5,6,7) b lb unfolding open_ok_def on_entry_def by (auto simp: nfiles_def p1)
  have m: "disk_ok K S g (ram s) ((lfltab s)(f := ?c'))"
    by (rule disk_ok_fcb [OF fs_invD(8) [OF inv]]) (use f in \<open>auto simp: on_entry_def in_use_def\<close>)
  show "fs_inv K S g (upd_fcb f (\<lambda>c. c\<lparr>lfbyte := lfbyte c + 1, lfpos := lfpos c + 1\<rparr>) s)"
    "on_entry (upd_fcb f (\<lambda>c. c\<lparr>lfbyte := lfbyte c + 1, lfpos := lfpos c + 1\<rparr>) s) f e"
    by (rule inv_fcb [OF inv f _ _ oc]; use f m in \<open>simp add: upd_fcb_def on_entry_def in_use_def\<close>)+
qed

text \<open>An open file that nobody uses at the moment, with its contents and its position.\<close>

definition file_is :: "nat \<Rightarrow> nat \<Rightarrow> fsg \<Rightarrow> lfs \<Rightarrow> nat \<Rightarrow> nat \<Rightarrow> byte list \<times> nat \<Rightarrow> bool" where
  "file_is K S g s f e = (\<lambda>(bs, p). fs_inv K S g s \<and> on_entry s f e \<and> contents g s e = bs \<and>
     unat (lfpos (lfltab s f)) = p \<and> 0 < lf_mutex s \<and> 0 < lfmutex (lfltab s f))"

text \<open>What a call leaves alone: the other files, their control blocks, the locks, the room on the disk.\<close>

definition only_file :: "nat \<Rightarrow> nat \<Rightarrow> fsg \<Rightarrow> lfs \<Rightarrow> fsg \<Rightarrow> lfs \<Rightarrow> bool" where
  "only_file f e g s g' s' \<longleftrightarrow> (\<forall>e' < nfiles s. e' \<noteq> e \<longrightarrow> contents g' s' e' = contents g s e') \<and> nfiles s' = nfiles s \<and>
     file_room g' e = file_room g e \<and> lfmutex (lfltab s' f) = lfmutex (lfltab s f) \<and> others_same f s s'"

lemma only_file_trans: "only_file f e g s g' s' \<Longrightarrow> only_file f e g' s' g'' s'' \<Longrightarrow> only_file f e g s g'' s''"
  unfolding only_file_def using others_same_trans by fastforce

section \<open>The operations of a sequence of bytes with a position\<close>

text \<open>The calls of a program on one open file; a call of \<open>LFtrunc\<close> carries what the stack holds then.\<close>

datatype lf_op = LFgetc | LFputc byte | LFseek u32 | LFread int | LFwrite "byte list" | LFtrunc "byte list"

definition write_all :: "byte list \<Rightarrow> nat \<Rightarrow> byte list \<Rightarrow> byte list" where
  "write_all bs p xs = take p bs @ xs @ drop (p + length xs) bs"

definition read_result :: "int \<Rightarrow> byte list \<Rightarrow> int \<times> byte list" where
  "read_result cnt xs = (if cnt < 0 then SYSERR_st else if xs = [] \<and> cnt > 0 then LF_EOF else int (length xs), xs)"

definition byte_result :: "lf_op \<Rightarrow> byte list \<times> nat \<Rightarrow> int \<times> byte list" where
  "byte_result op = (\<lambda>(bs, p). case op of
       LFgetc \<Rightarrow> (if p \<ge> length bs then LF_EOF else uint (bs ! p), [])
     | LFputc ch \<Rightarrow> (OK_st, [])
     | LFseek q \<Rightarrow> (if unat q > length bs then SYSERR_st else OK_st, [])
     | LFread cnt \<Rightarrow> read_result cnt (take (nat cnt) (drop p bs))
     | LFwrite xs \<Rightarrow> (int (length xs), [])
     | LFtrunc junk \<Rightarrow> (OK_st, []))"

definition byte_next :: "lf_op \<Rightarrow> byte list \<times> nat \<Rightarrow> byte list \<times> nat" where
  "byte_next op = (\<lambda>(bs, p). case op of
       LFgetc \<Rightarrow> (bs, if p \<ge> length bs then p else p + 1)
     | LFputc ch \<Rightarrow> (write_all bs p [ch], p + 1)
     | LFseek q \<Rightarrow> (bs, if unat q > length bs then p else unat q)
     | LFread cnt \<Rightarrow> (bs, min (length bs) (p + nat cnt))
     | LFwrite xs \<Rightarrow> (write_all bs p xs, p + length xs)
     | LFtrunc junk \<Rightarrow> ([], 0))"

section \<open>Bytes one by one\<close>

lemma upd_fcb_simps [simp]:
  "lf_dir (upd_fcb f h s) = lf_dir s" "ram (upd_fcb f h s) = ram s" "lf_mutex (upd_fcb f h s) = lf_mutex s"
  "lf_dirpresent (upd_fcb f h s) = lf_dirpresent s" "lfltab (upd_fcb f h s) f = h (lfltab s f)"
  "f' \<noteq> f \<Longrightarrow> lfltab (upd_fcb f h s) f' = lfltab s f'"
  by (simp_all add: upd_fcb_def)

lemma contents_upd_fcb [simp]: "contents g (upd_fcb f h s) e = contents g s e" "nfiles (upd_fcb f h s) = nfiles s"
  by (simp_all add: contents_def nfiles_def)

text \<open>Taking the lock of the file and giving it back.\<close>

definition locked :: "nat \<Rightarrow> lfs \<Rightarrow> lfs" where
  "locked f = upd_fcb f (\<lambda>c. c\<lparr>lfmutex := lfmutex c - 1\<rparr>)"

lemma locked_file:
  assumes "file_is K S g s f e (bs, p)"
  shows "wait_file f s = Inr (locked f s)" "lfstate (lfltab (locked f s) f) = LF_USED" "entry_of f (locked f s) = Inr e"
    "fs_inv K S g (locked f s)" "on_entry (locked f s) f e" "signal_file f (locked f s) = s"
proof -
  have f: "fs_inv K S g s" "on_entry s f e" "0 < lfmutex (lfltab s f)" using assms by (simp_all add: file_is_def)
  show "wait_file f s = Inr (locked f s)" using f(3) by (simp add: wait_file_def locked_def)
  show "lfstate (lfltab (locked f s) f) = LF_USED" "entry_of f (locked f s) = Inr e"
    using f(2) by (simp_all add: locked_def on_entry_def in_use_def entry_of_def)
  show "fs_inv K S g (locked f s)" "on_entry (locked f s) f e" unfolding locked_def by (rule inv_file_mutex [OF f(1,2)])+
  show "signal_file f (locked f s) = s" by (simp add: signal_file_def locked_def upd_fcb_def)
qed

lemma locked_simps [simp]:
  "lf_dir (locked f s) = lf_dir s" "lf_mutex (locked f s) = lf_mutex s" "lfpos (lfltab (locked f s) f) = lfpos (lfltab s f)"
  "lfmutex (lfltab (locked f s) f) = lfmutex (lfltab s f) - 1" "contents g (locked f s) e = contents g s e"
  "nfiles (locked f s) = nfiles s" "f' \<noteq> f \<Longrightarrow> lfltab (locked f s) f' = lfltab s f'" "lf_dirpresent (locked f s) = lf_dirpresent s"
  by (simp_all add: locked_def)

lemma finish_call:
  assumes f: "file_is K S g s f e (bs, p)" and inv: "fs_inv K S g' s'" "on_entry s' f e"
    and c: "contents g' s' e = bs'" "unat (lfpos (lfltab s' f)) = p'"
    and k: "\<forall>e' < nfiles s. e' \<noteq> e \<longrightarrow> contents g' s' e' = contents g s e'" "nfiles s' = nfiles s" "file_room g' e = file_room g e"
      "lfmutex (lfltab s' f) = lfmutex (lfltab s f) - 1" "others_same f s s'"
  shows "file_is K S g' (signal_file f s') f e (bs', p') \<and> only_file f e g s g' (signal_file f s')"
proof -
  have "fs_inv K S g' (signal_file f s')" "on_entry (signal_file f s') f e"
    unfolding signal_file_def by (rule inv_file_mutex [OF inv])+
  then show ?thesis using assms by (simp add: file_is_def only_file_def others_same_def signal_file_def)
qed

lemma file_length:
  assumes "file_is K S g s f e (bs, p)"
  shows "length bs = unat (ld_size (lfd_files (lf_dir s) ! e))" "p \<le> length bs" "length bs \<le> file_room g e"
proof -
  have f: "fs_inv K S g s" "on_entry s f e" "contents g s e = bs" "unat (lfpos (lfltab s f)) = p" using assms by (simp_all add: file_is_def)
  note o = open_okD [OF f(1,2)]
  note fi = file_okD [OF fs_invD(4) [OF f(1) o(1)]]
  show l: "length bs = unat (ld_size (lfd_files (lf_dir s) ! e))" using length_contents(1) [OF f(1) o(1)] f(3) by simp
  show "p \<le> length bs" using o(2) l f(4) by (simp add: word_le_nat_alt)
  have "unat (ld_size (lfd_files (lf_dir s) ! e)) \<le> 8192 * length (gks g e)" using fi(4,6) by linarith
  then show "length bs \<le> file_room g e" unfolding l file_room_def using fi(6) by simp
qed

lemma lflgetc_spec:
  assumes f: "file_is K S g s f e (bs, p)"
  shows "\<exists>g' s'. lflgetc f s = Inr (fst (byte_result LFgetc (bs, p)), s') \<and>
    file_is K S g' s' f e (byte_next LFgetc (bs, p)) \<and> only_file f e g s g' s'"
proof (cases "p \<ge> length bs")
  case True
  have "lfpos (lfltab s f) \<ge> ld_size (lfd_files (lf_dir s) ! e)"
    using True file_length(1) [OF f] f by (simp add: file_is_def word_le_nat_alt)
  then have "lflgetc f s = Inr (LF_EOF, s)" by (simp add: lflgetc_def locked_file [OF f])
  then show ?thesis using True f by (intro exI [of _ g] exI [of _ s]) (simp add: byte_result_def byte_next_def only_file_def)
next
  case False
  have i: "contents g s e = bs" "unat (lfpos (lfltab s f)) = p" "0 < lf_mutex s" using f by (simp_all add: file_is_def)
  note l = file_length [OF f]
  have lt: "lfpos (lfltab s f) < ld_size (lfd_files (lf_dir s) ! e)" using False l(1) i(2) by (simp add: word_less_nat_alt)
  have "unat (lfpos (lfltab (locked f s) f)) < file_room g e" using l False i(2) by simp
  then obtain g1 s1 where s1: "need_block f (locked f s) = Inr s1" "on_entry s1 f e" "lf_kept f e g (locked f s) g1 s1"
    "lfbyte (lfltab s1 f) < 512" "fs_inv K S g1 s1"
    using need_block_spec [OF locked_file(4,5) [OF f]] i(3) lt by auto
  have k: "\<forall>e' < nfiles s. contents g1 s1 e' = contents g s e'" "lfpos (lfltab s1 f) = lfpos (lfltab s f)"
    "ld_size (lfd_files (lf_dir s1) ! e) = ld_size (lfd_files (lf_dir s) ! e)" "nfiles s1 = nfiles s"
    "lfmutex (lfltab s1 f) = lfmutex (lfltab s f) - 1" "others_same f (locked f s) s1"
    using s1(3) by (simp_all add: lf_kept_def)
  have ee: "e < nfiles s" using f open_okD(1) by (fastforce simp: file_is_def)
  let ?s = "upd_fcb f (\<lambda>c. c\<lparr>lfbyte := lfbyte c + 1, lfpos := lfpos c + 1\<rparr>) s1"
  note rb = read_byte [OF s1(5,2,4)]
  have lt1: "lfpos (lfltab s1 f) < ld_size (lfd_files (lf_dir s1) ! e)" using lt k(2,3) by simp
  have "lflgetc f s = Inr (uint (bs ! p), signal_file f ?s)"
    using lt [folded not_le] rb(1) [OF lt1] k(1,2) ee i(1,2) by (simp add: lflgetc_def locked_file [OF f] s1(1))
  moreover have "file_is K S g1 (signal_file f ?s) f e (bs, p + 1) \<and> only_file f e g s g1 (signal_file f ?s)"
    by (rule finish_call [OF f rb(2,3) [OF lt1]];
        use k i ee rb(4) [OF lt1] kept_room [OF s1(3)] in \<open>simp add: others_same_def\<close>)
  ultimately show ?thesis using False by (intro exI [of _ g1] exI [of _ "signal_file f ?s"]) (simp add: byte_result_def byte_next_def)
qed

lemma lflputc_spec:
  assumes f: "file_is K S g s f e (bs, p)" and room: "p < file_room g e"
  shows "\<exists>g' s'. lflputc f ch s = Inr (OK_st, s') \<and> file_is K S g' s' f e (write_at bs p ch, p + 1) \<and> only_file f e g s g' s'"
proof -
  have i: "contents g s e = bs" "unat (lfpos (lfltab s f)) = p" "0 < lf_mutex s" using f by (simp_all add: file_is_def)
  note l = file_length [OF f]
  have le: "\<not> lfpos (lfltab s f) > ld_size (lfd_files (lf_dir s) ! e)" using l i(2) by (simp add: not_less word_le_nat_alt)
  have "unat (lfpos (lfltab (locked f s) f)) < file_room g e" using room i(2) by simp
  then obtain g1 s1 where s1: "need_block f (locked f s) = Inr s1" "on_entry s1 f e" "lf_kept f e g (locked f s) g1 s1"
    "lfbyte (lfltab s1 f) < 512" "fs_inv K S g1 (mark f s1)"
    using need_block_spec [OF locked_file(4,5) [OF f]] i(3) by auto
  have k: "\<forall>e' < nfiles s. contents g1 s1 e' = contents g s e'" "lfpos (lfltab s1 f) = lfpos (lfltab s f)" "nfiles s1 = nfiles s"
    "lfmutex (lfltab s1 f) = lfmutex (lfltab s f) - 1" "others_same f (locked f s) s1"
    using s1(3) by (simp_all add: lf_kept_def)
  have ee: "e < nfiles s" using f open_okD(1) by (fastforce simp: file_is_def)
  let ?s = "put_in_block f ch (grow_entry f e s1)"
  obtain g2 where s2: "fs_inv K S g2 ?s" "on_entry ?s f e"
    "\<forall>e' < nfiles s1. contents g2 ?s e' = (if e' = e then write_at (contents g1 s1 e) (unat (lfpos (lfltab s1 f))) ch else contents g1 s1 e')"
    "nfiles ?s = nfiles s1" "file_room g2 e = file_room g1 e" "unat (lfpos (lfltab s1 f) + 1) = unat (lfpos (lfltab s1 f)) + 1"
    using store_byte [OF s1(5,2,4)] by blast
  have st: "lfpos (lfltab ?s f) = lfpos (lfltab s1 f) + 1" "lfmutex (lfltab ?s f) = lfmutex (lfltab s1 f)" "others_same f s1 ?s"
    by (simp_all add: put_in_block_def grow_entry_def upd_entry_def upd_dir_def others_same_def)
  have "lflputc f ch s = Inr (OK_st, signal_file f ?s)"
    using le by (simp add: lflputc_def locked_file [OF f] s1(1) put_in_block_def grow_entry_def Let_def)
  moreover have "file_is K S g2 (signal_file f ?s) f e (write_at bs p ch, p + 1) \<and> only_file f e g s g2 (signal_file f ?s)"
  proof (rule finish_call [OF f s2(1,2)])
    show "others_same f s ?s" using k(5) st(3) by (simp add: others_same_def)
  qed (use k i ee s2 st kept_room [OF s1(3)] in simp_all)
  ultimately show ?thesis by blast
qed

lemma lflseek_spec:
  assumes f: "file_is K S g s f e (bs, p)"
  shows "\<exists>g' s'. lflseek f q s = Inr (fst (byte_result (LFseek q) (bs, p)), s') \<and>
    file_is K S g' s' f e (byte_next (LFseek q) (bs, p)) \<and> only_file f e g s g' s'"
proof (cases "unat q > length bs")
  case True
  then have "q > ld_size (lfd_files (lf_dir s) ! e)" using file_length(1) [OF f] by (simp add: word_less_nat_alt)
  then have "lflseek f q s = Inr (SYSERR_st, s)" by (simp add: lflseek_def locked_file [OF f])
  then show ?thesis using True f by (intro exI [of _ g] exI [of _ s]) (simp add: byte_result_def byte_next_def only_file_def)
next
  case False
  have i: "contents g s e = bs" using f by (simp add: file_is_def)
  have q: "\<not> q > ld_size (lfd_files (lf_dir s) ! e)" using False file_length(1) [OF f] by (simp add: word_less_nat_alt)
  let ?s = "upd_fcb f (\<lambda>c. c\<lparr>lfpos := q, lfbyte := LF_BLKSIZ\<rparr>) (locked f s)"
  let ?c = "(lfltab (locked f s) f)\<lparr>lfpos := q, lfbyte := LF_BLKSIZ\<rparr>"
  note inv = locked_file(4,5) [OF f]
  note o = open_okD [OF inv]
  have oc: "open_ok g (lf_dir (locked f s)) ?c"
    using inv(2) o(1,4,5,6,7) q unfolding open_ok_def on_entry_def by (auto simp: nfiles_def LF_BLKSIZ_def not_less)
  have m: "disk_ok K S g (ram (locked f s)) ((lfltab (locked f s))(f := ?c))"
    by (rule disk_ok_fcb [OF fs_invD(8) [OF inv(1)]]) (use locked_file(2) [OF f] in auto)
  have s2: "fs_inv K S g ?s" "on_entry ?s f e"
    by (rule inv_fcb [OF inv _ _ oc]; use m inv(2) locked_file(2) [OF f] in \<open>simp add: upd_fcb_def on_entry_def\<close>)+
  have "lflseek f q s = Inr (OK_st, signal_file f ?s)" using q by (simp add: lflseek_def locked_file [OF f])
  moreover have "file_is K S g (signal_file f ?s) f e (bs, unat q) \<and> only_file f e g s g (signal_file f ?s)"
    by (rule finish_call [OF f s2]) (use i in \<open>simp_all add: others_same_def\<close>)
  ultimately show ?thesis using False by (intro exI [of _ g] exI [of _ "signal_file f ?s"]) (simp add: byte_result_def byte_next_def)
qed

section \<open>Blocks of bytes\<close>

lemma write_at_eq: "p \<le> length bs \<Longrightarrow> write_at bs p x = write_all bs p [x]"
  by (cases "p < length bs") (simp_all add: write_at_def write_all_def upd_conv_take_nth_drop)

lemma write_all_Cons:
  assumes "p \<le> length bs"
  shows "write_all (write_all bs p [x]) (p + 1) xs = write_all bs p (x # xs)"
  using assms by (simp add: write_all_def min_def add.commute)

lemma write_all_Nil [simp]: "write_all bs p [] = bs"
  by (simp add: write_all_def)

lemma lf_write_loop_spec:
  "file_is K S g s f e (bs, p) \<Longrightarrow> p + length xs \<le> file_room g e \<Longrightarrow>
   \<exists>g' s'. lf_write_loop f xs cnt s = Inr (cnt, s') \<and> file_is K S g' s' f e (write_all bs p xs, p + length xs) \<and> only_file f e g s g' s'"
proof (induction xs arbitrary: g s bs p)
  case Nil
  then show ?case by (intro exI [of _ g] exI [of _ s]) (simp add: only_file_def)
next
  case (Cons x xs)
  have le: "p \<le> length bs" by (rule file_length(2) [OF Cons.prems(1)])
  obtain g1 s1 where s1: "lflputc f x s = Inr (OK_st, s1)" "file_is K S g1 s1 f e (write_all bs p [x], p + 1)" "only_file f e g s g1 s1"
    using lflputc_spec [OF Cons.prems(1), of x] Cons.prems(2) unfolding write_at_eq [OF le] by auto
  have "p + 1 + length xs \<le> file_room g1 e" using s1(3) Cons.prems(2) by (simp add: only_file_def)
  from Cons.IH [OF s1(2) this] obtain g' s' where s': "lf_write_loop f xs cnt s1 = Inr (cnt, s')"
    "file_is K S g' s' f e (write_all bs p (x # xs), p + 1 + length xs)" "only_file f e g1 s1 g' s'"
    unfolding write_all_Cons [OF le] by blast
  have "lf_write_loop f (x # xs) cnt s = Inr (cnt, s')" by (simp add: s1(1) s'(1) OK_st_def SYSERR_st_def)
  then show ?case using s'(2) only_file_trans [OF s1(3) s'(3)] by (intro exI [of _ g'] exI [of _ s']) simp
qed

lemma uint_byte_result: "uint (b :: byte) \<noteq> SYSERR_st" "uint (b :: byte) \<noteq> LF_EOF"
proof -
  have "0 \<le> uint b" by simp
  then show "uint b \<noteq> SYSERR_st" "uint b \<noteq> LF_EOF" unfolding SYSERR_st_def LF_EOF_def by linarith+
qed

lemma lf_read_loop_spec:
  "file_is K S g s f e (bs, p) \<Longrightarrow>
   \<exists>g' s'. lf_read_loop n f buff s = (let xs = buff @ take n (drop p bs) in
       Inr (if xs = [] \<and> n > 0 then LF_EOF else int (length xs), xs, s')) \<and>
     file_is K S g' s' f e (bs, min (length bs) (p + n)) \<and> only_file f e g s g' s'"
proof (induction n arbitrary: g s p buff)
  case 0
  then show ?case using file_length(2) [OF 0] by (intro exI [of _ g] exI [of _ s]) (simp add: only_file_def min_def)
next
  case (Suc n)
  obtain g1 s1 where s1: "lflgetc f s = Inr (if p \<ge> length bs then LF_EOF else uint (bs ! p), s1)"
    "file_is K S g1 s1 f e (bs, if p \<ge> length bs then p else p + 1)" "only_file f e g s g1 s1"
    using lflgetc_spec [OF Suc.prems] by (auto simp: byte_result_def byte_next_def)
  show ?case
  proof (cases "p \<ge> length bs")
    case True
    then have "p = length bs" using file_length(2) [OF Suc.prems] by simp
    then show ?thesis using s1
      by (intro exI [of _ g1] exI [of _ s1]) (simp add: SYSERR_st_def LF_EOF_def)
  next
    case False
    then have f1: "file_is K S g1 s1 f e (bs, p + 1)" using s1(2) by simp
    from Suc.IH [OF f1, of "buff @ [bs ! p]"] obtain g' s' where s':
      "lf_read_loop n f (buff @ [bs ! p]) s1 = Inr (int (length (buff @ take (Suc n) (drop p bs))), buff @ take (Suc n) (drop p bs), s')"
      "file_is K S g' s' f e (bs, min (length bs) (p + 1 + n))" "only_file f e g1 s1 g' s'"
      using False by (auto simp: Cons_nth_drop_Suc [symmetric] not_le)
    have "lf_read_loop (Suc n) f buff s = Inr (int (length (buff @ take (Suc n) (drop p bs))), buff @ take (Suc n) (drop p bs), s')"
      using s'(1) False by (simp add: s1(1) uint_byte_result)
    moreover have "take (Suc n) (drop p bs) \<noteq> []" using False by simp
    ultimately show ?thesis using s'(2) only_file_trans [OF s1(3) s'(3)]
      by (intro exI [of _ g'] exI [of _ s']) (simp add: Let_def)
  qed
qed

end
