(* ===== verification/Lfs_Trunc.thy ===== *)
theory Lfs_Trunc
  imports Lfs_Calls
begin

text \<open>
  Truncation returns every block of a file to the free lists: the index blocks in front of the free index blocks in one
  piece, the data blocks one by one.
\<close>

section \<open>Freeing data blocks\<close>

lemma lfdbfree_spec:
  assumes d: "dir_ok (lf_dir s)" and v: "valid_db K x" and j: "length junk = 508"
  shows "\<exists>s'. lfdbfree junk x s = Inr (OK_st, s') \<and> lf_dir s' = (lf_dir s)\<lparr>lfd_dfree := x\<rparr> \<and> lfltab s' = lfltab s \<and>
    lf_mutex s' = lf_mutex s \<and> lf_dirpresent s' = lf_dirpresent s \<and>
    (\<forall>k. valid_ib K k \<longrightarrow> iblk_at (ram s') k = iblk_at (ram s) k) \<and>
    (\<forall>y. K < unat y \<longrightarrow> dblk_at (ram s') y = (if y = x then le32 (lfd_dfree (lf_dir s)) @ junk else dblk_at (ram s) y))"
proof -
  let ?b = "le32 (lfd_dfree (lf_dir s)) @ junk"
  let ?d = "(lf_dir s)\<lparr>lfd_dfree := x\<rparr>"
  have l: "length ?b = LF_BLKSIZ" "take 512 ?b = ?b" using j by (simp_all add: LF_BLKSIZ_def)
  have dk: "dir_ok ?d" using d by (simp add: dir_ok_def)
  note ld = length_dir_bytes [OF dk]
  let ?m1 = "wr_bytes (ram s) (db_addr x) ?b"
  let ?s = "s\<lparr>lf_dir := ?d, ram := wr_bytes ?m1 0 (dir_bytes ?d)\<rparr>"
  have "lfdbfree junk x s = Inr (OK_st, ?s)"
    unfolding lfdbfree_def Let_def ramwrite_valid [OF v] l(2) by (simp add: write_dir_eq dk upd_dir_def)
  moreover have "iblk_at (ram ?s) k = iblk_at (ram s) k" if "valid_ib K k" for k
    using iblk_at_dir [OF that] iblk_at_dput [OF that] v ld by (simp add: valid_db_def LF_BLKSIZ_def)
  moreover have "dblk_at (ram ?s) y = (if y = x then ?b else dblk_at (ram s) y)" if "K < unat y" for y
    using dblk_at_dir [OF that] ld by (simp add: LF_BLKSIZ_def dblk_at_put [OF l(1)])
  ultimately show ?thesis by (intro exI [of _ ?s]) simp
qed

definition nonnull :: "dbid32 list \<Rightarrow> dbid32 list" where
  "nonnull ds = filter (\<lambda>d. d \<noteq> LF_DNULL) ds"

lemma free_dbas_spec:
  "dir_ok (lf_dir s) \<Longrightarrow> length junk = 508 \<Longrightarrow> \<forall>d \<in> set (nonnull ds). valid_db K d \<Longrightarrow> distinct (nonnull ds) \<Longrightarrow>
   lchain (\<lambda>d. u32_at (dblk_at (ram s) d) 0) (lfd_dfree (lf_dir s)) FD \<Longrightarrow> set (nonnull ds) \<inter> set FD = {} \<Longrightarrow>
   \<forall>d \<in> set FD. K < unat d \<Longrightarrow>
   \<exists>s'. free_dbas junk ds s = Inr s' \<and> (\<exists>x. lf_dir s' = (lf_dir s)\<lparr>lfd_dfree := x\<rparr>) \<and> lfltab s' = lfltab s \<and>
    lf_mutex s' = lf_mutex s \<and> lf_dirpresent s' = lf_dirpresent s \<and>
    (\<forall>k. valid_ib K k \<longrightarrow> iblk_at (ram s') k = iblk_at (ram s) k) \<and>
    (\<forall>y. K < unat y \<longrightarrow> y \<notin> set (nonnull ds) \<longrightarrow> dblk_at (ram s') y = dblk_at (ram s) y) \<and>
    lchain (\<lambda>d. u32_at (dblk_at (ram s') d) 0) (lfd_dfree (lf_dir s')) (rev (nonnull ds) @ FD)"
proof (induction ds arbitrary: s FD)
  case Nil
  then show ?case by (intro exI [of _ s]) (auto simp: nonnull_def intro: exI [of _ "lfd_dfree (lf_dir s)"])
next
  case (Cons x ds)
  show ?case
  proof (cases "x = LF_DNULL")
    case True
    then have "nonnull (x # ds) = nonnull ds" by (simp add: nonnull_def)
    then show ?thesis using Cons.IH [of s FD] Cons.prems True by simp
  next
    case False
    have nn: "nonnull (x # ds) = x # nonnull ds" using False by (simp add: nonnull_def)
    have v: "valid_db K x" using Cons.prems(3) nn by simp
    obtain s1 where s1: "lfdbfree junk x s = Inr (OK_st, s1)" "lf_dir s1 = (lf_dir s)\<lparr>lfd_dfree := x\<rparr>" "lfltab s1 = lfltab s"
      "lf_mutex s1 = lf_mutex s" "lf_dirpresent s1 = lf_dirpresent s"
      "\<forall>k. valid_ib K k \<longrightarrow> iblk_at (ram s1) k = iblk_at (ram s) k"
      "\<forall>y. K < unat y \<longrightarrow> dblk_at (ram s1) y = (if y = x then le32 (lfd_dfree (lf_dir s)) @ junk else dblk_at (ram s) y)"
      using lfdbfree_spec [OF Cons.prems(1) v Cons.prems(2)] by blast
    have kx: "K < unat x" using v by (simp add: valid_db_def)
    have xF: "x \<notin> set FD" using Cons.prems(6) nn by simp
    have first: "u32_at (le32 (lfd_dfree (lf_dir s)) @ junk) 0 = lfd_dfree (lf_dir s)"
      using u32_at_le32 [of "[]" 0] by simp
    have xn: "x \<noteq> - 1" using False by (simp add: LF_DNULL_def)
    have "lchain (\<lambda>d. u32_at (dblk_at (ram s1) d) 0) (lfd_dfree (lf_dir s)) FD"
    proof -
      have "u32_at (dblk_at (ram s1) d) 0 = u32_at (dblk_at (ram s) d) 0" if "d \<in> set FD" for d
        using that s1(7) Cons.prems(7) xF by auto
      then have "lchain (\<lambda>d. u32_at (dblk_at (ram s1) d) 0) (lfd_dfree (lf_dir s)) FD =
        lchain (\<lambda>d. u32_at (dblk_at (ram s) d) 0) (lfd_dfree (lf_dir s)) FD" by (rule lchain_frame)
      then show ?thesis using Cons.prems(5) by (simp only:)
    qed
    then have ch: "lchain (\<lambda>d. u32_at (dblk_at (ram s1) d) 0) (lfd_dfree (lf_dir s1)) (x # FD)"
      using s1(2,7) kx first xn by simp
    have d1: "dir_ok (lf_dir s1)" using Cons.prems(1) s1(2) by (simp add: dir_ok_def)
    have "\<forall>d \<in> set (nonnull ds). valid_db K d" "distinct (nonnull ds)" "set (nonnull ds) \<inter> set (x # FD) = {}"
      "\<forall>d \<in> set (x # FD). K < unat d"
      using Cons.prems(3,4,6,7) nn kx by auto
    from Cons.IH [OF d1 Cons.prems(2) this(1,2) ch this(3,4)] obtain s' y where s': "free_dbas junk ds s1 = Inr s'"
      "lf_dir s' = (lf_dir s1)\<lparr>lfd_dfree := y\<rparr>" "lfltab s' = lfltab s1" "lf_mutex s' = lf_mutex s1" "lf_dirpresent s' = lf_dirpresent s1"
      "\<forall>k. valid_ib K k \<longrightarrow> iblk_at (ram s') k = iblk_at (ram s1) k"
      "\<forall>y. K < unat y \<longrightarrow> y \<notin> set (nonnull ds) \<longrightarrow> dblk_at (ram s') y = dblk_at (ram s1) y"
      "lchain (\<lambda>d. u32_at (dblk_at (ram s') d) 0) (lfd_dfree (lf_dir s')) (rev (nonnull ds) @ x # FD)"
      by blast
    have "free_dbas junk (x # ds) s = Inr s'" using False by (simp add: s1(1) s'(1))
    moreover have "lf_dir s' = (lf_dir s)\<lparr>lfd_dfree := y\<rparr>" using s'(2) s1(2) by simp
    ultimately show ?thesis
      using s1 s' nn by (intro exI [of _ s'] conjI) (auto simp: exI [of _ y])
  qed
qed

section \<open>The walk over the index blocks\<close>

lemma nonnull_append: "nonnull (xs @ ys) = nonnull xs @ nonnull ys"
  by (simp add: nonnull_def)

definition file_data :: "(ibid32 \<Rightarrow> lfiblk) \<Rightarrow> ibid32 list \<Rightarrow> dbid32 list" where
  "file_data I ks = concat (map (\<lambda>k. nonnull (ib_dba (I k))) ks)"

lemma truncate_step_spec:
  assumes d: "dir_ok (lf_dir s)" and j: "length junk = 508" and v: "valid_ib K k"
    and x: "\<forall>d \<in> set (nonnull (ib_dba (iblk_at (ram s) k))). valid_db K d" "distinct (nonnull (ib_dba (iblk_at (ram s) k)))"
    and ch: "lchain (\<lambda>d. u32_at (dblk_at (ram s) d) 0) (lfd_dfree (lf_dir s)) FD"
    and F: "set (nonnull (ib_dba (iblk_at (ram s) k))) \<inter> set FD = {}" "\<forall>d \<in> set FD. K < unat d"
    and nx: "nx = (if ib_next (iblk_at (ram s) k) = LF_INULL then ifree else ib_next (iblk_at (ram s) k))"
  shows "\<exists>s'. truncate_step junk ifree k s = Inr (nx, s') \<and> (\<exists>x. lf_dir s' = (lf_dir s)\<lparr>lfd_dfree := x\<rparr>) \<and> lfltab s' = lfltab s \<and>
    lf_mutex s' = lf_mutex s \<and> lf_dirpresent s' = lf_dirpresent s \<and> ib_next (iblk_at (ram s') k) = nx \<and>
    (\<forall>k'. valid_ib K k' \<longrightarrow> k' \<noteq> k \<longrightarrow> iblk_at (ram s') k' = iblk_at (ram s) k') \<and>
    (\<forall>y. K < unat y \<longrightarrow> y \<notin> set (nonnull (ib_dba (iblk_at (ram s) k))) \<longrightarrow> dblk_at (ram s') y = dblk_at (ram s) y) \<and>
    lchain (\<lambda>d. u32_at (dblk_at (ram s') d) 0) (lfd_dfree (lf_dir s')) (rev (nonnull (ib_dba (iblk_at (ram s) k))) @ FD)"
proof -
  let ?ds = "ib_dba (iblk_at (ram s) k)"
  obtain s1 y where s1: "free_dbas junk ?ds s = Inr s1" "lf_dir s1 = (lf_dir s)\<lparr>lfd_dfree := y\<rparr>" "lfltab s1 = lfltab s"
    "lf_mutex s1 = lf_mutex s" "lf_dirpresent s1 = lf_dirpresent s"
    "\<forall>k. valid_ib K k \<longrightarrow> iblk_at (ram s1) k = iblk_at (ram s) k"
    "\<forall>y. K < unat y \<longrightarrow> y \<notin> set (nonnull ?ds) \<longrightarrow> dblk_at (ram s1) y = dblk_at (ram s) y"
    "lchain (\<lambda>d. u32_at (dblk_at (ram s1) d) 0) (lfd_dfree (lf_dir s1)) (rev (nonnull ?ds) @ FD)"
    using free_dbas_spec [OF d j x ch F] by blast
  let ?ib = "\<lparr>ib_next = nx, ib_offset = 0, ib_dba = replicate LF_IBLEN LF_DNULL\<rparr>"
  have l: "length (ib_dba ?ib) = LF_IBLEN" by simp
  let ?s = "s1\<lparr>ram := wr_bytes (ram s1) (ib_addr k) (iblk_bytes ?ib)\<rparr>"
  have nx': "nx = (if ib_next (iblk_at (ram s) k) = LF_INULL then ifree else ib_next (iblk_at (ram s) k))" by (rule nx)
  have "truncate_step junk ifree k s = Inr (nx, ?s)"
    using s1(1) lfibput_valid [OF v l]
    by (simp add: truncate_step_def lfibget_valid [OF v] Let_def nx' [symmetric])
  moreover have "lchain (\<lambda>d. u32_at (dblk_at (ram ?s) d) 0) (lfd_dfree (lf_dir ?s)) (rev (nonnull ?ds) @ FD)"
  proof -
    have "u32_at (dblk_at (ram ?s) d) 0 = u32_at (dblk_at (ram s1) d) 0" if "d \<in> set (rev (nonnull ?ds) @ FD)" for d
      using that x(1) F(2) dblk_at_iput [OF v l, of d] by (auto simp: valid_db_def)
    then have "lchain (\<lambda>d. u32_at (dblk_at (ram ?s) d) 0) (lfd_dfree (lf_dir s1)) (rev (nonnull ?ds) @ FD) =
        lchain (\<lambda>d. u32_at (dblk_at (ram s1) d) 0) (lfd_dfree (lf_dir s1)) (rev (nonnull ?ds) @ FD)" by (rule lchain_frame)
    then show ?thesis using s1(8) by simp
  qed
  ultimately show ?thesis
    using s1(2-7) dblk_at_iput [OF v l] by (intro exI [of _ ?s]) (auto simp: iblk_at_put [OF l])
qed

lemma truncate_walk_spec:
  "dir_ok (lf_dir s) \<Longrightarrow> length junk = 508 \<Longrightarrow> distinct ks \<Longrightarrow> \<forall>k \<in> set ks. valid_ib K k \<Longrightarrow> ifree \<notin> set ks \<Longrightarrow>
   lchain (\<lambda>k. ib_next (iblk_at (ram s) k)) (if ks = [] then - 1 else hd ks) ks \<Longrightarrow>
   lchain (\<lambda>k. ib_next (iblk_at (ram s) k)) ifree FI \<Longrightarrow> set FI \<inter> set ks = {} \<Longrightarrow> \<forall>k \<in> set FI. valid_ib K k \<Longrightarrow>
   \<forall>d \<in> set (file_data (iblk_at (ram s)) ks). valid_db K d \<Longrightarrow> distinct (file_data (iblk_at (ram s)) ks) \<Longrightarrow>
   lchain (\<lambda>d. u32_at (dblk_at (ram s) d) 0) (lfd_dfree (lf_dir s)) FD \<Longrightarrow>
   set (file_data (iblk_at (ram s)) ks) \<inter> set FD = {} \<Longrightarrow> \<forall>d \<in> set FD. K < unat d \<Longrightarrow> length ks \<le> n \<Longrightarrow>
   \<exists>s'. truncate_walk n junk ifree (if ks = [] then ifree else hd ks) s = Inr s' \<and>
    (\<exists>x. lf_dir s' = (lf_dir s)\<lparr>lfd_dfree := x\<rparr>) \<and> lfltab s' = lfltab s \<and>
    lf_mutex s' = lf_mutex s \<and> lf_dirpresent s' = lf_dirpresent s \<and>
    (\<forall>k. valid_ib K k \<longrightarrow> k \<notin> set ks \<longrightarrow> iblk_at (ram s') k = iblk_at (ram s) k) \<and>
    (\<forall>y. K < unat y \<longrightarrow> y \<notin> set (file_data (iblk_at (ram s)) ks) \<longrightarrow> dblk_at (ram s') y = dblk_at (ram s) y) \<and>
    lchain (\<lambda>k. ib_next (iblk_at (ram s') k)) (if ks = [] then ifree else hd ks) (ks @ FI) \<and>
    lchain (\<lambda>d. u32_at (dblk_at (ram s') d) 0) (lfd_dfree (lf_dir s')) (rev (file_data (iblk_at (ram s)) ks) @ FD)"
proof (induction ks arbitrary: s FD n)
  case Nil
  have "truncate_walk n junk ifree ifree s = Inr s" by (cases n) simp_all
  moreover have "\<exists>x. lf_dir s = (lf_dir s)\<lparr>lfd_dfree := x\<rparr>" by (rule exI [of _ "lfd_dfree (lf_dir s)"]) simp
  ultimately show ?case using Nil(7,12) by (intro exI [of _ s]) (simp add: file_data_def)
next
  case (Cons k ks)
  obtain n' where n': "n = Suc n'" "length ks \<le> n'" using Cons.prems(15) by (cases n) auto
  let ?ds = "nonnull (ib_dba (iblk_at (ram s) k))" and ?nx = "if ks = [] then ifree else hd ks"
  have fd: "file_data (iblk_at (ram s)) (k # ks) = ?ds @ file_data (iblk_at (ram s)) ks" by (simp add: file_data_def)
  have kv: "valid_ib K k" "k \<noteq> ifree" "k \<notin> set ks" "distinct ks" using Cons.prems(3,4,5) by auto
  have nk: "ib_next (iblk_at (ram s) k) = (if ks = [] then - 1 else hd ks)" using Cons.prems(6) by (cases ks) auto
  have hn: "ks \<noteq> [] \<Longrightarrow> hd ks \<noteq> - 1" using Cons.prems(6) by (cases ks) auto
  have nx: "?nx = (if ib_next (iblk_at (ram s) k) = LF_INULL then ifree else ib_next (iblk_at (ram s) k))"
    using hn by (simp add: nk LF_INULL_def)
  have "\<forall>d \<in> set ?ds. valid_db K d" "distinct ?ds" "set ?ds \<inter> set FD = {}"
    using Cons.prems(10,11,13) unfolding fd by auto
  from truncate_step_spec [OF Cons.prems(1,2) kv(1) this(1,2) Cons.prems(12) this(3) Cons.prems(14) nx]
  obtain s1 where step: "truncate_step junk ifree k s = Inr (?nx, s1) \<and> (\<exists>x. lf_dir s1 = (lf_dir s)\<lparr>lfd_dfree := x\<rparr>) \<and> lfltab s1 = lfltab s \<and>
    lf_mutex s1 = lf_mutex s \<and> lf_dirpresent s1 = lf_dirpresent s \<and> ib_next (iblk_at (ram s1) k) = ?nx \<and>
    (\<forall>k'. valid_ib K k' \<longrightarrow> k' \<noteq> k \<longrightarrow> iblk_at (ram s1) k' = iblk_at (ram s) k') \<and>
    (\<forall>y. K < unat y \<longrightarrow> y \<notin> set ?ds \<longrightarrow> dblk_at (ram s1) y = dblk_at (ram s) y) \<and>
    lchain (\<lambda>d. u32_at (dblk_at (ram s1) d) 0) (lfd_dfree (lf_dir s1)) (rev ?ds @ FD)" ..
  then obtain x1 where s1: "truncate_step junk ifree k s = Inr (?nx, s1)" "lf_dir s1 = (lf_dir s)\<lparr>lfd_dfree := x1\<rparr>" "lfltab s1 = lfltab s"
    "lf_mutex s1 = lf_mutex s" "lf_dirpresent s1 = lf_dirpresent s" "ib_next (iblk_at (ram s1) k) = ?nx"
    "\<forall>k'. valid_ib K k' \<longrightarrow> k' \<noteq> k \<longrightarrow> iblk_at (ram s1) k' = iblk_at (ram s) k'"
    "\<forall>y. K < unat y \<longrightarrow> y \<notin> set ?ds \<longrightarrow> dblk_at (ram s1) y = dblk_at (ram s) y"
    "lchain (\<lambda>d. u32_at (dblk_at (ram s1) d) 0) (lfd_dfree (lf_dir s1)) (rev ?ds @ FD)"
    by (elim conjE exE) blast
  have same: "iblk_at (ram s1) k' = iblk_at (ram s) k'" if "k' \<in> set ks \<union> set FI" for k'
    using that s1(7) Cons.prems(4,8,9) kv(3) by auto
  have fd1: "file_data (iblk_at (ram s1)) ks = file_data (iblk_at (ram s)) ks"
  proof -
    have "map (\<lambda>k. nonnull (ib_dba (iblk_at (ram s1) k))) ks = map (\<lambda>k. nonnull (ib_dba (iblk_at (ram s) k))) ks"
      using same by simp
    then show ?thesis by (simp only: file_data_def)
  qed
  have c1: "lchain (\<lambda>k. ib_next (iblk_at (ram s1) k)) (if ks = [] then - 1 else hd ks) ks"
  proof -
    have "lchain (\<lambda>k. ib_next (iblk_at (ram s) k)) (if ks = [] then - 1 else hd ks) ks"
      using Cons.prems(6) nk by simp
    then show ?thesis using lchain_frame [of ks "\<lambda>k. ib_next (iblk_at (ram s1) k)" "\<lambda>k. ib_next (iblk_at (ram s) k)"] same by simp
  qed
  have c2: "lchain (\<lambda>k. ib_next (iblk_at (ram s1) k)) ifree FI"
    using Cons.prems(7) lchain_frame [of FI "\<lambda>k. ib_next (iblk_at (ram s1) k)" "\<lambda>k. ib_next (iblk_at (ram s) k)"] same by simp
  have d1: "dir_ok (lf_dir s1)" using Cons.prems(1) s1(2) by (simp add: dir_ok_def)
  have side: "\<forall>k \<in> set ks. valid_ib K k" "ifree \<notin> set ks" "set FI \<inter> set ks = {}"
    "\<forall>d \<in> set (file_data (iblk_at (ram s1)) ks). valid_db K d" "distinct (file_data (iblk_at (ram s1)) ks)"
    "set (file_data (iblk_at (ram s1)) ks) \<inter> set (rev ?ds @ FD) = {}" "\<forall>d \<in> set (rev ?ds @ FD). K < unat d"
    using Cons.prems(4,5,8,10,11,13,14) unfolding fd fd1 by (auto simp: valid_db_def)
  from Cons.IH [OF d1 Cons.prems(2) kv(4) side(1,2) c1 c2 side(3) Cons.prems(9) side(4,5) s1(9) side(6,7) n'(2)]
  obtain s' y where s': "truncate_walk n' junk ifree ?nx s1 = Inr s'" "lf_dir s' = (lf_dir s1)\<lparr>lfd_dfree := y\<rparr>" "lfltab s' = lfltab s1"
    "lf_mutex s' = lf_mutex s1" "lf_dirpresent s' = lf_dirpresent s1"
    "\<forall>k. valid_ib K k \<longrightarrow> k \<notin> set ks \<longrightarrow> iblk_at (ram s') k = iblk_at (ram s1) k"
    "\<forall>y. K < unat y \<longrightarrow> y \<notin> set (file_data (iblk_at (ram s1)) ks) \<longrightarrow> dblk_at (ram s') y = dblk_at (ram s1) y"
    "lchain (\<lambda>k. ib_next (iblk_at (ram s') k)) ?nx (ks @ FI)"
    "lchain (\<lambda>d. u32_at (dblk_at (ram s') d) 0) (lfd_dfree (lf_dir s')) (rev (file_data (iblk_at (ram s1)) ks) @ rev ?ds @ FD)"
    by (elim conjE exE) blast
  have "truncate_walk n junk ifree k s = Inr s'" using kv(2) s1(1) s'(1) by (simp add: n'(1))
  moreover have "lf_dir s' = (lf_dir s)\<lparr>lfd_dfree := y\<rparr>" using s'(2) s1(2) by simp
  moreover have "lchain (\<lambda>k. ib_next (iblk_at (ram s') k)) k (k # ks @ FI)"
  proof -
    have "ib_next (iblk_at (ram s') k) = ?nx" using s'(6) kv(1,3) s1(6) by simp
    moreover have "k \<noteq> - 1" using Cons.prems(6) by simp
    ultimately show ?thesis using s'(8) by simp
  qed
  ultimately show ?case
    using s1 s' unfolding fd fd1 by (intro exI [of _ s'] conjI) (auto intro: exI [of _ y])
qed

section \<open>Truncation\<close>

lemma file_data_blocks:
  assumes "file_ok I ent ks bs" "LF_DNULL \<notin> set bs"
  shows "file_data I ks = bs"
proof -
  have "file_data I ks = filter (\<lambda>d. d \<noteq> LF_DNULL) (concat (map (\<lambda>k. ib_dba (I k)) ks))"
    by (simp add: file_data_def nonnull_def filter_concat comp_def)
  also have "\<dots> = bs" using file_okD(3) [OF assms(1)] assms(2) by (simp add: filter_id_conv) (metis)
  finally show ?thesis .
qed

lemma index_count:
  assumes "lists_ok K S n g" "e < n"
  shows "length (gks g e) \<le> 1400"
proof -
  have d: "distinct (gks g e)" using assms unfolding lists_ok_def by auto
  have "set (gks g e) \<subseteq> word_of_nat ` {..<1400}"
  proof
    fix x assume "x \<in> set (gks g e)"
    then have "unat x < 1400" using listsD(2) [OF assms] by (fastforce simp: valid_ib_def RM_BLKS_def)
    then show "x \<in> word_of_nat ` {..<1400}" by (intro image_eqI [of _ _ "unat x"]) simp_all
  qed
  then have "card (set (gks g e)) \<le> card (word_of_nat ` {..<1400} :: u32 set)" by (intro card_mono) simp_all
  also have "\<dots> \<le> 1400" using card_image_le [of "{..<1400 :: nat}" "word_of_nat :: nat \<Rightarrow> u32"] by simp
  finally show ?thesis using d by (simp add: distinct_card)
qed

lemma lists_truncate:
  assumes l: "lists_ok K S n g" and e: "e < n"
    and g': "gks g' = (gks g)(e := [])" "gbs g' = (gbs g)(e := [])" "gFI g' = gks g e @ gFI g" "gFD g' = rev (gbs g e) @ gFD g"
  shows "lists_ok K S n g'"
proof -
  note d = lists_disjoint [OF l]
  have U: "set (gFI g') \<union> (\<Union>e < n. set (gks g' e)) = set (gFI g) \<union> (\<Union>e < n. set (gks g e))"
    "set (gFD g') \<union> (\<Union>e < n. set (gbs g' e)) = set (gFD g) \<union> (\<Union>e < n. set (gbs g e))"
    using e by (auto simp: g' split: if_splits)
  show ?thesis
    unfolding lists_ok_def U
  proof (intro conjI)
    show "\<forall>e' < n. \<forall>e'' < n. e' \<noteq> e'' \<longrightarrow> set (gks g' e') \<inter> set (gks g' e'') = {} \<and> set (gbs g' e') \<inter> set (gbs g' e'') = {}"
      using owner_unique [OF l] by (auto simp: g')
    show "\<forall>e' < n. distinct (gks g' e') \<and> distinct (gbs g' e') \<and> set (gks g' e') \<inter> set (gFI g') = {} \<and> set (gbs g' e') \<inter> set (gFD g') = {}"
    proof (intro allI impI)
      fix e' assume "e' < n"
      then show "distinct (gks g' e') \<and> distinct (gbs g' e') \<and> set (gks g' e') \<inter> set (gFI g') = {} \<and> set (gbs g' e') \<inter> set (gFD g') = {}"
        using l owner_unique [OF l e] d [of e'] unfolding lists_ok_def by (cases "e' = e") (auto simp: g')
    qed
    show "distinct (gFI g')" "distinct (gFD g')" using l e d [OF e] unfolding lists_ok_def by (auto simp: g')
  qed (use l in \<open>auto simp: lists_ok_def\<close>)
qed

text \<open>The walk frees the blocks of one file, whose control block is not dirty.\<close>

lemma truncate_frees:
  assumes inv: "fs_inv K S g s" and f: "on_entry s f e" and nd: "\<not> lfibdirty (lfltab s f)" "\<not> lfdbdirty (lfltab s f)"
    and j: "length junk = 508" and kne: "gks g e \<noteq> []"
    and t: "ram t = ram s" "lfd_dfree (lf_dir t) = lfd_dfree (lf_dir s)" "dir_ok (lf_dir t)"
  shows "\<exists>s' y. truncate_walk 1400 junk (lfd_ifree (lf_dir s)) (hd (gks g e)) t = Inr s' \<and> lf_dir s' = (lf_dir t)\<lparr>lfd_dfree := y\<rparr> \<and>
    lfltab s' = lfltab t \<and> lf_mutex s' = lf_mutex t \<and> lf_dirpresent s' = lf_dirpresent t \<and>
    (\<forall>k. valid_ib K k \<longrightarrow> k \<notin> set (gks g e) \<longrightarrow> iblk_at (ram s') k = iblk_at (ram s) k) \<and>
    (\<forall>d. K < unat d \<longrightarrow> d \<notin> set (gbs g e) \<longrightarrow> dblk_at (ram s') d = dblk_at (ram s) d) \<and>
    lchain (\<lambda>k. ib_next (iblk_at (ram s') k)) (hd (gks g e)) (gks g e @ gFI g) \<and>
    lchain (\<lambda>d. u32_at (dblk_at (ram s') d) 0) y (rev (gbs g e) @ gFD g)"
proof -
  note o = open_okD [OF inv f] and l = fs_invD(3) [OF inv]
  note fo = fs_invD(4) [OF inv o(1)]
  note fi = file_okD [OF fo]
  let ?ks = "gks g e" and ?bs = "gbs g e" and ?ifree = "lfd_ifree (lf_dir s)"
  have first: "ld_ilist (lfd_files (lf_dir s) ! e) = hd ?ks" using fi(1) kne by (cases ?ks) auto
  have kv: "\<forall>k \<in> set ?ks. valid_ib K k" "\<forall>k \<in> set (gFI g). valid_ib K k" using listsD(1) [OF l] listsD(2) [OF l o(1)] by blast+
  have dv: "\<forall>d \<in> set ?bs. data_id K S d" using listsD(4) [OF l o(1)] by blast
  have dv': "\<forall>d \<in> set ?bs. valid_db K d" using dv data_id_valid listsD(5) [OF l] by blast
  have FDv: "\<forall>d \<in> set (gFD g). K < unat d" using listsD(3) [OF l] by (auto simp: data_id_def)
  have dk: "iblk_at (ram t) k = gI g k" if "k \<in> set ?ks \<union> set (gFI g)" for k
    unfolding t(1) using that disk_own(1) [OF inv f nd(1)] disk_free(1) [OF inv] by blast
  have dd: "dblk_at (ram t) d = gD g d" if "d \<in> set (gFD g)" for d
    unfolding t(1) using that disk_free(2) [OF inv] by blast
  have nn: "LF_DNULL \<notin> set ?bs" using dv data_id_nonnull listsD(5) [OF l] by blast
  have fd: "file_data (iblk_at (ram t)) ?ks = ?bs"
  proof -
    have "map (\<lambda>k. nonnull (ib_dba (iblk_at (ram t) k))) ?ks = map (\<lambda>k. nonnull (ib_dba (gI g k))) ?ks"
      using dk by simp
    then have "file_data (iblk_at (ram t)) ?ks = file_data (gI g) ?ks" by (simp only: file_data_def)
    then show ?thesis using file_data_blocks [OF fo nn] by simp
  qed
  have dist: "distinct ?ks" "distinct ?bs" using l o(1) unfolding lists_ok_def by auto
  have disj: "set (gFI g) \<inter> set ?ks = {}" "set ?bs \<inter> set (gFD g) = {}" using lists_disjoint [OF l o(1)] by auto
  have c1: "lchain (\<lambda>k. ib_next (iblk_at (ram t) k)) (if ?ks = [] then - 1 else hd ?ks) ?ks"
    using lchain_frame [of ?ks "\<lambda>k. ib_next (iblk_at (ram t) k)" "\<lambda>k. ib_next (gI g k)"] dk fi(1) first kne by simp
  have c2: "lchain (\<lambda>k. ib_next (iblk_at (ram t) k)) ?ifree (gFI g)"
    using lchain_frame [of "gFI g" "\<lambda>k. ib_next (iblk_at (ram t) k)" "\<lambda>k. ib_next (gI g k)"] dk fs_invD(5) [OF inv] by simp
  have c3: "lchain (\<lambda>d. u32_at (dblk_at (ram t) d) 0) (lfd_dfree (lf_dir t)) (gFD g)"
    using lchain_frame [of "gFD g" "\<lambda>d. u32_at (dblk_at (ram t) d) 0" "\<lambda>d. u32_at (gD g d) 0"] dd fs_invD(6) [OF inv]
    unfolding t(2) by simp
  have fk: "?ifree \<notin> set ?ks"
  proof (cases "gFI g")
    case Nil
    then show ?thesis using fs_invD(5) [OF inv] lchain_nonnull [OF fi(1)] by auto
  next
    case (Cons a as)
    then show ?thesis using fs_invD(5) [OF inv] disj(1) by auto
  qed
  obtain s' y where s': "truncate_walk 1400 junk ?ifree (hd ?ks) t = Inr s'" "lf_dir s' = (lf_dir t)\<lparr>lfd_dfree := y\<rparr>"
    "lfltab s' = lfltab t" "lf_mutex s' = lf_mutex t" "lf_dirpresent s' = lf_dirpresent t"
    "\<forall>k. valid_ib K k \<longrightarrow> k \<notin> set ?ks \<longrightarrow> iblk_at (ram s') k = iblk_at (ram t) k"
    "\<forall>y. K < unat y \<longrightarrow> y \<notin> set ?bs \<longrightarrow> dblk_at (ram s') y = dblk_at (ram t) y"
    "lchain (\<lambda>k. ib_next (iblk_at (ram s') k)) (hd ?ks) (?ks @ gFI g)"
    "lchain (\<lambda>d. u32_at (dblk_at (ram s') d) 0) (lfd_dfree (lf_dir s')) (rev ?bs @ gFD g)"
    using truncate_walk_spec [OF t(3) j dist(1) kv(1) fk c1 c2 disj(1) kv(2), unfolded fd, OF dv' dist(2) c3 disj(2) FDv index_count [OF l o(1)]]
    unfolding if_not_P [OF kne] by (elim conjE exE) blast
  have y: "lfd_dfree (lf_dir s') = y" by (simp add: s'(2))
  show ?thesis using s' unfolding y t(1) by blast
qed

text \<open>The files afterwards; \<open>m\<close> is the disk then.\<close>

definition trunc_ghost :: "mem \<Rightarrow> nat \<Rightarrow> fsg \<Rightarrow> fsg" where
  "trunc_ghost m e g = g\<lparr>gI := (\<lambda>k. if k \<in> set (gks g e) then iblk_at m k else gI g k),
     gD := (\<lambda>d. if d \<in> set (gbs g e) then dblk_at m d else gD g d),
     gks := (gks g)(e := []), gbs := (gbs g)(e := []), gFI := gks g e @ gFI g, gFD := rev (gbs g e) @ gFD g\<rparr>"

lemma trunc_ghost_simps [simp]:
  "gks (trunc_ghost m e g) = (gks g)(e := [])" "gbs (trunc_ghost m e g) = (gbs g)(e := [])"
  "gFI (trunc_ghost m e g) = gks g e @ gFI g" "gFD (trunc_ghost m e g) = rev (gbs g e) @ gFD g"
  "gI (trunc_ghost m e g) k = (if k \<in> set (gks g e) then iblk_at m k else gI g k)"
  "gD (trunc_ghost m e g) d = (if d \<in> set (gbs g e) then dblk_at m d else gD g d)"
  by (simp_all add: trunc_ghost_def)

lemma truncated_inv:
  assumes inv: "fs_inv K S g s" and f: "on_entry s f e" and nd: "\<not> lfibdirty (lfltab s f)" "\<not> lfdbdirty (lfltab s f)"
    and m: "\<forall>k. valid_ib K k \<longrightarrow> k \<notin> set (gks g e) \<longrightarrow> iblk_at m k = iblk_at (ram s) k"
      "\<forall>d. K < unat d \<longrightarrow> d \<notin> set (gbs g e) \<longrightarrow> dblk_at m d = dblk_at (ram s) d"
    and ch: "lchain (\<lambda>k. ib_next (iblk_at m k)) k0 (gks g e @ gFI g)"
      "lchain (\<lambda>d. u32_at (dblk_at m d) 0) d0 (rev (gbs g e) @ gFD g)"
    and d: "lfd_files (lf_dir t) = (lfd_files (lf_dir s))[e := (lfd_files (lf_dir s) ! e)\<lparr>ld_ilist := LF_INULL, ld_size := 0\<rparr>]"
      "lfd_nfiles (lf_dir t) = lfd_nfiles (lf_dir s)" "lfd_ifree (lf_dir t) = k0" "lfd_dfree (lf_dir t) = d0"
    and t: "ram t = m" "lfltab t = (lfltab s)(f := (lfltab s f)\<lparr>lfpos := 0, lfinum := LF_INULL, lfdnum := LF_DNULL, lfbyte := LF_BLKSIZ\<rparr>)"
  shows "fs_inv K S (trunc_ghost m e g) t" "on_entry t f e" "nfiles t = nfiles s" "contents (trunc_ghost m e g) t e = []"
    "\<forall>e' < nfiles s. e' \<noteq> e \<longrightarrow> contents (trunc_ghost m e g) t e' = contents g s e'"
proof -
  let ?g = "trunc_ghost m e g"
  let ?c = "(lfltab s f)\<lparr>lfpos := 0, lfinum := LF_INULL, lfdnum := LF_DNULL, lfbyte := LF_BLKSIZ\<rparr>"
  note o = open_okD [OF inv f] and l = fs_invD(3) [OF inv]
  have en: "e < length (lfd_files (lf_dir s))" using o(1) fs_invD(1,2) [OF inv] by (simp add: dir_ok_def)
  have rent: "lfd_files (lf_dir t) ! e = (lfd_files (lf_dir s) ! e)\<lparr>ld_ilist := LF_INULL, ld_size := 0\<rparr>"
    using en by (simp only: d(1) nth_list_update_eq)
  have d': "dir_ok (lf_dir t)" by (rule dir_ok_entry [OF fs_invD(1) [OF inv] en d(1)]) simp
  have ap: "apart (nfiles s) e g ?g" using owner_unique [OF l o(1)] by (auto simp: apart_def)
  have li: "lists_ok K S (nfiles s) ?g" by (rule lists_truncate [OF l o(1)]) simp_all
  have bl: "lf_blocks_ok K S ?g"
    using fs_invD(7) [OF inv] by (simp add: lf_blocks_ok_def iblk_at_def iblk_of_def dblk_at_def)
  have fi: "file_ok (gI ?g) (lfd_files (lf_dir t) ! e) (gks ?g e) (gbs ?g e)"
    unfolding rent by (simp add: file_ok_def LF_INULL_def)
  have FIv: "\<forall>k \<in> set (gFI g). valid_ib K k" using listsD(1) [OF l] by blast
  have FDv: "\<forall>x \<in> set (gFD g). K < unat x" using listsD(3) [OF l] by (auto simp: data_id_def)
  have iv: "iblk_at m k = gI ?g k" if "k \<in> set (gks g e @ gFI g)" for k
    using that disk_free(1) [OF inv] FIv m(1) by auto
  have dv: "dblk_at m x = gD ?g x" if "x \<in> set (rev (gbs g e) @ gFD g)" for x
    using that disk_free(2) [OF inv] FDv m(2) by auto
  have ch1: "lchain (\<lambda>k. ib_next (gI ?g k)) (lfd_ifree (lf_dir t)) (gFI ?g)"
    using lchain_frame [of "gks g e @ gFI g" "\<lambda>k. ib_next (gI ?g k)" "\<lambda>k. ib_next (iblk_at m k)"] iv ch(1) unfolding d(3) by simp
  have ch2: "lchain (\<lambda>d. u32_at (gD ?g d) 0) (lfd_dfree (lf_dir t)) (gFD ?g)"
    using lchain_frame [of "rev (gbs g e) @ gFD g" "\<lambda>d. u32_at (gD ?g d) 0" "\<lambda>d. u32_at (dblk_at m d) 0"] dv ch(2)
    unfolding d(4) by simp
  have dk: "disk_ok K S ?g (ram t) ((lfltab s)(f := ?c))"
  proof -
    have "disk_ok K S ?g m (lfltab s)"
      unfolding disk_ok_def
    proof (intro conjI allI impI)
      fix k assume "valid_ib K k"
      then show "iblk_at m k = gI ?g k \<or> (\<exists>f. lfstate (lfltab s f) = LF_USED \<and> lfibdirty (lfltab s f) \<and> lfinum (lfltab s f) = k)"
        using m(1) disk_okD(1) [OF fs_invD(8) [OF inv], of k] by auto
    next
      fix x assume "data_id K S x"
      then show "dblk_at m x = gD ?g x \<or> (\<exists>f. lfstate (lfltab s f) = LF_USED \<and> lfdbdirty (lfltab s f) \<and> lfdnum (lfltab s f) = x)"
        using m(2) disk_okD(2) [OF fs_invD(8) [OF inv], of x] by (auto simp: data_id_def)
    qed
    then show ?thesis
      unfolding t(1) by (rule disk_ok_fcb) (use f nd in \<open>auto simp: on_entry_def in_use_def\<close>)
  qed
  have oc: "open_ok ?g (lf_dir t) ?c"
  proof -
    have "e < unat (lfd_nfiles (lf_dir t))" unfolding d(2) using o(1) by (simp add: nfiles_def)
    then show ?thesis using f nd unfolding open_ok_def on_entry_def by (intro exI [of _ e]) (simp add: LF_BLKSIZ_def)
  qed
  show "fs_inv K S ?g t" "on_entry t f e" "nfiles t = nfiles s"
    "\<forall>e' < nfiles s. e' \<noteq> e \<longrightarrow> contents ?g t e' = contents g s e'"
    by (rule inv_step [OF inv f ap li bl d' _ _ fi ch1 ch2 dk t(2) oc]; use f d(1,2) in \<open>simp add: on_entry_def in_use_def\<close>)+
  show "contents ?g t e = []" by (simp only: contents_def rent) simp
qed

lemma lftruncate_spec:
  assumes inv: "fs_inv K S g s" and f: "on_entry s f e" and j: "length junk = 508" and ne: "contents g s e \<noteq> []"
  shows "\<exists>g' s'. lftruncate junk f s = Inr (OK_st, s') \<and> fs_inv K S g' s' \<and> on_entry s' f e \<and> contents g' s' e = [] \<and>
    (\<forall>e' < nfiles s. e' \<noteq> e \<longrightarrow> contents g' s' e' = contents g s e') \<and> nfiles s' = nfiles s \<and> others_same f s s' \<and>
    lfmutex (lfltab s' f) = lfmutex (lfltab s f) \<and> lfpos (lfltab s' f) = 0 \<and>
    gks g' = (gks g)(e := []) \<and> gbs g' = (gbs g)(e := []) \<and> gFI g' = gks g e @ gFI g \<and> gFD g' = rev (gbs g e) @ gFD g"
proof -
  obtain s1 where s1: "flush_dirty f s = Inr s1" "fs_inv K S g s1" "on_entry s1 f e"
    "lfltab s1 f = (lfltab s f)\<lparr>lfibdirty := False, lfdbdirty := False\<rparr>" "lf_dir s1 = lf_dir s" "others_same f s s1"
    using flush_dirty_spec [OF inv f] by blast
  have n1: "nfiles s1 = nfiles s" by (simp add: nfiles_def s1(5))
  note o = open_okD [OF s1(2,3)]
  note fi = file_okD [OF fs_invD(4) [OF s1(2) o(1)]]
  let ?ks = "gks g e" and ?ent = "lfd_files (lf_dir s) ! e"
  have sz: "ld_size ?ent \<noteq> 0" using ne length_contents(1) [OF s1(2) o(1)] by (auto simp: contents_def s1(5))
  have "0 < unat (ld_size ?ent)" using sz by (simp add: unat_gt_0)
  then have kne: "?ks \<noteq> []" using fi(4,6) by (auto simp: s1(5))
  have first: "ld_ilist ?ent = hd ?ks" using fi(1) kne by (cases ?ks) (auto simp: s1(5))
  have nd: "\<not> lfibdirty (lfltab s1 f)" "\<not> lfdbdirty (lfltab s1 f)" using s1(4) by simp_all
  have en: "e < length (lfd_files (lf_dir s))" using o(1) fs_invD(1,2) [OF s1(2)] by (simp add: dir_ok_def s1(5))
  let ?u = "\<lambda>c. c\<lparr>lfpos := 0, lfinum := LF_INULL, lfdnum := LF_DNULL, lfbyte := LF_BLKSIZ\<rparr>"
  let ?s3 = "(upd_entry e (\<lambda>d. d\<lparr>ld_ilist := LF_INULL, ld_size := 0\<rparr>) (upd_fcb f ?u s1))\<lparr>lf_dirdirty := True\<rparr>"
  have s3: "ram ?s3 = ram s1" "lfltab ?s3 = (lfltab s1)(f := ?u (lfltab s1 f))"
    "lf_dir ?s3 = (lf_dir s)\<lparr>lfd_files := (lfd_files (lf_dir s))[e := ?ent\<lparr>ld_ilist := LF_INULL, ld_size := 0\<rparr>]\<rparr>"
    "lf_mutex ?s3 = lf_mutex s1" "lf_dirpresent ?s3 = lf_dirpresent s1"
    by (simp_all add: upd_entry_def upd_dir_def s1(5)) (simp add: upd_fcb_def)
  have d3: "dir_ok (lf_dir ?s3)"
    by (rule dir_ok_entry [OF fs_invD(1) [OF s1(2), unfolded s1(5)] en, of _ "?ent\<lparr>ld_ilist := LF_INULL, ld_size := 0\<rparr>"])
      (unfold s3(3), simp_all)
  have df: "lfd_dfree (lf_dir ?s3) = lfd_dfree (lf_dir s1)" unfolding s3(3) by (simp add: s1(5))
  obtain s4 y where s4: "truncate_walk 1400 junk (lfd_ifree (lf_dir s)) (hd ?ks) ?s3 = Inr s4" "lf_dir s4 = (lf_dir ?s3)\<lparr>lfd_dfree := y\<rparr>"
    "lfltab s4 = lfltab ?s3" "lf_mutex s4 = lf_mutex ?s3" "lf_dirpresent s4 = lf_dirpresent ?s3"
    "\<forall>k. valid_ib K k \<longrightarrow> k \<notin> set ?ks \<longrightarrow> iblk_at (ram s4) k = iblk_at (ram s1) k"
    "\<forall>d. K < unat d \<longrightarrow> d \<notin> set (gbs g e) \<longrightarrow> dblk_at (ram s4) d = dblk_at (ram s1) d"
    "lchain (\<lambda>k. ib_next (iblk_at (ram s4) k)) (hd ?ks) (?ks @ gFI g)"
    "lchain (\<lambda>d. u32_at (dblk_at (ram s4) d) 0) y (rev (gbs g e) @ gFD g)"
    using truncate_frees [OF s1(2,3) nd j kne s3(1) df d3] unfolding s1(5) by (elim conjE exE) blast
  let ?s = "(upd_dir (\<lambda>d. d\<lparr>lfd_ifree := hd ?ks\<rparr>) s4)\<lparr>lf_dirdirty := True\<rparr>"
  have ent: "entry_of f s = Inr e" using f by (simp add: entry_of_def on_entry_def)
  have run: "lftruncate junk f s = Inr (OK_st, ?s)"
    using sz s4(1) by (simp add: lftruncate_def ent s1(1,5) Let_def first)
  have dir: "lf_dir ?s = (lf_dir ?s3)\<lparr>lfd_dfree := y, lfd_ifree := hd ?ks\<rparr>" by (simp add: upd_dir_def s4(2))
  have st: "lfd_files (lf_dir ?s) = (lfd_files (lf_dir s1))[e := (lfd_files (lf_dir s1) ! e)\<lparr>ld_ilist := LF_INULL, ld_size := 0\<rparr>]"
    "lfd_nfiles (lf_dir ?s) = lfd_nfiles (lf_dir s1)" "lfd_ifree (lf_dir ?s) = hd ?ks" "lfd_dfree (lf_dir ?s) = y"
    "ram ?s = ram s4" "lfltab ?s = (lfltab s1)(f := ?u (lfltab s1 f))"
    unfolding dir s3(3) by (simp_all add: upd_dir_def s1(5) s4(3) s3(2))
  note i = truncated_inv [OF s1(2,3) nd s4(6,7,8,9) st]
  have "contents g s1 e' = contents g s e'" for e' by (simp add: contents_def s1(5))
  moreover have "others_same f s ?s"
  proof -
    have "lfltab ?s f' = lfltab s f'" if "f' \<noteq> f" for f'
      using that s1(6) unfolding st(6) fun_upd_other [OF that] by (simp add: others_same_def)
    moreover have "lf_mutex ?s = lf_mutex s4" "lf_dirpresent ?s = lf_dirpresent s4" by (simp_all add: upd_dir_def)
    then have "lf_mutex ?s = lf_mutex s" "lf_dirpresent ?s = lf_dirpresent s"
      using s1(6) unfolding s4(4,5) s3(4,5) by (simp_all add: others_same_def)
    ultimately show ?thesis unfolding others_same_def by blast
  qed
  moreover have "lfmutex (lfltab ?s f) = lfmutex (lfltab s f)" "lfpos (lfltab ?s f) = 0" unfolding st(6) fun_upd_same s1(4) by simp_all
  ultimately show ?thesis using run i n1 by (intro exI [of _ "trunc_ghost (ram s4) e g"] exI [of _ ?s]) simp
qed

end
