(* ===== verification/Lfs_Files.thy ===== *)
theory Lfs_Files
  imports Lfs_Trunc
begin

text \<open>
  Whole programs on open files of the local file system: sequences of calls, and files on a disk that \<^verbatim>\<open>lfscreate\<close> made.
\<close>

section \<open>Calls on blocks of bytes, truncation\<close>

lemma lflread_spec:
  assumes f: "file_is K S g s f e (bs, p)"
  shows "\<exists>g' s'. lflread f cnt s = Inr (fst (byte_result (LFread cnt) (bs, p)), snd (byte_result (LFread cnt) (bs, p)), s') \<and>
    file_is K S g' s' f e (byte_next (LFread cnt) (bs, p)) \<and> only_file f e g s g' s'"
proof (cases "cnt < 0")
  case True
  then show ?thesis using f file_length(2) [OF f]
    by (intro exI [of _ g] exI [of _ s]) (simp add: lflread_def byte_result_def byte_next_def read_result_def only_file_def min_def)
next
  case False
  then show ?thesis using lf_read_loop_spec [OF f, of "nat cnt" "[]"]
    by (simp add: lflread_def byte_result_def byte_next_def read_result_def Let_def)
qed

lemma lflwrite_spec:
  assumes f: "file_is K S g s f e (bs, p)" and room: "p + length xs \<le> file_room g e"
  shows "\<exists>g' s'. lflwrite f xs (int (length xs)) s = Inr (int (length xs), s') \<and>
    file_is K S g' s' f e (write_all bs p xs, p + length xs) \<and> only_file f e g s g' s'"
  using lf_write_loop_spec [OF f room, of "int (length xs)"] by (simp add: lflwrite_def)

lemma lflcontrol_trunc_spec:
  assumes f: "file_is K S g s f e (bs, p)" and j: "length junk = 508"
  shows "\<exists>g' s'. lflcontrol junk f LF_CTL_TRUNC s = Inr (OK_st, s') \<and> file_is K S g' s' f e ([], 0) \<and> only_file f e g s g' s'"
proof -
  have i: "contents g s e = bs" "unat (lfpos (lfltab s f)) = p" "0 < lf_mutex s" using f by (simp_all add: file_is_def)
  note l = file_length [OF f] and k = locked_file [OF f]
  let ?t = "(locked f s)\<lparr>lf_mutex := lf_mutex s - 1\<rparr>"
  have w: "wait_dir (locked f s) = Inr ?t" using i(3) by (simp add: wait_dir_def)
  have inv: "fs_inv K S g ?t" "on_entry ?t f e"
    using inv_same [OF k(4), of ?t] k(5) by (simp_all add: on_entry_def in_use_def)
  have ct: "contents g ?t e' = contents g s e'" for e' by (simp add: contents_def)
  have nt: "nfiles ?t = nfiles s" by (simp add: nfiles_def)
  have "\<exists>g' s'. lftruncate junk f ?t = Inr (OK_st, s') \<and> fs_inv K S g' s' \<and> on_entry s' f e \<and> contents g' s' e = [] \<and>
    (\<forall>e' < nfiles s. e' \<noteq> e \<longrightarrow> contents g' s' e' = contents g s e') \<and> nfiles s' = nfiles s \<and> others_same f ?t s' \<and>
    lfmutex (lfltab s' f) = lfmutex (lfltab ?t f) \<and> lfpos (lfltab s' f) = 0 \<and> file_room g' e = file_room g e"
  proof (cases "bs = []")
    case True
    then have "ld_size (lfd_files (lf_dir s) ! e) = 0" using l(1) by (simp add: unat_eq_zero)
    moreover have "lfpos (lfltab s f) = 0" using l(2) i(2) True by (simp add: unat_eq_zero)
    moreover have "entry_of f ?t = Inr e" using k(3) by (simp add: entry_of_def)
    ultimately show ?thesis using inv i(1) True nt
      by (intro exI [of _ g] exI [of _ ?t]) (simp add: lftruncate_def ct)
  next
    case False
    then have "contents g ?t e \<noteq> []" by (simp add: ct i(1))
    from lftruncate_spec [OF inv j this] show ?thesis unfolding ct nt
      by (elim ex_forward) (auto simp: file_room_def add.commute)
  qed
  then obtain g' s' where s': "lftruncate junk f ?t = Inr (OK_st, s')" "fs_inv K S g' s'" "on_entry s' f e" "contents g' s' e = []"
    "\<forall>e' < nfiles s. e' \<noteq> e \<longrightarrow> contents g' s' e' = contents g s e'" "nfiles s' = nfiles s" "others_same f ?t s'"
    "lfmutex (lfltab s' f) = lfmutex (lfltab ?t f)" "lfpos (lfltab s' f) = 0" "file_room g' e = file_room g e"
    by blast
  let ?s = "signal_dir s'"
  have inv': "fs_inv K S g' ?s" "on_entry ?s f e"
    using inv_same [OF s'(2), of ?s] s'(3) by (simp_all add: signal_dir_def on_entry_def in_use_def)
  have "lflcontrol junk f LF_CTL_TRUNC s = Inr (OK_st, signal_file f ?s)"
    by (simp add: lflcontrol_def k(1,2) w s'(1))
  moreover have "file_is K S g' (signal_file f ?s) f e ([], 0) \<and> only_file f e g s g' (signal_file f ?s)"
    by (rule finish_call [OF f inv'])
      (use s' in \<open>auto simp: signal_dir_def contents_def nfiles_def others_same_def\<close>)
  ultimately show ?thesis by blast
qed

section \<open>Sequences of calls\<close>

definition lf_call :: "nat \<Rightarrow> lf_op \<Rightarrow> lfs \<Rightarrow> ((int \<times> byte list) \<times> lfs) res" where
  "lf_call f op s = (let ret = (\<lambda>(r, s). Inr ((r, []), s)) in case op of
       LFgetc \<Rightarrow> bind_res (lflgetc f s) ret
     | LFputc ch \<Rightarrow> bind_res (lflputc f ch s) ret
     | LFseek q \<Rightarrow> bind_res (lflseek f q s) ret
     | LFread cnt \<Rightarrow> bind_res (lflread f cnt s) (\<lambda>(r, xs, s). Inr ((r, xs), s))
     | LFwrite xs \<Rightarrow> bind_res (lflwrite f xs (int (length xs)) s) ret
     | LFtrunc junk \<Rightarrow> bind_res (lflcontrol junk f LF_CTL_TRUNC s) ret)"

primrec lf_calls :: "nat \<Rightarrow> lf_op list \<Rightarrow> lfs \<Rightarrow> ((int \<times> byte list) list \<times> lfs) res" where
  "lf_calls f [] s = Inr ([], s)"
| "lf_calls f (op # ops) s =
     bind_res (lf_call f op s) (\<lambda>(r, s). bind_res (lf_calls f ops s) (\<lambda>(rs, s). Inr (r # rs, s)))"

text \<open>A call is within the room of \<open>R\<close> bytes that the disk has for the file.\<close>

definition within :: "nat \<Rightarrow> lf_op \<Rightarrow> byte list \<times> nat \<Rightarrow> bool" where
  "within R op = (\<lambda>(bs, p). case op of
       LFputc ch \<Rightarrow> p < R | LFwrite xs \<Rightarrow> p + length xs \<le> R | LFtrunc junk \<Rightarrow> length junk = 508 | _ \<Rightarrow> True)"

primrec byte_calls :: "lf_op list \<Rightarrow> byte list \<times> nat \<Rightarrow> (int \<times> byte list) list \<times> byte list \<times> nat" where
  "byte_calls [] q = ([], q)"
| "byte_calls (op # ops) q = (let (rs, q') = byte_calls ops (byte_next op q) in (byte_result op q # rs, q'))"

primrec all_within :: "nat \<Rightarrow> lf_op list \<Rightarrow> byte list \<times> nat \<Rightarrow> bool" where
  "all_within R [] q \<longleftrightarrow> True"
| "all_within R (op # ops) q \<longleftrightarrow> within R op q \<and> all_within R ops (byte_next op q)"

lemma lf_call_spec:
  assumes f: "file_is K S g s f e q" and r: "within (file_room g e) op q"
  shows "\<exists>g' s'. lf_call f op s = Inr (byte_result op q, s') \<and> file_is K S g' s' f e (byte_next op q) \<and> only_file f e g s g' s'"
proof -
  obtain bs p where q: "q = (bs, p)" by (cases q)
  note f' = f [unfolded q]
  have le: "p \<le> length bs" by (rule file_length(2) [OF f'])
  have sp: "snd (byte_result op (bs, p)) = []" if "\<forall>cnt. op \<noteq> LFread cnt" using that by (cases op) (simp_all add: byte_result_def)
  show ?thesis
  proof (cases op)
    case LFgetc
    then show ?thesis using lflgetc_spec [OF f'] sp unfolding q by (auto simp: lf_call_def prod_eq_iff)
  next
    case (LFputc ch)
    then show ?thesis using lflputc_spec [OF f', of ch] r unfolding q
      by (auto simp: lf_call_def within_def byte_result_def byte_next_def write_at_eq [OF le])
  next
    case (LFseek x)
    then show ?thesis using lflseek_spec [OF f', of x] sp unfolding q by (auto simp: lf_call_def prod_eq_iff)
  next
    case (LFread cnt)
    then show ?thesis using lflread_spec [OF f', of cnt] unfolding q by (auto simp: lf_call_def)
  next
    case (LFwrite xs)
    then show ?thesis using lflwrite_spec [OF f', of xs] r unfolding q
      by (auto simp: lf_call_def within_def byte_result_def byte_next_def)
  next
    case (LFtrunc junk)
    then show ?thesis using lflcontrol_trunc_spec [OF f', of junk] r unfolding q
      by (auto simp: lf_call_def within_def byte_result_def byte_next_def)
  qed
qed

lemma lf_calls_spec:
  "file_is K S g s f e q \<Longrightarrow> all_within (file_room g e) ops q \<Longrightarrow>
   \<exists>g' s'. lf_calls f ops s = Inr (fst (byte_calls ops q), s') \<and> file_is K S g' s' f e (snd (byte_calls ops q)) \<and> only_file f e g s g' s'"
proof (induction ops arbitrary: g s q)
  case Nil
  then show ?case by (intro exI [of _ g] exI [of _ s]) (simp add: only_file_def)
next
  case (Cons op ops)
  obtain g1 s1 where s1: "lf_call f op s = Inr (byte_result op q, s1)" "file_is K S g1 s1 f e (byte_next op q)" "only_file f e g s g1 s1"
    using lf_call_spec [OF Cons.prems(1), of op] Cons.prems(2) by auto
  have "all_within (file_room g1 e) ops (byte_next op q)" using s1(3) Cons.prems(2) by (simp add: only_file_def)
  from Cons.IH [OF s1(2) this] obtain g' s' where s': "lf_calls f ops s1 = Inr (fst (byte_calls ops (byte_next op q)), s')"
    "file_is K S g' s' f e (snd (byte_calls ops (byte_next op q)))" "only_file f e g1 s1 g' s'"
    by blast
  then show ?case using s1(1) only_file_trans [OF s1(3) s'(3)]
    by (intro exI [of _ g'] exI [of _ s']) (simp add: split_beta)
qed

text \<open>Files that are open at the same time do not see each other.\<close>

lemma other_file_is:
  assumes k: "only_file f e g s g' s'" and f: "file_is K S g s f e q" "file_is K S g' s' f e q'"
    and o: "file_is K S g s f2 e2 q2" and ne: "f2 \<noteq> f"
  shows "file_is K S g' s' f2 e2 q2"
proof -
  obtain bs p where q2: "q2 = (bs, p)" by (cases q2)
  have i: "fs_inv K S g s" "on_entry s f2 e2" "on_entry s f e" using o f(1) by (auto simp: file_is_def)
  have "e2 \<noteq> e" using entry_unique [OF i(1)] i(2,3) ne by blast
  moreover have "e2 < nfiles s" by (rule open_okD(1) [OF i(1,2)])
  moreover have "lfltab s' f2 = lfltab s f2" "lf_mutex s' = lf_mutex s" using k ne by (simp_all add: only_file_def others_same_def)
  ultimately show ?thesis using o f(2) k unfolding q2
    by (auto simp: file_is_def only_file_def on_entry_def in_use_def)
qed

end
