(* ===== verification/Lfs_Open.thy ===== *)
theory Lfs_Open
  imports Lfs_Files
begin

text \<open>
  Opening a file that does not exist yet, and a disk with empty free lists of its own: the states from which the calls of
  the theory \<open>Lfs_Files\<close> start.
\<close>

section \<open>A new entry in the directory\<close>

lemma length_copy_name: "length name < LF_NAME_LEN \<Longrightarrow> length arr = LF_NAME_LEN \<Longrightarrow> length (lf_copy_name name arr) = LF_NAME_LEN"
  by (simp add: lf_copy_name_def LF_NAME_LEN_def)

definition fresh_entry :: "byte list \<Rightarrow> ldentry \<Rightarrow> ldentry" where
  "fresh_entry name d = d\<lparr>ld_size := 0, ld_name := lf_copy_name name (ld_name d), ld_ilist := LF_INULL\<rparr>"

definition add_entry :: "byte list \<Rightarrow> lfs \<Rightarrow> lfs" where
  "add_entry name s = upd_entry (nfiles s) (fresh_entry name) (upd_dir (\<lambda>d. d\<lparr>lfd_nfiles := lfd_nfiles d + 1\<rparr>) s)"

definition add_ghost :: "nat \<Rightarrow> fsg \<Rightarrow> fsg" where
  "add_ghost n g = g\<lparr>gks := (gks g)(n := []), gbs := (gbs g)(n := [])\<rparr>"

lemma add_entry_simps [simp]:
  "lfltab (add_entry name s) = lfltab s" "ram (add_entry name s) = ram s" "lf_mutex (add_entry name s) = lf_mutex s"
  "lf_dirpresent (add_entry name s) = lf_dirpresent s"
  "lfd_files (lf_dir (add_entry name s)) = (lfd_files (lf_dir s))[nfiles s := fresh_entry name (lfd_files (lf_dir s) ! nfiles s)]"
  "lfd_ifree (lf_dir (add_entry name s)) = lfd_ifree (lf_dir s)" "lfd_dfree (lf_dir (add_entry name s)) = lfd_dfree (lf_dir s)"
  "lfd_nfiles (lf_dir (add_entry name s)) = lfd_nfiles (lf_dir s) + 1"
  by (simp_all add: add_entry_def upd_entry_def upd_dir_def)

lemma lists_add_entry:
  assumes "lists_ok K S n g"
  shows "lists_ok K S (Suc n) (add_ghost n g)"
proof -
  have "(\<Union>e < Suc n. set (gks (add_ghost n g) e)) = (\<Union>e < n. set (gks g e))"
    "(\<Union>e < Suc n. set (gbs (add_ghost n g) e)) = (\<Union>e < n. set (gbs g e))"
    by (simp_all add: add_ghost_def lessThan_Suc)
  then show ?thesis using assms unfolding lists_ok_def by (simp add: add_ghost_def less_Suc_eq)
qed

lemma add_entry_inv:
  assumes inv: "fs_inv K S g s" and n: "nfiles s < LF_NUM_DIR_ENT" and nm: "length name < LF_NAME_LEN"
  shows "fs_inv K S (add_ghost (nfiles s) g) (add_entry name s)" "nfiles (add_entry name s) = Suc (nfiles s)"
    "e < nfiles s \<Longrightarrow> contents (add_ghost (nfiles s) g) (add_entry name s) e = contents g s e"
proof -
  let ?g = "add_ghost (nfiles s) g" and ?s = "add_entry name s" and ?e = "lfd_files (lf_dir s) ! nfiles s"
  have en: "nfiles s < length (lfd_files (lf_dir s))" using fs_invD(1) [OF inv] n by (simp add: dir_ok_def)
  show nf: "nfiles ?s = Suc (nfiles s)"
    using n by (simp add: nfiles_def LF_NUM_DIR_ENT_def) (simp add: unat_word_ariths)
  have same: "lfd_files (lf_dir ?s) ! e = lfd_files (lf_dir s) ! e" if "e < nfiles s" for e using that by simp
  have new: "lfd_files (lf_dir ?s) ! nfiles s = fresh_entry name ?e" using en by simp
  have g: "gks ?g e = gks g e" "gbs ?g e = gbs g e" if "e < nfiles s" for e using that by (simp_all add: add_ghost_def)
  have g': "gI ?g = gI g" "gD ?g = gD g" "gFI ?g = gFI g" "gFD ?g = gFD g" "gks ?g (nfiles s) = []" "gbs ?g (nfiles s) = []"
    by (simp_all add: add_ghost_def)
  show "contents ?g ?s e = contents g s e" if "e < nfiles s" using that same g by (simp add: contents_def g')
  have nl: "length (ld_name ?e) = LF_NAME_LEN" using fs_invD(1) [OF inv] en by (simp add: dir_ok_def)
  have d: "dir_ok (lf_dir ?s)"
  proof -
    have "length (ld_name x) = LF_NAME_LEN" if "x \<in> set (lfd_files (lf_dir ?s))" for x
    proof -
      have "x = fresh_entry name ?e \<or> x \<in> set (lfd_files (lf_dir s))"
        using that set_update_subset_insert [of "lfd_files (lf_dir s)" "nfiles s" "fresh_entry name ?e"] by auto
      then show ?thesis using fs_invD(1) [OF inv] length_copy_name [OF nm nl] by (auto simp: dir_ok_def fresh_entry_def)
    qed
    then show ?thesis using fs_invD(1) [OF inv] by (simp add: dir_ok_def)
  qed
  have f: "file_ok (gI ?g) (lfd_files (lf_dir ?s) ! e) (gks ?g e) (gbs ?g e)" if "e < Suc (nfiles s)" for e
  proof (cases "e = nfiles s")
    case True
    then show ?thesis unfolding True new g' by (simp add: file_ok_def fresh_entry_def LF_INULL_def)
  next
    case False
    then have e: "e < nfiles s" using that by simp
    show ?thesis unfolding same [OF e] g [OF e] g' by (rule fs_invD(4) [OF inv e])
  qed
  have o: "open_ok ?g (lf_dir ?s) (lfltab s f')" if "in_use s f'" for f'
  proof -
    have c: "open_ok g (lf_dir s) (lfltab s f')" by (rule fs_invD(9) [OF inv that])
    then obtain e where "lfdirptr (lfltab s f') = Some e" "e < nfiles s" by (auto simp: open_ok_def nfiles_def)
    moreover have "e < unat (lfd_nfiles (lf_dir s) + 1)" using \<open>e < nfiles s\<close> nf by (simp add: nfiles_def)
    ultimately show ?thesis using c same [of e] g [of e] unfolding open_ok_def g' by auto
  qed
  have u: "in_use ?s f' = in_use s f'" for f' by (simp add: in_use_def)
  show "fs_inv K S ?g ?s"
    unfolding fs_inv_def nf u
    using d n lists_add_entry [OF fs_invD(3) [OF inv]] f fs_invD(5-8) [OF inv] o fs_invD(10) [OF inv]
    by (simp add: g' lf_blocks_ok_def disk_ok_def)
qed

section \<open>Opening\<close>

definition fresh_fcb :: "byte list \<Rightarrow> u32 \<Rightarrow> nat \<Rightarrow> lflcblk \<Rightarrow> lflcblk" where
  "fresh_fcb name mbits e c = c\<lparr>lfstate := LF_USED, lfdirptr := Some e, lfmode := mbits AND LF_MODE_RW, lfpos := 0,
     lfname := lf_copy_name name (lfname c), lfinum := LF_INULL, lfdnum := LF_DNULL, lfbyte := LF_BLKSIZ, lfibdirty := False,
     lfdbdirty := False\<rparr>"

lemma open_inv:
  assumes inv: "fs_inv K S g s" and f: "\<not> in_use s f" and e: "e < nfiles s"
    and free: "\<And>f'. in_use s f' \<Longrightarrow> lfdirptr (lfltab s f') \<noteq> Some e"
  shows "fs_inv K S g (upd_fcb f (fresh_fcb name mbits e) s)" "on_entry (upd_fcb f (fresh_fcb name mbits e) s) f e"
proof -
  let ?c = "fresh_fcb name mbits e (lfltab s f)" and ?s = "upd_fcb f (fresh_fcb name mbits e) s"
  have c: "lfstate ?c = LF_USED" "lfdirptr ?c = Some e" by (simp_all add: fresh_fcb_def)
  have t: "lfltab ?s = (lfltab s)(f := ?c)" by (simp add: upd_fcb_def)
  show "on_entry ?s f e" using c by (simp add: on_entry_def in_use_def)
  have m: "disk_ok K S g (ram s) ((lfltab s)(f := ?c))"
    by (rule disk_ok_fcb [OF fs_invD(8) [OF inv] c(1)]) (use f in \<open>simp_all add: in_use_def\<close>)
  have oc: "open_ok g (lf_dir s) ?c" using e by (simp add: open_ok_def fresh_fcb_def nfiles_def LF_BLKSIZ_def)
  have u: "in_use ?s f' \<longleftrightarrow> f' = f \<or> in_use s f'" for f'
    using c(1) by (cases "f' = f") (simp_all add: in_use_def)
  have o: "open_ok g (lf_dir s) (lfltab ?s f')" if "in_use ?s f'" for f'
    using that oc fs_invD(9) [OF inv] unfolding u t by (cases "f' = f") simp_all
  have p: "lfdirptr (lfltab ?s f1) \<noteq> lfdirptr (lfltab ?s f2)" if "in_use ?s f1" "in_use ?s f2" "f1 \<noteq> f2" for f1 f2
    using that free fs_invD(10) [OF inv] c(2) unfolding u t by (auto dest: sym)
  have n: "nfiles ?s = nfiles s" by (simp add: nfiles_def)
  have d: "disk_ok K S g (ram ?s) (lfltab ?s)" unfolding t using m by simp
  show "fs_inv K S g ?s"
    unfolding fs_inv_def n using fs_invD(1-7) [OF inv] o p d by simp
qed

lemma lfsopen_new:
  assumes nm: "length name < LF_NAME_LEN" and mb: "lfgetmode mode \<noteq> - 1" "lfgetmode mode AND LF_MODE_O = 0"
    and op: "\<forall>i < Nlfl. lfstate (lfltab s i) \<noteq> LF_FREE \<longrightarrow> \<not> name_match name (lfname (lfltab s i))"
    and slot: "List.find (\<lambda>i. lfstate (lfltab s i) = LF_FREE) [0..<Nlfl] = Some f" "0 < lfmutex (lfltab s f)"
    and mu: "0 < lf_mutex s"
    and dir: "get_directory (s\<lparr>lf_mutex := lf_mutex s - 1\<rparr>) = Inr (OK_st, t)" and inv: "fs_inv K S g t"
    and t: "lfltab t = lfltab s" "lf_mutex t = lf_mutex s - 1"
    and nf: "dir_find name (lf_dir t) = Inr None" "nfiles t < LF_NUM_DIR_ENT"
  shows "\<exists>s'. lfsopen name mode s = Inr (lfdev (lfltab s f), s') \<and>
    file_is K S (add_ghost (nfiles t) g) s' f (nfiles t) ([], 0) \<and> nfiles s' = Suc (nfiles t) \<and>
    (\<forall>e < nfiles t. contents (add_ghost (nfiles t) g) s' e = contents g t e)"
proof -
  let ?g = "add_ghost (nfiles t) g" and ?a = "add_entry name t"
  let ?s = "signal_dir (upd_fcb f (fresh_fcb name (lfgetmode mode) (nfiles t)) ?a)"
  note a = add_entry_inv [OF inv nf(2) nm]
  have fr: "lfstate (lfltab s f) = LF_FREE" using slot(1) by (auto simp: find_Some_iff)
  have nu: "\<not> in_use ?a f" using fr t(1) by (simp add: in_use_def)
  have free: "lfdirptr (lfltab ?a f') \<noteq> Some (nfiles t)" if "in_use ?a f'" for f'
  proof -
    have "in_use t f'" using that by (simp add: in_use_def)
    then have "open_ok g (lf_dir t) (lfltab t f')" by (rule fs_invD(9) [OF inv])
    then show ?thesis by (auto simp: open_ok_def nfiles_def)
  qed
  have "nfiles t < nfiles ?a" by (simp add: a(2))
  note i = open_inv [OF a(1) nu this free, of name "lfgetmode mode"]
  have fi: "fs_inv K S ?g ?s" "on_entry ?s f (nfiles t)"
    using inv_same [OF i(1), of ?s] i(2) by (simp_all add: signal_dir_def on_entry_def in_use_def)
  have "sint (lfd_nfiles (lf_dir t)) = int (nfiles t)"
    unfolding nfiles_def by (rule sint_small) (use nf(2) in \<open>simp add: nfiles_def LF_NUM_DIR_ENT_def\<close>)
  then have "find_or_add name (lfgetmode mode) t = Inr (Some (nfiles t), ?a)"
    using mb(2) nf by (simp add: find_or_add_def Let_def add_entry_def fresh_entry_def [abs_def])
  then have "lfsopen name mode s = Inr (lfdev (lfltab s f), ?s)"
    using nm mb(1) op slot(1) mu dir t(1)
    by (auto simp: lfsopen_def wait_dir_def OK_st_def SYSERR_st_def Let_def fresh_fcb_def [abs_def])
  moreover have "file_is K S ?g ?s f (nfiles t) ([], 0)"
    using fi slot(2) t mu nf(2) fs_invD(1) [OF inv]
    by (simp add: file_is_def signal_dir_def contents_def add_ghost_def fresh_fcb_def dir_ok_def)
  moreover have "nfiles ?s = Suc (nfiles t)" using a(2) by (simp add: nfiles_def signal_dir_def)
  moreover have "contents ?g ?s e = contents g t e" if "e < nfiles t" for e
    using a(3) [OF that] by (simp add: contents_def signal_dir_def)
  ultimately show ?thesis by blast
qed

section \<open>A disk without files\<close>

definition empty_ghost :: "nat \<Rightarrow> nat \<Rightarrow> mem \<Rightarrow> fsg" where
  "empty_ghost K S m = \<lparr>gI = iblk_at m, gD = dblk_at m, gks = (\<lambda>_. []), gbs = (\<lambda>_. []),
     gFI = map word_of_nat [0..<7 * K], gFD = map word_of_nat [K + 1..<S]\<rparr>"

lemma set_map_word:
  assumes "b < 4294967296"
  shows "set (map word_of_nat [a..<b]) = {k :: u32. a \<le> unat k \<and> unat k < b}" "distinct (map word_of_nat [a..<b] :: u32 list)"
proof -
  have u: "unat (word_of_nat i :: u32) = i" if "i < b" for i using that assms by (intro unat_nat32) simp
  show "set (map word_of_nat [a..<b]) = {k :: u32. a \<le> unat k \<and> unat k < b}"
  proof
    show "{k :: u32. a \<le> unat k \<and> unat k < b} \<subseteq> set (map word_of_nat [a..<b])"
    proof
      fix k :: u32 assume "k \<in> {k. a \<le> unat k \<and> unat k < b}"
      then have "unat k \<in> {a..<b}" "k = word_of_nat (unat k)" by simp_all
      then show "k \<in> set (map word_of_nat [a..<b])" by (metis image_eqI set_map set_upt)
    qed
  qed (use u in auto)
  have "inj_on (word_of_nat :: nat \<Rightarrow> u32) {a..<b}" by (rule inj_onI) (metis atLeastLessThan_iff u)
  then show "distinct (map word_of_nat [a..<b] :: u32 list)" by (simp add: distinct_map)
qed

lemma empty_disk_inv:
  assumes c: "created K S m" and K: "1 \<le> K" "K + 2 \<le> S" "S \<le> RM_BLKS"
    and d: "dir_ok (lf_dir s)" "lfd_nfiles (lf_dir s) = 0" "lfd_ifree (lf_dir s) = 0" "lfd_dfree (lf_dir s) = word_of_nat (K + 1)"
    and u: "\<forall>f. \<not> in_use s f"
    and m: "\<forall>k. valid_ib K k \<longrightarrow> iblk_at (ram s) k = iblk_at m k" "\<forall>x. data_id K S x \<longrightarrow> dblk_at (ram s) x = dblk_at m x"
  shows "fs_inv K S (empty_ghost K S m) s"
proof -
  have S: "S \<le> 200" "7 * K < 4294967296" "S < 4294967296" using K by (simp_all add: RM_BLKS_def)
  have v: "{k. unat k < 7 * K} = {k. valid_ib K k}" "{k. K < unat k \<and> unat k < S} = {d. data_id K S d}"
    using K by (auto simp: valid_ib_def data_id_def)
  have l: "lists_ok K S 0 (empty_ghost K S m)"
    unfolding lists_ok_def empty_ghost_def fsg.simps
    using K set_map_word [OF S(2), of 0] set_map_word [OF S(3), of "K + 1"]
    by (simp add: Suc_le_eq v)
  have "disk_ok K S (empty_ghost K S m) (ram s) (lfltab s)"
    using m by (simp add: disk_ok_def empty_ghost_def)
  moreover have "lf_blocks_ok K S (empty_ghost K S m)"
    by (simp add: lf_blocks_ok_def empty_ghost_def iblk_at_def iblk_of_def dblk_at_def)
  ultimately show ?thesis
    using d l u created_free_lists [OF c K] by (simp add: fs_inv_def nfiles_def empty_ghost_def)
qed

text \<open>\<^verbatim>\<open>lfscreate\<close> leaves out the numbers that identify a file system, so its disks cannot be opened as they are.\<close>

lemma lfsopen_rejects_created:
  assumes c: "created K S (ram s)" and s: "\<not> lf_dirpresent s" "0 < lf_mutex s"
  shows "\<exists>s'. lfsopen name mode s = Inr (SYSERR_st, s')"
proof -
  let ?d = "zero_dir\<lparr>lfd_dfree := word_of_nat (K + 1)\<rparr>"
  have "dir_ok ?d" by (simp add: dir_ok_def zero_dir_def)
  then have b: "dir_of (bytes (ram s) 0 512) = ?d" using c by (simp only: created_def dir_of_bytes)
  have "lfscheck ?d = SYSERR_st" by (simp add: lfscheck_def zero_dir_def LFS_ID_def)
  then have "get_directory (s\<lparr>lf_mutex := lf_mutex s - 1\<rparr>) = Inr (SYSERR_st, s\<lparr>lf_mutex := lf_mutex s - 1, lf_dir := ?d\<rparr>)"
    using s(1) b by (simp add: get_directory_def ramread_def lf_sizes OK_st_def SYSERR_st_def)
  then show ?thesis using s(2) by (simp add: lfsopen_def wait_dir_def Let_def split: option.split)
qed

section \<open>Files are sequences of bytes\<close>

text \<open>C40: A program's calls on an open local file - single bytes, blocks of bytes, seeks, truncations, in any order -
  return exactly what they return on a sequence of bytes with a position: the bytes that are there, end of file behind
  the last one, an error for a seek behind the end and for a negative count. The file's contents and position afterwards
  are those of the sequence, all blocks of the disk still belong to one file or to a free list, every other file keeps its
  contents, and every other open file its position as well. The writes have to fit the room, which truncation gives back
  in full: the file's own blocks and the free ones. The file is open, nobody else holds its lock or the directory's, and
  \<open>junk\<close> is the rest of the stack buffer of \<^verbatim>\<open>lfdbfree\<close>.\<close>

theorem local_file_is_byte_sequence:
  assumes "file_is K S g s f e q" and "all_within (file_room g e) ops q"
  shows "\<exists>g' s'. lf_calls f ops s = Inr (fst (byte_calls ops q), s') \<and> file_is K S g' s' f e (snd (byte_calls ops q)) \<and>
    file_room g' e = file_room g e \<and> nfiles s' = nfiles s \<and>
    (\<forall>e' < nfiles s. e' \<noteq> e \<longrightarrow> contents g' s' e' = contents g s e') \<and>
    (\<forall>f2 e2 q2. f2 \<noteq> f \<longrightarrow> file_is K S g s f2 e2 q2 \<longrightarrow> file_is K S g' s' f2 e2 q2)"
proof -
  obtain g' s' where s': "lf_calls f ops s = Inr (fst (byte_calls ops q), s')" "file_is K S g' s' f e (snd (byte_calls ops q))"
    "only_file f e g s g' s'"
    using lf_calls_spec [OF assms] by blast
  then show ?thesis using other_file_is [OF s'(3) assms(1) s'(2)]
    by (intro exI [of _ g'] exI [of _ s'] conjI) (auto simp: only_file_def)
qed

text \<open>A disk of four sectors, made by \<^verbatim>\<open>lfscreate\<close> and given the numbers \<^verbatim>\<open>lfscheck\<close> asks for, on which a file is opened.\<close>

definition disk4 :: mem where
  "disk4 = (case lfscreate 7 2048 (\<lambda>_. 0) of Inr (_, m) \<Rightarrow> m | Inl _ \<Rightarrow> (\<lambda>_. 0))"

definition dir4 :: lfdir where
  "dir4 = zero_dir\<lparr>lfd_fsysid := LFS_ID, lfd_allones := 0xffffffff, lfd_dfree := 2, lfd_revid := byte_swap32 LFS_ID\<rparr>"

definition lfs4 :: lfs where
  "lfs4 = \<lparr>ram = wr_bytes disk4 0 (dir_bytes dir4), lf_mutex = 1, lf_dir = zero_dir, lf_dirpresent = False, lf_dirdirty = False,
     lfltab = (\<lambda>i. \<lparr>lfstate = LF_FREE, lfdev = 20 + int i, lfmutex = 1, lfdirptr = None, lfmode = 0, lfpos = 0,
       lfname = replicate LF_NAME_LEN 0, lfinum = LF_INULL, lfiblock = lfibclear 0, lfdnum = 0,
       lfdblock = replicate LF_BLKSIZ 0, lfbyte = LF_BLKSIZ, lfibdirty = False, lfdbdirty = False\<rparr>)\<rparr>"

lemma disk4_created: "created 1 4 disk4"
proof -
  have "0 < unat (7 :: u32)" "1 = (unat (7 :: u32) + 6) div 7" "4 = unat (2048 :: u32) div 512" "1 \<le> (4 :: nat) div 2"
    "4 \<le> RM_BLKS" "3 \<le> (4 :: nat)"
    by (simp_all add: RM_BLKS_def)
  from lfscreate_creates [OF this, of "\<lambda>_. 0"] show ?thesis by (auto simp: disk4_def)
qed

lemma dir4_ok: "dir_ok dir4"
  by (simp add: dir4_def zero_dir_def dir_ok_def)

lemma lfs4_open:
  "\<exists>s'. lfsopen [97] [CH_r, CH_w] lfs4 = Inr (20, s') \<and> file_is 1 4 (add_ghost 0 (empty_ghost 1 4 disk4)) s' 0 0 ([], 0)"
proof -
  let ?t = "lfs4\<lparr>lf_mutex := 0, lf_dir := dir4, lf_dirpresent := True\<rparr>"
  have b: "bytes (wr_bytes disk4 0 (dir_bytes dir4)) 0 512 = dir_bytes dir4"
    using length_dir_bytes [OF dir4_ok] by (simp add: bytes_wr_same LF_BLKSIZ_def)
  have "lfscheck dir4 = OK_st" by (simp add: lfscheck_def dir4_def zero_dir_def)
  then have dir: "get_directory (lfs4\<lparr>lf_mutex := 1 - 1\<rparr>) = Inr (OK_st, ?t)"
    by (simp add: get_directory_def lfs4_def ramread_def lf_sizes b dir_of_bytes [OF dir4_ok] OK_st_def SYSERR_st_def)
  have l: "length (dir_bytes dir4) \<le> 512" using length_dir_bytes [OF dir4_ok] by (simp add: LF_BLKSIZ_def)
  have inv: "fs_inv 1 4 (empty_ghost 1 4 disk4) ?t"
  proof (rule empty_disk_inv [OF disk4_created])
    show "dir_ok (lf_dir ?t)" by (simp add: dir4_ok)
    show "\<forall>k. valid_ib 1 k \<longrightarrow> iblk_at (ram ?t) k = iblk_at disk4 k" using l by (simp add: lfs4_def iblk_at_dir)
    show "\<forall>x. data_id 1 4 x \<longrightarrow> dblk_at (ram ?t) x = dblk_at disk4 x"
      using l dblk_at_dir [of 1] by (simp add: lfs4_def data_id_def)
  qed (simp_all add: lfs4_def dir4_def zero_dir_def in_use_def RM_BLKS_def)
  have n: "nfiles ?t = 0" by (simp add: nfiles_def dir4_def zero_dir_def)
  have md: "lfgetmode [CH_r, CH_w] = 3"
    by (simp add: lfgetmode_def CH_r_def CH_w_def LF_MODE_R_def LF_MODE_W_def LF_MODE_RW_def)
  have free: "lfstate (lfltab lfs4 i) = LF_FREE" "0 < lfmutex (lfltab lfs4 i)" for i by (simp_all add: lfs4_def)
  have slot: "List.find (\<lambda>i. lfstate (lfltab lfs4 i) = LF_FREE) [0..<Nlfl] = Some 0"
    by (simp add: free Nlfl_def upt_rec)
  have fnd: "dir_find [97] (lf_dir ?t) = Inr None" by (simp add: dir_find_def dir4_def zero_dir_def)
  have m: "lf_mutex lfs4 = 1" "lf_mutex ?t = 1 - 1" "lfltab ?t = lfltab lfs4" by (simp_all add: lfs4_def)
  have "\<exists>s'. lfsopen [97] [CH_r, CH_w] lfs4 = Inr (lfdev (lfltab lfs4 0), s') \<and>
    file_is 1 4 (add_ghost (nfiles ?t) (empty_ghost 1 4 disk4)) s' 0 (nfiles ?t) ([], 0) \<and> nfiles s' = Suc (nfiles ?t) \<and>
    (\<forall>e < nfiles ?t. contents (add_ghost (nfiles ?t) (empty_ghost 1 4 disk4)) s' e = contents (empty_ghost 1 4 disk4) ?t e)"
    by (rule lfsopen_new [OF _ _ _ _ slot free(2) _ _ inv])
      (use dir fnd in \<open>simp_all only: m md n free\<close>, simp_all add: LF_NAME_LEN_def LF_MODE_O_def LF_NUM_DIR_ENT_def)
  moreover have "lfdev (lfltab lfs4 0) = 20" by (simp add: lfs4_def)
  ultimately show ?thesis unfolding n by auto
qed

theorem local_file_is_byte_sequence_witness:
  "\<exists>s0 s'. lfsopen [97] [CH_r, CH_w] lfs4 = Inr (20, s0) \<and>
    lf_calls 0 [LFwrite [104, 105], LFseek 0, LFread 10, LFgetc, LFtrunc (replicate 508 0), LFread 5, LFputc 33] s0 =
      Inr ([(2, []), (OK_st, []), (2, [104, 105]), (LF_EOF, []), (OK_st, []), (LF_EOF, []), (OK_st, [])], s')"
proof -
  let ?ops = "[LFwrite [104, 105], LFseek 0, LFread 10, LFgetc, LFtrunc (replicate 508 0), LFread 5, LFputc 33]"
  obtain s0 where s0: "lfsopen [97] [CH_r, CH_w] lfs4 = Inr (20, s0)"
    "file_is 1 4 (add_ghost 0 (empty_ghost 1 4 disk4)) s0 0 0 ([], 0)"
    using lfs4_open by blast
  have "file_room (add_ghost 0 (empty_ghost 1 4 disk4)) 0 = 1024"
    by (simp add: file_room_def add_ghost_def empty_ghost_def)
  then have "all_within (file_room (add_ghost 0 (empty_ghost 1 4 disk4)) 0) ?ops ([], 0)"
    by (simp add: within_def byte_next_def write_all_def)
  from local_file_is_byte_sequence [OF s0(2) this] show ?thesis
    using s0(1) by (auto simp: byte_result_def byte_next_def write_all_def read_result_def)
qed

end
