(* ===== verification/Spec2Isabelle.thy ===== *)
theory Spec2Isabelle
  imports Net_Input Buffer_Pool Ports Eth_Ring Tty Shell Lfs_Open
begin

text \<open>
  A model of the IPv6 NAT box built on the Xinu kernel (\<^verbatim>\<open>src/cs636-base\<close>): its IPv6 network code and the
  kernel it runs on, with the theorems that make them correct.

  \<^bold>\<open>The program.\<close> The box has an Ethernet interface to the outside and up to two emulated ones to the inside.
  \<^verbatim>\<open>rawin\<close> (\<^verbatim>\<open>net/net.c\<close>) takes each frame from the Ethernet driver, decides by the destination address which
  interface it belongs to and puts it on that interface's ring; one \<^verbatim>\<open>netin\<close> process per interface takes packets off
  the ring and hands them to \<^verbatim>\<open>ipv6_in\<close> (\<^verbatim>\<open>net/ipv6.c\<close>). On the box it translates echo messages between inside and
  outside (\<^verbatim>\<open>net/nat.c\<close>), looks up the next hop (\<^verbatim>\<open>net/fwdipv6.c\<close>, \<^verbatim>\<open>net/ndcache.c\<close>) and writes the packet to an
  interface; on a host, and for packets to the box, it reassembles fragments (\<^verbatim>\<open>net/reassembly.c\<close>) and dispatches ICMPv6
  messages (\<^verbatim>\<open>net/icmpv6.c\<close> and the neighbour discovery files). All of it runs in processes of the kernel
  (\<^verbatim>\<open>system/*.c\<close>): a priority scheduler on a table of doubly linked queues, semaphores, messages, sleeping on a
  delta list, a first-fit heap.

  \<^bold>\<open>Theories of the network.\<close>
  \<^item> \<^verbatim>\<open>Net_Prelude\<close>: word types, byte memory (\<open>bytes\<close>, \<open>wr_bytes\<close>, \<open>rd16\<close>, \<open>wr16\<close>), results with faults, the collections
    \<open>mem_simps\<close> and \<open>res_simps\<close>. \<^verbatim>\<open>Fifo\<close>: the contract of a bounded queue (locale \<open>bounded_fifo\<close>) and the array ring.
  \<^item> \<^verbatim>\<open>Checksum6\<close>: \<^verbatim>\<open>net/checksum6.c\<close>; the sum as an exact number, its folding, when the loop does not end.
  \<^item> \<^verbatim>\<open>Fwd_Table\<close>, \<^verbatim>\<open>ND_Cache\<close>, \<^verbatim>\<open>Nat_Table\<close>: the tables of \<^verbatim>\<open>net/fwdipv6.c\<close>, \<^verbatim>\<open>net/ndcache.c\<close> and \<^verbatim>\<open>net/nat.c\<close>;
    longest prefix match, the table sorted by prefix length after every insertion, lookups, identifiers.
  \<^item> \<^verbatim>\<open>Net_State\<close>: the global variables of the network code and the layout of a packet; \<^verbatim>\<open>Eth_Mcast\<close>: the multicast filter
    of the Ethernet driver (\<^verbatim>\<open>device/eth/ethmcast.c\<close>) with its use in \<^verbatim>\<open>ethread\<close> and \<^verbatim>\<open>ethwrite\<close>; \<^verbatim>\<open>Eth_Ring\<close>: the
    descriptor rings of the driver (\<^verbatim>\<open>device/eth/ethwrite.c\<close>, \<^verbatim>\<open>ethread.c\<close>, \<^verbatim>\<open>ethhandler.c\<close>, \<^verbatim>\<open>ethinit.c\<close>): frames leave
    in the order they were written, and what happens when a ring is full.
  \<^item> \<^verbatim>\<open>Pkt_Build\<close> (\<^verbatim>\<open>net/sendipv6pkt.c\<close>), \<^verbatim>\<open>Icmp_Valid\<close> (the validators), \<^verbatim>\<open>Nd_Send\<close>, \<^verbatim>\<open>Nd_Handle\<close> (senders and handlers
    of the neighbour discovery messages): what is written into a packet, what is accepted, and that the box's own
    solicitations pass the validation of a receiver.
  \<^item> \<^verbatim>\<open>Nat_Rewrite\<close>: \<^verbatim>\<open>outPktRW\<close>, \<^verbatim>\<open>incPktRW\<close>, \<^verbatim>\<open>fwdIPDatagram\<close>; a reply finds its way back.
  \<^item> \<^verbatim>\<open>Sendto\<close> (\<^verbatim>\<open>net/sendto.c\<close>, \<^verbatim>\<open>net/datagram.c\<close>), \<^verbatim>\<open>Reassembly\<close> (\<^verbatim>\<open>net/reassembly.c\<close>), \<^verbatim>\<open>Frag_Ring\<close> (the ring of
    fragments refines a list), \<^verbatim>\<open>Frag_Trip\<close> (fragments of a datagram reassemble to its payload).
  \<^item> \<^verbatim>\<open>Ipv6_In\<close>, \<^verbatim>\<open>Ipv6_Init\<close>, \<^verbatim>\<open>Net_Input\<close>: \<^verbatim>\<open>ipv6_in\<close> on every path, \<^verbatim>\<open>ipv6_init\<close>, \<^verbatim>\<open>net_init\<close>, and \<^verbatim>\<open>rawin\<close>/\<^verbatim>\<open>netin\<close>
    as steps on the rings; each packet buffer is freed exactly once, packets come out in order, bursts lose one.

  \<^bold>\<open>Theories of the kernel.\<close>
  \<^item> \<^verbatim>\<open>Proc_Queue\<close>: the kernel's state and \<^verbatim>\<open>system/queue.c\<close>, \<^verbatim>\<open>getitem.c\<close>, \<^verbatim>\<open>newqueue.c\<close>, \<^verbatim>\<open>insert.c\<close>, \<^verbatim>\<open>insertd.c\<close>; every
    operation on the node table is an operation on lists (locale \<open>unique_fifo\<close>, interpreted on \<open>enqueue\<close> and \<open>dequeue\<close>).
  \<^item> \<^verbatim>\<open>Sched\<close>: \<^verbatim>\<open>resched\<close>, \<^verbatim>\<open>ready\<close>, \<^verbatim>\<open>suspend\<close>, \<^verbatim>\<open>resume\<close>, \<^verbatim>\<open>chprio\<close>, \<^verbatim>\<open>yield\<close>, \<^verbatim>\<open>unsleep\<close>, and the invariant \<open>kinv X\<close>:
    a process is in the queue its state names, except those of \<open>X\<close>, which are being moved.
  \<^item> \<^verbatim>\<open>Semaphores\<close>: all semaphore calls; they implement tokens and a queue of waiting processes.
  \<^item> \<^verbatim>\<open>Timing\<close>: messages, sleeping and the clock interrupt; sleepers wake at their time, messages arrive once.
  \<^item> \<^verbatim>\<open>Kernel\<close>: \<^verbatim>\<open>sysinit\<close> and all calls on queues, semaphores, messages and time as one transition function
    (\<open>exec\<close>); each keeps \<open>kernel_ok\<close>.
  \<^item> \<^verbatim>\<open>Kmem\<close>: \<^verbatim>\<open>getmem\<close>, \<^verbatim>\<open>freemem\<close>, \<^verbatim>\<open>getstk\<close>, \<^verbatim>\<open>freestk\<close> against the list of free blocks.
  \<^item> \<^verbatim>\<open>Proc_Life\<close>: \<^verbatim>\<open>create\<close> with the stack it prepares, \<^verbatim>\<open>kill\<close>, the context switch \<^verbatim>\<open>ctxsw\<close> on words of memory.
  \<^item> \<^verbatim>\<open>System\<close>: the kernel with its heap as one transition system (locale \<open>guarded_system\<close>, interpreted on the calls);
    the invariant of its reachable states, stacks that are disjoint from each other and from the heap included.
  \<^item> \<^verbatim>\<open>Word_List\<close>, \<^verbatim>\<open>Buffer_Pool\<close>, \<^verbatim>\<open>Ports\<close>: lists linked through a word of their nodes; buffer pools (\<^verbatim>\<open>system/mkbufpool.c\<close>,
    \<^verbatim>\<open>getbuf.c\<close>, \<^verbatim>\<open>freebuf.c\<close>) and ports (\<^verbatim>\<open>system/pt*.c\<close>) over the semaphores: no buffer has two owners, a port is a
    bounded queue, for every interleaving of their users.

  \<^bold>\<open>Theories of the user interface.\<close>
  \<^item> \<^verbatim>\<open>Tty\<close>: the terminal driver (\<^verbatim>\<open>device/tty\<close>): line editing as an operation on a list of finished characters and the
    line being typed, reading, writing, echo, output through the FIFO of the UART; where the indices stay.
  \<^item> \<^verbatim>\<open>Shell\<close>: \<^verbatim>\<open>shell/lexan.c\<close>, the parts of \<^verbatim>\<open>shell/shell.c\<close> that decide what a line does, and \<^verbatim>\<open>shell/addargs.c\<close>; a
    printed command is read as that command, and its words reach the stack of the new process.

  \<^bold>\<open>Theories of the local file system\<close> (\<^verbatim>\<open>device/lfs\<close> on \<^verbatim>\<open>device/ram\<close>).
  \<^item> \<^verbatim>\<open>Lfs_Disk\<close>: the RAM disk, the layout of the directory and of index blocks, the free lists, \<^verbatim>\<open>lfscreate\<close>,
    \<^verbatim>\<open>lfscheck\<close>, \<^verbatim>\<open>lfsckfmt\<close>; images read back are what was written, and what \<^verbatim>\<open>lfscreate\<close> puts on a disk.
  \<^item> \<^verbatim>\<open>Lfs_File\<close>: the calls on open files, from \<^verbatim>\<open>lfsopen\<close> to \<^verbatim>\<open>lflcontrol\<close>.
  \<^item> \<^verbatim>\<open>Lfs_Refine\<close>, \<^verbatim>\<open>Lfs_Calls\<close>, \<^verbatim>\<open>Lfs_Trunc\<close>, \<^verbatim>\<open>Lfs_Files\<close>, \<^verbatim>\<open>Lfs_Open\<close>: the relation \<open>fs_inv\<close> between the disk with the
    control blocks and files made of blocks that belong to one owner each (\<open>fsg\<close>); finding and allocating blocks
    (\<^verbatim>\<open>lfsetup\<close>), bytes, truncation and opening keep it, and a file behaves as a sequence of bytes with a position.

  \<^bold>\<open>Conventions.\<close> Integers of the network code are words of their C width; those of the kernel are \<open>int\<close> with the
  wrap-around written out (\<open>i32\<close>, \<open>w32\<close>). Memory reached through pointers is a total map from addresses to bytes;
  an outgoing packet is built in a zeroed block of its own at address 0. Arrays indexed by the program are lists, or
  total functions where an index outside the table is not specified. An operation that does not come back has a fault
  as its result (\<open>Null_deref\<close>, \<open>Out_of_bounds\<close>, \<open>Diverges\<close>, \<open>Killed\<close>, \<open>Blocked\<close>, \<open>Panic\<close>); a write outside an array
  that the program survives is recorded in a log of overruns. Loops that may run forever are partial functions with
  \<open>None\<close> for not returning. What other processes do while one sleeps is a parameter (\<open>others\<close>), as are the cycle counter
  (\<open>ticks\<close>) and the contents of fresh heap blocks. In \<^verbatim>\<open>Net_Input\<close>, \<^verbatim>\<open>Eth_Ring\<close>, \<^verbatim>\<open>Tty\<close> and \<^verbatim>\<open>Lfs_File\<close> semaphores are
  counters with the effect the theory \<^verbatim>\<open>Semaphores\<close> proves of them. The DMA engine of the Ethernet device is a step of
  its own in \<^verbatim>\<open>Eth_Ring\<close>: it sends the frames of the descriptors it owns in ring order and gives them back.

  In the kernel a context switch ends the modelled part of a call: the resulting state is the one in which the chosen
  process runs. What the caller does when it runs again is a second operation (\<open>receive_return\<close>, \<open>recvtime_return\<close>,
  \<open>suspend_return\<close>, and \<open>kill_finish\<close> after \<open>kill_start\<close>). \<open>may\<close> and \<open>sys_may\<close> state what the callers respect; a timed receive with limit 0 is left out of it because
  its expiry delays the other sleepers by a tick.

  \<^bold>\<open>Bounds.\<close> Fuel is used for loops over fixed tables (the bound is the table's size) and for walks along lists on the
  disk, where it exceeds the number of blocks and running out of it is \<open>Diverges\<close>; \<open>lf_calls_spec\<close> shows that it is enough. The theorems about the
  heap hold for requests up to \<open>2 ^ 32 - 8\<close> bytes; \<open>getmem_huge_request\<close> shows what happens above.

  \<^bold>\<open>Not modelled.\<close> \<^verbatim>\<open>net/udp.c\<close> and \<^verbatim>\<open>net/dns.c\<close>: their bodies are compiled out. Console output (\<^verbatim>\<open>kprintf\<close>, the packet
  printers, the shell's commands). The set-up of the Ethernet and UART registers, the remote file system and
  remote disk, the name space, and the C library (\<^verbatim>\<open>lib/\<close>) except \<^verbatim>\<open>rand_r\<close> and \<^verbatim>\<open>memcpy\<close>. Interrupt vectors, PCI and
  segment registers, which are hardware access.
\<close>

end
